(* ===== verification/Prelude.thy ===== *)
theory Prelude
  imports Main "HOL-Library.Word"
begin

text \<open>
  Names and facts shared by every component: the machine types of the code
  (\<open>unsigned char\<close> is \<open>u8\<close>, \<open>int\<close> and \<open>unsigned\<close> are \<open>i32\<close>, read with \<open>sint\<close> or
  \<open>uint\<close>), the theorem collections that the components extend, and generic lemmas on
  words, options and lists.
\<close>

unbundle bit_operations_syntax

type_synonym u8 = "8 word"
type_synonym i32 = "32 word"

named_theorems wire_simps "unfolding rules of the wire formats"
named_theorems codec_intros "an encoder is inverted by its decoder"
named_theorems inv_intros "operations that keep a component's invariant"
named_theorems frame_simps "fields an operation leaves alone"

text \<open>A C string literal as the bytes before its terminator.\<close>

definition bytes_of :: "string \<Rightarrow> u8 list" where
  "bytes_of s = map of_char s"

lemma bytes_of_Nil [simp]: "bytes_of [] = []"
  by (simp add: bytes_of_def)

lemma bytes_of_Cons [simp]: "bytes_of (c # s) = of_char c # bytes_of s"
  by (simp add: bytes_of_def)

text \<open>The conversion of an integer to a byte.\<close>

definition byte :: "int \<Rightarrow> u8" where
  "byte x = word_of_int x"

lemma uint_byte [simp]: "0 \<le> x \<Longrightarrow> x < 256 \<Longrightarrow> uint (byte x) = x"
  by (simp add: byte_def uint_word_of_int take_bit_eq_mod)

lemma byte_uint [simp]: "byte (uint b) = b"
  by (simp add: byte_def)

lemma byte_bounds: "0 \<le> uint (b::u8)" "uint b < 256"
  using uint_lt2p [of b] by simp_all

section \<open>Words\<close>

lemma word_eq_bitI:
  fixes a b :: "'a::len word"
  shows "(\<And>n. n < LENGTH('a) \<Longrightarrow> bit a n = bit b n) \<Longrightarrow> a = b"
  by (rule bit_word_eqI) blast

lemma drop_bit_zero_iff_bits:
  fixes n :: "'a::len word"
  shows "drop_bit k n = 0 \<longleftrightarrow> (\<forall>j. k \<le> j \<longrightarrow> \<not> bit n j)"
proof
  assume zero: "drop_bit k n = 0"
  show "\<forall>j. k \<le> j \<longrightarrow> \<not> bit n j"
  proof (intro allI impI)
    fix j assume "k \<le> j"
    then have "bit n j = bit (drop_bit k n) (j - k)" by (simp add: bit_drop_bit_eq)
    with zero show "\<not> bit n j" by simp
  qed
next
  assume "\<forall>j. k \<le> j \<longrightarrow> \<not> bit n j"
  then show "drop_bit k n = 0"
    by (intro bit_word_eqI) (simp add: bit_drop_bit_eq)
qed

lemma unat_drop_bit_less:
  fixes n :: "'a::len word"
  assumes "n \<noteq> 0" "0 < k"
  shows "unat (drop_bit k n) < unat n"
proof -
  have "0 < unat n" using assms(1) by (simp add: unat_gt_0)
  moreover have "1 < (2::nat) ^ k" using assms(2) by (intro one_less_power) simp_all
  ultimately have "unat n div 2 ^ k < unat n" by (intro div_less_dividend)
  moreover have "unat (drop_bit k n) = unat n div 2 ^ k"
    by (simp only: unat_drop_bit_eq) (rule drop_bit_eq_div)
  ultimately show ?thesis by simp
qed

lemma drop_bit_zero_unat: "drop_bit k (n::'a::len word) = 0 \<longleftrightarrow> unat n < 2 ^ k"
proof -
  have "drop_bit k n = 0 \<longleftrightarrow> unat (drop_bit k n) = 0" by (simp add: unat_eq_zero)
  also have "unat (drop_bit k n) = unat n div 2 ^ k"
    by (simp only: unat_drop_bit_eq) (rule drop_bit_eq_div)
  finally show ?thesis by (simp add: div_eq_0_iff)
qed

lemma word_lt_bits:
  fixes n :: "'a::len word"
  assumes "unat n < 2 ^ k" "k \<le> j"
  shows "\<not> bit n j"
proof -
  have "unat n < 2 ^ j" using assms by (meson less_le_trans one_le_numeral power_increasing)
  then have "\<not> bit (unat n) j" by (simp add: bit_iff_odd)
  moreover have "bit n j \<Longrightarrow> bit (unat n) j"
    by (simp add: unsigned_of_nat bit_imp_le_length bit_simps)
  ultimately show ?thesis by blast
qed

text \<open>The bits of the literals the code masks with.\<close>

named_theorems lit_bits "bits of literal masks"

lemma bit_mask_lits [lit_bits]:
  "bit (0x3::'a::len word) n \<longleftrightarrow> n < 2 \<and> n < LENGTH('a)"
  "bit (0x7::'a::len word) n \<longleftrightarrow> n < 3 \<and> n < LENGTH('a)"
  "bit (0xF::'a::len word) n \<longleftrightarrow> n < 4 \<and> n < LENGTH('a)"
  "bit (0x1F::'a::len word) n \<longleftrightarrow> n < 5 \<and> n < LENGTH('a)"
  "bit (0x3F::'a::len word) n \<longleftrightarrow> n < 6 \<and> n < LENGTH('a)"
  "bit (0x7F::'a::len word) n \<longleftrightarrow> n < 7 \<and> n < LENGTH('a)"
  "bit (0xFF::'a::len word) n \<longleftrightarrow> n < 8 \<and> n < LENGTH('a)"
proof -
  have "(0x3::'a word) = mask 2"
    "(0x7::'a word) = mask 3"
    "(0xF::'a word) = mask 4"
    "(0x1F::'a word) = mask 5"
    "(0x3F::'a word) = mask 6"
    "(0x7F::'a word) = mask 7"
    "(0xFF::'a word) = mask 8"
    by (simp_all add: mask_eq_exp_minus_1)
  then show "bit (0x3::'a word) n \<longleftrightarrow> n < 2 \<and> n < LENGTH('a)"
    "bit (0x7::'a word) n \<longleftrightarrow> n < 3 \<and> n < LENGTH('a)"
    "bit (0xF::'a word) n \<longleftrightarrow> n < 4 \<and> n < LENGTH('a)"
    "bit (0x1F::'a word) n \<longleftrightarrow> n < 5 \<and> n < LENGTH('a)"
    "bit (0x3F::'a word) n \<longleftrightarrow> n < 6 \<and> n < LENGTH('a)"
    "bit (0x7F::'a word) n \<longleftrightarrow> n < 7 \<and> n < LENGTH('a)"
    "bit (0xFF::'a word) n \<longleftrightarrow> n < 8 \<and> n < LENGTH('a)"
    by (simp_all only: bit_mask_iff possible_bit_word conj_commute)
qed

lemma bit_exp_lits [lit_bits]:
  "bit (0x8::'a::len word) n \<longleftrightarrow> n = 3 \<and> n < LENGTH('a)"
  "bit (0x10::'a::len word) n \<longleftrightarrow> n = 4 \<and> n < LENGTH('a)"
  "bit (0x20::'a::len word) n \<longleftrightarrow> n = 5 \<and> n < LENGTH('a)"
  "bit (0x40::'a::len word) n \<longleftrightarrow> n = 6 \<and> n < LENGTH('a)"
  "bit (0x80::'a::len word) n \<longleftrightarrow> n = 7 \<and> n < LENGTH('a)"
proof -
  have "(0x8::'a word) = 2 ^ 3"
    "(0x10::'a word) = 2 ^ 4"
    "(0x20::'a word) = 2 ^ 5"
    "(0x40::'a word) = 2 ^ 6"
    "(0x80::'a word) = 2 ^ 7"
    by simp_all
  then show "bit (0x8::'a word) n \<longleftrightarrow> n = 3 \<and> n < LENGTH('a)"
    "bit (0x10::'a word) n \<longleftrightarrow> n = 4 \<and> n < LENGTH('a)"
    "bit (0x20::'a word) n \<longleftrightarrow> n = 5 \<and> n < LENGTH('a)"
    "bit (0x40::'a word) n \<longleftrightarrow> n = 6 \<and> n < LENGTH('a)"
    "bit (0x80::'a word) n \<longleftrightarrow> n = 7 \<and> n < LENGTH('a)"
    by (simp_all only: bit_exp_iff possible_bit_word) auto
qed

lemma bit_mask_int_lits [lit_bits]:
  "bit (0x3::int) n \<longleftrightarrow> n < 2"
  "bit (0x7::int) n \<longleftrightarrow> n < 3"
  "bit (0xF::int) n \<longleftrightarrow> n < 4"
  "bit (0x1F::int) n \<longleftrightarrow> n < 5"
  "bit (0x3F::int) n \<longleftrightarrow> n < 6"
  "bit (0x7F::int) n \<longleftrightarrow> n < 7"
  "bit (0xFF::int) n \<longleftrightarrow> n < 8"
proof -
  have "(0x3::int) = mask 2"
    "(0x7::int) = mask 3"
    "(0xF::int) = mask 4"
    "(0x1F::int) = mask 5"
    "(0x3F::int) = mask 6"
    "(0x7F::int) = mask 7"
    "(0xFF::int) = mask 8"
    by (simp_all add: mask_eq_exp_minus_1)
  then show "bit (0x3::int) n \<longleftrightarrow> n < 2"
    "bit (0x7::int) n \<longleftrightarrow> n < 3"
    "bit (0xF::int) n \<longleftrightarrow> n < 4"
    "bit (0x1F::int) n \<longleftrightarrow> n < 5"
    "bit (0x3F::int) n \<longleftrightarrow> n < 6"
    "bit (0x7F::int) n \<longleftrightarrow> n < 7"
    "bit (0xFF::int) n \<longleftrightarrow> n < 8"
    by (simp_all only: bit_mask_iff possible_bit_int simp_thms)
qed

lemma bit_exp_int_lits [lit_bits]:
  "bit (0x8::int) n \<longleftrightarrow> n = 3"
  "bit (0x10::int) n \<longleftrightarrow> n = 4"
  "bit (0x20::int) n \<longleftrightarrow> n = 5"
  "bit (0x40::int) n \<longleftrightarrow> n = 6"
  "bit (0x80::int) n \<longleftrightarrow> n = 7"
proof -
  have "(0x8::int) = 2 ^ 3"
    "(0x10::int) = 2 ^ 4"
    "(0x20::int) = 2 ^ 5"
    "(0x40::int) = 2 ^ 6"
    "(0x80::int) = 2 ^ 7"
    by simp_all
  then show "bit (0x8::int) n \<longleftrightarrow> n = 3"
    "bit (0x10::int) n \<longleftrightarrow> n = 4"
    "bit (0x20::int) n \<longleftrightarrow> n = 5"
    "bit (0x40::int) n \<longleftrightarrow> n = 6"
    "bit (0x80::int) n \<longleftrightarrow> n = 7"
    by (simp_all only: bit_exp_iff possible_bit_int simp_thms)
qed

section \<open>Lists and options\<close>

lemma map_option_Some_conv: "map_option f x = Some y \<longleftrightarrow> (\<exists>z. x = Some z \<and> y = f z)"
  by (cases x) auto

lemma takeWhile_terminator [simp]:
  "a \<notin> set ys \<Longrightarrow> takeWhile (\<lambda>b. b \<noteq> a) (ys @ a # zs) = ys"
  by (induction ys) auto

lemma length_concat_le:
  assumes "\<And>x. x \<in> set xs \<Longrightarrow> length (f x) \<le> k"
  shows "length (concat (map f xs)) \<le> k * length xs"
  using assms by (induction xs) fastforce+

end
