(* ===== verification/Codec.thy ===== *)
theory Codec
  imports Prelude
begin

text \<open>
  The contract between an encoder and its decoder: the decoder, given an encoding
  followed by anything, returns the value and what follows. Everything a client of such a
  pair needs (sequences of values decode, codes are prefix free, encoding is injective) is
  proved here once.
\<close>

text \<open>Decode \<open>n\<close> values one after the other.\<close>

fun dec_n :: "('b list \<Rightarrow> ('a \<times> 'b list) option) \<Rightarrow> nat \<Rightarrow> 'b list \<Rightarrow> ('a list \<times> 'b list) option" where
  "dec_n dec 0 bs = Some ([], bs)"
| "dec_n dec (Suc n) bs =
     (case dec bs of
        None \<Rightarrow> None
      | Some (x, bs') \<Rightarrow> map_option (\<lambda>(xs, r). (x # xs, r)) (dec_n dec n bs'))"

locale codec =
  fixes enc :: "'a \<Rightarrow> 'b list"
    and dec :: "'b list \<Rightarrow> ('a \<times> 'b list) option"
    and ok :: "'a \<Rightarrow> bool"
  assumes dec_enc: "ok x \<Longrightarrow> dec (enc x @ rest) = Some (x, rest)"
begin

lemma enc_inj: "ok x \<Longrightarrow> ok y \<Longrightarrow> enc x = enc y \<Longrightarrow> x = y"
  using dec_enc [of x "[]"] dec_enc [of y "[]"] by simp

text \<open>No encoding is a prefix of another one followed by anything.\<close>

lemma prefix_free:
  assumes "ok x" "ok y" "enc x @ r = enc y @ s"
  shows "x = y \<and> r = s"
proof -
  have "Some (x, r) = Some (y, s)" by (metis dec_enc assms)
  then show ?thesis by simp
qed

lemma dec_n_enc_all:
  "\<forall>x \<in> set xs. ok x \<Longrightarrow> dec_n dec (length xs) (concat (map enc xs) @ rest) = Some (xs, rest)"
  by (induction xs) (simp_all add: dec_enc)

lemma concat_enc_inj:
  assumes "\<forall>x \<in> set xs. ok x" "\<forall>y \<in> set ys. ok y" "length xs = length ys"
    and "concat (map enc xs) @ r = concat (map enc ys) @ s"
  shows "xs = ys \<and> r = s"
proof -
  have "Some (xs, r) = Some (ys, s)"
    by (metis dec_n_enc_all assms)
  then show ?thesis by simp
qed

end

text \<open>A codec whose encodings are never empty: a sequence needs no length to be parsed.\<close>

locale progress_codec = codec +
  assumes enc_nonempty: "ok x \<Longrightarrow> enc x \<noteq> []"
begin

lemma concat_enc_split:
  "\<forall>x \<in> set xs. ok x \<Longrightarrow> \<forall>y \<in> set ys. ok y \<Longrightarrow>
     concat (map enc xs) @ p = concat (map enc ys) \<Longrightarrow>
     \<exists>zs. ys = xs @ zs \<and> p = concat (map enc zs)"
proof (induction xs arbitrary: ys)
  case (Cons x xs)
  then obtain y ys' where ys: "ys = y # ys'" using enc_nonempty by (cases ys) auto
  with Cons.prems have eq: "enc x @ (concat (map enc xs) @ p) = enc y @ concat (map enc ys')" by simp
  have "x = y \<and> concat (map enc xs) @ p = concat (map enc ys')"
    using Cons.prems ys by (intro prefix_free [OF _ _ eq]) simp_all
  then show ?case using Cons.IH [of ys'] Cons.prems ys by auto
qed simp

lemma concat_enc_eq:
  assumes "\<forall>x \<in> set xs. ok x" "\<forall>y \<in> set ys. ok y" "concat (map enc xs) = concat (map enc ys)"
  shows "xs = ys"
proof -
  obtain zs where zs: "ys = xs @ zs" "[] = concat (map enc zs)"
    using concat_enc_split [of xs ys "[]"] assms by auto
  then have "zs = []" using assms(2) enc_nonempty by (cases zs) auto
  with zs show ?thesis by simp
qed

end

end
