(* ===== verification/VarInt.thy ===== *)
theory VarInt
  imports Prelude Codec
begin

text \<open>
  The variable-length integers of \<^verbatim>\<open>src/src/engine/shared/compression.cpp\<close>
  (class \<open>CVariableInt\<close>). An output pointer becomes the list of bytes written, an
  input pointer with its remaining size the list of bytes that are left, and the null
  pointer \<open>None\<close>.
\<close>

section \<open>Pack and Unpack\<close>

text \<open>
  The loop of \<open>Pack\<close>: \<open>b\<close> is \<open>*pDst\<close>. The \<open>int\<close> is not negative when the loop is
  entered, so its arithmetic shift is the logical one.
\<close>

function Pack_loop :: "u8 \<Rightarrow> i32 \<Rightarrow> int \<Rightarrow> u8 list option" where
  "Pack_loop b i DstSize =
     (if i = 0 then Some [b]
      else if DstSize \<le> 0 then None
      else map_option (Cons (b OR 0x80))
             (Pack_loop (ucast (i AND 0x7F)) (drop_bit 7 i) (DstSize - 1)))"
  by pat_completeness auto
termination
  by (relation "measure (\<lambda>(b, i, d). unat i)") (auto simp: unat_drop_bit_less)

declare Pack_loop.simps [simp del]

definition Pack :: "i32 \<Rightarrow> int \<Rightarrow> u8 list option" where
  "Pack i DstSize =
     (if DstSize \<le> 0 then None
      else let sgn = (if sint i < 0 then 0x40 else 0);
               i' = (if sint i < 0 then NOT i else i)
           in Pack_loop (sgn OR ucast (i' AND 0x3F)) (drop_bit 6 i') (DstSize - 1))"

definition s_aMasksShifts :: "(i32 \<times> nat) list" where
  "s_aMasksShifts = [(0x7F, 6), (0x7F, 13), (0x7F, 20), (0x0F, 27)]"

fun Unpack_loop :: "(i32 \<times> nat) list \<Rightarrow> u8 \<Rightarrow> i32 \<Rightarrow> u8 list \<Rightarrow> (i32 \<times> u8 list) option" where
  "Unpack_loop [] b v src = Some (v, src)"
| "Unpack_loop ((msk, shift) # ms) b v src =
     (if b AND 0x80 = 0 then Some (v, src)
      else case src of
             [] \<Rightarrow> None
           | b' # src' \<Rightarrow> Unpack_loop ms b' (v OR push_bit shift (ucast b' AND msk)) src')"

fun Unpack :: "u8 list \<Rightarrow> (i32 \<times> u8 list) option" where
  "Unpack [] = None"
| "Unpack (b # src) =
     (let Sign = (ucast (drop_bit 6 b) AND 1 :: i32)
      in map_option (\<lambda>(v, src'). (v XOR (- Sign), src'))
           (Unpack_loop s_aMasksShifts b (ucast b AND 0x3F) src))"

section \<open>Unpack inverts Pack\<close>

text \<open>The masks \<open>ms\<close>, the first with shift \<open>s\<close>, read back any \<open>k\<close>-bit rest.\<close>

definition reads_back :: "(i32 \<times> nat) list \<Rightarrow> nat \<Rightarrow> nat \<Rightarrow> bool" where
  "reads_back ms s k \<longleftrightarrow>
     (\<forall>b n d bs. \<not> bit b 7 \<longrightarrow> drop_bit k n = 0 \<longrightarrow> Pack_loop b n d = Some bs \<longrightarrow>
        (\<exists>c cs. bs = c # cs \<and> take_bit 7 c = b \<and>
           (\<forall>v rest. Unpack_loop ms c v (cs @ rest) = Some (v OR push_bit s n, rest))))"

lemma reads_backD:
  assumes "reads_back ms s k" "Pack_loop b n d = Some bs" "\<not> bit b 7" "drop_bit k n = 0"
  obtains c cs where "bs = c # cs" "take_bit 7 c = b"
    "\<And>v rest. Unpack_loop ms c v (cs @ rest) = Some (v OR push_bit s n, rest)"
  using assms unfolding reads_back_def by metis

lemma bit7_test: "(b AND 0x80 = 0) = (\<not> bit (b::u8) 7)"
  using and_exp_eq_0_iff_not_bit [of b 7] by simp

lemma take_bit7_id: "\<not> bit (b::u8) 7 \<Longrightarrow> take_bit 7 b = b"
proof (rule word_eq_bitI)
  fix n assume "\<not> bit b 7" "n < LENGTH(8)"
  then show "bit (take_bit 7 b) n = bit b n" by (cases "n = 7") (auto simp: bit_simps)
qed

lemma take_bit7_or: "\<not> bit (b::u8) 7 \<Longrightarrow> take_bit 7 (b OR 0x80) = b"
proof (rule word_eq_bitI)
  fix n assume "\<not> bit b 7" "n < LENGTH(8)"
  then show "bit (take_bit 7 (b OR 0x80)) n = bit b n"
    by (cases "n = 7") (auto simp: bit_simps lit_bits)
qed

lemma append_bits7:
  fixes v n :: i32
  shows "(v OR push_bit s (n AND 0x7F)) OR push_bit (s + 7) (drop_bit 7 n) = v OR push_bit s n"
proof (rule word_eq_bitI)
  fix j assume "j < LENGTH(32)"
  consider "j < s" | "s \<le> j" "j - s < 7" | m where "j = s + 7 + m"
    by (metis le_add_diff_inverse less_diff_conv2 not_le add.commute)
  then show "bit ((v OR push_bit s (n AND 0x7F)) OR push_bit (s + 7) (drop_bit 7 n)) j
           = bit (v OR push_bit s n) j"
    by cases (auto simp: bit_simps lit_bits ac_simps)
qed

lemma low6_join:
  fixes i' :: i32 and b :: u8
  assumes "\<And>j. j < 6 \<Longrightarrow> bit b j = bit i' j"
  shows "(ucast b AND 0x3F) OR push_bit 6 (drop_bit 6 i') = i'"
proof (rule word_eq_bitI)
  fix j assume "j < LENGTH(32)"
  consider "j < 6" | m where "j = 6 + m" by (metis le_add_diff_inverse not_le)
  then show "bit ((ucast b AND 0x3F) OR push_bit 6 (drop_bit 6 i')) j = bit i' j"
    using assms \<open>j < LENGTH(32)\<close> by cases (auto simp: bit_simps lit_bits)
qed

lemma reads_back_step:
  assumes IH: "reads_back ms (s + 7) k"
  shows "reads_back ((0x7F, s) # ms) s (k + 7)"
  unfolding reads_back_def
proof (intro allI impI)
  fix b n d bs
  assume b: "\<not> bit b 7" and n: "drop_bit (k + 7) n = 0" and p: "Pack_loop b n d = Some bs"
  show "\<exists>c cs. bs = c # cs \<and> take_bit 7 c = b \<and> (\<forall>v rest.
          Unpack_loop ((0x7F, s) # ms) c v (cs @ rest) = Some (v OR push_bit s n, rest))"
  proof (cases "n = 0")
    case True
    with p have "bs = [b]" by (simp add: Pack_loop.simps)
    with b True show ?thesis by (simp add: bit7_test take_bit7_id)
  next
    case False
    with p obtain cs where d: "0 < d" and bs: "bs = (b OR 0x80) # cs"
      and rec: "Pack_loop (ucast (n AND 0x7F)) (drop_bit 7 n) (d - 1) = Some cs"
      by (subst (asm) Pack_loop.simps) (auto split: if_splits simp: map_option_Some_conv)
    have b': "\<not> bit (ucast (n AND 0x7F) :: u8) 7"
      by (simp add: bit_simps lit_bits)
    have n': "drop_bit k (drop_bit 7 n) = 0"
      using n by (simp add: add.commute)
    obtain c' cs' where cs: "cs = c' # cs'" and c': "take_bit 7 c' = ucast (n AND 0x7F)"
      and un: "\<And>v rest. Unpack_loop ms c' v (cs' @ rest)
               = Some (v OR push_bit (s + 7) (drop_bit 7 n), rest)"
      using reads_backD [OF IH rec b' n'] by blast
    have c'_bits: "bit c' j = bit n j" if "j < 7" for j
      using arg_cong [OF c', of "\<lambda>w. bit w j"] that by (simp add: bit_simps lit_bits)
    have low: "(ucast c' AND 0x7F :: i32) = n AND 0x7F"
      by (rule word_eq_bitI) (auto simp: bit_simps lit_bits c'_bits)
    have "Unpack_loop ms c' (v OR push_bit s (ucast c' AND 0x7F)) (cs' @ rest)
          = Some (v OR push_bit s n, rest)" for v rest
      by (simp only: un low append_bits7)
    moreover have "bit (b OR 0x80) 7" by (simp add: bit_simps lit_bits)
    moreover have "take_bit 7 (b OR 0x80) = b" using b by (rule take_bit7_or)
    ultimately show ?thesis by (simp add: bs cs bit7_test)
  qed
qed

lemma reads_back_last: "reads_back [(0x0F, s)] s 4"
  unfolding reads_back_def
proof (intro allI impI)
  fix b n d bs
  assume b: "\<not> bit b 7" and n: "drop_bit 4 n = 0" and p: "Pack_loop b n d = Some bs"
  have small: "j < 4" if "bit n j" for j
    using n that unfolding drop_bit_zero_iff_bits by (meson not_le)
  have low: "n AND 0x7F = n" "drop_bit 7 n = 0"
    by (auto simp: bit_simps lit_bits drop_bit_zero_iff_bits intro!: word_eq_bitI)
       (use small in fastforce)+
  show "\<exists>c cs. bs = c # cs \<and> take_bit 7 c = b \<and> (\<forall>v rest.
          Unpack_loop [(0x0F, s)] c v (cs @ rest) = Some (v OR push_bit s n, rest))"
  proof (cases "n = 0")
    case True
    with p have "bs = [b]" by (simp add: Pack_loop.simps)
    with b True show ?thesis by (simp add: bit7_test take_bit7_id)
  next
    case False
    with p have "bs = [b OR 0x80, ucast n]"
      by (auto simp: Pack_loop.simps [of b n d] Pack_loop.simps [of _ 0] low split: if_splits)
    moreover have "(ucast (ucast n :: u8) AND 0x0F :: i32) = n"
      by (rule word_eq_bitI) (auto simp: bit_simps lit_bits dest: small)
    ultimately show ?thesis
      using b by (simp add: bit7_test bit_simps lit_bits take_bit7_or take_bit7_id)
  qed
qed

lemma reads_back_masks: "reads_back s_aMasksShifts 6 25"
proof -
  have "reads_back [(0x7F, 20), (0x0F, 20 + 7)] 20 (4 + 7)"
    using reads_back_step [of "[(0x0F, 27)]" 20 4] reads_back_last [of 27] by simp
  then have "reads_back [(0x7F, 13), (0x7F, 13 + 7), (0x0F, 27)] 13 (11 + 7)"
    using reads_back_step [of "[(0x7F, 20), (0x0F, 27)]" 13 11] by simp
  then show ?thesis
    using reads_back_step [of "[(0x7F, 13), (0x7F, 20), (0x0F, 27)]" 6 18]
    by (simp add: s_aMasksShifts_def)
qed

lemma Unpack_Pack:
  assumes "Pack i d = Some bs"
  shows "Unpack (bs @ rest) = Some (i, rest)"
proof -
  define sg where "sg = (if sint i < 0 then 0x40 else 0 :: u8)"
  define i' where "i' = (if sint i < 0 then NOT i else i)"
  define b where "b = (sg OR ucast (i' AND 0x3F))"
  have top: "\<not> bit i' 31"
    using bit_last_iff [of i] by (auto simp: i'_def bit_simps)
  have p: "Pack_loop b (drop_bit 6 i') (d - 1) = Some bs"
    using assms by (auto simp: Pack_def b_def sg_def i'_def Let_def split: if_splits)
  have b7: "\<not> bit b 7" and b6: "bit b 6 = (sint i < 0)"
    by (auto simp: b_def sg_def bit_simps lit_bits)
  have "j < 31" if "bit i' j" for j
    using top bit_imp_le_length [OF that] that by (cases "j = 31") auto
  then have "drop_bit 25 (drop_bit 6 i') = 0"
    by (simp add: drop_bit_zero_iff_bits) (meson not_le)
  then obtain c cs where bs: "bs = c # cs" and c: "take_bit 7 c = b"
    and un: "\<And>v rest. Unpack_loop s_aMasksShifts c v (cs @ rest)
             = Some (v OR push_bit 6 (drop_bit 6 i'), rest)"
    using reads_backD [OF reads_back_masks p b7] by blast
  have c_bits: "bit c j = bit b j" if "j < 7" for j
    using arg_cong [OF c, of "\<lambda>w. bit w j"] that by (simp add: bit_simps)
  have "(ucast c AND 0x3F) OR push_bit 6 (drop_bit 6 i') = i'"
    by (rule low6_join) (auto simp: bit_simps lit_bits c_bits b_def sg_def)
  moreover have "(ucast (drop_bit 6 c) AND 1 :: i32) = of_bool (bit c 6)"
    by (rule word_eq_bitI) (auto simp: bit_simps intro: gr0I)
  then have "(ucast (drop_bit 6 c) AND 1 :: i32) = (if sint i < 0 then 1 else 0)"
    using c_bits [of 6] b6 by simp
  ultimately show ?thesis
    by (auto simp: un bs i'_def)
qed

section \<open>Sizes\<close>

text \<open>The number of bytes an integer needs: six bits in the first byte, seven in each other.\<close>

definition packed_size :: "i32 \<Rightarrow> int" where
  "packed_size i =
     (let n = unat (if sint i < 0 then NOT i else i)
      in if n < 2 ^ 6 then 1 else if n < 2 ^ 13 then 2 else if n < 2 ^ 20 then 3
         else if n < 2 ^ 27 then 4 else 5)"

function loop_size :: "i32 \<Rightarrow> int" where
  "loop_size i = (if i = 0 then 0 else 1 + loop_size (drop_bit 7 i))"
  by pat_completeness auto
termination
  by (relation "measure unat") (auto simp: unat_drop_bit_less)

declare loop_size.simps [simp del]

lemma loop_size_0 [simp]: "loop_size 0 = 0"
  by (simp add: loop_size.simps)

lemma loop_size_nonneg: "0 \<le> loop_size i"
  by (induction i rule: loop_size.induct) (subst loop_size.simps, simp)

lemma Pack_loop_size:
  "(case Pack_loop b i d of None \<Rightarrow> d < loop_size i
    | Some bs \<Rightarrow> int (length bs) = 1 + loop_size i \<and> (i = 0 \<or> loop_size i \<le> d))"
proof (induction b i d rule: Pack_loop.induct)
  case (1 b i d)
  show ?case
  proof (cases "i = 0 \<or> d \<le> 0")
    case True
    then show ?thesis
      using loop_size_nonneg [of "drop_bit 7 i"]
      by (auto simp: Pack_loop.simps [of b i d] loop_size.simps [of i])
  next
    case False
    with 1 show ?thesis
      using loop_size_nonneg [of "drop_bit 7 i"]
      by (auto simp: Pack_loop.simps [of b i d] loop_size.simps [of i] split: option.splits)
  qed
qed

lemma packed_size_loop:
  "packed_size i = 1 + loop_size (drop_bit 6 (if sint i < 0 then NOT i else i))"
proof -
  define n where "n = (if sint i < 0 then NOT i else i)"
  have "drop_bit 34 n = 0" by (intro word_eq_bitI) (auto simp: bit_simps dest: bit_imp_le_length)
  then have "1 + loop_size (drop_bit 6 n)
      = (if unat n < 2 ^ 6 then 1 else if unat n < 2 ^ 13 then 2 else if unat n < 2 ^ 20 then 3
         else if unat n < 2 ^ 27 then 4 else 5)"
    by (simp add: loop_size.simps [of "drop_bit 6 n"] loop_size.simps [of "drop_bit 13 n"]
        loop_size.simps [of "drop_bit 20 n"] loop_size.simps [of "drop_bit 27 n"]
        loop_size.simps [of 0] drop_bit_zero_unat)
  then show ?thesis by (simp add: packed_size_def n_def Let_def)
qed

lemma packed_size_bounds: "1 \<le> packed_size i" "packed_size i \<le> 5"
  by (simp_all add: packed_size_def Let_def)

lemma Pack_size:
  "(case Pack i d of None \<Rightarrow> d < packed_size i
    | Some bs \<Rightarrow> int (length bs) = packed_size i \<and> packed_size i \<le> d)"
proof (cases "d \<le> 0")
  case True
  then show ?thesis using packed_size_bounds [of i] by (simp add: Pack_def)
next
  case False
  define n where "n = drop_bit 6 (if sint i < 0 then NOT i else i)"
  have "packed_size i = 1 + loop_size n" by (simp add: packed_size_loop n_def)
  moreover obtain b where "Pack i d = Pack_loop b n (d - 1)"
    using False by (auto simp: Pack_def n_def Let_def)
  ultimately show ?thesis
    using Pack_loop_size [where b = b and i = n and d = "d - 1"] False
    by (auto simp: loop_size.simps [of 0] split: option.splits)
qed

lemma Pack_Some_length: "Pack i d = Some bs \<Longrightarrow> int (length bs) = packed_size i"
  using Pack_size [where i = i and d = d] by simp

lemma Pack_Some_iff: "(\<exists>bs. Pack i d = Some bs) \<longleftrightarrow> packed_size i \<le> d"
  using Pack_size [where i = i and d = d] by (auto split: option.splits)

lemma Pack_exists: "5 \<le> d \<Longrightarrow> \<exists>bs. Pack i d = Some bs"
  using packed_size_bounds(2) [of i] by (simp add: Pack_Some_iff)

text \<open>More room does not change what is written.\<close>

lemma Pack_loop_room: "Pack_loop b i d = Some bs \<Longrightarrow> d \<le> d' \<Longrightarrow> Pack_loop b i d' = Some bs"
proof (induction b i d arbitrary: bs d' rule: Pack_loop.induct)
  case (1 b i d)
  show ?case
  proof (cases "i = 0")
    case True
    with "1.prems"(1) show ?thesis by (simp add: Pack_loop.simps)
  next
    case False
    with "1.prems"(1) obtain cs where d: "0 < d" and bs: "bs = (b OR 0x80) # cs"
      and rec: "Pack_loop (ucast (i AND 0x7F)) (drop_bit 7 i) (d - 1) = Some cs"
      by (subst (asm) Pack_loop.simps) (auto split: if_splits simp: map_option_Some_conv)
    have "Pack_loop (ucast (i AND 0x7F)) (drop_bit 7 i) (d' - 1) = Some cs"
      using "1.IH" [OF False _ rec, of "d' - 1"] d "1.prems"(2) by simp
    then show ?thesis using False d "1.prems"(2) by (subst Pack_loop.simps) (simp add: bs)
  qed
qed

lemma Pack_room: "Pack i d = Some bs \<Longrightarrow> d \<le> d' \<Longrightarrow> Pack i d' = Some bs"
  by (auto simp: Pack_def Let_def split: if_splits elim!: Pack_loop_room)

text \<open>The bytes written when there is room: every value has one encoding.\<close>

definition packed :: "i32 \<Rightarrow> u8 list" where
  "packed i = the (Pack i 5)"

lemma Pack_packed: "Pack i d = (if packed_size i \<le> d then Some (packed i) else None)"
proof (cases "Pack i d")
  case None
  then show ?thesis using Pack_size [where i = i and d = d] by simp
next
  case (Some bs)
  obtain cs where cs: "Pack i 5 = Some cs" using Pack_exists [of 5 i] by auto
  have "Pack i (max d 5) = Some bs" "Pack i (max d 5) = Some cs"
    using Some cs by (auto intro: Pack_room)
  then have "bs = packed i" using cs by (simp add: packed_def)
  with Some show ?thesis using Pack_size [where i = i and d = d] by simp
qed

lemma length_packed: "int (length (packed i)) = packed_size i"
  using Pack_Some_length [of i 5 "packed i"] packed_size_bounds [of i] by (simp add: Pack_packed)

lemma packed_not_Nil [simp]: "packed i \<noteq> []"
  using length_packed [of i] packed_size_bounds [of i] by auto

interpretation vi: progress_codec packed Unpack "\<lambda>_. True"
proof
  show "packed x \<noteq> []" for x by simp
  fix x rest
  have "Pack x 5 = Some (packed x)"
    using packed_size_bounds [of x] by (simp add: Pack_packed)
  then show "Unpack (packed x @ rest) = Some (x, rest)" by (rule Unpack_Pack)
qed

lemma Unpack_loop_consumes:
  "Unpack_loop ms b v src = Some (w, src') \<Longrightarrow>
     \<exists>used. src = used @ src' \<and> length used \<le> length ms"
proof (induction ms b v src rule: Unpack_loop.induct)
  case (2 m s ms b v src)
  then show ?case by (cases src) (fastforce split: if_splits)+
qed simp

lemma length_s_aMasksShifts: "length s_aMasksShifts = 4"
  by (simp add: s_aMasksShifts_def)

lemma Unpack_consumes:
  "Unpack src = Some (v, src') \<Longrightarrow> \<exists>b used. src = b # used @ src' \<and> length used \<le> 4"
  by (cases src) (auto simp: Let_def map_option_Some_conv length_s_aMasksShifts
      dest!: Unpack_loop_consumes)

lemma Unpack_shorter: "Unpack src = Some (v, src') \<Longrightarrow> length src' < length src"
  by (auto dest!: Unpack_consumes)

section \<open>Compress and Decompress\<close>

text \<open>
  The buffers are lists of whole integers (the code asserts that the size in bytes is a
  multiple of four); \<open>None\<close> is the return value \<open>-1\<close>, \<open>Some\<close> the output written,
  whose length is the return value.
\<close>

fun Compress :: "i32 list \<Rightarrow> int \<Rightarrow> u8 list option" where
  "Compress [] DstSize = Some []"
| "Compress (i # src) DstSize =
     (case Pack i DstSize of
        None \<Rightarrow> None
      | Some bs \<Rightarrow> map_option (append bs) (Compress src (DstSize - int (length bs))))"

function Decompress :: "u8 list \<Rightarrow> int \<Rightarrow> i32 list option" where
  "Decompress src DstInts =
     (if src = [] then Some []
      else if DstInts \<le> 0 then None
      else case Unpack src of
             None \<Rightarrow> None
           | Some (v, src') \<Rightarrow> map_option (Cons v) (Decompress src' (DstInts - 1)))"
  by pat_completeness auto
termination
  by (relation "measure (\<lambda>(src, n). length src)") (auto dest: Unpack_shorter)

declare Decompress.simps [simp del]

lemma Compress_packed:
  "Compress is d =
     (if is = [] \<or> (\<Sum>i\<leftarrow>is. packed_size i) \<le> d then Some (concat (map packed is)) else None)"
proof (induction "is" arbitrary: d)
  case (Cons i "is")
  have "0 \<le> (\<Sum>i\<leftarrow>is. packed_size i)"
    by (induction "is") (use packed_size_bounds in \<open>auto simp: order_trans [of 0 1]\<close>)
  then show ?case using Cons [of "d - packed_size i"]
    by (auto simp: Pack_packed length_packed)
qed simp

lemma Decompress_concat:
  "length is \<le> n \<Longrightarrow> Decompress (concat (map packed is)) (int n) = Some is"
proof (induction "is" arbitrary: n)
  case Nil
  then show ?case by (simp add: Decompress.simps)
next
  case (Cons i "is")
  then obtain m where "n = Suc m" by (cases n) auto
  with Cons show ?case
    by (subst Decompress.simps) (simp add: vi.dec_enc)
qed

lemma Decompress_bounds: "Decompress src n = Some is \<Longrightarrow> is = [] \<or> int (length is) \<le> n"
proof (induction src n arbitrary: "is" rule: Decompress.induct)
  case (1 src n)
  then show ?case
    by (auto simp: Decompress.simps [of src n] map_option_Some_conv
        split: if_splits option.splits) fastforce+
qed

section \<open>Properties\<close>

text \<open>
  \<open>Pack\<close> writes exactly the \<open>packed_size\<close> bytes of an integer, fails exactly when they do not
  fit, and \<open>Unpack\<close> reads the integer back and stops behind it, for all \<open>2 ^ 32\<close> values.
\<close>

theorem varint_pack_unpack:
  "case Pack i DstSize of
     None \<Rightarrow> DstSize < packed_size i
   | Some bs \<Rightarrow> int (length bs) = packed_size i \<and> packed_size i \<le> DstSize \<and>
                Unpack (bs @ rest) = Some (i, rest)"
  using Pack_size [where i = i and d = DstSize] Unpack_Pack [of i DstSize]
  by (auto split: option.splits)

text \<open>
  \<open>Compress\<close> fails exactly when the integers do not fit in the destination; otherwise
  \<open>Decompress\<close> with room for at least as many integers gives back the same integers.
\<close>

theorem compress_decompress:
  "case Compress is DstSize of
     None \<Rightarrow> is \<noteq> [] \<and> DstSize < (\<Sum>i\<leftarrow>is. packed_size i)
   | Some bs \<Rightarrow> int (length bs) = (\<Sum>i\<leftarrow>is. packed_size i) \<and>
                Decompress bs (int (length is + room)) = Some is"
proof -
  have "int (length (concat (map packed is))) = (\<Sum>i\<leftarrow>is. packed_size i)"
    by (induction "is") (simp_all add: length_packed)
  then show ?thesis
    using Decompress_concat [of "is" "length is + room"] by (simp add: Compress_packed)
qed

end
