(* ===== verification/Utf8.thy ===== *)
theory Utf8
  imports Prelude Codec "HOL-Library.Sublist"
begin

text \<open>
  UTF-8 and the bounded string copies of \<^verbatim>\<open>src/src/base/system.cpp\<close>. A C string is
  the list of its bytes before the terminator; a \<open>const char **\<close> that is advanced is the
  list of bytes from the pointer on. Reading at the end of the list is reading the
  terminator, the byte 0.
\<close>

section \<open>Encoding and decoding\<close>

definition str_utf8_isspace :: "int \<Rightarrow> bool" where
  "str_utf8_isspace code \<longleftrightarrow>
     code \<le> 0x0020 \<or> code = 0x0085 \<or> code = 0x00A0 \<or> code = 0x034F \<or>
     code = 0x115F \<or> code = 0x1160 \<or> code = 0x1680 \<or> code = 0x180E \<or>
     (code \<ge> 0x2000 \<and> code \<le> 0x200F) \<or> (code \<ge> 0x2028 \<and> code \<le> 0x202F) \<or>
     (code \<ge> 0x205F \<and> code \<le> 0x2064) \<or> (code \<ge> 0x206A \<and> code \<le> 0x206F) \<or>
     code = 0x2800 \<or> code = 0x3000 \<or> code = 0x3164 \<or>
     (code \<ge> 0xFE00 \<and> code \<le> 0xFE0F) \<or> code = 0xFEFF \<or> code = 0xFFA0 \<or>
     (code \<ge> 0xFFF9 \<and> code \<le> 0xFFFC)"

definition str_utf8_isstart :: "u8 \<Rightarrow> bool" where
  "str_utf8_isstart c \<longleftrightarrow> \<not> (c AND 0xC0 = 0x80)"

definition str_utf8_encode :: "int \<Rightarrow> u8 list" where
  "str_utf8_encode chr =
     (if chr \<le> 0x7F then [byte chr]
      else if chr \<le> 0x7FF then
        [byte (0xC0 OR (drop_bit 6 chr AND 0x1F)),
         byte (0x80 OR (chr AND 0x3F))]
      else if chr \<le> 0xFFFF then
        [byte (0xE0 OR (drop_bit 12 chr AND 0x0F)),
         byte (0x80 OR (drop_bit 6 chr AND 0x3F)),
         byte (0x80 OR (chr AND 0x3F))]
      else if chr \<le> 0x10FFFF then
        [byte (0xF0 OR (drop_bit 18 chr AND 0x07)),
         byte (0x80 OR (drop_bit 12 chr AND 0x3F)),
         byte (0x80 OR (drop_bit 6 chr AND 0x3F)),
         byte (0x80 OR (chr AND 0x3F))]
      else [])"

text \<open>
  The iterations of the decoder's loop after the first byte: \<open>lo\<close> and \<open>hi\<close> are the
  boundaries, \<open>cp\<close> the code point so far. The terminator is out of the boundaries and is
  put back, as any other unexpected byte.
\<close>

fun utf8_continue :: "int \<Rightarrow> int \<Rightarrow> int \<Rightarrow> nat \<Rightarrow> nat \<Rightarrow> u8 list \<Rightarrow> int \<times> u8 list" where
  "utf8_continue lo hi cp seen needed [] = (-1, [])"
| "utf8_continue lo hi cp seen needed (b # ptr) =
     (if \<not> (lo \<le> uint b \<and> uint b \<le> hi) then (-1, b # ptr)
      else let seen' = Suc seen;
               cp' = cp + push_bit (6 * (needed - seen')) (uint b - 0x80)
           in if seen' \<noteq> needed then utf8_continue 0x80 0xBF cp' seen' needed ptr
              else (cp', ptr))"

fun str_utf8_decode :: "u8 list \<Rightarrow> int \<times> u8 list" where
  "str_utf8_decode [] = (0, [])"
| "str_utf8_decode (b # ptr) =
     (let c = uint b in
      if c \<le> 0x7F then (c, ptr)
      else if 0xC2 \<le> c \<and> c \<le> 0xDF then
        utf8_continue 0x80 0xBF (push_bit (6 * 1) (c - 0xC0)) 0 1 ptr
      else if 0xE0 \<le> c \<and> c \<le> 0xEF then
        utf8_continue (if c = 0xE0 then 0xA0 else 0x80) (if c = 0xED then 0x9F else 0xBF)
          (push_bit (6 * 2) (c - 0xE0)) 0 2 ptr
      else if 0xF0 \<le> c \<and> c \<le> 0xF4 then
        utf8_continue (if c = 0xF0 then 0x90 else 0x80) (if c = 0xF4 then 0x8F else 0xBF)
          (push_bit (6 * 3) (c - 0xF0)) 0 3 ptr
      else (-1, ptr))"

lemma utf8_continue_shorter: "length (snd (utf8_continue lo hi cp seen needed ptr)) \<le> length ptr"
  by (induction lo hi cp seen needed ptr rule: utf8_continue.induct) (auto simp: Let_def le_SucI)

lemma str_utf8_decode_shorter:
  "s \<noteq> [] \<Longrightarrow> length (snd (str_utf8_decode s)) < length s"
  by (cases s) (auto simp: Let_def less_Suc_eq_le utf8_continue_shorter)

lemma decode_rest_shorter [termination_simp]:
  "str_utf8_decode s = (c, r) \<Longrightarrow> s \<noteq> [] \<Longrightarrow> length r < length s"
  using str_utf8_decode_shorter [of s] by simp

lemma decode_progress: "(c, r) = str_utf8_decode s \<Longrightarrow> c \<noteq> 0 \<Longrightarrow> length r < length s"
  by (cases "s = []") (auto dest: sym intro: decode_rest_shorter)

section \<open>Arithmetic form of the encoder\<close>

lemma or_shifted_add:
  fixes y :: int
  assumes "0 \<le> y" "y < 2 ^ k" "c = a * 2 ^ k"
  shows "c OR y = c + y"
proof -
  have "c OR y = take_bit k y OR push_bit k a"
    using assms by (simp add: take_bit_int_eq_self push_bit_eq_mult or.commute)
  also have "\<dots> = concat_bit k y a" by (simp add: concat_bit_def)
  also have "\<dots> = c + y" using assms by (simp add: concat_bit_eq take_bit_int_eq_self push_bit_eq_mult)
  finally show ?thesis .
qed

lemma and_lits_int:
  fixes x :: int
  shows "x AND 0x3F = x mod 64" "x AND 0x1F = x mod 32" "x AND 0x0F = x mod 16" "x AND 0x07 = x mod 8"
proof -
  have "x AND mask n = x mod 2 ^ n" for n by (simp add: take_bit_eq_mod flip: take_bit_eq_mask)
  from this [of 6] this [of 5] this [of 4] this [of 3]
  show "x AND 0x3F = x mod 64" "x AND 0x1F = x mod 32" "x AND 0x0F = x mod 16" "x AND 0x07 = x mod 8"
    by (simp_all add: mask_eq_exp_minus_1)
qed

lemma tag_bits:
  fixes x :: int
  assumes "0 \<le> x"
  shows "x < 64 \<Longrightarrow> 0x80 OR x = 0x80 + x" "x < 32 \<Longrightarrow> 0xC0 OR x = 0xC0 + x"
    "x < 16 \<Longrightarrow> 0xE0 OR x = 0xE0 + x" "x < 8 \<Longrightarrow> 0xF0 OR x = 0xF0 + x"
  using assms or_shifted_add [of x 6 "0x80" 2] or_shifted_add [of x 5 "0xC0" 6]
    or_shifted_add [of x 4 "0xE0" 14] or_shifted_add [of x 3 "0xF0" 30]
  by simp_all

lemma digits64_3: "(c::int) = c div 4096 * 4096 + c div 64 mod 64 * 64 + c mod 64"
proof -
  have "c div 4096 = c div 64 div 64" using zdiv_zmult2_eq [of 64 c 64] by simp
  then show ?thesis using div_mult_mod_eq [of c 64] div_mult_mod_eq [of "c div 64" 64] by linarith
qed

lemma digits64_4:
  "(c::int) = c div 262144 * 262144 + c div 4096 mod 64 * 4096 + c div 64 mod 64 * 64 + c mod 64"
proof -
  have "c div 262144 = c div 4096 div 64" using zdiv_zmult2_eq [of 64 c 4096] by simp
  then show ?thesis using digits64_3 [of c] div_mult_mod_eq [of "c div 4096" 64] by linarith
qed

lemma encode_1: "c \<le> 0x7F \<Longrightarrow> str_utf8_encode c = [byte c]"
  by (simp add: str_utf8_encode_def)

lemma encode_2: "0x7F < c \<Longrightarrow> c \<le> 0x7FF \<Longrightarrow>
  str_utf8_encode c = [byte (0xC0 + c div 64), byte (0x80 + c mod 64)]"
  by (simp add: str_utf8_encode_def drop_bit_eq_div and_lits_int tag_bits)

lemma encode_3: "0x7FF < c \<Longrightarrow> c \<le> 0xFFFF \<Longrightarrow>
  str_utf8_encode c = [byte (0xE0 + c div 4096), byte (0x80 + c div 64 mod 64),
    byte (0x80 + c mod 64)]"
  by (simp add: str_utf8_encode_def drop_bit_eq_div and_lits_int tag_bits)

lemma encode_4: "0xFFFF < c \<Longrightarrow> c \<le> 0x10FFFF \<Longrightarrow>
  str_utf8_encode c = [byte (0xF0 + c div 262144), byte (0x80 + c div 4096 mod 64),
    byte (0x80 + c div 64 mod 64), byte (0x80 + c mod 64)]"
  by (simp add: str_utf8_encode_def drop_bit_eq_div and_lits_int tag_bits)

section \<open>Decoding inverts encoding, and only that\<close>

text \<open>The Unicode scalar values other than the terminator.\<close>

definition scalar :: "int \<Rightarrow> bool" where
  "scalar c \<longleftrightarrow> 0 < c \<and> c \<le> 0x10FFFF \<and> \<not> (0xD800 \<le> c \<and> c \<le> 0xDFFF)"

lemma decode_encode:
  assumes "scalar c"
  shows "str_utf8_decode (str_utf8_encode c @ rest) = (c, rest)"
proof -
  consider "c \<le> 0x7F" | "0x7F < c" "c \<le> 0x7FF" | "0x7FF < c" "c \<le> 0xFFFF" | "0xFFFF < c" "c \<le> 0x10FFFF"
    using assms unfolding scalar_def by linarith
  then show ?thesis
  proof cases
    case 1
    with assms show ?thesis by (simp add: encode_1 scalar_def)
  next
    case 2
    have "c div 64 * 64 + c mod 64 = c" by simp
    moreover have "2 \<le> c div 64" "c div 64 < 32" using 2 by presburger+
    ultimately show ?thesis
      using 2 by (simp add: encode_2 Let_def push_bit_eq_mult)
  next
    case 3
    obtain x y z where xyz: "c div 4096 = x" "c div 64 mod 64 = y" "c mod 64 = z" by blast
    have c: "c = x * 4096 + y * 64 + z" using digits64_3 [of c] by (simp add: xyz)
    have b: "0 \<le> x" "x < 16" "0 \<le> y" "y < 64" "0 \<le> z" "z < 64"
      using 3 by (simp_all flip: xyz)
    have d: "x = 0 \<Longrightarrow> 32 \<le> y" "x = 13 \<Longrightarrow> y \<le> 31" "0 < x \<or> 32 \<le> y"
      using 3 b assms unfolding c scalar_def by linarith+
    have "str_utf8_decode ([byte (0xE0 + x), byte (0x80 + y), byte (0x80 + z)] @ rest)
          = (x * 4096 + y * 64 + z, rest)"
      using b d by (auto simp: Let_def push_bit_eq_mult)
    with 3 show ?thesis by (simp only: encode_3 xyz c [symmetric])
  next
    case 4
    obtain w x y z where wxyz: "c div 262144 = w" "c div 4096 mod 64 = x" "c div 64 mod 64 = y"
      "c mod 64 = z" by blast
    have c: "c = w * 262144 + x * 4096 + y * 64 + z" using digits64_4 [of c] by (simp add: wxyz)
    have b: "0 \<le> w" "w < 5" "0 \<le> x" "x < 64" "0 \<le> y" "y < 64" "0 \<le> z" "z < 64"
      using 4 by (simp_all flip: wxyz)
    have d: "w = 0 \<Longrightarrow> 16 \<le> x" "w = 4 \<Longrightarrow> x \<le> 15"
      using 4 b unfolding c by linarith+
    have "str_utf8_decode ([byte (0xF0 + w), byte (0x80 + x), byte (0x80 + y), byte (0x80 + z)] @ rest)
          = (w * 262144 + x * 4096 + y * 64 + z, rest)"
      using b d by (auto simp: Let_def push_bit_eq_mult)
    with 4 show ?thesis by (simp only: encode_4 wxyz c [symmetric])
  qed
qed

lemma horner64:
  "0 \<le> y \<Longrightarrow> y < 64 \<Longrightarrow> ((x::int) * 64 + y) div 64 = x"
  "0 \<le> y \<Longrightarrow> y < 64 \<Longrightarrow> ((x::int) * 64 + y) mod 64 = y"
  by (simp_all add: div_add1_eq)

lemma div_4096: "(c::int) div 4096 = c div 64 div 64"
  using zdiv_zmult2_eq [of 64 c 64] by simp

lemma div_262144: "(c::int) div 262144 = c div 64 div 64 div 64"
proof -
  have "c div (64 * 4096) = c div 64 div 4096" by (rule zdiv_zmult2_eq) simp
  then show ?thesis by (simp add: div_4096 [of "c div 64"])
qed

lemma utf8_continue_last:
  assumes "utf8_continue lo hi cp seen (Suc seen) ptr = (c, r)" "c \<noteq> -1"
  obtains b where "ptr = b # r" "lo \<le> uint b" "uint b \<le> hi" "c = cp + (uint b - 0x80)"
  using assms by (cases ptr) (auto simp: Let_def split: if_splits)

lemma utf8_continue_more:
  assumes "utf8_continue lo hi cp seen needed ptr = (c, r)" "c \<noteq> -1" "Suc seen < needed"
  obtains b ptr' where "ptr = b # ptr'" "lo \<le> uint b" "uint b \<le> hi"
    "utf8_continue 0x80 0xBF (cp + (uint b - 0x80) * 2 ^ (6 * (needed - Suc seen)))
       (Suc seen) needed ptr' = (c, r)"
  using assms by (cases ptr) (auto simp: Let_def push_bit_eq_mult split: if_splits)

lemma decode_sound_2:
  assumes "utf8_continue 0x80 0xBF ((uint b - 0xC0) * 64) 0 1 ptr = (c, r)" "c \<noteq> -1"
    "0xC2 \<le> uint b" "uint b \<le> 0xDF"
  shows "scalar c \<and> b # ptr = str_utf8_encode c @ r"
proof -
  obtain b1 where ptr: "ptr = b1 # r" and b1: "0x80 \<le> uint b1" "uint b1 \<le> 0xBF"
    and c: "c = (uint b - 0xC0) * 64 + (uint b1 - 0x80)"
    using assms(1,2) by (auto elim: utf8_continue_last)
  have "c div 64 = uint b - 0xC0" "c mod 64 = uint b1 - 0x80" unfolding c by (rule horner64; use b1 in simp)+
  moreover have "0x7F < c \<and> c \<le> 0x7FF" using assms(3,4) b1 unfolding c by (simp add: algebra_simps)
  ultimately show ?thesis by (simp add: encode_2 ptr scalar_def)
qed

lemma decode_sound_3:
  assumes "utf8_continue lo hi ((uint b - 0xE0) * 4096) 0 2 ptr = (c, r)" "c \<noteq> -1"
    "0xE0 \<le> uint b" "uint b \<le> 0xEF" "lo = (if uint b = 0xE0 then 0xA0 else 0x80)"
    "hi = (if uint b = 0xED then 0x9F else 0xBF)"
  shows "scalar c \<and> b # ptr = str_utf8_encode c @ r"
proof -
  obtain b1 ptr' where ptr: "ptr = b1 # ptr'" and b1: "lo \<le> uint b1" "uint b1 \<le> hi"
    and r1: "utf8_continue 0x80 0xBF ((uint b - 0xE0) * 4096 + (uint b1 - 0x80) * 64) 1 2 ptr' = (c, r)"
    using assms(1,2) by (auto elim: utf8_continue_more)
  obtain b2 where ptr': "ptr' = b2 # r" and b2: "0x80 \<le> uint b2" "uint b2 \<le> 0xBF"
    and c: "c = (uint b - 0xE0) * 4096 + (uint b1 - 0x80) * 64 + (uint b2 - 0x80)"
    using r1 assms(2) by (auto elim: utf8_continue_last simp: numeral_2_eq_2)
  have b1': "0x80 \<le> uint b1" "uint b1 \<le> 0xBF" using b1 assms(5,6) by (auto split: if_splits)
  have c': "c = ((uint b - 0xE0) * 64 + (uint b1 - 0x80)) * 64 + (uint b2 - 0x80)" unfolding c by simp
  have d: "c div 64 = (uint b - 0xE0) * 64 + (uint b1 - 0x80)" "c mod 64 = uint b2 - 0x80"
    unfolding c' by (rule horner64; use b2 in simp)+
  have "c div 4096 = uint b - 0xE0" "c div 64 mod 64 = uint b1 - 0x80"
    unfolding div_4096 d by (rule horner64; use b1' in simp)+
  moreover have "0x7FF < c \<and> c \<le> 0xFFFF \<and> \<not> (0xD800 \<le> c \<and> c \<le> 0xDFFF)"
  proof -
    obtain x y z where "x = uint b - 0xE0" "y = uint b1 - 0x80" "z = uint b2 - 0x80" by simp
    then have xyz: "uint b = 0xE0 + x" "uint b1 = 0x80 + y" "uint b2 = 0x80 + z" by linarith+
    have low: "32 \<le> y" if "x = 0" using b1 assms(5,6) that by (simp add: xyz)
    have high: "y \<le> 31" if "x = 13" using b1 assms(5,6) that by (simp add: xyz)
    have B: "0 \<le> x" "x < 16" "0 \<le> y" "y < 64" "0 \<le> z" "z < 64"
      using assms(3,4) b1' b2 by (simp_all add: xyz)
    have c'': "c = x * 4096 + y * 64 + z" by (simp add: c xyz)
    have "0x7FF < c"
    proof (cases "x = 0")
      case True
      with low B c'' show ?thesis by simp
    next
      case False
      with B c'' show ?thesis by linarith
    qed
    moreover have "c \<le> 0xFFFF" using B c'' by linarith
    moreover have "c < 0xD800 \<or> 0xDFFF < c"
    proof -
      consider "x < 13" | "x = 13" | "13 < x" by linarith
      then show ?thesis
      proof cases
        case 1 with B c'' show ?thesis by linarith
      next
        case 2 with B c'' high show ?thesis by linarith
      next
        case 3 with B c'' show ?thesis by linarith
      qed
    qed
    ultimately show ?thesis by linarith
  qed
  ultimately show ?thesis using d(2) by (simp add: encode_3 ptr ptr' scalar_def)
qed

lemma decode_sound_4:
  assumes "utf8_continue lo hi ((uint b - 0xF0) * 262144) 0 3 ptr = (c, r)" "c \<noteq> -1"
    "0xF0 \<le> uint b" "uint b \<le> 0xF4" "lo = (if uint b = 0xF0 then 0x90 else 0x80)"
    "hi = (if uint b = 0xF4 then 0x8F else 0xBF)"
  shows "scalar c \<and> b # ptr = str_utf8_encode c @ r"
proof -
  obtain b1 ptr' where ptr: "ptr = b1 # ptr'" and b1: "lo \<le> uint b1" "uint b1 \<le> hi"
    and r1: "utf8_continue 0x80 0xBF ((uint b - 0xF0) * 262144 + (uint b1 - 0x80) * 4096) 1 3 ptr' = (c, r)"
    using assms(1,2) by (auto elim: utf8_continue_more)
  obtain b2 ptr'' where ptr': "ptr' = b2 # ptr''" and b2: "0x80 \<le> uint b2" "uint b2 \<le> 0xBF"
    and r2: "utf8_continue 0x80 0xBF ((uint b - 0xF0) * 262144 + (uint b1 - 0x80) * 4096
               + (uint b2 - 0x80) * 64) 2 3 ptr'' = (c, r)"
    using r1 assms(2) by (auto elim: utf8_continue_more simp: numeral_2_eq_2)
  obtain b3 where ptr'': "ptr'' = b3 # r" and b3: "0x80 \<le> uint b3" "uint b3 \<le> 0xBF"
    and c: "c = (uint b - 0xF0) * 262144 + (uint b1 - 0x80) * 4096 + (uint b2 - 0x80) * 64
                + (uint b3 - 0x80)"
    using r2 assms(2) by (auto elim: utf8_continue_last simp: numeral_2_eq_2 numeral_3_eq_3)
  have b1': "0x80 \<le> uint b1" "uint b1 \<le> 0xBF" using b1 assms(5,6) by (auto split: if_splits)
  have c': "c = (((uint b - 0xF0) * 64 + (uint b1 - 0x80)) * 64 + (uint b2 - 0x80)) * 64 + (uint b3 - 0x80)"
    unfolding c by simp
  have d: "c div 64 = ((uint b - 0xF0) * 64 + (uint b1 - 0x80)) * 64 + (uint b2 - 0x80)"
    "c mod 64 = uint b3 - 0x80"
    unfolding c' by (rule horner64; use b3 in simp)+
  have d2: "c div 64 div 64 = (uint b - 0xF0) * 64 + (uint b1 - 0x80)" "c div 64 mod 64 = uint b2 - 0x80"
    unfolding d by (rule horner64; use b2 in simp)+
  have "c div 262144 = uint b - 0xF0" "c div 4096 mod 64 = uint b1 - 0x80"
    unfolding div_4096 div_262144 d2 by (rule horner64; use b1' in simp)+
  moreover have "0xFFFF < c \<and> c \<le> 0x10FFFF"
  proof -
    obtain w x y z where "w = uint b - 0xF0" "x = uint b1 - 0x80" "y = uint b2 - 0x80"
      "z = uint b3 - 0x80" by simp
    then have wxyz: "uint b = 0xF0 + w" "uint b1 = 0x80 + x" "uint b2 = 0x80 + y"
      "uint b3 = 0x80 + z" by linarith+
    have low: "16 \<le> x" if "w = 0" using b1 assms(5,6) that by (simp add: wxyz)
    have high: "x \<le> 15" if "w = 4" using b1 assms(5,6) that by (simp add: wxyz)
    have B: "0 \<le> w" "w < 5" "0 \<le> x" "x < 64" "0 \<le> y" "y < 64" "0 \<le> z" "z < 64"
      using assms(3,4) b1' b2 b3 by (simp_all add: wxyz)
    have c'': "c = w * 262144 + x * 4096 + y * 64 + z" by (simp add: c wxyz)
    have "0xFFFF < c"
    proof (cases "w = 0")
      case True
      with low B c'' show ?thesis by simp
    next
      case False
      with B c'' show ?thesis by linarith
    qed
    moreover have "c \<le> 0x10FFFF"
    proof (cases "w = 4")
      case True
      with high B c'' show ?thesis by simp
    next
      case False
      with B c'' show ?thesis by linarith
    qed
    ultimately show ?thesis by simp
  qed
  ultimately have dv: "c div 262144 = uint b - 0xF0" "c div 4096 mod 64 = uint b1 - 0x80"
    and c_range: "0xFFFF < c" "c \<le> 0x10FFFF" by blast+
  have "str_utf8_encode c = [byte (0xF0 + (uint b - 0xF0)), byte (0x80 + (uint b1 - 0x80)),
      byte (0x80 + (uint b2 - 0x80)), byte (0x80 + (uint b3 - 0x80))]"
    by (simp only: encode_4 [OF c_range] dv d2(2) d(2))
  moreover have "scalar c" using c_range by (simp add: scalar_def)
  ultimately show ?thesis by (simp add: ptr ptr' ptr'')
qed

lemma decode_sound:
  assumes "str_utf8_decode s = (c, r)" "c \<noteq> 0" "c \<noteq> -1"
  shows "scalar c \<and> s = str_utf8_encode c @ r"
proof (cases s)
  case Nil
  with assms show ?thesis by simp
next
  case (Cons b ptr)
  consider "uint b \<le> 0x7F" | "0xC2 \<le> uint b" "uint b \<le> 0xDF" | "0xE0 \<le> uint b" "uint b \<le> 0xEF"
    | "0xF0 \<le> uint b" "uint b \<le> 0xF4"
    using assms(1,3) Cons by (force simp: Let_def split: if_splits)
  then show ?thesis
  proof cases
    case 1
    with assms Cons byte_bounds [of b] show ?thesis by (auto simp: encode_1 scalar_def)
  next
    case 2
    have "utf8_continue 0x80 0xBF ((uint b - 0xC0) * 64) 0 1 ptr = (c, r)"
      using assms(1) Cons 2 by (simp add: Let_def push_bit_eq_mult)
    from decode_sound_2 [OF this assms(3) 2] show ?thesis unfolding Cons .
  next
    case 3
    have "utf8_continue (if uint b = 0xE0 then 0xA0 else 0x80) (if uint b = 0xED then 0x9F else 0xBF)
      ((uint b - 0xE0) * 4096) 0 2 ptr = (c, r)"
      using assms(1) Cons 3 by (simp add: Let_def push_bit_eq_mult)
    from decode_sound_3 [OF this assms(3) 3 refl refl] show ?thesis unfolding Cons .
  next
    case 4
    have "utf8_continue (if uint b = 0xF0 then 0x90 else 0x80) (if uint b = 0xF4 then 0x8F else 0xBF)
      ((uint b - 0xF0) * 262144) 0 3 ptr = (c, r)"
      using assms(1) Cons 4 by (simp add: Let_def push_bit_eq_mult)
    from decode_sound_4 [OF this assms(3) 4 refl refl] show ?thesis unfolding Cons .
  qed
qed

lemma utf8_continue_pos:
  "0 \<le> cp \<Longrightarrow> 0x80 \<le> lo \<Longrightarrow> 0 < cp \<or> 0x80 < lo \<Longrightarrow> fst (utf8_continue lo hi cp seen needed p) \<noteq> 0"
proof (induction lo hi cp seen needed p rule: utf8_continue.induct)
  case (2 lo hi cp seen needed b ptr)
  show ?case
  proof (cases "lo \<le> uint b \<and> uint b \<le> hi")
    case True
    define cp' where "cp' = cp + push_bit (6 * (needed - Suc seen)) (uint b - 0x80)"
    have "0 \<le> push_bit (6 * (needed - Suc seen)) (uint b - 0x80)"
      using True "2.prems" by simp
    moreover have "0 < push_bit (6 * (needed - Suc seen)) (uint b - 0x80)" if "0x80 < lo"
      using True that by (simp add: push_bit_eq_mult)
    ultimately have "0 < cp'" using "2.prems" unfolding cp'_def by linarith
    with True "2.IH" [of "Suc seen" cp'] show ?thesis
      by (cases "Suc seen = needed") (auto simp: Let_def cp'_def)
  qed (auto simp: Let_def)
qed simp

lemma decode_eq_0: "str_utf8_decode s = (0, r) \<Longrightarrow> 0 \<notin> set s \<Longrightarrow> s = []"
proof (rule ccontr)
  assume d: "str_utf8_decode s = (0, r)" and nz: "0 \<notin> set s" and "s \<noteq> []"
  then obtain b ptr where s: "s = b # ptr" by (cases s) auto
  have "uint b \<noteq> 0" using nz s by (auto simp: uint_0_iff)
  moreover have "fst (str_utf8_decode (b # ptr)) = 0" using d s by simp
  ultimately show False
    by (auto simp: Let_def push_bit_eq_mult utf8_continue_pos split: if_splits)
qed

text \<open>The decoder and the encoder of the scalar values form a codec.\<close>

definition utf8_next :: "u8 list \<Rightarrow> (int \<times> u8 list) option" where
  "utf8_next s = (let (c, r) = str_utf8_decode s in if c = 0 \<or> c = -1 then None else Some (c, r))"

section \<open>Checking\<close>

function str_utf8_check :: "u8 list \<Rightarrow> bool" where
  "str_utf8_check str =
     (case str_utf8_decode str of (codepoint, str') \<Rightarrow>
        if codepoint = 0 then True
        else if codepoint = -1 then False
        else str_utf8_check str')"
  by pat_completeness auto
termination
  by (relation "measure length") (auto dest: decode_progress)

declare str_utf8_check.simps [simp del]

lemma check_concat:
  "\<forall>c \<in> set cs. scalar c \<Longrightarrow> str_utf8_check (concat (map str_utf8_encode cs))"
proof (induction cs)
  case Nil
  show ?case by (simp add: str_utf8_check.simps)
next
  case (Cons c cs)
  then show ?case by (subst str_utf8_check.simps) (simp add: decode_encode scalar_def)
qed

lemma check_decomp:
  "str_utf8_check s \<Longrightarrow> 0 \<notin> set s \<Longrightarrow>
     \<exists>cs. (\<forall>c \<in> set cs. scalar c) \<and> s = concat (map str_utf8_encode cs)"
proof (induction s rule: str_utf8_check.induct)
  case (1 s)
  obtain c r where d: "str_utf8_decode s = (c, r)" by fastforce
  show ?case
  proof (cases "c = 0")
    case True
    with d "1.prems"(2) have "s = []" by (auto dest: decode_eq_0)
    then show ?thesis by (intro exI [of _ "[]"]) simp
  next
    case False
    with "1.prems"(1) d have c: "c \<noteq> -1" and chk: "str_utf8_check r"
      by (auto simp: str_utf8_check.simps [of s] split: if_splits)
    have s: "scalar c" "s = str_utf8_encode c @ r" using decode_sound [OF d False c] by auto
    have "0 \<notin> set r" using "1.prems"(2) unfolding s(2) by simp
    then obtain cs where "\<forall>c \<in> set cs. scalar c" "r = concat (map str_utf8_encode cs)"
      using "1.IH" [OF d [symmetric] False c chk] by auto
    with s show ?thesis by (intro exI [of _ "c # cs"]) simp
  qed
qed

section \<open>Character boundaries\<close>

definition is_cont :: "u8 \<Rightarrow> bool" where
  "is_cont b \<longleftrightarrow> 0x80 \<le> uint b \<and> uint b \<le> 0xBF"

lemma isstart_iff: "str_utf8_isstart b \<longleftrightarrow> \<not> is_cont b"
proof -
  have "b AND 0xC0 = 0x80 \<longleftrightarrow> drop_bit 6 b = 2"
  proof
    assume a: "b AND 0xC0 = 0x80"
    have "drop_bit 6 (b AND 0xC0) = drop_bit 6 b AND 3" by (simp add: drop_bit_and)
    moreover have "drop_bit 6 b AND 3 = drop_bit 6 b"
      by (rule word_eq_bitI) (auto simp: bit_simps lit_bits dest: bit_imp_le_length)
    ultimately show "drop_bit 6 b = 2" using a by simp
  next
    assume a: "drop_bit 6 b = 2"
    have "b AND 0xC0 = push_bit 6 (drop_bit 6 b)"
    proof (rule word_eq_bitI)
      fix n assume "n < LENGTH(8)"
      have "bit (0xC0::u8) n \<longleftrightarrow> n = 6 \<or> n = 7"
      proof -
        have "(0xC0::u8) = push_bit 6 3" by simp
        then have "bit (0xC0::u8) n = bit (push_bit 6 (3::u8)) n" by (simp only:)
        also have "\<dots> \<longleftrightarrow> n = 6 \<or> n = 7"
          using \<open>n < LENGTH(8)\<close> by (auto simp only: bit_simps lit_bits) auto
        finally show ?thesis .
      qed
      then show "bit (b AND 0xC0) n = bit (push_bit 6 (drop_bit 6 b)) n"
        using \<open>n < LENGTH(8)\<close> by (auto simp only: bit_simps possible_bit_word o_apply) auto
    qed
    with a show "b AND 0xC0 = 0x80" by simp
  qed
  also have "\<dots> \<longleftrightarrow> uint b div 64 = 2"
  proof -
    have "uint (drop_bit 6 b) = uint b div 64"
      by (simp only: uint_nat unat_drop_bit_eq) (simp add: drop_bit_eq_div zdiv_int)
    moreover have "drop_bit 6 b = 2 \<longleftrightarrow> uint (drop_bit 6 b) = uint (2::u8)"
      by (simp only: word_uint_eq_iff)
    ultimately show ?thesis by simp
  qed
  also have "\<dots> \<longleftrightarrow> is_cont b"
    unfolding is_cont_def by presburger
  finally show ?thesis by (simp add: str_utf8_isstart_def)
qed

text \<open>An encoded scalar value is one start byte followed by continuation bytes.\<close>

lemma encode_shape:
  assumes "scalar c"
  obtains b bs where "str_utf8_encode c = b # bs" "\<not> is_cont b" "\<forall>x \<in> set bs. is_cont x"
    "0 \<notin> set (b # bs)"
proof -
  have zero: "x \<noteq> 0 \<longleftrightarrow> uint x \<noteq> 0" for x :: u8 by (simp add: uint_0_iff)
  consider "c \<le> 0x7F" | "0x7F < c" "c \<le> 0x7FF" | "0x7FF < c" "c \<le> 0xFFFF" | "0xFFFF < c" "c \<le> 0x10FFFF"
    using assms unfolding scalar_def by linarith
  then show ?thesis
  proof cases
    case 1
    with assms have "uint (byte c) = c" by (simp add: scalar_def)
    with 1 assms show ?thesis
      by (intro that [of "byte c" "[]"]) (auto simp: encode_1 is_cont_def scalar_def dest: arg_cong [where f = uint])
  next
    case 2
    have "2 \<le> c div 64" "c div 64 < 32" "0 \<le> c mod 64" "c mod 64 < 64" using 2 by auto
    with 2 show ?thesis
      by (intro that [OF encode_2]) (auto simp: is_cont_def zero [symmetric] dest: arg_cong [where f = uint])
  next
    case 3
    have "0 \<le> c div 4096" "c div 4096 < 16" using 3 by auto
    with 3 show ?thesis
      by (intro that [OF encode_3]) (auto simp: is_cont_def dest: arg_cong [where f = uint])
  next
    case 4
    have "0 \<le> c div 262144" "c div 262144 < 5" using 4 by auto
    with 4 show ?thesis
      by (intro that [OF encode_4]) (auto simp: is_cont_def dest: arg_cong [where f = uint])
  qed
qed

interpretation utf8: progress_codec str_utf8_encode utf8_next scalar
proof
  show "str_utf8_encode x \<noteq> []" if "scalar x" for x using that by (auto elim: encode_shape)
qed (auto simp: utf8_next_def decode_encode scalar_def)

section \<open>Truncation and bounded copies\<close>

fun str_utf8_rewind :: "u8 list \<Rightarrow> nat \<Rightarrow> nat" where
  "str_utf8_rewind str 0 = 0"
| "str_utf8_rewind str (Suc cursor) =
     (if str_utf8_isstart (if cursor < length str then str ! cursor else 0) then cursor
      else str_utf8_rewind str cursor)"

text \<open>The string after the call; the return value is its length.\<close>

definition str_utf8_fix_truncation :: "u8 list \<Rightarrow> u8 list" where
  "str_utf8_fix_truncation str =
     (if 0 < length str then
        let last_char_index = str_utf8_rewind str (length str)
        in if fst (str_utf8_decode (drop last_char_index str)) = -1 then take last_char_index str
           else str
      else str)"

text \<open>\<open>strncat\<close> on the empty destination copies at most \<open>dst_size - 1\<close> bytes.\<close>

definition str_copy :: "u8 list \<Rightarrow> nat \<Rightarrow> u8 list" where
  "str_copy src dst_size = str_utf8_fix_truncation (take (dst_size - 1) src)"

definition str_truncate :: "nat \<Rightarrow> u8 list \<Rightarrow> nat \<Rightarrow> u8 list" where
  "str_truncate dst_size src truncation_len =
     str_copy src (if truncation_len < dst_size then truncation_len + 1 else dst_size)"

definition str_append :: "u8 list \<Rightarrow> u8 list \<Rightarrow> nat \<Rightarrow> u8 list" where
  "str_append dst src dst_size =
     str_utf8_fix_truncation
       (if length dst < dst_size then dst @ take (dst_size - 1 - length dst) src
        else take (dst_size - 1) dst)"

lemma rewind_start:
  assumes "k < n" "n \<le> length s" "str_utf8_isstart (s ! k)"
    "\<forall>j. k < j \<longrightarrow> j < n \<longrightarrow> \<not> str_utf8_isstart (s ! j)"
  shows "str_utf8_rewind s n = k"
  using assms
proof (induction n)
  case (Suc n)
  show ?case
  proof (cases "k = n")
    case True
    with Suc.prems show ?thesis by simp
  next
    case False
    with Suc show ?thesis by simp
  qed
qed simp

text \<open>
  A truncated sequence of characters is whole characters followed by a proper prefix of
  one more, which the last step removes.
\<close>

lemma take_concat_encode:
  "\<forall>c \<in> set cs. scalar c \<Longrightarrow>
   \<exists>ds p. take n (concat (map str_utf8_encode cs)) = concat (map str_utf8_encode ds) @ p \<and>
     prefix ds cs \<and>
     (ds = cs \<and> p = [] \<or>
      (\<exists>c q. prefix (ds @ [c]) cs \<and> str_utf8_encode c = p @ q \<and> q \<noteq> [] \<and>
             n < length (concat (map str_utf8_encode (ds @ [c])))))"
proof (induction cs arbitrary: n)
  case Nil
  show ?case by simp
next
  case (Cons c cs)
  let ?e = "str_utf8_encode c"
  show ?case
  proof (cases "length ?e \<le> n")
    case True
    have "\<forall>c \<in> set cs. scalar c" using Cons.prems by simp
    from Cons.IH [OF this, of "n - length ?e"] obtain ds p where
      ih: "take (n - length ?e) (concat (map str_utf8_encode cs)) = concat (map str_utf8_encode ds) @ p"
      "prefix ds cs" "ds = cs \<and> p = [] \<or>
      (\<exists>c q. prefix (ds @ [c]) cs \<and> str_utf8_encode c = p @ q \<and> q \<noteq> [] \<and>
             n - length ?e < length (concat (map str_utf8_encode (ds @ [c]))))"
      by blast
    have "ds = cs \<and> p = [] \<or>
      (\<exists>c' q. prefix ((c # ds) @ [c']) (c # cs) \<and> str_utf8_encode c' = p @ q \<and> q \<noteq> [] \<and>
             n < length (concat (map str_utf8_encode ((c # ds) @ [c']))))"
      using ih(3) True by auto
    with ih(1,2) True show ?thesis by (intro exI [of _ "c # ds"] exI [of _ p]) simp
  next
    case False
    then have "drop n ?e \<noteq> []" "n < length (concat (map str_utf8_encode ([] @ [c])))" by auto
    moreover have "?e = take n ?e @ drop n ?e" by simp
    moreover have "prefix ([] @ [c]) (c # cs)" by simp
    moreover have "take n (concat (map str_utf8_encode (c # cs)))
        = concat (map str_utf8_encode []) @ take n ?e" using False by simp
    ultimately show ?thesis
      by - (rule exI [of _ "[]"], rule exI [of _ "take n ?e"], rule conjI, assumption,
        rule conjI, simp, rule disjI2, rule exI [of _ c], rule exI [of _ "drop n ?e"], simp)
  qed
qed

lemma rewind_last_char:
  assumes "\<not> is_cont b" "\<forall>x \<in> set bs. is_cont x"
  shows "str_utf8_rewind (s @ b # bs) (length (s @ b # bs)) = length s"
proof (rule rewind_start)
  show "\<forall>j. length s < j \<longrightarrow> j < length (s @ b # bs) \<longrightarrow> \<not> str_utf8_isstart ((s @ b # bs) ! j)"
  proof (intro allI impI)
    fix j assume j: "length s < j" "j < length (s @ b # bs)"
    then have "(s @ b # bs) ! j = bs ! (j - length s - 1)" by (simp add: nth_append nth_Cons')
    moreover have "bs ! (j - length s - 1) \<in> set bs" using j by (intro nth_mem) auto
    ultimately show "\<not> str_utf8_isstart ((s @ b # bs) ! j)" using assms(2) by (simp add: isstart_iff)
  qed
qed (use assms in \<open>auto simp: isstart_iff\<close>)

lemma fix_truncation_whole:
  assumes "\<forall>c \<in> set cs. scalar c"
  shows "str_utf8_fix_truncation (concat (map str_utf8_encode cs)) = concat (map str_utf8_encode cs)"
proof (cases cs rule: rev_cases)
  case Nil
  then show ?thesis by (simp add: str_utf8_fix_truncation_def)
next
  case (snoc ds c)
  with assms have c: "scalar c" by simp
  obtain b bs where e: "str_utf8_encode c = b # bs" "\<not> is_cont b" "\<forall>x \<in> set bs. is_cont x"
    using encode_shape [OF c] by metis
  have "str_utf8_decode (b # bs) = (c, [])" using decode_encode [OF c, of "[]"] e(1) by simp
  then show ?thesis
    using rewind_last_char [OF e(2,3), of "concat (map str_utf8_encode ds)"] c snoc e(1)
    by (simp add: str_utf8_fix_truncation_def Let_def scalar_def)
qed

lemma decode_partial:
  assumes "scalar c" "str_utf8_encode c = p @ q" "p \<noteq> []" "q \<noteq> []"
  shows "fst (str_utf8_decode p) = -1"
proof (rule ccontr)
  assume ne: "fst (str_utf8_decode p) \<noteq> -1"
  obtain c' r where d: "str_utf8_decode p = (c', r)" by fastforce
  have "0 \<notin> set (str_utf8_encode c)" using encode_shape [OF assms(1)] by metis
  then have "c' \<noteq> 0" using decode_eq_0 [of p r] d assms(2,3) by auto
  with d ne have "scalar c'" "p = str_utf8_encode c' @ r" using decode_sound [of p c' r] by auto
  with assms utf8.prefix_free [of c' c "r @ q" "[]"] show False by simp
qed

lemma fix_truncation_partial:
  assumes "\<forall>c \<in> set ds. scalar c" "scalar c" "str_utf8_encode c = p @ q" "p \<noteq> []" "q \<noteq> []"
  shows "str_utf8_fix_truncation (concat (map str_utf8_encode ds) @ p) = concat (map str_utf8_encode ds)"
proof -
  obtain b bs where p: "p = b # bs" using assms(4) by (cases p) auto
  obtain b' bs' where e: "str_utf8_encode c = b' # bs'" "\<not> is_cont b'" "\<forall>x \<in> set bs'. is_cont x"
    using encode_shape [OF assms(2)] by metis
  then have "b' = b" "bs' = bs @ q" using assms(3) p by simp_all
  with e have "\<not> is_cont b" "\<forall>x \<in> set bs. is_cont x" by simp_all
  then have "str_utf8_rewind (concat (map str_utf8_encode ds) @ p)
      (length (concat (map str_utf8_encode ds) @ p)) = length (concat (map str_utf8_encode ds))"
    unfolding p by (rule rewind_last_char)
  with decode_partial [OF assms(2-5)] p show ?thesis
    by (simp add: str_utf8_fix_truncation_def Let_def)
qed

text \<open>A bounded copy of a string of characters keeps the longest run of whole characters that fits.\<close>

lemma fix_truncation_take:
  assumes cs: "\<forall>c \<in> set cs. scalar c"
  obtains ds where "prefix ds cs"
    "str_utf8_fix_truncation (take n (concat (map str_utf8_encode cs))) = concat (map str_utf8_encode ds)"
    "length (concat (map str_utf8_encode ds)) \<le> n"
    "ds = cs \<or> (\<exists>c. prefix (ds @ [c]) cs \<and> n < length (concat (map str_utf8_encode (ds @ [c]))))"
proof -
  let ?enc = "\<lambda>cs. concat (map str_utf8_encode cs)"
  obtain ds p where t: "take n (?enc cs) = ?enc ds @ p" and ds: "prefix ds cs"
    and p: "ds = cs \<and> p = [] \<or> (\<exists>c q. prefix (ds @ [c]) cs \<and> str_utf8_encode c = p @ q \<and> q \<noteq> [] \<and>
              n < length (?enc (ds @ [c])))"
    using take_concat_encode [OF cs, of n] by blast
  have ok: "\<forall>c \<in> set ds. scalar c" using ds cs by (auto dest: set_mono_prefix)
  have "str_utf8_fix_truncation (?enc ds @ p) = ?enc ds"
  proof (cases "p = []")
    case True
    then show ?thesis using fix_truncation_whole [OF ok] by simp
  next
    case False
    with p obtain c q where "prefix (ds @ [c]) cs" "str_utf8_encode c = p @ q" "q \<noteq> []" by blast
    moreover from this cs have "scalar c" by (auto dest: set_mono_prefix)
    ultimately show ?thesis using fix_truncation_partial [OF ok _ _ False] by blast
  qed
  moreover have "length (?enc ds) \<le> n"
  proof -
    have "length (?enc ds @ p) \<le> n" by (simp flip: t)
    then show ?thesis by simp
  qed
  ultimately show ?thesis using that [OF ds] t p by auto
qed

section \<open>Replacing and skipping characters\<close>

definition str_sanitize_cc :: "u8 list \<Rightarrow> u8 list" where
  "str_sanitize_cc = map (\<lambda>b. if uint b < 32 then 0x20 else b)"

definition str_sanitize :: "u8 list \<Rightarrow> u8 list" where
  "str_sanitize = map (\<lambda>b. if uint b < 32 \<and> \<not> uint b = 13 \<and> \<not> uint b = 10 \<and> \<not> uint b = 9
                           then 0x20 else b)"

definition str_has_cc :: "u8 list \<Rightarrow> bool" where
  "str_has_cc s = list_ex (\<lambda>b. uint b < 32) s"

function str_utf8_skip_whitespaces :: "u8 list \<Rightarrow> u8 list" where
  "str_utf8_skip_whitespaces str =
     (if str = [] then str
      else case str_utf8_decode str of (code, str') \<Rightarrow>
             if \<not> str_utf8_isspace code then str else str_utf8_skip_whitespaces str')"
  by pat_completeness auto
termination
  by (relation "measure length") (auto dest!: decode_rest_shorter [OF sym])

declare str_utf8_skip_whitespaces.simps [simp del]

lemma encode_ascii_or_high:
  assumes "scalar c"
  shows "c < 0x80 \<and> str_utf8_encode c = [byte c] \<or>
         0x80 \<le> c \<and> (\<forall>b \<in> set (str_utf8_encode c). 0x80 \<le> uint b)"
proof -
  consider "c \<le> 0x7F" | "0x7F < c" "c \<le> 0x7FF" | "0x7FF < c" "c \<le> 0xFFFF" | "0xFFFF < c" "c \<le> 0x10FFFF"
    using assms unfolding scalar_def by linarith
  then show ?thesis
    by cases (auto simp: encode_1 encode_2 encode_3 encode_4)
qed

text \<open>Sanitizing replaces characters, it never cuts one.\<close>

definition sanitize_char :: "int \<Rightarrow> int" where
  "sanitize_char c = (if c < 32 \<and> \<not> c = 13 \<and> \<not> c = 10 \<and> \<not> c = 9 then 0x20 else c)"

definition sanitize_cc_char :: "int \<Rightarrow> int" where
  "sanitize_cc_char c = (if c < 32 then 0x20 else c)"

lemma sanitize_encode:
  assumes "scalar c"
  shows "str_sanitize (str_utf8_encode c) = str_utf8_encode (sanitize_char c)"
    and "str_sanitize_cc (str_utf8_encode c) = str_utf8_encode (sanitize_cc_char c)"
proof -
  consider (low) "0 < c" "c < 0x80" "str_utf8_encode c = [byte c]"
    | (high) "0x80 \<le> c" "\<forall>b \<in> set (str_utf8_encode c). 0x80 \<le> uint b"
    using encode_ascii_or_high [OF assms] assms unfolding scalar_def by blast
  note cs = this
  have e20: "str_utf8_encode 32 = [0x20]" by (simp add: encode_1 byte_def)
  from cs show "str_sanitize (str_utf8_encode c) = str_utf8_encode (sanitize_char c)"
  proof cases
    case low
    then show ?thesis by (auto simp: str_sanitize_def sanitize_char_def e20)
  next
    case high
    then have "str_sanitize (str_utf8_encode c) = str_utf8_encode c"
      unfolding str_sanitize_def by (intro map_idI) force
    with high show ?thesis by (simp add: sanitize_char_def)
  qed
  from cs show "str_sanitize_cc (str_utf8_encode c) = str_utf8_encode (sanitize_cc_char c)"
  proof cases
    case low
    then show ?thesis by (auto simp: str_sanitize_cc_def sanitize_cc_char_def e20)
  next
    case high
    then have "str_sanitize_cc (str_utf8_encode c) = str_utf8_encode c"
      unfolding str_sanitize_cc_def by (intro map_idI) force
    with high show ?thesis by (simp add: sanitize_cc_char_def)
  qed
qed

lemma sanitize_concat:
  assumes "\<forall>c \<in> set cs. scalar c"
  shows "str_sanitize (concat (map str_utf8_encode cs)) = concat (map str_utf8_encode (map sanitize_char cs))"
    and "str_sanitize_cc (concat (map str_utf8_encode cs)) = concat (map str_utf8_encode (map sanitize_cc_char cs))"
  using assms
  by (induction cs)
    (simp_all add: sanitize_encode [symmetric], simp_all add: str_sanitize_def str_sanitize_cc_def)

lemma scalar_sanitize: "scalar c \<Longrightarrow> scalar (sanitize_char c)" "scalar c \<Longrightarrow> scalar (sanitize_cc_char c)"
  by (simp_all add: scalar_def sanitize_char_def sanitize_cc_char_def)

lemma sanitize_check:
  assumes "str_utf8_check s" "0 \<notin> set s"
  shows "str_utf8_check (str_sanitize s) \<and> str_utf8_check (str_sanitize_cc s)"
proof -
  obtain cs where cs: "\<forall>c \<in> set cs. scalar c" "s = concat (map str_utf8_encode cs)"
    using check_decomp [OF assms] by blast
  then have "\<forall>c \<in> set (map sanitize_char cs). scalar c" "\<forall>c \<in> set (map sanitize_cc_char cs). scalar c"
    by (auto simp: scalar_sanitize)
  then show ?thesis
    unfolding cs(2) sanitize_concat [OF cs(1)] by (blast intro: check_concat)
qed

lemma sanitize_clean:
  "b \<in> set (str_sanitize s) \<Longrightarrow> 32 \<le> uint b \<or> uint b \<in> {9, 10, 13}"
  "b \<in> set (str_sanitize_cc s) \<Longrightarrow> 32 \<le> uint b"
  by (auto simp: str_sanitize_def str_sanitize_cc_def)

lemma skip_whitespaces_suffix:
  "str_utf8_check s \<Longrightarrow> 0 \<notin> set s \<Longrightarrow>
     suffix (str_utf8_skip_whitespaces s) s \<and> str_utf8_check (str_utf8_skip_whitespaces s)"
proof (induction s rule: str_utf8_skip_whitespaces.induct)
  case (1 s)
  obtain c r where d: "str_utf8_decode s = (c, r)" by fastforce
  show ?case
  proof (cases "s = [] \<or> \<not> str_utf8_isspace c")
    case True
    with d "1.prems" show ?thesis by (auto simp: str_utf8_skip_whitespaces.simps [of s])
  next
    case False
    then have ne: "s \<noteq> []" "str_utf8_isspace c" by auto
    then have c0: "c \<noteq> 0" using d "1.prems" by (auto dest: decode_eq_0)
    then have c1: "c \<noteq> -1" and chk: "str_utf8_check r"
      using "1.prems"(1) d by (auto simp: str_utf8_check.simps [of s] split: if_splits)
    have s: "s = str_utf8_encode c @ r" using decode_sound [OF d c0 c1] by simp
    then have "suffix r s" by (simp add: suffix_def)
    moreover have "0 \<notin> set r" using "1.prems" s by simp
    moreover have "str_utf8_skip_whitespaces s = str_utf8_skip_whitespaces r"
      using d ne by (simp add: str_utf8_skip_whitespaces.simps [of s])
    ultimately show ?thesis using "1.IH" [OF ne(1) d [symmetric]] chk ne(2)
      by (auto intro: suffix_order.trans)
  qed
qed

section \<open>Properties\<close>

text \<open>
  the decoder of UTF-8 accepts exactly the shortest encodings of the Unicode scalar values:
  it returns a character and the rest of the string if and only if the string starts with the bytes
  \<open>str_utf8_encode\<close> writes for that character. Overlong forms, surrogates and values above
  \<open>0x10FFFF\<close> are all refused.
\<close>

theorem utf8_decode_iff_encode:
  "utf8_next s = Some (c, r) \<longleftrightarrow> scalar c \<and> s = str_utf8_encode c @ r"
proof
  assume "utf8_next s = Some (c, r)"
  then show "scalar c \<and> s = str_utf8_encode c @ r"
    by (intro decode_sound) (auto simp: utf8_next_def split: if_splits prod.splits)
next
  assume "scalar c \<and> s = str_utf8_encode c @ r"
  then show "utf8_next s = Some (c, r)" by (simp add: utf8.dec_enc)
qed

text \<open>
  a bounded copy of valid UTF-8 is valid UTF-8, a prefix of the source, fits with its terminator,
  and is the longest such prefix: \<open>str_copy\<close> cuts on a character boundary and cuts no more than it must.
\<close>

theorem str_copy_longest_valid_prefix:
  assumes "str_utf8_check src" "0 \<notin> set src" "0 < dst_size"
  shows "prefix (str_copy src dst_size) src \<and> str_utf8_check (str_copy src dst_size) \<and>
    length (str_copy src dst_size) < dst_size \<and>
    (\<forall>p. prefix p src \<longrightarrow> str_utf8_check p \<longrightarrow> length p < dst_size \<longrightarrow>
         length p \<le> length (str_copy src dst_size))"
proof -
  let ?enc = "\<lambda>cs. concat (map str_utf8_encode cs)"
  obtain cs where cs: "\<forall>c \<in> set cs. scalar c" and src: "src = ?enc cs"
    using check_decomp [OF assms(1,2)] by blast
  obtain ds where ds: "prefix ds cs" and cpy: "str_copy src dst_size = ?enc ds"
    and len: "length (?enc ds) \<le> dst_size - 1"
    and max: "ds = cs \<or> (\<exists>c. prefix (ds @ [c]) cs \<and> dst_size - 1 < length (?enc (ds @ [c])))"
    using fix_truncation_take [OF cs, of "dst_size - 1"] unfolding str_copy_def src by metis
  have dsok: "\<forall>c \<in> set ds. scalar c" using ds cs by (auto dest: set_mono_prefix)
  have "length p \<le> length (?enc ds)"
    if p: "prefix p src" "str_utf8_check p" "length p < dst_size" for p
  proof -
    have "0 \<notin> set p" using p(1) assms(2) by (auto dest: set_mono_prefix)
    then obtain ps where ps: "\<forall>c \<in> set ps. scalar c" "p = ?enc ps"
      using check_decomp p(2) by blast
    obtain q where q: "?enc ps @ q = ?enc cs" using p(1) ps(2) src by (auto elim: prefixE)
    obtain zs where "cs = ps @ zs" using utf8.concat_enc_split [OF ps(1) cs q] by blast
    then have "prefix ps cs" by simp
    then show ?thesis
      using max
    proof (elim disjE exE conjE)
      assume "ds = cs" with \<open>prefix ps cs\<close> show ?thesis by (auto simp: ps(2) prefix_def)
    next
      fix c assume c: "prefix (ds @ [c]) cs" "dst_size - 1 < length (?enc (ds @ [c]))"
      have "prefix (ds @ [c]) ps \<or> prefix ps ds"
        using prefix_same_cases [OF \<open>prefix ps cs\<close> c(1)] by auto
      moreover have "\<not> prefix (ds @ [c]) ps"
        using c(2) p(3) unfolding ps(2) by (auto simp: prefix_def)
      ultimately show ?thesis by (auto simp: ps(2) prefix_def)
    qed
  qed
  moreover have "prefix (?enc ds) src" using ds by (auto simp: src prefix_def)
  moreover have "str_utf8_check (?enc ds)" using dsok by (rule check_concat)
  ultimately show ?thesis using len assms(3) by (auto simp: cpy)
qed

theorem str_copy_longest_valid_prefix_witness:
  "prefix (str_copy [0x61, 0xC3, 0xA4] 3) [0x61, 0xC3, 0xA4]"
proof -
  have "str_utf8_check [0x61, 0xC3, 0xA4]"
    by (simp add: str_utf8_check.simps Let_def push_bit_eq_mult)
  then show ?thesis using str_copy_longest_valid_prefix [of "[0x61, 0xC3, 0xA4]" 3] by simp
qed

end
