(* ===== verification/Packer.thy ===== *)
theory Packer
  imports VarInt Utf8
begin

text \<open>
  The message packer and unpacker of \<^verbatim>\<open>src/src/engine/shared/packer.cpp\<close>.
  A packer is the bytes between \<open>m_pBuffer\<close> and \<open>m_pCurrent\<close>, the buffer size and the error
  flag. An unpacker is the whole data, which \<open>GetString\<close> sanitizes in place, the offset of
  \<open>m_pCurrent\<close> and the error flag.
\<close>

section \<open>The packer\<close>

record packer =
  m_Written :: "u8 list"
  m_BufferSize :: int
  m_Error :: bool

definition Packer_Reset :: "packer \<Rightarrow> packer" where
  "Packer_Reset p = p\<lparr>m_Error := False, m_Written := []\<rparr>"

definition Space :: "packer \<Rightarrow> int" where
  "Space p = m_BufferSize p - int (length (m_Written p))"

definition AddInt :: "packer \<Rightarrow> i32 \<Rightarrow> packer" where
  "AddInt p i =
     (if m_Error p then p
      else case Pack i (Space p) of
             None \<Rightarrow> p\<lparr>m_Error := True\<rparr>
           | Some bs \<Rightarrow> p\<lparr>m_Written := m_Written p @ bs\<rparr>)"

text \<open>The loop of \<open>AddString\<close>; \<open>None\<close> is its error exit, which restores \<open>m_pCurrent\<close>.\<close>

function AddString_loop :: "int \<Rightarrow> bool \<Rightarrow> u8 list \<Rightarrow> int \<Rightarrow> u8 list \<Rightarrow> u8 list option" where
  "AddString_loop BufSize AllowTruncation cur Limit str =
     (if str = [] then Some cur
      else case str_utf8_decode str of (c, str') \<Rightarrow>
        let Codepoint = (if c = -1 then 0xfffd else c);
            aEncoded = str_utf8_encode Codepoint;
            Length = int (length aEncoded)
        in if Limit < Length then (if AllowTruncation then Some cur else None)
           else if int (length cur) + Length + 1 > BufSize then None
           else AddString_loop BufSize AllowTruncation (cur @ aEncoded) (Limit - Length) str')"
  by pat_completeness auto
termination
  by (relation "measure (\<lambda>(z, t, c, l, s). length s)") (auto dest!: decode_rest_shorter [OF sym])

declare AddString_loop.simps [simp del]

definition AddString :: "packer \<Rightarrow> u8 list \<Rightarrow> int \<Rightarrow> bool \<Rightarrow> packer" where
  "AddString p str Limit AllowTruncation =
     (if m_Error p then p
      else case AddString_loop (m_BufferSize p) AllowTruncation (m_Written p)
                  (if Limit \<le> 0 then m_BufferSize p else Limit) str of
             None \<Rightarrow> p\<lparr>m_Error := True\<rparr>
           | Some cur \<Rightarrow> p\<lparr>m_Written := cur @ [0]\<rparr>)"

definition AddRaw :: "packer \<Rightarrow> u8 list \<Rightarrow> packer" where
  "AddRaw p data =
     (if m_Error p then p
      else if int (length (m_Written p)) + int (length data) > m_BufferSize p
        then p\<lparr>m_Error := True\<rparr>
      else p\<lparr>m_Written := m_Written p @ data\<rparr>)"

section \<open>The unpacker\<close>

record unpacker =
  m_Data :: "u8 list"
  m_Current :: nat
  m_UError :: bool

definition SANITIZE :: int where "SANITIZE = 1"
definition SANITIZE_CC :: int where "SANITIZE_CC = 2"
definition SKIP_START_WHITESPACES :: int where "SKIP_START_WHITESPACES = 4"

definition Unpacker_Reset :: "u8 list \<Rightarrow> unpacker" where
  "Unpacker_Reset data = \<lparr>m_Data = data, m_Current = 0, m_UError = False\<rparr>"

definition Remaining :: "unpacker \<Rightarrow> u8 list" where
  "Remaining u = drop (m_Current u) (m_Data u)"

definition GetInt :: "unpacker \<Rightarrow> i32 \<times> unpacker" where
  "GetInt u =
     (if m_UError u then (0, u)
      else if m_Current u \<ge> length (m_Data u) then (0, u\<lparr>m_UError := True\<rparr>)
      else case Unpack (Remaining u) of
             None \<Rightarrow> (0, u\<lparr>m_UError := True\<rparr>)
           | Some (i, rest) \<Rightarrow> (i, u\<lparr>m_Current := length (m_Data u) - length rest\<rparr>))"

definition GetIntOrDefault :: "unpacker \<Rightarrow> i32 \<Rightarrow> i32 \<times> unpacker" where
  "GetIntOrDefault u Default =
     (if m_UError u then (0, u)
      else if m_Current u = length (m_Data u) then (Default, u)
      else GetInt u)"

text \<open>An \<open>int\<close> copied from memory on a little-endian machine.\<close>

definition int_of_mem :: "u8 list \<Rightarrow> i32" where
  "int_of_mem bs = word_of_int (\<Sum>k<4. uint (bs ! k) * 256 ^ k)"

definition GetUncompressedInt :: "unpacker \<Rightarrow> i32 \<times> unpacker" where
  "GetUncompressedInt u =
     (if m_UError u then (0, u)
      else if m_Current u + 4 > length (m_Data u) then (0, u\<lparr>m_UError := True\<rparr>)
      else (int_of_mem (take 4 (Remaining u)), u\<lparr>m_Current := m_Current u + 4\<rparr>))"

definition GetUncompressedIntOrDefault :: "unpacker \<Rightarrow> i32 \<Rightarrow> i32 \<times> unpacker" where
  "GetUncompressedIntOrDefault u Default =
     (if m_UError u then (0, u)
      else if m_Current u = length (m_Data u) then (Default, u)
      else GetUncompressedInt u)"

text \<open>
  The string starts at \<open>m_pCurrent\<close>; without a terminator in the data the scan stops at
  the end. The result is the string the returned pointer points at.
\<close>

definition GetString :: "unpacker \<Rightarrow> int \<Rightarrow> u8 list \<times> unpacker" where
  "GetString u SanitizeType =
     (if m_UError u then ([], u)
      else if m_Current u \<ge> length (m_Data u) then ([], u\<lparr>m_UError := True\<rparr>)
      else if 0 \<notin> set (Remaining u)
        then ([], u\<lparr>m_Current := length (m_Data u), m_UError := True\<rparr>)
      else
        let str = takeWhile (\<lambda>b. b \<noteq> 0) (Remaining u);
            cur = m_Current u;
            u = u\<lparr>m_Current := cur + length str + 1\<rparr>
        in if \<not> str_utf8_check str then ([], u\<lparr>m_UError := True\<rparr>)
           else
             let str' = (if SanitizeType AND SANITIZE \<noteq> 0 then str_sanitize str
                         else if SanitizeType AND SANITIZE_CC \<noteq> 0 then str_sanitize_cc str
                         else str);
                 u = u\<lparr>m_Data := take cur (m_Data u) @ str' @ drop (cur + length str) (m_Data u)\<rparr>
             in (if SanitizeType AND SKIP_START_WHITESPACES \<noteq> 0
                 then str_utf8_skip_whitespaces str' else str', u))"

definition GetRaw :: "unpacker \<Rightarrow> int \<Rightarrow> u8 list option \<times> unpacker" where
  "GetRaw u Size =
     (if m_UError u then (None, u)
      else if Size < 0 \<or> int (m_Current u) + Size > int (length (m_Data u))
        then (None, u\<lparr>m_UError := True\<rparr>)
      else (Some (take (nat Size) (Remaining u)), u\<lparr>m_Current := m_Current u + nat Size\<rparr>))"

section \<open>Errors are sticky\<close>

lemma packer_error_sticky [frame_simps]:
  "m_Error p \<Longrightarrow> AddInt p i = p" "m_Error p \<Longrightarrow> AddString p s l t = p" "m_Error p \<Longrightarrow> AddRaw p d = p"
  by (simp_all add: AddInt_def AddString_def AddRaw_def)

lemma unpacker_error_sticky [frame_simps]:
  "m_UError u \<Longrightarrow> GetInt u = (0, u)" "m_UError u \<Longrightarrow> GetIntOrDefault u d = (0, u)"
  "m_UError u \<Longrightarrow> GetUncompressedInt u = (0, u)" "m_UError u \<Longrightarrow> GetUncompressedIntOrDefault u d = (0, u)"
  "m_UError u \<Longrightarrow> GetString u st = ([], u)" "m_UError u \<Longrightarrow> GetRaw u n = (None, u)"
  by (simp_all add: GetInt_def GetIntOrDefault_def GetUncompressedInt_def
      GetUncompressedIntOrDefault_def GetString_def GetRaw_def)

section \<open>Bounds\<close>

definition packer_ok :: "packer \<Rightarrow> bool" where
  "packer_ok p \<longleftrightarrow> int (length (m_Written p)) \<le> m_BufferSize p"

definition unpacker_ok :: "unpacker \<Rightarrow> bool" where
  "unpacker_ok u \<longleftrightarrow> m_Current u \<le> length (m_Data u)"

lemma AddInt_ok [inv_intros]: "packer_ok p \<Longrightarrow> packer_ok (AddInt p i)"
  by (auto simp: AddInt_def packer_ok_def Space_def Pack_packed length_packed)

lemma AddRaw_ok [inv_intros]: "packer_ok p \<Longrightarrow> packer_ok (AddRaw p d)"
  by (auto simp: AddRaw_def packer_ok_def)

lemma AddString_loop_bound:
  "AddString_loop BufSize t cur Limit str = Some cur' \<Longrightarrow> int (length cur) < BufSize \<Longrightarrow>
     int (length cur') < BufSize"
proof (induction BufSize t cur Limit str rule: AddString_loop.induct)
  case (1 BufSize t cur Limit str)
  obtain c r where d: "str_utf8_decode str = (c, r)" by fastforce
  show ?case
    using 1 d by (auto simp: AddString_loop.simps [of BufSize t cur Limit str] Let_def split: if_splits)
qed

lemma AddString_ok [inv_intros]:
  "packer_ok p \<Longrightarrow> 0 < Space p \<Longrightarrow> packer_ok (AddString p s l t)"
  by (auto simp: AddString_def packer_ok_def Space_def split: option.split
      dest!: AddString_loop_bound)

lemma length_sanitize [simp]:
  "length (str_sanitize s) = length s" "length (str_sanitize_cc s) = length s"
  by (simp_all add: str_sanitize_def str_sanitize_cc_def)

lemma terminator_in_data:
  assumes "0 \<in> set (Remaining u)"
  shows "m_Current u + length (takeWhile (\<lambda>b. b \<noteq> 0) (Remaining u)) + 1 \<le> length (m_Data u)"
proof -
  obtain ys zs where "Remaining u = ys @ 0 # zs" "0 \<notin> set ys"
    using split_list_first [OF assms] by blast
  then have "length (takeWhile (\<lambda>b. b \<noteq> 0) (Remaining u)) < length (Remaining u)"
    by simp
  then show ?thesis by (simp add: Remaining_def)
qed

lemma GetString_ok:
  assumes "unpacker_ok u"
  shows "unpacker_ok (snd (GetString u st)) \<and>
     length (m_Data (snd (GetString u st))) = length (m_Data u)"
proof (cases "m_UError u \<or> m_Current u \<ge> length (m_Data u) \<or> 0 \<notin> set (Remaining u)")
  case True
  with assms show ?thesis by (auto simp: GetString_def unpacker_ok_def)
next
  case False
  then show ?thesis
    using assms terminator_in_data [of u] by (auto simp: GetString_def unpacker_ok_def Let_def)
qed

lemma Unpack_rest_le: "Unpack s = Some (i, r) \<Longrightarrow> length r \<le> length s"
  using Unpack_shorter [of s i r] by simp

lemma GetInt_ok [inv_intros]: "unpacker_ok u \<Longrightarrow> unpacker_ok (snd (GetInt u))"
  by (auto simp: GetInt_def unpacker_ok_def split: option.split)

lemma GetRaw_ok [inv_intros]: "unpacker_ok u \<Longrightarrow> unpacker_ok (snd (GetRaw u n))"
  by (auto simp: GetRaw_def unpacker_ok_def nat_le_iff)

lemma GetUncompressedInt_ok [inv_intros]:
  "unpacker_ok u \<Longrightarrow> unpacker_ok (snd (GetUncompressedInt u))"
  by (auto simp: GetUncompressedInt_def unpacker_ok_def)

section \<open>A message is read back as it was written\<close>

text \<open>The fields of a message, and the code that writes and reads one of each kind.\<close>

datatype field = FInt i32 | FString "u8 list" | FRaw "u8 list"

fun add_field :: "packer \<Rightarrow> field \<Rightarrow> packer" where
  "add_field p (FInt i) = AddInt p i"
| "add_field p (FString s) = AddString p s 0 True"
| "add_field p (FRaw d) = AddRaw p d"

text \<open>Read the field that has the kind (and, for raw data, the size) of the given one.\<close>

fun get_field :: "unpacker \<Rightarrow> field \<Rightarrow> field \<times> unpacker" where
  "get_field u (FInt _) = (let (i, u') = GetInt u in (FInt i, u'))"
| "get_field u (FString _) = (let (s, u') = GetString u SANITIZE in (FString s, u'))"
| "get_field u (FRaw d) =
     (let (r, u') = GetRaw u (int (length d)) in (FRaw (case r of None \<Rightarrow> [] | Some d' \<Rightarrow> d'), u'))"

fun get_fields :: "unpacker \<Rightarrow> field list \<Rightarrow> field list \<times> unpacker" where
  "get_fields u [] = ([], u)"
| "get_fields u (f # fs) =
     (let (g, u') = get_field u f; (gs, u'') = get_fields u' fs in (g # gs, u''))"

text \<open>The bytes of a field, and the strings that survive sanitizing.\<close>

fun field_bytes :: "field \<Rightarrow> u8 list" where
  "field_bytes (FInt i) = packed i"
| "field_bytes (FString s) = s @ [0]"
| "field_bytes (FRaw d) = d"

definition clean_string :: "u8 list \<Rightarrow> bool" where
  "clean_string s \<longleftrightarrow> 0 \<notin> set s \<and> str_utf8_check s \<and> str_sanitize s = s"

fun clean_field :: "field \<Rightarrow> bool" where
  "clean_field (FString s) = clean_string s"
| "clean_field _ = True"

lemma AddString_loop_fits:
  "\<forall>c \<in> set cs. scalar c \<Longrightarrow>
     int (length (concat (map str_utf8_encode cs))) \<le> l \<Longrightarrow>
     int (length cur) + int (length (concat (map str_utf8_encode cs))) < z \<Longrightarrow>
     AddString_loop z t cur l (concat (map str_utf8_encode cs))
       = Some (cur @ concat (map str_utf8_encode cs))"
proof (induction cs arbitrary: cur l)
  case Nil
  then show ?case by (simp add: AddString_loop.simps)
next
  case (Cons c cs)
  let ?e = "str_utf8_encode c" and ?r = "concat (map str_utf8_encode cs)"
  have c: "scalar c" using Cons.prems by simp
  then have "?e \<noteq> []" by (rule utf8.enc_nonempty)
  moreover have "AddString_loop z t (cur @ ?e) (l - int (length ?e)) ?r = Some ((cur @ ?e) @ ?r)"
    using Cons.prems by (intro Cons.IH) simp_all
  ultimately show ?case
    using Cons.prems c decode_encode [OF c, of ?r]
    by (subst AddString_loop.simps) (simp add: Let_def scalar_def)
qed

lemma AddString_fits:
  assumes "0 \<notin> set s" "str_utf8_check s" "\<not> m_Error p"
    "int (length (m_Written p)) + int (length s) + 1 \<le> m_BufferSize p"
  shows "AddString p s 0 t = p\<lparr>m_Written := m_Written p @ s @ [0]\<rparr>"
proof -
  obtain cs where "\<forall>c \<in> set cs. scalar c" "s = concat (map str_utf8_encode cs)"
    using check_decomp assms by blast
  with AddString_loop_fits [of cs "m_BufferSize p" "m_Written p" "m_BufferSize p" t] assms
  show ?thesis by (simp add: AddString_def)
qed

lemma add_field_fits:
  assumes "\<not> m_Error p" "clean_field f"
    "int (length (m_Written p)) + int (length (field_bytes f)) \<le> m_BufferSize p"
  shows "add_field p f = p\<lparr>m_Written := m_Written p @ field_bytes f\<rparr>"
proof (cases f)
  case (FInt i)
  with assms show ?thesis by (simp add: AddInt_def Pack_packed Space_def length_packed)
next
  case (FString s)
  with assms show ?thesis by (simp add: clean_string_def AddString_fits)
next
  case (FRaw d)
  with assms show ?thesis by (simp add: AddRaw_def)
qed

lemma add_fields_fit:
  "\<not> m_Error p \<Longrightarrow> \<forall>f \<in> set fs. clean_field f \<Longrightarrow>
     int (length (m_Written p)) + int (length (concat (map field_bytes fs))) \<le> m_BufferSize p \<Longrightarrow>
     foldl add_field p fs = p\<lparr>m_Written := m_Written p @ concat (map field_bytes fs)\<rparr>"
proof (induction fs arbitrary: p)
  case (Cons f fs)
  then show ?case using add_field_fits [of p f] by simp
qed simp

lemma get_field_clean:
  assumes "clean_field f" "m_Data u = pre @ field_bytes f @ post" "m_Current u = length pre" "\<not> m_UError u"
  shows "get_field u f = (f, u\<lparr>m_Current := length (pre @ field_bytes f)\<rparr>)"
proof (cases f)
  case (FInt i)
  with assms show ?thesis by (simp add: GetInt_def Remaining_def vi.dec_enc)
next
  case (FString s)
  with assms have s: "0 \<notin> set s" "str_utf8_check s" "str_sanitize s = s" by (simp_all add: clean_string_def)
  have rem: "Remaining u = s @ 0 # post" using assms FString by (simp add: Remaining_def)
  have "u\<lparr>m_Data := pre @ s @ drop (length pre + length s) (m_Data u)\<rparr> = u"
    using assms(2) FString by simp
  then show ?thesis
    using assms FString s
    by (simp add: GetString_def rem SANITIZE_def SKIP_START_WHITESPACES_def)
next
  case (FRaw d)
  with assms show ?thesis by (simp add: GetRaw_def Remaining_def)
qed

lemma get_fields_clean:
  "\<forall>f \<in> set fs. clean_field f \<Longrightarrow> m_Data u = pre @ concat (map field_bytes fs) @ post \<Longrightarrow>
     m_Current u = length pre \<Longrightarrow> \<not> m_UError u \<Longrightarrow>
     get_fields u fs = (fs, u\<lparr>m_Current := length (pre @ concat (map field_bytes fs))\<rparr>)"
proof (induction fs arbitrary: u pre)
  case (Cons f fs)
  let ?u = "u\<lparr>m_Current := length (pre @ field_bytes f)\<rparr>"
  have "get_field u f = (f, ?u)"
    using Cons.prems by (intro get_field_clean [where post = "concat (map field_bytes fs) @ post"]) simp_all
  moreover have "get_fields ?u fs = (fs, ?u\<lparr>m_Current := length ((pre @ field_bytes f) @ concat (map field_bytes fs))\<rparr>)"
    using Cons.prems by (intro Cons.IH) simp_all
  ultimately show ?case by simp
qed simp

text \<open>
  The terminator is written without a check of its own: on a full buffer the empty string
  is written one byte past the end.
\<close>

lemma AddString_full_buffer:
  assumes "\<not> m_Error p" "Space p = 0"
  shows "AddString p [] l t = p\<lparr>m_Written := m_Written p @ [0]\<rparr>"
  using assms by (simp add: AddString_def AddString_loop.simps)

text \<open>What \<open>GetString\<close> can return.\<close>

definition string_ok :: "int \<Rightarrow> u8 list \<Rightarrow> bool" where
  "string_ok st s \<longleftrightarrow> 0 \<notin> set s \<and> str_utf8_check s \<and>
     (if st AND SANITIZE \<noteq> 0 then \<forall>b \<in> set s. 32 \<le> uint b \<or> uint b \<in> {9, 10, 13}
      else if st AND SANITIZE_CC \<noteq> 0 then \<forall>b \<in> set s. 32 \<le> uint b
      else True)"

lemma string_ok_Nil: "string_ok st []"
  by (simp add: string_ok_def str_utf8_check.simps)

lemma string_ok_skip: "string_ok st s \<Longrightarrow> string_ok st (str_utf8_skip_whitespaces s)"
  using skip_whitespaces_suffix [of s] unfolding string_ok_def
  by (auto split: if_splits dest: set_mono_suffix)

lemma string_ok_sanitized:
  assumes "0 \<notin> set s" "str_utf8_check s"
  shows "string_ok st (if st AND SANITIZE \<noteq> 0 then str_sanitize s
           else if st AND SANITIZE_CC \<noteq> 0 then str_sanitize_cc s else s)"
proof -
  have "0 \<notin> set (str_sanitize s)" "0 \<notin> set (str_sanitize_cc s)"
    using sanitize_clean [of 0 s] by auto
  then show ?thesis
    using assms sanitize_check [of s] sanitize_clean by (auto simp: string_ok_def)
qed

lemma GetString_string_ok: "string_ok st (fst (GetString u st))"
proof -
  define s where "s = takeWhile (\<lambda>b. b \<noteq> 0) (Remaining u)"
  have "0 \<notin> set s" unfolding s_def by (auto dest: set_takeWhileD)
  then have "str_utf8_check s \<Longrightarrow> string_ok st (if st AND SANITIZE \<noteq> 0 then str_sanitize s
           else if st AND SANITIZE_CC \<noteq> 0 then str_sanitize_cc s else s)"
    by (rule string_ok_sanitized)
  then show ?thesis
    by (auto simp: GetString_def Let_def string_ok_Nil s_def intro: string_ok_skip)
qed

section \<open>Properties\<close>

text \<open>
  C40: what \<open>AddInt\<close>, \<open>AddString\<close> and \<open>AddRaw\<close> write into a packer with enough room, where strings are
  valid UTF-8 that \<open>str_sanitize\<close> keeps, is read back by
  \<open>GetInt\<close>, \<open>GetString\<close> and \<open>GetRaw\<close> in the same order, whatever follows the message, with
  neither error flag set and the read position right behind the message.
\<close>

theorem packer_message_roundtrip:
  assumes "\<forall>f \<in> set fs. clean_field f" "length (concat (map field_bytes fs)) \<le> n"
  shows "let p = foldl add_field \<lparr>m_Written = [], m_BufferSize = int n, m_Error = False\<rparr> fs;
             (gs, u) = get_fields (Unpacker_Reset (m_Written p @ rest)) fs
         in gs = fs \<and> \<not> m_Error p \<and> \<not> m_UError u \<and> Remaining u = rest"
proof -
  let ?p = "\<lparr>m_Written = [], m_BufferSize = int n, m_Error = False\<rparr>"
  have p: "foldl add_field ?p fs = ?p\<lparr>m_Written := concat (map field_bytes fs)\<rparr>"
    using add_fields_fit [of ?p fs] assms by simp
  define u where "u = Unpacker_Reset (concat (map field_bytes fs) @ rest)"
  have "get_fields u fs = (fs, u\<lparr>m_Current := length (concat (map field_bytes fs))\<rparr>)"
    using get_fields_clean [of fs u "[]" rest] assms(1) by (simp add: u_def Unpacker_Reset_def)
  then show ?thesis by (simp add: p u_def Unpacker_Reset_def Remaining_def)
qed

theorem packer_message_roundtrip_witness:
  "let fs = [FInt 7, FString [0x61], FRaw [1, 2]];
       p = foldl add_field \<lparr>m_Written = [], m_BufferSize = int 20, m_Error = False\<rparr> fs;
       (gs, u) = get_fields (Unpacker_Reset (m_Written p @ [9])) fs
   in gs = fs \<and> \<not> m_Error p \<and> \<not> m_UError u \<and> Remaining u = [9]"
proof -
  have "clean_string [0x61]"
    by (simp add: clean_string_def str_utf8_check.simps Let_def str_sanitize_def)
  moreover have "length (packed 7) \<le> 5"
    using length_packed [of 7] packed_size_bounds(2) [of 7] by linarith
  ultimately show ?thesis
    using packer_message_roundtrip [of "[FInt 7, FString [0x61], FRaw [1, 2]]" 20 "[9]"]
    unfolding Let_def by simp
qed

text \<open>
  the packer's buffer is never overrun by \<open>AddInt\<close> and \<open>AddRaw\<close>, nor by \<open>AddString\<close> while there
  is room for the terminator. On a full buffer \<open>AddString\<close> of the empty string writes its
  terminator past the end without setting the error flag.
\<close>

theorem packer_buffer_bounds:
  assumes "packer_ok p"
  shows "packer_ok (AddInt p i) \<and> packer_ok (AddRaw p d) \<and>
    (0 < Space p \<longrightarrow> packer_ok (AddString p s l t)) \<and>
    (Space p = 0 \<longrightarrow> \<not> m_Error p \<longrightarrow>
       \<not> packer_ok (AddString p [] l t) \<and> \<not> m_Error (AddString p [] l t))"
  using assms inv_intros
  by (auto simp: AddString_full_buffer packer_ok_def Space_def)

theorem packer_buffer_bounds_witness:
  "packer_ok (AddInt \<lparr>m_Written = [1], m_BufferSize = 1, m_Error = False\<rparr> 5) \<and>
   \<not> packer_ok (AddString \<lparr>m_Written = [1], m_BufferSize = 1, m_Error = False\<rparr> [] 0 False)"
proof -
  let ?p = "\<lparr>m_Written = [1], m_BufferSize = 1, m_Error = False\<rparr>"
  have "packer_ok ?p" "Space ?p = 0" "\<not> m_Error ?p" by (simp_all add: packer_ok_def Space_def)
  then show ?thesis using packer_buffer_bounds [of ?p] by blast
qed

text \<open>
  Whatever the data, every read leaves the position inside the data, whose size does not
  change, and a string handed out by \<open>GetString\<close> is valid UTF-8 without terminators and, when
  sanitizing was asked for, without control characters.
\<close>

theorem unpacker_reads_safe:
  assumes "unpacker_ok u"
  shows "unpacker_ok (snd (GetInt u)) \<and> unpacker_ok (snd (GetUncompressedInt u)) \<and>
    unpacker_ok (snd (GetRaw u n)) \<and> unpacker_ok (snd (GetString u st)) \<and>
    length (m_Data (snd (GetString u st))) = length (m_Data u) \<and>
    string_ok st (fst (GetString u st))"
  using assms GetString_ok [OF assms, of st] GetString_string_ok [of st u] inv_intros by blast

theorem unpacker_reads_safe_witness:
  "unpacker_ok (snd (GetString (Unpacker_Reset [0xFF, 0, 3]) SANITIZE))"
  using unpacker_reads_safe [of "Unpacker_Reset [0xFF, 0, 3]" 0 SANITIZE]
  by (simp add: unpacker_ok_def Unpacker_Reset_def)

end
