(* ===== verification/Huffman.thy ===== *)
theory Huffman
  imports Prelude "HOL-Library.Multiset"
begin

text \<open>
  The static Huffman coder of \<^verbatim>\<open>src/src/engine/shared/huffman.cpp\<close>. A node pointer is
  the index of the node in \<open>m_aNodes\<close>, the null pointer \<open>None\<close>; \<open>unsigned\<close> values are words of
  32 bits, so \<open>Bitcount\<close> wraps as it does in the code.
\<close>

section \<open>Building the tree\<close>

definition HUFFMAN_EOF_SYMBOL :: nat where "HUFFMAN_EOF_SYMBOL = 256"
definition HUFFMAN_MAX_SYMBOLS :: nat where "HUFFMAN_MAX_SYMBOLS = HUFFMAN_EOF_SYMBOL + 1"
definition HUFFMAN_MAX_NODES :: nat where "HUFFMAN_MAX_NODES = HUFFMAN_MAX_SYMBOLS * 2 - 1"
definition HUFFMAN_LUTBITS :: nat where "HUFFMAN_LUTBITS = 10"
definition HUFFMAN_LUTSIZE :: nat where "HUFFMAN_LUTSIZE = 2 ^ HUFFMAN_LUTBITS"
definition HUFFMAN_LUTMASK :: i32 where "HUFFMAN_LUTMASK = 0x3FF"

lemmas huffman_consts = HUFFMAN_EOF_SYMBOL_def HUFFMAN_MAX_SYMBOLS_def HUFFMAN_MAX_NODES_def
  HUFFMAN_LUTBITS_def HUFFMAN_LUTSIZE_def HUFFMAN_LUTMASK_def

definition ms_aFreqTable :: "int list" where
  "ms_aFreqTable = [
    1073741824, 4545, 2657, 431, 1950, 919, 444, 482, 2244, 617, 838, 542, 715, 1814, 304, 240, 754, 212, 647, 186,
    283, 131, 146, 166, 543, 164, 167, 136, 179, 859, 363, 113, 157, 154, 204, 108, 137, 180, 202, 176,
    872, 404, 168, 134, 151, 111, 113, 109, 120, 126, 129, 100, 41, 20, 16, 22, 18, 18, 17, 19,
    16, 37, 13, 21, 362, 166, 99, 78, 95, 88, 81, 70, 83, 284, 91, 187, 77, 68, 52, 68,
    59, 66, 61, 638, 71, 157, 50, 46, 69, 43, 11, 24, 13, 19, 10, 12, 12, 20, 14, 9,
    20, 20, 10, 10, 15, 15, 12, 12, 7, 19, 15, 14, 13, 18, 35, 19, 17, 14, 8, 5,
    15, 17, 9, 15, 14, 18, 8, 10, 2173, 134, 157, 68, 188, 60, 170, 60, 194, 62, 175, 71,
    148, 67, 167, 78, 211, 67, 156, 69, 1674, 90, 174, 53, 147, 89, 181, 51, 174, 63, 163, 80,
    167, 94, 128, 122, 223, 153, 218, 77, 200, 110, 190, 73, 174, 69, 145, 66, 277, 143, 141, 60,
    136, 53, 180, 57, 142, 57, 158, 61, 166, 112, 152, 92, 26, 22, 21, 28, 20, 26, 30, 21,
    32, 27, 20, 17, 23, 21, 30, 22, 22, 21, 27, 25, 17, 27, 23, 18, 39, 26, 15, 21,
    12, 18, 18, 27, 20, 18, 15, 19, 11, 17, 33, 12, 18, 15, 19, 18, 16, 26, 17, 18,
    9, 10, 25, 22, 22, 17, 20, 16, 6, 16, 15, 20, 14, 18, 24, 335, 1517
  ]"

record CNode =
  m_Bits :: i32
  m_NumBits :: i32
  m_aLeafs :: "nat \<times> nat"
  m_Symbol :: u8

record CHuffman =
  m_aNodes :: "CNode list"
  m_apDecodeLut :: "nat option list"
  m_pStartNode :: nat
  m_NumNodes :: nat

definition zero_node :: CNode where
  "zero_node = \<lparr>m_Bits = 0, m_NumBits = 0, m_aLeafs = (0, 0), m_Symbol = 0\<rparr>"

definition leaf_at :: "CNode \<Rightarrow> bool \<Rightarrow> nat" where
  "leaf_at n b = (if b then snd (m_aLeafs n) else fst (m_aLeafs n))"

text \<open>
  \<open>Setbits_r\<close> recurses over the nodes; the fuel stands for the C stack. A child of a
  constructed node has a smaller index, so the number of nodes is enough.
\<close>

fun Setbits_r :: "nat \<Rightarrow> CNode list \<Rightarrow> nat \<Rightarrow> i32 \<Rightarrow> nat \<Rightarrow> CNode list" where
  "Setbits_r 0 nodes i Bits Depth = nodes"
| "Setbits_r (Suc fuel) nodes i Bits Depth =
     (let nodes = (if leaf_at (nodes ! i) True \<noteq> 0xffff
                   then Setbits_r fuel nodes (leaf_at (nodes ! i) True) (Bits OR push_bit Depth 1) (Suc Depth)
                   else nodes);
          nodes = (if leaf_at (nodes ! i) False \<noteq> 0xffff
                   then Setbits_r fuel nodes (leaf_at (nodes ! i) False) Bits (Suc Depth)
                   else nodes)
      in if m_NumBits (nodes ! i) \<noteq> 0
         then nodes[i := (nodes ! i)\<lparr>m_Bits := Bits, m_NumBits := of_nat Depth\<rparr>]
         else nodes)"

text \<open>
  The loop of \<open>ConstructTree\<close>: \<open>left\<close> is \<open>apNodesLeft\<close>, pairs of node id and frequency.
  \<open>sort_key\<close> is a stable sort, by descending frequency.
\<close>

function construct_loop :: "CNode list \<Rightarrow> nat \<Rightarrow> (nat \<times> int) list \<Rightarrow> CNode list \<times> nat" where
  "construct_loop nodes NumNodes left =
     (if length left \<le> 1 then (nodes, NumNodes)
      else let left = sort_key (\<lambda>(i, f). - f) left;
               a = left ! (length left - 1);
               b = left ! (length left - 2)
           in construct_loop
                (nodes[NumNodes := (nodes ! NumNodes)\<lparr>m_NumBits := 0, m_aLeafs := (fst a, fst b)\<rparr>])
                (NumNodes + 1)
                (take (length left - 2) left @ [(NumNodes, snd a + snd b)]))"
  by pat_completeness auto
termination
  by (relation "measure (\<lambda>(nodes, n, left). length left)") auto

declare construct_loop.simps [simp del]

definition symbol_node :: "nat \<Rightarrow> CNode" where
  "symbol_node i = \<lparr>m_Bits = 0, m_NumBits = 0xFFFFFFFF, m_aLeafs = (0xffff, 0xffff), m_Symbol = of_nat i\<rparr>"

definition ConstructTree :: "int list \<Rightarrow> CNode list \<times> nat \<times> nat" where
  "ConstructTree pFrequencies =
     (let nodes = map symbol_node [0..<HUFFMAN_MAX_SYMBOLS]
                  @ replicate (HUFFMAN_MAX_NODES - HUFFMAN_MAX_SYMBOLS) zero_node;
          left = map (\<lambda>i. (i, if i = HUFFMAN_EOF_SYMBOL then 1 else pFrequencies ! i)) [0..<HUFFMAN_MAX_SYMBOLS];
          (nodes, NumNodes) = construct_loop nodes HUFFMAN_MAX_SYMBOLS left
      in (Setbits_r HUFFMAN_MAX_NODES nodes (NumNodes - 1) 0 0, NumNodes - 1, NumNodes))"

text \<open>The inner loop of the table construction, from node \<open>i\<close> with \<open>k\<close> bits to go.\<close>

fun lut_walk :: "CNode list \<Rightarrow> nat \<Rightarrow> nat \<Rightarrow> i32 \<Rightarrow> nat" where
  "lut_walk nodes 0 i Bits = i"
| "lut_walk nodes (Suc k) i Bits =
     (let j = leaf_at (nodes ! i) (bit Bits 0)
      in if m_NumBits (nodes ! j) \<noteq> 0 then j else lut_walk nodes k j (drop_bit 1 Bits))"

definition Huffman_Init :: "int list \<Rightarrow> CHuffman" where
  "Huffman_Init pFrequencies =
     (let (nodes, start, NumNodes) = ConstructTree pFrequencies
      in \<lparr>m_aNodes = nodes,
          m_apDecodeLut = map (\<lambda>i. Some (lut_walk nodes HUFFMAN_LUTBITS start (of_nat i))) [0..<HUFFMAN_LUTSIZE],
          m_pStartNode = start, m_NumNodes = NumNodes\<rparr>)"

section \<open>Compressing\<close>

text \<open>The state of the macros: \<open>Bits\<close>, \<open>Bitcount\<close> and the bytes written.\<close>

type_synonym hstate = "i32 \<times> i32 \<times> u8 list"

definition LOADSYMBOL :: "CHuffman \<Rightarrow> nat \<Rightarrow> hstate \<Rightarrow> hstate" where
  "LOADSYMBOL h Sym st =
     (case st of (Bits, Bitcount, dst) \<Rightarrow>
        (Bits OR push_bit (unat Bitcount) (m_Bits (m_aNodes h ! Sym)),
         Bitcount + m_NumBits (m_aNodes h ! Sym), dst))"

function WRITE :: "nat \<Rightarrow> i32 \<Rightarrow> i32 \<Rightarrow> u8 list \<Rightarrow> hstate option" where
  "WRITE OutputSize Bits Bitcount dst =
     (if 8 \<le> Bitcount
      then if length (dst @ [ucast (Bits AND 0xff)]) = OutputSize then None
           else WRITE OutputSize (drop_bit 8 Bits) (Bitcount - 8) (dst @ [ucast (Bits AND 0xff)])
      else Some (Bits, Bitcount, dst))"
  by pat_completeness auto
termination
  by (relation "measure (\<lambda>(sz, b, c, d). unat c)") (auto simp: unat_sub word_le_nat_alt)

declare WRITE.simps [simp del]

definition put_symbol :: "CHuffman \<Rightarrow> nat \<Rightarrow> nat \<Rightarrow> hstate \<Rightarrow> hstate option" where
  "put_symbol h OutputSize Sym st =
     (case LOADSYMBOL h Sym st of (Bits, Bitcount, dst) \<Rightarrow> WRITE OutputSize Bits Bitcount dst)"

fun compress_loop :: "CHuffman \<Rightarrow> nat \<Rightarrow> u8 list \<Rightarrow> hstate \<Rightarrow> hstate option" where
  "compress_loop h OutputSize [] st = Some st"
| "compress_loop h OutputSize (b # src) st =
     (case put_symbol h OutputSize (unat b) st of
        None \<Rightarrow> None
      | Some st' \<Rightarrow> compress_loop h OutputSize src st')"

text \<open>\<open>None\<close> is the return value \<open>-1\<close>; otherwise the output, whose length is returned.\<close>

definition Huffman_Compress :: "CHuffman \<Rightarrow> u8 list \<Rightarrow> nat \<Rightarrow> u8 list option" where
  "Huffman_Compress h pInput OutputSize =
     (case compress_loop h OutputSize pInput (0, 0, []) of
        None \<Rightarrow> None
      | Some st \<Rightarrow>
          (case put_symbol h OutputSize HUFFMAN_EOF_SYMBOL st of
             None \<Rightarrow> None
           | Some (Bits, Bitcount, dst) \<Rightarrow> Some (dst @ [ucast Bits])))"

section \<open>Decompressing\<close>

fun fill_bits :: "i32 \<Rightarrow> i32 \<Rightarrow> u8 list \<Rightarrow> i32 \<times> i32 \<times> u8 list" where
  "fill_bits Bits Bitcount [] = (Bits, Bitcount, [])"
| "fill_bits Bits Bitcount (b # src) =
     (if Bitcount < 24
      then fill_bits (Bits OR push_bit (unat Bitcount) (ucast b)) (Bitcount + 8) src
      else (Bits, Bitcount, b # src))"

lemma count_down: "(c::i32) \<noteq> 1 \<Longrightarrow> unat (c - 2) < unat (c - 1)"
  using measure_unat [of "c - 1"] by (simp add: diff_diff_eq)

text \<open>
  Bit by bit through the tree. The loop ends at the latest when \<open>Bitcount\<close>, which may have
  wrapped around, is counted down to zero.
\<close>

function walk_tree :: "CHuffman \<Rightarrow> nat \<Rightarrow> i32 \<Rightarrow> i32 \<Rightarrow> (nat \<times> i32 \<times> i32) option" where
  "walk_tree h i Bits Bitcount =
     (let j = leaf_at (m_aNodes h ! i) (bit Bits 0);
          Bitcount' = Bitcount - 1;
          Bits' = drop_bit 1 Bits
      in if m_NumBits (m_aNodes h ! j) \<noteq> 0 then Some (j, Bits', Bitcount')
         else if Bitcount' = 0 then None
         else walk_tree h j Bits' Bitcount')"
  by pat_completeness auto
termination
  by (relation "measure (\<lambda>(h, i, b, c). unat (c - 1))") (auto simp: count_down)

declare walk_tree.simps [simp del]

text \<open>One iteration up to the symbol: its node and the new state.\<close>

definition next_symbol :: "CHuffman \<Rightarrow> i32 \<Rightarrow> i32 \<Rightarrow> u8 list \<Rightarrow> (nat \<times> i32 \<times> i32 \<times> u8 list) option" where
  "next_symbol h Bits Bitcount src =
     (let pNode = (if of_nat HUFFMAN_LUTBITS \<le> Bitcount
                   then m_apDecodeLut h ! unat (Bits AND HUFFMAN_LUTMASK) else None);
          (Bits, Bitcount, src) = fill_bits Bits Bitcount src;
          pNode = (if pNode = None then m_apDecodeLut h ! unat (Bits AND HUFFMAN_LUTMASK) else pNode)
      in case pNode of
           None \<Rightarrow> None
         | Some i \<Rightarrow>
             if m_NumBits (m_aNodes h ! i) \<noteq> 0
             then Some (i, drop_bit (unat (m_NumBits (m_aNodes h ! i))) Bits,
                        Bitcount - m_NumBits (m_aNodes h ! i), src)
             else map_option (\<lambda>(j, b, c). (j, b, c, src))
                    (walk_tree h i (drop_bit HUFFMAN_LUTBITS Bits) (Bitcount - of_nat HUFFMAN_LUTBITS)))"

text \<open>\<open>room\<close> is \<open>pDstEnd - pDst\<close>.\<close>

fun decompress_loop :: "CHuffman \<Rightarrow> nat \<Rightarrow> i32 \<Rightarrow> i32 \<Rightarrow> u8 list \<Rightarrow> u8 list option" where
  "decompress_loop h 0 Bits Bitcount src =
     (case next_symbol h Bits Bitcount src of
        None \<Rightarrow> None
      | Some (i, _) \<Rightarrow> if i = HUFFMAN_EOF_SYMBOL then Some [] else None)"
| "decompress_loop h (Suc room) Bits Bitcount src =
     (case next_symbol h Bits Bitcount src of
        None \<Rightarrow> None
      | Some (i, Bits', Bitcount', src') \<Rightarrow>
          if i = HUFFMAN_EOF_SYMBOL then Some []
          else map_option (Cons (m_Symbol (m_aNodes h ! i)))
                 (decompress_loop h room Bits' Bitcount' src'))"

definition Huffman_Decompress :: "CHuffman \<Rightarrow> u8 list \<Rightarrow> nat \<Rightarrow> u8 list option" where
  "Huffman_Decompress h pInput OutputSize = decompress_loop h OutputSize 0 0 pInput"

section \<open>Words as queues of bits\<close>

text \<open>\<open>w\<close> holds the bits \<open>bs\<close>, the first one lowest, and nothing above them.\<close>

definition holds :: "'a::len word \<Rightarrow> bool list \<Rightarrow> bool" where
  "holds w bs \<longleftrightarrow> length bs \<le> LENGTH('a) \<and> (\<forall>k. bit w k \<longleftrightarrow> k < length bs \<and> bs ! k)"

definition bits8 :: "u8 \<Rightarrow> bool list" where
  "bits8 b = map (bit b) [0..<8]"

abbreviation stream :: "u8 list \<Rightarrow> bool list" where
  "stream bs \<equiv> concat (map bits8 bs)"

lemma length_bits8 [simp]: "length (bits8 b) = 8"
  by (simp add: bits8_def)

lemma length_stream [simp]: "length (stream bs) = 8 * length bs"
  by (induction bs) auto

lemma holds_Nil [simp]: "holds w [] \<longleftrightarrow> w = 0"
  by (auto simp: holds_def bit_eq_iff dest: bit_imp_le_length)

lemma holdsD: "holds w bs \<Longrightarrow> bit w k \<longleftrightarrow> k < length bs \<and> bs ! k"
  by (simp add: holds_def)

lemma holds_append:
  assumes "holds (w::i32) bs" "holds (c::i32) cs" "length bs + length cs \<le> 32"
  shows "holds (w OR push_bit (length bs) c) (bs @ cs)"
  unfolding holds_def
proof (intro conjI allI)
  fix k
  have "bit (push_bit (length bs) c) k \<longleftrightarrow>
      length bs \<le> k \<and> k < LENGTH(32) \<and> bit c (k - length bs)"
    by (simp add: bit_push_bit_iff)
  then show "bit (w OR push_bit (length bs) c) k \<longleftrightarrow> k < length (bs @ cs) \<and> (bs @ cs) ! k"
    using assms holdsD [OF assms(1), of k] holdsD [OF assms(2), of "k - length bs"]
    by (cases "k < length bs") (simp_all add: bit_or_iff nth_append, auto)
qed (use assms in simp)

lemma holds_drop:
  assumes "holds (w::'a::len word) bs"
  shows "holds (drop_bit k w) (drop k bs)"
  unfolding holds_def
proof (intro conjI allI)
  fix j
  show "bit (drop_bit k w) j \<longleftrightarrow> j < length (drop k bs) \<and> drop k bs ! j"
    using holdsD [OF assms, of "k + j"] by (auto simp: bit_drop_bit_eq)
next
  have "length bs \<le> LENGTH('a)" using assms by (simp add: holds_def)
  then show "length (drop k bs) \<le> LENGTH('a)" by simp
qed

lemma bits8_nth: "k < 8 \<Longrightarrow> bits8 b ! k = bit b k"
  by (simp add: bits8_def)

lemma holds_byte: "holds (ucast (b::u8) :: i32) (bits8 b)"
  unfolding holds_def
proof (intro conjI allI)
  fix k
  show "bit (ucast b :: i32) k \<longleftrightarrow> k < length (bits8 b) \<and> bits8 b ! k"
    using bit_imp_le_length [of b k] by (auto simp: bit_ucast_iff bits8_nth)
qed simp

lemma bits8_holds:
  assumes "holds (w::i32) bs" "8 \<le> length bs"
  shows "bits8 (ucast (w AND 0xff)) = take 8 bs"
  using assms by (intro nth_equalityI) (auto simp: bits8_def bit_simps lit_bits holdsD)

lemma bits8_holds_short:
  assumes "holds (w::i32) bs" "length bs \<le> 8"
  shows "bits8 (ucast w) = bs @ replicate (8 - length bs) False"
  using assms by (intro nth_equalityI) (auto simp: bits8_def bit_simps holdsD nth_append)

lemma holds_bit0: "holds w (b # bs) \<Longrightarrow> bit w 0 = b"
  by (simp add: holds_def)

section \<open>Coders that are prefix codes\<close>

text \<open>
  What compressing and decompressing rely on: \<open>cod s\<close> is the code of symbol \<open>s\<close>, stored in its
  node, and leads from the start node to that node through inner nodes.
\<close>

fun walk :: "CHuffman \<Rightarrow> nat \<Rightarrow> bool list \<Rightarrow> nat" where
  "walk h i [] = i"
| "walk h i (b # bs) = walk h (leaf_at (m_aNodes h ! i) b) bs"

definition prefix_coder :: "CHuffman \<Rightarrow> (nat \<Rightarrow> bool list) \<Rightarrow> bool" where
  "prefix_coder h cod \<longleftrightarrow>
     (\<forall>s \<le> HUFFMAN_EOF_SYMBOL.
        1 \<le> length (cod s) \<and> length (cod s) \<le> 24 \<and>
        holds (m_Bits (m_aNodes h ! s)) (cod s) \<and>
        m_NumBits (m_aNodes h ! s) = of_nat (length (cod s)) \<and>
        m_Symbol (m_aNodes h ! s) = of_nat s \<and>
        walk h (m_pStartNode h) (cod s) = s \<and>
        (\<forall>k < length (cod s). 0 < k \<longrightarrow> m_NumBits (m_aNodes h ! walk h (m_pStartNode h) (take k (cod s))) = 0)) \<and>
     (\<forall>i < HUFFMAN_LUTSIZE. m_apDecodeLut h ! i =
        Some (lut_walk (m_aNodes h) HUFFMAN_LUTBITS (m_pStartNode h) (of_nat i)))"

lemma walk_append: "walk h i (xs @ ys) = walk h (walk h i xs) ys"
  by (induction xs arbitrary: i) auto

subsection \<open>Compressing writes the codes\<close>

definition cstate :: "hstate \<Rightarrow> bool list \<Rightarrow> bool" where
  "cstate st bs \<longleftrightarrow> (case st of (Bits, Bitcount, dst) \<Rightarrow>
     \<exists>buf. holds Bits buf \<and> Bitcount = of_nat (length buf) \<and> stream dst @ buf = bs)"

lemma unat_count: "n \<le> 32 \<Longrightarrow> unat (of_nat n :: i32) = n"
  by (simp add: unat_of_nat)

lemma WRITE_cstate:
  "holds Bits buf \<Longrightarrow> Bitcount = of_nat (length buf) \<Longrightarrow>
   WRITE sz Bits Bitcount dst = Some (Bits', Bitcount', dst') \<Longrightarrow>
   \<exists>buf'. holds Bits' buf' \<and> Bitcount' = of_nat (length buf') \<and> length buf' < 8 \<and>
          stream dst' @ buf' = stream dst @ buf"
proof (induction sz Bits Bitcount dst arbitrary: buf rule: WRITE.induct)
  case (1 sz Bits Bitcount dst)
  have len: "length buf \<le> 32" using "1.prems"(1) by (simp add: holds_def)
  then have cnt: "8 \<le> Bitcount \<longleftrightarrow> 8 \<le> length buf"
    by (simp add: "1.prems"(2) word_le_nat_alt unat_count)
  show ?case
  proof (cases "8 \<le> Bitcount")
    case True
    let ?b = "ucast (Bits AND 0xff) :: u8"
    have ne: "length (dst @ [?b]) \<noteq> sz"
      and rec: "WRITE sz (drop_bit 8 Bits) (Bitcount - 8) (dst @ [?b]) = Some (Bits', Bitcount', dst')"
      using "1.prems"(3) True by (subst (asm) WRITE.simps, simp split: if_splits)+
    have "Bitcount - 8 = of_nat (length (drop 8 buf))"
      using True cnt by (simp add: "1.prems"(2) of_nat_diff)
    from "1.IH" [OF True ne holds_drop [OF "1.prems"(1)] this rec]
    show ?thesis using bits8_holds [OF "1.prems"(1)] True cnt by auto
  next
    case False
    with "1.prems" cnt show ?thesis by (subst (asm) WRITE.simps) auto
  qed
qed

lemma put_symbol_cstate:
  assumes "prefix_coder h cod" "s \<le> HUFFMAN_EOF_SYMBOL" "cstate st bs" "fst (snd st) < 8"
    and "put_symbol h sz s st = Some st'"
  shows "cstate st' (bs @ cod s) \<and> fst (snd st') < 8"
proof -
  obtain Bits cnt dst where st: "st = (Bits, cnt, dst)" by (cases st)
  obtain buf where buf: "holds Bits buf" "cnt = of_nat (length buf)" "stream dst @ buf = bs"
    using assms(3) by (auto simp: cstate_def st)
  have "length buf \<le> 32" using buf(1) by (simp add: holds_def)
  then have len: "length buf < 8" using assms(4) by (simp add: st buf(2) word_less_nat_alt unat_count)
  have code: "holds (m_Bits (m_aNodes h ! s)) (cod s)" "length (cod s) \<le> 24"
    "m_NumBits (m_aNodes h ! s) = of_nat (length (cod s))"
    using assms(1,2) by (auto simp: prefix_coder_def)
  have h': "holds (Bits OR push_bit (unat cnt) (m_Bits (m_aNodes h ! s))) (buf @ cod s)"
    using holds_append [OF buf(1) code(1)] len code(2) by (simp add: buf(2) unat_count)
  have c': "cnt + m_NumBits (m_aNodes h ! s) = of_nat (length (buf @ cod s))"
    by (simp add: buf(2) code(3))
  obtain Bits' cnt' dst' where st': "st' = (Bits', cnt', dst')" by (cases st')
  have "WRITE sz (Bits OR push_bit (unat cnt) (m_Bits (m_aNodes h ! s))) (cnt + m_NumBits (m_aNodes h ! s)) dst
        = Some (Bits', cnt', dst')"
    using assms(5) by (simp add: put_symbol_def LOADSYMBOL_def st st')
  from WRITE_cstate [OF h' c' this] buf(3) show ?thesis
    by (auto simp: cstate_def st' word_less_nat_alt unat_count)
qed

lemma compress_loop_cstate:
  assumes "prefix_coder h cod"
  shows "compress_loop h sz src st = Some st' \<Longrightarrow> cstate st bs \<Longrightarrow> fst (snd st) < 8 \<Longrightarrow>
    cstate st' (bs @ concat (map (\<lambda>b. cod (unat b)) src)) \<and> fst (snd st') < 8"
proof (induction src arbitrary: st bs)
  case (Cons b src)
  have "unat b \<le> HUFFMAN_EOF_SYMBOL"
    using unsigned_less [of b, where ?'a=nat] by (simp add: HUFFMAN_EOF_SYMBOL_def)
  then show ?case
    using Cons put_symbol_cstate [OF assms, of "unat b" st bs sz] by (fastforce split: option.splits)
qed simp

text \<open>The output is the codes of the input and of the end symbol, filled up with zeros.\<close>

lemma Compress_codes:
  assumes "prefix_coder h cod" "Huffman_Compress h src sz = Some out"
  obtains z where "stream out = concat (map (\<lambda>b. cod (unat b)) src) @ cod HUFFMAN_EOF_SYMBOL @ replicate z False"
proof -
  obtain st where st: "compress_loop h sz src (0, 0, []) = Some st"
    and put: "put_symbol h sz HUFFMAN_EOF_SYMBOL st \<noteq> None"
    using assms(2) by (auto simp: Huffman_Compress_def split: option.splits)
  obtain Bits cnt dst where put': "put_symbol h sz HUFFMAN_EOF_SYMBOL st = Some (Bits, cnt, dst)"
    using put by auto
  have out: "out = dst @ [ucast Bits]" using assms(2) st put' by (simp add: Huffman_Compress_def)
  have "cstate (0, 0, []) []" by (simp add: cstate_def)
  then have s1: "cstate st (concat (map (\<lambda>b. cod (unat b)) src))" "fst (snd st) < 8"
    using compress_loop_cstate [OF assms(1) st, of "[]"] by simp_all
  have s2: "cstate (Bits, cnt, dst) (concat (map (\<lambda>b. cod (unat b)) src) @ cod HUFFMAN_EOF_SYMBOL)" "cnt < 8"
    using put_symbol_cstate [OF assms(1) order_refl s1 put'] by simp_all
  then obtain buf where buf: "holds Bits buf" "cnt = of_nat (length buf)"
    "stream dst @ buf = concat (map (\<lambda>b. cod (unat b)) src) @ cod HUFFMAN_EOF_SYMBOL"
    by (auto simp: cstate_def)
  have "length buf \<le> 32" using buf(1) by (simp add: holds_def)
  then have "length buf < 8" using s2(2) by (simp add: buf(2) word_less_nat_alt unat_count)
  then have "bits8 (ucast Bits) = buf @ replicate (8 - length buf) False"
    using bits8_holds_short [OF buf(1)] by simp
  then have "stream out = (stream dst @ buf) @ replicate (8 - length buf) False"
    by (simp add: out)
  then have "stream out = concat (map (\<lambda>b. cod (unat b)) src) @ cod HUFFMAN_EOF_SYMBOL
      @ replicate (8 - length buf) False"
    by (simp only: buf(3) append_assoc)
  then show ?thesis by (rule that)
qed

text \<open>Compressing fails only when the codes fill the output buffer.\<close>

lemma WRITE_None:
  "holds Bits buf \<Longrightarrow> Bitcount = of_nat (length buf) \<Longrightarrow> WRITE sz Bits Bitcount dst = None \<Longrightarrow>
     8 * sz \<le> 8 * length dst + length buf"
proof (induction sz Bits Bitcount dst arbitrary: buf rule: WRITE.induct)
  case (1 sz Bits Bitcount dst)
  have len: "length buf \<le> 32" using "1.prems"(1) by (simp add: holds_def)
  then have cnt: "8 \<le> Bitcount \<longleftrightarrow> 8 \<le> length buf"
    by (simp add: "1.prems"(2) word_le_nat_alt unat_count)
  have big: "8 \<le> Bitcount" using "1.prems"(3) by (subst (asm) WRITE.simps) (simp split: if_splits)
  let ?d = "dst @ [ucast (Bits AND 0xff)]"
  show ?case
  proof (cases "length ?d = sz")
    case True
    then have "sz = Suc (length dst)" by simp
    then show ?thesis using big cnt by simp
  next
    case False
    have "WRITE sz (drop_bit 8 Bits) (Bitcount - 8) ?d = None"
      using "1.prems"(3) big False by (subst (asm) WRITE.simps) simp
    moreover have "Bitcount - 8 = of_nat (length (drop 8 buf))"
      using big cnt by (simp add: "1.prems"(2) of_nat_diff)
    ultimately have "8 * sz \<le> 8 * length ?d + length (drop 8 buf)"
      using "1.IH" [OF big False holds_drop [OF "1.prems"(1)]] by blast
    then show ?thesis using big cnt by simp
  qed
qed

lemma put_symbol_None:
  assumes "prefix_coder h cod" "s \<le> HUFFMAN_EOF_SYMBOL" "cstate st bs" "fst (snd st) < 8"
    and "put_symbol h sz s st = None"
  shows "8 * sz \<le> length bs + 24"
proof -
  obtain Bits cnt dst where st: "st = (Bits, cnt, dst)" by (cases st)
  obtain buf where buf: "holds Bits buf" "cnt = of_nat (length buf)" "stream dst @ buf = bs"
    using assms(3) by (auto simp: cstate_def st)
  have "length buf \<le> 32" using buf(1) by (simp add: holds_def)
  then have len: "length buf < 8" using assms(4) by (simp add: st buf(2) word_less_nat_alt unat_count)
  have code: "holds (m_Bits (m_aNodes h ! s)) (cod s)" "length (cod s) \<le> 24"
    "m_NumBits (m_aNodes h ! s) = of_nat (length (cod s))"
    using assms(1,2) by (auto simp: prefix_coder_def)
  have h': "holds (Bits OR push_bit (unat cnt) (m_Bits (m_aNodes h ! s))) (buf @ cod s)"
    using holds_append [OF buf(1) code(1)] len code(2) by (simp add: buf(2) unat_count)
  have c': "cnt + m_NumBits (m_aNodes h ! s) = of_nat (length (buf @ cod s))"
    by (simp add: buf(2) code(3))
  have "WRITE sz (Bits OR push_bit (unat cnt) (m_Bits (m_aNodes h ! s))) (cnt + m_NumBits (m_aNodes h ! s)) dst
        = None"
    using assms(5) by (simp add: put_symbol_def LOADSYMBOL_def st)
  from WRITE_None [OF h' c' this] code(2) arg_cong [OF buf(3), of length] show ?thesis by simp
qed

lemma compress_loop_None:
  assumes h: "prefix_coder h cod"
  shows "compress_loop h sz src st = None \<Longrightarrow> cstate st bs \<Longrightarrow> fst (snd st) < 8 \<Longrightarrow>
    8 * sz \<le> length bs + 24 * length src"
proof (induction src arbitrary: st bs)
  case (Cons b src)
  have b: "unat b \<le> HUFFMAN_EOF_SYMBOL"
    using unsigned_less [of b, where ?'a=nat] by (simp add: HUFFMAN_EOF_SYMBOL_def)
  then have l: "length (cod (unat b)) \<le> 24" using h by (simp add: prefix_coder_def)
  show ?case
  proof (cases "put_symbol h sz (unat b) st")
    case None
    from put_symbol_None [OF h b Cons.prems(2,3) None] show ?thesis by simp
  next
    case (Some st')
    with Cons.prems(1) have "compress_loop h sz src st' = None" by simp
    then show ?thesis
      using Cons.IH [of st' "bs @ cod (unat b)"] put_symbol_cstate [OF h b Cons.prems(2,3) Some] l by fastforce
  qed
qed simp

lemma Compress_None:
  assumes h: "prefix_coder h cod" and "Huffman_Compress h src sz = None"
  shows "sz \<le> 3 * (length src + 1)"
proof (cases "compress_loop h sz src (0, 0, [])")
  case None
  have "cstate (0, 0, []) []" by (simp add: cstate_def)
  with compress_loop_None [OF h None, of "[]"] show ?thesis by simp
next
  case (Some st)
  then have put: "put_symbol h sz HUFFMAN_EOF_SYMBOL st = None"
    using assms(2) by (auto simp: Huffman_Compress_def split: option.splits)
  have "cstate (0, 0, []) []" by (simp add: cstate_def)
  then have s1: "cstate st (concat (map (\<lambda>b. cod (unat b)) src))" "fst (snd st) < 8"
    using compress_loop_cstate [OF h Some, of "[]"] by simp_all
  have "length (concat (map (\<lambda>b. cod (unat b)) src)) \<le> 24 * length src"
  proof (rule length_concat_le)
    fix b :: u8
    have "unat b \<le> HUFFMAN_EOF_SYMBOL"
      using unsigned_less [of b, where ?'a=nat] by (simp add: HUFFMAN_EOF_SYMBOL_def)
    then show "length (cod (unat b)) \<le> 24" using h by (simp add: prefix_coder_def)
  qed
  with put_symbol_None [OF h order_refl s1 put] show ?thesis by simp
qed

subsection \<open>Decompressing reads one code\<close>

text \<open>The bits the decoder has yet to read: those in \<open>Bits\<close>, then the input.\<close>

definition dstate :: "i32 \<Rightarrow> i32 \<Rightarrow> u8 list \<Rightarrow> bool list \<Rightarrow> bool" where
  "dstate Bits Bitcount src bs \<longleftrightarrow>
     (\<exists>buf. holds Bits buf \<and> Bitcount = of_nat (length buf) \<and> buf @ stream src = bs)"

lemma fill_bits_dstate:
  "dstate Bits cnt src bs \<Longrightarrow> fill_bits Bits cnt src = (Bits', cnt', src') \<Longrightarrow>
     dstate Bits' cnt' src' bs \<and> (src' = [] \<or> 24 \<le> unat cnt')"
proof (induction Bits cnt src rule: fill_bits.induct)
  case (2 Bits cnt b src)
  obtain buf where buf: "holds Bits buf" "cnt = of_nat (length buf)" "buf @ stream (b # src) = bs"
    using "2.prems"(1) by (auto simp: dstate_def)
  have len: "length buf \<le> 32" using buf(1) by (simp add: holds_def)
  show ?case
  proof (cases "cnt < 24")
    case True
    then have small: "length buf < 24" using len by (simp add: buf(2) word_less_nat_alt unat_count)
    have "holds (Bits OR push_bit (unat cnt) (ucast b)) (buf @ bits8 b)"
      using holds_append [OF buf(1) holds_byte [of b]] small by (simp add: buf(2) unat_count)
    then have "dstate (Bits OR push_bit (unat cnt) (ucast b)) (cnt + 8) src bs"
      unfolding dstate_def using buf(2,3) by (intro exI [of _ "buf @ bits8 b"]) simp
    with "2.IH" [OF True] "2.prems"(2) True show ?thesis by simp
  next
    case False
    with "2.prems" show ?thesis by (auto simp: word_less_nat_alt)
  qed
qed auto

text \<open>A code is found by walking from any inner node on its path.\<close>

lemma walk_tree_code:
  "holds Bits (p @ rest) \<Longrightarrow> p \<noteq> [] \<Longrightarrow> cnt = of_nat (length (p @ rest)) \<Longrightarrow>
   m_NumBits (m_aNodes h ! walk h i p) \<noteq> 0 \<Longrightarrow>
   \<forall>k < length p. 0 < k \<longrightarrow> m_NumBits (m_aNodes h ! walk h i (take k p)) = 0 \<Longrightarrow>
   \<exists>Bits'. walk_tree h i Bits cnt = Some (walk h i p, Bits', of_nat (length rest)) \<and> holds Bits' rest"
proof (induction p arbitrary: i Bits cnt)
  case (Cons b p)
  have len: "length (b # p @ rest) \<le> 32" using Cons.prems(1) by (simp add: holds_def)
  have b: "bit Bits 0 = b" using Cons.prems(1) by (auto dest: holds_bit0)
  have tl: "holds (drop_bit 1 Bits) (p @ rest)" using holds_drop [OF Cons.prems(1), of 1] by simp
  have cnt: "cnt - 1 = of_nat (length (p @ rest))" using Cons.prems(3) by simp
  let ?j = "leaf_at (m_aNodes h ! i) b"
  show ?case
  proof (cases "p = []")
    case True
    with Cons.prems(4) b tl cnt show ?thesis by (subst walk_tree.simps) (simp add: Let_def)
  next
    case False
    then have inner: "m_NumBits (m_aNodes h ! ?j) = 0" using Cons.prems(5) [rule_format, of 1] by simp
    have "unat (cnt - 1) = length (p @ rest)"
      unfolding cnt using len by (intro unat_count) simp
    with False have "cnt - 1 \<noteq> 0" by auto
    moreover have "m_NumBits (m_aNodes h ! walk h ?j (take k p)) = 0" if "k < length p" "0 < k" for k
      using Cons.prems(5) [rule_format, of "Suc k"] that by simp
    then have "\<exists>Bits'. walk_tree h ?j (drop_bit 1 Bits) (cnt - 1)
        = Some (walk h ?j p, Bits', of_nat (length rest)) \<and> holds Bits' rest"
      using Cons.prems(4) by (intro Cons.IH [OF tl False cnt]) simp_all
    ultimately show ?thesis using inner b by (subst walk_tree.simps) (simp add: Let_def)
  qed
qed simp

text \<open>The table holds the node reached by at most ten bits, or the symbol met before.\<close>

lemma lut_walk_code:
  "holds w (p @ rest) \<Longrightarrow> p \<noteq> [] \<Longrightarrow> length p \<le> k \<Longrightarrow>
   m_NumBits (m_aNodes h ! walk h i p) \<noteq> 0 \<Longrightarrow>
   \<forall>j < length p. 0 < j \<longrightarrow> m_NumBits (m_aNodes h ! walk h i (take j p)) = 0 \<Longrightarrow>
   lut_walk (m_aNodes h) k i w = walk h i p"
proof (induction p arbitrary: i w k)
  case (Cons b p)
  then obtain k' where k: "k = Suc k'" by (cases k) auto
  have b: "bit w 0 = b" using Cons.prems(1) by (auto dest: holds_bit0)
  have tl: "holds (drop_bit 1 w) (p @ rest)" using holds_drop [OF Cons.prems(1), of 1] by simp
  show ?case
  proof (cases "p = []")
    case True
    with Cons.prems(4) b k show ?thesis by (simp add: Let_def)
  next
    case False
    then have inner: "m_NumBits (m_aNodes h ! leaf_at (m_aNodes h ! i) b) = 0"
      using Cons.prems(5) [rule_format, of 1] by simp
    have "m_NumBits (m_aNodes h ! walk h (leaf_at (m_aNodes h ! i) b) (take j p)) = 0"
      if "j < length p" "0 < j" for j
      using Cons.prems(5) [rule_format, of "Suc j"] that by simp
    then have "lut_walk (m_aNodes h) k' (leaf_at (m_aNodes h ! i) b) (drop_bit 1 w)
        = walk h (leaf_at (m_aNodes h ! i) b) p"
      using Cons.prems k by (intro Cons.IH [OF tl False]) simp_all
    with inner b k show ?thesis by (simp add: Let_def)
  qed
qed simp

lemma lut_walk_inner:
  "holds w (p @ rest) \<Longrightarrow> length p = k \<Longrightarrow>
   \<forall>j \<le> length p. 0 < j \<longrightarrow> m_NumBits (m_aNodes h ! walk h i (take j p)) = 0 \<Longrightarrow>
   lut_walk (m_aNodes h) k i w = walk h i p"
proof (induction p arbitrary: i w k)
  case (Cons b p)
  have b: "bit w 0 = b" using Cons.prems(1) by (auto dest: holds_bit0)
  have tl: "holds (drop_bit 1 w) (p @ rest)" using holds_drop [OF Cons.prems(1), of 1] by simp
  have inner: "m_NumBits (m_aNodes h ! leaf_at (m_aNodes h ! i) b) = 0"
    using Cons.prems(3) [rule_format, of 1] by simp
  have "m_NumBits (m_aNodes h ! walk h (leaf_at (m_aNodes h ! i) b) (take j p)) = 0"
    if "j \<le> length p" "0 < j" for j
    using Cons.prems(3) [rule_format, of "Suc j"] that by simp
  then have "lut_walk (m_aNodes h) (length p) (leaf_at (m_aNodes h ! i) b) (drop_bit 1 w)
      = walk h (leaf_at (m_aNodes h ! i) b) p"
    by (intro Cons.IH [OF tl]) simp_all
  with inner b Cons.prems(2) show ?case by (auto simp: Let_def)
qed auto

lemma bit_lutmask: "bit HUFFMAN_LUTMASK n \<longleftrightarrow> n < 10"
proof -
  have "HUFFMAN_LUTMASK = mask 10" by (simp add: HUFFMAN_LUTMASK_def mask_eq_exp_minus_1)
  show ?thesis unfolding \<open>HUFFMAN_LUTMASK = mask 10\<close>
    by (simp only: bit_mask_iff possible_bit_word) auto
qed

lemma holds_lutmask:
  assumes "holds w buf"
  shows "holds (w AND HUFFMAN_LUTMASK) (take 10 buf)"
  unfolding holds_def
proof (intro conjI allI)
  fix k
  show "bit (w AND HUFFMAN_LUTMASK) k \<longleftrightarrow> k < length (take 10 buf) \<and> take 10 buf ! k"
    using holdsD [OF assms, of k] by (auto simp: bit_and_iff bit_lutmask)
qed simp

lemma lutmask_less: "unat (w AND HUFFMAN_LUTMASK) < HUFFMAN_LUTSIZE"
proof -
  have "w AND HUFFMAN_LUTMASK = take_bit 10 w"
    by (rule word_eq_bitI) (auto simp: bit_and_iff bit_lutmask bit_take_bit_iff)
  moreover have "unat (take_bit 10 w) = take_bit 10 (unat w)"
    by (simp only: unsigned_take_bit_eq)
  then have "unat (take_bit 10 w) < 2 ^ 10" by (simp only: take_bit_nat_less_exp)
  ultimately show ?thesis by (simp add: huffman_consts)
qed

lemma lut_lookup:
  assumes h: "prefix_coder h cod" and s: "s \<le> HUFFMAN_EOF_SYMBOL"
    and w: "holds w buf" and bs: "buf @ tl_bits = cod s @ R" and enough: "10 \<le> length buf \<or> tl_bits = []"
  shows "m_apDecodeLut h ! unat (w AND HUFFMAN_LUTMASK) =
    Some (if length (cod s) \<le> 10 then s else walk h (m_pStartNode h) (take 10 (cod s)))"
proof -
  let ?st = "m_pStartNode h"
  have code: "cod s \<noteq> []" "m_NumBits (m_aNodes h ! s) = of_nat (length (cod s))" "length (cod s) \<le> 24"
    "walk h ?st (cod s) = s"
    "\<forall>k < length (cod s). 0 < k \<longrightarrow> m_NumBits (m_aNodes h ! walk h ?st (take k (cod s))) = 0"
    using h s by (auto simp: prefix_coder_def)
  have "0 < length (cod s)" using code(1) by simp
  moreover have "unat (of_nat (length (cod s)) :: i32) = length (cod s)"
    using code(3) by (intro unat_count) simp
  ultimately have nz: "m_NumBits (m_aNodes h ! s) \<noteq> 0"
    unfolding code(2) by (metis less_irrefl unat_0)
  have t: "take 10 buf = take 10 (cod s @ R)"
    using enough bs by (metis append.right_neutral take_all_iff take_append diff_is_0_eq take0)
  have hw: "holds (w AND HUFFMAN_LUTMASK) (take 10 (cod s @ R))"
    using holds_lutmask [OF w] by (simp only: t)
  have "m_apDecodeLut h ! unat (w AND HUFFMAN_LUTMASK)
      = Some (lut_walk (m_aNodes h) 10 ?st (w AND HUFFMAN_LUTMASK))"
    using h lutmask_less [of w] by (simp add: prefix_coder_def HUFFMAN_LUTBITS_def)
  also have "lut_walk (m_aNodes h) 10 ?st (w AND HUFFMAN_LUTMASK)
      = (if length (cod s) \<le> 10 then s else walk h ?st (take 10 (cod s)))"
  proof (cases "length (cod s) \<le> 10")
    case True
    have "holds (w AND HUFFMAN_LUTMASK) (cod s @ take (10 - length (cod s)) R)"
      using hw True by simp
    from lut_walk_code [OF this code(1) True, of h ?st] code(4,5) nz True show ?thesis by simp
  next
    case False
    then have "holds (w AND HUFFMAN_LUTMASK) (take 10 (cod s) @ [])" using hw by simp
    from lut_walk_inner [OF this, of 10 h ?st] code(5) False show ?thesis by simp
  qed
  finally show ?thesis .
qed

lemma next_symbol_code:
  assumes h: "prefix_coder h cod" and s: "s \<le> HUFFMAN_EOF_SYMBOL"
    and d: "dstate Bits cnt src (cod s @ R)"
  shows "\<exists>Bits' cnt' src'. next_symbol h Bits cnt src = Some (s, Bits', cnt', src') \<and> dstate Bits' cnt' src' R"
proof -
  let ?st = "m_pStartNode h"
  define nd where "nd = (if length (cod s) \<le> 10 then s else walk h ?st (take 10 (cod s)))"
  have code: "cod s \<noteq> []" "m_NumBits (m_aNodes h ! s) = of_nat (length (cod s))" "length (cod s) \<le> 24"
    "walk h ?st (cod s) = s"
    "\<forall>k < length (cod s). 0 < k \<longrightarrow> m_NumBits (m_aNodes h ! walk h ?st (take k (cod s))) = 0"
    using h s by (auto simp: prefix_coder_def)
  have cnz: "unat (of_nat (length (cod s)) :: i32) = length (cod s)"
    using code(3) by (intro unat_count) simp
  then have nz: "m_NumBits (m_aNodes h ! s) \<noteq> 0"
    unfolding code(2) using code(1) by (metis length_0_conv unat_0)
  obtain Bits1 cnt1 src1 where fill: "fill_bits Bits cnt src = (Bits1, cnt1, src1)"
    by (cases "fill_bits Bits cnt src")
  obtain buf0 where buf0: "holds Bits buf0" "cnt = of_nat (length buf0)" "buf0 @ stream src = cod s @ R"
    using d by (auto simp: dstate_def)
  obtain buf where buf: "holds Bits1 buf" "cnt1 = of_nat (length buf)" "buf @ stream src1 = cod s @ R"
    and full: "src1 = [] \<or> 24 \<le> unat cnt1"
    using fill_bits_dstate [OF d fill] by (auto simp: dstate_def)
  have len: "length buf0 \<le> 32" "length buf \<le> 32" using buf0(1) buf(1) by (simp_all add: holds_def)
  have full': "src1 = [] \<or> 24 \<le> length buf" using full len by (simp add: buf(2) unat_count)
  have lutA: "m_apDecodeLut h ! unat (Bits AND HUFFMAN_LUTMASK) = Some nd" if "10 \<le> cnt"
  proof -
    have "10 \<le> length buf0" using that len by (simp add: buf0(2) word_le_nat_alt unat_count)
    then show ?thesis unfolding nd_def by (intro lut_lookup [OF h s buf0(1,3)]) simp
  qed
  have lutC: "m_apDecodeLut h ! unat (Bits1 AND HUFFMAN_LUTMASK) = Some nd"
    unfolding nd_def using full' by (intro lut_lookup [OF h s buf(1,3)]) auto
  have "length (cod s) \<le> length buf" using full' code(3) arg_cong [OF buf(3), of length] by auto
  then obtain rest where rest: "buf = cod s @ rest" "rest @ stream src1 = R"
    using that [of "drop (length (cod s)) buf"] arg_cong [OF buf(3), of "take (length (cod s))"]
      arg_cong [OF buf(3), of "drop (length (cod s))"]
    by simp (metis append_take_drop_id)
  have "\<exists>Bits'. (if m_NumBits (m_aNodes h ! nd) \<noteq> 0
             then Some (nd, drop_bit (unat (m_NumBits (m_aNodes h ! nd))) Bits1,
                        cnt1 - m_NumBits (m_aNodes h ! nd), src1)
             else map_option (\<lambda>(j, b, c). (j, b, c, src1)) (walk_tree h nd (drop_bit 10 Bits1) (cnt1 - 10)))
         = Some (s, Bits', of_nat (length rest), src1) \<and> holds Bits' rest"
  proof (cases "length (cod s) \<le> 10")
    case True
    then have "nd = s" by (simp add: nd_def)
    moreover have "holds (drop_bit (length (cod s)) Bits1) rest"
      using holds_drop [OF buf(1), of "length (cod s)"] by (simp add: rest(1))
    moreover have "cnt1 - m_NumBits (m_aNodes h ! s) = of_nat (length rest)"
      by (simp add: buf(2) rest(1) code(2))
    ultimately show ?thesis using nz by (simp add: code(2) cnz)
  next
    case False
    then have nd: "nd = walk h ?st (take 10 (cod s))" by (simp add: nd_def)
    then have inner: "m_NumBits (m_aNodes h ! nd) = 0" using code(5) False by simp
    let ?p = "drop 10 (cod s)"
    have p: "?p \<noteq> []" using False by simp
    have hold: "holds (drop_bit 10 Bits1) (?p @ rest)"
      using holds_drop [OF buf(1), of 10] False by (simp add: rest(1))
    have c: "cnt1 - 10 = of_nat (length (?p @ rest))"
      using False by (simp add: buf(2) rest(1) of_nat_diff)
    have wk: "walk h nd (take k ?p) = walk h ?st (take (10 + k) (cod s))" for k
      unfolding nd walk_append [symmetric] by (simp add: take_add)
    have "walk h nd ?p = s" using wk [of "length ?p"] False code(4) by simp
    moreover have "\<forall>k < length ?p. 0 < k \<longrightarrow> m_NumBits (m_aNodes h ! walk h nd (take k ?p)) = 0"
      unfolding wk using code(5) by auto
    ultimately have "\<exists>Bits'. walk_tree h nd (drop_bit 10 Bits1) (cnt1 - 10)
        = Some (s, Bits', of_nat (length rest)) \<and> holds Bits' rest"
      using walk_tree_code [OF hold p c, of h nd] nz by simp
    with inner show ?thesis by auto
  qed
  then obtain Bits' where res: "(if m_NumBits (m_aNodes h ! nd) \<noteq> 0
             then Some (nd, drop_bit (unat (m_NumBits (m_aNodes h ! nd))) Bits1,
                        cnt1 - m_NumBits (m_aNodes h ! nd), src1)
             else map_option (\<lambda>(j, b, c). (j, b, c, src1)) (walk_tree h nd (drop_bit 10 Bits1) (cnt1 - 10)))
         = Some (s, Bits', of_nat (length rest), src1)" and hold': "holds Bits' rest" by blast
  have "next_symbol h Bits cnt src = Some (s, Bits', of_nat (length rest), src1)"
    using lutA lutC res by (auto simp: next_symbol_def fill HUFFMAN_LUTBITS_def split: if_splits)
  moreover have "dstate Bits' (of_nat (length rest)) src1 R"
    using hold' rest(2) by (auto simp: dstate_def)
  ultimately show ?thesis by blast
qed

lemma decompress_loop_codes:
  assumes h: "prefix_coder h cod"
  shows "dstate Bits cnt src (concat (map (\<lambda>b. cod (unat b)) input) @ cod HUFFMAN_EOF_SYMBOL @ z) \<Longrightarrow>
    length input \<le> room \<Longrightarrow> decompress_loop h room Bits cnt src = Some input"
proof (induction input arbitrary: Bits cnt src room)
  case Nil
  then have "dstate Bits cnt src (cod HUFFMAN_EOF_SYMBOL @ z)" by simp
  from next_symbol_code [OF h order_refl this] show ?case by (cases room) auto
next
  case (Cons b input)
  then obtain r where room: "room = Suc r" by (cases room) auto
  have b: "unat b \<le> HUFFMAN_EOF_SYMBOL" "unat b \<noteq> HUFFMAN_EOF_SYMBOL"
    using unsigned_less [of b, where ?'a=nat] by (simp_all add: HUFFMAN_EOF_SYMBOL_def)
  have "dstate Bits cnt src (cod (unat b) @ (concat (map (\<lambda>b. cod (unat b)) input) @ cod HUFFMAN_EOF_SYMBOL @ z))"
    using Cons.prems(1) by simp
  from next_symbol_code [OF h b(1) this] obtain Bits' cnt' src' where
    n: "next_symbol h Bits cnt src = Some (unat b, Bits', cnt', src')"
      "dstate Bits' cnt' src' (concat (map (\<lambda>b. cod (unat b)) input) @ cod HUFFMAN_EOF_SYMBOL @ z)" by blast
  have "m_Symbol (m_aNodes h ! unat b) = b" using h b(1) by (simp add: prefix_coder_def)
  with Cons.IH [OF n(2), of r] Cons.prems(2) room n(1) b(2) show ?case by simp
qed

lemma Decompress_Compress:
  assumes "prefix_coder h cod" "Huffman_Compress h input sz = Some out" "length input \<le> room"
  shows "Huffman_Decompress h out room = Some input"
proof -
  obtain z where "stream out
      = concat (map (\<lambda>b. cod (unat b)) input) @ cod HUFFMAN_EOF_SYMBOL @ replicate z False"
    using Compress_codes [OF assms(1,2)] by blast
  then have "dstate 0 0 out (concat (map (\<lambda>b. cod (unat b)) input) @ cod HUFFMAN_EOF_SYMBOL @ replicate z False)"
    by (simp add: dstate_def)
  from decompress_loop_codes [OF assms(1) this assms(3)] show ?thesis
    by (simp add: Huffman_Decompress_def)
qed

text \<open>The output never exceeds the buffer.\<close>

lemma decompress_loop_length: "decompress_loop h room Bits cnt src = Some out \<Longrightarrow> length out \<le> room"
  by (induction h room Bits cnt src arbitrary: out rule: decompress_loop.induct)
    (fastforce split: option.splits if_splits)+

section \<open>The constructed tree is a prefix coder\<close>

datatype htree = HLeaf nat | HNode htree htree

fun leaves :: "htree \<Rightarrow> nat list" where
  "leaves (HLeaf s) = [s]"
| "leaves (HNode l r) = leaves l @ leaves r"

fun tree_height :: "htree \<Rightarrow> nat" where
  "tree_height (HLeaf s) = 0"
| "tree_height (HNode l r) = Suc (max (tree_height l) (tree_height r))"

fun subtree :: "htree \<Rightarrow> bool list \<Rightarrow> htree option" where
  "subtree t [] = Some t"
| "subtree (HLeaf s) (b # p) = None"
| "subtree (HNode l r) (b # p) = subtree (if b then r else l) p"

text \<open>The nodes \<open>N\<close> from index \<open>i\<close> on are the tree \<open>t\<close>.\<close>

fun represents :: "CNode list \<Rightarrow> nat \<Rightarrow> htree \<Rightarrow> bool" where
  "represents N i (HLeaf s) \<longleftrightarrow> i = s \<and> s < 257 \<and> m_NumBits (N ! s) \<noteq> 0 \<and>
     m_aLeafs (N ! s) = (0xffff, 0xffff) \<and> m_Symbol (N ! s) = of_nat s"
| "represents N i (HNode l r) \<longleftrightarrow> 257 \<le> i \<and> m_NumBits (N ! i) = 0 \<and>
     leaf_at (N ! i) False < i \<and> leaf_at (N ! i) True < i \<and>
     represents N (leaf_at (N ! i) False) l \<and> represents N (leaf_at (N ! i) True) r"

lemma represents_below:
  "represents N i t \<Longrightarrow> i < n \<Longrightarrow> \<forall>j < n. N' ! j = N ! j \<Longrightarrow> represents N' i t"
  by (induction t arbitrary: i) auto

lemma represents_inner:
  "represents N i t \<Longrightarrow> \<forall>j. j \<in> set (leaves t) \<or> 257 \<le> j \<longrightarrow> N' ! j = N ! j \<Longrightarrow> represents N' i t"
  by (induction t arbitrary: i) auto

lemma represents_height: "represents N i t \<Longrightarrow> tree_height t \<le> i"
proof (induction t arbitrary: i)
  case (HNode l r)
  then have "tree_height l \<le> leaf_at (N ! i) False" "tree_height r \<le> leaf_at (N ! i) True" by simp_all
  moreover have "leaf_at (N ! i) False < i" "leaf_at (N ! i) True < i" using HNode.prems by simp_all
  ultimately show ?case by simp
qed simp

lemma represents_leaves: "represents N i t \<Longrightarrow> s \<in> set (leaves t) \<Longrightarrow> s < 257"
  by (induction t arbitrary: i) auto

subsection \<open>Merging keeps a forest over all symbols\<close>

definition all_symbols :: "nat multiset" where
  "all_symbols = mset [0..<HUFFMAN_MAX_SYMBOLS]"

definition forest :: "(nat \<Rightarrow> htree) \<Rightarrow> CNode list \<Rightarrow> nat \<Rightarrow> (nat \<times> int) list \<Rightarrow> bool" where
  "forest T N n left \<longleftrightarrow> length N = 513 \<and> 257 \<le> n \<and> n + length left = 514 \<and>
     (\<forall>x \<in> set left. fst x < n \<and> represents N (fst x) (T (fst x))) \<and>
     (\<Sum>i \<in># mset (map fst left). mset (leaves (T i))) = all_symbols"

lemma last_two:
  assumes "2 \<le> length xs"
  shows "xs = take (length xs - 2) xs @ [xs ! (length xs - 2), xs ! (length xs - 1)]"
proof -
  have "drop (length xs - 2) xs = [xs ! (length xs - 2), xs ! (length xs - 1)]"
    using assms by (intro nth_equalityI) (auto simp: less_Suc_eq numeral_2_eq_2)
  then show ?thesis by (metis append_take_drop_id)
qed

lemma forest_merge:
  assumes f: "forest T N n left" and left: "left = ls @ [b, a]"
  shows "forest (T(n := HNode (T (fst a)) (T (fst b))))
    (N[n := (N ! n)\<lparr>m_NumBits := 0, m_aLeafs := (fst a, fst b)\<rparr>]) (n + 1) (ls @ [(n, w)])"
proof -
  let ?N = "N[n := (N ! n)\<lparr>m_NumBits := 0, m_aLeafs := (fst a, fst b)\<rparr>]"
  have T: "\<forall>x \<in> set left. fst x < n \<and> represents N (fst x) (T (fst x))"
    and S: "(\<Sum>i \<in># mset (map fst left). mset (leaves (T i))) = all_symbols"
    and n: "length N = 513" "257 \<le> n" "n + length left = 514"
    using f by (auto simp: forest_def)
  let ?T = "T(n := HNode (T (fst a)) (T (fst b)))"
  have keep: "represents ?N (fst x) (T (fst x))" if "x \<in> set left" for x
  proof (rule represents_below)
    show "represents N (fst x) (T (fst x))" "fst x < n" using T that by blast+
    show "\<forall>j < n. ?N ! j = N ! j" by simp
  qed
  have "leaf_at (?N ! n) False = fst a" "leaf_at (?N ! n) True = fst b" "m_NumBits (?N ! n) = 0"
    using n left by (simp_all add: leaf_at_def)
  then have new: "represents ?N n (?T n)"
    using keep [of a] keep [of b] T n(2) by (simp add: left)
  have "(\<Sum>i \<in># mset (map fst ls). mset (leaves (?T i))) = (\<Sum>i \<in># mset (map fst ls). mset (leaves (T i)))"
      proof (intro arg_cong [of _ _ sum_mset] image_mset_cong)
    fix i assume "i \<in># mset (map fst ls)"
    then obtain x where "x \<in> set left" "i = fst x" by (auto simp: left)
    with T have "i < n" by blast
    then show "mset (leaves (?T i)) = mset (leaves (T i))" by simp
  qed
  then have "(\<Sum>i \<in># mset (map fst (ls @ [(n, w)])). mset (leaves (?T i))) = all_symbols"
    using S by (simp add: left union_ac)
  moreover have "\<forall>x \<in> set (ls @ [(n, w)]). fst x < n + 1 \<and> represents ?N (fst x) (?T (fst x))"
  proof
    fix x assume "x \<in> set (ls @ [(n, w)])"
    then consider "x \<in> set left" "fst x < n" | "x = (n, w)" using T by (auto simp: left)
    then show "fst x < n + 1 \<and> represents ?N (fst x) (?T (fst x))"
      using keep [of x] new by cases simp_all
  qed
  ultimately show ?thesis
    unfolding forest_def using n left by simp
qed

lemma forest_mset: "forest T N n left \<Longrightarrow> mset left' = mset left \<Longrightarrow> forest T N n left'"
  unfolding forest_def by (auto simp: mset_map dest: mset_eq_setD mset_eq_length)

text \<open>The same loop over the heights of the trees alone.\<close>

function height_loop :: "(nat \<times> int) list \<Rightarrow> nat" where
  "height_loop left =
     (if length left \<le> 1 then fst (hd left)
      else let left = sort_key (\<lambda>(i, f). - f) left;
               a = left ! (length left - 1);
               b = left ! (length left - 2)
           in height_loop (take (length left - 2) left @ [(Suc (max (fst a) (fst b)), snd a + snd b)]))"
  by pat_completeness auto
termination
  by (relation "measure length") auto

declare height_loop.simps [simp del]

definition heights :: "(nat \<Rightarrow> htree) \<Rightarrow> (nat \<times> int) list \<Rightarrow> (nat \<times> int) list" where
  "heights T left = map (\<lambda>(i, f). (tree_height (T i), f)) left"

lemma length_heights [simp]: "length (heights T left) = length left"
  by (simp add: heights_def)

lemma heights_single: "heights T [x] = [(tree_height (T (fst x)), snd x)]"
  by (simp add: heights_def case_prod_beta)

lemma sort_key_map: "(\<And>x. g' (h x) = g x) \<Longrightarrow> sort_key g' (map h xs) = map h (sort_key g xs)"
proof (induction xs)
  case (Cons x xs)
  have "insort_key g' (h x) (map h ys) = map h (insort_key g x ys)" for ys
    using Cons.prems by (induction ys) auto
  with Cons show ?case by simp
qed simp

lemma sort_heights: "sort_key (\<lambda>(i, f). - f) (heights T left) = heights T (sort_key (\<lambda>(i, f). - f) left)"
  unfolding heights_def by (rule sort_key_map) (auto split: prod.split)

lemma construct_loop_forest:
  "forest T N n left \<Longrightarrow> left \<noteq> [] \<Longrightarrow> (length left = 1 \<longrightarrow> fst (hd left) = n - 1) \<Longrightarrow>
     construct_loop N n left = (N', n') \<Longrightarrow>
     \<exists>T' w. forest T' N' n' [(n' - 1, w)] \<and> tree_height (T' (n' - 1)) = height_loop (heights T left)"
proof (induction N n left arbitrary: T rule: construct_loop.induct)
  case (1 N n left)
  show ?case
  proof (cases "length left \<le> 1")
    case True
    then obtain x where left: "left = [x]" using "1.prems"(2) by (cases left) auto
    then have "fst x = n - 1" "N' = N" "n' = n"
      using "1.prems"(3,4) by (simp_all add: construct_loop.simps [of N n "[x]"])
    with "1.prems"(1) left show ?thesis
      by (intro exI [of _ T] exI [of _ "snd x"]) (cases x, simp add: height_loop.simps heights_def)
  next
    case False
    let ?l = "sort_key (\<lambda>(i, f). - f) left"
    let ?a = "?l ! (length ?l - 1)" and ?b = "?l ! (length ?l - 2)"
    let ?ls = "take (length ?l - 2) ?l" and ?x = "(n, snd ?a + snd ?b)"
    let ?T = "T(n := HNode (T (fst ?a)) (T (fst ?b)))"
    have f: "forest T N n ?l" using "1.prems"(1) by (rule forest_mset) simp
    have two: "?l = ?ls @ [?b, ?a]" using False by (intro last_two) simp
    have f': "forest ?T (N[n := (N ! n)\<lparr>m_NumBits := 0, m_aLeafs := (fst ?a, fst ?b)\<rparr>]) (n + 1) (?ls @ [?x])"
      by (rule forest_merge [OF f two])
    have rec: "construct_loop (N[n := (N ! n)\<lparr>m_NumBits := 0, m_aLeafs := (fst ?a, fst ?b)\<rparr>]) (n + 1)
        (?ls @ [?x]) = (N', n')"
      using "1.prems"(4) False by (subst (asm) construct_loop.simps) (simp add: Let_def)
    have one: "length (?ls @ [?x]) = 1 \<longrightarrow> fst (hd (?ls @ [?x])) = n + 1 - 1"
      using False by (cases "length left = 2") auto
    have below: "fst y < n" if "y \<in> set ?l" for y using f that by (simp add: forest_def)
    have "heights ?T ?ls = heights T ?ls"
      unfolding heights_def
    proof (intro map_cong refl)
      fix y assume "y \<in> set ?ls"
      then have "fst y < n" using below in_set_takeD by fastforce
      then show "(case y of (i, f) \<Rightarrow> (tree_height (?T i), f)) = (case y of (i, f) \<Rightarrow> (tree_height (T i), f))"
        by (cases y) simp
    qed
    moreover have "heights T ?ls = take (length ?l - 2) (heights T ?l)"
      by (simp add: heights_def take_map)
    moreover have "heights T ?l ! k = (tree_height (T (fst (?l ! k))), snd (?l ! k))" if "k < length ?l" for k
      using that by (simp add: heights_def case_prod_beta)
    then have "heights ?T [?x] = [(Suc (max (fst (heights T ?l ! (length ?l - 1))) (fst (heights T ?l ! (length ?l - 2)))),
        snd (heights T ?l ! (length ?l - 1)) + snd (heights T ?l ! (length ?l - 2)))]"
      using False by (simp add: heights_single max.commute)
    moreover have "heights ?T (?ls @ [?x]) = heights ?T ?ls @ heights ?T [?x]" by (simp add: heights_def)
    ultimately have e: "height_loop (heights T left) = height_loop (heights ?T (?ls @ [?x]))"
      using False
      by (subst height_loop.simps) (simp only: sort_heights Let_def length_heights if_False length_sort)
    show ?thesis unfolding e by (rule "1.IH" [OF False refl refl refl f' _ one rec]) simp
  qed
qed

subsection \<open>The codes are the paths\<close>

definition path_bits :: "bool list \<Rightarrow> i32" where
  "path_bits p = horner_sum of_bool 2 p"

lemma bit_path_bits: "bit (path_bits p) n \<longleftrightarrow> n < 32 \<and> n < length p \<and> p ! n"
  by (simp add: path_bits_def bit_horner_sum_bit_word_iff)

lemma path_bits_Cons:
  "(B OR (if b then push_bit D 1 else 0)) OR push_bit (Suc D) (path_bits p) = B OR push_bit D (path_bits (b # p))"
proof (rule word_eq_bitI)
  fix n assume n: "n < LENGTH(32)"
  have "bit (if b then push_bit D 1 else (0::i32)) n \<longleftrightarrow> b \<and> n = D"
    using n by (cases b) (simp_all only: bit_push_bit_iff possible_bit_word bit_1_iff if_True if_False bit_0_eq bot_apply, auto)
  moreover have "bit (push_bit (Suc D) (path_bits p)) n \<longleftrightarrow> D < n \<and> n - Suc D < length p \<and> p ! (n - Suc D)"
    using n by (simp only: bit_push_bit_iff possible_bit_word bit_path_bits) auto
  moreover have "bit (push_bit D (path_bits (b # p))) n \<longleftrightarrow> D \<le> n \<and> n - D < Suc (length p) \<and> (b # p) ! (n - D)"
    using n by (simp only: bit_push_bit_iff possible_bit_word bit_path_bits) auto
  moreover have "(D \<le> n \<and> n - D < Suc (length p) \<and> (b # p) ! (n - D)) \<longleftrightarrow>
      b \<and> n = D \<or> D < n \<and> n - Suc D < length p \<and> p ! (n - Suc D)"
    by (cases "n \<le> D") (auto simp: nth_Cons' Suc_diff_le)
  ultimately show "bit ((B OR (if b then push_bit D 1 else 0)) OR push_bit (Suc D) (path_bits p)) n =
      bit (B OR push_bit D (path_bits (b # p))) n"
    by (simp only: bit_or_iff) blast
qed

lemma Setbits_r_paths:
  "represents N i t \<Longrightarrow> distinct (leaves t) \<Longrightarrow> tree_height t < fuel \<Longrightarrow> i < length N \<Longrightarrow> length N \<le> 513 \<Longrightarrow>
   257 \<le> length N \<Longrightarrow>
   length (Setbits_r fuel N i B D) = length N \<and>
   (\<forall>j. j \<notin> set (leaves t) \<longrightarrow> Setbits_r fuel N i B D ! j = N ! j) \<and>
   (\<forall>s \<in> set (leaves t). \<exists>p. subtree t p = Some (HLeaf s) \<and> length p \<le> tree_height t \<and>
      Setbits_r fuel N i B D ! s =
        (N ! s)\<lparr>m_Bits := B OR push_bit D (path_bits p), m_NumBits := of_nat (D + length p)\<rparr>)"
proof (induction t arbitrary: N i B D fuel)
  case (HLeaf s)
  then obtain f where f: "fuel = Suc f" by (cases fuel) auto
  have "path_bits [] = 0" by (simp add: path_bits_def)
  with HLeaf f show ?case
    by (auto simp: Let_def leaf_at_def intro!: exI [of _ "[]"])
next
  case (HNode l r)
  then obtain f where f: "fuel = Suc f" by (cases fuel) auto
  have i: "257 \<le> i" "m_NumBits (N ! i) = 0" "leaf_at (N ! i) False < i" "leaf_at (N ! i) True < i"
    "represents N (leaf_at (N ! i) False) l" "represents N (leaf_at (N ! i) True) r"
    using HNode.prems(1) by simp_all
  have d: "distinct (leaves l)" "distinct (leaves r)" "set (leaves l) \<inter> set (leaves r) = {}"
    and hgt: "tree_height l < f" "tree_height r < f"
    using HNode.prems(2,3) f by simp_all
  define N1 where "N1 = Setbits_r f N (leaf_at (N ! i) True) (B OR push_bit D 1) (Suc D)"
  have R: "length N1 = length N" "\<forall>j. j \<notin> set (leaves r) \<longrightarrow> N1 ! j = N ! j"
    "\<forall>s \<in> set (leaves r). \<exists>p. subtree r p = Some (HLeaf s) \<and> length p \<le> tree_height r \<and>
      N1 ! s = (N ! s)\<lparr>m_Bits := (B OR push_bit D 1) OR push_bit (Suc D) (path_bits p),
                       m_NumBits := of_nat (Suc D + length p)\<rparr>"
    unfolding N1_def using HNode.IH(2) [of N "leaf_at (N ! i) True" f "B OR push_bit D 1" "Suc D"]
      HNode.prems i d hgt by simp_all
  have inner_r: "j \<notin> set (leaves r)" if "257 \<le> j" for j
    using represents_leaves [OF i(6)] that by fastforce
  have inner_l: "j \<notin> set (leaves l)" if "257 \<le> j" for j
    using represents_leaves [OF i(5)] that by fastforce
  have N1i: "N1 ! i = N ! i" using R(2) inner_r i(1) by blast
  have repl: "represents N1 (leaf_at (N ! i) False) l"
    using R(2) inner_r d(3) by (intro represents_inner [OF i(5)]) auto
  define N2 where "N2 = Setbits_r f N1 (leaf_at (N ! i) False) B (Suc D)"
  have L: "length N2 = length N" "\<forall>j. j \<notin> set (leaves l) \<longrightarrow> N2 ! j = N1 ! j"
    "\<forall>s \<in> set (leaves l). \<exists>p. subtree l p = Some (HLeaf s) \<and> length p \<le> tree_height l \<and>
      N2 ! s = (N1 ! s)\<lparr>m_Bits := B OR push_bit (Suc D) (path_bits p),
                        m_NumBits := of_nat (Suc D + length p)\<rparr>"
    unfolding N2_def using HNode.IH(1) [of N1 "leaf_at (N ! i) False" f B "Suc D"]
      HNode.prems i d hgt R(1) repl by simp_all
  have N2i: "N2 ! i = N ! i" using L(2) inner_l i(1) N1i by simp
  have out: "Setbits_r fuel N i B D = N2"
  proof -
    have "leaf_at (N ! i) True \<noteq> 0xffff" "leaf_at (N ! i) False \<noteq> 0xffff"
      using i(3,4) HNode.prems(4,5) by simp_all
    then show ?thesis
      by (simp only: f Setbits_r.simps Let_def if_True N1_def [symmetric] N1i N2_def [symmetric] N2i i(2)
          not_False_eq_True simp_thms if_False)
  qed
  have "\<exists>p. subtree (HNode l r) p = Some (HLeaf s) \<and> length p \<le> tree_height (HNode l r) \<and>
      N2 ! s = (N ! s)\<lparr>m_Bits := B OR push_bit D (path_bits p), m_NumBits := of_nat (D + length p)\<rparr>"
    if s: "s \<in> set (leaves (HNode l r))" for s
  proof (cases "s \<in> set (leaves l)")
    case True
    then have "N1 ! s = N ! s" using R(2) d(3) by blast
    with L(3) True obtain p where "subtree l p = Some (HLeaf s)" "length p \<le> tree_height l"
      "N2 ! s = (N ! s)\<lparr>m_Bits := B OR push_bit (Suc D) (path_bits p), m_NumBits := of_nat (Suc D + length p)\<rparr>"
      by metis
    then show ?thesis
      using path_bits_Cons [of B False D p] by (intro exI [of _ "False # p"]) simp
  next
    case False
    with s have "s \<in> set (leaves r)" by simp
    moreover from False have "N2 ! s = N1 ! s" using L(2) by blast
    ultimately obtain p where "subtree r p = Some (HLeaf s)" "length p \<le> tree_height r"
      "N2 ! s = (N ! s)\<lparr>m_Bits := (B OR push_bit D 1) OR push_bit (Suc D) (path_bits p),
                        m_NumBits := of_nat (Suc D + length p)\<rparr>"
      using R(3) by metis
    then show ?thesis
      using path_bits_Cons [of B True D p] by (intro exI [of _ "True # p"]) simp
  qed
  moreover have "\<forall>j. j \<notin> set (leaves (HNode l r)) \<longrightarrow> N2 ! j = N ! j"
    using L(2) R(2) by simp
  ultimately show ?case unfolding out using L(1) by blast
qed

lemma walk_subtree:
  "represents N i t \<Longrightarrow> subtree t p = Some t' \<Longrightarrow> \<forall>j \<ge> 257. m_aNodes h ! j = N ! j \<Longrightarrow>
     represents N (walk h i p) t'"
proof (induction p arbitrary: i t)
  case (Cons b p)
  from Cons.prems(2) obtain l r where t: "t = HNode l r" and s: "subtree (if b then r else l) p = Some t'"
    by (cases t) auto
  have "represents N (leaf_at (N ! i) b) (if b then r else l)" "m_aNodes h ! i = N ! i"
    using Cons.prems(1,3) by (auto simp: t)
  with Cons.IH [OF _ s Cons.prems(3)] show ?case by simp
qed simp

lemma subtree_take:
  "subtree t p = Some (HLeaf s) \<Longrightarrow> k < length p \<Longrightarrow> \<exists>l r. subtree t (take k p) = Some (HNode l r)"
proof (induction p arbitrary: t k)
  case (Cons b p)
  from Cons.prems(1) obtain l r where t: "t = HNode l r" and s: "subtree (if b then r else l) p = Some (HLeaf s)"
    by (cases t) auto
  show ?case
  proof (cases k)
    case 0
    with t show ?thesis by simp
  next
    case (Suc k')
    with Cons.IH [OF s, of k'] Cons.prems(2) t show ?thesis by simp
  qed
qed simp

lemma holds_path_bits: "length p \<le> 32 \<Longrightarrow> holds (path_bits p) p"
  by (auto simp: holds_def bit_path_bits)

lemma initial_forest:
  "forest HLeaf (map symbol_node [0..<HUFFMAN_MAX_SYMBOLS] @ replicate (HUFFMAN_MAX_NODES - HUFFMAN_MAX_SYMBOLS) zero_node)
     HUFFMAN_MAX_SYMBOLS (map (\<lambda>i. (i, f i)) [0..<HUFFMAN_MAX_SYMBOLS])"
proof -
  have m: "HUFFMAN_MAX_SYMBOLS = 257" "HUFFMAN_MAX_NODES = 513" by (simp_all add: huffman_consts)
  have fsts: "map fst (map (\<lambda>i. (i, f i)) [0..<n]) = [0..<n]" for n by (simp add: comp_def)
  have "(\<Sum>i \<in># M. {#i#}) = M" for M :: "nat multiset" by (induction M) auto
  moreover have "represents (map symbol_node [0..<257] @ xs) i (HLeaf i)" if "i < 257" for i xs
    using that by (simp add: nth_append symbol_node_def del: upt_rec_numeral)
  ultimately show ?thesis
    unfolding forest_def fsts
    by (intro conjI) (auto simp: all_symbols_def m simp del: upt_rec_numeral)
qed

definition short_codes :: "CHuffman \<Rightarrow> bool" where
  "short_codes h \<longleftrightarrow> list_all (\<lambda>n. m_NumBits n \<le> 24) (take HUFFMAN_MAX_SYMBOLS (m_aNodes h))"

definition start_freqs :: "int list \<Rightarrow> (nat \<times> int) list" where
  "start_freqs freqs = map (\<lambda>i. (0, if i = HUFFMAN_EOF_SYMBOL then 1 else freqs ! i)) [0..<HUFFMAN_MAX_SYMBOLS]"

text \<open>What \<open>Init\<close> builds: every symbol's node holds its path in the tree rooted at the start node.\<close>

lemma Init_tree:
  obtains N t where "represents N 512 t" "distinct (leaves t)" "set (leaves t) = {0..<257}"
    "tree_height t = height_loop (start_freqs freqs)" "tree_height t \<le> 512" "length N = 513"
    "m_aNodes (Huffman_Init freqs) = Setbits_r 513 N 512 0 0" "m_pStartNode (Huffman_Init freqs) = 512"
    "m_apDecodeLut (Huffman_Init freqs) =
       map (\<lambda>i. Some (lut_walk (m_aNodes (Huffman_Init freqs)) HUFFMAN_LUTBITS 512 (of_nat i))) [0..<HUFFMAN_LUTSIZE]"
proof -
  have m: "HUFFMAN_MAX_SYMBOLS = 257" "HUFFMAN_MAX_NODES = 513" by (simp_all add: huffman_consts)
  define N0 where "N0 = map symbol_node [0..<HUFFMAN_MAX_SYMBOLS] @
    replicate (HUFFMAN_MAX_NODES - HUFFMAN_MAX_SYMBOLS) zero_node"
  define left where "left = map (\<lambda>i. (i, if i = HUFFMAN_EOF_SYMBOL then 1 else freqs ! i)) [0..<HUFFMAN_MAX_SYMBOLS]"
  obtain N n where loop: "construct_loop N0 HUFFMAN_MAX_SYMBOLS left = (N, n)" by fastforce
  have len: "length left = 257" by (simp add: left_def m del: upt_rec_numeral)
  then have "left \<noteq> []" "length left = 1 \<longrightarrow> fst (hd left) = HUFFMAN_MAX_SYMBOLS - 1" by auto
  then obtain T w where f: "forest T N n [(n - 1, w)]" "tree_height (T (n - 1)) = height_loop (heights HLeaf left)"
    using construct_loop_forest [OF initial_forest [folded N0_def] _ _ loop [unfolded left_def]]
    unfolding left_def by blast
  have n: "n = 513" "length N = 513" using f(1) by (simp_all add: forest_def)
  have T: "represents N 512 (T 512)" and S: "mset (leaves (T 512)) = mset [0..<257]"
    using f(1) n(1) by (simp_all add: forest_def all_symbols_def m del: upt_rec_numeral)
  have "heights HLeaf left = start_freqs freqs" by (simp add: heights_def left_def start_freqs_def)
  then have h: "tree_height (T 512) = height_loop (start_freqs freqs)" using f(2) n(1) by simp
  have d: "distinct (leaves (T 512))" using S by (metis distinct_upt mset_eq_imp_distinct_iff)
  have l: "set (leaves (T 512)) = {0..<257}" using S by (metis mset_eq_setD set_upt)
  have sb: "Setbits_r HUFFMAN_MAX_NODES N (n - 1) 0 0 = Setbits_r 513 N 512 0 0" by (simp only: m n) simp
  show ?thesis
  proof (rule that [OF T d l h represents_height [OF T] n(2)])
    show "m_aNodes (Huffman_Init freqs) = Setbits_r 513 N 512 0 0" "m_pStartNode (Huffman_Init freqs) = 512"
      using loop n sb
      by (simp_all only: Huffman_Init_def ConstructTree_def Let_def flip: N0_def left_def) simp_all
    then show "m_apDecodeLut (Huffman_Init freqs) =
       map (\<lambda>i. Some (lut_walk (m_aNodes (Huffman_Init freqs)) HUFFMAN_LUTBITS 512 (of_nat i))) [0..<HUFFMAN_LUTSIZE]"
      using loop n sb
      by (simp only: Huffman_Init_def ConstructTree_def Let_def flip: N0_def left_def) simp
  qed
qed

lemma Init_codes:
  obtains N t cod where "represents N 512 t" "set (leaves t) = {0..<257}"
    "tree_height t = height_loop (start_freqs freqs)" "m_pStartNode (Huffman_Init freqs) = 512"
    "\<forall>j \<ge> 257. m_aNodes (Huffman_Init freqs) ! j = N ! j" "length (m_aNodes (Huffman_Init freqs)) = 513"
    "\<And>s. s < 257 \<Longrightarrow> subtree t (cod s) = Some (HLeaf s) \<and> length (cod s) \<le> tree_height t \<and>
        length (cod s) \<le> 512 \<and> m_aNodes (Huffman_Init freqs) ! s =
          (N ! s)\<lparr>m_Bits := path_bits (cod s), m_NumBits := of_nat (length (cod s))\<rparr>"
    "m_apDecodeLut (Huffman_Init freqs) =
       map (\<lambda>i. Some (lut_walk (m_aNodes (Huffman_Init freqs)) HUFFMAN_LUTBITS 512 (of_nat i))) [0..<HUFFMAN_LUTSIZE]"
proof -
  let ?NN = "m_aNodes (Huffman_Init freqs)"
  obtain N t where t: "represents N 512 t" "distinct (leaves t)" "set (leaves t) = {0..<257}"
    "tree_height t = height_loop (start_freqs freqs)" "tree_height t \<le> 512" "length N = 513"
    "?NN = Setbits_r 513 N 512 0 0" "m_pStartNode (Huffman_Init freqs) = 512"
    "m_apDecodeLut (Huffman_Init freqs) =
       map (\<lambda>i. Some (lut_walk ?NN HUFFMAN_LUTBITS 512 (of_nat i))) [0..<HUFFMAN_LUTSIZE]"
    using Init_tree [of freqs] by blast
  have SB: "length ?NN = 513" "\<forall>j. j \<notin> set (leaves t) \<longrightarrow> ?NN ! j = N ! j"
    "\<forall>s \<in> set (leaves t). \<exists>p. subtree t p = Some (HLeaf s) \<and> length p \<le> tree_height t \<and>
      ?NN ! s = (N ! s)\<lparr>m_Bits := 0 OR push_bit 0 (path_bits p), m_NumBits := of_nat (0 + length p)\<rparr>"
    unfolding t(7) using Setbits_r_paths [OF t(1,2), of 513 0 0] t(5,6) by simp_all
  have "\<forall>s. \<exists>p. s < 257 \<longrightarrow> subtree t p = Some (HLeaf s) \<and> length p \<le> tree_height t \<and> length p \<le> 512 \<and>
      ?NN ! s = (N ! s)\<lparr>m_Bits := path_bits p, m_NumBits := of_nat (length p)\<rparr>"
  proof
    fix s
    show "\<exists>p. s < 257 \<longrightarrow> subtree t p = Some (HLeaf s) \<and> length p \<le> tree_height t \<and> length p \<le> 512 \<and>
      ?NN ! s = (N ! s)\<lparr>m_Bits := path_bits p, m_NumBits := of_nat (length p)\<rparr>"
      using SB(3) t(3,5) by (cases "s < 257") (auto dest!: bspec [of _ _ s])
  qed
  from choice [OF this] obtain cod where "\<And>s. s < 257 \<Longrightarrow> subtree t (cod s) = Some (HLeaf s) \<and>
      length (cod s) \<le> tree_height t \<and> length (cod s) \<le> 512 \<and>
      ?NN ! s = (N ! s)\<lparr>m_Bits := path_bits (cod s), m_NumBits := of_nat (length (cod s))\<rparr>"
    by blast
  moreover have "\<forall>j \<ge> 257. ?NN ! j = N ! j" using SB(2) t(3) by simp
  ultimately show ?thesis using that [OF t(1,3,4,8) _ SB(1) _ t(9)] by blast
qed

lemma two_symbols: "set (leaves t) = {0..<257} \<Longrightarrow> t \<noteq> HLeaf u"
proof
  assume "set (leaves t) = {0..<257}" "t = HLeaf u"
  then have "0 \<in> {u}" "1 \<in> {u}" by simp_all
  then show False by simp
qed

lemma Init_prefix_coder:
  assumes "short_codes (Huffman_Init freqs) \<or> height_loop (start_freqs freqs) \<le> 24"
  obtains cod where "prefix_coder (Huffman_Init freqs) cod"
proof -
  let ?h = "Huffman_Init freqs"
  obtain N t cod where t: "represents N 512 t" and lvs: "set (leaves t) = {0..<257}"
    and hgt: "tree_height t = height_loop (start_freqs freqs)" and start: "m_pStartNode ?h = 512"
    and inner: "\<forall>j \<ge> 257. m_aNodes ?h ! j = N ! j" and len513: "length (m_aNodes ?h) = 513"
    and cod: "\<And>s. s < 257 \<Longrightarrow> subtree t (cod s) = Some (HLeaf s) \<and> length (cod s) \<le> tree_height t \<and>
        length (cod s) \<le> 512 \<and> m_aNodes ?h ! s =
          (N ! s)\<lparr>m_Bits := path_bits (cod s), m_NumBits := of_nat (length (cod s))\<rparr>"
    and lut: "m_apDecodeLut ?h = map (\<lambda>i. Some (lut_walk (m_aNodes ?h) HUFFMAN_LUTBITS 512 (of_nat i))) [0..<HUFFMAN_LUTSIZE]"
    using Init_codes [of freqs] by blast
  have "prefix_coder ?h cod"
    unfolding prefix_coder_def
  proof (intro conjI allI impI)
    fix s assume "s \<le> HUFFMAN_EOF_SYMBOL"
    then have s: "s < 257" by (simp add: huffman_consts)
    have c: "subtree t (cod s) = Some (HLeaf s)" "length (cod s) \<le> 512"
      "m_aNodes ?h ! s = (N ! s)\<lparr>m_Bits := path_bits (cod s), m_NumBits := of_nat (length (cod s))\<rparr>"
      using cod [OF s] by blast+
    show len: "length (cod s) \<le> 24"
    proof (cases "height_loop (start_freqs freqs) \<le> 24")
      case True
      with cod [OF s] hgt show ?thesis by simp
    next
      case False
      then have short: "short_codes ?h" using assms by blast
      have "take 257 (m_aNodes ?h) ! s \<in> set (take 257 (m_aNodes ?h))" using s len513 by (intro nth_mem) simp
      then have "m_NumBits (m_aNodes ?h ! s) \<le> 24"
        using short s unfolding short_codes_def list_all_iff by (simp add: huffman_consts)
      moreover have "unat (of_nat (length (cod s)) :: i32) = length (cod s)"
        using c(2) by (simp add: unat_of_nat)
      ultimately show ?thesis by (simp add: c(3) word_le_nat_alt)
    qed
    have rs: "represents N (walk ?h 512 (cod s)) (HLeaf s)" by (rule walk_subtree [OF t c(1) inner])
    then show "walk ?h (m_pStartNode ?h) (cod s) = s" by (simp add: start)
    show "1 \<le> length (cod s)" using c(1) two_symbols [OF lvs] by (cases "cod s") auto
    show "holds (m_Bits (m_aNodes ?h ! s)) (cod s)" using len by (simp add: c(3) holds_path_bits)
    show "m_NumBits (m_aNodes ?h ! s) = of_nat (length (cod s))" by (simp add: c(3))
    show "m_Symbol (m_aNodes ?h ! s) = of_nat s" using rs by (simp add: c(3))
    fix k assume k: "k < length (cod s)" "0 < k"
    then obtain l r where "subtree t (take k (cod s)) = Some (HNode l r)" using subtree_take [OF c(1)] by blast
    from walk_subtree [OF t this inner] inner
    show "m_NumBits (m_aNodes ?h ! walk ?h (m_pStartNode ?h) (take k (cod s))) = 0"
      by (simp add: start)
  next
    fix i assume "i < HUFFMAN_LUTSIZE"
    then show "m_apDecodeLut ?h ! i = Some (lut_walk (m_aNodes ?h) HUFFMAN_LUTBITS (m_pStartNode ?h) (of_nat i))"
      by (simp add: lut start)
  qed
  then show ?thesis by (rule that)
qed

section \<open>The codes of the built-in table are short\<close>

text \<open>
  The loop on heights again, on a list kept in ascending order, so that each step is one
  insertion and can be evaluated for the table of the code.
\<close>

lemma insort_desc_snoc:
  fixes f :: "'a \<Rightarrow> int"
  shows "sorted (map f (rev xs)) \<Longrightarrow>
    foldr (insort_key (\<lambda>x. - f x)) xs [x] = rev (insort_key f x (rev xs))"
proof (induction xs)
  case (Cons y ys)
  have sys: "sorted (map f (rev ys))" and le: "\<forall>z \<in> set ys. f z \<le> f y"
    using Cons.prems by (auto simp: sorted_append)
  note IH = Cons.IH [OF sys]
  show ?case
  proof (cases "f x \<le> f y")
    case True
    have "insort_key f x (zs @ [y]) = insort_key f x zs @ [y]" if "\<forall>z\<in>set zs. f z \<le> f y" for zs
      using True that by (induction zs) auto
    then have "insort_key f x (rev (y # ys)) = insort_key f x (rev ys) @ [y]" using le by simp
    moreover have "insort_key (\<lambda>x. - f x) y zs = y # zs" if "\<forall>z\<in>set zs. f z \<le> f y" for zs
      using that by (cases zs) auto
    then have "insort_key (\<lambda>x. - f x) y (rev (insort_key f x (rev ys))) = y # rev (insort_key f x (rev ys))"
      using le True by (auto simp: set_insort_key)
    ultimately show ?thesis by (simp add: IH)
  next
    case False
    have ins: "insort_key f x zs = zs @ [x]" if "\<forall>z\<in>set zs. f z < f x" for zs
      using that by (induction zs) auto
    have "\<forall>z \<in> set (rev (y # ys)). f z < f x" using le False by fastforce
    then have "insort_key f x (rev (y # ys)) = rev (y # ys) @ [x]" "insort_key f x (rev ys) = rev ys @ [x]"
      by (rule ins) (use \<open>\<forall>z \<in> set (rev (y # ys)). f z < f x\<close> in \<open>simp add: ins\<close>)
    moreover have "insort_key (\<lambda>x. - f x) y ys = y # ys" using le by (cases ys) auto
    ultimately show ?thesis using False by (simp add: IH)
  qed
qed simp

lemma sort_desc_sorted:
  fixes f :: "'a \<Rightarrow> int"
  assumes "sorted (map f xs)"
  shows "sort_key (\<lambda>x. - f x) (rev xs) = rev xs"
proof (rule sort_key_id_if_sorted)
  show "sorted (map (\<lambda>x. - f x) (rev xs))"
    using assms by (induction xs) (auto simp: sorted_append)
qed

fun merge_heights :: "nat \<Rightarrow> (nat \<times> int) list \<Rightarrow> nat" where
  "merge_heights (Suc fuel) (a # b # xs) =
     merge_heights fuel (insort_key snd (Suc (max (fst a) (fst b)), snd a + snd b) xs)"
| "merge_heights fuel [a] = fst a"
| "merge_heights fuel _ = 0"

lemma height_loop_merge:
  "sort_key (\<lambda>(i, f). - f) left = rev asc \<Longrightarrow> sorted (map snd asc) \<Longrightarrow> asc \<noteq> [] \<Longrightarrow>
     length asc \<le> Suc fuel \<Longrightarrow> height_loop left = merge_heights fuel asc"
proof (induction fuel asc arbitrary: left rule: merge_heights.induct)
  case (1 fuel a b xs)
  let ?x = "(Suc (max (fst a) (fst b)), snd a + snd b)"
  have neg: "(\<lambda>(i::nat, f::int). - f) = (\<lambda>x. - snd x)" by auto
  have s: "sort_key (\<lambda>(i, f). - f) left = rev xs @ [b, a]" using "1.prems"(1) by simp
  then have "length (sort_key (\<lambda>(i, f). - f) left) = Suc (Suc (length xs))" by simp
  then have len: "length left = Suc (Suc (length xs))" by (simp only: length_sort)
  have step: "height_loop left = height_loop (rev xs @ [?x])"
    using len by (subst height_loop.simps) (simp only: s Let_def if_False, simp add: nth_append)
  have sxs: "sorted (map snd xs)" using "1.prems"(2) by simp
  have "sort_key (\<lambda>(i, f). - f) (rev xs @ [?x]) = foldr (insort_key (\<lambda>x. - snd x)) (rev xs) [?x]"
    unfolding neg by (simp add: sort_key_def)
  also have "\<dots> = rev (insort_key snd ?x xs)"
    using insort_desc_snoc [of snd "rev xs" ?x] sxs by simp
  finally have "sort_key (\<lambda>(i, f). - f) (rev xs @ [?x]) = rev (insort_key snd ?x xs)" .
  moreover have "sorted (map snd (insort_key snd ?x xs))" using sxs by (simp add: sorted_insort_key)
  moreover have "insort_key snd ?x xs \<noteq> []" by (cases xs) auto
  ultimately have "height_loop (rev xs @ [?x]) = merge_heights fuel (insort_key snd ?x xs)"
    using "1.prems"(4) by (intro "1.IH") simp_all
  with step show ?case by simp
next
  case (2 fuel a)
  then have "left \<noteq> []" "length (sort_key (\<lambda>(i, f). - f) left) = 1" by auto
  then obtain x where "left = [x]" by (cases left) auto
  with "2.prems"(1) show ?case by (simp add: height_loop.simps)
qed auto

definition sorted_freqs :: "(nat \<times> int) list" where
  "sorted_freqs = rev (sort_key (\<lambda>(i, f). - f)
     (map (\<lambda>(i, w). (0, if i = HUFFMAN_EOF_SYMBOL then 1 else w)) (zip [0..<HUFFMAN_MAX_SYMBOLS] ms_aFreqTable)))"

lemma length_ms_aFreqTable: "length ms_aFreqTable = HUFFMAN_MAX_SYMBOLS"
  by (simp add: ms_aFreqTable_def huffman_consts)

lemma merged_height: "merge_heights 256 sorted_freqs = 15"
  by code_simp

lemma height_ms_aFreqTable: "height_loop (start_freqs ms_aFreqTable) = 15"
proof -
  let ?l = "map (\<lambda>(i, w). (0::nat, if i = HUFFMAN_EOF_SYMBOL then 1 else w)) (zip [0..<HUFFMAN_MAX_SYMBOLS] ms_aFreqTable)"
  have "zip [0..<HUFFMAN_MAX_SYMBOLS] ms_aFreqTable = map (\<lambda>i. (i, ms_aFreqTable ! i)) [0..<HUFFMAN_MAX_SYMBOLS]"
    by (intro nth_equalityI) (simp_all add: length_ms_aFreqTable del: upt_rec_numeral)
  then have l: "start_freqs ms_aFreqTable = ?l" by (simp add: start_freqs_def comp_def)
  have "length ?l = 257" by (simp add: length_ms_aFreqTable del: upt_rec_numeral) (simp add: huffman_consts)
  then have len: "length sorted_freqs = 257" by (simp add: sorted_freqs_def)
  have srt: "sort_key (\<lambda>(i, f). - f) ?l = rev sorted_freqs" by (simp add: sorted_freqs_def)
  have "sorted (map (\<lambda>(i, f). - f) (sort_key (\<lambda>(i, f). - f) ?l))" by (rule sorted_sort_key)
  then have "sorted (map (\<lambda>(i, f). - f) (rev sorted_freqs))" by (simp only: srt)
  then have "sorted (map snd sorted_freqs)"
    by (simp add: sorted_wrt_rev sorted_wrt_map sorted_map case_prod_beta flip: rev_map)
  then show ?thesis
    using height_loop_merge [OF srt, of 256] len merged_height unfolding l by fastforce
qed

section \<open>The contract its clients rely on\<close>

text \<open>A compressor whose decompressor gets the input back when it has the room, and never more than it.\<close>

locale compressor =
  fixes compress :: "u8 list \<Rightarrow> nat \<Rightarrow> u8 list option"
    and decompress :: "u8 list \<Rightarrow> nat \<Rightarrow> u8 list option"
  assumes decompress_compress: "compress inp n = Some out \<Longrightarrow> length inp \<le> m \<Longrightarrow> decompress out m = Some inp"
    and decompress_length: "decompress out m = Some inp \<Longrightarrow> length inp \<le> m"
begin

lemma compress_inj:
  assumes "compress x n = Some out" "compress y m = Some out"
  shows "x = y"
  using decompress_compress [OF assms(1), of "max (length x) (length y)"]
    decompress_compress [OF assms(2), of "max (length x) (length y)"] by simp

end

text \<open>The static coder of the network, as \<open>CNetBase::Init\<close> sets it up.\<close>

definition ms_Huffman :: CHuffman where
  "ms_Huffman = Huffman_Init ms_aFreqTable"

interpretation huff: compressor "Huffman_Compress ms_Huffman" "Huffman_Decompress ms_Huffman"
proof
  fix inp n out m
  obtain cod where "prefix_coder ms_Huffman cod"
    using Init_prefix_coder [of ms_aFreqTable] height_ms_aFreqTable unfolding ms_Huffman_def by auto
  from Decompress_Compress [OF this]
  show "Huffman_Compress ms_Huffman inp n = Some out \<Longrightarrow> length inp \<le> m \<Longrightarrow>
    Huffman_Decompress ms_Huffman out m = Some inp" .
  show "Huffman_Decompress ms_Huffman out m = Some inp \<Longrightarrow> length inp \<le> m"
    unfolding Huffman_Decompress_def by (rule decompress_loop_length)
qed

section \<open>Properties\<close>

text \<open>
  C26: with the built-in frequency table, decompressing what was compressed gives the input back,
  for every input and every output buffer large enough for it; compressing fails only when the
  output buffer has no more than three bytes for each byte of the input and the end symbol.
\<close>

theorem huffman_roundtrip:
  "case Huffman_Compress (Huffman_Init ms_aFreqTable) pInput OutputSize of
     None \<Rightarrow> OutputSize \<le> 3 * (length pInput + 1)
   | Some out \<Rightarrow> Huffman_Decompress (Huffman_Init ms_aFreqTable) out (length pInput + room) = Some pInput"
proof -
  obtain cod where "prefix_coder (Huffman_Init ms_aFreqTable) cod"
    using Init_prefix_coder [of ms_aFreqTable] height_ms_aFreqTable by auto
  from Compress_None [OF this] show ?thesis
    using huff.decompress_compress by (auto simp: ms_Huffman_def split: option.split)
qed

text \<open>
  whatever bytes arrive, \<open>Decompress\<close> writes at most \<open>OutputSize\<close> bytes, for every coder.
\<close>

theorem huffman_decompress_bounds:
  "case Huffman_Decompress h pInput OutputSize of
     None \<Rightarrow> True | Some out \<Rightarrow> length out \<le> OutputSize"
  using decompress_loop_length by (auto simp: Huffman_Decompress_def split: option.split)

end
