(* ===== verification/NetPacket.thy ===== *)
theory NetPacket
  imports Huffman Codec
begin

text \<open>
  Packets and chunk headers of \<^verbatim>\<open>src/src/engine/shared/network.cpp\<close> and
  \<^verbatim>\<open>network.h\<close>. A pointer into a received packet is the list of bytes from there on; a
  datagram handed to \<open>net_udp_send\<close> is the address and the bytes. The data of a packet under
  construction is the list of the \<open>m_DataSize\<close> bytes of \<open>m_aChunkData\<close>.
\<close>

section \<open>Constants, addresses and tokens\<close>

abbreviation (input) NET_MAX_PACKETSIZE :: nat where "NET_MAX_PACKETSIZE \<equiv> 1400"
abbreviation (input) NET_MAX_PAYLOAD :: nat where "NET_MAX_PAYLOAD \<equiv> 1394"
abbreviation (input) NET_MAX_CHUNKHEADERSIZE :: nat where "NET_MAX_CHUNKHEADERSIZE \<equiv> 3"
abbreviation (input) NET_PACKETHEADERSIZE :: nat where "NET_PACKETHEADERSIZE \<equiv> 3"
abbreviation (input) NET_MAX_SEQUENCE :: int where "NET_MAX_SEQUENCE \<equiv> 1024"
abbreviation (input) NET_PACKETFLAG_UNUSED :: int where "NET_PACKETFLAG_UNUSED \<equiv> 1"
abbreviation (input) NET_PACKETFLAG_CONTROL :: int where "NET_PACKETFLAG_CONTROL \<equiv> 4"
abbreviation (input) NET_PACKETFLAG_CONNLESS :: int where "NET_PACKETFLAG_CONNLESS \<equiv> 8"
abbreviation (input) NET_PACKETFLAG_RESEND :: int where "NET_PACKETFLAG_RESEND \<equiv> 16"
abbreviation (input) NET_PACKETFLAG_COMPRESSION :: int where "NET_PACKETFLAG_COMPRESSION \<equiv> 32"
abbreviation (input) NET_PACKETFLAG_EXTENDED :: int where "NET_PACKETFLAG_EXTENDED \<equiv> 64"
abbreviation (input) NET_CHUNKFLAG_VITAL :: int where "NET_CHUNKFLAG_VITAL \<equiv> 1"
abbreviation (input) NET_CHUNKFLAG_RESEND :: int where "NET_CHUNKFLAG_RESEND \<equiv> 2"
abbreviation (input) NET_CTRLMSG_KEEPALIVE :: int where "NET_CTRLMSG_KEEPALIVE \<equiv> 0"
abbreviation (input) NET_CTRLMSG_CONNECT :: int where "NET_CTRLMSG_CONNECT \<equiv> 1"
abbreviation (input) NET_CTRLMSG_CONNECTACCEPT :: int where "NET_CTRLMSG_CONNECTACCEPT \<equiv> 2"
abbreviation (input) NET_CTRLMSG_ACCEPT :: int where "NET_CTRLMSG_ACCEPT \<equiv> 3"
abbreviation (input) NET_CTRLMSG_CLOSE :: int where "NET_CTRLMSG_CLOSE \<equiv> 4"
abbreviation (input) NET_CTRLMSG_TOKEN :: int where "NET_CTRLMSG_TOKEN \<equiv> 5"
abbreviation (input) NET_TOKEN_NONE :: i32 where "NET_TOKEN_NONE \<equiv> 0xFFFFFFFF"
abbreviation (input) NET_SECURITY_TOKEN_UNKNOWN :: i32 where "NET_SECURITY_TOKEN_UNKNOWN \<equiv> -1"
abbreviation (input) NET_SECURITY_TOKEN_UNSUPPORTED :: i32 where "NET_SECURITY_TOKEN_UNSUPPORTED \<equiv> 0"

record NETADDR =
  na_type :: i32
  na_ip :: "u8 list"
  na_port :: "16 word"

type_synonym datagram = "NETADDR \<times> u8 list"

definition net_addr_comp_noport :: "NETADDR \<Rightarrow> NETADDR \<Rightarrow> bool" where
  "net_addr_comp_noport a b \<longleftrightarrow> a\<lparr>na_port := 0\<rparr> \<noteq> b\<lparr>na_port := 0\<rparr>"

text \<open>A byte read through a pointer; what lies behind the list is not known and read as 0.\<close>

definition mem_at :: "u8 list \<Rightarrow> nat \<Rightarrow> u8" where
  "mem_at p i = (if i < length p then p ! i else 0)"

definition bytes_be_to_uint :: "u8 list \<Rightarrow> i32" where
  "bytes_be_to_uint p =
     push_bit 24 (ucast (mem_at p 0)) OR push_bit 16 (ucast (mem_at p 1)) OR
     push_bit 8 (ucast (mem_at p 2)) OR ucast (mem_at p 3)"

definition uint_to_bytes_be :: "i32 \<Rightarrow> u8 list" where
  "uint_to_bytes_be v =
     [ucast (drop_bit 24 v), ucast (drop_bit 16 v), ucast (drop_bit 8 v), ucast v]"

definition SECURITY_TOKEN_MAGIC :: "u8 list" where
  "SECURITY_TOKEN_MAGIC = bytes_of ''TKEN''"

definition ToSecurityToken :: "u8 list \<Rightarrow> i32" where
  "ToSecurityToken pData = bytes_be_to_uint pData"

definition WriteSecurityToken :: "i32 \<Rightarrow> u8 list" where
  "WriteSecurityToken Token = uint_to_bytes_be Token"

lemma mem_at_simps [simp]:
  "mem_at (b # p) 0 = b" "mem_at (b # p) (Suc i) = mem_at p i" "mem_at [] i = 0"
  by (simp_all add: mem_at_def)

lemma mem_at_numeral [simp]: "mem_at (b # p) (numeral k) = mem_at p (pred_numeral k)"
  by (simp add: numeral_eq_Suc)

lemma mem_at_one [simp]: "mem_at (b # p) 1 = mem_at p 0"
  by (simp add: mem_at_def)

lemma mem_at_append: "i < length p \<Longrightarrow> mem_at (p @ q) i = mem_at p i"
  by (simp add: mem_at_def nth_append)

lemma bytes_be_inverse: "bytes_be_to_uint (uint_to_bytes_be v @ rest) = v"
proof (rule word_eq_bitI)
  fix n assume n: "n < LENGTH(32)"
  consider "n < 8" | k where "n = 8 + k" "k < 8" | k where "n = 16 + k" "k < 8" | k where "n = 24 + k" "k < 8"
  proof -
    have "n < 8 \<or> (\<exists>k. n = 8 + k \<and> k < 8) \<or> (\<exists>k. n = 16 + k \<and> k < 8) \<or> (\<exists>k. n = 24 + k \<and> k < 8)"
      using n by simp presburger
    then show ?thesis using that by blast
  qed
  then show "bit (bytes_be_to_uint (uint_to_bytes_be v @ rest)) n = bit v n"
    by cases (auto simp: bytes_be_to_uint_def uint_to_bytes_be_def bit_simps add.commute)
qed

lemma length_uint_to_bytes_be [simp]: "length (uint_to_bytes_be v) = 4"
  by (simp add: uint_to_bytes_be_def)

lemma length_WriteSecurityToken [simp]: "length (WriteSecurityToken v) = 4"
  by (simp add: WriteSecurityToken_def)

lemma ToSecurityToken_Write [simp]: "ToSecurityToken (WriteSecurityToken v @ rest) = v"
  by (simp add: ToSecurityToken_def WriteSecurityToken_def bytes_be_inverse)

section \<open>Chunk headers\<close>

record CNetChunkHeader =
  h_Flags :: int
  h_Size :: int
  h_Sequence :: int

text \<open>\<open>(1 << Split) - 1\<close>.\<close>

definition low_bits :: "nat \<Rightarrow> int" where
  "low_bits Split = push_bit Split 1 - 1"

definition ChunkHeader_Pack :: "CNetChunkHeader \<Rightarrow> nat \<Rightarrow> u8 list" where
  "ChunkHeader_Pack h Split =
     (let b0 = byte (push_bit 6 (h_Flags h AND 3) OR (drop_bit Split (h_Size h) AND 0x3F));
          b1 = byte (h_Size h AND low_bits Split)
      in if h_Flags h AND NET_CHUNKFLAG_VITAL \<noteq> 0
         then [b0, byte (uint b1 OR (drop_bit 2 (h_Sequence h) AND NOT (low_bits Split))),
               byte (h_Sequence h AND 0xFF)]
         else [b0, b1])"

definition ChunkHeader_Unpack :: "u8 list \<Rightarrow> nat \<Rightarrow> CNetChunkHeader \<times> u8 list" where
  "ChunkHeader_Unpack p Split =
     (let Flags = drop_bit 6 (uint (mem_at p 0)) AND 3;
          Size = push_bit Split (uint (mem_at p 0) AND 0x3F) OR (uint (mem_at p 1) AND low_bits Split)
      in if Flags AND NET_CHUNKFLAG_VITAL \<noteq> 0
         then (\<lparr>h_Flags = Flags, h_Size = Size,
                h_Sequence = push_bit 2 (uint (mem_at p 1) AND NOT (low_bits Split)) OR uint (mem_at p 2)\<rparr>,
               drop 3 p)
         else (\<lparr>h_Flags = Flags, h_Size = Size, h_Sequence = -1\<rparr>, drop 2 p))"

text \<open>The headers that fit the format: six bits of size and those of the split, ten bits of sequence.\<close>

definition header_ok :: "nat \<Rightarrow> CNetChunkHeader \<Rightarrow> bool" where
  "header_ok Split h \<longleftrightarrow> 0 \<le> h_Flags h \<and> h_Flags h < 4 \<and> 0 \<le> h_Size h \<and> h_Size h < 2 ^ (6 + Split) \<and>
     (if h_Flags h AND NET_CHUNKFLAG_VITAL \<noteq> 0 then 0 \<le> h_Sequence h \<and> h_Sequence h < NET_MAX_SEQUENCE
      else h_Sequence h = -1)"

lemma bit_uint_byte: "bit (uint (byte x)) n \<longleftrightarrow> n < 8 \<and> bit x n"
  by (simp add: byte_def bit_simps)

lemma bit_split_mask: "bit (low_bits s) n \<longleftrightarrow> n < s"
proof -
  have "low_bits s = mask s" by (simp add: low_bits_def mask_eq_exp_minus_1 push_bit_eq_mult)
  then show ?thesis by (simp add: bit_mask_iff)
qed

lemma int_high_bits: "0 \<le> x \<Longrightarrow> x < 2 ^ k \<Longrightarrow> k \<le> n \<Longrightarrow> \<not> bit (x::int) n"
  by (metis bit_take_bit_iff linorder_not_le take_bit_int_eq_self)

lemmas header_bits = bit_simps lit_bits bit_uint_byte bit_split_mask

lemma Pack_Unpack_fields:
  assumes "0 \<le> fl" "fl < 4" "0 \<le> sz" "sz < 2 ^ (6 + s)" "s \<le> 6"
  defines "b0 \<equiv> uint (byte (push_bit 6 (fl AND 3) OR (drop_bit s sz AND 0x3F)))"
  shows "drop_bit 6 b0 AND 3 = fl"
    and "push_bit s (b0 AND 0x3F) OR (uint (byte (sz AND low_bits s)) AND low_bits s) = sz"
    and "push_bit s (b0 AND 0x3F) OR
      (uint (byte (uint (byte (sz AND low_bits s)) OR (sq AND NOT (low_bits s)))) AND low_bits s) = sz"
proof -
  have fl: "bit fl n \<Longrightarrow> n < 2" for n using int_high_bits [of fl 2 n] assms(1,2) by (simp add: linorder_not_le [symmetric]) blast
  have sz: "bit sz n \<Longrightarrow> n < 6 + s" for n using int_high_bits [of sz "6 + s" n] assms(3,4) by (meson linorder_not_le)
  have b0: "bit b0 n \<longleftrightarrow> n < 8 \<and> (if n < 6 then bit sz (s + n) else bit fl (n - 6))" for n
  proof -
    have l: "bit (3::int) j \<longleftrightarrow> j < 2" "bit (0x3F::int) j \<longleftrightarrow> j < 6" for j by (simp_all only: lit_bits)
    have "bit b0 n \<longleftrightarrow> n < 8 \<and> ((6 \<le> n \<and> bit fl (n - 6) \<and> n - 6 < 2) \<or> (bit sz (s + n) \<and> n < 6))"
      unfolding b0_def bit_uint_byte bit_or_iff bit_and_iff bit_push_bit_iff_int bit_drop_bit_eq o_apply l by simp
    then show ?thesis by (cases "n < 6") auto
  qed
  show "drop_bit 6 b0 AND 3 = fl"
  proof (rule bit_eqI)
    fix n
    have "bit (3::int) n \<longleftrightarrow> n < 2" by (simp only: lit_bits)
    then show "bit (drop_bit 6 b0 AND 3) n \<longleftrightarrow> bit fl n"
      using fl [of n] by (auto simp: bit_and_iff bit_drop_bit_eq b0)
  qed
  have hi: "bit (push_bit s (b0 AND 0x3F)) n \<longleftrightarrow> s \<le> n \<and> bit sz n" for n
  proof -
    have "bit (0x3F::int) j \<longleftrightarrow> j < 6" for j by (simp only: lit_bits)
    then have "bit (push_bit s (b0 AND 0x3F)) n \<longleftrightarrow> s \<le> n \<and> n - s < 6 \<and> bit sz (s + (n - s))"
      unfolding bit_push_bit_iff_int bit_and_iff b0 by auto
    then show ?thesis using sz [of n] by (cases "s \<le> n") auto
  qed
  show "push_bit s (b0 AND 0x3F) OR (uint (byte (sz AND low_bits s)) AND low_bits s) = sz"
  proof (rule bit_eqI)
    fix n show "bit (push_bit s (b0 AND 0x3F) OR (uint (byte (sz AND low_bits s)) AND low_bits s)) n \<longleftrightarrow> bit sz n"
      using assms(5) unfolding bit_or_iff hi bit_and_iff bit_uint_byte bit_split_mask by linarith
  qed
  show "push_bit s (b0 AND 0x3F) OR
      (uint (byte (uint (byte (sz AND low_bits s)) OR (sq AND NOT (low_bits s)))) AND low_bits s) = sz"
  proof (rule bit_eqI)
    fix n show "bit (push_bit s (b0 AND 0x3F) OR
      (uint (byte (uint (byte (sz AND low_bits s)) OR (sq AND NOT (low_bits s)))) AND low_bits s)) n \<longleftrightarrow> bit sz n"
      using assms(5)
      unfolding bit_or_iff hi bit_and_iff bit_uint_byte bit_split_mask bit_not_iff by auto
  qed
qed

lemma Pack_Unpack_sequence:
  assumes "0 \<le> sq" "sq < NET_MAX_SEQUENCE" "s \<le> 6"
  shows "push_bit 2 (uint (byte (uint (byte (sz AND low_bits s)) OR (drop_bit 2 sq AND NOT (low_bits s))))
           AND NOT (low_bits s)) OR uint (byte (sq AND 0xFF)) = sq" (is "?l = sq")
proof (rule bit_eqI)
  fix n
  have sq: "bit sq n \<Longrightarrow> n < 10" using int_high_bits [of sq 10 n] assms(1,2) by simp (meson linorder_not_le)
  have "bit (0xFF::int) n \<longleftrightarrow> n < 8" by (simp only: lit_bits)
  moreover have "2 \<le> n \<Longrightarrow> bit sq (2 + (n - 2)) = bit sq n" by (simp only: le_add_diff_inverse)
  ultimately show "bit ?l n \<longleftrightarrow> bit sq n"
    using assms(3) sq
    by (auto simp: bit_or_iff bit_push_bit_iff_int bit_and_iff bit_not_iff bit_uint_byte bit_split_mask bit_drop_bit_eq)
qed

lemma Header_roundtrip:
  assumes "header_ok s h" "s \<le> 6"
  shows "ChunkHeader_Unpack (ChunkHeader_Pack h s @ rest) s = (h, rest)"
proof -
  have h: "0 \<le> h_Flags h" "h_Flags h < 4" "0 \<le> h_Size h" "h_Size h < 2 ^ (6 + s)"
    using assms(1) by (simp_all add: header_ok_def)
  note fields = Pack_Unpack_fields [OF h assms(2)]
  show ?thesis
  proof (cases "h_Flags h AND NET_CHUNKFLAG_VITAL \<noteq> 0")
    case True
    then have "0 \<le> h_Sequence h" "h_Sequence h < NET_MAX_SEQUENCE" using assms(1) by (simp_all add: header_ok_def)
    from Pack_Unpack_sequence [OF this assms(2), of "h_Size h"] fields True show ?thesis
      by (simp add: ChunkHeader_Pack_def ChunkHeader_Unpack_def Let_def del: drop_bit_and push_bit_and)
  next
    case False
    with fields assms(1) show ?thesis
      by (simp add: ChunkHeader_Pack_def ChunkHeader_Unpack_def Let_def header_ok_def del: drop_bit_and push_bit_and)
  qed
qed

interpretation header4: codec "\<lambda>h. ChunkHeader_Pack h 4" "\<lambda>p. Some (ChunkHeader_Unpack p 4)" "header_ok 4"
  by unfold_locales (simp add: Header_roundtrip)

interpretation header6: codec "\<lambda>h. ChunkHeader_Pack h 6" "\<lambda>p. Some (ChunkHeader_Unpack p 6)" "header_ok 6"
  by unfold_locales (simp add: Header_roundtrip)

section \<open>Sequence numbers\<close>

definition IsSeqInBackroom :: "int \<Rightarrow> int \<Rightarrow> bool" where
  "IsSeqInBackroom Seq Ack =
     (let Bottom = Ack - NET_MAX_SEQUENCE div 2
      in if Bottom < 0 then Seq \<le> Ack \<or> Seq \<ge> Bottom + NET_MAX_SEQUENCE
         else Seq \<le> Ack \<and> Seq \<ge> Bottom)"

lemma backroom_distance:
  assumes "0 \<le> Seq" "Seq < NET_MAX_SEQUENCE" "0 \<le> Ack" "Ack < NET_MAX_SEQUENCE"
  shows "IsSeqInBackroom Seq Ack \<longleftrightarrow> (Ack - Seq) mod NET_MAX_SEQUENCE \<le> NET_MAX_SEQUENCE div 2"
proof (cases "Seq \<le> Ack")
  case True
  then have "(Ack - Seq) mod 1024 = Ack - Seq" using assms by simp
  with True assms show ?thesis by (auto simp: IsSeqInBackroom_def Let_def)
next
  case False
  then have "(Ack - Seq) mod 1024 = Ack - Seq + 1024"
    using assms mod_pos_pos_trivial [of "Ack - Seq + 1024" 1024] by simp
  with False assms show ?thesis by (auto simp: IsSeqInBackroom_def Let_def)
qed

section \<open>Sending packets\<close>

record CNetPacketConstruct =
  p_Flags :: int
  p_Ack :: int
  p_NumChunks :: int
  p_aChunkData :: "u8 list"
  p_aExtraData :: "u8 list"

definition NET_HEADER_EXTENDED :: "u8 list" where
  "NET_HEADER_EXTENDED = bytes_of ''xe''"

definition SendPacketConnless :: "NETADDR \<Rightarrow> u8 list \<Rightarrow> bool \<Rightarrow> u8 list \<Rightarrow> datagram" where
  "SendPacketConnless addr data Extended aExtra =
     (addr, (if \<not> Extended then replicate 6 0xFF else NET_HEADER_EXTENDED @ take 4 aExtra) @ data)"

definition SendPacketConnlessWithToken7 :: "NETADDR \<Rightarrow> u8 list \<Rightarrow> i32 \<Rightarrow> i32 \<Rightarrow> datagram" where
  "SendPacketConnlessWithToken7 addr data Token ResponseToken =
     (addr, [byte (push_bit 2 NET_PACKETFLAG_CONNLESS OR 1)] @ WriteSecurityToken Token
            @ WriteSecurityToken ResponseToken @ data)"

text \<open>
  The choice between the compressed and the plain data: \<open>None\<close> is a failed compression, and
  the compressed data is used only when it is shorter.
\<close>

definition packet_body :: "(u8 list \<Rightarrow> nat \<Rightarrow> u8 list option) \<Rightarrow> bool \<Rightarrow> u8 list \<Rightarrow> nat \<Rightarrow> bool \<times> u8 list" where
  "packet_body compress NoCompress data OutputSize =
     (case (if NoCompress then None else compress data OutputSize) of
        Some c \<Rightarrow> if 0 < length c \<and> length c < length data then (True, c) else (False, data)
      | None \<Rightarrow> (False, data))"

definition to_sixup_flags :: "int \<Rightarrow> int" where
  "to_sixup_flags f =
     (if f AND NET_PACKETFLAG_CONTROL \<noteq> 0 then 1 else 0) OR
     (if f AND NET_PACKETFLAG_RESEND \<noteq> 0 then 2 else 0) OR
     (if f AND NET_PACKETFLAG_COMPRESSION \<noteq> 0 then 4 else 0)"

definition from_sixup_flags :: "int \<Rightarrow> int" where
  "from_sixup_flags f =
     (if f AND 1 \<noteq> 0 then NET_PACKETFLAG_CONTROL else 0) OR
     (if f AND 2 \<noteq> 0 then NET_PACKETFLAG_RESEND else 0) OR
     (if f AND 4 \<noteq> 0 then NET_PACKETFLAG_COMPRESSION else 0)"

text \<open>
  The datagram \<open>SendPacket\<close> sends. The packet itself, which the code also changes, is
  cleared or out of scope after every call.
\<close>

definition SendPacket :: "NETADDR \<Rightarrow> CNetPacketConstruct \<Rightarrow> i32 \<Rightarrow> bool \<Rightarrow> bool \<Rightarrow> datagram" where
  "SendPacket addr pkt SecurityToken Sixup NoCompress =
     (let HeaderSize = (if Sixup then NET_PACKETHEADERSIZE + 4 else NET_PACKETHEADERSIZE);
          data = (if \<not> Sixup \<and> SecurityToken \<noteq> NET_SECURITY_TOKEN_UNSUPPORTED
                  then p_aChunkData pkt @ WriteSecurityToken SecurityToken else p_aChunkData pkt);
          (compressed, body) = packet_body (Huffman_Compress ms_Huffman) NoCompress data
                                 (NET_MAX_PACKETSIZE - HeaderSize);
          Flags = (if compressed then p_Flags pkt OR NET_PACKETFLAG_COMPRESSION
                   else p_Flags pkt AND NOT NET_PACKETFLAG_COMPRESSION);
          Flags = (if Sixup then to_sixup_flags Flags else Flags)
      in (addr,
          [byte ((push_bit 2 Flags AND 0xFC) OR (drop_bit 8 (p_Ack pkt) AND 0x3)),
           byte (p_Ack pkt AND 0xFF), byte (p_NumChunks pkt)]
          @ (if Sixup then WriteSecurityToken SecurityToken else []) @ body))"

definition SendControlMsg :: "NETADDR \<Rightarrow> int \<Rightarrow> int \<Rightarrow> u8 list \<Rightarrow> i32 \<Rightarrow> bool \<Rightarrow> datagram" where
  "SendControlMsg addr Ack ControlMsg pExtra SecurityToken Sixup =
     SendPacket addr
       \<lparr>p_Flags = NET_PACKETFLAG_CONTROL, p_Ack = Ack, p_NumChunks = 0,
        p_aChunkData = byte ControlMsg # pExtra, p_aExtraData = []\<rparr>
       SecurityToken Sixup True"

text \<open>
  The request buffer is 512 bytes of which the first four are set; the others are whatever
  the stack holds, here \<open>garbage\<close>.
\<close>

definition SendControlMsgWithToken7 :: "u8 list \<Rightarrow> NETADDR \<Rightarrow> i32 \<Rightarrow> int \<Rightarrow> int \<Rightarrow> i32 \<Rightarrow> bool \<Rightarrow> datagram" where
  "SendControlMsgWithToken7 garbage addr Token Ack ControlMsg MyToken Extended =
     SendControlMsg addr 0 ControlMsg
       ([ucast (drop_bit 24 MyToken AND 0xFF), ucast (drop_bit 16 MyToken AND 0xFF),
         ucast (drop_bit 8 MyToken AND 0xFF), ucast (MyToken AND 0xFF)]
        @ (if Extended then take 508 garbage else []))
       Token True"

section \<open>Receiving packets\<close>

text \<open>
  \<open>Refused\<close> is the return value \<open>-1\<close>; \<open>Null_write\<close> is the write through a null
  \<open>pResponseToken\<close>, which the code does not guard for control packets.
\<close>

datatype 'a unpacked = Refused | Null_write | Unpacked 'a

record received =
  r_Packet :: CNetPacketConstruct
  r_Sixup :: bool
  r_SecurityToken :: "i32 option"
  r_ResponseToken :: "i32 option"

definition unpack_connless :: "u8 list \<Rightarrow> i32 option \<Rightarrow> i32 option \<Rightarrow> received unpacked" where
  "unpack_connless buf pSecurityToken pResponseToken =
     (let Sixup = (uint (mem_at buf 0) AND 0x3 = 1);
          Offset = (if Sixup then 9 else 6);
          Extended = (\<not> Sixup \<and> take 2 buf = NET_HEADER_EXTENDED)
      in if Sixup \<and> (pSecurityToken = None \<or> pResponseToken = None) then Refused
         else if length buf < Offset then Refused
         else Unpacked
           \<lparr>r_Packet = \<lparr>p_Flags = (if Extended then NET_PACKETFLAG_CONNLESS OR NET_PACKETFLAG_EXTENDED
                                   else NET_PACKETFLAG_CONNLESS),
                        p_Ack = 0, p_NumChunks = 0, p_aChunkData = drop Offset buf,
                        p_aExtraData = (if Extended then take 4 (drop 2 buf) else [])\<rparr>,
            r_Sixup = Sixup,
            r_SecurityToken = (if Sixup then Some (ToSecurityToken (drop 1 buf)) else pSecurityToken),
            r_ResponseToken = (if Sixup then Some (ToSecurityToken (drop 5 buf)) else pResponseToken)\<rparr>)"

text \<open>The data of a connected packet; \<open>None\<close> is a compressed control packet or a failed decompression.\<close>

definition unpack_body :: "(u8 list \<Rightarrow> nat \<Rightarrow> u8 list option) \<Rightarrow> int \<Rightarrow> u8 list \<Rightarrow> u8 list option" where
  "unpack_body decompress Flags body =
     (if Flags AND NET_PACKETFLAG_COMPRESSION \<noteq> 0
      then if Flags AND NET_PACKETFLAG_CONTROL \<noteq> 0 then None
           else decompress body NET_MAX_PAYLOAD
      else Some body)"

definition unpack_connected :: "u8 list \<Rightarrow> bool \<Rightarrow> i32 option \<Rightarrow> i32 option \<Rightarrow> received unpacked" where
  "unpack_connected buf Sixup pSecurityToken pResponseToken =
     (let Flags = drop_bit 2 (uint (mem_at buf 0));
          Sixup = (if Flags AND NET_PACKETFLAG_UNUSED \<noteq> 0 then True else Sixup);
          DataStart = (if Sixup then 7 else NET_PACKETHEADERSIZE)
      in if Sixup \<and> pSecurityToken = None then Refused
         else if length buf < DataStart then Refused
         else
           let Flags = (if Sixup then from_sixup_flags Flags else Flags)
           in case unpack_body (Huffman_Decompress ms_Huffman) Flags (drop DataStart buf) of
                None \<Rightarrow> Refused
              | Some data \<Rightarrow>
                  let token = (Flags AND NET_PACKETFLAG_CONTROL \<noteq> 0 \<and> 5 \<le> length data \<and>
                               (uint (mem_at data 0) = NET_CTRLMSG_CONNECT \<or> uint (mem_at data 0) = NET_CTRLMSG_TOKEN))
                  in if token \<and> pResponseToken = None then Null_write
                     else Unpacked
                       \<lparr>r_Packet = \<lparr>p_Flags = Flags,
                                    p_Ack = push_bit 8 (uint (mem_at buf 0) AND 0x3) OR uint (mem_at buf 1),
                                    p_NumChunks = uint (mem_at buf 2), p_aChunkData = data, p_aExtraData = []\<rparr>,
                        r_Sixup = Sixup,
                        r_SecurityToken = (if Sixup then Some (ToSecurityToken (drop 3 buf)) else pSecurityToken),
                        r_ResponseToken = (if token then Some (ToSecurityToken (drop 1 data)) else pResponseToken)\<rparr>)"

definition UnpackPacket :: "u8 list \<Rightarrow> bool \<Rightarrow> i32 option \<Rightarrow> i32 option \<Rightarrow> received unpacked" where
  "UnpackPacket buf Sixup pSecurityToken pResponseToken =
     (if length buf < NET_PACKETHEADERSIZE \<or> length buf > NET_MAX_PACKETSIZE then Refused
      else if drop_bit 2 (uint (mem_at buf 0)) AND NET_PACKETFLAG_CONNLESS \<noteq> 0
        then unpack_connless buf pSecurityToken pResponseToken
      else unpack_connected buf Sixup pSecurityToken pResponseToken)"

section \<open>A sent packet is received as it was\<close>

context compressor
begin

text \<open>The receiver undoes the sender's choice.\<close>

lemma body_roundtrip:
  assumes "packet_body compress NoCompress data sz = (compressed, body)"
    and "length data \<le> NET_MAX_PAYLOAD" "Flags AND NET_PACKETFLAG_CONTROL \<noteq> 0 \<Longrightarrow> NoCompress"
    and "Flags AND NET_PACKETFLAG_COMPRESSION \<noteq> 0 \<longleftrightarrow> compressed"
  shows "unpack_body decompress Flags body = Some data" and "length body \<le> length data"
proof -
  have "compressed \<Longrightarrow> \<not> NoCompress \<and> compress data sz = Some body \<and> length body < length data"
    using assms(1) by (auto simp: packet_body_def split: if_splits option.splits)
  moreover have "\<not> compressed \<Longrightarrow> body = data"
    using assms(1) by (auto simp: packet_body_def split: if_splits option.splits)
  ultimately show "unpack_body decompress Flags body = Some data" "length body \<le> length data"
    using assms(2-4) decompress_compress [of data sz body NET_MAX_PAYLOAD]
    by (cases compressed; auto simp: unpack_body_def)+
qed

end

lemma packet_header_bits:
  assumes "0 \<le> F" "F < 64" "0 \<le> A" "A < NET_MAX_SEQUENCE"
  defines "b0 \<equiv> uint (byte ((push_bit 2 F AND 0xFC) OR (drop_bit 8 A AND 0x3)))"
  shows "drop_bit 2 b0 = F"
    and "push_bit 8 (b0 AND 0x3) OR uint (byte (A AND 0xFF)) = A"
proof -
  have F: "bit F n \<Longrightarrow> n < 6" for n using int_high_bits [of F 6 n] assms(1,2) by simp (meson linorder_not_le)
  have A: "bit A n \<Longrightarrow> n < 10" for n using int_high_bits [of A 10 n] assms(3,4) by simp (meson linorder_not_le)
  have l: "bit (3::int) j \<longleftrightarrow> j < 2" "bit (0xFF::int) j \<longleftrightarrow> j < 8" for j by (simp_all only: lit_bits)
  have fc: "bit (0xFC::int) j \<longleftrightarrow> 2 \<le> j \<and> j < 8" for j
  proof -
    have "(0xFC::int) = push_bit 2 0x3F" by simp
    moreover have "bit (0x3F::int) (j - 2) \<longleftrightarrow> j - 2 < 6" by (simp only: lit_bits)
    ultimately show ?thesis by (simp only: bit_push_bit_iff_int) auto
  qed
  have b0: "bit b0 n \<longleftrightarrow> n < 8 \<and> ((2 \<le> n \<and> bit F (n - 2)) \<or> (n < 2 \<and> bit A (8 + n)))" for n
    unfolding b0_def bit_uint_byte bit_or_iff bit_and_iff bit_push_bit_iff_int bit_drop_bit_eq o_apply l fc by auto
  show "drop_bit 2 b0 = F"
  proof (rule bit_eqI)
    fix n show "bit (drop_bit 2 b0) n \<longleftrightarrow> bit F n"
      using F [of n] unfolding bit_drop_bit_eq o_apply b0 by auto
  qed
  show "push_bit 8 (b0 AND 0x3) OR uint (byte (A AND 0xFF)) = A"
  proof (rule bit_eqI)
    fix n :: nat
    have "8 \<le> n \<Longrightarrow> 8 + (n - 8) = n" by simp
    then show "bit (push_bit 8 (b0 AND 0x3) OR uint (byte (A AND 0xFF))) n \<longleftrightarrow> bit A n"
      using A [of n] unfolding bit_or_iff bit_push_bit_iff_int bit_and_iff l b0 bit_uint_byte by auto
  qed
qed

text \<open>The packets the code builds: control and resend flags, ten bits of acknowledgement.\<close>

definition packet_ok :: "CNetPacketConstruct \<Rightarrow> bool" where
  "packet_ok p \<longleftrightarrow> p_Flags p \<in> {0, NET_PACKETFLAG_CONTROL, NET_PACKETFLAG_RESEND,
       NET_PACKETFLAG_CONTROL OR NET_PACKETFLAG_RESEND} \<and>
     0 \<le> p_Ack p \<and> p_Ack p < NET_MAX_SEQUENCE \<and> 0 \<le> p_NumChunks p \<and> p_NumChunks p < 256 \<and>
     length (p_aChunkData p) + 4 \<le> NET_MAX_PAYLOAD"

definition sent_data :: "CNetPacketConstruct \<Rightarrow> i32 \<Rightarrow> bool \<Rightarrow> u8 list" where
  "sent_data p SecurityToken Sixup =
     (if \<not> Sixup \<and> SecurityToken \<noteq> NET_SECURITY_TOKEN_UNSUPPORTED
      then p_aChunkData p @ WriteSecurityToken SecurityToken else p_aChunkData p)"

definition sent_token :: "int \<Rightarrow> u8 list \<Rightarrow> bool" where
  "sent_token Flags data \<longleftrightarrow> Flags AND NET_PACKETFLAG_CONTROL \<noteq> 0 \<and> 5 \<le> length data \<and>
     (uint (mem_at data 0) = NET_CTRLMSG_CONNECT \<or> uint (mem_at data 0) = NET_CTRLMSG_TOKEN)"

lemma Send_Unpack:
  assumes pkt: "packet_ok pkt" and ctl: "p_Flags pkt AND NET_PACKETFLAG_CONTROL \<noteq> 0 \<longrightarrow> NoCompress"
  shows "\<exists>compressed. UnpackPacket (snd (SendPacket addr pkt tok Sixup NoCompress)) Sixup (Some t0) (Some r0) =
    Unpacked \<lparr>r_Packet = pkt\<lparr>p_Flags := p_Flags pkt OR (if compressed then NET_PACKETFLAG_COMPRESSION else 0),
                             p_aChunkData := sent_data pkt tok Sixup, p_aExtraData := []\<rparr>,
      r_Sixup = Sixup, r_SecurityToken = Some (if Sixup then tok else t0),
      r_ResponseToken = Some (if sent_token (p_Flags pkt) (sent_data pkt tok Sixup)
                              then ToSecurityToken (drop 1 (sent_data pkt tok Sixup)) else r0)\<rparr>"
proof -
  let ?data = "sent_data pkt tok Sixup" and ?sz = "NET_MAX_PACKETSIZE - (if Sixup then NET_PACKETHEADERSIZE + 4 else NET_PACKETHEADERSIZE)"
  obtain compressed body where pb: "packet_body (Huffman_Compress ms_Huffman) NoCompress ?data ?sz = (compressed, body)"
    by fastforce
  have len: "length ?data \<le> NET_MAX_PAYLOAD" using pkt by (auto simp: sent_data_def packet_ok_def)
  define fl where "fl = p_Flags pkt OR (if compressed then NET_PACKETFLAG_COMPRESSION else 0)"
  define F where "F = (if Sixup then to_sixup_flags fl else fl)"
  have nc: "compressed \<Longrightarrow> \<not> NoCompress" using pb by (auto simp: packet_body_def split: if_splits)
  have flags: "p_Flags pkt \<in> {0, 4, 16, 20}" using pkt by (auto simp: packet_ok_def)
  then have fl: "fl = (if compressed then p_Flags pkt OR 32 else p_Flags pkt AND NOT 32)"
    "fl AND 32 \<noteq> 0 \<longleftrightarrow> compressed" "fl AND 4 = p_Flags pkt AND 4" "fl \<in> {0, 4, 16, 20, 32, 36, 48, 52}"
    by (auto simp: fl_def)
  have F: "0 \<le> F" "F < 64" "F AND 8 = 0" "F AND 1 \<noteq> 0 \<longrightarrow> Sixup" "Sixup \<Longrightarrow> from_sixup_flags F = fl"
    using fl(4) by (auto simp: F_def to_sixup_flags_def from_sixup_flags_def)
  have body: "unpack_body (Huffman_Decompress ms_Huffman) fl body = Some ?data" "length body \<le> length ?data"
    using huff.body_roundtrip [OF pb len _ fl(2)] ctl fl(3) by auto
  define b0 where "b0 = byte ((push_bit 2 F AND 0xFC) OR (drop_bit 8 (p_Ack pkt) AND 0x3))"
  define hd where "hd = [b0, byte (p_Ack pkt AND 0xFF), byte (p_NumChunks pkt)]"
  define tk where "tk = (if Sixup then WriteSecurityToken tok else [])"
  have ack: "0 \<le> p_Ack pkt" "p_Ack pkt < NET_MAX_SEQUENCE" and num: "uint (byte (p_NumChunks pkt)) = p_NumChunks pkt"
    using pkt by (auto simp: packet_ok_def)
  have bytes: "snd (SendPacket addr pkt tok Sixup NoCompress) = hd @ tk @ body"
    using pb by (simp add: SendPacket_def sent_data_def Let_def fl(1) F_def hd_def b0_def tk_def
        del: push_bit_and drop_bit_and)
  have at: "mem_at (hd @ tk @ body) 0 = b0" "mem_at (hd @ tk @ body) 1 = byte (p_Ack pkt AND 0xFF)"
    "mem_at (hd @ tk @ body) 2 = byte (p_NumChunks pkt)"
    by (simp_all add: hd_def)
  have b0: "drop_bit 2 (uint b0) = F" "push_bit 8 (uint b0 AND 0x3) OR uint (byte (p_Ack pkt AND 0xFF)) = p_Ack pkt"
    using packet_header_bits [OF F(1,2) ack] by (simp_all add: b0_def del: push_bit_and drop_bit_and)
  have sz: "length (hd @ tk @ body) \<le> NET_MAX_PACKETSIZE" "NET_PACKETHEADERSIZE \<le> length (hd @ tk @ body)"
    using body(2) pkt by (auto simp: hd_def tk_def sent_data_def packet_ok_def split: if_splits)
  have ctrl: "fl AND NET_PACKETFLAG_CONTROL \<noteq> 0 \<longleftrightarrow> p_Flags pkt AND NET_PACKETFLAG_CONTROL \<noteq> 0"
    by (simp add: fl(3))
  have six: "(if F AND NET_PACKETFLAG_UNUSED \<noteq> 0 then True else Sixup) = Sixup" using F(4) by auto
  have dr: "drop (if Sixup then 7 else NET_PACKETHEADERSIZE) (hd @ tk @ body) = body"
    "drop 3 (hd @ tk @ body) = tk @ body" "(length (hd @ tk @ body) < (if Sixup then 7 else NET_PACKETHEADERSIZE)) = False"
    by (simp_all add: hd_def tk_def)
  have flF: "(if Sixup then from_sixup_flags F else F) = fl" using F(5) by (simp add: F_def)
  have "unpack_connected (hd @ tk @ body) Sixup (Some t0) (Some r0) =
    Unpacked \<lparr>r_Packet = \<lparr>p_Flags = fl, p_Ack = p_Ack pkt, p_NumChunks = p_NumChunks pkt, p_aChunkData = ?data,
        p_aExtraData = []\<rparr>,
      r_Sixup = Sixup, r_SecurityToken = Some (if Sixup then tok else t0),
      r_ResponseToken = Some (if sent_token (p_Flags pkt) ?data then ToSecurityToken (drop 1 ?data) else r0)\<rparr>"
    unfolding unpack_connected_def Let_def at b0 six dr flF body(1) num ctrl sent_token_def
    by (cases Sixup) (auto simp: tk_def)
  moreover have "UnpackPacket (hd @ tk @ body) Sixup (Some t0) (Some r0) =
    unpack_connected (hd @ tk @ body) Sixup (Some t0) (Some r0)"
    using sz unfolding UnpackPacket_def at b0 F(3) by (auto simp: not_less)
  ultimately show ?thesis unfolding bytes fl_def by (intro exI [of _ compressed]) (cases pkt, simp)
qed

section \<open>The token cache\<close>

abbreviation (input) NETTYPE_IPV4 :: i32 where "NETTYPE_IPV4 \<equiv> 1"
abbreviation (input) NETTYPE_IPV6 :: i32 where "NETTYPE_IPV6 \<equiv> 2"
abbreviation (input) NETTYPE_LINK_BROADCAST :: i32 where "NETTYPE_LINK_BROADCAST \<equiv> 4"

record CAddressInfo =
  ai_Addr :: NETADDR
  ai_Token :: i32
  ai_Expiry :: int

record CConnlessPacketInfo =
  cp_Addr :: NETADDR
  cp_aData :: "u8 list"
  cp_Expiry :: int

record CNetTokenCache =
  m_TokenCache :: "CAddressInfo list"
  m_ConnlessPackets :: "CConnlessPacketInfo list"

definition TokenCache_GetToken :: "CNetTokenCache \<Rightarrow> NETADDR \<Rightarrow> i32" where
  "TokenCache_GetToken c addr =
     (case find (\<lambda>i. ai_Addr i = addr) (m_TokenCache c) of
        Some i \<Rightarrow> ai_Token i | None \<Rightarrow> NET_TOKEN_NONE)"

definition TokenCache_Update :: "int \<Rightarrow> CNetTokenCache \<Rightarrow> CNetTokenCache" where
  "TokenCache_Update Now c =
     c\<lparr>m_TokenCache := filter (\<lambda>i. \<not> ai_Expiry i \<le> Now) (m_TokenCache c),
       m_ConnlessPackets := filter (\<lambda>p. \<not> cp_Expiry p \<le> Now) (m_ConnlessPackets c)\<rparr>"

text \<open>
  The loop of \<open>AddToken\<close>: send and erase what waits for \<open>NullAddr\<close>. \<open>gen k\<close> is the \<open>k\<close>-th token
  \<open>GenerateToken\<close> draws.
\<close>

fun send_waiting :: "(nat \<Rightarrow> i32) \<Rightarrow> nat \<Rightarrow> NETADDR \<Rightarrow> i32 \<Rightarrow> CConnlessPacketInfo list \<Rightarrow>
    datagram list \<times> CConnlessPacketInfo list" where
  "send_waiting gen k NullAddr Token [] = ([], [])"
| "send_waiting gen k NullAddr Token (p # ps) =
     (if cp_Addr p = NullAddr
      then let (ds, rest) = send_waiting gen (Suc k) NullAddr Token ps
           in (SendPacketConnlessWithToken7 (cp_Addr p) (cp_aData p) Token (gen k) # ds, rest)
      else let (ds, rest) = send_waiting gen k NullAddr Token ps in (ds, p # rest))"

definition TokenCache_AddToken :: "(nat \<Rightarrow> i32) \<Rightarrow> int \<Rightarrow> int \<Rightarrow> CNetTokenCache \<Rightarrow> NETADDR \<Rightarrow> i32 \<Rightarrow>
    CNetTokenCache \<times> datagram list" where
  "TokenCache_AddToken gen Now time_freq c addr Token =
     (if Token = NET_TOKEN_NONE then (c, [])
      else let NullAddr = \<lparr>na_type = na_type addr OR NETTYPE_LINK_BROADCAST, na_ip = replicate 16 0, na_port = na_port addr\<rparr>;
               (ds, rest) = send_waiting gen 0 NullAddr Token (m_ConnlessPackets c)
           in (c\<lparr>m_ConnlessPackets := rest,
                 m_TokenCache := m_TokenCache c @
                   [\<lparr>ai_Addr = addr, ai_Token = Token, ai_Expiry = Now + time_freq * 64\<rparr>]\<rparr>, ds))"

definition TokenCache_FetchToken :: "u8 list \<Rightarrow> i32 \<Rightarrow> NETADDR \<Rightarrow> datagram" where
  "TokenCache_FetchToken garbage token addr =
     SendControlMsgWithToken7 garbage addr NET_TOKEN_NONE 0 NET_CTRLMSG_TOKEN token True"

definition TokenCache_SendPacketConnless :: "u8 list \<Rightarrow> (nat \<Rightarrow> i32) \<Rightarrow> int \<Rightarrow> int \<Rightarrow> CNetTokenCache \<Rightarrow>
    NETADDR \<Rightarrow> u8 list \<Rightarrow> CNetTokenCache \<times> datagram list" where
  "TokenCache_SendPacketConnless garbage gen Now time_freq c addr data =
     (let Token = TokenCache_GetToken c addr
      in if Token \<noteq> NET_TOKEN_NONE
         then (c, [SendPacketConnlessWithToken7 addr data Token (gen 0)])
         else
           let base = na_type addr AND NOT (NETTYPE_IPV4 OR NETTYPE_IPV6);
               entry = (\<lambda>Type. if na_type addr AND Type \<noteq> 0
                               then [\<lparr>cp_Addr = addr\<lparr>na_type := base OR Type\<rparr>, cp_aData = data,
                                      cp_Expiry = Now + time_freq * 5\<rparr>] else [])
           in (c\<lparr>m_ConnlessPackets := m_ConnlessPackets c @ entry NETTYPE_IPV4 @ entry NETTYPE_IPV6\<rparr>,
               [TokenCache_FetchToken garbage (gen 0) addr]))"

definition tokens_real :: "CNetTokenCache \<Rightarrow> bool" where
  "tokens_real c \<longleftrightarrow> (\<forall>i \<in> set (m_TokenCache c). ai_Token i \<noteq> NET_TOKEN_NONE)"

lemma tokens_real_AddToken [inv_intros]:
  "tokens_real c \<Longrightarrow> tokens_real (fst (TokenCache_AddToken gen Now freq c addr Token))"
  by (auto simp: tokens_real_def TokenCache_AddToken_def Let_def split: prod.splits)

lemma tokens_real_Update [inv_intros]: "tokens_real c \<Longrightarrow> tokens_real (TokenCache_Update Now c)"
  by (auto simp: tokens_real_def TokenCache_Update_def)

lemma tokens_real_Send [inv_intros]:
  "tokens_real c \<Longrightarrow> tokens_real (fst (TokenCache_SendPacketConnless g gen Now freq c addr data))"
  by (auto simp: tokens_real_def TokenCache_SendPacketConnless_def Let_def)

lemma send_waiting_rest:
  "snd (send_waiting gen k NullAddr Token ps) = filter (\<lambda>p. cp_Addr p \<noteq> NullAddr) ps"
  by (induction ps arbitrary: k) (auto split: prod.splits simp: prod_eq_iff Let_def)

lemma GetToken_found:
  "tokens_real c \<Longrightarrow> TokenCache_GetToken c addr \<noteq> NET_TOKEN_NONE \<longleftrightarrow> addr \<in> ai_Addr ` set (m_TokenCache c)"
  by (auto simp: TokenCache_GetToken_def tokens_real_def find_None_iff find_Some_iff image_iff split: option.split)

section \<open>Properties\<close>

text \<open>
  C7: what \<open>SendPacket\<close> puts on the wire, \<open>UnpackPacket\<close> takes off it: the same acknowledgement,
  chunk count and data (with the token appended for 0.6), the same flags except for the
  compression bit, and the token of a 0.7 header, whether or not the packet was compressed.
\<close>

theorem packet_roundtrip:
  assumes "packet_ok pkt" "p_Flags pkt AND NET_PACKETFLAG_CONTROL \<noteq> 0 \<longrightarrow> NoCompress"
  shows "\<exists>r flags. UnpackPacket (snd (SendPacket addr pkt tok Sixup NoCompress)) Sixup (Some t0) (Some r0) = Unpacked r \<and>
    r_Packet r = pkt\<lparr>p_Flags := flags, p_aChunkData := sent_data pkt tok Sixup, p_aExtraData := []\<rparr> \<and>
    flags AND NOT NET_PACKETFLAG_COMPRESSION = p_Flags pkt \<and> r_Sixup r = Sixup \<and>
    r_SecurityToken r = Some (if Sixup then tok else t0)"
proof -
  let ?R = "\<lambda>c. \<lparr>r_Packet = pkt\<lparr>p_Flags := p_Flags pkt OR (if c then NET_PACKETFLAG_COMPRESSION else 0),
                             p_aChunkData := sent_data pkt tok Sixup, p_aExtraData := []\<rparr>,
      r_Sixup = Sixup, r_SecurityToken = Some (if Sixup then tok else t0),
      r_ResponseToken = Some (if sent_token (p_Flags pkt) (sent_data pkt tok Sixup)
                              then ToSecurityToken (drop 1 (sent_data pkt tok Sixup)) else r0)\<rparr>"
  obtain c where P: "UnpackPacket (snd (SendPacket addr pkt tok Sixup NoCompress)) Sixup (Some t0) (Some r0)
      = Unpacked (?R c)"
    using Send_Unpack [OF assms] by blast
  have F: "(p_Flags pkt OR (if c then NET_PACKETFLAG_COMPRESSION else 0)) AND NOT NET_PACKETFLAG_COMPRESSION
      = p_Flags pkt"
    using assms(1) by (auto simp: packet_ok_def)
  show ?thesis
    by (rule exI [of _ "?R c"], rule exI [of _ "p_Flags pkt OR (if c then NET_PACKETFLAG_COMPRESSION else 0)"],
        intro conjI P F) simp_all
qed

theorem packet_roundtrip_witness:
  "\<exists>r flags. UnpackPacket (snd (SendPacket \<lparr>na_type = 1, na_ip = replicate 16 7, na_port = 8303\<rparr>
      \<lparr>p_Flags = NET_PACKETFLAG_RESEND, p_Ack = 1000, p_NumChunks = 1, p_aChunkData = [0x40, 3, 9, 1, 2, 3], p_aExtraData = []\<rparr>
      77 False False)) False (Some 0) (Some 0) = Unpacked r \<and>
    r_Packet r = \<lparr>p_Flags = flags, p_Ack = 1000, p_NumChunks = 1,
      p_aChunkData = [0x40, 3, 9, 1, 2, 3, 0, 0, 0, 77], p_aExtraData = []\<rparr> \<and>
    flags AND NOT NET_PACKETFLAG_COMPRESSION = NET_PACKETFLAG_RESEND"
proof -
  let ?p = "\<lparr>p_Flags = NET_PACKETFLAG_RESEND, p_Ack = 1000, p_NumChunks = 1, p_aChunkData = [0x40, 3, 9, 1, 2, 3], p_aExtraData = []\<rparr>"
  have "packet_ok ?p" "p_Flags ?p AND NET_PACKETFLAG_CONTROL \<noteq> 0 \<longrightarrow> False" by (simp_all add: packet_ok_def)
  moreover have "sent_data ?p 77 False = [0x40, 3, 9, 1, 2, 3, 0, 0, 0, 77]"
    by (simp add: sent_data_def WriteSecurityToken_def uint_to_bytes_be_def)
  ultimately show ?thesis
    using packet_roundtrip [of ?p False "\<lparr>na_type = 1, na_ip = replicate 16 7, na_port = 8303\<rparr>" 77 False 0 0]
    by auto
qed

text \<open>
  A chunk header is read back as it was packed, for both formats (0.6 has a split of 4, 0.7 one
  of 6), when its size and sequence number fit; what follows it is left for the caller.
\<close>

theorem chunk_header_roundtrip:
  assumes "header_ok Split h" "Split \<in> {4, 6}"
  shows "ChunkHeader_Unpack (ChunkHeader_Pack h Split @ rest) Split = (h, rest)"
  using assms Header_roundtrip by auto

theorem chunk_header_roundtrip_witness:
  "ChunkHeader_Unpack (ChunkHeader_Pack \<lparr>h_Flags = 1, h_Size = 1023, h_Sequence = 777\<rparr> 4 @ [5]) 4
     = (\<lparr>h_Flags = 1, h_Size = 1023, h_Sequence = 777\<rparr>, [5])"
  by (rule chunk_header_roundtrip) (simp_all add: header_ok_def)

text \<open>
  among the 1024 sequence numbers, a number is in the back room of an acknowledgement exactly when
  it lies at most 512 steps behind it, counting around the wrap.
\<close>

theorem backroom_is_distance:
  assumes "0 \<le> Seq" "Seq < NET_MAX_SEQUENCE" "0 \<le> Ack" "Ack < NET_MAX_SEQUENCE"
  shows "IsSeqInBackroom Seq Ack \<longleftrightarrow> (Ack - Seq) mod NET_MAX_SEQUENCE \<le> NET_MAX_SEQUENCE div 2"
  using assms by (rule backroom_distance)

theorem backroom_is_distance_witness: "IsSeqInBackroom 1020 3"
  using backroom_is_distance [of 1020 3] by simp

lemma UnpackPacket_safe:
  "case UnpackPacket buf Sixup pTok pResp of
     Unpacked r \<Rightarrow>
       0 \<le> p_Ack (r_Packet r) \<and> p_Ack (r_Packet r) < NET_MAX_SEQUENCE \<and>
       0 \<le> p_NumChunks (r_Packet r) \<and> p_NumChunks (r_Packet r) < 256 \<and>
       length (p_aChunkData (r_Packet r)) \<le> 1397 \<and>
       (p_Flags (r_Packet r) AND NET_PACKETFLAG_COMPRESSION \<noteq> 0 \<longrightarrow>
          length (p_aChunkData (r_Packet r)) \<le> NET_MAX_PAYLOAD \<and>
          p_Flags (r_Packet r) AND NET_PACKETFLAG_CONTROL = 0)
   | Null_write \<Rightarrow> pResp = None \<and> \<not> (Sixup \<and> drop_bit 2 (uint (mem_at buf 0)) AND NET_PACKETFLAG_UNUSED = 0)
   | Refused \<Rightarrow> True"
proof -
  have ack: "0 \<le> push_bit 8 (x AND 0x3) OR uint y \<and> push_bit 8 (x AND 0x3) OR uint y < NET_MAX_SEQUENCE"
    for x :: int and y :: u8
  proof -
    have l: "bit (3::int) j \<longleftrightarrow> j < 2" for j by (simp only: lit_bits)
    have "take_bit 10 (push_bit 8 (x AND 0x3) OR uint y) = push_bit 8 (x AND 0x3) OR uint y" (is "take_bit 10 ?v = ?v")
    proof (rule bit_eqI)
      fix n
      have "bit (uint y) n \<Longrightarrow> n < 8" using bit_imp_le_length [of y n] by (simp add: bit_uint_iff)
      then show "bit (take_bit 10 ?v) n \<longleftrightarrow> bit ?v n"
        unfolding bit_take_bit_iff bit_or_iff bit_push_bit_iff_int bit_and_iff l by auto
    qed
    then show ?thesis using take_bit_nonnegative [of 10 ?v] take_bit_int_less_exp [of 10 ?v] by simp
  qed
  have six: "from_sixup_flags F AND NET_PACKETFLAG_CONTROL \<noteq> 0 \<Longrightarrow> F AND 1 \<noteq> 0" for F
    by (auto simp: from_sixup_flags_def split: if_splits)
  have connless: "(8::int) AND 32 = 0" "((8::int) OR 64) AND 32 = 0" by simp_all
  show ?thesis
  proof (cases "length buf < NET_PACKETHEADERSIZE \<or> length buf > NET_MAX_PACKETSIZE")
    case True
    then show ?thesis by (simp add: UnpackPacket_def)
  next
    case False
    show ?thesis
    proof (cases "drop_bit 2 (uint (mem_at buf 0)) AND NET_PACKETFLAG_CONNLESS \<noteq> 0")
      case True
      with False show ?thesis
        by (auto simp: UnpackPacket_def unpack_connless_def Let_def)
    next
      case conn: False
      define F where "F = drop_bit 2 (uint (mem_at buf 0))"
      define sx where "sx = (if F AND NET_PACKETFLAG_UNUSED \<noteq> 0 then True else Sixup)"
      define fl where "fl = (if sx then from_sixup_flags F else F)"
      define ds where "ds = (if sx then 7 else NET_PACKETHEADERSIZE)"
      have up: "UnpackPacket buf Sixup pTok pResp = unpack_connected buf Sixup pTok pResp"
        using False conn by (auto simp: UnpackPacket_def)
      show ?thesis
      proof (cases "(sx \<and> pTok = None) \<or> length buf < ds")
        case True
        then show ?thesis unfolding up unpack_connected_def Let_def F_def [symmetric] sx_def [symmetric] ds_def [symmetric]
          by auto
      next
        case go: False
        show ?thesis
        proof (cases "unpack_body (Huffman_Decompress ms_Huffman) fl (drop ds buf)")
          case None
          with go show ?thesis
            unfolding up unpack_connected_def Let_def F_def [symmetric] sx_def [symmetric] ds_def [symmetric] fl_def [symmetric]
            by auto
        next
          case (Some data)
          have "length data \<le> 1397 \<and> (fl AND NET_PACKETFLAG_COMPRESSION \<noteq> 0 \<longrightarrow>
              length data \<le> NET_MAX_PAYLOAD \<and> fl AND NET_PACKETFLAG_CONTROL = 0)"
            using Some False huff.decompress_length [of "drop ds buf" NET_MAX_PAYLOAD data]
            by (auto simp: unpack_body_def ds_def split: if_splits)
          moreover have "0 \<le> uint (mem_at buf 2)" "uint (mem_at buf 2) < 256" by (rule byte_bounds)+
          moreover have "fl AND NET_PACKETFLAG_CONTROL \<noteq> 0 \<Longrightarrow> \<not> (Sixup \<and> F AND NET_PACKETFLAG_UNUSED = 0)"
            using six [of F] by (auto simp: fl_def sx_def)
          ultimately show ?thesis
            using go Some ack [of "uint (mem_at buf 0)" "mem_at buf 1"]
            unfolding up unpack_connected_def Let_def F_def [symmetric] sx_def [symmetric] ds_def [symmetric] fl_def [symmetric]
            by auto
        qed
      qed
    qed
  qed
qed

text \<open>
  C36: for every datagram, whatever the caller passes: an accepted packet has an acknowledgement of ten
  bits, a chunk count of one byte and at most 1397 bytes of data (1394 when decompressed), and control
  packets are never compressed. The unguarded write of the response token needs a control packet, so
  it cannot happen in the call without that pointer, which is made for 0.7 packets whose header has
  the lowest flag clear.
\<close>

theorem unpack_packet_safe:
  "case UnpackPacket buf Sixup pTok pResp of
     Unpacked r \<Rightarrow>
       0 \<le> p_Ack (r_Packet r) \<and> p_Ack (r_Packet r) < NET_MAX_SEQUENCE \<and>
       0 \<le> p_NumChunks (r_Packet r) \<and> p_NumChunks (r_Packet r) < 256 \<and>
       length (p_aChunkData (r_Packet r)) \<le> 1397 \<and>
       (p_Flags (r_Packet r) AND NET_PACKETFLAG_COMPRESSION \<noteq> 0 \<longrightarrow>
          length (p_aChunkData (r_Packet r)) \<le> NET_MAX_PAYLOAD \<and>
          p_Flags (r_Packet r) AND NET_PACKETFLAG_CONTROL = 0)
   | Null_write \<Rightarrow> pResp = None \<and> \<not> (Sixup \<and> drop_bit 2 (uint (mem_at buf 0)) AND NET_PACKETFLAG_UNUSED = 0)
   | Refused \<Rightarrow> True"
  by (rule UnpackPacket_safe)

lemma unpack_packet_safe_witness:
  "\<exists>r. UnpackPacket [0x10, 7, 0, 0] False None None = Unpacked r \<and> p_Ack (r_Packet r) = 7 \<and>
     p_Ack (r_Packet r) < NET_MAX_SEQUENCE \<and> length (p_aChunkData (r_Packet r)) \<le> 1397"
  using unpack_packet_safe [where buf = "[0x10, 7, 0, 0]" and Sixup = False and pTok = None and pResp = None]
  by (simp add: UnpackPacket_def unpack_connected_def unpack_body_def Let_def)

text \<open>
  The token cache never holds the token that stands for none, so a lookup finds a token exactly for
  the cached addresses; adding a token sends every packet that waits for its broadcast address and
  keeps the others in order.
\<close>

theorem token_cache_consistent:
  assumes "tokens_real c"
  shows "let (c', sent) = TokenCache_AddToken gen Now freq c addr Token;
             NullAddr = \<lparr>na_type = na_type addr OR NETTYPE_LINK_BROADCAST, na_ip = replicate 16 0, na_port = na_port addr\<rparr>
         in tokens_real c' \<and>
            (TokenCache_GetToken c' a \<noteq> NET_TOKEN_NONE \<longleftrightarrow>
               TokenCache_GetToken c a \<noteq> NET_TOKEN_NONE \<or> (a = addr \<and> Token \<noteq> NET_TOKEN_NONE)) \<and>
            (Token \<noteq> NET_TOKEN_NONE \<longrightarrow>
               m_ConnlessPackets c' = filter (\<lambda>p. cp_Addr p \<noteq> NullAddr) (m_ConnlessPackets c) \<and>
               length sent = length (filter (\<lambda>p. cp_Addr p = NullAddr) (m_ConnlessPackets c)))"
proof -
  have len: "length (fst (send_waiting gen k NullAddr Token ps)) = length (filter (\<lambda>p. cp_Addr p = NullAddr) ps)"
    for k NullAddr ps by (induction ps arbitrary: k) (simp_all add: Let_def case_prod_beta)
  obtain c' sent where add: "TokenCache_AddToken gen Now freq c addr Token = (c', sent)" by fastforce
  have real: "tokens_real c'" using tokens_real_AddToken [OF assms, of gen Now freq addr Token] by (simp add: add)
  have "ai_Addr ` set (m_TokenCache c') = (if Token \<noteq> NET_TOKEN_NONE then {addr} else {}) \<union> ai_Addr ` set (m_TokenCache c)"
    using add by (auto simp: TokenCache_AddToken_def Let_def split: if_splits prod.splits)
  then have "TokenCache_GetToken c' a \<noteq> NET_TOKEN_NONE \<longleftrightarrow>
      TokenCache_GetToken c a \<noteq> NET_TOKEN_NONE \<or> (a = addr \<and> Token \<noteq> NET_TOKEN_NONE)"
    unfolding GetToken_found [OF real] GetToken_found [OF assms] by auto
  moreover have "m_ConnlessPackets c' = snd (send_waiting gen 0 n Token (m_ConnlessPackets c)) \<and>
      sent = fst (send_waiting gen 0 n Token (m_ConnlessPackets c))"
    if "Token \<noteq> NET_TOKEN_NONE" "n = \<lparr>na_type = na_type addr OR NETTYPE_LINK_BROADCAST, na_ip = replicate 16 0, na_port = na_port addr\<rparr>" for n
    using add that by (auto simp: TokenCache_AddToken_def Let_def split: prod.splits)
  ultimately show ?thesis
    unfolding add Let_def prod.case using real by (auto simp: send_waiting_rest len)
qed

theorem token_cache_consistent_witness:
  "\<exists>c. tokens_real c \<and> TokenCache_GetToken c \<lparr>na_type = 1, na_ip = [], na_port = 1\<rparr> \<noteq> NET_TOKEN_NONE"
  using token_cache_consistent [of "\<lparr>m_TokenCache = [], m_ConnlessPackets = []\<rparr>" "\<lambda>_. 0" 0 1
      "\<lparr>na_type = 1, na_ip = [], na_port = 1\<rparr>" 5 "\<lparr>na_type = 1, na_ip = [], na_port = 1\<rparr>"]
  by (auto simp: tokens_real_def Let_def split: prod.splits)

end
