(* ===== verification/RingBuffer.thy ===== *)
theory RingBuffer
  imports Prelude
begin

text \<open>
  The ring buffer of \<^verbatim>\<open>src/src/engine/shared/ringbuffer.cpp\<close>. An item pointer is the byte
  offset of the item in the buffer, the null pointer \<open>None\<close>; the headers the code keeps inside
  the buffer are a function from offsets to items. A user pointer (\<open>pItem + 1\<close>) is named by its item.
\<close>

section \<open>State and operations\<close>

record CItem =
  it_Prev :: "nat option"
  it_Next :: "nat option"
  it_Free :: bool
  it_Size :: nat

record CRingBuffer =
  rb_Items :: "nat \<Rightarrow> CItem"
  rb_Produce :: nat
  rb_Consume :: nat
  rb_First :: nat
  rb_Last :: nat
  rb_Size :: nat
  rb_Recycle :: bool

text \<open>\<open>sizeof(CItem)\<close>: two pointers and two ints on a 64-bit machine.\<close>

definition ITEM_SIZE :: nat where
  "ITEM_SIZE = 24"

definition update_item :: "nat \<Rightarrow> (CItem \<Rightarrow> CItem) \<Rightarrow> CRingBuffer \<Rightarrow> CRingBuffer" where
  "update_item i f rb = rb\<lparr>rb_Items := (rb_Items rb)(i := f (rb_Items rb i))\<rparr>"

definition is_free :: "CRingBuffer \<Rightarrow> nat \<Rightarrow> bool" where
  "is_free rb i = it_Free (rb_Items rb i)"

definition NextBlock :: "CRingBuffer \<Rightarrow> nat \<Rightarrow> nat" where
  "NextBlock rb i = (case it_Next (rb_Items rb i) of Some n \<Rightarrow> n | None \<Rightarrow> rb_First rb)"

definition PrevBlock :: "CRingBuffer \<Rightarrow> nat \<Rightarrow> nat" where
  "PrevBlock rb i = (case it_Prev (rb_Items rb i) of Some p \<Rightarrow> p | None \<Rightarrow> rb_Last rb)"

definition MergeBack :: "CRingBuffer \<Rightarrow> nat \<Rightarrow> CRingBuffer \<times> nat" where
  "MergeBack rb i =
     (case it_Prev (rb_Items rb i) of
        None \<Rightarrow> (rb, i)
      | Some p \<Rightarrow>
          if \<not> is_free rb i \<or> \<not> is_free rb p then (rb, i)
          else
            let item = rb_Items rb i;
                rb = update_item p (\<lambda>x. x\<lparr>it_Size := it_Size x + it_Size item, it_Next := it_Next item\<rparr>) rb;
                rb = (case it_Next item of
                        Some n \<Rightarrow> update_item n (\<lambda>x. x\<lparr>it_Prev := Some p\<rparr>) rb
                      | None \<Rightarrow> rb\<lparr>rb_Last := p\<rparr>);
                rb = (if i = rb_Produce rb then rb\<lparr>rb_Produce := p\<rparr> else rb);
                rb = (if i = rb_Consume rb then rb\<lparr>rb_Consume := p\<rparr> else rb)
            in (rb, p))"

definition RingBuffer_Clear :: "CRingBuffer \<Rightarrow> CRingBuffer" where
  "RingBuffer_Clear rb =
     rb\<lparr>rb_First := 0,
        rb_Items := (rb_Items rb)(0 := \<lparr>it_Prev = None, it_Next = None, it_Free = True, it_Size = rb_Size rb\<rparr>),
        rb_Last := 0, rb_Produce := 0, rb_Consume := 0\<rparr>"

definition RingBuffer_Init :: "nat \<Rightarrow> bool \<Rightarrow> CRingBuffer \<Rightarrow> CRingBuffer" where
  "RingBuffer_Init Size Recycle rb =
     RingBuffer_Clear (rb\<lparr>rb_Size := Size div ITEM_SIZE * ITEM_SIZE, rb_Recycle := Recycle\<rparr>)"

text \<open>
  The loop of \<open>PopFirst\<close> over the free blocks before the producer. The fuel is the number of
  items the buffer can hold; \<open>None\<close> would be a loop that does not end.
\<close>

fun pop_skip :: "nat \<Rightarrow> CRingBuffer \<Rightarrow> CRingBuffer option" where
  "pop_skip 0 rb = None"
| "pop_skip (Suc fuel) rb =
     (if is_free rb (rb_Consume rb) \<and> rb_Consume rb \<noteq> rb_Produce rb
      then let (rb, i) = MergeBack rb (rb_Consume rb)
           in pop_skip fuel (rb\<lparr>rb_Consume := NextBlock rb i\<rparr>)
      else Some rb)"

definition max_items :: "CRingBuffer \<Rightarrow> nat" where
  "max_items rb = rb_Size rb div ITEM_SIZE + 1"

text \<open>
  \<open>Some (None, rb)\<close> is the return value 0; \<open>Some (Some i, rb)\<close> the value 1 after the item \<open>i\<close>
  was handed to the callback and freed.
\<close>

definition PopFirst :: "CRingBuffer \<Rightarrow> (nat option \<times> CRingBuffer) option" where
  "PopFirst rb =
     (if is_free rb (rb_Consume rb) then Some (None, rb)
      else
        let c = rb_Consume rb;
            rb = update_item c (\<lambda>x. x\<lparr>it_Free := True\<rparr>) rb;
            (rb, i) = MergeBack rb c;
            rb = rb\<lparr>rb_Consume := NextBlock rb i\<rparr>
        in map_option (\<lambda>rb. (Some c, fst (MergeBack rb (rb_Consume rb)))) (pop_skip (max_items rb) rb))"

definition find_block :: "CRingBuffer \<Rightarrow> nat \<Rightarrow> nat option" where
  "find_block rb WantedSize =
     (if is_free rb (rb_Produce rb)
      then if WantedSize \<le> it_Size (rb_Items rb (rb_Produce rb)) then Some (rb_Produce rb)
           else if is_free rb (rb_First rb) \<and> WantedSize \<le> it_Size (rb_Items rb (rb_First rb))
             then Some (rb_First rb)
           else None
      else None)"

definition split_block :: "CRingBuffer \<Rightarrow> nat \<Rightarrow> nat \<Rightarrow> CRingBuffer" where
  "split_block rb b WantedSize =
     (let item = rb_Items rb b
      in if WantedSize + ITEM_SIZE < it_Size item
         then
           let n = b + WantedSize;
               rb = update_item n (\<lambda>_. \<lparr>it_Prev = Some b, it_Next = it_Next item, it_Free = True,
                                       it_Size = it_Size item - WantedSize\<rparr>) rb;
               rb = (case it_Next item of
                       Some m \<Rightarrow> update_item m (\<lambda>x. x\<lparr>it_Prev := Some n\<rparr>) rb
                     | None \<Rightarrow> rb);
               rb = update_item b (\<lambda>x. x\<lparr>it_Next := Some n, it_Size := WantedSize\<rparr>) rb
           in if it_Next item = None then rb\<lparr>rb_Last := n\<rparr> else rb
         else rb)"

definition take_block :: "CRingBuffer \<Rightarrow> nat \<Rightarrow> nat \<Rightarrow> CRingBuffer" where
  "take_block rb b WantedSize =
     (let rb = split_block rb b WantedSize;
          rb = rb\<lparr>rb_Produce := NextBlock rb b\<rparr>
      in update_item b (\<lambda>x. x\<lparr>it_Free := False\<rparr>) rb)"

definition wanted_size :: "nat \<Rightarrow> nat" where
  "wanted_size Size = (Size + ITEM_SIZE + ITEM_SIZE - 1) div ITEM_SIZE * ITEM_SIZE"

text \<open>
  The loop of \<open>Allocate\<close>: find a block, or recycle the oldest item and try again. The outer
  \<open>None\<close> is a loop that does not end, the inner one the null pointer.
\<close>

fun allocate_loop :: "nat \<Rightarrow> CRingBuffer \<Rightarrow> nat \<Rightarrow> (nat option \<times> CRingBuffer) option" where
  "allocate_loop 0 rb WantedSize = None"
| "allocate_loop (Suc fuel) rb WantedSize =
     (case find_block rb WantedSize of
        Some b \<Rightarrow> Some (Some b, take_block rb b WantedSize)
      | None \<Rightarrow>
          if rb_Recycle rb
          then case PopFirst rb of
                 None \<Rightarrow> None
               | Some (None, rb) \<Rightarrow> Some (None, rb)
               | Some (Some _, rb) \<Rightarrow> allocate_loop fuel rb WantedSize
          else Some (None, rb))"

definition Allocate :: "CRingBuffer \<Rightarrow> nat \<Rightarrow> (nat option \<times> CRingBuffer) option" where
  "Allocate rb Size =
     (if wanted_size Size > rb_Size rb then Some (None, rb)
      else allocate_loop (max_items rb + 1) rb (wanted_size Size))"

text \<open>The loops of \<open>Prev\<close> and \<open>Next\<close>: \<open>Some None\<close> is the null pointer.\<close>

fun next_loop :: "nat \<Rightarrow> CRingBuffer \<Rightarrow> nat \<Rightarrow> nat option option" where
  "next_loop 0 rb i = None"
| "next_loop (Suc fuel) rb i =
     (let i = NextBlock rb i
      in if i = rb_Produce rb then Some None
         else if \<not> is_free rb i then Some (Some i)
         else next_loop fuel rb i)"

fun prev_loop :: "nat \<Rightarrow> CRingBuffer \<Rightarrow> nat \<Rightarrow> nat option option" where
  "prev_loop 0 rb i = None"
| "prev_loop (Suc fuel) rb i =
     (let i = PrevBlock rb i
      in if i = rb_Produce rb then Some None
         else if \<not> is_free rb i then Some (Some i)
         else prev_loop fuel rb i)"

definition RingBuffer_Next :: "CRingBuffer \<Rightarrow> nat \<Rightarrow> nat option option" where
  "RingBuffer_Next rb i = next_loop (max_items rb) rb i"

definition RingBuffer_Prev :: "CRingBuffer \<Rightarrow> nat \<Rightarrow> nat option option" where
  "RingBuffer_Prev rb i = prev_loop (max_items rb) rb i"

definition RingBuffer_First :: "CRingBuffer \<Rightarrow> nat option" where
  "RingBuffer_First rb = (if is_free rb (rb_Consume rb) then None else Some (rb_Consume rb))"

definition RingBuffer_Last :: "CRingBuffer \<Rightarrow> nat option option" where
  "RingBuffer_Last rb = RingBuffer_Prev rb (rb_Produce rb)"

section \<open>The blocks tile the buffer\<close>

text \<open>
  The items \<open>as\<close> are doubly linked in this order and lie back to back: \<open>p\<close> and \<open>n\<close> are the
  links out of the chain, \<open>e\<close> the offset behind it.
\<close>

fun chain :: "(nat \<Rightarrow> CItem) \<Rightarrow> nat option \<Rightarrow> nat list \<Rightarrow> nat option \<Rightarrow> nat \<Rightarrow> bool" where
  "chain I p [] n e \<longleftrightarrow> True"
| "chain I p (a # as) n e \<longleftrightarrow>
     it_Prev (I a) = p \<and> it_Next (I a) = (if as = [] then n else Some (hd as)) \<and>
     a + it_Size (I a) = (if as = [] then e else hd as) \<and> ITEM_SIZE \<le> it_Size (I a) \<and>
     chain I (Some a) as n e"

lemma chain_append:
  "chain I p (xs @ ys) n e \<longleftrightarrow>
     chain I p xs (if ys = [] then n else Some (hd ys)) (if ys = [] then e else hd ys) \<and>
     chain I (if xs = [] then p else Some (last xs)) ys n e"
  by (induction xs arbitrary: p) (auto simp: hd_append)

lemma chain_cong:
  "(\<And>a. a \<in> set as \<Longrightarrow> it_Prev (I' a) = it_Prev (I a) \<and> it_Next (I' a) = it_Next (I a) \<and> it_Size (I' a) = it_Size (I a)) \<Longrightarrow>
     chain I' p as n e \<longleftrightarrow> chain I p as n e"
  by (induction as arbitrary: p) auto

lemma chain_increasing:
  "chain I p as n e \<Longrightarrow> sorted_wrt (<) as \<and> (\<forall>a \<in> set as. a + ITEM_SIZE \<le> e)"
proof (induction as arbitrary: p)
  case (Cons a as)
  then have IH: "sorted_wrt (<) as" "\<forall>b \<in> set as. b + ITEM_SIZE \<le> e" by auto
  have step: "a + ITEM_SIZE \<le> (if as = [] then e else hd as)" using Cons.prems by auto
  have "a < b \<and> a + ITEM_SIZE \<le> e" if "b \<in> set as" for b
  proof -
    have "hd as \<le> b" using IH(1) that by (cases as) auto
    moreover have "a + ITEM_SIZE \<le> hd as" using step that by (auto split: if_splits)
    moreover have "0 < ITEM_SIZE" by (simp add: ITEM_SIZE_def)
    ultimately show ?thesis using IH(2) that by fastforce
  qed
  then show ?case using IH step by (cases as) auto
qed simp

lemma chain_distinct: "chain I p as n e \<Longrightarrow> distinct as"
  using chain_increasing [of I p as n e] strict_sorted_iff by auto

lemma chain_length: "chain I p as n e \<Longrightarrow> as \<noteq> [] \<Longrightarrow> hd as + ITEM_SIZE * length as \<le> e"
proof (induction as arbitrary: p)
  case (Cons a as)
  then have step: "a + ITEM_SIZE \<le> (if as = [] then e else hd as)" by auto
  show ?case
  proof (cases "as = []")
    case True
    with step show ?thesis by simp
  next
    case False
    with Cons have "hd as + ITEM_SIZE * length as \<le> e" by auto
    with step False show ?thesis by simp
  qed
qed simp

text \<open>The ring \<open>rb\<close> consists of the blocks \<open>bs\<close>, in the order of their offsets.\<close>

definition ring :: "CRingBuffer \<Rightarrow> nat list \<Rightarrow> bool" where
  "ring rb bs \<longleftrightarrow> bs \<noteq> [] \<and> rb_First rb = hd bs \<and> hd bs = 0 \<and> rb_Last rb = last bs \<and>
     chain (rb_Items rb) None bs None (rb_Size rb)"

lemma ring_links:
  assumes "ring rb (xs @ a # ys)"
  shows "it_Next (rb_Items rb a) = (if ys = [] then None else Some (hd ys))"
    and "it_Prev (rb_Items rb a) = (if xs = [] then None else Some (last xs))"
  using assms by (auto simp: ring_def chain_append)

lemma ring_distinct: "ring rb bs \<Longrightarrow> distinct bs"
  unfolding ring_def by (auto dest: chain_distinct)

lemma ring_length: "ring rb bs \<Longrightarrow> ITEM_SIZE * length bs \<le> rb_Size rb"
  unfolding ring_def using chain_length [of "rb_Items rb" None bs None "rb_Size rb"] by auto

lemma NextBlock_ring:
  assumes "ring rb (xs @ a # ys)"
  shows "NextBlock rb a = (if ys = [] then hd (xs @ [a]) else hd ys)"
  using ring_links(1) [OF assms] assms by (auto simp: NextBlock_def ring_def hd_append)

lemma PrevBlock_ring:
  assumes "ring rb (xs @ a # ys)"
  shows "PrevBlock rb a = (if xs = [] then last (a # ys) else last xs)"
  using ring_links(2) [OF assms] assms by (auto simp: PrevBlock_def ring_def)

lemma MergeBack_stays:
  assumes "ring rb (xs @ a # ys)" "xs = [] \<or> \<not> is_free rb a \<or> \<not> is_free rb (last xs)"
  shows "MergeBack rb a = (rb, a)"
  using ring_links(2) [OF assms(1)] assms(2) by (auto simp: MergeBack_def)

text \<open>Two free neighbours become one block; no other block changes.\<close>

lemma MergeBack_merges:
  assumes r: "ring rb (xs @ p # a # ys)" and free: "is_free rb p" "is_free rb a"
  obtains rb' where "MergeBack rb a = (rb', p)" "ring rb' (xs @ p # ys)"
    "\<And>b. b \<noteq> a \<Longrightarrow> is_free rb' b = is_free rb b"
    "rb_Produce rb' = (if rb_Produce rb = a then p else rb_Produce rb)"
    "rb_Consume rb' = (if rb_Consume rb = a then p else rb_Consume rb)"
    "rb_Size rb' = rb_Size rb" "rb_Recycle rb' = rb_Recycle rb"
    "\<And>b. b \<notin> {p, a} \<Longrightarrow> it_Size (rb_Items rb' b) = it_Size (rb_Items rb b)"
proof -
  let ?I = "rb_Items rb"
  have prev: "it_Prev (?I a) = Some p" and nxt: "it_Next (?I a) = (if ys = [] then None else Some (hd ys))"
    using ring_links [of rb "xs @ [p]" a ys] r by simp_all
  have d: "distinct (xs @ p # a # ys)" using r by (rule ring_distinct)
  obtain rb' where m: "MergeBack rb a = (rb', p)" using prev free by (auto simp: MergeBack_def Let_def)
  then have rb': "rb' = fst (MergeBack rb a)" by simp
  have I': "rb_Items rb' =
      (if ys = [] then ?I(p := (?I p)\<lparr>it_Size := it_Size (?I p) + it_Size (?I a), it_Next := None\<rparr>)
       else (?I(p := (?I p)\<lparr>it_Size := it_Size (?I p) + it_Size (?I a), it_Next := Some (hd ys)\<rparr>))
              (hd ys := (?I (hd ys))\<lparr>it_Prev := Some p\<rparr>))"
    using prev free nxt d by (cases ys) (auto simp: rb' MergeBack_def Let_def update_item_def)
  have others: "rb_First rb' = rb_First rb" "rb_Last rb' = (if ys = [] then p else rb_Last rb)"
    "rb_Produce rb' = (if rb_Produce rb = a then p else rb_Produce rb)"
    "rb_Consume rb' = (if rb_Consume rb = a then p else rb_Consume rb)"
    "rb_Size rb' = rb_Size rb" "rb_Recycle rb' = rb_Recycle rb"
    using prev free nxt by (auto simp: rb' MergeBack_def Let_def update_item_def)
  have same: "it_Prev (rb_Items rb' b) = it_Prev (?I b) \<and> it_Next (rb_Items rb' b) = it_Next (?I b) \<and>
      it_Size (rb_Items rb' b) = it_Size (?I b)" if "b \<noteq> p" "ys = [] \<or> b \<noteq> hd ys" for b
    using that by (auto simp: I')
  have cx: "chain ?I None xs (Some p) p" and cp: "it_Prev (?I p) = (if xs = [] then None else Some (last xs))"
    "p + it_Size (?I p) = a" "ITEM_SIZE \<le> it_Size (?I p)"
    and ca: "a + it_Size (?I a) = (if ys = [] then rb_Size rb else hd ys)"
    and cy: "chain ?I (Some a) ys None (rb_Size rb)"
    using r by (auto simp: ring_def chain_append)
  have "chain (rb_Items rb') None xs (Some p) p \<longleftrightarrow> chain ?I None xs (Some p) p"
    using d by (intro chain_cong same) auto
  moreover have "chain (rb_Items rb') (Some p) ys None (rb_Size rb)"
  proof (cases ys)
    case (Cons y ys')
    have "chain (rb_Items rb') (Some y) ys' None (rb_Size rb) \<longleftrightarrow> chain ?I (Some y) ys' None (rb_Size rb)"
      using d Cons by (intro chain_cong same) auto
    with cy d Cons show ?thesis by (auto simp: I')
  qed simp
  moreover have "it_Prev (rb_Items rb' p) = it_Prev (?I p)"
    "it_Next (rb_Items rb' p) = (if ys = [] then None else Some (hd ys))"
    "it_Size (rb_Items rb' p) = it_Size (?I p) + it_Size (?I a)"
    using d by (cases ys; auto simp: I')+
  ultimately have "ring rb' (xs @ p # ys)"
    using r cx cp ca others by (auto simp: ring_def chain_append hd_append)
  moreover have "is_free rb' b = is_free rb b" if "b \<noteq> a" for b
    using that by (auto simp: is_free_def I')
  moreover have "it_Size (rb_Items rb' b) = it_Size (?I b)" if "b \<notin> {p, a}" for b
    using that by (auto simp: I')
  ultimately show ?thesis using that m others by blast
qed

lemma ring_update_free: "ring rb bs \<Longrightarrow> ring (update_item a (\<lambda>x. x\<lparr>it_Free := f\<rparr>) rb) bs"
proof -
  assume "ring rb bs"
  moreover have "chain (rb_Items (update_item a (\<lambda>x. x\<lparr>it_Free := f\<rparr>) rb)) None bs None (rb_Size rb)
      \<longleftrightarrow> chain (rb_Items rb) None bs None (rb_Size rb)"
    by (rule chain_cong) (simp add: update_item_def)
  ultimately show ?thesis by (simp add: ring_def update_item_def)
qed

lemma ring_pointers [simp]:
  "ring (rb\<lparr>rb_Consume := c\<rparr>) bs = ring rb bs" "ring (rb\<lparr>rb_Produce := c\<rparr>) bs = ring rb bs"
  by (simp_all add: ring_def)

lemma is_free_update [simp]:
  "is_free (update_item a (\<lambda>x. x\<lparr>it_Free := f\<rparr>) rb) b = (if b = a then f else is_free rb b)"
  "is_free (rb\<lparr>rb_Consume := c\<rparr>) b = is_free rb b" "is_free (rb\<lparr>rb_Produce := c\<rparr>) b = is_free rb b"
  by (simp_all add: is_free_def update_item_def)

lemma update_item_simps [simp]:
  "rb_Produce (update_item a f rb) = rb_Produce rb" "rb_Consume (update_item a f rb) = rb_Consume rb"
  "rb_First (update_item a f rb) = rb_First rb" "rb_Last (update_item a f rb) = rb_Last rb"
  "rb_Size (update_item a f rb) = rb_Size rb" "rb_Recycle (update_item a f rb) = rb_Recycle rb"
  by (simp_all add: update_item_def)

text \<open>A block that is split leaves its rest behind as a free block.\<close>

lemma split_block_splits:
  assumes r: "ring rb (xs @ a # ys)" and w: "ITEM_SIZE \<le> w" "w + ITEM_SIZE < it_Size (rb_Items rb a)"
  shows "ring (split_block rb a w) (xs @ a # (a + w) # ys)" "is_free (split_block rb a w) (a + w)"
    and "b \<in> set (xs @ a # ys) \<Longrightarrow> is_free (split_block rb a w) b = is_free rb b"
    and "it_Size (rb_Items (split_block rb a w) a) = w" and "a + w \<notin> set (xs @ a # ys)"
    and "b \<in> set (xs @ ys) \<Longrightarrow> it_Size (rb_Items (split_block rb a w) b) = it_Size (rb_Items rb b)"
    and "rb_Consume (split_block rb a w) = rb_Consume rb" "rb_Size (split_block rb a w) = rb_Size rb"
    and "rb_Recycle (split_block rb a w) = rb_Recycle rb"
proof -
  let ?I = "rb_Items rb" and ?n = "a + w" and ?rb = "split_block rb a w"
  have d: "distinct (xs @ a # ys)" using r by (rule ring_distinct)
  have inc: "sorted_wrt (<) (xs @ a # ys)"
    using r chain_increasing [of ?I None "xs @ a # ys" None "rb_Size rb"] by (simp add: ring_def)
  have nxt: "it_Next (?I a) = (if ys = [] then None else Some (hd ys))" using ring_links(1) [OF r] .
  have cx: "chain ?I None xs (Some a) a" and ca: "it_Prev (?I a) = (if xs = [] then None else Some (last xs))"
    "a + it_Size (?I a) = (if ys = [] then rb_Size rb else hd ys)"
    and cy: "chain ?I (Some a) ys None (rb_Size rb)"
    using r by (auto simp: ring_def chain_append)
  have pos: "0 < ITEM_SIZE" by (simp add: ITEM_SIZE_def)
  have fresh_ys: "?n < b" if "b \<in> set ys" for b
  proof -
    have "hd ys \<le> b" using that inc by (cases ys) (auto simp: sorted_wrt_append)
    moreover have "?n < hd ys" using ca(2) that w by (auto split: if_splits)
    ultimately show ?thesis by simp
  qed
  have fresh_xs: "b < a" if "b \<in> set xs" for b using inc that by (auto simp: sorted_wrt_append)
  show fresh: "?n \<notin> set (xs @ a # ys)" using fresh_ys fresh_xs w pos by fastforce
  define N where "N = \<lparr>it_Prev = Some a, it_Next = it_Next (?I a), it_Free = True, it_Size = it_Size (?I a) - w\<rparr>"
  have I': "rb_Items ?rb =
      (if ys = [] then (?I(?n := N))(a := (?I a)\<lparr>it_Next := Some ?n, it_Size := w\<rparr>)
       else ((?I(?n := N))(hd ys := (?I (hd ys))\<lparr>it_Prev := Some ?n\<rparr>))(a := (?I a)\<lparr>it_Next := Some ?n, it_Size := w\<rparr>))"
    using w nxt d fresh pos fresh_ys [of "hd ys"]
    by (cases ys) (auto simp: split_block_def update_item_def Let_def N_def fun_upd_def fun_eq_iff)
  have others: "rb_First ?rb = rb_First rb" "rb_Last ?rb = (if ys = [] then ?n else rb_Last rb)"
    "rb_Size ?rb = rb_Size rb"
    using w nxt by (auto simp: split_block_def Let_def)
  show "rb_Consume ?rb = rb_Consume rb" "rb_Size ?rb = rb_Size rb" "rb_Recycle ?rb = rb_Recycle rb"
    using w nxt by (auto simp: split_block_def Let_def)
  have n_hd: "ys \<noteq> [] \<Longrightarrow> hd ys \<noteq> a \<and> hd ys \<noteq> ?n" using fresh_ys d by (cases ys) auto
  have na: "?n \<noteq> a" using w pos by simp
  have free: "it_Free (rb_Items ?rb j) = (if j = ?n then True else it_Free (?I j))" for j
    using n_hd na by (cases "ys = []") (simp_all add: I' N_def)
  show "is_free ?rb ?n" by (simp only: is_free_def free) simp
  show "is_free ?rb b = is_free rb b" if "b \<in> set (xs @ a # ys)"
  proof -
    have "b \<noteq> ?n" using that fresh by blast
    then show ?thesis by (simp only: is_free_def free) simp
  qed
  show sa: "it_Size (rb_Items ?rb a) = w" by (simp add: I')
  have same: "it_Prev (rb_Items ?rb b) = it_Prev (?I b) \<and> it_Next (rb_Items ?rb b) = it_Next (?I b) \<and>
      it_Size (rb_Items ?rb b) = it_Size (?I b)" if "b \<noteq> a" "b \<noteq> ?n" "ys = [] \<or> b \<noteq> hd ys" for b
    using that by (auto simp: I')
  have sizes: "it_Size (rb_Items ?rb j) = (if j = a then w else if j = ?n then it_Size (?I a) - w else it_Size (?I j))" for j
    using n_hd na by (cases "ys = []") (simp_all add: I' N_def)
  show "it_Size (rb_Items ?rb b) = it_Size (?I b)" if "b \<in> set (xs @ ys)"
  proof -
    have "b \<noteq> ?n" "b \<noteq> a" using that fresh d by auto
    then show ?thesis by (simp only: sizes if_False)
  qed
  have "chain (rb_Items ?rb) None xs (Some a) a \<longleftrightarrow> chain ?I None xs (Some a) a"
    using d fresh by (intro chain_cong same) auto
  moreover have "chain (rb_Items ?rb) (Some ?n) ys None (rb_Size rb)"
  proof (cases ys)
    case (Cons y ys')
    have "chain (rb_Items ?rb) (Some y) ys' None (rb_Size rb) \<longleftrightarrow> chain ?I (Some y) ys' None (rb_Size rb)"
      using d fresh Cons by (intro chain_cong same) auto
    with cy d Cons n_hd show ?thesis by (auto simp: I')
  qed simp
  moreover have "it_Prev (rb_Items ?rb a) = it_Prev (?I a)" "it_Next (rb_Items ?rb a) = Some ?n" by (simp_all add: I')
  moreover have "rb_Items ?rb ?n = N" using n_hd na by (auto simp: I')
  ultimately show "ring ?rb (xs @ a # ?n # ys)"
    using r cx ca others sa w by (auto simp: ring_def chain_append hd_append N_def nxt)
qed

text \<open>A block that is taken is cut to size; the rest of it, if it is large enough, is a free block.\<close>

lemma take_block_ring:
  assumes r: "ring rb (xs @ a # ys)" and w: "ITEM_SIZE \<le> w" "w \<le> it_Size (rb_Items rb a)"
  obtains new where "ring (take_block rb a w) (xs @ a # new @ ys)" "length new \<le> 1"
    "\<And>b. b \<in> set new \<Longrightarrow> is_free (take_block rb a w) b" "\<not> is_free (take_block rb a w) a"
    "\<And>b. b \<in> set (xs @ ys) \<Longrightarrow> is_free (take_block rb a w) b = is_free rb b"
    "rb_Produce (take_block rb a w) = (if new @ ys = [] then hd (xs @ [a]) else hd (new @ ys))"
    "rb_Consume (take_block rb a w) = rb_Consume rb" "rb_Size (take_block rb a w) = rb_Size rb"
    "rb_Recycle (take_block rb a w) = rb_Recycle rb"
    "w \<le> it_Size (rb_Items (take_block rb a w) a)"
    "\<And>b. b \<in> set (xs @ ys) \<Longrightarrow> it_Size (rb_Items (take_block rb a w) b) = it_Size (rb_Items rb b)"
proof (cases "w + ITEM_SIZE < it_Size (rb_Items rb a)")
  case True
  note sp = split_block_splits [OF r w(1) True]
  have tb: "take_block rb a w = update_item a (\<lambda>x. x\<lparr>it_Free := False\<rparr>)
      (split_block rb a w\<lparr>rb_Produce := NextBlock (split_block rb a w) a\<rparr>)"
    by (simp add: take_block_def Let_def)
  show ?thesis
  proof (rule that [of "[a + w]"])
    show "ring (take_block rb a w) (xs @ a # [a + w] @ ys)"
      unfolding tb using sp(1) by (intro ring_update_free) simp
    show "rb_Produce (take_block rb a w) = (if [a + w] @ ys = [] then hd (xs @ [a]) else hd ([a + w] @ ys))"
      using NextBlock_ring [OF sp(1)] by (simp add: tb)
    show "is_free (take_block rb a w) b" if "b \<in> set [a + w]" for b
      using that sp(2,5) by (auto simp: tb)
    show "is_free (take_block rb a w) b = is_free rb b" if "b \<in> set (xs @ ys)" for b
      using that sp(3) [of b] ring_distinct [OF r] by (auto simp: tb)
    show "w \<le> it_Size (rb_Items (take_block rb a w) a)" using sp(4) by (simp add: tb update_item_def)
    show "it_Size (rb_Items (take_block rb a w) b) = it_Size (rb_Items rb b)" if "b \<in> set (xs @ ys)" for b
      using that sp(6) [OF that] ring_distinct [OF r] by (auto simp: tb update_item_def)
  qed (simp_all add: tb sp)
next
  case False
  then have tb: "take_block rb a w = update_item a (\<lambda>x. x\<lparr>it_Free := False\<rparr>) (rb\<lparr>rb_Produce := NextBlock rb a\<rparr>)"
    by (simp add: take_block_def split_block_def Let_def)
  show ?thesis
  proof (rule that [of "[]"])
    show "ring (take_block rb a w) (xs @ a # [] @ ys)"
      unfolding tb using r by (intro ring_update_free) simp
    show "rb_Produce (take_block rb a w) = (if [] @ ys = [] then hd (xs @ [a]) else hd ([] @ ys))"
      using NextBlock_ring [OF r] by (simp add: tb)
    show "is_free (take_block rb a w) b = is_free rb b" if "b \<in> set (xs @ ys)" for b
      using that ring_distinct [OF r] by (auto simp: tb)
    show "it_Size (rb_Items (take_block rb a w) b) = it_Size (rb_Items rb b)" if "b \<in> set (xs @ ys)" for b
      using that ring_distinct [OF r] by (auto simp: tb update_item_def)
  qed (use w in \<open>simp_all add: tb update_item_def is_free_def\<close>)
qed

section \<open>The ring is a queue\<close>

text \<open>
  The two shapes of a ring, in the order of the offsets. In the first the items in use lie
  between the free blocks \<open>Yb\<close> and \<open>Ya\<close>; in the second they have wrapped around: the older ones
  \<open>U1\<close> lie at the end, before a block \<open>Fs\<close> that was too small, the newer ones \<open>U2\<close> at the start.
  There is at most one free block at each of these places.
\<close>

definition used :: "CRingBuffer \<Rightarrow> nat list \<Rightarrow> bool" where
  "used rb as \<longleftrightarrow> (\<forall>a \<in> set as. \<not> is_free rb a)"

definition gap :: "CRingBuffer \<Rightarrow> nat list \<Rightarrow> bool" where
  "gap rb as \<longleftrightarrow> length as \<le> 1 \<and> (\<forall>a \<in> set as. is_free rb a)"

definition straight :: "CRingBuffer \<Rightarrow> nat list \<Rightarrow> bool" where
  "straight rb q \<longleftrightarrow> (\<exists>Yb Ya. ring rb (Yb @ q @ Ya) \<and> used rb q \<and> gap rb Yb \<and> gap rb Ya \<and>
     (q = [] \<longrightarrow> Yb = []) \<and> rb_Produce rb = hd (Ya @ Yb @ q) \<and> rb_Consume rb = hd (q @ Ya))"

definition wrapped :: "CRingBuffer \<Rightarrow> nat list \<Rightarrow> bool" where
  "wrapped rb q \<longleftrightarrow> (\<exists>U1 U2 Y Fs. q = U1 @ U2 \<and> U1 \<noteq> [] \<and> U2 \<noteq> [] \<and> ring rb (U2 @ Y @ U1 @ Fs) \<and>
     used rb q \<and> gap rb Y \<and> gap rb Fs \<and> rb_Produce rb = hd (Y @ U1) \<and> rb_Consume rb = hd U1)"

text \<open>\<open>q\<close> lists the items in use, the oldest first.\<close>

definition holds_queue :: "CRingBuffer \<Rightarrow> nat list \<Rightarrow> bool" where
  "holds_queue rb q \<longleftrightarrow> straight rb q \<or> wrapped rb q"

lemma straightI:
  "ring rb (Yb @ q @ Ya) \<Longrightarrow> used rb q \<Longrightarrow> gap rb Yb \<Longrightarrow> gap rb Ya \<Longrightarrow> (q = [] \<Longrightarrow> Yb = []) \<Longrightarrow>
   rb_Produce rb = hd (Ya @ Yb @ q) \<Longrightarrow> rb_Consume rb = hd (q @ Ya) \<Longrightarrow> holds_queue rb q"
  unfolding holds_queue_def straight_def by blast

lemma wrappedI:
  "ring rb (U2 @ Y @ U1 @ Fs) \<Longrightarrow> U1 \<noteq> [] \<Longrightarrow> U2 \<noteq> [] \<Longrightarrow> used rb (U1 @ U2) \<Longrightarrow> gap rb Y \<Longrightarrow> gap rb Fs \<Longrightarrow>
   rb_Produce rb = hd (Y @ U1) \<Longrightarrow> rb_Consume rb = hd U1 \<Longrightarrow> holds_queue rb (U1 @ U2)"
  unfolding holds_queue_def wrapped_def by blast

lemma gap_cases:
  assumes "gap rb as"
  obtains "as = []" | a where "as = [a]" "is_free rb a"
  using assms by (cases as) (auto simp: gap_def)

lemma gap_simps [simp]: "gap rb []" "gap rb [a] \<longleftrightarrow> is_free rb a"
  by (simp_all add: gap_def)

lemma used_simps [simp]: "used rb []" "used rb (a # as) \<longleftrightarrow> \<not> is_free rb a \<and> used rb as"
  "used rb (as @ bs) \<longleftrightarrow> used rb as \<and> used rb bs"
  by (auto simp: used_def)

lemma used_cong: "(\<And>b. b \<in> set as \<Longrightarrow> is_free rb' b = is_free rb b) \<Longrightarrow> used rb' as = used rb as"
  by (auto simp: used_def)

lemma gap_cong: "(\<And>b. b \<in> set as \<Longrightarrow> is_free rb' b = is_free rb b) \<Longrightarrow> gap rb' as = gap rb as"
  by (auto simp: gap_def)

subsection \<open>Initialisation\<close>

lemma Init_queue:
  assumes "ITEM_SIZE \<le> Size"
  shows "holds_queue (RingBuffer_Init Size Recycle rb) []"
proof -
  let ?rb = "RingBuffer_Init Size Recycle rb"
  have "ITEM_SIZE \<le> Size div ITEM_SIZE * ITEM_SIZE"
    using assms by (simp add: ITEM_SIZE_def)
  then have "ring ?rb ([] @ [] @ [0])"
    by (simp add: ring_def RingBuffer_Init_def RingBuffer_Clear_def)
  then show ?thesis
    by (rule straightI) (simp_all add: is_free_def RingBuffer_Init_def RingBuffer_Clear_def)
qed

subsection \<open>Allocating appends to the queue\<close>

lemma used_hd: "used rb q \<Longrightarrow> q \<noteq> [] \<Longrightarrow> \<not> is_free rb (hd q)"
  by (cases q) auto

lemma take_straight:
  assumes r: "ring rb (Yb @ q @ [a])" and u: "used rb q" and g: "gap rb Yb" "q = [] \<Longrightarrow> Yb = []" "is_free rb a"
    and c: "rb_Consume rb = hd (q @ [a])" and w: "ITEM_SIZE \<le> w" "w \<le> it_Size (rb_Items rb a)"
  shows "holds_queue (take_block rb a w) (q @ [a])"
proof -
  obtain new where n: "ring (take_block rb a w) ((Yb @ q) @ a # new @ [])" "length new \<le> 1"
    "\<And>b. b \<in> set new \<Longrightarrow> is_free (take_block rb a w) b" "\<not> is_free (take_block rb a w) a"
    "\<And>b. b \<in> set ((Yb @ q) @ []) \<Longrightarrow> is_free (take_block rb a w) b = is_free rb b"
    "rb_Produce (take_block rb a w) = (if new @ [] = [] then hd ((Yb @ q) @ [a]) else hd (new @ []))"
    "rb_Consume (take_block rb a w) = rb_Consume rb"
    using take_block_ring [of rb "Yb @ q" a "[]" w] r w by (metis append_assoc append_Cons append_Nil)
  have "used (take_block rb a w) q = used rb q" "gap (take_block rb a w) Yb = gap rb Yb"
    by (rule used_cong gap_cong; use n(5) in simp)+
  then show ?thesis
    using n u g c by (intro straightI [where Yb = Yb and Ya = new]) (auto simp: gap_def hd_append)
qed

lemma take_wrap:
  assumes r: "ring rb (a # q @ Fs)" and u: "used rb q" "q \<noteq> []" and g: "gap rb Fs" "is_free rb a"
    and c: "rb_Consume rb = hd q" and w: "ITEM_SIZE \<le> w" "w \<le> it_Size (rb_Items rb a)"
  shows "holds_queue (take_block rb a w) (q @ [a])"
proof -
  obtain new where n: "ring (take_block rb a w) ([] @ a # new @ (q @ Fs))" "length new \<le> 1"
    "\<And>b. b \<in> set new \<Longrightarrow> is_free (take_block rb a w) b" "\<not> is_free (take_block rb a w) a"
    "\<And>b. b \<in> set ([] @ (q @ Fs)) \<Longrightarrow> is_free (take_block rb a w) b = is_free rb b"
    "rb_Produce (take_block rb a w) = (if new @ (q @ Fs) = [] then hd ([] @ [a]) else hd (new @ (q @ Fs)))"
    "rb_Consume (take_block rb a w) = rb_Consume rb"
    using take_block_ring [of rb "[]" a "q @ Fs" w] r w by (metis append_Nil)
  have "used (take_block rb a w) q = used rb q" "gap (take_block rb a w) Fs = gap rb Fs"
    by (rule used_cong gap_cong; use n(5) in simp)+
  then show ?thesis
    using n u g c by (intro wrappedI [where Y = new and Fs = Fs]) (auto simp: gap_def hd_append)
qed

lemma take_wrapped:
  assumes r: "ring rb (U2 @ a # U1 @ Fs)" and u: "used rb (U1 @ U2)" "U1 \<noteq> []" "U2 \<noteq> []"
    and g: "gap rb Fs" "is_free rb a"
    and c: "rb_Consume rb = hd U1" and w: "ITEM_SIZE \<le> w" "w \<le> it_Size (rb_Items rb a)"
  shows "holds_queue (take_block rb a w) ((U1 @ U2) @ [a])"
proof -
  obtain new where n: "ring (take_block rb a w) (U2 @ a # new @ (U1 @ Fs))" "length new \<le> 1"
    "\<And>b. b \<in> set new \<Longrightarrow> is_free (take_block rb a w) b" "\<not> is_free (take_block rb a w) a"
    "\<And>b. b \<in> set (U2 @ (U1 @ Fs)) \<Longrightarrow> is_free (take_block rb a w) b = is_free rb b"
    "rb_Produce (take_block rb a w) = (if new @ (U1 @ Fs) = [] then hd (U2 @ [a]) else hd (new @ (U1 @ Fs)))"
    "rb_Consume (take_block rb a w) = rb_Consume rb"
    using take_block_ring [OF r w] by metis
  have "used (take_block rb a w) (U1 @ U2) = used rb (U1 @ U2)" "gap (take_block rb a w) Fs = gap rb Fs"
    by (rule used_cong gap_cong; use n(5) in auto)+
  then have "holds_queue (take_block rb a w) (U1 @ (U2 @ [a]))"
    using n u g c by (intro wrappedI [where Y = new and Fs = Fs]) (auto simp: gap_def hd_append)
  then show ?thesis by simp
qed

lemma find_block_take:
  assumes q: "holds_queue rb q" and f: "find_block rb w = Some b" and w: "ITEM_SIZE \<le> w"
  shows "holds_queue (take_block rb b w) (q @ [b])"
proof -
  from q consider "straight rb q" | "wrapped rb q" unfolding holds_queue_def by blast
  then show ?thesis
proof cases
  assume "straight rb q"
  then obtain Yb Ya where s: "ring rb (Yb @ q @ Ya)" "used rb q" "gap rb Yb" "gap rb Ya" "q = [] \<Longrightarrow> Yb = []"
    "rb_Produce rb = hd (Ya @ Yb @ q)" "rb_Consume rb = hd (q @ Ya)"
    unfolding straight_def by blast
  have first: "rb_First rb = hd (Yb @ q @ Ya)" using s(1) by (simp add: ring_def)
  have b: "w \<le> it_Size (rb_Items rb b)" "is_free rb b" "b = rb_Produce rb \<or> b = rb_First rb"
    using f by (auto simp: find_block_def split: if_splits)
  from s(4) show ?thesis
  proof (cases rule: gap_cases)
    case Ya: 1
    then have "q \<noteq> []" using s(1,5) by (auto simp: ring_def)
    from s(3) show ?thesis
    proof (cases rule: gap_cases)
      case 1
      then have "b = hd q" using b(3) Ya s(6) first by auto
      with used_hd [OF s(2)] b(2) \<open>q \<noteq> []\<close> show ?thesis by simp
    next
      case (2 a)
      then have "b = a" using b(3) Ya s(6) first by auto
      then show ?thesis using take_wrap [of rb a q "[]" w] s 2 Ya b \<open>q \<noteq> []\<close> w by simp
    qed
  next
    case Ya: (2 a)
    show ?thesis
    proof (cases "b = a")
      case True
      then show ?thesis using take_straight [of rb Yb q a w] s Ya b w by simp
    next
      case False
      then have bf: "b = hd (Yb @ q @ [a])" using b(3) s(6) first Ya by auto
      have "q \<noteq> []" using bf False s(5) by auto
      from s(3) show ?thesis
      proof (cases rule: gap_cases)
        case 1
        with bf \<open>q \<noteq> []\<close> used_hd [OF s(2)] b(2) show ?thesis by (simp add: hd_append)
      next
        case (2 y)
        then show ?thesis using take_wrap [of rb y q Ya w] s Ya b bf \<open>q \<noteq> []\<close> w by (simp add: hd_append)
      qed
    qed
  qed
next
  assume "wrapped rb q"
  then obtain U1 U2 Y Fs where s: "q = U1 @ U2" "U1 \<noteq> []" "U2 \<noteq> []" "ring rb (U2 @ Y @ U1 @ Fs)" "used rb q"
    "gap rb Y" "gap rb Fs" "rb_Produce rb = hd (Y @ U1)" "rb_Consume rb = hd U1"
    unfolding wrapped_def by blast
  have first: "rb_First rb = hd U2" using s(3,4) by (simp add: ring_def)
  have nf: "\<not> is_free rb (hd U1)" "\<not> is_free rb (hd U2)" using s used_hd [of rb U1] used_hd [of rb U2] by simp_all
  have b: "w \<le> it_Size (rb_Items rb b)" "is_free rb b" "b = rb_Produce rb \<or> b = rb_First rb"
    using f by (auto simp: find_block_def split: if_splits)
  from s(6) show ?thesis
  proof (cases rule: gap_cases)
    case 1
    then show ?thesis using b s(8) first nf by auto
  next
    case (2 y)
    then have "b = y" using b s(8) first nf by auto
    then show ?thesis using take_wrapped [of rb U2 y U1 Fs w] s 2 b w by simp
  qed
qed
qed

subsection \<open>Popping removes the head of the queue\<close>

lemma First_queue: "holds_queue rb q \<Longrightarrow> RingBuffer_First rb = (if q = [] then None else Some (hd q))"
  unfolding holds_queue_def
proof (elim disjE)
  assume "straight rb q"
  then obtain Yb Ya where s: "ring rb (Yb @ q @ Ya)" "used rb q" "gap rb Ya" "q = [] \<Longrightarrow> Yb = []" "rb_Consume rb = hd (q @ Ya)"
    unfolding straight_def by blast
  show ?thesis
  proof (cases "q = []")
    case True
    with s have "Ya \<noteq> []" by (auto simp: ring_def)
    with s(3) obtain a where "Ya = [a]" "is_free rb a" by (auto elim: gap_cases)
    with True s(5) show ?thesis by (simp add: RingBuffer_First_def)
  next
    case False
    with s used_hd [OF s(2)] show ?thesis by (simp add: RingBuffer_First_def)
  qed
next
  assume "wrapped rb q"
  then obtain U1 U2 where s: "q = U1 @ U2" "U1 \<noteq> []" "used rb q" "rb_Consume rb = hd U1"
    unfolding wrapped_def by blast
  then show ?thesis using used_hd [of rb U1] by (auto simp: RingBuffer_First_def)
qed

lemma free_block:
  assumes r: "ring rb (pre @ Y @ c # zs)" and g: "gap rb Y" and p: "pre = [] \<or> \<not> is_free rb (last pre)"
  obtains rb2 i where "MergeBack (update_item c (\<lambda>x. x\<lparr>it_Free := True\<rparr>) rb) c = (rb2, i)"
    "ring rb2 (pre @ i # zs)" "is_free rb2 i" "\<And>b. b \<in> set (pre @ zs) \<Longrightarrow> is_free rb2 b = is_free rb b"
    "i = hd (Y @ [c])" "rb_Produce rb2 = (if rb_Produce rb = c then i else rb_Produce rb)"
    "rb_Size rb2 = rb_Size rb" "rb_Recycle rb2 = rb_Recycle rb"
proof -
  let ?rb = "update_item c (\<lambda>x. x\<lparr>it_Free := True\<rparr>) rb"
  have r': "ring ?rb (pre @ Y @ c # zs)" using r by (rule ring_update_free)
  have d: "distinct (pre @ Y @ c # zs)" using r by (rule ring_distinct)
  from g show ?thesis
  proof (cases rule: gap_cases)
    case 1
    have "MergeBack ?rb c = (?rb, c)"
      using r' 1 p d by (intro MergeBack_stays [of ?rb pre c zs]) auto
    show ?thesis
    proof (rule that [of ?rb c])
      show "is_free ?rb b = is_free rb b" if "b \<in> set (pre @ zs)" for b using that d by auto
    qed (use \<open>MergeBack ?rb c = (?rb, c)\<close> r' 1 in simp_all)
  next
    case (2 y)
    have "is_free ?rb y" "is_free ?rb c" using 2 by simp_all
    moreover have "ring ?rb (pre @ y # c # zs)" using r' 2 by simp
    ultimately obtain rb2 where m: "MergeBack ?rb c = (rb2, y)" "ring rb2 (pre @ y # zs)"
      "\<And>b. b \<noteq> c \<Longrightarrow> is_free rb2 b = is_free ?rb b" "rb_Produce rb2 = (if rb_Produce ?rb = c then y else rb_Produce ?rb)"
      "rb_Size rb2 = rb_Size ?rb" "rb_Recycle rb2 = rb_Recycle ?rb"
      using MergeBack_merges [of ?rb pre y c zs] by metis
    show ?thesis
    proof (rule that [of rb2 y])
      show "is_free rb2 y" using m(3) [of y] 2 d by auto
      show "is_free rb2 b = is_free rb b" if "b \<in> set (pre @ zs)" for b
        using m(3) [of b] that d by auto
    qed (use m 2 in simp_all)
  qed
qed

lemma pop_skip_stop:
  "\<not> (is_free rb (rb_Consume rb) \<and> rb_Consume rb \<noteq> rb_Produce rb) \<Longrightarrow> pop_skip (Suc fuel) rb = Some rb"
  by auto

lemma max_items_ge2:
  assumes "ring rb bs"
  obtains f where "max_items rb = Suc (Suc f)"
proof -
  have "ITEM_SIZE \<le> rb_Size rb" using ring_length [OF assms] assms by (cases bs) (auto simp: ring_def)
  then have "1 \<le> rb_Size rb div ITEM_SIZE" by (simp add: ITEM_SIZE_def)
  then obtain f where "rb_Size rb div ITEM_SIZE = Suc f" by (cases "rb_Size rb div ITEM_SIZE") auto
  then show ?thesis using that by (simp add: max_items_def)
qed

text \<open>The state after the block of the oldest item has been freed, when the next one is in use.\<close>

lemma PopFirst_step:
  assumes c: "rb_Consume rb = c" "\<not> is_free rb c"
    and m: "MergeBack (update_item c (\<lambda>x. x\<lparr>it_Free := True\<rparr>) rb) c = (rb2, i)"
    and s: "pop_skip (max_items rb2) (rb2\<lparr>rb_Consume := NextBlock rb2 i\<rparr>) = Some rb3"
  shows "PopFirst rb = Some (Some c, fst (MergeBack rb3 (rb_Consume rb3)))"
proof -
  have "max_items (rb2\<lparr>rb_Consume := NextBlock rb2 i\<rparr>) = max_items rb2" by (simp add: max_items_def)
  then show ?thesis using assms by (simp add: PopFirst_def Let_def)
qed

lemma MergeBack_used: "\<not> is_free rb a \<Longrightarrow> MergeBack rb a = (rb, a)"
  by (auto simp: MergeBack_def split: option.splits)

lemma MergeBack_merged:
  assumes r: "ring rb (xs @ p # a # ys)" and free: "is_free rb p" "is_free rb a"
  shows "\<exists>rb'. MergeBack rb a = (rb', p) \<and> ring rb' (xs @ p # ys) \<and> (\<forall>b. b \<noteq> a \<longrightarrow> is_free rb' b = is_free rb b) \<and>
    rb_Produce rb' = (if rb_Produce rb = a then p else rb_Produce rb) \<and>
    rb_Consume rb' = (if rb_Consume rb = a then p else rb_Consume rb) \<and>
    rb_Size rb' = rb_Size rb \<and> rb_Recycle rb' = rb_Recycle rb"
  by (rule MergeBack_merges [OF assms]) (intro exI conjI allI impI; assumption)

lemma PopFirst_straight:
  assumes "straight rb (c # q)"
  obtains rb' where "PopFirst rb = Some (Some c, rb')" "holds_queue rb' q"
    "rb_Size rb' = rb_Size rb" "rb_Recycle rb' = rb_Recycle rb"
proof -
  obtain Yb Ya where s: "ring rb (Yb @ (c # q) @ Ya)" "used rb (c # q)" "gap rb Yb" "gap rb Ya"
    "rb_Produce rb = hd (Ya @ Yb @ c # q)" "rb_Consume rb = c"
    using assms unfolding straight_def by auto
  have d: "distinct (Yb @ c # q @ Ya)" using ring_distinct [OF s(1)] by simp
  obtain rb2 i where f: "MergeBack (update_item c (\<lambda>x. x\<lparr>it_Free := True\<rparr>) rb) c = (rb2, i)"
    "ring rb2 ([] @ i # (q @ Ya))" "is_free rb2 i" "\<And>b. b \<in> set ([] @ (q @ Ya)) \<Longrightarrow> is_free rb2 b = is_free rb b"
    "i = hd (Yb @ [c])" "rb_Produce rb2 = (if rb_Produce rb = c then i else rb_Produce rb)"
    "rb_Size rb2 = rb_Size rb" "rb_Recycle rb2 = rb_Recycle rb"
    using free_block [of rb "[]" Yb c "q @ Ya"] s(1,3) by auto
  have r2: "ring rb2 (i # q @ Ya)" using f(2) by simp
  obtain fuel where fuel: "max_items rb2 = Suc (Suc fuel)" using max_items_ge2 [OF r2] by blast
  have nx: "NextBlock rb2 i = (if q @ Ya = [] then i else hd (q @ Ya))"
    using NextBlock_ring [of rb2 "[]" i "q @ Ya"] r2 by simp
  have u2: "used rb2 q" "gap rb2 Ya"
    using s(2,4) used_cong [of q rb2 rb] gap_cong [of Ya rb2 rb] f(4) by auto
  have prod: "rb_Produce rb2 = hd (Ya @ [i])"
  proof (cases "Ya = []")
    case True
    then have "rb_Produce rb = hd (Yb @ [c])" using s(5) by (cases Yb) auto
    with True f(5,6) show ?thesis by simp
  next
    case False
    then have "rb_Produce rb = hd Ya" "hd Ya \<noteq> c" using s(5) d by (cases Ya; auto)+
    with False f(6) show ?thesis by simp
  qed
  let ?rb3 = "rb2\<lparr>rb_Consume := NextBlock rb2 i\<rparr>"
  show ?thesis
  proof (cases "q = []")
    case False
    then have h: "rb_Consume ?rb3 = hd q" "\<not> is_free ?rb3 (hd q)" using nx used_hd [OF u2(1)] by simp_all
    then have "pop_skip (max_items rb2) ?rb3 = Some ?rb3" unfolding fuel by (intro pop_skip_stop) simp
    from PopFirst_step [OF s(6) _ f(1) this] s(2) h
    have P: "PopFirst rb = Some (Some c, ?rb3)" by (simp add: MergeBack_used)
    have "holds_queue ?rb3 q"
    proof (rule straightI [where Yb = "[i]" and Ya = Ya])
      show "used ?rb3 q" "gap ?rb3 Ya" using u2 used_cong [of q ?rb3 rb2] gap_cong [of Ya ?rb3 rb2] by simp_all
      show "rb_Produce ?rb3 = hd (Ya @ [i] @ q)" using prod by (cases Ya) simp_all
    qed (use r2 f(3) False nx in auto)
    then show ?thesis using that [OF P] f(7,8) by simp
  next
    case q: True
    from u2(2) show ?thesis
    proof (cases rule: gap_cases)
      case 1
      then have h: "rb_Consume ?rb3 = i" "rb_Produce ?rb3 = i" "ring ?rb3 ([] @ i # [])"
        using nx q prod r2 by simp_all
      have "pop_skip (max_items rb2) ?rb3 = Some ?rb3" unfolding fuel by (intro pop_skip_stop) (simp only: h simp_thms)
      from PopFirst_step [OF s(6) _ f(1) this] s(2) MergeBack_stays [OF h(3)] h(1)
      have P: "PopFirst rb = Some (Some c, ?rb3)" by simp
      have "holds_queue ?rb3 q"
        by (rule straightI [where Yb = "[]" and Ya = "[i]"]) (use h q f(3) in auto)
      then show ?thesis using that [OF P] f(7,8) by simp
    next
      case (2 a)
      then have h: "rb_Consume ?rb3 = a" "rb_Produce ?rb3 = a" "ring ?rb3 ([] @ i # a # [])" "is_free ?rb3 i" "is_free ?rb3 a"
        using nx q prod r2 f(3) by simp_all
      have "i \<noteq> a" using ring_distinct [OF h(3)] by simp
      have sk: "pop_skip (max_items rb2) ?rb3 = Some ?rb3" unfolding fuel by (intro pop_skip_stop) (simp only: h simp_thms)
      obtain rb4 where m0: "MergeBack ?rb3 a = (rb4, i)" "ring rb4 ([] @ i # [])"
        "\<And>b. b \<noteq> a \<Longrightarrow> is_free rb4 b = is_free ?rb3 b"
        "rb_Produce rb4 = (if rb_Produce ?rb3 = a then i else rb_Produce ?rb3)"
        "rb_Consume rb4 = (if rb_Consume ?rb3 = a then i else rb_Consume ?rb3)"
        "rb_Size rb4 = rb_Size ?rb3" "rb_Recycle rb4 = rb_Recycle ?rb3"
        using MergeBack_merged [OF h(3,4,5)] by (elim exE conjE) (rule that; blast)
      have m: "MergeBack ?rb3 a = (rb4, i)" "ring rb4 ([] @ i # [])" "is_free rb4 i"
        "rb_Produce rb4 = i" "rb_Consume rb4 = i" "rb_Size rb4 = rb_Size rb" "rb_Recycle rb4 = rb_Recycle rb"
        using m0 h(1,2,4) \<open>i \<noteq> a\<close> f(7,8) by simp_all
      from PopFirst_step [OF s(6) _ f(1) sk] s(2) m(1) h(1)
      have P: "PopFirst rb = Some (Some c, rb4)" by simp
      have "holds_queue rb4 q"
        by (rule straightI [where Yb = "[]" and Ya = "[i]"]) (use m q in auto)
      then show ?thesis using that [OF P] m by simp
    qed
  qed
qed

lemma PopFirst_wrapped:
  assumes "wrapped rb (c # q)"
  obtains rb' where "PopFirst rb = Some (Some c, rb')" "holds_queue rb' q"
    "rb_Size rb' = rb_Size rb" "rb_Recycle rb' = rb_Recycle rb"
proof -
  obtain U1 U2 Y Fs where s0: "c # q = U1 @ U2" "U1 \<noteq> []" "U2 \<noteq> []" "ring rb (U2 @ Y @ U1 @ Fs)" "used rb (c # q)"
    "gap rb Y" "gap rb Fs" "rb_Produce rb = hd (Y @ U1)" "rb_Consume rb = hd U1"
    using assms unfolding wrapped_def by blast
  then obtain U where U: "U1 = c # U" "q = U @ U2" by (cases U1) auto
  have s: "ring rb (U2 @ Y @ c # (U @ Fs))" "used rb (c # U @ U2)" "rb_Produce rb = hd (Y @ [c])" "rb_Consume rb = c"
    using s0 U by (simp_all add: hd_append)
  have d: "distinct (U2 @ Y @ c # U @ Fs)" using ring_distinct [OF s(1)] by simp
  have last: "\<not> is_free rb (last U2)" using s(2) s0(3) by (auto simp: used_def)
  obtain rb2 i where f: "MergeBack (update_item c (\<lambda>x. x\<lparr>it_Free := True\<rparr>) rb) c = (rb2, i)"
    "ring rb2 (U2 @ i # (U @ Fs))" "is_free rb2 i" "\<And>b. b \<in> set (U2 @ (U @ Fs)) \<Longrightarrow> is_free rb2 b = is_free rb b"
    "i = hd (Y @ [c])" "rb_Produce rb2 = (if rb_Produce rb = c then i else rb_Produce rb)"
    "rb_Size rb2 = rb_Size rb" "rb_Recycle rb2 = rb_Recycle rb"
    using free_block [OF s(1) s0(6)] last by metis
  obtain fuel where fuel: "max_items rb2 = Suc (Suc fuel)" using max_items_ge2 [OF f(2)] by blast
  have nx: "NextBlock rb2 i = (if U @ Fs = [] then hd U2 else hd (U @ Fs))"
    using NextBlock_ring [OF f(2)] s0(3) by (simp add: hd_append)
  have u2: "used rb2 (U @ U2)" "gap rb2 Fs"
    using s(2) s0(7) used_cong [of "U @ U2" rb2 rb] gap_cong [of Fs rb2 rb] f(4) by auto
  have prod: "rb_Produce rb2 = i" using f(5,6) s(3) by (cases Y) auto
  have ne: "hd U2 \<noteq> i" using ring_distinct [OF f(2)] s0(3) by (cases U2) auto
  let ?rb3 = "rb2\<lparr>rb_Consume := NextBlock rb2 i\<rparr>"
  have u3: "used ?rb3 (U @ U2)" "gap ?rb3 Fs" using u2 used_cong [of "U @ U2" ?rb3 rb2] gap_cong [of Fs ?rb3 rb2] by simp_all
  show ?thesis
  proof (cases "U = []")
    case False
    then have h: "rb_Consume ?rb3 = hd U" "\<not> is_free ?rb3 (hd U)" using nx u2(1) used_hd [of rb2 U] by simp_all
    then have "pop_skip (max_items rb2) ?rb3 = Some ?rb3" unfolding fuel by (intro pop_skip_stop) simp
    from PopFirst_step [OF s(4) _ f(1) this] s(2) h
    have P: "PopFirst rb = Some (Some c, ?rb3)" by (simp add: MergeBack_used)
    have "holds_queue ?rb3 (U @ U2)"
      by (rule wrappedI [where Y = "[i]" and Fs = Fs]) (use f(2,3) u3 False s0(3) prod nx in auto)
    then show ?thesis using that [OF P] f(7,8) U by simp
  next
    case U0: True
    from u2(2) show ?thesis
    proof (cases rule: gap_cases)
      case 1
      then have h: "rb_Consume ?rb3 = hd U2" "\<not> is_free ?rb3 (hd U2)"
        using nx U0 u2(1) s0(3) used_hd [of rb2 U2] by simp_all
      then have "pop_skip (max_items rb2) ?rb3 = Some ?rb3" unfolding fuel by (intro pop_skip_stop) simp
      from PopFirst_step [OF s(4) _ f(1) this] s(2) h
      have P: "PopFirst rb = Some (Some c, ?rb3)" by (simp add: MergeBack_used)
      have "holds_queue ?rb3 U2"
        by (rule straightI [where Yb = "[]" and Ya = "[i]"]) (use f(2,3) 1 U0 u3 s0(3) prod h in auto)
      then show ?thesis using that [OF P] f(7,8) U U0 by simp
    next
      case (2 a)
      then have h: "rb_Consume ?rb3 = a" "rb_Produce ?rb3 = i" "ring ?rb3 (U2 @ i # a # [])" "is_free ?rb3 i" "is_free ?rb3 a"
        using nx U0 prod f(2,3) by simp_all
      have ia: "i \<noteq> a" using ring_distinct [OF h(3)] by simp
      obtain rb4 where m: "MergeBack ?rb3 a = (rb4, i)" "ring rb4 (U2 @ i # [])"
        "\<And>b. b \<noteq> a \<Longrightarrow> is_free rb4 b = is_free ?rb3 b"
        "rb_Produce rb4 = (if rb_Produce ?rb3 = a then i else rb_Produce ?rb3)"
        "rb_Consume rb4 = (if rb_Consume ?rb3 = a then i else rb_Consume ?rb3)"
        "rb_Size rb4 = rb_Size ?rb3" "rb_Recycle rb4 = rb_Recycle ?rb3"
        using MergeBack_merged [OF h(3,4,5)] by (elim exE conjE) (rule that; blast)
      let ?rb5 = "rb4\<lparr>rb_Consume := NextBlock rb4 i\<rparr>"
      have nx4: "NextBlock rb4 i = hd U2" using NextBlock_ring [OF m(2)] s0(3) by (simp add: hd_append)
      have a_out: "b \<noteq> a" if "b \<in> set U2" for b using that ring_distinct [OF h(3)] by auto
      have u5: "used ?rb5 U2" using u3(1) U0 used_cong [of U2 ?rb5 ?rb3] m(3) a_out by simp
      have h5: "\<not> is_free ?rb5 (rb_Consume ?rb5)" "rb_Consume ?rb5 = hd U2" using used_hd [OF u5] s0(3) nx4 by simp_all
      have "pop_skip (Suc fuel) ?rb5 = Some ?rb5" using h5(1) by (intro pop_skip_stop) simp
      then have "pop_skip (max_items rb2) ?rb3 = Some ?rb5"
        unfolding fuel using h ia m(1) by simp
      from PopFirst_step [OF s(4) _ f(1) this] s(2) MergeBack_used [OF h5(1)]
      have P: "PopFirst rb = Some (Some c, ?rb5)" by simp
      have "holds_queue ?rb5 U2"
        by (rule straightI [where Yb = "[]" and Ya = "[i]"]) (use m h ia u5 h5 s0(3) in auto)
      then show ?thesis using that [OF P] f(7,8) m(6,7) U U0 by simp
    qed
  qed
qed

lemma PopFirst_queue:
  assumes "holds_queue rb (c # q)"
  obtains rb' where "PopFirst rb = Some (Some c, rb')" "holds_queue rb' q"
    "rb_Size rb' = rb_Size rb" "rb_Recycle rb' = rb_Recycle rb"
  using assms PopFirst_straight PopFirst_wrapped unfolding holds_queue_def by metis

lemma PopFirst_empty:
  assumes "holds_queue rb []"
  shows "PopFirst rb = Some (None, rb)"
  using First_queue [OF assms] by (simp add: RingBuffer_First_def PopFirst_def split: if_splits)

subsection \<open>Allocating, with the oldest items recycled\<close>

lemma wanted_size_bounds: "Size + ITEM_SIZE \<le> wanted_size Size" "ITEM_SIZE \<le> wanted_size Size"
proof -
  have "Size + ITEM_SIZE \<le> (Size + ITEM_SIZE + ITEM_SIZE - 1) div ITEM_SIZE * ITEM_SIZE"
    by (simp add: ITEM_SIZE_def)
  then show "Size + ITEM_SIZE \<le> wanted_size Size"
    by (simp only: wanted_size_def)
  then show "ITEM_SIZE \<le> wanted_size Size" by simp
qed

lemma holds_queue_ring:
  assumes "holds_queue rb q"
  obtains bs where "ring rb bs" "set q \<subseteq> set bs" "distinct q" "used rb q" "rb_Produce rb \<in> set bs"
  using assms unfolding holds_queue_def
proof (elim disjE)
  assume "straight rb q"
  then obtain Yb Ya where s: "ring rb (Yb @ q @ Ya)" "used rb q" "rb_Produce rb = hd (Ya @ Yb @ q)"
    unfolding straight_def by blast
  from s(1) have "Ya @ Yb @ q \<noteq> []" by (auto simp: ring_def)
  then have "rb_Produce rb \<in> set (Ya @ Yb @ q)" using s(3) hd_in_set by metis
  then show thesis using ring_distinct [OF s(1)] by (intro that [OF s(1) _ _ s(2)]) auto
next
  assume "wrapped rb q"
  then obtain U1 U2 Y Fs where s: "q = U1 @ U2" "U1 \<noteq> []" "ring rb (U2 @ Y @ U1 @ Fs)" "used rb q" "rb_Produce rb = hd (Y @ U1)"
    unfolding wrapped_def by blast
  have "rb_Produce rb \<in> set (Y @ U1)" using s(2,5) hd_in_set [of "Y @ U1"] by simp
  then show thesis using ring_distinct [OF s(3)] s(1) by (intro that [OF s(3) _ _ s(4)]) auto
qed

lemma queue_length: "holds_queue rb q \<Longrightarrow> length q < max_items rb"
proof -
  assume "holds_queue rb q"
  then obtain bs where b: "ring rb bs" "set q \<subseteq> set bs" "distinct q" by (elim holds_queue_ring) blast
  then have "length q \<le> length bs" using card_mono [of "set bs" "set q"] ring_distinct [OF b(1)]
    by (simp add: distinct_card)
  moreover have "length bs \<le> rb_Size rb div ITEM_SIZE"
    using ring_length [OF b(1)] by (simp add: ITEM_SIZE_def)
  ultimately show ?thesis by (simp add: max_items_def)
qed

lemma find_block_empty:
  assumes "holds_queue rb []" "w \<le> rb_Size rb"
  shows "\<exists>b. find_block rb w = Some b"
proof -
  have "straight rb []" using assms(1) by (auto simp: holds_queue_def wrapped_def)
  then obtain Ya where s: "ring rb Ya" "gap rb Ya" "rb_Produce rb = hd Ya"
    unfolding straight_def by auto
  then obtain a where a: "Ya = [a]" "is_free rb a" by (auto simp: ring_def elim: gap_cases)
  with s have "it_Size (rb_Items rb a) = rb_Size rb" by (auto simp: ring_def)
  with a s(3) assms(2) show ?thesis by (simp add: find_block_def)
qed

text \<open>Freeing blocks only enlarges them.\<close>

lemma MergeBack_size: "it_Size (rb_Items rb b) \<le> it_Size (rb_Items (fst (MergeBack rb i)) b)"
  by (auto simp: MergeBack_def Let_def update_item_def split: option.splits)

lemma pop_skip_size:
  "pop_skip fuel rb = Some rb' \<Longrightarrow> it_Size (rb_Items rb b) \<le> it_Size (rb_Items rb' b)"
proof (induction fuel arbitrary: rb)
  case (Suc fuel)
  obtain rb2 i where m: "MergeBack rb (rb_Consume rb) = (rb2, i)" by fastforce
  show ?case
  proof (cases "is_free rb (rb_Consume rb) \<and> rb_Consume rb \<noteq> rb_Produce rb")
    case True
    with Suc.prems m have "pop_skip fuel (rb2\<lparr>rb_Consume := NextBlock rb2 i\<rparr>) = Some rb'" by simp
    from Suc.IH [OF this] MergeBack_size [of rb b "rb_Consume rb"] m show ?thesis by simp
  qed (use Suc.prems in auto)
qed simp

lemma PopFirst_size:
  assumes "PopFirst rb = Some (r, rb')"
  shows "it_Size (rb_Items rb b) \<le> it_Size (rb_Items rb' b)"
proof (cases "is_free rb (rb_Consume rb)")
  case False
  let ?rb1 = "update_item (rb_Consume rb) (\<lambda>x. x\<lparr>it_Free := True\<rparr>) rb"
  obtain rb2 i where m: "MergeBack ?rb1 (rb_Consume rb) = (rb2, i)" by fastforce
  have m2: "it_Size (rb_Items rb b) \<le> it_Size (rb_Items rb2 b)"
    using MergeBack_size [of ?rb1 b "rb_Consume rb"] m by (auto simp: update_item_def split: if_splits)
  have mi: "max_items (rb2\<lparr>rb_Consume := n\<rparr>) = max_items rb2" for n by (simp add: max_items_def)
  obtain rb3 where s: "pop_skip (max_items rb2) (rb2\<lparr>rb_Consume := NextBlock rb2 i\<rparr>) = Some rb3"
    "rb' = fst (MergeBack rb3 (rb_Consume rb3))"
    using assms False m by (simp add: PopFirst_def Let_def mi map_option_Some_conv) blast
  from pop_skip_size [OF s(1), of b] m2 MergeBack_size [of rb3 b "rb_Consume rb3"] s(2)
  show ?thesis by simp
qed (use assms in \<open>simp add: PopFirst_def\<close>)

lemma find_block_take_size:
  assumes q: "holds_queue rb q" and f: "find_block rb w = Some b" and w: "ITEM_SIZE \<le> w"
  shows "w \<le> it_Size (rb_Items (take_block rb b w) b) \<and> b \<notin> set q \<and>
    (\<forall>a \<in> set q. it_Size (rb_Items (take_block rb b w) a) = it_Size (rb_Items rb a)) \<and>
    rb_Size (take_block rb b w) = rb_Size rb \<and> rb_Recycle (take_block rb b w) = rb_Recycle rb"
proof -
  obtain bs where bs: "ring rb bs" "set q \<subseteq> set bs" "used rb q" "rb_Produce rb \<in> set bs"
    using q by (elim holds_queue_ring) blast
  have b: "w \<le> it_Size (rb_Items rb b)" "is_free rb b" "b = rb_Produce rb \<or> b = rb_First rb"
    using f by (auto simp: find_block_def split: if_splits)
  have bq: "b \<notin> set q" using b(2) bs(3) by (auto simp: used_def)
  have "b \<in> set bs" using b(3) bs(1,4) hd_in_set [of bs] unfolding ring_def by metis
  then obtain xs ys where x: "bs = xs @ b # ys" by (meson split_list)
  show ?thesis
    by (rule take_block_ring [OF bs(1)[unfolded x] w b(1)]) (use bs(2) bq x in auto)
qed


text \<open>
  What one allocation does to the queue: the item \<open>b\<close>, if there is one, is appended, and large
  enough; the oldest \<open>k\<close> items are gone; the others are where they were and no smaller.
\<close>

definition allocated :: "CRingBuffer \<Rightarrow> nat list \<Rightarrow> nat \<Rightarrow> nat \<Rightarrow> nat \<Rightarrow> CRingBuffer \<Rightarrow> bool" where
  "allocated rb q w k b rb' \<longleftrightarrow>
     k \<le> length q \<and> (\<not> rb_Recycle rb \<longrightarrow> k = 0) \<and> holds_queue rb' (drop k q @ [b]) \<and>
     w \<le> it_Size (rb_Items rb' b) \<and> rb_Size rb' = rb_Size rb \<and> rb_Recycle rb' = rb_Recycle rb \<and>
     (\<forall>a \<in> set (drop k q). it_Size (rb_Items rb a) \<le> it_Size (rb_Items rb' a))"

lemma allocate_loop_queue:
  assumes "holds_queue rb q" "length q < fuel" "ITEM_SIZE \<le> w" "w \<le> rb_Size rb"
  shows "\<exists>r rb'. allocate_loop fuel rb w = Some (r, rb') \<and>
    (case r of Some b \<Rightarrow> \<exists>k. allocated rb q w k b rb' | None \<Rightarrow> \<not> rb_Recycle rb \<and> rb' = rb)"
  using assms
proof (induction fuel arbitrary: rb q)
  case (Suc fuel)
  show ?case
  proof (cases "find_block rb w")
    case (Some b)
    from find_block_take_size [OF Suc.prems(1) Some Suc.prems(3)] find_block_take [OF Suc.prems(1) Some Suc.prems(3)]
    have "allocated rb q w 0 b (take_block rb b w)" by (simp add: allocated_def)
    with Some show ?thesis by auto
  next
    case None
    then obtain c q' where q: "q = c # q'" using find_block_empty Suc.prems(1,4) by (cases q) fastforce+
    show ?thesis
    proof (cases "rb_Recycle rb")
      case True
      obtain rb1 where p: "PopFirst rb = Some (Some c, rb1)" "holds_queue rb1 q'"
        "rb_Size rb1 = rb_Size rb" "rb_Recycle rb1 = rb_Recycle rb"
        using Suc.prems(1) unfolding q by (rule PopFirst_queue)
      from Suc.IH [OF p(2)] Suc.prems(2,3,4) q p(3,4) True
      obtain b rb' k where r: "allocate_loop fuel rb1 w = Some (Some b, rb')" "allocated rb1 q' w k b rb'"
        by (auto split: option.splits)
      have "allocated rb q w (Suc k) b rb'"
        using r(2) p(3,4) True PopFirst_size [OF p(1)] unfolding allocated_def q
        by (auto intro: order_trans)
      with r(1) p(1) None True show ?thesis by auto
    qed (use None in simp)
  qed
qed simp

lemma Allocate_queue:
  assumes "holds_queue rb q"
  shows "\<exists>r rb'. Allocate rb Size = Some (r, rb') \<and>
    (case r of Some b \<Rightarrow> \<exists>k. allocated rb q (wanted_size Size) k b rb'
     | None \<Rightarrow> rb' = rb \<and> (rb_Recycle rb \<longrightarrow> rb_Size rb < wanted_size Size))"
proof (cases "wanted_size Size > rb_Size rb")
  case False
  have "length q < max_items rb + 1" using queue_length [OF assms] by simp
  from allocate_loop_queue [OF assms this wanted_size_bounds(2), of Size] False
  obtain r rb' where "allocate_loop (max_items rb + 1) rb (wanted_size Size) = Some (r, rb')"
    "case r of Some b \<Rightarrow> \<exists>k. allocated rb q (wanted_size Size) k b rb' | None \<Rightarrow> \<not> rb_Recycle rb \<and> rb' = rb"
    by auto
  with False show ?thesis by (cases r) (simp_all add: Allocate_def)
qed (simp add: Allocate_def)

subsection \<open>Iterating over the queue\<close>

lemma next_loop_step:
  "NextBlock rb i = rb_Produce rb \<Longrightarrow> next_loop (Suc fuel) rb i = Some None"
  "NextBlock rb i = j \<Longrightarrow> j \<noteq> rb_Produce rb \<Longrightarrow> \<not> is_free rb j \<Longrightarrow> next_loop (Suc fuel) rb i = Some (Some j)"
  "NextBlock rb i = j \<Longrightarrow> j \<noteq> rb_Produce rb \<Longrightarrow> is_free rb j \<Longrightarrow> next_loop (Suc fuel) rb i = next_loop fuel rb j"
  by simp_all

lemma Next_straight:
  assumes "straight rb (xs @ a # ys)"
  shows "RingBuffer_Next rb a = Some (if ys = [] then None else Some (hd ys))"
proof -
  obtain Yb Ya where s: "ring rb (Yb @ (xs @ a # ys) @ Ya)" "used rb (xs @ a # ys)" "gap rb Ya" "gap rb Yb"
    "rb_Produce rb = hd (Ya @ Yb @ xs @ a # ys)"
    using assms unfolding straight_def by blast
  have nx: "NextBlock rb a = (if ys @ Ya = [] then hd (Yb @ xs @ [a]) else hd (ys @ Ya))"
    using NextBlock_ring [of rb "Yb @ xs" a "ys @ Ya"] s(1) by simp
  obtain fuel where fuel: "max_items rb = Suc (Suc fuel)" using max_items_ge2 [OF s(1)] by blast
  have d: "distinct (Yb @ (xs @ a # ys) @ Ya)" by (rule ring_distinct [OF s(1)])
  show ?thesis
  proof (cases ys)
    case Nil
    then have "NextBlock rb a = rb_Produce rb" using nx s(5) by (cases Ya) (auto simp: hd_append)
    then show ?thesis using Nil by (simp add: RingBuffer_Next_def fuel)
  next
    case (Cons y ys')
    have "y \<noteq> rb_Produce rb" using d s(5) Cons by (auto simp: hd_append split: if_splits)
    moreover have "\<not> is_free rb y" using s(2) Cons by simp
    ultimately show ?thesis using nx Cons by (simp add: RingBuffer_Next_def fuel)
  qed
qed

lemma Next_wrapped:
  assumes "wrapped rb (xs @ a # ys)"
  shows "RingBuffer_Next rb a = Some (if ys = [] then None else Some (hd ys))"
proof -
  obtain U1 U2 Y Fs where s: "xs @ a # ys = U1 @ U2" "U1 \<noteq> []" "U2 \<noteq> []" "ring rb (U2 @ Y @ U1 @ Fs)"
    "used rb (U1 @ U2)" "gap rb Fs" "rb_Produce rb = hd (Y @ U1)"
    using assms unfolding wrapped_def by metis
  obtain fuel where fuel: "max_items rb = Suc (Suc fuel)" using max_items_ge2 [OF s(4)] by blast
  have d: "distinct (U2 @ Y @ U1 @ Fs)" by (rule ring_distinct [OF s(4)])
  from s(1) consider (old) zs where "U1 = xs @ a # zs" "ys = zs @ U2" | (new) zs where "U2 = zs @ a # ys" "xs = U1 @ zs"
    by (auto simp: append_eq_append_conv2 append_eq_Cons_conv Cons_eq_append_conv)
  then show ?thesis
  proof cases
    case old
    have nx: "NextBlock rb a = hd (zs @ Fs @ U2)"
      using NextBlock_ring [of rb "U2 @ Y @ xs" a "zs @ Fs"] s(3,4) old by (auto simp: hd_append)
    show ?thesis
    proof (cases zs)
      case (Cons z zs')
      have "z \<noteq> rb_Produce rb" using d s(7) Cons old by (auto simp: hd_append split: if_splits)
      moreover have "\<not> is_free rb z" using s(5) Cons old by simp
      ultimately show ?thesis using nx Cons old by (simp add: RingBuffer_Next_def fuel)
    next
      case Nil
      have h: "hd U2 \<noteq> rb_Produce rb" "\<not> is_free rb (hd U2)"
        using d s(2,3,5,7) used_hd [of rb U2] by (cases U2; auto simp: hd_append split: if_splits)+
      from s(6) show ?thesis
      proof (cases rule: gap_cases)
        case 1
        then show ?thesis using nx Nil h old s(3) by (simp add: RingBuffer_Next_def fuel)
      next
        case (2 f)
        have "f \<noteq> rb_Produce rb" using d s(2,7) 2 by (auto simp: hd_append split: if_splits)
        moreover have "NextBlock rb f = hd U2"
          using NextBlock_ring [of rb "U2 @ Y @ U1" f "[]"] s(3,4) 2 by (simp add: hd_append)
        ultimately show ?thesis using nx Nil h old 2 s(3) by (simp add: RingBuffer_Next_def fuel)
      qed
    qed
  next
    case new
    have nx: "NextBlock rb a = hd (ys @ Y @ U1 @ Fs)"
      using NextBlock_ring [of rb zs a "ys @ Y @ U1 @ Fs"] s(2,4) new by simp
    show ?thesis
    proof (cases ys)
      case Nil
      then have "NextBlock rb a = rb_Produce rb" using nx s(2,7) by (cases Y) auto
      then show ?thesis using Nil by (simp add: RingBuffer_Next_def fuel)
    next
      case (Cons y ys')
      have "y \<noteq> rb_Produce rb" using d s(2,7) Cons new by (auto simp: hd_append split: if_splits)
      moreover have "\<not> is_free rb y" using s(5) Cons new by simp
      ultimately show ?thesis using nx Cons by (simp add: RingBuffer_Next_def fuel)
    qed
  qed
qed

lemma Next_queue:
  "holds_queue rb (xs @ a # ys) \<Longrightarrow> RingBuffer_Next rb a = Some (if ys = [] then None else Some (hd ys))"
  unfolding holds_queue_def using Next_straight Next_wrapped by blast

text \<open>
  \<open>Last\<close> is the newest item, except when one item fills the whole buffer: then the producer is at
  this item and the code reports an empty buffer.
\<close>

lemma chain_unique:
  "chain I p as None e \<Longrightarrow> chain I p' bs None e \<Longrightarrow> as \<noteq> [] \<Longrightarrow> bs \<noteq> [] \<Longrightarrow> hd as = hd bs \<Longrightarrow> as = bs"
proof (induction as arbitrary: p p' bs)
  case (Cons a as)
  obtain bs' where bs: "bs = a # bs'" using Cons.prems(4,5) by (cases bs) auto
  with Cons.prems have e: "as = [] \<longleftrightarrow> bs' = []" "as \<noteq> [] \<Longrightarrow> hd as = hd bs'" by (auto split: if_splits)
  show ?case
  proof (cases "as = []")
    case False
    with Cons.IH [of "Some a" "Some a" bs'] Cons.prems e bs show ?thesis by simp
  qed (use e bs in simp)
qed simp

lemma ring_unique: "ring rb as \<Longrightarrow> ring rb bs \<Longrightarrow> as = bs"
  unfolding ring_def using chain_unique by metis

lemma Last_queue:
  assumes "holds_queue rb q"
  shows "RingBuffer_Last rb = Some (if q = [] \<or> ring rb q \<and> length q = 1 then None else Some (last q))"
  using assms unfolding holds_queue_def
proof (elim disjE)
  assume "straight rb q"
  then obtain Yb Ya where s: "ring rb (Yb @ q @ Ya)" "used rb q" "gap rb Ya" "gap rb Yb" "q = [] \<Longrightarrow> Yb = []"
    "rb_Produce rb = hd (Ya @ Yb @ q)"
    unfolding straight_def by blast
  obtain fuel where fuel: "max_items rb = Suc (Suc fuel)" using max_items_ge2 [OF s(1)] by blast
  have d: "distinct (Yb @ q @ Ya)" by (rule ring_distinct [OF s(1)])
  show ?thesis
  proof (cases "q = []")
    case True
    with s have "Ya \<noteq> []" by (auto simp: ring_def)
    with s(3) obtain a where "Ya = [a]" by (auto elim: gap_cases)
    then have "PrevBlock rb a = a" using PrevBlock_ring [of rb "[]" a "[]"] s True by simp
    then show ?thesis using True s \<open>Ya = [a]\<close> by (simp add: RingBuffer_Last_def RingBuffer_Prev_def fuel)
  next
    case q: False
    obtain q' l where ql: "q = q' @ [l]" using q by (cases q rule: rev_cases) auto
    have l: "\<not> is_free rb l" using s(2) ql by simp
    show ?thesis
    proof (cases "Ya @ Yb")
      case Nil
      show ?thesis
      proof (cases q')
        case Nil2: Nil
        have "PrevBlock rb l = l" using PrevBlock_ring [of rb "[]" l "[]"] s(1) Nil Nil2 ql by simp
        then show ?thesis using s Nil Nil2 ql by (simp add: RingBuffer_Last_def RingBuffer_Prev_def fuel)
      next
        case (Cons h t)
        have "PrevBlock rb h = l" using PrevBlock_ring [of rb "[]" h "t @ [l]"] s(1) Nil Cons ql by simp
        moreover have "l \<noteq> h" using d Cons ql by auto
        ultimately show ?thesis using s(6) Nil Cons ql l by (simp add: RingBuffer_Last_def RingBuffer_Prev_def fuel)
      qed
    next
      case (Cons p ps)
      have ne: "l \<noteq> p" using d Cons ql by (cases Ya) auto
      have "ring rb q \<Longrightarrow> False" using ring_unique [OF s(1), of q] Cons by (cases Ya) auto
      moreover have "PrevBlock rb p = l"
      proof (cases Ya)
        case Nil
        then have "Yb = [p]" using Cons s(4) by (auto elim: gap_cases)
        then show ?thesis using PrevBlock_ring [of rb "[]" p q] s(1) Nil ql by simp
      next
        case (Cons a as)
        then have "Ya = [p]" using \<open>Ya @ Yb = p # ps\<close> s(3) by (auto elim: gap_cases)
        then show ?thesis using PrevBlock_ring [of rb "Yb @ q" p "[]"] s(1) ql by simp
      qed
      moreover have "rb_Produce rb = p" using s(6) Cons by (cases Ya) auto
      ultimately show ?thesis using ne l ql by (auto simp: RingBuffer_Last_def RingBuffer_Prev_def fuel)
    qed
  qed
next
  assume "wrapped rb q"
  then obtain U1 U2 Y Fs where s: "q = U1 @ U2" "U1 \<noteq> []" "U2 \<noteq> []" "ring rb (U2 @ Y @ U1 @ Fs)"
    "used rb q" "gap rb Y" "rb_Produce rb = hd (Y @ U1)"
    unfolding wrapped_def by blast
  obtain fuel where fuel: "max_items rb = Suc (Suc fuel)" using max_items_ge2 [OF s(4)] by blast
  have d: "distinct (U2 @ Y @ U1 @ Fs)" by (rule ring_distinct [OF s(4)])
  obtain p ps where p: "Y @ U1 = p # ps" using s(2) by (cases "Y @ U1") auto
  have lu: "last U2 \<in> set U2" using s(3) by simp
  have "PrevBlock rb p = last U2"
    using PrevBlock_ring [of rb U2 p "ps @ Fs"] s(3,4) p by (metis append.assoc append_Cons)
  moreover have "rb_Produce rb = p" using s(7) p by simp
  moreover have "last U2 \<noteq> p" using d lu p by (cases Y) auto
  moreover have "\<not> is_free rb (last U2)" using s(1,5) lu by (auto simp: used_def)
  moreover have "length q \<noteq> 1" using s(1,2,3) by (cases U1; cases U2) auto
  ultimately show ?thesis using s(1,3) by (simp add: RingBuffer_Last_def RingBuffer_Prev_def fuel)
qed

section \<open>The queue as an interface\<close>

text \<open>
  What a user of the buffer relies on: \<open>alloc\<close> appends an item or says that there is no room,
  \<open>pop\<close> removes the oldest item, \<open>start\<close> and \<open>next\<close> enumerate the items from the oldest on.
\<close>

locale item_queue =
  fixes holds :: "'s \<Rightarrow> 'i list \<Rightarrow> bool"
    and alloc :: "'s \<Rightarrow> nat \<Rightarrow> ('i option \<times> 's) option"
    and pop :: "'s \<Rightarrow> ('i option \<times> 's) option"
    and start :: "'s \<Rightarrow> 'i option"
    and successor :: "'s \<Rightarrow> 'i \<Rightarrow> 'i option option"
  assumes alloc_law: "holds s q \<Longrightarrow> \<exists>r s'. alloc s n = Some (r, s') \<and>
      (case r of Some i \<Rightarrow> i \<notin> set q \<and> holds s' (q @ [i]) | None \<Rightarrow> s' = s)"
    and pop_law: "holds s q \<Longrightarrow> \<exists>s'. pop s = Some (if q = [] then None else Some (hd q), s') \<and> holds s' (tl q)"
    and start_law: "holds s q \<Longrightarrow> start s = (if q = [] then None else Some (hd q))"
    and successor_law: "holds s (xs @ i # ys) \<Longrightarrow> successor s i = Some (if ys = [] then None else Some (hd ys))"
    and distinct_law: "holds s q \<Longrightarrow> distinct q"

text \<open>The items reached by at most \<open>fuel\<close> calls of \<open>Next\<close>.\<close>

fun collect :: "('i \<Rightarrow> 'i option option) \<Rightarrow> nat \<Rightarrow> 'i option \<Rightarrow> 'i list option" where
  "collect nxt fuel None = Some []"
| "collect nxt 0 (Some i) = None"
| "collect nxt (Suc fuel) (Some i) =
     (case nxt i of None \<Rightarrow> None | Some j \<Rightarrow> map_option ((#) i) (collect nxt fuel j))"

context item_queue
begin

lemma collect_from:
  "holds s (xs @ ys) \<Longrightarrow> length ys \<le> fuel \<Longrightarrow>
     collect (successor s) fuel (if ys = [] then None else Some (hd ys)) = Some ys"
proof (induction ys arbitrary: xs fuel)
  case (Cons i ys)
  then obtain f where f: "fuel = Suc f" "length ys \<le> f" by (cases fuel) auto
  from Cons.IH [of "xs @ [i]" f] Cons.prems(1) f successor_law [of s xs i ys] show ?case by simp
qed simp

lemma collect_all: "holds s q \<Longrightarrow> length q \<le> fuel \<Longrightarrow> collect (successor s) fuel (start s) = Some q"
  using collect_from [of s "[]" q fuel] start_law by simp

lemma holds_unique: "holds s q \<Longrightarrow> holds s q' \<Longrightarrow> q = q'"
  using collect_all [of s q "length q + length q'"] collect_all [of s q' "length q + length q'"] by simp

lemma alloc_cases:
  assumes "holds s q"
  obtains i s' where "alloc s n = Some (Some i, s')" "i \<notin> set q" "holds s' (q @ [i])"
  | "alloc s n = Some (None, s)"
proof -
  obtain r s' where "alloc s n = Some (r, s')"
    "case r of Some i \<Rightarrow> i \<notin> set q \<and> holds s' (q @ [i]) | None \<Rightarrow> s' = s"
    using alloc_law [OF assms, of n] by blast
  with that show thesis by (cases r) auto
qed

lemma pop_Cons:
  assumes "holds s (i # q)"
  obtains s' where "pop s = Some (Some i, s')" "holds s' q"
  using pop_law [OF assms] by auto

lemma pop_Nil: "holds s [] \<Longrightarrow> \<exists>s'. pop s = Some (None, s') \<and> holds s' []"
  using pop_law [of s "[]"] by simp

end

interpretation packets: item_queue "\<lambda>rb q. holds_queue rb q \<and> \<not> rb_Recycle rb" Allocate PopFirst RingBuffer_First RingBuffer_Next
proof (unfold_locales, goal_cases)
  case (1 rb q n)
  from Allocate_queue [of rb q n] 1 obtain r rb' where a: "Allocate rb n = Some (r, rb')"
    "case r of Some b \<Rightarrow> \<exists>k. allocated rb q (wanted_size n) k b rb' | None \<Rightarrow> rb' = rb"
    by (auto split: option.splits)
  show ?case
  proof (cases r)
    case (Some b)
    with a(2) 1 have al: "holds_queue rb' (q @ [b])" "\<not> rb_Recycle rb'" by (auto simp: allocated_def)
    from al(1) have "distinct (q @ [b])" by (elim holds_queue_ring) blast
    with a(1) al Some show ?thesis by auto
  qed (use a in auto)
next
  case (2 rb q)
  show ?case
  proof (cases q)
    case Nil
    with 2 PopFirst_empty [of rb] show ?thesis by auto
  next
    case (Cons c q')
    with 2 obtain rb' where "PopFirst rb = Some (Some c, rb')" "holds_queue rb' q'" "rb_Recycle rb' = rb_Recycle rb"
      by (metis PopFirst_queue)
    with 2 Cons show ?thesis by auto
  qed
next
  case (5 rb q)
  then show ?case by (auto elim: holds_queue_ring)
qed (auto simp: First_queue Next_queue)


section \<open>Any sequence of operations\<close>

text \<open>The items the buffer holds, as a user enumerates them.\<close>

definition items :: "CRingBuffer \<Rightarrow> nat list option" where
  "items rb = collect (RingBuffer_Next rb) (max_items rb) (RingBuffer_First rb)"

lemma items_queue: "holds_queue rb q \<Longrightarrow> items rb = Some q"
proof -
  assume q: "holds_queue rb q"
  have "collect (RingBuffer_Next rb) fuel (if ys = [] then None else Some (hd ys)) = Some ys"
    if "q = xs @ ys" "length ys \<le> fuel" for xs ys fuel
    using that q
  proof (induction ys arbitrary: xs fuel)
    case (Cons i ys)
    then obtain f where f: "fuel = Suc f" "length ys \<le> f" by (cases fuel) auto
    from Cons.IH [of "xs @ [i]" f] Cons.prems f Next_queue [of rb xs i ys] show ?case by simp
  qed simp
  from this [of "[]" q "max_items rb"] queue_length [OF q] First_queue [OF q]
  show ?thesis by (simp add: items_def)
qed

datatype ring_op = Op_Allocate nat | Op_PopFirst | Op_Clear

text \<open>The second component remembers the size that was asked for each item.\<close>

fun ring_step :: "ring_op \<Rightarrow> CRingBuffer \<times> (nat \<Rightarrow> nat) \<Rightarrow> (CRingBuffer \<times> (nat \<Rightarrow> nat)) option" where
  "ring_step (Op_Allocate n) (rb, sz) =
     (case Allocate rb n of
        None \<Rightarrow> None
      | Some (None, rb) \<Rightarrow> Some (rb, sz)
      | Some (Some b, rb) \<Rightarrow> Some (rb, sz(b := n)))"
| "ring_step Op_PopFirst (rb, sz) = map_option (\<lambda>(_, rb). (rb, sz)) (PopFirst rb)"
| "ring_step Op_Clear (rb, sz) = Some (RingBuffer_Clear rb, sz)"

fun ring_run :: "ring_op list \<Rightarrow> CRingBuffer \<times> (nat \<Rightarrow> nat) \<Rightarrow> (CRingBuffer \<times> (nat \<Rightarrow> nat)) option" where
  "ring_run [] s = Some s"
| "ring_run (x # xs) s = (case ring_step x s of None \<Rightarrow> None | Some s \<Rightarrow> ring_run xs s)"

definition sized :: "CRingBuffer \<Rightarrow> (nat \<Rightarrow> nat) \<Rightarrow> nat list \<Rightarrow> bool" where
  "sized rb sz q \<longleftrightarrow> (\<forall>b \<in> set q. ITEM_SIZE + sz b \<le> it_Size (rb_Items rb b))"

lemma ring_step_keeps:
  assumes "holds_queue rb q" "sized rb sz q"
  shows "\<exists>rb' sz' q'. ring_step x (rb, sz) = Some (rb', sz') \<and> holds_queue rb' q' \<and> sized rb' sz' q' \<and>
    rb_Size rb' = rb_Size rb"
proof (cases x)
  case (Op_Allocate n)
  obtain r rb' where a: "Allocate rb n = Some (r, rb')"
    "case r of Some b \<Rightarrow> \<exists>k. allocated rb q (wanted_size n) k b rb' | None \<Rightarrow> rb' = rb"
    using Allocate_queue [OF assms(1), of n] by (auto split: option.splits)
  show ?thesis
  proof (cases r)
    case (Some b)
    with a(2) obtain k where al: "allocated rb q (wanted_size n) k b rb'" by auto
    have "sized rb' (sz(b := n)) (drop k q @ [b])"
      using al assms(2) wanted_size_bounds(1) [of n] in_set_dropD [of _ k q]
      unfolding sized_def allocated_def by (auto intro: order_trans)
    with al a(1) Some Op_Allocate show ?thesis by (auto simp: allocated_def)
  qed (use a assms Op_Allocate in auto)
next
  case Op_PopFirst
  show ?thesis
  proof (cases q)
    case Nil
    with assms PopFirst_empty [of rb] Op_PopFirst show ?thesis by auto
  next
    case (Cons c q')
    with assms(1) obtain rb' where p: "PopFirst rb = Some (Some c, rb')" "holds_queue rb' q'" "rb_Size rb' = rb_Size rb"
      by (metis PopFirst_queue)
    then have "sized rb' sz q'"
      using assms(2) Cons PopFirst_size [OF p(1)] unfolding sized_def by (auto intro: order_trans)
    with p Op_PopFirst show ?thesis by auto
  qed
next
  case Op_Clear
  obtain bs where "ring rb bs" using assms(1) by (elim holds_queue_ring)
  then have "ITEM_SIZE \<le> rb_Size rb" using ring_length [of rb bs] by (cases bs) (auto simp: ring_def)
  then have "ring (RingBuffer_Clear rb) ([] @ [] @ [0])" by (simp add: ring_def RingBuffer_Clear_def)
  then have "holds_queue (RingBuffer_Clear rb) []"
    by (rule straightI) (simp_all add: is_free_def RingBuffer_Clear_def)
  then show ?thesis using Op_Clear by (auto simp: sized_def RingBuffer_Clear_def)
qed

lemma ring_run_keeps:
  "holds_queue rb q \<Longrightarrow> sized rb sz q \<Longrightarrow>
   \<exists>rb' sz' q'. ring_run xs (rb, sz) = Some (rb', sz') \<and> holds_queue rb' q' \<and> sized rb' sz' q' \<and> rb_Size rb' = rb_Size rb"
proof (induction xs arbitrary: rb sz q)
  case (Cons x xs)
  obtain rb1 sz1 q1 where s: "ring_step x (rb, sz) = Some (rb1, sz1)" "holds_queue rb1 q1" "sized rb1 sz1 q1" "rb_Size rb1 = rb_Size rb"
    using ring_step_keeps [OF Cons.prems] by blast
  from Cons.IH [OF s(2,3)] s(1,4) show ?case by simp
qed auto

text \<open>The items of a chain lie apart.\<close>

lemma chain_apart:
  assumes "chain I p as n e" "a \<in> set as"
  shows "a + it_Size (I a) \<le> e" "b \<in> set as \<Longrightarrow> a < b \<Longrightarrow> a + it_Size (I a) \<le> b"
proof -
  obtain xs ys where as: "as = xs @ a # ys" using assms(2) by (meson split_list)
  then have c: "chain I (if xs = [] then p else Some (last xs)) (a # ys) n e" "chain I p (xs @ [a]) (if ys = [] then n else Some (hd ys)) (if ys = [] then e else hd ys)"
    using assms(1) chain_append [of I p xs "a # ys" n e] chain_append [of I p "xs @ [a]" ys n e] by simp_all
  note inc = chain_increasing [OF c(1)] chain_increasing [OF assms(1)]
  have step: "a + it_Size (I a) = (if ys = [] then e else hd ys)" using c(1) by auto
  have "hd ys \<le> e" if "ys \<noteq> []" using that inc(1) by (cases ys) auto
  with step show "a + it_Size (I a) \<le> e" by auto
  assume b: "b \<in> set as" "a < b"
  have "b \<notin> set (xs @ [a])" using inc(2) b(2) as by (auto simp: sorted_wrt_append)
  then have "b \<in> set ys" using b(1) as by auto
  then have "ys \<noteq> []" "hd ys \<le> b" using inc(1) by (cases ys; auto)+
  with step show "a + it_Size (I a) \<le> b" by auto
qed

section \<open>Filling an empty ring\<close>

text \<open>
  Items that fit together into a ring by their sizes can be allocated one after the other in a ring
  that was just initialised: they lie back to back from the start, up to the offset \<open>W\<close>.
\<close>

definition filled :: "CRingBuffer \<Rightarrow> nat list \<Rightarrow> nat \<Rightarrow> bool" where
  "filled rb q W \<longleftrightarrow> (\<exists>new. ring rb (q @ new) \<and> used rb q \<and> gap rb new \<and>
     rb_Produce rb = hd (new @ q) \<and> rb_Consume rb = hd (q @ new) \<and>
     (new = [W] \<or> new = [] \<and> rb_Size rb \<le> W + ITEM_SIZE))"

lemma filled_queue: "filled rb q W \<Longrightarrow> holds_queue rb q"
proof -
  assume "filled rb q W"
  then obtain new where n: "ring rb ([] @ q @ new)" "used rb q" "gap rb new"
    "rb_Produce rb = hd (new @ [] @ q)" "rb_Consume rb = hd (q @ new)"
    unfolding filled_def by auto
  show ?thesis by (rule straightI [OF n(1,2) _ n(3) _ n(4,5)]) simp_all
qed

lemma Init_filled:
  assumes "ITEM_SIZE \<le> Size"
  shows "filled (RingBuffer_Init Size Recycle rb) [] 0"
  using assms unfolding filled_def
  by (intro exI [of _ "[0]"])
    (simp add: ring_def RingBuffer_Init_def RingBuffer_Clear_def is_free_def ITEM_SIZE_def)

lemma take_block_size:
  assumes "ring rb (xs @ a # ys)" "ITEM_SIZE \<le> w"
  shows "it_Size (rb_Items (take_block rb a w) a) =
    (if w + ITEM_SIZE < it_Size (rb_Items rb a) then w else it_Size (rb_Items rb a))"
  using split_block_splits(4) [OF assms]
  by (simp add: take_block_def Let_def update_item_def) (simp add: split_block_def)

lemma filled_allocate:
  assumes f: "filled rb q W" and room: "W + wanted_size n \<le> rb_Size rb" "0 < n" and rec: "\<not> rb_Recycle rb"
  obtains i rb' where "Allocate rb n = Some (Some i, rb')" "filled rb' (q @ [i]) (W + wanted_size n)"
    "rb_Size rb' = rb_Size rb" "\<not> rb_Recycle rb'" "i \<notin> set q" "wanted_size n \<le> it_Size (rb_Items rb' i)"
    "\<And>j. j \<in> set q \<Longrightarrow> it_Size (rb_Items rb' j) = it_Size (rb_Items rb j)"
proof -
  let ?w = "wanted_size n"
  have w: "ITEM_SIZE < ?w" using wanted_size_bounds(1) [of n] room(2) by simp
  with f room obtain a where a: "ring rb (q @ [W])" "used rb q" "is_free rb W" "rb_Produce rb = W" "rb_Consume rb = hd (q @ [W])"
    by (auto simp: filled_def)
  have end_a: "W + it_Size (rb_Items rb W) = rb_Size rb" using a(1) by (simp add: ring_def chain_append)
  then have fit: "?w \<le> it_Size (rb_Items rb W)" using room by simp
  have find: "find_block rb ?w = Some W" using a(3,4) fit by (simp add: find_block_def)
  let ?rb = "take_block rb W ?w"
  have r1: "ring rb (q @ W # [])" using a(1) by simp
  have al: "Allocate rb n = Some (Some W, ?rb)" using room find by (simp add: Allocate_def)
  obtain new where new: "ring ?rb (q @ W # new @ [])" "length new \<le> 1"
    "\<And>b. b \<in> set new \<Longrightarrow> is_free ?rb b" "\<not> is_free ?rb W"
    "\<And>b. b \<in> set (q @ []) \<Longrightarrow> is_free ?rb b = is_free rb b"
    "rb_Produce ?rb = (if new @ [] = [] then hd (q @ [W]) else hd (new @ []))"
    "rb_Consume ?rb = rb_Consume rb" "rb_Size ?rb = rb_Size rb" "rb_Recycle ?rb = rb_Recycle rb"
    "?w \<le> it_Size (rb_Items ?rb W)"
    "\<And>b. b \<in> set (q @ []) \<Longrightarrow> it_Size (rb_Items ?rb b) = it_Size (rb_Items rb b)"
    by (rule take_block_ring [OF r1 less_imp_le [OF w] fit], rule that, assumption+)
  note size = take_block_size [OF r1 less_imp_le [OF w]]
  have c: "chain (rb_Items ?rb) None (q @ W # new) None (rb_Size rb)" using new(1,8) by (simp add: ring_def)
  then have step: "W + it_Size (rb_Items ?rb W) = (if new = [] then rb_Size rb else hd new)"
    by (auto simp: chain_append)
  have last: "b + ITEM_SIZE \<le> rb_Size rb" if "b \<in> set new" for b using chain_increasing [OF c] that by simp
  have "new = [W + ?w] \<or> new = [] \<and> rb_Size rb \<le> W + ?w + ITEM_SIZE"
  proof (cases new)
    case Nil
    with step size end_a show ?thesis by (auto split: if_splits)
  next
    case (Cons b bs)
    then have "bs = []" using new(2) by simp
    moreover have "b = W + ?w"
      using step size end_a last [of b] Cons by (auto simp: ITEM_SIZE_def split: if_splits)
    ultimately show ?thesis using Cons by simp
  qed
  moreover have "used ?rb q" using a(2) new(5) by (auto simp: used_def)
  ultimately have "filled ?rb (q @ [W]) (W + ?w)"
    using new a(5) unfolding filled_def by (intro exI [of _ new]) (auto simp: gap_def hd_append)
  moreover have "W \<notin> set q" using ring_distinct [OF r1] by simp
  ultimately show thesis using al new rec by (intro that [of W ?rb]) simp_all
qed

text \<open>The blocks fill the ring.\<close>

lemma chain_sum: "chain I p as n e \<Longrightarrow> as \<noteq> [] \<Longrightarrow> hd as + (\<Sum>a \<leftarrow> as. it_Size (I a)) = e"
proof (induction as arbitrary: p)
  case (Cons a as)
  then show ?case by (cases as) auto
qed simp

lemma queue_sum:
  assumes "holds_queue rb q"
  shows "(\<Sum>i \<leftarrow> q. it_Size (rb_Items rb i)) \<le> rb_Size rb"
proof -
  obtain bs where bs: "ring rb bs" "set q \<subseteq> set bs" "distinct q" using assms by (elim holds_queue_ring) blast
  let ?s = "\<lambda>i. it_Size (rb_Items rb i)"
  have "(\<Sum>i \<leftarrow> q. ?s i) = sum ?s (set q)" using bs(3) by (rule sum_list_distinct_conv_sum_set)
  also have "\<dots> \<le> sum ?s (set bs)" using bs(2) by (intro sum_mono2) auto
  also have "\<dots> = (\<Sum>i \<leftarrow> bs. ?s i)" using ring_distinct [OF bs(1)] by (simp add: sum_list_distinct_conv_sum_set)
  also have "\<dots> = rb_Size rb" using bs(1) chain_sum [of "rb_Items rb" None bs None "rb_Size rb"] by (auto simp: ring_def)
  finally show ?thesis .
qed

section \<open>Properties\<close>

definition fresh_ring :: CRingBuffer where
  "fresh_ring = \<lparr>rb_Items = \<lambda>_. \<lparr>it_Prev = None, it_Next = None, it_Free = False, it_Size = 0\<rparr>,
     rb_Produce = 0, rb_Consume = 0, rb_First = 0, rb_Last = 0, rb_Size = 0, rb_Recycle = False\<rparr>"

text \<open>
  C21: The ring buffer implements a queue: in every state that holds the items \<open>q\<close>, \<open>First\<close> and
  \<open>Next\<close> enumerate \<open>q\<close>, \<open>PopFirst\<close> ends and removes the head, and \<open>Allocate\<close> ends and either
  appends one item behind at least the requested bytes (after dropping the oldest \<open>k\<close> items, only
  with recycling) or changes nothing, with recycling only if the request exceeds the buffer.
\<close>

theorem ring_fifo:
  assumes "holds_queue rb q"
  shows "items rb = Some q \<and>
    (\<exists>rb'. PopFirst rb = Some (if q = [] then None else Some (hd q), rb') \<and> holds_queue rb' (tl q)) \<and>
    (\<exists>r rb'. Allocate rb Size = Some (r, rb') \<and>
      (case r of
         Some b \<Rightarrow> \<exists>k. k \<le> length q \<and> (k = 0 \<or> rb_Recycle rb) \<and> holds_queue rb' (drop k q @ [b]) \<and>
           Size + ITEM_SIZE \<le> it_Size (rb_Items rb' b)
       | None \<Rightarrow> rb' = rb \<and> (rb_Size rb < wanted_size Size \<or> \<not> rb_Recycle rb)))"
proof (intro conjI)
  show "items rb = Some q" by (rule items_queue [OF assms])
  show "\<exists>rb'. PopFirst rb = Some (if q = [] then None else Some (hd q), rb') \<and> holds_queue rb' (tl q)"
    using assms PopFirst_empty [of rb] by (cases q) (auto elim: PopFirst_queue)
  obtain r rb' where a: "Allocate rb Size = Some (r, rb')"
    "case r of Some b \<Rightarrow> \<exists>k. allocated rb q (wanted_size Size) k b rb'
       | None \<Rightarrow> rb' = rb \<and> (rb_Recycle rb \<longrightarrow> rb_Size rb < wanted_size Size)"
    using Allocate_queue [OF assms] by blast
  then show "\<exists>r rb'. Allocate rb Size = Some (r, rb') \<and>
      (case r of
         Some b \<Rightarrow> \<exists>k. k \<le> length q \<and> (k = 0 \<or> rb_Recycle rb) \<and> holds_queue rb' (drop k q @ [b]) \<and>
           Size + ITEM_SIZE \<le> it_Size (rb_Items rb' b)
       | None \<Rightarrow> rb' = rb \<and> (rb_Size rb < wanted_size Size \<or> \<not> rb_Recycle rb))"
    using wanted_size_bounds(1) [of Size] by (cases r) (auto simp: allocated_def intro: order_trans)
qed

lemma ring_fifo_witness:
  "items (RingBuffer_Init 240 True fresh_ring) = Some [] \<and>
   (\<exists>rb. PopFirst (RingBuffer_Init 240 True fresh_ring) = Some (None, rb) \<and> holds_queue rb [])"
  using ring_fifo [OF Init_queue [of 240 True fresh_ring]] by (simp add: ITEM_SIZE_def)

text \<open>
  C27: Whatever sequence of \<open>Allocate\<close>, \<open>PopFirst\<close> and \<open>Clear\<close> follows the initialisation of a
  buffer that has room for one item header, no loop runs forever, and the items that \<open>First\<close> and
  \<open>Next\<close> enumerate lie inside the buffer, each with the bytes its user asked for, and apart.
\<close>

theorem ring_run_safe:
  assumes "ITEM_SIZE \<le> Size"
  shows "\<exists>rb sz q. ring_run ops (RingBuffer_Init Size Recycle rb0, sz0) = Some (rb, sz) \<and> items rb = Some q \<and> distinct q \<and>
    (\<forall>a \<in> set q. a + ITEM_SIZE + sz a \<le> Size) \<and>
    (\<forall>a \<in> set q. \<forall>b \<in> set q. a < b \<longrightarrow> a + ITEM_SIZE + sz a \<le> b)"
proof -
  obtain rb sz q where r: "ring_run ops (RingBuffer_Init Size Recycle rb0, sz0) = Some (rb, sz)" "holds_queue rb q"
    "sized rb sz q" "rb_Size rb = Size div ITEM_SIZE * ITEM_SIZE"
    using ring_run_keeps [OF Init_queue [OF assms, of Recycle rb0], of sz0 ops]
    by (auto simp: sized_def RingBuffer_Init_def RingBuffer_Clear_def)
  obtain bs where bs: "ring rb bs" "set q \<subseteq> set bs" "distinct q"
    using r(2) by (elim holds_queue_ring)
  then have c: "chain (rb_Items rb) None bs None (rb_Size rb)" by (simp add: ring_def)
  have sz: "a + ITEM_SIZE + sz a \<le> a + it_Size (rb_Items rb a)" if "a \<in> set q" for a
    using r(3) that by (simp add: sized_def)
  have "a + ITEM_SIZE + sz a \<le> Size" if "a \<in> set q" for a
  proof -
    have "a + it_Size (rb_Items rb a) \<le> rb_Size rb" using chain_apart(1) [OF c] that bs(2) by blast
    with sz [OF that] r(4) show ?thesis using div_times_less_eq_dividend [of Size ITEM_SIZE] by linarith
  qed
  moreover have "a + ITEM_SIZE + sz a \<le> b" if "a \<in> set q" "b \<in> set q" "a < b" for a b
    using chain_apart(2) [OF c _ _ that(3)] that(1,2) bs(2) sz [OF that(1)] by fastforce
  ultimately show ?thesis using r(1) items_queue [OF r(2)] bs(3) by blast
qed

lemma ring_run_safe_witness:
  "\<exists>rb sz q. ring_run [Op_Allocate 30, Op_Allocate 10, Op_PopFirst, Op_Allocate 70] (RingBuffer_Init 240 True fresh_ring, \<lambda>_. 0)
      = Some (rb, sz) \<and> items rb = Some q \<and> (\<forall>a \<in> set q. a + ITEM_SIZE + sz a \<le> 240)"
  using ring_run_safe [of 240 "[Op_Allocate 30, Op_Allocate 10, Op_PopFirst, Op_Allocate 70]" True fresh_ring "\<lambda>_. 0"]
  by (force simp: ITEM_SIZE_def)

text \<open>
  \<open>Last\<close> ends and gives the newest item, or the null pointer when there is no item, but also
  when a single item fills the whole buffer.
\<close>

theorem ring_last:
  assumes "holds_queue rb q"
  shows "RingBuffer_Last rb = Some (if q = [] \<or> ring rb q \<and> length q = 1 then None else Some (last q))"
  by (rule Last_queue [OF assms])

lemma ring_last_witness: "RingBuffer_Last (RingBuffer_Init 240 True fresh_ring) = Some None"
  using ring_last [OF Init_queue [of 240 True fresh_ring]] by (simp add: ITEM_SIZE_def)

end
