(* ===== verification/NetConn.thy ===== *)
theory NetConn
  imports NetPacket RingBuffer Utf8 "HOL-Library.Monad_Syntax" "HOL-Library.Sublist"
begin

text \<open>
  The connection of \<^verbatim>\<open>src/src/engine/shared/network_conn.cpp\<close> and the unpacker of received
  packets of \<^verbatim>\<open>network.cpp\<close>. An operation takes the connection and its surroundings, the
  datagrams given to the socket so far and the clock, and returns them changed; \<open>None\<close> is a
  loop that does not end.
\<close>

section \<open>The surroundings\<close>

text \<open>\<open>n_Clock n k\<close> is what the \<open>k\<close>-th call of \<open>time_get\<close> returns.\<close>

record net =
  n_Sent :: "datagram list"
  n_Clock :: "nat \<Rightarrow> int"
  n_Ticks :: nat

definition time_get :: "net \<Rightarrow> int \<times> net" where
  "time_get n = (n_Clock n (n_Ticks n), n\<lparr>n_Ticks := Suc (n_Ticks n)\<rparr>)"

definition time_freq :: int where
  "time_freq = 1000000000"

definition net_send :: "datagram \<Rightarrow> net \<Rightarrow> net" where
  "net_send d n = n\<lparr>n_Sent := n_Sent n @ [d]\<rparr>"

text \<open>The variables of \<open>g_Config\<close> the connection reads.\<close>

record conn_config =
  g_ConnTimeout :: int
  g_ConnTimeoutProtection :: int

section \<open>State\<close>

datatype conn_state = OFFLINE | TOKEN | CONNECT | PENDING | ONLINE | ERROR

record CNetChunkResend =
  rs_Flags :: int
  rs_Data :: "u8 list"
  rs_Sequence :: int
  rs_LastSendTime :: int
  rs_FirstSendTime :: int

text \<open>
  \<open>c_Resends\<close> holds the contents of the items of the ring buffer \<open>c_Buffer\<close>.
\<close>

record CNetConnection =
  c_Sequence :: int
  c_Ack :: int
  c_PeerAck :: int
  c_State :: conn_state
  c_SecurityToken :: i32
  c_RemoteClosed :: bool
  c_BlockCloseMsg :: bool
  c_UnknownSeq :: bool
  c_Buffer :: CRingBuffer
  c_Resends :: "nat \<Rightarrow> CNetChunkResend"
  c_LastUpdateTime :: int
  c_LastRecvTime :: int
  c_LastSendTime :: int
  c_ErrorString :: "u8 list"
  c_Construct :: CNetPacketConstruct
  c_ConnectAddrs :: "NETADDR list"
  c_PeerAddr :: NETADDR
  c_TimeoutProtected :: bool
  c_TimeoutSituation :: bool
  c_Sixup :: bool
  c_Token :: i32

definition NET_CONN_BUFFERSIZE :: nat where
  "NET_CONN_BUFFERSIZE = 32768"

text \<open>\<open>sizeof(CNetChunkResend)\<close>.\<close>

definition RESEND_SIZE :: nat where
  "RESEND_SIZE = 40"

definition zero_addr :: NETADDR where
  "zero_addr = \<lparr>na_type = 0, na_ip = replicate 16 0, na_port = 0\<rparr>"

definition empty_construct :: CNetPacketConstruct where
  "empty_construct = \<lparr>p_Flags = 0, p_Ack = 0, p_NumChunks = 0, p_aChunkData = [], p_aExtraData = []\<rparr>"

section \<open>Setting up and resetting\<close>

definition SetPeerAddr :: "NETADDR \<Rightarrow> CNetConnection \<Rightarrow> CNetConnection" where
  "SetPeerAddr addr c = c\<lparr>c_PeerAddr := addr\<rparr>"

definition ClearPeerAddr :: "CNetConnection \<Rightarrow> CNetConnection" where
  "ClearPeerAddr c = c\<lparr>c_PeerAddr := zero_addr\<rparr>"

definition ResetStats :: "CNetConnection \<Rightarrow> CNetConnection" where
  "ResetStats c = (ClearPeerAddr c)\<lparr>c_LastUpdateTime := 0\<rparr>"

definition Conn_Reset :: "bool \<Rightarrow> CNetConnection \<Rightarrow> CNetConnection" where
  "Conn_Reset Rejoin c =
     (let c = c\<lparr>c_Sequence := 0, c_Ack := 0, c_PeerAck := 0, c_RemoteClosed := False\<rparr>;
          c = (if \<not> Rejoin
               then c\<lparr>c_TimeoutProtected := False, c_TimeoutSituation := False, c_State := OFFLINE,
                      c_Token := -1, c_SecurityToken := NET_SECURITY_TOKEN_UNKNOWN, c_Sixup := False\<rparr>
               else c)
      in c\<lparr>c_LastSendTime := 0, c_LastRecvTime := 0, c_ConnectAddrs := [], c_UnknownSeq := False,
           c_Buffer := RingBuffer_Init NET_CONN_BUFFERSIZE False (c_Buffer c),
           c_Construct := empty_construct\<rparr>)"

definition SetError :: "u8 list \<Rightarrow> CNetConnection \<Rightarrow> CNetConnection" where
  "SetError str c = c\<lparr>c_ErrorString := str_copy str 256\<rparr>"

definition Conn_Init :: "bool \<Rightarrow> CNetConnection \<Rightarrow> CNetConnection" where
  "Conn_Init BlockCloseMsg c = (ResetStats (Conn_Reset False c))\<lparr>c_BlockCloseMsg := BlockCloseMsg, c_ErrorString := []\<rparr>"

section \<open>Sending\<close>

text \<open>The fuel of the loops over the ring buffer is the number of items it can hold.\<close>

fun ack_loop :: "nat \<Rightarrow> int \<Rightarrow> CNetConnection \<Rightarrow> CNetConnection option" where
  "ack_loop 0 Ack c = None"
| "ack_loop (Suc fuel) Ack c =
     (case RingBuffer_First (c_Buffer c) of
        None \<Rightarrow> Some c
      | Some i \<Rightarrow>
          if IsSeqInBackroom (rs_Sequence (c_Resends c i)) Ack
          then do {
            (_, rb) \<leftarrow> PopFirst (c_Buffer c);
            ack_loop fuel Ack (c\<lparr>c_Buffer := rb\<rparr>)
          }
          else Some c)"

definition AckChunks :: "int \<Rightarrow> CNetConnection \<Rightarrow> CNetConnection option" where
  "AckChunks Ack c = ack_loop (max_items (c_Buffer c)) Ack c"

definition SignalResend :: "CNetConnection \<Rightarrow> CNetConnection" where
  "SignalResend c = c\<lparr>c_Construct := (c_Construct c)\<lparr>p_Flags := p_Flags (c_Construct c) OR NET_PACKETFLAG_RESEND\<rparr>\<rparr>"

definition Flush :: "CNetConnection \<Rightarrow> net \<Rightarrow> int \<times> CNetConnection \<times> net" where
  "Flush c n =
     (let NumChunks = p_NumChunks (c_Construct c)
      in if NumChunks = 0 \<and> p_Flags (c_Construct c) = 0 then (0, c, n)
         else
           let pkt = (c_Construct c)\<lparr>p_Ack := c_Ack c\<rparr>;
               n = net_send (SendPacket (c_PeerAddr c) pkt (c_SecurityToken c) (c_Sixup c) False) n;
               (t, n) = time_get n
           in (NumChunks, c\<lparr>c_LastSendTime := t, c_Construct := empty_construct\<rparr>, n))"

definition pack_chunk :: "bool \<Rightarrow> int \<Rightarrow> u8 list \<Rightarrow> int \<Rightarrow> u8 list" where
  "pack_chunk Sixup Flags Data Sequence =
     ChunkHeader_Pack \<lparr>h_Flags = Flags, h_Size = int (length Data), h_Sequence = Sequence\<rparr> (if Sixup then 6 else 4) @ Data"

text \<open>The part of \<open>QueueChunkEx\<close> that keeps a vital chunk for resending.\<close>

definition save_chunk :: "int \<Rightarrow> u8 list \<Rightarrow> int \<Rightarrow> CNetConnection \<Rightarrow> net \<Rightarrow> (int \<times> CNetConnection \<times> net) option" where
  "save_chunk Flags Data Sequence c n =
     do {
       (r, rb) \<leftarrow> Allocate (c_Buffer c) (RESEND_SIZE + length Data);
       case r of
         Some i \<Rightarrow>
           let (t, n) = time_get n
           in Some (0, c\<lparr>c_Buffer := rb,
                  c_Resends := (c_Resends c)(i := \<lparr>rs_Flags = Flags, rs_Data = Data, rs_Sequence = Sequence,
                                                  rs_LastSendTime = t, rs_FirstSendTime = t\<rparr>)\<rparr>, n)
       | None \<Rightarrow> Some (-1, c\<lparr>c_Buffer := rb\<rparr>, n)
     }"

definition QueueChunkEx :: "int \<Rightarrow> u8 list \<Rightarrow> int \<Rightarrow> CNetConnection \<Rightarrow> net \<Rightarrow> (int \<times> CNetConnection \<times> net) option" where
  "QueueChunkEx Flags Data Sequence c n =
     (if c_State c = OFFLINE \<or> c_State c = ERROR then Some (-1, c, n)
      else
        let (c, n) = (if length (p_aChunkData (c_Construct c)) + length Data + NET_MAX_CHUNKHEADERSIZE > NET_MAX_PAYLOAD - 4
                      then snd (Flush c n) else (c, n));
            pkt = c_Construct c;
            c = c\<lparr>c_Construct := pkt\<lparr>p_aChunkData := p_aChunkData pkt @ pack_chunk (c_Sixup c) Flags Data Sequence,
                                       p_NumChunks := p_NumChunks pkt + 1\<rparr>\<rparr>
        in if Flags AND NET_CHUNKFLAG_VITAL \<noteq> 0 \<and> Flags AND NET_CHUNKFLAG_RESEND = 0
           then save_chunk Flags Data Sequence c n
           else Some (0, c, n))"

definition QueueChunk :: "int \<Rightarrow> u8 list \<Rightarrow> CNetConnection \<Rightarrow> net \<Rightarrow> (int \<times> CNetConnection \<times> net) option" where
  "QueueChunk Flags Data c n =
     (let c = (if Flags AND NET_CHUNKFLAG_VITAL \<noteq> 0 then c\<lparr>c_Sequence := (c_Sequence c + 1) mod NET_MAX_SEQUENCE\<rparr> else c)
      in QueueChunkEx Flags Data (c_Sequence c) c n)"

definition SendConnect :: "CNetConnection \<Rightarrow> net \<Rightarrow> CNetConnection \<times> net" where
  "SendConnect c n =
     (let (t, n) = time_get n;
          c = c\<lparr>c_LastSendTime := t\<rparr>
      in (c, foldl (\<lambda>n addr. net_send (SendControlMsg addr (c_Ack c) NET_CTRLMSG_CONNECT SECURITY_TOKEN_MAGIC
                                        (c_SecurityToken c) (c_Sixup c)) n) n (c_ConnectAddrs c)))"

definition SendControl :: "int \<Rightarrow> u8 list \<Rightarrow> CNetConnection \<Rightarrow> net \<Rightarrow> CNetConnection \<times> net" where
  "SendControl ControlMsg pExtra c n =
     (let (t, n) = time_get n;
          c = c\<lparr>c_LastSendTime := t\<rparr>
      in (c, net_send (SendControlMsg (c_PeerAddr c) (c_Ack c) ControlMsg pExtra (c_SecurityToken c) (c_Sixup c)) n))"

text \<open>\<open>stack\<close> is the uninitialised part of the request buffer, see \<open>SendControlMsgWithToken7\<close>.\<close>

definition SendControlWithToken7 :: "u8 list \<Rightarrow> int \<Rightarrow> i32 \<Rightarrow> CNetConnection \<Rightarrow> net \<Rightarrow> CNetConnection \<times> net" where
  "SendControlWithToken7 stack ControlMsg ResponseToken c n =
     (let (t, n) = time_get n;
          c = c\<lparr>c_LastSendTime := t\<rparr>
      in (c, net_send (SendControlMsgWithToken7 stack (c_PeerAddr c) ResponseToken 0 ControlMsg (c_Token c) True) n))"

definition ResendChunk :: "nat \<Rightarrow> CNetConnection \<Rightarrow> net \<Rightarrow> (CNetConnection \<times> net) option" where
  "ResendChunk i c n =
     (let r = c_Resends c i
      in do {
        (_, c, n) \<leftarrow> QueueChunkEx (rs_Flags r OR NET_CHUNKFLAG_RESEND) (rs_Data r) (rs_Sequence r) c n;
        let (t, n) = time_get n
        in Some (c\<lparr>c_Resends := (c_Resends c)(i := (c_Resends c i)\<lparr>rs_LastSendTime := t\<rparr>)\<rparr>, n)
      })"

fun resend_loop :: "nat \<Rightarrow> nat option \<Rightarrow> CNetConnection \<Rightarrow> net \<Rightarrow> (CNetConnection \<times> net) option" where
  "resend_loop fuel None c n = Some (c, n)"
| "resend_loop 0 (Some i) c n = None"
| "resend_loop (Suc fuel) (Some i) c n =
     do {
       (c, n) \<leftarrow> ResendChunk i c n;
       j \<leftarrow> RingBuffer_Next (c_Buffer c) i;
       resend_loop fuel j c n
     }"

definition Resend :: "CNetConnection \<Rightarrow> net \<Rightarrow> (CNetConnection \<times> net) option" where
  "Resend c n = resend_loop (max_items (c_Buffer c)) (RingBuffer_First (c_Buffer c)) c n"

section \<open>Connecting and disconnecting\<close>

definition Conn_Connect :: "NETADDR list \<Rightarrow> CNetConnection \<Rightarrow> net \<Rightarrow> int \<times> CNetConnection \<times> net" where
  "Conn_Connect addrs c n =
     (if c_State c \<noteq> OFFLINE then (-1, c, n)
      else
        let c = ClearPeerAddr (Conn_Reset False c);
            c = c\<lparr>c_ConnectAddrs := addrs, c_ErrorString := [], c_State := CONNECT\<rparr>
        in (0, SendConnect c n))"

definition SetToken7 :: "i32 \<Rightarrow> CNetConnection \<Rightarrow> CNetConnection" where
  "SetToken7 Token c = (if c_State c \<noteq> OFFLINE then c else c\<lparr>c_Token := Token\<rparr>)"

text \<open>\<open>rnd\<close> is the token \<open>GenerateToken7\<close> draws.\<close>

definition Conn_Connect7 :: "u8 list \<Rightarrow> i32 \<Rightarrow> NETADDR list \<Rightarrow> CNetConnection \<Rightarrow> net \<Rightarrow> int \<times> CNetConnection \<times> net" where
  "Conn_Connect7 stack rnd addrs c n =
     (if c_State c \<noteq> OFFLINE then (-1, c, n)
      else
        let c = (Conn_Reset False c)\<lparr>c_ConnectAddrs := addrs\<rparr>;
            (t, n) = time_get n;
            c = SetToken7 rnd (SetPeerAddr (hd addrs) (c\<lparr>c_LastRecvTime := t\<rparr>));
            c = c\<lparr>c_ErrorString := [], c_State := TOKEN\<rparr>;
            (c, n) = SendControlWithToken7 stack NET_CTRLMSG_TOKEN NET_TOKEN_NONE c n
        in (0, c\<lparr>c_Sixup := True\<rparr>, n))"

text \<open>
  The reason is the null pointer \<open>No_reason\<close>, the connection's own error string, or another string.
\<close>

datatype reason = No_reason | Own_error_string | Reason "u8 list"

definition Conn_Disconnect :: "reason \<Rightarrow> CNetConnection \<Rightarrow> net \<Rightarrow> CNetConnection \<times> net" where
  "Conn_Disconnect reason c n =
     (if c_State c = OFFLINE then (c, n)
      else
        let (c, n) =
          (if c_RemoteClosed c then (c, n)
           else
             let (c, n) = (if c_TimeoutSituation c then (c, n)
                           else SendControl NET_CTRLMSG_CLOSE
                             (case reason of No_reason \<Rightarrow> [] | Own_error_string \<Rightarrow> c_ErrorString c @ [0] | Reason s \<Rightarrow> s @ [0]) c n)
             in (case reason of
                   No_reason \<Rightarrow> c\<lparr>c_ErrorString := []\<rparr>
                 | Own_error_string \<Rightarrow> c
                 | Reason s \<Rightarrow> c\<lparr>c_ErrorString := str_copy s 256\<rparr>, n))
        in (Conn_Reset False c, n))"

definition DirectInit :: "NETADDR \<Rightarrow> i32 \<Rightarrow> i32 \<Rightarrow> bool \<Rightarrow> CNetConnection \<Rightarrow> net \<Rightarrow> CNetConnection \<times> net" where
  "DirectInit addr SecurityToken Token Sixup c n =
     (let c = SetPeerAddr addr ((Conn_Reset False c)\<lparr>c_State := ONLINE\<rparr>);
          (Now, n) = time_get n
      in (c\<lparr>c_ErrorString := [], c_LastSendTime := Now, c_LastRecvTime := Now, c_LastUpdateTime := Now,
            c_SecurityToken := SecurityToken, c_Token := Token, c_Sixup := Sixup\<rparr>, n))"

section \<open>Feeding a received packet\<close>

text \<open>
  A packet in the receive buffer: \<open>rp_Mem\<close> is the array \<open>m_aChunkData\<close> with the members behind it,
  of which the first \<open>rp_DataSize\<close> bytes are data; the bytes behind them are left over from before.
\<close>

record rpacket =
  rp_Flags :: int
  rp_Ack :: int
  rp_NumChunks :: int
  rp_DataSize :: nat
  rp_Mem :: "u8 list"

definition in_memory :: "CNetPacketConstruct \<Rightarrow> u8 list \<Rightarrow> rpacket" where
  "in_memory p stale = \<lparr>rp_Flags = p_Flags p, rp_Ack = p_Ack p, rp_NumChunks = p_NumChunks p,
     rp_DataSize = length (p_aChunkData p), rp_Mem = p_aChunkData p @ stale\<rparr>"

definition c_string :: "u8 list \<Rightarrow> u8 list" where
  "c_string p = takeWhile (\<lambda>b. b \<noteq> 0) p"

definition rp_magic :: "rpacket \<Rightarrow> bool" where
  "rp_magic p \<longleftrightarrow> 9 \<le> rp_DataSize p \<and> take 4 (drop 1 (rp_Mem p)) = SECURITY_TOKEN_MAGIC"

text \<open>The checks before a packet is looked at: \<open>None\<close> is an ignored packet.\<close>

definition feed_checks :: "rpacket \<Rightarrow> NETADDR \<Rightarrow> i32 \<Rightarrow> CNetConnection \<Rightarrow> rpacket option" where
  "feed_checks p addr SecurityToken c =
     (if c_State c \<noteq> OFFLINE \<and> c_State c \<noteq> CONNECT \<and> addr \<noteq> c_PeerAddr c then None
      else
        do {
          p \<leftarrow> (if \<not> c_Sixup c \<and> c_State c \<noteq> OFFLINE \<and> c_SecurityToken c \<noteq> NET_SECURITY_TOKEN_UNKNOWN
                  \<and> c_SecurityToken c \<noteq> NET_SECURITY_TOKEN_UNSUPPORTED
                then if rp_DataSize p < 4 then None
                     else
                       let p = p\<lparr>rp_DataSize := rp_DataSize p - 4\<rparr>
                       in if c_SecurityToken c \<noteq> ToSecurityToken (drop (rp_DataSize p) (rp_Mem p)) then None else Some p
                else Some p);
          if c_Sixup c \<and> SecurityToken \<noteq> c_Token c then None
          else if c_Sequence c \<ge> c_PeerAck c
            then if rp_Ack p < c_PeerAck c \<or> rp_Ack p > c_Sequence c then None else Some p
          else if rp_Ack p < c_PeerAck c \<and> rp_Ack p > c_Sequence c then None
          else Some p
        })"

text \<open>The data size is reduced even when the token does not match.\<close>

definition feed_trim :: "rpacket \<Rightarrow> NETADDR \<Rightarrow> CNetConnection \<Rightarrow> rpacket" where
  "feed_trim p addr c =
     (if \<not> (c_State c \<noteq> OFFLINE \<and> c_State c \<noteq> CONNECT \<and> addr \<noteq> c_PeerAddr c) \<and>
         \<not> c_Sixup c \<and> c_State c \<noteq> OFFLINE \<and> c_SecurityToken c \<noteq> NET_SECURITY_TOKEN_UNKNOWN \<and>
         c_SecurityToken c \<noteq> NET_SECURITY_TOKEN_UNSUPPORTED \<and> 4 \<le> rp_DataSize p
      then p\<lparr>rp_DataSize := rp_DataSize p - 4\<rparr> else p)"

definition feed_close :: "rpacket \<Rightarrow> NETADDR \<Rightarrow> CNetConnection \<Rightarrow> CNetConnection" where
  "feed_close p addr c =
     (let IsPeer = (if c_State c \<noteq> CONNECT then c_PeerAddr c = addr else addr \<in> set (c_ConnectAddrs c))
      in if IsPeer
         then
           let c = c\<lparr>c_State := ERROR, c_RemoteClosed := True\<rparr>;
               str = (if rp_DataSize p > 1
                      then str_sanitize_cc (str_copy (c_string (drop 1 (rp_Mem p))) (min (rp_DataSize p) 256)) else [])
           in if \<not> c_BlockCloseMsg c then SetError str c else c
         else c)"

definition feed_token :: "u8 list \<Rightarrow> int \<Rightarrow> i32 \<Rightarrow> CNetConnection \<Rightarrow> net \<Rightarrow> CNetConnection \<times> net" where
  "feed_token stack Now ResponseToken c n =
     (if c_State c = TOKEN
      then
        let c = c\<lparr>c_LastRecvTime := Now, c_State := CONNECT, c_SecurityToken := ResponseToken\<rparr>
        in SendControlWithToken7 stack NET_CTRLMSG_CONNECT (c_SecurityToken c) c n
      else (c, n))"

text \<open>\<open>None\<close> is the return for a peer that reconnects within three seconds.\<close>

definition feed_offline :: "int \<Rightarrow> int \<Rightarrow> NETADDR \<Rightarrow> CNetConnection \<Rightarrow> net \<Rightarrow> (CNetConnection \<times> net) option \<times> net" where
  "feed_offline Now CtrlMsg addr c n =
     (if CtrlMsg = NET_CTRLMSG_CONNECT
      then
        let same = \<not> net_addr_comp_noport (c_PeerAddr c) addr;
            (t, n) = (if same then time_get n else (0, n))
        in if same \<and> t - c_LastUpdateTime c < time_freq * 3 then (None, n)
           else
             let c = SetPeerAddr addr ((Conn_Reset False c)\<lparr>c_State := PENDING\<rparr>);
                 c = c\<lparr>c_ErrorString := [], c_LastSendTime := Now, c_LastRecvTime := Now, c_LastUpdateTime := Now,
                       c_SecurityToken := NET_SECURITY_TOKEN_UNSUPPORTED\<rparr>
             in (Some (SendControl NET_CTRLMSG_CONNECTACCEPT SECURITY_TOKEN_MAGIC c n), n)
      else (Some (c, n), n))"

definition feed_connect :: "int \<Rightarrow> int \<Rightarrow> rpacket \<Rightarrow> NETADDR \<Rightarrow> CNetConnection \<Rightarrow> net \<Rightarrow> CNetConnection \<times> net" where
  "feed_connect Now CtrlMsg p addr c n =
     (if CtrlMsg = NET_CTRLMSG_CONNECTACCEPT
      then
        let c = SetPeerAddr addr c;
            c = (if c_SecurityToken c = NET_SECURITY_TOKEN_UNKNOWN \<and> rp_magic p
                 then c\<lparr>c_SecurityToken := ToSecurityToken (drop 5 (rp_Mem p))\<rparr>
                 else if \<not> c_Sixup c then c\<lparr>c_SecurityToken := NET_SECURITY_TOKEN_UNSUPPORTED\<rparr> else c);
            (c, n) = (if \<not> c_Sixup c then SendControl NET_CTRLMSG_ACCEPT [] c n else (c, n))
        in (c\<lparr>c_LastRecvTime := Now, c_State := ONLINE\<rparr>, n)
      else (c, n))"

text \<open>
  A control message. The flag says whether \<open>Feed\<close> goes on after it. In the state
  \<open>OFFLINE\<close> both branches of the code on the packet's magic set the same token.
\<close>

definition feed_control :: "u8 list \<Rightarrow> int \<Rightarrow> rpacket \<Rightarrow> NETADDR \<Rightarrow> i32 \<Rightarrow> CNetConnection \<Rightarrow> net \<Rightarrow> bool \<times> CNetConnection \<times> net" where
  "feed_control stack Now p addr ResponseToken c n =
     (let CtrlMsg = uint (mem_at (rp_Mem p) 0)
      in if CtrlMsg = NET_CTRLMSG_CLOSE then (False, feed_close p addr c, n)
         else if CtrlMsg = NET_CTRLMSG_TOKEN then (True, feed_token stack Now ResponseToken c n)
         else if c_State c = OFFLINE
           then (case feed_offline Now CtrlMsg addr c n of (None, n) \<Rightarrow> (False, c, n) | (Some r, _) \<Rightarrow> (True, r))
         else if c_State c = CONNECT then (True, feed_connect Now CtrlMsg p addr c n)
         else (True, c, n))"

definition Feed :: "u8 list \<Rightarrow> rpacket \<Rightarrow> NETADDR \<Rightarrow> i32 \<Rightarrow> i32 \<Rightarrow> CNetConnection \<Rightarrow> net \<Rightarrow>
    (int \<times> rpacket \<times> CNetConnection \<times> net) option" where
  "Feed stack p addr SecurityToken ResponseToken c n =
     (case feed_checks p addr SecurityToken c of
        None \<Rightarrow> Some (0, feed_trim p addr c, c, n)
      | Some p \<Rightarrow>
          let c = c\<lparr>c_PeerAck := rp_Ack p\<rparr>;
              (Now, n) = time_get n
          in do {
            (c, n) \<leftarrow> (if rp_Flags p AND NET_PACKETFLAG_RESEND \<noteq> 0 then Resend c n else Some (c, n));
            let (go_on, c, n) =
              (if rp_Flags p AND NET_PACKETFLAG_CONTROL \<noteq> 0 then feed_control stack Now p addr ResponseToken c n
               else (True, if c_State c = PENDING then c\<lparr>c_LastRecvTime := Now, c_State := ONLINE\<rparr> else c, n))
            in if \<not> go_on then Some (0, p, c, n)
               else if c_State c = ONLINE
                 then do {
                   c \<leftarrow> AckChunks (rp_Ack p) (c\<lparr>c_LastRecvTime := Now\<rparr>);
                   Some (1, p, c, n)
                 }
               else Some (1, p, c, n)
          })"

section \<open>Timeouts and keep-alives\<close>

text \<open>\<open>%d\<close> of \<open>str_format\<close>.\<close>

fun decimal_digits :: "nat \<Rightarrow> string" where
  "decimal_digits n = (if n < 10 then [char_of (48 + n)] else decimal_digits (n div 10) @ [char_of (48 + n mod 10)])"

declare decimal_digits.simps [simp del]

definition decimal :: "int \<Rightarrow> string" where
  "decimal i = (if i < 0 then ''-'' @ decimal_digits (nat (- i)) else decimal_digits (nat i))"

definition update_timeouts :: "conn_config \<Rightarrow> int \<Rightarrow> CNetConnection \<Rightarrow> CNetConnection" where
  "update_timeouts g Now c =
     (let c = c\<lparr>c_TimeoutSituation := False\<rparr>
      in if c_State c \<noteq> OFFLINE \<and> c_State c \<noteq> CONNECT \<and> Now - c_LastRecvTime c > time_freq * g_ConnTimeout g
         then (SetError (bytes_of ''Timeout'') (c\<lparr>c_State := ERROR\<rparr>))\<lparr>c_TimeoutSituation := True\<rparr>
         else c)"

definition update_resend :: "conn_config \<Rightarrow> int \<Rightarrow> CNetConnection \<Rightarrow> net \<Rightarrow> (CNetConnection \<times> net) option" where
  "update_resend g Now c n =
     (case RingBuffer_First (c_Buffer c) of
        None \<Rightarrow> Some (c, n)
      | Some i \<Rightarrow>
          if Now - rs_FirstSendTime (c_Resends c i) > time_freq * g_ConnTimeout g
          then Some ((SetError (bytes_of (''Too weak connection (not acked for '' @ decimal (g_ConnTimeout g) @ '' seconds)''))
                       (c\<lparr>c_State := ERROR\<rparr>))\<lparr>c_TimeoutSituation := True\<rparr>, n)
          else if Now - rs_LastSendTime (c_Resends c i) > time_freq then ResendChunk i c n
          else Some (c, n))"

definition update_alive :: "CNetConnection \<Rightarrow> net \<Rightarrow> CNetConnection \<times> net" where
  "update_alive c n =
     (if c_State c = ONLINE
      then
        let (t, n) = time_get n;
            (c, n) = (if t - c_LastSendTime c > time_freq div 2 then snd (Flush c n) else (c, n));
            (t, n) = time_get n
        in if t - c_LastSendTime c > time_freq then SendControl NET_CTRLMSG_KEEPALIVE [] c n else (c, n)
      else if c_State c = CONNECT
      then
        let (t, n) = time_get n
        in if t - c_LastSendTime c > time_freq div 2 then SendConnect c n else (c, n)
      else if c_State c = PENDING
      then
        let (t, n) = time_get n
        in if t - c_LastSendTime c > time_freq div 2
           then SendControl NET_CTRLMSG_CONNECTACCEPT SECURITY_TOKEN_MAGIC c n else (c, n)
      else (c, n))"

definition Conn_Update :: "conn_config \<Rightarrow> CNetConnection \<Rightarrow> net \<Rightarrow> (CNetConnection \<times> net) option" where
  "Conn_Update g c n =
     (let (Now, n) = time_get n;
          c = (if c_State c = ERROR \<and> c_TimeoutSituation c \<and> Now - c_LastRecvTime c > time_freq * g_ConnTimeoutProtection g
               then SetError (bytes_of ''Timeout Protection over'') (c\<lparr>c_TimeoutSituation := False\<rparr>) else c)
      in if c_State c = OFFLINE \<or> c_State c = ERROR then Some (c, n)
         else do {
           (c, n) \<leftarrow> update_resend g Now (update_timeouts g Now c) n;
           Some (update_alive c n)
         })"

text \<open>
  The copying loop of \<open>SetTimedOut\<close>. \<open>None\<close> is also the write through the null pointer when the
  new buffer has no room. The code copies the pointer \<open>m_pData\<close> into the old buffer with the item;
  the model keeps the bytes this pointer points to at that moment.
\<close>

fun move_chunks :: "nat \<Rightarrow> CRingBuffer \<Rightarrow> (nat \<Rightarrow> CNetChunkResend) \<Rightarrow> CNetConnection \<Rightarrow> (CRingBuffer \<times> CNetConnection) option" where
  "move_chunks 0 old contents c = None"
| "move_chunks (Suc fuel) old contents c =
     (case RingBuffer_First old of
        None \<Rightarrow> Some (old, c)
      | Some i \<Rightarrow>
          do {
            (r, rb) \<leftarrow> Allocate (c_Buffer c) (RESEND_SIZE + length (rs_Data (contents i)));
            j \<leftarrow> r;
            (_, old) \<leftarrow> PopFirst old;
            move_chunks fuel old contents (c\<lparr>c_Buffer := rb, c_Resends := (c_Resends c)(j := contents i)\<rparr>)
          })"

definition Conn_SetTimedOut :: "NETADDR \<Rightarrow> int \<Rightarrow> int \<Rightarrow> i32 \<Rightarrow> CRingBuffer \<Rightarrow> (nat \<Rightarrow> CNetChunkResend) \<Rightarrow> bool \<Rightarrow>
    CNetConnection \<Rightarrow> net \<Rightarrow> (CRingBuffer \<times> CNetConnection \<times> net) option" where
  "Conn_SetTimedOut addr Sequence Ack SecurityToken old contents Sixup c n =
     (let (Now, n) = time_get n;
          c = SetPeerAddr addr (c\<lparr>c_Sequence := Sequence, c_Ack := Ack, c_RemoteClosed := False, c_State := ONLINE\<rparr>);
          c = c\<lparr>c_ErrorString := [], c_LastSendTime := Now, c_LastRecvTime := Now, c_LastUpdateTime := Now,
                c_SecurityToken := SecurityToken, c_Sixup := Sixup,
                c_Buffer := RingBuffer_Init NET_CONN_BUFFERSIZE False (c_Buffer c)\<rparr>
      in do {
        (old, c) \<leftarrow> move_chunks (max_items old) old contents c;
        Some (old, c, n)
      })"

section \<open>Fetching the chunks of a packet\<close>

record CNetChunk =
  ch_ClientId :: int
  ch_Address :: NETADDR
  ch_Flags :: int
  ch_DataSize :: nat
  ch_pData :: nat
  ch_aExtraData :: "u8 list"

text \<open>
  The unpacker. \<open>ch_pData\<close> above is an offset into its memory \<open>rp_Mem (u_Data u)\<close>; the connection
  is passed along by the operations.
\<close>

record CNetRecvUnpacker =
  u_Valid :: bool
  u_Addr :: NETADDR
  u_CurrentChunk :: nat
  u_ClientId :: int
  u_Data :: rpacket

definition Unpacker_Clear :: "CNetRecvUnpacker \<Rightarrow> CNetRecvUnpacker" where
  "Unpacker_Clear u = u\<lparr>u_Valid := False\<rparr>"

definition Unpacker_Start :: "NETADDR \<Rightarrow> int \<Rightarrow> CNetRecvUnpacker \<Rightarrow> CNetRecvUnpacker" where
  "Unpacker_Start addr ClientId u = u\<lparr>u_Addr := addr, u_ClientId := ClientId, u_CurrentChunk := 0, u_Valid := True\<rparr>"

text \<open>The offset of the header of chunk \<open>k\<close>, counted from the chunk at \<open>pos\<close>.\<close>

fun skip_chunks :: "u8 list \<Rightarrow> nat \<Rightarrow> nat \<Rightarrow> nat \<Rightarrow> nat" where
  "skip_chunks mem Split 0 pos = pos"
| "skip_chunks mem Split (Suc k) pos =
     (let (h, rest) = ChunkHeader_Unpack (drop pos mem) Split;
          pos = pos + (if h_Flags h AND NET_CHUNKFLAG_VITAL \<noteq> 0 then 3 else 2) + nat (h_Size h)
      in skip_chunks mem Split k pos)"

text \<open>What \<open>FetchChunk\<close> does with the sequence number of a vital chunk: the flag says whether it is delivered.\<close>

definition accept_sequence :: "int \<Rightarrow> CNetConnection \<Rightarrow> bool \<times> CNetConnection" where
  "accept_sequence Seq c =
     (if Seq = (c_Ack c + 1) mod NET_MAX_SEQUENCE \<or> c_UnknownSeq c
      then (True, c\<lparr>c_UnknownSeq := False, c_Ack := Seq\<rparr>)
      else if IsSeqInBackroom Seq (c_Ack c) then (False, c)
      else (False, SignalResend c))"

text \<open>The header of the current chunk, found by walking over the chunks before it, and the offset of its data.\<close>

definition fetch_header :: "CNetRecvUnpacker \<Rightarrow> CNetConnection option \<Rightarrow> CNetChunkHeader \<times> nat" where
  "fetch_header u conn =
     (let mem = rp_Mem (u_Data u);
          Split = (case conn of Some c \<Rightarrow> if c_Sixup c then 6 else 4 | None \<Rightarrow> 4);
          pos = skip_chunks mem Split (u_CurrentChunk u) 0;
          (h, _) = ChunkHeader_Unpack (drop pos mem) Split
      in (h, pos + (if h_Flags h AND NET_CHUNKFLAG_VITAL \<noteq> 0 then 3 else 2)))"

definition fetch_accept :: "CNetChunkHeader \<Rightarrow> CNetConnection option \<Rightarrow> bool \<times> CNetConnection option" where
  "fetch_accept h conn =
     (case conn of
        Some c \<Rightarrow> if h_Flags h AND NET_CHUNKFLAG_VITAL \<noteq> 0
                  then apsnd Some (accept_sequence (h_Sequence h) c) else (True, conn)
      | None \<Rightarrow> (True, conn))"

function FetchChunk :: "CNetRecvUnpacker \<Rightarrow> CNetConnection option \<Rightarrow>
    CNetChunk option \<times> CNetRecvUnpacker \<times> CNetConnection option" where
  "FetchChunk u conn =
     (if \<not> u_Valid u \<or> rp_NumChunks (u_Data u) \<le> int (u_CurrentChunk u) then (None, Unpacker_Clear u, conn)
      else
        let (h, pData) = fetch_header u conn;
            u = u\<lparr>u_CurrentChunk := Suc (u_CurrentChunk u)\<rparr>
        in if pData + nat (h_Size h) > rp_DataSize (u_Data u) then (None, Unpacker_Clear u, conn)
           else
             let (deliver, conn) = fetch_accept h conn
             in if deliver
                then (Some \<lparr>ch_ClientId = u_ClientId u, ch_Address = u_Addr u, ch_Flags = h_Flags h,
                            ch_DataSize = nat (h_Size h), ch_pData = pData, ch_aExtraData = []\<rparr>, u, conn)
                else FetchChunk u conn)"
  by pat_completeness auto

termination FetchChunk
  by (relation "measure (\<lambda>(u, conn). nat (rp_NumChunks (u_Data u)) - u_CurrentChunk u)") auto

declare FetchChunk.simps [simp del]

section \<open>The resend buffer\<close>

text \<open>\<open>q\<close> lists the items of the vital chunks that are kept for resending, the oldest first.\<close>

definition conn_queue :: "CNetConnection \<Rightarrow> nat list \<Rightarrow> bool" where
  "conn_queue c q \<longleftrightarrow> holds_queue (c_Buffer c) q \<and> \<not> rb_Recycle (c_Buffer c)"

lemma conn_queue_cong: "c_Buffer c' = c_Buffer c \<Longrightarrow> conn_queue c' q = conn_queue c q"
  by (simp add: conn_queue_def)

lemma conn_queue_length: "conn_queue c q \<Longrightarrow> length q < max_items (c_Buffer c)"
  unfolding conn_queue_def using queue_length by blast

lemma Init_conn_queue: "c_Buffer c = RingBuffer_Init NET_CONN_BUFFERSIZE False rb \<Longrightarrow> conn_queue c []"
  using Init_queue [of NET_CONN_BUFFERSIZE False rb]
  by (simp add: conn_queue_def NET_CONN_BUFFERSIZE_def ITEM_SIZE_def RingBuffer_Init_def RingBuffer_Clear_def)

lemma Reset_conn_queue [inv_intros]: "conn_queue (Conn_Reset Rejoin c) []"
  by (rule Init_conn_queue [of _ "c_Buffer c"]) (simp add: Conn_Reset_def Let_def)

text \<open>Blocks only grow.\<close>

definition no_smaller :: "CRingBuffer \<Rightarrow> CRingBuffer \<Rightarrow> bool" where
  "no_smaller rb rb' \<longleftrightarrow> rb_Size rb' = rb_Size rb \<and> (\<forall>i. it_Size (rb_Items rb i) \<le> it_Size (rb_Items rb' i))"

lemma no_smaller_refl [simp]: "no_smaller rb rb"
  by (simp add: no_smaller_def)

lemma no_smaller_trans: "no_smaller a b \<Longrightarrow> no_smaller b c \<Longrightarrow> no_smaller a c"
  unfolding no_smaller_def by (metis order_trans)

lemma ack_loop_queue:
  assumes "conn_queue c q" "length q < fuel"
  shows "\<exists>rb. ack_loop fuel Ack c = Some (c\<lparr>c_Buffer := rb\<rparr>) \<and>
    conn_queue (c\<lparr>c_Buffer := rb\<rparr>) (dropWhile (\<lambda>i. IsSeqInBackroom (rs_Sequence (c_Resends c i)) Ack) q) \<and>
    no_smaller (c_Buffer c) rb"
  using assms
proof (induction fuel arbitrary: c q)
  case (Suc fuel)
  note h = Suc.prems(1) [unfolded conn_queue_def]
  show ?case
  proof (cases q)
    case Nil
    then show ?thesis using packets.start_law [OF h] Suc.prems(1)
      by (intro exI [of _ "c_Buffer c"]) simp
  next
    case (Cons i q')
    have no: "no_smaller (c_Buffer c) rb" if "PopFirst (c_Buffer c) = Some (Some i, rb)" for rb
      using that PopFirst_size [of "c_Buffer c"] PopFirst_queue [of "c_Buffer c" i q'] h Cons
      unfolding no_smaller_def by (metis option.inject prod.inject)
    from Cons have f: "RingBuffer_First (c_Buffer c) = Some i" using packets.start_law [OF h] by simp
    show ?thesis
    proof (cases "IsSeqInBackroom (rs_Sequence (c_Resends c i)) Ack")
      case True
      obtain rb where p: "PopFirst (c_Buffer c) = Some (Some i, rb)" "holds_queue rb q'" "\<not> rb_Recycle rb"
        using packets.pop_Cons [OF h [unfolded Cons]] by blast
      have "conn_queue (c\<lparr>c_Buffer := rb\<rparr>) q'" using p by (simp add: conn_queue_def)
      with Suc.IH [OF this] Suc.prems(2) f p True Cons obtain rb2 where
        "ack_loop (Suc fuel) Ack c = Some (c\<lparr>c_Buffer := rb2\<rparr>)" "no_smaller rb rb2"
        "conn_queue (c\<lparr>c_Buffer := rb2\<rparr>) (dropWhile (\<lambda>i. IsSeqInBackroom (rs_Sequence (c_Resends c i)) Ack) q)"
        by auto
      then show ?thesis using no_smaller_trans [OF no [OF p(1)]] by blast
    next
      case False
      then show ?thesis using f Cons Suc.prems(1) by (intro exI [of _ "c_Buffer c"]) simp
    qed
  qed
qed simp

lemma AckChunks_queue:
  assumes "conn_queue c q"
  obtains rb where "AckChunks Ack c = Some (c\<lparr>c_Buffer := rb\<rparr>)"
    "conn_queue (c\<lparr>c_Buffer := rb\<rparr>) (dropWhile (\<lambda>i. IsSeqInBackroom (rs_Sequence (c_Resends c i)) Ack) q)"
    "no_smaller (c_Buffer c) rb"
  using ack_loop_queue [OF assms conn_queue_length [OF assms], of Ack] unfolding AckChunks_def by blast

section \<open>Queueing chunks\<close>

lemma Flush_frame [frame_simps]:
  assumes "Flush c n = (k, c', n')"
  shows "c_Buffer c' = c_Buffer c" "c_Resends c' = c_Resends c" "c_State c' = c_State c" "c_Sixup c' = c_Sixup c"
    "c_Sequence c' = c_Sequence c" "c_Ack c' = c_Ack c" "c_PeerAck c' = c_PeerAck c" "c_PeerAddr c' = c_PeerAddr c"
    "c_SecurityToken c' = c_SecurityToken c" "p_aChunkData (c_Construct c') = [] \<or> c' = c" "c_UnknownSeq c' = c_UnknownSeq c"
  using assms by (auto simp: Flush_def Let_def time_get_def empty_construct_def split: if_splits)

lemma Flush_empties:
  assumes "Flush c n = (k, c', n')" "p_NumChunks (c_Construct c) \<noteq> 0 \<or> p_Flags (c_Construct c) \<noteq> 0"
  shows "c_Construct c' = empty_construct" "k = p_NumChunks (c_Construct c)"
    "n_Sent n' = n_Sent n @ [SendPacket (c_PeerAddr c) ((c_Construct c)\<lparr>p_Ack := c_Ack c\<rparr>) (c_SecurityToken c) (c_Sixup c) False]"
  using assms by (auto simp: Flush_def Let_def time_get_def net_send_def split: if_splits)

definition room_for :: "nat \<Rightarrow> CNetConnection \<Rightarrow> bool" where
  "room_for k c \<longleftrightarrow> length (p_aChunkData (c_Construct c)) + k + NET_MAX_CHUNKHEADERSIZE \<le> NET_MAX_PAYLOAD - 4"

text \<open>The connection in which \<open>QueueChunkEx\<close> has packed the chunk, but not saved it.\<close>

definition queued :: "int \<Rightarrow> u8 list \<Rightarrow> int \<Rightarrow> CNetConnection \<Rightarrow> CNetConnection" where
  "queued Flags Data Sequence c =
     c\<lparr>c_Construct := (c_Construct c)\<lparr>p_aChunkData := p_aChunkData (c_Construct c) @ pack_chunk (c_Sixup c) Flags Data Sequence,
                                       p_NumChunks := p_NumChunks (c_Construct c) + 1\<rparr>\<rparr>"

definition after_flush :: "u8 list \<Rightarrow> CNetConnection \<Rightarrow> net \<Rightarrow> CNetConnection \<times> net" where
  "after_flush Data c n = (if room_for (length Data) c then (c, n) else snd (Flush c n))"

lemma QueueChunkEx_unfold:
  assumes "c_State c \<noteq> OFFLINE" "c_State c \<noteq> ERROR" "after_flush Data c n = (c', n')"
  shows "QueueChunkEx Flags Data Sequence c n =
    (if Flags AND NET_CHUNKFLAG_VITAL \<noteq> 0 \<and> Flags AND NET_CHUNKFLAG_RESEND = 0
     then save_chunk Flags Data Sequence (queued Flags Data Sequence c') n'
     else Some (0, queued Flags Data Sequence c', n'))"
proof -
  have "(if length (p_aChunkData (c_Construct c)) + length Data + NET_MAX_CHUNKHEADERSIZE > NET_MAX_PAYLOAD - 4
    then snd (Flush c n) else (c, n)) = (c', n')"
    using assms(3) by (auto simp: after_flush_def room_for_def split: if_splits)
  with assms(1,2) show ?thesis unfolding QueueChunkEx_def queued_def Let_def by (simp only: simp_thms if_False prod.case)
qed

lemma after_flush_frame [frame_simps]:
  assumes "after_flush Data c n = (c', n')"
  shows "c_Buffer c' = c_Buffer c" "c_Resends c' = c_Resends c" "c_State c' = c_State c" "c_Sixup c' = c_Sixup c"
    "c_Sequence c' = c_Sequence c" "c_Ack c' = c_Ack c" "c_PeerAck c' = c_PeerAck c" "c_PeerAddr c' = c_PeerAddr c"
    "c_SecurityToken c' = c_SecurityToken c" "c_UnknownSeq c' = c_UnknownSeq c"
proof -
  consider "c' = c" | k where "Flush c n = (k, c', n')"
    using assms by (cases "Flush c n") (auto simp: after_flush_def split: if_splits)
  then have "c_Buffer c' = c_Buffer c \<and> c_Resends c' = c_Resends c \<and> c_State c' = c_State c \<and> c_Sixup c' = c_Sixup c \<and>
    c_Sequence c' = c_Sequence c \<and> c_Ack c' = c_Ack c \<and> c_PeerAck c' = c_PeerAck c \<and> c_PeerAddr c' = c_PeerAddr c \<and>
    c_SecurityToken c' = c_SecurityToken c \<and> c_UnknownSeq c' = c_UnknownSeq c"
  proof cases
    case (2 k)
    show ?thesis by (intro conjI Flush_frame [OF 2])
  qed simp
  then show "c_Buffer c' = c_Buffer c" "c_Resends c' = c_Resends c" "c_State c' = c_State c" "c_Sixup c' = c_Sixup c"
    "c_Sequence c' = c_Sequence c" "c_Ack c' = c_Ack c" "c_PeerAck c' = c_PeerAck c" "c_PeerAddr c' = c_PeerAddr c"
    "c_SecurityToken c' = c_SecurityToken c" "c_UnknownSeq c' = c_UnknownSeq c" by blast+
qed

text \<open>An item \<open>i\<close> for the data is appended to the queue.\<close>

definition appended :: "CRingBuffer \<Rightarrow> nat list \<Rightarrow> u8 list \<Rightarrow> nat \<Rightarrow> CRingBuffer \<Rightarrow> bool" where
  "appended rb q Data i rb' \<longleftrightarrow> i \<notin> set q \<and> holds_queue rb' (q @ [i]) \<and> \<not> rb_Recycle rb' \<and> rb_Size rb' = rb_Size rb \<and>
     wanted_size (RESEND_SIZE + length Data) \<le> it_Size (rb_Items rb' i) \<and>
     (\<forall>j \<in> set q. it_Size (rb_Items rb j) \<le> it_Size (rb_Items rb' j))"

lemma Allocate_appended:
  assumes "conn_queue c q"
  obtains i rb where "Allocate (c_Buffer c) (RESEND_SIZE + length Data) = Some (Some i, rb)" "appended (c_Buffer c) q Data i rb"
  | "Allocate (c_Buffer c) (RESEND_SIZE + length Data) = Some (None, c_Buffer c)"
proof -
  note h = assms [unfolded conn_queue_def]
  from packets.alloc_cases [OF h, of "RESEND_SIZE + length Data"] show thesis
  proof cases
    case (1 i rb)
    from Allocate_queue [OF h [THEN conjunct1], of "RESEND_SIZE + length Data"] 1(1) obtain k where
      "allocated (c_Buffer c) q (wanted_size (RESEND_SIZE + length Data)) k i rb" by auto
    then have "appended (c_Buffer c) q Data i rb" using 1(2,3) h by (auto simp: appended_def allocated_def)
    with 1(1) show thesis by (rule that(1))
  qed (rule that(2))
qed

lemma save_chunk_queue:
  assumes "conn_queue c q"
  obtains i rb where "appended (c_Buffer c) q Data i rb"
    "save_chunk Flags Data Sequence c n = Some (0, c\<lparr>c_Buffer := rb,
        c_Resends := (c_Resends c)(i := \<lparr>rs_Flags = Flags, rs_Data = Data, rs_Sequence = Sequence,
          rs_LastSendTime = fst (time_get n), rs_FirstSendTime = fst (time_get n)\<rparr>)\<rparr>, snd (time_get n))"
  | "save_chunk Flags Data Sequence c n = Some (-1, c, n)"
proof -
  from Allocate_appended [OF assms, of Data] show thesis
  proof cases
    case (1 i rb)
    then show ?thesis using that(1) [of i rb]
      by (simp add: save_chunk_def Let_def case_prod_beta)
  next
    case 2
    then show ?thesis using that(2) by (simp add: save_chunk_def)
  qed
qed

text \<open>
  A chunk is appended to the packet under construction, after a flush if it does not fit, and a
  vital chunk is appended to the resend buffer if there is room.
\<close>

lemma QueueChunkEx_cases:
  assumes "conn_queue c q"
  obtains (refused) "c_State c = OFFLINE \<or> c_State c = ERROR" "QueueChunkEx Flags Data Sequence c n = Some (-1, c, n)"
  | (packed) c1 n1 where "after_flush Data c n = (c1, n1)" "c_State c \<noteq> OFFLINE" "c_State c \<noteq> ERROR"
      "\<not> (Flags AND NET_CHUNKFLAG_VITAL \<noteq> 0 \<and> Flags AND NET_CHUNKFLAG_RESEND = 0)"
      "QueueChunkEx Flags Data Sequence c n = Some (0, queued Flags Data Sequence c1, n1)"
  | (saved) c1 n1 i rb where "after_flush Data c n = (c1, n1)" "c_State c \<noteq> OFFLINE" "c_State c \<noteq> ERROR"
      "Flags AND NET_CHUNKFLAG_VITAL \<noteq> 0" "Flags AND NET_CHUNKFLAG_RESEND = 0"
      "appended (c_Buffer c) q Data i rb"
      "QueueChunkEx Flags Data Sequence c n = Some (0, (queued Flags Data Sequence c1)\<lparr>c_Buffer := rb,
        c_Resends := (c_Resends c)(i := \<lparr>rs_Flags = Flags, rs_Data = Data, rs_Sequence = Sequence,
          rs_LastSendTime = fst (time_get n1), rs_FirstSendTime = fst (time_get n1)\<rparr>)\<rparr>, snd (time_get n1))"
  | (unsaved) c1 n1 where "after_flush Data c n = (c1, n1)" "c_State c \<noteq> OFFLINE" "c_State c \<noteq> ERROR"
      "Flags AND NET_CHUNKFLAG_VITAL \<noteq> 0" "Flags AND NET_CHUNKFLAG_RESEND = 0"
      "QueueChunkEx Flags Data Sequence c n = Some (-1, queued Flags Data Sequence c1, n1)"
proof (cases "c_State c = OFFLINE \<or> c_State c = ERROR")
  case True
  then show ?thesis using refused by (simp add: QueueChunkEx_def)
next
  case False
  obtain c1 n1 where f: "after_flush Data c n = (c1, n1)" by fastforce
  note fr = after_flush_frame [OF f]
  have q1: "conn_queue (queued Flags Data Sequence c1) q"
    using assms fr(1) by (simp add: queued_def conn_queue_def)
  from False have ex: "QueueChunkEx Flags Data Sequence c n =
    (if Flags AND NET_CHUNKFLAG_VITAL \<noteq> 0 \<and> Flags AND NET_CHUNKFLAG_RESEND = 0
     then save_chunk Flags Data Sequence (queued Flags Data Sequence c1) n1
     else Some (0, queued Flags Data Sequence c1, n1))"
    by (intro QueueChunkEx_unfold [OF _ _ f]) simp_all
  show ?thesis
  proof (cases "Flags AND NET_CHUNKFLAG_VITAL \<noteq> 0 \<and> Flags AND NET_CHUNKFLAG_RESEND = 0")
    case vital: True
    from q1 show ?thesis
    proof (cases rule: save_chunk_queue [where Flags = Flags and Data = Data and Sequence = Sequence and n = n1])
      case (1 i rb)
      have "c_Resends (queued Flags Data Sequence c1) = c_Resends c" "c_Buffer (queued Flags Data Sequence c1) = c_Buffer c"
        using fr(1,2) by (simp_all add: queued_def)
      with 1 show ?thesis
        using saved [OF f, of i rb] False vital ex [unfolded if_P [OF vital]] by simp
    next
      case 2
      then show ?thesis
        using unsaved [OF f] False vital ex [unfolded if_P [OF vital]] by simp
    qed
  next
    case nv: False
    then show ?thesis using packed [OF f _ _ nv] False ex [unfolded if_not_P [OF nv]] by blast
  qed
qed

section \<open>Sending keeps the link\<close>

text \<open>What sending and resending do not change: only send times and the packet under construction differ.\<close>

definition link :: "CNetConnection \<Rightarrow> CNetConnection" where
  "link c = c\<lparr>c_Construct := empty_construct, c_LastSendTime := 0,
     c_Resends := \<lambda>i. (c_Resends c i)\<lparr>rs_LastSendTime := 0\<rparr>\<rparr>"

definition same_link :: "CNetConnection \<Rightarrow> CNetConnection \<Rightarrow> bool" where
  "same_link c c' \<longleftrightarrow> link c' = link c"

lemma same_link_refl [simp]: "same_link c c"
  by (simp add: same_link_def)

lemma same_link_trans: "same_link a b \<Longrightarrow> same_link b c \<Longrightarrow> same_link a c"
  by (simp add: same_link_def)

lemma same_link_update:
  "same_link c (c\<lparr>c_Construct := x\<rparr>)" "same_link c (c\<lparr>c_LastSendTime := t\<rparr>)"
  "same_link c (c\<lparr>c_Resends := (c_Resends c)(i := (c_Resends c i)\<lparr>rs_LastSendTime := t\<rparr>)\<rparr>)"
  unfolding same_link_def link_def by (auto intro!: CNetConnection.equality)

lemma same_link_fields [frame_simps]:
  assumes "same_link c c'"
  shows "c_Buffer c' = c_Buffer c" "c_State c' = c_State c" "c_Sequence c' = c_Sequence c" "c_Ack c' = c_Ack c"
    "c_PeerAck c' = c_PeerAck c" "c_PeerAddr c' = c_PeerAddr c" "c_SecurityToken c' = c_SecurityToken c"
    "c_Token c' = c_Token c" "c_Sixup c' = c_Sixup c" "c_ConnectAddrs c' = c_ConnectAddrs c" "c_UnknownSeq c' = c_UnknownSeq c"
  using assms [unfolded same_link_def link_def, THEN arg_cong, of c_Buffer] assms [unfolded same_link_def link_def, THEN arg_cong, of c_State]
    assms [unfolded same_link_def link_def, THEN arg_cong, of c_Sequence] assms [unfolded same_link_def link_def, THEN arg_cong, of c_Ack]
    assms [unfolded same_link_def link_def, THEN arg_cong, of c_PeerAck] assms [unfolded same_link_def link_def, THEN arg_cong, of c_PeerAddr]
    assms [unfolded same_link_def link_def, THEN arg_cong, of c_SecurityToken] assms [unfolded same_link_def link_def, THEN arg_cong, of c_Token]
    assms [unfolded same_link_def link_def, THEN arg_cong, of c_Sixup] assms [unfolded same_link_def link_def, THEN arg_cong, of c_ConnectAddrs]
    assms [unfolded same_link_def link_def, THEN arg_cong, of c_UnknownSeq]
  by simp_all

lemma same_link_resends:
  assumes "same_link c c'"
  shows "(c_Resends c' i)\<lparr>rs_LastSendTime := 0\<rparr> = (c_Resends c i)\<lparr>rs_LastSendTime := 0\<rparr>"
  using assms [unfolded same_link_def link_def, THEN arg_cong, of c_Resends] by (simp add: fun_eq_iff)

lemma same_link_resend_fields:
  assumes "same_link c c'"
  shows "rs_Flags (c_Resends c' i) = rs_Flags (c_Resends c i)" "rs_Data (c_Resends c' i) = rs_Data (c_Resends c i)"
    "rs_Sequence (c_Resends c' i) = rs_Sequence (c_Resends c i)"
    "rs_FirstSendTime (c_Resends c' i) = rs_FirstSendTime (c_Resends c i)"
  using same_link_resends [OF assms, of i] by (cases "c_Resends c' i"; cases "c_Resends c i"; simp)+

lemma Flush_same_link: "Flush c n = (k, c', n') \<Longrightarrow> same_link c c'"
  using same_link_trans [OF same_link_update(2) same_link_update(1)]
  by (auto simp: Flush_def Let_def time_get_def split: if_splits)

lemma after_flush_same_link: "after_flush Data c n = (c', n') \<Longrightarrow> same_link c c'"
  using Flush_same_link [of c n "fst (Flush c n)" c' n']
  by (cases "room_for (length Data) c") (simp_all add: after_flush_def prod_eq_iff)

lemma queued_same_link: "same_link c (queued Flags Data Sequence c)"
  unfolding queued_def by (rule same_link_update)

lemma SendControl_same_link: "SendControl m e c n = (c', n') \<Longrightarrow> same_link c c'"
  using same_link_update(2) by (auto simp: SendControl_def Let_def time_get_def)

lemma SendControlWithToken7_same_link: "SendControlWithToken7 stack m t c n = (c', n') \<Longrightarrow> same_link c c'"
  using same_link_update(2) by (auto simp: SendControlWithToken7_def Let_def time_get_def)

lemma SendConnect_same_link: "SendConnect c n = (c', n') \<Longrightarrow> same_link c c'"
  using same_link_update(2) by (auto simp: SendConnect_def Let_def time_get_def)

lemma or_resend: "(f OR NET_CHUNKFLAG_RESEND) AND NET_CHUNKFLAG_RESEND \<noteq> 0"
proof -
  have "bit ((f OR 2) AND 2) 1" unfolding bit_and_iff bit_or_iff by (simp add: bit_iff_odd)
  then show ?thesis by auto
qed

lemma ResendChunk_same_link: "\<exists>c' n'. ResendChunk i c n = Some (c', n') \<and> same_link c c'"
proof -
  let ?r = "c_Resends c i"
  let ?q = "QueueChunkEx (rs_Flags ?r OR NET_CHUNKFLAG_RESEND) (rs_Data ?r) (rs_Sequence ?r) c n"
  have "\<exists>k c1 n1. ?q = Some (k, c1, n1) \<and> same_link c c1"
  proof (cases "c_State c = OFFLINE \<or> c_State c = ERROR")
    case False
    obtain c1 n1 where f: "after_flush (rs_Data ?r) c n = (c1, n1)" by fastforce
    have "same_link c (queued (rs_Flags ?r OR NET_CHUNKFLAG_RESEND) (rs_Data ?r) (rs_Sequence ?r) c1)"
      using after_flush_same_link [OF f] queued_same_link same_link_trans by blast
    with QueueChunkEx_unfold [OF _ _ f, of "rs_Flags ?r OR NET_CHUNKFLAG_RESEND" "rs_Sequence ?r"] False or_resend [of "rs_Flags ?r"]
    show ?thesis by auto
  qed (simp add: QueueChunkEx_def)
  then obtain k c1 n1 where q: "?q = Some (k, c1, n1)" "same_link c c1" by blast
  have "same_link c (c1\<lparr>c_Resends := (c_Resends c1)(i := (c_Resends c1 i)\<lparr>rs_LastSendTime := t\<rparr>)\<rparr>)" for t
    using q(2) same_link_update(3) same_link_trans by blast
  then show ?thesis using q(1) by (simp add: ResendChunk_def Let_def case_prod_beta)
qed

lemma resend_loop_same_link:
  "conn_queue c (xs @ ys) \<Longrightarrow> length ys \<le> fuel \<Longrightarrow>
   \<exists>c' n'. resend_loop fuel (if ys = [] then None else Some (hd ys)) c n = Some (c', n') \<and> same_link c c'"
proof (induction ys arbitrary: xs fuel c n)
  case (Cons i ys)
  then obtain f where f: "fuel = Suc f" "length ys \<le> f" by (cases fuel) auto
  obtain c1 n1 where r: "ResendChunk i c n = Some (c1, n1)" "same_link c c1" using ResendChunk_same_link by blast
  have q1: "conn_queue c1 ((xs @ [i]) @ ys)" using Cons.prems(1) same_link_fields(1) [OF r(2)] by (simp add: conn_queue_def)
  then have nx: "RingBuffer_Next (c_Buffer c1) i = Some (if ys = [] then None else Some (hd ys))"
    using packets.successor_law [of "c_Buffer c1" xs i ys] by (simp add: conn_queue_def)
  from Cons.IH [OF q1 f(2), of n1] r nx f(1) show ?case
    using same_link_trans [OF r(2)] by (auto simp: Option.bind_eq_Some_conv)
qed auto

lemma Resend_same_link:
  assumes "conn_queue c q"
  shows "\<exists>c' n'. Resend c n = Some (c', n') \<and> same_link c c'"
proof -
  have "RingBuffer_First (c_Buffer c) = (if q = [] then None else Some (hd q))"
    using assms packets.start_law by (simp add: conn_queue_def)
  with resend_loop_same_link [of c "[]" q "max_items (c_Buffer c)" n] assms conn_queue_length [OF assms]
  show ?thesis by (simp add: Resend_def)
qed

section \<open>Which packets a connection listens to\<close>

definition uses_token :: "CNetConnection \<Rightarrow> bool" where
  "uses_token c \<longleftrightarrow> \<not> c_Sixup c \<and> c_State c \<noteq> OFFLINE \<and> c_SecurityToken c \<noteq> NET_SECURITY_TOKEN_UNKNOWN \<and>
     c_SecurityToken c \<noteq> NET_SECURITY_TOKEN_UNSUPPORTED"

text \<open>
  The packet comes from the peer, carries the agreed token, and acknowledges nothing that was not
  sent: in steps from the last acknowledgement on, it is not ahead of the own sequence number.
\<close>

definition authentic :: "rpacket \<Rightarrow> NETADDR \<Rightarrow> i32 \<Rightarrow> CNetConnection \<Rightarrow> bool" where
  "authentic p addr SecurityToken c \<longleftrightarrow>
     (c_State c = OFFLINE \<or> c_State c = CONNECT \<or> addr = c_PeerAddr c) \<and>
     (uses_token c \<longrightarrow> 4 \<le> rp_DataSize p \<and> c_SecurityToken c = ToSecurityToken (drop (rp_DataSize p - 4) (rp_Mem p))) \<and>
     (c_Sixup c \<longrightarrow> SecurityToken = c_Token c) \<and>
     (rp_Ack p - c_PeerAck c) mod NET_MAX_SEQUENCE \<le> (c_Sequence c - c_PeerAck c) mod NET_MAX_SEQUENCE"

definition seqs_ok :: "CNetConnection \<Rightarrow> bool" where
  "seqs_ok c \<longleftrightarrow> 0 \<le> c_Sequence c \<and> c_Sequence c < NET_MAX_SEQUENCE \<and> 0 \<le> c_Ack c \<and> c_Ack c < NET_MAX_SEQUENCE \<and>
     0 \<le> c_PeerAck c \<and> c_PeerAck c < NET_MAX_SEQUENCE"

lemma mod_1024_diff:
  "0 \<le> a \<Longrightarrow> a < NET_MAX_SEQUENCE \<Longrightarrow> 0 \<le> b \<Longrightarrow> b < NET_MAX_SEQUENCE \<Longrightarrow>
   (a - b) mod NET_MAX_SEQUENCE = (if b \<le> a then a - b else a - b + NET_MAX_SEQUENCE)"
  using mod_pos_pos_trivial [of "a - b" NET_MAX_SEQUENCE] mod_pos_pos_trivial [of "a - b + NET_MAX_SEQUENCE" NET_MAX_SEQUENCE]
    mod_add_self2 [of "a - b" NET_MAX_SEQUENCE] by auto

lemma ack_window:
  assumes "0 \<le> s" "s < NET_MAX_SEQUENCE" "0 \<le> pa" "pa < NET_MAX_SEQUENCE" "0 \<le> a" "a < NET_MAX_SEQUENCE"
  shows "(if s \<ge> pa then \<not> (a < pa \<or> a > s) else \<not> (a < pa \<and> a > s)) \<longleftrightarrow>
    (a - pa) mod NET_MAX_SEQUENCE \<le> (s - pa) mod NET_MAX_SEQUENCE"
  using assms by (simp add: mod_1024_diff) linarith

lemma feed_checks_authentic:
  assumes "seqs_ok c" "0 \<le> rp_Ack p" "rp_Ack p < NET_MAX_SEQUENCE"
  shows "feed_checks p addr tok c = (if authentic p addr tok c then Some (feed_trim p addr c) else None)"
proof -
  have w: "(if c_Sequence c \<ge> c_PeerAck c then \<not> (rp_Ack p < c_PeerAck c \<or> rp_Ack p > c_Sequence c)
      else \<not> (rp_Ack p < c_PeerAck c \<and> rp_Ack p > c_Sequence c)) \<longleftrightarrow>
    (rp_Ack p - c_PeerAck c) mod NET_MAX_SEQUENCE \<le> (c_Sequence c - c_PeerAck c) mod NET_MAX_SEQUENCE"
    using assms by (intro ack_window) (auto simp: seqs_ok_def)
  show ?thesis
  proof (cases "c_State c \<noteq> OFFLINE \<and> c_State c \<noteq> CONNECT \<and> addr \<noteq> c_PeerAddr c")
    case True
    then show ?thesis by (simp add: feed_checks_def authentic_def)
  next
    case addr: False
    define V where "V \<longleftrightarrow> (rp_Ack p - c_PeerAck c) mod NET_MAX_SEQUENCE \<le> (c_Sequence c - c_PeerAck c) mod NET_MAX_SEQUENCE"
    have fc: "feed_checks p addr tok c = do {
          p \<leftarrow> (if uses_token c
                then if rp_DataSize p < 4 then None
                     else if c_SecurityToken c \<noteq> ToSecurityToken (drop (rp_DataSize p - 4) (rp_Mem p)) then None
                     else Some (p\<lparr>rp_DataSize := rp_DataSize p - 4\<rparr>)
                else Some p);
          if c_Sixup c \<and> tok \<noteq> c_Token c then None
          else if c_Sequence c \<ge> c_PeerAck c
            then if rp_Ack p < c_PeerAck c \<or> rp_Ack p > c_Sequence c then None else Some p
          else if rp_Ack p < c_PeerAck c \<and> rp_Ack p > c_Sequence c then None
          else Some p }"
      unfolding feed_checks_def if_not_P [OF addr] uses_token_def conj_assoc Let_def by (simp cong: if_cong)
    have au: "authentic p addr tok c \<longleftrightarrow> (uses_token c \<longrightarrow> 4 \<le> rp_DataSize p \<and>
        c_SecurityToken c = ToSecurityToken (drop (rp_DataSize p - 4) (rp_Mem p))) \<and> (c_Sixup c \<longrightarrow> tok = c_Token c) \<and> V"
      using addr by (auto simp: authentic_def V_def)
    have tr: "feed_trim p addr c = (if uses_token c \<and> 4 \<le> rp_DataSize p then p\<lparr>rp_DataSize := rp_DataSize p - 4\<rparr> else p)"
      using addr by (auto simp: feed_trim_def uses_token_def)
    show ?thesis
    proof (cases "uses_token c")
      case True
      have "rp_Ack (p\<lparr>rp_DataSize := rp_DataSize p - 4\<rparr>) = rp_Ack p" by simp
      then show ?thesis unfolding fc au tr using True w [folded V_def]
        by (cases "4 \<le> rp_DataSize p") (auto split: if_splits)
    next
      case False
      then show ?thesis unfolding fc au tr using w [folded V_def] by (auto split: if_splits)
    qed
  qed
qed

lemma feed_trim_fields [simp]:
  "rp_Mem (feed_trim p addr c) = rp_Mem p" "rp_Flags (feed_trim p addr c) = rp_Flags p"
  "rp_Ack (feed_trim p addr c) = rp_Ack p" "rp_NumChunks (feed_trim p addr c) = rp_NumChunks p"
  "rp_DataSize (feed_trim p addr c) \<le> rp_DataSize p"
  by (simp_all add: feed_trim_def)

section \<open>The state machine of a connection\<close>

definition ctrl_msg :: "rpacket \<Rightarrow> int \<Rightarrow> bool" where
  "ctrl_msg p m \<longleftrightarrow> rp_Flags p AND NET_PACKETFLAG_CONTROL \<noteq> 0 \<and> uint (mem_at (rp_Mem p) 0) = m"

inductive feed_transition :: "rpacket \<Rightarrow> NETADDR \<Rightarrow> CNetConnection \<Rightarrow> conn_state \<Rightarrow> bool" for p addr c where
  stay: "s = c_State c \<Longrightarrow> feed_transition p addr c s"
| closed: "ctrl_msg p NET_CTRLMSG_CLOSE \<Longrightarrow> addr = c_PeerAddr c \<or> c_State c = CONNECT \<and> addr \<in> set (c_ConnectAddrs c) \<Longrightarrow>
    feed_transition p addr c ERROR"
| token: "c_State c = TOKEN \<Longrightarrow> ctrl_msg p NET_CTRLMSG_TOKEN \<Longrightarrow> addr = c_PeerAddr c \<Longrightarrow> feed_transition p addr c CONNECT"
| request: "c_State c = OFFLINE \<Longrightarrow> ctrl_msg p NET_CTRLMSG_CONNECT \<Longrightarrow> feed_transition p addr c PENDING"
| accepted: "c_State c = CONNECT \<Longrightarrow> ctrl_msg p NET_CTRLMSG_CONNECTACCEPT \<Longrightarrow> feed_transition p addr c ONLINE"
| confirmed: "c_State c = PENDING \<Longrightarrow> rp_Flags p AND NET_PACKETFLAG_CONTROL = 0 \<Longrightarrow> addr = c_PeerAddr c \<Longrightarrow>
    feed_transition p addr c ONLINE"

inductive_cases feed_transition_online: "feed_transition p addr c ONLINE"

text \<open>What a control message does to the resend buffer and to the state.\<close>

lemma feed_close_spec:
  "c_Buffer (feed_close p addr c) = c_Buffer c \<and>
   (c_State (feed_close p addr c) = c_State c \<or>
    c_State (feed_close p addr c) = ERROR \<and> (addr = c_PeerAddr c \<or> c_State c = CONNECT \<and> addr \<in> set (c_ConnectAddrs c)))"
  by (auto simp: feed_close_def Let_def SetError_def)

lemma feed_close_fields [simp]:
  "c_Resends (feed_close p addr c) = c_Resends c" "c_Sequence (feed_close p addr c) = c_Sequence c"
  "c_Ack (feed_close p addr c) = c_Ack c" "c_PeerAck (feed_close p addr c) = c_PeerAck c"
  by (simp_all add: feed_close_def Let_def SetError_def)

lemma feed_token_spec:
  assumes "feed_token stack Now tok c n = (c', n')"
  shows "c_Buffer c' = c_Buffer c \<and> (c_State c' = c_State c \<or> c_State c = TOKEN \<and> c_State c' = CONNECT) \<and>
    c_Resends c' = c_Resends c \<and> c_Sequence c' = c_Sequence c \<and> c_Ack c' = c_Ack c \<and> c_PeerAck c' = c_PeerAck c"
  using assms by (auto simp: feed_token_def SendControlWithToken7_def Let_def time_get_def split: if_splits)

lemma feed_connect_spec:
  assumes "feed_connect Now m p addr c n = (c', n')" "c_State c = CONNECT"
  shows "c_Buffer c' = c_Buffer c \<and> (c_State c' = CONNECT \<or> m = NET_CTRLMSG_CONNECTACCEPT \<and> c_State c' = ONLINE) \<and>
    c_Resends c' = c_Resends c \<and> c_Sequence c' = c_Sequence c \<and> c_Ack c' = c_Ack c \<and> c_PeerAck c' = c_PeerAck c"
  using assms by (auto simp: feed_connect_def SendControl_def SetPeerAddr_def Let_def time_get_def split: if_splits)

lemma feed_offline_spec:
  assumes "feed_offline Now m addr c n = (Some (c', n'), n0)"
  shows "(c_Buffer c' = c_Buffer c \<and> c_State c' = c_State c \<and> c_Resends c' = c_Resends c \<and> c_Sequence c' = c_Sequence c \<and>
      c_Ack c' = c_Ack c \<and> c_PeerAck c' = c_PeerAck c) \<or>
    (m = NET_CTRLMSG_CONNECT \<and> c_State c' = PENDING \<and> c_Buffer c' = RingBuffer_Init NET_CONN_BUFFERSIZE False (c_Buffer c) \<and>
      c_Sequence c' = 0 \<and> c_Ack c' = 0 \<and> c_PeerAck c' = 0)"
proof (cases "m = NET_CTRLMSG_CONNECT")
  case True
  define C where "C = (SetPeerAddr addr ((Conn_Reset False c)\<lparr>c_State := PENDING\<rparr>))
    \<lparr>c_ErrorString := [], c_LastSendTime := Now, c_LastRecvTime := Now, c_LastUpdateTime := Now,
      c_SecurityToken := NET_SECURITY_TOKEN_UNSUPPORTED\<rparr>"
  obtain n1 where "SendControl NET_CTRLMSG_CONNECTACCEPT SECURITY_TOKEN_MAGIC C n1 = (c', n')"
    using assms True unfolding feed_offline_def Let_def C_def by (auto split: prod.splits if_splits)
  then have "c_Buffer c' = c_Buffer C" "c_State c' = c_State C" "c_Sequence c' = c_Sequence C" "c_Ack c' = c_Ack C" "c_PeerAck c' = c_PeerAck C"
    using SendControl_same_link same_link_fields by blast+
  then show ?thesis using True unfolding C_def SetPeerAddr_def Conn_Reset_def Let_def by simp
next
  case False
  then show ?thesis using assms by (simp add: feed_offline_def)
qed

lemma feed_control_spec:
  assumes "feed_control stack Now p addr tok c n = (g, c', n')" "rp_Flags p AND NET_PACKETFLAG_CONTROL \<noteq> 0"
    "c_State c = OFFLINE \<or> c_State c = CONNECT \<or> addr = c_PeerAddr c"
  shows "feed_transition p addr c (c_State c') \<and>
    ((c_Buffer c' = c_Buffer c \<and> c_Resends c' = c_Resends c \<and> c_Sequence c' = c_Sequence c \<and> c_Ack c' = c_Ack c \<and> c_PeerAck c' = c_PeerAck c) \<or>
     (c_State c = OFFLINE \<and> c_Buffer c' = RingBuffer_Init NET_CONN_BUFFERSIZE False (c_Buffer c) \<and>
      c_Sequence c' = 0 \<and> c_Ack c' = 0 \<and> c_PeerAck c' = 0))"
proof -
  have m: "ctrl_msg p k \<longleftrightarrow> uint (mem_at (rp_Mem p) 0) = k" for k using assms(2) by (simp add: ctrl_msg_def)
  let ?m = "uint (mem_at (rp_Mem p) 0)"
  consider (close) "?m = 4" | (token) "?m = 5" | (off) "?m \<noteq> 4" "?m \<noteq> 5" "c_State c = OFFLINE"
    | (con) "?m \<noteq> 4" "?m \<noteq> 5" "c_State c = CONNECT"
    | (else) "?m \<noteq> 4" "?m \<noteq> 5" "c_State c \<noteq> OFFLINE" "c_State c \<noteq> CONNECT" by blast
  then show ?thesis
  proof cases
    case close
    then have "c' = feed_close p addr c" using assms(1) by (simp add: feed_control_def)
    moreover have "feed_transition p addr c ERROR" if "addr = c_PeerAddr c \<or> c_State c = CONNECT \<and> addr \<in> set (c_ConnectAddrs c)"
      using that close by (intro feed_transition.closed) (simp_all add: m)
    ultimately show ?thesis using feed_close_spec [of p addr c] feed_transition.stay [of _ c p addr] by auto
  next
    case token
    then have "feed_token stack Now tok c n = (c', n')" using assms(1) by (simp add: feed_control_def)
    moreover have "feed_transition p addr c CONNECT" if "c_State c = TOKEN"
      using that token assms(3) by (intro feed_transition.token) (simp_all add: m)
    ultimately show ?thesis using feed_token_spec [of stack Now tok c n c' n'] feed_transition.stay [of _ c p addr] by auto
  next
    case off
    show ?thesis
    proof (cases "fst (feed_offline Now ?m addr c n)")
      case None
      then have "c' = c" using assms(1) off by (auto simp: feed_control_def split: prod.splits)
      then show ?thesis using feed_transition.stay [of _ c p addr] by simp
    next
      case (Some r)
      then have fo: "feed_offline Now ?m addr c n = (Some (c', n'), snd (feed_offline Now ?m addr c n))"
        using assms(1) off by (auto simp: feed_control_def prod_eq_iff split: prod.splits)
      moreover have "feed_transition p addr c PENDING" if "?m = NET_CTRLMSG_CONNECT"
        using that off by (intro feed_transition.request) (simp_all add: m)
      ultimately show ?thesis using feed_offline_spec [OF fo] off(3) feed_transition.stay [of _ c p addr] by metis
    qed
  next
    case con
    then have "feed_connect Now ?m p addr c n = (c', n')" using assms(1) by (simp add: feed_control_def)
    moreover have "feed_transition p addr c ONLINE" if "?m = NET_CTRLMSG_CONNECTACCEPT"
      using that con by (intro feed_transition.accepted) (simp_all add: m)
    ultimately show ?thesis using feed_connect_spec [of Now ?m p addr c n c' n'] con feed_transition.stay [of _ c p addr] by auto
  next
    case else
    then have "c' = c" using assms(1) by (simp add: feed_control_def)
    then show ?thesis using feed_transition.stay [of _ c p addr] by simp
  qed
qed


section \<open>Every operation returns and keeps the invariant\<close>

definition resend_ok :: "CNetChunkResend \<Rightarrow> bool" where
  "resend_ok r \<longleftrightarrow> rs_Flags r AND NET_CHUNKFLAG_VITAL \<noteq> 0 \<and> rs_Flags r AND NET_CHUNKFLAG_RESEND = 0 \<and>
     0 \<le> rs_Sequence r \<and> rs_Sequence r < NET_MAX_SEQUENCE"

text \<open>The block of a kept chunk has room for it.\<close>

definition kept_size :: "CNetChunkResend \<Rightarrow> nat" where
  "kept_size r = wanted_size (RESEND_SIZE + length (rs_Data r))"

definition CONN_RING_SIZE :: nat where "CONN_RING_SIZE = NET_CONN_BUFFERSIZE div ITEM_SIZE * ITEM_SIZE"

definition buffer_ok :: "CNetConnection \<Rightarrow> nat list \<Rightarrow> bool" where
  "buffer_ok c q \<longleftrightarrow> conn_queue c q \<and> rb_Size (c_Buffer c) = CONN_RING_SIZE \<and>
     (\<forall>i \<in> set q. resend_ok (c_Resends c i) \<and> kept_size (c_Resends c i) \<le> it_Size (rb_Items (c_Buffer c) i))"

definition conn_ok :: "CNetConnection \<Rightarrow> bool" where
  "conn_ok c \<longleftrightarrow> seqs_ok c \<and> (\<exists>q. buffer_ok c q)"

lemma buffer_ok_cong:
  "c_Buffer c' = c_Buffer c \<Longrightarrow> c_Resends c' = c_Resends c \<Longrightarrow> buffer_ok c' q = buffer_ok c q"
  by (simp add: buffer_ok_def conn_queue_def)

lemma buffer_ok_same_link: "same_link c c' \<Longrightarrow> buffer_ok c' q = buffer_ok c q"
  by (simp add: buffer_ok_def conn_queue_def resend_ok_def kept_size_def same_link_fields(1) same_link_resend_fields)

lemma seqs_ok_same_link: "same_link c c' \<Longrightarrow> seqs_ok c' = seqs_ok c"
  by (simp add: seqs_ok_def same_link_fields)

lemma conn_ok_same_link [inv_intros]: "same_link c c' \<Longrightarrow> conn_ok c \<Longrightarrow> conn_ok c'"
  by (simp add: conn_ok_def buffer_ok_same_link seqs_ok_same_link)

lemma conn_ok_cong:
  "c_Buffer c' = c_Buffer c \<Longrightarrow> c_Resends c' = c_Resends c \<Longrightarrow> c_Sequence c' = c_Sequence c \<Longrightarrow> c_Ack c' = c_Ack c \<Longrightarrow>
   c_PeerAck c' = c_PeerAck c \<Longrightarrow> conn_ok c' = conn_ok c"
  using buffer_ok_cong [of c' c] by (simp add: conn_ok_def seqs_ok_def)

lemma conn_ok_fresh:
  "c_Buffer c' = RingBuffer_Init NET_CONN_BUFFERSIZE False rb \<Longrightarrow> c_Sequence c' = 0 \<Longrightarrow> c_Ack c' = 0 \<Longrightarrow> c_PeerAck c' = 0 \<Longrightarrow> conn_ok c'"
  using Init_conn_queue [of c' rb]
  by (auto simp: conn_ok_def seqs_ok_def buffer_ok_def CONN_RING_SIZE_def RingBuffer_Init_def RingBuffer_Clear_def)

lemma Reset_conn_ok [inv_intros]: "conn_ok (Conn_Reset Rejoin c)"
  by (rule conn_ok_fresh [of _ "c_Buffer c"]) (simp_all add: Conn_Reset_def Let_def)

lemma AckChunks_ok:
  assumes "conn_ok c"
  obtains rb where "AckChunks Ack c = Some (c\<lparr>c_Buffer := rb\<rparr>)" "conn_ok (c\<lparr>c_Buffer := rb\<rparr>)"
proof -
  obtain q where q: "buffer_ok c q" "seqs_ok c" using assms by (auto simp: conn_ok_def)
  then obtain rb where rb: "AckChunks Ack c = Some (c\<lparr>c_Buffer := rb\<rparr>)"
    "conn_queue (c\<lparr>c_Buffer := rb\<rparr>) (dropWhile (\<lambda>i. IsSeqInBackroom (rs_Sequence (c_Resends c i)) Ack) q)"
    "no_smaller (c_Buffer c) rb"
    by (auto simp: buffer_ok_def elim: AckChunks_queue)
  then have "buffer_ok (c\<lparr>c_Buffer := rb\<rparr>) (dropWhile (\<lambda>i. IsSeqInBackroom (rs_Sequence (c_Resends c i)) Ack) q)"
    using q(1) by (auto simp: buffer_ok_def no_smaller_def dest!: set_dropWhileD intro: order_trans)
  with q(2) show thesis by (intro that [OF rb(1)]) (auto simp: conn_ok_def seqs_ok_def)
qed

lemma Feed_ok:
  assumes "conn_ok c" "0 \<le> rp_Ack p" "rp_Ack p < NET_MAX_SEQUENCE"
  obtains (ignored) "\<not> authentic p addr tok c" "Feed stack p addr tok rtok c n = Some (0, feed_trim p addr c, c, n)"
  | (fed) r c' n' where "authentic p addr tok c" "Feed stack p addr tok rtok c n = Some (r, feed_trim p addr c, c', n')"
      "conn_ok c'" "feed_transition p addr c (c_State c')"
proof (cases "authentic p addr tok c")
  case False
  then show ?thesis using assms ignored feed_checks_authentic [of c p addr tok] by (simp add: Feed_def conn_ok_def)
next
  case True
  let ?p = "feed_trim p addr c"
  define c0 where "c0 = c\<lparr>c_PeerAck := rp_Ack p\<rparr>"
  obtain Now n0 where t: "time_get n = (Now, n0)" by fastforce
  have fc: "feed_checks p addr tok c = Some ?p" using True assms feed_checks_authentic [of c p addr tok] by (simp add: conn_ok_def)
  obtain q where q: "buffer_ok c q" "seqs_ok c" using assms(1) by (auto simp: conn_ok_def)
  have c0: "conn_ok c0" "conn_queue c0 q" using q assms(2,3) by (auto simp: conn_ok_def c0_def seqs_ok_def buffer_ok_def conn_queue_def)
  obtain c1 n1 where r: "(if rp_Flags ?p AND NET_PACKETFLAG_RESEND \<noteq> 0 then Resend c0 n0 else Some (c0, n0)) = Some (c1, n1)"
    "same_link c0 c1"
    using Resend_same_link [OF c0(2), of n0] same_link_refl [of c0] by (cases "rp_Flags ?p AND NET_PACKETFLAG_RESEND \<noteq> 0") auto
  have c1: "conn_ok c1" "c_State c1 = c_State c" "c_PeerAddr c1 = c_PeerAddr c" "c_ConnectAddrs c1 = c_ConnectAddrs c"
    using conn_ok_same_link [OF r(2) c0(1)] same_link_fields [OF r(2)] by (simp_all add: c0_def)
  obtain g c2 n2 where ctl: "(if rp_Flags ?p AND NET_PACKETFLAG_CONTROL \<noteq> 0 then feed_control stack Now ?p addr rtok c1 n1
      else (True, if c_State c1 = PENDING then c1\<lparr>c_LastRecvTime := Now, c_State := ONLINE\<rparr> else c1, n1)) = (g, c2, n2)"
    by (metis prod_cases3)
  have tr: "feed_transition ?p addr c1 s = feed_transition p addr c s" for s
    using c1 by (auto simp: feed_transition.simps ctrl_msg_def)
  have addr: "c_State c1 = OFFLINE \<or> c_State c1 = CONNECT \<or> addr = c_PeerAddr c1" using True c1 by (simp add: authentic_def)
  have c2: "conn_ok c2 \<and> feed_transition p addr c (c_State c2)"
  proof (cases "rp_Flags ?p AND NET_PACKETFLAG_CONTROL \<noteq> 0")
    case control: True
    from feed_control_spec [OF _ control addr, of stack Now rtok n1 g c2 n2] ctl control
    have "feed_transition ?p addr c1 (c_State c2)"
      "(c_Buffer c2 = c_Buffer c1 \<and> c_Resends c2 = c_Resends c1 \<and> c_Sequence c2 = c_Sequence c1 \<and> c_Ack c2 = c_Ack c1 \<and> c_PeerAck c2 = c_PeerAck c1) \<or>
       (c_State c1 = OFFLINE \<and> c_Buffer c2 = RingBuffer_Init NET_CONN_BUFFERSIZE False (c_Buffer c1) \<and>
        c_Sequence c2 = 0 \<and> c_Ack c2 = 0 \<and> c_PeerAck c2 = 0)"
      by simp_all
    then show ?thesis using c1(1) conn_ok_cong [of c2 c1] conn_ok_fresh [of c2] tr by blast
  next
    case data: False
    then have "c2 = (if c_State c1 = PENDING then c1\<lparr>c_LastRecvTime := Now, c_State := ONLINE\<rparr> else c1)" using ctl by simp
    moreover have "feed_transition p addr c ONLINE" if "c_State c1 = PENDING"
      using that data c1 addr by (intro feed_transition.confirmed) simp_all
    moreover have "conn_ok (c1\<lparr>c_LastRecvTime := Now, c_State := ONLINE\<rparr>)"
      using c1(1) by (rule conn_ok_cong [THEN iffD2, rotated -1]) simp_all
    ultimately show ?thesis using c1(1,2) feed_transition.stay [of _ c p addr] by auto
  qed
  have F: "Feed stack p addr tok rtok c n = (if \<not> g then Some (0, ?p, c2, n2)
      else if c_State c2 = ONLINE
        then do { c \<leftarrow> AckChunks (rp_Ack ?p) (c2\<lparr>c_LastRecvTime := Now\<rparr>); Some (1, ?p, c, n2) }
      else Some (1, ?p, c2, n2))"
    using ctl r(1) unfolding Feed_def fc option.case Let_def t prod.case c0_def [symmetric] feed_trim_fields
    by (simp only: feed_trim_fields bind.bind_lunit prod.case)
  show ?thesis
  proof (cases "g \<and> c_State c2 = ONLINE")
    case go: True
    have "conn_ok (c2\<lparr>c_LastRecvTime := Now\<rparr>)" using c2 conn_ok_cong [of "c2\<lparr>c_LastRecvTime := Now\<rparr>" c2] by simp
    then obtain rb where a: "AckChunks (rp_Ack ?p) (c2\<lparr>c_LastRecvTime := Now\<rparr>) = Some (c2\<lparr>c_LastRecvTime := Now\<rparr>\<lparr>c_Buffer := rb\<rparr>)"
      "conn_ok (c2\<lparr>c_LastRecvTime := Now\<rparr>\<lparr>c_Buffer := rb\<rparr>)"
      using AckChunks_ok [of "c2\<lparr>c_LastRecvTime := Now\<rparr>"] by blast
    have "Feed stack p addr tok rtok c n = Some (1, ?p, c2\<lparr>c_LastRecvTime := Now\<rparr>\<lparr>c_Buffer := rb\<rparr>, n2)"
      unfolding F using a(1) go by simp
    moreover have "feed_transition p addr c (c_State (c2\<lparr>c_LastRecvTime := Now\<rparr>\<lparr>c_Buffer := rb\<rparr>))" using c2 by simp
    ultimately show ?thesis using a(2) by (intro fed [OF True])
  next
    case False
    then have "Feed stack p addr tok rtok c n = Some (if g then 1 else 0, ?p, c2, n2)" unfolding F by (cases g) simp_all
    then show ?thesis using c2 by (intro fed [OF True]) blast+
  qed
qed

lemma conn_ok_save:
  assumes "conn_ok c" "appended (c_Buffer c) q (rs_Data r) i rb" "buffer_ok c q" "resend_ok r" "same_link c c'"
  shows "conn_ok (c'\<lparr>c_Buffer := rb, c_Resends := (c_Resends c)(i := r)\<rparr>)"
proof -
  have "conn_queue (c'\<lparr>c_Buffer := rb, c_Resends := (c_Resends c)(i := r)\<rparr>) (q @ [i])"
    using assms(2) by (simp add: conn_queue_def appended_def)
  then have "buffer_ok (c'\<lparr>c_Buffer := rb, c_Resends := (c_Resends c)(i := r)\<rparr>) (q @ [i])"
    using assms(2-4) by (auto simp: buffer_ok_def appended_def kept_size_def intro: order_trans)
  moreover have "seqs_ok (c'\<lparr>c_Buffer := rb, c_Resends := (c_Resends c)(i := r)\<rparr>)"
    using assms(1) same_link_fields [OF assms(5)] by (simp add: conn_ok_def seqs_ok_def)
  ultimately show ?thesis unfolding conn_ok_def by blast
qed

lemma QueueChunkEx_ok:
  assumes "conn_ok c" "0 \<le> Sequence" "Sequence < NET_MAX_SEQUENCE"
  shows "\<exists>r c' n'. QueueChunkEx Flags Data Sequence c n = Some (r, c', n') \<and> conn_ok c' \<and> c_State c' = c_State c"
proof -
  obtain q where q: "buffer_ok c q" using assms(1) by (auto simp: conn_ok_def)
  then have cq: "conn_queue c q" by (simp add: buffer_ok_def)
  have link: "same_link c (queued Flags Data Sequence c1)" if "after_flush Data c n = (c1, n1)" for c1 n1
    using after_flush_same_link [OF that] queued_same_link same_link_trans by blast
  show ?thesis
  proof (cases rule: QueueChunkEx_cases [OF cq, of Flags Data Sequence n, case_names refused packed saved unsaved])
    case refused
    then show ?thesis using assms(1) by simp
  next
    case (packed c1 n1)
    then show ?thesis using conn_ok_same_link [OF link assms(1)] same_link_fields(2) [OF link] by blast
  next
    case (saved c1 n1 i rb)
    have "resend_ok \<lparr>rs_Flags = Flags, rs_Data = Data, rs_Sequence = Sequence, rs_LastSendTime = t, rs_FirstSendTime = t'\<rparr>" for t t'
      using saved assms(2,3) by (simp add: resend_ok_def)
    from conn_ok_save [OF assms(1) _ q this link [OF saved(1)]] saved(6)
    show ?thesis using saved(7) same_link_fields(2) [OF link [OF saved(1)]] by auto
  next
    case (unsaved c1 n1)
    then show ?thesis using conn_ok_same_link [OF link assms(1)] same_link_fields(2) [OF link] by blast
  qed
qed

lemma QueueChunk_ok:
  assumes "conn_ok c"
  shows "\<exists>r c' n'. QueueChunk Flags Data c n = Some (r, c', n') \<and> conn_ok c' \<and> c_State c' = c_State c"
proof -
  define c1 where "c1 = (if Flags AND NET_CHUNKFLAG_VITAL \<noteq> 0 then c\<lparr>c_Sequence := (c_Sequence c + 1) mod NET_MAX_SEQUENCE\<rparr> else c)"
  have fields: "c_Buffer c1 = c_Buffer c" "c_Resends c1 = c_Resends c" "c_State c1 = c_State c" by (simp_all add: c1_def)
  have "seqs_ok c1" using assms by (auto simp: c1_def seqs_ok_def conn_ok_def)
  then have "conn_ok c1" "0 \<le> c_Sequence c1" "c_Sequence c1 < NET_MAX_SEQUENCE"
    using assms buffer_ok_cong [OF fields(1,2)] by (auto simp: conn_ok_def seqs_ok_def)
  from QueueChunkEx_ok [OF this, of Flags Data n] fields(3) show ?thesis
    unfolding QueueChunk_def Let_def c1_def [symmetric] by simp
qed

lemma update_alive_same_link: "update_alive c n = (c', n') \<Longrightarrow> same_link c c'"
proof -
  assume u: "update_alive c n = (c', n')"
  have k: "same_link c c'" if "(let (t, n) = time_get n;
            (c, n) = (if t - c_LastSendTime c > time_freq div 2 then snd (Flush c n) else (c, n));
            (t, n) = time_get n
        in if t - c_LastSendTime c > time_freq then SendControl NET_CTRLMSG_KEEPALIVE [] c n else (c, n)) = (c', n')"
  proof -
    obtain t n1 where t: "time_get n = (t, n1)" by fastforce
    obtain c2 n2 where f: "(if t - c_LastSendTime c > time_freq div 2 then snd (Flush c n1) else (c, n1)) = (c2, n2)" by fastforce
    have l: "same_link c c2"
    proof (cases "t - c_LastSendTime c > time_freq div 2")
      case True
      with f show ?thesis using Flush_same_link [of c n1 "fst (Flush c n1)" c2 n2] by (simp add: prod_eq_iff)
    qed (use f in simp)
    have "(let (t, n) = time_get n2 in if t - c_LastSendTime c2 > time_freq then SendControl NET_CTRLMSG_KEEPALIVE [] c2 n else (c2, n)) = (c', n')"
      using that unfolding t Let_def prod.case f .
    then have "same_link c2 c'" using SendControl_same_link by (auto simp: Let_def split: prod.splits if_splits)
    with l show ?thesis by (rule same_link_trans)
  qed
  show ?thesis
  proof (cases "c_State c = ONLINE")
    case True
    with u k show ?thesis by (simp add: update_alive_def)
  next
    case False
    with u show ?thesis using SendControl_same_link SendConnect_same_link
      by (auto simp: update_alive_def Let_def split: if_splits prod.splits)
  qed
qed

lemma update_resend_ok:
  assumes "conn_ok c"
  shows "\<exists>c' n'. update_resend g Now c n = Some (c', n') \<and> conn_ok c' \<and> (c_State c' = c_State c \<or> c_State c' = ERROR)"
proof (cases "RingBuffer_First (c_Buffer c)")
  case (Some i)
  show ?thesis
  proof (cases "Now - rs_FirstSendTime (c_Resends c i) > time_freq * g_ConnTimeout g")
    case True
    define c1 where "c1 = (SetError (bytes_of (''Too weak connection (not acked for '' @ decimal (g_ConnTimeout g) @ '' seconds)''))
                       (c\<lparr>c_State := ERROR\<rparr>))\<lparr>c_TimeoutSituation := True\<rparr>"
    have "conn_ok c1" "c_State c1 = ERROR" using assms conn_ok_cong [of c1 c] by (simp_all add: c1_def SetError_def)
    with Some True show ?thesis by (simp add: update_resend_def c1_def)
  next
    case False
    obtain c' n' where "ResendChunk i c n = Some (c', n')" "same_link c c'" using ResendChunk_same_link by blast
    then show ?thesis using False Some assms conn_ok_same_link [of c c'] same_link_fields(2) [of c c']
      by (simp add: update_resend_def)
  qed
qed (use assms in \<open>simp add: update_resend_def\<close>)

lemma update_timeouts_ok:
  "conn_ok c \<Longrightarrow> conn_ok (update_timeouts g Now c) \<and>
    (c_State (update_timeouts g Now c) = c_State c \<or> c_State (update_timeouts g Now c) = ERROR)"
  using conn_ok_cong [of "update_timeouts g Now c" c] by (simp add: update_timeouts_def SetError_def Let_def)

lemma Conn_Update_ok:
  assumes "conn_ok c"
  shows "\<exists>c' n'. Conn_Update g c n = Some (c', n') \<and> conn_ok c' \<and> (c_State c' = c_State c \<or> c_State c' = ERROR)"
proof -
  obtain Now n1 where t: "time_get n = (Now, n1)" by fastforce
  define c1 where "c1 = (if c_State c = ERROR \<and> c_TimeoutSituation c \<and> Now - c_LastRecvTime c > time_freq * g_ConnTimeoutProtection g
               then SetError (bytes_of ''Timeout Protection over'') (c\<lparr>c_TimeoutSituation := False\<rparr>) else c)"
  have c1: "conn_ok c1" "c_State c1 = c_State c" using assms conn_ok_cong [of c1 c] by (simp_all add: c1_def SetError_def)
  show ?thesis
  proof (cases "c_State c1 = OFFLINE \<or> c_State c1 = ERROR")
    case True
    then have "Conn_Update g c n = Some (c1, n1)" unfolding Conn_Update_def t Let_def prod.case c1_def [symmetric] by simp
    with c1 show ?thesis by simp
  next
    case False
    obtain c2 n2 where r: "update_resend g Now (update_timeouts g Now c1) n1 = Some (c2, n2)" "conn_ok c2"
      "c_State c2 = c_State c \<or> c_State c2 = ERROR"
      using update_resend_ok [of "update_timeouts g Now c1" g Now n1] update_timeouts_ok [OF c1(1), of g Now] c1(2) by auto
    obtain c3 n3 where a: "update_alive c2 n2 = (c3, n3)" by fastforce
    have "Conn_Update g c n = Some (c3, n3)"
      using r(1) a False unfolding Conn_Update_def t Let_def prod.case c1_def [symmetric] by simp
    then show ?thesis using update_alive_same_link [OF a] r(2,3) conn_ok_same_link same_link_fields(2) by metis
  qed
qed

lemma Connect_ok: "conn_ok c \<Longrightarrow> conn_ok (fst (snd (Conn_Connect addrs c n)))"
proof -
  assume c: "conn_ok c"
  define c1 where "c1 = (ClearPeerAddr (Conn_Reset False c))\<lparr>c_ConnectAddrs := addrs, c_ErrorString := [], c_State := CONNECT\<rparr>"
  have "conn_ok c1" by (rule conn_ok_fresh [of _ "c_Buffer c"]) (simp_all add: c1_def ClearPeerAddr_def Conn_Reset_def Let_def)
  then have "conn_ok (fst (SendConnect c1 n))" using conn_ok_same_link SendConnect_same_link by (metis prod.collapse)
  with c show ?thesis by (simp add: Conn_Connect_def Let_def c1_def)
qed

lemma Connect7_ok: "conn_ok c \<Longrightarrow> conn_ok (fst (snd (Conn_Connect7 stack rnd addrs c n)))"
proof -
  assume c: "conn_ok c"
  obtain t n1 where t: "time_get n = (t, n1)" by fastforce
  define c1 where "c1 = (SetToken7 rnd (SetPeerAddr (hd addrs) ((Conn_Reset False c)\<lparr>c_ConnectAddrs := addrs, c_LastRecvTime := t\<rparr>)))
     \<lparr>c_ErrorString := [], c_State := TOKEN\<rparr>"
  obtain c2 n2 where s: "SendControlWithToken7 stack NET_CTRLMSG_TOKEN NET_TOKEN_NONE c1 n1 = (c2, n2)" by fastforce
  have "conn_ok c1"
    by (rule conn_ok_fresh [of _ "c_Buffer c"]) (simp_all add: c1_def SetToken7_def SetPeerAddr_def Conn_Reset_def Let_def)
  then have "conn_ok c2" using conn_ok_same_link SendControlWithToken7_same_link [OF s] by blast
  then have "conn_ok (c2\<lparr>c_Sixup := True\<rparr>)" using conn_ok_cong [of "c2\<lparr>c_Sixup := True\<rparr>" c2] by simp
  moreover have "\<not> c_State c \<noteq> OFFLINE \<Longrightarrow> Conn_Connect7 stack rnd addrs c n = (0, c2\<lparr>c_Sixup := True\<rparr>, n2)"
    using s by (simp add: Conn_Connect7_def t c1_def)
  ultimately show ?thesis using c by (cases "c_State c = OFFLINE") (simp_all add: Conn_Connect7_def)
qed

lemma Disconnect_ok: "conn_ok c \<Longrightarrow> conn_ok (fst (Conn_Disconnect r c n))"
  using Reset_conn_ok by (auto simp: Conn_Disconnect_def split: prod.splits)

lemma DirectInit_ok: "conn_ok (fst (DirectInit addr st t s c n))"
proof -
  obtain c' n' where d: "DirectInit addr st t s c n = (c', n')" by fastforce
  then have "c_Buffer c' = RingBuffer_Init NET_CONN_BUFFERSIZE False (c_Buffer c)" "c_Sequence c' = 0" "c_Ack c' = 0" "c_PeerAck c' = 0"
    by (auto simp: DirectInit_def SetPeerAddr_def Conn_Reset_def Let_def time_get_def)
  with d show ?thesis using conn_ok_fresh by simp
qed

lemma Init_ok: "conn_ok (Conn_Init b c)"
  by (rule conn_ok_fresh [of _ "c_Buffer c"]) (simp_all add: Conn_Init_def ResetStats_def ClearPeerAddr_def Conn_Reset_def Let_def)

section \<open>Chunks travel in a packet\<close>

type_synonym chunk = "int \<times> u8 list \<times> int"

definition is_vital :: "int \<Rightarrow> bool" where
  "is_vital Flags \<longleftrightarrow> Flags AND NET_CHUNKFLAG_VITAL \<noteq> 0"

fun pack_one :: "bool \<Rightarrow> chunk \<Rightarrow> u8 list" where
  "pack_one Sixup (Flags, Data, Sequence) = pack_chunk Sixup Flags Data Sequence"

definition pack_all :: "bool \<Rightarrow> chunk list \<Rightarrow> u8 list" where
  "pack_all Sixup cs = concat (map (pack_one Sixup) cs)"

text \<open>The chunks that the header format can carry.\<close>

fun chunk_ok :: "bool \<Rightarrow> chunk \<Rightarrow> bool" where
  "chunk_ok Sixup (Flags, Data, Sequence) \<longleftrightarrow> 0 \<le> Flags \<and> Flags < 4 \<and>
     length Data < (if Sixup then 4096 else 1024) \<and> (is_vital Flags \<longrightarrow> 0 \<le> Sequence \<and> Sequence < NET_MAX_SEQUENCE)"

definition header_len :: "int \<Rightarrow> nat" where
  "header_len Flags = (if is_vital Flags then 3 else 2)"

lemma unpack_pack_one:
  assumes "chunk_ok Sixup (F, D, S)"
  shows "\<exists>Seq. ChunkHeader_Unpack (pack_one Sixup (F, D, S) @ rest) (if Sixup then 6 else 4) =
      (\<lparr>h_Flags = F, h_Size = int (length D), h_Sequence = Seq\<rparr>, D @ rest) \<and> (is_vital F \<longrightarrow> Seq = S)"
proof -
  let ?s = "if Sixup then 6 else 4 :: nat"
  let ?h = "\<lparr>h_Flags = F, h_Size = int (length D), h_Sequence = if is_vital F then S else -1\<rparr>"
  have "ChunkHeader_Pack \<lparr>h_Flags = F, h_Size = int (length D), h_Sequence = S\<rparr> ?s = ChunkHeader_Pack ?h ?s"
    by (simp add: ChunkHeader_Pack_def is_vital_def Let_def del: push_bit_and drop_bit_and)
  moreover have "header_ok ?s ?h" using assms by (auto simp: header_ok_def is_vital_def)
  ultimately show ?thesis using Header_roundtrip [of ?s ?h "D @ rest"] by (auto simp: pack_chunk_def)
qed

lemma length_pack_one: "length (pack_one Sixup (F, D, S)) = header_len F + length D"
  by (simp add: pack_chunk_def ChunkHeader_Pack_def header_len_def is_vital_def Let_def)

lemma header_len_alt: "(if F AND NET_CHUNKFLAG_VITAL \<noteq> 0 then 3 else 2) = header_len F"
  by (simp add: header_len_def is_vital_def)

lemma skip_chunks_packed:
  assumes "\<forall>c \<in> set cs. chunk_ok Sixup c"
  shows "skip_chunks (pre @ pack_all Sixup cs @ rest) (if Sixup then 6 else 4) (length cs) (length pre) =
    length pre + length (pack_all Sixup cs)"
  using assms
proof (induction cs arbitrary: pre)
  case (Cons c cs)
  obtain F D S where c: "c = (F, D, S)" by (cases c)
  from Cons.prems c have ok: "chunk_ok Sixup (F, D, S)" by simp
  let ?tail = "pack_all Sixup cs @ rest"
  obtain Seq where u: "ChunkHeader_Unpack (pack_one Sixup (F, D, S) @ ?tail) (if Sixup then 6 else 4) =
      (\<lparr>h_Flags = F, h_Size = int (length D), h_Sequence = Seq\<rparr>, D @ ?tail)"
    using unpack_pack_one [OF ok] by blast
  have "drop (length pre) (pre @ pack_all Sixup (c # cs) @ rest) = pack_one Sixup (F, D, S) @ ?tail"
    using c by (simp add: pack_all_def)
  then have "skip_chunks (pre @ pack_all Sixup (c # cs) @ rest) (if Sixup then 6 else 4) (length (c # cs)) (length pre) =
    skip_chunks ((pre @ pack_one Sixup (F, D, S)) @ pack_all Sixup cs @ rest) (if Sixup then 6 else 4) (length cs)
      (length (pre @ pack_one Sixup (F, D, S)))"
    using u c by (simp add: header_len_alt length_pack_one pack_all_def add.assoc del: pack_one.simps)
  also have "\<dots> = length (pre @ pack_one Sixup (F, D, S)) + length (pack_all Sixup cs)"
    using Cons.prems by (intro Cons.IH) simp
  finally show ?case using c by (simp add: pack_all_def)
qed (simp add: pack_all_def)

text \<open>What a receiver takes of a list of chunks: all that are not vital, and of the vital ones the next in sequence.\<close>

fun deliver :: "chunk list \<Rightarrow> CNetConnection \<Rightarrow> chunk list \<times> CNetConnection" where
  "deliver [] c = ([], c)"
| "deliver ((F, D, S) # cs) c =
     (let (ok, c) = (if is_vital F then accept_sequence S c else (True, c));
          (ds, c) = deliver cs c
      in (if ok then (F, D, S) # ds else ds, c))"

text \<open>The loop of the receivers over \<open>FetchChunk\<close>, with the flags and the data of the chunks.\<close>

lemma FetchChunk_progress:
  "FetchChunk u conn = (Some ch, u', conn') \<Longrightarrow>
     u_Data u' = u_Data u \<and> u_CurrentChunk u < u_CurrentChunk u' \<and> int (u_CurrentChunk u') \<le> rp_NumChunks (u_Data u) \<and>
     ch_pData ch + ch_DataSize ch \<le> rp_DataSize (u_Data u)"
proof (induction u conn rule: FetchChunk.induct)
  case (1 u conn)
  obtain h pData where h: "fetch_header u conn = (h, pData)" by fastforce
  define u1 where "u1 = u\<lparr>u_CurrentChunk := Suc (u_CurrentChunk u)\<rparr>"
  obtain deliver conn1 where d: "fetch_accept h conn = (deliver, conn1)" by fastforce
  have valid: "u_Valid u" "int (u_CurrentChunk u) < rp_NumChunks (u_Data u)"
    using "1.prems" by (auto simp: FetchChunk.simps [of u conn] split: if_splits)
  have F: "FetchChunk u conn = (if pData + nat (h_Size h) > rp_DataSize (u_Data u1) then (None, Unpacker_Clear u1, conn)
    else if deliver then (Some \<lparr>ch_ClientId = u_ClientId u1, ch_Address = u_Addr u1, ch_Flags = h_Flags h,
                            ch_DataSize = nat (h_Size h), ch_pData = pData, ch_aExtraData = []\<rparr>, u1, conn1)
                else FetchChunk u1 conn1)"
    using valid by (simp add: FetchChunk.simps [of u conn] h d u1_def [symmetric])
  show ?case
  proof (cases "pData + nat (h_Size h) > rp_DataSize (u_Data u1)")
    case True
    with "1.prems" F show ?thesis by simp
  next
    case inside: False
    show ?thesis
    proof (cases deliver)
      case True
      with "1.prems" F inside valid(2) show ?thesis by (auto simp: u1_def)
    next
      case False
      then have "FetchChunk u1 conn1 = (Some ch, u', conn')" using "1.prems" F inside by simp
      from "1.IH" [OF _ h [symmetric] refl u1_def _ d [symmetric] refl False this] valid inside
      show ?thesis by (simp add: u1_def)
    qed
  qed
qed

function fetch_all :: "CNetRecvUnpacker \<Rightarrow> CNetConnection option \<Rightarrow> (int \<times> u8 list) list \<times> CNetConnection option" where
  "fetch_all u conn =
     (case FetchChunk u conn of
        (None, _, conn) \<Rightarrow> ([], conn)
      | (Some ch, u', conn) \<Rightarrow>
          apfst ((#) (ch_Flags ch, take (ch_DataSize ch) (drop (ch_pData ch) (rp_Mem (u_Data u))))) (fetch_all u' conn))"
  by pat_completeness auto

termination fetch_all
  by (relation "measure (\<lambda>(u, conn). nat (rp_NumChunks (u_Data u)) - u_CurrentChunk u)")
    (auto dest!: FetchChunk_progress [OF sym])

declare fetch_all.simps [simp del]

lemma fetch_all_cong: "FetchChunk u conn = FetchChunk u' conn' \<Longrightarrow> u_Data u = u_Data u' \<Longrightarrow> fetch_all u conn = fetch_all u' conn'"
  by (subst (1 2) fetch_all.simps) (simp cong: prod.case_cong option.case_cong)

lemma accept_sequence_Sixup [simp]: "c_Sixup (snd (accept_sequence S c)) = c_Sixup c"
  by (simp add: accept_sequence_def SignalResend_def)

definition without_seq :: "chunk list \<Rightarrow> (int \<times> u8 list) list" where
  "without_seq cs = map (\<lambda>(F, D, S). (F, D)) cs"

lemma fetch_header_packed:
  assumes "rp_Mem (u_Data u) = pack_all Sixup (pre @ (F, D, S) # cs) @ stale" "u_CurrentChunk u = length pre"
    "\<forall>c \<in> set (pre @ (F, D, S) # cs). chunk_ok Sixup c" "c_Sixup c = Sixup"
  shows "\<exists>Seq. fetch_header u (Some c) = (\<lparr>h_Flags = F, h_Size = int (length D), h_Sequence = Seq\<rparr>,
      length (pack_all Sixup pre) + header_len F) \<and> (is_vital F \<longrightarrow> Seq = S)"
proof -
  let ?tail = "pack_all Sixup cs @ stale"
  have mem: "rp_Mem (u_Data u) = pack_all Sixup pre @ pack_one Sixup (F, D, S) @ ?tail"
    using assms(1) by (simp add: pack_all_def)
  have skip: "skip_chunks (rp_Mem (u_Data u)) (if Sixup then 6 else 4) (length pre) 0 = length (pack_all Sixup pre)"
    using skip_chunks_packed [of pre Sixup "[]" "pack_one Sixup (F, D, S) @ ?tail"] assms(3) mem by simp
  have ok: "chunk_ok Sixup (F, D, S)" using assms(3) by simp
  obtain Seq where u: "ChunkHeader_Unpack (pack_one Sixup (F, D, S) @ ?tail) (if Sixup then 6 else 4) =
      (\<lparr>h_Flags = F, h_Size = int (length D), h_Sequence = Seq\<rparr>, D @ ?tail)" "is_vital F \<longrightarrow> Seq = S"
    using unpack_pack_one [OF ok] by blast
  have "drop (length (pack_all Sixup pre)) (rp_Mem (u_Data u)) = pack_one Sixup (F, D, S) @ ?tail" using mem by simp
  then show ?thesis using u skip assms(2,4) by (simp add: fetch_header_def header_len_alt)
qed

lemma fetch_all_delivers:
  assumes "rp_Mem (u_Data u) = pack_all Sixup (pre @ cs) @ stale" "u_CurrentChunk u = length pre" "u_Valid u"
    "rp_NumChunks (u_Data u) = int (length (pre @ cs))" "rp_DataSize (u_Data u) = length (pack_all Sixup (pre @ cs))"
    "\<forall>c \<in> set (pre @ cs). chunk_ok Sixup c" "c_Sixup c = Sixup"
  shows "fetch_all u (Some c) = (without_seq (fst (deliver cs c)), Some (snd (deliver cs c)))"
  using assms
proof (induction cs arbitrary: pre u c)
  case Nil
  then have "FetchChunk u (Some c) = (None, Unpacker_Clear u, Some c)" by (simp add: FetchChunk.simps)
  then show ?case by (simp add: fetch_all.simps without_seq_def)
next
  case (Cons x cs)
  obtain F D S where x: "x = (F, D, S)" by (cases x)
  obtain Seq where h: "fetch_header u (Some c) = (\<lparr>h_Flags = F, h_Size = int (length D), h_Sequence = Seq\<rparr>,
      length (pack_all Sixup pre) + header_len F)" "is_vital F \<longrightarrow> Seq = S"
    using fetch_header_packed [of u Sixup pre F D S cs stale c] Cons.prems x by blast
  define u1 where "u1 = u\<lparr>u_CurrentChunk := Suc (u_CurrentChunk u)\<rparr>"
  obtain ok c1 where a: "(if is_vital F then accept_sequence S c else (True, c)) = (ok, c1)" by fastforce
  have fa: "fetch_accept \<lparr>h_Flags = F, h_Size = int (length D), h_Sequence = Seq\<rparr> (Some c) = (ok, Some c1)"
    using a h(2) by (cases "is_vital F") (auto simp: fetch_accept_def is_vital_def apsnd_def map_prod_def)
  have six: "c_Sixup c1 = Sixup" using a Cons.prems(7) accept_sequence_Sixup [of S c] by (cases "is_vital F") auto
  have mem: "rp_Mem (u_Data u) = pack_all Sixup pre @ pack_one Sixup (F, D, S) @ pack_all Sixup cs @ stale"
    using Cons.prems(1) x by (simp add: pack_all_def)
  have data: "take (length D) (drop (length (pack_all Sixup pre) + header_len F) (rp_Mem (u_Data u))) = D"
  proof -
    have "pack_one Sixup (F, D, S) = take (header_len F) (pack_one Sixup (F, D, S)) @ D"
      by (simp add: pack_chunk_def ChunkHeader_Pack_def header_len_def is_vital_def Let_def)
    then have "drop (header_len F) (pack_one Sixup (F, D, S) @ pack_all Sixup cs @ stale) = D @ pack_all Sixup cs @ stale"
      using length_pack_one [of Sixup F D S] by (metis append_eq_conv_conj append_eq_append_conv_if drop_append length_append
          add_diff_cancel_right' diff_is_0_eq' drop_0 le_add1)
    then show ?thesis unfolding mem by (simp add: add.commute [of "length (pack_all Sixup pre)"] flip: drop_drop)
  qed
  have fits: "length (pack_all Sixup pre) + header_len F + length D \<le> rp_DataSize (u_Data u)"
    using Cons.prems(5) x length_pack_one [of Sixup F D S] by (simp add: pack_all_def del: pack_one.simps)
  have F: "FetchChunk u (Some c) = (if ok then (Some \<lparr>ch_ClientId = u_ClientId u1, ch_Address = u_Addr u1, ch_Flags = F,
        ch_DataSize = length D, ch_pData = length (pack_all Sixup pre) + header_len F, ch_aExtraData = []\<rparr>, u1, Some c1)
      else FetchChunk u1 (Some c1))"
    using Cons.prems(2,3,4) fits by (subst FetchChunk.simps) (simp add: h fa u1_def)
  have IH: "fetch_all u1 (Some c1) = (without_seq (fst (deliver cs c1)), Some (snd (deliver cs c1)))"
    using Cons.prems x six by (intro Cons.IH [of u1 "pre @ [(F, D, S)]"]) (simp_all add: u1_def)
  have d: "deliver (x # cs) c = (if ok then (F, D, S) # fst (deliver cs c1) else fst (deliver cs c1), snd (deliver cs c1))"
    using a x by (simp add: case_prod_beta)
  show ?case
  proof (cases ok)
    case True
    then show ?thesis using F IH data d by (subst fetch_all.simps) (simp add: without_seq_def)
  next
    case False
    then have "fetch_all u (Some c) = fetch_all u1 (Some c1)" using F by (intro fetch_all_cong) (simp_all add: u1_def)
    then show ?thesis using IH d False by simp
  qed
qed

section \<open>In order and exactly once\<close>

lemma seq_close: "i mod NET_MAX_SEQUENCE = j mod NET_MAX_SEQUENCE \<Longrightarrow> \<bar>i - j\<bar> < 1024 \<Longrightarrow> i = j"
  using mod_eq_dvd_iff [of i 1024 j] zdvd_imp_le [of 1024 "\<bar>i - j\<bar>"] by (cases "i = j") auto

definition vital_data :: "chunk list \<Rightarrow> u8 list list" where
  "vital_data cs = map (\<lambda>(F, D, S). D) (filter (\<lambda>(F, D, S). is_vital F) cs)"

lemma vital_data_simps [simp]:
  "vital_data [] = []" "vital_data ((F, D, S) # cs) = (if is_vital F then D # vital_data cs else vital_data cs)"
  by (simp_all add: vital_data_def)

text \<open>
  The sender's vital chunks are \<open>M 0, M 1, ...\<close> with their index modulo 1024 as sequence number. A
  receiver with unbounded indices would take the next index in turn and nothing else; \<open>in_turn a js\<close>
  is how many of the arriving indices \<open>js\<close> it takes behind \<open>a\<close>. \<open>near_turn\<close>: each index arrives when
  it is at most 512 away from the last one taken. \<open>gap_seen\<close>: an index arrived before one in front of it.
\<close>

fun in_turn :: "int \<Rightarrow> int list \<Rightarrow> nat" where
  "in_turn a [] = 0"
| "in_turn a (i # js) = (if i = a + 1 then Suc (in_turn (a + 1) js) else in_turn a js)"

fun near_turn :: "int \<Rightarrow> int list \<Rightarrow> bool" where
  "near_turn a [] = True"
| "near_turn a (i # js) = (a - 512 \<le> i \<and> i < a + 512 \<and> near_turn (if i = a + 1 then a + 1 else a) js)"

fun gap_seen :: "int \<Rightarrow> int list \<Rightarrow> bool" where
  "gap_seen a [] = False"
| "gap_seen a (i # js) = (if i = a + 1 then gap_seen (a + 1) js else a + 1 < i \<or> gap_seen a js)"

definition asks_resend :: "CNetConnection \<Rightarrow> bool" where
  "asks_resend c \<longleftrightarrow> p_Flags (c_Construct c) AND NET_PACKETFLAG_RESEND \<noteq> 0"

abbreviation vital_chunks :: "chunk list \<Rightarrow> chunk list" where
  "vital_chunks \<equiv> filter (\<lambda>x. is_vital (fst x))"

abbreviation free_chunks :: "chunk list \<Rightarrow> chunk list" where
  "free_chunks \<equiv> filter (\<lambda>x. \<not> is_vital (fst x))"

lemma subseq_in_turn: "subseq [a + 1..m] js \<Longrightarrow> m \<le> a + int (in_turn a js)"
proof (induction a js arbitrary: m rule: in_turn.induct)
  case (1 a)
  then show ?case by (cases "a + 1 \<le> m") (simp_all add: upto_rec1)
next
  case (2 a i js)
  show ?case
  proof (cases "a + 1 \<le> m")
    case True
    then have l: "[a + 1..m] = (a + 1) # [a + 1 + 1..m]" by (rule upto_rec1)
    show ?thesis
    proof (cases "i = a + 1")
      case True
      with "2.prems" l have "subseq [a + 1 + 1..m] js" by simp
      with 2(1) [OF True] True show ?thesis by fastforce
    next
      case False
      with "2.prems" l have "subseq [a + 1..m] js" by simp
      with 2(2) [OF False] False show ?thesis by simp
    qed
  qed simp
qed

lemma backroom_window:
  assumes "a - 512 \<le> i" "i < a + 512"
  shows "IsSeqInBackroom (i mod NET_MAX_SEQUENCE) (a mod NET_MAX_SEQUENCE) \<longleftrightarrow> i \<le> a"
proof -
  define q where "q = a div 1024"
  define r where "r = a mod 1024"
  have a: "a = 1024 * q + r" "0 \<le> r" "r < 1024" by (simp_all add: q_def r_def)
  define d where "d = i - a"
  have i: "i = 1024 * q + (r + d)" by (simp add: a(1) d_def)
  have d: "- 512 \<le> d" "d < 512" using assms by (simp_all add: d_def)
  have m: "i mod 1024 = (r + d) mod 1024" by (simp add: i)
  have "(r + d) mod 1024 = (if r + d < 0 then r + d + 1024 else if r + d < 1024 then r + d else r + d - 1024)"
    using a d mod_pos_pos_trivial [of "r + d" 1024] mod_pos_pos_trivial [of "r + d + 1024" 1024] mod_pos_pos_trivial [of "r + d - 1024" 1024]
    by (auto simp: mod_add_self2 minus_mod_self2)
  then have "IsSeqInBackroom (i mod 1024) (a mod 1024) \<longleftrightarrow> d \<le> 0"
    using a d unfolding m r_def [symmetric] by (auto simp: IsSeqInBackroom_def Let_def split: if_splits)
  then show ?thesis by (simp add: d_def)
qed

lemma accept_sequence_near:
  assumes "c_Ack c = a mod NET_MAX_SEQUENCE" "\<not> c_UnknownSeq c" "a - 512 \<le> i" "i < a + 512"
  shows "accept_sequence (i mod NET_MAX_SEQUENCE) c =
    (if i = a + 1 then (True, c\<lparr>c_UnknownSeq := False, c_Ack := (a + 1) mod NET_MAX_SEQUENCE\<rparr>)
     else if i \<le> a then (False, c) else (False, SignalResend c))"
proof -
  have "\<bar>i - (a + 1)\<bar> < 1024" using assms(3,4) by linarith
  then have "i mod NET_MAX_SEQUENCE = (a + 1) mod NET_MAX_SEQUENCE \<longleftrightarrow> i = a + 1" using seq_close by blast
  moreover have "(c_Ack c + 1) mod NET_MAX_SEQUENCE = (a + 1) mod NET_MAX_SEQUENCE" unfolding assms(1) by (rule mod_add_left_eq)
  moreover note backroom_window [OF assms(3,4), folded assms(1)]
  ultimately show ?thesis using assms(2) unfolding accept_sequence_def by (simp only: if_False if_True simp_thms split: if_split) simp
qed

lemma signal_asks: "asks_resend (SignalResend c)"
proof -
  have "(y OR 16) AND 16 = (16 :: int)" for y by (rule bit_eqI) (auto simp only: bit_and_iff bit_or_iff)
  then show ?thesis by (simp add: asks_resend_def SignalResend_def)
qed

lemma deliver_in_turn:
  assumes "map snd (vital_chunks cs) = map (\<lambda>i. (M i, i mod NET_MAX_SEQUENCE)) js"
    "near_turn a js" "c_Ack c = a mod NET_MAX_SEQUENCE" "\<not> c_UnknownSeq c"
  shows "vital_data (fst (deliver cs c)) = map M [a + 1..a + int (in_turn a js)] \<and>
    c_Ack (snd (deliver cs c)) = (a + int (in_turn a js)) mod NET_MAX_SEQUENCE \<and>
    (asks_resend (snd (deliver cs c)) \<longleftrightarrow> asks_resend c \<or> gap_seen a js)"
  using assms
proof (induction cs arbitrary: c a js)
  case Nil
  then show ?case by simp
next
  case (Cons x cs)
  obtain F D S where x: "x = (F, D, S)" by (cases x)
  show ?case
  proof (cases "is_vital F")
    case False
    with Cons.IH [of js a c] Cons.prems x show ?thesis by (simp add: case_prod_beta)
  next
    case True
    with Cons.prems(1) x obtain i ks where js: "js = i # ks" "D = M i" "S = i mod NET_MAX_SEQUENCE"
      by (cases js) auto
    with Cons.prems(1) x True have ks: "map snd (vital_chunks cs) = map (\<lambda>i. (M i, i mod NET_MAX_SEQUENCE)) ks" by simp
    from Cons.prems(2) js have i: "a - 512 \<le> i" "i < a + 512" "near_turn (if i = a + 1 then a + 1 else a) ks" by simp_all
    note acc = accept_sequence_near [OF Cons.prems(3,4) i(1,2), folded js(3)]
    show ?thesis
    proof (cases "i = a + 1")
      case here: True
      let ?c = "c\<lparr>c_UnknownSeq := False, c_Ack := (a + 1) mod NET_MAX_SEQUENCE\<rparr>"
      have "near_turn (a + 1) ks" using i(3) here by simp
      from Cons.IH [OF ks this, of ?c] have IH:
        "vital_data (fst (deliver cs ?c)) = map M [a + 1 + 1..a + 1 + int (in_turn (a + 1) ks)]"
        "c_Ack (snd (deliver cs ?c)) = (a + 1 + int (in_turn (a + 1) ks)) mod NET_MAX_SEQUENCE"
        "asks_resend (snd (deliver cs ?c)) \<longleftrightarrow> asks_resend ?c \<or> gap_seen (a + 1) ks" by simp_all
      have d: "deliver (x # cs) c = ((F, D, S) # fst (deliver cs ?c), snd (deliver cs ?c))"
        using x acc here True by (simp add: case_prod_beta)
      have "[a + 1..a + 1 + int (in_turn (a + 1) ks)] = (a + 1) # [a + 1 + 1..a + 1 + int (in_turn (a + 1) ks)]"
        by (rule upto_rec1) simp
      then have "[a + 1..a + int (in_turn a js)] = (a + 1) # [a + 1 + 1..a + 1 + int (in_turn (a + 1) ks)]"
        using here js(1) by (simp add: ac_simps)
      moreover have "asks_resend ?c = asks_resend c" by (simp add: asks_resend_def)
      ultimately show ?thesis unfolding d using IH here js True by (simp add: ac_simps)
    next
      case False
      define c' where "c' = (if i \<le> a then c else SignalResend c)"
      have d: "deliver (x # cs) c = (fst (deliver cs c'), snd (deliver cs c'))"
        using x acc False True by (simp add: case_prod_beta c'_def)
      have c': "c_Ack c' = a mod NET_MAX_SEQUENCE" "\<not> c_UnknownSeq c'" using Cons.prems(3,4) by (simp_all add: c'_def SignalResend_def)
      have "asks_resend c' \<longleftrightarrow> asks_resend c \<or> a + 1 < i"
        using False signal_asks by (auto simp: c'_def)
      with Cons.IH [OF ks _ c'] i(3) False js show ?thesis unfolding d by auto
    qed
  qed
qed

lemma deliver_free: "free_chunks (fst (deliver cs c)) = free_chunks cs"
  by (induction cs arbitrary: c) (auto simp: case_prod_beta Let_def)

section \<open>The packet under construction\<close>

text \<open>The packet under construction consists of the chunks \<open>cs\<close>.\<close>

definition built :: "CNetConnection \<Rightarrow> chunk list \<Rightarrow> bool" where
  "built c cs \<longleftrightarrow> p_aChunkData (c_Construct c) = pack_all (c_Sixup c) cs \<and> p_NumChunks (c_Construct c) = int (length cs)"

lemma built_empty: "c_Construct c = empty_construct \<Longrightarrow> built c []"
  by (simp add: built_def empty_construct_def pack_all_def)

lemma built_queued: "built c cs \<Longrightarrow> built (queued F D S c) (cs @ [(F, D, S)])"
  by (simp add: built_def queued_def pack_all_def)

lemma after_flush_built:
  assumes "built c cs" "after_flush D c n = (c', n')"
  shows "built c' (if room_for (length D) c then cs else []) \<and> p_Flags (c_Construct c') = (if room_for (length D) c then p_Flags (c_Construct c) else 0)"
proof (cases "room_for (length D) c")
  case True
  with assms show ?thesis by (simp add: after_flush_def)
next
  case False
  then have f: "Flush c n = (fst (Flush c n), c', n')" using assms(2) by (simp add: after_flush_def prod_eq_iff)
  show ?thesis
  proof (cases "p_NumChunks (c_Construct c) \<noteq> 0 \<or> p_Flags (c_Construct c) \<noteq> 0")
    case True
    from Flush_empties(1) [OF f True] False show ?thesis using built_empty by (simp add: empty_construct_def)
  next
    case idle: False
    with f have "c' = c" by (simp add: Flush_def)
    moreover have "int (length cs) = 0" using idle assms(1) by (simp add: built_def)
    then have "cs = []" by simp
    ultimately show ?thesis using idle assms(1) \<open>cs = []\<close> by simp
  qed
qed

text \<open>The unpacker after \<open>Start\<close> on a packet in memory, cut by \<open>Feed\<close>.\<close>

definition started :: "rpacket \<Rightarrow> NETADDR \<Rightarrow> CNetConnection \<Rightarrow> CNetRecvUnpacker" where
  "started p addr c = Unpacker_Start addr 0
     \<lparr>u_Valid = False, u_Addr = addr, u_CurrentChunk = 0, u_ClientId = 0, u_Data = feed_trim p addr c\<rparr>"

lemma started_simps [simp]:
  "u_Valid (started p addr c)" "u_CurrentChunk (started p addr c) = 0" "u_Data (started p addr c) = feed_trim p addr c"
  by (simp_all add: started_def Unpacker_Start_def)

lemma feed_trim_size:
  assumes "addr = c_PeerAddr c \<or> c_State c = CONNECT"
  shows "rp_DataSize (feed_trim p addr c) = (if uses_token c \<and> 4 \<le> rp_DataSize p then rp_DataSize p - 4 else rp_DataSize p)"
  using assms by (auto simp: feed_trim_def uses_token_def)

lemma packet_delivered:
  assumes b: "built c cs" and ok: "\<forall>x \<in> set cs. chunk_ok (c_Sixup c) x" "length cs < 256"
    "length (p_aChunkData (c_Construct c)) + 4 \<le> NET_MAX_PAYLOAD"
    and fl: "p_Flags (c_Construct c) = 0 \<or> p_Flags (c_Construct c) = NET_PACKETFLAG_RESEND" and a: "seqs_ok c"
    and rc: "c_Sixup rc = c_Sixup c" "addr = c_PeerAddr rc \<or> c_State rc = CONNECT"
      "uses_token rc \<longleftrightarrow> \<not> c_Sixup c \<and> c_SecurityToken c \<noteq> NET_SECURITY_TOKEN_UNSUPPORTED"
  shows "\<exists>r. UnpackPacket (snd (SendPacket peer ((c_Construct c)\<lparr>p_Ack := c_Ack c\<rparr>) (c_SecurityToken c) (c_Sixup c) False))
        (c_Sixup c) (Some t0) (Some r0) = Unpacked r \<and> p_Ack (r_Packet r) = c_Ack c \<and>
      fetch_all (started (in_memory (r_Packet r) stale) addr rc) (Some rc)
        = (without_seq (fst (deliver cs rc)), Some (snd (deliver cs rc)))"
proof -
  let ?pkt = "(c_Construct c)\<lparr>p_Ack := c_Ack c\<rparr>"
  have "packet_ok ?pkt" using b ok fl a by (auto simp: packet_ok_def built_def seqs_ok_def)
  moreover have "p_Flags ?pkt AND NET_PACKETFLAG_CONTROL \<noteq> 0 \<longrightarrow> False" using fl by auto
  ultimately obtain z where u: "UnpackPacket (snd (SendPacket peer ?pkt (c_SecurityToken c) (c_Sixup c) False)) (c_Sixup c) (Some t0) (Some r0) =
    Unpacked \<lparr>r_Packet = ?pkt\<lparr>p_Flags := p_Flags ?pkt OR (if z then NET_PACKETFLAG_COMPRESSION else 0),
                             p_aChunkData := sent_data ?pkt (c_SecurityToken c) (c_Sixup c), p_aExtraData := []\<rparr>,
      r_Sixup = c_Sixup c, r_SecurityToken = Some (if c_Sixup c then c_SecurityToken c else t0),
      r_ResponseToken = Some (if sent_token (p_Flags ?pkt) (sent_data ?pkt (c_SecurityToken c) (c_Sixup c))
                              then ToSecurityToken (drop 1 (sent_data ?pkt (c_SecurityToken c) (c_Sixup c))) else r0)\<rparr>"
    (is "_ = Unpacked ?r")
    using Send_Unpack [of ?pkt False peer "c_SecurityToken c" "c_Sixup c" t0 r0] by blast
  let ?p = "in_memory (r_Packet ?r) stale"
  have data: "p_aChunkData (r_Packet ?r) = pack_all (c_Sixup c) cs @ (if uses_token rc then WriteSecurityToken (c_SecurityToken c) else [])"
    using b rc(3) by (auto simp: sent_data_def built_def)
  then have sz: "rp_DataSize ?p = length (pack_all (c_Sixup c) cs) + (if uses_token rc then 4 else 0)"
    by (simp add: in_memory_def)
  have "fetch_all (started ?p addr rc) (Some rc) = (without_seq (fst (deliver cs rc)), Some (snd (deliver cs rc)))"
  proof (rule fetch_all_delivers [where pre = "[]" and Sixup = "c_Sixup c" and stale = "(if uses_token rc then WriteSecurityToken (c_SecurityToken c) else []) @ stale"])
    show "rp_Mem (u_Data (started ?p addr rc)) = pack_all (c_Sixup c) ([] @ cs) @ (if uses_token rc then WriteSecurityToken (c_SecurityToken c) else []) @ stale"
      using data by (simp add: in_memory_def)
    show "rp_NumChunks (u_Data (started ?p addr rc)) = int (length ([] @ cs))" using b by (simp add: in_memory_def built_def)
    show "rp_DataSize (u_Data (started ?p addr rc)) = length (pack_all (c_Sixup c) ([] @ cs))"
      using feed_trim_size [OF rc(2), of ?p] sz by simp
  qed (use ok(1) rc(1) in simp_all)
  with u show ?thesis by (intro exI [of _ ?r]) simp
qed

section \<open>A connection at work\<close>

text \<open>
  What happens to the connection of a client: its own operations and, as in the receive loops of the
  client, the datagrams from the network with the bytes that lie behind them in the receive buffer.
  \<open>SetTimedOut\<close>, \<open>SetUnknownSeq\<close> and \<open>SetSequence\<close> are called by the server only.
\<close>

datatype conn_event =
    Ev_Connect "NETADDR list"
  | Ev_Connect7 "u8 list" i32 "NETADDR list"
  | Ev_Disconnect reason
  | Ev_DirectInit NETADDR i32 i32 bool
  | Ev_Reset bool
  | Ev_QueueChunk int "u8 list"
  | Ev_Flush
  | Ev_Update
  | Ev_SignalResend
  | Ev_Receive "u8 list" "u8 list" "u8 list" NETADDR
  | Ev_Fetch CNetRecvUnpacker

fun conn_do :: "conn_config \<Rightarrow> conn_event \<Rightarrow> CNetConnection \<times> net \<Rightarrow> (CNetConnection \<times> net) option" where
  "conn_do g (Ev_Connect addrs) (c, n) = Some (snd (Conn_Connect addrs c n))"
| "conn_do g (Ev_Connect7 stack rnd addrs) (c, n) = Some (snd (Conn_Connect7 stack rnd addrs c n))"
| "conn_do g (Ev_Disconnect r) (c, n) = Some (Conn_Disconnect r c n)"
| "conn_do g (Ev_DirectInit addr st t s) (c, n) = Some (DirectInit addr st t s c n)"
| "conn_do g (Ev_Reset rejoin) (c, n) = Some (Conn_Reset rejoin c, n)"
| "conn_do g (Ev_QueueChunk F D) (c, n) = map_option snd (QueueChunk F D c n)"
| "conn_do g Ev_Flush (c, n) = Some (snd (Flush c n))"
| "conn_do g Ev_Update (c, n) = Conn_Update g c n"
| "conn_do g Ev_SignalResend (c, n) = Some (SignalResend c, n)"
| "conn_do g (Ev_Receive stack buf stale addr) (c, n) =
     (case UnpackPacket buf (c_Sixup c) (Some 0) (Some 0) of
        Unpacked r \<Rightarrow>
          map_option (\<lambda>(_, _, c, n). (c, n))
            (Feed stack (in_memory (r_Packet r) stale) addr (the (r_SecurityToken r)) (the (r_ResponseToken r)) c n)
      | _ \<Rightarrow> Some (c, n))"
| "conn_do g (Ev_Fetch u) (c, n) =
     (case FetchChunk u (Some c) of (_, _, conn) \<Rightarrow> map_option (\<lambda>c. (c, n)) conn)"

fun conn_run :: "conn_config \<Rightarrow> conn_event list \<Rightarrow> CNetConnection \<times> net \<Rightarrow> (CNetConnection \<times> net) option" where
  "conn_run g [] s = Some s"
| "conn_run g (e # es) s = (case conn_do g e s of None \<Rightarrow> None | Some s \<Rightarrow> conn_run g es s)"

lemma Unpack_sequence_range:
  "fst (ChunkHeader_Unpack p Split) = h \<Longrightarrow> h_Flags h AND NET_CHUNKFLAG_VITAL \<noteq> 0 \<Longrightarrow> 0 \<le> h_Sequence h \<and> h_Sequence h < NET_MAX_SEQUENCE"
proof -
  assume "fst (ChunkHeader_Unpack p Split) = h" "h_Flags h AND NET_CHUNKFLAG_VITAL \<noteq> 0"
  then have S: "h_Sequence h = push_bit 2 (uint (mem_at p 1) AND NOT (low_bits Split)) OR uint (mem_at p 2)" (is "_ = ?v")
    by (auto simp: ChunkHeader_Unpack_def Let_def split: if_splits)
  have b: "bit (uint (y :: u8)) m \<Longrightarrow> m < 8" for y m using bit_imp_le_length [of y m] by (simp add: bit_uint_iff)
  have "take_bit 10 ?v = ?v"
  proof (rule bit_eqI)
    fix m show "bit (take_bit 10 ?v) m \<longleftrightarrow> bit ?v m"
      using b [of "mem_at p 1" "m - 2"] b [of "mem_at p 2" m]
      unfolding bit_take_bit_iff bit_or_iff bit_push_bit_iff_int bit_and_iff by auto
  qed
  then show ?thesis using S take_bit_nonnegative [of 10 ?v] take_bit_int_less_exp [of 10 ?v] by simp
qed

lemma accept_sequence_ok:
  assumes "conn_ok c" "0 \<le> S" "S < NET_MAX_SEQUENCE"
  shows "conn_ok (snd (accept_sequence S c))"
proof -
  have "conn_ok (c\<lparr>c_UnknownSeq := False, c_Ack := S\<rparr>)"
    using assms buffer_ok_cong [of "c\<lparr>c_UnknownSeq := False, c_Ack := S\<rparr>" c] by (auto simp: conn_ok_def seqs_ok_def)
  moreover have "conn_ok (SignalResend c)" using conn_ok_cong [of "SignalResend c" c] assms(1) by (simp add: SignalResend_def)
  ultimately show ?thesis using assms(1) by (simp add: accept_sequence_def)
qed

lemma fetch_accept_ok:
  assumes "conn_ok c" "fetch_header u (Some c) = (h, pData)" "fetch_accept h (Some c) = (ok, conn')"
  shows "\<exists>c'. conn' = Some c' \<and> conn_ok c'"
proof (cases "h_Flags h AND NET_CHUNKFLAG_VITAL \<noteq> 0")
  case True
  have "\<exists>p Split. fst (ChunkHeader_Unpack p Split) = h" using assms(2) by (auto simp: fetch_header_def Let_def split: prod.splits) (metis fst_conv)
  then obtain p Split where "fst (ChunkHeader_Unpack p Split) = h" by blast
  from Unpack_sequence_range [OF this True] have "conn_ok (snd (accept_sequence (h_Sequence h) c))"
    using accept_sequence_ok [OF assms(1)] by blast
  with assms(3) True show ?thesis by (auto simp: fetch_accept_def apsnd_def map_prod_def split: prod.splits)
qed (use assms in \<open>auto simp: fetch_accept_def\<close>)

lemma FetchChunk_step:
  assumes "fetch_header u conn = (h, pData)" "fetch_accept h conn = (ok, conn1)"
    "u_Valid u" "int (u_CurrentChunk u) < rp_NumChunks (u_Data u)"
  shows "FetchChunk u conn = (let u = u\<lparr>u_CurrentChunk := Suc (u_CurrentChunk u)\<rparr>
    in if pData + nat (h_Size h) > rp_DataSize (u_Data u) then (None, Unpacker_Clear u, conn)
       else if ok then (Some \<lparr>ch_ClientId = u_ClientId u, ch_Address = u_Addr u, ch_Flags = h_Flags h,
                            ch_DataSize = nat (h_Size h), ch_pData = pData, ch_aExtraData = []\<rparr>, u, conn1)
       else FetchChunk u conn1)"
  using assms by (subst FetchChunk.simps) (simp add: Let_def)

lemma FetchChunk_ok:
  "conn_ok c \<Longrightarrow> FetchChunk u (Some c) = (r, u', conn') \<Longrightarrow> \<exists>c'. conn' = Some c' \<and> conn_ok c'"
proof (induction u "Some c" arbitrary: c rule: FetchChunk.induct)
  case (1 u)
  obtain h pData where h: "fetch_header u (Some c) = (h, pData)" by fastforce
  obtain ok conn1 where d: "fetch_accept h (Some c) = (ok, conn1)" by fastforce
  from fetch_accept_ok [OF "1.prems"(1) h d] obtain c1 where c1: "conn1 = Some c1" "conn_ok c1" by blast
  show ?case
  proof (cases "u_Valid u \<and> int (u_CurrentChunk u) < rp_NumChunks (u_Data u)")
    case True
    note F = FetchChunk_step [OF h d, unfolded Let_def]
    show ?thesis
    proof (cases "pData + nat (h_Size h) > rp_DataSize (u_Data (u\<lparr>u_CurrentChunk := Suc (u_CurrentChunk u)\<rparr>)) \<or> ok")
      case stop: True
      then have "snd (snd (FetchChunk u (Some c))) \<in> {Some c, Some c1}" using F True c1(1) by auto
      then show ?thesis using "1.prems" c1(2) by auto
    next
      case go: False
      then have "FetchChunk (u\<lparr>u_CurrentChunk := Suc (u_CurrentChunk u)\<rparr>) (Some c1) = (r, u', conn')"
        using F True "1.prems"(2) c1(1) by simp
      with "1.hyps" [OF _ h [symmetric] refl refl _ d [unfolded c1(1), symmetric] refl _ c1(2)] go True show ?thesis by simp
    qed
  next
    case False
    then have "FetchChunk u (Some c) = (None, Unpacker_Clear u, Some c)" by (subst FetchChunk.simps) auto
    with "1.prems" show ?thesis by auto
  qed
qed

lemma conn_do_ok:
  assumes "conn_ok c"
  shows "\<exists>c' n'. conn_do g e (c, n) = Some (c', n') \<and> conn_ok c'"
proof (cases e)
  case (Ev_QueueChunk F D)
  with QueueChunk_ok [OF assms, of F D n] show ?thesis by auto
next
  case Ev_Flush
  obtain k c' n' where "Flush c n = (k, c', n')" by (metis prod_cases3)
  with Ev_Flush Flush_same_link conn_ok_same_link assms show ?thesis by fastforce
next
  case Ev_Update
  with Conn_Update_ok [OF assms, of g n] show ?thesis by auto
next
  case Ev_SignalResend
  then show ?thesis using conn_ok_cong [of "SignalResend c" c] assms by (simp add: SignalResend_def)
next
  case (Ev_Receive stack buf stale addr)
  show ?thesis
  proof (cases "UnpackPacket buf (c_Sixup c) (Some 0) (Some 0)")
    case (Unpacked r)
    let ?p = "in_memory (r_Packet r) stale"
    have "0 \<le> rp_Ack ?p" "rp_Ack ?p < NET_MAX_SEQUENCE"
      using UnpackPacket_safe [where buf = buf and Sixup = "c_Sixup c" and pTok = "Some 0" and pResp = "Some 0"] Unpacked by (simp_all add: in_memory_def)
    then have "\<exists>k p' c' n'. Feed stack ?p addr (the (r_SecurityToken r)) (the (r_ResponseToken r)) c n = Some (k, p', c', n') \<and> conn_ok c'"
      by (cases rule: Feed_ok [OF assms, where addr = addr and tok = "the (r_SecurityToken r)" and stack = stack
        and rtok = "the (r_ResponseToken r)" and n = n]) (use assms in blast)+
    with Unpacked Ev_Receive show ?thesis by auto
  qed (use assms Ev_Receive in simp_all)
next
  case (Ev_Fetch u)
  obtain r u' conn' where f: "FetchChunk u (Some c) = (r, u', conn')" by (metis prod_cases3)
  from FetchChunk_ok [OF assms f] Ev_Fetch f show ?thesis by auto
qed (use assms Connect_ok Connect7_ok Disconnect_ok DirectInit_ok Reset_conn_ok in \<open>simp_all add: prod_eq_iff\<close>)

lemma conn_run_keeps: "conn_ok c \<Longrightarrow> \<exists>c' n'. conn_run g es (c, n) = Some (c', n') \<and> conn_ok c'"
proof (induction es arbitrary: c n)
  case (Cons e es)
  from conn_do_ok [OF Cons.prems, of g e n] Cons.IH show ?case by fastforce
qed simp


section \<open>Properties\<close>

text \<open>A connection and surroundings to state examples with.\<close>

definition idle_conn :: CNetConnection where
  "idle_conn = Conn_Init False
     \<lparr>c_Sequence = 0, c_Ack = 0, c_PeerAck = 0, c_State = OFFLINE, c_SecurityToken = 0, c_RemoteClosed = False,
      c_BlockCloseMsg = False, c_UnknownSeq = False, c_Buffer = fresh_ring,
      c_Resends = \<lambda>_. \<lparr>rs_Flags = 0, rs_Data = [], rs_Sequence = 0, rs_LastSendTime = 0, rs_FirstSendTime = 0\<rparr>,
      c_LastUpdateTime = 0, c_LastRecvTime = 0, c_LastSendTime = 0, c_ErrorString = [], c_Construct = empty_construct,
      c_ConnectAddrs = [], c_PeerAddr = zero_addr, c_TimeoutProtected = False, c_TimeoutSituation = False,
      c_Sixup = False, c_Token = 0\<rparr>"

definition quiet_net :: net where
  "quiet_net = \<lparr>n_Sent = [], n_Clock = int, n_Ticks = 0\<rparr>"

lemma idle_conn_fields [simp]:
  "c_Ack idle_conn = 0" "c_Sequence idle_conn = 0" "c_PeerAck idle_conn = 0" "c_State idle_conn = OFFLINE"
  "c_UnknownSeq idle_conn = False" "c_Sixup idle_conn = False" "c_Construct idle_conn = empty_construct"
  "c_SecurityToken idle_conn = NET_SECURITY_TOKEN_UNKNOWN" "c_PeerAddr idle_conn = zero_addr"
  by (simp_all add: idle_conn_def Conn_Init_def ResetStats_def ClearPeerAddr_def Conn_Reset_def Let_def)

text \<open>
  C1: Whatever happens to a connection after \<open>Init\<close> (its own operations in any order, but for the three that only
  the server calls, and any bytes from any address in the receive buffer, with anything behind them), every loop of the code ends,
  the sequence numbers stay below 1024, and the resend buffer is an intact queue that holds vital
  chunks only.
\<close>

theorem connection_always_returns:
  "\<exists>c n' q. conn_run g events (Conn_Init b c0, n) = Some (c, n') \<and>
     0 \<le> c_Sequence c \<and> c_Sequence c < NET_MAX_SEQUENCE \<and> 0 \<le> c_Ack c \<and> c_Ack c < NET_MAX_SEQUENCE \<and>
     0 \<le> c_PeerAck c \<and> c_PeerAck c < NET_MAX_SEQUENCE \<and>
     items (c_Buffer c) = Some q \<and> list_all (\<lambda>i. resend_ok (c_Resends c i)) q"
proof -
  obtain c n' where r: "conn_run g events (Conn_Init b c0, n) = Some (c, n')" "conn_ok c"
    using conn_run_keeps [OF Init_ok] by blast
  then obtain q where q: "seqs_ok c" "buffer_ok c q" by (auto simp: conn_ok_def)
  then have "items (c_Buffer c) = Some q" using items_queue by (simp add: buffer_ok_def conn_queue_def)
  with r(1) q show ?thesis by (auto simp: seqs_ok_def buffer_ok_def list_all_iff)
qed

text \<open>
  C3: The sender's vital chunks carry \<open>M 0, M 1, ...\<close> with their index modulo 1024 as sequence number.
  Let the vital chunks that reach a receiver have the indices \<open>js\<close>, in whatever order, with whatever
  lost or repeated, each at most 512 away from the last one taken. Then a chunk is delivered exactly
  when its index is the next in turn: the data delivered are those of \<open>a + 1, ..., a + in_turn a js\<close>, in
  order, none missing and none twice, for any \<open>a\<close> and across the wrap from 1023 to 0; the
  acknowledgement is the last of them; a resend is asked for exactly if an index came too early;
  chunks that are not vital are all delivered; and if the chunks up to \<open>m\<close> arrive in order among the
  others, all of them are delivered.
\<close>

theorem vital_chunks_in_order:
  assumes "map snd (vital_chunks cs) = map (\<lambda>i. (M i, i mod NET_MAX_SEQUENCE)) js"
    and "near_turn a js" "c_Ack c = a mod NET_MAX_SEQUENCE" "\<not> c_UnknownSeq c"
  shows "vital_data (fst (deliver cs c)) = map M [a + 1..a + int (in_turn a js)] \<and>
    free_chunks (fst (deliver cs c)) = free_chunks cs \<and>
    c_Ack (snd (deliver cs c)) = (a + int (in_turn a js)) mod NET_MAX_SEQUENCE \<and>
    (asks_resend (snd (deliver cs c)) \<longleftrightarrow> asks_resend c \<or> gap_seen a js) \<and>
    (\<forall>m. subseq [a + 1..m] js \<longrightarrow> m \<le> a + int (in_turn a js))"
  using deliver_in_turn [OF assms] deliver_free [of cs c] subseq_in_turn [of a _ js] by blast

lemma vital_chunks_in_order_witness:
  "vital_data (fst (deliver [(1, [7], 1022), (1, [9], 0), (0, [5], 0), (1, [8], 1023), (3, [7], 1022), (3, [9], 0)] (idle_conn\<lparr>c_Ack := 1021\<rparr>)))
     = [[7], [8], [9]]"
proof -
  let ?cs = "[(1, [7], 1022), (1, [9], 0), (0, [5], 0), (1, [8], 1023), (3, [7], 1022), (3, [9], 0)] :: chunk list"
  let ?M = "\<lambda>i. if i = 1022 then [7] else if i = (1023 :: int) then [8] else [9 :: u8]"
  have "map snd (vital_chunks ?cs) = map (\<lambda>i. (?M i, i mod NET_MAX_SEQUENCE)) [1022, 1024, 1023, 1022, 1024]" by (simp add: is_vital_def)
  moreover have "near_turn 1021 [1022, 1024, 1023, 1022, 1024]" by simp
  moreover have "[1022..1024] = [1022, 1023, 1024 :: int]" by (simp add: upto_rec1)
  ultimately show ?thesis
    using vital_chunks_in_order [of ?cs ?M "[1022, 1024, 1023, 1022, 1024]" 1021 "idle_conn\<lparr>c_Ack := 1021\<rparr>"] by simp
qed

text \<open>
  C2: From the sender's packet under construction to the receiver's loop over \<open>FetchChunk\<close>, compressed
  or not, with the security token and its removal, and whatever the receive buffer held before: the
  chunks \<open>cs\<close> that were packed are delivered as \<open>deliver\<close> says, with their flags and bytes.
\<close>

theorem queued_chunks_arrive:
  assumes "built c cs" "\<forall>x \<in> set cs. chunk_ok (c_Sixup c) x" "length cs < 256"
    "length (p_aChunkData (c_Construct c)) + 4 \<le> NET_MAX_PAYLOAD"
    "p_Flags (c_Construct c) = 0 \<or> p_Flags (c_Construct c) = NET_PACKETFLAG_RESEND" "seqs_ok c" "cs \<noteq> []"
    and "c_Sixup rc = c_Sixup c" "addr = c_PeerAddr rc \<or> c_State rc = CONNECT"
      "uses_token rc \<longleftrightarrow> \<not> c_Sixup c \<and> c_SecurityToken c \<noteq> NET_SECURITY_TOKEN_UNSUPPORTED"
  shows "\<exists>d r. n_Sent (snd (snd (Flush c n))) = n_Sent n @ [d] \<and> fst d = c_PeerAddr c \<and>
    UnpackPacket (snd d) (c_Sixup rc) (Some t0) (Some r0) = Unpacked r \<and> p_Ack (r_Packet r) = c_Ack c \<and>
    fetch_all (started (in_memory (r_Packet r) stale) addr rc) (Some rc)
      = (without_seq (fst (deliver cs rc)), Some (snd (deliver cs rc)))"
proof -
  have "p_NumChunks (c_Construct c) \<noteq> 0" using assms(1,7) by (simp add: built_def)
  then have f: "n_Sent (snd (snd (Flush c n))) =
      n_Sent n @ [SendPacket (c_PeerAddr c) ((c_Construct c)\<lparr>p_Ack := c_Ack c\<rparr>) (c_SecurityToken c) (c_Sixup c) False]"
    using Flush_empties(3) [of c n "fst (Flush c n)" "fst (snd (Flush c n))" "snd (snd (Flush c n))"] by simp
  obtain r where "UnpackPacket (snd (SendPacket (c_PeerAddr c) ((c_Construct c)\<lparr>p_Ack := c_Ack c\<rparr>) (c_SecurityToken c) (c_Sixup c) False))
        (c_Sixup c) (Some t0) (Some r0) = Unpacked r \<and> p_Ack (r_Packet r) = c_Ack c \<and>
      fetch_all (started (in_memory (r_Packet r) stale) addr rc) (Some rc)
        = (without_seq (fst (deliver cs rc)), Some (snd (deliver cs rc)))"
    using packet_delivered [OF assms(1-6,8-10)] by blast
  moreover have "fst (SendPacket (c_PeerAddr c) ((c_Construct c)\<lparr>p_Ack := c_Ack c\<rparr>) (c_SecurityToken c) (c_Sixup c) False) = c_PeerAddr c"
    by (simp add: SendPacket_def Let_def case_prod_beta)
  ultimately show ?thesis unfolding f assms(8) by blast
qed

definition one_chunk :: CNetConnection where
  "one_chunk = queued 0 [1, 2, 3] 0 (idle_conn\<lparr>c_State := ONLINE, c_SecurityToken := 0\<rparr>)"

lemma queued_chunks_arrive_witness:
  "\<exists>d r. n_Sent (snd (snd (Flush one_chunk quiet_net))) = [d] \<and> fst d = zero_addr \<and>
    UnpackPacket (snd d) False (Some 0) (Some 0) = Unpacked r \<and> p_Ack (r_Packet r) = 0 \<and>
    fst (fetch_all (started (in_memory (r_Packet r) [5]) zero_addr (idle_conn\<lparr>c_State := ONLINE, c_SecurityToken := 0\<rparr>))
      (Some (idle_conn\<lparr>c_State := ONLINE, c_SecurityToken := 0\<rparr>))) = [(0, [1, 2, 3])]"
proof -
  let ?rc = "idle_conn\<lparr>c_State := ONLINE, c_SecurityToken := 0\<rparr>" and ?cs = "[(0, [1, 2, 3], 0)] :: chunk list"
  have data: "pack_all False ?cs = [0, 3, 1, 2, 3]"
    by (simp add: pack_all_def pack_chunk_def ChunkHeader_Pack_def Let_def byte_def low_bits_def)
  have b: "built one_chunk ?cs"
    using built_queued [of ?rc "[]" 0 "[1, 2, 3]" 0] built_empty [of ?rc] by (simp add: one_chunk_def)
  have f: "c_Sixup one_chunk = False" "p_Flags (c_Construct one_chunk) = 0" "c_PeerAddr one_chunk = zero_addr"
    "c_SecurityToken one_chunk = 0" "c_Ack one_chunk = 0"
    by (simp_all add: one_chunk_def queued_def empty_construct_def)
  have sq: "seqs_ok one_chunk" by (simp add: one_chunk_def queued_def seqs_ok_def)
  have len: "length (p_aChunkData (c_Construct one_chunk)) + 4 \<le> NET_MAX_PAYLOAD" using b f(1) data by (simp add: built_def)
  have ok: "\<forall>x \<in> set ?cs. chunk_ok (c_Sixup one_chunk) x" by (simp add: is_vital_def)
  have tok: "uses_token ?rc \<longleftrightarrow> \<not> c_Sixup one_chunk \<and> c_SecurityToken one_chunk \<noteq> NET_SECURITY_TOKEN_UNSUPPORTED"
    by (simp add: uses_token_def f)
  have "n_Sent quiet_net = []" by (simp add: quiet_net_def)
  moreover have "without_seq (fst (deliver ?cs ?rc)) = [(0, [1, 2, 3])]" by (simp add: is_vital_def without_seq_def)
  ultimately show ?thesis
    using queued_chunks_arrive [OF b ok _ len disjI1 [OF f(2)] sq _ _ _ tok, of zero_addr quiet_net 0 0 "[5]"] f by auto
qed

text \<open>
  C16: \<open>Feed\<close> on any packet in any connection with sound sequence numbers: a packet that is not from
  the peer, does not carry the agreed token or acknowledges what was not sent changes nothing; any
  other moves the connection only along the transitions of the handshake.
\<close>

theorem feed_state_machine:
  assumes "conn_ok c" "0 \<le> rp_Ack p" "rp_Ack p < NET_MAX_SEQUENCE"
  shows "\<exists>k p' c' n'. Feed stack p addr tok rtok c n = Some (k, p', c', n') \<and>
    (if authentic p addr tok c then feed_transition p addr c (c_State c') \<and> conn_ok c' else k = 0 \<and> c' = c \<and> n' = n)"
  by (cases rule: Feed_ok [OF assms, where addr = addr and tok = tok and stack = stack and rtok = rtok and n = n]) auto

lemma idle_conn_ok: "conn_ok idle_conn"
  unfolding idle_conn_def by (rule Init_ok)

lemma feed_state_machine_witness:
  "\<exists>k p' c' n'. Feed [] \<lparr>rp_Flags = 4, rp_Ack = 1, rp_NumChunks = 0, rp_DataSize = 1, rp_Mem = [1]\<rparr> zero_addr 0 0 idle_conn quiet_net
      = Some (k, p', c', n') \<and> c' = idle_conn"
  using feed_state_machine [OF idle_conn_ok, of "\<lparr>rp_Flags = 4, rp_Ack = 1, rp_NumChunks = 0, rp_DataSize = 1, rp_Mem = [1]\<rparr>" "[]" zero_addr 0 0 quiet_net]
  by (auto simp: authentic_def)

text \<open>
  \<open>AckChunks\<close> ends and drops from the resend buffer exactly the leading chunks whose sequence
  number is in the back room of the acknowledgement; the others stay, in order, with their data.
\<close>

theorem ack_drops_acknowledged:
  assumes "holds_queue (c_Buffer c) q" "\<not> rb_Recycle (c_Buffer c)"
  shows "\<exists>rb. AckChunks Ack c = Some (c\<lparr>c_Buffer := rb\<rparr>) \<and>
    holds_queue rb (dropWhile (\<lambda>i. IsSeqInBackroom (rs_Sequence (c_Resends c i)) Ack) q)"
proof -
  have "conn_queue c q" using assms by (simp add: conn_queue_def)
  then obtain rb where "AckChunks Ack c = Some (c\<lparr>c_Buffer := rb\<rparr>)"
    "conn_queue (c\<lparr>c_Buffer := rb\<rparr>) (dropWhile (\<lambda>i. IsSeqInBackroom (rs_Sequence (c_Resends c i)) Ack) q)"
    by (rule AckChunks_queue)
  then show ?thesis by (auto simp: conn_queue_def)
qed

lemma ack_drops_acknowledged_witness: "\<exists>rb. AckChunks 5 idle_conn = Some (idle_conn\<lparr>c_Buffer := rb\<rparr>) \<and> holds_queue rb []"
proof -
  have "c_Buffer idle_conn = RingBuffer_Init NET_CONN_BUFFERSIZE False fresh_ring"
    by (simp add: idle_conn_def Conn_Init_def ResetStats_def ClearPeerAddr_def Conn_Reset_def Let_def)
  moreover have "holds_queue (RingBuffer_Init NET_CONN_BUFFERSIZE False fresh_ring) []"
    by (rule Init_queue) (simp add: ITEM_SIZE_def NET_CONN_BUFFERSIZE_def)
  moreover have "\<not> rb_Recycle (RingBuffer_Init NET_CONN_BUFFERSIZE False fresh_ring)"
    by (simp add: RingBuffer_Init_def RingBuffer_Clear_def)
  ultimately show ?thesis using ack_drops_acknowledged [of idle_conn "[]" 5] by simp
qed

text \<open>
  \<open>FetchChunk\<close>, whatever the bytes of the packet and whatever the connection, returns; a chunk it
  hands out lies inside the data of the packet, and it has advanced past at least one chunk.
\<close>

theorem fetched_chunk_in_packet:
  "case FetchChunk u conn of
     (Some ch, u', _) \<Rightarrow> ch_pData ch + ch_DataSize ch \<le> rp_DataSize (u_Data u) \<and> u_Data u' = u_Data u \<and>
       u_CurrentChunk u < u_CurrentChunk u' \<and> int (u_CurrentChunk u') \<le> rp_NumChunks (u_Data u)
   | (None, _, _) \<Rightarrow> True"
  using FetchChunk_progress [of u conn] by (auto split: option.splits)

end
