(* ===== verification/Uuid.thy ===== *)
theory Uuid
  imports Utf8 Packer "HOL-Library.List_Lexorder"
begin

text \<open>
  UUIDs of \<^verbatim>\<open>src/src/engine/shared/uuid_manager.cpp\<close>: their text form and the registry that
  numbers the extended message and object types. \<open>md5\<close> is the digest of the bundled hash library,
  and \<open>secure_random_fill\<close> the bytes it drew.
\<close>

section \<open>UUIDs\<close>

datatype CUuid = CUuid (m_aData: "u8 list")

text \<open>\<open>mem_comp\<close> compares the bytes lexicographically.\<close>

definition uuid_before :: "CUuid \<Rightarrow> CUuid \<Rightarrow> bool" where
  "uuid_before a b \<longleftrightarrow> m_aData a < m_aData b"

instantiation CUuid :: linorder
begin

definition less_eq_CUuid :: "CUuid \<Rightarrow> CUuid \<Rightarrow> bool" where
  "less_eq_CUuid a b \<longleftrightarrow> m_aData a \<le> m_aData b"

definition less_CUuid :: "CUuid \<Rightarrow> CUuid \<Rightarrow> bool" where
  "less_CUuid = uuid_before"

instance
  by standard (auto simp: less_eq_CUuid_def less_CUuid_def uuid_before_def intro: CUuid.expand)

end

definition OFFSET_UUID :: int where "OFFSET_UUID = 65536"
definition UUID_INVALID :: int where "UUID_INVALID = -2"
definition UUID_UNKNOWN :: int where "UUID_UNKNOWN = -1"
definition UUID_MAXSTRSIZE :: nat where "UUID_MAXSTRSIZE = 37"

definition TEEWORLDS_NAMESPACE :: "u8 list" where
  "TEEWORLDS_NAMESPACE =
     [0xe0, 0x5d, 0xda, 0xaa, 0xc4, 0xe6, 0x4c, 0xfb, 0xb6, 0x42, 0x5d, 0x48, 0xe8, 0x0c, 0x00, 0x29]"

text \<open>The version is stored in byte 6, the variant in byte 8.\<close>

definition set_version :: "u8 \<Rightarrow> u8 list \<Rightarrow> u8 list" where
  "set_version v d = d[6 := (d ! 6 AND 0x0f) OR v, 8 := (d ! 8 AND 0x3f) OR 0x80]"

definition RandomUuid :: "u8 list \<Rightarrow> CUuid" where
  "RandomUuid random = CUuid (set_version 0x40 random)"

definition CalculateUuid :: "(u8 list \<Rightarrow> u8 list) \<Rightarrow> u8 list \<Rightarrow> CUuid" where
  "CalculateUuid md5 name = CUuid (set_version 0x30 (take 16 (md5 (TEEWORLDS_NAMESPACE @ name))))"

section \<open>Text form\<close>

definition hexdigit :: "u8 \<Rightarrow> u8" where
  "hexdigit d = (if d < 10 then 48 + d else 87 + d)"

text \<open>\<open>%02x\<close>.\<close>

definition hex2 :: "u8 \<Rightarrow> u8 list" where
  "hex2 b = [hexdigit (drop_bit 4 b), hexdigit (b AND 0xf)]"

definition FormatUuid :: "CUuid \<Rightarrow> u8 list" where
  "FormatUuid u =
     (let p = m_aData u; hexs = (\<lambda>xs. concat (map hex2 xs))
      in hexs (take 4 p) @ [45] @ hexs (take 2 (drop 4 p)) @ [45] @ hexs (take 2 (drop 6 p)) @ [45] @
         hexs (take 2 (drop 8 p)) @ [45] @ hexs (take 6 (drop 10 p)))"

definition hexval :: "u8 \<Rightarrow> int" where
  "hexval x = (if 48 \<le> x \<and> x \<le> 57 then uint x - 48
               else if 97 \<le> x \<and> x \<le> 102 then uint x - 87
               else if 65 \<le> x \<and> x \<le> 70 then uint x - 55
               else -1)"

definition byteval :: "u8 \<Rightarrow> u8 \<Rightarrow> u8 option" where
  "byteval h l = (if hexval h < 0 \<or> hexval l < 0 then None else Some (byte (hexval h * 16 + hexval l)))"

fun hex_decode_loop :: "u8 list \<Rightarrow> u8 list option" where
  "hex_decode_loop (h # l # src) =
     (case byteval h l of None \<Rightarrow> None | Some b \<Rightarrow> map_option ((#) b) (hex_decode_loop src))"
| "hex_decode_loop _ = Some []"

text \<open>The source is a string without its terminator; \<open>Inl\<close> is a return value other than 0.\<close>

definition str_hex_decode :: "nat \<Rightarrow> u8 list \<Rightarrow> int + u8 list" where
  "str_hex_decode dst_size src =
     (if length src \<noteq> dst_size * 2 then Inl 2
      else case hex_decode_loop src of None \<Rightarrow> Inl 1 | Some d \<Rightarrow> Inr d)"

definition string_at :: "u8 list \<Rightarrow> nat \<Rightarrow> u8 list" where
  "string_at s i = takeWhile (\<lambda>b. b \<noteq> 0) (drop i s)"

definition ParseUuid :: "u8 list \<Rightarrow> int + CUuid" where
  "ParseUuid s =
     (if length s + 1 \<noteq> UUID_MAXSTRSIZE then Inl 2
      else
        let c = str_copy s UUID_MAXSTRSIZE
        in if c ! 8 \<noteq> 45 \<or> c ! 13 \<noteq> 45 \<or> c ! 18 \<noteq> 45 \<or> c ! 23 \<noteq> 45 then Inl 1
           else
             let c = c[8 := 0, 13 := 0, 18 := 0, 23 := 0]
             in case (str_hex_decode 4 (string_at c 0), str_hex_decode 2 (string_at c 9), str_hex_decode 2 (string_at c 14),
                      str_hex_decode 2 (string_at c 19), str_hex_decode 6 (string_at c 24)) of
                  (Inr d1, Inr d2, Inr d3, Inr d4, Inr d5) \<Rightarrow> Inr (CUuid (d1 @ d2 @ d3 @ d4 @ d5))
                | _ \<Rightarrow> Inl 1)"

section \<open>The registry\<close>

record CUuidManager =
  um_Names :: "(CUuid \<times> u8 list) list"
  um_NamesSorted :: "(CUuid \<times> int) list"

definition GetIndex :: "int \<Rightarrow> int" where "GetIndex TypeId = TypeId - OFFSET_UUID"
definition GetId :: "int \<Rightarrow> int" where "GetId Index = Index + OFFSET_UUID"

text \<open>\<open>std::lower_bound\<close> and \<open>std::upper_bound\<close> on a sorted vector, as positions.\<close>

definition lower_bound :: "(CUuid \<times> int) list \<Rightarrow> CUuid \<Rightarrow> nat" where
  "lower_bound xs u = length (takeWhile (\<lambda>x. fst x < u) xs)"

definition upper_bound :: "(CUuid \<times> int) list \<Rightarrow> CUuid \<Rightarrow> nat" where
  "upper_bound xs u = length (takeWhile (\<lambda>x. \<not> u < fst x) xs)"

definition LookupUuid :: "CUuidManager \<Rightarrow> CUuid \<Rightarrow> int" where
  "LookupUuid m u =
     (let first = lower_bound (um_NamesSorted m) u; second = upper_bound (um_NamesSorted m) u
      in if second - first = 1 then GetId (snd (um_NamesSorted m ! first)) else UUID_UNKNOWN)"

definition GetUuid :: "CUuidManager \<Rightarrow> int \<Rightarrow> CUuid" where
  "GetUuid m TypeId = fst (um_Names m ! nat (GetIndex TypeId))"

definition GetName :: "CUuidManager \<Rightarrow> int \<Rightarrow> u8 list" where
  "GetName m TypeId = snd (um_Names m ! nat (GetIndex TypeId))"

definition NumUuids :: "CUuidManager \<Rightarrow> nat" where
  "NumUuids m = length (um_Names m)"

text \<open>\<open>None\<close> is a failed assertion: an id out of order, or a name whose UUID is taken.\<close>

definition RegisterName :: "(u8 list \<Rightarrow> u8 list) \<Rightarrow> CUuidManager \<Rightarrow> int \<Rightarrow> u8 list \<Rightarrow> CUuidManager option" where
  "RegisterName md5 m TypeId name =
     (if GetIndex TypeId \<noteq> int (length (um_Names m)) then None
      else
        let u = CalculateUuid md5 name
        in if LookupUuid m u \<noteq> UUID_UNKNOWN then None
           else
             let i = lower_bound (um_NamesSorted m) u
             in Some (m\<lparr>um_Names := um_Names m @ [(u, name)],
                        um_NamesSorted := take i (um_NamesSorted m) @ (u, GetIndex TypeId) # drop i (um_NamesSorted m)\<rparr>))"

definition UnpackUuid :: "CUuidManager \<Rightarrow> unpacker \<Rightarrow> int \<times> CUuid option \<times> unpacker" where
  "UnpackUuid m u =
     (case GetRaw u 16 of
        (None, u) \<Rightarrow> (UUID_INVALID, None, u)
      | (Some d, u) \<Rightarrow> (LookupUuid m (CUuid d), Some (CUuid d), u))"

definition PackUuid :: "CUuidManager \<Rightarrow> int \<Rightarrow> packer \<Rightarrow> packer" where
  "PackUuid m TypeId p = AddRaw p (m_aData (GetUuid m TypeId))"

section \<open>The text form is read back\<close>

lemma hexval_hexdigit:
  assumes "d < 16"
  shows "hexval (hexdigit d) = uint d" "hexdigit d \<noteq> 0" "hexdigit d \<noteq> 45" "hexdigit d < 128"
proof -
  have "\<forall>n \<in> set [0..<16]. hexval (hexdigit (of_nat n)) = int n \<and>
      hexdigit (of_nat n) \<noteq> 0 \<and> hexdigit (of_nat n) \<noteq> 45 \<and> hexdigit (of_nat n) < 128"
    by (simp add: upt_rec hexval_def hexdigit_def)
  moreover have "unat d \<in> set [0..<16]" using assms by (simp add: word_less_nat_alt)
  ultimately have "hexval (hexdigit (of_nat (unat d))) = int (unat d) \<and> hexdigit (of_nat (unat d)) \<noteq> 0 \<and>
      hexdigit (of_nat (unat d)) \<noteq> 45 \<and> hexdigit (of_nat (unat d)) < 128"
    by (rule bspec)
  then have "hexval (hexdigit d) = uint d \<and> hexdigit d \<noteq> 0 \<and> hexdigit d \<noteq> 45 \<and> hexdigit d < 128"
    by simp
  then show "hexval (hexdigit d) = uint d" "hexdigit d \<noteq> 0" "hexdigit d \<noteq> 45" "hexdigit d < 128" by blast+
qed

lemma nibbles_less: "drop_bit 4 b < (16 :: u8)" "b AND 0xf < (16 :: u8)"
proof -
  show "drop_bit 4 b < (16 :: u8)"
    using uint_lt2p [of b] by (simp add: word_less_def uint_div drop_bit_eq_div)
  have "b AND 0xf = take_bit 4 b" by (simp add: take_bit_eq_mask mask_eq_exp_minus_1)
  then show "b AND 0xf < (16 :: u8)"
    by (simp add: word_less_def uint_mod take_bit_eq_mod)
qed

lemma nibbles_join: "byte (uint (drop_bit 4 b) * 16 + uint (b AND 0xf)) = (b :: u8)"
proof -
  have "b AND 0xf = take_bit 4 b" by (simp add: take_bit_eq_mask mask_eq_exp_minus_1)
  then have "uint (drop_bit 4 b) * 16 + uint (b AND 0xf) = uint b"
    by (simp add: uint_div uint_mod take_bit_eq_mod drop_bit_eq_div)
  then show ?thesis by simp
qed

lemma byteval_hex2: "hex2 b = [h, l] \<Longrightarrow> byteval h l = Some b"
  using hexval_hexdigit(1) [OF nibbles_less(1), of b] hexval_hexdigit(1) [OF nibbles_less(2), of b] nibbles_join [of b]
  by (auto simp: hex2_def byteval_def)

lemma hex_decode_hex2: "hex_decode_loop (concat (map hex2 xs)) = Some xs"
  by (induction xs) (use byteval_hex2 in \<open>auto simp: hex2_def\<close>)

lemma length_hex2s [simp]: "length (concat (map hex2 xs)) = 2 * length xs"
  by (induction xs) (simp_all add: hex2_def)

lemma str_hex_decode_hex2: "length xs = n \<Longrightarrow> str_hex_decode n (concat (map hex2 xs)) = Inr xs"
  by (simp add: str_hex_decode_def hex_decode_hex2)

lemma hex2_chars: "x \<in> set (concat (map hex2 xs)) \<Longrightarrow> x \<noteq> 0 \<and> x < 128"
  using hexval_hexdigit nibbles_less by (auto simp: hex2_def)

lemma str_copy_ascii:
  assumes "\<forall>x \<in> set s. x \<noteq> 0 \<and> x < (128 :: u8)" "length s < n"
  shows "str_copy s n = s"
proof -
  have u: "0 < uint x \<and> uint x \<le> 127" if "x \<in> set s" for x
    using assms(1) that by (force simp: word_less_def word_neq_0_conv)
  then have "map (\<lambda>x. str_utf8_encode (uint x)) s = map (\<lambda>x. [x]) s"
    by (intro map_cong refl) (simp add: encode_1)
  then have e: "concat (map str_utf8_encode (map uint s)) = s"
    by (simp add: comp_def del: map_eq_conv)
  have "\<forall>c \<in> set (map uint s). scalar c" using u by (force simp: scalar_def)
  from fix_truncation_whole [OF this] e assms(2) show ?thesis by (simp add: str_copy_def)
qed

lemma string_at_section:
  assumes "0 \<notin> set y" "length x = i"
  shows "string_at (x @ y @ 0 # z) i = y" "string_at (x @ y) i = y"
proof -
  have "\<forall>b \<in> set y. b \<noteq> 0" using assms(1) by metis
  then show "string_at (x @ y @ 0 # z) i = y" "string_at (x @ y) i = y"
    using assms(2) by (simp_all add: string_at_def takeWhile_append2)
qed

lemma parse_format:
  assumes "length (m_aData u) = 16"
  shows "ParseUuid (FormatUuid u) = Inr u"
proof -
  let ?p = "m_aData u" and ?h = "\<lambda>xs. concat (map hex2 xs)"
  define a b c d e where ps: "a = take 4 ?p" "b = take 2 (drop 4 ?p)" "c = take 2 (drop 6 ?p)" "d = take 2 (drop 8 ?p)" "e = take 6 (drop 10 ?p)"
  have len: "length a = 4" "length b = 2" "length c = 2" "length d = 2" "length e = 6" using assms by (simp_all add: ps)
  have u: "u = CUuid (a @ b @ c @ d @ e)"
  proof (rule CUuid.expand)
    show "m_aData u = m_aData (CUuid (a @ b @ c @ d @ e))"
      using assms unfolding ps by (intro nth_equalityI) (auto simp: nth_append min_def)
  qed
  have F: "FormatUuid u = ?h a @ [45] @ ?h b @ [45] @ ?h c @ [45] @ ?h d @ [45] @ ?h e"
    unfolding FormatUuid_def Let_def ps by (rule refl)
  have sz: "length (FormatUuid u) = 36" unfolding F by (simp add: len)
  have nz: "0 \<notin> set (?h xs)" for xs using hex2_chars by blast
  have cp: "str_copy (FormatUuid u) UUID_MAXSTRSIZE = FormatUuid u"
    by (rule str_copy_ascii) (use sz hex2_chars in \<open>auto simp: F UUID_MAXSTRSIZE_def\<close>)
  have dash: "FormatUuid u ! 8 = 45" "FormatUuid u ! 13 = 45" "FormatUuid u ! 18 = 45" "FormatUuid u ! 23 = 45"
    unfolding F by (simp_all add: nth_append len)
  have z: "(FormatUuid u)[8 := 0, 13 := 0, 18 := 0, 23 := 0] = ?h a @ [0] @ ?h b @ [0] @ ?h c @ [0] @ ?h d @ [0] @ ?h e"
    unfolding F by (simp add: list_update_append len)
  let ?z = "?h a @ [0] @ ?h b @ [0] @ ?h c @ [0] @ ?h d @ [0] @ ?h e"
  have s: "string_at ?z 0 = ?h a" "string_at ?z 9 = ?h b" "string_at ?z 14 = ?h c" "string_at ?z 19 = ?h d" "string_at ?z 24 = ?h e"
    using string_at_section [OF nz, of "[]" 0 a] string_at_section [OF nz, of "?h a @ [0]" 9 b]
      string_at_section [OF nz, of "?h a @ [0] @ ?h b @ [0]" 14 c]
      string_at_section [OF nz, of "?h a @ [0] @ ?h b @ [0] @ ?h c @ [0]" 19 d]
      string_at_section(2) [OF nz, of "?h a @ [0] @ ?h b @ [0] @ ?h c @ [0] @ ?h d @ [0]" 24 e]
    by (simp_all add: len)
  show ?thesis
    unfolding ParseUuid_def Let_def cp dash z s
    by (simp add: sz UUID_MAXSTRSIZE_def str_hex_decode_hex2 len) (simp add: u)
qed


section \<open>The registry finds what was registered\<close>

definition keys_sorted :: "(CUuid \<times> int) list \<Rightarrow> bool" where
  "keys_sorted xs \<longleftrightarrow> sorted_wrt (<) (map fst xs)"

lemma lower_bound_split:
  assumes "keys_sorted xs"
  shows "\<forall>x \<in> set (take (lower_bound xs u) xs). fst x < u" "\<forall>x \<in> set (drop (lower_bound xs u) xs). u \<le> fst x"
proof -
  have t: "take (lower_bound xs u) xs = takeWhile (\<lambda>x. fst x < u) xs" "drop (lower_bound xs u) xs = dropWhile (\<lambda>x. fst x < u) xs"
    unfolding lower_bound_def by (rule takeWhile_eq_take [symmetric], rule dropWhile_eq_drop [symmetric])
  show "\<forall>x \<in> set (take (lower_bound xs u) xs). fst x < u" unfolding t by (auto dest: set_takeWhileD)
  show "\<forall>x \<in> set (drop (lower_bound xs u) xs). u \<le> fst x"
  proof (cases "dropWhile (\<lambda>x. fst x < u) xs")
    case (Cons y ys)
    then have "\<not> fst y < u" using hd_dropWhile [of "\<lambda>x. fst x < u" xs] by simp
    moreover have "keys_sorted (takeWhile (\<lambda>x. fst x < u) xs @ y # ys)" using assms Cons by (metis takeWhile_dropWhile_id)
    then have "\<forall>x \<in> set ys. fst y < fst x" by (simp add: keys_sorted_def sorted_wrt_append)
    moreover have "u \<le> fst x" if "\<not> fst y < u" "fst y < fst x" for x :: "CUuid \<times> int"
      using that by (meson not_less less_imp_le order.trans)
    ultimately show ?thesis unfolding t Cons by (simp add: not_less)
  next
    case Nil
    show ?thesis unfolding t(2) Nil by (simp only: list.set ball_empty)
  qed
qed

lemma LookupUuid_sorted:
  assumes "keys_sorted (um_NamesSorted m)"
  shows "LookupUuid m u = (case map_of (um_NamesSorted m) u of Some i \<Rightarrow> GetId i | None \<Rightarrow> UUID_UNKNOWN)"
proof -
  let ?xs = "um_NamesSorted m" and ?l = "lower_bound (um_NamesSorted m) u"
  note lo = lower_bound_split [OF assms, of u]
  have split: "?xs = take ?l ?xs @ drop ?l ?xs" by simp
  have none: "map_of (take ?l ?xs) u = None" using lo(1) by (force simp: map_of_eq_None_iff)
  have len: "length (take ?l ?xs) = ?l" using length_takeWhile_le [of "\<lambda>x. fst x < u" ?xs] by (simp add: lower_bound_def)
  have up1: "takeWhile (\<lambda>x. \<not> u < fst x) ?xs = take ?l ?xs @ takeWhile (\<lambda>x. \<not> u < fst x) (drop ?l ?xs)"
    using lo(1) by (subst split) (intro takeWhile_append2, auto)
  have up: "upper_bound ?xs u = ?l + length (takeWhile (\<lambda>x. \<not> u < fst x) (drop ?l ?xs))"
    by (simp only: upper_bound_def up1 length_append len)
  have mo: "map_of ?xs u = map_of (drop ?l ?xs) u" using none by (subst split) (simp only: map_of_append map_add_def option.case)
  show ?thesis
  proof (cases "drop ?l ?xs")
    case Nil
    then show ?thesis using up mo by (simp add: LookupUuid_def Let_def)
  next
    case (Cons y ys)
    have ks: "\<forall>x \<in> set ys. fst y < fst x"
      using assms Cons split by (metis keys_sorted_def map_append list.map(2) sorted_wrt_append sorted_wrt.simps(2) list.set_map imageI)
    have at: "?xs ! ?l = y" using Cons len by (metis hd_drop_conv_nth list.sel(1) drop_eq_Nil2 list.distinct(1) not_le)
    show ?thesis
    proof (cases "fst y = u")
      case True
      then have "takeWhile (\<lambda>x. \<not> u < fst x) (drop ?l ?xs) = [y]" using ks Cons by (cases ys) auto
      then show ?thesis using up mo at True Cons by (cases y) (simp add: LookupUuid_def Let_def)
    next
      case False
      then have "u < fst y" using lo(2) Cons by (auto simp: order.strict_iff_order)
      then have "takeWhile (\<lambda>x. \<not> u < fst x) (drop ?l ?xs) = []" "map_of (drop ?l ?xs) u = None"
        using Cons ks False by (auto simp: map_of_eq_None_iff dest: order.strict_trans)
      then show ?thesis using up mo by (simp add: LookupUuid_def Let_def)
    qed
  qed
qed

lemma map_of_indexed_None:
  "map_of (zip (map fst ns) (map int [0..<length ns])) u = None \<longleftrightarrow> u \<notin> fst ` set ns"
  by (subst map_of_zip_is_None) simp_all

text \<open>The sorted index and the names describe the same registrations.\<close>

definition registry_ok :: "CUuidManager \<Rightarrow> bool" where
  "registry_ok m \<longleftrightarrow> keys_sorted (um_NamesSorted m) \<and> distinct (map fst (um_Names m)) \<and>
     (\<forall>u. map_of (um_NamesSorted m) u = map_of (zip (map fst (um_Names m)) (map int [0..<length (um_Names m)])) u)"

lemma map_of_snoc: "map_of (xs @ [(u, k)]) v = (case map_of xs v of Some x \<Rightarrow> Some x | None \<Rightarrow> if v = u then Some k else None)"
  by (simp add: map_add_def split: option.split)

lemma map_of_insert_at:
  assumes "u \<notin> fst ` set xs"
  shows "map_of (take i xs @ (u, k) # drop i xs) = (map_of xs)(u \<mapsto> k)"
proof
  fix v
  have "u \<notin> fst ` set (take i xs)" using assms by (auto dest: in_set_takeD)
  then have n: "map_of (take i xs) u = None" by (simp add: map_of_eq_None_iff)
  have "map_of xs v = (case map_of (take i xs) v of None \<Rightarrow> map_of (drop i xs) v | Some x \<Rightarrow> Some x)"
    using map_of_append [of "take i xs" "drop i xs"] by (simp add: map_add_def split: option.split)
  with n show "map_of (take i xs @ (u, k) # drop i xs) v = ((map_of xs)(u \<mapsto> k)) v"
    by (auto simp: map_add_def split: option.split)
qed

lemma RegisterName_ok:
  assumes "registry_ok m" "RegisterName md5 m TypeId name = Some m'"
  shows "registry_ok m' \<and> um_Names m' = um_Names m @ [(CalculateUuid md5 name, name)] \<and> CalculateUuid md5 name \<notin> fst ` set (um_Names m)"
proof -
  let ?u = "CalculateUuid md5 name" and ?xs = "um_NamesSorted m"
  let ?i = "lower_bound ?xs ?u"
  have ok: "keys_sorted ?xs" "distinct (map fst (um_Names m))"
    "\<And>u. map_of ?xs u = map_of (zip (map fst (um_Names m)) (map int [0..<length (um_Names m)])) u"
    using assms(1) by (simp_all add: registry_ok_def)
  have r: "GetIndex TypeId = int (length (um_Names m))" "LookupUuid m ?u = UUID_UNKNOWN"
    "m' = m\<lparr>um_Names := um_Names m @ [(?u, name)], um_NamesSorted := take ?i ?xs @ (?u, GetIndex TypeId) # drop ?i ?xs\<rparr>"
    using assms(2) by (auto simp: RegisterName_def Let_def split: if_splits)
  have "map_of ?xs ?u = None"
  proof (cases "map_of ?xs ?u")
    case (Some k)
    then have "map_of (zip (map fst (um_Names m)) (map int [0..<length (um_Names m)])) ?u = Some k" using ok(3) by simp
    then have "(?u, k) \<in> set (zip (map fst (um_Names m)) (map int [0..<length (um_Names m)]))" by (rule map_of_SomeD)
    then have "k \<in> set (map int [0..<length (um_Names m)])" by (rule set_zip_rightD)
    then have "0 \<le> k" by auto
    with r(2) LookupUuid_sorted [OF ok(1), of ?u] Some show ?thesis by (simp add: GetId_def UUID_UNKNOWN_def OFFSET_UUID_def)
  qed simp
  then have new: "?u \<notin> fst ` set ?xs" "?u \<notin> fst ` set (um_Names m)"
    using ok(3) [of ?u] map_of_indexed_None [of "um_Names m" ?u] map_of_eq_None_iff [of ?xs ?u] by simp_all
  note lo = lower_bound_split [OF ok(1), of ?u]
  have "\<forall>x \<in> set (drop ?i ?xs). ?u < fst x" using lo(2) new(1) by (force simp: order.strict_iff_order dest: in_set_dropD)
  moreover have "keys_sorted (take ?i ?xs @ drop ?i ?xs)" using ok(1) by simp
  ultimately have ks: "keys_sorted (take ?i ?xs @ (?u, GetIndex TypeId) # drop ?i ?xs)"
    using lo(1) unfolding keys_sorted_def map_append sorted_wrt_append by (auto simp: order.strict_trans)
  have mo: "map_of (take ?i ?xs @ (?u, GetIndex TypeId) # drop ?i ?xs) = (map_of ?xs)(?u \<mapsto> GetIndex TypeId)"
    by (rule map_of_insert_at [OF new(1)])
  have z: "zip (map fst (um_Names m')) (map int [0..<length (um_Names m')]) =
      zip (map fst (um_Names m)) (map int [0..<length (um_Names m)]) @ [(?u, int (length (um_Names m)))]"
    by (simp add: r(3))
  have "map_of (um_NamesSorted m') v = map_of (zip (map fst (um_Names m')) (map int [0..<length (um_Names m')])) v" for v
  proof -
    have none: "map_of (zip (map fst (um_Names m)) (map int [0..<length (um_Names m)])) ?u = None"
      using new(2) by (simp only: map_of_indexed_None simp_thms)
    have "map_of (um_NamesSorted m') v = (if v = ?u then Some (GetIndex TypeId) else map_of ?xs v)" using mo r(3) by simp
    moreover have "map_of (zip (map fst (um_Names m)) (map int [0..<length (um_Names m)]) @ [(?u, int (length (um_Names m)))]) v
      = (if v = ?u then Some (int (length (um_Names m))) else map_of ?xs v)"
    proof (cases "v = ?u")
      case True
      show ?thesis unfolding map_of_snoc True none by simp
    next
      case False
      have "(case x of Some y \<Rightarrow> Some y | None \<Rightarrow> None) = x" for x :: "int option" by (cases x) simp_all
      with False show ?thesis unfolding map_of_snoc ok(3) [of v] by (simp only: if_False)
    qed
    ultimately show ?thesis unfolding z r(1) by (simp only:)
  qed
  then show ?thesis using ks ok(2) new(2) r(3) by (simp add: registry_ok_def image_iff)
qed

text \<open>The registration of all names in the order of their ids, as \<open>RegisterUuids\<close> does.\<close>

fun register_all :: "(u8 list \<Rightarrow> u8 list) \<Rightarrow> CUuidManager \<Rightarrow> u8 list list \<Rightarrow> CUuidManager option" where
  "register_all md5 m [] = Some m"
| "register_all md5 m (name # names) =
     (case RegisterName md5 m (GetId (int (NumUuids m))) name of None \<Rightarrow> None | Some m \<Rightarrow> register_all md5 m names)"

lemma register_all_ok:
  "registry_ok m \<Longrightarrow> register_all md5 m names = Some m' \<Longrightarrow>
   registry_ok m' \<and> um_Names m' = um_Names m @ map (\<lambda>name. (CalculateUuid md5 name, name)) names"
proof (induction names arbitrary: m)
  case (Cons name names)
  then obtain m1 where "RegisterName md5 m (GetId (int (NumUuids m))) name = Some m1" "register_all md5 m1 names = Some m'"
    by (auto split: option.splits)
  with RegisterName_ok [OF Cons.prems(1), of md5 _ name m1] Cons.IH [of m1] show ?case by simp
qed simp

lemma lookup_registered:
  assumes "registry_ok m" "i < length (um_Names m)"
  shows "LookupUuid m (fst (um_Names m ! i)) = OFFSET_UUID + int i"
proof -
  let ?z = "zip (map fst (um_Names m)) (map int [0..<length (um_Names m)])"
  have "?z ! i = (fst (um_Names m ! i), int i)" "i < length ?z" using assms(2) by simp_all
  then have "(fst (um_Names m ! i), int i) \<in> set ?z" by (metis nth_mem)
  moreover have "distinct (map fst ?z)" using assms(1) by (simp add: registry_ok_def)
  ultimately have "map_of ?z (fst (um_Names m ! i)) = Some (int i)" by (rule map_of_is_SomeI [rotated])
  then show ?thesis using assms(1) LookupUuid_sorted [of m] by (simp add: registry_ok_def GetId_def)
qed

lemma lookup_unknown:
  assumes "registry_ok m" "u \<notin> fst ` set (um_Names m)"
  shows "LookupUuid m u = UUID_UNKNOWN"
proof -
  have "map_of (um_NamesSorted m) u = None" using assms unfolding registry_ok_def by (simp only: map_of_indexed_None simp_thms)
  then show ?thesis using assms(1) LookupUuid_sorted [of m u] unfolding registry_ok_def by (simp only: option.case)
qed

section \<open>Properties\<close>

text \<open>The text \<open>FormatUuid\<close> writes for any UUID is read back by \<open>ParseUuid\<close> as this UUID.\<close>

theorem uuid_parse_format: "length bytes = 16 \<Longrightarrow> ParseUuid (FormatUuid (CUuid bytes)) = Inr (CUuid bytes)"
  using parse_format [of "CUuid bytes"] by simp

lemma uuid_parse_format_witness: "ParseUuid (FormatUuid (CUuid TEEWORLDS_NAMESPACE)) = Inr (CUuid TEEWORLDS_NAMESPACE)"
  by (rule uuid_parse_format) (simp add: TEEWORLDS_NAMESPACE_def)

definition no_names :: CUuidManager where
  "no_names = \<lparr>um_Names = [], um_NamesSorted = []\<rparr>"

text \<open>
  If the registration of a list of names succeeds, the binary search in the sorted index finds
  for the UUID of the \<open>i\<close>-th name the id \<open>OFFSET_UUID + i\<close>, \<open>GetUuid\<close> and \<open>GetName\<close> lead back from
  the id, and every other UUID is unknown.
\<close>

theorem uuid_registry:
  assumes "register_all md5 no_names names = Some m"
  shows "(\<forall>i < length names. LookupUuid m (CalculateUuid md5 (names ! i)) = OFFSET_UUID + int i \<and>
      GetUuid m (OFFSET_UUID + int i) = CalculateUuid md5 (names ! i) \<and> GetName m (OFFSET_UUID + int i) = names ! i) \<and>
    (\<forall>u. u \<notin> CalculateUuid md5 ` set names \<longrightarrow> LookupUuid m u = UUID_UNKNOWN)"
proof -
  have "registry_ok no_names" by (simp add: registry_ok_def no_names_def keys_sorted_def)
  from register_all_ok [OF this assms]
  have m: "registry_ok m" "um_Names m = map (\<lambda>name. (CalculateUuid md5 name, name)) names" by (simp_all add: no_names_def)
  show ?thesis
    using lookup_registered [OF m(1)] lookup_unknown [OF m(1)]
    by (auto simp: m(2) GetUuid_def GetName_def GetIndex_def image_image)
qed

lemma uuid_registry_witness:
  "\<exists>m. register_all (\<lambda>d. replicate 15 0 @ [last d]) no_names [[1], [2]] = Some m \<and>
     LookupUuid m (CalculateUuid (\<lambda>d. replicate 15 0 @ [last d]) [2]) = OFFSET_UUID + 1"
proof -
  let ?md5 = "\<lambda>d. replicate 15 0 @ [last d] :: u8 list"
  obtain m where m: "register_all ?md5 no_names [[1], [2]] = Some m"
    by (simp add: no_names_def RegisterName_def LookupUuid_def lower_bound_def upper_bound_def GetIndex_def GetId_def NumUuids_def
        CalculateUuid_def set_version_def less_CUuid_def uuid_before_def eval_nat_numeral TEEWORLDS_NAMESPACE_def UUID_UNKNOWN_def OFFSET_UUID_def Let_def)
  from uuid_registry [OF this] have "LookupUuid m (CalculateUuid ?md5 ([[1], [2]] ! 1)) = OFFSET_UUID + int 1"
    by fastforce
  with m show ?thesis by auto
qed

end
