(* ===== verification/Snapshot.thy ===== *)
theory Snapshot
  imports VarInt NetPacket Uuid "HOL-Library.Multiset"
begin

text \<open>
  Snapshots of \<^verbatim>\<open>src/src/engine/shared/snapshot.cpp\<close>. A snapshot is its memory as
  32-bit words: \<open>m_DataSize\<close>, \<open>m_NumItems\<close>, the offsets (in bytes) and the data. Offsets and item
  sizes are multiples of four and not negative, as the builder makes them. \<open>UnpackDelta\<close>, which works on
  what was received, is \<open>None\<close> when it reads behind the memory it was given or writes behind that of the
  builder; the other operations work on snapshots the program made itself, and there a word behind the memory
  is read as 0. The number translation of 0.7 (\<open>Obj_SixToSeven\<close>) is generated code and a parameter.
\<close>

section \<open>Reading a snapshot\<close>

type_synonym snapshot = "i32 list"

definition MAX_TYPE :: int where "MAX_TYPE = 0x7fff"
definition MAX_ID :: int where "MAX_ID = 0xffff"
definition MAX_ITEMS :: int where "MAX_ITEMS = 1024"
definition MAX_SIZE :: int where "MAX_SIZE = 65536"
definition OFFSET_UUID_TYPE :: int where "OFFSET_UUID_TYPE = 0x4000"
definition MAX_NETOBJSIZES :: int where "MAX_NETOBJSIZES = 64"

definition word_at :: "i32 list \<Rightarrow> int \<Rightarrow> i32" where
  "word_at s k = (if 0 \<le> k \<and> k < int (length s) then s ! nat k else 0)"

text \<open>The words from \<open>pos\<close> on are in the memory.\<close>

definition in_mem :: "i32 list \<Rightarrow> int \<Rightarrow> nat \<Rightarrow> bool" where
  "in_mem s pos n \<longleftrightarrow> 0 \<le> pos \<and> pos + int n \<le> int (length s)"

definition DataSize :: "snapshot \<Rightarrow> int" where "DataSize s = sint (word_at s 0)"
definition NumItems :: "snapshot \<Rightarrow> int" where "NumItems s = sint (word_at s 1)"
definition Offset :: "snapshot \<Rightarrow> int \<Rightarrow> int" where "Offset s Index = sint (word_at s (2 + Index))"
definition TotalSize :: "snapshot \<Rightarrow> int" where "TotalSize s = 8 + 4 * NumItems s + DataSize s"

text \<open>The position of the item in words.\<close>

definition GetItem :: "snapshot \<Rightarrow> int \<Rightarrow> int" where
  "GetItem s Index = 2 + NumItems s + Offset s Index div 4"

definition ItemKey :: "snapshot \<Rightarrow> int \<Rightarrow> i32" where
  "ItemKey s Index = word_at s (GetItem s Index)"

definition type_of :: "i32 \<Rightarrow> int" where "type_of key = drop_bit 16 (sint key)"
definition id_of :: "i32 \<Rightarrow> int" where "id_of key = uint (key AND 0xffff)"
definition make_key :: "int \<Rightarrow> int \<Rightarrow> i32" where "make_key Type ID = push_bit 16 (word_of_int Type) OR word_of_int ID"

definition GetItemSize :: "snapshot \<Rightarrow> int \<Rightarrow> int" where
  "GetItemSize s Index =
     (if Index = NumItems s - 1 then DataSize s - Offset s Index - 4
      else Offset s (Index + 1) - Offset s Index - 4)"

definition read_words :: "i32 list \<Rightarrow> int \<Rightarrow> nat \<Rightarrow> i32 list" where
  "read_words s pos n = map (\<lambda>b. word_at s (pos + int b)) [0..<n]"

definition ItemData :: "snapshot \<Rightarrow> int \<Rightarrow> nat \<Rightarrow> i32 list" where
  "ItemData s Index n = read_words s (GetItem s Index + 1) n"

text \<open>Loops over all items; \<open>NumItems\<close> may be negative in memory that was not checked.\<close>

definition indices :: "snapshot \<Rightarrow> int list" where
  "indices s = map int [0..<nat (NumItems s)]"

definition GetItemIndex :: "snapshot \<Rightarrow> i32 \<Rightarrow> int" where
  "GetItemIndex s Key = (case find (\<lambda>i. ItemKey s i = Key) (indices s) of Some i \<Rightarrow> i | None \<Rightarrow> -1)"

definition uuid_words :: "CUuid \<Rightarrow> i32 list" where
  "uuid_words u = map (\<lambda>i. bytes_be_to_uint (drop (4 * i) (m_aData u))) [0..<4]"

definition uuid_of_words :: "i32 list \<Rightarrow> CUuid" where
  "uuid_of_words ws = CUuid (concat (map uint_to_bytes_be ws))"

definition GetExternalItemType :: "CUuidManager \<Rightarrow> snapshot \<Rightarrow> int \<Rightarrow> int" where
  "GetExternalItemType m s InternalType =
     (if InternalType < OFFSET_UUID_TYPE then InternalType
      else
        let TypeItemIndex = GetItemIndex s (word_of_int InternalType)
        in if TypeItemIndex = -1 \<or> GetItemSize s TypeItemIndex < 16 then InternalType
           else LookupUuid m (uuid_of_words (ItemData s TypeItemIndex 4)))"

definition GetItemType :: "CUuidManager \<Rightarrow> snapshot \<Rightarrow> int \<Rightarrow> int" where
  "GetItemType m s Index = GetExternalItemType m s (type_of (ItemKey s Index))"

definition InvalidateItem :: "snapshot \<Rightarrow> int \<Rightarrow> snapshot" where
  "InvalidateItem s Index =
     (if 0 \<le> GetItem s Index then s[nat (GetItem s Index) := -1] else s)"

text \<open>The result is the position of the item's data.\<close>

definition FindItem :: "CUuidManager \<Rightarrow> snapshot \<Rightarrow> int \<Rightarrow> int \<Rightarrow> int option" where
  "FindItem m s Type ID =
     (let Internal =
        (if Type \<ge> OFFSET_UUID
         then map_option (\<lambda>i. id_of (ItemKey s i))
                (find (\<lambda>i. type_of (ItemKey s i) = 0 \<and> id_of (ItemKey s i) \<ge> OFFSET_UUID_TYPE \<and>
                           ItemData s i 4 = uuid_words (GetUuid m Type)) (indices s))
         else Some Type)
      in case Internal of
           None \<Rightarrow> None
         | Some InternalType \<Rightarrow>
             let Index = GetItemIndex s (make_key InternalType ID)
             in if Index < 0 then None else Some (GetItem s Index + 1))"

definition Crc :: "snapshot \<Rightarrow> i32" where
  "Crc s = sum_list (concat (map (\<lambda>i. ItemData s i (nat (GetItemSize s i) div 4)) (indices s)))"

definition IsValid :: "snapshot \<Rightarrow> int \<Rightarrow> bool" where
  "IsValid s ActualSize \<longleftrightarrow>
     \<not> (ActualSize < 8 \<or> ActualSize > MAX_SIZE \<or> NumItems s < 0 \<or> NumItems s > MAX_ITEMS \<or> DataSize s < 0 \<or>
        ActualSize \<noteq> TotalSize s) \<and>
     list_all (\<lambda>i. \<not> (Offset s i < 0 \<or> Offset s i > DataSize s)) (indices s) \<and>
     list_all (\<lambda>i. \<not> GetItemSize s i < 0) (indices s)"

section \<open>Building a snapshot\<close>

text \<open>
  \<open>b_Data\<close> is the first \<open>m_DataSize\<close> bytes of \<open>m_aData\<close>; \<open>b_Offsets\<close> has \<open>m_NumItems\<close> offsets.
\<close>

record CSnapshotBuilder =
  b_Data :: "i32 list"
  b_Offsets :: "int list"
  b_ExtendedItemTypes :: "int list"
  b_Sixup :: bool

record snap_env =
  e_Uuids :: CUuidManager
  e_SixToSeven :: "int \<Rightarrow> int"

definition new_builder :: CSnapshotBuilder where
  "new_builder = \<lparr>b_Data = [], b_Offsets = [], b_ExtendedItemTypes = [], b_Sixup = False\<rparr>"

definition room_for_item :: "CSnapshotBuilder \<Rightarrow> int \<Rightarrow> bool" where
  "room_for_item b Size \<longleftrightarrow> int (length (b_Offsets b)) < MAX_ITEMS \<and>
     8 + (int (length (b_Offsets b)) + 1) * 4 + 4 * int (length (b_Data b)) + (4 + Size) \<le> MAX_SIZE"

definition append_item :: "CSnapshotBuilder \<Rightarrow> int \<Rightarrow> int \<Rightarrow> int \<Rightarrow> nat option \<times> CSnapshotBuilder" where
  "append_item b Type ID Size =
     (Some (length (b_Data b) + 1),
      b\<lparr>b_Offsets := b_Offsets b @ [4 * int (length (b_Data b))],
        b_Data := b_Data b @ make_key Type ID # replicate (nat Size div 4) 0\<rparr>)"

text \<open>
  \<open>NewItem\<close> for a type below \<open>OFFSET_UUID\<close>. The pointer is the position of the data in \<open>b_Data\<close>; an
  item that 0.7 does not have is written behind the data and so left out.
\<close>

definition NewItem_plain :: "snap_env \<Rightarrow> CSnapshotBuilder \<Rightarrow> int \<Rightarrow> int \<Rightarrow> int \<Rightarrow> nat option \<times> CSnapshotBuilder" where
  "NewItem_plain e b Type ID Size =
     (if ID = -1 then (None, b)
      else if \<not> room_for_item b Size then (None, b)
      else if b_Sixup b
        then
          let Type = (if Type \<ge> 0 then e_SixToSeven e Type else - Type)
          in if Type < 0 then (Some (length (b_Data b)), b) else append_item b Type ID Size
      else if Type < 0 then (None, b)
      else append_item b Type ID Size)"

definition GetTypeFromIndex :: "int \<Rightarrow> int" where
  "GetTypeFromIndex Index = MAX_TYPE - Index"

text \<open>
  Words written behind \<open>m_DataSize\<close> are forgotten: the next item is made there and cleared, and \<open>Finish\<close> does not copy them.
\<close>

definition write_words :: "i32 list \<Rightarrow> nat \<Rightarrow> i32 list \<Rightarrow> i32 list" where
  "write_words s pos ws = take pos s @ take (length s - pos) ws @ drop (pos + length ws) s"

definition AddExtendedItemType :: "snap_env \<Rightarrow> CSnapshotBuilder \<Rightarrow> nat \<Rightarrow> bool \<times> CSnapshotBuilder" where
  "AddExtendedItemType e b Index =
     (case NewItem_plain e b 0 (GetTypeFromIndex (int Index)) 16 of
        (None, b) \<Rightarrow> (False, b)
      | (Some p, b) \<Rightarrow>
          (True, b\<lparr>b_Data := write_words (b_Data b) p (uuid_words (GetUuid (e_Uuids e) (b_ExtendedItemTypes b ! Index)))\<rparr>))"

text \<open>\<open>None\<close> is the failed assertion on the 65th extended type, the index \<open>-1\<close> a full snapshot.\<close>

definition GetExtendedItemTypeIndex :: "snap_env \<Rightarrow> CSnapshotBuilder \<Rightarrow> int \<Rightarrow> (int \<times> CSnapshotBuilder) option" where
  "GetExtendedItemTypeIndex e b TypeId =
     (case find (\<lambda>i. b_ExtendedItemTypes b ! i = TypeId) [0..<length (b_ExtendedItemTypes b)] of
        Some i \<Rightarrow> Some (int i, b)
      | None \<Rightarrow>
          if length (b_ExtendedItemTypes b) < 64
          then
            let Index = length (b_ExtendedItemTypes b);
                (ok, b') = AddExtendedItemType e (b\<lparr>b_ExtendedItemTypes := b_ExtendedItemTypes b @ [TypeId]\<rparr>) Index
            in if ok then Some (int Index, b')
               else Some (-1, b'\<lparr>b_ExtendedItemTypes := b_ExtendedItemTypes b\<rparr>)
          else None)"

definition NewItem :: "snap_env \<Rightarrow> CSnapshotBuilder \<Rightarrow> int \<Rightarrow> int \<Rightarrow> int \<Rightarrow> (nat option \<times> CSnapshotBuilder) option" where
  "NewItem e b Type ID Size =
     (if Type \<ge> OFFSET_UUID
      then if ID = -1 then Some (None, b)
           else if \<not> room_for_item b Size then Some (None, b)
           else case GetExtendedItemTypeIndex e b Type of
                  None \<Rightarrow> None
                | Some (i, b) \<Rightarrow> if i = -1 then Some (None, b) else Some (append_item b (GetTypeFromIndex i) ID Size)
      else Some (NewItem_plain e b Type ID Size))"

definition Builder_Init :: "snap_env \<Rightarrow> bool \<Rightarrow> CSnapshotBuilder \<Rightarrow> CSnapshotBuilder" where
  "Builder_Init e Sixup b =
     foldl (\<lambda>b i. snd (AddExtendedItemType e b i)) (b\<lparr>b_Data := [], b_Offsets := [], b_Sixup := Sixup\<rparr>)
       [0..<length (b_ExtendedItemTypes b)]"

definition builder_key :: "CSnapshotBuilder \<Rightarrow> nat \<Rightarrow> i32" where
  "builder_key b Index = word_at (b_Data b) (b_Offsets b ! Index div 4)"

text \<open>The position of the data of the item with this key.\<close>

definition GetItemData :: "CSnapshotBuilder \<Rightarrow> i32 \<Rightarrow> nat option" where
  "GetItemData b Key =
     map_option (\<lambda>i. nat (b_Offsets b ! i div 4) + 1)
       (find (\<lambda>i. builder_key b i = Key) [0..<length (b_Offsets b)])"

text \<open>\<open>None\<close> is a failed assertion.\<close>

definition Finish :: "CSnapshotBuilder \<Rightarrow> snapshot option" where
  "Finish b =
     (if int (length (b_Offsets b)) \<le> MAX_ITEMS \<and>
         8 + 4 * int (length (b_Offsets b)) + 4 * int (length (b_Data b)) \<le> MAX_SIZE
      then Some (word_of_int (4 * int (length (b_Data b))) # word_of_int (int (length (b_Offsets b))) #
                 map word_of_int (b_Offsets b) @ b_Data b)
      else None)"

section \<open>The hash lists\<close>

definition HASHLIST_BUCKET_SIZE :: nat where "HASHLIST_BUCKET_SIZE = 64"

definition CalcHashId :: "i32 \<Rightarrow> nat" where
  "CalcHashId Key =
     unat (foldl (\<lambda>Hash Shift. (push_bit 5 Hash + Hash) + (drop_bit (Shift * 8) Key AND 0xFF)) (5381 :: i32) [0..<4]) mod 256"

text \<open>A bucket is the list of its keys with the indices of their items.\<close>

type_synonym hashlist = "nat \<Rightarrow> (i32 \<times> int) list"

definition hash_insert :: "hashlist \<Rightarrow> i32 \<Rightarrow> int \<Rightarrow> hashlist" where
  "hash_insert h Key i =
     (let HashId = CalcHashId Key
      in if length (h HashId) < HASHLIST_BUCKET_SIZE then h(HashId := h HashId @ [(Key, i)]) else h)"

definition GenerateHash :: "snapshot \<Rightarrow> hashlist" where
  "GenerateHash s = foldl (\<lambda>h i. hash_insert h (ItemKey s i) i) (\<lambda>_. []) (indices s)"

definition GetItemIndexHashed :: "i32 \<Rightarrow> hashlist \<Rightarrow> int" where
  "GetItemIndexHashed Key h = (case find (\<lambda>(k, i). k = Key) (h (CalcHashId Key)) of Some (k, i) \<Rightarrow> i | None \<Rightarrow> -1)"

section \<open>Deltas\<close>

record CSnapshotDelta =
  sd_ItemSizes :: "int \<Rightarrow> int"
  sd_ItemSizes7 :: "int \<Rightarrow> int"
  sd_DataRate :: "int \<Rightarrow> 64 word"
  sd_DataUpdates :: "int \<Rightarrow> 64 word"

definition new_delta :: CSnapshotDelta where
  "new_delta = \<lparr>sd_ItemSizes = \<lambda>_. 0, sd_ItemSizes7 = \<lambda>_. 0, sd_DataRate = \<lambda>_. 0, sd_DataUpdates = \<lambda>_. 0\<rparr>"

text \<open>\<open>None\<close> is a failed assertion.\<close>

definition SetStaticsize :: "int \<Rightarrow> int \<Rightarrow> CSnapshotDelta \<Rightarrow> CSnapshotDelta option" where
  "SetStaticsize ItemType Size sd =
     (if 0 \<le> ItemType \<and> ItemType < MAX_NETOBJSIZES \<and> Size \<le> 32767
      then Some (sd\<lparr>sd_ItemSizes := (sd_ItemSizes sd)(ItemType := Size)\<rparr>) else None)"

definition SetStaticsize7 :: "int \<Rightarrow> int \<Rightarrow> CSnapshotDelta \<Rightarrow> CSnapshotDelta option" where
  "SetStaticsize7 ItemType Size sd =
     (if 0 \<le> ItemType \<and> ItemType < MAX_NETOBJSIZES \<and> Size \<le> 32767
      then Some (sd\<lparr>sd_ItemSizes7 := (sd_ItemSizes7 sd)(ItemType := Size)\<rparr>) else None)"

fun DiffItem :: "i32 list \<Rightarrow> i32 list \<Rightarrow> i32 list \<times> i32" where
  "DiffItem (p # past) (c # current) =
     (let (out, needed) = DiffItem past current in ((c - p) # out, (c - p) OR needed))"
| "DiffItem _ _ = ([], 0)"

definition data_rate :: "i32 \<Rightarrow> 64 word" where
  "data_rate diff = (if diff = 0 then 1 else of_nat (length (the (Pack diff 5))) * 8)"

fun UndiffItem :: "i32 list \<Rightarrow> i32 list \<Rightarrow> 64 word \<Rightarrow> i32 list \<times> 64 word" where
  "UndiffItem (p # past) (d # diff) rate =
     (let (out, rate) = UndiffItem past diff (rate + data_rate d) in ((p + d) # out, rate))"
| "UndiffItem _ _ rate = ([], rate)"

text \<open>The delta in memory: three counts, of which the last is always 0, and the data.\<close>

definition deleted_keys :: "snapshot \<Rightarrow> snapshot \<Rightarrow> i32 list" where
  "deleted_keys pFrom pTo =
     (let h = GenerateHash pTo
      in map (ItemKey pFrom) (filter (\<lambda>i. GetItemIndexHashed (ItemKey pFrom i) h = -1) (indices pFrom)))"

definition item_update :: "CSnapshotDelta \<Rightarrow> snapshot \<Rightarrow> snapshot \<Rightarrow> hashlist \<Rightarrow> int \<Rightarrow> i32 list option" where
  "item_update sd pFrom pTo h i =
     (let Key = ItemKey pTo i;
          n = nat (GetItemSize pTo i) div 4;
          PastIndex = GetItemIndexHashed Key h;
          IncludeSize = (type_of Key \<ge> MAX_NETOBJSIZES \<or> sd_ItemSizes sd (type_of Key) = 0);
          head = [word_of_int (type_of Key), word_of_int (id_of Key)] @ (if IncludeSize then [of_nat n] else [])
      in if PastIndex \<noteq> -1
         then
           let (diff, needed) = DiffItem (ItemData pFrom PastIndex n) (ItemData pTo i n)
           in if needed \<noteq> 0 then Some (head @ diff) else None
         else Some (head @ ItemData pTo i n))"

definition CreateDelta :: "CSnapshotDelta \<Rightarrow> snapshot \<Rightarrow> snapshot \<Rightarrow> i32 list \<times> int" where
  "CreateDelta sd pFrom pTo =
     (let del = deleted_keys pFrom pTo;
          updates = List.map_filter (item_update sd pFrom pTo (GenerateHash pFrom)) (indices pTo);
          out = [of_nat (length del), of_nat (length updates), 0] @ del @ concat updates
      in (out, if del = [] \<and> updates = [] then 0 else 4 * int (length out)))"

text \<open>
  The copying loop of \<open>UnpackDelta\<close>. \<open>None\<close> is a failed assertion or an access outside the memory, \<open>Inl\<close> an error code.
\<close>

fun copy_items :: "snap_env \<Rightarrow> snapshot \<Rightarrow> i32 list \<Rightarrow> int list \<Rightarrow> CSnapshotBuilder \<Rightarrow> (int + CSnapshotBuilder) option" where
  "copy_items e pFrom Deleted [] b = Some (Inr b)"
| "copy_items e pFrom Deleted (i # is) b =
     (let n = nat (GetItemSize pFrom i) div 4
      in if \<not> in_mem pFrom (GetItem pFrom i) 1 then None
         else if ItemKey pFrom i \<in> set Deleted then copy_items e pFrom Deleted is b
         else case NewItem e b (type_of (ItemKey pFrom i)) (id_of (ItemKey pFrom i)) (GetItemSize pFrom i) of
             None \<Rightarrow> None
           | Some (None, b) \<Rightarrow> Some (Inl (-301))
           | Some (Some p, b) \<Rightarrow>
               if \<not> in_mem pFrom (GetItem pFrom i + 1) n then None
               else copy_items e pFrom Deleted is (b\<lparr>b_Data := write_words (b_Data b) p (ItemData pFrom i n)\<rparr>))"

text \<open>The size of an updated item in bytes, and the position behind it; \<open>pEnd\<close> is in bytes.\<close>

definition update_size :: "CSnapshotDelta \<Rightarrow> bool \<Rightarrow> i32 list \<Rightarrow> int \<Rightarrow> int \<Rightarrow> int \<Rightarrow> (int + int \<times> int) option" where
  "update_size sd Sixup src pEnd Type pos =
     (let pItemSizes = (if Sixup then sd_ItemSizes7 sd else sd_ItemSizes sd)
      in if Type < MAX_NETOBJSIZES \<and> pItemSizes Type \<noteq> 0 then Some (Inr (pItemSizes Type, pos))
         else if 4 * (pos + 1) > pEnd then Some (Inl (-103))
         else if \<not> in_mem src pos 1 then None
         else if sint (word_at src pos) < 0 \<or> sint (word_at src pos) > 536870911 then Some (Inl (-204))
         else Some (Inr (sint (word_at src pos) * 4, pos + 1)))"

text \<open>536870911 is the largest \<open>int\<close> divided by its size.\<close>

text \<open>
  Writing an updated item: the difference to the old one, or the plain data. \<open>ItemSize\<close> comes from the
  delta, and the code compares it neither with the item of \<open>pFrom\<close> it reads nor with the item of the
  builder it writes. A write over the following items is that; one behind the \<open>MAX_SIZE\<close> bytes of \<open>m_aData\<close>,
  or a read behind \<open>pFrom\<close>, is \<open>None\<close>.
\<close>

definition apply_update :: "snapshot \<Rightarrow> i32 list \<Rightarrow> int \<Rightarrow> int \<Rightarrow> int \<Rightarrow> int \<Rightarrow> nat \<Rightarrow> CSnapshotBuilder \<Rightarrow> CSnapshotDelta \<Rightarrow>
    (CSnapshotBuilder \<times> CSnapshotDelta) option" where
  "apply_update pFrom src Type ID ItemSize pos p b sd =
     (let n = nat ItemSize div 4;
          FromIndex = GetItemIndex pFrom (make_key Type ID);
          (out, rate) =
            (if FromIndex \<noteq> -1
             then UndiffItem (ItemData pFrom FromIndex n) (read_words src pos n) (sd_DataRate sd Type)
             else (read_words src pos n, sd_DataRate sd Type + word_of_int (ItemSize * 8)))
      in if \<not> in_mem src pos n \<or> FromIndex \<noteq> -1 \<and> \<not> in_mem pFrom (GetItem pFrom FromIndex + 1) n then None
         else if 4 * (int p + int n) > MAX_SIZE then None
         else Some (b\<lparr>b_Data := write_words (b_Data b) p out\<rparr>,
           sd\<lparr>sd_DataRate := (sd_DataRate sd)(Type := rate),
              sd_DataUpdates := (sd_DataUpdates sd)(Type := sd_DataUpdates sd Type + 1)\<rparr>))"

fun update_items :: "snap_env \<Rightarrow> snapshot \<Rightarrow> i32 list \<Rightarrow> int \<Rightarrow> bool \<Rightarrow> nat \<Rightarrow> int \<Rightarrow> CSnapshotBuilder \<Rightarrow> CSnapshotDelta \<Rightarrow>
    (int + CSnapshotBuilder) option \<times> CSnapshotDelta" where
  "update_items e pFrom src pEnd Sixup 0 pos b sd = (Some (Inr b), sd)"
| "update_items e pFrom src pEnd Sixup (Suc k) pos b sd =
     (if 4 * (pos + 2) > pEnd then (Some (Inl (-102)), sd)
      else if \<not> in_mem src pos 2 then (None, sd)
      else
        let Type = sint (word_at src pos); ID = sint (word_at src (pos + 1))
        in if Type < 0 \<or> Type > MAX_TYPE then (Some (Inl (-202)), sd)
           else if ID < 0 \<or> ID > MAX_ID then (Some (Inl (-203)), sd)
           else case update_size sd Sixup src pEnd Type (pos + 2) of
             None \<Rightarrow> (None, sd)
           | Some (Inl err) \<Rightarrow> (Some (Inl err), sd)
           | Some (Inr (ItemSize, pos)) \<Rightarrow>
               if ItemSize < 0 \<or> pEnd - 4 * pos < ItemSize then (Some (Inl (-205)), sd)
               else case (case GetItemData b (make_key Type ID) of
                            Some p \<Rightarrow> Some (Some p, b) | None \<Rightarrow> NewItem e b Type ID ItemSize) of
                 None \<Rightarrow> (None, sd)
               | Some (None, b) \<Rightarrow> (Some (Inl (-302)), sd)
               | Some (Some p, b) \<Rightarrow>
                   (case apply_update pFrom src Type ID ItemSize pos p b sd of
                      None \<Rightarrow> (None, sd)
                    | Some (b, sd) \<Rightarrow> update_items e pFrom src pEnd Sixup k (pos + int (nat ItemSize div 4)) b sd))"

text \<open>\<open>src\<close> is the memory from \<open>pSrcData\<close> on; \<open>pEnd\<close> is \<open>DataSize\<close>.\<close>

definition UnpackDelta :: "snap_env \<Rightarrow> CSnapshotDelta \<Rightarrow> snapshot \<Rightarrow> i32 list \<Rightarrow> int \<Rightarrow> bool \<Rightarrow>
    (int + snapshot) option \<times> CSnapshotDelta" where
  "UnpackDelta e sd pFrom src pEnd Sixup =
     (let NumDeletedItems = sint (word_at src 0);
          NumUpdateItems = sint (word_at src 1)
      in if \<not> in_mem src 0 2 \<or> \<not> in_mem pFrom 0 2 then (None, sd)
         else if NumDeletedItems < 0 then (Some (Inl (-201)), sd)
         else if 4 * (3 + NumDeletedItems) > pEnd then (Some (Inl (-101)), sd)
         else if \<not> in_mem src 3 (nat NumDeletedItems) then (None, sd)
         else
           let Deleted = read_words src 3 (nat NumDeletedItems)
           in case copy_items e pFrom Deleted (indices pFrom) (Builder_Init e False new_builder) of
                None \<Rightarrow> (None, sd)
              | Some (Inl err) \<Rightarrow> (Some (Inl err), sd)
              | Some (Inr b) \<Rightarrow>
                  case update_items e pFrom src pEnd Sixup (nat NumUpdateItems) (3 + NumDeletedItems) b sd of
                    (None, sd) \<Rightarrow> (None, sd)
                  | (Some (Inl err), sd) \<Rightarrow> (Some (Inl err), sd)
                  | (Some (Inr b), sd) \<Rightarrow> (map_option Inr (Finish b), sd))"

section \<open>Storage\<close>

text \<open>The doubly linked list of holders, the oldest first.\<close>

record CHolder =
  ho_Tick :: int
  ho_Tagtime :: int
  ho_Snap :: snapshot
  ho_AltSnap :: "snapshot option"

definition PurgeUntil :: "int \<Rightarrow> CHolder list \<Rightarrow> CHolder list" where
  "PurgeUntil Tick hs = dropWhile (\<lambda>h. ho_Tick h < Tick) hs"

definition PurgeAll :: "CHolder list \<Rightarrow> CHolder list" where
  "PurgeAll hs = []"

text \<open>An alternative snapshot of size 0 is none.\<close>

definition Storage_Add :: "int \<Rightarrow> int \<Rightarrow> snapshot \<Rightarrow> snapshot \<Rightarrow> CHolder list \<Rightarrow> CHolder list" where
  "Storage_Add Tick Tagtime Data AltData hs =
     hs @ [\<lparr>ho_Tick = Tick, ho_Tagtime = Tagtime, ho_Snap = Data,
            ho_AltSnap = (if AltData = [] then None else Some AltData)\<rparr>]"

definition Storage_Get :: "int \<Rightarrow> CHolder list \<Rightarrow> CHolder option" where
  "Storage_Get Tick hs = find (\<lambda>h. ho_Tick h = Tick) hs"

section \<open>Snapshots as lists of items\<close>

text \<open>
  What the memory of a snapshot stands for: a list of items, each a key and its data. \<open>snap_of\<close> lays
  such a list out the way the builder does.
\<close>

type_synonym items = "(i32 \<times> i32 list) list"

definition flat :: "items \<Rightarrow> i32 list" where
  "flat its = concat (map (\<lambda>(k, d). k # d) its)"

fun offs :: "int \<Rightarrow> items \<Rightarrow> int list" where
  "offs p [] = []"
| "offs p ((k, d) # its) = p # offs (p + 4 + 4 * int (length d)) its"

definition snap_of :: "items \<Rightarrow> snapshot" where
  "snap_of its = word_of_int (4 * int (length (flat its))) # word_of_int (int (length its)) #
     map word_of_int (offs 0 its) @ flat its"

definition fits :: "items \<Rightarrow> bool" where
  "fits its \<longleftrightarrow> length its \<le> 1024 \<and> 8 + 4 * length its + 4 * length (flat its) \<le> 65536"

lemma flat_simps [simp]: "flat [] = []" "flat (x # its) = fst x # snd x @ flat its" "flat (xs @ ys) = flat xs @ flat ys"
  by (simp_all add: flat_def split_beta)

lemma length_offs [simp]: "length (offs p its) = length its"
  by (induction p its rule: offs.induct) simp_all

lemma offs_append: "offs p (xs @ ys) = offs p xs @ offs (p + 4 * int (length (flat xs))) ys"
  by (induction p xs rule: offs.induct) (simp_all add: algebra_simps)

lemma sint_small: "0 \<le> x \<Longrightarrow> x < 2 ^ 31 \<Longrightarrow> sint (word_of_int x :: i32) = x"
  by (simp add: sint_sbintrunc' signed_take_bit_int_eq_self)

lemma sint_small_nat: "n < 2 ^ 31 \<Longrightarrow> sint (of_nat n :: i32) = int n"
  using sint_small [of "int n"] by simp

lemma word_at_simps [simp]:
  "word_at (x # xs) 0 = x"
  "0 \<le> k \<Longrightarrow> word_at (x # xs) (1 + k) = word_at xs k"
  by (auto simp: word_at_def nat_add_distrib nth_Cons split: nat.splits)

lemma word_at_append: "word_at (xs @ ys) (int (length xs) + k) =
    (if 0 \<le> k then word_at ys k else word_at xs (int (length xs) + k))"
proof (cases "0 \<le> k")
  case True
  then have "nat (int (length xs) + k) = length xs + nat k" by linarith
  with True show ?thesis by (simp add: word_at_def nth_append)
next
  case False
  then show ?thesis by (auto simp: word_at_def nth_append)
qed

lemma word_at_append_nth: "word_at (xs @ y # ys) (int (length xs)) = y"
  using word_at_append [of xs "y # ys" 0] by simp

lemma read_words_block: "read_words (xs @ ws @ ys) (int (length xs)) (length ws) = ws"
proof (rule nth_equalityI)
  fix i assume i: "i < length (read_words (xs @ ws @ ys) (int (length xs)) (length ws))"
  then have "i < length ws" by (simp add: read_words_def)
  then show "read_words (xs @ ws @ ys) (int (length xs)) (length ws) ! i = ws ! i"
    by (simp add: read_words_def word_at_append) (simp add: word_at_def nth_append)
qed (simp add: read_words_def)

lemma length_read_words [simp]: "length (read_words s p n) = n"
  by (simp add: read_words_def)

lemma fits_sub: "fits (xs @ ys) \<Longrightarrow> fits xs"
  by (simp add: fits_def)

lemma word_at_1: "word_at (x # y # zs) 1 = y"
  by (simp add: word_at_def)

lemma word_at_2: "0 \<le> k \<Longrightarrow> word_at (x # y # zs) (2 + k) = word_at zs k"
proof -
  assume "0 \<le> k"
  then have "word_at (x # y # zs) (1 + (1 + k)) = word_at zs k" by (simp only: word_at_simps(2) add_nonneg_nonneg zero_le_one)
  then show ?thesis by (simp add: add.assoc [symmetric])
qed

text \<open>Reading the laid out list.\<close>

lemma DataSize_snap [simp]: "fits its \<Longrightarrow> DataSize (snap_of its) = 4 * int (length (flat its))"
  unfolding DataSize_def snap_of_def word_at_simps(1) by (rule sint_small) (simp_all add: fits_def)

lemma NumItems_snap [simp]: "fits its \<Longrightarrow> NumItems (snap_of its) = int (length its)"
  unfolding NumItems_def snap_of_def word_at_1 by (rule sint_small) (simp_all add: fits_def)

lemma indices_snap [simp]: "fits its \<Longrightarrow> indices (snap_of its) = map int [0..<length its]"
  by (simp add: indices_def)

lemma Offset_snap:
  assumes "fits (xs @ y # ys)"
  shows "Offset (snap_of (xs @ y # ys)) (int (length xs)) = 4 * int (length (flat xs))"
proof -
  obtain k d where y: "y = (k, d)" by (cases y)
  have "word_at (map word_of_int (offs 0 (xs @ y # ys)) @ flat (xs @ y # ys)) (int (length xs)) =
      (word_of_int (4 * int (length (flat xs))) :: i32)"
    using word_at_append_nth [of "map word_of_int (offs 0 xs)"] by (simp add: offs_append y)
  then show ?thesis
    unfolding Offset_def snap_of_def
    by (subst word_at_2) (use assms sint_small [of "4 * int (length (flat xs))"] in \<open>simp_all add: fits_def\<close>)
qed

lemma GetItem_snap:
  assumes "fits (xs @ y # ys)"
  shows "GetItem (snap_of (xs @ y # ys)) (int (length xs)) = 2 + int (length (xs @ y # ys)) + int (length (flat xs))"
  using assms by (simp add: GetItem_def Offset_snap)

lemma snap_split: "snap_of (xs @ y # ys) =
    (word_of_int (4 * int (length (flat (xs @ y # ys)))) # word_of_int (int (length (xs @ y # ys))) #
      map word_of_int (offs 0 (xs @ y # ys)) @ flat xs) @ fst y # snd y @ flat ys"
  by (simp add: snap_of_def)

lemma ItemKey_snap:
  assumes "fits (xs @ y # ys)"
  shows "ItemKey (snap_of (xs @ y # ys)) (int (length xs)) = fst y"
proof -
  let ?pre = "word_of_int (4 * int (length (flat (xs @ y # ys)))) # word_of_int (int (length (xs @ y # ys))) #
      map word_of_int (offs 0 (xs @ y # ys)) @ flat xs"
  have "GetItem (snap_of (xs @ y # ys)) (int (length xs)) = int (length ?pre)"
    using GetItem_snap [OF assms] by simp
  then show ?thesis
    unfolding ItemKey_def by (simp only: snap_split word_at_append_nth)
qed

lemma GetItemSize_snap:
  assumes fits: "fits (xs @ y # ys)"
  shows "GetItemSize (snap_of (xs @ y # ys)) (int (length xs)) = 4 * int (length (snd y))"
proof (cases ys)
  case Nil
  then show ?thesis using fits by (simp add: GetItemSize_def Offset_snap)
next
  case (Cons z zs)
  with fits have fits': "fits ((xs @ [y]) @ z # zs)" by simp
  have "Offset (snap_of (xs @ y # ys)) (int (length xs) + 1) = 4 * int (length (flat (xs @ [y])))"
    using Offset_snap [OF fits'] Cons by (simp add: ac_simps)
  then show ?thesis using fits Cons by (simp add: GetItemSize_def Offset_snap)
qed

lemma ItemData_snap:
  assumes "fits (xs @ y # ys)"
  shows "ItemData (snap_of (xs @ y # ys)) (int (length xs)) (length (snd y)) = snd y"
proof -
  let ?pre = "word_of_int (4 * int (length (flat (xs @ y # ys)))) # word_of_int (int (length (xs @ y # ys))) #
      map word_of_int (offs 0 (xs @ y # ys)) @ flat xs @ [fst y]"
  have "snap_of (xs @ y # ys) = ?pre @ snd y @ flat ys" by (simp add: snap_of_def)
  moreover have "GetItem (snap_of (xs @ y # ys)) (int (length xs)) + 1 = int (length ?pre)"
    using GetItem_snap [OF assms] by simp
  ultimately show ?thesis
    unfolding ItemData_def by (simp only: read_words_block)
qed

lemma item_in_mem:
  assumes "fits (xs @ y # ys)"
  shows "in_mem (snap_of (xs @ y # ys)) (GetItem (snap_of (xs @ y # ys)) (int (length xs))) 1"
    "in_mem (snap_of (xs @ y # ys)) (GetItem (snap_of (xs @ y # ys)) (int (length xs)) + 1) (length (snd y))"
  unfolding in_mem_def GetItem_snap [OF assms] by (simp_all add: snap_of_def)

text \<open>The same by index.\<close>

lemma split_nth: "i < length its \<Longrightarrow> its = take i its @ its ! i # drop (Suc i) its"
  by (simp add: id_take_nth_drop)

lemma snap_nth:
  assumes "fits its" "i < length its"
  shows "ItemKey (snap_of its) (int i) = fst (its ! i)"
    "GetItemSize (snap_of its) (int i) = 4 * int (length (snd (its ! i)))"
    "ItemData (snap_of its) (int i) (length (snd (its ! i))) = snd (its ! i)"
    "in_mem (snap_of its) (GetItem (snap_of its) (int i) + 1) (length (snd (its ! i)))"
proof -
  let ?xs = "take i its" and ?ys = "drop (Suc i) its"
  have eq: "?xs @ its ! i # ?ys = its" using split_nth [OF assms(2)] by simp
  have len: "length ?xs = i" using assms(2) by simp
  have fits: "fits (?xs @ its ! i # ?ys)" using assms(1) by (simp only: eq)
  show "ItemKey (snap_of its) (int i) = fst (its ! i)"
    using ItemKey_snap [OF fits] by (simp only: eq len)
  show "GetItemSize (snap_of its) (int i) = 4 * int (length (snd (its ! i)))"
    using GetItemSize_snap [OF fits] by (simp only: eq len)
  show "ItemData (snap_of its) (int i) (length (snd (its ! i))) = snd (its ! i)"
    using ItemData_snap [OF fits] by (simp only: eq len)
  show "in_mem (snap_of its) (GetItem (snap_of its) (int i) + 1) (length (snd (its ! i)))"
    using item_in_mem(2) [OF fits] by (simp only: eq len)
qed

lemma nat_size [simp]: "nat (4 * int n) div 4 = n"
proof -
  have "nat (4 * int n) = 4 * n" by linarith
  then show ?thesis by simp
qed

lemma sum_list_concat: "sum_list (concat xss) = sum_list (map sum_list xss)"
  by (induction xss) simp_all

lemma Crc_snap:
  assumes fits: "fits its"
  shows "Crc (snap_of its) = sum_list (map (\<lambda>x. sum_list (snd x)) its)"
proof -
  have "map (\<lambda>i. ItemData (snap_of its) i (nat (GetItemSize (snap_of its) i) div 4)) (indices (snap_of its)) =
      map (\<lambda>i. snd (its ! i)) [0..<length its]"
    by (simp add: snap_nth fits)
  also have "\<dots> = map snd its"
    by (simp add: map_nth [of its, symmetric, THEN arg_cong [where f = "map snd"], unfolded map_map comp_def])
  finally have "Crc (snap_of its) = sum_list (concat (map snd its))"
    by (simp only: Crc_def)
  then show ?thesis by (simp add: sum_list_concat comp_def)
qed

section \<open>Searching and hashing\<close>

lemma find_map: "find P (map f xs) = map_option f (find (\<lambda>x. P (f x)) xs)"
  by (induction xs) simp_all

lemma find_filter: "(\<And>x. P x \<Longrightarrow> Q x) \<Longrightarrow> find P (filter Q xs) = find P xs"
  by (induction xs) auto

lemma find_take: "find P (take n xs) = Some x \<Longrightarrow> find P xs = Some x"
  by (induction xs arbitrary: n) (auto simp: take_Cons split: nat.splits if_splits)

lemma foldl_hash_insert:
  "foldl (\<lambda>h i. hash_insert h (key i) i) (\<lambda>_. []) is b =
     take HASHLIST_BUCKET_SIZE (filter (\<lambda>(k, i). CalcHashId k = b) (map (\<lambda>i. (key i, i)) is))"
proof (induction "is" arbitrary: b rule: rev_induct)
  case (snoc i "is")
  then show ?case by (auto simp: hash_insert_def Let_def)
qed simp

lemma GenerateHash_bucket:
  "GenerateHash s b = take HASHLIST_BUCKET_SIZE (filter (\<lambda>(k, i). CalcHashId k = b) (map (\<lambda>i. (ItemKey s i, i)) (indices s)))"
  by (simp only: GenerateHash_def foldl_hash_insert)

definition bucket_ok :: "snapshot \<Rightarrow> bool" where
  "bucket_ok s \<longleftrightarrow>
     list_all (\<lambda>b. length (filter (\<lambda>i. CalcHashId (ItemKey s i) = b) (indices s)) \<le> HASHLIST_BUCKET_SIZE) [0..<256]"

lemma bucket_ok_small: "length (indices s) \<le> 64 \<Longrightarrow> bucket_ok s"
  by (auto simp: bucket_ok_def HASHLIST_BUCKET_SIZE_def list_all_iff intro: order_trans [OF length_filter_le])

lemma CalcHashId_less: "CalcHashId k < 256"
  by (simp add: CalcHashId_def)

lemma find_key: "find (\<lambda>(k, i). k = Key) (filter (\<lambda>(k, i). CalcHashId k = CalcHashId Key) (map (\<lambda>i. (ItemKey s i, i)) is)) =
    map_option (\<lambda>i. (ItemKey s i, i)) (find (\<lambda>i. ItemKey s i = Key) is)"
  by (subst find_filter) (auto simp: find_map)

lemma hashed_linear:
  assumes "bucket_ok s"
  shows "GetItemIndexHashed Key (GenerateHash s) = GetItemIndex s Key"
proof -
  have "length (filter (\<lambda>i. CalcHashId (ItemKey s i) = CalcHashId Key) (indices s)) \<le> HASHLIST_BUCKET_SIZE"
    using assms CalcHashId_less by (simp add: bucket_ok_def list_all_iff)
  then have "GenerateHash s (CalcHashId Key) =
      filter (\<lambda>(k, i). CalcHashId k = CalcHashId Key) (map (\<lambda>i. (ItemKey s i, i)) (indices s))"
    unfolding GenerateHash_bucket by (intro take_all) (simp add: filter_map comp_def)
  then show ?thesis
    by (simp add: GetItemIndexHashed_def GetItemIndex_def find_key split: option.splits)
qed

lemma hashed_sound:
  assumes "GetItemIndexHashed Key (GenerateHash s) \<noteq> -1"
  shows "GetItemIndexHashed Key (GenerateHash s) = GetItemIndex s Key"
proof -
  let ?P = "\<lambda>(k :: i32, i :: int). k = Key"
  obtain k i where f: "find ?P (GenerateHash s (CalcHashId Key)) = Some (k, i)"
    using assms by (auto simp: GetItemIndexHashed_def split: option.splits)
  then have "map_option (\<lambda>i. (ItemKey s i, i)) (find (\<lambda>i. ItemKey s i = Key) (indices s)) = Some (k, i)"
    unfolding GenerateHash_bucket find_key [symmetric] by (rule find_take)
  with f show ?thesis by (auto simp: GetItemIndexHashed_def GetItemIndex_def)
qed

text \<open>The keys of a list of items.\<close>

abbreviation keys :: "items \<Rightarrow> i32 list" where
  "keys its \<equiv> map fst its"

lemma find_upt_None: "find P [0..<n] = None \<longleftrightarrow> (\<forall>i<n. \<not> P i)"
  by (auto simp: find_None_iff)

lemma find_upt_Some: "find P [0..<n] = Some i \<longleftrightarrow> i < n \<and> P i \<and> (\<forall>j<i. \<not> P j)"
  by (auto simp: find_Some_iff)

lemma GetItemIndex_absent:
  assumes "fits its" "k \<notin> set (keys its)"
  shows "GetItemIndex (snap_of its) k = -1"
proof -
  have "find (\<lambda>i. ItemKey (snap_of its) (int i) = k) [0..<length its] = None"
    using assms by (auto simp: find_upt_None snap_nth)
  then show ?thesis using assms(1) by (simp add: GetItemIndex_def find_map)
qed

lemma GetItemIndex_present:
  assumes "fits its" "distinct (keys its)" "i < length its"
  shows "GetItemIndex (snap_of its) (fst (its ! i)) = int i"
proof -
  have "find (\<lambda>j. ItemKey (snap_of its) (int j) = fst (its ! i)) [0..<length its] = Some i"
    using assms nth_eq_iff_index_eq [OF assms(2)] by (force simp: find_upt_Some snap_nth)
  then show ?thesis using assms(1) by (simp add: GetItemIndex_def find_map)
qed

section \<open>Differences\<close>

lemma undiff_diff: "length past = length current \<Longrightarrow> fst (UndiffItem past (fst (DiffItem past current)) rate) = current"
  by (induction past current arbitrary: rate rule: DiffItem.induct) (simp_all add: Let_def split_beta)

lemma length_DiffItem: "length past = length current \<Longrightarrow> length (fst (DiffItem past current)) = length current"
  by (induction past current rule: DiffItem.induct) (simp_all add: Let_def split_beta)

lemma or_zero_iff: "(a :: 'a::len word) OR b = 0 \<longleftrightarrow> a = 0 \<and> b = 0"
  by (auto simp: bit_eq_iff bit_or_iff)

lemma diff_needed: "length past = length current \<Longrightarrow> snd (DiffItem past current) = 0 \<longleftrightarrow> past = current"
  by (induction past current rule: DiffItem.induct) (auto simp: Let_def split_beta or_zero_iff)

lemma length_UndiffItem: "length past = length diff \<Longrightarrow> length (fst (UndiffItem past diff rate)) = length diff"
  by (induction past diff rate rule: UndiffItem.induct) (simp_all add: Let_def split_beta)

section \<open>The builder as a list of items\<close>

definition builds :: "CSnapshotBuilder \<Rightarrow> items \<Rightarrow> bool" where
  "builds b its \<longleftrightarrow> b_Data b = flat its \<and> b_Offsets b = offs 0 its \<and> \<not> b_Sixup b"

lemma builds_new [simp]: "builds (Builder_Init e False new_builder) []"
  by (simp add: builds_def Builder_Init_def new_builder_def)

lemma Finish_builds: "builds b its \<Longrightarrow> fits its \<Longrightarrow> Finish b = Some (snap_of its)"
  by (simp add: Finish_def builds_def fits_def snap_of_def MAX_ITEMS_def MAX_SIZE_def)

lemma builds_append:
  assumes "builds b its" "append_item b Type ID Size = (p, b')"
  shows "builds b' (its @ [(make_key Type ID, replicate (nat Size div 4) 0)]) \<and> p = Some (length (flat its) + 1)"
  using assms by (auto simp: builds_def append_item_def offs_append)

lemma write_words_block: "length ws = length d \<Longrightarrow> write_words (xs @ d @ ys) (length xs) ws = xs @ ws @ ys"
  by (simp add: write_words_def)

lemma offs_data: "length d = length d' \<Longrightarrow> offs p (xs @ (k, d) # ys) = offs p (xs @ (k', d') # ys)"
  by (simp add: offs_append)

lemma builds_write:
  assumes "builds b (xs @ (k, d) # ys)" "length ws = length d" "p = length (flat xs) + 1"
  shows "builds (b\<lparr>b_Data := write_words (b_Data b) p ws\<rparr>) (xs @ (k, ws) # ys)"
proof -
  have "write_words ((flat xs @ [k]) @ d @ flat ys) (length (flat xs @ [k])) ws = (flat xs @ [k]) @ ws @ flat ys"
    by (rule write_words_block) fact
  with assms show ?thesis
    using offs_data [of d ws 0 xs k ys k] by (simp add: builds_def)
qed

lemma builder_key_nth:
  assumes "builds b its" "i < length its"
  shows "builder_key b i = fst (its ! i) \<and> b_Offsets b ! i = 4 * int (length (flat (take i its)))"
proof -
  have len: "length (take i its) = i" using assms(2) by simp
  have eq: "its = take i its @ its ! i # drop (Suc i) its" by (rule split_nth) fact
  have "offs 0 its ! i = 4 * int (length (flat (take i its)))"
    by (subst eq, subst offs_append, cases "its ! i") (use len in \<open>simp add: nth_append\<close>)
  moreover have "word_at (flat its) (int (length (flat (take i its)))) = fst (its ! i)"
    by (subst eq, simp only: flat_simps word_at_append_nth append_Cons)
  ultimately show ?thesis using assms(1) by (simp add: builder_key_def builds_def)
qed

lemma GetItemData_absent: "builds b its \<Longrightarrow> k \<notin> set (keys its) \<Longrightarrow> GetItemData b k = None"
proof -
  assume b: "builds b its" and k: "k \<notin> set (keys its)"
  have len: "length (b_Offsets b) = length its" using b by (simp add: builds_def)
  have "find (\<lambda>i. builder_key b i = k) [0..<length its] = None"
    using builder_key_nth [OF b] k by (auto simp: find_upt_None)
  then show ?thesis by (simp add: GetItemData_def len)
qed

lemma GetItemData_present:
  assumes b: "builds b (xs @ (k, d) # ys)" and k: "k \<notin> set (keys xs)"
  shows "GetItemData b k = Some (length (flat xs) + 1)"
proof -
  let ?its = "xs @ (k, d) # ys"
  have len: "length (b_Offsets b) = length ?its" using b by (simp add: builds_def)
  have key: "builder_key b i = fst (?its ! i)" if "i < length ?its" for i
    using builder_key_nth [OF b that] by simp
  have "find (\<lambda>i. builder_key b i = k) [0..<length ?its] = Some (length xs)"
    unfolding find_upt_Some
  proof (intro conjI allI impI)
    show "length xs < length ?its" by simp
    then show "builder_key b (length xs) = k" using key [of "length xs"] by simp
    fix j assume j: "j < length xs"
    then have "builder_key b j = fst (xs ! j)" using key [of j] by (simp add: nth_append)
    with k j show "builder_key b j \<noteq> k" by force
  qed
  moreover have "b_Offsets b ! length xs = 4 * int (length (flat xs))"
    using builder_key_nth [OF b, of "length xs"] by simp
  ultimately show ?thesis by (simp add: GetItemData_def len)
qed

lemma key_parts: "make_key (type_of k) (id_of k) = k"
proof (rule bit_word_eqI)
  fix n assume n: "n < LENGTH(32)"
  have m: "(0xFFFF :: i32) = mask 16" by (simp add: mask_eq_exp_minus_1)
  have "n = 31" if "31 \<le> n" using that n by simp
  then have "bit k n = bit k 31" if "31 \<le> n" using that by simp
  then show "bit (make_key (type_of k) (id_of k)) n = bit k n"
    using n by (cases "16 \<le> n")
      (auto simp: make_key_def type_of_def id_of_def m bit_simps min_def split: if_splits)
qed

lemma id_of_bounds: "0 \<le> id_of k" "id_of k \<le> MAX_ID" "id_of k \<noteq> -1"
proof -
  have m: "(0xFFFF :: i32) = mask 16" by (simp add: mask_eq_exp_minus_1)
  have "id_of k = take_bit 16 (uint k)"
    by (rule bit_eqI) (auto simp: id_of_def m bit_simps)
  then have "0 \<le> id_of k \<and> id_of k < 65536" using take_bit_int_less_exp [of 16 "uint k"] by simp
  then show "0 \<le> id_of k" "id_of k \<le> MAX_ID" "id_of k \<noteq> -1" by (simp_all add: MAX_ID_def)
qed

lemma type_of_bound: "type_of k \<le> MAX_TYPE"
proof -
  have "sint k < 2 ^ 31" using sint_lt [of k] by simp
  then have "sint k div 65536 \<le> (2 ^ 31 - 1) div 65536" by (intro zdiv_mono1) simp_all
  then show ?thesis by (simp add: type_of_def MAX_TYPE_def drop_bit_eq_div)
qed

lemma NewItem_builds:
  assumes b: "builds b its" and t: "0 \<le> Type" "Type \<le> MAX_TYPE" and id: "ID \<noteq> -1"
    and room: "fits (its @ [(k, d)])" and size: "Size = 4 * int (length d)"
  shows "\<exists>b'. NewItem e b Type ID Size = Some (Some (length (flat its) + 1), b') \<and>
     builds b' (its @ [(make_key Type ID, replicate (length d) 0)])"
proof -
  have plain: "\<not> OFFSET_UUID \<le> Type" using t by (simp add: OFFSET_UUID_def MAX_TYPE_def)
  have "room_for_item b Size" using b room size
    by (simp add: room_for_item_def builds_def fits_def MAX_ITEMS_def MAX_SIZE_def)
  moreover have "\<not> b_Sixup b" using b by (simp add: builds_def)
  ultimately have "NewItem e b Type ID Size = Some (append_item b Type ID Size)"
    using plain t id by (simp add: NewItem_def NewItem_plain_def)
  moreover obtain p b' where a: "append_item b Type ID Size = (p, b')" by (metis surj_pair)
  ultimately show ?thesis using builds_append [OF b a] size by (simp add: nat_size)
qed

text \<open>
  What the hash lists find is what the linear search finds, or nothing; it is the same when no
  bucket has more than 64 keys.
\<close>
theorem hash_lookup_linear:
  "GetItemIndexHashed Key (GenerateHash s) \<in> {-1, GetItemIndex s Key} \<and>
   (bucket_ok s \<longrightarrow> GetItemIndexHashed Key (GenerateHash s) = GetItemIndex s Key)"
  using hashed_sound [of Key s] hashed_linear [of s Key] by blast

lemma hash_lookup_linear_witness:
  "GetItemIndexHashed 0x30002 (GenerateHash (snap_of [(0x10000, [1]), (0x30002, [7])])) =
     GetItemIndex (snap_of [(0x10000, [1]), (0x30002, [7])]) 0x30002"
proof -
  have fits: "fits [(0x10000, [1]), (0x30002, [7])]" by (simp add: fits_def)
  have "bucket_ok (snap_of [(0x10000, [1]), (0x30002, [7])])"
    by (rule bucket_ok_small) (simp add: fits)
  then show ?thesis
    using hash_lookup_linear [of "0x30002" "snap_of [(0x10000, [1]), (0x30002, [7])]"] by blast
qed

end
