(* ===== verification/SnapshotDelta.thy ===== *)
theory SnapshotDelta
  imports Snapshot
begin

text \<open>
  The deltas of \<^verbatim>\<open>src/src/engine/shared/snapshot.cpp\<close>: what \<open>CreateDelta\<close> writes, \<open>UnpackDelta\<close>
  reads back to the same items; whatever is received, the result is an error code or a valid snapshot.
\<close>

section \<open>The delta of two snapshots brings the one to the other\<close>

text \<open>
  What the network code relies on: both snapshots fit and have no key twice, no bucket of the hash
  lists overflows, an item has the size of the table and keeps it.
\<close>

definition item_ok :: "(int \<Rightarrow> int) \<Rightarrow> i32 \<times> i32 list \<Rightarrow> bool" where
  "item_ok sizes x \<longleftrightarrow> 0 \<le> type_of (fst x) \<and>
     (type_of (fst x) < MAX_NETOBJSIZES \<and> sizes (type_of (fst x)) \<noteq> 0 \<longrightarrow>
        sizes (type_of (fst x)) = 4 * int (length (snd x)))"

definition delta_pre :: "(int \<Rightarrow> int) \<Rightarrow> items \<Rightarrow> items \<Rightarrow> bool" where
  "delta_pre sizes A B \<longleftrightarrow>
     fits A \<and> fits B \<and> distinct (keys A) \<and> distinct (keys B) \<and>
     bucket_ok (snap_of A) \<and> bucket_ok (snap_of B) \<and> list_all (item_ok sizes) (A @ B) \<and>
     list_all (\<lambda>x. list_all (\<lambda>y. fst x = fst y \<longrightarrow> length (snd x) = length (snd y)) B) A"

text \<open>Items with the data of another list, where it has their key.\<close>

definition override :: "items \<Rightarrow> items \<Rightarrow> items" where
  "override C B = map (\<lambda>(k, d). (k, case map_of B k of Some d' \<Rightarrow> d' | None \<Rightarrow> d)) C"

text \<open>The builder after the updates \<open>part\<close> of the delta from \<open>A\<close> to \<open>B\<close>.\<close>

definition merged :: "items \<Rightarrow> items \<Rightarrow> items \<Rightarrow> items" where
  "merged A B part = override (filter (\<lambda>x. fst x \<in> set (keys B)) A) part @
     filter (\<lambda>x. fst x \<notin> set (keys A)) part"

lemma keys_override [simp]: "keys (override C B) = keys C"
  by (simp add: override_def comp_def split_beta)

lemma override_append [simp]: "override (xs @ ys) B = override xs B @ override ys B"
  by (simp add: override_def)

lemma override_Nil [simp]: "override C [] = C" "override [] B = []"
  by (simp_all add: override_def)

lemma override_Cons: "override ((k, d) # C) B = (k, case map_of B k of Some d' \<Rightarrow> d' | None \<Rightarrow> d) # override C B"
  by (simp add: override_def)

lemma override_snoc_other: "k \<notin> set (keys C) \<Longrightarrow> override C (part @ [(k, d)]) = override C part"
  by (induction C) (auto simp: override_def map_add_def split: option.splits)

lemma merged_Nil [simp]: "merged A B [] = filter (\<lambda>x. fst x \<in> set (keys B)) A"
  by (simp add: merged_def)

lemma merged_snoc_new: "k \<notin> set (keys A) \<Longrightarrow> merged A B (part @ [(k, d)]) = merged A B part @ [(k, d)]"
proof -
  let ?C = "filter (\<lambda>x. fst x \<in> set (keys B)) A"
  assume k: "k \<notin> set (keys A)"
  then have "override ?C (part @ [(k, d)]) = override ?C part" by (intro override_snoc_other) auto
  with k show ?thesis by (simp add: merged_def)
qed

lemma split_key:
  assumes "distinct (keys A)" "(k, d) \<in> set A"
  shows "\<exists>xs ys. A = xs @ (k, d) # ys \<and> k \<notin> set (keys xs) \<and> k \<notin> set (keys ys)"
proof -
  obtain xs ys where A: "A = xs @ (k, d) # ys" using split_list [OF assms(2)] by blast
  then have "k \<notin> set (keys xs) \<and> k \<notin> set (keys ys)" using assms(1) by auto
  with A show ?thesis by blast
qed

lemma merged_old:
  assumes "distinct (keys A)" "(k, d0) \<in> set A" "k \<in> set (keys B)" "k \<notin> set (keys part)"
  shows "\<exists>xs ys. merged A B part = xs @ (k, d0) # ys \<and> merged A B (part @ [(k, d)]) = xs @ (k, d) # ys \<and>
     k \<notin> set (keys xs)"
proof -
  let ?keep = "filter (\<lambda>x. fst x \<in> set (keys B))" and ?new = "filter (\<lambda>x. fst x \<notin> set (keys A)) part"
  obtain xs ys where A: "A = xs @ (k, d0) # ys" "k \<notin> set (keys xs)" "k \<notin> set (keys ys)"
    using split_key [OF assms(1,2)] by blast
  have part: "map_of part k = None" using assms(4) by (simp add: map_of_eq_None_iff)
  have snoc: "map_of (part @ [(k, d)]) k = Some d" using part by (simp add: map_add_def)
  have keep: "?keep A = ?keep xs @ (k, d0) # ?keep ys" using assms(3) by (simp add: A(1))
  have new: "filter (\<lambda>x. fst x \<notin> set (keys A)) (part @ [(k, d)]) = ?new" by (simp add: A(1))
  have o: "override (?keep xs) (part @ [(k, d)]) = override (?keep xs) part"
    "override (?keep ys) (part @ [(k, d)]) = override (?keep ys) part"
    by (rule override_snoc_other, use A in auto)+
  have "merged A B part = override (?keep xs) part @ (k, d0) # (override (?keep ys) part @ ?new)"
    by (simp only: merged_def keep override_append override_Cons part option.case append_assoc append_Cons)
  moreover have "merged A B (part @ [(k, d)]) = override (?keep xs) part @ (k, d) # (override (?keep ys) part @ ?new)"
    by (simp only: merged_def keep new override_append override_Cons o snoc append_assoc append_Cons option.case)
  moreover have "k \<notin> set (keys (override (?keep xs) part))" using A(2) by auto
  ultimately show ?thesis by blast
qed

lemma mset_merged:
  assumes "distinct (keys A)" "distinct (keys B)"
  shows "mset (merged A B B) = mset B"
proof (rule set_eq_iff_mset_eq_distinct [THEN iffD1])
  have "keys (merged A B B) = filter (\<lambda>k. k \<in> set (keys B)) (keys A) @ filter (\<lambda>k. k \<notin> set (keys A)) (keys B)"
    by (simp add: merged_def filter_map comp_def)
  then have "distinct (keys (merged A B B))" using assms by auto
  then show "distinct (merged A B B)" "distinct B" using assms by (simp_all add: distinct_map)
  show "set (merged A B B) = set B"
  proof (intro equalityI subsetI)
    fix x assume x: "x \<in> set (merged A B B)"
    show "x \<in> set B"
    proof (cases "x \<in> set (override (filter (\<lambda>x. fst x \<in> set (keys B)) A) B)")
      case True
      then obtain y where y: "fst y \<in> set (keys B)"
          "x = (case y of (k, d) \<Rightarrow> (k, case map_of B k of Some d' \<Rightarrow> d' | None \<Rightarrow> d))"
        unfolding override_def set_map by auto
      then obtain k d where kd: "k \<in> set (keys B)" "x = (k, case map_of B k of Some d' \<Rightarrow> d' | None \<Rightarrow> d)"
        by (cases y) simp
      then obtain d' where "map_of B k = Some d'" by (metis map_of_eq_None_iff not_None_eq list.set_map)
      with kd(2) show ?thesis by (simp add: map_of_SomeD)
    next
      case False
      with x show ?thesis by (simp add: merged_def)
    qed
  next
    fix x assume x: "x \<in> set B"
    then have map_of: "map_of B (fst x) = Some (snd x)" using assms(2) by simp
    show "x \<in> set (merged A B B)"
    proof (cases "fst x \<in> set (keys A)")
      case True
      then obtain d where "(fst x, d) \<in> set (filter (\<lambda>x. fst x \<in> set (keys B)) A)" using x by auto
      then have "(fst x, snd x) \<in> set (override (filter (\<lambda>x. fst x \<in> set (keys B)) A) B)"
        unfolding override_def set_map by (rule rev_image_eqI) (simp add: map_of)
      then show ?thesis by (simp add: merged_def)
    qed (simp add: x merged_def)
  qed
qed

lemma length_flat: "length (flat its) = sum_mset (image_mset (\<lambda>x. Suc (length (snd x))) (mset its))"
  by (induction its) simp_all

lemma fits_mset: "mset xs = mset ys \<Longrightarrow> fits xs = fits ys"
proof -
  assume m: "mset xs = mset ys"
  have "length (flat xs) = length (flat ys)" by (simp only: length_flat m)
  then show ?thesis using mset_eq_length [OF m] by (simp add: fits_def)
qed

lemma Crc_mset: "mset xs = mset ys \<Longrightarrow> fits xs \<Longrightarrow> Crc (snap_of xs) = Crc (snap_of ys)"
proof -
  assume m: "mset xs = mset ys" and f: "fits xs"
  have "sum_list (map (\<lambda>x. sum_list (snd x)) xs) = sum_list (map (\<lambda>x. sum_list (snd x)) ys)"
    by (simp only: m mset_map flip: sum_mset_sum_list)
  then show ?thesis using f fits_mset [OF m] by (simp add: Crc_snap)
qed

lemma length_flat_override:
  assumes "\<And>k d d'. (k, d) \<in> set C \<Longrightarrow> map_of B k = Some d' \<Longrightarrow> length d' = length d"
  shows "length (flat (override C B)) = length (flat C)"
  using assms
proof (induction C)
  case (Cons x C)
  obtain k d where x: "x = (k, d)" by (cases x)
  have "length (flat (override C B)) = length (flat C)" using Cons by (meson list.set_intros(2))
  moreover have "map_of B k = Some d' \<Longrightarrow> length d' = length d" for d' using Cons.prems [of k d d'] by (simp add: x)
  ultimately show ?case by (auto simp: x override_Cons split: option.split)
qed simp

section \<open>Copying what was not deleted\<close>

lemma copy_items_builds:
  assumes "fits A" "list_all (item_ok sizes) A" "A = pre @ rest" "builds b its"
    and "fits (its @ filter (\<lambda>x. fst x \<notin> set Del) rest)"
  shows "\<exists>b'. copy_items e (snap_of A) Del (map int [length pre..<length A]) b = Some (Inr b') \<and>
     builds b' (its @ filter (\<lambda>x. fst x \<notin> set Del) rest)"
  using assms
proof (induction rest arbitrary: pre b its)
  case Nil
  then show ?case by simp
next
  case (Cons x rest)
  have upt: "[length pre..<length A] = length pre # [length (pre @ [x])..<length A]"
    using Cons.prems(3) by (subst upt_conv_Cons) simp_all
  have fits: "fits (pre @ x # rest)" using Cons.prems(1,3) by simp
  note item = ItemKey_snap [OF fits, folded Cons.prems(3)] GetItemSize_snap [OF fits, folded Cons.prems(3)]
    ItemData_snap [OF fits, folded Cons.prems(3)] item_in_mem [OF fits, folded Cons.prems(3), unfolded One_nat_def]
  note IH = Cons.IH [where pre = "pre @ [x]", OF Cons.prems(1,2)]
  obtain k d where x: "x = (k, d)" by (cases x)
  show ?case
  proof (cases "k \<in> set Del")
    case True
    have "A = (pre @ [x]) @ rest" using Cons.prems(3) by simp
    from IH [OF this Cons.prems(4)] show ?thesis using Cons.prems(5) item True
      by (simp add: upt x del: upt_Suc length_append)
  next
    case False
    have t: "0 \<le> type_of k" using Cons.prems(2,3) by (simp add: item_ok_def x)
    have room: "fits (its @ [(k, d)])" using Cons.prems(5) False
      by (simp add: x fits_def)
    have "\<exists>b'. NewItem e b (type_of k) (id_of k) (4 * int (length d)) = Some (Some (length (flat its) + 1), b') \<and>
        builds b' (its @ [(make_key (type_of k) (id_of k), replicate (length d) 0)])"
      by (rule NewItem_builds [OF Cons.prems(4) t type_of_bound id_of_bounds(3) room refl])
    then obtain b' where new: "NewItem e b (type_of k) (id_of k) (4 * int (length d)) = Some (Some (length (flat its) + 1), b')"
      "builds b' (its @ [(k, replicate (length d) 0)])"
      unfolding key_parts by (elim exE conjE)
    have w: "builds (b'\<lparr>b_Data := write_words (b_Data b') (length (flat its) + 1) d\<rparr>) (its @ [(k, d)])"
      using builds_write [of b' its k "replicate (length d) 0" "[]" d] new(2) by simp
    have "A = (pre @ [x]) @ rest" using Cons.prems(3) by simp
    from IH [OF this w] obtain b'' where
      "copy_items e (snap_of A) Del (map int [length (pre @ [x])..<length A])
         (b'\<lparr>b_Data := write_words (b_Data b') (length (flat its) + 1) d\<rparr>) = Some (Inr b'')"
      "builds b'' (its @ [(k, d)] @ filter (\<lambda>x. fst x \<notin> set Del) rest)"
      using Cons.prems(5) False by (auto simp: x simp del: length_append)
    then show ?thesis
      using False item new(1) by (simp add: upt x Let_def del: upt_Suc length_append)
  qed
qed

section \<open>Making the updates\<close>

definition update_head :: "(int \<Rightarrow> int) \<Rightarrow> i32 \<Rightarrow> nat \<Rightarrow> i32 list" where
  "update_head sizes k n = [word_of_int (type_of k), word_of_int (id_of k)] @
     (if type_of k \<ge> MAX_NETOBJSIZES \<or> sizes (type_of k) = 0 then [of_nat n] else [])"

lemma delta_preD:
  assumes "delta_pre sizes A B"
  shows "fits A" "fits B" "distinct (keys A)" "distinct (keys B)" "bucket_ok (snap_of A)" "bucket_ok (snap_of B)"
    "list_all (item_ok sizes) A" "list_all (item_ok sizes) B"
    "\<And>k d0 d. (k, d0) \<in> set A \<Longrightarrow> (k, d) \<in> set B \<Longrightarrow> length d0 = length d"
  using assms by (auto simp: delta_pre_def list_all_iff)

lemma deleted_keys_snap:
  assumes "delta_pre sizes A B"
  shows "deleted_keys (snap_of A) (snap_of B) = filter (\<lambda>k. k \<notin> set (keys B)) (keys A)"
proof -
  note pre = delta_preD [OF assms]
  have "GetItemIndex (snap_of B) k = -1 \<longleftrightarrow> k \<notin> set (keys B)" for k
  proof
    assume *: "GetItemIndex (snap_of B) k = -1"
    show "k \<notin> set (keys B)"
    proof
      assume "k \<in> set (keys B)"
      then obtain i where "i < length B" "k = fst (B ! i)" by (auto simp: in_set_conv_nth)
      then show False using * GetItemIndex_present [OF pre(2,4)] by simp
    qed
  qed (rule GetItemIndex_absent [OF pre(2)])
  then have "deleted_keys (snap_of A) (snap_of B) =
      map (ItemKey (snap_of A)) (filter (\<lambda>i. ItemKey (snap_of A) i \<notin> set (keys B)) (indices (snap_of A)))"
    by (simp only: deleted_keys_def Let_def hashed_linear [OF pre(6)])
  also have "\<dots> = filter (\<lambda>k. k \<notin> set (keys B)) (map (ItemKey (snap_of A)) (indices (snap_of A)))"
    by (simp only: filter_map comp_def)
  also have "map (ItemKey (snap_of A)) (indices (snap_of A)) = keys A"
    by (rule nth_equalityI) (simp_all add: pre(1) snap_nth)
  finally show ?thesis .
qed

lemma item_update_snap:
  assumes pre: "delta_pre (sd_ItemSizes sd) A (part @ (k, d) # rest)"
  shows "item_update sd (snap_of A) (snap_of (part @ (k, d) # rest)) (GenerateHash (snap_of A)) (int (length part)) =
    (case map_of A k of
       Some d0 \<Rightarrow> if d0 = d then None else Some (update_head (sd_ItemSizes sd) k (length d) @ fst (DiffItem d0 d))
     | None \<Rightarrow> Some (update_head (sd_ItemSizes sd) k (length d) @ d))"
proof -
  note p = delta_preD [OF pre]
  note item = ItemKey_snap [OF p(2)] GetItemSize_snap [OF p(2)] ItemData_snap [OF p(2)]
  show ?thesis
  proof (cases "map_of A k")
    case None
    then have "k \<notin> set (keys A)" by (simp add: map_of_eq_None_iff)
    then show ?thesis using None p(1,5) item
      by (simp add: item_update_def hashed_linear GetItemIndex_absent update_head_def Let_def)
  next
    case (Some d0)
    then have mem: "(k, d0) \<in> set A" by (rule map_of_SomeD)
    then obtain i where i: "i < length A" "A ! i = (k, d0)" by (metis in_set_conv_nth)
    have len: "length d0 = length d" using p(9) [OF mem] by simp
    have idx: "GetItemIndex (snap_of A) k = int i" using GetItemIndex_present [OF p(1,3) i(1)] i(2) by simp
    have data: "ItemData (snap_of A) (int i) (length d) = d0" using snap_nth(3) [OF p(1) i(1)] i(2) len by simp
    show ?thesis using Some p(1,5) item diff_needed [OF len]
      by (simp add: item_update_def hashed_linear idx data update_head_def Let_def split_beta)
  qed
qed

text \<open>Reading an update back: type, id, size if it is not in the table, and then the data.\<close>

lemma word_at_prefix: "word_at (pre @ ws @ post) (int (length pre) + int i) = word_at (ws @ post) (int i)"
  using word_at_append [of pre "ws @ post" "int i"] by simp

lemma word_at_head:
  assumes "i < length ws"
  shows "word_at (pre @ ws @ post) (int (length pre) + int i) = ws ! i"
  using assms by (simp only: word_at_prefix) (simp add: word_at_def nth_append)

lemma id_of_less: "id_of k < 65536"
  using id_of_bounds(2) [of k] by (simp add: MAX_ID_def)

lemma sint_head:
  assumes "0 \<le> type_of k"
  shows "sint (word_of_int (type_of k) :: i32) = type_of k" "sint (word_of_int (id_of k) :: i32) = id_of k"
  using assms type_of_bound [of k] id_of_bounds [of k] by (simp_all add: sint_small MAX_TYPE_def MAX_ID_def)

text \<open>One step of the update loop on what \<open>update_head\<close> wrote.\<close>

lemma update_step:
  assumes ok: "item_ok (sd_ItemSizes sd) (k, d)" and len: "length ws = length d" "length d \<le> 16384"
    and src: "src = pre @ (update_head (sd_ItemSizes sd) k (length d) @ ws) @ post"
    and p: "(case GetItemData b k of Some p \<Rightarrow> Some (Some p, b)
            | None \<Rightarrow> NewItem e b (type_of k) (id_of k) (4 * int (length d))) = Some (Some p, b1)"
  shows "update_items e pFrom src (4 * int (length src)) False (Suc n) (int (length pre)) b sd =
    (let q = int (length pre) + int (length (update_head (sd_ItemSizes sd) k (length d)))
     in case apply_update pFrom src (type_of k) (id_of k) (4 * int (length d)) q p b1 sd of
          None \<Rightarrow> (None, sd)
        | Some (b2, sd2) \<Rightarrow> update_items e pFrom src (4 * int (length src)) False n (q + int (length d)) b2 sd2) \<and>
   read_words src (int (length pre) + int (length (update_head (sd_ItemSizes sd) k (length d)))) (length d) = ws \<and>
   in_mem src (int (length pre) + int (length (update_head (sd_ItemSizes sd) k (length d)))) (length d)"
proof -
  let ?h = "update_head (sd_ItemSizes sd) k (length d)"
  have t: "0 \<le> type_of k" using ok by (simp add: item_ok_def)
  have src': "src = (pre @ ?h) @ ws @ post" using src by simp
  have h: "2 \<le> length ?h" by (simp add: update_head_def)
  have w: "word_at src (int (length pre)) = word_of_int (type_of k)"
    "word_at src (int (length pre) + 1) = word_of_int (id_of k)"
    using word_at_head [of 0 "?h @ ws" pre post] word_at_head [of 1 "?h @ ws" pre post] h
    by (simp_all add: src) (simp_all add: update_head_def)
  have size: "update_size sd False src (4 * int (length src)) (type_of k) (int (length pre) + 2) =
      Some (Inr (4 * int (length d), int (length pre) + int (length ?h)))"
  proof (cases "type_of k < MAX_NETOBJSIZES \<and> sd_ItemSizes sd (type_of k) \<noteq> 0")
    case True
    then show ?thesis using ok by (simp add: update_size_def item_ok_def update_head_def)
  next
    case False
    then have hd: "?h = [word_of_int (type_of k), word_of_int (id_of k), of_nat (length d)]"
      by (auto simp: update_head_def)
    have "word_at src (int (length pre) + 2) = of_nat (length d)"
      using word_at_head [of 2 "?h @ ws" pre post] by (simp add: src) (simp add: hd)
    moreover have "sint (of_nat (length d) :: i32) = int (length d)"
      using len by (intro sint_small_nat) simp
    ultimately show ?thesis using False len
      by (auto simp: update_size_def src hd in_mem_def)
  qed
  have room: "4 * (int (length pre) + 2) \<le> 4 * int (length src)"
    "4 * int (length d) \<le> 4 * int (length src) - 4 * (int (length pre) + int (length ?h))"
    using h len by (simp_all add: src)
  have mem: "in_mem src (int (length pre)) 2" "in_mem src (int (length pre) + int (length ?h)) (length d)"
    using h len by (simp_all add: in_mem_def src)
  have "read_words src (int (length (pre @ ?h))) (length ws) = ws"
    unfolding src' by (rule read_words_block)
  then have "read_words src (int (length pre) + int (length ?h)) (length d) = ws" by (simp add: len)
  moreover have "type_of k \<le> MAX_TYPE" "id_of k \<le> MAX_ID" "0 \<le> id_of k"
    using type_of_bound id_of_bounds by auto
  ultimately show ?thesis
    using t room size p mem
    by (cases "apply_update pFrom src (type_of k) (id_of k) (4 * int (length d)) (int (length pre) + int (length ?h)) p b1 sd")
      (auto simp: w sint_head key_parts Let_def)
qed

text \<open>What \<open>apply_update\<close> writes is the new data, and the rest of the builder stays.\<close>

lemma apply_update_old:
  assumes pre: "delta_pre sizes A B" "(k, d0) \<in> set A" and ws: "read_words src pos (length d) = fst (DiffItem d0 d)"
    and len: "length d0 = length d" and room: "in_mem src pos (length d)" "p + length d \<le> 16384"
  shows "\<exists>sd'. apply_update (snap_of A) src (type_of k) (id_of k) (4 * int (length d)) pos p b sd =
     Some (b\<lparr>b_Data := write_words (b_Data b) p d\<rparr>, sd') \<and> sd_ItemSizes sd' = sd_ItemSizes sd"
proof -
  note q = delta_preD [OF pre(1)]
  obtain i where i: "i < length A" "A ! i = (k, d0)" using pre(2) by (metis in_set_conv_nth)
  have idx: "GetItemIndex (snap_of A) k = int i" using GetItemIndex_present [OF q(1,3) i(1)] i(2) by simp
  have data: "ItemData (snap_of A) (int i) (length d) = d0" "in_mem (snap_of A) (GetItem (snap_of A) (int i) + 1) (length d)"
    using snap_nth(3,4) [OF q(1) i(1)] i(2) len by simp_all
  have p: "\<not> 4 * (int p + int (length d)) > MAX_SIZE" using room(2) by (simp add: MAX_SIZE_def)
  show ?thesis
    using undiff_diff [OF len] room(1) p by (simp add: apply_update_def key_parts idx data ws Let_def split_beta)
qed

lemma apply_update_new:
  assumes pre: "delta_pre sizes A B" "k \<notin> set (keys A)" and ws: "read_words src pos (length d) = d"
    and room: "in_mem src pos (length d)" "p + length d \<le> 16384"
  shows "\<exists>sd'. apply_update (snap_of A) src (type_of k) (id_of k) (4 * int (length d)) pos p b sd =
     Some (b\<lparr>b_Data := write_words (b_Data b) p d\<rparr>, sd') \<and> sd_ItemSizes sd' = sd_ItemSizes sd"
  using GetItemIndex_absent [OF delta_preD(1) [OF pre(1)] pre(2)] room
  by (simp add: apply_update_def key_parts ws Let_def MAX_SIZE_def)

lemma length_le_flat: "x \<in> set its \<Longrightarrow> length (snd x) \<le> length (flat its)"
  by (induction its) auto

lemma fits_merged_snoc:
  assumes pre: "delta_pre sizes A B" and B: "B = part @ (k, d) # rest" and k: "k \<notin> set (keys A)"
  shows "fits (merged A B part @ [(k, d)])"
proof -
  let ?C = "filter (\<lambda>x. fst x \<in> set (keys B)) A" and ?N = "filter (\<lambda>x. fst x \<notin> set (keys A))"
  note q = delta_preD [OF pre]
  have eq: "merged A B B = override ?C B @ ?N part @ (k, d) # ?N rest"
    using k by (simp only: merged_def filter.simps fst_conv if_True filter_append B) simp
  have same: "length d' = length d0" if "(x, d0) \<in> set ?C" "map_of part' x = Some d'" "set part' \<subseteq> set B" for x d0 d' part'
    using that q(9) [of x d0 d'] map_of_SomeD [of part' x d'] by auto
  have "length (flat (override ?C B)) = length (flat ?C)" "length (flat (override ?C part)) = length (flat ?C)"
    using same [of _ _ B] same [of _ _ part] B by (auto intro!: length_flat_override)
  moreover have "length (override ?C B) = length (override ?C part)" by (simp add: override_def)
  moreover have "fits (merged A B B)" using fits_mset [OF mset_merged [OF q(3,4)]] q(2) by simp
  ultimately show ?thesis by (simp add: eq) (simp add: fits_def merged_def)
qed

lemma fits_merged:
  assumes pre: "delta_pre sizes A B" and B: "B = part @ rest"
  shows "fits (merged A B part)"
proof -
  let ?C = "filter (\<lambda>x. fst x \<in> set (keys B)) A" and ?N = "filter (\<lambda>x. fst x \<notin> set (keys A))"
  note q = delta_preD [OF pre]
  have eq: "merged A B B = override ?C B @ ?N part @ ?N rest" by (simp only: merged_def filter_append B)
  have same: "length d' = length d0" if "(x, d0) \<in> set ?C" "map_of part' x = Some d'" "set part' \<subseteq> set B" for x d0 d' part'
    using that q(9) [of x d0 d'] map_of_SomeD [of part' x d'] by auto
  have "length (flat (override ?C B)) = length (flat ?C)" "length (flat (override ?C part)) = length (flat ?C)"
    using same [of _ _ B] same [of _ _ part] B by (auto intro!: length_flat_override)
  moreover have "length (override ?C B) = length (override ?C part)" by (simp add: override_def)
  moreover have "fits (merged A B B)" using fits_mset [OF mset_merged [OF q(3,4)]] q(2) by simp
  ultimately show ?thesis by (simp add: eq) (simp add: fits_def merged_def)
qed

lemma update_loop:
  assumes pre: "delta_pre (sd_ItemSizes sd0) A B" and B: "B = part @ rest" and b: "builds b (merged A B part)"
    and src: "src = ws @ concat (List.map_filter (item_update sd0 (snap_of A) (snap_of B) (GenerateHash (snap_of A)))
        (map int [length part..<length B]))"
    and sd: "sd_ItemSizes sd = sd_ItemSizes sd0"
  shows "\<exists>b' sd'. update_items e (snap_of A) src (4 * int (length src)) False
      (length (List.map_filter (item_update sd0 (snap_of A) (snap_of B) (GenerateHash (snap_of A))) (map int [length part..<length B])))
      (int (length ws)) b sd = (Some (Inr b'), sd') \<and> builds b' (merged A B B)"
  using B b src sd
proof (induction rest arbitrary: part b ws sd)
  case Nil
  then show ?case by (simp add: map_filter_simps)
next
  case (Cons x rest)
  obtain k d where x: "x = (k, d)" by (cases x)
  let ?upd = "item_update sd0 (snap_of A) (snap_of B) (GenerateHash (snap_of A))"
  let ?head = "update_head (sd_ItemSizes sd) k (length d)"
  let ?ups = "List.map_filter ?upd (map int [length (part @ [x])..<length B])"
  note q = delta_preD [OF pre]
  have B: "B = part @ (k, d) # rest" using Cons.prems(1) x by simp
  have B': "B = (part @ [(k, d)]) @ rest" using B by simp
  have mem: "(k, d) \<in> set B" by (simp add: B)
  have fresh: "k \<notin> set (keys part)" using q(4) by (auto simp: B)
  have upt: "[length part..<length B] = length part # [length (part @ [x])..<length B]"
    using Cons.prems(1) by (subst upt_conv_Cons) simp_all
  have ok: "item_ok (sd_ItemSizes sd) (k, d)" using q(8) mem Cons.prems(4) by (auto simp: list_all_iff)
  have small: "length d \<le> 16384" using length_le_flat [OF mem] q(2) by (simp add: fits_def)
  have upd: "?upd (int (length part)) = (case map_of A k of
       Some d0 \<Rightarrow> if d0 = d then None else Some (?head @ fst (DiffItem d0 d)) | None \<Rightarrow> Some (?head @ d))"
    using item_update_snap [of sd0 A part k d rest, folded B, OF pre] by (simp only: Cons.prems(4))
  have step: ?case
    if out: "?upd (int (length part)) = Some (?head @ out)" and len: "length out = length d"
      and p: "(case GetItemData b k of Some p \<Rightarrow> Some (Some p, b)
            | None \<Rightarrow> NewItem e b (type_of k) (id_of k) (4 * int (length d))) = Some (Some p, b1)"
      and app: "\<And>pos. read_words src pos (length d) = out \<Longrightarrow> in_mem src pos (length d) \<Longrightarrow>
          \<exists>sd'. apply_update (snap_of A) src (type_of k) (id_of k) (4 * int (length d)) pos p b1 sd =
            Some (b1\<lparr>b_Data := write_words (b_Data b1) p d\<rparr>, sd') \<and> sd_ItemSizes sd' = sd_ItemSizes sd"
      and b2: "builds (b1\<lparr>b_Data := write_words (b_Data b1) p d\<rparr>) (merged A B (part @ [(k, d)]))"
    for out p b1
  proof -
    let ?q = "int (length ws) + int (length ?head)"
    have src: "src = ws @ (?head @ out) @ concat ?ups"
      using Cons.prems(3) by (simp add: upt out map_filter_simps del: upt_Suc)
    note s = update_step [OF ok len small src p, where pFrom = "snap_of A" and n = "length ?ups"]
    obtain sd' where sd': "apply_update (snap_of A) src (type_of k) (id_of k) (4 * int (length d)) ?q p b1 sd =
        Some (b1\<lparr>b_Data := write_words (b_Data b1) p d\<rparr>, sd')" "sd_ItemSizes sd' = sd_ItemSizes sd"
      using app s by blast
    have src': "src = (ws @ ?head @ out) @ concat (List.map_filter ?upd (map int [length (part @ [(k, d)])..<length B]))"
      using src by (simp add: x)
    have sd0: "sd_ItemSizes sd' = sd_ItemSizes sd0" using sd'(2) Cons.prems(4) by simp
    have pos: "int (length (ws @ ?head @ out)) = ?q + int (length d)" using len by simp
    note IH = Cons.IH [OF B' b2 src' sd0, unfolded pos]
    show ?thesis using IH s sd'(1) by (simp add: upt out map_filter_simps x Let_def del: upt_Suc length_append)
  qed
  show ?case
  proof (cases "map_of A k")
    case None
    then have k: "k \<notin> set (keys A)" by (simp add: map_of_eq_None_iff)
    have k': "k \<notin> set (keys (merged A B part))" using k fresh by (auto simp: merged_def)
    have t: "0 \<le> type_of k" using ok by (simp add: item_ok_def)
    have "\<exists>b1. NewItem e b (type_of k) (id_of k) (4 * int (length d)) = Some (Some (length (flat (merged A B part)) + 1), b1) \<and>
        builds b1 (merged A B part @ [(make_key (type_of k) (id_of k), replicate (length d) 0)])"
      by (rule NewItem_builds [OF Cons.prems(2) t type_of_bound id_of_bounds(3) fits_merged_snoc [OF pre B k] refl])
    then obtain b1 where b1: "NewItem e b (type_of k) (id_of k) (4 * int (length d)) = Some (Some (length (flat (merged A B part)) + 1), b1)"
      "builds b1 (merged A B part @ (k, replicate (length d) 0) # [])"
      unfolding key_parts by (elim exE conjE)
    have "builds (b1\<lparr>b_Data := write_words (b_Data b1) (length (flat (merged A B part)) + 1) d\<rparr>) (merged A B part @ (k, d) # [])"
      by (rule builds_write [OF b1(2)]) simp_all
    then show ?thesis
      using GetItemData_absent [OF Cons.prems(2) k'] b1(1) upd None
      using fits_merged_snoc [OF pre B k]
      by (intro step [of d "length (flat (merged A B part)) + 1" b1] apply_update_new [OF pre k])
        (simp_all add: merged_snoc_new [OF k] fits_def)
  next
    case (Some d0)
    then have d0: "(k, d0) \<in> set A" by (rule map_of_SomeD)
    have len: "length d0 = length d" using q(9) [OF d0 mem] .
    have kB: "k \<in> set (keys B)" using mem by force
    obtain xs ys where m: "merged A B part = xs @ (k, d0) # ys" "merged A B (part @ [(k, d)]) = xs @ (k, d) # ys"
        "k \<notin> set (keys xs)"
      using merged_old [OF q(3) d0 kB fresh] by blast
    show ?thesis
    proof (cases "d0 = d")
      case True
      have "builds b (merged A B (part @ [(k, d)]))" using Cons.prems(2) m True by simp
      from Cons.IH [OF B' this _ Cons.prems(4), of ws] show ?thesis
        using Cons.prems(3) upd Some True by (simp add: upt map_filter_simps x del: upt_Suc)
    next
      case False
      have b: "builds b (xs @ (k, d0) # ys)" using Cons.prems(2) m(1) by simp
      have "builds (b\<lparr>b_Data := write_words (b_Data b) (length (flat xs) + 1) d\<rparr>) (xs @ (k, d) # ys)"
        by (rule builds_write [OF b]) (simp_all add: len)
      then show ?thesis
        using GetItemData_present [OF b m(3)] upd Some False length_DiffItem [OF len] fits_merged [OF pre Cons.prems(1)] len
        by (intro step [of "fst (DiffItem d0 d)" "length (flat xs) + 1" b] apply_update_old [OF pre d0 _ len])
          (simp_all add: m fits_def)
    qed
  qed
qed

lemma length_flat_filter: "length (flat (filter P its)) \<le> length (flat its)"
  by (induction its) simp_all

lemma fits_filter: "fits its \<Longrightarrow> fits (filter P its)"
  using length_flat_filter [of P its] length_filter_le [of P its] unfolding fits_def by linarith

text \<open>
  C4: The delta from one snapshot to another, unpacked on the first one, gives the second one up to
  the order of its items, and so a snapshot with the checksum the server sent.
\<close>
theorem delta_roundtrip:
  assumes pre: "delta_pre (sd_ItemSizes sd0) A B" and table: "sd_ItemSizes sd = sd_ItemSizes sd0"
  shows "fst (UnpackDelta e sd (snap_of A) (fst (CreateDelta sd0 (snap_of A) (snap_of B)))
      (4 * int (length (fst (CreateDelta sd0 (snap_of A) (snap_of B))))) False) = Some (Inr (snap_of (merged A B B))) \<and>
    mset (merged A B B) = mset B \<and> Crc (snap_of (merged A B B)) = Crc (snap_of B)"
proof -
  let ?upd = "item_update sd0 (snap_of A) (snap_of B) (GenerateHash (snap_of A))"
  let ?ups = "List.map_filter ?upd (map int [length ([] :: items)..<length B])"
  let ?del = "filter (\<lambda>k. k \<notin> set (keys B)) (keys A)"
  let ?ws = "of_nat (length ?del) # of_nat (length ?ups) # 0 # ?del"
  let ?src = "?ws @ concat ?ups"
  note q = delta_preD [OF pre]
  have del: "deleted_keys (snap_of A) (snap_of B) = ?del" by (rule deleted_keys_snap [OF pre])
  have src: "fst (CreateDelta sd0 (snap_of A) (snap_of B)) = ?src"
    by (simp only: CreateDelta_def Let_def del fst_conv indices_snap [OF q(2)] list.size append_Cons append_Nil)
  have n: "length ?del < 2 ^ 31" "length ?ups < 2 ^ 31"
  proof -
    have "length ?del \<le> length A" by (rule order_trans [OF length_filter_le]) simp
    moreover have "length A \<le> 1024" "(1024 :: nat) < 2 ^ 31" using q(1) by (simp_all add: fits_def)
    ultimately show "length ?del < 2 ^ 31" by linarith
    have "length ?ups \<le> length B" by (simp add: map_filter_def order_trans [OF length_filter_le])
    moreover have "length B \<le> 1024" "(1024 :: nat) < 2 ^ 31" using q(2) by (simp_all add: fits_def)
    ultimately show "length ?ups < 2 ^ 31" by linarith
  qed
  have hd: "sint (word_at ?src 0) = int (length ?del)" "sint (word_at ?src 1) = int (length ?ups)"
    using sint_small_nat [OF n(1)] sint_small_nat [OF n(2)] word_at_1 by (simp_all only: word_at_simps(1) append_Cons word_at_1)
  have "read_words ([of_nat (length ?del), of_nat (length ?ups), 0] @ ?del @ concat ?ups)
      (int (length ([of_nat (length ?del), of_nat (length ?ups), 0] :: i32 list))) (length ?del) = ?del"
    by (rule read_words_block)
  then have rd: "read_words ?src 3 (nat (int (length ?del))) = ?del" by simp
  have keep: "filter (\<lambda>x. fst x \<notin> set ?del) A = merged A B []"
    by (auto simp: intro!: filter_cong)
  have keep_fits: "fits (filter (\<lambda>x. fst x \<notin> set ?del) A)"
    by (rule fits_filter [OF q(1)])
  obtain b where b: "copy_items e (snap_of A) ?del (map int [length ([] :: items)..<length A]) (Builder_Init e False new_builder) = Some (Inr b)"
    "builds b (merged A B [])"
    using copy_items_builds [OF q(1,7) append_Nil [symmetric] builds_new, of ?del e] keep_fits unfolding append_Nil keep by blast
  have "\<exists>b' sd'. update_items e (snap_of A) ?src (4 * int (length ?src)) False (length ?ups) (int (length ?ws)) b sd =
      (Some (Inr b'), sd') \<and> builds b' (merged A B B)"
    by (rule update_loop [OF pre append_Nil [symmetric] b(2) refl table])
  then obtain b' sd' where b': "update_items e (snap_of A) ?src (4 * int (length ?src)) False (length ?ups) (int (length ?ws)) b sd =
      (Some (Inr b'), sd')" "builds b' (merged A B B)"
    by blast
  have m: "mset (merged A B B) = mset B" by (rule mset_merged [OF q(3,4)])
  have fits: "fits (merged A B B)" using fits_mset [OF m] q(2) by simp
  have "fst (UnpackDelta e sd (snap_of A) ?src (4 * int (length ?src)) False) = Some (Inr (snap_of (merged A B B)))"
  proof -
    have room: "\<not> 4 * (3 + int (length ?del)) > 4 * int (length ?src)" by simp
    have pos: "3 + int (length ?del) = int (length ?ws)" by simp
    have mem: "in_mem ?src 0 2" "in_mem (snap_of A) 0 2" "in_mem ?src 3 (length ?del)"
      by (simp_all add: in_mem_def snap_of_def)
    show ?thesis
      unfolding UnpackDelta_def Let_def hd rd
      by (simp only: room mem de_Morgan_disj not_not simp_thms if_False not_less of_nat_0_le_iff nat_int pos) (use b b' Finish_builds [OF b'(2) fits] q(1) in \<open>simp\<close>)
  qed
  with m Crc_mset [OF m fits] show ?thesis by (simp only: src)
qed

section \<open>Whatever is received\<close>

text \<open>The offsets of a builder, whose data a received delta may have overwritten.\<close>

definition builder_ok :: "CSnapshotBuilder \<Rightarrow> bool" where
  "builder_ok b \<longleftrightarrow> (\<exists>its. b_Offsets b = offs 0 its \<and> length (b_Data b) = length (flat its) \<and> fits its)"

lemma builder_ok_new [simp]: "builder_ok (Builder_Init e False new_builder)"
  by (auto simp: builder_ok_def Builder_Init_def new_builder_def fits_def intro: exI [of _ "[]"])

lemma length_write_words [simp]: "length (write_words s pos ws) = length s"
  by (simp add: write_words_def)

lemma builder_ok_write [simp]: "builder_ok (b\<lparr>b_Data := write_words (b_Data b) p ws\<rparr>) = builder_ok b"
  by (simp add: builder_ok_def)

lemma append_item_ok:
  assumes b: "builder_ok b" "room_for_item b Size" "0 \<le> Size"
  shows "builder_ok (snd (append_item b Type ID Size))"
proof -
  obtain its where its: "b_Offsets b = offs 0 its" "length (b_Data b) = length (flat its)" "fits its"
    using b(1) by (auto simp: builder_ok_def)
  let ?its = "its @ [(make_key Type ID, replicate (nat Size div 4) 0)]"
  have "4 * int (nat Size div 4) \<le> Size" using b(3) by (simp add: zdiv_int)
  then have "fits ?its" using b(2) its
    by (simp add: room_for_item_def fits_def MAX_ITEMS_def MAX_SIZE_def)
  moreover have "b_Offsets (snd (append_item b Type ID Size)) = offs 0 ?its"
    "length (b_Data (snd (append_item b Type ID Size))) = length (flat ?its)"
    using its by (simp_all add: append_item_def offs_append)
  ultimately show ?thesis unfolding builder_ok_def by blast
qed

lemma NewItem_ok:
  assumes "builder_ok b" "Type \<le> MAX_TYPE" "0 \<le> Size"
  shows "\<exists>p b'. NewItem e b Type ID Size = Some (p, b') \<and> builder_ok b'"
proof -
  have "\<not> OFFSET_UUID \<le> Type" using assms(2) by (simp add: OFFSET_UUID_def MAX_TYPE_def)
  moreover have "\<exists>p b'. append_item b T ID Size = (p, b') \<and> builder_ok b'" if "room_for_item b Size" for T
    using append_item_ok [OF assms(1) that assms(3), of T ID] by (cases "append_item b T ID Size") simp
  ultimately show ?thesis
    using assms(1) by (cases "room_for_item b Size") (auto simp: NewItem_def NewItem_plain_def Let_def)
qed

text \<open>The memory \<open>Finish\<close> writes is a valid snapshot; only the header and the offsets count.\<close>

lemma IsValid_cong:
  assumes "DataSize s = DataSize t" "NumItems s = NumItems t"
    "\<And>i. 0 \<le> i \<Longrightarrow> i < NumItems t \<Longrightarrow> Offset s i = Offset t i"
  shows "IsValid s Size = IsValid t Size"
proof -
  have i: "indices s = indices t" using assms(2) by (simp add: indices_def)
  have "GetItemSize s i = GetItemSize t i" if "0 \<le> i" "i < NumItems t" for i
    using that assms by (auto simp: GetItemSize_def)
  moreover have "i \<in> set (indices t) \<Longrightarrow> 0 \<le> i \<and> i < NumItems t" for i by (auto simp: indices_def)
  ultimately show ?thesis
    using assms unfolding IsValid_def i TotalSize_def
    by (intro conj_cong) (auto simp: list_all_iff)
qed

lemma length_flat_take: "length (flat (take i its)) \<le> length (flat its)"
  by (subst (2) append_take_drop_id [of i its, symmetric]) (simp del: append_take_drop_id)

lemma not_flat_take_less [simp]: "\<not> length (flat its) < length (flat (take i its))"
  by (simp add: not_less length_flat_take)

lemma snap_valid:
  assumes "fits its"
  shows "IsValid (snap_of its) (4 * int (length (snap_of its)))"
proof -
  have "Offset (snap_of its) (int i) = 4 * int (length (flat (take i its)))" if "i < length its" for i
    using Offset_snap [of "take i its" "its ! i" "drop (Suc i) its"] split_nth [OF that] that assms by simp
  then show ?thesis
    using assms snap_nth(2) [OF assms]
    by (auto simp: IsValid_def list_all_iff TotalSize_def MAX_ITEMS_def MAX_SIZE_def fits_def)
      (auto simp: snap_of_def)
qed

lemma Finish_ok:
  assumes "builder_ok b"
  shows "\<exists>s. Finish b = Some s \<and> IsValid s (4 * int (length s))"
proof -
  obtain its where its: "b_Offsets b = offs 0 its" "length (b_Data b) = length (flat its)" "fits its"
    using assms by (auto simp: builder_ok_def)
  let ?s = "word_of_int (4 * int (length (flat its))) # word_of_int (int (length its)) # map word_of_int (offs 0 its) @ b_Data b"
  have "Finish b = Some ?s" using its
    by (simp add: Finish_def fits_def MAX_ITEMS_def MAX_SIZE_def)
  moreover have "IsValid ?s (4 * int (length (snap_of its))) = IsValid (snap_of its) (4 * int (length (snap_of its)))"
  proof (rule IsValid_cong)
    show "DataSize ?s = DataSize (snap_of its)" "NumItems ?s = NumItems (snap_of its)"
      by (simp_all add: DataSize_def NumItems_def snap_of_def word_at_1)
    fix i assume i: "0 \<le> i" "i < NumItems (snap_of its)"
    then have "nat i < length its" using its(3) by simp
    moreover have "i < int (length its + length (flat its))" using i its(3) by simp
    ultimately show "Offset ?s i = Offset (snap_of its) i" using i(1) its(2)
      by (simp add: Offset_def snap_of_def word_at_2) (simp add: word_at_def nth_append)
  qed
  moreover have "length ?s = length (snap_of its)" using its(2) by (simp add: snap_of_def)
  ultimately show ?thesis using snap_valid [OF its(3)] by metis
qed

lemma valid_sizes: "IsValid s Size \<Longrightarrow> i \<in> set (indices s) \<Longrightarrow> 0 \<le> GetItemSize s i"
  by (auto simp: IsValid_def list_all_iff)

text \<open>The items of a valid snapshot are in its memory.\<close>

lemma valid_memory:
  assumes "IsValid s (4 * int (length s))"
  shows "in_mem s 0 2"
    "i \<in> set (indices s) \<Longrightarrow> in_mem s (GetItem s i) 1"
    "i \<in> set (indices s) \<Longrightarrow> n \<le> nat (GetItemSize s i) div 4 \<Longrightarrow> in_mem s (GetItem s i + 1) n"
proof -
  note v = assms [unfolded IsValid_def list_all_iff]
  show "in_mem s 0 2" using v by (simp add: in_mem_def)
  have len: "4 * int (length s) = 8 + 4 * NumItems s + DataSize s" "0 \<le> NumItems s" using v by (auto simp: TotalSize_def)
  have "in_mem s (GetItem s i + 1) (nat (GetItemSize s i) div 4) \<and> 0 \<le> GetItem s i" if i: "i \<in> set (indices s)"
  proof -
    have off: "0 \<le> Offset s i" "0 \<le> GetItemSize s i" using v i by auto
    have "Offset s i + 4 + GetItemSize s i \<le> DataSize s"
    proof (cases "i = NumItems s - 1")
      case False
      then have "i + 1 \<in> set (indices s)" using i by (auto simp: indices_def image_iff intro!: bexI [of _ "nat (i + 1)"])
      then have "Offset s (i + 1) \<le> DataSize s" using v by auto
      with False show ?thesis by (simp add: GetItemSize_def)
    qed (simp add: GetItemSize_def)
    then have "8 + 4 * NumItems s + (Offset s i + 4 + GetItemSize s i) \<le> 4 * int (length s)" using len(1) by linarith
    then have "2 + NumItems s + Offset s i div 4 + 1 + GetItemSize s i div 4 \<le> int (length s)" by linarith
    moreover have "int (nat (GetItemSize s i) div 4) = GetItemSize s i div 4" using off(2) by (simp add: zdiv_int)
    ultimately show ?thesis using off len(2) by (simp add: in_mem_def GetItem_def)
  qed
  then show "i \<in> set (indices s) \<Longrightarrow> in_mem s (GetItem s i) 1"
    "i \<in> set (indices s) \<Longrightarrow> n \<le> nat (GetItemSize s i) div 4 \<Longrightarrow> in_mem s (GetItem s i + 1) n"
    by (fastforce simp: in_mem_def)+
qed

definition item_at :: "snapshot \<Rightarrow> int \<Rightarrow> i32 \<times> i32 list" where
  "item_at s i = (ItemKey s i, ItemData s i (nat (GetItemSize s i) div 4))"

text \<open>An update needs memory only: the builder stays one, or the write leaves \<open>m_aData\<close>.\<close>

lemma builds_ok: "builds b its \<Longrightarrow> fits its \<Longrightarrow> builder_ok b"
  by (auto simp: builds_def builder_ok_def)

lemma NewItem_fits:
  assumes b: "builds b its" "fits its" and t: "0 \<le> Type" "Type \<le> MAX_TYPE" and s: "0 \<le> Size"
  shows "(\<exists>b'. NewItem e b Type ID Size = Some (None, b')) \<or>
    (\<exists>b' d. NewItem e b Type ID Size = Some (Some (length (flat its) + 1), b') \<and> length d = nat Size div 4 \<and>
      builds b' (its @ [(make_key Type ID, d)]) \<and> fits (its @ [(make_key Type ID, d)]))"
proof -
  have plain: "\<not> OFFSET_UUID \<le> Type" using t by (simp add: OFFSET_UUID_def MAX_TYPE_def)
  have six: "\<not> b_Sixup b" using b(1) by (simp add: builds_def)
  show ?thesis
  proof (cases "ID = -1 \<or> \<not> room_for_item b Size")
    case True
    with plain show ?thesis by (auto simp: NewItem_def NewItem_plain_def)
  next
    case False
    obtain p b' where a: "append_item b Type ID Size = (p, b')" by fastforce
    note B = builds_append [OF b(1) a]
    have "4 * int (nat Size div 4) \<le> Size" using s by (simp add: zdiv_int)
    then have "fits (its @ [(make_key Type ID, replicate (nat Size div 4) 0)])"
      using False b by (simp add: builds_def room_for_item_def fits_def MAX_ITEMS_def MAX_SIZE_def)
    with B a False plain six t show ?thesis by (simp add: NewItem_def NewItem_plain_def Let_def) force
  qed
qed

lemma copy_items_copies:
  assumes "\<forall>i \<in> set is. 0 \<le> GetItemSize pFrom i \<and> in_mem pFrom (GetItem pFrom i) 1 \<and>
      in_mem pFrom (GetItem pFrom i + 1) (nat (GetItemSize pFrom i) div 4)"
    "builds b its" "fits its"
  shows "copy_items e pFrom Del is b = Some (Inl (-301)) \<or> (\<exists>b'. copy_items e pFrom Del is b = Some (Inr b') \<and>
      builds b' (its @ filter (\<lambda>x. fst x \<notin> set Del) (map (item_at pFrom) is)) \<and>
      fits (its @ filter (\<lambda>x. fst x \<notin> set Del) (map (item_at pFrom) is)))"
  using assms
proof (induction "is" arbitrary: b its)
  case (Cons i "is")
  let ?k = "ItemKey pFrom i" and ?n = "nat (GetItemSize pFrom i) div 4"
  show ?case
  proof (cases "?k \<in> set Del")
    case True
    with Cons show ?thesis by (simp add: Let_def item_at_def)
  next
    case False
    show ?thesis
    proof (cases "type_of ?k < 0")
      case True
      then have "NewItem e b (type_of ?k) (id_of ?k) (GetItemSize pFrom i) = Some (None, b)"
        using Cons.prems(2) by (simp add: NewItem_def NewItem_plain_def OFFSET_UUID_def builds_def)
      with False Cons.prems(1) show ?thesis by (simp add: Let_def)
    next
      case t: False
      then have "0 \<le> type_of ?k" "0 \<le> GetItemSize pFrom i" using Cons.prems(1) by simp_all
      from NewItem_fits [OF Cons.prems(2,3) this(1) type_of_bound this(2), of e "id_of ?k", unfolded key_parts]
      show ?thesis
      proof (elim disjE exE conjE)
        fix b' assume "NewItem e b (type_of ?k) (id_of ?k) (GetItemSize pFrom i) = Some (None, b')"
        with False Cons.prems(1) show ?thesis by (simp add: Let_def)
      next
        fix b' d assume new: "NewItem e b (type_of ?k) (id_of ?k) (GetItemSize pFrom i) = Some (Some (length (flat its) + 1), b')"
          "length d = ?n" "builds b' (its @ [(?k, d)])" "fits (its @ [(?k, d)])"
        let ?d = "ItemData pFrom i ?n"
        let ?b = "b'\<lparr>b_Data := write_words (b_Data b') (length (flat its) + 1) ?d\<rparr>"
        have w: "builds ?b (its @ [item_at pFrom i])"
          using builds_write [of b' its ?k d "[]" ?d] new by (simp add: item_at_def ItemData_def)
        have f: "fits (its @ [item_at pFrom i])" using new(2,4) by (simp add: item_at_def fits_def ItemData_def)
        have rest: "\<forall>i \<in> set is. 0 \<le> GetItemSize pFrom i \<and> in_mem pFrom (GetItem pFrom i) 1 \<and>
          in_mem pFrom (GetItem pFrom i + 1) (nat (GetItemSize pFrom i) div 4)" using Cons.prems(1) by simp
        have k: "fst (item_at pFrom i) \<notin> set Del" using False by (simp add: item_at_def)
        have "copy_items e pFrom Del (i # is) b = copy_items e pFrom Del is ?b"
          using False new(1) Cons.prems(1) by (simp add: Let_def)
        with Cons.IH [OF rest w f] k show ?thesis by simp
      qed
    qed
  qed
qed simp

lemma update_size_error:
  "update_size sd Sixup src pEnd Type pos = Some (Inl err) \<Longrightarrow> err = -103 \<or> err = -204"
  by (auto simp: update_size_def Let_def split: if_splits)

definition delta_errors :: "int list" where
  "delta_errors = [-101, -102, -103, -201, -202, -203, -204, -205, -301, -302]"

lemma update_items_safe:
  assumes "builder_ok b"
  shows "case fst (update_items e pFrom src pEnd Sixup n pos b sd) of
      None \<Rightarrow> True | Some (Inl err) \<Rightarrow> err \<in> set delta_errors | Some (Inr b') \<Rightarrow> builder_ok b'"
  using assms
proof (induction n arbitrary: pos b sd)
  case (Suc n)
  let ?T = "sint (word_at src pos)" and ?I = "sint (word_at src (pos + 1))"
  show ?case
  proof (cases "4 * (pos + 2) > pEnd \<or> \<not> in_mem src pos 2 \<or> ?T < 0 \<or> ?T > MAX_TYPE \<or> ?I < 0 \<or> ?I > MAX_ID")
    case True
    then show ?thesis by (auto simp: Let_def delta_errors_def)
  next
    case ids: False
    show ?thesis
    proof (cases "update_size sd Sixup src pEnd ?T (pos + 2)")
      case None
      with ids show ?thesis by (simp add: Let_def)
    next
      case some: (Some r)
      show ?thesis
      proof (cases r)
        case (Inl err)
        with ids some update_size_error [of sd Sixup src pEnd ?T "pos + 2" err] show ?thesis by (auto simp: Let_def delta_errors_def)
      next
        case (Inr r')
        obtain Size pos' where r: "r' = (Size, pos')" by (cases r')
        show ?thesis
        proof (cases "Size < 0 \<or> pEnd - 4 * pos' < Size")
          case True
          with ids some Inr r show ?thesis by (simp add: Let_def delta_errors_def)
        next
          case False
          obtain p b' where p: "(case GetItemData b (make_key ?T ?I) of Some p \<Rightarrow> Some (Some p, b)
              | None \<Rightarrow> NewItem e b ?T ?I Size) = Some (p, b')" "builder_ok b'"
            using NewItem_ok [OF Suc.prems, of ?T Size e ?I] False ids Suc.prems
            by (cases "GetItemData b (make_key ?T ?I)") auto
          show ?thesis
          proof (cases p)
            case None
            with ids some Inr r False p(1) show ?thesis by (simp add: Let_def delta_errors_def)
          next
            case (Some q)
            show ?thesis
            proof (cases "apply_update pFrom src ?T ?I Size pos' q b' sd")
              case None
              with ids some Inr r False p(1) Some show ?thesis by (simp add: Let_def)
            next
              case a: (Some bs)
              obtain b2 sd2 where bs: "bs = (b2, sd2)" by (cases bs)
              from a bs have "builder_ok b2" using p(2) by (auto simp: apply_update_def Let_def split: prod.splits if_splits)
              from Suc.IH [OF this] show ?thesis using ids some Inr r False p(1) Some a bs by (simp add: Let_def)
            qed
          qed
        qed
      qed
    qed
  qed
qed simp

text \<open>
  The updates of a delta as the code reads them, each with the key and the size in bytes. The item
  they go to is as large as the last update of it, or as in \<open>pFrom\<close>: \<open>within_sizes\<close> says that no update is larger.
\<close>

fun delta_updates :: "CSnapshotDelta \<Rightarrow> bool \<Rightarrow> i32 list \<Rightarrow> int \<Rightarrow> nat \<Rightarrow> int \<Rightarrow> (i32 \<times> int) list" where
  "delta_updates sd Sixup src pEnd 0 pos = []"
| "delta_updates sd Sixup src pEnd (Suc k) pos =
     (if 4 * (pos + 2) > pEnd then []
      else
        let Type = sint (word_at src pos); ID = sint (word_at src (pos + 1))
        in case update_size sd Sixup src pEnd Type (pos + 2) of
             Some (Inr (Size, pos)) \<Rightarrow>
               if Size < 0 \<or> pEnd - 4 * pos < Size then []
               else (make_key Type ID, Size) # delta_updates sd Sixup src pEnd k (pos + int (nat Size div 4))
           | _ \<Rightarrow> [])"

fun within_sizes :: "(i32 \<rightharpoonup> int) \<Rightarrow> (i32 \<times> int) list \<Rightarrow> bool" where
  "within_sizes lim [] = True"
| "within_sizes lim ((k, n) # ups) = ((case lim k of Some m \<Rightarrow> n \<le> m | None \<Rightarrow> True) \<and> within_sizes (lim(k \<mapsto> n)) ups)"

definition item_sizes :: "snapshot \<Rightarrow> i32 \<Rightarrow> int option" where
  "item_sizes s k = (if GetItemIndex s k = -1 then None else Some (GetItemSize s (GetItemIndex s k)))"

definition sizes_kept :: "CSnapshotDelta \<Rightarrow> snapshot \<Rightarrow> i32 list \<Rightarrow> int \<Rightarrow> bool \<Rightarrow> bool" where
  "sizes_kept sd pFrom src pEnd Sixup \<longleftrightarrow>
     within_sizes (item_sizes pFrom) (delta_updates sd Sixup src pEnd (nat (sint (word_at src 1))) (3 + sint (word_at src 0)))"

lemma update_size_cong:
  "sd_ItemSizes sd = sd_ItemSizes sd0 \<Longrightarrow> sd_ItemSizes7 sd = sd_ItemSizes7 sd0 \<Longrightarrow>
   update_size sd Sixup src pEnd Type pos = update_size sd0 Sixup src pEnd Type pos"
  by (simp add: update_size_def)

lemma update_size_some:
  "pEnd \<le> 4 * int (length src) \<Longrightarrow> 0 \<le> pos \<Longrightarrow> update_size sd Sixup src pEnd Type pos \<noteq> None"
  "update_size sd Sixup src pEnd Type pos = Some (Inr (Size, pos')) \<Longrightarrow> pos \<le> pos'"
  by (auto simp: update_size_def Let_def in_mem_def split: if_splits)

lemma apply_update_some:
  assumes "in_mem src pos (nat Size div 4)" "p + nat Size div 4 \<le> 16384"
    "GetItemIndex pFrom (make_key Type ID) \<noteq> -1 \<Longrightarrow>
       in_mem pFrom (GetItem pFrom (GetItemIndex pFrom (make_key Type ID)) + 1) (nat Size div 4)"
  shows "\<exists>out sd'. apply_update pFrom src Type ID Size pos p b sd = Some (b\<lparr>b_Data := write_words (b_Data b) p out\<rparr>, sd') \<and>
    length out = nat Size div 4 \<and> sd_ItemSizes sd' = sd_ItemSizes sd \<and> sd_ItemSizes7 sd' = sd_ItemSizes7 sd"
proof -
  have room: "\<not> 4 * (int p + int (nat Size div 4)) > MAX_SIZE" using assms(2) by (simp add: MAX_SIZE_def)
  have "length (fst (UndiffItem (ItemData pFrom i n) (read_words src pos n) rate)) = n" for i n rate
    by (simp add: length_UndiffItem ItemData_def)
  then show ?thesis using assms(1,3) room
    by (cases "GetItemIndex pFrom (make_key Type ID) = -1") (auto simp: apply_update_def Let_def split_beta)
qed

text \<open>An update that is not larger than its item changes that item only.\<close>

lemma builds_overwrite:
  assumes b: "builds b (xs @ (k, d) # ys)" and len: "length ws \<le> length d" and p: "p = length (flat xs) + 1"
  shows "builds (b\<lparr>b_Data := write_words (b_Data b) p ws\<rparr>) (xs @ (k, ws @ drop (length ws) d) # ys)"
proof -
  have "write_words ((flat xs @ [k]) @ d @ flat ys) (length (flat xs @ [k])) ws = (flat xs @ [k]) @ (ws @ drop (length ws) d) @ flat ys"
    using len by (simp add: write_words_def)
  then show ?thesis using b p len offs_data [of d "ws @ drop (length ws) d" 0 xs k ys k] by (simp add: builds_def)
qed

lemma map_of_split:
  assumes "map_of its k = Some d"
  shows "\<exists>xs ys. its = xs @ (k, d) # ys \<and> k \<notin> set (keys xs)"
  using assms
proof (induction its)
  case (Cons x its)
  show ?case
  proof (cases "fst x = k")
    case True
    with Cons.prems have "x # its = [] @ (k, d) # its" by (cases x) simp
    then show ?thesis by fastforce
  next
    case False
    with Cons.prems have "map_of its k = Some d" by (cases x) simp
    from Cons.IH [OF this] obtain xs ys where "its = xs @ (k, d) # ys" "k \<notin> set (keys xs)" by blast
    with False show ?thesis by (intro exI [of _ "x # xs"] exI [of _ ys]) auto
  qed
qed simp

lemma update_target:
  assumes b: "builds b its" "fits its" and t: "0 \<le> Type" "Type \<le> MAX_TYPE" "0 \<le> Size"
    and own: "\<And>k d. map_of its k = Some d \<Longrightarrow> \<exists>m. lim k = Some m \<and> nat m div 4 \<le> length d"
    and within: "\<And>m. lim (make_key Type ID) = Some m \<Longrightarrow> Size \<le> m"
  shows "\<exists>p b1. (case GetItemData b (make_key Type ID) of Some p \<Rightarrow> Some (Some p, b) | None \<Rightarrow> NewItem e b Type ID Size) = Some (p, b1) \<and>
    (\<forall>q. p = Some q \<longrightarrow> q + nat Size div 4 \<le> 16384 \<and>
      (\<forall>out. length out = nat Size div 4 \<longrightarrow> (\<exists>its'. builds (b1\<lparr>b_Data := write_words (b_Data b1) q out\<rparr>) its' \<and> fits its' \<and>
        (\<forall>k d. map_of its' k = Some d \<longrightarrow> (\<exists>m. (lim(make_key Type ID \<mapsto> Size)) k = Some m \<and> nat m div 4 \<le> length d)))))"
proof (cases "map_of its (make_key Type ID)")
  case (Some d)
  let ?k = "make_key Type ID"
  obtain xs ys where s: "its = xs @ (?k, d) # ys" "?k \<notin> set (keys xs)" using map_of_split [OF Some] by blast
  obtain m where m: "lim ?k = Some m" "nat m div 4 \<le> length d" using own [OF Some] by blast
  have "nat Size div 4 \<le> nat m div 4" using within [OF m(1)] by (intro div_le_mono) simp
  then have len: "nat Size div 4 \<le> length d" using m(2) by simp
  have g: "GetItemData b ?k = Some (length (flat xs) + 1)" using GetItemData_present b(1) s by simp
  have f: "fits (xs @ (?k, d) # ys)" using b(2) s(1) by simp
  have "\<exists>its'. builds (b\<lparr>b_Data := write_words (b_Data b) (length (flat xs) + 1) out\<rparr>) its' \<and> fits its' \<and>
        (\<forall>k d. map_of its' k = Some d \<longrightarrow> (\<exists>m. (lim(?k \<mapsto> Size)) k = Some m \<and> nat m div 4 \<le> length d))"
    if out: "length out = nat Size div 4" for out
  proof (intro exI [of _ "xs @ (?k, out @ drop (length out) d) # ys"] conjI allI impI)
    let ?d = "out @ drop (length out) d"
    show "builds (b\<lparr>b_Data := write_words (b_Data b) (length (flat xs) + 1) out\<rparr>) (xs @ (?k, ?d) # ys)"
      by (rule builds_overwrite) (use b(1) s(1) out len in simp_all)
    show "fits (xs @ (?k, ?d) # ys)" using f out len by (simp add: fits_def)
    fix k d' assume k: "map_of (xs @ (?k, ?d) # ys) k = Some d'"
    show "\<exists>m. (lim(?k \<mapsto> Size)) k = Some m \<and> nat m div 4 \<le> length d'"
    proof (cases "k = ?k")
      case True
      then have "map_of xs k = None" using s(2) by (simp add: map_of_eq_None_iff)
      with k True have "d' = ?d" by (simp add: map_add_def)
      with True out len show ?thesis by simp
    next
      case False
      with k have "map_of its k = Some d'" by (simp add: s(1) map_add_def split: option.splits)
      from own [OF this] False show ?thesis by simp
    qed
  qed
  moreover have "length (flat xs) + 1 + nat Size div 4 \<le> 16384" using f len by (simp add: fits_def)
  ultimately show ?thesis using g by auto
next
  case None
  let ?k = "make_key Type ID"
  have absent: "?k \<notin> set (keys its)" using None by (simp add: map_of_eq_None_iff)
  note g = GetItemData_absent [OF b(1) absent]
  from NewItem_fits [OF b t, of e ID] show ?thesis
  proof (elim disjE exE conjE)
    fix b' d assume new: "NewItem e b Type ID Size = Some (Some (length (flat its) + 1), b')" "length d = nat Size div 4"
      "builds b' (its @ [(?k, d)])" "fits (its @ [(?k, d)])"
    have "\<exists>its'. builds (b'\<lparr>b_Data := write_words (b_Data b') (length (flat its) + 1) out\<rparr>) its' \<and> fits its' \<and>
        (\<forall>k d. map_of its' k = Some d \<longrightarrow> (\<exists>m. (lim(?k \<mapsto> Size)) k = Some m \<and> nat m div 4 \<le> length d))"
      if out: "length out = nat Size div 4" for out
    proof (intro exI [of _ "its @ [(?k, out)]"] conjI allI impI)
      show "builds (b'\<lparr>b_Data := write_words (b_Data b') (length (flat its) + 1) out\<rparr>) (its @ [(?k, out)])"
        using builds_write [of b' its ?k d "[]" out] new(2,3) out by simp
      show "fits (its @ [(?k, out)])" using new(2,4) out by (simp add: fits_def)
      fix k d' assume k: "map_of (its @ [(?k, out)]) k = Some d'"
      show "\<exists>m. (lim(?k \<mapsto> Size)) k = Some m \<and> nat m div 4 \<le> length d'"
        using k None own [of k d'] out by (cases "k = ?k") (auto simp: map_add_def split: option.splits)
    qed
    moreover have "length (flat its) + 1 + nat Size div 4 \<le> 16384" using new(2,4) by (simp add: fits_def)
    ultimately show ?thesis using g new(1) by auto
  qed (use g in auto)
qed

lemma update_items_kept:
  assumes "builds b its" "fits its" "pEnd \<le> 4 * int (length src)" "0 \<le> pos"
    and "sd_ItemSizes sd = sd_ItemSizes sd0" "sd_ItemSizes7 sd = sd_ItemSizes7 sd0"
    and "\<And>k. GetItemIndex pFrom k \<noteq> -1 \<Longrightarrow>
      \<exists>m. lim k = Some m \<and> (\<forall>n \<le> nat m div 4. in_mem pFrom (GetItem pFrom (GetItemIndex pFrom k) + 1) n)"
    and "\<And>k d. map_of its k = Some d \<Longrightarrow> \<exists>m. lim k = Some m \<and> nat m div 4 \<le> length d"
    and "within_sizes lim (delta_updates sd0 Sixup src pEnd n pos)"
  shows "fst (update_items e pFrom src pEnd Sixup n pos b sd) \<noteq> None"
  using assms
proof (induction n arbitrary: pos b sd its lim)
  case (Suc n)
  let ?T = "sint (word_at src pos)" and ?I = "sint (word_at src (pos + 1))"
  let ?k = "make_key ?T ?I"
  show ?case
  proof (cases "4 * (pos + 2) > pEnd \<or> ?T < 0 \<or> ?T > MAX_TYPE \<or> ?I < 0 \<or> ?I > MAX_ID")
    case True
    then show ?thesis using Suc.prems(3,4) by (auto simp: Let_def in_mem_def)
  next
    case ids: False
    then have mem: "in_mem src pos 2" using Suc.prems(3,4) by (simp add: in_mem_def)
    note same = update_size_cong [OF Suc.prems(5,6), of Sixup src pEnd ?T "pos + 2"]
    obtain r where r: "update_size sd0 Sixup src pEnd ?T (pos + 2) = Some r"
      using update_size_some(1) [OF Suc.prems(3), of "pos + 2" sd0 Sixup ?T] Suc.prems(4) by auto
    show ?thesis
    proof (cases "\<exists>Size pos'. r = Inr (Size, pos') \<and> 0 \<le> Size \<and> Size \<le> pEnd - 4 * pos'")
      case False
      with ids mem r same show ?thesis by (cases r) (auto simp: Let_def not_le)
    next
      case True
      then obtain Size pos' where s: "r = Inr (Size, pos')" "0 \<le> Size" "Size \<le> pEnd - 4 * pos'" by blast
      have pos': "pos + 2 \<le> pos'" using update_size_some(2) r s(1) by blast
      have ups: "delta_updates sd0 Sixup src pEnd (Suc n) pos = (?k, Size) # delta_updates sd0 Sixup src pEnd n (pos' + int (nat Size div 4))"
        using ids r s by (simp add: Let_def)
      have lim: "within_sizes (lim(?k \<mapsto> Size)) (delta_updates sd0 Sixup src pEnd n (pos' + int (nat Size div 4)))"
        and size: "\<And>m. lim ?k = Some m \<Longrightarrow> Size \<le> m"
        using Suc.prems(9) unfolding ups by simp_all
      have T: "0 \<le> ?T" "?T \<le> MAX_TYPE" using ids by simp_all
      obtain p b1 where p: "(case GetItemData b ?k of Some p \<Rightarrow> Some (Some p, b) | None \<Rightarrow> NewItem e b ?T ?I Size) = Some (p, b1)"
        and t: "\<And>q. p = Some q \<Longrightarrow> q + nat Size div 4 \<le> 16384" and
        w: "\<And>q out. p = Some q \<Longrightarrow> length out = nat Size div 4 \<Longrightarrow> \<exists>its'. builds (b1\<lparr>b_Data := write_words (b_Data b1) q out\<rparr>) its' \<and> fits its' \<and>
          (\<forall>k d. map_of its' k = Some d \<longrightarrow> (\<exists>m. (lim(?k \<mapsto> Size)) k = Some m \<and> nat m div 4 \<le> length d))"
        using update_target [OF Suc.prems(1,2) T s(2), of lim ?I e] Suc.prems(8) size by blast
      show ?thesis
      proof (cases p)
        case None
        with ids mem r same s p show ?thesis by (simp add: Let_def)
      next
        case (Some q)
        have src: "in_mem src pos' (nat Size div 4)"
          using s pos' Suc.prems(3,4) by (simp add: in_mem_def zdiv_int)
        have old: "in_mem pFrom (GetItem pFrom (GetItemIndex pFrom ?k) + 1) (nat Size div 4)" if known: "GetItemIndex pFrom ?k \<noteq> -1"
        proof -
          obtain m where m: "lim ?k = Some m" "\<forall>n \<le> nat m div 4. in_mem pFrom (GetItem pFrom (GetItemIndex pFrom ?k) + 1) n"
            using Suc.prems(7) known by blast
          have "nat Size div 4 \<le> nat m div 4" using size [OF m(1)] by (intro div_le_mono) simp
          with m(2) show ?thesis by blast
        qed
        obtain out sd' where a: "apply_update pFrom src ?T ?I Size pos' q b1 sd = Some (b1\<lparr>b_Data := write_words (b_Data b1) q out\<rparr>, sd')"
          "length out = nat Size div 4" "sd_ItemSizes sd' = sd_ItemSizes sd" "sd_ItemSizes7 sd' = sd_ItemSizes7 sd"
          using apply_update_some [OF src t [OF Some] old] by blast
        obtain its' where its': "builds (b1\<lparr>b_Data := write_words (b_Data b1) q out\<rparr>) its'" "fits its'"
          "\<And>k d. map_of its' k = Some d \<Longrightarrow> \<exists>m. (lim(?k \<mapsto> Size)) k = Some m \<and> nat m div 4 \<le> length d"
          using w [OF Some a(2)] by blast
        have from_mem: "\<exists>m. (lim(?k \<mapsto> Size)) k = Some m \<and> (\<forall>n \<le> nat m div 4. in_mem pFrom (GetItem pFrom (GetItemIndex pFrom k) + 1) n)"
          if k: "GetItemIndex pFrom k \<noteq> -1" for k
        proof (cases "k = ?k")
          case True
          obtain m where m: "lim ?k = Some m" "\<forall>n \<le> nat m div 4. in_mem pFrom (GetItem pFrom (GetItemIndex pFrom k) + 1) n"
            using Suc.prems(7) k True by blast
          have "nat Size div 4 \<le> nat m div 4" using size [OF m(1)] by (intro div_le_mono) simp
          with m(2) True show ?thesis by auto
        next
          case False
          with Suc.prems(7) k show ?thesis by simp
        qed
        have "0 \<le> pos' + int (nat Size div 4)" using pos' Suc.prems(4) by simp
        from Suc.IH [OF its'(1,2) Suc.prems(3) this _ _ from_mem its'(3) lim, of sd'] a(3,4) Suc.prems(5,6)
        show ?thesis using ids mem r same s p Some a(1) by (simp add: Let_def)
      qed
    qed
  qed
qed simp

lemma map_of_filter_key: "map_of (filter (\<lambda>x. fst x \<notin> D) xs) k = Some d \<Longrightarrow> map_of xs k = Some d"
proof -
  have "map_of (filter (\<lambda>x. fst x \<notin> D) xs) k = (if k \<in> D then None else map_of xs k)" by (induction xs) auto
  then show "map_of (filter (\<lambda>x. fst x \<notin> D) xs) k = Some d \<Longrightarrow> map_of xs k = Some d" by (auto split: if_splits)
qed

lemma map_of_items: "map_of (map (item_at s) is) k = Some d \<Longrightarrow>
    \<exists>i. find (\<lambda>i. ItemKey s i = k) is = Some i \<and> length d = nat (GetItemSize s i) div 4"
  by (induction "is") (auto simp: item_at_def ItemData_def split: if_splits)

lemma GetItemIndex_found:
  assumes "find (\<lambda>i. ItemKey s i = k) (indices s) = Some i"
  shows "GetItemIndex s k = i" "i \<in> set (indices s)" "i \<noteq> -1"
proof -
  show "GetItemIndex s k = i" using assms by (simp add: GetItemIndex_def)
  show "i \<in> set (indices s)" using assms by (auto simp: find_Some_iff)
  then show "i \<noteq> -1" by (auto simp: indices_def)
qed

lemma item_sizes_memory:
  assumes "IsValid s (4 * int (length s))" "GetItemIndex s k \<noteq> -1"
  shows "\<exists>m. item_sizes s k = Some m \<and> (\<forall>n \<le> nat m div 4. in_mem s (GetItem s (GetItemIndex s k) + 1) n)"
proof -
  obtain i where f: "find (\<lambda>i. ItemKey s i = k) (indices s) = Some i" using assms(2) by (auto simp: GetItemIndex_def split: option.splits)
  note i = GetItemIndex_found [OF f]
  show ?thesis using valid_memory(3) [OF assms(1) i(2)] i(1,3) by (simp add: item_sizes_def)
qed

lemma item_sizes_items:
  assumes "map_of (filter (\<lambda>x. fst x \<notin> D) (map (item_at s) (indices s))) k = Some d"
  shows "\<exists>m. item_sizes s k = Some m \<and> nat m div 4 \<le> length d"
proof -
  obtain i where f: "find (\<lambda>i. ItemKey s i = k) (indices s) = Some i" and d: "length d = nat (GetItemSize s i) div 4"
    using map_of_items [OF map_of_filter_key [OF assms]] by blast
  show ?thesis using GetItemIndex_found [OF f] d by (simp add: item_sizes_def)
qed

text \<open>
  C8: Whatever is received as a delta on a valid snapshot, \<open>UnpackDelta\<close> returns one of its error
  codes or a valid snapshot, with no failed assertion and no access outside the snapshot, the received
  bytes and the memory of the builder, unless the delta has an update that is larger than the item it
  goes to: that of the old snapshot, or that of an earlier update of the same delta. The code does not
  check this; \<open>delta_overruns\<close> below is a delta that writes behind \<open>m_aData\<close>.
\<close>

theorem unpack_delta_safe:
  assumes "IsValid pFrom (4 * int (length pFrom))" "2 \<le> length src" "pEnd \<le> 4 * int (length src)"
  shows "case fst (UnpackDelta e sd pFrom src pEnd Sixup) of
      None \<Rightarrow> \<not> sizes_kept sd pFrom src pEnd Sixup
    | Some (Inl err) \<Rightarrow> err \<in> set delta_errors
    | Some (Inr s) \<Rightarrow> IsValid s (4 * int (length s))"
proof -
  let ?n = "sint (word_at src 0)" and ?m = "nat (sint (word_at src 1))"
  have mem: "in_mem src 0 2" "in_mem pFrom 0 2" using assms(2) valid_memory(1) [OF assms(1)] by (simp_all add: in_mem_def)
  show ?thesis
  proof (cases "?n < 0 \<or> 4 * (3 + ?n) > pEnd")
    case True
    then show ?thesis using mem by (auto simp: UnpackDelta_def Let_def delta_errors_def)
  next
    case False
    let ?D = "read_words src 3 (nat ?n)"
    let ?copy = "copy_items e pFrom ?D (indices pFrom) (Builder_Init e False new_builder)"
    let ?its = "filter (\<lambda>x. fst x \<notin> set ?D) (map (item_at pFrom) (indices pFrom))"
    have del: "in_mem src 3 (nat ?n)" using False assms(3) by (simp add: in_mem_def)
    have "\<forall>i \<in> set (indices pFrom). 0 \<le> GetItemSize pFrom i \<and> in_mem pFrom (GetItem pFrom i) 1 \<and>
        in_mem pFrom (GetItem pFrom i + 1) (nat (GetItemSize pFrom i) div 4)"
      using valid_memory [OF assms(1)] valid_sizes [OF assms(1)] by blast
    from copy_items_copies [OF this builds_new, of e ?D]
    have "?copy = Some (Inl (-301)) \<or> (\<exists>b. ?copy = Some (Inr b) \<and> builds b ?its \<and> fits ?its)" by (simp add: fits_def)
    then show ?thesis
    proof (elim disjE exE conjE)
      fix b assume b: "?copy = Some (Inr b)" "builds b ?its" "fits ?its"
      let ?u = "update_items e pFrom src pEnd Sixup ?m (3 + ?n) b sd"
      have safe: "case fst ?u of None \<Rightarrow> True | Some (Inl err) \<Rightarrow> err \<in> set delta_errors | Some (Inr b') \<Rightarrow> builder_ok b'"
        by (rule update_items_safe [OF builds_ok [OF b(2,3)]])
      have kept: "fst ?u \<noteq> None" if "sizes_kept sd pFrom src pEnd Sixup"
        by (rule update_items_kept [OF b(2,3) assms(3) _ refl refl item_sizes_memory [OF assms(1)] item_sizes_items])
          (use that False in \<open>simp_all add: sizes_kept_def\<close>)
      have u: "UnpackDelta e sd pFrom src pEnd Sixup = (case ?u of (None, sd) \<Rightarrow> (None, sd)
          | (Some (Inl err), sd) \<Rightarrow> (Some (Inl err), sd) | (Some (Inr b), sd) \<Rightarrow> (map_option Inr (Finish b), sd))"
        using False b(1) mem del by (simp add: UnpackDelta_def Let_def)
      obtain r sd' where r: "?u = (r, sd')" by fastforce
      show ?thesis
      proof (cases r)
        case None
        then show ?thesis using u r kept by auto
      next
        case (Some x)
        then show ?thesis using u r safe by (cases x) (auto dest!: Finish_ok)
      qed
    qed (use False mem del in \<open>simp add: UnpackDelta_def Let_def delta_errors_def\<close>)
  qed
qed

text \<open>
  An item that fills the builder up to four words, a new item without data behind it, and an update of
  that with five words: the last word is written behind \<open>m_aData\<close>, into \<open>m_DataSize\<close>.
\<close>

lemma delta_overruns:
  "fst (UnpackDelta e new_delta (snap_of [(0x10000, replicate 16378 0)]) [0, 2, 0, 2, 0, 0, 2, 0, 5, 1, 2, 3, 4, 5] 56 False) = None"
proof -
  let ?A = "[(0x10000, replicate 16378 0)] :: items" and ?src = "[0, 2, 0, 2, 0, 0, 2, 0, 5, 1, 2, 3, 4, 5] :: i32 list"
  have fits: "fits ?A" "fits (?A @ [(0x20000, [])])" by (simp_all add: fits_def)
  have ok: "list_all (item_ok (\<lambda>_. 0)) ?A" by (simp add: item_ok_def type_of_def)
  obtain b where b: "copy_items e (snap_of ?A) [] (map int [0..<1]) (Builder_Init e False new_builder) = Some (Inr b)" "builds b ?A"
    using copy_items_builds [OF fits(1) ok append_Nil [symmetric] builds_new, of "[]" e] fits(1) by auto
  have k: "make_key 2 0 = 0x20000" by (simp add: make_key_def push_bit_eq_mult)
  have absent: "GetItemIndex (snap_of ?A) 0x20000 = -1" by (rule GetItemIndex_absent [OF fits(1)]) simp
  have new: "GetItemData b 0x20000 = None" by (rule GetItemData_absent [OF b(2)]) simp
  have "\<exists>b1. NewItem e b 2 0 0 = Some (Some (length (flat ?A) + 1), b1) \<and> builds b1 (?A @ [(make_key 2 0, replicate (length ([] :: i32 list)) 0)])"
    by (rule NewItem_builds [OF b(2)]) (use fits(2) k in \<open>simp_all add: MAX_TYPE_def\<close>)
  then obtain b1 where b1: "NewItem e b 2 0 0 = Some (Some (length (flat ?A) + 1), b1)" "builds b1 (?A @ [(0x20000, [])])"
    unfolding k by auto
  have w: "write_words s p [] = s" for s p by (simp add: write_words_def)
  have old: "GetItemData b1 0x20000 = Some 16380" using GetItemData_present [of b1 ?A "0x20000" "[]" "[]"] b1(2) by simp
  obtain sd' where one: "apply_update (snap_of ?A) ?src 2 0 0 6 (length (flat ?A) + 1) b1 new_delta = Some (b1, sd')"
      "sd_ItemSizes sd' = sd_ItemSizes new_delta"
    using absent by (auto simp: apply_update_def k Let_def in_mem_def MAX_SIZE_def w read_words_def)
  have two: "apply_update (snap_of ?A) ?src 2 0 20 9 16380 b1 sd' = None"
    using absent by (simp add: apply_update_def k Let_def in_mem_def MAX_SIZE_def)
  have "fst (update_items e (snap_of ?A) ?src 56 False 2 3 b new_delta) = None"
    using new b1(1) old one two
    by (simp add: numeral_2_eq_2 Let_def in_mem_def word_at_def update_size_def k MAX_TYPE_def MAX_ID_def new_delta_def nth_Cons')
  moreover have "in_mem (snap_of ?A) 0 2" by (simp add: in_mem_def snap_of_def)
  moreover have "indices (snap_of ?A) = map int [0..<1]" using fits(1) by simp
  ultimately show ?thesis using b(1)
    by (auto simp: UnpackDelta_def Let_def in_mem_def word_at_def read_words_def split: prod.splits)
qed

section \<open>Examples\<close>

text \<open>Two snapshots: one item changes, one goes and one comes; and a table that has the size of type 1.\<close>

definition old_items :: items where
  "old_items = [(0x10000, [1, 2]), (0x20001, [5])]"

definition new_items :: items where
  "new_items = [(0x10000, [1, 3]), (0x30002, [7, 8, 9])]"

definition example_delta :: CSnapshotDelta where
  "example_delta = new_delta\<lparr>sd_ItemSizes := (\<lambda>_. 0)(1 := 8)\<rparr>"

definition one_uuid :: CUuidManager where
  "one_uuid = \<lparr>um_Names = [(CUuid TEEWORLDS_NAMESPACE, [97])], um_NamesSorted = [(CUuid TEEWORLDS_NAMESPACE, 0)]\<rparr>"

definition uuid_env :: snap_env where
  "uuid_env = \<lparr>e_Uuids = one_uuid, e_SixToSeven = id\<rparr>"

lemma fits_examples: "fits old_items" "fits new_items"
  by (simp_all add: fits_def old_items_def new_items_def)

lemma delta_pre_example: "delta_pre (sd_ItemSizes example_delta) old_items new_items"
proof -
  have "bucket_ok (snap_of old_items)" "bucket_ok (snap_of new_items)"
    by (rule bucket_ok_small; simp add: fits_examples; simp add: old_items_def new_items_def)+
  then show ?thesis
    by (simp add: delta_pre_def fits_examples)
      (simp add: old_items_def new_items_def item_ok_def type_of_def example_delta_def new_delta_def MAX_NETOBJSIZES_def drop_bit_eq_div)
qed

lemma delta_roundtrip_witness:
  "fst (UnpackDelta uuid_env example_delta (snap_of old_items)
      (fst (CreateDelta example_delta (snap_of old_items) (snap_of new_items)))
      (4 * int (length (fst (CreateDelta example_delta (snap_of old_items) (snap_of new_items))))) False) =
    Some (Inr (snap_of new_items))"
proof -
  have "merged old_items new_items new_items = new_items"
    by (simp add: merged_def override_def old_items_def new_items_def)
  then show ?thesis using delta_roundtrip [OF delta_pre_example refl, of uuid_env] by simp
qed

lemma unpack_delta_safe_witness:
  "fst (UnpackDelta uuid_env example_delta (snap_of old_items) [0, 1, 0, 1, 0, 5, 6] 28 False) \<noteq> None"
proof -
  have k: "make_key 1 0 = 0x10000" by (simp add: make_key_def push_bit_eq_mult)
  have "GetItemIndex (snap_of old_items) 0x10000 = 0" "GetItemSize (snap_of old_items) 0 = 8"
    using GetItemIndex_present [OF fits_examples(1), of 0] snap_nth(2) [OF fits_examples(1), of 0] by (simp_all add: old_items_def)
  then have "sizes_kept example_delta (snap_of old_items) [0, 1, 0, 1, 0, 5, 6] 28 False"
    by (simp add: sizes_kept_def word_at_def update_size_def example_delta_def MAX_NETOBJSIZES_def Let_def k item_sizes_def)
  moreover have "IsValid (snap_of old_items) (4 * int (length (snap_of old_items)))" by (rule snap_valid [OF fits_examples(1)])
  ultimately show ?thesis
    using unpack_delta_safe [where pFrom = "snap_of old_items" and src = "[0, 1, 0, 1, 0, 5, 6]" and pEnd = 28 and e = uuid_env
      and sd = example_delta and Sixup = False] by (auto split: option.splits)
qed

end
