(* ===== verification/SnapshotBuild.thy ===== *)
theory SnapshotBuild
  imports SnapshotDelta
begin

text \<open>
  The builder and the storage of \<^verbatim>\<open>src/src/engine/shared/snapshot.cpp\<close>: what is built item by item is
  found in the snapshot, extended types lead to their UUID, and the storage is a map from ticks.
\<close>

section \<open>Building a snapshot item by item\<close>

text \<open>Items made and filled one after the other, as the server does; what does not fit is left out.\<close>

fun build_items :: "snap_env \<Rightarrow> (int \<times> int \<times> i32 list) list \<Rightarrow> CSnapshotBuilder \<Rightarrow> CSnapshotBuilder option" where
  "build_items e [] b = Some b"
| "build_items e ((Type, ID, d) # ops) b =
     (case NewItem e b Type ID (4 * int (length d)) of
        None \<Rightarrow> None
      | Some (None, b) \<Rightarrow> build_items e ops b
      | Some (Some p, b) \<Rightarrow> build_items e ops (b\<lparr>b_Data := write_words (b_Data b) p d\<rparr>))"

text \<open>The same on lists.\<close>

fun build_spec :: "(int \<times> int \<times> i32 list) list \<Rightarrow> items \<Rightarrow> items" where
  "build_spec [] its = its"
| "build_spec ((Type, ID, d) # ops) its =
     build_spec ops (if 0 \<le> Type \<and> ID \<noteq> -1 \<and> fits (its @ [(make_key Type ID, d)])
                     then its @ [(make_key Type ID, d)] else its)"

lemma NewItem_refused:
  assumes b: "builds b its" "fits its" and t: "Type \<le> MAX_TYPE"
    and no: "\<not> (0 \<le> Type \<and> ID \<noteq> -1 \<and> fits (its @ [(make_key Type ID, d)]))"
  shows "NewItem e b Type ID (4 * int (length d)) = Some (None, b)"
proof -
  have plain: "\<not> OFFSET_UUID \<le> Type" using t by (simp add: OFFSET_UUID_def MAX_TYPE_def)
  have room: "room_for_item b (4 * int (length d)) \<longleftrightarrow> fits (its @ [(make_key Type ID, d)])" using b
    by (auto simp: room_for_item_def builds_def fits_def MAX_ITEMS_def MAX_SIZE_def)
  have "\<not> b_Sixup b" using b by (simp add: builds_def)
  then show ?thesis using plain room no by (auto simp: NewItem_def NewItem_plain_def)
qed

lemma build_items_spec:
  assumes "builds b its" "fits its" "\<forall>(Type, ID, d) \<in> set ops. Type \<le> MAX_TYPE"
  shows "\<exists>b'. build_items e ops b = Some b' \<and> builds b' (build_spec ops its) \<and> fits (build_spec ops its)"
  using assms
proof (induction ops arbitrary: b its)
  case (Cons op ops)
  obtain Type ID d where op: "op = (Type, ID, d)" by (cases op)
  have t: "Type \<le> MAX_TYPE" using Cons.prems(3) op by simp
  show ?case
  proof (cases "0 \<le> Type \<and> ID \<noteq> -1 \<and> fits (its @ [(make_key Type ID, d)])")
    case True
    then have "\<exists>b'. NewItem e b Type ID (4 * int (length d)) = Some (Some (length (flat its) + 1), b') \<and>
        builds b' (its @ [(make_key Type ID, replicate (length d) 0)])"
      using NewItem_builds [OF Cons.prems(1) _ t _ _ refl, of ID "make_key Type ID" d e] by blast
    then obtain b' where b': "NewItem e b Type ID (4 * int (length d)) = Some (Some (length (flat its) + 1), b')"
        "builds b' (its @ (make_key Type ID, replicate (length d) 0) # [])"
      by blast
    have "builds (b'\<lparr>b_Data := write_words (b_Data b') (length (flat its) + 1) d\<rparr>) (its @ [(make_key Type ID, d)])"
      by (rule builds_write [OF b'(2)]) simp_all
    from Cons.IH [OF this] show ?thesis using True b'(1) Cons.prems(3) by (simp add: op)
  next
    case False
    from NewItem_refused [OF Cons.prems(1,2) t False, of e] Cons.IH [OF Cons.prems(1,2)] False Cons.prems(3)
    show ?thesis by (auto simp: op)
  qed
qed simp

text \<open>
  C38: Items of plain types, made and filled one after the other in a new builder: \<open>Finish\<close> gives
  the valid snapshot of the items in this order, less those that are refused.
\<close>
theorem builder_builds:
  assumes "\<forall>(Type, ID, d) \<in> set ops. Type \<le> MAX_TYPE"
  shows "Option.bind (build_items e ops (Builder_Init e False new_builder)) Finish = Some (snap_of (build_spec ops [])) \<and>
    IsValid (snap_of (build_spec ops [])) (4 * int (length (snap_of (build_spec ops []))))"
proof -
  have "fits []" by (simp add: fits_def)
  then obtain b where "build_items e ops (Builder_Init e False new_builder) = Some b"
      "builds b (build_spec ops [])" "fits (build_spec ops [])"
    using build_items_spec [OF builds_new _ assms, of e] by blast
  then show ?thesis by (simp add: Finish_builds snap_valid)
qed

section \<open>Finding items\<close>

lemma GetItemIndex_first:
  assumes "fits (xs @ (k, d) # ys)" "k \<notin> set (keys xs)"
  shows "GetItemIndex (snap_of (xs @ (k, d) # ys)) k = int (length xs)"
proof -
  let ?its = "xs @ (k, d) # ys"
  have "find (\<lambda>i. ItemKey (snap_of ?its) (int i) = k) [0..<length ?its] = Some (length xs)"
    unfolding find_upt_Some
  proof (intro conjI allI impI)
    show "length xs < length ?its" by simp
    show "ItemKey (snap_of ?its) (int (length xs)) = k" using ItemKey_snap [OF assms(1)] by simp
    fix j assume j: "j < length xs"
    then have "ItemKey (snap_of ?its) (int j) = fst (xs ! j)"
      using snap_nth(1) [OF assms(1), of j] by (simp add: nth_append)
    with assms(2) j show "ItemKey (snap_of ?its) (int j) \<noteq> k" by force
  qed
  then show ?thesis using assms(1) by (simp add: GetItemIndex_def find_map del: upt_Suc)
qed

lemma make_key_bits:
  assumes "0 \<le> Type" "Type \<le> MAX_TYPE" "0 \<le> ID" "ID \<le> MAX_ID"
  shows "bit (make_key Type ID) n \<longleftrightarrow> (16 \<le> n \<and> n < 31 \<and> bit Type (n - 16)) \<or> (n < 16 \<and> bit ID n)"
proof -
  have "Type = take_bit 15 Type" "ID = take_bit 16 ID"
    using assms by (simp_all add: take_bit_int_eq_self MAX_TYPE_def MAX_ID_def)
  then have b: "bit Type m \<Longrightarrow> m < 15" "bit ID m \<Longrightarrow> m < 16" for m
    by (metis bit_take_bit_iff)+
  show ?thesis
    unfolding make_key_def by (auto simp: bit_simps dest: b)
qed

lemma type_of_make_key:
  assumes "0 \<le> Type" "Type \<le> MAX_TYPE" "0 \<le> ID" "ID \<le> MAX_ID"
  shows "type_of (make_key Type ID) = Type" "id_of (make_key Type ID) = ID"
proof -
  have "Type = take_bit 15 Type" "ID = take_bit 16 ID"
    using assms by (simp_all add: take_bit_int_eq_self MAX_TYPE_def MAX_ID_def)
  then have b: "bit Type m \<Longrightarrow> m < 15" "bit ID m \<Longrightarrow> m < 16" for m
    by (metis bit_take_bit_iff)+
  have m: "(0xFFFF :: i32) = mask 16" by (simp add: mask_eq_exp_minus_1)
  note bits = make_key_bits [OF assms]
  show "type_of (make_key Type ID) = Type"
    unfolding type_of_def
    by (rule bit_eqI) (auto simp: bit_drop_bit_eq bit_sint_iff bits min_def dest: b(1))
  show "id_of (make_key Type ID) = ID"
    unfolding id_of_def m
    by (rule bit_eqI) (auto simp: bit_uint_iff bit_and_iff bit_mask_iff bits dest: b(2))
qed

text \<open>
  In a snapshot a builder made, \<open>FindItem\<close> leads for a plain type and an id to the data of the
  first item with this type and id, and to none if there is none.
\<close>
theorem find_item_data:
  assumes "fits its" "0 \<le> Type" "Type < OFFSET_UUID_TYPE" "0 \<le> ID" "ID \<le> MAX_ID"
  shows "case map_of its (make_key Type ID) of
      None \<Rightarrow> FindItem m (snap_of its) Type ID = None
    | Some d \<Rightarrow> \<exists>p. FindItem m (snap_of its) Type ID = Some p \<and> read_words (snap_of its) p (length d) = d"
proof (cases "map_of its (make_key Type ID)")
  case None
  then have "make_key Type ID \<notin> set (keys its)" by (simp add: map_of_eq_None_iff)
  then show ?thesis using None assms GetItemIndex_absent [OF assms(1)]
    by (simp add: FindItem_def OFFSET_UUID_def OFFSET_UUID_TYPE_def)
next
  case (Some d)
  let ?k = "make_key Type ID"
  obtain xs ys where its: "its = xs @ (?k, d) # ys" "?k \<notin> set (keys xs)"
    using Some
  proof (induction its)
    case (Cons x its)
    show ?case
    proof (cases "fst x = ?k")
      case True
      then show ?thesis using Cons.prems by (cases x) (auto intro: Cons.prems(1) [of "[]"])
    next
      case False
      then show ?thesis using Cons.prems Cons.IH by (cases x) (force intro: Cons.prems(1) [of "x # _"])
    qed
  qed simp
  have fits: "fits (xs @ (?k, d) # ys)" using assms(1) its(1) by simp
  have "FindItem m (snap_of its) Type ID = Some (GetItem (snap_of its) (int (length xs)) + 1)"
    using assms(3) GetItemIndex_first [OF fits its(2)]
    by (simp add: FindItem_def OFFSET_UUID_def OFFSET_UUID_TYPE_def its(1))
  moreover have "read_words (snap_of its) (GetItem (snap_of its) (int (length xs)) + 1) (length d) = d"
    using ItemData_snap [OF fits] by (simp add: ItemData_def its(1))
  ultimately show ?thesis using Some by auto
qed

section \<open>Extended item types\<close>

text \<open>The item that carries the UUID of the \<open>i\<close>-th extended type.\<close>

definition ext_key :: "nat \<Rightarrow> i32" where
  "ext_key i = make_key 0 (GetTypeFromIndex (int i))"

definition ext_ok :: "CUuidManager \<Rightarrow> int list \<Rightarrow> items \<Rightarrow> bool" where
  "ext_ok m exts its \<longleftrightarrow> length exts \<le> 64 \<and>
     (\<forall>i < length exts. map_of its (ext_key i) = Some (uuid_words (GetUuid m (exts ! i)))) \<and>
     (\<forall>i < 64. length exts \<le> i \<longrightarrow> ext_key i \<notin> set (keys its))"

lemma bytes_be_words:
  assumes "length bs = 4"
  shows "uint_to_bytes_be (bytes_be_to_uint (bs @ rest)) = bs"
proof -
  obtain a b c d where bs: "bs = [a, b, c, d]" using assms by (auto simp: length_Suc_conv numeral_eq_Suc)
  have big: "\<not> bit (x :: u8) (8 + m)" "\<not> bit x (16 + m)" "\<not> bit x (24 + m)" for x m
    by (auto dest: bit_imp_le_length)
  show ?thesis
    unfolding bs uint_to_bytes_be_def bytes_be_to_uint_def
    by (auto intro!: bit_word_eqI simp: bit_simps big)
qed

lemma uuid_words_inverse:
  assumes "length (m_aData u) = 16"
  shows "uuid_of_words (uuid_words u) = u"
proof -
  define p where "p = m_aData u"
  define a b c d where ps: "a = take 4 p" "b = take 4 (drop 4 p)" "c = take 4 (drop 8 p)" "d = take 4 (drop 12 p)"
  have len: "length a = 4" "length b = 4" "length c = 4" "length d = 4" using assms by (simp_all add: ps p_def)
  have p: "p = a @ b @ c @ d"
    using assms unfolding ps by (intro nth_equalityI) (auto simp: nth_append min_def p_def)
  have upt: "[0..<4] = [0, 1, 2, 3 :: nat]" by (simp add: upt_rec)
  have "concat (map uint_to_bytes_be (uuid_words u)) = p"
    using bytes_be_words [OF len(1), of "b @ c @ d"] bytes_be_words [OF len(2), of "c @ d"]
      bytes_be_words [OF len(3), of d] bytes_be_words [OF len(4), of "[]"] len
    by (simp add: uuid_words_def upt p_def [symmetric]) (simp add: p)
  then show ?thesis by (simp add: uuid_of_words_def p_def)
qed

lemma length_uuid_words [simp]: "length (uuid_words u) = 4"
  by (simp add: uuid_words_def)

text \<open>The type of an extended item is found by its UUID.\<close>

lemma GetExternalItemType_ext:
  assumes "fits its" "ext_ok m exts its" "i < length exts" "registry_ok m" "exts ! i = OFFSET_UUID + int j"
    and "j < length (um_Names m)" "length (m_aData (fst (um_Names m ! j))) = 16"
  shows "GetExternalItemType m (snap_of its) (GetTypeFromIndex (int i)) = exts ! i"
proof -
  let ?u = "GetUuid m (exts ! i)"
  have i: "i < 64" using assms(2,3) by (simp add: ext_ok_def)
  have u: "?u = fst (um_Names m ! j)" by (simp add: GetUuid_def GetIndex_def assms(5))
  have "map_of its (ext_key i) = Some (uuid_words ?u)" using assms(2,3) by (simp add: ext_ok_def)
  from map_of_split [OF this] obtain xs ys
    where its: "its = xs @ (ext_key i, uuid_words ?u) # ys" "ext_key i \<notin> set (keys xs)"
    by (elim exE conjE)
  have fits: "fits (xs @ (ext_key i, uuid_words ?u) # ys)" using assms(1) its(1) by simp
  have key: "word_of_int (GetTypeFromIndex (int i)) = ext_key i" by (simp add: ext_key_def make_key_def)
  have ext: "\<not> GetTypeFromIndex (int i) < OFFSET_UUID_TYPE"
    using i by (simp add: GetTypeFromIndex_def OFFSET_UUID_TYPE_def MAX_TYPE_def)
  have data: "ItemData (snap_of its) (int (length xs)) 4 = uuid_words ?u"
    using ItemData_snap [OF fits] by (simp add: its(1))
  have size: "GetItemSize (snap_of its) (int (length xs)) = 16"
    using GetItemSize_snap [OF fits] by (simp add: its(1))
  have "GetExternalItemType m (snap_of its) (GetTypeFromIndex (int i)) = LookupUuid m (uuid_of_words (uuid_words ?u))"
    using ext GetItemIndex_first [OF fits its(2)] data size
    by (simp add: GetExternalItemType_def key Let_def its(1))
  also have "\<dots> = OFFSET_UUID + int j"
    using uuid_words_inverse [of ?u] lookup_registered [OF assms(4,6)] assms(7) by (simp add: u)
  finally show ?thesis by (simp add: assms(5))
qed

lemma ext_key_inj: "i < 64 \<Longrightarrow> j < 64 \<Longrightarrow> ext_key i = ext_key j \<longleftrightarrow> i = j"
proof
  assume ij: "i < 64" "j < 64" and eq: "ext_key i = ext_key j"
  have "id_of (ext_key n) = MAX_TYPE - int n" if "n < 64" for n
    unfolding ext_key_def GetTypeFromIndex_def
    by (rule type_of_make_key(2)) (use that in \<open>simp_all add: MAX_TYPE_def MAX_ID_def\<close>)
  then have "MAX_TYPE - int i = MAX_TYPE - int j" using ij eq by metis
  then show "i = j" by simp
qed simp

lemma type_of_ext_key: "n < 64 \<Longrightarrow> type_of (ext_key n) = 0"
  unfolding ext_key_def GetTypeFromIndex_def
  by (rule type_of_make_key(1)) (simp_all add: MAX_TYPE_def MAX_ID_def)

text \<open>An item whose type is not 0 does not disturb the extended types.\<close>

lemma ext_ok_snoc:
  assumes "ext_ok m exts its" "type_of k \<noteq> 0"
  shows "ext_ok m exts (its @ [(k, d)])"
proof -
  have "k \<noteq> ext_key i" if "i < 64" for i using type_of_ext_key [OF that] assms(2) by auto
  with assms(1) show ?thesis by (auto simp: ext_ok_def map_add_Some_iff)
qed

lemma ext_ok_new:
  assumes "ext_ok m exts its" "length exts < 64"
  shows "ext_ok m (exts @ [Type]) (its @ [(ext_key (length exts), uuid_words (GetUuid m Type))])"
proof -
  let ?its = "its @ [(ext_key (length exts), uuid_words (GetUuid m Type))]"
  have none: "map_of its (ext_key (length exts)) = None"
    using assms by (simp add: ext_ok_def map_of_eq_None_iff)
  have "map_of ?its (ext_key i) = Some (uuid_words (GetUuid m ((exts @ [Type]) ! i)))" if "i < Suc (length exts)" for i
  proof (cases "i = length exts")
    case True
    then show ?thesis using none by (simp add: map_add_def)
  next
    case False
    then have "i < length exts" using that by simp
    then show ?thesis using assms(1) by (simp add: ext_ok_def map_add_Some_iff nth_append)
  qed
  moreover have "ext_key i \<notin> set (keys ?its)" if "i < 64" "Suc (length exts) \<le> i" for i
    using that assms ext_key_inj [of i "length exts"] by (auto simp: ext_ok_def)
  ultimately show ?thesis using assms(2) by (simp add: ext_ok_def)
qed

lemma AddExtendedItemType_builds:
  assumes b: "builds b its" and i: "i < 64" and room: "fits (its @ [(ext_key i, uuid_words u)])"
    and u: "u = GetUuid (e_Uuids e) (b_ExtendedItemTypes b ! i)"
  shows "\<exists>b'. AddExtendedItemType e b i = (True, b') \<and> builds b' (its @ [(ext_key i, uuid_words u)]) \<and>
     b_ExtendedItemTypes b' = b_ExtendedItemTypes b"
proof -
  have "room_for_item b 16" using b room
    by (simp add: room_for_item_def builds_def fits_def MAX_ITEMS_def MAX_SIZE_def)
  moreover have "\<not> b_Sixup b" using b by (simp add: builds_def)
  moreover have "GetTypeFromIndex (int i) \<noteq> -1" using i by (simp add: GetTypeFromIndex_def MAX_TYPE_def)
  ultimately have new: "NewItem_plain e b 0 (GetTypeFromIndex (int i)) 16 = append_item b 0 (GetTypeFromIndex (int i)) 16"
    by (simp add: NewItem_plain_def)
  obtain p b1 where a: "append_item b 0 (GetTypeFromIndex (int i)) 16 = (p, b1)" by fastforce
  have b1: "builds b1 (its @ (ext_key i, replicate 4 0) # [])" "p = Some (length (flat its) + 1)"
    "b_ExtendedItemTypes b1 = b_ExtendedItemTypes b"
    using builds_append [OF b a] a by (auto simp: ext_key_def append_item_def)
  have "builds (b1\<lparr>b_Data := write_words (b_Data b1) (length (flat its) + 1) (uuid_words u)\<rparr>) (its @ (ext_key i, uuid_words u) # [])"
    by (rule builds_write [OF b1(1)]) simp_all
  then show ?thesis using new a b1(2,3) u by (simp add: AddExtendedItemType_def)
qed

text \<open>
  An item of an extended type, made in a builder with room for two more items, has in the
  finished snapshot the type it was made with, by way of the item that carries the UUID; the types
  of the items before it stay as they were.
\<close>
theorem extended_type_found:
  assumes b: "builds b its" "ext_ok (e_Uuids e) (b_ExtendedItemTypes b) its"
    and reg: "registry_ok (e_Uuids e)" "j < length (um_Names (e_Uuids e))"
      "length (m_aData (fst (um_Names (e_Uuids e) ! j))) = 16"
    and few: "length (b_ExtendedItemTypes b) < 64" and id: "0 \<le> ID" "ID \<le> MAX_ID"
    and room: "length its + 2 \<le> 1024" "8 + 4 * (length its + 2) + 4 * (length (flat its) + 5 + 1 + n) \<le> 65536"
  shows "\<exists>p b' its'. NewItem e b (OFFSET_UUID + int j) ID (4 * int n) = Some (Some p, b') \<and>
     builds b' its' \<and> fits its' \<and> ext_ok (e_Uuids e) (b_ExtendedItemTypes b') its' \<and>
     snd (last its') = replicate n 0 \<and>
     GetItemType (e_Uuids e) (snap_of its') (int (length its') - 1) = OFFSET_UUID + int j \<and>
     (\<exists>zs. its' = its @ zs)"
proof -
  let ?m = "e_Uuids e" and ?T = "OFFSET_UUID + int j" and ?exts = "b_ExtendedItemTypes b"
  have T: "OFFSET_UUID \<le> ?T" by simp
  have ID: "ID \<noteq> -1" using id by simp
  have r: "room_for_item b (4 * int n)" using b room
    by (simp add: room_for_item_def builds_def MAX_ITEMS_def MAX_SIZE_def)
  have step: ?thesis
    if g: "GetExtendedItemTypeIndex e b ?T = Some (int i, b1)" and b1: "builds b1 its1" "b_ExtendedItemTypes b1 = exts1"
      and ok: "ext_ok ?m exts1 its1" "i < length exts1" "exts1 ! i = ?T" and len: "its1 = its @ zs" "length zs \<le> 1"
        "length (flat its1) \<le> length (flat its) + 5"
    for i b1 exts1 its1 zs
  proof -
    let ?Type = "GetTypeFromIndex (int i)"
    let ?new = "(make_key ?Type ID, replicate n 0)"
    let ?its = "its1 @ [?new]"
    have i: "i < 64" using ok by (simp add: ext_ok_def)
    have key: "type_of (make_key ?Type ID) = ?Type" "?Type \<noteq> 0"
    proof -
      show "type_of (make_key ?Type ID) = ?Type" unfolding GetTypeFromIndex_def
        by (rule type_of_make_key(1)) (use i id in \<open>simp_all add: MAX_TYPE_def\<close>)
      show "?Type \<noteq> 0" using i by (simp add: GetTypeFromIndex_def MAX_TYPE_def)
    qed
    obtain p b2 where a: "append_item b1 ?Type ID (4 * int n) = (p, b2)" by fastforce
    have b2: "builds b2 ?its" "p = Some (length (flat its1) + 1)" "b_ExtendedItemTypes b2 = exts1"
      using builds_append [OF b1(1) a] a b1(2) by (auto simp: append_item_def nat_size)
    have fits: "fits ?its" using len room by (simp add: fits_def)
    have ok': "ext_ok ?m exts1 ?its" using ext_ok_snoc [OF ok(1)] key by simp
    have "NewItem e b ?T ID (4 * int n) = Some (p, b2)"
      using ID r g a by (simp add: NewItem_def)
    moreover have "ItemKey (snap_of ?its) (int (length ?its) - 1) = make_key ?Type ID"
      using ItemKey_snap [of its1 ?new "[]"] fits by simp
    then have "GetItemType ?m (snap_of ?its) (int (length ?its) - 1) = ?T"
      using GetExternalItemType_ext [OF fits ok' ok(2) reg(1) ok(3) reg(2,3)] key(1) ok(3)
      by (simp only: GetItemType_def)
    ultimately show ?thesis using b2 fits ok' len(1)
      by (intro exI [of _ "length (flat its1) + 1"] exI [of _ b2] exI [of _ ?its]) simp
  qed
  show ?thesis
  proof (cases "find (\<lambda>i. ?exts ! i = ?T) [0..<length ?exts]")
    case (Some i)
    then have "i < length ?exts" "?exts ! i = ?T" by (simp_all only: find_upt_Some)
    moreover have "GetExtendedItemTypeIndex e b ?T = Some (int i, b)" using Some by (simp add: GetExtendedItemTypeIndex_def)
    ultimately show ?thesis using b by (intro step [of i b its ?exts "[]"]) simp_all
  next
    case None
    let ?i = "length ?exts" and ?u = "GetUuid ?m ?T"
    let ?b = "b\<lparr>b_ExtendedItemTypes := ?exts @ [?T]\<rparr>"
    have "builds ?b its" using b(1) by (simp add: builds_def)
    moreover have "fits (its @ [(ext_key ?i, uuid_words ?u)])" using room by (simp add: fits_def)
    ultimately have "\<exists>b'. AddExtendedItemType e ?b ?i = (True, b') \<and> builds b' (its @ [(ext_key ?i, uuid_words ?u)]) \<and>
        b_ExtendedItemTypes b' = b_ExtendedItemTypes ?b"
      by (rule AddExtendedItemType_builds [OF _ few]) simp
    then obtain b' where b': "AddExtendedItemType e ?b ?i = (True, b')"
        "builds b' (its @ [(ext_key ?i, uuid_words ?u)])" "b_ExtendedItemTypes b' = ?exts @ [?T]"
      by (elim exE conjE) simp
    have "GetExtendedItemTypeIndex e b ?T = Some (int ?i, b')"
      using None few b'(1) by (simp add: GetExtendedItemTypeIndex_def)
    then show ?thesis using b' ext_ok_new [OF b(2) few, of ?T]
      by (intro step [of ?i b' "its @ [(ext_key ?i, uuid_words ?u)]" "?exts @ [?T]" "[(ext_key ?i, uuid_words ?u)]"]) simp_all
  qed
qed

text \<open>
  The check of \<open>NewItem\<close> does not count the item that a new extended type adds: in a builder with
  1023 items an item of a new extended type makes 1025, one more than the array of the offsets holds,
  and \<open>Finish\<close> fails.
\<close>
theorem extended_type_overflow:
  assumes "length (b_Offsets b) = 1023" "int (length (b_Data b)) + int n + 6 \<le> 15358" "OFFSET_UUID \<le> Type" "ID \<noteq> -1"
    "Type \<notin> set (b_ExtendedItemTypes b)" "length (b_ExtendedItemTypes b) < 64" "\<not> b_Sixup b"
  shows "\<exists>p b'. NewItem e b Type ID (4 * int n) = Some (Some p, b') \<and> length (b_Offsets b') = 1025 \<and> Finish b' = None"
proof -
  let ?i = "length (b_ExtendedItemTypes b)"
  let ?b = "b\<lparr>b_ExtendedItemTypes := b_ExtendedItemTypes b @ [Type]\<rparr>"
  have none: "find (\<lambda>i. b_ExtendedItemTypes b ! i = Type) [0..<?i] = None"
    using assms(5) by (auto simp: find_upt_None)
  have room: "room_for_item b (4 * int n)" using assms(1,2) by (simp add: room_for_item_def MAX_ITEMS_def MAX_SIZE_def)
  have room': "room_for_item ?b 16" using assms(1,2) by (simp add: room_for_item_def MAX_ITEMS_def MAX_SIZE_def)
  have "GetTypeFromIndex (int ?i) \<noteq> -1" using assms(6) by (simp add: GetTypeFromIndex_def MAX_TYPE_def)
  then have "NewItem_plain e ?b 0 (GetTypeFromIndex (int ?i)) 16 = append_item ?b 0 (GetTypeFromIndex (int ?i)) 16"
    using room' assms(7) by (simp add: NewItem_plain_def)
  then have "\<exists>b1. AddExtendedItemType e ?b ?i = (True, b1) \<and> length (b_Offsets b1) = 1024"
    using assms(1) by (simp add: AddExtendedItemType_def append_item_def)
  then obtain b1 where b1: "AddExtendedItemType e ?b ?i = (True, b1)" "length (b_Offsets b1) = 1024" by blast
  then have "GetExtendedItemTypeIndex e b Type = Some (int ?i, b1)"
    using none assms(6) by (simp add: GetExtendedItemTypeIndex_def)
  then show ?thesis
    using room assms(3,4) b1(2) by (simp add: NewItem_def append_item_def Finish_def MAX_ITEMS_def)
qed

section \<open>The storage as a map\<close>

datatype store_op = SAdd int int snapshot snapshot | SPurgeUntil int | SPurgeAll

fun store_step :: "store_op \<Rightarrow> CHolder list \<Rightarrow> CHolder list" where
  "store_step (SAdd Tick Tagtime Data AltData) hs = Storage_Add Tick Tagtime Data AltData hs"
| "store_step (SPurgeUntil Tick) hs = PurgeUntil Tick hs"
| "store_step SPurgeAll hs = PurgeAll hs"

definition new_holder :: "int \<Rightarrow> int \<Rightarrow> snapshot \<Rightarrow> snapshot \<Rightarrow> CHolder" where
  "new_holder Tick Tagtime Data AltData = last (Storage_Add Tick Tagtime Data AltData [])"

fun map_step :: "store_op \<Rightarrow> (int \<rightharpoonup> CHolder) \<Rightarrow> (int \<rightharpoonup> CHolder)" where
  "map_step (SAdd Tick Tagtime Data AltData) m = m(Tick \<mapsto> new_holder Tick Tagtime Data AltData)"
| "map_step (SPurgeUntil Tick) m = m |` {Tick..}"
| "map_step SPurgeAll m = Map.empty"

text \<open>The snapshots are added with growing ticks.\<close>

fun ticks_grow :: "store_op list \<Rightarrow> CHolder list \<Rightarrow> bool" where
  "ticks_grow [] hs = True"
| "ticks_grow (op # ops) hs =
     ((case op of SAdd Tick _ _ _ \<Rightarrow> list_all (\<lambda>h. ho_Tick h < Tick) hs | _ \<Rightarrow> True) \<and>
      ticks_grow ops (store_step op hs))"

lemma find_snoc: "find P (xs @ [x]) = (case find P xs of Some y \<Rightarrow> Some y | None \<Rightarrow> if P x then Some x else None)"
  by (induction xs) auto

lemma Storage_Add_new: "Storage_Add Tick Tagtime Data AltData hs = hs @ [new_holder Tick Tagtime Data AltData]"
  by (simp add: Storage_Add_def new_holder_def)

lemma tick_new_holder [simp]: "ho_Tick (new_holder Tick Tagtime Data AltData) = Tick"
  by (simp add: Storage_Add_def new_holder_def)

lemma PurgeUntil_ge: "sorted_wrt (<) (map ho_Tick hs) \<Longrightarrow> PurgeUntil T hs = filter (\<lambda>h. T \<le> ho_Tick h) hs"
proof (induction hs)
  case (Cons h hs)
  show ?case
  proof (cases "ho_Tick h < T")
    case False
    then have "filter (\<lambda>h. T \<le> ho_Tick h) hs = hs" using Cons.prems by (intro filter_True) force
    with False show ?thesis by (simp add: PurgeUntil_def)
  qed (use Cons in \<open>simp add: PurgeUntil_def\<close>)
qed (simp add: PurgeUntil_def)

lemma find_filter_tick: "find (\<lambda>h. ho_Tick h = t) (filter (\<lambda>h. T \<le> ho_Tick h) hs) =
    (if T \<le> t then find (\<lambda>h. ho_Tick h = t) hs else None)"
  by (induction hs) auto

text \<open>
  Over any sequence of adding and purging, with growing ticks, the storage is a map from ticks
  to snapshots: \<open>Get\<close> finds what was added for its tick and not purged.
\<close>
theorem storage_is_map:
  assumes "ticks_grow ops []"
  shows "Storage_Get Tick (fold store_step ops []) = fold map_step ops Map.empty Tick"
proof -
  have "ticks_grow ops hs \<Longrightarrow> sorted_wrt (<) (map ho_Tick hs) \<Longrightarrow> (\<And>t. Storage_Get t hs = m t) \<Longrightarrow>
      Storage_Get Tick (fold store_step ops hs) = fold map_step ops m Tick" for hs m
  proof (induction ops arbitrary: hs m)
    case (Cons op ops)
    have "sorted_wrt (<) (map ho_Tick (store_step op hs)) \<and> (\<forall>t. Storage_Get t (store_step op hs) = map_step op m t)"
    proof (cases op)
      case (SAdd T Tagtime D A)
      then have less: "\<forall>h \<in> set hs. ho_Tick h < T" using Cons.prems(1) by (simp add: list_all_iff)
      then have "find (\<lambda>h. ho_Tick h = T) hs = None" by (auto simp: find_None_iff)
      then show ?thesis using SAdd Cons.prems(2,3) less
        by (auto simp: Storage_Add_new sorted_wrt_append Storage_Get_def find_snoc split: option.splits)
    next
      case (SPurgeUntil T)
      have "sorted_wrt (<) (map ho_Tick (filter (\<lambda>h. T \<le> ho_Tick h) hs))"
        using Cons.prems(2) by (induction hs) auto
      then show ?thesis using SPurgeUntil Cons.prems(2,3)
        by (simp add: PurgeUntil_ge Storage_Get_def find_filter_tick restrict_map_def)
    next
      case SPurgeAll
      then show ?thesis by (simp add: PurgeAll_def Storage_Get_def)
    qed
    then show ?case using Cons.IH [of "store_step op hs" "map_step op m"] Cons.prems(1) by simp
  qed simp
  from this [of "[]" Map.empty] show ?thesis using assms by (simp add: Storage_Get_def)
qed

lemma storage_is_map_witness:
  "map_option ho_Snap (Storage_Get 7 (fold store_step [SAdd 5 0 [0, 0] [], SAdd 7 0 [1, 1] [], SPurgeUntil 6] [])) = Some [1, 1]"
  by (subst storage_is_map) (simp_all add: Storage_Add_def new_holder_def)

lemma builder_builds_witness:
  "Option.bind (build_items uuid_env [(1, 0, [1, 3]), (-1, 1, [2]), (3, 2, [7, 8, 9])] (Builder_Init uuid_env False new_builder)) Finish =
     Some (snap_of new_items)"
proof -
  have "build_spec [(1, 0, [1, 3]), (-1, 1, [2]), (3, 2, [7, 8, 9])] [] = new_items"
    by (simp add: fits_def make_key_def new_items_def push_bit_eq_mult)
  then show ?thesis
    using builder_builds [of "[(1, 0, [1, 3]), (-1, 1, [2]), (3, 2, [7, 8, 9])]" uuid_env] by (simp add: MAX_TYPE_def)
qed

lemma find_item_data_witness: "\<exists>p. FindItem one_uuid (snap_of new_items) 3 2 = Some p \<and> read_words (snap_of new_items) p 3 = [7, 8, 9]"
proof -
  have "map_of new_items (make_key 3 2) = Some [7, 8, 9]" by (simp add: new_items_def make_key_def push_bit_eq_mult)
  then show ?thesis
    using find_item_data [OF fits_examples(2), of 3 2 one_uuid] by (simp add: OFFSET_UUID_TYPE_def MAX_ID_def numeral_3_eq_3)
qed

lemma extended_type_found_witness:
  "\<exists>p b'. NewItem uuid_env new_builder OFFSET_UUID 3 8 = Some (Some p, b') \<and>
     (\<exists>its'. builds b' its' \<and> GetItemType one_uuid (snap_of its') (int (length its') - 1) = OFFSET_UUID)"
proof -
  have "ext_ok (e_Uuids uuid_env) (b_ExtendedItemTypes new_builder) []"
    by (simp add: ext_ok_def new_builder_def)
  moreover have "builds new_builder []" by (simp add: builds_def new_builder_def)
  moreover have "registry_ok (e_Uuids uuid_env)"
    by (simp add: registry_ok_def uuid_env_def one_uuid_def keys_sorted_def)
  ultimately show ?thesis
    using extended_type_found [of new_builder "[]" uuid_env 0 3 2]
    by (auto simp: uuid_env_def one_uuid_def TEEWORLDS_NAMESPACE_def new_builder_def MAX_ID_def)
qed

definition crowded_builder :: CSnapshotBuilder where
  "crowded_builder = \<lparr>b_Data = replicate 1023 0, b_Offsets = map (\<lambda>i. 4 * int i) [0..<1023],
     b_ExtendedItemTypes = [], b_Sixup = False\<rparr>"

lemma extended_type_overflow_witness:
  "\<exists>p b'. NewItem uuid_env crowded_builder OFFSET_UUID 3 8 = Some (Some p, b') \<and> length (b_Offsets b') = 1025"
  using extended_type_overflow [of crowded_builder 2 OFFSET_UUID 3 uuid_env] by (auto simp: crowded_builder_def)

end
