(* ===== verification/NetServer.thy ===== *)
theory NetServer
  imports NetConn Packer
begin

text \<open>
  The server of \<^verbatim>\<open>src/src/engine/shared/network_server.cpp\<close>: the slots with their connections,
  admission, the tokens against spoofed addresses, and the receive loop. An operation takes the server
  and its surroundings and returns them changed; \<open>None\<close> is a loop that does not end or a failed
  assertion. The callbacks of the game are recorded as events. The hash \<open>sha256\<close> is a library
  function and a parameter, and so is the ban check, which is made on the address alone.
\<close>

section \<open>State\<close>

record sv_config =
  g_Conn :: conn_config
  g_SvSixup :: bool
  g_SvConnlimit :: int
  g_SvConnlimitTime :: int
  g_SvVanillaAntiSpoof :: bool
  g_Password :: "u8 list"
  g_SvVanConnPerSecond :: int

record sv_env =
  se_Config :: sv_config
  se_Sha256 :: "u8 list \<Rightarrow> u8 list"
  se_Banned :: "NETADDR \<Rightarrow> u8 list option"

datatype sv_event =
    New_client nat bool
  | New_client_noauth nat
  | Client_rejoin nat
  | Del_client nat reason

record CSpamConn =
  sp_Addr :: NETADDR
  sp_Time :: int
  sp_Conns :: int

record CNetServer =
  sv_Slots :: "CNetConnection list"
  sv_MaxClients :: nat
  sv_MaxClientsPerIp :: int
  sv_Seed :: "u8 list"
  sv_VConnFirst :: int
  sv_VConnNum :: int
  sv_SpamConns :: "CSpamConn list"
  sv_RecvUnpacker :: CNetRecvUnpacker
  sv_Events :: "sv_event list"

definition NET_MAX_CLIENTS :: nat where "NET_MAX_CLIENTS = 64"
definition NET_CONNLIMIT_IPS :: nat where "NET_CONNLIMIT_IPS = 16"
definition NETTYPE_WEBSOCKET_IPV4 :: i32 where "NETTYPE_WEBSOCKET_IPV4 = 8"
definition NETMSG_MAP_CHANGE :: int where "NETMSG_MAP_CHANGE = 2"
definition NETMSG_MAP_DATA :: int where "NETMSG_MAP_DATA = 3"
definition NETMSG_CON_READY :: int where "NETMSG_CON_READY = 4"
definition NETMSG_SNAPEMPTY :: int where "NETMSG_SNAPEMPTY = 6"
definition NETMSG_INPUT :: int where "NETMSG_INPUT = 16"
definition NETSENDFLAG_VITAL :: int where "NETSENDFLAG_VITAL = 1"
definition NETSENDFLAG_CONNLESS :: int where "NETSENDFLAG_CONNLESS = 2"
definition NETSENDFLAG_FLUSH :: int where "NETSENDFLAG_FLUSH = 4"
definition NETSENDFLAG_EXTENDED :: int where "NETSENDFLAG_EXTENDED = 8"

definition callback :: "sv_event \<Rightarrow> CNetServer \<Rightarrow> CNetServer" where
  "callback e sv = sv\<lparr>sv_Events := sv_Events sv @ [e]\<rparr>"

definition set_slot :: "nat \<Rightarrow> CNetConnection \<Rightarrow> CNetServer \<Rightarrow> CNetServer" where
  "set_slot i c sv = sv\<lparr>sv_Slots := (sv_Slots sv)[i := c]\<rparr>"

definition slot :: "CNetServer \<Rightarrow> nat \<Rightarrow> CNetConnection" where
  "slot sv i = sv_Slots sv ! i"

text \<open>
  A new server; the slots had any contents before. The seed is what \<open>secure_random_fill\<close> draws. The
  socket is open.
\<close>

definition Server_Open :: "u8 list \<Rightarrow> int \<Rightarrow> int \<Rightarrow> CNetServer \<Rightarrow> CNetServer" where
  "Server_Open seed MaxClients MaxClientsPerIp sv =
     sv\<lparr>sv_Slots := map (Conn_Init True) (sv_Slots sv),
        sv_MaxClients := nat (min (max MaxClients 1) (int NET_MAX_CLIENTS)),
        sv_MaxClientsPerIp := MaxClientsPerIp,
        sv_Seed := seed, sv_VConnNum := 0, sv_VConnFirst := 0,
        sv_SpamConns := replicate NET_CONNLIMIT_IPS \<lparr>sp_Addr = zero_addr, sp_Time = 0, sp_Conns = 0\<rparr>,
        sv_RecvUnpacker := Unpacker_Clear (sv_RecvUnpacker sv),
        sv_Events := []\<rparr>"

definition SetMaxClientsPerIp :: "int \<Rightarrow> CNetServer \<Rightarrow> CNetServer" where
  "SetMaxClientsPerIp Limit sv = sv\<lparr>sv_MaxClientsPerIp := min (max Limit 1) (int NET_MAX_CLIENTS)\<rparr>"

definition SetTimeoutProtected :: "nat \<Rightarrow> CNetServer \<Rightarrow> CNetServer" where
  "SetTimeoutProtected ClientId sv = set_slot ClientId ((slot sv ClientId)\<lparr>c_TimeoutProtected := True\<rparr>) sv"

definition ResetErrorString :: "nat \<Rightarrow> CNetServer \<Rightarrow> CNetServer" where
  "ResetErrorString ClientId sv = set_slot ClientId ((slot sv ClientId)\<lparr>c_ErrorString := []\<rparr>) sv"

definition Server_ErrorString :: "nat \<Rightarrow> CNetServer \<Rightarrow> u8 list" where
  "Server_ErrorString ClientId sv = c_ErrorString (slot sv ClientId)"

section \<open>Dropping and updating clients\<close>

definition Drop :: "nat \<Rightarrow> reason \<Rightarrow> CNetServer \<Rightarrow> net \<Rightarrow> CNetServer \<times> net" where
  "Drop ClientId pReason sv n =
     (let sv = callback (Del_client ClientId pReason) sv;
          (c, n) = Conn_Disconnect pReason (slot sv ClientId) n
      in (set_slot ClientId c sv, n))"

definition given_up :: "CNetConnection \<Rightarrow> bool" where
  "given_up c \<longleftrightarrow> c_State c = ERROR \<and> (\<not> c_TimeoutProtected c \<or> \<not> c_TimeoutSituation c)"

fun update_slots :: "sv_env \<Rightarrow> nat list \<Rightarrow> CNetServer \<Rightarrow> net \<Rightarrow> (CNetServer \<times> net) option" where
  "update_slots e [] sv n = Some (sv, n)"
| "update_slots e (i # is) sv n =
     do {
       (c, n) \<leftarrow> Conn_Update (g_Conn (se_Config e)) (slot sv i) n;
       let sv = set_slot i c sv
       in case (if given_up c then Drop i Own_error_string sv n else (sv, n)) of
            (sv, n) \<Rightarrow> update_slots e is sv n
     }"

definition Server_Update :: "sv_env \<Rightarrow> CNetServer \<Rightarrow> net \<Rightarrow> (CNetServer \<times> net) option" where
  "Server_Update e sv n = update_slots e [0..<sv_MaxClients sv] sv n"

section \<open>Tokens\<close>

text \<open>The first 20 bytes of the structure in memory, little-endian: the type and the address without the port.\<close>

definition addr_bytes :: "NETADDR \<Rightarrow> u8 list" where
  "addr_bytes addr = rev (uint_to_bytes_be (na_type addr)) @ na_ip addr"

definition GetToken :: "sv_env \<Rightarrow> CNetServer \<Rightarrow> NETADDR \<Rightarrow> i32" where
  "GetToken e sv addr =
     (let SecurityToken = ToSecurityToken (se_Sha256 e (sv_Seed sv @ addr_bytes addr))
      in if SecurityToken = NET_SECURITY_TOKEN_UNKNOWN \<or> SecurityToken = NET_SECURITY_TOKEN_UNSUPPORTED
         then 1 else SecurityToken)"

definition GetGlobalToken :: "sv_env \<Rightarrow> CNetServer \<Rightarrow> i32" where
  "GetGlobalToken e sv = GetToken e sv zero_addr"

definition GetVanillaToken :: "sv_env \<Rightarrow> CNetServer \<Rightarrow> NETADDR \<Rightarrow> i32" where
  "GetVanillaToken e sv addr =
     (let t = GetToken e sv addr in if sint t < 0 then - t else t)"

definition Server_SendControl :: "NETADDR \<Rightarrow> int \<Rightarrow> u8 list \<Rightarrow> i32 \<Rightarrow> net \<Rightarrow> net" where
  "Server_SendControl addr ControlMsg pExtra SecurityToken n =
     net_send (SendControlMsg addr 0 ControlMsg pExtra SecurityToken False) n"

text \<open>The reply that closes a connection attempt.\<close>

definition refuse_client :: "NETADDR \<Rightarrow> u8 list \<Rightarrow> i32 \<Rightarrow> bool \<Rightarrow> net \<Rightarrow> net" where
  "refuse_client addr msg SecurityToken Sixup n =
     net_send (SendControlMsg addr 0 NET_CTRLMSG_CLOSE (msg @ [0]) SecurityToken Sixup) n"

section \<open>Admission\<close>

text \<open>A slot that counts for the limit of clients with one address.\<close>

definition counted :: "NETADDR \<Rightarrow> CNetConnection \<Rightarrow> bool" where
  "counted addr c \<longleftrightarrow> \<not> (c_State c = OFFLINE \<or> given_up c) \<and> \<not> net_addr_comp_noport addr (c_PeerAddr c)"

definition NumClientsWithAddr :: "CNetServer \<Rightarrow> NETADDR \<Rightarrow> int" where
  "NumClientsWithAddr sv addr = int (length (filter (counted addr) (take (sv_MaxClients sv) (sv_Slots sv))))"

text \<open>
  The loop over the last addresses: \<open>i\<close> is the index of the first element of the rest, \<open>Oldest\<close> the
  index found so far. The result is whether the attempt is refused, and the changed array.
\<close>

fun connlimit_loop :: "sv_config \<Rightarrow> NETADDR \<Rightarrow> int \<Rightarrow> CSpamConn list \<Rightarrow> nat list \<Rightarrow> nat \<Rightarrow> bool \<times> CSpamConn list" where
  "connlimit_loop g addr Now sps [] Oldest = (False, sps[Oldest := \<lparr>sp_Addr = addr, sp_Time = Now, sp_Conns = 1\<rparr>])"
| "connlimit_loop g addr Now sps (i # is) Oldest =
     (if \<not> net_addr_comp_noport (sp_Addr (sps ! i)) addr
      then
        if sp_Time (sps ! i) > Now - time_freq * g_SvConnlimitTime g
        then if sp_Conns (sps ! i) \<ge> g_SvConnlimit g then (True, sps)
             else (False, sps[i := (sps ! i)\<lparr>sp_Conns := sp_Conns (sps ! i) + 1\<rparr>])
        else (False, sps[i := (sps ! i)\<lparr>sp_Time := Now, sp_Conns := 1\<rparr>])
      else connlimit_loop g addr Now sps is (if sp_Time (sps ! i) < sp_Time (sps ! Oldest) then i else Oldest))"

definition Connlimit :: "sv_env \<Rightarrow> NETADDR \<Rightarrow> CNetServer \<Rightarrow> net \<Rightarrow> bool \<times> CNetServer \<times> net" where
  "Connlimit e addr sv n =
     (let (Now, n) = time_get n;
          (limited, sps) = connlimit_loop (se_Config e) addr Now (sv_SpamConns sv) [0..<NET_CONNLIMIT_IPS] 0
      in (limited, sv\<lparr>sv_SpamConns := sps\<rparr>, n))"

definition free_slot :: "CNetServer \<Rightarrow> nat option" where
  "free_slot sv = find (\<lambda>i. c_State (slot sv i) = OFFLINE) [0..<sv_MaxClients sv]"

definition TryAcceptClient :: "sv_env \<Rightarrow> NETADDR \<Rightarrow> i32 \<Rightarrow> bool \<Rightarrow> bool \<Rightarrow> i32 \<Rightarrow> CNetServer \<Rightarrow> net \<Rightarrow> int \<times> CNetServer \<times> net" where
  "TryAcceptClient e addr SecurityToken VanillaAuth Sixup Token sv n =
     (if Sixup \<and> \<not> g_SvSixup (se_Config e)
      then (-1, sv, refuse_client addr (bytes_of ''0.7 connections are not accepted at this time'') SecurityToken Sixup n)
      else
        let (limited, sv, n) = Connlimit e addr sv n
        in if limited
           then (-1, sv, refuse_client addr (bytes_of ''Too many connections in a short time'') SecurityToken Sixup n)
           else if NumClientsWithAddr sv addr + 1 > sv_MaxClientsPerIp sv
           then (-1, sv, refuse_client addr
                  (bytes_of (''Only '' @ decimal (sv_MaxClientsPerIp sv) @ '' players with the same IP are allowed''))
                  SecurityToken Sixup n)
           else case free_slot sv of
             None \<Rightarrow> (-1, sv, refuse_client addr (bytes_of ''This server is full'') SecurityToken Sixup n)
           | Some i \<Rightarrow>
               let (c, n) = DirectInit addr SecurityToken Token Sixup (slot sv i) n;
                   c = (if VanillaAuth then c\<lparr>c_UnknownSeq := True, c_Sequence := 6\<rparr> else c);
                   sv = callback (if VanillaAuth then New_client_noauth i else New_client i Sixup) (set_slot i c sv)
               in (int i, sv, n))"

text \<open>The last slot in use with this address and port.\<close>

definition has_addr :: "NETADDR \<Rightarrow> CNetConnection \<Rightarrow> bool" where
  "has_addr addr c \<longleftrightarrow> c_State c \<noteq> OFFLINE \<and> c_State c \<noteq> ERROR \<and> c_PeerAddr c = addr"

definition GetClientSlot :: "CNetServer \<Rightarrow> NETADDR \<Rightarrow> int" where
  "GetClientSlot sv addr = foldl (\<lambda>Slot i. if has_addr addr (slot sv i) then int i else Slot) (-1) [0..<sv_MaxClients sv]"

definition ClientExists :: "CNetServer \<Rightarrow> NETADDR \<Rightarrow> bool" where
  "ClientExists sv addr \<longleftrightarrow> GetClientSlot sv addr \<noteq> -1"

section \<open>The handshake of clients without tokens\<close>

definition g_DummyMapCrc :: i32 where "g_DummyMapCrc = 0xD6909B17"

definition g_aDummyMapData :: "u8 list" where
  "g_aDummyMapData = [
  0x44, 0x41, 0x54, 0x41, 0x04, 0x00, 0x00, 0x00, 0xFA, 0x00, 0x00, 0x00, 0xEC, 0x00, 0x00, 0x00,
    0x02, 0x00, 0x00, 0x00, 0x03, 0x00, 0x00, 0x00, 0x01, 0x00, 0x00, 0x00, 0xAC, 0x00, 0x00, 0x00,
    0x0E, 0x00, 0x00, 0x00, 0x04, 0x00, 0x00, 0x00, 0x00, 0x00, 0x00, 0x00, 0x01, 0x00, 0x00, 0x00,
    0x05, 0x00, 0x00, 0x00, 0x01, 0x00, 0x00, 0x00, 0x02, 0x00, 0x00, 0x00, 0x00, 0x00, 0x00, 0x00,
    0x24, 0x00, 0x00, 0x00, 0x68, 0x00, 0x00, 0x00, 0x00, 0x00, 0x00, 0x00, 0x10, 0x00, 0x00, 0x00,
    0x00, 0x00, 0x04, 0x00, 0x1C, 0x00, 0x00, 0x00, 0x01, 0x00, 0x00, 0x00, 0x00, 0x00, 0x00, 0x00,
    0x00, 0x00, 0x00, 0x00, 0x00, 0x00, 0x00, 0x00, 0x00, 0x00, 0x00, 0x00, 0x00, 0x00, 0x00, 0x00,
    0x02, 0x00, 0x00, 0x00, 0x00, 0x00, 0x05, 0x00, 0x3C, 0x00, 0x00, 0x00, 0x00, 0x00, 0x00, 0x00,
    0x02, 0x00, 0x00, 0x00, 0x00, 0x00, 0x00, 0x00, 0x02, 0x00, 0x00, 0x00, 0x02, 0x00, 0x00, 0x00,
    0x02, 0x00, 0x00, 0x00, 0x01, 0x00, 0x00, 0x00, 0x00, 0x00, 0x00, 0x00, 0x00, 0x00, 0x00, 0x00,
    0x00, 0x00, 0x00, 0x00, 0x00, 0x00, 0x00, 0x00, 0xFF, 0xFF, 0xFF, 0xFF, 0x00, 0x00, 0x00, 0x00,
    0xFF, 0xFF, 0xFF, 0xFF, 0x00, 0x00, 0x00, 0x00, 0x01, 0x00, 0x05, 0x00, 0x3C, 0x00, 0x00, 0x00,
    0x00, 0x00, 0x00, 0x00, 0x02, 0x00, 0x00, 0x00, 0x00, 0x00, 0x00, 0x00, 0x02, 0x00, 0x00, 0x00,
    0x02, 0x00, 0x00, 0x00, 0x02, 0x00, 0x00, 0x00, 0x00, 0x00, 0x00, 0x00, 0x00, 0x00, 0x00, 0x00,
    0x00, 0x00, 0x00, 0x00, 0x00, 0x00, 0x00, 0x00, 0xFF, 0x00, 0x00, 0x00, 0xFF, 0xFF, 0xFF, 0xFF,
    0x00, 0x00, 0x00, 0x00, 0xFF, 0xFF, 0xFF, 0xFF, 0x00, 0x00, 0x00, 0x00, 0x78, 0x9C, 0x63, 0x64,
    0x60, 0x60, 0x60, 0x44, 0xC2, 0x00, 0x00, 0x38, 0x00, 0x05]"

text \<open>The chunks of one packet, numbered from 1.\<close>

definition msg_chunk :: "packer \<Rightarrow> int \<Rightarrow> u8 list" where
  "msg_chunk p Sequence =
     ChunkHeader_Pack \<lparr>h_Flags = NET_CHUNKFLAG_VITAL, h_Size = int (length (m_Written p)), h_Sequence = Sequence\<rparr> 4 @ m_Written p"

definition SendMsgs :: "NETADDR \<Rightarrow> packer list \<Rightarrow> net \<Rightarrow> net" where
  "SendMsgs addr msgs n =
     net_send (SendPacket addr
       \<lparr>p_Flags = 0, p_Ack = 0, p_NumChunks = int (length msgs),
        p_aChunkData = concat (map (\<lambda>(i, p). msg_chunk p (int i + 1)) (enumerate 0 msgs)), p_aExtraData = []\<rparr>
       NET_SECURITY_TOKEN_UNSUPPORTED False False) n"

definition PACKER_BUFFER_SIZE :: int where "PACKER_BUFFER_SIZE = 2048"

text \<open>The first number of a message: its id, and the bit of a system message.\<close>

definition sys_msg :: "int \<Rightarrow> packer" where
  "sys_msg Msg = AddInt (Packer_Reset \<lparr>m_Written = [], m_BufferSize = PACKER_BUFFER_SIZE, m_Error = False\<rparr>)
     (word_of_int (push_bit 1 Msg OR 1))"

definition MapChangeMsg :: "bool \<Rightarrow> packer" where
  "MapChangeMsg Flooding =
     (if Flooding
      then AddInt (AddInt (AddString (sys_msg NETMSG_MAP_CHANGE) (bytes_of ''dm1'') 0 True) 0xf2159e6e) 5805
      else AddInt (AddInt (AddString (sys_msg NETMSG_MAP_CHANGE) (bytes_of ''dummy'') 0 True) g_DummyMapCrc)
             (of_nat (length g_aDummyMapData)))"

definition MapDataMsg :: "bool \<Rightarrow> packer" where
  "MapDataMsg Flooding =
     (if Flooding
      then AddInt (AddInt (AddInt (AddInt (sys_msg NETMSG_MAP_DATA) 1) 0) 0) 0
      else AddRaw (AddInt (AddInt (AddInt (AddInt (sys_msg NETMSG_MAP_DATA) 1) g_DummyMapCrc) 0)
             (of_nat (length g_aDummyMapData))) g_aDummyMapData)"

definition SnapEmptyMsg :: "i32 \<Rightarrow> packer" where
  "SnapEmptyMsg SecurityToken = AddInt (AddInt (sys_msg NETMSG_SNAPEMPTY) SecurityToken) (SecurityToken + 1)"

definition preconn_msgs :: "bool \<Rightarrow> i32 \<Rightarrow> packer list" where
  "preconn_msgs Flooding SecurityToken =
     [MapChangeMsg Flooding, MapDataMsg Flooding, sys_msg NETMSG_CON_READY,
      SnapEmptyMsg SecurityToken, SnapEmptyMsg SecurityToken, SnapEmptyMsg SecurityToken]"

text \<open>More than \<open>sv_vanilla_conn_per_second\<close> attempts within a second.\<close>

definition detect_flood :: "sv_env \<Rightarrow> CNetServer \<Rightarrow> net \<Rightarrow> bool \<times> CNetServer \<times> net" where
  "detect_flood e sv n =
     (if g_SvVanConnPerSecond (se_Config e) \<noteq> 0
      then
        let Flooding = (sv_VConnNum sv > g_SvVanConnPerSecond (se_Config e));
            (Now, n) = time_get n
        in (Flooding,
            if Now \<le> sv_VConnFirst sv + time_freq then sv\<lparr>sv_VConnNum := sv_VConnNum sv + 1\<rparr>
            else sv\<lparr>sv_VConnNum := 1, sv_VConnFirst := Now\<rparr>, n)
      else (False, sv, n))"

definition anti_spoof :: "sv_env \<Rightarrow> bool" where
  "anti_spoof e \<longleftrightarrow> g_SvVanillaAntiSpoof (se_Config e) \<and> mem_at (g_Password (se_Config e)) 0 = 0"

text \<open>The message of a packet outside of a connection: its first chunk.\<close>

definition preconn_input :: "rpacket \<Rightarrow> i32 option" where
  "preconn_input p =
     (let (h, pData) = ChunkHeader_Unpack (rp_Mem p) 4;
          u = Unpacker_Reset (take (nat (h_Size h)) pData);
          (i, u) = GetInt u;
          Msg = drop_bit 1 (sint i)
      in if Msg = NETMSG_INPUT then Some (fst (GetInt u)) else None)"

definition OnPreConnMsg :: "sv_env \<Rightarrow> NETADDR \<Rightarrow> rpacket \<Rightarrow> CNetServer \<Rightarrow> net \<Rightarrow> CNetServer \<times> net" where
  "OnPreConnMsg e addr p sv n =
     (let IsCtrl = (rp_Flags p AND NET_PACKETFLAG_CONTROL \<noteq> 0);
          CtrlMsg = uint (mem_at (rp_Mem p) 0)
      in if IsCtrl \<and> CtrlMsg = NET_CTRLMSG_CONNECT
         then if anti_spoof e
           then
             let (Flooding, sv, n) = detect_flood e sv n;
                 n = Server_SendControl addr NET_CTRLMSG_CONNECTACCEPT [] NET_SECURITY_TOKEN_UNSUPPORTED n
             in (sv, SendMsgs addr (preconn_msgs Flooding (GetVanillaToken e sv addr)) n)
           else
             let n = Server_SendControl addr NET_CTRLMSG_CONNECTACCEPT [] NET_SECURITY_TOKEN_UNSUPPORTED n
             in snd (TryAcceptClient e addr NET_SECURITY_TOKEN_UNSUPPORTED False False 0 sv n)
         else if \<not> IsCtrl \<and> anti_spoof e
         then case preconn_input p of
                Some SecurityToken \<Rightarrow>
                  if SecurityToken = GetVanillaToken e sv addr
                  then snd (TryAcceptClient e addr NET_SECURITY_TOKEN_UNSUPPORTED True False 0 sv n)
                  else (sv, n)
              | None \<Rightarrow> (sv, n)
         else (sv, n))"

section \<open>The handshakes with tokens\<close>

definition OnConnCtrlMsg :: "sv_env \<Rightarrow> NETADDR \<Rightarrow> nat \<Rightarrow> int \<Rightarrow> rpacket \<Rightarrow> CNetServer \<Rightarrow> net \<Rightarrow> CNetServer \<times> net" where
  "OnConnCtrlMsg e addr ClientId ControlMsg p sv n =
     (if ControlMsg = NET_CTRLMSG_CONNECT
      then (sv, if rp_magic p
                then Server_SendControl addr NET_CTRLMSG_CONNECTACCEPT SECURITY_TOKEN_MAGIC (GetToken e sv addr) n else n)
      else if ControlMsg = NET_CTRLMSG_ACCEPT \<and> rp_DataSize p = 5 \<and> ToSecurityToken (drop 1 (rp_Mem p)) = GetToken e sv addr
      then (callback (Client_rejoin ClientId) (set_slot ClientId (Conn_Reset True (slot sv ClientId)) sv), n)
      else (sv, n))"

definition OnTokenCtrlMsg :: "sv_env \<Rightarrow> NETADDR \<Rightarrow> int \<Rightarrow> rpacket \<Rightarrow> CNetServer \<Rightarrow> net \<Rightarrow> CNetServer \<times> net" where
  "OnTokenCtrlMsg e addr ControlMsg p sv n =
     (if ClientExists sv addr then (sv, n)
      else if na_type addr = NETTYPE_WEBSOCKET_IPV4
      then
        let n = Server_SendControl addr NET_CTRLMSG_CONNECTACCEPT SECURITY_TOKEN_MAGIC NET_SECURITY_TOKEN_UNSUPPORTED n
        in snd (TryAcceptClient e addr NET_SECURITY_TOKEN_UNSUPPORTED False False 0 sv n)
      else if ControlMsg = NET_CTRLMSG_CONNECT
      then (sv, Server_SendControl addr NET_CTRLMSG_CONNECTACCEPT SECURITY_TOKEN_MAGIC (GetToken e sv addr) n)
      else if ControlMsg = NET_CTRLMSG_ACCEPT
      then
        let Token = ToSecurityToken (drop 1 (rp_Mem p))
        in if Token = GetToken e sv addr then snd (TryAcceptClient e addr Token False False 0 sv n) else (sv, n)
      else (sv, n))"

definition SendTokenSixup :: "sv_env \<Rightarrow> NETADDR \<Rightarrow> i32 \<Rightarrow> CNetServer \<Rightarrow> net \<Rightarrow> net" where
  "SendTokenSixup e addr Token sv n =
     (let aBuf = WriteSecurityToken (GetToken e sv addr) @ replicate 508 0;
          Size = (if Token = NET_SECURITY_TOKEN_UNKNOWN then 512 else 4)
      in net_send (SendControlMsg addr 0 5 (take Size aBuf) Token True) n)"

text \<open>
  The chunk that is delivered for a short token message of 0.7, if any, and the response token. The
  own token goes out in the byte order of the machine.
\<close>

definition OnSixupCtrlMsg :: "sv_env \<Rightarrow> NETADDR \<Rightarrow> int \<Rightarrow> rpacket \<Rightarrow> i32 \<Rightarrow> i32 \<Rightarrow> CNetServer \<Rightarrow> net \<Rightarrow>
    CNetChunk option \<times> i32 \<times> CNetServer \<times> net" where
  "OnSixupCtrlMsg e addr ControlMsg p ResponseToken Token sv n =
     (if rp_DataSize p < 5 \<or> ClientExists sv addr then (None, ResponseToken, sv, n)
      else
        let ResponseToken = ToSecurityToken (drop 1 (rp_Mem p))
        in if ControlMsg = 5
           then if rp_DataSize p \<ge> 512 then (None, ResponseToken, sv, SendTokenSixup e addr ResponseToken sv n)
                else (Some \<lparr>ch_ClientId = -1, ch_Address = addr, ch_Flags = 0, ch_DataSize = 0, ch_pData = 0, ch_aExtraData = []\<rparr>,
                      ResponseToken, sv, n)
           else if ControlMsg = NET_CTRLMSG_CONNECT
           then
             let MyToken = GetToken e sv addr;
                 n = net_send (SendControlMsg addr 0 NET_CTRLMSG_CONNECTACCEPT (rev (WriteSecurityToken MyToken)) ResponseToken True) n
             in if Token = MyToken
                then (None, ResponseToken, snd (TryAcceptClient e addr ResponseToken False True Token sv n))
                else (None, ResponseToken, sv, n)
           else (None, ResponseToken, sv, n))"

definition IsDDNetControlMsg :: "rpacket \<Rightarrow> bool" where
  "IsDDNetControlMsg p \<longleftrightarrow>
     (if rp_Flags p AND NET_PACKETFLAG_CONTROL = 0 \<or> rp_DataSize p < 1 then False
      else if uint (mem_at (rp_Mem p) 0) = NET_CTRLMSG_CONNECT \<and> rp_magic p then True
      else uint (mem_at (rp_Mem p) 0) = NET_CTRLMSG_ACCEPT \<and> 5 \<le> rp_DataSize p)"

section \<open>Receiving\<close>

text \<open>
  A datagram from the socket, with what the receive buffer and the stack hold when it comes: the bytes
  behind the data, those behind a request, and the token that was not set.
\<close>

record incoming =
  i_Addr :: NETADDR
  i_Bytes :: "u8 list"
  i_Stale :: "u8 list"
  i_Stack :: "u8 list"
  i_Token :: i32

text \<open>A chunk for the game, no more datagrams, or a write through a null pointer.\<close>

datatype recv_result = Received CNetChunk | No_packet | Null_pointer

text \<open>The chunks that are left of the last packet; the connection is the slot of the packet's client.\<close>

definition server_fetch :: "CNetServer \<Rightarrow> CNetChunk option \<times> CNetServer" where
  "server_fetch sv =
     (let u = sv_RecvUnpacker sv;
          i = nat (u_ClientId u);
          (chunk, u, c) = FetchChunk u (Some (slot sv i));
          sv = sv\<lparr>sv_RecvUnpacker := u\<rparr>
      in (chunk, case c of Some c \<Rightarrow> set_slot i c sv | None \<Rightarrow> sv))"

text \<open>A packet of a connected client.\<close>

definition recv_slot :: "sv_env \<Rightarrow> incoming \<Rightarrow> nat \<Rightarrow> rpacket \<Rightarrow> i32 \<Rightarrow> i32 \<Rightarrow> CNetServer \<Rightarrow> net \<Rightarrow> (CNetServer \<times> net) option" where
  "recv_slot e d Slot p Token ResponseToken sv n =
     (let (sv, n) = (if rp_Flags p AND NET_PACKETFLAG_CONTROL \<noteq> 0
                     then OnConnCtrlMsg e (i_Addr d) Slot (uint (mem_at (rp_Mem p) 0)) p sv n else (sv, n))
      in do {
        (r, p, c, n) \<leftarrow> Feed (i_Stack d) p (i_Addr d) Token ResponseToken (slot sv Slot) n;
        let sv = set_slot Slot c (sv\<lparr>sv_RecvUnpacker := (sv_RecvUnpacker sv)\<lparr>u_Data := p\<rparr>\<rparr>)
        in Some (if r \<noteq> 0 \<and> rp_DataSize p \<noteq> 0
                 then sv\<lparr>sv_RecvUnpacker := Unpacker_Start (i_Addr d) (int Slot) (sv_RecvUnpacker sv)\<rparr> else sv, n)
      })"

text \<open>
  What is done with one datagram: the chunk it leads to at once, or the write through a null pointer,
  if any, the response token, and the server. \<open>Null_write\<close> of the second unpacking is the missing
  pointer for the response token.
\<close>

definition recv_connected :: "sv_env \<Rightarrow> incoming \<Rightarrow> received \<Rightarrow> rpacket \<Rightarrow> i32 \<Rightarrow> i32 \<Rightarrow> CNetServer \<Rightarrow> net \<Rightarrow>
    (recv_result option \<times> i32 \<times> CNetServer \<times> net) option" where
  "recv_connected e d r p Token ResponseToken sv n =
     (if rp_Flags p AND NET_PACKETFLAG_CONTROL \<noteq> 0 \<and> rp_DataSize p = 0 then Some (None, ResponseToken, sv, n)
      else
        let Slot = GetClientSlot sv (i_Addr d)
        in if Slot \<noteq> -1
           then
             if \<not> r_Sixup r \<and> c_Sixup (slot sv (nat Slot))
             then case UnpackPacket (i_Bytes d) True (Some Token) None of
                    Refused \<Rightarrow> Some (None, ResponseToken, sv, n)
                  | Null_write \<Rightarrow> Some (Some Null_pointer, ResponseToken, sv, n)
                  | Unpacked r \<Rightarrow>
                      map_option (\<lambda>(sv, n). (None, ResponseToken, sv, n))
                        (recv_slot e d (nat Slot) (in_memory (r_Packet r) (i_Stale d)) (the (r_SecurityToken r)) ResponseToken sv n)
             else map_option (\<lambda>(sv, n). (None, ResponseToken, sv, n)) (recv_slot e d (nat Slot) p Token ResponseToken sv n)
           else if r_Sixup r
           then case OnSixupCtrlMsg e (i_Addr d) (uint (mem_at (rp_Mem p) 0)) p ResponseToken Token sv n of
                  (chunk, ResponseToken, sv, n) \<Rightarrow> Some (map_option Received chunk, ResponseToken, sv, n)
           else if IsDDNetControlMsg p
           then Some (None, ResponseToken, OnTokenCtrlMsg e (i_Addr d) (uint (mem_at (rp_Mem p) 0)) p sv n)
           else Some (None, ResponseToken, OnPreConnMsg e (i_Addr d) p sv n))"

definition recv_datagram :: "sv_env \<Rightarrow> incoming \<Rightarrow> i32 \<Rightarrow> CNetServer \<Rightarrow> net \<Rightarrow>
    (recv_result option \<times> i32 \<times> CNetServer \<times> net) option" where
  "recv_datagram e d ResponseToken sv n =
     (case se_Banned e (i_Addr d) of
        Some msg \<Rightarrow> Some (None, ResponseToken, sv,
          net_send (SendControlMsg (i_Addr d) 0 NET_CTRLMSG_CLOSE (msg @ [0]) NET_SECURITY_TOKEN_UNSUPPORTED False) n)
      | None \<Rightarrow>
          (case UnpackPacket (i_Bytes d) False (Some (i_Token d)) (Some ResponseToken) of
             Refused \<Rightarrow> Some (None, ResponseToken, sv, n)
           | Null_write \<Rightarrow> Some (Some Null_pointer, ResponseToken, sv, n)
           | Unpacked r \<Rightarrow>
               let p = in_memory (r_Packet r) (i_Stale d);
                   Token = the (r_SecurityToken r);
                   ResponseToken = the (r_ResponseToken r);
                   sv = sv\<lparr>sv_RecvUnpacker := (sv_RecvUnpacker sv)\<lparr>u_Data := p\<rparr>\<rparr>
               in if rp_Flags p AND NET_PACKETFLAG_CONNLESS \<noteq> 0
                  then if r_Sixup r \<and> Token \<noteq> GetToken e sv (i_Addr d) \<and> Token \<noteq> GetGlobalToken e sv
                       then Some (None, ResponseToken, sv, n)
                       else Some (Some (Received
                         \<lparr>ch_ClientId = -1, ch_Address = i_Addr d,
                          ch_Flags = (if rp_Flags p AND NET_PACKETFLAG_EXTENDED \<noteq> 0
                                      then NETSENDFLAG_CONNLESS OR NETSENDFLAG_EXTENDED else NETSENDFLAG_CONNLESS),
                          ch_DataSize = rp_DataSize p, ch_pData = 0, ch_aExtraData = p_aExtraData (r_Packet r)\<rparr>),
                         ResponseToken, sv, n)
                  else recv_connected e d r p Token ResponseToken sv n))"

text \<open>The loop of \<open>Recv\<close>; the rest of the datagrams stays in the socket.\<close>

fun Server_Recv :: "sv_env \<Rightarrow> incoming list \<Rightarrow> i32 \<Rightarrow> CNetServer \<Rightarrow> net \<Rightarrow>
    (recv_result \<times> i32 \<times> incoming list \<times> CNetServer \<times> net) option" where
  "Server_Recv e ds ResponseToken sv n =
     (case server_fetch sv of
        (Some chunk, sv) \<Rightarrow> Some (Received chunk, ResponseToken, ds, sv, n)
      | (None, sv) \<Rightarrow>
          (case ds of
             [] \<Rightarrow> Some (No_packet, ResponseToken, [], sv, n)
           | d # ds \<Rightarrow>
               if i_Bytes d = [] then Some (No_packet, ResponseToken, ds, sv, n)
               else case recv_datagram e d ResponseToken sv n of
                      None \<Rightarrow> None
                    | Some (Some r, ResponseToken, sv, n) \<Rightarrow> Some (r, ResponseToken, ds, sv, n)
                    | Some (None, ResponseToken, sv, n) \<Rightarrow> Server_Recv e ds ResponseToken sv n))"

declare Server_Recv.simps [simp del]

section \<open>Sending and moving connections\<close>

definition Server_Send :: "CNetChunk \<Rightarrow> u8 list \<Rightarrow> CNetServer \<Rightarrow> net \<Rightarrow> (int \<times> CNetServer \<times> net) option" where
  "Server_Send chunk Data sv n =
     (if length Data \<ge> NET_MAX_PAYLOAD then Some (-1, sv, n)
      else if ch_Flags chunk AND NETSENDFLAG_CONNLESS \<noteq> 0
      then Some (0, sv, net_send (SendPacketConnless (ch_Address chunk) Data
                  (ch_Flags chunk AND NETSENDFLAG_EXTENDED \<noteq> 0) (ch_aExtraData chunk)) n)
      else if \<not> (0 \<le> ch_ClientId chunk \<and> ch_ClientId chunk < int (sv_MaxClients sv)) then None
      else
        let i = nat (ch_ClientId chunk);
            Flags = (if ch_Flags chunk AND NETSENDFLAG_VITAL \<noteq> 0 then NET_CHUNKFLAG_VITAL else 0)
        in do {
          (r, c, n) \<leftarrow> QueueChunk Flags Data (slot sv i) n;
          let (c, n) = (if r = 0 \<and> ch_Flags chunk AND NETSENDFLAG_FLUSH \<noteq> 0 then snd (Flush c n) else (c, n))
          in Some (0, set_slot i c sv, n)
        })"

definition Server_SetTimedOut :: "nat \<Rightarrow> nat \<Rightarrow> CNetServer \<Rightarrow> net \<Rightarrow> (bool \<times> CNetServer \<times> net) option" where
  "Server_SetTimedOut ClientId OrigId sv n =
     (if c_State (slot sv ClientId) \<noteq> ERROR then Some (False, sv, n)
      else
        let orig = slot sv OrigId
        in do {
          (rb, c, n) \<leftarrow> Conn_SetTimedOut (c_PeerAddr orig) (c_Sequence orig) (c_Ack orig) (c_SecurityToken orig) (c_Buffer orig)
                          (c_Resends orig) (c_Sixup orig) (slot sv ClientId) n;
          let sv = set_slot ClientId c sv;
              sv = set_slot OrigId (Conn_Reset False ((slot sv OrigId)\<lparr>c_Buffer := rb\<rparr>)) sv
          in Some (True, sv, n)
        })"

end
