(* ===== verification/DList.thy ===== *)
theory DList
  imports Prelude
begin

text \<open>
  Doubly linked lists without a sentinel, as \<^verbatim>\<open>src/src/engine/shared/netban.cpp\<close> links its bans:
  a node is an index, the two links are functions of the index, the null pointer is \<open>None\<close>, and the
  first node is kept outside. A node that is not in the list may have any links.
\<close>

section \<open>Operations\<close>

record links =
  l_Next :: "nat \<Rightarrow> nat option"
  l_Prev :: "nat \<Rightarrow> nat option"
  l_First :: "nat option"

text \<open>Take a node out: its neighbours are linked to each other.\<close>

definition unlink :: "nat \<Rightarrow> links \<Rightarrow> links" where
  "unlink b l =
     (let l = (case l_Next l b of Some n \<Rightarrow> l\<lparr>l_Prev := (l_Prev l)(n := l_Prev l b)\<rparr> | None \<Rightarrow> l)
      in case l_Prev l b of
           Some p \<Rightarrow> l\<lparr>l_Next := (l_Next l)(p := l_Next l b)\<rparr>
         | None \<Rightarrow> l\<lparr>l_First := l_Next l b\<rparr>)"

text \<open>Put a node in front.\<close>

definition push_front :: "nat \<Rightarrow> links \<Rightarrow> links" where
  "push_front b l =
     (let l = (case l_First l of Some f \<Rightarrow> l\<lparr>l_Prev := (l_Prev l)(f := Some b)\<rparr> | None \<Rightarrow> l)
      in l\<lparr>l_Prev := (l_Prev l)(b := None), l_Next := (l_Next l)(b := l_First l), l_First := Some b\<rparr>)"

text \<open>Put a node before the node \<open>p\<close>, or behind the last node \<open>p\<close>.\<close>

definition insert_before :: "nat \<Rightarrow> nat \<Rightarrow> links \<Rightarrow> links" where
  "insert_before b p l =
     (let l = l\<lparr>l_Next := (l_Next l)(b := Some p)\<rparr>;
          l = l\<lparr>l_Prev := (l_Prev l)(b := l_Prev l p)\<rparr>;
          l = (case l_Prev l p of
                 Some q \<Rightarrow> l\<lparr>l_Next := (l_Next l)(q := Some b)\<rparr>
               | None \<Rightarrow> l\<lparr>l_First := Some b\<rparr>)
      in l\<lparr>l_Prev := (l_Prev l)(p := Some b)\<rparr>)"

definition insert_last :: "nat \<Rightarrow> nat \<Rightarrow> links \<Rightarrow> links" where
  "insert_last b p l = l\<lparr>l_Next := ((l_Next l)(p := Some b))(b := None), l_Prev := (l_Prev l)(b := Some p)\<rparr>"

section \<open>The nodes of a list\<close>

definition first_of :: "nat list \<Rightarrow> nat option \<Rightarrow> nat option" where
  "first_of xs e = (if xs = [] then e else Some (hd xs))"

definition last_of :: "nat option \<Rightarrow> nat list \<Rightarrow> nat option" where
  "last_of s xs = (if xs = [] then s else Some (last xs))"

lemma first_of_simps [simp]: "first_of [] e = e" "first_of (x # xs) e = Some x" "first_of (xs @ ys) e = first_of xs (first_of ys e)"
  by (auto simp: first_of_def)

lemma last_of_simps [simp]: "last_of s [] = s" "last_of s (xs @ ys) = last_of (last_of s xs) ys" "last_of s [x] = Some x"
  by (auto simp: last_of_def)

lemma last_of_Cons [simp]: "last_of s (x # xs) = last_of (Some x) xs"
  by (simp add: last_of_def)

text \<open>\<open>xs\<close> is linked in this order; \<open>s\<close> and \<open>e\<close> are the links out of the segment.\<close>

fun linked :: "(nat \<Rightarrow> nat option) \<Rightarrow> (nat \<Rightarrow> nat option) \<Rightarrow> nat option \<Rightarrow> nat list \<Rightarrow> nat option \<Rightarrow> bool" where
  "linked nx pv s [] e \<longleftrightarrow> True"
| "linked nx pv s (a # as) e \<longleftrightarrow> pv a = s \<and> nx a = first_of as e \<and> linked nx pv (Some a) as e"

lemma linked_append [simp]:
  "linked nx pv s (xs @ ys) e \<longleftrightarrow> linked nx pv s xs (first_of ys e) \<and> linked nx pv (last_of s xs) ys e"
  by (induction xs arbitrary: s) auto

lemma linked_cong:
  "(\<And>a. a \<in> set xs \<Longrightarrow> nx' a = nx a \<and> pv' a = pv a) \<Longrightarrow> linked nx' pv' s xs e = linked nx pv s xs e"
  by (induction xs arbitrary: s) auto

lemma linked_fun_upd [simp]:
  "a \<notin> set xs \<Longrightarrow> linked (nx(a := v)) pv s xs e = linked nx pv s xs e"
  "a \<notin> set xs \<Longrightarrow> linked nx (pv(a := v)) s xs e = linked nx pv s xs e"
  by (rule linked_cong; auto)+

lemma linked_new_start: "linked nx pv s (x # xs) e \<Longrightarrow> x \<notin> set xs \<Longrightarrow> linked nx (pv(x := t)) t (x # xs) e"
  by simp

lemma linked_new_end:
  assumes "linked nx pv s (xs @ [x]) e" "x \<notin> set xs"
  shows "linked (nx(x := t)) pv s (xs @ [x]) t"
  using assms by simp

text \<open>A list: its links, the first node, and no node twice.\<close>

definition dlist :: "links \<Rightarrow> nat list \<Rightarrow> bool" where
  "dlist l xs \<longleftrightarrow> linked (l_Next l) (l_Prev l) None xs None \<and> l_First l = first_of xs None \<and> distinct xs"

lemma dlist_unique: "dlist l xs \<Longrightarrow> dlist l ys \<Longrightarrow> xs = ys"
proof -
  have "linked nx pv s xs None \<Longrightarrow> linked nx pv t ys None \<Longrightarrow> first_of xs None = first_of ys None \<Longrightarrow> xs = ys" for nx pv s t xs ys
  proof (induction xs arbitrary: ys s t)
    case Nil
    then show ?case by (cases ys) auto
  next
    case (Cons x xs)
    then show ?case by (cases ys) auto
  qed
  then show "dlist l xs \<Longrightarrow> dlist l ys \<Longrightarrow> xs = ys" unfolding dlist_def by metis
qed

text \<open>What an operation on one list leaves alone: the links of the nodes of other lists.\<close>

definition same_links :: "nat set \<Rightarrow> links \<Rightarrow> links \<Rightarrow> bool" where
  "same_links S l l' \<longleftrightarrow> (\<forall>a \<in> S. l_Next l' a = l_Next l a \<and> l_Prev l' a = l_Prev l a)"

lemma dlist_same_links:
  assumes "dlist l xs" "same_links (set xs) l l'" "l_First l' = l_First l"
  shows "dlist l' xs"
proof -
  have "linked (l_Next l') (l_Prev l') None xs None = linked (l_Next l) (l_Prev l) None xs None"
    using assms(2) by (intro linked_cong) (simp add: same_links_def)
  with assms(1,3) show ?thesis by (simp add: dlist_def)
qed

lemma dlist_unlink:
  assumes "dlist l (xs @ b # ys)"
  shows "dlist (unlink b l) (xs @ ys)" "same_links (- set (xs @ ys)) l (unlink b l)"
proof -
  have l: "linked (l_Next l) (l_Prev l) None xs (Some b)" "l_Prev l b = last_of None xs" "l_Next l b = first_of ys None"
    "linked (l_Next l) (l_Prev l) (Some b) ys None" "l_First l = first_of (xs @ b # ys) None" "distinct (xs @ b # ys)"
    using assms by (simp_all add: dlist_def)
  show "dlist (unlink b l) (xs @ ys)"
  proof (cases xs rule: rev_cases)
    case Nil
    show ?thesis
    proof (cases ys)
      case Nil
      then show ?thesis using l \<open>xs = []\<close> by (simp add: unlink_def dlist_def)
    next
      case (Cons y ys')
      then show ?thesis using l Nil by (simp add: unlink_def dlist_def)
    qed
  next
    case (snoc xs' x)
    show ?thesis
    proof (cases ys)
      case Nil
      then show ?thesis using l snoc by (simp add: unlink_def dlist_def)
    next
      case (Cons y ys')
      then show ?thesis using l snoc by (simp add: unlink_def dlist_def)
    qed
  qed
  show "same_links (- set (xs @ ys)) l (unlink b l)"
    using l(2,3,6) by (cases xs rule: rev_cases; cases ys) (auto simp: unlink_def same_links_def)
qed

lemma dlist_push_front:
  assumes "dlist l xs" "b \<notin> set xs"
  shows "dlist (push_front b l) (b # xs)" "same_links (- set (b # xs)) l (push_front b l)"
  using assms by (cases xs; auto simp: push_front_def dlist_def same_links_def Let_def)+

lemma dlist_insert_before:
  assumes "dlist l (xs @ p # ys)" "b \<notin> set (xs @ p # ys)"
  shows "dlist (insert_before b p l) (xs @ b # p # ys)" "same_links (- set (xs @ b # p # ys)) l (insert_before b p l)"
  using assms by (cases xs rule: rev_cases; auto simp: insert_before_def dlist_def same_links_def Let_def)+

lemma dlist_insert_last:
  assumes "dlist l (xs @ [p])" "b \<notin> set (xs @ [p])"
  shows "dlist (insert_last b p l) (xs @ [p, b])" "same_links (- set (xs @ [p, b])) l (insert_last b p l)"
  using assms by (auto simp: insert_last_def dlist_def same_links_def)

end
