(* ===== verification/NetBan.thy ===== *)
theory NetBan
  imports NetServer DList
begin

text \<open>
  The bans of \<^verbatim>\<open>src/src/engine/shared/netban.cpp\<close> and \<^verbatim>\<open>netban.h\<close>: pools of bans on addresses and
  on ranges of addresses, each with hash lists to look an address up and a list ordered by the time of
  expiry. A ban is named by its index in the array, and its four pointers are functions of the index. The
  operations of the template take the overloaded functions (comparing, hashing and matching the data) as
  parameters. \<open>None\<close> is a loop that does not end or a read behind an array. What is printed to the console
  is left out, and \<open>time_timestamp\<close> is the argument \<open>Now\<close>.
\<close>

section \<open>Comparing addresses and ranges\<close>

definition NETTYPE_IPV4 :: i32 where "NETTYPE_IPV4 = 1"
definition NETTYPE_IPV6 :: i32 where "NETTYPE_IPV6 = 2"

text \<open>The sign of \<open>memcmp\<close> on two blocks of the same size.\<close>

fun mem_comp :: "u8 list \<Rightarrow> u8 list \<Rightarrow> int" where
  "mem_comp (a # as) (b # bs) = (if a < b then -1 else if b < a then 1 else mem_comp as bs)"
| "mem_comp _ _ = 0"

definition NetComp :: "NETADDR \<Rightarrow> NETADDR \<Rightarrow> int" where
  "NetComp a b =
     (let n = (if na_type a = NETTYPE_IPV4 then 8 else 20)
      in mem_comp (take n (addr_bytes a)) (take n (addr_bytes b)))"

record CNetRange =
  m_LB :: NETADDR
  m_UB :: NETADDR

definition Range_IsValid :: "CNetRange \<Rightarrow> bool" where
  "Range_IsValid r \<longleftrightarrow> na_type (m_LB r) = na_type (m_UB r) \<and> NetComp (m_LB r) (m_UB r) < 0"

definition NetComp_range :: "CNetRange \<Rightarrow> CNetRange \<Rightarrow> bool" where
  "NetComp_range r s \<longleftrightarrow> NetComp (m_LB r) (m_LB s) \<noteq> 0 \<or> NetComp (m_UB r) (m_UB s) \<noteq> 0"

definition NetMatch :: "NETADDR \<Rightarrow> NETADDR \<Rightarrow> bool" where
  "NetMatch a b \<longleftrightarrow> NetComp a b = 0"

text \<open>The bytes \<open>Start\<close> to \<open>Length - 1\<close> of an address.\<close>

definition part :: "nat \<Rightarrow> nat \<Rightarrow> NETADDR \<Rightarrow> u8 list" where
  "part Start Length a = take (Length - Start) (drop Start (na_ip a))"

definition NetMatch_part :: "CNetRange \<Rightarrow> NETADDR \<Rightarrow> nat \<Rightarrow> nat \<Rightarrow> bool" where
  "NetMatch_part r a Start Length \<longleftrightarrow>
     na_type (m_LB r) = na_type a \<and> (Start = 0 \<or> mem_comp (take Start (na_ip (m_LB r))) (take Start (na_ip a)) = 0) \<and>
     mem_comp (part Start Length (m_LB r)) (part Start Length a) \<le> 0 \<and>
     mem_comp (part Start Length (m_UB r)) (part Start Length a) \<ge> 0"

definition NetMatch_range :: "CNetRange \<Rightarrow> NETADDR \<Rightarrow> bool" where
  "NetMatch_range r a = NetMatch_part r a 0 (if na_type (m_LB r) = NETTYPE_IPV4 then 4 else 16)"

section \<open>Hashes\<close>

record CNetHash =
  m_Hash :: int
  m_HashIndex :: nat

definition addr_length :: "NETADDR \<Rightarrow> nat" where
  "addr_length a = (if na_type a = NETTYPE_IPV4 then 4 else 16)"

definition CNetHash_addr :: "NETADDR \<Rightarrow> CNetHash" where
  "CNetHash_addr a = \<lparr>m_Hash = sum_list (map uint (take (addr_length a) (na_ip a))) AND 0xFF, m_HashIndex = 0\<rparr>"

text \<open>The loop over the bytes that are equal; it does not stop at the end of the array.\<close>

fun range_hash_loop :: "u8 list \<Rightarrow> u8 list \<Rightarrow> int \<Rightarrow> nat \<Rightarrow> CNetHash option" where
  "range_hash_loop (l # ls) (u # us) Hash i =
     (if l = u then range_hash_loop ls us (Hash + uint l) (i + 1) else Some \<lparr>m_Hash = Hash AND 0xFF, m_HashIndex = i\<rparr>)"
| "range_hash_loop _ _ Hash i = None"

definition CNetHash_range :: "CNetRange \<Rightarrow> CNetHash option" where
  "CNetHash_range r = range_hash_loop (na_ip (m_LB r)) (na_ip (m_UB r)) 0 0"

fun hash_array_loop :: "nat \<Rightarrow> u8 list \<Rightarrow> nat \<Rightarrow> int \<Rightarrow> CNetHash list" where
  "hash_array_loop Length [] i acc = []"
| "hash_array_loop Length (b # bs) i acc =
     (let acc = acc + uint b
      in \<lparr>m_Hash = acc AND 0xFF, m_HashIndex = i mod Length\<rparr> # hash_array_loop Length bs (i + 1) acc)"

definition MakeHashArray :: "NETADDR \<Rightarrow> nat \<times> CNetHash list" where
  "MakeHashArray a =
     (let Length = addr_length a
      in (Length, \<lparr>m_Hash = 0, m_HashIndex = 0\<rparr> # hash_array_loop Length (take Length (na_ip a)) 1 0))"

section \<open>The pools\<close>

record CBanInfo =
  m_Expires :: int
  m_aReason :: "u8 list"
  m_VerbatimReason :: bool

definition EXPIRES_NEVER :: int where "EXPIRES_NEVER = -1"
definition REASON_LENGTH :: nat where "REASON_LENGTH = 128"
definition MAX_BANS :: nat where "MAX_BANS = 2048"

record 'a CBan =
  bn_Data :: 'a
  bn_Info :: CBanInfo
  bn_NetHash :: CNetHash

record 'a CBanPool =
  bp_HashList :: "CNetHash \<Rightarrow> nat option"
  bp_Bans :: "nat \<Rightarrow> 'a CBan"
  bp_HashNext :: "nat \<Rightarrow> nat option"
  bp_HashPrev :: "nat \<Rightarrow> nat option"
  bp_Next :: "nat \<Rightarrow> nat option"
  bp_Prev :: "nat \<Rightarrow> nat option"
  bp_FirstFree :: "nat option"
  bp_FirstUsed :: "nat option"
  bp_CountUsed :: int

text \<open>The lists of a pool: those in use, the free ones, and those with one hash.\<close>

definition used_links :: "'a CBanPool \<Rightarrow> links" where
  "used_links P = \<lparr>l_Next = bp_Next P, l_Prev = bp_Prev P, l_First = bp_FirstUsed P\<rparr>"

definition free_links :: "'a CBanPool \<Rightarrow> links" where
  "free_links P = \<lparr>l_Next = bp_Next P, l_Prev = bp_Prev P, l_First = bp_FirstFree P\<rparr>"

definition hash_links :: "CNetHash \<Rightarrow> 'a CBanPool \<Rightarrow> links" where
  "hash_links h P = \<lparr>l_Next = bp_HashNext P, l_Prev = bp_HashPrev P, l_First = bp_HashList P h\<rparr>"

definition set_used :: "links \<Rightarrow> 'a CBanPool \<Rightarrow> 'a CBanPool" where
  "set_used l P = P\<lparr>bp_Next := l_Next l, bp_Prev := l_Prev l, bp_FirstUsed := l_First l\<rparr>"

definition set_free :: "links \<Rightarrow> 'a CBanPool \<Rightarrow> 'a CBanPool" where
  "set_free l P = P\<lparr>bp_Next := l_Next l, bp_Prev := l_Prev l, bp_FirstFree := l_First l\<rparr>"

definition set_hash :: "CNetHash \<Rightarrow> links \<Rightarrow> 'a CBanPool \<Rightarrow> 'a CBanPool" where
  "set_hash h l P = P\<lparr>bp_HashNext := l_Next l, bp_HashPrev := l_Prev l, bp_HashList := (bp_HashList P)(h := l_First l)\<rparr>"

definition IsFull :: "'a CBanPool \<Rightarrow> bool" where
  "IsFull P \<longleftrightarrow> bp_CountUsed P = int MAX_BANS"

text \<open>\<open>zero\<close> is a ban whose bytes are all zero.\<close>

definition Pool_Reset :: "'a CBan \<Rightarrow> 'a CBanPool \<Rightarrow> 'a CBanPool" where
  "Pool_Reset zero P = P\<lparr>bp_HashList := \<lambda>_. None, bp_Bans := \<lambda>_. zero, bp_HashNext := \<lambda>_. None, bp_HashPrev := \<lambda>_. None,
     bp_FirstUsed := None, bp_CountUsed := 0,
     bp_Next := \<lambda>i. if i < MAX_BANS - 1 then Some (i + 1) else None,
     bp_Prev := \<lambda>i. if 0 < i \<and> i < MAX_BANS then Some (i - 1) else None,
     bp_FirstFree := Some 0\<rparr>"

text \<open>The first ban of a hash list whose data pass a test. The fuel is the size of the array.\<close>

fun find_loop :: "('a \<Rightarrow> bool) \<Rightarrow> 'a CBanPool \<Rightarrow> nat \<Rightarrow> nat option \<Rightarrow> nat option option" where
  "find_loop ok P fuel None = Some None"
| "find_loop ok P 0 (Some i) = None"
| "find_loop ok P (Suc fuel) (Some i) =
     (if ok (bn_Data (bp_Bans P i)) then Some (Some i) else find_loop ok P fuel (bp_HashNext P i))"

definition Pool_Find :: "('a \<Rightarrow> 'a \<Rightarrow> bool) \<Rightarrow> 'a \<Rightarrow> CNetHash \<Rightarrow> 'a CBanPool \<Rightarrow> nat option option" where
  "Pool_Find same pData h P = find_loop (\<lambda>d. same d pData) P MAX_BANS (bp_HashList P h)"

fun get_loop :: "(nat \<Rightarrow> nat option) \<Rightarrow> nat option \<Rightarrow> nat \<Rightarrow> nat option" where
  "get_loop nx None Index = None"
| "get_loop nx (Some i) 0 = Some i"
| "get_loop nx (Some i) (Suc Index) = get_loop nx (nx i) Index"

definition Pool_Get :: "int \<Rightarrow> 'a CBanPool \<Rightarrow> nat option" where
  "Pool_Get Index P = (if Index < 0 \<or> Index \<ge> bp_CountUsed P then None else get_loop (bp_Next P) (bp_FirstUsed P) (nat Index))"

text \<open>Whether a ban that expires at \<open>e\<close> goes before one that expires at \<open>f\<close>.\<close>

definition goes_before :: "int \<Rightarrow> int \<Rightarrow> bool" where
  "goes_before e f \<longleftrightarrow> f = EXPIRES_NEVER \<or> (e \<noteq> EXPIRES_NEVER \<and> e \<le> f)"

definition expires :: "'a CBanPool \<Rightarrow> nat \<Rightarrow> int" where
  "expires P i = m_Expires (bn_Info (bp_Bans P i))"

fun insert_loop :: "(nat \<Rightarrow> int) \<Rightarrow> nat \<Rightarrow> nat \<Rightarrow> nat \<Rightarrow> links \<Rightarrow> links option" where
  "insert_loop ex 0 b p l = None"
| "insert_loop ex (Suc fuel) b p l =
     (if goes_before (ex b) (ex p) then Some (insert_before b p l)
      else case l_Next l p of
             None \<Rightarrow> Some (insert_last b p l)
           | Some q \<Rightarrow> insert_loop ex fuel b q l)"

definition InsertUsed :: "nat \<Rightarrow> 'a CBanPool \<Rightarrow> 'a CBanPool option" where
  "InsertUsed b P =
     (case bp_FirstUsed P of
        Some p \<Rightarrow> map_option (\<lambda>l. set_used l P) (insert_loop (expires P) MAX_BANS b p (used_links P))
      | None \<Rightarrow> Some (P\<lparr>bp_FirstUsed := Some b, bp_Prev := (bp_Prev P)(b := None), bp_Next := (bp_Next P)(b := None)\<rparr>))"

definition Pool_Add :: "'a \<Rightarrow> CBanInfo \<Rightarrow> CNetHash \<Rightarrow> 'a CBanPool \<Rightarrow> (nat option \<times> 'a CBanPool) option" where
  "Pool_Add pData pInfo h P =
     (case bp_FirstFree P of
        None \<Rightarrow> Some (None, P)
      | Some b \<Rightarrow>
          let P = P\<lparr>bp_Bans := (bp_Bans P)(b := \<lparr>bn_Data = pData, bn_Info = pInfo, bn_NetHash = h\<rparr>)\<rparr>;
              P = set_free (unlink b (free_links P)) P;
              P = set_hash h (push_front b (hash_links h P)) P
          in map_option (\<lambda>P. (Some b, P\<lparr>bp_CountUsed := bp_CountUsed P + 1\<rparr>)) (InsertUsed b P))"

definition Pool_Remove :: "nat \<Rightarrow> 'a CBanPool \<Rightarrow> 'a CBanPool" where
  "Pool_Remove b P =
     (let h = bn_NetHash (bp_Bans P b);
          P = set_hash h (unlink b (hash_links h P)) P;
          P = P\<lparr>bp_HashNext := (bp_HashNext P)(b := None), bp_HashPrev := (bp_HashPrev P)(b := None)\<rparr>;
          P = set_used (unlink b (used_links P)) P;
          P = set_free (push_front b (free_links P)) P
      in P\<lparr>bp_CountUsed := bp_CountUsed P - 1\<rparr>)"

definition Pool_Update :: "nat \<Rightarrow> CBanInfo \<Rightarrow> 'a CBanPool \<Rightarrow> 'a CBanPool option" where
  "Pool_Update b pInfo P =
     (let P = P\<lparr>bp_Bans := (bp_Bans P)(b := (bp_Bans P b)\<lparr>bn_Info := pInfo\<rparr>)\<rparr>
      in InsertUsed b (set_used (unlink b (used_links P)) P))"

section \<open>Banning\<close>

text \<open>What the template is instantiated with.\<close>

record 'a ban_kind =
  k_same :: "'a \<Rightarrow> 'a \<Rightarrow> bool"
  k_hash :: "'a \<Rightarrow> CNetHash option"
  k_matches :: "'a \<Rightarrow> NETADDR \<Rightarrow> bool"

definition addr_kind :: "NETADDR ban_kind" where
  "addr_kind = \<lparr>k_same = (\<lambda>a b. NetComp a b = 0), k_hash = (\<lambda>a. Some (CNetHash_addr a)), k_matches = NetMatch\<rparr>"

definition range_kind :: "CNetRange ban_kind" where
  "range_kind = \<lparr>k_same = (\<lambda>r s. \<not> NetComp_range r s), k_hash = CNetHash_range, k_matches = NetMatch_range\<rparr>"

record CNetBan =
  nb_AddrPool :: "NETADDR CBanPool"
  nb_RangePool :: "CNetRange CBanPool"
  nb_LocalhostIpV4 :: NETADDR
  nb_LocalhostIpV6 :: NETADDR

definition Ban :: "'a ban_kind \<Rightarrow> NETADDR \<Rightarrow> NETADDR \<Rightarrow> int \<Rightarrow> 'a \<Rightarrow> int \<Rightarrow> u8 list \<Rightarrow> bool \<Rightarrow> 'a CBanPool \<Rightarrow> (int \<times> 'a CBanPool) option" where
  "Ban k Localhost4 Localhost6 Now pData Seconds pReason VerbatimReason P =
     (if k_matches k pData Localhost4 \<or> k_matches k pData Localhost6 then Some (-1, P)
      else
        let Stamp = (if Seconds > 0 then Now + Seconds else EXPIRES_NEVER);
            Info = \<lparr>m_Expires = Stamp, m_aReason = str_copy pReason REASON_LENGTH, m_VerbatimReason = VerbatimReason\<rparr>
        in do {
          h \<leftarrow> k_hash k pData;
          r \<leftarrow> Pool_Find (k_same k) pData h P;
          case r of
            Some b \<Rightarrow> map_option (\<lambda>P. (1, P)) (Pool_Update b Info P)
          | None \<Rightarrow> map_option (\<lambda>(r, P). (if r \<noteq> None then 0 else -1, P)) (Pool_Add pData Info h P)
        })"

definition Unban :: "'a ban_kind \<Rightarrow> 'a \<Rightarrow> 'a CBanPool \<Rightarrow> (int \<times> 'a CBanPool) option" where
  "Unban k pData P =
     do {
       h \<leftarrow> k_hash k pData;
       r \<leftarrow> Pool_Find (k_same k) pData h P;
       case r of
         Some b \<Rightarrow> Some (0, Pool_Remove b P)
       | None \<Rightarrow> Some (-1, P)
     }"

definition zero_info :: CBanInfo where
  "zero_info = \<lparr>m_Expires = 0, m_aReason = [], m_VerbatimReason = False\<rparr>"

definition zero_ban :: "'a \<Rightarrow> 'a CBan" where
  "zero_ban z = \<lparr>bn_Data = z, bn_Info = zero_info, bn_NetHash = \<lparr>m_Hash = 0, m_HashIndex = 0\<rparr>\<rparr>"

definition UnbanAll :: "CNetBan \<Rightarrow> CNetBan" where
  "UnbanAll nb =
     nb\<lparr>nb_AddrPool := Pool_Reset (zero_ban zero_addr) (nb_AddrPool nb),
        nb_RangePool := Pool_Reset (zero_ban \<lparr>m_LB = zero_addr, m_UB = zero_addr\<rparr>) (nb_RangePool nb)\<rparr>"

text \<open>\<open>v4\<close> and \<open>v6\<close> are the addresses of localhost that are looked up.\<close>

definition NetBan_Init :: "NETADDR \<Rightarrow> NETADDR \<Rightarrow> CNetBan \<Rightarrow> CNetBan" where
  "NetBan_Init v4 v6 nb = (UnbanAll nb)\<lparr>nb_LocalhostIpV4 := v4, nb_LocalhostIpV6 := v6\<rparr>"

fun expire_loop :: "nat \<Rightarrow> int \<Rightarrow> 'a CBanPool \<Rightarrow> 'a CBanPool option" where
  "expire_loop 0 Now P = None"
| "expire_loop (Suc fuel) Now P =
     (case bp_FirstUsed P of
        None \<Rightarrow> Some P
      | Some b \<Rightarrow>
          if expires P b \<noteq> EXPIRES_NEVER \<and> expires P b < Now then expire_loop fuel Now (Pool_Remove b P) else Some P)"

definition NetBan_Update :: "int \<Rightarrow> CNetBan \<Rightarrow> CNetBan option" where
  "NetBan_Update Now nb =
     do {
       A \<leftarrow> expire_loop (MAX_BANS + 1) Now (nb_AddrPool nb);
       R \<leftarrow> expire_loop (MAX_BANS + 1) Now (nb_RangePool nb);
       Some (nb\<lparr>nb_AddrPool := A, nb_RangePool := R\<rparr>)
     }"

definition BanAddr :: "int \<Rightarrow> NETADDR \<Rightarrow> int \<Rightarrow> u8 list \<Rightarrow> bool \<Rightarrow> CNetBan \<Rightarrow> (int \<times> CNetBan) option" where
  "BanAddr Now pAddr Seconds pReason VerbatimReason nb =
     map_option (\<lambda>(r, P). (r, nb\<lparr>nb_AddrPool := P\<rparr>))
       (Ban addr_kind (nb_LocalhostIpV4 nb) (nb_LocalhostIpV6 nb) Now pAddr Seconds pReason VerbatimReason (nb_AddrPool nb))"

definition BanRange :: "int \<Rightarrow> CNetRange \<Rightarrow> int \<Rightarrow> u8 list \<Rightarrow> CNetBan \<Rightarrow> (int \<times> CNetBan) option" where
  "BanRange Now pRange Seconds pReason nb =
     (if Range_IsValid pRange
      then map_option (\<lambda>(r, P). (r, nb\<lparr>nb_RangePool := P\<rparr>))
             (Ban range_kind (nb_LocalhostIpV4 nb) (nb_LocalhostIpV6 nb) Now pRange Seconds pReason False (nb_RangePool nb))
      else Some (-1, nb))"

definition UnbanByAddr :: "NETADDR \<Rightarrow> CNetBan \<Rightarrow> (int \<times> CNetBan) option" where
  "UnbanByAddr pAddr nb = map_option (\<lambda>(r, P). (r, nb\<lparr>nb_AddrPool := P\<rparr>)) (Unban addr_kind pAddr (nb_AddrPool nb))"

definition UnbanByRange :: "CNetRange \<Rightarrow> CNetBan \<Rightarrow> (int \<times> CNetBan) option" where
  "UnbanByRange pRange nb =
     (if Range_IsValid pRange
      then map_option (\<lambda>(r, P). (r, nb\<lparr>nb_RangePool := P\<rparr>)) (Unban range_kind pRange (nb_RangePool nb))
      else Some (-1, nb))"

definition UnbanByIndex :: "int \<Rightarrow> CNetBan \<Rightarrow> int \<times> CNetBan" where
  "UnbanByIndex Index nb =
     (case Pool_Get Index (nb_AddrPool nb) of
        Some b \<Rightarrow> (0, nb\<lparr>nb_AddrPool := Pool_Remove b (nb_AddrPool nb)\<rparr>)
      | None \<Rightarrow>
          (case Pool_Get (Index - bp_CountUsed (nb_AddrPool nb)) (nb_RangePool nb) of
             Some b \<Rightarrow> (0, nb\<lparr>nb_RangePool := Pool_Remove b (nb_RangePool nb)\<rparr>)
           | None \<Rightarrow> (-1, nb)))"

section \<open>Looking up an address\<close>

text \<open>The minutes left, rounded up as the division of the code does, which cuts off towards zero.\<close>

definition minutes_left :: "int \<Rightarrow> int \<Rightarrow> int" where
  "minutes_left Now Expires = (let d = Expires - Now + 59 in if 0 \<le> d then d div 60 else - ((- d) div 60))"

text \<open>The message for a banned player; \<open>BuffSize\<close> is the size of the buffer.\<close>

definition MakeBanInfo_player :: "int \<Rightarrow> nat \<Rightarrow> CBanInfo \<Rightarrow> u8 list" where
  "MakeBanInfo_player Now BuffSize info =
     (let aBuf = bytes_of ''You have been banned'';
          Mins = minutes_left Now (m_Expires info);
          reason = bytes_of '' ('' @ m_aReason info @ bytes_of '')''
      in str_copy
           (if \<not> m_VerbatimReason info \<and> m_Expires info \<noteq> EXPIRES_NEVER
            then if Mins \<le> 1 then aBuf @ bytes_of '' for 1 minute'' @ reason
                 else aBuf @ bytes_of ('' for '' @ decimal Mins @ '' minutes'') @ reason
            else aBuf @ reason) BuffSize)"

fun range_loop :: "CNetRange CBanPool \<Rightarrow> NETADDR \<Rightarrow> nat \<Rightarrow> CNetHash list \<Rightarrow> nat list \<Rightarrow> nat option option" where
  "range_loop P pAddr Length hs [] = Some None"
| "range_loop P pAddr Length hs (i # is) =
     do {
       r \<leftarrow> find_loop (\<lambda>d. NetMatch_part d pAddr i Length) P MAX_BANS (bp_HashList P (hs ! i));
       case r of
         Some b \<Rightarrow> Some (Some b)
       | None \<Rightarrow> range_loop P pAddr Length hs is
     }"

text \<open>The ban that is found, as its data on expiry and reason.\<close>

definition find_ban :: "NETADDR \<Rightarrow> CNetBan \<Rightarrow> CBanInfo option option" where
  "find_ban pOrigAddr nb =
     (let pAddr = (if na_type pOrigAddr = NETTYPE_WEBSOCKET_IPV4 then pOrigAddr\<lparr>na_type := NETTYPE_IPV4\<rparr> else pOrigAddr);
          (Length, aHash) = MakeHashArray pAddr
      in do {
        r \<leftarrow> Pool_Find (k_same addr_kind) pAddr (aHash ! Length) (nb_AddrPool nb);
        case r of
          Some b \<Rightarrow> Some (Some (bn_Info (bp_Bans (nb_AddrPool nb) b)))
        | None \<Rightarrow> map_option (map_option (\<lambda>b. bn_Info (bp_Bans (nb_RangePool nb) b)))
                    (range_loop (nb_RangePool nb) pAddr Length aHash (rev [0..<Length]))
      })"

text \<open>The message for a banned address; the inner \<open>None\<close> is the return value \<open>false\<close>.\<close>

definition IsBanned :: "int \<Rightarrow> NETADDR \<Rightarrow> nat \<Rightarrow> CNetBan \<Rightarrow> u8 list option option" where
  "IsBanned Now pOrigAddr BufferSize nb = map_option (map_option (MakeBanInfo_player Now BufferSize)) (find_ban pOrigAddr nb)"

section \<open>The commands\<close>

text \<open>
  The arguments of a command come from the console: the numbers are converted already, and \<open>parse\<close> is
  \<open>net_addr_from_str\<close>, with \<open>None\<close> for a string it refuses.
\<close>

definition ConBan :: "(u8 list \<Rightarrow> NETADDR option) \<Rightarrow> int \<Rightarrow> u8 list \<Rightarrow> int option \<Rightarrow> u8 list option \<Rightarrow> CNetBan \<Rightarrow> CNetBan option" where
  "ConBan parse Now pStr minutes reason nb =
     (let Minutes = (case minutes of Some m \<Rightarrow> min (max m 0) 525600 | None \<Rightarrow> 30);
          pReason = (case reason of Some r \<Rightarrow> r | None \<Rightarrow> bytes_of ''No reason given'')
      in case parse pStr of
           Some Addr \<Rightarrow> map_option snd (BanAddr Now Addr (Minutes * 60) pReason False nb)
         | None \<Rightarrow> Some nb)"

definition ConBanRange :: "(u8 list \<Rightarrow> NETADDR option) \<Rightarrow> int \<Rightarrow> u8 list \<Rightarrow> u8 list \<Rightarrow> int option \<Rightarrow> u8 list option \<Rightarrow> CNetBan \<Rightarrow> CNetBan option" where
  "ConBanRange parse Now pStr1 pStr2 minutes reason nb =
     (let Minutes = (case minutes of Some m \<Rightarrow> min (max m 0) 525600 | None \<Rightarrow> 30);
          pReason = (case reason of Some r \<Rightarrow> r | None \<Rightarrow> bytes_of ''No reason given'')
      in case (parse pStr1, parse pStr2) of
           (Some LB, Some UB) \<Rightarrow> map_option snd (BanRange Now \<lparr>m_LB = LB, m_UB = UB\<rparr> (Minutes * 60) pReason nb)
         | _ \<Rightarrow> Some nb)"

text \<open>\<open>index\<close> is the number if the string consists of digits only.\<close>

definition ConUnban :: "(u8 list \<Rightarrow> NETADDR option) \<Rightarrow> int option \<Rightarrow> u8 list \<Rightarrow> CNetBan \<Rightarrow> CNetBan option" where
  "ConUnban parse index pStr nb =
     (case index of
        Some Index \<Rightarrow> Some (snd (UnbanByIndex Index nb))
      | None \<Rightarrow>
          (case parse pStr of
             Some Addr \<Rightarrow> map_option snd (UnbanByAddr Addr nb)
           | None \<Rightarrow> Some nb))"

definition ConUnbanRange :: "(u8 list \<Rightarrow> NETADDR option) \<Rightarrow> u8 list \<Rightarrow> u8 list \<Rightarrow> CNetBan \<Rightarrow> CNetBan option" where
  "ConUnbanRange parse pStr1 pStr2 nb =
     (case (parse pStr1, parse pStr2) of
        (Some LB, Some UB) \<Rightarrow> map_option snd (UnbanByRange \<lparr>m_LB = LB, m_UB = UB\<rparr> nb)
      | _ \<Rightarrow> Some nb)"

definition ConUnbanAll :: "CNetBan \<Rightarrow> CNetBan" where
  "ConUnbanAll nb = UnbanAll nb"

section \<open>Listing and saving\<close>

text \<open>
  What the commands print is given as data: the number of an entry and the ban. \<open>walk_bans\<close> follows the links
  from the first ban in use.
\<close>

fun walk_bans :: "nat \<Rightarrow> (nat \<Rightarrow> nat option) \<Rightarrow> nat option \<Rightarrow> nat list option" where
  "walk_bans fuel nx None = Some []"
| "walk_bans 0 nx (Some i) = None"
| "walk_bans (Suc fuel) nx (Some i) = map_option (\<lambda>is. i # is) (walk_bans fuel nx (nx i))"

type_synonym ban_entry = "(NETADDR \<times> CBanInfo) + (CNetRange \<times> CBanInfo)"

definition pool_entries :: "'a CBanPool \<Rightarrow> ('a \<times> CBanInfo) list option" where
  "pool_entries P = map_option (map (\<lambda>i. (bn_Data (bp_Bans P i), bn_Info (bp_Bans P i)))) (walk_bans MAX_BANS (bp_Next P) (bp_FirstUsed P))"

definition all_entries :: "CNetBan \<Rightarrow> ban_entry list option" where
  "all_entries nb =
     do {
       A \<leftarrow> pool_entries (nb_AddrPool nb);
       R \<leftarrow> pool_entries (nb_RangePool nb);
       Some (map Inl A @ map Inr R)
     }"

datatype bans_page =
    Empty_list
  | Invalid_page int
  | Page_shown "(nat \<times> ban_entry) list"

definition ENTRIES_PER_PAGE :: nat where "ENTRIES_PER_PAGE = 20"

definition ConBans :: "int option \<Rightarrow> CNetBan \<Rightarrow> bans_page option" where
  "ConBans page nb =
     (let Page = (case page of Some p \<Rightarrow> p | None \<Rightarrow> 1);
          Start = (Page - 1) * int ENTRIES_PER_PAGE;
          End = Page * int ENTRIES_PER_PAGE;
          NumBans = bp_CountUsed (nb_AddrPool nb) + bp_CountUsed (nb_RangePool nb);
          NumPages = NumBans div int ENTRIES_PER_PAGE + 1
      in if NumBans = 0 then Some Empty_list
         else if Page \<le> 0 \<or> Page > NumPages then Some (Invalid_page NumPages)
         else map_option (\<lambda>es. Page_shown (filter (\<lambda>(Count, e). \<not> (int Count < Start \<or> int Count \<ge> End)) (enumerate 0 es))) (all_entries nb))"

definition entry_found :: "NETADDR \<Rightarrow> ban_entry \<Rightarrow> bool" where
  "entry_found Addr e = (case e of Inl (d, info) \<Rightarrow> NetComp d Addr = 0 | Inr (r, info) \<Rightarrow> NetMatch_range r Addr)"

definition ConBansFind :: "(u8 list \<Rightarrow> NETADDR option) \<Rightarrow> u8 list \<Rightarrow> CNetBan \<Rightarrow> (nat \<times> ban_entry) list option option" where
  "ConBansFind parse pStr nb =
     (case parse pStr of
        None \<Rightarrow> Some None
      | Some Addr \<Rightarrow> map_option (\<lambda>es. Some (filter (\<lambda>(Count, e). entry_found Addr e) (enumerate 0 es))) (all_entries nb))"

text \<open>The minutes in a line of the file; \<open>Now\<close> is the time of saving.\<close>

definition saved_minutes :: "int \<Rightarrow> CBanInfo \<Rightarrow> int" where
  "saved_minutes Now info = (if m_Expires info > -1 then minutes_left Now (m_Expires info) else -1)"

definition ConBansSave :: "int \<Rightarrow> CNetBan \<Rightarrow> (ban_entry \<times> int) list option" where
  "ConBansSave Now nb =
     map_option (map (\<lambda>e. (e, saved_minutes Now (case e of Inl b \<Rightarrow> snd b | Inr b \<Rightarrow> snd b)))) (all_entries nb)"

end
