(* ===== verification/NetBanPool.thy ===== *)
theory NetBanPool
  imports NetBan
begin

text \<open>
  The lists of a ban pool: an invariant over the list of bans in use, the free list and the hash lists,
  which every operation of the template keeps, and what each operation does to the bans in use, seen as
  a list ordered by expiry.
\<close>

section \<open>The lists of a pool\<close>

text \<open>
  The ban that expires first comes first. \<open>us\<close> lists the bans in use in this order; every other place of
  the array is in the free list, and a hash list holds the bans in use with this hash.
\<close>

definition pool_ok :: "'a CBanPool \<Rightarrow> nat list \<Rightarrow> bool" where
  "pool_ok P us \<longleftrightarrow> dlist (used_links P) us \<and> sorted_wrt goes_before (map (expires P) us) \<and> bp_CountUsed P = int (length us) \<and>
     (\<exists>fs. dlist (free_links P) fs \<and> set us \<inter> set fs = {} \<and> set us \<union> set fs = {..<MAX_BANS}) \<and>
     (\<forall>h. \<exists>hs. dlist (hash_links h P) hs \<and> set hs = {i \<in> set us. bn_NetHash (bp_Bans P i) = h})"

text \<open>What a user sees of a pool.\<close>

definition ban_list :: "'a CBanPool \<Rightarrow> nat list \<Rightarrow> ('a \<times> CBanInfo) list" where
  "ban_list P us = map (\<lambda>i. (bn_Data (bp_Bans P i), bn_Info (bp_Bans P i))) us"

definition ban_before :: "('a \<times> CBanInfo) \<Rightarrow> ('a \<times> CBanInfo) \<Rightarrow> bool" where
  "ban_before b c \<longleftrightarrow> goes_before (m_Expires (snd b)) (m_Expires (snd c))"

text \<open>A ban is put before the first one that does not expire earlier.\<close>

definition insert_ban :: "('b \<Rightarrow> 'b \<Rightarrow> bool) \<Rightarrow> 'b \<Rightarrow> 'b list \<Rightarrow> 'b list" where
  "insert_ban before b bs = takeWhile (\<lambda>c. \<not> before b c) bs @ b # dropWhile (\<lambda>c. \<not> before b c) bs"

lemma set_insert_ban [simp]: "set (insert_ban before b bs) = insert b (set bs)"
proof -
  have "set (takeWhile (\<lambda>c. \<not> before b c) bs) \<union> set (dropWhile (\<lambda>c. \<not> before b c) bs) = set bs"
    by (metis set_append takeWhile_dropWhile_id)
  then show ?thesis unfolding insert_ban_def by auto
qed

lemma length_insert_ban [simp]: "length (insert_ban before b bs) = Suc (length bs)"
proof -
  have "length (takeWhile (\<lambda>c. \<not> before b c) bs) + length (dropWhile (\<lambda>c. \<not> before b c) bs) = length bs"
    by (simp flip: length_append)
  then show ?thesis by (simp add: insert_ban_def)
qed

lemma map_insert_ban:
  "(\<And>c. c \<in> set bs \<Longrightarrow> before b c = before' (f b) (f c)) \<Longrightarrow> map f (insert_ban before b bs) = insert_ban before' (f b) (map f bs)"
proof -
  assume eq: "\<And>c. c \<in> set bs \<Longrightarrow> before b c = before' (f b) (f c)"
  have "takeWhile (\<lambda>c. \<not> before' (f b) c) (map f bs) = map f (takeWhile (\<lambda>c. \<not> before b c) bs)"
    "dropWhile (\<lambda>c. \<not> before' (f b) c) (map f bs) = map f (dropWhile (\<lambda>c. \<not> before b c) bs)"
    using eq by (auto simp: takeWhile_map dropWhile_map comp_def intro!: arg_cong [of _ _ "map f"] takeWhile_cong dropWhile_cong)
  then show ?thesis by (simp add: insert_ban_def)
qed

lemma distinct_insert_ban: "distinct bs \<Longrightarrow> b \<notin> set bs \<Longrightarrow> distinct (insert_ban before b bs)"
proof -
  assume d: "distinct bs" "b \<notin> set bs"
  have "distinct (takeWhile (\<lambda>c. \<not> before b c) bs @ dropWhile (\<lambda>c. \<not> before b c) bs)" using d(1) by simp
  then show ?thesis using d(2) unfolding insert_ban_def
    by (auto dest: set_takeWhileD set_dropWhileD simp del: takeWhile_dropWhile_id)
qed

lemma goes_before_order:
  "goes_before e e" "goes_before e f \<Longrightarrow> goes_before f g \<Longrightarrow> goes_before e g" "goes_before e f \<or> goes_before f e"
  by (auto simp: goes_before_def)

lemma sorted_insert_ban:
  assumes "sorted_wrt (\<lambda>c d. goes_before (ex c) (ex d)) bs"
  shows "sorted_wrt (\<lambda>c d. goes_before (ex c) (ex d)) (insert_ban (\<lambda>c d. goes_before (ex c) (ex d)) b bs)"
  using assms
proof (induction bs)
  case (Cons c bs)
  show ?case
  proof (cases "goes_before (ex b) (ex c)")
    case True
    then show ?thesis using Cons.prems goes_before_order(2) by (auto simp: insert_ban_def)
  next
    case False
    then have i: "insert_ban (\<lambda>c d. goes_before (ex c) (ex d)) b (c # bs) = c # insert_ban (\<lambda>c d. goes_before (ex c) (ex d)) b bs"
      by (simp add: insert_ban_def)
    show ?thesis unfolding i using Cons False goes_before_order(3) by auto
  qed
qed (simp add: insert_ban_def)

section \<open>Finding\<close>

lemma find_loop_linked:
  "linked (bp_HashNext P) pv s hs None \<Longrightarrow> length hs \<le> fuel \<Longrightarrow>
     find_loop ok P fuel (first_of hs None) = Some (find (\<lambda>i. ok (bn_Data (bp_Bans P i))) hs)"
proof (induction hs arbitrary: s fuel)
  case (Cons i hs)
  then obtain f where "fuel = Suc f" by (cases fuel) auto
  with Cons.prems Cons.IH [of "Some i" f] show ?case by simp
qed simp

lemma distinct_below: "distinct xs \<Longrightarrow> set xs \<subseteq> {..<n} \<Longrightarrow> length xs \<le> n"
  using card_mono [of "{..<n}" "set xs"] by (simp add: distinct_card)

lemma pool_used_below: "pool_ok P us \<Longrightarrow> set us \<subseteq> {..<MAX_BANS}" "pool_ok P us \<Longrightarrow> distinct us" "pool_ok P us \<Longrightarrow> length us \<le> MAX_BANS"
  using distinct_below [of us MAX_BANS] unfolding pool_ok_def dlist_def by blast+

text \<open>A search in a hash list finds a ban that passes the test, if there is one with this hash.\<close>

lemma find_in_hash_list:
  assumes "pool_ok P us"
  obtains (found) i where "find_loop ok P MAX_BANS (bp_HashList P h) = Some (Some i)" "i \<in> set us" "bn_NetHash (bp_Bans P i) = h"
      "ok (bn_Data (bp_Bans P i))"
  | (absent) "find_loop ok P MAX_BANS (bp_HashList P h) = Some None"
      "\<And>i. i \<in> set us \<Longrightarrow> bn_NetHash (bp_Bans P i) = h \<Longrightarrow> \<not> ok (bn_Data (bp_Bans P i))"
proof -
  obtain hs where hs: "dlist (hash_links h P) hs" "set hs = {i \<in> set us. bn_NetHash (bp_Bans P i) = h}"
    using assms unfolding pool_ok_def by blast
  have "set hs \<subseteq> {..<MAX_BANS}" using hs(2) pool_used_below(1) [OF assms] by auto
  then have "length hs \<le> MAX_BANS" using hs(1) distinct_below unfolding dlist_def by blast
  then have f: "find_loop ok P MAX_BANS (bp_HashList P h) = Some (find (\<lambda>i. ok (bn_Data (bp_Bans P i))) hs)"
    using hs(1) find_loop_linked [of P "bp_HashPrev P" None hs MAX_BANS ok] by (simp add: dlist_def hash_links_def)
  show thesis
  proof (cases "find (\<lambda>i. ok (bn_Data (bp_Bans P i))) hs")
    case None
    with f hs(2) show thesis by (intro absent) (auto simp: find_None_iff)
  next
    case (Some i)
    then have "i \<in> set hs" "ok (bn_Data (bp_Bans P i))" by (auto simp: find_Some_iff)
    with f hs(2) Some show thesis by (intro found [of i]) auto
  qed
qed

lemma get_loop_linked:
  "linked nx pv s us None \<Longrightarrow> n < length us \<Longrightarrow> get_loop nx (first_of us None) n = Some (us ! n)"
proof (induction us arbitrary: s n)
  case (Cons i us)
  then show ?case by (cases n) auto
qed simp

lemma Pool_Get_nth:
  assumes "pool_ok P us"
  shows "Pool_Get Index P = (if 0 \<le> Index \<and> Index < int (length us) then Some (us ! nat Index) else None)"
  using assms get_loop_linked [of "bp_Next P" "bp_Prev P" None us "nat Index"]
  by (auto simp: Pool_Get_def pool_ok_def dlist_def used_links_def)

section \<open>Inserting into the list of bans in use\<close>

lemma insert_loop_inserts:
  assumes "dlist l (xs @ p # ys)" "b \<notin> set (xs @ p # ys)" "length (p # ys) \<le> fuel"
  shows "\<exists>l'. insert_loop ex fuel b p l = Some l' \<and> dlist l' (xs @ insert_ban (\<lambda>c d. goes_before (ex c) (ex d)) b (p # ys)) \<and>
    same_links (- set (b # xs @ p # ys)) l l'"
  using assms
proof (induction ys arbitrary: xs p fuel)
  case Nil
  then obtain f where f: "fuel = Suc f" by (cases fuel) auto
  have n: "l_Next l p = None" using Nil.prems(1) by (simp add: dlist_def)
  show ?case
    using dlist_insert_before [OF Nil.prems(1,2)] dlist_insert_last [OF Nil.prems(1,2)] f n
    by (auto simp: insert_ban_def same_links_def)
next
  case (Cons y ys)
  then obtain f where f: "fuel = Suc f" by (cases fuel) auto
  have n: "l_Next l p = Some y" using Cons.prems(1) by (simp add: dlist_def)
  show ?case
  proof (cases "goes_before (ex b) (ex p)")
    case True
    then show ?thesis using dlist_insert_before [OF Cons.prems(1,2)] f
      by (auto simp: insert_ban_def same_links_def)
  next
    case False
    from Cons.IH [of "xs @ [p]" y f] Cons.prems f obtain l' where
      "insert_loop ex f b y l = Some l'" "dlist l' ((xs @ [p]) @ insert_ban (\<lambda>c d. goes_before (ex c) (ex d)) b (y # ys))"
      "same_links (- set (b # (xs @ [p]) @ y # ys)) l l'" by auto
    then show ?thesis using False f n by (simp add: insert_ban_def)
  qed
qed

lemma InsertUsed_inserts:
  assumes "dlist (used_links P) us" "b \<notin> set us" "length us \<le> MAX_BANS"
  shows "\<exists>l. InsertUsed b P = Some (set_used l P) \<and> dlist l (insert_ban (\<lambda>c d. goes_before (expires P c) (expires P d)) b us) \<and>
    same_links (- set (b # us)) (used_links P) l"
proof (cases us)
  case Nil
  then have "bp_FirstUsed P = None" using assms(1) by (simp add: dlist_def used_links_def)
  then have "InsertUsed b P = Some (set_used (push_front b (used_links P)) P)"
    by (simp add: InsertUsed_def push_front_def used_links_def set_used_def)
  then show ?thesis using dlist_push_front [of "used_links P" "[]" b] assms(1) Nil
    by (auto simp: insert_ban_def)
next
  case (Cons p ys)
  then have f: "bp_FirstUsed P = Some p" using assms(1) by (simp add: dlist_def used_links_def)
  from insert_loop_inserts [of "used_links P" "[]" p ys b MAX_BANS "expires P"] assms Cons f show ?thesis
    by (auto simp: InsertUsed_def)
qed

section \<open>Each operation keeps the lists\<close>

abbreviation by_expiry :: "'a CBanPool \<Rightarrow> nat \<Rightarrow> nat \<Rightarrow> bool" where
  "by_expiry P c d \<equiv> goes_before (expires P c) (expires P d)"

lemmas view_defs = used_links_def free_links_def hash_links_def set_used_def set_free_def set_hash_def

lemma same_links_mono: "same_links S l l' \<Longrightarrow> T \<subseteq> S \<Longrightarrow> same_links T l l'"
  by (auto simp: same_links_def)

lemma pool_okE:
  assumes "pool_ok P us"
  obtains fs hl where "dlist (used_links P) us" "sorted_wrt (by_expiry P) us" "bp_CountUsed P = int (length us)"
    "dlist (free_links P) fs" "set us \<inter> set fs = {}" "set us \<union> set fs = {..<MAX_BANS}"
    "\<And>h. dlist (hash_links h P) (hl h)" "\<And>h. set (hl h) = {i \<in> set us. bn_NetHash (bp_Bans P i) = h}"
proof -
  have "\<forall>h. \<exists>hs. dlist (hash_links h P) hs \<and> set hs = {i \<in> set us. bn_NetHash (bp_Bans P i) = h}"
    using assms by (simp add: pool_ok_def)
  then obtain hl where "\<forall>h. dlist (hash_links h P) (hl h) \<and> set (hl h) = {i \<in> set us. bn_NetHash (bp_Bans P i) = h}" by metis
  with assms that show thesis unfolding pool_ok_def sorted_wrt_map by blast
qed

lemma pool_okI:
  assumes "dlist (used_links P) us" "sorted_wrt (by_expiry P) us" "bp_CountUsed P = int (length us)"
    "dlist (free_links P) fs" "set us \<inter> set fs = {}" "set us \<union> set fs = {..<MAX_BANS}"
    "\<And>h. dlist (hash_links h P) (hl h)" "\<And>h. set (hl h) = {i \<in> set us. bn_NetHash (bp_Bans P i) = h}"
  shows "pool_ok P us"
  using assms unfolding pool_ok_def sorted_wrt_map by blast

lemma Pool_Add_ok:
  assumes "pool_ok P us"
  obtains (full) "length us = MAX_BANS" "Pool_Add pData pInfo h P = Some (None, P)"
  | (added) b P' where "length us < MAX_BANS" "b \<notin> set us" "Pool_Add pData pInfo h P = Some (Some b, P')"
      "bp_Bans P' = (bp_Bans P)(b := \<lparr>bn_Data = pData, bn_Info = pInfo, bn_NetHash = h\<rparr>)"
      "pool_ok P' (insert_ban (by_expiry P') b us)"
proof -
  from assms obtain fs hl where p: "dlist (used_links P) us" "sorted_wrt (by_expiry P) us" "bp_CountUsed P = int (length us)"
    "dlist (free_links P) fs" "set us \<inter> set fs = {}" "set us \<union> set fs = {..<MAX_BANS}"
    "\<And>h. dlist (hash_links h P) (hl h)" "\<And>h. set (hl h) = {i \<in> set us. bn_NetHash (bp_Bans P i) = h}"
    by (rule pool_okE) blast
  have count: "length us + length fs = MAX_BANS"
    using p(1,4,5,6) by (metis card_Un_disjoint card_lessThan distinct_card dlist_def finite_set)
  show thesis
  proof (cases fs)
    case Nil
    then have "bp_FirstFree P = None" using p(4) by (simp add: dlist_def free_links_def)
    then show thesis using count Nil by (intro full) (simp_all add: Pool_Add_def)
  next
    case (Cons b fs')
    have b: "b \<notin> set us" "bp_FirstFree P = Some b" "b \<notin> set fs'" using p(4,5) Cons by (auto simp: dlist_def free_links_def)
    define bans where "bans = (bp_Bans P)(b := \<lparr>bn_Data = pData, bn_Info = pInfo, bn_NetHash = h\<rparr>)"
    define l1 where "l1 = unlink b (free_links P)"
    define P2 where "P2 = set_free l1 (P\<lparr>bp_Bans := bans\<rparr>)"
    define l2 where "l2 = push_front b (hash_links h P2)"
    define P3 where "P3 = set_hash h l2 P2"
    have l1: "dlist l1 fs'" "same_links (- set fs') (free_links P) l1"
      using dlist_unlink [of "free_links P" "[]" b fs'] p(4) Cons by (simp_all add: l1_def)
    have hP: "hash_links h' P2 = hash_links h' P" for h' by (simp add: P2_def view_defs)
    have bh: "b \<notin> set (hl h')" for h' using p(8) [of h'] b(1) by auto
    have l2: "dlist l2 (b # hl h)" "same_links (- set (b # hl h)) (hash_links h P) l2"
      using dlist_push_front [of "hash_links h P" "hl h" b] p(7) bh by (simp_all add: l2_def hP)
    have u3: "dlist (used_links P3) us"
    proof (rule dlist_same_links [OF p(1)])
      show "same_links (set us) (used_links P) (used_links P3)"
        using l1(2) p(5) Cons by (auto simp: P3_def P2_def view_defs same_links_def)
    qed (simp add: P3_def P2_def view_defs)
    obtain l3 where ins: "InsertUsed b P3 = Some (set_used l3 P3)" "dlist l3 (insert_ban (by_expiry P3) b us)"
      "same_links (- set (b # us)) (used_links P3) l3"
      using InsertUsed_inserts [OF u3 b(1) pool_used_below(3) [OF assms]] by blast
    define P' where "P' = (set_used l3 P3)\<lparr>bp_CountUsed := bp_CountUsed P + 1\<rparr>"
    have ex: "expires P' = expires P3" by (simp add: fun_eq_iff expires_def P'_def view_defs)
    have ex': "expires P' i = expires P i" if "i \<in> set us" for i
      using that b(1) by (auto simp: expires_def P'_def P3_def P2_def bans_def view_defs)
    have bans': "bp_Bans P' = bans" by (simp add: P'_def P3_def P2_def view_defs)
    have "pool_ok P' (insert_ban (by_expiry P') b us)"
    proof (rule pool_okI)
      show "dlist (used_links P') (insert_ban (by_expiry P') b us)"
        using ins(2) unfolding ex by (simp add: dlist_def P'_def view_defs)
      have "sorted_wrt (by_expiry P') us"
        using p(2) ex' by (auto simp: sorted_wrt_iff_nth_less)
      then show "sorted_wrt (by_expiry P') (insert_ban (by_expiry P') b us)" by (rule sorted_insert_ban)
      show "bp_CountUsed P' = int (length (insert_ban (by_expiry P') b us))" using p(3) by (simp add: P'_def)
      show "dlist (free_links P') fs'"
      proof (rule dlist_same_links [OF l1(1)])
        show "same_links (set fs') l1 (free_links P')"
          using ins(3) p(5) b(3) Cons by (auto simp: P'_def P3_def P2_def view_defs same_links_def)
      qed (simp add: P'_def P3_def P2_def view_defs)
      show "set (insert_ban (by_expiry P') b us) \<inter> set fs' = {}" "set (insert_ban (by_expiry P') b us) \<union> set fs' = {..<MAX_BANS}"
        using p(5,6) b Cons by auto
      show "dlist (hash_links h' P') (if h' = h then b # hl h else hl h')" for h'
      proof (cases "h' = h")
        case True
        then have "hash_links h' P' = l2" by (simp add: P'_def P3_def view_defs)
        with l2(1) True show ?thesis by simp
      next
        case False
        have "dlist (hash_links h' P') (hl h')"
        proof (rule dlist_same_links [OF p(7)])
          have "set (hl h') \<subseteq> - set (b # hl h)" using p(8) False bh by auto
          then show "same_links (set (hl h')) (hash_links h' P) (hash_links h' P')"
            using l2(2) by (auto simp: P'_def P3_def view_defs same_links_def)
        qed (use False in \<open>simp add: P'_def P3_def P2_def view_defs\<close>)
        with False show ?thesis by simp
      qed
      show "set (if h' = h then b # hl h else hl h') = {i \<in> set (insert_ban (by_expiry P') b us). bn_NetHash (bp_Bans P' i) = h'}" for h'
        using p(8) b(1) by (auto simp: bans' bans_def)
    qed
    moreover have "Pool_Add pData pInfo h P = Some (Some b, P')"
      using b(2) ins(1) unfolding P'_def
      by (simp add: Pool_Add_def Let_def bans_def [symmetric] l1_def free_links_def P3_def l2_def P2_def)
        (simp add: view_defs)
    ultimately show thesis using b(1) count Cons bans' by (intro added [of b P']) (simp_all add: bans_def)
  qed
qed

lemma Pool_Remove_ok:
  assumes "pool_ok P (xs @ b # ys)"
  shows "pool_ok (Pool_Remove b P) (xs @ ys)" "bp_Bans (Pool_Remove b P) = bp_Bans P"
proof -
  let ?us = "xs @ b # ys"
  from assms obtain fs hl where p: "dlist (used_links P) ?us" "sorted_wrt (by_expiry P) ?us" "bp_CountUsed P = int (length ?us)"
    "dlist (free_links P) fs" "set ?us \<inter> set fs = {}" "set ?us \<union> set fs = {..<MAX_BANS}"
    "\<And>h. dlist (hash_links h P) (hl h)" "\<And>h. set (hl h) = {i \<in> set ?us. bn_NetHash (bp_Bans P i) = h}"
    by (rule pool_okE) blast
  define h where "h = bn_NetHash (bp_Bans P b)"
  have "b \<in> set (hl h)" using p(8) by (simp add: h_def)
  then obtain ha hb where hl: "hl h = ha @ b # hb" by (meson split_list)
  define l1 where "l1 = unlink b (hash_links h P)"
  have l1: "dlist l1 (ha @ hb)" "same_links (- set (ha @ hb)) (hash_links h P) l1"
    using dlist_unlink [of "hash_links h P" ha b hb] p(7) [of h] hl by (simp_all add: l1_def)
  have dh: "distinct (ha @ b # hb)" using p(7) [of h] hl by (simp add: dlist_def)
  define P1 where "P1 = set_hash h l1 P"
  define P2 where "P2 = P1\<lparr>bp_HashNext := (bp_HashNext P1)(b := None), bp_HashPrev := (bp_HashPrev P1)(b := None)\<rparr>"
  define l2 where "l2 = unlink b (used_links P2)"
  have u2: "used_links P2 = used_links P" by (simp add: P2_def P1_def view_defs)
  have l2: "dlist l2 (xs @ ys)" "same_links (- set (xs @ ys)) (used_links P) l2"
    using dlist_unlink [of "used_links P" xs b ys] p(1) by (simp_all add: l2_def u2)
  define P3 where "P3 = set_used l2 P2"
  have dus: "distinct ?us" using p(1) by (simp add: dlist_def)
  have bf: "b \<notin> set fs" using p(5) by auto
  have f3: "dlist (free_links P3) fs"
  proof (rule dlist_same_links [OF p(4)])
    show "same_links (set fs) (free_links P) (free_links P3)"
      using l2(2) p(5) by (auto simp: P3_def P2_def P1_def view_defs same_links_def)
  qed (simp add: P3_def P2_def P1_def view_defs)
  define l3 where "l3 = push_front b (free_links P3)"
  have l3: "dlist l3 (b # fs)" "same_links (- set (b # fs)) (free_links P3) l3"
    using dlist_push_front [OF f3 bf] by (simp_all add: l3_def)
  define P' where "P' = (set_free l3 P3)\<lparr>bp_CountUsed := bp_CountUsed P - 1\<rparr>"
  have r: "Pool_Remove b P = P'"
    by (simp add: Pool_Remove_def Let_def h_def [symmetric] l1_def [symmetric] P1_def [symmetric] P2_def [symmetric] l2_def [symmetric]
        P3_def [symmetric] l3_def [symmetric] P'_def) (simp add: P3_def P2_def P1_def view_defs)
  have bans: "bp_Bans P' = bp_Bans P" by (simp add: P'_def P3_def P2_def P1_def view_defs)
  then show "bp_Bans (Pool_Remove b P) = bp_Bans P" by (simp add: r)
  have ex: "expires P' = expires P" by (simp add: fun_eq_iff expires_def bans)
  show "pool_ok (Pool_Remove b P) (xs @ ys)" unfolding r
  proof (rule pool_okI)
    show "dlist (used_links P') (xs @ ys)"
    proof (rule dlist_same_links [OF l2(1)])
      show "same_links (set (xs @ ys)) l2 (used_links P')"
        using l3(2) p(5) dus by (auto simp: P'_def P3_def view_defs same_links_def)
    qed (simp add: P'_def P3_def view_defs)
    show "sorted_wrt (by_expiry P') (xs @ ys)" using p(2) unfolding ex by (simp add: sorted_wrt_append)
    show "bp_CountUsed P' = int (length (xs @ ys))" using p(3) by (simp add: P'_def)
    show "dlist (free_links P') (b # fs)" using l3(1) by (simp add: dlist_def P'_def view_defs)
    show "set (xs @ ys) \<inter> set (b # fs) = {}" "set (xs @ ys) \<union> set (b # fs) = {..<MAX_BANS}" using p(5,6) dus by auto
    show "dlist (hash_links h' P') (if h' = h then ha @ hb else hl h')" for h'
    proof (cases "h' = h")
      case True
      have "dlist (hash_links h' P') (ha @ hb)"
      proof (rule dlist_same_links [OF l1(1)])
        show "same_links (set (ha @ hb)) l1 (hash_links h' P')"
          using dh by (auto simp: P'_def P3_def P2_def P1_def view_defs same_links_def)
      qed (simp add: True P'_def P3_def P2_def P1_def view_defs)
      with True show ?thesis by simp
    next
      case False
      have "dlist (hash_links h' P') (hl h')"
      proof (rule dlist_same_links [OF p(7)])
        have "set (hl h') \<subseteq> - set (ha @ hb)" "b \<notin> set (hl h')" using p(8) False hl h_def
          by (metis (mono_tags, lifting) Compl_iff Un_iff mem_Collect_eq set_append set_ConsD list.set_intros subsetI insert_iff list.simps(15), simp)
        then show "same_links (set (hl h')) (hash_links h' P) (hash_links h' P')"
          using l1(2) by (auto simp: P'_def P3_def P2_def P1_def view_defs same_links_def)
      qed (use False in \<open>simp add: P'_def P3_def P2_def P1_def view_defs\<close>)
      with False show ?thesis by simp
    qed
    show "set (if h' = h then ha @ hb else hl h') = {i \<in> set (xs @ ys). bn_NetHash (bp_Bans P' i) = h'}" for h'
    proof (cases "h' = h")
      case True
      have "set (ha @ hb) = set (hl h) - {b}" using hl dh by auto
      then show ?thesis using p(8) [of h] True dus by (auto simp: bans)
    next
      case False
      then show ?thesis using p(8) [of h'] by (auto simp: bans h_def)
    qed
  qed
qed

lemma Pool_Update_ok:
  assumes "pool_ok P (xs @ b # ys)"
  shows "\<exists>P'. Pool_Update b pInfo P = Some P' \<and> bp_Bans P' = (bp_Bans P)(b := (bp_Bans P b)\<lparr>bn_Info := pInfo\<rparr>) \<and>
    pool_ok P' (insert_ban (by_expiry P') b (xs @ ys))"
proof -
  let ?us = "xs @ b # ys"
  from assms obtain fs hl where p: "dlist (used_links P) ?us" "sorted_wrt (by_expiry P) ?us" "bp_CountUsed P = int (length ?us)"
    "dlist (free_links P) fs" "set ?us \<inter> set fs = {}" "set ?us \<union> set fs = {..<MAX_BANS}"
    "\<And>h. dlist (hash_links h P) (hl h)" "\<And>h. set (hl h) = {i \<in> set ?us. bn_NetHash (bp_Bans P i) = h}"
    by (rule pool_okE) blast
  have dus: "distinct ?us" using p(1) by (simp add: dlist_def)
  define bans where "bans = (bp_Bans P)(b := (bp_Bans P b)\<lparr>bn_Info := pInfo\<rparr>)"
  define l1 where "l1 = unlink b (used_links P)"
  have l1: "dlist l1 (xs @ ys)" "same_links (- set (xs @ ys)) (used_links P) l1"
    using dlist_unlink [of "used_links P" xs b ys] p(1) by (simp_all add: l1_def)
  define P1 where "P1 = set_used l1 (P\<lparr>bp_Bans := bans\<rparr>)"
  have u1: "dlist (used_links P1) (xs @ ys)" using l1(1) by (simp add: P1_def view_defs dlist_def)
  have len: "length (xs @ ys) \<le> MAX_BANS" using pool_used_below(3) [OF assms] by simp
  obtain l2 where ins: "InsertUsed b P1 = Some (set_used l2 P1)" "dlist l2 (insert_ban (by_expiry P1) b (xs @ ys))"
    "same_links (- set (b # xs @ ys)) (used_links P1) l2"
    using InsertUsed_inserts [OF u1 _ len, of b] dus by auto
  define P' where "P' = set_used l2 P1"
  have bans': "bp_Bans P' = bans" by (simp add: P'_def P1_def view_defs)
  have ex: "expires P' = expires P1" by (simp add: fun_eq_iff expires_def P'_def view_defs)
  have ex': "expires P' i = expires P i" if "i \<in> set (xs @ ys)" for i
    using that dus by (auto simp: expires_def bans' bans_def)
  have same_data: "bn_NetHash (bans i) = bn_NetHash (bp_Bans P i)" for i by (simp add: bans_def)
  have "pool_ok P' (insert_ban (by_expiry P') b (xs @ ys))"
  proof (rule pool_okI)
    show "dlist (used_links P') (insert_ban (by_expiry P') b (xs @ ys))"
      using ins(2) unfolding ex by (simp add: dlist_def P'_def view_defs)
    have "sorted_wrt (by_expiry P) (xs @ ys)" using p(2) by (simp add: sorted_wrt_append)
    then have "sorted_wrt (by_expiry P') (xs @ ys)"
      by (rule sorted_wrt_mono_rel [rotated]) (simp only: ex')
    then show "sorted_wrt (by_expiry P') (insert_ban (by_expiry P') b (xs @ ys))" by (rule sorted_insert_ban)
    show "bp_CountUsed P' = int (length (insert_ban (by_expiry P') b (xs @ ys)))" using p(3) by (simp add: P'_def P1_def view_defs)
    show "dlist (free_links P') fs"
    proof (rule dlist_same_links [OF p(4)])
      show "same_links (set fs) (free_links P) (free_links P')"
        using ins(3) l1(2) p(5) by (auto simp: P'_def P1_def view_defs same_links_def)
    qed (simp add: P'_def P1_def view_defs)
    show "set (insert_ban (by_expiry P') b (xs @ ys)) \<inter> set fs = {}" "set (insert_ban (by_expiry P') b (xs @ ys)) \<union> set fs = {..<MAX_BANS}"
      using p(5,6) by auto
    have "hash_links h P' = hash_links h P" for h by (simp add: P'_def P1_def view_defs)
    with p(7) show "dlist (hash_links h P') (hl h)" for h by simp
    show "set (hl h) = {i \<in> set (insert_ban (by_expiry P') b (xs @ ys)). bn_NetHash (bp_Bans P' i) = h}" for h
      using p(8) by (auto simp: bans' same_data)
  qed
  moreover have "Pool_Update b pInfo P = Some P'"
  proof -
    have "used_links (P\<lparr>bp_Bans := bans\<rparr>) = used_links P" by (simp add: view_defs)
    then show ?thesis
      using ins(1) unfolding P'_def P1_def l1_def bans_def by (simp add: Pool_Update_def Let_def)
  qed
  ultimately show ?thesis using bans' unfolding bans_def by blast
qed

lemma linked_segment:
  "linked (\<lambda>i. if i < n - 1 then Some (i + 1) else None) (\<lambda>i. if 0 < i \<and> i < n then Some (i - 1) else None)
     (if 0 < j then Some (j - 1) else None) [j..<n] None"
proof (induction "n - j" arbitrary: j)
  case (Suc d)
  then have "j < n" "d = n - Suc j" by simp_all
  with Suc.hyps(1) [of "Suc j"] show ?case by (auto simp: upt_conv_Cons first_of_def simp flip: upt_Suc)
qed simp

lemma Pool_Reset_ok: "pool_ok (Pool_Reset zero P) []"
proof (rule pool_okI)
  show "dlist (free_links (Pool_Reset zero P)) [0..<MAX_BANS]"
    using linked_segment [of MAX_BANS 0] by (simp add: dlist_def free_links_def Pool_Reset_def first_of_def MAX_BANS_def)
  show "dlist (hash_links h (Pool_Reset zero P)) ((\<lambda>_. []) h)" for h
    by (simp add: dlist_def hash_links_def Pool_Reset_def)
  show "dlist (used_links (Pool_Reset zero P)) []" by (simp add: dlist_def used_links_def Pool_Reset_def)
qed (auto simp: Pool_Reset_def)

section \<open>Expiry\<close>

definition gone :: "int \<Rightarrow> ('a \<times> CBanInfo) \<Rightarrow> bool" where
  "gone Now b \<longleftrightarrow> m_Expires (snd b) \<noteq> EXPIRES_NEVER \<and> m_Expires (snd b) < Now"

text \<open>What has expired stands at the front of a list in order.\<close>

lemma dropWhile_gone:
  assumes "sorted_wrt goes_before (map ex us)"
  shows "dropWhile (\<lambda>i. ex i \<noteq> EXPIRES_NEVER \<and> ex i < Now) us = filter (\<lambda>i. \<not> (ex i \<noteq> EXPIRES_NEVER \<and> ex i < Now)) us"
  using assms
proof (induction us)
  case (Cons i us)
  show ?case
  proof (cases "ex i \<noteq> EXPIRES_NEVER \<and> ex i < Now")
    case False
    then have "\<forall>j \<in> set us. \<not> (ex j \<noteq> EXPIRES_NEVER \<and> ex j < Now)" using Cons.prems by (auto simp: goes_before_def)
    with False show ?thesis by (simp add: filter_id_conv)
  qed (use Cons in simp)
qed simp

lemma expire_loop_ok:
  "pool_ok P us \<Longrightarrow> length us < fuel \<Longrightarrow>
   \<exists>P'. expire_loop fuel Now P = Some P' \<and> bp_Bans P' = bp_Bans P \<and>
     pool_ok P' (filter (\<lambda>i. \<not> (expires P i \<noteq> EXPIRES_NEVER \<and> expires P i < Now)) us)"
proof (induction us arbitrary: P fuel)
  case Nil
  then obtain f where f: "fuel = Suc f" by (cases fuel) auto
  from Nil have "bp_FirstUsed P = None" by (simp add: pool_ok_def dlist_def used_links_def)
  then show ?case using f Nil by simp
next
  case (Cons i us)
  then obtain f where f: "fuel = Suc f" by (cases fuel) auto
  have first: "bp_FirstUsed P = Some i" using Cons.prems by (simp add: pool_ok_def dlist_def used_links_def)
  have sorted: "sorted_wrt goes_before (map (expires P) (i # us))" using Cons.prems by (simp add: pool_ok_def)
  show ?case
  proof (cases "expires P i \<noteq> EXPIRES_NEVER \<and> expires P i < Now")
    case True
    have r: "pool_ok (Pool_Remove i P) us" "bp_Bans (Pool_Remove i P) = bp_Bans P"
      using Pool_Remove_ok [of P "[]" i us] Cons.prems by simp_all
    have "expires (Pool_Remove i P) = expires P" by (simp add: fun_eq_iff expires_def r)
    with Cons.IH [OF r(1), of f] Cons.prems f first True r show ?thesis by simp
  next
    case False
    have "filter (\<lambda>i. \<not> (expires P i \<noteq> EXPIRES_NEVER \<and> expires P i < Now)) (i # us) = i # us"
      using dropWhile_gone [OF sorted, of Now] False by simp
    then show ?thesis unfolding f expire_loop.simps first option.case if_not_P [OF False]
      using Cons.prems(1) by simp
  qed
qed

section \<open>What banning does to the list of bans\<close>

definition ban_spec :: "('a \<Rightarrow> 'a \<Rightarrow> bool) \<Rightarrow> 'a \<Rightarrow> CBanInfo \<Rightarrow> ('a \<times> CBanInfo) list \<Rightarrow> int \<times> ('a \<times> CBanInfo) list" where
  "ban_spec same d info bs =
     (case find (\<lambda>b. same (fst b) d) bs of
        Some b \<Rightarrow> (1, insert_ban ban_before (fst b, info) (filter (\<lambda>b. \<not> same (fst b) d) bs))
      | None \<Rightarrow> if length bs = MAX_BANS then (-1, bs) else (0, insert_ban ban_before (d, info) bs))"

definition unban_spec :: "('a \<Rightarrow> 'a \<Rightarrow> bool) \<Rightarrow> 'a \<Rightarrow> ('a \<times> CBanInfo) list \<Rightarrow> int \<times> ('a \<times> CBanInfo) list" where
  "unban_spec same d bs =
     (if \<exists>b \<in> set bs. same (fst b) d then 0 else -1, filter (\<lambda>b. \<not> same (fst b) d) bs)"

text \<open>Every ban in use is in the hash list of its data, and no two are on the same data.\<close>

definition keyed :: "'a ban_kind \<Rightarrow> ('a \<Rightarrow> bool) \<Rightarrow> 'a CBanPool \<Rightarrow> nat list \<Rightarrow> bool" where
  "keyed k valid P us \<longleftrightarrow>
     (\<forall>i \<in> set us. valid (bn_Data (bp_Bans P i)) \<and> k_hash k (bn_Data (bp_Bans P i)) = Some (bn_NetHash (bp_Bans P i))) \<and>
     (\<forall>i \<in> set us. \<forall>j \<in> set us. k_same k (bn_Data (bp_Bans P i)) (bn_Data (bp_Bans P j)) \<longrightarrow> i = j)"

definition pool_shows :: "'a ban_kind \<Rightarrow> ('a \<Rightarrow> bool) \<Rightarrow> 'a CBanPool \<Rightarrow> ('a \<times> CBanInfo) list \<Rightarrow> bool" where
  "pool_shows k valid P bs \<longleftrightarrow> (\<exists>us. pool_ok P us \<and> keyed k valid P us \<and> bs = ban_list P us)"

lemma pool_showsI: "pool_ok P us \<Longrightarrow> keyed k valid P us \<Longrightarrow> ban_list P us = bs \<Longrightarrow> pool_shows k valid P bs"
  by (auto simp: pool_shows_def)

lemma pool_shows_Reset: "pool_shows k valid (Pool_Reset zero P) []"
  by (rule pool_showsI [OF Pool_Reset_ok]) (simp_all add: keyed_def ban_list_def)

lemma keyed_subset: "keyed k valid P us \<Longrightarrow> set vs \<subseteq> set us \<Longrightarrow> bp_Bans P' = bp_Bans P \<Longrightarrow> keyed k valid P' vs"
  unfolding keyed_def by (metis subsetD)

lemma ban_list_cong: "(\<And>i. i \<in> set us \<Longrightarrow> bp_Bans P' i = bp_Bans P i) \<Longrightarrow> ban_list P' us = ban_list P us"
  by (simp add: ban_list_def)

lemma ban_list_insert:
  "ban_list P (insert_ban (by_expiry P) b us) = insert_ban ban_before (bn_Data (bp_Bans P b), bn_Info (bp_Bans P b)) (ban_list P us)"
  unfolding ban_list_def by (subst map_insert_ban [where before' = ban_before]) (simp_all add: ban_before_def expires_def)

lemma ban_list_filter:
  "ban_list P (filter (\<lambda>i. q (bn_Data (bp_Bans P i), bn_Info (bp_Bans P i))) us) = filter q (ban_list P us)"
  by (simp add: ban_list_def filter_map comp_def)

lemma pool_shows_facts:
  assumes "pool_shows k valid P bs"
  shows "sorted_wrt ban_before bs" "length bs \<le> MAX_BANS" "\<And>b. b \<in> set bs \<Longrightarrow> valid (fst b)" "bp_CountUsed P = int (length bs)"
proof -
  from assms obtain us where us: "pool_ok P us" "keyed k valid P us" "bs = ban_list P us" by (auto simp: pool_shows_def)
  show "sorted_wrt ban_before bs"
    using us(1) unfolding us(3) pool_ok_def by (simp add: ban_list_def sorted_wrt_map ban_before_def expires_def)
  show "length bs \<le> MAX_BANS" using pool_used_below(3) [OF us(1)] us(3) by (simp add: ban_list_def)
  show "b \<in> set bs \<Longrightarrow> valid (fst b)" for b using us(2) unfolding us(3) by (auto simp: ban_list_def keyed_def)
  show "bp_CountUsed P = int (length bs)" using us(1) unfolding us(3) pool_ok_def by (simp add: ban_list_def)
qed

lemma pool_shows_expire:
  assumes "pool_shows k valid P bs"
  shows "\<exists>P'. expire_loop (MAX_BANS + 1) Now P = Some P' \<and> pool_shows k valid P' (filter (\<lambda>b. \<not> gone Now b) bs)"
proof -
  from assms obtain us where us: "pool_ok P us" "keyed k valid P us" "bs = ban_list P us" by (auto simp: pool_shows_def)
  let ?vs = "filter (\<lambda>i. \<not> (expires P i \<noteq> EXPIRES_NEVER \<and> expires P i < Now)) us"
  from expire_loop_ok [OF us(1), of "MAX_BANS + 1" Now] pool_used_below(3) [OF us(1)]
  obtain P' where P': "expire_loop (MAX_BANS + 1) Now P = Some P'" "bp_Bans P' = bp_Bans P" "pool_ok P' ?vs" by auto
  have "ban_list P' ?vs = filter (\<lambda>b. \<not> gone Now b) bs"
    using ban_list_filter [of P "\<lambda>b. \<not> gone Now b" us] ban_list_cong [of ?vs P' P] P'(2)
    by (simp add: us(3) gone_def expires_def)
  then have "pool_shows k valid P' (filter (\<lambda>b. \<not> gone Now b) bs)"
    by (intro pool_showsI [OF P'(3)] keyed_subset [OF us(2) _ P'(2)]) auto
  with P'(1) show ?thesis by blast
qed

lemma pool_shows_remove_nth:
  assumes "pool_shows k valid P bs" "n < length bs"
  shows "\<exists>b. Pool_Get (int n) P = Some b \<and> pool_shows k valid (Pool_Remove b P) (take n bs @ drop (Suc n) bs)"
proof -
  from assms obtain us where us: "pool_ok P us" "keyed k valid P us" "bs = ban_list P us" by (auto simp: pool_shows_def)
  have n: "n < length us" using assms(2) us(3) by (simp add: ban_list_def)
  have split: "us = take n us @ us ! n # drop (Suc n) us" using id_take_nth_drop [OF n] .
  have ok: "pool_ok (Pool_Remove (us ! n) P) (take n us @ drop (Suc n) us)" "bp_Bans (Pool_Remove (us ! n) P) = bp_Bans P"
    using Pool_Remove_ok [of P "take n us" "us ! n" "drop (Suc n) us"] us(1) split by simp_all
  have "set (take n us @ drop (Suc n) us) \<subseteq> set us" using set_take_subset set_drop_subset by fastforce
  then have "keyed k valid (Pool_Remove (us ! n) P) (take n us @ drop (Suc n) us)"
    using keyed_subset [OF us(2) _ ok(2)] by blast
  moreover have "ban_list (Pool_Remove (us ! n) P) (take n us @ drop (Suc n) us) = take n bs @ drop (Suc n) bs"
    using ok(2) us(3) by (simp add: ban_list_def take_map drop_map)
  moreover have "Pool_Get (int n) P = Some (us ! n)" using Pool_Get_nth [OF us(1), of "int n"] n by simp
  ultimately show ?thesis using pool_showsI [OF ok(1)] by blast
qed

lemma find_ban_list:
  "find (\<lambda>b. q (fst b)) (ban_list P us) = map_option (\<lambda>i. (bn_Data (bp_Bans P i), bn_Info (bp_Bans P i))) (find (\<lambda>i. q (bn_Data (bp_Bans P i))) us)"
  by (induction us) (simp_all add: ban_list_def)

lemma find_split: "us = xs @ b # ys \<Longrightarrow> q b \<Longrightarrow> (\<And>j. j \<in> set xs \<union> set ys \<Longrightarrow> \<not> q j) \<Longrightarrow> find q us = Some b \<and> filter (\<lambda>j. \<not> q j) us = xs @ ys"
  by (induction xs arbitrary: us) (auto simp: filter_id_conv)

text \<open>
  What a pool needs of the functions it is instantiated with: the same data are found under the same
  hash, and being the same is symmetric and transitive.
\<close>

locale ban_data =
  fixes k :: "'a ban_kind" and valid :: "'a \<Rightarrow> bool"
  assumes hash_some: "valid d \<Longrightarrow> \<exists>h. k_hash k d = Some h"
    and hash_cong: "valid d \<Longrightarrow> valid e \<Longrightarrow> k_same k d e \<Longrightarrow> k_hash k d = k_hash k e"
    and same_sym: "valid d \<Longrightarrow> valid e \<Longrightarrow> k_same k d e \<Longrightarrow> k_same k e d"
    and same_trans: "valid c \<Longrightarrow> valid d \<Longrightarrow> valid e \<Longrightarrow> k_same k c d \<Longrightarrow> k_same k d e \<Longrightarrow> k_same k c e"
begin

lemma find_same:
  assumes "pool_ok P us" "keyed k valid P us" "valid d" "k_hash k d = Some h"
  obtains (found) b xs ys where "Pool_Find (k_same k) d h P = Some (Some b)" "us = xs @ b # ys" "k_same k (bn_Data (bp_Bans P b)) d"
      "\<And>j. j \<in> set xs \<union> set ys \<Longrightarrow> \<not> k_same k (bn_Data (bp_Bans P j)) d"
  | (absent) "Pool_Find (k_same k) d h P = Some None" "\<And>j. j \<in> set us \<Longrightarrow> \<not> k_same k (bn_Data (bp_Bans P j)) d"
proof (cases rule: find_in_hash_list [OF assms(1), of "\<lambda>e. k_same k e d" h, case_names found absent])
  case (found b)
  then obtain xs ys where us: "us = xs @ b # ys" by (meson split_list)
  have "distinct us" by (rule pool_used_below [OF assms(1)])
  have "\<not> k_same k (bn_Data (bp_Bans P j)) d" if j: "j \<in> set xs \<union> set ys" for j
  proof
    assume "k_same k (bn_Data (bp_Bans P j)) d"
    moreover have "valid (bn_Data (bp_Bans P j))" "valid (bn_Data (bp_Bans P b))" "j \<in> set us" "b \<in> set us"
      using assms(2) j us by (auto simp: keyed_def)
    ultimately have "j = b" using assms(2,3) found(4) same_sym same_trans unfolding keyed_def by meson
    with \<open>distinct us\<close> us j show False by auto
  qed
  then show thesis using found us by (intro that(1)) (auto simp: Pool_Find_def)
next
  case absent
  have "\<not> k_same k (bn_Data (bp_Bans P j)) d" if j: "j \<in> set us" for j
  proof
    assume s: "k_same k (bn_Data (bp_Bans P j)) d"
    have v: "valid (bn_Data (bp_Bans P j))" "k_hash k (bn_Data (bp_Bans P j)) = Some (bn_NetHash (bp_Bans P j))"
      using assms(2) j by (auto simp: keyed_def)
    have "bn_NetHash (bp_Bans P j) = h" using hash_cong [OF v(1) assms(3) s] v(2) assms(4) by simp
    with absent(2) j s show False by blast
  qed
  then show thesis using absent(1) by (intro that(2)) (auto simp: Pool_Find_def)
qed

lemma Ban_refines:
  assumes "pool_shows k valid P bs" "valid d" "\<not> (k_matches k d l4 \<or> k_matches k d l6)"
    and "info = \<lparr>m_Expires = (if Seconds > 0 then Now + Seconds else EXPIRES_NEVER), m_aReason = str_copy pReason REASON_LENGTH, m_VerbatimReason = verb\<rparr>"
  shows "\<exists>P'. Ban k l4 l6 Now d Seconds pReason verb P = Some (fst (ban_spec (k_same k) d info bs), P') \<and>
    pool_shows k valid P' (snd (ban_spec (k_same k) d info bs))"
proof -
  from assms obtain us where us: "pool_ok P us" "keyed k valid P us" "bs = ban_list P us" by (auto simp: pool_shows_def)
  obtain h where h: "k_hash k d = Some h" using hash_some [OF assms(2)] by blast
  have ban: "Ban k l4 l6 Now d Seconds pReason verb P =
      Option.bind (Pool_Find (k_same k) d h P) (\<lambda>r. case r of
            Some b \<Rightarrow> map_option (\<lambda>P. (1, P)) (Pool_Update b info P)
          | None \<Rightarrow> map_option (\<lambda>(r, P). (if r \<noteq> None then 0 else -1, P)) (Pool_Add d info h P))"
    by (simp only: Ban_def if_not_P [OF assms(3)] Let_def h assms(4) Option.bind.simps)
  have fb: "find (\<lambda>b. k_same k (fst b) d) bs = map_option (\<lambda>i. (bn_Data (bp_Bans P i), bn_Info (bp_Bans P i))) (find (\<lambda>i. k_same k (bn_Data (bp_Bans P i)) d) us)"
    unfolding us(3) by (rule find_ban_list [where q = "\<lambda>e. k_same k e d"])
  have fl: "filter (\<lambda>b. \<not> k_same k (fst b) d) bs = ban_list P (filter (\<lambda>i. \<not> k_same k (bn_Data (bp_Bans P i)) d) us)"
    unfolding us(3) using ban_list_filter [of P "\<lambda>b. \<not> k_same k (fst b) d" us] by simp
  from us(1,2) assms(2) h show ?thesis
  proof (cases rule: find_same [case_names found absent])
    case (found b xs ys)
    obtain P' where P': "Pool_Update b info P = Some P'" "bp_Bans P' = (bp_Bans P)(b := (bp_Bans P b)\<lparr>bn_Info := info\<rparr>)"
      "pool_ok P' (insert_ban (by_expiry P') b (xs @ ys))"
      using Pool_Update_ok [of P xs b ys info] us(1) found(2) by blast
    have b: "b \<notin> set (xs @ ys)" using pool_used_below(2) [OF us(1)] found(2) by auto
    have keep: "bn_Data (bp_Bans P' i) = bn_Data (bp_Bans P i)" "bn_NetHash (bp_Bans P' i) = bn_NetHash (bp_Bans P i)" for i
      by (simp_all add: P'(2))
    have split: "find (\<lambda>i. k_same k (bn_Data (bp_Bans P i)) d) us = Some b"
      "filter (\<lambda>i. \<not> k_same k (bn_Data (bp_Bans P i)) d) us = xs @ ys"
      using find_split [of us xs b ys "\<lambda>i. k_same k (bn_Data (bp_Bans P i)) d"] found(2-4) by blast+
    have spec: "ban_spec (k_same k) d info bs = (1, insert_ban ban_before (bn_Data (bp_Bans P b), info) (ban_list P (xs @ ys)))"
      by (simp add: ban_spec_def fb fl split)
    have "keyed k valid P' (insert_ban (by_expiry P') b (xs @ ys))"
      using us(2) found(2) unfolding keyed_def keep by auto
    moreover have "ban_list P' (xs @ ys) = ban_list P (xs @ ys)" using b by (intro ban_list_cong) (auto simp: P'(2))
    ultimately have "pool_shows k valid P' (snd (ban_spec (k_same k) d info bs))"
      by (intro pool_showsI [OF P'(3)]) (simp_all add: spec ban_list_insert P'(2))
    then show ?thesis using found(1) P'(1) by (simp add: ban spec)
  next
    case absent
    have none: "find (\<lambda>i. k_same k (bn_Data (bp_Bans P i)) d) us = None" using absent(2) by (auto simp: find_None_iff)
    have len: "length bs = length us" by (simp add: us(3) ban_list_def)
    show ?thesis
    proof (cases rule: Pool_Add_ok [OF us(1), of d info h, case_names full added])
      case full
      then show ?thesis using absent(1) assms(1) by (simp add: ban ban_spec_def fb none len)
    next
      case (added b P')
      have spec: "ban_spec (k_same k) d info bs = (0, insert_ban ban_before (d, info) bs)"
        using added(1) by (simp add: ban_spec_def fb none len)
      have old: "bp_Bans P' i = bp_Bans P i" if "i \<in> set us" for i using that added(2,4) by auto
      have "keyed k valid P' (insert_ban (by_expiry P') b us)"
        unfolding keyed_def
      proof (intro conjI ballI impI)
        fix i assume "i \<in> set (insert_ban (by_expiry P') b us)"
        then show "valid (bn_Data (bp_Bans P' i))" "k_hash k (bn_Data (bp_Bans P' i)) = Some (bn_NetHash (bp_Bans P' i))"
          using us(2) h assms(2) by (auto simp: keyed_def added(4))
      next
        fix i j assume ij: "i \<in> set (insert_ban (by_expiry P') b us)" "j \<in> set (insert_ban (by_expiry P') b us)"
          "k_same k (bn_Data (bp_Bans P' i)) (bn_Data (bp_Bans P' j))"
        have v: "valid (bn_Data (bp_Bans P j))" if "j \<in> set us" for j using us(2) that by (auto simp: keyed_def)
        show "i = j"
          using ij absent(2) us(2) v same_sym [OF assms(2)] added(2) by (auto simp: added(4) keyed_def split: if_splits)
      qed
      moreover have "ban_list P' us = bs" using old unfolding us(3) by (intro ban_list_cong)
      ultimately have "pool_shows k valid P' (snd (ban_spec (k_same k) d info bs))"
        unfolding spec by (intro pool_showsI [OF added(5)]) (simp_all add: ban_list_insert added(4))
      then show ?thesis using absent(1) added(3) by (simp add: ban spec)
    qed
  qed
qed

lemma Ban_localhost:
  "k_matches k d l4 \<or> k_matches k d l6 \<Longrightarrow> Ban k l4 l6 Now d Seconds pReason verb P = Some (-1, P)"
  by (auto simp: Ban_def)

lemma Unban_refines:
  assumes "pool_shows k valid P bs" "valid d"
  shows "\<exists>P'. Unban k d P = Some (fst (unban_spec (k_same k) d bs), P') \<and> pool_shows k valid P' (snd (unban_spec (k_same k) d bs))"
proof -
  from assms obtain us where us: "pool_ok P us" "keyed k valid P us" "bs = ban_list P us" by (auto simp: pool_shows_def)
  obtain h where h: "k_hash k d = Some h" using hash_some [OF assms(2)] by blast
  have ex: "(\<exists>b \<in> set bs. k_same k (fst b) d) \<longleftrightarrow> (\<exists>i \<in> set us. k_same k (bn_Data (bp_Bans P i)) d)"
    by (auto simp: us(3) ban_list_def)
  have fl: "filter (\<lambda>b. \<not> k_same k (fst b) d) bs = ban_list P (filter (\<lambda>i. \<not> k_same k (bn_Data (bp_Bans P i)) d) us)"
    unfolding us(3) using ban_list_filter [of P "\<lambda>b. \<not> k_same k (fst b) d" us] by simp
  from us(1,2) assms(2) h show ?thesis
  proof (cases rule: find_same [case_names found absent])
    case (found b xs ys)
    have f: "filter (\<lambda>i. \<not> k_same k (bn_Data (bp_Bans P i)) d) us = xs @ ys"
      using find_split [of us xs b ys "\<lambda>i. k_same k (bn_Data (bp_Bans P i)) d"] found(2-4) by blast
    have r: "pool_ok (Pool_Remove b P) (xs @ ys)" "bp_Bans (Pool_Remove b P) = bp_Bans P"
      using Pool_Remove_ok [of P xs b ys] us(1) found(2) by simp_all
    have "ban_list (Pool_Remove b P) (xs @ ys) = ban_list P (xs @ ys)" using r(2) by (intro ban_list_cong) simp
    moreover have "keyed k valid (Pool_Remove b P) (xs @ ys)" by (rule keyed_subset [OF us(2) _ r(2)]) (auto simp: found(2))
    ultimately have "pool_shows k valid (Pool_Remove b P) (snd (unban_spec (k_same k) d bs))"
      by (intro pool_showsI [OF r(1)]) (simp_all add: unban_spec_def fl f)
    moreover have "\<exists>i \<in> set us. k_same k (bn_Data (bp_Bans P i)) d" using found(2,3) by auto
    ultimately show ?thesis using found(1) by (simp add: Unban_def h unban_spec_def ex)
  next
    case absent
    have "filter (\<lambda>i. \<not> k_same k (bn_Data (bp_Bans P i)) d) us = us" using absent(2) by (simp add: filter_id_conv)
    moreover have "\<not> (\<exists>b \<in> set bs. k_same k (fst b) d)" using absent(2) unfolding ex by blast
    ultimately show ?thesis using absent(1) assms(1) by (simp add: Unban_def h unban_spec_def fl) (simp add: us(3))
  qed
qed

end

end
