(* ===== verification/NetBanLookup.thy ===== *)
theory NetBanLookup
  imports NetBanPool
begin

text \<open>
  Addresses as numbers, the two kinds of bans as instances of the interface of the pools, and the search
  for a ban: it finds one exactly if a ban in force covers the address.
\<close>

section \<open>Addresses as numbers\<close>

text \<open>The bytes of an address, most significant first.\<close>

fun be_value :: "u8 list \<Rightarrow> int" where
  "be_value [] = 0"
| "be_value (b # bs) = uint b * 256 ^ length bs + be_value bs"

definition addr_number :: "NETADDR \<Rightarrow> int" where
  "addr_number a = be_value (take (addr_length a) (na_ip a))"

lemma be_value_bounds: "0 \<le> be_value bs" "be_value bs < 256 ^ length bs"
proof -
  have "0 \<le> be_value bs \<and> be_value bs < 256 ^ length bs"
  proof (induction bs)
    case (Cons b bs)
    have "uint b * 256 ^ length bs \<le> 255 * 256 ^ length bs" using byte_bounds(2) [of b] by (intro mult_right_mono) simp_all
    then have "uint b * 256 ^ length bs + be_value bs < 256 * 256 ^ length bs" using Cons by linarith
    moreover have "0 \<le> uint b * 256 ^ length bs" using byte_bounds(1) by simp
    ultimately show ?case using Cons by simp
  qed simp
  then show "0 \<le> be_value bs" "be_value bs < 256 ^ length bs" by blast+
qed

lemma be_value_head_less:
  assumes "a < b" "length as = length bs"
  shows "be_value (a # as) < be_value (b # bs)"
proof -
  have "uint a + 1 \<le> uint b" using assms(1) by (simp add: word_less_def)
  then have "(uint a + 1) * 256 ^ length bs \<le> uint b * 256 ^ length bs" by (intro mult_right_mono) simp_all
  then show ?thesis using be_value_bounds(2) [of as] be_value_bounds(1) [of bs] assms(2) by (simp add: distrib_right)
qed

lemma mem_comp_value: "length as = length bs \<Longrightarrow> mem_comp as bs = sgn (be_value as - be_value bs)"
proof (induction as bs rule: list_induct2)
  case (Cons a as b bs)
  consider "a < b" | "b < a" | "a = b" by (meson linorder_neqE)
  then show ?case
  proof cases
    case 1
    then show ?thesis using be_value_head_less [of a b as bs] Cons.hyps by (simp del: be_value.simps)
  next
    case 2
    then show ?thesis using be_value_head_less [of b a bs as] Cons.hyps by (auto simp del: be_value.simps)
  next
    case 3
    then show ?thesis using Cons by simp
  qed
qed simp

lemma mem_comp_zero: "length as = length bs \<Longrightarrow> mem_comp as bs = 0 \<longleftrightarrow> as = bs"
  by (induction as bs rule: list_induct2) auto

lemma mem_comp_append: "length as = length bs \<Longrightarrow> mem_comp (as @ cs) (bs @ ds) = (if as = bs then mem_comp cs ds else mem_comp as bs)"
  by (induction as bs rule: list_induct2) auto

lemma be_value_inj: "length as = length bs \<Longrightarrow> be_value as = be_value bs \<longleftrightarrow> as = bs"
  using mem_comp_value [of as bs] mem_comp_zero [of as bs] by (auto simp: sgn_0_0)

lemma type_bytes_inj: "uint_to_bytes_be v = uint_to_bytes_be w \<longleftrightarrow> v = w"
  using bytes_be_inverse [of v "[]"] bytes_be_inverse [of w "[]"] by metis

section \<open>What the two kinds of bans need\<close>

definition valid_addr :: "NETADDR \<Rightarrow> bool" where
  "valid_addr a \<longleftrightarrow> length (na_ip a) = 16"

definition valid_range :: "CNetRange \<Rightarrow> bool" where
  "valid_range r \<longleftrightarrow> valid_addr (m_LB r) \<and> valid_addr (m_UB r) \<and> Range_IsValid r"

lemma addr_length_16: "addr_length a \<le> 16" "0 < addr_length a"
  by (simp_all add: addr_length_def)

lemma NetComp_parts:
  assumes "valid_addr a" "valid_addr b"
  shows "NetComp a b = (if na_type a = na_type b then mem_comp (take (addr_length a) (na_ip a)) (take (addr_length a) (na_ip b))
    else mem_comp (rev (uint_to_bytes_be (na_type a))) (rev (uint_to_bytes_be (na_type b))))"
proof -
  have n: "(if na_type a = NETTYPE_IPV4 then 8 else 20) = 4 + addr_length a" by (simp add: addr_length_def)
  have "NetComp a b = mem_comp (take (4 + addr_length a) (addr_bytes a)) (take (4 + addr_length a) (addr_bytes b))"
    unfolding NetComp_def Let_def n ..
  also have "\<dots> = mem_comp (rev (uint_to_bytes_be (na_type a)) @ take (addr_length a) (na_ip a))
      (rev (uint_to_bytes_be (na_type b)) @ take (addr_length a) (na_ip b))"
    by (simp add: addr_bytes_def)
  finally show ?thesis by (simp add: mem_comp_append type_bytes_inj)
qed

lemma NetComp_zero:
  assumes "valid_addr a" "valid_addr b"
  shows "NetComp a b = 0 \<longleftrightarrow> na_type a = na_type b \<and> addr_number a = addr_number b"
proof (cases "na_type a = na_type b")
  case True
  then have "addr_length a = addr_length b" by (simp add: addr_length_def)
  then show ?thesis using True assms
    by (simp add: NetComp_parts addr_number_def mem_comp_zero be_value_inj valid_addr_def)
next
  case False
  then show ?thesis using assms by (simp add: NetComp_parts mem_comp_zero type_bytes_inj)
qed


section \<open>Hashes\<close>

lemma CNetHash_addr_cong:
  assumes "na_type a = na_type b" "addr_number a = addr_number b" "valid_addr a" "valid_addr b"
  shows "CNetHash_addr a = CNetHash_addr b"
proof -
  have l: "addr_length a = addr_length b" using assms(1) by (simp add: addr_length_def)
  then have "take (addr_length a) (na_ip a) = take (addr_length a) (na_ip b)"
    using assms(2-4) be_value_inj [of "take (addr_length a) (na_ip a)" "take (addr_length a) (na_ip b)"]
    by (simp add: addr_number_def valid_addr_def)
  with l show ?thesis by (simp add: CNetHash_addr_def)
qed

definition prefix_hash :: "u8 list \<Rightarrow> nat \<Rightarrow> CNetHash" where
  "prefix_hash c i = \<lparr>m_Hash = sum_list (map uint c) AND 0xFF, m_HashIndex = i\<rparr>"

lemma range_hash_loop_differ:
  "x \<noteq> y \<Longrightarrow> range_hash_loop (c @ x # ls) (c @ y # us) H i = Some \<lparr>m_Hash = (H + sum_list (map uint c)) AND 0xFF, m_HashIndex = i + length c\<rparr>"
  by (induction c arbitrary: H i) (simp_all add: add.assoc)

lemma list_first_difference:
  "length as = length bs \<Longrightarrow> as \<noteq> bs \<Longrightarrow> \<exists>c x y as' bs'. as = c @ x # as' \<and> bs = c @ y # bs' \<and> x \<noteq> y"
proof (induction as bs rule: list_induct2)
  case (Cons a as b bs)
  show ?case
  proof (cases "a = b")
    case True
    then obtain c x y as' bs' where "as = c @ x # as'" "bs = c @ y # bs'" "x \<noteq> y" using Cons by blast
    then have "a # as = (a # c) @ x # as'" "b # bs = (a # c) @ y # bs'" "x \<noteq> y" using True by simp_all
    then show ?thesis by blast
  next
    case False
    then show ?thesis by (metis append_Nil)
  qed
qed simp

text \<open>The bounds of a valid range have a common start and then differ, before the end of the address.\<close>

lemma valid_range_parts:
  assumes "valid_range r"
  obtains c l ls u us where "take (addr_length (m_LB r)) (na_ip (m_LB r)) = c @ l # ls"
    "take (addr_length (m_LB r)) (na_ip (m_UB r)) = c @ u # us" "l \<noteq> u" "length c < addr_length (m_LB r)"
    "CNetHash_range r = Some (prefix_hash c (length c))"
proof -
  let ?n = "addr_length (m_LB r)"
  let ?L = "take ?n (na_ip (m_LB r))" and ?U = "take ?n (na_ip (m_UB r))"
  have v: "valid_addr (m_LB r)" "valid_addr (m_UB r)" "na_type (m_LB r) = na_type (m_UB r)" "NetComp (m_LB r) (m_UB r) < 0"
    using assms by (simp_all add: valid_range_def Range_IsValid_def)
  have len: "length ?L = ?n" "length ?U = ?n" using v addr_length_16(1) [of "m_LB r"] by (simp_all add: valid_addr_def)
  have "mem_comp ?L ?U < 0" using v by (simp add: NetComp_parts)
  then have "?L \<noteq> ?U" using mem_comp_zero [of ?L ?U] by fastforce
  with len obtain c l ls u us where d: "?L = c @ l # ls" "?U = c @ u # us" "l \<noteq> u"
    using list_first_difference [of ?L ?U] by auto
  have "length c < ?n" using d(1) len(1) by simp
  moreover obtain ls' us' where ip: "na_ip (m_LB r) = c @ l # ls'" "na_ip (m_UB r) = c @ u # us'"
    using append_take_drop_id [of ?n "na_ip (m_LB r)"] append_take_drop_id [of ?n "na_ip (m_UB r)"] unfolding d
    by (metis append.assoc append_Cons)
  have "CNetHash_range r = Some (prefix_hash c (length c))"
    using d(3) by (simp add: CNetHash_range_def prefix_hash_def ip range_hash_loop_differ)
  ultimately show thesis using d that by blast
qed

lemma first_difference_unique:
  "c @ l # ls = d @ m # ms \<Longrightarrow> c @ u # us = d @ v # vs \<Longrightarrow> l \<noteq> u \<Longrightarrow> m \<noteq> v \<Longrightarrow> c = d"
proof (induction c arbitrary: d)
  case Nil
  then show ?case by (cases d) auto
next
  case (Cons x c)
  then show ?case by (cases d) auto
qed

lemma same_addr: "valid_addr d \<Longrightarrow> valid_addr e \<Longrightarrow> k_same addr_kind d e \<longleftrightarrow> na_type d = na_type e \<and> addr_number d = addr_number e"
  by (simp add: addr_kind_def NetComp_zero)

interpretation addr_bans: ban_data addr_kind valid_addr
proof
  fix d e :: NETADDR
  assume "valid_addr d" "valid_addr e" "k_same addr_kind d e"
  then show "k_hash addr_kind d = k_hash addr_kind e" "k_same addr_kind e d"
    using CNetHash_addr_cong [of d e] by (simp_all add: same_addr) (simp add: addr_kind_def)
next
  fix d :: NETADDR
  show "\<exists>h. k_hash addr_kind d = Some h" by (simp add: addr_kind_def)
next
  fix c d e :: NETADDR
  assume "valid_addr c" "valid_addr d" "valid_addr e" "k_same addr_kind c d" "k_same addr_kind d e"
  then show "k_same addr_kind c e" by (simp add: same_addr)
qed

lemma NetComp_range_same:
  assumes "valid_range r" "valid_range s"
  shows "\<not> NetComp_range r s \<longleftrightarrow> na_type (m_LB r) = na_type (m_LB s) \<and> addr_number (m_LB r) = addr_number (m_LB s) \<and>
    addr_number (m_UB r) = addr_number (m_UB s)"
  using assms by (auto simp: NetComp_range_def NetComp_zero valid_range_def Range_IsValid_def)

lemma addr_number_take:
  assumes "addr_number a = addr_number b" "na_type a = na_type b" "valid_addr a" "valid_addr b"
  shows "take (addr_length a) (na_ip a) = take (addr_length b) (na_ip b)"
  using assms be_value_inj [of "take (addr_length a) (na_ip a)" "take (addr_length b) (na_ip b)"]
  by (simp add: addr_number_def valid_addr_def addr_length_def split: if_splits)

interpretation range_bans: ban_data range_kind valid_range
proof
  fix d e :: CNetRange
  assume v: "valid_range d" "valid_range e" and same: "k_same range_kind d e"
  then have t: "na_type (m_LB d) = na_type (m_LB e)" "addr_number (m_LB d) = addr_number (m_LB e)"
    "addr_number (m_UB d) = addr_number (m_UB e)" by (simp_all add: range_kind_def NetComp_range_same)
  have t': "na_type (m_UB d) = na_type (m_UB e)" using v t(1) by (simp add: valid_range_def Range_IsValid_def)
  have l: "addr_length (m_LB d) = addr_length (m_UB d)" "addr_length (m_LB e) = addr_length (m_UB e)" "addr_length (m_LB d) = addr_length (m_LB e)"
    using v t by (simp_all add: valid_range_def Range_IsValid_def addr_length_def)
  have va: "valid_addr (m_LB d)" "valid_addr (m_LB e)" "valid_addr (m_UB d)" "valid_addr (m_UB e)" using v by (simp_all add: valid_range_def)
  have eq: "take (addr_length (m_LB d)) (na_ip (m_LB d)) = take (addr_length (m_LB e)) (na_ip (m_LB e))"
    "take (addr_length (m_LB d)) (na_ip (m_UB d)) = take (addr_length (m_LB e)) (na_ip (m_UB e))"
    using addr_number_take [OF t(2,1) va(1,2)] addr_number_take [OF t(3) t' va(3,4)] unfolding l(1,2) .
  obtain c l' ls u us where r: "take (addr_length (m_LB d)) (na_ip (m_LB d)) = c @ l' # ls"
    "take (addr_length (m_LB d)) (na_ip (m_UB d)) = c @ u # us" "l' \<noteq> u" "CNetHash_range d = Some (prefix_hash c (length c))"
    by (rule valid_range_parts [OF v(1)])
  obtain c' m ms w ws where s: "take (addr_length (m_LB e)) (na_ip (m_LB e)) = c' @ m # ms"
    "take (addr_length (m_LB e)) (na_ip (m_UB e)) = c' @ w # ws" "m \<noteq> w" "CNetHash_range e = Some (prefix_hash c' (length c'))"
    by (rule valid_range_parts [OF v(2)])
  have "c = c'"
    by (rule first_difference_unique [OF trans [OF r(1) [symmetric] trans [OF eq(1) s(1)]] trans [OF r(2) [symmetric] trans [OF eq(2) s(2)]] r(3) s(3)])
  with r(4) s(4) show "k_hash range_kind d = k_hash range_kind e" by (simp add: range_kind_def)
next
  fix d :: CNetRange
  assume "valid_range d"
  then obtain c l ls u us where "CNetHash_range d = Some (prefix_hash c (length c))" by (rule valid_range_parts)
  then show "\<exists>h. k_hash range_kind d = Some h" by (simp add: range_kind_def)
next
  fix d e :: CNetRange
  assume "valid_range d" "valid_range e" "k_same range_kind d e"
  then show "k_same range_kind e d" by (simp add: range_kind_def NetComp_range_same)
next
  fix c d e :: CNetRange
  assume "valid_range c" "valid_range d" "valid_range e" "k_same range_kind c d" "k_same range_kind d e"
  then show "k_same range_kind c e" by (simp add: range_kind_def NetComp_range_same)
qed

section \<open>Looking up an address\<close>

definition covers_addr :: "NETADDR \<Rightarrow> NETADDR \<Rightarrow> bool" where
  "covers_addr d a \<longleftrightarrow> na_type d = na_type a \<and> addr_number d = addr_number a"

definition covers_range :: "CNetRange \<Rightarrow> NETADDR \<Rightarrow> bool" where
  "covers_range r a \<longleftrightarrow> na_type (m_LB r) = na_type a \<and> addr_number (m_LB r) \<le> addr_number a \<and> addr_number a \<le> addr_number (m_UB r)"

text \<open>An address of a websocket is looked up as one of IPv4.\<close>

definition looked_up :: "NETADDR \<Rightarrow> NETADDR" where
  "looked_up a = (if na_type a = NETTYPE_WEBSOCKET_IPV4 then a\<lparr>na_type := NETTYPE_IPV4\<rparr> else a)"

lemma common_start:
  assumes "length (c @ l) = length A" "length (c @ u) = length A"
  shows "mem_comp (c @ l) A \<le> 0 \<and> mem_comp (c @ u) A \<ge> 0 \<longleftrightarrow>
    take (length c) A = c \<and> mem_comp l (drop (length c) A) \<le> 0 \<and> mem_comp u (drop (length c) A) \<ge> 0"
  using assms
proof (induction c arbitrary: A)
  case (Cons x c)
  then obtain y A' where A: "A = y # A'" by (cases A) auto
  with Cons.IH [of A'] Cons.prems show ?case by auto
qed simp

lemma mem_comp_le: "length as = length bs \<Longrightarrow> mem_comp as bs \<le> 0 \<longleftrightarrow> be_value as \<le> be_value bs"
  "length as = length bs \<Longrightarrow> mem_comp as bs \<ge> 0 \<longleftrightarrow> be_value bs \<le> be_value as"
  by (auto simp: mem_comp_value sgn_if)

lemma part_drop: "part i n a = drop i (take n (na_ip a))"
  by (simp add: part_def drop_take)

lemma addr_length_type: "na_type a = na_type b \<Longrightarrow> addr_length a = addr_length b"
  by (simp add: addr_length_def)

text \<open>It is enough to compare what follows the common start of the bounds.\<close>

lemma NetMatch_part_covers:
  assumes "valid_range r" "valid_addr a" "na_type (m_LB r) = na_type a"
    and c: "take (addr_length (m_LB r)) (na_ip (m_LB r)) = c @ l" "take (addr_length (m_LB r)) (na_ip (m_UB r)) = c @ u"
  shows "NetMatch_part r a (length c) (addr_length a) \<longleftrightarrow> covers_range r a"
    and "covers_range r a \<Longrightarrow> take (length c) (na_ip a) = c"
proof -
  let ?n = "addr_length a"
  let ?A = "take ?n (na_ip a)"
  have ub: "na_type (m_UB r) = na_type a" using assms(1,3) by (simp add: valid_range_def Range_IsValid_def)
  have n: "addr_length (m_LB r) = ?n" "addr_length (m_UB r) = ?n" by (rule addr_length_type [OF assms(3)], rule addr_length_type [OF ub])
  have len: "length ?A = ?n" "length (c @ l) = ?n" "length (c @ u) = ?n"
    using assms(1,2) addr_length_16(1) [of a] unfolding c [symmetric] n by (simp_all add: valid_range_def valid_addr_def)
  have le: "length c \<le> ?n" using len(2) by simp
  have number: "addr_number (m_LB r) = be_value (c @ l)" "addr_number (m_UB r) = be_value (c @ u)" "addr_number a = be_value ?A"
    using c unfolding n by (simp_all add: addr_number_def n)
  have covers: "covers_range r a \<longleftrightarrow> mem_comp (c @ l) ?A \<le> 0 \<and> mem_comp (c @ u) ?A \<ge> 0"
    using assms(3) mem_comp_le [of "c @ l" ?A] mem_comp_le [of "c @ u" ?A] len by (simp add: covers_range_def number)
  also have "\<dots> \<longleftrightarrow> take (length c) ?A = c \<and> mem_comp l (drop (length c) ?A) \<le> 0 \<and> mem_comp u (drop (length c) ?A) \<ge> 0"
    by (rule common_start) (simp_all only: len)
  also have "take (length c) ?A = take (length c) (na_ip a)" using le by (simp add: min_def)
  finally have covers': "covers_range r a \<longleftrightarrow> take (length c) (na_ip a) = c \<and> mem_comp l (drop (length c) ?A) \<le> 0 \<and> mem_comp u (drop (length c) ?A) \<ge> 0" .
  then show "covers_range r a \<Longrightarrow> take (length c) (na_ip a) = c" by simp
  have "take (length c) (na_ip (m_LB r)) = take (length c) (take ?n (na_ip (m_LB r)))" using le by (simp add: min_def)
  also have "\<dots> = c" using c(1) unfolding n by simp
  finally have lb: "take (length c) (na_ip (m_LB r)) = c" .
  have p: "part (length c) ?n (m_LB r) = l" "part (length c) ?n (m_UB r) = u" "part (length c) ?n a = drop (length c) ?A"
    using c unfolding n by (simp_all add: part_drop)
  have "length (take (length c) (na_ip a)) = length c" using le assms(2) addr_length_16(1) [of a] by (simp add: valid_addr_def)
  then have "length c = 0 \<or> mem_comp c (take (length c) (na_ip a)) = 0 \<longleftrightarrow> take (length c) (na_ip a) = c"
    using mem_comp_zero [of c "take (length c) (na_ip a)"] by auto
  then show "NetMatch_part r a (length c) ?n \<longleftrightarrow> covers_range r a"
    unfolding covers' NetMatch_part_def lb p using assms(3) by blast
qed

lemma NetMatch_range_covers:
  assumes "valid_range r" "valid_addr a"
  shows "NetMatch_range r a \<longleftrightarrow> covers_range r a"
proof (cases "na_type (m_LB r) = na_type a")
  case True
  have n: "(if na_type (m_LB r) = NETTYPE_IPV4 then 4 else 16) = addr_length a" using True by (simp add: addr_length_def)
  show ?thesis
    using NetMatch_part_covers(1) [OF assms True, of "[]"] unfolding NetMatch_range_def n by simp
qed (simp add: NetMatch_range_def NetMatch_part_def covers_range_def)

lemma NetMatch_covers: "valid_addr d \<Longrightarrow> valid_addr a \<Longrightarrow> NetMatch d a \<longleftrightarrow> covers_addr d a"
  by (simp add: NetMatch_def NetComp_zero covers_addr_def)

lemma hash_array_loop_nth:
  "i < length bs \<Longrightarrow> hash_array_loop n bs j acc ! i = \<lparr>m_Hash = (acc + sum_list (map uint (take (Suc i) bs))) AND 0xFF, m_HashIndex = (j + i) mod n\<rparr>"
proof (induction bs arbitrary: i j acc)
  case (Cons b bs)
  then show ?case by (cases i) (simp_all add: Let_def add.assoc)
qed simp

lemma MakeHashArray_nth:
  assumes "valid_addr a" "i \<le> addr_length a"
  shows "fst (MakeHashArray a) = addr_length a" "snd (MakeHashArray a) ! i = prefix_hash (take i (na_ip a)) (i mod addr_length a)"
proof -
  show "fst (MakeHashArray a) = addr_length a" by (simp add: MakeHashArray_def Let_def)
  show "snd (MakeHashArray a) ! i = prefix_hash (take i (na_ip a)) (i mod addr_length a)"
  proof (cases i)
    case 0
    then show ?thesis by (simp add: MakeHashArray_def Let_def prefix_hash_def)
  next
    case (Suc m)
    have "m < length (take (addr_length a) (na_ip a))" using assms Suc addr_length_16(1) [of a] by (simp add: valid_addr_def)
    then show ?thesis using assms(2) Suc hash_array_loop_nth [of m "take (addr_length a) (na_ip a)" "addr_length a" 1 0]
      by (simp add: MakeHashArray_def Let_def prefix_hash_def min_def)
  qed
qed

lemma range_loop_finds:
  assumes "pool_ok P us"
  shows "\<exists>r. range_loop P a n hs is = Some r \<and>
    (case r of
       None \<Rightarrow> \<forall>i \<in> set is. \<forall>j \<in> set us. bn_NetHash (bp_Bans P j) = hs ! i \<longrightarrow> \<not> NetMatch_part (bn_Data (bp_Bans P j)) a i n
     | Some j \<Rightarrow> j \<in> set us \<and> (\<exists>i \<in> set is. bn_NetHash (bp_Bans P j) = hs ! i \<and> NetMatch_part (bn_Data (bp_Bans P j)) a i n))"
proof (induction "is")
  case (Cons i "is")
  then obtain r where r: "range_loop P a n hs is = Some r"
    "case r of
       None \<Rightarrow> \<forall>i \<in> set is. \<forall>j \<in> set us. bn_NetHash (bp_Bans P j) = hs ! i \<longrightarrow> \<not> NetMatch_part (bn_Data (bp_Bans P j)) a i n
     | Some j \<Rightarrow> j \<in> set us \<and> (\<exists>i \<in> set is. bn_NetHash (bp_Bans P j) = hs ! i \<and> NetMatch_part (bn_Data (bp_Bans P j)) a i n)"
    by (elim exE conjE)
  show ?case
  proof (cases rule: find_in_hash_list [OF assms, of "\<lambda>d. NetMatch_part d a i n" "hs ! i", case_names found absent])
    case (found j)
    then show ?thesis by auto
  next
    case absent
    then show ?thesis using r by (auto split: option.splits)
  qed
qed simp

text \<open>The bans that are in force, as data with expiry and reason.\<close>

definition netban_shows :: "CNetBan \<Rightarrow> (NETADDR \<times> CBanInfo) list \<times> (CNetRange \<times> CBanInfo) list \<Rightarrow> bool" where
  "netban_shows nb bs \<longleftrightarrow> pool_shows addr_kind valid_addr (nb_AddrPool nb) (fst bs) \<and> pool_shows range_kind valid_range (nb_RangePool nb) (snd bs) \<and>
     valid_addr (nb_LocalhostIpV4 nb) \<and> valid_addr (nb_LocalhostIpV6 nb)"

lemma range_lookup:
  assumes "pool_shows range_kind valid_range P bs" "valid_addr a"
  shows "\<exists>r. range_loop P a (addr_length a) (snd (MakeHashArray a)) (rev [0..<addr_length a]) = Some r \<and>
    (case r of
       None \<Rightarrow> \<forall>b \<in> set bs. \<not> covers_range (fst b) a
     | Some j \<Rightarrow> \<exists>b \<in> set bs. covers_range (fst b) a \<and> snd b = bn_Info (bp_Bans P j))"
proof -
  from assms obtain us where us: "pool_ok P us" "keyed range_kind valid_range P us" "bs = ban_list P us" by (auto simp: pool_shows_def)
  let ?d = "\<lambda>j. bn_Data (bp_Bans P j)"
  let ?n = "addr_length a"
  have data: "valid_range (?d j)" "CNetHash_range (?d j) = Some (bn_NetHash (bp_Bans P j))" if "j \<in> set us" for j
    using us(2) that by (simp_all add: keyed_def range_kind_def)
  have match: "NetMatch_part (?d j) a i ?n \<Longrightarrow> covers_range (?d j) a"
    if j: "j \<in> set us" "i < ?n" "bn_NetHash (bp_Bans P j) = snd (MakeHashArray a) ! i" for i j
  proof -
    assume m: "NetMatch_part (?d j) a i ?n"
    obtain c l ls u vs where c: "take (addr_length (m_LB (?d j))) (na_ip (m_LB (?d j))) = c @ l # ls"
      "take (addr_length (m_LB (?d j))) (na_ip (m_UB (?d j))) = c @ u # vs" "CNetHash_range (?d j) = Some (prefix_hash c (length c))"
      by (rule valid_range_parts [OF data(1) [OF j(1)]])
    have "i = length c" using c(3) data(2) [OF j(1)] j MakeHashArray_nth(2) [OF assms(2), of i] by (simp add: prefix_hash_def)
    moreover have "na_type (m_LB (?d j)) = na_type a" using m by (simp add: NetMatch_part_def)
    ultimately show "covers_range (?d j) a" using NetMatch_part_covers(1) [OF data(1) [OF j(1)] assms(2) _ c(1,2)] m by simp
  qed
  have found: "\<exists>i < ?n. bn_NetHash (bp_Bans P j) = snd (MakeHashArray a) ! i \<and> NetMatch_part (?d j) a i ?n"
    if j: "j \<in> set us" "covers_range (?d j) a" for j
  proof -
    obtain c l ls u vs where c: "take (addr_length (m_LB (?d j))) (na_ip (m_LB (?d j))) = c @ l # ls"
      "take (addr_length (m_LB (?d j))) (na_ip (m_UB (?d j))) = c @ u # vs" "length c < addr_length (m_LB (?d j))"
      "CNetHash_range (?d j) = Some (prefix_hash c (length c))"
      by (rule valid_range_parts [OF data(1) [OF j(1)]])
    have t: "na_type (m_LB (?d j)) = na_type a" using j(2) by (simp add: covers_range_def)
    note nm = NetMatch_part_covers [OF data(1) [OF j(1)] assms(2) t c(1,2)]
    have "length c < ?n" using c(3) addr_length_type [OF t] by simp
    moreover have "bn_NetHash (bp_Bans P j) = snd (MakeHashArray a) ! length c"
      using c(4) data(2) [OF j(1)] MakeHashArray_nth(2) [OF assms(2), of "length c"] \<open>length c < ?n\<close> nm(2) [OF j(2)] by simp
    ultimately show ?thesis using nm(1) j(2) by blast
  qed
  obtain r where r: "range_loop P a ?n (snd (MakeHashArray a)) (rev [0..<?n]) = Some r"
    "case r of
       None \<Rightarrow> \<forall>i \<in> set (rev [0..<?n]). \<forall>j \<in> set us. bn_NetHash (bp_Bans P j) = snd (MakeHashArray a) ! i \<longrightarrow> \<not> NetMatch_part (?d j) a i ?n
     | Some j \<Rightarrow> j \<in> set us \<and> (\<exists>i \<in> set (rev [0..<?n]). bn_NetHash (bp_Bans P j) = snd (MakeHashArray a) ! i \<and> NetMatch_part (?d j) a i ?n)"
    using range_loop_finds [OF us(1), of a ?n "snd (MakeHashArray a)" "rev [0..<?n]"] by (elim exE conjE)
  have "case r of None \<Rightarrow> \<forall>b \<in> set bs. \<not> covers_range (fst b) a | Some j \<Rightarrow> \<exists>b \<in> set bs. covers_range (fst b) a \<and> snd b = bn_Info (bp_Bans P j)"
  proof (cases r)
    case None
    have "\<not> covers_range (?d j) a" if "j \<in> set us" for j
    proof
      assume "covers_range (?d j) a"
      from found [OF that this] obtain i where "i < ?n" "bn_NetHash (bp_Bans P j) = snd (MakeHashArray a) ! i" "NetMatch_part (?d j) a i ?n" by blast
      with r(2) None that show False by simp
    qed
    then show ?thesis using None by (auto simp: us(3) ban_list_def)
  next
    case (Some j)
    then obtain i where "j \<in> set us" "i < ?n" "bn_NetHash (bp_Bans P j) = snd (MakeHashArray a) ! i" "NetMatch_part (?d j) a i ?n"
      using r(2) by auto
    then have "j \<in> set us" "covers_range (?d j) a" using match by blast+
    then show ?thesis using Some by (auto simp: us(3) ban_list_def)
  qed
  with r(1) show ?thesis by blast
qed

lemma addr_lookup:
  assumes "pool_shows addr_kind valid_addr P bs" "valid_addr a"
  shows "\<exists>r. Pool_Find (k_same addr_kind) a (snd (MakeHashArray a) ! addr_length a) P = Some r \<and>
    (case r of
       None \<Rightarrow> \<forall>b \<in> set bs. \<not> covers_addr (fst b) a
     | Some j \<Rightarrow> \<exists>b \<in> set bs. covers_addr (fst b) a \<and> snd b = bn_Info (bp_Bans P j))"
proof -
  from assms obtain us where us: "pool_ok P us" "keyed addr_kind valid_addr P us" "bs = ban_list P us" by (auto simp: pool_shows_def)
  have h: "snd (MakeHashArray a) ! addr_length a = CNetHash_addr a"
    using MakeHashArray_nth(2) [OF assms(2) order_refl] by (simp add: CNetHash_addr_def prefix_hash_def)
  have same: "k_same addr_kind (bn_Data (bp_Bans P j)) a \<longleftrightarrow> covers_addr (bn_Data (bp_Bans P j)) a" if "j \<in> set us" for j
    using us(2) that assms(2) by (simp add: keyed_def same_addr covers_addr_def)
  have "k_hash addr_kind a = Some (CNetHash_addr a)" by (simp add: addr_kind_def)
  from us(1,2) assms(2) this show ?thesis
  proof (cases rule: addr_bans.find_same [case_names found absent])
    case (found b xs ys)
    then have "covers_addr (bn_Data (bp_Bans P b)) a" using same by simp
    then show ?thesis using found(1,2) by (auto simp: h us(3) ban_list_def)
  next
    case absent
    then show ?thesis using same by (auto simp: h us(3) ban_list_def)
  qed
qed

text \<open>The ban that is found: one on the address if there is any, else one on a range that contains it.\<close>

lemma find_ban_correct:
  assumes "netban_shows nb (A, R)" "valid_addr a"
  shows "\<exists>r. find_ban a nb = Some r \<and>
    (case r of
       None \<Rightarrow> \<not> (\<exists>b \<in> set A. covers_addr (fst b) (looked_up a)) \<and> \<not> (\<exists>b \<in> set R. covers_range (fst b) (looked_up a))
     | Some info \<Rightarrow>
         if \<exists>b \<in> set A. covers_addr (fst b) (looked_up a)
         then \<exists>b \<in> set A. covers_addr (fst b) (looked_up a) \<and> snd b = info
         else \<exists>b \<in> set R. covers_range (fst b) (looked_up a) \<and> snd b = info)"
proof -
  let ?a = "looked_up a"
  have v: "valid_addr ?a" using assms(2) by (simp add: looked_up_def valid_addr_def)
  obtain r where r: "Pool_Find (k_same addr_kind) ?a (snd (MakeHashArray ?a) ! addr_length ?a) (nb_AddrPool nb) = Some r"
    "case r of None \<Rightarrow> \<forall>b \<in> set A. \<not> covers_addr (fst b) ?a
     | Some j \<Rightarrow> \<exists>b \<in> set A. covers_addr (fst b) ?a \<and> snd b = bn_Info (bp_Bans (nb_AddrPool nb) j)"
    using addr_lookup [OF _ v, of "nb_AddrPool nb" A] assms(1) unfolding netban_shows_def by auto
  obtain s where s: "range_loop (nb_RangePool nb) ?a (addr_length ?a) (snd (MakeHashArray ?a)) (rev [0..<addr_length ?a]) = Some s"
    "case s of None \<Rightarrow> \<forall>b \<in> set R. \<not> covers_range (fst b) ?a
     | Some j \<Rightarrow> \<exists>b \<in> set R. covers_range (fst b) ?a \<and> snd b = bn_Info (bp_Bans (nb_RangePool nb) j)"
    using range_lookup [OF _ v, of "nb_RangePool nb" R] assms(1) unfolding netban_shows_def by auto
  have m: "MakeHashArray ?a = (addr_length ?a, snd (MakeHashArray ?a))" using MakeHashArray_nth(1) [OF v order_refl] by (metis prod.collapse)
  have f: "find_ban a nb = Option.bind (Some r) (\<lambda>r. case r of Some b \<Rightarrow> Some (Some (bn_Info (bp_Bans (nb_AddrPool nb) b)))
     | None \<Rightarrow> map_option (map_option (\<lambda>b. bn_Info (bp_Bans (nb_RangePool nb) b))) (Some s))"
    unfolding find_ban_def looked_up_def [symmetric] Let_def by (subst m) (simp only: prod.case r(1) s(1))
  show ?thesis
  proof (cases r)
    case None
    then show ?thesis using r(2) s(2) f by (cases s) auto
  next
    case (Some j)
    then have "find_ban a nb = Some (Some (bn_Info (bp_Bans (nb_AddrPool nb) j)))" using f by simp
    moreover obtain b where "b \<in> set A" "covers_addr (fst b) ?a" "snd b = bn_Info (bp_Bans (nb_AddrPool nb) j)" using r(2) Some by auto
    ultimately show ?thesis by auto
  qed
qed

end
