(* ===== verification/NetServerInv.thy ===== *)
theory NetServerInv
  imports NetServer
begin

text \<open>
  The server of \<^verbatim>\<open>network_server.cpp\<close> as a state machine: what an operation leaves alone of a
  connection, the changes of a slot that are tame, the invariant of the server and its preservation by
  every operation, the move of a connection to another slot, and the states a server reaches.
\<close>

section \<open>What an operation leaves alone of a connection\<close>

text \<open>The peer, and the two flags of the timeout protection.\<close>

definition peer :: "CNetConnection \<Rightarrow> NETADDR \<times> bool \<times> bool" where
  "peer c = (c_PeerAddr c, c_TimeoutProtected c, c_TimeoutSituation c)"

lemma same_link_peer [frame_simps]: "same_link c c' \<Longrightarrow> peer c' = peer c"
proof -
  assume "same_link c c'"
  then have "peer (link c') = peer (link c)" by (simp add: same_link_def)
  then show ?thesis by (simp add: peer_def link_def)
qed

lemma ack_loop_frame:
  "ack_loop fuel Ack c = Some c' \<Longrightarrow> peer c' = peer c \<and> c_State c' = c_State c"
proof (induction fuel arbitrary: c)
  case (Suc fuel)
  show ?case
  proof (cases "RingBuffer_First (c_Buffer c)")
    case (Some i)
    then show ?thesis using Suc
      by (fastforce simp: peer_def Option.bind_eq_Some_conv split: if_splits)
  qed (use Suc in simp)
qed simp

lemma feed_control_peer:
  assumes "feed_control stack Now p addr tok c n = (g, c', n')" "c_State c \<noteq> OFFLINE" "c_PeerAddr c = addr"
  shows "peer c' = peer c"
  using assms
  by (auto simp: feed_control_def feed_close_def SetError_def feed_token_def SendControlWithToken7_def feed_connect_def
      SendControl_def SetPeerAddr_def peer_def Let_def time_get_def split: if_splits)

lemma Feed_peer:
  assumes "Feed stack p addr tok rtok c n = Some (r, p', c', n')" "c_State c \<noteq> OFFLINE" "c_PeerAddr c = addr" "conn_ok c"
  shows "peer c' = peer c"
proof (cases "feed_checks p addr tok c")
  case None
  then show ?thesis using assms(1) by (simp add: Feed_def)
next
  case (Some q)
  obtain Now n0 where t: "time_get n = (Now, n0)" by fastforce
  define c0 where "c0 = c\<lparr>c_PeerAck := rp_Ack q\<rparr>"
  have c0: "peer c0 = peer c" "c_State c0 = c_State c" by (simp_all add: c0_def peer_def)
  obtain xs where "conn_queue c xs" using assms(4) by (auto simp: conn_ok_def buffer_ok_def)
  then have xs: "conn_queue c0 xs" by (simp add: c0_def conn_queue_def)
  obtain c1 n1 where r: "(if rp_Flags q AND NET_PACKETFLAG_RESEND \<noteq> 0 then Resend c0 n0 else Some (c0, n0)) = Some (c1, n1)"
    "same_link c0 c1"
    using Resend_same_link [OF xs, of n0] same_link_refl [of c0] by (cases "rp_Flags q AND NET_PACKETFLAG_RESEND \<noteq> 0") auto
  have c1: "peer c1 = peer c" "c_State c1 = c_State c" using same_link_peer [OF r(2)] same_link_fields(2) [OF r(2)] c0 by simp_all
  obtain g c2 n2 where ctl: "(if rp_Flags q AND NET_PACKETFLAG_CONTROL \<noteq> 0 then feed_control stack Now q addr rtok c1 n1
      else (True, if c_State c1 = PENDING then c1\<lparr>c_LastRecvTime := Now, c_State := ONLINE\<rparr> else c1, n1)) = (g, c2, n2)"
    by (metis prod_cases3)
  have c2: "peer c2 = peer c"
  proof (cases "rp_Flags q AND NET_PACKETFLAG_CONTROL \<noteq> 0")
    case True
    then have "peer c2 = peer c1"
      using ctl c1 assms(2,3) by (intro feed_control_peer [of stack Now q addr rtok c1 n1 g c2 n2]) (simp_all add: peer_def)
    with c1 show ?thesis by simp
  next
    case False
    then have "c2 = c1 \<or> c2 = c1\<lparr>c_LastRecvTime := Now, c_State := ONLINE\<rparr>" using ctl by (auto split: if_splits)
    then show ?thesis using c1(1) by (auto simp: peer_def)
  qed
  have F: "Feed stack p addr tok rtok c n = (if \<not> g then Some (0, q, c2, n2)
      else if c_State c2 = ONLINE
        then do { c \<leftarrow> AckChunks (rp_Ack q) (c2\<lparr>c_LastRecvTime := Now\<rparr>); Some (1, q, c, n2) }
      else Some (1, q, c2, n2))"
    using ctl r(1) unfolding Feed_def Some option.case Let_def t prod.case c0_def [symmetric]
    by (simp only: bind.bind_lunit prod.case)
  have "peer (c2\<lparr>c_LastRecvTime := Now\<rparr>) = peer c2" by (simp add: peer_def)
  then show ?thesis using assms(1) c2 ack_loop_frame unfolding F
    by (fastforce simp: AckChunks_def Option.bind_eq_Some_conv split: if_splits)
qed

lemma Conn_Update_frame:
  assumes "Conn_Update g c n = Some (c', n')"
  shows "c_PeerAddr c' = c_PeerAddr c \<and> c_TimeoutProtected c' = c_TimeoutProtected c \<and>
    (c_State c = OFFLINE \<longrightarrow> c_State c' = OFFLINE) \<and>
    (c_State c = ERROR \<longrightarrow> c_State c' = ERROR \<and> (c_TimeoutSituation c' \<longrightarrow> c_TimeoutSituation c)) \<and>
    (c_TimeoutSituation c' \<longrightarrow> c_TimeoutSituation c \<or> c_State c' = ERROR) \<and>
    (c_State c' = c_State c \<or> c_State c' = ERROR)"
proof -
  obtain Now n1 where t: "time_get n = (Now, n1)" by fastforce
  define c1 where "c1 = (if c_State c = ERROR \<and> c_TimeoutSituation c \<and> Now - c_LastRecvTime c > time_freq * g_ConnTimeoutProtection g
               then SetError (bytes_of ''Timeout Protection over'') (c\<lparr>c_TimeoutSituation := False\<rparr>) else c)"
  have c1: "c_State c1 = c_State c" "c_PeerAddr c1 = c_PeerAddr c" "c_TimeoutProtected c1 = c_TimeoutProtected c"
    "c_TimeoutSituation c1 \<Longrightarrow> c_TimeoutSituation c"
    by (auto simp: c1_def SetError_def split: if_splits)
  show ?thesis
  proof (cases "c_State c1 = OFFLINE \<or> c_State c1 = ERROR")
    case True
    then have "c' = c1" using assms unfolding Conn_Update_def t Let_def prod.case c1_def [symmetric] by simp
    with c1 show ?thesis by auto
  next
    case False
    define c2 where "c2 = update_timeouts g Now c1"
    have c2: "c_PeerAddr c2 = c_PeerAddr c" "c_TimeoutProtected c2 = c_TimeoutProtected c"
      "c_TimeoutSituation c2 \<Longrightarrow> c_State c2 = ERROR" "c_State c2 = c_State c \<or> c_State c2 = ERROR"
      using c1 by (auto simp: c2_def update_timeouts_def SetError_def Let_def split: if_splits)
    obtain c3 n3 where r: "update_resend g Now c2 n1 = Some (c3, n3)" "update_alive c3 n3 = (c', n')"
      using assms False unfolding Conn_Update_def t Let_def prod.case c1_def [symmetric] c2_def
      by (auto simp: Option.bind_eq_Some_conv)
    have "same_link c2 c3 \<or> c3 = (SetError (bytes_of (''Too weak connection (not acked for '' @ decimal (g_ConnTimeout g) @ '' seconds)''))
                       (c2\<lparr>c_State := ERROR\<rparr>))\<lparr>c_TimeoutSituation := True\<rparr>"
    proof (cases "RingBuffer_First (c_Buffer c2)")
      case (Some i)
      then show ?thesis using r(1) ResendChunk_same_link [of i c2 n1]
        by (auto simp: update_resend_def split: if_splits)
    qed (use r(1) in \<open>simp add: update_resend_def\<close>)
    then have c3: "c_PeerAddr c3 = c_PeerAddr c" "c_TimeoutProtected c3 = c_TimeoutProtected c"
      "c_TimeoutSituation c3 \<Longrightarrow> c_State c3 = ERROR" "c_State c3 = c_State c \<or> c_State c3 = ERROR"
      using c2 same_link_peer [of c2 c3] same_link_fields(2) [of c2 c3] by (auto simp: peer_def SetError_def)
    have l: "same_link c3 c'" by (rule update_alive_same_link [OF r(2)])
    have c': "c_PeerAddr c' = c_PeerAddr c3" "c_TimeoutProtected c' = c_TimeoutProtected c3" "c_TimeoutSituation c' = c_TimeoutSituation c3"
      "c_State c' = c_State c3"
      using same_link_peer [OF l] same_link_fields(2) [OF l] by (simp_all add: peer_def)
    show ?thesis using c3 c1(1) False unfolding c' by auto
  qed
qed

lemma accept_sequence_frame: "peer (snd (accept_sequence S c)) = peer c" "c_State (snd (accept_sequence S c)) = c_State c"
  by (simp_all add: accept_sequence_def SignalResend_def peer_def)

lemma FetchChunk_frame:
  "FetchChunk u (Some c) = (r, u', conn') \<Longrightarrow> \<exists>c'. conn' = Some c' \<and> peer c' = peer c \<and> c_State c' = c_State c"
proof (induction u "Some c" arbitrary: c rule: FetchChunk.induct)
  case (1 u)
  obtain h pData where h: "fetch_header u (Some c) = (h, pData)" by fastforce
  obtain ok conn1 where d: "fetch_accept h (Some c) = (ok, conn1)" by fastforce
  then obtain c1 where c1: "conn1 = Some c1" "peer c1 = peer c" "c_State c1 = c_State c"
    using accept_sequence_frame [of "h_Sequence h" c]
    by (auto simp: fetch_accept_def apsnd_def map_prod_def split: if_splits prod.splits)
  show ?case
  proof (cases "u_Valid u \<and> int (u_CurrentChunk u) < rp_NumChunks (u_Data u)")
    case True
    note F = FetchChunk_step [OF h d, unfolded Let_def]
    show ?thesis
    proof (cases "pData + nat (h_Size h) > rp_DataSize (u_Data (u\<lparr>u_CurrentChunk := Suc (u_CurrentChunk u)\<rparr>)) \<or> ok")
      case stop: True
      then have "snd (snd (FetchChunk u (Some c))) \<in> {Some c, Some c1}" using F True c1(1) by auto
      then show ?thesis using "1.prems" c1(2,3) by auto
    next
      case go: False
      then have "FetchChunk (u\<lparr>u_CurrentChunk := Suc (u_CurrentChunk u)\<rparr>) (Some c1) = (r, u', conn')"
        using F True "1.prems" c1(1) by simp
      with "1.hyps" [OF _ h [symmetric] refl refl _ d [unfolded c1(1), symmetric] refl _] go True c1(2,3) show ?thesis by fastforce
    qed
  next
    case False
    then have "FetchChunk u (Some c) = (None, Unpacker_Clear u, Some c)" by (subst FetchChunk.simps) auto
    with "1.prems" show ?thesis by auto
  qed
qed

lemma QueueChunk_frame:
  assumes "conn_ok c" "QueueChunk Flags Data c n = Some (r, c', n')"
  shows "peer c' = peer c"
proof -
  define c1 where "c1 = (if Flags AND NET_CHUNKFLAG_VITAL \<noteq> 0 then c\<lparr>c_Sequence := (c_Sequence c + 1) mod NET_MAX_SEQUENCE\<rparr> else c)"
  have p: "peer c1 = peer c" by (simp add: c1_def peer_def)
  obtain q where "conn_queue c q" using assms(1) by (auto simp: conn_ok_def buffer_ok_def)
  then have q: "conn_queue c1 q" by (simp add: c1_def conn_queue_def)
  have e: "QueueChunkEx Flags Data (c_Sequence c1) c1 n = Some (r, c', n')"
    using assms(2) unfolding QueueChunk_def Let_def c1_def [symmetric] .
  have l: "peer (queued Flags Data (c_Sequence c1) c2) = peer c1" if "after_flush Data c1 n = (c2, n2)" for c2 n2
    using same_link_peer [OF after_flush_same_link [OF that]] same_link_peer [OF queued_same_link] by metis
  have u: "peer (x\<lparr>c_Buffer := rb, c_Resends := rs\<rparr>) = peer x" for x rb rs by (simp add: peer_def)
  show ?thesis
    using QueueChunkEx_cases [OF q, of Flags Data "c_Sequence c1" n "peer c' = peer c1"] e l u p by force
qed

section \<open>Tame changes\<close>

text \<open>
  A slot in the state of a timeout is protected: the others are dropped in the same update.
\<close>

definition protected :: "CNetConnection \<Rightarrow> bool" where
  "protected c \<longleftrightarrow> (c_TimeoutSituation c \<longrightarrow> c_TimeoutProtected c)"

text \<open>A change of a slot that keeps it intact and lets it occupy no address it did not occupy before.\<close>

definition tame :: "CNetConnection \<Rightarrow> CNetConnection \<Rightarrow> bool" where
  "tame c c' \<longleftrightarrow> (\<forall>a. counted a c' \<longrightarrow> counted a c) \<and> (\<forall>a. has_addr a c' \<longrightarrow> has_addr a c) \<and>
     (conn_ok c \<and> protected c \<longrightarrow> conn_ok c' \<and> protected c')"

lemma tame_refl [simp]: "tame c c"
  by (simp add: tame_def)

lemma tame_trans: "tame a b \<Longrightarrow> tame b c \<Longrightarrow> tame a c"
  by (simp add: tame_def)

lemma tame_same:
  assumes "peer c' = peer c" "c_State c' = c_State c" "conn_ok c \<Longrightarrow> conn_ok c'"
  shows "tame c c'"
  using assms by (auto simp: tame_def counted_def has_addr_def given_up_def protected_def peer_def)

lemma tame_live:
  assumes "peer c' = peer c" "c_State c \<noteq> OFFLINE" "c_State c \<noteq> ERROR" "conn_ok c \<Longrightarrow> conn_ok c'"
  shows "tame c c'"
  using assms by (auto simp: tame_def counted_def has_addr_def given_up_def protected_def peer_def)

lemma tame_offline:
  assumes "c_State c' = OFFLINE" "\<not> c_TimeoutSituation c'" "conn_ok c'"
  shows "tame c c'"
  using assms by (auto simp: tame_def counted_def has_addr_def given_up_def protected_def)

lemma tame_reset: "tame c (Conn_Reset Rejoin d)" if "Rejoin \<Longrightarrow> d = c"
proof (cases Rejoin)
  case True
  then have "peer (Conn_Reset Rejoin d) = peer c" "c_State (Conn_Reset Rejoin d) = c_State c"
    using that by (simp_all add: Conn_Reset_def Let_def peer_def)
  then show ?thesis by (rule tame_same) (rule Reset_conn_ok)
next
  case False
  then have "c_State (Conn_Reset Rejoin d) = OFFLINE" "\<not> c_TimeoutSituation (Conn_Reset Rejoin d)"
    by (simp_all add: Conn_Reset_def Let_def)
  then show ?thesis by (rule tame_offline) (rule Reset_conn_ok)
qed

lemma tame_disconnect:
  assumes "Conn_Disconnect r c n = (c', n')"
  shows "tame c c'" "c_State c' = OFFLINE"
proof -
  have "c' = c \<and> c_State c = OFFLINE \<or> (\<exists>d. c' = Conn_Reset False d)"
    using assms by (auto simp: Conn_Disconnect_def Let_def split: if_splits prod.splits)
  then show "tame c c'" using tame_reset [of False] by auto
  from \<open>c' = c \<and> c_State c = OFFLINE \<or> (\<exists>d. c' = Conn_Reset False d)\<close> show "c_State c' = OFFLINE"
    by (auto simp: Conn_Reset_def Let_def)
qed

lemma tame_fetch: "FetchChunk u (Some c) = (r, u', Some c') \<Longrightarrow> tame c c'"
  using FetchChunk_frame [of u c r u' "Some c'"] FetchChunk_ok [of c u r u' "Some c'"] by (intro tame_same) auto

lemma tame_queue:
  assumes "conn_ok c" "QueueChunk F D c n = Some (r, c', n')"
  shows "tame c c'"
  using QueueChunk_frame [OF assms] QueueChunk_ok [OF assms(1), of F D n] assms(2) by (intro tame_same) auto

lemma tame_same_link: "same_link c c' \<Longrightarrow> tame c c'"
  using same_link_peer [of c c'] same_link_fields(2) [of c c'] conn_ok_same_link [of c c'] by (intro tame_same) auto

lemma tame_feed:
  assumes "Feed stack p addr tok rtok c n = Some (r, p', c', n')" "has_addr addr c" "conn_ok c"
    "0 \<le> rp_Ack p" "rp_Ack p < NET_MAX_SEQUENCE"
  shows "tame c c'"
proof -
  have "peer c' = peer c" using assms by (intro Feed_peer [of stack p addr tok rtok c n]) (auto simp: has_addr_def)
  moreover have "conn_ok c'"
    using assms by (cases rule: Feed_ok [OF assms(3-5), where addr = addr and tok = tok and stack = stack and rtok = rtok and n = n]) auto
  ultimately show ?thesis using assms(2) by (intro tame_live) (auto simp: has_addr_def)
qed

text \<open>The update of a slot, with the drop that follows it.\<close>

lemma tame_update:
  assumes "Conn_Update g c n = Some (c', n')" "conn_ok c"
  shows "given_up c' \<Longrightarrow> Conn_Disconnect Own_error_string c' n' = (c'', n'') \<Longrightarrow> tame c c''"
    "\<not> given_up c' \<Longrightarrow> tame c c'"
proof -
  note f = Conn_Update_frame [OF assms(1)]
  have ok: "conn_ok c'" using Conn_Update_ok [OF assms(2), of g n] assms(1) by auto
  show "tame c c'" if "\<not> given_up c'"
    using f ok that by (auto simp: tame_def counted_def has_addr_def given_up_def protected_def)
  show "tame c c''" if d: "given_up c'" "Conn_Disconnect Own_error_string c' n' = (c'', n'')"
  proof -
    obtain d where "c'' = Conn_Reset False d"
      using d by (auto simp: given_up_def Conn_Disconnect_def Let_def split: if_splits prod.splits)
    then show ?thesis using tame_reset [of False] by simp
  qed
qed

section \<open>The invariant of the server\<close>

definition slots_tame :: "CNetServer \<Rightarrow> CNetServer \<Rightarrow> bool" where
  "slots_tame sv sv' \<longleftrightarrow> length (sv_Slots sv') = length (sv_Slots sv) \<and> sv_MaxClients sv' = sv_MaxClients sv \<and>
     sv_MaxClientsPerIp sv' = sv_MaxClientsPerIp sv \<and> (\<forall>i < length (sv_Slots sv). tame (slot sv i) (slot sv' i))"

lemma slots_tame_refl [simp]: "slots_tame sv sv"
  by (simp add: slots_tame_def)

lemma slots_tame_trans: "slots_tame a b \<Longrightarrow> slots_tame b c \<Longrightarrow> slots_tame a c"
  by (auto simp: slots_tame_def intro: tame_trans)

lemma slot_set_slot:
  "i < length (sv_Slots sv) \<Longrightarrow> slot (set_slot j c sv) i = (if i = j then c else slot sv i)"
  by (simp add: slot_def set_slot_def)

lemma set_slot_fields [simp]:
  "length (sv_Slots (set_slot i c sv)) = length (sv_Slots sv)" "sv_MaxClients (set_slot i c sv) = sv_MaxClients sv"
  "sv_MaxClientsPerIp (set_slot i c sv) = sv_MaxClientsPerIp sv" "sv_RecvUnpacker (set_slot i c sv) = sv_RecvUnpacker sv"
  "sv_Seed (set_slot i c sv) = sv_Seed sv" "sv_Events (set_slot i c sv) = sv_Events sv" "sv_SpamConns (set_slot i c sv) = sv_SpamConns sv"
  by (simp_all add: set_slot_def)

lemma callback_fields [simp]:
  "sv_Slots (callback ev sv) = sv_Slots sv" "sv_MaxClients (callback ev sv) = sv_MaxClients sv"
  "sv_MaxClientsPerIp (callback ev sv) = sv_MaxClientsPerIp sv" "sv_RecvUnpacker (callback ev sv) = sv_RecvUnpacker sv"
  "sv_Seed (callback ev sv) = sv_Seed sv" "sv_SpamConns (callback ev sv) = sv_SpamConns sv" "slot (callback ev sv) = slot sv"
  by (simp_all add: callback_def slot_def fun_eq_iff)

lemma slots_tame_set_slot: "tame (slot sv i) c \<Longrightarrow> slots_tame sv (set_slot i c sv)"
  by (simp add: slots_tame_def slot_set_slot)

lemma slots_tame_same:
  "sv_Slots sv' = sv_Slots sv \<Longrightarrow> sv_MaxClients sv' = sv_MaxClients sv \<Longrightarrow> sv_MaxClientsPerIp sv' = sv_MaxClientsPerIp sv \<Longrightarrow>
   slots_tame sv sv'"
  by (simp add: slots_tame_def slot_def)

text \<open>
  \<open>L\<close> bounds the limits of clients per address that were ever set. The slots in use have different
  addresses, and for each address at most \<open>L\<close> slots count.
\<close>

definition sv_inv :: "int \<Rightarrow> CNetServer \<Rightarrow> bool" where
  "sv_inv L sv \<longleftrightarrow> length (sv_Slots sv) = NET_MAX_CLIENTS \<and> sv_MaxClients sv \<le> NET_MAX_CLIENTS \<and>
     sv_MaxClientsPerIp sv \<le> L \<and> 0 \<le> L \<and> (\<forall>i < NET_MAX_CLIENTS. conn_ok (slot sv i) \<and> protected (slot sv i)) \<and>
     (\<forall>a. NumClientsWithAddr sv a \<le> L) \<and>
     (\<forall>i < sv_MaxClients sv. \<forall>j < sv_MaxClients sv. \<forall>a. has_addr a (slot sv i) \<and> has_addr a (slot sv j) \<longrightarrow> i = j) \<and>
     (u_Valid (sv_RecvUnpacker sv) \<longrightarrow> 0 \<le> u_ClientId (sv_RecvUnpacker sv) \<and> u_ClientId (sv_RecvUnpacker sv) < int NET_MAX_CLIENTS)"

lemma NumClientsWithAddr_card:
  "sv_MaxClients sv \<le> length (sv_Slots sv) \<Longrightarrow> NumClientsWithAddr sv a = int (card {i. i < sv_MaxClients sv \<and> counted a (slot sv i)})"
  by (simp add: NumClientsWithAddr_def length_filter_conv_card slot_def) (metis (no_types, lifting) nth_take)

lemma sv_inv_tame:
  assumes "sv_inv L sv" "slots_tame sv sv'"
    "u_Valid (sv_RecvUnpacker sv') \<Longrightarrow> 0 \<le> u_ClientId (sv_RecvUnpacker sv') \<and> u_ClientId (sv_RecvUnpacker sv') < int NET_MAX_CLIENTS"
  shows "sv_inv L sv'"
proof -
  have len: "sv_MaxClients sv \<le> length (sv_Slots sv)" "sv_MaxClients sv' \<le> length (sv_Slots sv')"
    "sv_MaxClients sv' = sv_MaxClients sv"
    using assms by (auto simp: sv_inv_def slots_tame_def)
  have t: "tame (slot sv i) (slot sv' i)" if "i < sv_MaxClients sv" for i
    using assms(2) len that by (auto simp: slots_tame_def)
  have "NumClientsWithAddr sv' a \<le> L" for a
  proof -
    have "{i. i < sv_MaxClients sv' \<and> counted a (slot sv' i)} \<subseteq> {i. i < sv_MaxClients sv \<and> counted a (slot sv i)}"
      using t len(3) by (auto simp: tame_def)
    then have "NumClientsWithAddr sv' a \<le> NumClientsWithAddr sv a"
      unfolding NumClientsWithAddr_card [OF len(1)] NumClientsWithAddr_card [OF len(2)] by (simp add: card_mono)
    then show ?thesis using assms(1) unfolding sv_inv_def by (meson order_trans)
  qed
  moreover have "i = j" if "i < sv_MaxClients sv" "j < sv_MaxClients sv" "has_addr a (slot sv' i)" "has_addr a (slot sv' j)" for i j a
  proof -
    have "has_addr a (slot sv i)" "has_addr a (slot sv j)" using t that by (auto simp: tame_def)
    then show ?thesis using assms(1) that unfolding sv_inv_def by blast
  qed
  moreover have "conn_ok (slot sv' i) \<and> protected (slot sv' i)" if "i < NET_MAX_CLIENTS" for i
    using assms(1,2) that by (auto simp: sv_inv_def slots_tame_def tame_def)
  ultimately show ?thesis using assms by (auto simp: sv_inv_def slots_tame_def)
qed

lemma sv_inv_slot: "sv_inv L sv \<Longrightarrow> i < NET_MAX_CLIENTS \<Longrightarrow> conn_ok (slot sv i)"
  by (simp add: sv_inv_def)

lemma sv_inv_tame_same:
  assumes "sv_inv L sv" "slots_tame sv sv'" "sv_RecvUnpacker sv' = sv_RecvUnpacker sv"
  shows "sv_inv L sv'"
  using assms by (intro sv_inv_tame [OF assms(1,2)]) (simp add: sv_inv_def)

lemma sv_inv_set_slot:
  assumes "sv_inv L sv" "tame (slot sv i) c"
  shows "sv_inv L (set_slot i c sv)"
  using assms by (intro sv_inv_tame_same [OF assms(1)] slots_tame_set_slot) simp_all

lemma sv_inv_same:
  assumes "sv_inv L sv" "sv_Slots sv' = sv_Slots sv" "sv_MaxClients sv' = sv_MaxClients sv"
    "sv_MaxClientsPerIp sv' = sv_MaxClientsPerIp sv" "sv_RecvUnpacker sv' = sv_RecvUnpacker sv"
  shows "sv_inv L sv'"
  using assms(2-5) by (intro sv_inv_tame_same [OF assms(1)] slots_tame_same) simp_all

section \<open>Each operation keeps the invariant\<close>

lemma second_unpack:
  assumes "UnpackPacket buf False (Some t) (Some r) = Unpacked x" "\<not> r_Sixup x"
    "p_Flags (r_Packet x) AND NET_PACKETFLAG_CONNLESS = 0"
  shows "UnpackPacket buf True (Some t') None \<noteq> Null_write"
proof -
  have "drop_bit 2 (uint (mem_at buf 0)) AND NET_PACKETFLAG_UNUSED = 0"
    using assms
    by (auto simp: UnpackPacket_def unpack_connless_def unpack_connected_def Let_def split: if_splits option.splits)
  then show ?thesis using UnpackPacket_safe [where buf = buf and Sixup = True and pTok = "Some t'" and pResp = None] by auto
qed

subsection \<open>Looking up a client\<close>

lemma foldl_last_hit:
  "foldl (\<lambda>Slot i. if P i then int i else Slot) s is = (case find P (rev is) of Some i \<Rightarrow> int i | None \<Rightarrow> s)"
  by (induction "is" arbitrary: s rule: rev_induct) auto

lemma GetClientSlot_cases:
  obtains (none) "GetClientSlot sv addr = -1" "\<And>i. i < sv_MaxClients sv \<Longrightarrow> \<not> has_addr addr (slot sv i)"
  | (found) i where "GetClientSlot sv addr = int i" "i < sv_MaxClients sv" "has_addr addr (slot sv i)"
proof (cases "find (\<lambda>i. has_addr addr (slot sv i)) (rev [0..<sv_MaxClients sv])")
  case None
  then have "GetClientSlot sv addr = -1" unfolding GetClientSlot_def foldl_last_hit by simp
  moreover from None have "\<not> has_addr addr (slot sv i)" if "i < sv_MaxClients sv" for i
    using that by (simp add: find_None_iff)
  ultimately show thesis by (rule none)
next
  case (Some i)
  then have "i \<in> set (rev [0..<sv_MaxClients sv])" "has_addr addr (slot sv i)"
    by (metis (no_types, lifting) find_Some_iff nth_mem)+
  moreover from Some have "GetClientSlot sv addr = int i" unfolding GetClientSlot_def foldl_last_hit by simp
  ultimately show thesis by (intro found [of i]) simp_all
qed

lemma GetClientSlot_same:
  "sv_Slots sv' = sv_Slots sv \<Longrightarrow> sv_MaxClients sv' = sv_MaxClients sv \<Longrightarrow> GetClientSlot sv' a = GetClientSlot sv a"
  by (simp add: GetClientSlot_def slot_def)

subsection \<open>Admission\<close>

lemma Connlimit_frame:
  "Connlimit e addr sv n = (l, sv', n') \<Longrightarrow> \<exists>sps. sv' = sv\<lparr>sv_SpamConns := sps\<rparr>"
  by (auto simp: Connlimit_def Let_def split: prod.splits)

lemma free_slot_Some: "free_slot sv = Some i \<Longrightarrow> i < sv_MaxClients sv \<and> c_State (slot sv i) = OFFLINE"
  by (auto simp: free_slot_def find_Some_iff)

lemma DirectInit_frame:
  "DirectInit addr st t s c n = (c', n') \<Longrightarrow>
     c_PeerAddr c' = addr \<and> c_State c' = ONLINE \<and> protected c' \<and> conn_ok c'"
  using DirectInit_ok [of addr st t s c n]
  by (auto simp: DirectInit_def SetPeerAddr_def Conn_Reset_def Let_def protected_def time_get_def)

text \<open>What an attempt to get in does to the server.\<close>

lemma TryAcceptClient_cases:
  assumes "TryAcceptClient e addr st VanillaAuth Sixup t sv n = (r, sv', n')"
  obtains (refused) sps where "sv' = sv\<lparr>sv_SpamConns := sps\<rparr>" "r = -1"
  | (accepted) sps i c where "NumClientsWithAddr sv addr + 1 \<le> sv_MaxClientsPerIp sv" "free_slot sv = Some i" "r = int i"
    "c_PeerAddr c = addr" "c_State c = ONLINE" "protected c" "conn_ok c"
    "sv' = callback (if VanillaAuth then New_client_noauth i else New_client i Sixup) (set_slot i c (sv\<lparr>sv_SpamConns := sps\<rparr>))"
proof (cases "Sixup \<and> \<not> g_SvSixup (se_Config e)")
  case True
  then show thesis using assms by (intro refused [of "sv_SpamConns sv"]) (simp_all add: TryAcceptClient_def)
next
  case sixup: False
  obtain l sv1 n1 where cl: "Connlimit e addr sv n = (l, sv1, n1)" by (metis prod_cases3)
  then obtain sps where sv1: "sv1 = sv\<lparr>sv_SpamConns := sps\<rparr>" using Connlimit_frame by blast
  have same: "NumClientsWithAddr sv1 addr = NumClientsWithAddr sv addr" "free_slot sv1 = free_slot sv"
    "sv_MaxClientsPerIp sv1 = sv_MaxClientsPerIp sv"
    by (simp_all add: sv1 NumClientsWithAddr_def free_slot_def slot_def)
  show thesis
  proof (cases "l \<or> NumClientsWithAddr sv addr + 1 > sv_MaxClientsPerIp sv \<or> free_slot sv = None")
    case True
    then have "sv' = sv1" "r = -1" using assms sixup same
      by (auto simp: TryAcceptClient_def cl Let_def split: if_splits)
    then show thesis using sv1 refused by blast
  next
    case False
    then obtain i where i: "free_slot sv = Some i" "NumClientsWithAddr sv addr + 1 \<le> sv_MaxClientsPerIp sv" "\<not> l" by auto
    obtain c n2 where d: "DirectInit addr st t Sixup (slot sv1 i) n1 = (c, n2)" by fastforce
    define c' where "c' = (if VanillaAuth then c\<lparr>c_UnknownSeq := True, c_Sequence := 6\<rparr> else c)"
    have eq: "r = int i"
      "sv' = callback (if VanillaAuth then New_client_noauth i else New_client i Sixup) (set_slot i c' sv1)"
      using assms sixup i same
      by (auto simp: TryAcceptClient_def cl d c'_def [symmetric] Let_def)
    note f = DirectInit_frame [OF d]
    have "conn_ok c'" using f buffer_ok_cong [of "c\<lparr>c_UnknownSeq := True, c_Sequence := 6\<rparr>" c]
      by (auto simp: c'_def conn_ok_def seqs_ok_def)
    with f eq i show thesis unfolding sv1
      by (intro accepted [of i c' sps]) (auto simp: c'_def protected_def)
  qed
qed

lemma counted_add:
  assumes "i < (m :: nat)" "\<not> P i" "\<And>j. j \<noteq> i \<Longrightarrow> Q j = P j"
  shows "card {j. j < m \<and> Q j} \<le> Suc (card {j. j < m \<and> P j})"
proof -
  have "{j. j < m \<and> Q j} \<subseteq> insert i {j. j < m \<and> P j}" using assms by auto
  moreover have "finite (insert i {j. j < m \<and> P j})" by simp
  ultimately have "card {j. j < m \<and> Q j} \<le> card (insert i {j. j < m \<and> P j})" by (intro card_mono)
  also have "\<dots> \<le> Suc (card {j. j < m \<and> P j})" by (simp add: card_insert_if)
  finally show ?thesis .
qed

lemma TryAcceptClient_inv:
  assumes "sv_inv L sv" "\<not> ClientExists sv addr"
  shows "sv_inv L (fst (snd (TryAcceptClient e addr st VanillaAuth Sixup t sv n)))"
proof -
  obtain r sv' n' where t: "TryAcceptClient e addr st VanillaAuth Sixup t sv n = (r, sv', n')" by (metis prod_cases3)
  from t show ?thesis
  proof (cases rule: TryAcceptClient_cases)
    case (refused sps)
    then show ?thesis using assms(1) by (simp add: t) (rule sv_inv_same, simp_all)
  next
    case (accepted sps i c)
    have len: "sv_MaxClients sv \<le> length (sv_Slots sv)" "length (sv_Slots sv) = NET_MAX_CLIENTS"
      using assms(1) by (auto simp: sv_inv_def)
    have i: "i < sv_MaxClients sv" "c_State (slot sv i) = OFFLINE" using free_slot_Some [OF accepted(2)] by auto
    have s: "slot sv' j = (if j = i then c else slot sv j)" if "j < NET_MAX_CLIENTS" for j
      using that len i slot_set_slot [of j "sv\<lparr>sv_SpamConns := sps\<rparr>" i c] by (simp add: accepted(8) slot_def)
    have fields: "length (sv_Slots sv') = NET_MAX_CLIENTS" "sv_MaxClients sv' = sv_MaxClients sv"
      "sv_MaxClientsPerIp sv' = sv_MaxClientsPerIp sv" "sv_RecvUnpacker sv' = sv_RecvUnpacker sv"
      using accepted(8) len by simp_all
    have s': "slot sv' j = (if j = i then c else slot sv j)" if "j < sv_MaxClients sv" for j
      using s len that by simp
    have free: "\<not> has_addr addr (slot sv j)" if "j < sv_MaxClients sv" for j
      using assms(2) that by (cases rule: GetClientSlot_cases [of sv addr]) (auto simp: ClientExists_def)
    have "NumClientsWithAddr sv' a \<le> L" for a
    proof (cases "net_addr_comp_noport a addr")
      case other: True
      have "{j. j < sv_MaxClients sv' \<and> counted a (slot sv' j)} \<subseteq> {j. j < sv_MaxClients sv \<and> counted a (slot sv j)}"
        using s' fields accepted(4) other by (auto simp: counted_def split: if_splits)
      then have "NumClientsWithAddr sv' a \<le> NumClientsWithAddr sv a"
        using NumClientsWithAddr_card [of sv a] NumClientsWithAddr_card [of sv' a] len fields by (simp add: card_mono)
      then show ?thesis using assms(1) unfolding sv_inv_def by (meson order_trans)
    next
      case False
      have "card {j. j < sv_MaxClients sv \<and> counted a (if j = i then c else slot sv j)} \<le>
            Suc (card {j. j < sv_MaxClients sv \<and> counted a (slot sv j)})"
        using i by (intro counted_add [of i]) (auto simp: counted_def)
      moreover have "{j. j < sv_MaxClients sv' \<and> counted a (slot sv' j)} =
          {j. j < sv_MaxClients sv \<and> counted a (if j = i then c else slot sv j)}"
        using s' fields by auto
      ultimately have "NumClientsWithAddr sv' a \<le> NumClientsWithAddr sv a + 1"
        using NumClientsWithAddr_card [of sv a] NumClientsWithAddr_card [of sv' a] len fields by simp
      moreover have "counted a = counted addr"
        using False by (simp add: fun_eq_iff counted_def net_addr_comp_noport_def)
      then have "NumClientsWithAddr sv a = NumClientsWithAddr sv addr"
        by (simp add: NumClientsWithAddr_def)
      ultimately show ?thesis using accepted(1) assms(1) by (simp add: sv_inv_def)
    qed
    moreover have "j = k" if "j < sv_MaxClients sv" "k < sv_MaxClients sv" "has_addr a (slot sv' j)" "has_addr a (slot sv' k)" for j k a
      using that free assms(1) accepted(4) unfolding s' [OF that(1)] s' [OF that(2)] sv_inv_def
      by (cases "j = i"; cases "k = i") (auto simp: has_addr_def)
    moreover have "conn_ok (slot sv' j) \<and> protected (slot sv' j)" if "j < NET_MAX_CLIENTS" for j
      using assms(1) accepted(6,7) that unfolding s [OF that] by (simp add: sv_inv_def)
    ultimately show ?thesis using assms(1) fields t by (auto simp: sv_inv_def)
  qed
qed

subsection \<open>Received packets\<close>

lemma OnPreConnMsg_inv:
  assumes "sv_inv L sv" "\<not> ClientExists sv addr"
  shows "sv_inv L (fst (OnPreConnMsg e addr p sv n))"
proof -
  have att: "sv_inv L (fst (snd (TryAcceptClient e addr st v s t sv m)))" for st v s t m
    by (rule TryAcceptClient_inv [OF assms])
  have flood: "sv_inv L (fst (snd (detect_flood e sv n)))"
    by (rule sv_inv_same [OF assms(1)]) (auto simp: detect_flood_def Let_def split: prod.splits)
  show ?thesis using att flood assms(1)
    by (auto simp: OnPreConnMsg_def Let_def case_prod_beta split: option.splits)
qed

lemma OnTokenCtrlMsg_inv:
  assumes "sv_inv L sv"
  shows "sv_inv L (fst (OnTokenCtrlMsg e addr CtrlMsg p sv n))"
proof (cases "ClientExists sv addr")
  case False
  then show ?thesis using TryAcceptClient_inv [OF assms False] assms by (simp add: OnTokenCtrlMsg_def Let_def)
qed (use assms in \<open>simp add: OnTokenCtrlMsg_def\<close>)

lemma OnSixupCtrlMsg_inv:
  assumes "sv_inv L sv" "OnSixupCtrlMsg e addr CtrlMsg p rt t sv n = (ch, rt', sv', n')"
  shows "sv_inv L sv'"
proof (cases "ClientExists sv addr")
  case False
  then have att: "sv_inv L (fst (snd (TryAcceptClient e addr st v s t sv m)))" for st v s t m
    by (rule TryAcceptClient_inv [OF assms(1)])
  have "sv' = sv \<or> (\<exists>st v s t m. sv' = fst (snd (TryAcceptClient e addr st v s t sv m)))"
    using assms(2) False by (auto simp: OnSixupCtrlMsg_def Let_def split: if_splits) (metis fst_conv)+
  then show ?thesis using att assms(1) by auto
qed (use assms in \<open>simp add: OnSixupCtrlMsg_def\<close>)

text \<open>A packet of the client in slot \<open>i\<close>.\<close>

lemma OnConnCtrlMsg_frame:
  assumes "OnConnCtrlMsg e addr i CtrlMsg p sv n = (sv', n')"
  obtains "sv' = sv" | "sv' = callback (Client_rejoin i) (set_slot i (Conn_Reset True (slot sv i)) sv)"
  using assms by (auto simp: OnConnCtrlMsg_def split: if_splits)

lemma has_addr_Reset_True [simp]: "has_addr a (Conn_Reset True c) = has_addr a c"
  by (simp add: has_addr_def Conn_Reset_def Let_def)

lemma OnConnCtrlMsg_inv:
  assumes "sv_inv L sv" "i < NET_MAX_CLIENTS" "has_addr addr (slot sv i)" "OnConnCtrlMsg e addr i CtrlMsg p sv n = (sv', n')"
  shows "sv_inv L sv' \<and> has_addr addr (slot sv' i)"
  using assms(4)
proof (cases rule: OnConnCtrlMsg_frame)
  case 2
  have "sv_inv L (set_slot i (Conn_Reset True (slot sv i)) sv)"
    using assms(1) by (rule sv_inv_set_slot) (rule tame_reset, simp)
  then have "sv_inv L sv'" unfolding 2 by (rule sv_inv_same) simp_all
  moreover have "i < length (sv_Slots sv)" using assms by (simp add: sv_inv_def)
  ultimately show ?thesis using assms(3) by (simp add: 2 slot_set_slot)
qed (use assms in simp)

lemma sv_inv_unpacker:
  assumes "sv_inv L sv" "u_Valid u \<Longrightarrow> 0 \<le> u_ClientId u \<and> u_ClientId u < int NET_MAX_CLIENTS"
  shows "sv_inv L (sv\<lparr>sv_RecvUnpacker := u\<rparr>)"
  using assms(2) by (intro sv_inv_tame [OF assms(1)] slots_tame_same) simp_all

lemma recv_slot_inv:
  assumes "sv_inv L sv" "i < NET_MAX_CLIENTS" "has_addr (i_Addr d) (slot sv i)" "0 \<le> rp_Ack p" "rp_Ack p < NET_MAX_SEQUENCE"
  shows "\<exists>sv' n'. recv_slot e d i p t rt sv n = Some (sv', n') \<and> sv_inv L sv'"
proof -
  define sn where "sn = (if rp_Flags p AND NET_PACKETFLAG_CONTROL \<noteq> 0
                     then OnConnCtrlMsg e (i_Addr d) i (uint (mem_at (rp_Mem p) 0)) p sv n else (sv, n))"
  obtain sv1 n1 where s1: "sn = (sv1, n1)" by fastforce
  have inv: "sv_inv L sv1" "has_addr (i_Addr d) (slot sv1 i)"
    using OnConnCtrlMsg_inv [OF assms(1-3)] s1 assms(1,3) unfolding sn_def by (auto split: if_splits)
  have ok: "conn_ok (slot sv1 i)" by (rule sv_inv_slot [OF inv(1) assms(2)])
  obtain r p' c n2 where f: "Feed (i_Stack d) p (i_Addr d) t rt (slot sv1 i) n1 = Some (r, p', c, n2)"
    by (cases rule: Feed_ok [OF ok assms(4,5), where addr = "i_Addr d" and tok = t and stack = "i_Stack d" and rtok = rt and n = n1]) auto
  have "tame (slot sv1 i) c" by (rule tame_feed [OF f inv(2) ok assms(4,5)])
  define sv2 where "sv2 = set_slot i c (sv1\<lparr>sv_RecvUnpacker := (sv_RecvUnpacker sv1)\<lparr>u_Data := p'\<rparr>\<rparr>)"
  have "sv_inv L (sv1\<lparr>sv_RecvUnpacker := (sv_RecvUnpacker sv1)\<lparr>u_Data := p'\<rparr>\<rparr>)"
    using inv(1) by (rule sv_inv_unpacker) (use inv(1) in \<open>simp add: sv_inv_def\<close>)
  then have sv2: "sv_inv L sv2"
    unfolding sv2_def by (rule sv_inv_set_slot) (simp add: slot_def \<open>tame (slot sv1 i) c\<close> [unfolded slot_def])
  have "sv_inv L (sv2\<lparr>sv_RecvUnpacker := Unpacker_Start (i_Addr d) (int i) (sv_RecvUnpacker sv2)\<rparr>)"
    using sv2 by (rule sv_inv_unpacker) (use assms(2) in \<open>simp add: Unpacker_Start_def\<close>)
  with sv2 show ?thesis using s1 f unfolding recv_slot_def sn_def [symmetric]
    by (auto simp: sv2_def [symmetric] Let_def)
qed

lemma recv_connected_inv:
  assumes "sv_inv L sv" "UnpackPacket (i_Bytes d) False (Some t0) (Some r0) = Unpacked x"
    "p_Flags (r_Packet x) AND NET_PACKETFLAG_CONNLESS = 0"
    "p = in_memory (r_Packet x) (i_Stale d)"
  shows "\<exists>res rt' sv' n'. recv_connected e d x p t rt sv n = Some (res, rt', sv', n') \<and> sv_inv L sv' \<and> res \<noteq> Some Null_pointer"
proof (cases "rp_Flags p AND NET_PACKETFLAG_CONTROL \<noteq> 0 \<and> rp_DataSize p = 0")
  case True
  then show ?thesis using assms(1) by (simp add: recv_connected_def)
next
  case go: False
  have max: "sv_MaxClients sv \<le> NET_MAX_CLIENTS" using assms(1) by (simp add: sv_inv_def)
  have ack: "0 \<le> rp_Ack (in_memory (r_Packet y) s) \<and> rp_Ack (in_memory (r_Packet y) s) < NET_MAX_SEQUENCE"
    if "UnpackPacket buf b v w = Unpacked y" for buf b v w y s
    using UnpackPacket_safe [where buf = buf and Sixup = b and pTok = v and pResp = w] that by (simp add: in_memory_def)
  show ?thesis
  proof (cases rule: GetClientSlot_cases [of sv "i_Addr d"])
    case (found i)
    note slot = recv_slot_inv [OF assms(1) _ found(3)]
    have i: "i < NET_MAX_CLIENTS" "GetClientSlot sv (i_Addr d) \<noteq> -1" "nat (GetClientSlot sv (i_Addr d)) = i"
      using found(1,2) max by simp_all
    show ?thesis
    proof (cases "\<not> r_Sixup x \<and> c_Sixup (slot sv i)")
      case True
      note two = second_unpack [OF assms(2) _ assms(3), of t]
      show ?thesis
      proof (cases "UnpackPacket (i_Bytes d) True (Some t) None")
        case (Unpacked y)
        from slot [OF i(1), of "in_memory (r_Packet y) (i_Stale d)" e "the (r_SecurityToken y)" rt n] ack [OF Unpacked]
        show ?thesis using go i(2,3) True Unpacked unfolding recv_connected_def Let_def by auto
      qed (use go i(2,3) True two assms(1) in \<open>simp_all add: recv_connected_def Let_def\<close>)
    next
      case False
      from slot [OF i(1), of p e t rt n] ack [OF assms(2)] assms(4)
      show ?thesis using go i(2,3) False unfolding recv_connected_def Let_def by auto
    qed
  next
    case none
    then have new: "\<not> ClientExists sv (i_Addr d)" by (simp add: ClientExists_def)
    obtain ch rt' sv' n' where six: "OnSixupCtrlMsg e (i_Addr d) (uint (mem_at (rp_Mem p) 0)) p rt t sv n = (ch, rt', sv', n')"
      by (metis prod_cases4)
    show ?thesis
      using go none(1) six OnSixupCtrlMsg_inv [OF assms(1) six] OnTokenCtrlMsg_inv [OF assms(1)] OnPreConnMsg_inv [OF assms(1) new]
      by (auto simp: recv_connected_def Let_def) (metis surjective_pairing)+
  qed
qed

lemma recv_datagram_inv:
  assumes "sv_inv L sv"
  shows "\<exists>res rt' sv' n'. recv_datagram e d rt sv n = Some (res, rt', sv', n') \<and> sv_inv L sv' \<and> res \<noteq> Some Null_pointer"
proof (cases "se_Banned e (i_Addr d)")
  case None
  show ?thesis
  proof (cases "UnpackPacket (i_Bytes d) False (Some (i_Token d)) (Some rt)")
    case (Unpacked x)
    define p where "p = in_memory (r_Packet x) (i_Stale d)"
    define sv1 where "sv1 = sv\<lparr>sv_RecvUnpacker := (sv_RecvUnpacker sv)\<lparr>u_Data := p\<rparr>\<rparr>"
    have sv1: "sv_inv L sv1"
      unfolding sv1_def using assms by (rule sv_inv_unpacker) (use assms in \<open>simp add: sv_inv_def\<close>)
    show ?thesis
    proof (cases "rp_Flags p AND NET_PACKETFLAG_CONNLESS \<noteq> 0")
      case True
      then show ?thesis using sv1 None Unpacked by (simp add: recv_datagram_def Let_def p_def [symmetric] sv1_def [symmetric])
    next
      case False
      then have "p_Flags (r_Packet x) AND NET_PACKETFLAG_CONNLESS = 0" by (simp add: p_def in_memory_def)
      from recv_connected_inv [OF sv1 Unpacked this p_def, of e "the (r_SecurityToken x)" "the (r_ResponseToken x)" n]
      show ?thesis using None Unpacked False by (simp add: recv_datagram_def Let_def p_def [symmetric] sv1_def [symmetric])
    qed
  next
    case Null_write
    then show ?thesis
      using UnpackPacket_safe [where buf = "i_Bytes d" and Sixup = False and pTok = "Some (i_Token d)" and pResp = "Some rt"] by simp
  qed (use None assms in \<open>simp add: recv_datagram_def\<close>)
qed (use assms in \<open>simp add: recv_datagram_def\<close>)

section \<open>Moving a connection to another slot\<close>

text \<open>
  The loop of \<open>SetTimedOut\<close>: the chunks that are kept for resending fit into the buffer that was just
  initialised, so the pointer of \<open>Allocate\<close>, which the code does not check, is never null.
\<close>

lemma move_chunks_returns:
  assumes "holds_queue old q" "\<not> rb_Recycle old" "length q < fuel"
    "\<And>i. i \<in> set q \<Longrightarrow> kept_size (contents i) \<le> it_Size (rb_Items old i) \<and> resend_ok (contents i)"
    "filled (c_Buffer c) qc W" "W + (\<Sum>i \<leftarrow> q. kept_size (contents i)) \<le> CONN_RING_SIZE"
    "buffer_ok c qc"
  shows "\<exists>old' rb rs qc'. move_chunks fuel old contents c = Some (old', c\<lparr>c_Buffer := rb, c_Resends := rs\<rparr>) \<and>
    buffer_ok (c\<lparr>c_Buffer := rb, c_Resends := rs\<rparr>) qc' \<and> map rs qc' = map (c_Resends c) qc @ map contents q"
  using assms
proof (induction fuel arbitrary: old q c qc W)
  case (Suc fuel)
  note old = Suc.prems(1,2)
  show ?case
  proof (cases q)
    case Nil
    then have "move_chunks (Suc fuel) old contents c = Some (old, c)"
      using packets.start_law [of old q] old by simp
    then show ?thesis using Suc.prems(7) Nil
      by (intro exI [of _ old] exI [of _ "c_Buffer c"] exI [of _ "c_Resends c"] exI [of _ qc]) simp
  next
    case (Cons i q')
    let ?n = "RESEND_SIZE + length (rs_Data (contents i))"
    have first: "RingBuffer_First old = Some i" using packets.start_law [of old q] old Cons by simp
    obtain old1 where pop: "PopFirst old = Some (Some i, old1)" "holds_queue old1 q'" "rb_Recycle old1 = rb_Recycle old"
      using PopFirst_queue [OF old(1) [unfolded Cons]] by blast
    have k: "wanted_size ?n = kept_size (contents i)" by (simp add: kept_size_def)
    have room: "W + wanted_size ?n \<le> rb_Size (c_Buffer c)" "0 < ?n" "\<not> rb_Recycle (c_Buffer c)"
      using Suc.prems(6,7) Cons k by (auto simp: buffer_ok_def conn_queue_def RESEND_SIZE_def)
    obtain j rb where al: "Allocate (c_Buffer c) ?n = Some (Some j, rb)" "filled rb (qc @ [j]) (W + wanted_size ?n)"
      "rb_Size rb = rb_Size (c_Buffer c)" "\<not> rb_Recycle rb" "j \<notin> set qc" "wanted_size ?n \<le> it_Size (rb_Items rb j)"
      "\<And>a. a \<in> set qc \<Longrightarrow> it_Size (rb_Items rb a) = it_Size (rb_Items (c_Buffer c) a)"
      by (rule filled_allocate [OF Suc.prems(5) room], rule that, assumption+)
    define c1 where "c1 = c\<lparr>c_Buffer := rb, c_Resends := (c_Resends c)(j := contents i)\<rparr>"
    have fit: "kept_size (contents x) \<le> it_Size (rb_Items old1 x) \<and> resend_ok (contents x)" if "x \<in> set q'" for x
      using Suc.prems(4) [of x] PopFirst_size [OF pop(1), of x] that Cons by (auto intro: order_trans)
    have sum: "W + wanted_size ?n + (\<Sum>i \<leftarrow> q'. kept_size (contents i)) \<le> CONN_RING_SIZE"
      using Suc.prems(6) Cons k by simp
    have c1: "filled (c_Buffer c1) (qc @ [j]) (W + wanted_size ?n)" using al(2) by (simp add: c1_def)
    have ok: "buffer_ok c1 (qc @ [j])"
      using Suc.prems(7) filled_queue [OF al(2)] al Suc.prems(4) [of i] Cons
      by (auto simp: buffer_ok_def conn_queue_def c1_def kept_size_def)
    have len: "length q' < fuel" using Suc.prems(3) Cons by simp
    have rec: "\<not> rb_Recycle old1" using pop(3) old(2) by simp
    obtain old' rb' rs qc' where IH: "move_chunks fuel old1 contents c1 = Some (old', c1\<lparr>c_Buffer := rb', c_Resends := rs\<rparr>)"
      "buffer_ok (c1\<lparr>c_Buffer := rb', c_Resends := rs\<rparr>) qc'" "map rs qc' = map (c_Resends c1) (qc @ [j]) @ map contents q'"
      using Suc.IH [OF pop(2) rec len fit c1 sum ok] by blast
    have "move_chunks (Suc fuel) old contents c = move_chunks fuel old1 contents c1"
      using first al(1) pop(1) by (simp add: c1_def)
    moreover have "map (c_Resends c1) qc = map (c_Resends c) qc" using al(5) by (auto simp: c1_def)
    then have "map rs qc' = map (c_Resends c) qc @ map contents q" using IH(3) Cons by (simp add: c1_def)
    ultimately show ?thesis using IH(1,2) by (auto simp: c1_def)
  qed
qed simp

lemma Conn_SetTimedOut_returns:
  assumes "conn_ok orig" "conn_ok c"
  shows "\<exists>rb c' n'. Conn_SetTimedOut addr (c_Sequence orig) (c_Ack orig) tok (c_Buffer orig) (c_Resends orig) sixup c n = Some (rb, c', n') \<and>
    conn_ok c' \<and> c_State c' = ONLINE \<and> c_PeerAddr c' = addr \<and> c_TimeoutProtected c' = c_TimeoutProtected c \<and>
    c_TimeoutSituation c' = c_TimeoutSituation c \<and> c_Sequence c' = c_Sequence orig \<and> c_Ack c' = c_Ack orig \<and>
    (\<exists>q q'. buffer_ok orig q \<and> buffer_ok c' q' \<and> map (c_Resends c') q' = map (c_Resends orig) q)"
proof -
  obtain q where q: "buffer_ok orig q" "seqs_ok orig" using assms(1) by (auto simp: conn_ok_def)
  have hq: "holds_queue (c_Buffer orig) q" "\<not> rb_Recycle (c_Buffer orig)" "rb_Size (c_Buffer orig) = CONN_RING_SIZE"
    using q(1) by (auto simp: buffer_ok_def conn_queue_def)
  obtain Now n1 where t: "time_get n = (Now, n1)" by fastforce
  define c0 where "c0 = SetPeerAddr addr (c\<lparr>c_Sequence := c_Sequence orig, c_Ack := c_Ack orig, c_RemoteClosed := False, c_State := ONLINE\<rparr>)"
  define c1 where "c1 = c0
      \<lparr>c_ErrorString := [], c_LastSendTime := Now, c_LastRecvTime := Now, c_LastUpdateTime := Now,
       c_SecurityToken := tok, c_Sixup := sixup, c_Buffer := RingBuffer_Init NET_CONN_BUFFERSIZE False (c_Buffer c0)\<rparr>"
  have b: "c_Buffer c1 = RingBuffer_Init NET_CONN_BUFFERSIZE False (c_Buffer c0)" by (simp add: c1_def)
  have ok1: "buffer_ok c1 []"
    using Init_conn_queue [OF b] b by (simp add: buffer_ok_def CONN_RING_SIZE_def RingBuffer_Init_def RingBuffer_Clear_def)
  have "(\<Sum>i \<leftarrow> q. kept_size (c_Resends orig i)) \<le> (\<Sum>i \<leftarrow> q. it_Size (rb_Items (c_Buffer orig) i))"
    using q(1) by (intro sum_list_mono) (simp add: buffer_ok_def)
  with queue_sum [OF hq(1)] hq(3) have sum: "0 + (\<Sum>i \<leftarrow> q. kept_size (c_Resends orig i)) \<le> CONN_RING_SIZE" by simp
  have fit: "kept_size (c_Resends orig i) \<le> it_Size (rb_Items (c_Buffer orig) i) \<and> resend_ok (c_Resends orig i)" if "i \<in> set q" for i
    using q(1) that by (simp add: buffer_ok_def)
  have fill: "filled (c_Buffer c1) [] 0"
    unfolding b by (rule Init_filled) (simp add: NET_CONN_BUFFERSIZE_def ITEM_SIZE_def)
  obtain old' rb rs q' where m: "move_chunks (max_items (c_Buffer orig)) (c_Buffer orig) (c_Resends orig) c1
      = Some (old', c1\<lparr>c_Buffer := rb, c_Resends := rs\<rparr>)"
    "buffer_ok (c1\<lparr>c_Buffer := rb, c_Resends := rs\<rparr>) q'" "map rs q' = map (c_Resends orig) q"
    using move_chunks_returns [OF hq(1,2) queue_length [OF hq(1)] fit fill sum ok1] by auto
  have "conn_ok (c1\<lparr>c_Buffer := rb, c_Resends := rs\<rparr>)"
    using m(2) q(2) assms(2) by (auto simp: conn_ok_def seqs_ok_def c1_def c0_def SetPeerAddr_def)
  moreover have "Conn_SetTimedOut addr (c_Sequence orig) (c_Ack orig) tok (c_Buffer orig) (c_Resends orig) sixup c n
      = Some (old', c1\<lparr>c_Buffer := rb, c_Resends := rs\<rparr>, n1)"
    unfolding Conn_SetTimedOut_def t Let_def prod.case c0_def [symmetric] c1_def [symmetric] m(1) by simp
  ultimately show ?thesis using m(2,3) q(1)
    by (intro exI [of _ old'] exI [of _ "c1\<lparr>c_Buffer := rb, c_Resends := rs\<rparr>"] exI [of _ n1])
      (auto simp: c1_def c0_def SetPeerAddr_def)
qed

subsection \<open>The receive loop\<close>

lemma FetchChunk_invalid:
  "\<not> u_Valid u \<Longrightarrow> FetchChunk u conn = (None, Unpacker_Clear u, conn)"
  by (subst FetchChunk.simps) simp

lemma FetchChunk_unpacker:
  "FetchChunk u conn = (r, u', conn') \<Longrightarrow> u_ClientId u' = u_ClientId u \<and> (u_Valid u' \<longrightarrow> u_Valid u)"
proof (induction u conn rule: FetchChunk.induct)
  case (1 u conn)
  obtain h pData where h: "fetch_header u conn = (h, pData)" by fastforce
  obtain ok conn1 where d: "fetch_accept h conn = (ok, conn1)" by fastforce
  show ?case
  proof (cases "u_Valid u \<and> int (u_CurrentChunk u) < rp_NumChunks (u_Data u)")
    case True
    note F = FetchChunk_step [OF h d, unfolded Let_def]
    show ?thesis
    proof (cases "pData + nat (h_Size h) > rp_DataSize (u_Data (u\<lparr>u_CurrentChunk := Suc (u_CurrentChunk u)\<rparr>)) \<or> ok")
      case stop: True
      then have "fst (snd (FetchChunk u conn)) \<in> {Unpacker_Clear (u\<lparr>u_CurrentChunk := Suc (u_CurrentChunk u)\<rparr>),
          u\<lparr>u_CurrentChunk := Suc (u_CurrentChunk u)\<rparr>}" using F True by auto
      then show ?thesis using "1.prems" True by (auto simp: Unpacker_Clear_def)
    next
      case go: False
      then have "FetchChunk (u\<lparr>u_CurrentChunk := Suc (u_CurrentChunk u)\<rparr>) conn1 = (r, u', conn')"
        using F True "1.prems" by simp
      with "1.IH" [OF _ h [symmetric] refl refl _ d [symmetric] refl _] go True show ?thesis by fastforce
    qed
  next
    case False
    then have "FetchChunk u conn = (None, Unpacker_Clear u, conn)" by (subst FetchChunk.simps) auto
    with "1.prems" show ?thesis by (auto simp: Unpacker_Clear_def)
  qed
qed

lemma set_slot_same [simp]: "set_slot i (slot sv i) sv = sv"
  by (simp add: set_slot_def slot_def)

lemma server_fetch_inv:
  assumes "sv_inv L sv" "server_fetch sv = (chunk, sv')"
  shows "sv_inv L sv'"
proof -
  let ?u = "sv_RecvUnpacker sv" and ?i = "nat (u_ClientId (sv_RecvUnpacker sv))"
  obtain r u' conn' where f: "FetchChunk ?u (Some (slot sv ?i)) = (r, u', conn')" by (metis prod_cases3)
  show ?thesis
  proof (cases "u_Valid ?u")
    case False
    then have "sv' = sv\<lparr>sv_RecvUnpacker := Unpacker_Clear ?u\<rparr>"
      using assms(2) FetchChunk_invalid [OF False] set_slot_same [of ?i "sv\<lparr>sv_RecvUnpacker := Unpacker_Clear ?u\<rparr>"]
      by (simp add: server_fetch_def slot_def)
    then show ?thesis using sv_inv_unpacker [OF assms(1), of "Unpacker_Clear ?u"] by (simp add: Unpacker_Clear_def)
  next
    case True
    then have i: "?i < NET_MAX_CLIENTS" using assms(1) by (auto simp: sv_inv_def)
    obtain c' where c': "conn' = Some c'"
      using FetchChunk_ok [OF sv_inv_slot [OF assms(1) i] f] by blast
    then have sv': "sv' = set_slot ?i c' (sv\<lparr>sv_RecvUnpacker := u'\<rparr>)"
      using assms(2) f by (simp add: server_fetch_def)
    have "u_ClientId u' = u_ClientId ?u" using FetchChunk_unpacker [OF f] by simp
    then have "sv_inv L (sv\<lparr>sv_RecvUnpacker := u'\<rparr>)"
      using True assms(1) by (intro sv_inv_unpacker) (auto simp: sv_inv_def)
    moreover have "tame (slot (sv\<lparr>sv_RecvUnpacker := u'\<rparr>) ?i) c'"
      using tame_fetch [of ?u "slot sv ?i" r u' c'] f c' by (simp add: slot_def)
    ultimately show ?thesis unfolding sv' by (rule sv_inv_set_slot)
  qed
qed

lemma Server_Recv_inv:
  "sv_inv L sv \<Longrightarrow>
     \<exists>r rt' ds' sv' n'. Server_Recv e ds rt sv n = Some (r, rt', ds', sv', n') \<and> sv_inv L sv' \<and> r \<noteq> Null_pointer \<and>
       (r = No_packet \<longrightarrow> ds' = [] \<or> (\<exists>d ds0. ds = ds0 @ d # ds' \<and> i_Bytes d = []))"
proof (induction ds arbitrary: rt sv n)
  case Nil
  obtain chunk sv1 where f: "server_fetch sv = (chunk, sv1)" by fastforce
  from server_fetch_inv [OF Nil f] show ?case
    by (subst Server_Recv.simps) (cases chunk; simp add: f)
next
  case (Cons d ds)
  obtain chunk sv1 where f: "server_fetch sv = (chunk, sv1)" by fastforce
  note inv1 = server_fetch_inv [OF Cons.prems f]
  obtain res rt2 sv2 n2 where d: "recv_datagram e d rt sv1 n = Some (res, rt2, sv2, n2)" "sv_inv L sv2" "res \<noteq> Some Null_pointer"
    using recv_datagram_inv [OF inv1] by blast
  have datagram: "res \<noteq> Some No_packet" using d(1)
    by (auto simp: recv_datagram_def recv_connected_def Let_def map_option_case
        split: option.splits unpacked.splits if_splits prod.splits)
  show ?case
  proof (cases chunk)
    case Some
    then show ?thesis using inv1 by (subst Server_Recv.simps) (simp add: f)
  next
    case none: None
    show ?thesis
    proof (cases "i_Bytes d = []")
      case True
      then show ?thesis using inv1 none by (subst Server_Recv.simps) (auto simp: f)
    next
      case False
      show ?thesis
      proof (cases res)
        case None
        have "Server_Recv e (d # ds) rt sv n = Server_Recv e ds rt2 sv2 n2"
          using none False d(1) None by (subst Server_Recv.simps) (simp add: f)
        with Cons.IH [OF d(2), of rt2 n2] show ?thesis by (metis append_Cons)
      next
        case (Some r)
        then have "Server_Recv e (d # ds) rt sv n = Some (r, rt2, ds, sv2, n2)"
          using none False d(1) by (subst Server_Recv.simps) (simp add: f)
        with Some d(2,3) datagram show ?thesis by auto
      qed
    qed
  qed
qed

subsection \<open>The other operations\<close>

lemma Drop_inv:
  assumes "sv_inv L sv"
  shows "sv_inv L (fst (Drop i r sv n))"
proof -
  obtain c' n' where d: "Conn_Disconnect r (slot sv i) n = (c', n')" by fastforce
  have "sv_inv L (callback (Del_client i r) sv)" using assms by (rule sv_inv_same) simp_all
  then have "sv_inv L (set_slot i c' (callback (Del_client i r) sv))"
    by (rule sv_inv_set_slot) (use tame_disconnect [OF d] in simp)
  then show ?thesis by (simp add: Drop_def d)
qed

lemma update_slots_inv:
  assumes "sv_inv L sv" "\<forall>i \<in> set is. i < NET_MAX_CLIENTS"
  shows "\<exists>sv' n'. update_slots e is sv n = Some (sv', n') \<and> sv_inv L sv'"
  using assms
proof (induction "is" arbitrary: sv n)
  case (Cons i "is")
  have i: "i < NET_MAX_CLIENTS" "i < length (sv_Slots sv)" using Cons.prems by (auto simp: sv_inv_def)
  note ok = sv_inv_slot [OF Cons.prems(1) i(1)]
  obtain c1 n1 where u: "Conn_Update (g_Conn (se_Config e)) (slot sv i) n = Some (c1, n1)"
    using Conn_Update_ok [OF ok] by blast
  show ?case
  proof (cases "given_up c1")
    case True
    obtain c2 n2 where d: "Conn_Disconnect Own_error_string c1 n1 = (c2, n2)" by fastforce
    let ?sv = "callback (Del_client i Own_error_string) (set_slot i c2 sv)"
    have "sv_inv L (set_slot i c2 sv)"
      using Cons.prems(1) by (rule sv_inv_set_slot) (rule tame_update(1) [OF u ok True d])
    then have inv: "sv_inv L ?sv" by (rule sv_inv_same) simp_all
    have "Drop i Own_error_string (set_slot i c1 sv) n1 = (?sv, n2)"
      using d i(2) by (simp add: Drop_def slot_set_slot) (simp add: set_slot_def callback_def)
    then have "update_slots e (i # is) sv n = update_slots e is ?sv n2" using u True by simp
    with Cons.IH [OF inv] Cons.prems(2) show ?thesis by simp
  next
    case False
    have inv: "sv_inv L (set_slot i c1 sv)"
      using Cons.prems(1) by (rule sv_inv_set_slot) (rule tame_update(2) [OF u ok False])
    have "update_slots e (i # is) sv n = update_slots e is (set_slot i c1 sv) n1" using u False by simp
    with Cons.IH [OF inv] Cons.prems(2) show ?thesis by simp
  qed
qed simp

lemma Server_Update_inv:
  "sv_inv L sv \<Longrightarrow> \<exists>sv' n'. Server_Update e sv n = Some (sv', n') \<and> sv_inv L sv'"
  unfolding Server_Update_def by (rule update_slots_inv) (auto simp: sv_inv_def)

lemma Flush_tame: "Flush c n = (k, c', n') \<Longrightarrow> tame c c'"
  by (rule tame_same_link) (rule Flush_same_link)

lemma Server_Send_inv:
  assumes "sv_inv L sv" "ch_Flags chunk AND NETSENDFLAG_CONNLESS \<noteq> 0 \<or> 0 \<le> ch_ClientId chunk \<and> ch_ClientId chunk < int (sv_MaxClients sv)"
  shows "\<exists>r sv' n'. Server_Send chunk Data sv n = Some (r, sv', n') \<and> sv_inv L sv'"
proof (cases "length Data \<ge> NET_MAX_PAYLOAD \<or> ch_Flags chunk AND NETSENDFLAG_CONNLESS \<noteq> 0")
  case True
  then show ?thesis using assms(1) by (auto simp: Server_Send_def)
next
  case False
  let ?i = "nat (ch_ClientId chunk)"
  let ?F = "if ch_Flags chunk AND NETSENDFLAG_VITAL \<noteq> 0 then NET_CHUNKFLAG_VITAL else 0"
  have range: "0 \<le> ch_ClientId chunk \<and> ch_ClientId chunk < int (sv_MaxClients sv)" using assms(2) False by blast
  then have i: "?i < NET_MAX_CLIENTS" using assms(1) by (auto simp: sv_inv_def)
  note ok = sv_inv_slot [OF assms(1) i]
  obtain r c1 n1 where q: "QueueChunk ?F Data (slot sv ?i) n = Some (r, c1, n1)" using QueueChunk_ok [OF ok] by blast
  note t1 = tame_queue [OF ok q]
  obtain c2 n2 where f: "(if r = 0 \<and> ch_Flags chunk AND NETSENDFLAG_FLUSH \<noteq> 0 then snd (Flush c1 n1) else (c1, n1)) = (c2, n2)"
    by fastforce
  have "tame c1 c2" using f Flush_tame [of c1 n1 "fst (Flush c1 n1)" c2 n2] by (auto simp: prod_eq_iff split: if_splits)
  then have "sv_inv L (set_slot ?i c2 sv)" by (intro sv_inv_set_slot [OF assms(1)] tame_trans [OF t1])
  moreover have "Server_Send chunk Data sv n = Some (0, set_slot ?i c2 sv, n2)"
    using False range q f by (simp add: Server_Send_def Let_def)
  ultimately show ?thesis by blast
qed

lemma SetTimeoutProtected_inv:
  assumes "sv_inv L sv" "i < NET_MAX_CLIENTS"
  shows "sv_inv L (SetTimeoutProtected i sv)"
proof -
  let ?c = "slot sv i"
  have "conn_ok (?c\<lparr>c_TimeoutProtected := True\<rparr>) = conn_ok ?c" by (rule conn_ok_cong) simp_all
  moreover have "protected ?c" using assms by (simp add: sv_inv_def)
  ultimately have "tame ?c (?c\<lparr>c_TimeoutProtected := True\<rparr>)"
    by (auto simp: tame_def counted_def given_up_def has_addr_def protected_def)
  with assms(1) show ?thesis unfolding SetTimeoutProtected_def by (rule sv_inv_set_slot)
qed

lemma ResetErrorString_inv:
  assumes "sv_inv L sv"
  shows "sv_inv L (ResetErrorString i sv)"
  unfolding ResetErrorString_def
proof (rule sv_inv_set_slot [OF assms], rule tame_same)
  assume "conn_ok (slot sv i)"
  then show "conn_ok ((slot sv i)\<lparr>c_ErrorString := []\<rparr>)" using conn_ok_cong [of "(slot sv i)\<lparr>c_ErrorString := []\<rparr>" "slot sv i"] by simp
qed (simp_all add: peer_def)

lemma SetMaxClientsPerIp_inv:
  assumes "sv_inv L sv" "min (max l 1) 64 \<le> L"
  shows "sv_inv L (SetMaxClientsPerIp l sv)"
  using assms by (auto simp: sv_inv_def SetMaxClientsPerIp_def slot_def NumClientsWithAddr_def NET_MAX_CLIENTS_def)

lemma card_move:
  assumes "finite S" "T \<subseteq> insert a (S - {b})" "a \<in> T \<Longrightarrow> b \<in> S"
  shows "card T \<le> card S"
proof (cases "a \<in> T")
  case True
  then have "card T \<le> card (insert a (S - {b}))" using assms by (intro card_mono) simp_all
  also have "\<dots> \<le> Suc (card (S - {b}))" by (rule card_insert_le_m1) simp_all
  also have "\<dots> = card S" using True assms by (metis card_Suc_Diff1)
  finally show ?thesis .
next
  case False
  then have "T \<subseteq> S" using assms(2) by auto
  then show ?thesis using assms(1) by (rule card_mono [rotated])
qed

lemma SetTimedOut_inv:
  assumes "sv_inv L sv" "i < sv_MaxClients sv" "j < sv_MaxClients sv" "i \<noteq> j" "c_State (slot sv j) \<noteq> OFFLINE" "c_State (slot sv j) \<noteq> ERROR"
  shows "\<exists>r sv' n'. Server_SetTimedOut i j sv n = Some (r, sv', n') \<and> sv_inv L sv'"
proof (cases "c_State (slot sv i) = ERROR")
  case True
  have len: "length (sv_Slots sv) = NET_MAX_CLIENTS" "sv_MaxClients sv \<le> NET_MAX_CLIENTS" using assms(1) by (auto simp: sv_inv_def)
  let ?orig = "slot sv j"
  have ok: "conn_ok ?orig" "conn_ok (slot sv i)" using assms(1-3) len(2) by (simp_all add: sv_inv_def)
  obtain rb c n' where s: "Conn_SetTimedOut (c_PeerAddr ?orig) (c_Sequence ?orig) (c_Ack ?orig) (c_SecurityToken ?orig) (c_Buffer ?orig)
      (c_Resends ?orig) (c_Sixup ?orig) (slot sv i) n = Some (rb, c, n')"
    "conn_ok c" "c_State c = ONLINE" "c_PeerAddr c = c_PeerAddr ?orig" "c_TimeoutProtected c = c_TimeoutProtected (slot sv i)"
    "c_TimeoutSituation c = c_TimeoutSituation (slot sv i)"
    using Conn_SetTimedOut_returns [OF ok] by blast
  define o' where "o' = Conn_Reset False (?orig\<lparr>c_Buffer := rb\<rparr>)"
  define sv' where "sv' = set_slot j o' (set_slot i c sv)"
  have ok': "conn_ok o'" unfolding o'_def by (rule Reset_conn_ok)
  have off: "c_State o' = OFFLINE" "protected o'"
    by (simp_all add: o'_def Conn_Reset_def Let_def protected_def)
  have run: "Server_SetTimedOut i j sv n = Some (True, sv', n')"
    using True s(1) assms(3,4) len unfolding Server_SetTimedOut_def Let_def sv'_def o'_def by (simp add: slot_set_slot)
  have sl: "slot sv' k = (if k = j then o' else if k = i then c else slot sv k)" if "k < NET_MAX_CLIENTS" for k
    using that len by (simp add: sv'_def slot_set_slot)
  have sl': "slot sv' k = (if k = j then o' else if k = i then c else slot sv k)" if "k < sv_MaxClients sv" for k
    using sl that len by simp
  have fields: "length (sv_Slots sv') = NET_MAX_CLIENTS" "sv_MaxClients sv' = sv_MaxClients sv"
    "sv_MaxClientsPerIp sv' = sv_MaxClientsPerIp sv" "sv_RecvUnpacker sv' = sv_RecvUnpacker sv"
    using len by (simp_all add: sv'_def)
  have addr: "counted a c \<longleftrightarrow> counted a ?orig" "has_addr a c \<longleftrightarrow> has_addr a ?orig" for a
    using s(3,4) assms(5,6) by (auto simp: counted_def given_up_def has_addr_def)
  have off_addr: "\<not> counted a o'" "\<not> has_addr a o'" for a using off(1) by (auto simp: counted_def has_addr_def)
  have "NumClientsWithAddr sv' a \<le> NumClientsWithAddr sv a" for a
  proof -
    let ?S = "{k. k < sv_MaxClients sv \<and> counted a (slot sv k)}" and ?T = "{k. k < sv_MaxClients sv \<and> counted a (slot sv' k)}"
    have "?T \<subseteq> insert i (?S - {j})" using sl' off_addr by (auto split: if_splits)
    moreover have "i \<in> ?T \<Longrightarrow> j \<in> ?S" using sl' [of i] assms(3,4) addr(1) by auto
    ultimately have "card ?T \<le> card ?S" by (intro card_move [of _ _ i j]) simp_all
    then show ?thesis using NumClientsWithAddr_card [of sv a] NumClientsWithAddr_card [of sv' a] len fields by simp
  qed
  then have "NumClientsWithAddr sv' a \<le> L" for a using assms(1) unfolding sv_inv_def by (meson order_trans)
  moreover have "k = l" if "k < sv_MaxClients sv" "l < sv_MaxClients sv" "has_addr a (slot sv' k)" "has_addr a (slot sv' l)" for k l a
  proof -
    have u: "x = y" if "x < sv_MaxClients sv" "y < sv_MaxClients sv" "has_addr a (slot sv x)" "has_addr a (slot sv y)" for x y
      using assms(1) that unfolding sv_inv_def by blast
    have "k \<noteq> j" "l \<noteq> j" using that sl' off_addr by auto
    then have "has_addr a (slot sv (if k = i then j else k))" "has_addr a (slot sv (if l = i then j else l))"
      using that sl' addr(2) by (auto split: if_splits)
    with u that(1,2) assms(3) \<open>k \<noteq> j\<close> \<open>l \<noteq> j\<close> show ?thesis by (cases "k = i"; cases "l = i") auto
  qed
  moreover have "conn_ok (slot sv' k) \<and> protected (slot sv' k)" if "k < NET_MAX_CLIENTS" for k
    using sl [OF that] s(2,5,6) off ok' that assms(1,2) len by (auto simp: sv_inv_def protected_def)
  ultimately have "sv_inv L sv'" using assms(1) fields by (auto simp: sv_inv_def)
  with run show ?thesis by blast
qed (use assms(1) in \<open>auto simp: Server_SetTimedOut_def\<close>)

section \<open>The server as a state machine\<close>

datatype sv_op =
    Do_Recv "incoming list" i32
  | Do_Update
  | Do_Drop nat reason
  | Do_Send CNetChunk "u8 list"
  | Do_SetTimeoutProtected nat
  | Do_ResetErrorString nat
  | Do_SetMaxClientsPerIp int
  | Do_SetTimedOut nat nat

text \<open>\<open>None\<close> is a loop that does not end, a failed assertion, or an access through a null pointer.\<close>

fun server_do :: "sv_env \<Rightarrow> sv_op \<Rightarrow> CNetServer \<times> net \<Rightarrow> (CNetServer \<times> net) option" where
  "server_do e (Do_Recv ds rt) (sv, n) =
     (case Server_Recv e ds rt sv n of
        Some (r, _, _, sv, n) \<Rightarrow> if r = Null_pointer then None else Some (sv, n)
      | None \<Rightarrow> None)"
| "server_do e Do_Update (sv, n) = Server_Update e sv n"
| "server_do e (Do_Drop i r) (sv, n) = Some (Drop i r sv n)"
| "server_do e (Do_Send chunk Data) (sv, n) = map_option snd (Server_Send chunk Data sv n)"
| "server_do e (Do_SetTimeoutProtected i) (sv, n) = Some (SetTimeoutProtected i sv, n)"
| "server_do e (Do_ResetErrorString i) (sv, n) = Some (ResetErrorString i sv, n)"
| "server_do e (Do_SetMaxClientsPerIp l) (sv, n) = Some (SetMaxClientsPerIp l sv, n)"
| "server_do e (Do_SetTimedOut i j) (sv, n) = map_option snd (Server_SetTimedOut i j sv n)"

text \<open>
  What the game owes the server: client ids are in range, a chunk of a connection is for a client, and a
  connection is taken over from another client that is connected. \<open>L\<close> bounds the limits that are set.
\<close>

fun op_ok :: "int \<Rightarrow> CNetServer \<Rightarrow> sv_op \<Rightarrow> bool" where
  "op_ok L sv (Do_Drop i r) \<longleftrightarrow> i < sv_MaxClients sv"
| "op_ok L sv (Do_Send chunk Data) \<longleftrightarrow> ch_Flags chunk AND NETSENDFLAG_CONNLESS \<noteq> 0 \<or>
     0 \<le> ch_ClientId chunk \<and> ch_ClientId chunk < int (sv_MaxClients sv)"
| "op_ok L sv (Do_SetTimeoutProtected i) \<longleftrightarrow> i < sv_MaxClients sv"
| "op_ok L sv (Do_ResetErrorString i) \<longleftrightarrow> i < sv_MaxClients sv"
| "op_ok L sv (Do_SetMaxClientsPerIp l) \<longleftrightarrow> min (max l 1) 64 \<le> L"
| "op_ok L sv (Do_SetTimedOut i j) \<longleftrightarrow> i < sv_MaxClients sv \<and> j < sv_MaxClients sv \<and> i \<noteq> j \<and>
     c_State (slot sv j) \<noteq> OFFLINE \<and> c_State (slot sv j) \<noteq> ERROR"
| "op_ok L sv _ \<longleftrightarrow> True"

text \<open>The states a server gets into after it was opened, from whatever was in its slots before.\<close>

inductive server_reaches :: "sv_env \<Rightarrow> int \<Rightarrow> CNetServer \<times> net \<Rightarrow> bool" for e L where
  opened: "length (sv_Slots sv) = NET_MAX_CLIENTS \<Longrightarrow> 0 \<le> L \<Longrightarrow> l \<le> L \<Longrightarrow> server_reaches e L (Server_Open seed m l sv, n)"
| step: "server_reaches e L s \<Longrightarrow> op_ok L (fst s) op \<Longrightarrow> server_do e op s = Some s' \<Longrightarrow> server_reaches e L s'"

lemma Server_Open_inv:
  assumes "length (sv_Slots sv) = NET_MAX_CLIENTS" "0 \<le> L" "l \<le> L"
  shows "sv_inv L (Server_Open seed m l sv)"
proof -
  define S where "S = Server_Open seed m l sv"
  have S: "length (sv_Slots S) = NET_MAX_CLIENTS" "sv_MaxClientsPerIp S = l" "\<not> u_Valid (sv_RecvUnpacker S)" "sv_MaxClients S \<le> NET_MAX_CLIENTS"
    using assms(1) by (simp_all add: S_def Server_Open_def Unpacker_Clear_def)
  have s: "slot S i = Conn_Init True (sv_Slots sv ! i)" if "i < NET_MAX_CLIENTS" for i
    using that assms(1) by (simp add: S_def Server_Open_def slot_def)
  have off: "c_State (Conn_Init b c) = OFFLINE" "protected (Conn_Init b c)" for b c
    by (simp_all add: Conn_Init_def ResetStats_def ClearPeerAddr_def Conn_Reset_def Let_def protected_def)
  have "{i. i < sv_MaxClients S \<and> counted a (slot S i)} = {}" for a
    using s off(1) S(4) by (auto simp: counted_def)
  then have "NumClientsWithAddr S a = 0" for a
    using NumClientsWithAddr_card [of S a] S by simp
  moreover have "\<not> has_addr a (slot S i)" if "i < sv_MaxClients S" for a i
    using s [of i] off(1) S(4) that by (simp add: has_addr_def)
  moreover have "conn_ok (slot S i) \<and> protected (slot S i)" if "i < NET_MAX_CLIENTS" for i
    unfolding s [OF that] using Init_ok off(2) by blast
  ultimately show ?thesis using assms(2,3) S unfolding sv_inv_def S_def [symmetric] by simp
qed

lemma server_do_inv:
  assumes "sv_inv L sv" "op_ok L sv op"
  shows "\<exists>sv' n'. server_do e op (sv, n) = Some (sv', n') \<and> sv_inv L sv'"
proof (cases op)
  case (Do_Recv ds rt)
  from Server_Recv_inv [OF assms(1), of e ds rt n] show ?thesis unfolding Do_Recv by auto
next
  case Do_Update
  with Server_Update_inv [OF assms(1)] show ?thesis by simp
next
  case (Do_Drop i r)
  with Drop_inv [OF assms(1), of i r n] show ?thesis by (simp add: prod_eq_iff)
next
  case (Do_Send chunk Data)
  with Server_Send_inv [OF assms(1), of chunk Data n] assms(2) show ?thesis by fastforce
next
  case (Do_SetTimedOut i j)
  with SetTimedOut_inv [OF assms(1), of i j n] assms(2) show ?thesis by fastforce
qed (use assms SetTimeoutProtected_inv ResetErrorString_inv SetMaxClientsPerIp_inv in \<open>auto simp: sv_inv_def [of L sv]\<close>)

lemma server_reaches_inv: "server_reaches e L s \<Longrightarrow> sv_inv L (fst s)"
proof (induction rule: server_reaches.induct)
  case (opened sv l seed m n)
  then show ?case by (simp add: Server_Open_inv)
next
  case (step s op s')
  obtain sv n where s: "s = (sv, n)" by fastforce
  with server_do_inv [of L sv op e n] step show ?case by auto
qed

end
