(* ===== verification/NetServerSafe.thy ===== *)
theory NetServerSafe
  imports NetServerInv
begin

text \<open>
  Who gets into the server of \<^verbatim>\<open>network_server.cpp\<close>: the tokens, the handshake for clients
  without tokens, and the properties of the server.
\<close>

section \<open>Only addresses that answered get in\<close>

text \<open>
  The datagram shows a token for its address: that of DDNet in an accept message, that of the handshake for
  clients without tokens in an input message, or that of 0.7 in the packet header.
\<close>

definition shows_token :: "sv_env \<Rightarrow> CNetServer \<Rightarrow> incoming \<Rightarrow> i32 \<Rightarrow> bool" where
  "shows_token e sv d rt \<longleftrightarrow>
     (case UnpackPacket (i_Bytes d) False (Some (i_Token d)) (Some rt) of
        Unpacked r \<Rightarrow>
          let p = in_memory (r_Packet r) (i_Stale d)
          in if r_Sixup r then r_SecurityToken r = Some (GetToken e sv (i_Addr d))
             else 5 \<le> rp_DataSize p \<and> uint (mem_at (rp_Mem p) 0) = NET_CTRLMSG_ACCEPT \<and>
                    ToSecurityToken (drop 1 (rp_Mem p)) = GetToken e sv (i_Addr d) \<or>
                  preconn_input p = Some (GetVanillaToken e sv (i_Addr d))
      | _ \<Rightarrow> False)"

text \<open>
  A websocket client has no token to show: any control message of the protocol of DDNet from a websocket
  address is taken for the wish to enter.
\<close>

definition websocket_knock :: "incoming \<Rightarrow> i32 \<Rightarrow> bool" where
  "websocket_knock d rt \<longleftrightarrow> na_type (i_Addr d) = NETTYPE_WEBSOCKET_IPV4 \<and>
     (case UnpackPacket (i_Bytes d) False (Some (i_Token d)) (Some rt) of
        Unpacked r \<Rightarrow> \<not> r_Sixup r \<and> IsDDNetControlMsg (in_memory (r_Packet r) (i_Stale d))
      | _ \<Rightarrow> False)"

text \<open>What the game is told by a change from \<open>sv\<close> to \<open>sv'\<close>.\<close>

definition admits :: "NETADDR \<Rightarrow> CNetServer \<Rightarrow> CNetServer \<Rightarrow> bool" where
  "admits addr sv sv' \<longleftrightarrow> (\<exists>i b ev. sv_Events sv' = sv_Events sv @ [ev] \<and> (ev = New_client i b \<or> ev = New_client_noauth i) \<and>
     i < sv_MaxClients sv \<and> c_State (slot sv i) = OFFLINE \<and> c_State (slot sv' i) = ONLINE \<and> c_PeerAddr (slot sv' i) = addr \<and>
     NumClientsWithAddr sv addr < sv_MaxClientsPerIp sv)"

definition rejoins :: "sv_env \<Rightarrow> NETADDR \<Rightarrow> CNetServer \<Rightarrow> CNetServer \<Rightarrow> bool" where
  "rejoins e addr sv sv' \<longleftrightarrow> (\<exists>i. sv_Events sv' = sv_Events sv @ [Client_rejoin i] \<and> has_addr addr (slot sv i))"

lemma admits_cong:
  "sv_Slots a = sv_Slots sv \<Longrightarrow> sv_MaxClients a = sv_MaxClients sv \<Longrightarrow> sv_MaxClientsPerIp a = sv_MaxClientsPerIp sv \<Longrightarrow>
   sv_Events a = sv_Events sv \<Longrightarrow> admits addr a sv' \<longleftrightarrow> admits addr sv sv'"
  by (simp add: admits_def slot_def NumClientsWithAddr_def)

lemma TryAcceptClient_events:
  assumes "length (sv_Slots sv) = NET_MAX_CLIENTS" "sv_MaxClients sv \<le> NET_MAX_CLIENTS"
    "TryAcceptClient e addr st v s t sv n = (r, sv', n')"
  shows "sv_Events sv' = sv_Events sv \<or> admits addr sv sv'"
  using assms(3)
proof (cases rule: TryAcceptClient_cases)
  case (accepted sps i c)
  note i = free_slot_Some [OF accepted(2)]
  then have "slot sv' i = c" using assms(1,2) slot_set_slot [of i "sv\<lparr>sv_SpamConns := sps\<rparr>" i c] by (simp add: accepted(8))
  with accepted i show ?thesis
    by (intro disjI2) (auto simp: admits_def callback_def)
qed simp

lemma recv_slot_events:
  assumes "recv_slot e d i p t rt sv n = Some (sv', n')" "has_addr (i_Addr d) (slot sv i)"
  shows "sv_Events sv' = sv_Events sv \<or> rejoins e (i_Addr d) sv sv'"
proof -
  obtain sv1 n1 where s: "(if rp_Flags p AND NET_PACKETFLAG_CONTROL \<noteq> 0
                     then OnConnCtrlMsg e (i_Addr d) i (uint (mem_at (rp_Mem p) 0)) p sv n else (sv, n)) = (sv1, n1)" by fastforce
  have "sv_Events sv' = sv_Events sv1"
    using assms(1) unfolding recv_slot_def s by (auto simp: Let_def Option.bind_eq_Some_conv split: if_splits)
  moreover have "sv_Events sv1 = sv_Events sv \<or> sv_Events sv1 = sv_Events sv @ [Client_rejoin i]"
    using s by (auto simp: OnConnCtrlMsg_def callback_def split: if_splits)
  ultimately show ?thesis using assms(2) by (auto simp: rejoins_def)
qed

lemma recv_connected_events:
  assumes len: "length (sv_Slots sv) = NET_MAX_CLIENTS" "sv_MaxClients sv \<le> NET_MAX_CLIENTS"
    and u: "UnpackPacket (i_Bytes d) False (Some (i_Token d)) (Some rt0) = Unpacked r"
    and p: "p = in_memory (r_Packet r) (i_Stale d)"
    and run: "recv_connected e d r p (the (r_SecurityToken r)) (the (r_ResponseToken r)) sv n = Some (res, rt', sv', n')"
    and spoof: "anti_spoof e"
  shows "sv_Events sv' = sv_Events sv \<or> rejoins e (i_Addr d) sv sv' \<or>
    admits (i_Addr d) sv sv' \<and> (shows_token e sv d rt0 \<or> websocket_knock d rt0)"
proof (cases "rp_Flags p AND NET_PACKETFLAG_CONTROL \<noteq> 0 \<and> rp_DataSize p = 0")
  case True
  then show ?thesis using run by (simp add: recv_connected_def)
next
  case go: False
  let ?t = "the (r_SecurityToken r)" and ?rt = "the (r_ResponseToken r)"
  note TA = TryAcceptClient_events [OF len]
  have sixup_token: "r_SecurityToken r = Some ?t" if "r_Sixup r"
    using u that by (auto simp: UnpackPacket_def unpack_connless_def unpack_connected_def Let_def split: if_splits option.splits)
  show ?thesis
  proof (cases rule: GetClientSlot_cases [of sv "i_Addr d"])
    case (found i)
    then have "\<exists>q t1 n1. recv_slot e d i q t1 ?rt sv n = Some (sv', n1) \<or> sv' = sv"
      using run go by (auto simp: recv_connected_def Let_def split: if_splits unpacked.splits)
    then show ?thesis using recv_slot_events [of e d i _ _ ?rt sv n sv'] found(3) by auto
  next
    case none
    have new: "\<not> ClientExists sv (i_Addr d)" using none(1) by (simp add: ClientExists_def)
    note run' = run [unfolded recv_connected_def if_not_P [OF go] none(1) Let_def, simplified]
    show ?thesis
    proof (cases "r_Sixup r")
      case True
      then obtain ch where six: "OnSixupCtrlMsg e (i_Addr d) (uint (mem_at (rp_Mem p) 0)) p ?rt ?t sv n = (ch, rt', sv', n')"
        using run' by (auto split: prod.splits)
      then have "sv' = sv \<or> ?t = GetToken e sv (i_Addr d) \<and>
          (\<exists>st b s t1 m. sv' = fst (snd (TryAcceptClient e (i_Addr d) st b s t1 sv m)))"
        using new by (auto simp: OnSixupCtrlMsg_def Let_def split: if_splits) (metis fst_conv)+
      moreover have "sv_Events sv' = sv_Events sv \<or> admits (i_Addr d) sv sv'"
        if "sv' = fst (snd (TryAcceptClient e (i_Addr d) st b s t1 sv m))" for st b s t1 m
        using TA [of e "i_Addr d" st b s t1 m "fst (TryAcceptClient e (i_Addr d) st b s t1 sv m)" sv'
            "snd (snd (TryAcceptClient e (i_Addr d) st b s t1 sv m))"] that by simp
      moreover have "?t = GetToken e sv (i_Addr d) \<Longrightarrow> shows_token e sv d rt0"
        using u True sixup_token by (simp add: shows_token_def Let_def)
      ultimately show ?thesis by blast
    next
      case six: False
      show ?thesis
      proof (cases "IsDDNetControlMsg p")
        case True
        then have r: "OnTokenCtrlMsg e (i_Addr d) (uint (mem_at (rp_Mem p) 0)) p sv n = (sv', n')"
          using run' six by simp
        have five: "5 \<le> rp_DataSize p" if "uint (mem_at (rp_Mem p) 0) = NET_CTRLMSG_ACCEPT"
          using True that by (auto simp: IsDDNetControlMsg_def split: if_splits)
        let ?T = "ToSecurityToken (drop 1 (rp_Mem p))"
        show ?thesis
        proof (cases "na_type (i_Addr d) = NETTYPE_WEBSOCKET_IPV4")
          case ws: True
          then have "websocket_knock d rt0" using u six True p by (simp add: websocket_knock_def)
          moreover from r new ws have "\<exists>m. (sv', n') = snd (TryAcceptClient e (i_Addr d) NET_SECURITY_TOKEN_UNSUPPORTED False False 0 sv m)"
            by (simp add: OnTokenCtrlMsg_def) metis
          ultimately show ?thesis
            using TA [of e "i_Addr d" NET_SECURITY_TOKEN_UNSUPPORTED False False 0 _ _ sv' n'] by (auto simp: prod_eq_iff)
        next
          case no_ws: False
          have "sv' = sv \<or> uint (mem_at (rp_Mem p) 0) = NET_CTRLMSG_ACCEPT \<and> ?T = GetToken e sv (i_Addr d) \<and>
              (sv', n') = snd (TryAcceptClient e (i_Addr d) ?T False False 0 sv n)"
            using r new no_ws by (simp add: OnTokenCtrlMsg_def Let_def split: if_splits)
          then show ?thesis
            using TA [of e "i_Addr d" ?T False False 0 n _ sv' n'] five u six p
            by (auto simp: shows_token_def Let_def prod_eq_iff)
        qed
      next
        case False
        then have r: "OnPreConnMsg e (i_Addr d) p sv n = (sv', n')" using run' six by simp
        have flood: "sv_Events (fst (snd (detect_flood e sv m))) = sv_Events sv" for m
          by (auto simp: detect_flood_def Let_def split: prod.splits)
        show ?thesis
        proof (cases "rp_Flags p AND NET_PACKETFLAG_CONTROL \<noteq> 0")
          case True
          then have "sv_Events sv' = sv_Events sv"
            using r spoof flood [of n] by (auto simp: OnPreConnMsg_def Let_def case_prod_beta split: if_splits)
          then show ?thesis by simp
        next
          case False
          then have "sv' = sv \<or> preconn_input p = Some (GetVanillaToken e sv (i_Addr d)) \<and>
              (sv', n') = snd (TryAcceptClient e (i_Addr d) NET_SECURITY_TOKEN_UNSUPPORTED True False 0 sv n)"
            using r spoof by (auto simp: OnPreConnMsg_def Let_def split: if_splits option.splits)
          then show ?thesis
            using TA [of e "i_Addr d" NET_SECURITY_TOKEN_UNSUPPORTED True False 0 n _ sv' n'] u six p
            by (auto simp: shows_token_def Let_def prod_eq_iff)
        qed
      qed
    qed
  qed
qed

section \<open>The messages of the handshake without tokens\<close>

definition sys_id :: "int \<Rightarrow> i32" where
  "sys_id Msg = word_of_int (push_bit 1 Msg OR 1)"

definition handshake_fields :: "bool \<Rightarrow> i32 \<Rightarrow> field list list" where
  "handshake_fields Flooding tok =
     (let MapSize = of_nat (length g_aDummyMapData);
          Snap = [FInt (sys_id NETMSG_SNAPEMPTY), FInt tok, FInt (tok + 1)]
      in [if Flooding
          then [FInt (sys_id NETMSG_MAP_CHANGE), FString (bytes_of ''dm1''), FInt 0xf2159e6e, FInt 5805]
          else [FInt (sys_id NETMSG_MAP_CHANGE), FString (bytes_of ''dummy''), FInt g_DummyMapCrc, FInt MapSize],
          if Flooding
          then [FInt (sys_id NETMSG_MAP_DATA), FInt 1, FInt 0, FInt 0, FInt 0]
          else [FInt (sys_id NETMSG_MAP_DATA), FInt 1, FInt g_DummyMapCrc, FInt 0, FInt MapSize, FRaw g_aDummyMapData],
          [FInt (sys_id NETMSG_CON_READY)], Snap, Snap, Snap])"

definition empty_packer :: packer where
  "empty_packer = \<lparr>m_Written = [], m_BufferSize = PACKER_BUFFER_SIZE, m_Error = False\<rparr>"

lemma sys_msg_field: "sys_msg Msg = add_field empty_packer (FInt (sys_id Msg))"
  by (simp add: sys_msg_def empty_packer_def Packer_Reset_def sys_id_def)

lemma preconn_msgs_fields: "preconn_msgs Flooding tok = map (foldl add_field empty_packer) (handshake_fields Flooding tok)"
  by (simp add: preconn_msgs_def MapChangeMsg_def MapDataMsg_def SnapEmptyMsg_def sys_msg_field handshake_fields_def Let_def)

lemma packed_le: "length (packed i) \<le> 5"
  using length_packed [of i] packed_size_bounds [of i] by auto

lemma clean_names: "clean_string (bytes_of ''dm1'')" "clean_string (bytes_of ''dummy'')"
  by (code_simp)+

lemma length_dummy_map: "length g_aDummyMapData = 266"
  by (simp add: g_aDummyMapData_def)

lemma handshake_sizes:
  "\<forall>fs \<in> set (handshake_fields Flooding tok). \<forall>f \<in> set fs. clean_field f"
  "\<forall>fs \<in> set (handshake_fields Flooding tok). length (concat (map field_bytes fs)) < 310"
  "(\<Sum>fs \<leftarrow> handshake_fields Flooding tok. length (concat (map field_bytes fs))) < 500"
proof -
  have l: "length (bytes_of ''dm1'') = 3" "length (bytes_of ''dummy'') = 5" by (simp_all add: bytes_of_def)
  note p = packed_le [of "sys_id NETMSG_MAP_CHANGE"] packed_le [of "sys_id NETMSG_MAP_DATA"] packed_le [of "sys_id NETMSG_CON_READY"]
    packed_le [of "sys_id NETMSG_SNAPEMPTY"] packed_le [of tok] packed_le [of "tok + 1"] packed_le [of g_DummyMapCrc]
    packed_le [of "0xf2159e6e"] packed_le [of 5805] packed_le [of "of_nat (length g_aDummyMapData)"] packed_le [of 0] packed_le [of 1]
  show "\<forall>fs \<in> set (handshake_fields Flooding tok). \<forall>f \<in> set fs. clean_field f"
    using clean_names by (simp add: handshake_fields_def Let_def)
  show "\<forall>fs \<in> set (handshake_fields Flooding tok). length (concat (map field_bytes fs)) < 310"
    using p by (simp add: handshake_fields_def Let_def l length_dummy_map)
  show "(\<Sum>fs \<leftarrow> handshake_fields Flooding tok. length (concat (map field_bytes fs))) < 500"
    using p by (simp add: handshake_fields_def Let_def l length_dummy_map)
qed

text \<open>The chunks of the packet.\<close>

definition handshake_chunks :: "bool \<Rightarrow> i32 \<Rightarrow> chunk list" where
  "handshake_chunks Flooding tok =
     map (\<lambda>(i, fs). (NET_CHUNKFLAG_VITAL, concat (map field_bytes fs), int i)) (enumerate 1 (handshake_fields Flooding tok))"

lemma handshake_written:
  assumes "fs \<in> set (handshake_fields Flooding tok)"
  shows "foldl add_field empty_packer fs = empty_packer\<lparr>m_Written := concat (map field_bytes fs)\<rparr>"
  using add_fields_fit [of empty_packer fs] handshake_sizes [of Flooding tok] assms
  by (fastforce simp: empty_packer_def PACKER_BUFFER_SIZE_def)

lemma handshake_packet:
  "concat (map (\<lambda>(i, p). msg_chunk p (int i + 1)) (enumerate 0 (preconn_msgs Flooding tok))) = pack_all False (handshake_chunks Flooding tok)"
  "length (preconn_msgs Flooding tok) = 6" "length (handshake_chunks Flooding tok) = 6"
proof -
  let ?fss = "handshake_fields Flooding tok"
  have six: "length ?fss = 6" by (simp add: handshake_fields_def Let_def)
  show "length (preconn_msgs Flooding tok) = 6" "length (handshake_chunks Flooding tok) = 6"
    by (simp_all add: preconn_msgs_def handshake_chunks_def six)
  have "map (\<lambda>(i, p). msg_chunk p (int i + 1)) (enumerate 0 (map (foldl add_field empty_packer) ?fss))
      = map (pack_one False) (handshake_chunks Flooding tok)"
  proof (rule nth_equalityI)
    fix k assume "k < length (map (\<lambda>(i, p). msg_chunk p (int i + 1)) (enumerate 0 (map (foldl add_field empty_packer) ?fss)))"
    then have k: "k < length ?fss" by simp
    from handshake_written [OF nth_mem [OF k]] k
    show "map (\<lambda>(i, p). msg_chunk p (int i + 1)) (enumerate 0 (map (foldl add_field empty_packer) ?fss)) ! k =
      map (pack_one False) (handshake_chunks Flooding tok) ! k"
      by (simp add: nth_enumerate_eq handshake_chunks_def msg_chunk_def pack_chunk_def add.commute)
  qed (simp add: handshake_chunks_def)
  then show "concat (map (\<lambda>(i, p). msg_chunk p (int i + 1)) (enumerate 0 (preconn_msgs Flooding tok))) = pack_all False (handshake_chunks Flooding tok)"
    by (simp add: preconn_msgs_fields pack_all_def)
qed

lemma length_pack_all: "length (pack_all Sixup cs) = (\<Sum>(F, D, S) \<leftarrow> cs. header_len F + length D)"
  by (induction cs) (auto simp: pack_all_def length_pack_one simp del: pack_one.simps)

lemma handshake_fits:
  "length (pack_all False (handshake_chunks Flooding tok)) < 600" "\<forall>x \<in> set (handshake_chunks Flooding tok). chunk_ok False x"
proof -
  let ?D = "\<lambda>fs. concat (map field_bytes fs)" and ?fss = "handshake_fields Flooding tok"
  have "length (pack_all False (handshake_chunks Flooding tok)) = (\<Sum>fs \<leftarrow> ?fss. 3 + length (?D fs))"
  proof -
    have "map (\<lambda>(F, D, S). header_len F + length D) (handshake_chunks Flooding tok) = map (\<lambda>fs. 3 + length (?D fs)) ?fss"
      by (rule nth_equalityI) (simp_all add: handshake_chunks_def nth_enumerate_eq header_len_def is_vital_def)
    then show ?thesis unfolding length_pack_all by (rule arg_cong)
  qed
  also have "\<dots> = 3 * length ?fss + (\<Sum>fs \<leftarrow> ?fss. length (?D fs))" by (simp add: sum_list_addf sum_list_triv)
  also have "\<dots> < 600" using handshake_sizes(3) [of Flooding tok] by (simp add: handshake_fields_def Let_def)
  finally show "length (pack_all False (handshake_chunks Flooding tok)) < 600" .
  have "length ?fss = 6" by (simp add: handshake_fields_def Let_def)
  moreover from this have "length (?D (?fss ! k)) < 1024" if "k < 6" for k
    using handshake_sizes(2) [of Flooding tok] nth_mem [of k ?fss] that by fastforce
  ultimately show "\<forall>x \<in> set (handshake_chunks Flooding tok). chunk_ok False x"
    by (auto simp: handshake_chunks_def in_set_enumerate_eq is_vital_def)
qed

text \<open>A client that has acknowledged nothing takes all six.\<close>

lemma deliver_numbered:
  "c_Ack c = int k \<Longrightarrow> \<not> c_UnknownSeq c \<Longrightarrow> k + length Ds < 1024 \<Longrightarrow>
   fst (deliver (map (\<lambda>(i, D). (NET_CHUNKFLAG_VITAL, D, int i)) (enumerate (Suc k) Ds)) c) =
     map (\<lambda>(i, D). (NET_CHUNKFLAG_VITAL, D, int i)) (enumerate (Suc k) Ds)"
proof (induction Ds arbitrary: k c)
  case (Cons D Ds)
  have "accept_sequence (int (Suc k)) c = (True, c\<lparr>c_UnknownSeq := False, c_Ack := int (Suc k)\<rparr>)"
    using Cons.prems by (simp add: accept_sequence_def)
  with Cons.IH [of "c\<lparr>c_UnknownSeq := False, c_Ack := int (Suc k)\<rparr>" "Suc k"] Cons.prems show ?case
    by (simp add: is_vital_def case_prod_beta)
qed simp

lemma handshake_taken:
  assumes "c_Ack c = 0" "\<not> c_UnknownSeq c"
  shows "fst (deliver (handshake_chunks Flooding tok) c) = handshake_chunks Flooding tok"
proof -
  have l: "length (handshake_fields Flooding tok) = 6" by (simp add: handshake_fields_def Let_def)
  have "handshake_chunks Flooding tok = map (\<lambda>(i, D). (NET_CHUNKFLAG_VITAL, D, int i))
      (enumerate (Suc 0) (map (\<lambda>fs. concat (map field_bytes fs)) (handshake_fields Flooding tok)))"
    by (rule nth_equalityI) (simp_all add: handshake_chunks_def nth_enumerate_eq)
  then show ?thesis using deliver_numbered [of c 0 "map (\<lambda>fs. concat (map field_bytes fs)) (handshake_fields Flooding tok)"] assms l by simp
qed

text \<open>A connection whose packet under construction is that of the handshake.\<close>

definition handshake_sender :: "bool \<Rightarrow> i32 \<Rightarrow> CNetConnection" where
  "handshake_sender Flooding tok = idle_conn\<lparr>c_SecurityToken := NET_SECURITY_TOKEN_UNSUPPORTED,
     c_Construct := \<lparr>p_Flags = 0, p_Ack = 0, p_NumChunks = 6, p_aChunkData = pack_all False (handshake_chunks Flooding tok), p_aExtraData = []\<rparr>\<rparr>"

lemma SendMsgs_handshake:
  "SendMsgs addr (preconn_msgs Flooding tok) n =
     net_send (SendPacket addr ((c_Construct (handshake_sender Flooding tok))\<lparr>p_Ack := 0\<rparr>) NET_SECURITY_TOKEN_UNSUPPORTED False False) n"
  unfolding SendMsgs_def handshake_packet by (simp add: handshake_sender_def)

section \<open>The answer of the client\<close>

lemma GetInt_field:
  "m_Data u = pre @ packed i @ post \<Longrightarrow> m_Current u = length pre \<Longrightarrow> \<not> m_UError u \<Longrightarrow>
     GetInt u = (i, u\<lparr>m_Current := length (pre @ packed i)\<rparr>)"
  using get_field_clean [of "FInt i" u pre post] by (auto split: prod.splits)

lemma echo_input:
  assumes "F AND NET_CHUNKFLAG_VITAL \<noteq> 0 \<longrightarrow> 0 \<le> S \<and> S < NET_MAX_SEQUENCE" "0 \<le> F" "F < 4"
    "Data = packed (sys_id NETMSG_INPUT) @ packed tok @ rest" "length Data < 1024"
    "rp_Mem p = pack_chunk False F Data S @ stale"
  shows "preconn_input p = Some tok"
proof -
  obtain Seq where u: "ChunkHeader_Unpack (rp_Mem p) 4 = (\<lparr>h_Flags = F, h_Size = int (length Data), h_Sequence = Seq\<rparr>, Data @ stale)"
    using unpack_pack_one [of False F Data S stale] assms by (auto simp: is_vital_def)
  have "drop_bit 1 (sint (sys_id NETMSG_INPUT)) = NETMSG_INPUT" by (simp add: sys_id_def NETMSG_INPUT_def)
  moreover have "GetInt (Unpacker_Reset Data) = (sys_id NETMSG_INPUT, (Unpacker_Reset Data)\<lparr>m_Current := length (packed (sys_id NETMSG_INPUT))\<rparr>)"
    using GetInt_field [of "Unpacker_Reset Data" "[]" "sys_id NETMSG_INPUT" "packed tok @ rest"] assms(4)
    by (simp add: Unpacker_Reset_def)
  moreover have "fst (GetInt ((Unpacker_Reset Data)\<lparr>m_Current := length (packed (sys_id NETMSG_INPUT))\<rparr>)) = tok"
    using GetInt_field [of "(Unpacker_Reset Data)\<lparr>m_Current := length (packed (sys_id NETMSG_INPUT))\<rparr>" "packed (sys_id NETMSG_INPUT)" tok rest]
      assms(4) by (simp add: Unpacker_Reset_def)
  ultimately show ?thesis using u by (simp add: preconn_input_def Let_def)
qed

section \<open>Properties\<close>

text \<open>A server and surroundings to state examples with: two clients, two per address, the token 5 for every address.\<close>

definition blank_server :: CNetServer where
  "blank_server = \<lparr>sv_Slots = replicate 64 idle_conn, sv_MaxClients = 0, sv_MaxClientsPerIp = 0, sv_Seed = [], sv_VConnFirst = 0,
     sv_VConnNum = 0, sv_SpamConns = [], sv_RecvUnpacker = \<lparr>u_Valid = False, u_Addr = zero_addr, u_CurrentChunk = 0, u_ClientId = -1,
       u_Data = \<lparr>rp_Flags = 0, rp_Ack = 0, rp_NumChunks = 0, rp_DataSize = 0, rp_Mem = []\<rparr>\<rparr>, sv_Events = []\<rparr>"

definition sample_server :: CNetServer where
  "sample_server = Server_Open [1, 2, 3] 2 2 blank_server"

definition sample_env :: sv_env where
  "sample_env = \<lparr>se_Config = \<lparr>g_Conn = \<lparr>g_ConnTimeout = 100, g_ConnTimeoutProtection = 1000\<rparr>, g_SvSixup = True, g_SvConnlimit = 5,
       g_SvConnlimitTime = 20, g_SvVanillaAntiSpoof = True, g_Password = [0], g_SvVanConnPerSecond = 10\<rparr>,
     se_Sha256 = (\<lambda>_. [0, 0, 0, 5]), se_Banned = (\<lambda>_. None)\<rparr>"

definition sample_addr :: NETADDR where
  "sample_addr = \<lparr>na_type = 1, na_ip = replicate 16 7, na_port = 8303\<rparr>"

text \<open>An accept message with the token.\<close>

definition sample_accept :: incoming where
  "sample_accept = \<lparr>i_Addr = sample_addr, i_Bytes = [0x10, 0, 0, 3, 0, 0, 0, 5], i_Stale = [], i_Stack = [], i_Token = 0\<rparr>"

lemma sample_server_reached: "server_reaches sample_env 2 (sample_server, quiet_net)"
  unfolding sample_server_def by (rule server_reaches.opened) (simp_all add: blank_server_def NET_MAX_CLIENTS_def)

lemma idle_Init: "c_State (Conn_Init b c) = OFFLINE" "c_PeerAddr (Conn_Init b c) = zero_addr"
  by (simp_all add: Conn_Init_def ResetStats_def ClearPeerAddr_def Conn_Reset_def Let_def)

lemma sample_server_fields [simp]:
  "sv_MaxClients sample_server = 2" "sv_MaxClientsPerIp sample_server = 2" "sv_Events sample_server = []"
  "sv_Slots sample_server = replicate 64 (Conn_Init True idle_conn)"
  "sv_SpamConns sample_server = replicate 16 \<lparr>sp_Addr = zero_addr, sp_Time = 0, sp_Conns = 0\<rparr>"
  by (simp_all add: sample_server_def Server_Open_def blank_server_def NET_MAX_CLIENTS_def NET_CONNLIMIT_IPS_def)

lemma sample_token: "GetToken sample_env sv addr = 5"
  by (simp add: GetToken_def sample_env_def ToSecurityToken_def bytes_be_to_uint_def)

lemma sample_type: "na_type sample_addr \<noteq> NETTYPE_WEBSOCKET_IPV4"
  by (simp add: sample_addr_def NETTYPE_WEBSOCKET_IPV4_def)

lemma sample_connlimit:
  "\<exists>sps n'. Connlimit sample_env sample_addr (sample_server\<lparr>sv_RecvUnpacker := u\<rparr>) quiet_net = (False, sample_server\<lparr>sv_RecvUnpacker := u, sv_SpamConns := sps\<rparr>, n')"
proof -
  have "net_addr_comp_noport zero_addr sample_addr" by (simp add: net_addr_comp_noport_def zero_addr_def sample_addr_def)
  then have loop: "connlimit_loop g sample_addr Now (replicate 16 \<lparr>sp_Addr = zero_addr, sp_Time = 0, sp_Conns = 0\<rparr>) is k =
      (False, (replicate 16 \<lparr>sp_Addr = zero_addr, sp_Time = 0, sp_Conns = 0\<rparr>)[k := \<lparr>sp_Addr = sample_addr, sp_Time = Now, sp_Conns = 1\<rparr>])"
    if "set is \<subseteq> {..<16}" "k < 16" for g Now "is" k
    using that by (induction "is") simp_all
  have "set [0..<16] \<subseteq> {..<16 :: nat}" by auto
  then show ?thesis by (simp add: Connlimit_def Let_def time_get_def NET_CONNLIMIT_IPS_def loop del: set_upt) blast
qed

lemma sample_accept_admitted:
  "\<exists>sv' n'. recv_datagram sample_env sample_accept 0 sample_server quiet_net = Some (None, 0, sv', n') \<and> sv_Events sv' = [New_client 0 False]"
proof -
  define p where "p = \<lparr>rp_Flags = 4, rp_Ack = 0, rp_NumChunks = 0, rp_DataSize = 5, rp_Mem = [3, 0, 0, 0, 5 :: u8]\<rparr>"
  define S where "S = sample_server\<lparr>sv_RecvUnpacker := (sv_RecvUnpacker sample_server)\<lparr>u_Data := p\<rparr>\<rparr>"
  obtain sps n' where cl: "Connlimit sample_env sample_addr S quiet_net = (False, S\<lparr>sv_SpamConns := sps\<rparr>, n')"
    using sample_connlimit [of "u_Data_update (\<lambda>_. p) (sv_RecvUnpacker sample_server)"] unfolding S_def by blast
  have off: "slot T i = Conn_Init True idle_conn" if "sv_Slots T = sv_Slots sample_server" "i < 64" for T i
    using that by (simp add: slot_def)
  have slots: "NumClientsWithAddr (S\<lparr>sv_SpamConns := sps\<rparr>) sample_addr = 0" "free_slot (S\<lparr>sv_SpamConns := sps\<rparr>) = Some 0"
    "GetClientSlot S sample_addr = -1"
    by (simp_all add: NumClientsWithAddr_def free_slot_def GetClientSlot_def S_def off counted_def has_addr_def idle_Init upt_rec)
  have events: "sv_Events S = []" "sv_MaxClientsPerIp S = 2" by (simp_all add: S_def)
  obtain c n2 where "DirectInit sample_addr 5 0 False (slot (S\<lparr>sv_SpamConns := sps\<rparr>) 0) n' = (c, n2)" by fastforce
  then obtain sv' where "TryAcceptClient sample_env sample_addr 5 False False 0 S quiet_net = (0, sv', n2)" "sv_Events sv' = [New_client 0 False]"
    using events by (simp add: TryAcceptClient_def cl slots Let_def callback_def)
  then have "OnTokenCtrlMsg sample_env sample_addr 3 p S quiet_net = (sv', n2) \<and> sv_Events sv' = [New_client 0 False]"
    using sample_type by (simp add: OnTokenCtrlMsg_def ClientExists_def slots sample_token Let_def p_def
        ToSecurityToken_def bytes_be_to_uint_def)
  moreover have "UnpackPacket (i_Bytes sample_accept) False (Some 0) (Some 0) = Unpacked \<lparr>r_Packet = \<lparr>p_Flags = 4, p_Ack = 0,
      p_NumChunks = 0, p_aChunkData = [3, 0, 0, 0, 5], p_aExtraData = []\<rparr>, r_Sixup = False, r_SecurityToken = Some 0, r_ResponseToken = Some 0\<rparr>"
    by (simp add: sample_accept_def UnpackPacket_def unpack_connected_def unpack_body_def Let_def)
  moreover have "i_Addr sample_accept = sample_addr" "i_Stale sample_accept = []" "i_Token sample_accept = 0" "se_Banned sample_env sample_addr = None"
    by (simp_all add: sample_accept_def sample_env_def)
  moreover have "in_memory \<lparr>p_Flags = 4, p_Ack = 0, p_NumChunks = 0, p_aChunkData = [3, 0, 0, 0, 5], p_aExtraData = []\<rparr> [] = p"
    "rp_Flags p = 4" "rp_DataSize p = 5" "rp_Mem p = [3, 0, 0, 0, 5]"
    by (simp_all add: in_memory_def p_def)
  ultimately show ?thesis
    by (simp add: recv_datagram_def recv_connected_def Let_def S_def [symmetric] slots IsDDNetControlMsg_def)
qed

text \<open>
  C5: Every operation of a server that was opened returns, in every state that its operations lead to: the
  receive loop with any datagrams from any addresses, the update, sending, dropping and moving clients,
  as long as the game uses client ids in range. No loop runs forever, no assertion fails and no null
  pointer is followed.
\<close>

theorem server_operations_return:
  assumes "server_reaches e L (sv, n)" "op_ok L sv op"
  shows "\<exists>sv' n'. server_do e op (sv, n) = Some (sv', n') \<and> server_reaches e L (sv', n')"
proof -
  have "sv_inv L sv" using server_reaches_inv [OF assms(1)] by simp
  from server_do_inv [OF this assms(2), of e n] obtain sv' n' where r: "server_do e op (sv, n) = Some (sv', n')" by blast
  with server_reaches.step [OF assms(1)] assms(2) show ?thesis by auto
qed

theorem server_operations_return_witness:
  "\<exists>sv' n'. server_do sample_env (Do_Recv [sample_accept] 0) (sample_server, quiet_net) = Some (sv', n') \<and>
     server_reaches sample_env 2 (sv', n')"
  using server_operations_return [OF sample_server_reached, of "Do_Recv [sample_accept] 0"] by simp

text \<open>
  C9: In every state of a server at most \<open>L\<close> slots count for one address, where \<open>L\<close> bounds the limits that
  were set, and no two clients in use have the same address and port.
\<close>

theorem clients_per_address:
  assumes "server_reaches e L (sv, n)"
  shows "NumClientsWithAddr sv addr \<le> L \<and>
    (\<forall>i < sv_MaxClients sv. \<forall>j < sv_MaxClients sv. has_addr a (slot sv i) \<and> has_addr a (slot sv j) \<longrightarrow> i = j)"
  using server_reaches_inv [OF assms] unfolding sv_inv_def fst_conv by blast

theorem clients_per_address_witness:
  "\<exists>sv' n'. recv_datagram sample_env sample_accept 0 sample_server quiet_net = Some (None, 0, sv', n') \<and>
     sv_Events sv' = [New_client 0 False] \<and> NumClientsWithAddr sample_server sample_addr \<le> 2"
  using sample_accept_admitted clients_per_address [OF sample_server_reached, of sample_addr] by blast

text \<open>
  C6: With the protection against spoofed addresses, a datagram makes the server tell the game about a new
  client only if it shows the token of the address it comes from, or if the address is a websocket address
  (these have no tokens: the code trusts the websocket library for them) and the datagram a control message
  of DDNet; and only if the address is not banned, and there is a free slot and room under the limit for the
  address. The slot is then connected to this address. Otherwise the game is told nothing, or that a client
  in use rejoins.
\<close>

theorem only_proven_addresses_enter:
  assumes "server_reaches e L (sv, n)" "recv_datagram e d rt sv n = Some (res, rt', sv', n')"
    "anti_spoof e"
  shows "sv_Events sv' = sv_Events sv \<or> rejoins e (i_Addr d) sv sv' \<or>
    admits (i_Addr d) sv sv' \<and> (shows_token e sv d rt \<or> websocket_knock d rt) \<and> se_Banned e (i_Addr d) = None"
proof (cases "se_Banned e (i_Addr d)")
  case None
  show ?thesis
  proof (cases "UnpackPacket (i_Bytes d) False (Some (i_Token d)) (Some rt)")
    case (Unpacked r)
    define p where "p = in_memory (r_Packet r) (i_Stale d)"
    define sv1 where "sv1 = sv\<lparr>sv_RecvUnpacker := (sv_RecvUnpacker sv)\<lparr>u_Data := p\<rparr>\<rparr>"
    have sv1: "sv_Slots sv1 = sv_Slots sv" "sv_MaxClients sv1 = sv_MaxClients sv" "sv_MaxClientsPerIp sv1 = sv_MaxClientsPerIp sv"
      "sv_Events sv1 = sv_Events sv" "sv_Seed sv1 = sv_Seed sv"
      by (simp_all add: sv1_def)
    have len: "length (sv_Slots sv1) = NET_MAX_CLIENTS" "sv_MaxClients sv1 \<le> NET_MAX_CLIENTS"
      using server_reaches_inv [OF assms(1)] sv1 by (simp_all add: sv_inv_def)
    have "sv' = sv1 \<or> recv_connected e d r p (the (r_SecurityToken r)) (the (r_ResponseToken r)) sv1 n = Some (res, rt', sv', n')"
      using assms(2) None Unpacked by (auto simp: recv_datagram_def Let_def p_def [symmetric] sv1_def [symmetric] split: if_splits)
    moreover have tok: "GetToken e sv1 = GetToken e sv" "GetVanillaToken e sv1 = GetVanillaToken e sv"
      by (simp_all add: fun_eq_iff GetToken_def GetVanillaToken_def sv1(5))
    moreover have "shows_token e sv1 d rt = shows_token e sv d rt" unfolding shows_token_def tok by (rule refl)
    moreover have "rejoins e (i_Addr d) sv1 sv' = rejoins e (i_Addr d) sv sv'"
      by (simp add: rejoins_def slot_def sv1(1,4))
    ultimately show ?thesis
      using recv_connected_events [OF len Unpacked p_def _ assms(3), of n res rt' sv' n'] admits_cong [OF sv1(1-4), of "i_Addr d" sv'] sv1(4) None
      by (elim disjE) simp_all
  qed (use assms(2) None in \<open>auto simp: recv_datagram_def\<close>)
qed (use assms(2) in \<open>simp add: recv_datagram_def\<close>)

theorem only_proven_addresses_enter_witness:
  "\<exists>sv' n'. recv_datagram sample_env sample_accept 0 sample_server quiet_net = Some (None, 0, sv', n') \<and>
     admits sample_addr sample_server sv' \<and> shows_token sample_env sample_server sample_accept 0"
proof -
  obtain sv' n' where r: "recv_datagram sample_env sample_accept 0 sample_server quiet_net = Some (None, 0, sv', n')"
    "sv_Events sv' = [New_client 0 False]"
    using sample_accept_admitted by blast
  have "anti_spoof sample_env" "i_Addr sample_accept = sample_addr" by (simp_all add: anti_spoof_def sample_env_def sample_accept_def)
  with only_proven_addresses_enter [OF sample_server_reached r(1)] sample_type r show ?thesis by (auto simp: rejoins_def websocket_knock_def)
qed

text \<open>
  C22: The packet with which the server answers a client without tokens fits, and reaches it: a client that
  has taken no chunk yet receives the six messages of the handshake in order, the last three of which
  carry the token and its successor.
\<close>

theorem handshake_delivered:
  assumes "\<not> c_Sixup rc" "\<not> uses_token rc" "src = c_PeerAddr rc" "c_Ack rc = 0" "\<not> c_UnknownSeq rc"
  shows "\<exists>d r c'. n_Sent (SendMsgs addr (preconn_msgs Flooding tok) n) = n_Sent n @ [d] \<and>
    UnpackPacket (snd d) False (Some t0) (Some r0) = Unpacked r \<and>
    length (concat (map m_Written (preconn_msgs Flooding tok))) < NET_MAX_PAYLOAD \<and>
    fetch_all (started (in_memory (r_Packet r) stale) src rc) (Some rc) =
      (map (\<lambda>fs. (NET_CHUNKFLAG_VITAL, concat (map field_bytes fs))) (handshake_fields Flooding tok), Some c')"
proof -
  let ?c = "handshake_sender Flooding tok" and ?cs = "handshake_chunks Flooding tok" and ?fss = "handshake_fields Flooding tok"
  have c: "c_Sixup ?c = False" "c_SecurityToken ?c = NET_SECURITY_TOKEN_UNSUPPORTED" "c_Ack ?c = 0"
    "p_Flags (c_Construct ?c) = 0" "p_aChunkData (c_Construct ?c) = pack_all False ?cs" "p_NumChunks (c_Construct ?c) = 6"
    "seqs_ok ?c"
    by (simp_all add: handshake_sender_def seqs_ok_def)
  have built: "built ?c ?cs" using c(1,5,6) handshake_packet(3) by (simp add: built_def)
  have fits: "length (p_aChunkData (c_Construct ?c)) + 4 \<le> NET_MAX_PAYLOAD"
    using handshake_fits(1) [of Flooding tok] unfolding c(5) by simp
  obtain r where r: "UnpackPacket (snd (SendPacket addr ((c_Construct ?c)\<lparr>p_Ack := 0\<rparr>) NET_SECURITY_TOKEN_UNSUPPORTED False False)) False (Some t0) (Some r0) = Unpacked r"
    "fetch_all (started (in_memory (r_Packet r) stale) src rc) (Some rc) = (without_seq (fst (deliver ?cs rc)), Some (snd (deliver ?cs rc)))"
    using packet_delivered [OF built _ _ fits _ c(7), of rc src addr t0 r0 stale] handshake_fits(2) [of Flooding tok]
      handshake_packet(3) [of Flooding tok] assms(1-3) c(1-4) by auto
  have "map m_Written (preconn_msgs Flooding tok) = map (\<lambda>fs. concat (map field_bytes fs)) ?fss"
    unfolding preconn_msgs_fields map_map using handshake_written [of _ Flooding tok] by (intro map_cong) simp_all
  moreover have "length (concat (map (\<lambda>fs. concat (map field_bytes fs)) ?fss)) < NET_MAX_PAYLOAD"
    using handshake_sizes(3) [of Flooding tok] by (simp add: length_concat comp_def)
  moreover have "without_seq ?cs = map (\<lambda>fs. (NET_CHUNKFLAG_VITAL, concat (map field_bytes fs))) ?fss"
    by (rule nth_equalityI) (simp_all add: without_seq_def handshake_chunks_def nth_enumerate_eq)
  ultimately show ?thesis
    using r handshake_taken [OF assms(4,5), of Flooding tok] unfolding SendMsgs_handshake
    by (auto simp: net_send_def)
qed

theorem handshake_delivered_witness:
  "\<exists>d r c'. n_Sent (SendMsgs sample_addr (preconn_msgs False 77) quiet_net) = [d] \<and>
    UnpackPacket (snd d) False (Some 0) (Some 0) = Unpacked r \<and>
    fetch_all (started (in_memory (r_Packet r) []) zero_addr idle_conn) (Some idle_conn) =
      (map (\<lambda>fs. (NET_CHUNKFLAG_VITAL, concat (map field_bytes fs))) (handshake_fields False 77), Some c')"
proof -
  have "n_Sent quiet_net = []" "\<not> uses_token idle_conn" by (simp_all add: quiet_net_def uses_token_def)
  with handshake_delivered [of idle_conn zero_addr sample_addr False 77 quiet_net 0 0 "[]"] show ?thesis
    unfolding idle_conn_fields by (metis append_Nil)
qed

text \<open>
  A client that echoes the token of its address in the first field of an input message (whatever
  follows it, in one chunk of any kind) is not turned away: the server then does exactly what it does
  to admit a client without tokens.
\<close>

theorem echo_is_accepted:
  assumes "anti_spoof e" "rp_Flags p AND NET_PACKETFLAG_CONTROL = 0"
    "rp_Mem p = pack_chunk False F (packed (sys_id NETMSG_INPUT) @ packed (GetVanillaToken e sv addr) @ rest) S @ stale"
    "0 \<le> F" "F < 4" "0 \<le> S" "S < NET_MAX_SEQUENCE" "length rest < 1000"
  shows "OnPreConnMsg e addr p sv n = snd (TryAcceptClient e addr NET_SECURITY_TOKEN_UNSUPPORTED True False 0 sv n)"
proof -
  have "length (packed (sys_id NETMSG_INPUT) @ packed (GetVanillaToken e sv addr) @ rest) < 1024"
    using packed_le [of "sys_id NETMSG_INPUT"] packed_le [of "GetVanillaToken e sv addr"] assms(8) by simp
  then have "preconn_input p = Some (GetVanillaToken e sv addr)"
    using echo_input [of F S _ "GetVanillaToken e sv addr" rest p stale] assms(3-7) by blast
  then show ?thesis using assms(1,2) by (simp add: OnPreConnMsg_def)
qed

theorem echo_is_accepted_witness:
  "OnPreConnMsg sample_env sample_addr
     \<lparr>rp_Flags = 0, rp_Ack = 0, rp_NumChunks = 1, rp_DataSize = 5,
      rp_Mem = pack_chunk False 1 (packed (sys_id NETMSG_INPUT) @ packed (GetVanillaToken sample_env sample_server sample_addr) @ []) 7 @ []\<rparr>
     sample_server quiet_net =
   snd (TryAcceptClient sample_env sample_addr NET_SECURITY_TOKEN_UNSUPPORTED True False 0 sample_server quiet_net)"
  by (rule echo_is_accepted [where F = 1 and S = 7 and rest = "[]" and stale = "[]"]) (simp_all add: anti_spoof_def sample_env_def)

text \<open>
  When a timed-out client is taken over by a new connection, the chunks the old buffer keeps for
  resending fit into the new one, so \<open>Allocate\<close> never returns the null pointer that the code does not
  check: they are moved in order, and the sequence numbers go on where they were.
\<close>

theorem moved_chunks:
  assumes "conn_ok orig" "conn_ok c"
  shows "\<exists>rb c' n' q q'. Conn_SetTimedOut addr (c_Sequence orig) (c_Ack orig) tok (c_Buffer orig) (c_Resends orig) sixup c n = Some (rb, c', n') \<and>
    conn_ok c' \<and> c_State c' = ONLINE \<and> c_PeerAddr c' = addr \<and> c_Sequence c' = c_Sequence orig \<and> c_Ack c' = c_Ack orig \<and>
    RingBuffer.items (c_Buffer orig) = Some q \<and> RingBuffer.items (c_Buffer c') = Some q' \<and> map (c_Resends c') q' = map (c_Resends orig) q"
proof -
  have i: "RingBuffer.items (c_Buffer x) = Some q" if "buffer_ok x q" for x q
    using that items_queue by (simp add: buffer_ok_def conn_queue_def)
  obtain rb c' n' q q' where s: "Conn_SetTimedOut addr (c_Sequence orig) (c_Ack orig) tok (c_Buffer orig) (c_Resends orig) sixup c n = Some (rb, c', n')"
    "conn_ok c'" "c_State c' = ONLINE" "c_PeerAddr c' = addr" "c_Sequence c' = c_Sequence orig" "c_Ack c' = c_Ack orig"
    "buffer_ok orig q" "buffer_ok c' q'" "map (c_Resends c') q' = map (c_Resends orig) q"
    using Conn_SetTimedOut_returns [OF assms, of addr tok sixup n] by (elim exE conjE)
  show ?thesis using s(1-6,9) i [OF s(7)] i [OF s(8)] by (intro exI conjI)
qed

text \<open>A connection that keeps one chunk.\<close>

definition one_kept :: CNetConnection where
  "one_kept = (case QueueChunk NET_CHUNKFLAG_VITAL [1, 2, 3] (idle_conn\<lparr>c_State := ONLINE\<rparr>) quiet_net of
     Some (_, c, _) \<Rightarrow> c | None \<Rightarrow> idle_conn)"

lemma one_kept_ok: "conn_ok one_kept"
proof -
  have "conn_ok (idle_conn\<lparr>c_State := ONLINE\<rparr>)" using conn_ok_cong [of "idle_conn\<lparr>c_State := ONLINE\<rparr>" idle_conn] idle_conn_ok by simp
  from QueueChunk_ok [OF this, of NET_CHUNKFLAG_VITAL "[1, 2, 3]" quiet_net] show ?thesis by (auto simp: one_kept_def)
qed

lemma one_kept_keeps: "\<exists>i. RingBuffer.items (c_Buffer one_kept) = Some [i]"
proof -
  let ?c = "idle_conn\<lparr>c_State := ONLINE, c_Sequence := 1\<rparr>" and ?D = "[1, 2, 3] :: u8 list"
  obtain rb0 where b: "c_Buffer ?c = RingBuffer_Init NET_CONN_BUFFERSIZE False rb0"
    by (auto simp: idle_conn_def Conn_Init_def ResetStats_def ClearPeerAddr_def Conn_Reset_def Let_def)
  have f: "filled (c_Buffer ?c) [] 0" unfolding b by (rule Init_filled) (simp add: NET_CONN_BUFFERSIZE_def ITEM_SIZE_def)
  have room: "0 + wanted_size (RESEND_SIZE + length ?D) \<le> rb_Size (c_Buffer ?c)" "0 < RESEND_SIZE + length ?D" "\<not> rb_Recycle (c_Buffer ?c)"
    unfolding b by (simp_all add: wanted_size_def RESEND_SIZE_def ITEM_SIZE_def RingBuffer_Init_def RingBuffer_Clear_def NET_CONN_BUFFERSIZE_def)
  obtain i rb where al: "Allocate (c_Buffer ?c) (RESEND_SIZE + length ?D) = Some (Some i, rb)" "filled rb ([] @ [i]) (0 + wanted_size (RESEND_SIZE + length ?D))"
    by (rule filled_allocate [OF f room], rule that, assumption+)
  have fl: "after_flush ?D ?c quiet_net = (?c, quiet_net)"
    by (simp add: after_flush_def room_for_def empty_construct_def)
  have q: "c_Buffer (queued NET_CHUNKFLAG_VITAL ?D 1 ?c) = c_Buffer ?c" by (simp add: queued_def)
  have "QueueChunk NET_CHUNKFLAG_VITAL ?D (idle_conn\<lparr>c_State := ONLINE\<rparr>) quiet_net = QueueChunkEx NET_CHUNKFLAG_VITAL ?D 1 ?c quiet_net"
    by (simp add: QueueChunk_def Let_def)
  also have "\<dots> = save_chunk NET_CHUNKFLAG_VITAL ?D 1 (queued NET_CHUNKFLAG_VITAL ?D 1 ?c) quiet_net"
    using QueueChunkEx_unfold [of ?c ?D quiet_net ?c quiet_net NET_CHUNKFLAG_VITAL 1] fl by simp
  finally have "c_Buffer one_kept = rb"
    using al(1) q by (simp add: one_kept_def save_chunk_def Let_def time_get_def)
  then show ?thesis using items_queue [OF filled_queue [OF al(2)]] by simp
qed

theorem moved_chunks_witness:
  "\<exists>rb c' n' q q'. Conn_SetTimedOut sample_addr (c_Sequence one_kept) (c_Ack one_kept) 5 (c_Buffer one_kept) (c_Resends one_kept) False idle_conn quiet_net
     = Some (rb, c', n') \<and> RingBuffer.items (c_Buffer c') = Some [q'] \<and> c_Resends c' q' = c_Resends one_kept q"
proof -
  obtain i where i: "RingBuffer.items (c_Buffer one_kept) = Some [i]" using one_kept_keeps by blast
  from moved_chunks [OF one_kept_ok idle_conn_ok, of sample_addr 5 False quiet_net] obtain rb c' n' q q' where
    "Conn_SetTimedOut sample_addr (c_Sequence one_kept) (c_Ack one_kept) 5 (c_Buffer one_kept) (c_Resends one_kept) False idle_conn quiet_net
     = Some (rb, c', n')" "RingBuffer.items (c_Buffer one_kept) = Some q" "RingBuffer.items (c_Buffer c') = Some q'"
    "map (c_Resends c') q' = map (c_Resends one_kept) q"
    by (elim exE conjE)
  with i show ?thesis by auto
qed

end
