(* ===== verification/NetBanSafe.thy ===== *)
theory NetBanSafe
  imports NetBanLookup NetServerSafe
begin

text \<open>
  What the operations on the bans mean for lists of bans, that they do so after any sequence of them, and
  what this gives for a server that checks the bans first.
\<close>

section \<open>The operations and what they mean\<close>

datatype ban_op =
    Op_BanAddr NETADDR int "u8 list" bool
  | Op_BanRange CNetRange int "u8 list"
  | Op_UnbanAddr NETADDR
  | Op_UnbanRange CNetRange
  | Op_UnbanIndex int
  | Op_UnbanAll
  | Op_Update

fun netban_do :: "int \<Rightarrow> ban_op \<Rightarrow> CNetBan \<Rightarrow> (int \<times> CNetBan) option" where
  "netban_do Now (Op_BanAddr d Seconds pReason verb) nb = BanAddr Now d Seconds pReason verb nb"
| "netban_do Now (Op_BanRange r Seconds pReason) nb = BanRange Now r Seconds pReason nb"
| "netban_do Now (Op_UnbanAddr d) nb = UnbanByAddr d nb"
| "netban_do Now (Op_UnbanRange r) nb = UnbanByRange r nb"
| "netban_do Now (Op_UnbanIndex Index) nb = Some (UnbanByIndex Index nb)"
| "netban_do Now Op_UnbanAll nb = Some (0, UnbanAll nb)"
| "netban_do Now Op_Update nb = map_option (\<lambda>nb. (0, nb)) (NetBan_Update Now nb)"

text \<open>An address has 16 bytes in the code whatever its type.\<close>

fun op_valid :: "ban_op \<Rightarrow> bool" where
  "op_valid (Op_BanAddr d _ _ _) \<longleftrightarrow> valid_addr d"
| "op_valid (Op_BanRange r _ _) \<longleftrightarrow> valid_addr (m_LB r) \<and> valid_addr (m_UB r)"
| "op_valid (Op_UnbanAddr d) \<longleftrightarrow> valid_addr d"
| "op_valid (Op_UnbanRange r) \<longleftrightarrow> valid_addr (m_LB r) \<and> valid_addr (m_UB r)"
| "op_valid _ \<longleftrightarrow> True"

type_synonym bans = "(NETADDR \<times> CBanInfo) list \<times> (CNetRange \<times> CBanInfo) list"

definition ban_info :: "int \<Rightarrow> int \<Rightarrow> u8 list \<Rightarrow> bool \<Rightarrow> CBanInfo" where
  "ban_info Now Seconds pReason verb =
     \<lparr>m_Expires = (if Seconds > 0 then Now + Seconds else EXPIRES_NEVER), m_aReason = str_copy pReason REASON_LENGTH, m_VerbatimReason = verb\<rparr>"

definition same_range :: "CNetRange \<Rightarrow> CNetRange \<Rightarrow> bool" where
  "same_range r s \<longleftrightarrow> na_type (m_LB r) = na_type (m_LB s) \<and> addr_number (m_LB r) = addr_number (m_LB s) \<and>
     addr_number (m_UB r) = addr_number (m_UB s)"

definition proper_range :: "CNetRange \<Rightarrow> bool" where
  "proper_range r \<longleftrightarrow> na_type (m_LB r) = na_type (m_UB r) \<and> addr_number (m_LB r) < addr_number (m_UB r)"

definition remove_nth :: "nat \<Rightarrow> 'b list \<Rightarrow> 'b list" where
  "remove_nth n xs = take n xs @ drop (Suc n) xs"

text \<open>What an operation means for the bans in force; nothing bans the addresses of localhost.\<close>

fun bans_do :: "NETADDR \<Rightarrow> NETADDR \<Rightarrow> int \<Rightarrow> ban_op \<Rightarrow> bans \<Rightarrow> int \<times> bans" where
  "bans_do l4 l6 Now (Op_BanAddr d Seconds pReason verb) (A, R) =
     (if covers_addr d l4 \<or> covers_addr d l6 then (-1, (A, R))
      else apsnd (\<lambda>A. (A, R)) (ban_spec covers_addr d (ban_info Now Seconds pReason verb) A))"
| "bans_do l4 l6 Now (Op_BanRange r Seconds pReason) (A, R) =
     (if \<not> proper_range r \<or> covers_range r l4 \<or> covers_range r l6 then (-1, (A, R))
      else apsnd (\<lambda>R. (A, R)) (ban_spec same_range r (ban_info Now Seconds pReason False) R))"
| "bans_do l4 l6 Now (Op_UnbanAddr d) (A, R) = apsnd (\<lambda>A. (A, R)) (unban_spec covers_addr d A)"
| "bans_do l4 l6 Now (Op_UnbanRange r) (A, R) =
     (if proper_range r then apsnd (\<lambda>R. (A, R)) (unban_spec same_range r R) else (-1, (A, R)))"
| "bans_do l4 l6 Now (Op_UnbanIndex i) (A, R) =
     (if 0 \<le> i \<and> i < int (length A) then (0, (remove_nth (nat i) A, R))
      else if int (length A) \<le> i \<and> i < int (length A) + int (length R) then (0, (A, remove_nth (nat i - length A) R))
      else (-1, (A, R)))"
| "bans_do l4 l6 Now Op_UnbanAll (A, R) = (0, ([], []))"
| "bans_do l4 l6 Now Op_Update (A, R) = (0, (filter (\<lambda>b. \<not> gone Now b) A, filter (\<lambda>b. \<not> gone Now b) R))"

lemma ban_spec_cong: "(\<And>b. b \<in> set bs \<Longrightarrow> same (fst b) d = same' (fst b) d) \<Longrightarrow> ban_spec same d info bs = ban_spec same' d info bs"
proof -
  assume eq: "\<And>b. b \<in> set bs \<Longrightarrow> same (fst b) d = same' (fst b) d"
  have "find (\<lambda>b. same (fst b) d) bs = find (\<lambda>b. same' (fst b) d) bs" by (rule find_cong) (simp_all add: eq)
  moreover have "filter (\<lambda>b. \<not> same (fst b) d) bs = filter (\<lambda>b. \<not> same' (fst b) d) bs" by (rule filter_cong) (simp_all add: eq)
  ultimately show ?thesis by (simp only: ban_spec_def)
qed

lemma unban_spec_cong: "(\<And>b. b \<in> set bs \<Longrightarrow> same (fst b) d = same' (fst b) d) \<Longrightarrow> unban_spec same d bs = unban_spec same' d bs"
  by (simp add: unban_spec_def cong: filter_cong)

lemma Range_IsValid_proper:
  assumes "valid_addr (m_LB r)" "valid_addr (m_UB r)"
  shows "Range_IsValid r \<longleftrightarrow> proper_range r" "valid_range r \<longleftrightarrow> proper_range r"
proof -
  show "Range_IsValid r \<longleftrightarrow> proper_range r"
  proof (cases "na_type (m_LB r) = na_type (m_UB r)")
    case True
    note l = addr_length_type [OF True]
    have "mem_comp (take (addr_length (m_LB r)) (na_ip (m_LB r))) (take (addr_length (m_LB r)) (na_ip (m_UB r))) < 0 \<longleftrightarrow>
      addr_number (m_LB r) < addr_number (m_UB r)"
      using assms unfolding addr_number_def l by (subst mem_comp_value) (auto simp: valid_addr_def sgn_if)
    then show ?thesis using True assms by (simp add: Range_IsValid_def proper_range_def NetComp_parts)
  qed (simp add: Range_IsValid_def proper_range_def)
  then show "valid_range r \<longleftrightarrow> proper_range r" using assms by (simp add: valid_range_def)
qed

lemma same_range_kind: "valid_range r \<Longrightarrow> valid_range s \<Longrightarrow> k_same range_kind r s \<longleftrightarrow> same_range r s"
  by (simp add: range_kind_def NetComp_range_same same_range_def)

lemma same_addr_kind: "valid_addr r \<Longrightarrow> valid_addr s \<Longrightarrow> k_same addr_kind r s \<longleftrightarrow> covers_addr r s"
  by (simp add: same_addr covers_addr_def)

lemma netban_showsE:
  assumes "netban_shows nb (A, R)"
  obtains "pool_shows addr_kind valid_addr (nb_AddrPool nb) A" "pool_shows range_kind valid_range (nb_RangePool nb) R"
    "valid_addr (nb_LocalhostIpV4 nb)" "valid_addr (nb_LocalhostIpV6 nb)"
  using assms by (simp add: netban_shows_def)

definition same_localhost :: "CNetBan \<Rightarrow> CNetBan \<Rightarrow> bool" where
  "same_localhost nb nb' \<longleftrightarrow> nb_LocalhostIpV4 nb' = nb_LocalhostIpV4 nb \<and> nb_LocalhostIpV6 nb' = nb_LocalhostIpV6 nb"

lemma BanAddr_refines:
  assumes "netban_shows nb (A, R)" "valid_addr d"
  shows "\<exists>nb'. BanAddr Now d Seconds pReason verb nb = Some (fst (bans_do (nb_LocalhostIpV4 nb) (nb_LocalhostIpV6 nb) Now (Op_BanAddr d Seconds pReason verb) (A, R)), nb') \<and>
    netban_shows nb' (snd (bans_do (nb_LocalhostIpV4 nb) (nb_LocalhostIpV6 nb) Now (Op_BanAddr d Seconds pReason verb) (A, R))) \<and> same_localhost nb nb'"
proof -
  from assms(1) have p: "pool_shows addr_kind valid_addr (nb_AddrPool nb) A" "pool_shows range_kind valid_range (nb_RangePool nb) R"
    and v: "valid_addr (nb_LocalhostIpV4 nb)" "valid_addr (nb_LocalhostIpV6 nb)" by (auto elim: netban_showsE)
  have m: "k_matches addr_kind d (nb_LocalhostIpV4 nb) \<longleftrightarrow> covers_addr d (nb_LocalhostIpV4 nb)"
    "k_matches addr_kind d (nb_LocalhostIpV6 nb) \<longleftrightarrow> covers_addr d (nb_LocalhostIpV6 nb)"
    using v assms(2) by (simp_all add: addr_kind_def NetMatch_covers)
  show ?thesis
  proof (cases "covers_addr d (nb_LocalhostIpV4 nb) \<or> covers_addr d (nb_LocalhostIpV6 nb)")
    case True
    then have "BanAddr Now d Seconds pReason verb nb = Some (-1, nb\<lparr>nb_AddrPool := nb_AddrPool nb\<rparr>)"
      by (simp add: BanAddr_def addr_bans.Ban_localhost m)
    then show ?thesis using True assms(1) by (simp add: same_localhost_def)
  next
    case False
    let ?s = "ban_spec covers_addr d (ban_info Now Seconds pReason verb) A"
    have s: "ban_spec (k_same addr_kind) d (ban_info Now Seconds pReason verb) A = ?s"
      using pool_shows_facts(3) [OF p(1)] assms(2) by (intro ban_spec_cong) (simp add: same_addr_kind)
    have "\<not> (k_matches addr_kind d (nb_LocalhostIpV4 nb) \<or> k_matches addr_kind d (nb_LocalhostIpV6 nb))" using False m by simp
    from addr_bans.Ban_refines [OF p(1) assms(2) this ban_info_def, of Now Seconds pReason verb]
    obtain P' where "Ban addr_kind (nb_LocalhostIpV4 nb) (nb_LocalhostIpV6 nb) Now d Seconds pReason verb (nb_AddrPool nb) = Some (fst ?s, P')"
      "pool_shows addr_kind valid_addr P' (snd ?s)" unfolding s by blast
    then show ?thesis using False p v by (simp add: BanAddr_def netban_shows_def same_localhost_def)
  qed
qed

lemma BanRange_refines:
  assumes "netban_shows nb (A, R)" "valid_addr (m_LB d)" "valid_addr (m_UB d)"
  shows "\<exists>nb'. BanRange Now d Seconds pReason nb = Some (fst (bans_do (nb_LocalhostIpV4 nb) (nb_LocalhostIpV6 nb) Now (Op_BanRange d Seconds pReason) (A, R)), nb') \<and>
    netban_shows nb' (snd (bans_do (nb_LocalhostIpV4 nb) (nb_LocalhostIpV6 nb) Now (Op_BanRange d Seconds pReason) (A, R))) \<and> same_localhost nb nb'"
proof -
  from assms(1) have p: "pool_shows addr_kind valid_addr (nb_AddrPool nb) A" "pool_shows range_kind valid_range (nb_RangePool nb) R"
    and v: "valid_addr (nb_LocalhostIpV4 nb)" "valid_addr (nb_LocalhostIpV6 nb)" by (auto elim: netban_showsE)
  show ?thesis
  proof (cases "proper_range d")
    case False
    then show ?thesis using Range_IsValid_proper(1) [OF assms(2,3)] assms(1) by (simp add: BanRange_def same_localhost_def)
  next
    case proper: True
    then have d: "valid_range d" "Range_IsValid d" using Range_IsValid_proper [OF assms(2,3)] by simp_all
    have m: "k_matches range_kind d (nb_LocalhostIpV4 nb) \<longleftrightarrow> covers_range d (nb_LocalhostIpV4 nb)"
      "k_matches range_kind d (nb_LocalhostIpV6 nb) \<longleftrightarrow> covers_range d (nb_LocalhostIpV6 nb)"
      using v d by (simp_all add: range_kind_def NetMatch_range_covers)
    show ?thesis
    proof (cases "covers_range d (nb_LocalhostIpV4 nb) \<or> covers_range d (nb_LocalhostIpV6 nb)")
      case True
      then have "BanRange Now d Seconds pReason nb = Some (-1, nb\<lparr>nb_RangePool := nb_RangePool nb\<rparr>)"
        by (simp add: BanRange_def d range_bans.Ban_localhost m)
      then show ?thesis using True assms(1) by (simp add: same_localhost_def)
    next
      case False
      let ?s = "ban_spec same_range d (ban_info Now Seconds pReason False) R"
      have s: "ban_spec (k_same range_kind) d (ban_info Now Seconds pReason False) R = ?s"
        using pool_shows_facts(3) [OF p(2)] d by (intro ban_spec_cong) (simp add: same_range_kind)
      have "\<not> (k_matches range_kind d (nb_LocalhostIpV4 nb) \<or> k_matches range_kind d (nb_LocalhostIpV6 nb))" using False m by simp
      from range_bans.Ban_refines [OF p(2) d(1) this ban_info_def, of Now Seconds pReason False]
      obtain P' where "Ban range_kind (nb_LocalhostIpV4 nb) (nb_LocalhostIpV6 nb) Now d Seconds pReason False (nb_RangePool nb) = Some (fst ?s, P')"
        "pool_shows range_kind valid_range P' (snd ?s)" unfolding s by blast
      then show ?thesis using False proper p v d by (simp add: BanRange_def netban_shows_def same_localhost_def)
    qed
  qed
qed

lemma Unban_ops_refine:
  assumes "netban_shows nb (A, R)" "op_valid op" "op = Op_UnbanAddr d \<or> op = Op_UnbanRange r"
  shows "\<exists>nb'. netban_do Now op nb = Some (fst (bans_do l4 l6 Now op (A, R)), nb') \<and>
    netban_shows nb' (snd (bans_do l4 l6 Now op (A, R))) \<and> same_localhost nb nb'"
proof -
  from assms(1) have p: "pool_shows addr_kind valid_addr (nb_AddrPool nb) A" "pool_shows range_kind valid_range (nb_RangePool nb) R"
    and v: "valid_addr (nb_LocalhostIpV4 nb)" "valid_addr (nb_LocalhostIpV6 nb)" by (auto elim: netban_showsE)
  from assms(3) show ?thesis
  proof
    assume op: "op = Op_UnbanAddr d"
    then have d: "valid_addr d" using assms(2) by simp
    have s: "unban_spec (k_same addr_kind) d A = unban_spec covers_addr d A"
      using pool_shows_facts(3) [OF p(1)] d by (intro unban_spec_cong) (simp add: same_addr_kind)
    from addr_bans.Unban_refines [OF p(1) d] obtain P' where
      "Unban addr_kind d (nb_AddrPool nb) = Some (fst (unban_spec covers_addr d A), P')"
      "pool_shows addr_kind valid_addr P' (snd (unban_spec covers_addr d A))" unfolding s by blast
    then show ?thesis using p v by (simp add: op UnbanByAddr_def netban_shows_def same_localhost_def)
  next
    assume op: "op = Op_UnbanRange r"
    note proper = Range_IsValid_proper [of r]
    show ?thesis
    proof (cases "proper_range r")
      case False
      then show ?thesis using assms(1,2) proper by (simp add: op UnbanByRange_def same_localhost_def)
    next
      case True
      then have d: "valid_range r" "Range_IsValid r" using assms(2) proper by (simp_all add: op)
      have s: "unban_spec (k_same range_kind) r R = unban_spec same_range r R"
        using pool_shows_facts(3) [OF p(2)] d by (intro unban_spec_cong) (simp add: same_range_kind)
      from range_bans.Unban_refines [OF p(2) d(1)] obtain P' where
        "Unban range_kind r (nb_RangePool nb) = Some (fst (unban_spec same_range r R), P')"
        "pool_shows range_kind valid_range P' (snd (unban_spec same_range r R))" unfolding s by blast
      then show ?thesis using True p v d by (simp add: op UnbanByRange_def netban_shows_def same_localhost_def)
    qed
  qed
qed

lemma Pool_Get_outside: "pool_shows k valid P bs \<Longrightarrow> \<not> (0 \<le> i \<and> i < int (length bs)) \<Longrightarrow> Pool_Get i P = None"
  using pool_shows_facts(4) [of k valid P bs] by (auto simp: Pool_Get_def)

lemma UnbanByIndex_refines:
  assumes "netban_shows nb (A, R)"
  shows "fst (UnbanByIndex i nb) = fst (bans_do l4 l6 Now (Op_UnbanIndex i) (A, R))"
    "netban_shows (snd (UnbanByIndex i nb)) (snd (bans_do l4 l6 Now (Op_UnbanIndex i) (A, R)))" "same_localhost nb (snd (UnbanByIndex i nb))"
proof -
  from assms(1) have p: "pool_shows addr_kind valid_addr (nb_AddrPool nb) A" "pool_shows range_kind valid_range (nb_RangePool nb) R"
    and v: "valid_addr (nb_LocalhostIpV4 nb)" "valid_addr (nb_LocalhostIpV6 nb)" by (auto elim: netban_showsE)
  note count = pool_shows_facts(4) [OF p(1)]
  consider (addr) "0 \<le> i" "i < int (length A)" | (range) "int (length A) \<le> i" "i < int (length A) + int (length R)"
    | (none) "\<not> (0 \<le> i \<and> i < int (length A))" "\<not> (int (length A) \<le> i \<and> i < int (length A) + int (length R))" by linarith
  then have "fst (UnbanByIndex i nb) = fst (bans_do l4 l6 Now (Op_UnbanIndex i) (A, R)) \<and>
    netban_shows (snd (UnbanByIndex i nb)) (snd (bans_do l4 l6 Now (Op_UnbanIndex i) (A, R))) \<and> same_localhost nb (snd (UnbanByIndex i nb))"
  proof cases
    case addr
    have n: "int (nat i) = i" "nat i < length A" using addr by linarith+
    obtain b where "Pool_Get i (nb_AddrPool nb) = Some b"
      "pool_shows addr_kind valid_addr (Pool_Remove b (nb_AddrPool nb)) (remove_nth (nat i) A)"
      using pool_shows_remove_nth [OF p(1) n(2)] unfolding n(1) remove_nth_def by blast
    then show ?thesis using addr p v by (simp add: UnbanByIndex_def netban_shows_def same_localhost_def)
  next
    case range
    have n: "int (nat i - length A) = i - int (length A)" "nat i - length A < length R" using range by linarith+
    obtain b where b: "Pool_Get (i - int (length A)) (nb_RangePool nb) = Some b"
      "pool_shows range_kind valid_range (Pool_Remove b (nb_RangePool nb)) (remove_nth (nat i - length A) R)"
      using pool_shows_remove_nth [OF p(2) n(2)] unfolding n(1) remove_nth_def by blast
    have "Pool_Get i (nb_AddrPool nb) = None" using range by (intro Pool_Get_outside [OF p(1)]) simp
    then show ?thesis using range p v b by (simp add: UnbanByIndex_def count netban_shows_def same_localhost_def)
  next
    case none
    have "Pool_Get i (nb_AddrPool nb) = None" "Pool_Get (i - int (length A)) (nb_RangePool nb) = None"
      using none by (auto intro: Pool_Get_outside [OF p(1)] Pool_Get_outside [OF p(2)])
    then show ?thesis using none assms by (auto simp: UnbanByIndex_def count same_localhost_def)
  qed
  then show "fst (UnbanByIndex i nb) = fst (bans_do l4 l6 Now (Op_UnbanIndex i) (A, R))"
    "netban_shows (snd (UnbanByIndex i nb)) (snd (bans_do l4 l6 Now (Op_UnbanIndex i) (A, R)))" "same_localhost nb (snd (UnbanByIndex i nb))" by blast+
qed

lemma NetBan_Update_refines:
  assumes "netban_shows nb (A, R)"
  shows "\<exists>nb'. NetBan_Update Now nb = Some nb' \<and> netban_shows nb' (filter (\<lambda>b. \<not> gone Now b) A, filter (\<lambda>b. \<not> gone Now b) R) \<and> same_localhost nb nb'"
proof -
  from assms(1) have p: "pool_shows addr_kind valid_addr (nb_AddrPool nb) A" "pool_shows range_kind valid_range (nb_RangePool nb) R"
    and v: "valid_addr (nb_LocalhostIpV4 nb)" "valid_addr (nb_LocalhostIpV6 nb)" by (auto elim: netban_showsE)
  from pool_shows_expire [OF p(1)] pool_shows_expire [OF p(2)] obtain P Q where
    "expire_loop (MAX_BANS + 1) Now (nb_AddrPool nb) = Some P" "pool_shows addr_kind valid_addr P (filter (\<lambda>b. \<not> gone Now b) A)"
    "expire_loop (MAX_BANS + 1) Now (nb_RangePool nb) = Some Q" "pool_shows range_kind valid_range Q (filter (\<lambda>b. \<not> gone Now b) R)" by blast
  then show ?thesis using v unfolding NetBan_Update_def by (simp add: netban_shows_def same_localhost_def)
qed

lemma netban_do_refines_pair:
  assumes "netban_shows nb (A, R)" "op_valid op"
  shows "\<exists>nb'. netban_do Now op nb = Some (fst (bans_do (nb_LocalhostIpV4 nb) (nb_LocalhostIpV6 nb) Now op (A, R)), nb') \<and>
    netban_shows nb' (snd (bans_do (nb_LocalhostIpV4 nb) (nb_LocalhostIpV6 nb) Now op (A, R))) \<and> same_localhost nb nb'"
proof (cases op)
  case (Op_BanAddr d s r v)
  show ?thesis using assms(2) unfolding Op_BanAddr netban_do.simps op_valid.simps by (rule BanAddr_refines [OF assms(1)])
next
  case (Op_BanRange d s r)
  show ?thesis using assms(2) unfolding Op_BanRange netban_do.simps op_valid.simps by (elim conjE) (rule BanRange_refines [OF assms(1)])
next
  case (Op_UnbanAddr d)
  show ?thesis by (rule Unban_ops_refine [OF assms, where r = undefined]) (simp add: Op_UnbanAddr)
next
  case (Op_UnbanRange r)
  show ?thesis by (rule Unban_ops_refine [OF assms, where d = undefined]) (simp add: Op_UnbanRange)
next
  case (Op_UnbanIndex i)
  show ?thesis unfolding Op_UnbanIndex netban_do.simps using UnbanByIndex_refines [OF assms(1)]
    by (intro exI [of _ "snd (UnbanByIndex i nb)"] conjI) (simp_all only: prod_eq_iff fst_conv snd_conv option.inject simp_thms)
next
  case Op_UnbanAll
  then show ?thesis using assms(1) by (simp add: UnbanAll_def netban_shows_def pool_shows_Reset same_localhost_def)
next
  case Op_Update
  then show ?thesis using NetBan_Update_refines [OF assms(1), of Now] by auto
qed

lemma netban_do_refines:
  assumes "netban_shows nb bs" "op_valid op"
  shows "\<exists>nb'. netban_do Now op nb = Some (fst (bans_do (nb_LocalhostIpV4 nb) (nb_LocalhostIpV6 nb) Now op bs), nb') \<and>
    netban_shows nb' (snd (bans_do (nb_LocalhostIpV4 nb) (nb_LocalhostIpV6 nb) Now op bs)) \<and> same_localhost nb nb'"
  using netban_do_refines_pair [of nb "fst bs" "snd bs"] assms by simp

section \<open>Runs\<close>

text \<open>Operations at given times, one after the other.\<close>

fun netban_run :: "(int \<times> ban_op) list \<Rightarrow> CNetBan \<Rightarrow> CNetBan option" where
  "netban_run [] nb = Some nb"
| "netban_run ((Now, op) # ops) nb = Option.bind (netban_do Now op nb) (\<lambda>(r, nb). netban_run ops nb)"

fun bans_run :: "NETADDR \<Rightarrow> NETADDR \<Rightarrow> (int \<times> ban_op) list \<Rightarrow> bans \<Rightarrow> bans" where
  "bans_run l4 l6 [] bs = bs"
| "bans_run l4 l6 ((Now, op) # ops) bs = bans_run l4 l6 ops (snd (bans_do l4 l6 Now op bs))"

lemma netban_run_refines:
  "netban_shows nb bs \<Longrightarrow> \<forall>(Now, op) \<in> set ops. op_valid op \<Longrightarrow>
   \<exists>nb'. netban_run ops nb = Some nb' \<and> netban_shows nb' (bans_run (nb_LocalhostIpV4 nb) (nb_LocalhostIpV6 nb) ops bs) \<and> same_localhost nb nb'"
proof (induction ops arbitrary: nb bs)
  case (Cons o' ops)
  obtain Now op where o': "o' = (Now, op)" by fastforce
  from netban_do_refines [OF Cons.prems(1), of op Now] Cons.prems(2) obtain r nb1 where nb1: "netban_do Now op nb = Some (r, nb1)"
    "netban_shows nb1 (snd (bans_do (nb_LocalhostIpV4 nb) (nb_LocalhostIpV6 nb) Now op bs))" "same_localhost nb nb1" by (auto simp: o')
  from Cons.IH [OF nb1(2)] Cons.prems(2) nb1 show ?case by (auto simp: o' same_localhost_def)
qed (simp add: same_localhost_def)

lemma netban_shows_Init: "valid_addr v4 \<Longrightarrow> valid_addr v6 \<Longrightarrow> netban_shows (NetBan_Init v4 v6 nb) ([], [])"
  by (simp add: NetBan_Init_def UnbanAll_def netban_shows_def pool_shows_Reset)

lemma Init_localhost [simp]: "nb_LocalhostIpV4 (NetBan_Init v4 v6 nb) = v4" "nb_LocalhostIpV6 (NetBan_Init v4 v6 nb) = v6"
  by (simp_all add: NetBan_Init_def)

section \<open>What holds of the bans in force\<close>

definition spares :: "NETADDR \<Rightarrow> bans \<Rightarrow> bool" where
  "spares l bs \<longleftrightarrow> (\<forall>b \<in> set (fst bs). \<not> covers_addr (fst b) l) \<and> (\<forall>b \<in> set (snd bs). \<not> covers_range (fst b) l)"

lemma ban_spec_data:
  assumes "b \<in> set (snd (ban_spec same d info bs))"
  shows "fst b = d \<or> (\<exists>c \<in> set bs. fst c = fst b)"
proof (cases "find (\<lambda>b. same (fst b) d) bs")
  case None
  with assms show ?thesis by (auto simp: ban_spec_def split: if_splits)
next
  case (Some c)
  then have "c \<in> set bs" by (auto simp: find_Some_iff)
  with assms Some show ?thesis by (auto simp: ban_spec_def)
qed

lemma ban_spec_spares:
  "\<forall>b \<in> set bs. q (fst b) \<Longrightarrow> q d \<Longrightarrow> b \<in> set (snd (ban_spec same d info bs)) \<Longrightarrow> q (fst b)"
  using ban_spec_data [of b same d info bs] by auto

lemma set_remove_nth: "set (remove_nth n xs) \<subseteq> set xs"
  using set_take_subset set_drop_subset by (fastforce simp: remove_nth_def)

lemma bans_do_spares:
  assumes "spares l bs" "l = l4 \<or> l = l6"
  shows "spares l (snd (bans_do l4 l6 Now op bs))"
proof -
  obtain A R where bs: "bs = (A, R)" by fastforce
  have A: "\<forall>b \<in> set A. \<not> covers_addr (fst b) l" and R: "\<forall>b \<in> set R. \<not> covers_range (fst b) l"
    using assms(1) by (auto simp: spares_def bs)
  show ?thesis
  proof (cases op)
    case (Op_BanAddr d s r v)
    then show ?thesis using A R assms(2) ban_spec_spares [OF A, of d]
      by (auto simp: bs spares_def)
  next
    case (Op_BanRange d s r)
    then show ?thesis using A R assms(2) ban_spec_spares [OF R, of d]
      by (auto simp: bs spares_def)
  next
    case (Op_UnbanIndex i)
    then show ?thesis using A R by (auto simp: bs spares_def dest: subsetD [OF set_remove_nth])
  qed (use A R in \<open>auto simp: bs spares_def unban_spec_def\<close>)
qed

lemma bans_run_spares: "spares l bs \<Longrightarrow> l = l4 \<or> l = l6 \<Longrightarrow> spares l (bans_run l4 l6 ops bs)"
proof (induction ops arbitrary: bs)
  case (Cons o' ops)
  then show ?case by (cases o') (simp add: bans_do_spares)
qed simp

lemma find_ban_cases:
  assumes "netban_shows nb (A, R)" "valid_addr a"
  shows "(\<exists>b \<in> set A. covers_addr (fst b) (looked_up a)) \<or> (\<exists>b \<in> set R. covers_range (fst b) (looked_up a)) \<Longrightarrow>
      \<exists>info \<in> snd ` set A \<union> snd ` set R. find_ban a nb = Some (Some info)"
    "spares (looked_up a) (A, R) \<Longrightarrow> find_ban a nb = Some None"
proof -
  obtain r where r: "find_ban a nb = Some r"
    "case r of
       None \<Rightarrow> \<not> (\<exists>b \<in> set A. covers_addr (fst b) (looked_up a)) \<and> \<not> (\<exists>b \<in> set R. covers_range (fst b) (looked_up a))
     | Some info \<Rightarrow>
         if \<exists>b \<in> set A. covers_addr (fst b) (looked_up a)
         then \<exists>b \<in> set A. covers_addr (fst b) (looked_up a) \<and> snd b = info
         else \<exists>b \<in> set R. covers_range (fst b) (looked_up a) \<and> snd b = info"
    using find_ban_correct [OF assms] by (elim exE conjE)
  show "(\<exists>b \<in> set A. covers_addr (fst b) (looked_up a)) \<or> (\<exists>b \<in> set R. covers_range (fst b) (looked_up a)) \<Longrightarrow>
      \<exists>info \<in> snd ` set A \<union> snd ` set R. find_ban a nb = Some (Some info)"
    using r by (cases r) (auto split: if_splits)
  show "spares (looked_up a) (A, R) \<Longrightarrow> find_ban a nb = Some None"
    using r by (cases r) (auto simp: spares_def split: if_splits)
qed

section \<open>An example\<close>

definition blank_pool :: "'a \<Rightarrow> 'a CBanPool" where
  "blank_pool z = \<lparr>bp_HashList = \<lambda>_. None, bp_Bans = \<lambda>_. zero_ban z, bp_HashNext = \<lambda>_. None, bp_HashPrev = \<lambda>_. None,
     bp_Next = \<lambda>_. None, bp_Prev = \<lambda>_. None, bp_FirstFree = None, bp_FirstUsed = None, bp_CountUsed = 0\<rparr>"

definition localhost4 :: NETADDR where
  "localhost4 = \<lparr>na_type = 1, na_ip = [127, 0, 0, 1] @ replicate 12 0, na_port = 0\<rparr>"

definition localhost6 :: NETADDR where
  "localhost6 = \<lparr>na_type = 2, na_ip = replicate 15 0 @ [1], na_port = 0\<rparr>"

definition no_bans :: CNetBan where
  "no_bans = NetBan_Init localhost4 localhost6
     \<lparr>nb_AddrPool = blank_pool zero_addr, nb_RangePool = blank_pool \<lparr>m_LB = zero_addr, m_UB = zero_addr\<rparr>,
      nb_LocalhostIpV4 = zero_addr, nb_LocalhostIpV6 = zero_addr\<rparr>"

lemma localhost_valid: "valid_addr localhost4" "valid_addr localhost6" "valid_addr sample_addr"
  by (simp_all add: valid_addr_def localhost4_def localhost6_def sample_addr_def)

lemma no_bans_shows: "netban_shows no_bans ([], [])" "nb_LocalhostIpV4 no_bans = localhost4" "nb_LocalhostIpV6 no_bans = localhost6"
  by (simp_all add: no_bans_def netban_shows_Init localhost_valid)

text \<open>The address of the example, banned for ten minutes.\<close>

definition ban_sample :: "(int \<times> ban_op) list" where
  "ban_sample = [(100, Op_BanAddr sample_addr 600 (bytes_of ''spam'') False)]"

lemma sample_numbers: "addr_number sample_addr = 117901063" "addr_number localhost4 = 2130706433"
proof -
  have "take 4 (replicate 16 (7::u8)) = [7, 7, 7, 7]" by (simp add: take_replicate eval_nat_numeral)
  then show "addr_number sample_addr = 117901063" by (simp add: addr_number_def addr_length_def sample_addr_def NETTYPE_IPV4_def)
  show "addr_number localhost4 = 2130706433" by (simp add: addr_number_def addr_length_def localhost4_def NETTYPE_IPV4_def)
qed

lemma sample_not_localhost: "\<not> covers_addr sample_addr localhost4" "\<not> covers_addr sample_addr localhost6" "looked_up sample_addr = sample_addr"
  by (simp add: covers_addr_def sample_numbers) (simp_all add: covers_addr_def sample_addr_def localhost6_def looked_up_def NETTYPE_WEBSOCKET_IPV4_def)

lemma ban_sample_run: "bans_run localhost4 localhost6 ban_sample ([], []) = ([(sample_addr, ban_info 100 600 (bytes_of ''spam'') False)], [])"
  by (simp add: ban_sample_def sample_not_localhost ban_spec_def insert_ban_def MAX_BANS_def)

section \<open>Listing and saving\<close>

lemma walk_bans_linked: "linked nx pv s us None \<Longrightarrow> length us \<le> fuel \<Longrightarrow> walk_bans fuel nx (first_of us None) = Some us"
proof (induction us arbitrary: s fuel)
  case (Cons i us)
  then obtain f where "fuel = Suc f" by (cases fuel) auto
  with Cons.prems Cons.IH [of "Some i" f] show ?case by simp
qed simp

lemma pool_entries_shown: "pool_shows k valid P bs \<Longrightarrow> pool_entries P = Some bs"
proof -
  assume "pool_shows k valid P bs"
  then obtain us where us: "pool_ok P us" "bs = ban_list P us" by (auto simp: pool_shows_def)
  then show ?thesis using walk_bans_linked [of "bp_Next P" "bp_Prev P" None us MAX_BANS] pool_used_below(3) [OF us(1)]
    by (simp add: pool_entries_def ban_list_def pool_ok_def dlist_def used_links_def)
qed

lemma all_entries_shown: "netban_shows nb (A, R) \<Longrightarrow> all_entries nb = Some (map Inl A @ map Inr R)"
  by (auto elim!: netban_showsE simp: all_entries_def pool_entries_shown)

text \<open>The search in the list finds the bans that keep an address out, with their number in the list.\<close>

lemma ConBansFind_covers:
  assumes "netban_shows nb (A, R)" "parse pStr = Some a" "valid_addr a"
  shows "ConBansFind parse pStr nb = Some (Some (filter (\<lambda>(Count, e). case e of Inl b \<Rightarrow> covers_addr (fst b) a | Inr b \<Rightarrow> covers_range (fst b) a)
    (enumerate 0 (map Inl A @ map Inr R))))"
proof -
  have v: "\<And>b. b \<in> set A \<Longrightarrow> valid_addr (fst b)" "\<And>b. b \<in> set R \<Longrightarrow> valid_range (fst b)"
    using assms(1) by (auto elim!: netban_showsE dest: pool_shows_facts(3))
  have "entry_found a e = (case e of Inl b \<Rightarrow> covers_addr (fst b) a | Inr b \<Rightarrow> covers_range (fst b) a)"
    if "e \<in> set (map Inl A @ map Inr R)" for e
    using that v assms(3) by (auto simp: entry_found_def NetComp_zero covers_addr_def NetMatch_range_covers)
  then have "filter (\<lambda>(Count, e). entry_found a e) (enumerate 0 (map Inl A @ map Inr R)) =
      filter (\<lambda>(Count, e). case e of Inl b \<Rightarrow> covers_addr (fst b) a | Inr b \<Rightarrow> covers_range (fst b) a) (enumerate 0 (map Inl A @ map Inr R))"
    by (intro filter_cong refl) (auto simp: in_set_enumerate_eq simp del: set_append set_map dest: nth_mem)
  then show ?thesis by (simp add: ConBansFind_def assms(2) all_entries_shown [OF assms(1)])
qed

text \<open>
  The entry with number \<open>n\<close> is on page \<open>n div 20 + 1\<close>. If the number of bans is a multiple of 20, one
  page more than needed is offered, which is empty.
\<close>

lemma ConBans_page:
  assumes "netban_shows nb (A, R)" "A \<noteq> [] \<or> R \<noteq> []"
  shows "ConBans (Some p) nb =
    (if 0 < p \<and> p \<le> int ((length A + length R) div ENTRIES_PER_PAGE) + 1
     then Some (Page_shown (filter (\<lambda>(n, e). int (n div ENTRIES_PER_PAGE) + 1 = p) (enumerate 0 (map Inl A @ map Inr R))))
     else Some (Invalid_page (int ((length A + length R) div ENTRIES_PER_PAGE) + 1)))"
proof -
  have count: "bp_CountUsed (nb_AddrPool nb) = int (length A)" "bp_CountUsed (nb_RangePool nb) = int (length R)"
    using assms(1) by (auto elim!: netban_showsE dest: pool_shows_facts(4))
  have page: "\<not> (int n < (p - 1) * int ENTRIES_PER_PAGE \<or> int n \<ge> p * int ENTRIES_PER_PAGE) \<longleftrightarrow> int (n div ENTRIES_PER_PAGE) + 1 = p" for n
    unfolding ENTRIES_PER_PAGE_def by (simp add: zdiv_int) linarith
  have "int (length A) + int (length R) \<noteq> 0" using assms(2) by (cases A; cases R) simp_all
  then show ?thesis
    unfolding ConBans_def Let_def option.case count page all_entries_shown [OF assms(1)] by (simp add: zdiv_int)
qed

lemma empty_last_page:
  assumes "netban_shows nb (A, R)" "length A + length R = m * ENTRIES_PER_PAGE" "0 < m"
  shows "ConBans (Some (int m + 1)) nb = Some (Page_shown [])"
proof -
  have "n div ENTRIES_PER_PAGE < m" if "n < length A + length R" for n
    using that assms(2) unfolding ENTRIES_PER_PAGE_def by linarith
  then have "filter (\<lambda>(n, e). int (n div ENTRIES_PER_PAGE) + 1 = int m + 1) (enumerate 0 (map Inl A @ map Inr R)) = []"
    by (fastforce simp: filter_empty_conv in_set_enumerate_eq)
  moreover have "A \<noteq> [] \<or> R \<noteq> []" using assms(2,3) by (cases A; cases R) (simp_all add: ENTRIES_PER_PAGE_def)
  moreover have "(length A + length R) div ENTRIES_PER_PAGE = m" using assms(2) by (simp add: ENTRIES_PER_PAGE_def)
  ultimately show ?thesis using ConBans_page [OF assms(1), of "int m + 1"] assms(3) by simp
qed

text \<open>
  A ban that is saved in the second in which it ends is written with 0 minutes, which the command that
  reads it back takes for a ban that never ends.
\<close>

lemma saved_at_expiry:
  assumes "0 \<le> Now"
  shows "saved_minutes Now \<lparr>m_Expires = Now, m_aReason = reason, m_VerbatimReason = v\<rparr> = 0"
    "\<not> gone Now (d, \<lparr>m_Expires = Now, m_aReason = reason, m_VerbatimReason = v\<rparr>)"
    "ban_info Later (min (max 0 0) 525600 * 60) reason False = \<lparr>m_Expires = EXPIRES_NEVER, m_aReason = str_copy reason REASON_LENGTH, m_VerbatimReason = False\<rparr>"
  using assms by (simp_all add: saved_minutes_def minutes_left_def gone_def ban_info_def)

text \<open>
  A ban on an address that came through a websocket is stored under its own type, but the address is
  looked up as one of IPv4: banning it succeeds and does not keep it out.
\<close>

lemma websocket_ban_has_no_effect:
  assumes "valid_addr d" "na_type d = NETTYPE_WEBSOCKET_IPV4"
  shows "\<exists>nb'. BanAddr Now d Seconds pReason verb no_bans = Some (0, nb') \<and> IsBanned Now' d BufferSize nb' = Some None"
proof -
  have t: "\<not> covers_addr d localhost4" "\<not> covers_addr d localhost6" "\<not> covers_addr d (looked_up d)"
    using assms(2) by (simp_all add: covers_addr_def localhost4_def localhost6_def looked_up_def NETTYPE_WEBSOCKET_IPV4_def NETTYPE_IPV4_def)
  have s: "bans_do localhost4 localhost6 Now (Op_BanAddr d Seconds pReason verb) ([], []) = (0, ([(d, ban_info Now Seconds pReason verb)], []))"
    using t by (simp add: ban_spec_def insert_ban_def MAX_BANS_def)
  obtain nb' where nb': "BanAddr Now d Seconds pReason verb no_bans = Some (0, nb')" "netban_shows nb' ([(d, ban_info Now Seconds pReason verb)], [])"
    using BanAddr_refines [OF no_bans_shows(1) assms(1), of Now Seconds pReason verb] unfolding no_bans_shows(2,3) s by auto
  have "find_ban d nb' = Some None" using find_ban_cases(2) [OF nb'(2) assms(1)] t(3) by (simp add: spares_def)
  then show ?thesis using nb'(1) by (simp add: IsBanned_def)
qed

section \<open>Properties\<close>

text \<open>
  C10: From \<open>Init\<close> on, every operation on the bans (banning and unbanning addresses and ranges, by
  value or by index, removing what has expired, removing all) ends, whatever came before, and what the
  linked arrays and hash lists hold afterwards is what the operations mean for two lists of bans ordered
  by their expiry: one ban for each address and each range, a new one refused if the array is full or if
  it would cover localhost.
\<close>

theorem bans_refine_lists:
  assumes "valid_addr v4" "valid_addr v6" "\<forall>(Now, op) \<in> set ops. op_valid op"
  shows "\<exists>nb'. netban_run ops (NetBan_Init v4 v6 nb) = Some nb' \<and> netban_shows nb' (bans_run v4 v6 ops ([], [])) \<and>
    sorted_wrt ban_before (fst (bans_run v4 v6 ops ([], []))) \<and> sorted_wrt ban_before (snd (bans_run v4 v6 ops ([], [])))"
proof -
  from netban_run_refines [OF netban_shows_Init [OF assms(1,2), of nb] assms(3)] obtain nb' where
    nb': "netban_run ops (NetBan_Init v4 v6 nb) = Some nb'" "netban_shows nb' (bans_run v4 v6 ops ([], []))" by auto
  from nb'(2) have "sorted_wrt ban_before (fst (bans_run v4 v6 ops ([], [])))" "sorted_wrt ban_before (snd (bans_run v4 v6 ops ([], [])))"
    unfolding netban_shows_def using pool_shows_facts(1) by blast+
  with nb' show ?thesis by blast
qed

theorem bans_refine_lists_witness:
  "\<exists>nb'. netban_run ban_sample (NetBan_Init localhost4 localhost6 no_bans) = Some nb' \<and>
     netban_shows nb' ([(sample_addr, ban_info 100 600 (bytes_of ''spam'') False)], [])"
  using bans_refine_lists [OF localhost_valid(1,2), of ban_sample no_bans] unfolding ban_sample_run
  by (auto simp: ban_sample_def localhost_valid)

text \<open>
  C11: An address is refused if and only if there is a ban on it (the same type and bytes, whatever the
  port) or on a range that contains it, as numbers of 32 or 128 bits, and the message comes from such a
  ban, from one on the address itself if there is any. The hash lists hide none. An IPv4 address that
  came through a websocket is looked up as an IPv4 address.
\<close>

theorem banned_iff_covered:
  assumes "netban_shows nb (A, R)" "valid_addr a"
  shows "\<exists>r. IsBanned Now a BufferSize nb = Some r \<and>
    (case r of
       None \<Rightarrow> \<not> (\<exists>b \<in> set A. covers_addr (fst b) (looked_up a)) \<and> \<not> (\<exists>b \<in> set R. covers_range (fst b) (looked_up a))
     | Some msg \<Rightarrow>
         if \<exists>b \<in> set A. covers_addr (fst b) (looked_up a)
         then \<exists>b \<in> set A. covers_addr (fst b) (looked_up a) \<and> msg = MakeBanInfo_player Now BufferSize (snd b)
         else \<exists>b \<in> set R. covers_range (fst b) (looked_up a) \<and> msg = MakeBanInfo_player Now BufferSize (snd b))"
proof -
  obtain r where r: "find_ban a nb = Some r"
    "case r of
       None \<Rightarrow> \<not> (\<exists>b \<in> set A. covers_addr (fst b) (looked_up a)) \<and> \<not> (\<exists>b \<in> set R. covers_range (fst b) (looked_up a))
     | Some info \<Rightarrow>
         if \<exists>b \<in> set A. covers_addr (fst b) (looked_up a)
         then \<exists>b \<in> set A. covers_addr (fst b) (looked_up a) \<and> snd b = info
         else \<exists>b \<in> set R. covers_range (fst b) (looked_up a) \<and> snd b = info"
    using find_ban_correct [OF assms] by (elim exE conjE)
  show ?thesis
  proof (cases r)
    case None
    then show ?thesis using r by (simp add: IsBanned_def)
  next
    case (Some info)
    then show ?thesis using r by (auto simp: IsBanned_def split: if_splits)
  qed
qed

theorem banned_iff_covered_witness: "\<exists>r. IsBanned 5 sample_addr 128 no_bans = Some r \<and> r = None"
  using banned_iff_covered [OF no_bans_shows(1) localhost_valid(3), of 5 128] by (auto split: option.splits)

text \<open>
  The server's own addresses can never be banned: whatever is banned after \<open>Init\<close>, an address or a
  range around it, the addresses of localhost are let in.
\<close>

theorem localhost_let_in:
  assumes "valid_addr v4" "valid_addr v6" "\<forall>(Now, op) \<in> set ops. op_valid op"
    and "l = v4 \<or> l = v6" "na_type l \<noteq> NETTYPE_WEBSOCKET_IPV4"
  shows "\<exists>nb'. netban_run ops (NetBan_Init v4 v6 nb) = Some nb' \<and> IsBanned Now l BufferSize nb' = Some None"
proof -
  from netban_run_refines [OF netban_shows_Init [OF assms(1,2), of nb] assms(3)] obtain nb' where
    nb': "netban_run ops (NetBan_Init v4 v6 nb) = Some nb'" "netban_shows nb' (bans_run v4 v6 ops ([], []))" by auto
  have s: "spares l (bans_run v4 v6 ops ([], []))" using assms(4) by (intro bans_run_spares) (auto simp: spares_def)
  have l: "valid_addr l" "looked_up l = l" using assms by (auto simp: looked_up_def)
  obtain A R where AR: "bans_run v4 v6 ops ([], []) = (A, R)" by fastforce
  have "find_ban l nb' = Some None" using find_ban_cases(2) [of nb' A R l] nb'(2) l s AR by simp
  then show ?thesis using nb'(1) by (simp add: IsBanned_def)
qed

theorem localhost_let_in_witness:
  "\<exists>nb'. netban_run ban_sample (NetBan_Init localhost4 localhost6 no_bans) = Some nb' \<and> IsBanned 200 localhost4 128 nb' = Some None"
  by (rule localhost_let_in) (simp_all add: localhost_valid ban_sample_def, simp add: localhost4_def NETTYPE_WEBSOCKET_IPV4_def)

text \<open>
  C31: An address for which a ban is found, as it is looked up, cannot reach the server: whatever it sends, the
  server keeps its state and
  answers with one packet that closes the connection and says why.
\<close>

theorem banned_stays_out:
  assumes "netban_shows nb (A, R)" "valid_addr (i_Addr d)"
    and "(\<exists>b \<in> set A. covers_addr (fst b) (looked_up (i_Addr d))) \<or> (\<exists>b \<in> set R. covers_range (fst b) (looked_up (i_Addr d)))"
    and "se_Banned e (i_Addr d) = the (IsBanned Now (i_Addr d) 128 nb)"
  shows "\<exists>b \<in> snd ` set A \<union> snd ` set R. recv_datagram e d ResponseToken sv n =
    Some (None, ResponseToken, sv, net_send (SendControlMsg (i_Addr d) 0 NET_CTRLMSG_CLOSE (MakeBanInfo_player Now 128 b @ [0])
      NET_SECURITY_TOKEN_UNSUPPORTED False) n)"
proof -
  from find_ban_cases(1) [OF assms(1,2)] assms(3) obtain info where
    "info \<in> snd ` set A \<union> snd ` set R" "find_ban (i_Addr d) nb = Some (Some info)" by blast
  then show ?thesis using assms(4) by (intro bexI [of _ info]) (simp_all add: recv_datagram_def IsBanned_def)
qed

theorem banned_stays_out_witness:
  "\<exists>nb. netban_run ban_sample no_bans = Some nb \<and>
     (\<exists>b. recv_datagram (sample_env\<lparr>se_Banned := \<lambda>a. the (IsBanned 200 a 128 nb)\<rparr>) sample_accept 0 sample_server quiet_net =
       Some (None, 0, sample_server, net_send (SendControlMsg sample_addr 0 NET_CTRLMSG_CLOSE (MakeBanInfo_player 200 128 b @ [0])
         NET_SECURITY_TOKEN_UNSUPPORTED False) quiet_net))"
proof -
  have addr: "i_Addr sample_accept = sample_addr" by (simp add: sample_accept_def)
  obtain nb where nb: "netban_run ban_sample no_bans = Some nb" "netban_shows nb ([(sample_addr, ban_info 100 600 (bytes_of ''spam'') False)], [])"
    using netban_run_refines [OF no_bans_shows(1), of ban_sample] unfolding no_bans_shows(2,3) ban_sample_run
    by (auto simp: ban_sample_def localhost_valid)
  have "covers_addr sample_addr (looked_up sample_addr)" by (simp add: sample_not_localhost covers_addr_def)
  then show ?thesis
    using banned_stays_out [OF nb(2), of sample_accept "sample_env\<lparr>se_Banned := \<lambda>a. the (IsBanned 200 a 128 nb)\<rparr>" 200 0 sample_server quiet_net]
      nb(1) localhost_valid(3) unfolding addr by auto
qed

end
