(* ===== verification/Stun.thy ===== *)
theory Stun
  imports NetConn
begin

text \<open>
  The STUN client of \<^verbatim>\<open>src/src/engine/shared/stun.cpp\<close> and \<^verbatim>\<open>network_stun.cpp\<close>, with which the
  game learns its public address: requests, the parser of responses, and for each of the two address
  families the schedule of requests and what is known. The random transaction ids are arguments.
\<close>

section \<open>Messages\<close>

abbreviation (input) SECRET_SIZE :: nat where "SECRET_SIZE \<equiv> 12"

definition STUN_COOKIE :: "u8 list" where
  "STUN_COOKIE = [0x21, 0x12, 0xA4, 0x42]"

definition StunMessagePrepare :: "u8 list \<Rightarrow> u8 list" where
  "StunMessagePrepare secret = [0, 1, 0, 0] @ STUN_COOKIE @ secret"

definition be16 :: "u8 \<Rightarrow> u8 \<Rightarrow> nat" where
  "be16 a b = unat a * 256 + unat b"

fun xor_bytes :: "u8 list \<Rightarrow> u8 list \<Rightarrow> u8 list" where
  "xor_bytes (a # as) (b # bs) = (a XOR b) # xor_bytes as bs"
| "xor_bytes as [] = as"
| "xor_bytes [] bs = []"

text \<open>
  The value of an address attribute: \<open>None\<close> if it is malformed, and otherwise the address, which is
  missing for an unknown family.
\<close>

definition xor_mapped :: "u8 list \<Rightarrow> u8 list \<Rightarrow> NETADDR option option" where
  "xor_mapped secret v =
     (if length v < 4 then None
      else
        let Family = v ! 1;
            Port = of_nat (be16 (v ! 2) (v ! 3)) XOR 0x2112
        in if Family = 1
           then if length v \<noteq> 8 then None
                else Some (Some \<lparr>na_type = 1, na_ip = xor_bytes (take 4 (drop 4 v)) STUN_COOKIE @ replicate 12 0, na_port = Port\<rparr>)
           else if Family = 2
           then if length v \<noteq> 20 then None
                else Some (Some \<lparr>na_type = 2, na_ip = xor_bytes (take 16 (drop 4 v)) (STUN_COOKIE @ secret), na_port = Port\<rparr>)
           else Some None)"

text \<open>
  The loop over the attributes, on the bytes that are left of the message: whether there was an error,
  and the first address.
\<close>

function attributes :: "bool \<Rightarrow> u8 list \<Rightarrow> NETADDR option \<Rightarrow> u8 list \<Rightarrow> bool \<times> NETADDR option" where
  "attributes Success secret Found m =
     (if m = [] then (Success \<and> Found = None, Found)
      else if length m < 4 then (True, Found)
      else
        let Type = be16 (m ! 0) (m ! 1);
            Length = be16 (m ! 2) (m ! 3)
        in if length m < 4 + Length then (True, Found)
           else if Success \<and> Type = 0x20
           then (case xor_mapped secret (take Length (drop 4 m)) of
                   None \<Rightarrow> (True, Found)
                 | Some a \<Rightarrow> attributes Success secret (if Found = None then a else Found) (drop (4 + Length) m))
           else if Type \<le> 0x7FFF then (True, Found)
           else attributes Success secret Found (drop (4 + Length) m))"
  by pat_completeness auto
termination by (relation "measure (\<lambda>(Success, secret, Found, m). length m)") auto

declare attributes.simps [simp del]

text \<open>The results: whether the message is not a response, \<open>pSuccess\<close> and \<open>pAddr\<close>.\<close>

definition StunMessageParse :: "u8 list \<Rightarrow> u8 list \<Rightarrow> bool \<times> bool \<times> NETADDR" where
  "StunMessageParse m secret =
     (if length m < 20 then (True, False, zero_addr)
      else
        let MessageLength = be16 (m ! 2) (m ! 3)
        in if \<not> (m ! 0 = 1 \<and> (m ! 1 = 1 \<or> m ! 1 = 0x11) \<and> length m \<ge> 20 + MessageLength \<and> MessageLength mod 4 = 0 \<and>
                 take 4 (drop 4 m) = STUN_COOKIE \<and> take SECRET_SIZE (drop 8 m) = secret)
           then (True, False, zero_addr)
           else
             let Success = (m ! 1 = 1);
                 (Error, Found) = attributes Success secret None (take MessageLength (drop 20 m))
             in (Error, Success, case Found of Some a \<Rightarrow> a | None \<Rightarrow> zero_addr))"

section \<open>One address family\<close>

record CProtocol =
  pr_Stun :: "u8 list"
  pr_HaveStunServer :: bool
  pr_StunServer :: NETADDR
  pr_HaveAddr :: bool
  pr_Addr :: NETADDR
  pr_LastResponse :: int
  pr_NextTry :: int
  pr_NumUnsuccessfulTries :: int

datatype CONNECTIVITY = UNKNOWN | CHECKING | UNREACHABLE | REACHABLE | ADDRESS_KNOWN NETADDR

definition RetryWaitSeconds :: "int \<Rightarrow> int" where
  "RetryWaitSeconds Tries = 2 ^ nat (min (max Tries 0) 9)"

definition Protocol_create :: "u8 list \<Rightarrow> CProtocol" where
  "Protocol_create secret =
     \<lparr>pr_Stun = secret, pr_HaveStunServer = False, pr_StunServer = zero_addr, pr_HaveAddr = False, pr_Addr = zero_addr,
      pr_LastResponse = -1, pr_NextTry = -1, pr_NumUnsuccessfulTries = -1\<rparr>"

definition Protocol_Refresh :: "CProtocol \<Rightarrow> net \<Rightarrow> CProtocol \<times> net" where
  "Protocol_Refresh pr n = (let (t, n) = time_get n in (pr\<lparr>pr_NextTry := t\<rparr>, n))"

definition Protocol_FeedStunServer :: "NETADDR \<Rightarrow> CProtocol \<Rightarrow> net \<Rightarrow> CProtocol \<times> net" where
  "Protocol_FeedStunServer StunServer pr n =
     (if pr_HaveStunServer pr \<and> pr_StunServer pr = StunServer then (pr, n)
      else Protocol_Refresh (pr\<lparr>pr_HaveStunServer := True, pr_StunServer := StunServer, pr_NumUnsuccessfulTries := 0\<rparr>) n)"

definition Protocol_Update :: "u8 list \<Rightarrow> CProtocol \<Rightarrow> net \<Rightarrow> CProtocol \<times> net" where
  "Protocol_Update rnd pr n =
     (let (Now, n) = time_get n
      in if pr_NextTry pr = -1 \<or> Now < pr_NextTry pr \<or> \<not> pr_HaveStunServer pr then (pr, n)
         else (pr\<lparr>pr_NextTry := Now + RetryWaitSeconds (pr_NumUnsuccessfulTries pr) * time_freq,
                  pr_NumUnsuccessfulTries := pr_NumUnsuccessfulTries pr + 1, pr_Stun := rnd\<rparr>,
               net_send (pr_StunServer pr, StunMessagePrepare rnd) n))"

definition Protocol_OnPacket :: "u8 list \<Rightarrow> CProtocol \<Rightarrow> net \<Rightarrow> bool \<times> CProtocol \<times> net" where
  "Protocol_OnPacket Data pr n =
     (if pr_NextTry pr < 0 \<or> \<not> pr_HaveStunServer pr then (False, pr, n)
      else
        let (Error, Success, StunAddr) = StunMessageParse Data (pr_Stun pr)
        in if Error then (False, pr, n)
           else
             let (t, n) = time_get n;
                 pr = pr\<lparr>pr_LastResponse := t\<rparr>
             in if \<not> Success then (True, pr\<lparr>pr_HaveAddr := False\<rparr>, n)
                else (True, pr\<lparr>pr_NextTry := -1, pr_NumUnsuccessfulTries := -1, pr_HaveAddr := True, pr_Addr := StunAddr\<rparr>, n))"

definition Protocol_GetConnectivity :: "CProtocol \<Rightarrow> net \<Rightarrow> CONNECTIVITY \<times> net" where
  "Protocol_GetConnectivity pr n =
     (if \<not> pr_HaveStunServer pr then (UNKNOWN, n)
      else
        let (Now, n) = time_get n;
            HaveTriedALittle = (pr_NumUnsuccessfulTries pr \<ge> 5 \<and>
              (pr_LastResponse pr = -1 \<or> Now - pr_LastResponse pr \<ge> 30 * time_freq))
        in (if pr_LastResponse pr = -1 \<and> \<not> HaveTriedALittle then CHECKING
            else if HaveTriedALittle then UNREACHABLE
            else if \<not> pr_HaveAddr pr then REACHABLE
            else ADDRESS_KNOWN (pr_Addr pr), n))"

section \<open>Both families\<close>

text \<open>The protocol for IPv6 is the first, that for IPv4 the second.\<close>

type_synonym CStun = "CProtocol \<times> CProtocol"

datatype net_index = Index6 | Index4

definition IndexFromNetType :: "i32 \<Rightarrow> net_index option" where
  "IndexFromNetType NetType = (if NetType = 2 then Some Index6 else if NetType = 1 then Some Index4 else None)"

fun on_protocol :: "net_index \<Rightarrow> (CProtocol \<Rightarrow> 'r \<times> CProtocol \<times> net) \<Rightarrow> CStun \<Rightarrow> 'r \<times> CStun \<times> net" where
  "on_protocol Index6 f (p6, p4) = (let (r, p6, n) = f p6 in (r, (p6, p4), n))"
| "on_protocol Index4 f (p6, p4) = (let (r, p4, n) = f p4 in (r, (p6, p4), n))"

definition Stun_create :: "u8 list \<Rightarrow> u8 list \<Rightarrow> CStun" where
  "Stun_create s6 s4 = (Protocol_create s6, Protocol_create s4)"

definition Stun_FeedStunServer :: "NETADDR \<Rightarrow> CStun \<Rightarrow> net \<Rightarrow> CStun \<times> net" where
  "Stun_FeedStunServer StunServer st n =
     (case IndexFromNetType (na_type StunServer) of
        None \<Rightarrow> (st, n)
      | Some i \<Rightarrow> snd (on_protocol i (\<lambda>pr. ((), Protocol_FeedStunServer StunServer pr n)) st))"

definition Stun_Refresh :: "CStun \<Rightarrow> net \<Rightarrow> CStun \<times> net" where
  "Stun_Refresh st n =
     (let (p6, n) = Protocol_Refresh (fst st) n;
          (p4, n) = Protocol_Refresh (snd st) n
      in ((p6, p4), n))"

text \<open>\<open>r6\<close> and \<open>r4\<close> are the transaction ids drawn if a request is sent.\<close>

definition Stun_Update :: "u8 list \<Rightarrow> u8 list \<Rightarrow> CStun \<Rightarrow> net \<Rightarrow> CStun \<times> net" where
  "Stun_Update r6 r4 st n =
     (let (p6, n) = Protocol_Update r6 (fst st) n;
          (p4, n) = Protocol_Update r4 (snd st) n
      in ((p6, p4), n))"

definition Stun_OnPacket :: "NETADDR \<Rightarrow> u8 list \<Rightarrow> CStun \<Rightarrow> net \<Rightarrow> bool \<times> CStun \<times> net" where
  "Stun_OnPacket addr Data st n =
     (case IndexFromNetType (na_type addr) of
        None \<Rightarrow> (False, st, n)
      | Some i \<Rightarrow> on_protocol i (\<lambda>pr. Protocol_OnPacket Data pr n) st)"

text \<open>\<open>None\<close> is the failed assertion.\<close>

definition Stun_GetConnectivity :: "i32 \<Rightarrow> CStun \<Rightarrow> net \<Rightarrow> (CONNECTIVITY \<times> net) option" where
  "Stun_GetConnectivity NetType st n =
     (case IndexFromNetType NetType of
        None \<Rightarrow> None
      | Some i \<Rightarrow> Some (Protocol_GetConnectivity (case i of Index6 \<Rightarrow> fst st | Index4 \<Rightarrow> snd st) n))"

section \<open>What a server answers\<close>

definition be16_bytes :: "nat \<Rightarrow> u8 list" where
  "be16_bytes n = [of_nat (n div 256), of_nat n]"

text \<open>An attribute of RFC 5389, and the response with a list of attributes.\<close>

definition attribute :: "nat \<times> u8 list \<Rightarrow> u8 list" where
  "attribute a = be16_bytes (fst a) @ be16_bytes (length (snd a)) @ snd a"

definition attributes_of :: "(nat \<times> u8 list) list \<Rightarrow> u8 list" where
  "attributes_of as = concat (map attribute as)"

definition xor_address :: "u8 list \<Rightarrow> NETADDR \<Rightarrow> u8 list" where
  "xor_address secret a =
     (let Port = na_port a XOR 0x2112
      in [0, if na_type a = 1 then 1 else 2, of_nat (unat Port div 256), of_nat (unat Port)] @
         (if na_type a = 1 then xor_bytes (take 4 (na_ip a)) STUN_COOKIE else xor_bytes (na_ip a) (STUN_COOKIE @ secret)))"

definition stun_response :: "bool \<Rightarrow> u8 list \<Rightarrow> (nat \<times> u8 list) list \<Rightarrow> u8 list" where
  "stun_response Success secret as =
     [1, if Success then 1 else 0x11] @ be16_bytes (length (attributes_of as)) @ STUN_COOKIE @ secret @ attributes_of as"

text \<open>An address as the game has them, and attributes the parser may skip.\<close>

definition ip_address :: "NETADDR \<Rightarrow> bool" where
  "ip_address a \<longleftrightarrow> length (na_ip a) = 16 \<and> (na_type a = 2 \<or> na_type a = 1 \<and> drop 4 (na_ip a) = replicate 12 0)"

definition optional :: "nat \<times> u8 list \<Rightarrow> bool" where
  "optional a \<longleftrightarrow> 0x7FFF < fst a \<and> fst a < 2 ^ 16 \<and> length (snd a) < 2 ^ 16"

lemma be16_inverse: "n < 2 ^ 16 \<Longrightarrow> be16 (of_nat (n div 256)) (of_nat n) = n"
  by (simp add: be16_def unat_of_nat)

lemma xor_bytes_twice: "length bs \<le> length as \<Longrightarrow> xor_bytes (xor_bytes as bs) bs = as"
proof (induction as bs rule: xor_bytes.induct)
  case (1 a as b bs)
  have "(a XOR b) XOR b = a" by (simp add: xor.assoc)
  with 1 show ?case by simp
qed auto

lemma length_xor_bytes [simp]: "length (xor_bytes as bs) = length as"
  by (induction as bs rule: xor_bytes.induct) auto

lemma xor_mapped_address:
  assumes "ip_address a" "length secret = SECRET_SIZE"
  shows "xor_mapped secret (xor_address secret a) = Some (Some a)"
proof -
  have port: "of_nat (be16 (of_nat (unat (na_port a XOR 0x2112) div 256)) (of_nat (unat (na_port a XOR 0x2112)))) XOR (0x2112::16 word) = na_port a"
    using unsigned_less [of "na_port a XOR 0x2112"] by (subst be16_inverse) (simp_all add: xor.assoc)
  consider "na_type a = 1" "drop 4 (na_ip a) = replicate 12 0" | "na_type a = 2" using assms(1) by (auto simp: ip_address_def)
  then show ?thesis
  proof cases
    case 1
    have "take 4 (na_ip a) @ replicate 12 0 = na_ip a" using 1(2) append_take_drop_id [of 4 "na_ip a"] by simp
    moreover have "length (take 4 (na_ip a)) = 4" using assms(1) by (simp add: ip_address_def)
    ultimately show ?thesis using 1(1) port
      by (simp add: xor_mapped_def xor_address_def Let_def xor_bytes_twice STUN_COOKIE_def)
  next
    case 2
    have l: "length (na_ip a) = 16" using assms(1) by (simp add: ip_address_def)
    then show ?thesis using 2 port assms(2)
      by (simp add: xor_mapped_def xor_address_def Let_def xor_bytes_twice STUN_COOKIE_def)
  qed
qed

lemma length_xor_address: "ip_address a \<Longrightarrow> length (xor_address secret a) = (if na_type a = 1 then 8 else 20)"
  by (auto simp: xor_address_def Let_def ip_address_def)

lemma attribute_parts:
  assumes "fst x < 2 ^ 16" "length (snd x) < 2 ^ 16"
  shows "be16 ((attribute x @ m) ! 0) ((attribute x @ m) ! 1) = fst x" "be16 ((attribute x @ m) ! 2) ((attribute x @ m) ! 3) = length (snd x)"
    "take (length (snd x)) (drop 4 (attribute x @ m)) = snd x" "drop (4 + length (snd x)) (attribute x @ m) = m"
    "length (attribute x @ m) = 4 + length (snd x) + length m"
proof -
  have "length (attribute x) = 4 + length (snd x)" by (simp add: attribute_def be16_bytes_def)
  then show "drop (4 + length (snd x)) (attribute x @ m) = m" "length (attribute x @ m) = 4 + length (snd x) + length m" by simp_all
qed (use assms be16_inverse [of "fst x"] be16_inverse [of "length (snd x)"] in \<open>simp_all add: attribute_def be16_bytes_def\<close>)

lemma attributes_optional:
  assumes "optional x"
  shows "attributes Success secret Found (attribute x @ m) = attributes Success secret Found m"
proof -
  have x: "fst x < 2 ^ 16" "length (snd x) < 2 ^ 16" "\<not> fst x \<le> 0x7FFF" using assms by (simp_all add: optional_def)
  note p = attribute_parts [OF x(1,2), of m]
  have ne: "attribute x @ m \<noteq> []" "\<not> length (attribute x @ m) < 4" "\<not> length (attribute x @ m) < 4 + length (snd x)"
    using p(5) by auto
  show ?thesis
    using ne x(3) by (subst attributes.simps) (simp only: Let_def p if_False, simp)
qed

lemma attributes_mapped:
  assumes "ip_address a" "length secret = SECRET_SIZE"
  shows "attributes True secret Found (attribute (0x20, xor_address secret a) @ m) =
    attributes True secret (if Found = None then Some a else Found) m"
proof -
  let ?x = "(0x20 :: nat, xor_address secret a)"
  have x: "fst ?x < 2 ^ 16" "length (snd ?x) < 2 ^ 16" using length_xor_address [OF assms(1)] by simp_all
  note p = attribute_parts [OF x, of m]
  have ne: "attribute ?x @ m \<noteq> []" "\<not> length (attribute ?x @ m) < 4" "\<not> length (attribute ?x @ m) < 4 + length (snd ?x)"
    using p(5) by auto
  show ?thesis
    using ne by (subst attributes.simps) (simp only: Let_def p if_False, simp add: xor_mapped_address [OF assms])
qed

lemma attributes_of_simps [simp]: "attributes_of [] = []" "attributes_of (a # as) = attribute a @ attributes_of as"
  "attributes_of (as @ bs) = attributes_of as @ attributes_of bs"
  by (simp_all add: attributes_of_def)

lemma attributes_all_optional:
  "\<forall>x \<in> set as. optional x \<Longrightarrow> attributes Success secret Found (attributes_of as @ m) = attributes Success secret Found m"
  by (induction as) (simp_all add: attributes_optional)

lemma attributes_end: "attributes Success secret Found [] = (Success \<and> Found = None, Found)"
  by (subst attributes.simps) simp

text \<open>The parser on a response: the attributes are those that were written.\<close>

lemma parse_response:
  assumes "length secret = SECRET_SIZE" "length (attributes_of as) < 2 ^ 16" "length (attributes_of as) mod 4 = 0"
  shows "StunMessageParse (stun_response Success secret as @ rest) secret =
    (case attributes Success secret None (attributes_of as) of (e, f) \<Rightarrow> (e, Success, case f of Some a \<Rightarrow> a | None \<Rightarrow> zero_addr))"
proof -
  let ?m = "stun_response Success secret as @ rest"
  have l: "be16 (?m ! 2) (?m ! 3) = length (attributes_of as)"
    using be16_inverse [OF assms(2)] by (simp add: stun_response_def be16_bytes_def)
  have f: "length ?m = 20 + length (attributes_of as) + length rest" "?m ! 0 = 1" "?m ! 1 = (if Success then 1 else 0x11)"
    "take 4 (drop 4 ?m) = STUN_COOKIE" "take SECRET_SIZE (drop 8 ?m) = secret"
    "take (length (attributes_of as)) (drop 20 ?m) = attributes_of as"
    using assms(1) by (simp_all add: stun_response_def be16_bytes_def STUN_COOKIE_def)
  show ?thesis
    unfolding StunMessageParse_def Let_def l f(3-6) using f(1,2) assms(3) by (auto split: prod.splits)
qed

text \<open>
  A success response is understood whatever optional attributes come before or after the address and
  whatever follows the message; an error response that has only optional attributes as well.
\<close>

lemma parse_success:
  assumes "ip_address a" "length secret = SECRET_SIZE" "\<forall>x \<in> set before \<union> set after. optional x"
    and "length (attributes_of (before @ (0x20, xor_address secret a) # after)) < 2 ^ 16"
    and "length (attributes_of (before @ (0x20, xor_address secret a) # after)) mod 4 = 0"
  shows "StunMessageParse (stun_response True secret (before @ (0x20, xor_address secret a) # after) @ rest) secret = (False, True, a)"
proof -
  have o: "\<forall>x \<in> set before. optional x" "\<forall>x \<in> set after. optional x" using assms(3) by auto
  have "attributes True secret (Some a) (attributes_of after) = (False, Some a)"
    using attributes_all_optional [OF o(2), of True secret "Some a" "[]"] by (simp add: attributes_end)
  then have "attributes True secret None (attributes_of (before @ (0x20, xor_address secret a) # after)) = (False, Some a)"
    by (simp add: attributes_all_optional [OF o(1)] attributes_mapped [OF assms(1,2)])
  then show ?thesis using parse_response [OF assms(2,4,5), of True rest] by simp
qed

text \<open>The attribute with the code of an error, which every error response has, makes the parser refuse it.\<close>

lemma error_code_refused:
  assumes "length secret = SECRET_SIZE" "length v < 2 ^ 16 - 4" "length v mod 4 = 0"
  shows "fst (StunMessageParse (stun_response False secret [(9, v)]) secret)"
proof -
  have x: "fst (9 :: nat, v) < 2 ^ 16" "length (snd (9 :: nat, v)) < 2 ^ 16" using assms(2) by simp_all
  note p = attribute_parts [OF x, of "[]"]
  have l: "length (attribute (9, v)) = 4 + length v" using p(5) by simp
  have "attribute (9, v) @ [] \<noteq> []" "\<not> length (attribute (9, v) @ []) < 4" "\<not> length (attribute (9, v) @ []) < 4 + length (snd (9 :: nat, v))"
    using l by auto
  then have "attributes False secret None (attribute (9, v) @ []) = (True, None)"
    by (subst attributes.simps) (simp only: Let_def p, simp)
  then show ?thesis
    using parse_response [OF assms(1), of "[(9, v)]" False "[]"] l assms(2,3) by simp
qed

text \<open>
  Attributes are padded to multiples of four bytes. The parser does not skip the padding: the name of the
  server software, with one byte too much, is enough to refuse a response.
\<close>

lemma padding_refused:
  "fst (attributes True secret None ([0x80, 0x22, 0, 5, 104, 101, 108, 108, 111, 0, 0, 0] @ attribute (0x20, v) @ m))"
  by (subst attributes.simps, simp add: be16_def) (subst attributes.simps, simp add: attribute_def be16_bytes_def be16_def)

section \<open>The schedule of requests and what is learned\<close>

text \<open>A message with another transaction id changes nothing and is left to the game.\<close>

lemma forged_response:
  "take SECRET_SIZE (drop 8 m) \<noteq> pr_Stun pr \<Longrightarrow> Protocol_OnPacket m pr n = (False, pr, n)"
  by (simp add: Protocol_OnPacket_def StunMessageParse_def Let_def)

definition due :: "CProtocol \<Rightarrow> net \<Rightarrow> bool" where
  "due pr n \<longleftrightarrow> pr_HaveStunServer pr \<and> pr_NextTry pr \<noteq> -1 \<and> pr_NextTry pr \<le> fst (time_get n)"

text \<open>
  A request is sent exactly when one is due, and then none for 1, 2, 4, ..., at most 512 seconds.
\<close>

lemma RetryWait_bounds: "1 \<le> RetryWaitSeconds k" "RetryWaitSeconds k \<le> 512"
proof -
  have "nat (min (max k 0) 9) \<le> 9" by simp
  then have "(2::int) ^ nat (min (max k 0) 9) \<le> 2 ^ 9" by (intro power_increasing) simp_all
  then show "1 \<le> RetryWaitSeconds k" "RetryWaitSeconds k \<le> 512" by (simp_all add: RetryWaitSeconds_def)
qed

lemma Protocol_Update_cases:
  "Protocol_Update rnd pr n =
     (if due pr n
      then (pr\<lparr>pr_NextTry := fst (time_get n) + RetryWaitSeconds (pr_NumUnsuccessfulTries pr) * time_freq,
               pr_NumUnsuccessfulTries := pr_NumUnsuccessfulTries pr + 1, pr_Stun := rnd\<rparr>,
            net_send (pr_StunServer pr, StunMessagePrepare rnd) (snd (time_get n)))
      else (pr, snd (time_get n)))"
  by (auto simp: Protocol_Update_def due_def Let_def split: prod.splits)

lemma Protocol_learns:
  assumes "due pr n" "0 \<le> n_Clock n (n_Ticks n)" "0 \<le> n_Clock n (Suc (n_Ticks n))" "length rnd = SECRET_SIZE" "ip_address a"
    and "\<forall>x \<in> set before \<union> set after. optional x"
    and "length (attributes_of (before @ (0x20, xor_address rnd a) # after)) < 2 ^ 16"
    and "length (attributes_of (before @ (0x20, xor_address rnd a) # after)) mod 4 = 0"
    and "(pr', n') = Protocol_Update rnd pr n"
    and "m = stun_response True rnd (before @ (0x20, xor_address rnd a) # after)"
  shows "n_Sent n' = n_Sent n @ [(pr_StunServer pr, StunMessagePrepare rnd)]"
    "\<exists>pr'' n''. Protocol_OnPacket (m @ rest) pr' n' = (True, pr'', n'') \<and> fst (Protocol_GetConnectivity pr'' n'') = ADDRESS_KNOWN a \<and>
      pr_NextTry pr'' = -1"
proof -
  have u: "n' = net_send (pr_StunServer pr, StunMessagePrepare rnd) (snd (time_get n))"
    "pr' = pr\<lparr>pr_NextTry := fst (time_get n) + RetryWaitSeconds (pr_NumUnsuccessfulTries pr) * time_freq,
               pr_NumUnsuccessfulTries := pr_NumUnsuccessfulTries pr + 1, pr_Stun := rnd\<rparr>"
    using assms(1,9) by (simp_all add: Protocol_Update_cases)
  show "n_Sent n' = n_Sent n @ [(pr_StunServer pr, StunMessagePrepare rnd)]"
    by (simp add: u(1) net_send_def time_get_def)
  have later: "0 \<le> pr_NextTry pr'" "pr_HaveStunServer pr'" "pr_Stun pr' = rnd"
    using assms(1,2) RetryWait_bounds(1) [of "pr_NumUnsuccessfulTries pr"]
    by (auto simp: u(2) due_def time_get_def time_freq_def)
  have parse: "StunMessageParse (m @ rest) rnd = (False, True, a)"
    unfolding assms(10) by (rule parse_success) (use assms in auto)
  have "n_Clock n' (n_Ticks n') \<noteq> -1" using assms(3) by (simp add: u(1) net_send_def time_get_def)
  then show "\<exists>pr'' n''. Protocol_OnPacket (m @ rest) pr' n' = (True, pr'', n'') \<and> fst (Protocol_GetConnectivity pr'' n'') = ADDRESS_KNOWN a \<and>
      pr_NextTry pr'' = -1"
    using later parse by (simp add: Protocol_OnPacket_def time_get_def Protocol_GetConnectivity_def Let_def)
qed

section \<open>Properties\<close>

text \<open>
  When a request is due, exactly one is sent, with a new random transaction id. The answer of a server
  of RFC 5389 to it, whatever optional attributes it has besides the address, is understood: the client
  knows the address the server saw and stops asking. A message without this id changes nothing.
\<close>

theorem stun_learns_address:
  assumes "due pr n" "0 \<le> n_Clock n (n_Ticks n)" "0 \<le> n_Clock n (Suc (n_Ticks n))" "length rnd = SECRET_SIZE" "ip_address a"
    and "\<forall>x \<in> set before \<union> set after. optional x"
    and "length (attributes_of (before @ (0x20, xor_address rnd a) # after)) < 2 ^ 16"
    and "length (attributes_of (before @ (0x20, xor_address rnd a) # after)) mod 4 = 0"
  shows "case Protocol_Update rnd pr n of (pr', n') \<Rightarrow>
    n_Sent n' = n_Sent n @ [(pr_StunServer pr, StunMessagePrepare rnd)] \<and>
    (\<exists>pr'' n''. Protocol_OnPacket (stun_response True rnd (before @ (0x20, xor_address rnd a) # after) @ rest) pr' n' = (True, pr'', n'') \<and>
       fst (Protocol_GetConnectivity pr'' n'') = ADDRESS_KNOWN a \<and> pr_NextTry pr'' = -1) \<and>
    (\<forall>m. take SECRET_SIZE (drop 8 m) \<noteq> rnd \<longrightarrow> Protocol_OnPacket m pr' n' = (False, pr', n'))"
proof -
  obtain pr' n' where u: "(pr', n') = Protocol_Update rnd pr n" by (metis prod.collapse)
  have "pr_Stun pr' = rnd" using u assms(1) by (simp add: Protocol_Update_cases)
  then have "\<forall>m. take SECRET_SIZE (drop 8 m) \<noteq> rnd \<longrightarrow> Protocol_OnPacket m pr' n' = (False, pr', n')" using forged_response by simp
  with Protocol_learns(1) [OF assms u refl] Protocol_learns(2) [OF assms u refl, of rest] show ?thesis unfolding u [symmetric] by simp
qed

text \<open>A server that was just given, asked for the first time.\<close>

definition asking :: CProtocol where
  "asking = fst (Protocol_FeedStunServer \<lparr>na_type = 1, na_ip = [9, 9, 9, 9] @ replicate 12 0, na_port = 3478\<rparr>
     (Protocol_create (replicate 12 0)) quiet_net)"

definition public_addr :: NETADDR where
  "public_addr = \<lparr>na_type = 1, na_ip = [1, 2, 3, 4] @ replicate 12 0, na_port = 80\<rparr>"

theorem stun_learns_address_witness:
  "case Protocol_Update (replicate 12 7) asking quiet_net of (pr', n') \<Rightarrow>
    (\<exists>pr'' n''. Protocol_OnPacket (stun_response True (replicate 12 7) [(0x8022, [116, 101, 115, 116]), (0x20, xor_address (replicate 12 7) public_addr)]) pr' n'
       = (True, pr'', n'') \<and> fst (Protocol_GetConnectivity pr'' n'') = ADDRESS_KNOWN public_addr)"
proof -
  have "ip_address public_addr" by (simp add: public_addr_def ip_address_def)
  moreover have "due asking quiet_net"
    by (simp add: asking_def Protocol_FeedStunServer_def Protocol_Refresh_def Protocol_create_def due_def time_get_def quiet_net_def Let_def)
  moreover have "length (attributes_of ([(0x8022, [116, 101, 115, 116])] @ (0x20, xor_address (replicate 12 7) public_addr) # [])) = 20"
    using length_xor_address [of public_addr "replicate 12 7"] \<open>ip_address public_addr\<close>
    by (simp add: attribute_def be16_bytes_def public_addr_def)
  ultimately show ?thesis
    using stun_learns_address [of asking quiet_net "replicate 12 7" public_addr "[(0x8022, [116, 101, 115, 116])]" "[]" "[]"]
    by (auto simp: quiet_net_def optional_def)
qed

end
