(* ===== verification/NetClient.thy ===== *)
theory NetClient
  imports NetServer Stun
begin

text \<open>
  The client's end of \<^verbatim>\<open>src/src/engine/shared/network_client.cpp\<close>: one connection, the token cache
  for connectionless packets, and STUN. The socket is a list of datagrams to receive (\<open>incoming\<close>, as for
  the server) and the sent datagrams of \<open>net\<close>; \<open>gen k\<close> is the \<open>k\<close>-th random token of a call.
\<close>

section \<open>State\<close>

record CNetClient =
  cl_Connection :: CNetConnection
  cl_RecvUnpacker :: CNetRecvUnpacker
  cl_TokenCache :: CNetTokenCache
  cl_Stun :: CStun

definition NETTYPE_TW7 :: i32 where "NETTYPE_TW7 = 16"

datatype net_state = NETSTATE_OFFLINE | NETSTATE_CONNECTING | NETSTATE_ONLINE

text \<open>The bytes of a value-initialised client are zero.\<close>

definition zero_unpacker :: CNetRecvUnpacker where
  "zero_unpacker = \<lparr>u_Valid = False, u_Addr = zero_addr, u_CurrentChunk = 0, u_ClientId = 0,
     u_Data = \<lparr>rp_Flags = 0, rp_Ack = 0, rp_NumChunks = 0, rp_DataSize = 0, rp_Mem = []\<rparr>\<rparr>"

definition zero_connection :: CNetConnection where
  "zero_connection =
     \<lparr>c_Sequence = 0, c_Ack = 0, c_PeerAck = 0, c_State = OFFLINE, c_SecurityToken = 0, c_RemoteClosed = False,
      c_BlockCloseMsg = False, c_UnknownSeq = False,
      c_Buffer = \<lparr>rb_Items = \<lambda>_. \<lparr>it_Prev = None, it_Next = None, it_Free = False, it_Size = 0\<rparr>,
        rb_Produce = 0, rb_Consume = 0, rb_First = 0, rb_Last = 0, rb_Size = 0, rb_Recycle = False\<rparr>,
      c_Resends = \<lambda>_. \<lparr>rs_Flags = 0, rs_Data = [], rs_Sequence = 0, rs_LastSendTime = 0, rs_FirstSendTime = 0\<rparr>,
      c_LastUpdateTime = 0, c_LastRecvTime = 0, c_LastSendTime = 0, c_ErrorString = [], c_Construct = empty_construct,
      c_ConnectAddrs = [], c_PeerAddr = zero_addr, c_TimeoutProtected = False, c_TimeoutSituation = False,
      c_Sixup = False, c_Token = 0\<rparr>"

section \<open>Opening and connecting\<close>

text \<open>\<open>socket\<close> is whether a socket could be created; \<open>s6\<close> and \<open>s4\<close> are the first transaction ids.\<close>

definition Client_Open :: "bool \<Rightarrow> u8 list \<Rightarrow> u8 list \<Rightarrow> CNetClient \<Rightarrow> bool \<times> CNetClient" where
  "Client_Open socket s6 s4 cl =
     (if \<not> socket then (False, cl)
      else (True, \<lparr>cl_Connection = Conn_Init False zero_connection, cl_RecvUnpacker = zero_unpacker,
                   cl_TokenCache = \<lparr>m_TokenCache = [], m_ConnlessPackets = []\<rparr>, cl_Stun = Stun_create s6 s4\<rparr>))"

definition Client_Disconnect :: "reason \<Rightarrow> CNetClient \<Rightarrow> net \<Rightarrow> CNetClient \<times> net" where
  "Client_Disconnect r cl n = (let (c, n) = Conn_Disconnect r (cl_Connection cl) n in (cl\<lparr>cl_Connection := c\<rparr>, n))"

definition Client_Update :: "conn_config \<Rightarrow> u8 list \<Rightarrow> u8 list \<Rightarrow> CNetClient \<Rightarrow> net \<Rightarrow> (CNetClient \<times> net) option" where
  "Client_Update g r6 r4 cl n =
     do {
       (c, n) \<leftarrow> Conn_Update g (cl_Connection cl) n;
       let cl = cl\<lparr>cl_Connection := c\<rparr>;
           (cl, n) = (if c_State c = ERROR then Client_Disconnect Own_error_string cl n else (cl, n));
           (st, n) = Stun_Update r6 r4 (cl_Stun cl) n;
           (Now, n) = time_get n
       in Some (cl\<lparr>cl_Stun := st, cl_TokenCache := TokenCache_Update Now (cl_TokenCache cl)\<rparr>, n)
     }"

definition Client_Connect :: "NETADDR list \<Rightarrow> CNetClient \<Rightarrow> net \<Rightarrow> CNetClient \<times> net" where
  "Client_Connect addrs cl n = (let (r, c, n) = Conn_Connect addrs (cl_Connection cl) n in (cl\<lparr>cl_Connection := c\<rparr>, n))"

definition Client_Connect7 :: "u8 list \<Rightarrow> i32 \<Rightarrow> NETADDR list \<Rightarrow> CNetClient \<Rightarrow> net \<Rightarrow> CNetClient \<times> net" where
  "Client_Connect7 stack rnd addrs cl n =
     (let (r, c, n) = Conn_Connect7 stack rnd addrs (cl_Connection cl) n in (cl\<lparr>cl_Connection := c\<rparr>, n))"

definition Client_ResetErrorString :: "CNetClient \<Rightarrow> CNetClient" where
  "Client_ResetErrorString cl = cl\<lparr>cl_Connection := (cl_Connection cl)\<lparr>c_ErrorString := []\<rparr>\<rparr>"

section \<open>Receiving\<close>

text \<open>The chunks that are left of the last packet.\<close>

definition client_fetch :: "CNetClient \<Rightarrow> CNetChunk option \<times> CNetClient" where
  "client_fetch cl =
     (let (chunk, u, c) = FetchChunk (cl_RecvUnpacker cl) (Some (cl_Connection cl));
          cl = cl\<lparr>cl_RecvUnpacker := u\<rparr>
      in (chunk, case c of Some c \<Rightarrow> cl\<lparr>cl_Connection := c\<rparr> | None \<Rightarrow> cl))"

text \<open>A packet that was unpacked: its token is cached if its first byte is that of a token message.\<close>

definition client_token :: "(nat \<Rightarrow> i32) \<Rightarrow> NETADDR \<Rightarrow> rpacket \<Rightarrow> i32 \<Rightarrow> CNetClient \<Rightarrow> net \<Rightarrow> CNetClient \<times> net" where
  "client_token gen addr p ResponseToken cl n =
     (if uint (mem_at (rp_Mem p) 0) = NET_CTRLMSG_TOKEN
      then
        let (Now, n) = (if ResponseToken = NET_TOKEN_NONE then (0, n) else time_get n);
            (tc, ds) = TokenCache_AddToken gen Now time_freq (cl_TokenCache cl) addr ResponseToken
        in (cl\<lparr>cl_TokenCache := tc\<rparr>, foldl (\<lambda>n d. net_send d n) n ds)
      else (cl, n))"

text \<open>
  \<open>UnpackPacket\<close> takes \<open>Sixup\<close> by reference. This is its value after the call, also where the
  packet is refused.
\<close>

definition unpack_sixup :: "u8 list \<Rightarrow> bool \<Rightarrow> bool" where
  "unpack_sixup buf Sixup =
     (let b = uint (mem_at buf 0)
      in if length buf < NET_PACKETHEADERSIZE \<or> length buf > NET_MAX_PACKETSIZE then Sixup
         else if drop_bit 2 b AND NET_PACKETFLAG_CONNLESS \<noteq> 0 then b AND 0x3 = 1
         else if drop_bit 2 b AND NET_PACKETFLAG_UNUSED \<noteq> 0 then True
         else Sixup)"

text \<open>
  What is done with one datagram: the chunk it leads to at once, if any, the version and the response
  token that the next one is read with.
\<close>

definition client_datagram :: "(nat \<Rightarrow> i32) \<Rightarrow> bool \<Rightarrow> incoming \<Rightarrow> i32 \<Rightarrow> CNetClient \<Rightarrow> net \<Rightarrow>
    (CNetChunk option \<times> bool \<times> i32 \<times> CNetClient \<times> net) option" where
  "client_datagram gen Sixup d ResponseToken cl n =
     (let (stun, st, n) = Stun_OnPacket (i_Addr d) (i_Bytes d) (cl_Stun cl) n;
          cl = cl\<lparr>cl_Stun := st\<rparr>
      in if stun then Some (None, Sixup, ResponseToken, cl, n)
         else case UnpackPacket (i_Bytes d) Sixup (Some (i_Token d)) (Some NET_SECURITY_TOKEN_UNKNOWN) of
           Unpacked r \<Rightarrow>
             let p = in_memory (r_Packet r) (i_Stale d);
                 Token = the (r_SecurityToken r);
                 ResponseToken = the (r_ResponseToken r);
                 Sixup = unpack_sixup (i_Bytes d) Sixup;
                 addr = (if Sixup then (i_Addr d)\<lparr>na_type := na_type (i_Addr d) OR NETTYPE_TW7\<rparr> else i_Addr d);
                 cl = cl\<lparr>cl_RecvUnpacker := (cl_RecvUnpacker cl)\<lparr>u_Data := p\<rparr>\<rparr>;
                 (cl, n) = client_token gen addr p ResponseToken cl n
             in if rp_Flags p AND NET_PACKETFLAG_CONNLESS \<noteq> 0
                then Some (Some
                  \<lparr>ch_ClientId = -1, ch_Address = addr,
                   ch_Flags = (if rp_Flags p AND NET_PACKETFLAG_EXTENDED \<noteq> 0
                               then NETSENDFLAG_CONNLESS OR NETSENDFLAG_EXTENDED else NETSENDFLAG_CONNLESS),
                   ch_DataSize = rp_DataSize p, ch_pData = 0, ch_aExtraData = p_aExtraData (r_Packet r)\<rparr>,
                  Sixup, ResponseToken, cl, n)
                else if c_State (cl_Connection cl) \<noteq> OFFLINE \<and> c_State (cl_Connection cl) \<noteq> ERROR
                then do {
                  (k, p, c, n) \<leftarrow> Feed (i_Stack d) p addr Token ResponseToken (cl_Connection cl) n;
                  let cl = cl\<lparr>cl_Connection := c, cl_RecvUnpacker := (cl_RecvUnpacker cl)\<lparr>u_Data := p\<rparr>\<rparr>
                  in Some (None, Sixup, ResponseToken,
                       if k \<noteq> 0 then cl\<lparr>cl_RecvUnpacker := Unpacker_Start addr 0 (cl_RecvUnpacker cl)\<rparr> else cl, n)
                }
                else Some (None, Sixup, ResponseToken, cl, n)
         | Refused \<Rightarrow> Some (None, unpack_sixup (i_Bytes d) Sixup, NET_SECURITY_TOKEN_UNKNOWN, cl, n)
         | Null_write \<Rightarrow> None)"

text \<open>
  The loop of \<open>Recv\<close>: a chunk or none, the response token, and the datagrams that stay in the socket.
\<close>

fun Client_Recv :: "(nat \<Rightarrow> i32) \<Rightarrow> bool \<Rightarrow> incoming list \<Rightarrow> i32 \<Rightarrow> CNetClient \<Rightarrow> net \<Rightarrow>
    (CNetChunk option \<times> i32 \<times> incoming list \<times> CNetClient \<times> net) option" where
  "Client_Recv gen Sixup ds ResponseToken cl n =
     (case client_fetch cl of
        (Some chunk, cl) \<Rightarrow> Some (Some chunk, ResponseToken, ds, cl, n)
      | (None, cl) \<Rightarrow>
          (case ds of
             [] \<Rightarrow> Some (None, ResponseToken, [], cl, n)
           | d # ds \<Rightarrow>
               if i_Bytes d = [] then Some (None, ResponseToken, ds, cl, n)
               else case client_datagram gen Sixup d ResponseToken cl n of
                      None \<Rightarrow> None
                    | Some (Some chunk, Sixup, ResponseToken, cl, n) \<Rightarrow> Some (Some chunk, ResponseToken, ds, cl, n)
                    | Some (None, Sixup, ResponseToken, cl, n) \<Rightarrow> Client_Recv gen Sixup ds ResponseToken cl n))"

declare Client_Recv.simps [simp del]

text \<open>The version an unpacked packet has.\<close>

lemma unpacked_sixup: "UnpackPacket buf Sixup t r = Unpacked y \<Longrightarrow> r_Sixup y = unpack_sixup buf Sixup"
  by (auto simp: UnpackPacket_def unpack_sixup_def unpack_connless_def unpack_connected_def Let_def split: if_splits option.splits)

section \<open>Sending\<close>

text \<open>\<open>None\<close> is the failed assertion on the client id.\<close>

definition Client_Send :: "u8 list \<Rightarrow> (nat \<Rightarrow> i32) \<Rightarrow> CNetChunk \<Rightarrow> u8 list \<Rightarrow> CNetClient \<Rightarrow> net \<Rightarrow> (int \<times> CNetClient \<times> net) option" where
  "Client_Send garbage gen chunk Data cl n =
     (if length Data \<ge> NET_MAX_PAYLOAD then Some (-1, cl, n)
      else if ch_Flags chunk AND NETSENDFLAG_CONNLESS \<noteq> 0
      then if na_type (ch_Address chunk) AND NETTYPE_TW7 \<noteq> 0
           then
             let (Now, n) = (if TokenCache_GetToken (cl_TokenCache cl) (ch_Address chunk) = NET_TOKEN_NONE then time_get n else (0, n));
                 (tc, ds) = TokenCache_SendPacketConnless garbage gen Now time_freq (cl_TokenCache cl) (ch_Address chunk) Data
             in Some (0, cl\<lparr>cl_TokenCache := tc\<rparr>, foldl (\<lambda>n d. net_send d n) n ds)
           else Some (0, cl, net_send (SendPacketConnless (ch_Address chunk) Data
                       (ch_Flags chunk AND NETSENDFLAG_EXTENDED \<noteq> 0) (ch_aExtraData chunk)) n)
      else if ch_ClientId chunk \<noteq> 0 then None
      else
        let Flags = (if ch_Flags chunk AND NETSENDFLAG_VITAL \<noteq> 0 then NET_CHUNKFLAG_VITAL else 0)
        in do {
          (r, c, n) \<leftarrow> QueueChunk Flags Data (cl_Connection cl) n;
          let (c, n) = (if ch_Flags chunk AND NETSENDFLAG_FLUSH \<noteq> 0 then snd (Flush c n) else (c, n))
          in Some (0, cl\<lparr>cl_Connection := c\<rparr>, n)
        })"

definition Client_State :: "CNetClient \<Rightarrow> net_state" where
  "Client_State cl =
     (if c_State (cl_Connection cl) = ONLINE then NETSTATE_ONLINE
      else if c_State (cl_Connection cl) = OFFLINE then NETSTATE_OFFLINE
      else NETSTATE_CONNECTING)"

definition Client_Flush :: "CNetClient \<Rightarrow> net \<Rightarrow> int \<times> CNetClient \<times> net" where
  "Client_Flush cl n = (let (r, c, n) = Flush (cl_Connection cl) n in (r, cl\<lparr>cl_Connection := c\<rparr>, n))"

definition GotProblems :: "int \<Rightarrow> CNetClient \<Rightarrow> net \<Rightarrow> bool \<times> net" where
  "GotProblems MaxLatency cl n = (let (t, n) = time_get n in (t - c_LastRecvTime (cl_Connection cl) > MaxLatency, n))"

definition Client_ErrorString :: "CNetClient \<Rightarrow> u8 list" where
  "Client_ErrorString cl = c_ErrorString (cl_Connection cl)"

definition Client_FeedStunServer :: "NETADDR \<Rightarrow> CNetClient \<Rightarrow> net \<Rightarrow> CNetClient \<times> net" where
  "Client_FeedStunServer StunServer cl n =
     (let (st, n) = Stun_FeedStunServer StunServer (cl_Stun cl) n in (cl\<lparr>cl_Stun := st\<rparr>, n))"

definition RefreshStun :: "CNetClient \<Rightarrow> net \<Rightarrow> CNetClient \<times> net" where
  "RefreshStun cl n = (let (st, n) = Stun_Refresh (cl_Stun cl) n in (cl\<lparr>cl_Stun := st\<rparr>, n))"

definition GetConnectivity :: "i32 \<Rightarrow> CNetClient \<Rightarrow> net \<Rightarrow> (CONNECTIVITY \<times> net) option" where
  "GetConnectivity NetType cl n = Stun_GetConnectivity NetType (cl_Stun cl) n"

end
