(* ===== verification/NetClientSafe.thy ===== *)
theory NetClientSafe
  imports NetClient NetServerSafe
begin

text \<open>
  The client's end in every state its operations lead to: each operation returns and keeps the
  connection's invariant. Then the composition with the server of \<open>NetServer\<close>: the packets of one
  end are the datagrams of the other, and the handshake ends with both ends online.
\<close>

section \<open>Every operation returns\<close>

definition cl_inv :: "CNetClient \<Rightarrow> bool" where
  "cl_inv cl \<longleftrightarrow> conn_ok (cl_Connection cl)"

lemma unpacked_ack:
  "UnpackPacket buf b v w = Unpacked y \<Longrightarrow> 0 \<le> rp_Ack (in_memory (r_Packet y) s) \<and> rp_Ack (in_memory (r_Packet y) s) < NET_MAX_SEQUENCE"
  using UnpackPacket_safe [where buf = buf and Sixup = b and pTok = v and pResp = w] by (simp add: in_memory_def)

lemma Feed_returns:
  assumes "conn_ok c" "0 \<le> rp_Ack p" "rp_Ack p < NET_MAX_SEQUENCE"
  shows "\<exists>k p' c' n'. Feed stack p addr tok rtok c n = Some (k, p', c', n') \<and> conn_ok c'"
  by (rule Feed_ok [OF assms, of addr tok stack rtok n]) (use assms in auto)

lemma client_fetch_inv:
  assumes "cl_inv cl" "client_fetch cl = (chunk, cl')"
  shows "cl_inv cl'"
proof -
  obtain r u c where f: "FetchChunk (cl_RecvUnpacker cl) (Some (cl_Connection cl)) = (r, u, c)" by (metis prod_cases3)
  from FetchChunk_ok [OF _ f] assms(1) obtain c' where "c = Some c'" "conn_ok c'" by (auto simp: cl_inv_def)
  with assms(2) f show ?thesis by (auto simp: client_fetch_def cl_inv_def)
qed

lemma client_token_frame:
  "client_token gen addr p rt cl n = (cl', n') \<Longrightarrow> cl' = cl\<lparr>cl_TokenCache := cl_TokenCache cl'\<rparr>"
  by (auto simp: client_token_def Let_def split: if_splits prod.splits)

lemma client_datagram_inv:
  assumes "cl_inv cl"
  shows "\<exists>r s' rt' cl' n'. client_datagram gen Sixup d rt cl n = Some (r, s', rt', cl', n') \<and> cl_inv cl'"
proof -
  obtain s st n1 where stun: "Stun_OnPacket (i_Addr d) (i_Bytes d) (cl_Stun cl) n = (s, st, n1)" by (metis prod_cases3)
  show ?thesis
  proof (cases "UnpackPacket (i_Bytes d) Sixup (Some (i_Token d)) (Some NET_SECURITY_TOKEN_UNKNOWN)")
    case Refused
    then show ?thesis using assms by (simp add: client_datagram_def stun Let_def cl_inv_def)
  next
    case Null_write
    then show ?thesis
      using UnpackPacket_safe [where buf = "i_Bytes d" and Sixup = Sixup and pTok = "Some (i_Token d)" and pResp = "Some NET_SECURITY_TOKEN_UNKNOWN"]
      by simp
  next
    case (Unpacked r)
    define p where "p = in_memory (r_Packet r) (i_Stale d)"
    define addr where "addr = (if unpack_sixup (i_Bytes d) Sixup then (i_Addr d)\<lparr>na_type := na_type (i_Addr d) OR NETTYPE_TW7\<rparr> else i_Addr d)"
    obtain cl2 n2 where tok: "client_token gen addr p (the (r_ResponseToken r))
        (cl\<lparr>cl_Stun := st, cl_RecvUnpacker := (cl_RecvUnpacker cl)\<lparr>u_Data := p\<rparr>\<rparr>) n1 = (cl2, n2)" by fastforce
    define tc where "tc = cl_TokenCache cl2"
    have cl2: "cl2 = cl\<lparr>cl_Stun := st, cl_RecvUnpacker := (cl_RecvUnpacker cl)\<lparr>u_Data := p\<rparr>, cl_TokenCache := tc\<rparr>"
      by (subst client_token_frame [OF tok]) (simp add: tc_def)
    have "conn_ok (cl_Connection cl2)" using assms by (simp add: cl2 cl_inv_def)
    then obtain k p' c' n' where feed: "Feed (i_Stack d) p addr (the (r_SecurityToken r)) (the (r_ResponseToken r)) (cl_Connection cl2) n2
        = Some (k, p', c', n')" "conn_ok c'"
      using Feed_returns unpacked_ack [OF Unpacked] unfolding p_def by blast
    show ?thesis
      using feed \<open>conn_ok (cl_Connection cl2)\<close> assms
      by (simp add: client_datagram_def stun Unpacked p_def [symmetric] addr_def [symmetric] tok Let_def cl_inv_def)
  qed
qed

lemma Client_Recv_inv:
  assumes "cl_inv cl"
  shows "\<exists>r rt' ds' cl' n'. Client_Recv gen Sixup ds rt cl n = Some (r, rt', ds', cl', n') \<and> cl_inv cl'"
  using assms
proof (induction ds arbitrary: Sixup rt cl n)
  case Nil
  obtain r cl1 where f: "client_fetch cl = (r, cl1)" by fastforce
  then show ?case using client_fetch_inv [OF Nil f] by (subst Client_Recv.simps) (auto split: option.splits)
next
  case (Cons d ds)
  obtain r cl1 where f: "client_fetch cl = (r, cl1)" by fastforce
  have inv1: "cl_inv cl1" by (rule client_fetch_inv [OF Cons.prems f])
  show ?case
  proof (cases "r = None \<and> i_Bytes d \<noteq> []")
    case False
    then show ?thesis using f inv1 by (subst Client_Recv.simps) (auto split: option.splits)
  next
    case True
    obtain r2 s2 rt2 cl2 n2 where dg: "client_datagram gen Sixup d rt cl1 n = Some (r2, s2, rt2, cl2, n2)" "cl_inv cl2"
      using client_datagram_inv [OF inv1] by blast
    from Cons.IH [OF dg(2), of s2 rt2 n2] show ?thesis
      using f True dg by (cases r2; subst Client_Recv.simps) auto
  qed
qed

lemma Client_Send_inv:
  assumes "cl_inv cl" "ch_Flags chunk AND NETSENDFLAG_CONNLESS \<noteq> 0 \<or> ch_ClientId chunk = 0"
  shows "\<exists>r cl' n'. Client_Send garbage gen chunk Data cl n = Some (r, cl', n') \<and> cl_inv cl'"
proof (cases "length Data \<ge> NET_MAX_PAYLOAD \<or> ch_Flags chunk AND NETSENDFLAG_CONNLESS \<noteq> 0")
  case True
  then show ?thesis using assms(1) by (auto simp: Client_Send_def cl_inv_def Let_def split: prod.splits)
next
  case False
  let ?F = "if ch_Flags chunk AND NETSENDFLAG_VITAL \<noteq> 0 then NET_CHUNKFLAG_VITAL else 0"
  obtain r c n1 where q: "QueueChunk ?F Data (cl_Connection cl) n = Some (r, c, n1)" "conn_ok c"
    using QueueChunk_ok [of "cl_Connection cl" ?F Data n] assms(1) by (auto simp: cl_inv_def)
  obtain k c2 n2 where fl: "Flush c n1 = (k, c2, n2)" by (metis prod_cases3)
  then have "conn_ok c2" using conn_ok_same_link [OF Flush_same_link] q(2) by blast
  then show ?thesis using False assms(2) q fl by (simp add: Client_Send_def cl_inv_def Let_def)
qed

lemma Client_Disconnect_inv: "cl_inv cl \<Longrightarrow> cl_inv (fst (Client_Disconnect r cl n))"
  using Disconnect_ok [of "cl_Connection cl" r n]
  by (cases "Conn_Disconnect r (cl_Connection cl) n") (simp add: Client_Disconnect_def cl_inv_def)

lemma Client_Update_inv:
  assumes "cl_inv cl"
  shows "\<exists>cl' n'. Client_Update g r6 r4 cl n = Some (cl', n') \<and> cl_inv cl'"
proof -
  obtain c n1 where u: "Conn_Update g (cl_Connection cl) n = Some (c, n1)" "conn_ok c"
    using Conn_Update_ok [of "cl_Connection cl" g n] assms by (auto simp: cl_inv_def)
  let ?cl = "cl\<lparr>cl_Connection := c\<rparr>"
  obtain cl2 n2 where d: "(if c_State c = ERROR then Client_Disconnect Own_error_string ?cl n1 else (?cl, n1)) = (cl2, n2)" by fastforce
  have "cl_inv ?cl" using u(2) by (simp add: cl_inv_def)
  then have "cl_inv cl2" using d Client_Disconnect_inv [of ?cl Own_error_string n1] by (auto split: if_splits)
  moreover obtain st n3 where "Stun_Update r6 r4 (cl_Stun cl2) n2 = (st, n3)" by fastforce
  moreover obtain Now n4 where "time_get n3 = (Now, n4)" by fastforce
  ultimately show ?thesis using u(1) d by (simp add: Client_Update_def Let_def cl_inv_def)
qed

datatype client_op =
    Cl_Connect "NETADDR list"
  | Cl_Connect7 "u8 list" i32 "NETADDR list"
  | Cl_Disconnect reason
  | Cl_Update "u8 list" "u8 list"
  | Cl_Recv "nat \<Rightarrow> i32" bool "incoming list" i32
  | Cl_Send "u8 list" "nat \<Rightarrow> i32" CNetChunk "u8 list"
  | Cl_Flush
  | Cl_ResetError
  | Cl_FeedStunServer NETADDR
  | Cl_RefreshStun

fun client_do :: "conn_config \<Rightarrow> client_op \<Rightarrow> CNetClient \<times> net \<Rightarrow> (CNetClient \<times> net) option" where
  "client_do g (Cl_Connect addrs) (cl, n) = Some (Client_Connect addrs cl n)"
| "client_do g (Cl_Connect7 stack rnd addrs) (cl, n) = Some (Client_Connect7 stack rnd addrs cl n)"
| "client_do g (Cl_Disconnect r) (cl, n) = Some (Client_Disconnect r cl n)"
| "client_do g (Cl_Update r6 r4) (cl, n) = Client_Update g r6 r4 cl n"
| "client_do g (Cl_Recv gen Sixup ds rt) (cl, n) = map_option (\<lambda>(_, _, _, s). s) (Client_Recv gen Sixup ds rt cl n)"
| "client_do g (Cl_Send garbage gen chunk Data) (cl, n) = map_option snd (Client_Send garbage gen chunk Data cl n)"
| "client_do g Cl_Flush (cl, n) = Some (snd (Client_Flush cl n))"
| "client_do g Cl_ResetError (cl, n) = Some (Client_ResetErrorString cl, n)"
| "client_do g (Cl_FeedStunServer a) (cl, n) = Some (Client_FeedStunServer a cl n)"
| "client_do g Cl_RefreshStun (cl, n) = Some (RefreshStun cl n)"

text \<open>The game sends to the client id 0 only.\<close>

fun client_op_ok :: "client_op \<Rightarrow> bool" where
  "client_op_ok (Cl_Send _ _ chunk _) \<longleftrightarrow> ch_Flags chunk AND NETSENDFLAG_CONNLESS \<noteq> 0 \<or> ch_ClientId chunk = 0"
| "client_op_ok _ \<longleftrightarrow> True"

lemma client_do_inv:
  assumes "cl_inv cl" "client_op_ok op"
  shows "\<exists>cl' n'. client_do g op (cl, n) = Some (cl', n') \<and> cl_inv cl'"
proof (cases op)
  case (Cl_Connect addrs)
  then show ?thesis using Connect_ok [of "cl_Connection cl" addrs n] assms(1)
    by (auto simp: Client_Connect_def cl_inv_def split: prod.splits)
next
  case (Cl_Connect7 stack rnd addrs)
  then show ?thesis using Connect7_ok [of "cl_Connection cl" stack rnd addrs n] assms(1)
    by (auto simp: Client_Connect7_def cl_inv_def split: prod.splits)
next
  case (Cl_Disconnect r)
  then show ?thesis using Client_Disconnect_inv [OF assms(1), of r n] by (metis client_do.simps(3) prod.collapse)
next
  case (Cl_Update r6 r4)
  then show ?thesis using Client_Update_inv [OF assms(1)] by simp
next
  case (Cl_Recv gen Sixup ds rt)
  then show ?thesis using Client_Recv_inv [OF assms(1), of gen Sixup ds rt n] by auto
next
  case (Cl_Send garbage gen chunk Data)
  then show ?thesis using Client_Send_inv [OF assms(1), of chunk garbage gen Data n] assms(2) by auto
next
  case Cl_Flush
  obtain k c2 n2 where fl: "Flush (cl_Connection cl) n = (k, c2, n2)" by (metis prod_cases3)
  then have "conn_ok c2" using conn_ok_same_link [OF Flush_same_link [OF fl]] assms(1) by (simp add: cl_inv_def)
  then show ?thesis using Cl_Flush fl by (simp add: Client_Flush_def cl_inv_def)
next
  case Cl_ResetError
  then show ?thesis using assms(1) conn_ok_cong [of "(cl_Connection cl)\<lparr>c_ErrorString := []\<rparr>" "cl_Connection cl"]
    by (simp add: Client_ResetErrorString_def cl_inv_def)
next
  case (Cl_FeedStunServer a)
  then show ?thesis using assms(1) by (auto simp: Client_FeedStunServer_def cl_inv_def split: prod.splits)
next
  case Cl_RefreshStun
  then show ?thesis using assms(1) by (auto simp: RefreshStun_def cl_inv_def split: prod.splits)
qed

fun client_run :: "conn_config \<Rightarrow> client_op list \<Rightarrow> CNetClient \<times> net \<Rightarrow> (CNetClient \<times> net) option" where
  "client_run g [] s = Some s"
| "client_run g (op # ops) s = Option.bind (client_do g op s) (client_run g ops)"

lemma client_run_inv:
  "cl_inv cl \<Longrightarrow> \<forall>op \<in> set ops. client_op_ok op \<Longrightarrow> \<exists>cl' n'. client_run g ops (cl, n) = Some (cl', n') \<and> cl_inv cl'"
proof (induction ops arbitrary: cl n)
  case (Cons op ops)
  then obtain cl1 n1 where "client_do g op (cl, n) = Some (cl1, n1)" "cl_inv cl1" using client_do_inv [of cl op g n] by auto
  with Cons show ?case by simp
qed simp

lemma Client_Open_inv: "cl_inv (snd (Client_Open True s6 s4 cl))"
  by (simp add: Client_Open_def cl_inv_def Init_ok)

section \<open>Getting in\<close>

text \<open>A datagram on its way: it arrives from the sender's address, with anything behind it in memory.\<close>

definition arrives :: "NETADDR \<Rightarrow> datagram \<Rightarrow> incoming \<Rightarrow> bool" where
  "arrives src_addr dg d \<longleftrightarrow> i_Addr d = src_addr \<and> i_Bytes d = snd dg"

lemma control_received:
  assumes "0 \<le> Ack" "Ack < NET_MAX_SEQUENCE" "length extra + 5 \<le> NET_MAX_PAYLOAD"
  shows "\<exists>r. UnpackPacket (snd (SendControlMsg addr Ack m extra tok False)) False (Some t0) (Some r0) = Unpacked r \<and>
    r_Sixup r = False \<and> p_Flags (r_Packet r) AND NET_PACKETFLAG_CONTROL \<noteq> 0 \<and> p_Flags (r_Packet r) AND NET_PACKETFLAG_CONNLESS = 0 \<and>
    p_Flags (r_Packet r) AND NET_PACKETFLAG_RESEND = 0 \<and> p_Ack (r_Packet r) = Ack \<and>
    p_aChunkData (r_Packet r) = byte m # extra @ (if tok = NET_SECURITY_TOKEN_UNSUPPORTED then [] else WriteSecurityToken tok)"
proof -
  let ?p = "\<lparr>p_Flags = NET_PACKETFLAG_CONTROL, p_Ack = Ack, p_NumChunks = 0, p_aChunkData = byte m # extra, p_aExtraData = []\<rparr>"
  have "packet_ok ?p" using assms by (simp add: packet_ok_def)
  from Send_Unpack [OF this, of True addr tok False t0 r0] show ?thesis
    unfolding SendControlMsg_def by (auto simp: sent_data_def split: if_splits)
qed

lemma control_first_byte: "snd (SendControlMsg addr 0 m extra tok False) ! 0 = 16"
  by (simp add: SendControlMsg_def SendPacket_def packet_body_def Let_def byte_def)

lemma on_protocol_same: "on_protocol i (\<lambda>pr. (r, pr, n)) st = (r, st, n)"
  by (cases st; cases i) simp_all

lemma stun_leaves_control:
  assumes "i_Bytes d = snd (SendControlMsg addr 0 m extra tok False)"
  shows "Stun_OnPacket (i_Addr d) (i_Bytes d) st n = (False, st, n)"
proof -
  have "Protocol_OnPacket (i_Bytes d) pr n = (False, pr, n)" for pr
  proof -
    obtain e a b where parse: "StunMessageParse (i_Bytes d) (pr_Stun pr) = (e, a, b)" by (metis prod_cases3)
    have "i_Bytes d ! 0 = 16" unfolding assms by (rule control_first_byte)
    then have "fst (StunMessageParse (i_Bytes d) (pr_Stun pr))" by (simp add: StunMessageParse_def Let_def)
    then show ?thesis unfolding parse Protocol_OnPacket_def by (simp add: parse)
  qed
  then show ?thesis by (simp add: Stun_OnPacket_def on_protocol_same split: option.split)
qed

text \<open>The server has seen no connection attempt of this address lately, has room, and does not know it.\<close>

definition has_room :: "sv_env \<Rightarrow> NETADDR \<Rightarrow> CNetServer \<Rightarrow> bool" where
  "has_room e addr sv \<longleftrightarrow> se_Banned e addr = None \<and> na_type addr \<noteq> NETTYPE_WEBSOCKET_IPV4 \<and>
     \<not> ClientExists sv addr \<and> (\<forall>i < NET_CONNLIMIT_IPS. net_addr_comp_noport (sp_Addr (sv_SpamConns sv ! i)) addr) \<and>
     NumClientsWithAddr sv addr + 1 \<le> sv_MaxClientsPerIp sv \<and> free_slot sv \<noteq> None"

lemma has_room_cong:
  "sv_Slots sv' = sv_Slots sv \<Longrightarrow> sv_MaxClients sv' = sv_MaxClients sv \<Longrightarrow> sv_MaxClientsPerIp sv' = sv_MaxClientsPerIp sv \<Longrightarrow>
   sv_SpamConns sv' = sv_SpamConns sv \<Longrightarrow> has_room e addr sv' \<longleftrightarrow> has_room e addr sv"
  by (simp add: has_room_def ClientExists_def GetClientSlot_def slot_def NumClientsWithAddr_def free_slot_def)

lemma connlimit_loop_new:
  "\<forall>i \<in> set is. net_addr_comp_noport (sp_Addr (sps ! i)) addr \<Longrightarrow> fst (connlimit_loop g addr Now sps is k) = False"
  by (induction "is" arbitrary: k) simp_all

lemma has_room_accepted:
  assumes "has_room e addr sv" "length (sv_Slots sv) = NET_MAX_CLIENTS" "sv_MaxClients sv \<le> NET_MAX_CLIENTS"
  shows "\<exists>i sv' n'. TryAcceptClient e addr t False False 0 sv n = (int i, sv', n') \<and> sv_Events sv' = sv_Events sv @ [New_client i False] \<and>
    i < sv_MaxClients sv \<and> c_State (slot sv' i) = ONLINE \<and> c_PeerAddr (slot sv' i) = addr \<and> c_SecurityToken (slot sv' i) = t"
proof -
  obtain Now n1 where t: "time_get n = (Now, n1)" by fastforce
  obtain l sps where cl: "connlimit_loop (se_Config e) addr Now (sv_SpamConns sv) [0..<NET_CONNLIMIT_IPS] 0 = (l, sps)" by fastforce
  have "l = False"
    using connlimit_loop_new [of "[0..<NET_CONNLIMIT_IPS]" "sv_SpamConns sv" addr "se_Config e" Now 0] assms(1) cl by (simp add: has_room_def)
  obtain i where i: "free_slot sv = Some i" using assms(1) by (auto simp: has_room_def)
  have lt: "i < sv_MaxClients sv" using free_slot_Some [OF i] by simp
  obtain c n2 where d: "DirectInit addr t 0 False (slot sv i) n1 = (c, n2)" by fastforce
  then have c: "c_State c = ONLINE" "c_PeerAddr c = addr" "c_SecurityToken c = t"
    by (auto simp: DirectInit_def SetPeerAddr_def Conn_Reset_def Let_def time_get_def)
  let ?sv = "sv\<lparr>sv_SpamConns := sps\<rparr>"
  have same: "NumClientsWithAddr ?sv addr = NumClientsWithAddr sv addr" "free_slot ?sv = free_slot sv" "slot ?sv i = slot sv i"
    by (simp_all add: NumClientsWithAddr_def free_slot_def slot_def)
  have "slot (callback (New_client i False) (set_slot i c ?sv)) i = c"
    using slot_set_slot [of i ?sv i c] assms(2,3) lt by simp
  then show ?thesis
    using assms(1) lt c
    by (simp add: TryAcceptClient_def Connlimit_def t cl \<open>l = False\<close> same i d Let_def has_room_def) (simp add: callback_def)
qed

lemma ToSecurityToken_written [simp]: "ToSecurityToken (WriteSecurityToken t @ rest) = t"
  by (simp add: ToSecurityToken_Write)

text \<open>What the server does with a control packet of an address it does not know.\<close>

lemma recv_unknown_control:
  assumes "has_room e (i_Addr d) sv" "i_Bytes d = snd (SendControlMsg addr 0 m extra tok False)" "length extra + 5 \<le> NET_MAX_PAYLOAD"
    and "tok \<noteq> NET_SECURITY_TOKEN_UNSUPPORTED" "m = NET_CTRLMSG_CONNECT \<and> extra = SECURITY_TOKEN_MAGIC \<or> m = NET_CTRLMSG_ACCEPT \<and> extra = []"
  shows "\<exists>rt' p. rp_DataSize p = length extra + 5 \<and> (\<exists>rest. rp_Mem p = byte m # extra @ WriteSecurityToken tok @ rest) \<and>
    recv_datagram e d rt sv n = Some (None, rt', OnTokenCtrlMsg e (i_Addr d) m p (sv\<lparr>sv_RecvUnpacker := (sv_RecvUnpacker sv)\<lparr>u_Data := p\<rparr>\<rparr>) n)"
proof -
  obtain r where r: "UnpackPacket (i_Bytes d) False (Some (i_Token d)) (Some rt) = Unpacked r" "r_Sixup r = False"
    "p_Flags (r_Packet r) AND NET_PACKETFLAG_CONTROL \<noteq> 0" "p_Flags (r_Packet r) AND NET_PACKETFLAG_CONNLESS = 0"
    "p_aChunkData (r_Packet r) = byte m # extra @ WriteSecurityToken tok"
    using control_received [of 0 extra addr m tok "i_Token d" rt] assms(3,4) unfolding assms(2) by auto
  define p where "p = in_memory (r_Packet r) (i_Stale d)"
  have p: "rp_DataSize p = length extra + 5" "rp_Mem p = byte m # extra @ WriteSecurityToken tok @ i_Stale d"
    "rp_Flags p = p_Flags (r_Packet r)"
    using r(5) by (simp_all add: p_def in_memory_def)
  have ctrl: "uint (mem_at (rp_Mem p) 0) = m" using p(2) assms(5) by auto
  have dd: "IsDDNetControlMsg p"
    using assms(5) ctrl p r(3) by (auto simp: IsDDNetControlMsg_def rp_magic_def SECURITY_TOKEN_MAGIC_def)
  let ?sv = "sv\<lparr>sv_RecvUnpacker := (sv_RecvUnpacker sv)\<lparr>u_Data := p\<rparr>\<rparr>"
  have unknown: "GetClientSlot ?sv (i_Addr d) = -1"
    using assms(1) by (simp add: has_room_def ClientExists_def GetClientSlot_def slot_def)
  have "recv_connected e d r p (the (r_SecurityToken r)) (the (r_ResponseToken r)) ?sv n =
      Some (None, the (r_ResponseToken r), OnTokenCtrlMsg e (i_Addr d) m p ?sv n)"
    using p(1) by (simp add: recv_connected_def unknown r(2) dd ctrl Let_def)
  then have "recv_datagram e d rt sv n = Some (None, the (r_ResponseToken r), OnTokenCtrlMsg e (i_Addr d) m p ?sv n)"
    using assms(1) r(1,4) p(3) by (simp add: recv_datagram_def has_room_def p_def [symmetric] Let_def)
  with p(1,2) show ?thesis by blast
qed

text \<open>A connection that has asked one server and waits for the answer.\<close>

definition waiting :: "CNetConnection \<Rightarrow> bool" where
  "waiting c \<longleftrightarrow> conn_ok c \<and> c_State c = CONNECT \<and> c_Ack c = 0 \<and> c_Sequence c = 0 \<and> c_PeerAck c = 0 \<and>
     c_SecurityToken c = NET_SECURITY_TOKEN_UNKNOWN \<and> \<not> c_Sixup c"

lemma Client_Connect_waits:
  assumes "cl_inv cl" "c_State (cl_Connection cl) = OFFLINE" "Client_Connect [saddr] cl n = (cl', n')"
  shows "waiting (cl_Connection cl')"
    "n_Sent n' = n_Sent n @ [SendControlMsg saddr 0 NET_CTRLMSG_CONNECT SECURITY_TOKEN_MAGIC NET_SECURITY_TOKEN_UNKNOWN False]"
proof -
  have "conn_ok (fst (snd (Conn_Connect [saddr] (cl_Connection cl) n)))" using assms(1) by (intro Connect_ok) (simp add: cl_inv_def)
  then show "waiting (cl_Connection cl')"
    "n_Sent n' = n_Sent n @ [SendControlMsg saddr 0 NET_CTRLMSG_CONNECT SECURITY_TOKEN_MAGIC NET_SECURITY_TOKEN_UNKNOWN False]"
    using assms(2,3)
    by (auto simp: Client_Connect_def Conn_Connect_def SendConnect_def ClearPeerAddr_def Conn_Reset_def time_get_def Let_def waiting_def net_send_def)
qed

lemma Feed_accepts:
  assumes "waiting c" "rp_Flags p AND NET_PACKETFLAG_CONTROL \<noteq> 0" "rp_Flags p AND NET_PACKETFLAG_RESEND = 0" "rp_Ack p = 0"
    and "rp_DataSize p = 9" "rp_Mem p = byte NET_CTRLMSG_CONNECTACCEPT # SECURITY_TOKEN_MAGIC @ WriteSecurityToken T @ rest"
  shows "\<exists>c' n'. Feed stack p addr tok rt c n = Some (1, p, c', n') \<and> c_State c' = ONLINE \<and> c_SecurityToken c' = T \<and> c_PeerAddr c' = addr \<and>
    n_Sent n' = n_Sent n @ [SendControlMsg addr 0 NET_CTRLMSG_ACCEPT [] T False]"
proof -
  note w = assms(1) [unfolded waiting_def]
  have checks: "feed_checks p addr tok c = Some p" using w assms(4) by (simp add: feed_checks_def)
  have magic: "rp_magic p" "drop 5 (rp_Mem p) = WriteSecurityToken T @ rest"
    by (simp_all add: rp_magic_def assms(5,6) SECURITY_TOKEN_MAGIC_def)
  have first: "mem_at (rp_Mem p) 0 = 2" by (simp add: assms(6) byte_def)
  obtain Now n1 where t: "time_get n = (Now, n1)" by fastforce
  have sent1: "n_Sent n1 = n_Sent n" using t by (auto simp: time_get_def)
  define c1 where "c1 = c\<lparr>c_PeerAck := 0\<rparr>"
  define c2 where "c2 = (SetPeerAddr addr c1)\<lparr>c_SecurityToken := T\<rparr>"
  obtain c3 n3 where s: "SendControl NET_CTRLMSG_ACCEPT [] c2 n1 = (c3, n3)" by fastforce
  have c3: "same_link c2 c3" "n_Sent n3 = n_Sent n1 @ [SendControlMsg addr 0 NET_CTRLMSG_ACCEPT [] T False]"
    "c_SecurityToken c3 = T" "c_PeerAddr c3 = addr"
    using s w SendControl_same_link [OF s] by (auto simp: SendControl_def c2_def c1_def SetPeerAddr_def time_get_def net_send_def Let_def)
  define c4 where "c4 = c3\<lparr>c_LastRecvTime := Now, c_State := ONLINE\<rparr>"
  have ctrl: "feed_control stack Now p addr rt c1 n1 = (True, c4, n3)"
    using w s
    by (simp add: feed_control_def feed_connect_def first magic c4_def c2_def c1_def SetPeerAddr_def)
  have "conn_ok c2" using w conn_ok_cong [of c2 c] by (simp add: c2_def c1_def SetPeerAddr_def)
  then have "conn_ok c3" using conn_ok_same_link [OF c3(1)] by simp
  then have "conn_ok (c4\<lparr>c_LastRecvTime := Now\<rparr>)" using conn_ok_cong [of "c4\<lparr>c_LastRecvTime := Now\<rparr>" c3] by (simp add: c4_def)
  then obtain rb where ack: "AckChunks 0 (c4\<lparr>c_LastRecvTime := Now\<rparr>) = Some (c4\<lparr>c_LastRecvTime := Now\<rparr>\<lparr>c_Buffer := rb\<rparr>)"
    by (rule AckChunks_ok)
  have "Feed stack p addr tok rt c n = Some (1, p, c4\<lparr>c_LastRecvTime := Now\<rparr>\<lparr>c_Buffer := rb\<rparr>, n3)"
    using assms(2,3) ack ctrl
    by (simp add: Feed_def checks assms(4) t c1_def [symmetric] Let_def) (simp add: c4_def)
  then show ?thesis using c3 sent1 by (simp add: c4_def)
qed

lemma client_accepts:
  assumes "waiting (cl_Connection cl)" "T \<noteq> NET_SECURITY_TOKEN_UNSUPPORTED"
    and "i_Bytes d = snd (SendControlMsg caddr 0 NET_CTRLMSG_CONNECTACCEPT SECURITY_TOKEN_MAGIC T False)"
  shows "\<exists>rt' cl' n'. client_datagram gen False d rt cl n = Some (None, False, rt', cl', n') \<and> Client_State cl' = NETSTATE_ONLINE \<and>
    c_SecurityToken (cl_Connection cl') = T \<and> c_PeerAddr (cl_Connection cl') = i_Addr d \<and>
    n_Sent n' = n_Sent n @ [SendControlMsg (i_Addr d) 0 NET_CTRLMSG_ACCEPT [] T False]"
proof -
  obtain r where r: "UnpackPacket (i_Bytes d) False (Some (i_Token d)) (Some NET_SECURITY_TOKEN_UNKNOWN) = Unpacked r"
    "r_Sixup r = False" "p_Flags (r_Packet r) AND NET_PACKETFLAG_CONTROL \<noteq> 0" "p_Flags (r_Packet r) AND NET_PACKETFLAG_CONNLESS = 0"
    "p_Flags (r_Packet r) AND NET_PACKETFLAG_RESEND = 0" "p_Ack (r_Packet r) = 0"
    "p_aChunkData (r_Packet r) = byte NET_CTRLMSG_CONNECTACCEPT # SECURITY_TOKEN_MAGIC @ WriteSecurityToken T"
    using control_received [of 0 SECURITY_TOKEN_MAGIC caddr NET_CTRLMSG_CONNECTACCEPT T "i_Token d" NET_SECURITY_TOKEN_UNKNOWN] assms(2)
    unfolding assms(3) by (auto simp: SECURITY_TOKEN_MAGIC_def)
  define p where "p = in_memory (r_Packet r) (i_Stale d)"
  have p: "rp_Flags p = p_Flags (r_Packet r)" "rp_Ack p = 0" "rp_DataSize p = 9"
    "rp_Mem p = byte NET_CTRLMSG_CONNECTACCEPT # SECURITY_TOKEN_MAGIC @ WriteSecurityToken T @ i_Stale d"
    using r(6,7) by (simp_all add: p_def in_memory_def SECURITY_TOKEN_MAGIC_def)
  have sixup: "\<not> unpack_sixup (i_Bytes d) False" using unpacked_sixup [OF r(1)] r(2) by simp
  obtain c' n' where f: "Feed (i_Stack d) p (i_Addr d) (the (r_SecurityToken r)) (the (r_ResponseToken r)) (cl_Connection cl) n = Some (1, p, c', n')"
    "c_State c' = ONLINE" "c_SecurityToken c' = T" "c_PeerAddr c' = i_Addr d"
    "n_Sent n' = n_Sent n @ [SendControlMsg (i_Addr d) 0 NET_CTRLMSG_ACCEPT [] T False]"
    using Feed_accepts [OF assms(1), of p T "i_Stale d" "i_Stack d" "i_Addr d"] p r by metis
  have tok: "client_token gen (i_Addr d) p rt' cl' m = (cl', m)" for rt' cl' m
    by (simp add: client_token_def p(4))
  have st: "c_State (cl_Connection cl) = CONNECT" using assms(1) by (simp add: waiting_def)
  show ?thesis
    using f r(4) st sixup
    by (simp add: client_datagram_def stun_leaves_control [OF assms(3)] r(1) p_def [symmetric] tok p(1) Let_def Client_State_def Unpacker_Start_def)
qed

section \<open>Properties\<close>

text \<open>
  C37: Whatever is done with an opened client (connecting, receiving any bytes from anybody, sending, updating),
  every loop of the code ends and no assertion fails.
\<close>

theorem client_always_returns:
  assumes "\<forall>op \<in> set ops. client_op_ok op"
  shows "\<exists>cl' n'. client_run g ops (snd (Client_Open True s6 s4 cl), n) = Some (cl', n') \<and> conn_ok (cl_Connection cl')"
  using client_run_inv [OF Client_Open_inv assms, of g s6 s4 cl n] by (auto simp: cl_inv_def)

text \<open>
  C17: A client that connects to a server gets in. If the server does not ban its address, has room, and
  has not seen it lately, then, with the three packets of the handshake delivered and whatever is in the
  memory of the receivers, the client is online at both ends with the same token, and the game on the
  server is told of it.
\<close>

theorem client_gets_in:
  assumes "cl_inv cl" "c_State (cl_Connection cl) = OFFLINE" "sv_inv L sv" "has_room e caddr sv"
    and "Client_Connect [saddr] cl nc = (cl1, nc1)"
  shows "\<exists>m1. n_Sent nc1 = n_Sent nc @ [m1] \<and> fst m1 = saddr \<and> (\<forall>d1 rt. arrives caddr m1 d1 \<longrightarrow>
    (\<exists>rt1 sv1 ns1 m2. recv_datagram e d1 rt sv ns = Some (None, rt1, sv1, ns1) \<and> n_Sent ns1 = n_Sent ns @ [m2] \<and> fst m2 = caddr \<and>
    (\<forall>d2 rt gen. arrives saddr m2 d2 \<longrightarrow>
    (\<exists>rt2 cl2 nc2 m3. client_datagram gen False d2 rt cl1 nc1 = Some (None, False, rt2, cl2, nc2) \<and> Client_State cl2 = NETSTATE_ONLINE \<and>
      c_PeerAddr (cl_Connection cl2) = saddr \<and> n_Sent nc2 = n_Sent nc1 @ [m3] \<and> fst m3 = saddr \<and>
    (\<forall>d3 rt. arrives caddr m3 d3 \<longrightarrow>
    (\<exists>rt3 sv2 ns2 i. recv_datagram e d3 rt sv1 ns1 = Some (None, rt3, sv2, ns2) \<and> sv_Events sv2 = sv_Events sv @ [New_client i False] \<and>
      c_State (slot sv2 i) = ONLINE \<and> c_PeerAddr (slot sv2 i) = caddr \<and>
      c_SecurityToken (slot sv2 i) = c_SecurityToken (cl_Connection cl2)))))))"
proof -
  let ?T = "GetToken e sv caddr"
  have T: "?T \<noteq> NET_SECURITY_TOKEN_UNSUPPORTED" by (simp add: GetToken_def Let_def)
  let ?m1 = "SendControlMsg saddr 0 NET_CTRLMSG_CONNECT SECURITY_TOKEN_MAGIC NET_SECURITY_TOKEN_UNKNOWN False"
  let ?m2 = "SendControlMsg caddr 0 NET_CTRLMSG_CONNECTACCEPT SECURITY_TOKEN_MAGIC ?T False"
  let ?m3 = "SendControlMsg saddr 0 NET_CTRLMSG_ACCEPT [] ?T False"
  have addr: "fst ?m1 = saddr" "fst ?m2 = caddr" "fst ?m3 = saddr"
    by (simp_all add: SendControlMsg_def SendPacket_def Let_def split: prod.splits)
  note wait = Client_Connect_waits [OF assms(1,2,5)]
  have first: "\<exists>rt1 sv1. recv_datagram e d1 rt sv ns = Some (None, rt1, sv1, net_send ?m2 ns) \<and>
      (\<exists>p. sv1 = sv\<lparr>sv_RecvUnpacker := (sv_RecvUnpacker sv)\<lparr>u_Data := p\<rparr>\<rparr>)" if d: "arrives caddr ?m1 d1" for d1 rt
  proof -
    have a: "i_Addr d1 = caddr" "i_Bytes d1 = snd ?m1" using d by (simp_all add: arrives_def)
    obtain rt' p where p: "recv_datagram e d1 rt sv ns = Some (None, rt', OnTokenCtrlMsg e caddr NET_CTRLMSG_CONNECT p
        (sv\<lparr>sv_RecvUnpacker := (sv_RecvUnpacker sv)\<lparr>u_Data := p\<rparr>\<rparr>) ns)"
      using recv_unknown_control [of e d1 sv saddr NET_CTRLMSG_CONNECT SECURITY_TOKEN_MAGIC NET_SECURITY_TOKEN_UNKNOWN rt ns] assms(4) a
      by (auto simp: SECURITY_TOKEN_MAGIC_def)
    let ?sv = "sv\<lparr>sv_RecvUnpacker := (sv_RecvUnpacker sv)\<lparr>u_Data := p\<rparr>\<rparr>"
    have "has_room e caddr ?sv" using assms(4) has_room_cong [of ?sv sv e caddr] by simp
    moreover have "GetToken e ?sv caddr = ?T" by (simp add: GetToken_def)
    ultimately have "OnTokenCtrlMsg e caddr NET_CTRLMSG_CONNECT p ?sv ns = (?sv, net_send ?m2 ns)"
      by (simp add: OnTokenCtrlMsg_def has_room_def Server_SendControl_def)
    with p show ?thesis by auto
  qed
  have second: "\<exists>rt2 cl2 nc2. client_datagram gen False d2 rt cl1 nc1 = Some (None, False, rt2, cl2, nc2) \<and> Client_State cl2 = NETSTATE_ONLINE \<and>
      c_SecurityToken (cl_Connection cl2) = ?T \<and> c_PeerAddr (cl_Connection cl2) = saddr \<and> n_Sent nc2 = n_Sent nc1 @ [?m3]"
    if d: "arrives saddr ?m2 d2" for d2 rt gen
  proof -
    have a: "i_Addr d2 = saddr" "i_Bytes d2 = snd ?m2" using d by (simp_all add: arrives_def)
    from client_accepts [OF wait(1) T a(2), of gen rt nc1] show ?thesis unfolding a(1) .
  qed
  have third: "\<exists>rt3 sv2 ns2 i. recv_datagram e d3 rt sv1 ns1 = Some (None, rt3, sv2, ns2) \<and> sv_Events sv2 = sv_Events sv @ [New_client i False] \<and>
      c_State (slot sv2 i) = ONLINE \<and> c_PeerAddr (slot sv2 i) = caddr \<and> c_SecurityToken (slot sv2 i) = ?T"
    if d: "arrives caddr ?m3 d3" and sv1: "sv1 = sv\<lparr>sv_RecvUnpacker := u\<rparr>" for d3 rt sv1 ns1 u
  proof -
    have a: "i_Addr d3 = caddr" "i_Bytes d3 = snd ?m3" using d by (simp_all add: arrives_def)
    have room: "has_room e caddr sv1" using assms(4) has_room_cong [of sv1 sv e caddr] by (simp add: sv1)
    obtain rt' p rest where p: "rp_Mem p = byte NET_CTRLMSG_ACCEPT # [] @ WriteSecurityToken ?T @ rest"
      "recv_datagram e d3 rt sv1 ns1 = Some (None, rt', OnTokenCtrlMsg e caddr NET_CTRLMSG_ACCEPT p
        (sv1\<lparr>sv_RecvUnpacker := (sv_RecvUnpacker sv1)\<lparr>u_Data := p\<rparr>\<rparr>) ns1)"
      using recv_unknown_control [of e d3 sv1 saddr NET_CTRLMSG_ACCEPT "[]" ?T rt ns1] room T a by auto
    let ?sv = "sv1\<lparr>sv_RecvUnpacker := (sv_RecvUnpacker sv1)\<lparr>u_Data := p\<rparr>\<rparr>"
    have room': "has_room e caddr ?sv" using room has_room_cong [of ?sv sv1 e caddr] by simp
    have tok: "GetToken e ?sv caddr = ?T" by (simp add: GetToken_def sv1)
    have len: "length (sv_Slots ?sv) = NET_MAX_CLIENTS" "sv_MaxClients ?sv \<le> NET_MAX_CLIENTS"
      using assms(3) by (simp_all add: sv1 sv_inv_def)
    have "OnTokenCtrlMsg e caddr NET_CTRLMSG_ACCEPT p ?sv ns1 = snd (TryAcceptClient e caddr ?T False False 0 ?sv ns1)"
      using room' tok p(1) by (simp add: OnTokenCtrlMsg_def has_room_def Let_def)
    with p(2) has_room_accepted [OF room' len, of ?T ns1] show ?thesis by (auto simp: sv1)
  qed
  show ?thesis
  proof (rule exI [of _ ?m1], intro conjI allI impI)
    show "n_Sent nc1 = n_Sent nc @ [?m1]" by (rule wait(2))
    show "fst ?m1 = saddr" by (rule addr)
    fix d1 rt assume "arrives caddr ?m1 d1"
    then obtain rt1 u where d1: "recv_datagram e d1 rt sv ns = Some (None, rt1, sv\<lparr>sv_RecvUnpacker := u\<rparr>, net_send ?m2 ns)"
      using first by blast
    have sent: "n_Sent (net_send ?m2 ns) = n_Sent ns @ [?m2]" by (simp add: net_send_def)
    have later: "\<exists>rt2 cl2 nc2 m3. client_datagram gen False d2 rt' cl1 nc1 = Some (None, False, rt2, cl2, nc2) \<and> Client_State cl2 = NETSTATE_ONLINE \<and>
        c_PeerAddr (cl_Connection cl2) = saddr \<and> n_Sent nc2 = n_Sent nc1 @ [m3] \<and> fst m3 = saddr \<and>
        (\<forall>d3 rt. arrives caddr m3 d3 \<longrightarrow>
        (\<exists>rt3 sv2 ns2 i. recv_datagram e d3 rt (sv\<lparr>sv_RecvUnpacker := u\<rparr>) (net_send ?m2 ns) = Some (None, rt3, sv2, ns2) \<and>
          sv_Events sv2 = sv_Events sv @ [New_client i False] \<and> c_State (slot sv2 i) = ONLINE \<and> c_PeerAddr (slot sv2 i) = caddr \<and>
          c_SecurityToken (slot sv2 i) = c_SecurityToken (cl_Connection cl2)))" if m2: "arrives saddr ?m2 d2" for d2 rt' gen
    proof -
      obtain rt2 cl2 nc2 where d2: "client_datagram gen False d2 rt' cl1 nc1 = Some (None, False, rt2, cl2, nc2)"
        "Client_State cl2 = NETSTATE_ONLINE" "c_SecurityToken (cl_Connection cl2) = ?T" "c_PeerAddr (cl_Connection cl2) = saddr"
        "n_Sent nc2 = n_Sent nc1 @ [?m3]"
        using second [OF m2] by blast
      show ?thesis
        by (rule exI [of _ rt2], rule exI [of _ cl2], rule exI [of _ nc2], rule exI [of _ ?m3])
           (use d2 addr third in \<open>simp only: simp_thms, blast\<close>)
    qed
    show "\<exists>rt1 sv1 ns1 m2. recv_datagram e d1 rt sv ns = Some (None, rt1, sv1, ns1) \<and> n_Sent ns1 = n_Sent ns @ [m2] \<and> fst m2 = caddr \<and>
      (\<forall>d2 rt gen. arrives saddr m2 d2 \<longrightarrow>
      (\<exists>rt2 cl2 nc2 m3. client_datagram gen False d2 rt cl1 nc1 = Some (None, False, rt2, cl2, nc2) \<and> Client_State cl2 = NETSTATE_ONLINE \<and>
        c_PeerAddr (cl_Connection cl2) = saddr \<and> n_Sent nc2 = n_Sent nc1 @ [m3] \<and> fst m3 = saddr \<and>
      (\<forall>d3 rt. arrives caddr m3 d3 \<longrightarrow>
      (\<exists>rt3 sv2 ns2 i. recv_datagram e d3 rt sv1 ns1 = Some (None, rt3, sv2, ns2) \<and> sv_Events sv2 = sv_Events sv @ [New_client i False] \<and>
        c_State (slot sv2 i) = ONLINE \<and> c_PeerAddr (slot sv2 i) = caddr \<and>
        c_SecurityToken (slot sv2 i) = c_SecurityToken (cl_Connection cl2)))))"
      by (rule exI [of _ rt1], rule exI, rule exI, rule exI [of _ ?m2], intro conjI)
         (rule d1, rule sent, rule addr, intro allI impI, rule later)
  qed
qed

text \<open>
  C39: A short datagram, from whatever address, makes the client read what else waits in its socket as
  packets of version 0.7, although it is connected with 0.6: the version is a parameter that the parser
  overwrites and that the loop does not reset.
\<close>

theorem stray_datagram_switches_version:
  assumes "client_fetch cl = (None, cl')" "i_Bytes d = [4, 0, 0]"
  shows "Client_Recv gen False (d # ds) rt cl n = Client_Recv gen True ds NET_SECURITY_TOKEN_UNKNOWN cl' n"
proof -
  have "Protocol_OnPacket [4, 0, 0] pr n = (False, pr, n)" for pr
    by (simp add: Protocol_OnPacket_def StunMessageParse_def)
  then have stun: "Stun_OnPacket (i_Addr d) [4, 0, 0] st n = (False, st, n)" for st
    by (simp add: Stun_OnPacket_def on_protocol_same split: option.split)
  have read: "UnpackPacket [4, 0, 0] False t r = Refused" "unpack_sixup [4, 0, 0] False" for t r
    by (simp_all add: UnpackPacket_def unpack_connected_def unpack_sixup_def Let_def)
  show ?thesis
    by (subst Client_Recv.simps) (simp add: assms client_datagram_def stun read Let_def)
qed

definition opened_client :: CNetClient where
  "opened_client = snd (Client_Open True [] []
     \<lparr>cl_Connection = zero_connection, cl_RecvUnpacker = zero_unpacker,
      cl_TokenCache = \<lparr>m_TokenCache = [], m_ConnlessPackets = []\<rparr>, cl_Stun = Stun_create [] []\<rparr>)"

text \<open>The address of the server of the example.\<close>

definition server_addr :: NETADDR where
  "server_addr = \<lparr>na_type = 1, na_ip = replicate 16 9, na_port = 8303\<rparr>"

definition delivered :: "NETADDR \<Rightarrow> datagram \<Rightarrow> incoming" where
  "delivered src_addr dg = \<lparr>i_Addr = src_addr, i_Bytes = snd dg, i_Stale = [], i_Stack = [], i_Token = 0\<rparr>"

lemma delivered_arrives: "arrives src_addr dg (delivered src_addr dg)"
  by (simp add: arrives_def delivered_def)

lemma sample_room: "has_room sample_env sample_addr sample_server"
proof -
  have off: "slot sample_server i = Conn_Init True idle_conn" if "i < 64" for i using that by (simp add: slot_def)
  have "NumClientsWithAddr sample_server sample_addr = 0" "free_slot sample_server = Some 0" "\<not> ClientExists sample_server sample_addr"
    by (simp_all add: NumClientsWithAddr_def free_slot_def ClientExists_def GetClientSlot_def off counted_def has_addr_def idle_Init upt_rec)
  then show ?thesis
    using sample_type by (simp add: has_room_def sample_env_def net_addr_comp_noport_def zero_addr_def sample_addr_def NET_CONNLIMIT_IPS_def)
qed

theorem client_always_returns_witness:
  "\<exists>cl' n'. client_run \<lparr>g_ConnTimeout = 100, g_ConnTimeoutProtection = 1000\<rparr> [Cl_Connect [server_addr], Cl_Update [] [], Cl_Disconnect No_reason]
      (opened_client, quiet_net) = Some (cl', n') \<and> conn_ok (cl_Connection cl')"
  unfolding opened_client_def by (rule client_always_returns) simp

theorem client_gets_in_witness:
  "\<exists>cl1 nc1 d1 rt1 sv1 ns1 d2 rt2 cl2 nc2 d3 rt3 sv2 ns2 i.
     Client_Connect [server_addr] opened_client quiet_net = (cl1, nc1) \<and>
     recv_datagram sample_env d1 0 sample_server quiet_net = Some (None, rt1, sv1, ns1) \<and>
     client_datagram (\<lambda>_. 1) False d2 0 cl1 nc1 = Some (None, False, rt2, cl2, nc2) \<and> Client_State cl2 = NETSTATE_ONLINE \<and>
     recv_datagram sample_env d3 0 sv1 ns1 = Some (None, rt3, sv2, ns2) \<and> sv_Events sv2 = [New_client i False]"
proof -
  obtain cl1 nc1 where c: "Client_Connect [server_addr] opened_client quiet_net = (cl1, nc1)" by fastforce
  have op: "cl_inv opened_client" "c_State (cl_Connection opened_client) = OFFLINE"
    unfolding opened_client_def by (rule Client_Open_inv) (simp add: Client_Open_def Conn_Init_def Conn_Reset_def ResetStats_def ClearPeerAddr_def Let_def)
  have sv: "sv_inv 2 sample_server" using server_reaches_inv [OF sample_server_reached] by simp
  note gets_in = client_gets_in [OF op sv sample_room c, of quiet_net]
  show ?thesis
    using gets_in
    apply (elim exE conjE)
    apply (drule spec, drule spec [where x = 0], drule mp, rule delivered_arrives, elim exE conjE)
    apply (drule spec, drule spec [where x = 0], drule spec [where x = "\<lambda>_. 1"], drule mp, rule delivered_arrives, elim exE conjE)
    apply (drule spec, drule spec [where x = 0], drule mp, rule delivered_arrives, elim exE conjE)
    apply (intro exI conjI, rule c, assumption+)
    apply simp
    done
qed

lemma opened_fetch: "client_fetch opened_client = (None, opened_client)"
  unfolding client_fetch_def
  by (subst FetchChunk.simps) (simp add: opened_client_def Client_Open_def zero_unpacker_def Unpacker_Clear_def)

theorem stray_datagram_switches_version_witness:
  "Client_Recv (\<lambda>_. 1) False [delivered sample_addr (server_addr, [4, 0, 0])] 0 opened_client quiet_net =
   Client_Recv (\<lambda>_. 1) True [] NET_SECURITY_TOKEN_UNKNOWN opened_client quiet_net"
  by (rule stray_datagram_switches_version)
     (simp_all add: opened_fetch delivered_def)

end
