(* ===== verification/SnapIds.thy ===== *)
theory SnapIds
  imports NetConn
begin

text \<open>
  The pool of item ids of \<^verbatim>\<open>src/src/engine/server/snap_id_pool.cpp\<close>. Free ids form a stack, released ids
  a queue in which they wait for their timeout; both are linked through the same array. \<open>None\<close> is a
  failed assertion or an access out of the array. The current time is an argument.
\<close>

section \<open>State\<close>

abbreviation (input) MAX_IDS :: nat where "MAX_IDS \<equiv> 32 * 1024"

type_synonym i16 = "16 word"

datatype id_state = ID_FREE | ID_ALLOCATED | ID_TIMED

record CID =
  id_Next :: i16
  id_State :: id_state
  id_Timeout :: i32

record CSnapIdPool =
  m_aIds :: "nat \<Rightarrow> CID"
  m_FirstFree :: int
  m_FirstTimed :: int
  m_LastTimed :: int
  m_Usage :: int
  m_InUsage :: int

text \<open>Indices of the array, and its elements as they are linked.\<close>

definition is_id :: "int \<Rightarrow> bool" where
  "is_id k \<longleftrightarrow> 0 \<le> k \<and> k < int MAX_IDS"

definition next_id :: "CSnapIdPool \<Rightarrow> nat \<Rightarrow> int" where
  "next_id p i = sint (id_Next (m_aIds p i))"

definition timeout :: "CSnapIdPool \<Rightarrow> nat \<Rightarrow> int" where
  "timeout p i = sint (id_Timeout (m_aIds p i))"

definition set_id :: "nat \<Rightarrow> (CID \<Rightarrow> CID) \<Rightarrow> CSnapIdPool \<Rightarrow> CSnapIdPool" where
  "set_id i f p = p\<lparr>m_aIds := (m_aIds p)(i := f (m_aIds p i))\<rparr>"

section \<open>Operations\<close>

text \<open>The timeouts keep what was in memory.\<close>

definition Ids_Reset :: "CSnapIdPool \<Rightarrow> CSnapIdPool" where
  "Ids_Reset p =
     \<lparr>m_aIds = \<lambda>i. (m_aIds p i)\<lparr>id_Next := (if i = MAX_IDS - 1 then -1 else word_of_int (int i + 1)), id_State := ID_FREE\<rparr>,
      m_FirstFree = 0, m_FirstTimed = -1, m_LastTimed = -1, m_Usage = 0, m_InUsage = 0\<rparr>"

definition RemoveFirstTimeout :: "CSnapIdPool \<Rightarrow> CSnapIdPool option" where
  "RemoveFirstTimeout p =
     (if \<not> is_id (m_FirstTimed p) then None
      else
        let First = nat (m_FirstTimed p);
            NextTimed = next_id p First;
            p = set_id First (\<lambda>e. e\<lparr>id_Next := word_of_int (m_FirstFree p), id_State := ID_FREE\<rparr>) p;
            p = p\<lparr>m_FirstFree := m_FirstTimed p\<rparr>;
            p = p\<lparr>m_FirstTimed := NextTimed\<rparr>;
            p = (if m_FirstTimed p = -1 then p\<lparr>m_LastTimed := -1\<rparr> else p)
        in Some (p\<lparr>m_Usage := m_Usage p - 1\<rparr>))"

text \<open>The loops over the timed ids; a loop that does not end is \<open>None\<close>.\<close>

partial_function (option) remove_expired :: "int \<Rightarrow> CSnapIdPool \<Rightarrow> CSnapIdPool option" where
  "remove_expired Now p =
     (if m_FirstTimed p = -1 then Some p
      else if \<not> is_id (m_FirstTimed p) then None
      else if timeout p (nat (m_FirstTimed p)) < Now
      then Option.bind (RemoveFirstTimeout p) (remove_expired Now)
      else Some p)"

partial_function (option) TimeoutIds :: "CSnapIdPool \<Rightarrow> CSnapIdPool option" where
  "TimeoutIds p =
     (if m_FirstTimed p = -1 then Some p
      else Option.bind (RemoveFirstTimeout p) TimeoutIds)"

definition NewId :: "int \<Rightarrow> CSnapIdPool \<Rightarrow> (int \<times> CSnapIdPool) option" where
  "NewId Now p =
     (case remove_expired Now p of
        None \<Rightarrow> None
      | Some p \<Rightarrow>
          let Id = m_FirstFree p
          in if Id = -1 then Some (Id, p)
             else if \<not> is_id Id then None
             else
               let p = p\<lparr>m_FirstFree := next_id p (nat Id)\<rparr>;
                   p = set_id (nat Id) (\<lambda>e. e\<lparr>id_State := ID_ALLOCATED\<rparr>) p
               in Some (Id, p\<lparr>m_Usage := m_Usage p + 1, m_InUsage := m_InUsage p + 1\<rparr>))"

definition FreeId :: "int \<Rightarrow> int \<Rightarrow> CSnapIdPool \<Rightarrow> CSnapIdPool option" where
  "FreeId Now k p =
     (if k < 0 then Some p
      else if \<not> is_id k then None
      else if id_State (m_aIds p (nat k)) \<noteq> ID_ALLOCATED then None
      else
        let p = p\<lparr>m_InUsage := m_InUsage p - 1\<rparr>;
            p = set_id (nat k) (\<lambda>e. e\<lparr>id_State := ID_TIMED, id_Timeout := word_of_int (Now + time_freq * 5), id_Next := -1\<rparr>) p
        in if m_LastTimed p \<noteq> -1
           then if \<not> is_id (m_LastTimed p) then None
                else Some ((set_id (nat (m_LastTimed p)) (\<lambda>e. e\<lparr>id_Next := word_of_int k\<rparr>) p)\<lparr>m_LastTimed := k\<rparr>)
           else Some (p\<lparr>m_FirstTimed := k, m_LastTimed := k\<rparr>))"

section \<open>The two lists\<close>

text \<open>The ids of a list, from its first one.\<close>

fun chain :: "(nat \<Rightarrow> int) \<Rightarrow> int \<Rightarrow> nat list \<Rightarrow> bool" where
  "chain nx k [] \<longleftrightarrow> k = -1"
| "chain nx k (i # is) \<longleftrightarrow> k = int i \<and> chain nx (nx i) is"

lemma id_chain_cong: "\<forall>i \<in> set is. nx i = nx' i \<Longrightarrow> chain nx k is \<longleftrightarrow> chain nx' k is"
  by (induction "is" arbitrary: k) auto

text \<open>Appending an id links it to the last one.\<close>

lemma id_chain_append:
  "chain nx k is \<Longrightarrow> i \<notin> set is \<Longrightarrow> distinct is \<Longrightarrow> is \<noteq> [] \<Longrightarrow> chain (nx(i := -1, last is := int i)) k (is @ [i])"
proof (induction "is" arbitrary: k)
  case (Cons j js)
  show ?case
  proof (cases "js = []")
    case False
    then have "last js \<noteq> j" using Cons.prems(3) last_in_set by fastforce
    with Cons False show ?thesis by auto
  qed (use Cons.prems in auto)
qed simp

lemma chain_upt: "k < m \<Longrightarrow> \<forall>i < m. nx i = (if i = m - 1 then -1 else int (Suc i)) \<Longrightarrow> chain nx (int k) [k..<m]"
proof (induction "m - k" arbitrary: k)
  case (Suc d)
  have k: "[k..<m] = k # [Suc k..<m]" using Suc.prems(1) by (simp add: upt_conv_Cons)
  show ?case
  proof (cases "Suc k = m")
    case False
    then have "chain nx (int (Suc k)) [Suc k..<m]" using Suc.hyps(1) [of "Suc k"] Suc.hyps(2) Suc.prems by simp
    moreover have "nx k = int (Suc k)" using Suc.prems False by auto
    ultimately show ?thesis unfolding k by simp
  next
    case True
    then have "nx k = -1" using Suc.prems by auto
    with True show ?thesis unfolding k by simp
  qed
qed simp

text \<open>\<open>fs\<close> is the stack of free ids, \<open>ts\<close> the queue of released ones; all others are allocated.\<close>

definition ids_inv :: "CSnapIdPool \<Rightarrow> nat list \<Rightarrow> nat list \<Rightarrow> bool" where
  "ids_inv p fs ts \<longleftrightarrow>
     chain (next_id p) (m_FirstFree p) fs \<and> chain (next_id p) (m_FirstTimed p) ts \<and>
     distinct (fs @ ts) \<and> set fs \<union> set ts \<subseteq> {..<MAX_IDS} \<and>
     (\<forall>i < MAX_IDS. id_State (m_aIds p i) = (if i \<in> set fs then ID_FREE else if i \<in> set ts then ID_TIMED else ID_ALLOCATED)) \<and>
     m_LastTimed p = (if ts = [] then -1 else int (last ts)) \<and>
     m_Usage p = int MAX_IDS - int (length fs) \<and> m_InUsage p = int MAX_IDS - int (length fs) - int (length ts)"

lemma short_id: "-1 \<le> k \<Longrightarrow> k < int MAX_IDS \<Longrightarrow> sint (word_of_int k :: i16) = k"
  by (simp add: signed_of_int signed_take_bit_int_eq_self)

lemma set_id_fields [simp]:
  "m_FirstFree (set_id i f p) = m_FirstFree p" "m_FirstTimed (set_id i f p) = m_FirstTimed p" "m_LastTimed (set_id i f p) = m_LastTimed p"
  "m_Usage (set_id i f p) = m_Usage p" "m_InUsage (set_id i f p) = m_InUsage p"
  "m_aIds (set_id i f p) j = (if j = i then f (m_aIds p i) else m_aIds p j)"
  by (simp_all add: set_id_def)

lemma Reset_inv: "ids_inv (Ids_Reset p) [0..<MAX_IDS] []"
proof -
  have "chain (next_id (Ids_Reset p)) (int 0) [0..<MAX_IDS]"
    by (rule chain_upt) (auto simp: next_id_def Ids_Reset_def short_id [of "int i + 1" for i, simplified])
  then show ?thesis by (simp add: ids_inv_def Ids_Reset_def del: set_upt) auto
qed

section \<open>The operations on the lists\<close>

lemma next_set_id [simp]: "next_id (p\<lparr>m_FirstFree := a\<rparr>) = next_id p" "next_id (p\<lparr>m_FirstTimed := a\<rparr>) = next_id p"
  "next_id (p\<lparr>m_LastTimed := a\<rparr>) = next_id p" "next_id (p\<lparr>m_Usage := b\<rparr>) = next_id p" "next_id (p\<lparr>m_InUsage := b\<rparr>) = next_id p"
  by (simp_all add: next_id_def fun_eq_iff)

lemma RemoveFirst_inv:
  assumes "ids_inv p fs (t # ts)"
  shows "\<exists>p'. RemoveFirstTimeout p = Some p' \<and> ids_inv p' (t # fs) ts \<and> (\<forall>i. timeout p' i = timeout p i)"
proof -
  note v = assms [unfolded ids_inv_def]
  have t: "m_FirstTimed p = int t" "t < MAX_IDS" "t \<notin> set fs" "t \<notin> set ts" using v by auto
  have free: "-1 \<le> m_FirstFree p" "m_FirstFree p < int MAX_IDS" using v by (cases fs; auto)+
  define p1 where "p1 = set_id t (\<lambda>e. e\<lparr>id_Next := word_of_int (m_FirstFree p), id_State := ID_FREE\<rparr>) p"
  have nx: "next_id p1 i = (if i = t then m_FirstFree p else next_id p i)" for i
    using short_id [OF free] by (simp add: p1_def next_id_def)
  have ends: "next_id p t = -1 \<longleftrightarrow> ts = []" using v by (cases ts) auto
  define p' where "p' = p1\<lparr>m_FirstFree := int t, m_FirstTimed := next_id p t,
    m_LastTimed := (if ts = [] then -1 else m_LastTimed p), m_Usage := m_Usage p - 1\<rparr>"
  have "RemoveFirstTimeout p = Some p'"
    using t ends by (simp add: RemoveFirstTimeout_def is_id_def Let_def p'_def p1_def)
  moreover have "chain (next_id p') (int t) (t # fs)" "chain (next_id p') (next_id p t) ts"
    using v t id_chain_cong [of fs "next_id p1" "next_id p"] id_chain_cong [of ts "next_id p1" "next_id p"] by (auto simp: p'_def nx)
  then have "ids_inv p' (t # fs) ts"
    using v t by (auto simp: ids_inv_def p'_def p1_def)
  moreover have "timeout p' i = timeout p i" for i by (simp add: p'_def p1_def timeout_def)
  ultimately show ?thesis by blast
qed

text \<open>The ids whose time is over move to the stack, one after the other.\<close>

lemma remove_expired_inv:
  "ids_inv p fs ts \<Longrightarrow> \<exists>p'. remove_expired Now p = Some p' \<and>
     ids_inv p' (rev (takeWhile (\<lambda>i. timeout p i < Now) ts) @ fs) (dropWhile (\<lambda>i. timeout p i < Now) ts) \<and> (\<forall>i. timeout p' i = timeout p i)"
proof (induction ts arbitrary: p fs)
  case Nil
  then show ?case by (subst remove_expired.simps) (auto simp: ids_inv_def)
next
  case (Cons t ts)
  have t: "m_FirstTimed p = int t" "t < MAX_IDS" using Cons.prems by (auto simp: ids_inv_def)
  show ?case
  proof (cases "timeout p t < Now")
    case False
    then show ?thesis using Cons.prems t by (subst remove_expired.simps) (auto simp: is_id_def)
  next
    case True
    obtain p1 where p1: "RemoveFirstTimeout p = Some p1" "ids_inv p1 (t # fs) ts" "\<forall>i. timeout p1 i = timeout p i"
      using RemoveFirst_inv [OF Cons.prems] by blast
    from Cons.IH [OF p1(2)] p1(1,3) True t show ?thesis
      by (subst remove_expired.simps) (auto simp: is_id_def)
  qed
qed

lemma TimeoutIds_inv: "ids_inv p fs ts \<Longrightarrow> \<exists>p'. TimeoutIds p = Some p' \<and> ids_inv p' (rev ts @ fs) []"
proof (induction ts arbitrary: p fs)
  case Nil
  then show ?case by (subst TimeoutIds.simps) (auto simp: ids_inv_def)
next
  case (Cons t ts)
  obtain p1 where p1: "RemoveFirstTimeout p = Some p1" "ids_inv p1 (t # fs) ts" using RemoveFirst_inv [OF Cons.prems] by blast
  have "m_FirstTimed p = int t" using Cons.prems by (simp add: ids_inv_def)
  with Cons.IH [OF p1(2)] p1(1) show ?case by (subst TimeoutIds.simps) auto
qed

lemma NewId_inv:
  assumes "ids_inv p fs ts" and fs1_def: "fs1 = rev (takeWhile (\<lambda>i. timeout p i < Now) ts) @ fs"
  shows "\<exists>p'. NewId Now p = Some (case fs1 of [] \<Rightarrow> -1 | i # _ \<Rightarrow> int i, p') \<and>
    ids_inv p' (tl fs1) (dropWhile (\<lambda>i. timeout p i < Now) ts) \<and> (\<forall>i. timeout p' i = timeout p i)"
proof -
  obtain p1 where p1: "remove_expired Now p = Some p1" "ids_inv p1 fs1 (dropWhile (\<lambda>i. timeout p i < Now) ts)" "\<forall>i. timeout p1 i = timeout p i"
    using remove_expired_inv [OF assms(1)] unfolding fs1_def by blast
  show ?thesis
  proof (cases fs1)
    case Nil
    then have "m_FirstFree p1 = -1" using p1(2) by (simp add: ids_inv_def)
    then show ?thesis using p1 Nil by (simp add: NewId_def)
  next
    case (Cons i rest)
    have i: "m_FirstFree p1 = int i" "i < MAX_IDS" using p1(2) Cons by (auto simp: ids_inv_def)
    let ?p = "(set_id i (\<lambda>e. e\<lparr>id_State := ID_ALLOCATED\<rparr>) (p1\<lparr>m_FirstFree := next_id p1 i\<rparr>))\<lparr>m_Usage := m_Usage p1 + 1, m_InUsage := m_InUsage p1 + 1\<rparr>"
    have "NewId Now p = Some (int i, ?p)" using p1(1) i by (simp add: NewId_def is_id_def Let_def)
    moreover have "next_id ?p = next_id p1" by (auto simp: next_id_def)
    then have "ids_inv ?p rest (dropWhile (\<lambda>i. timeout p i < Now) ts)" using p1(2) Cons by (auto simp: ids_inv_def)
    moreover have "\<forall>j. timeout ?p j = timeout p j" using p1(3) by (simp add: timeout_def)
    ultimately show ?thesis using Cons by auto
  qed
qed

lemma FreeId_inv:
  assumes "ids_inv p fs ts" "k < MAX_IDS" "id_State (m_aIds p k) = ID_ALLOCATED"
  shows "\<exists>p'. FreeId Now (int k) p = Some p' \<and> ids_inv p' fs (ts @ [k]) \<and>
    (\<forall>i. timeout p' i = (if i = k then sint (word_of_int (Now + time_freq * 5) :: i32) else timeout p i))"
proof -
  note v = assms(1) [unfolded ids_inv_def]
  have k: "k \<notin> set fs" "k \<notin> set ts" using v assms(2,3) by (auto split: if_splits)
  define p1 where "p1 = set_id k (\<lambda>e. e\<lparr>id_State := ID_TIMED, id_Timeout := word_of_int (Now + time_freq * 5), id_Next := -1\<rparr>) (p\<lparr>m_InUsage := m_InUsage p - 1\<rparr>)"
  define p' where "p' = (if ts \<noteq> [] then (set_id (last ts) (\<lambda>e. e\<lparr>id_Next := word_of_int (int k)\<rparr>) p1)\<lparr>m_LastTimed := int k\<rparr>
      else p1\<lparr>m_FirstTimed := int k, m_LastTimed := int k\<rparr>)"
  have l: "ts \<noteq> [] \<Longrightarrow> last ts < MAX_IDS \<and> last ts \<noteq> k \<and> last ts \<notin> set fs"
  proof -
    assume "ts \<noteq> []"
    then have "last ts \<in> set ts" by simp
    then show ?thesis using v k by auto
  qed
  have f: "FreeId Now (int k) p = Some p'"
    using v l assms(2,3) by (auto simp: FreeId_def is_id_def Let_def p'_def p1_def)
  have nx: "next_id p' = (if ts \<noteq> [] then (next_id p)(k := -1, last ts := int k) else (next_id p)(k := -1))"
    using l assms(2) short_id [of "int k"] by (auto simp: p'_def p1_def next_id_def)
  have "chain (next_id p') (m_FirstFree p') fs"
  proof -
    have "\<forall>i \<in> set fs. next_id p' i = next_id p i" using k l by (auto simp: nx)
    moreover have "m_FirstFree p' = m_FirstFree p" by (simp add: p'_def p1_def)
    ultimately show ?thesis using v id_chain_cong [of fs "next_id p'" "next_id p"] by simp
  qed
  moreover have "chain (next_id p') (m_FirstTimed p') (ts @ [k])"
    using v k id_chain_append [of "next_id p" "m_FirstTimed p" ts k] by (cases "ts = []") (auto simp: nx, auto simp: p'_def p1_def)
  ultimately have "ids_inv p' fs (ts @ [k])"
    using v k assms(2) by (auto simp: ids_inv_def) (auto simp: p'_def p1_def)
  moreover have "\<forall>i. timeout p' i = (if i = k then sint (word_of_int (Now + time_freq * 5) :: i32) else timeout p i)"
    by (auto simp: p'_def p1_def timeout_def)
  ultimately show ?thesis using f by blast
qed

section \<open>What the pool promises\<close>

text \<open>The pools of a server: ids are taken and those that are taken given back, at any times.\<close>

inductive ids_reach :: "CSnapIdPool \<Rightarrow> bool" where
  reset: "ids_reach (Ids_Reset p)"
| taken: "ids_reach p \<Longrightarrow> NewId Now p = Some (k, p') \<Longrightarrow> ids_reach p'"
| freed: "ids_reach p \<Longrightarrow> FreeId Now k p = Some p' \<Longrightarrow> ids_reach p'"
| timed_out: "ids_reach p \<Longrightarrow> TimeoutIds p = Some p' \<Longrightarrow> ids_reach p'"

definition allocated :: "CSnapIdPool \<Rightarrow> nat set" where
  "allocated p = {i. i < MAX_IDS \<and> id_State (m_aIds p i) = ID_ALLOCATED}"

text \<open>What is released and still waits at a time.\<close>

definition waits :: "CSnapIdPool \<Rightarrow> int \<Rightarrow> nat \<Rightarrow> bool" where
  "waits p Now i \<longleftrightarrow> i < MAX_IDS \<and> id_State (m_aIds p i) = ID_TIMED \<and> Now \<le> timeout p i"

lemma allocated_inv: "ids_inv p fs ts \<Longrightarrow> allocated p = {..<MAX_IDS} - set fs - set ts"
  by (auto simp: ids_inv_def allocated_def split: if_splits)

lemma card_allocated: "ids_inv p fs ts \<Longrightarrow> m_InUsage p = int (card (allocated p))"
proof -
  assume v: "ids_inv p fs ts"
  then have fin: "finite (set fs \<union> set ts)" "set fs \<union> set ts \<subseteq> {..<MAX_IDS}" "card (set fs \<union> set ts) = length fs + length ts"
    by (auto simp: ids_inv_def card_Un_disjoint distinct_card)
  have "allocated p = {..<MAX_IDS} - (set fs \<union> set ts)" using allocated_inv [OF v] by blast
  then have "card (allocated p) = MAX_IDS - (length fs + length ts)" using fin card_Diff_subset [OF fin(1,2)] by simp
  moreover have "length fs + length ts \<le> MAX_IDS" using fin card_mono [OF _ fin(2)] by simp
  ultimately show ?thesis using v by (simp add: ids_inv_def)
qed

lemma FreeId_cases:
  assumes "ids_inv p fs ts" "FreeId Now k p = Some p'"
  shows "k < 0 \<and> p' = p \<or> 0 \<le> k \<and> nat k \<in> allocated p"
  using assms(2) by (auto simp: FreeId_def allocated_def is_id_def split: if_splits)

lemma ids_reach_inv: "ids_reach p \<Longrightarrow> \<exists>fs ts. ids_inv p fs ts"
proof (induction rule: ids_reach.induct)
  case (freed p Now k p')
  then obtain fs ts where v: "ids_inv p fs ts" by blast
  from FreeId_cases [OF v freed(2)] show ?case
  proof
    assume "0 \<le> k \<and> nat k \<in> allocated p"
    then have "nat k < MAX_IDS" "id_State (m_aIds p (nat k)) = ID_ALLOCATED" "int (nat k) = k" by (auto simp: allocated_def)
    from FreeId_inv [OF v this(1,2), of Now] this(3) freed(2) show ?thesis by auto
  qed (use v in blast)
next
  case (taken p Now k p')
  then obtain fs ts where "ids_inv p fs ts" by blast
  from NewId_inv [OF this refl, of Now] taken(2) show ?case by auto
next
  case (timed_out p p')
  then obtain fs ts where "ids_inv p fs ts" by blast
  from TimeoutIds_inv [OF this] timed_out(2) show ?case by auto
qed (use Reset_inv in blast)

lemma new_id_fresh:
  assumes "ids_inv p fs ts"
  shows "\<exists>k p'. NewId Now p = Some (k, p') \<and>
    (if k = -1 then allocated p' = allocated p \<and> (\<forall>i < MAX_IDS. id_State (m_aIds p i) \<noteq> ID_FREE) \<and>
                    (allocated p = {..<MAX_IDS} \<or> (\<exists>i. waits p Now i))
     else 0 \<le> k \<and> k < int MAX_IDS \<and> nat k \<notin> allocated p \<and> allocated p' = insert (nat k) (allocated p))"
proof -
  note v = assms [unfolded ids_inv_def]
  let ?fs = "rev (takeWhile (\<lambda>i. timeout p i < Now) ts) @ fs" and ?ts = "dropWhile (\<lambda>i. timeout p i < Now) ts"
  obtain p' where p': "NewId Now p = Some (case ?fs of [] \<Rightarrow> -1 | i # _ \<Rightarrow> int i, p')" "ids_inv p' (tl ?fs) ?ts"
    using NewId_inv [OF assms refl] by blast
  note a = allocated_inv [OF assms] allocated_inv [OF p'(2)]
  have ts: "ts = takeWhile (\<lambda>i. timeout p i < Now) ts @ ?ts" by simp
  show ?thesis
  proof (cases ?fs)
    case Nil
    then have t: "?ts = ts" "fs = []" using ts by auto
    have "allocated p = {..<MAX_IDS} \<or> (\<exists>i. waits p Now i)"
    proof (cases ts)
      case (Cons i rest)
      then have "\<not> timeout p i < Now" using Nil by (auto split: if_splits)
      moreover have "i < MAX_IDS" "id_State (m_aIds p i) = ID_TIMED" using v Cons t by auto
      ultimately show ?thesis unfolding waits_def by (metis linorder_not_less)
    qed (use a t in auto)
    moreover have "\<forall>i < MAX_IDS. id_State (m_aIds p i) \<noteq> ID_FREE" using v t by auto
    moreover have "allocated p' = allocated p" using a t Nil by simp
    ultimately show ?thesis using p'(1) Nil by simp
  next
    case (Cons i rest)
    have "set ts = set (takeWhile (\<lambda>i. timeout p i < Now) ts) \<union> set ?ts" by (metis ts set_append)
    then have "set ?fs \<union> set ?ts = set fs \<union> set ts" by auto
    have "distinct (takeWhile (\<lambda>i. timeout p i < Now) ts @ ?ts)" using v by (simp only: takeWhile_dropWhile_id) simp
    then have "set (takeWhile (\<lambda>i. timeout p i < Now) ts) \<inter> set ?ts = {}" "distinct (takeWhile (\<lambda>i. timeout p i < Now) ts)" "distinct ?ts"
      unfolding distinct_append by blast+
    moreover have "distinct fs" "set fs \<inter> set ts = {}" using v by auto
    ultimately have "distinct (?fs @ ?ts)" using \<open>set ts = _\<close> by auto
    with \<open>set ?fs \<union> set ?ts = set fs \<union> set ts\<close> have "i \<in> set fs \<union> set ts" "i \<notin> set rest" "i \<notin> set ?ts" "insert i (set rest) \<union> set ?ts = set fs \<union> set ts"
      unfolding Cons by auto
    then have "i < MAX_IDS" "i \<notin> allocated p" "allocated p' = insert i (allocated p)"
      using v a unfolding Cons by auto
    then show ?thesis using p'(1) Cons by simp
  qed
qed

section \<open>Properties\<close>

text \<open>
  C28: In every state of the pool each operation returns. A new id is none of those in use and is then in
  use; there is none only if no id is free, because all are in use or one waits for its timeout. The
  counter is the number of ids in use.
\<close>

theorem ids_never_shared:
  assumes "ids_reach p"
  shows "(\<exists>k p'. NewId Now p = Some (k, p') \<and>
      (if k = -1 then allocated p' = allocated p \<and> (\<forall>i < MAX_IDS. id_State (m_aIds p i) \<noteq> ID_FREE) \<and>
                      (allocated p = {..<MAX_IDS} \<or> (\<exists>i. waits p Now i))
       else 0 \<le> k \<and> k < int MAX_IDS \<and> nat k \<notin> allocated p \<and> allocated p' = insert (nat k) (allocated p))) \<and>
    (\<forall>i \<in> allocated p. \<exists>p'. FreeId Now (int i) p = Some p' \<and> allocated p' = allocated p - {i}) \<and>
    (\<exists>p'. TimeoutIds p = Some p' \<and> allocated p' = allocated p) \<and>
    m_InUsage p = int (card (allocated p))"
proof -
  obtain fs ts where v: "ids_inv p fs ts" using ids_reach_inv [OF assms] by blast
  have "\<exists>p'. FreeId Now (int i) p = Some p' \<and> allocated p' = allocated p - {i}" if "i \<in> allocated p" for i
  proof -
    have "i < MAX_IDS" "id_State (m_aIds p i) = ID_ALLOCATED" using that by (auto simp: allocated_def)
    from FreeId_inv [OF v this, of Now] obtain p' where "FreeId Now (int i) p = Some p'" "ids_inv p' fs (ts @ [i])" by blast
    with allocated_inv [OF v] allocated_inv [of p'] show ?thesis by auto
  qed
  moreover from TimeoutIds_inv [OF v] obtain p' where "TimeoutIds p = Some p'" "ids_inv p' (rev ts @ fs) []" by blast
  with allocated_inv [OF v] allocated_inv [of p'] have "\<exists>p'. TimeoutIds p = Some p' \<and> allocated p' = allocated p" by auto
  ultimately show ?thesis using new_id_fresh [OF v, of Now] card_allocated [OF v] by blast
qed

text \<open>
  The five seconds an id is to be kept back are not kept. The time in nanoseconds is stored in 32
  bits, so once the clock is past \<open>2 ^ 31\<close> nanoseconds (two seconds after the start) every timeout is
  over, and the id that was released last is the next one to be given out.
\<close>

theorem freed_id_not_held_back:
  assumes "ids_reach p" "i \<in> allocated p" "2 ^ 31 \<le> Now"
  shows "\<exists>p' p''. FreeId Then (int i) p = Some p' \<and> NewId Now p' = Some (int i, p'')"
proof -
  obtain fs ts where v: "ids_inv p fs ts" using ids_reach_inv [OF assms(1)] by blast
  have i: "i < MAX_IDS" "id_State (m_aIds p i) = ID_ALLOCATED" using assms(2) by (auto simp: allocated_def)
  obtain p' where p': "FreeId Then (int i) p = Some p'" "ids_inv p' fs (ts @ [i])" using FreeId_inv [OF v i] by blast
  have "timeout p' j < Now" for j
    using assms(3) sint_lt [of "id_Timeout (m_aIds p' j)"] by (simp add: timeout_def)
  then have "takeWhile (\<lambda>j. timeout p' j < Now) (ts @ [i]) = ts @ [i]" by (simp add: takeWhile_eq_all_conv)
  with NewId_inv [OF p'(2) refl, of Now] p'(1) show ?thesis by auto
qed

text \<open>A pool of which one id is taken.\<close>

definition one_taken :: CSnapIdPool where
  "one_taken = (case NewId 0 (Ids_Reset \<lparr>m_aIds = \<lambda>_. \<lparr>id_Next = 0, id_State = ID_FREE, id_Timeout = 0\<rparr>,
     m_FirstFree = 0, m_FirstTimed = 0, m_LastTimed = 0, m_Usage = 0, m_InUsage = 0\<rparr>) of Some (_, p) \<Rightarrow> p)"

lemma one_taken_reached: "ids_reach one_taken" "0 \<in> allocated one_taken"
proof -
  define e where "e = \<lparr>m_aIds = \<lambda>_. \<lparr>id_Next = 0, id_State = ID_FREE, id_Timeout = 0\<rparr>,
     m_FirstFree = 0, m_FirstTimed = 0, m_LastTimed = 0, m_Usage = 0, m_InUsage = 0\<rparr>"
  have "[0..<MAX_IDS] = 0 # [Suc 0..<MAX_IDS]" by (rule upt_conv_Cons) simp
  then obtain p' where p': "NewId 0 (Ids_Reset e) = Some (0, p')" "ids_inv p' [Suc 0..<MAX_IDS] []"
    using NewId_inv [OF Reset_inv refl, of 0 e] by (auto simp del: upt_Suc upt_rec_numeral)
  then have "one_taken = p'" by (simp add: one_taken_def e_def)
  moreover have "ids_reach p'" by (rule ids_reach.taken [OF ids_reach.reset p'(1)])
  moreover have "0 \<in> allocated p'" using allocated_inv [OF p'(2)] by simp
  ultimately show "ids_reach one_taken" "0 \<in> allocated one_taken" by simp_all
qed

theorem ids_never_shared_witness:
  "(\<exists>k p'. NewId 7 one_taken = Some (k, p')) \<and> m_InUsage one_taken = int (card (allocated one_taken))"
  using ids_never_shared [OF one_taken_reached(1), of 7] by blast

theorem freed_id_not_held_back_witness:
  "\<exists>p' p''. FreeId 10000000000 0 one_taken = Some p' \<and> NewId 10000000001 p' = Some (0, p'')"
  using freed_id_not_held_back [OF one_taken_reached, of 10000000001 10000000000] by simp

end
