(* ===== verification/Messages.thy ===== *)
theory Messages
  imports Uuid NetServerSafe
begin

text \<open>
  The ids of the messages between client and server, their translation between the versions 0.6 and 0.7,
  and the way they are put in front of a message and taken off again
  (\<^verbatim>\<open>src/src/engine/shared/protocol.h\<close>, \<^verbatim>\<open>protocol7.h\<close>, \<^verbatim>\<open>protocol_ex.cpp\<close>, \<^verbatim>\<open>message.h\<close>
  and the functions \<open>MsgFromSixup\<close> and \<open>RepackMsg\<close> of \<^verbatim>\<open>server.cpp\<close>).
\<close>

section \<open>Ids\<close>

definition NETMSG_INFO :: int where "NETMSG_INFO = 1"
definition NETMSG_INPUTTIMING :: int where "NETMSG_INPUTTIMING = 9"
definition NETMSG_RCON_AUTH_STATUS :: int where "NETMSG_RCON_AUTH_STATUS = 10"
definition NETMSG_RCON_LINE :: int where "NETMSG_RCON_LINE = 11"
definition NETMSG_READY :: int where "NETMSG_READY = 14"
definition NETMSG_ENTERGAME :: int where "NETMSG_ENTERGAME = 15"
definition NETMSG_RCON_CMD :: int where "NETMSG_RCON_CMD = 17"
definition NETMSG_RCON_AUTH :: int where "NETMSG_RCON_AUTH = 18"
definition NETMSG_REQUEST_MAP_DATA :: int where "NETMSG_REQUEST_MAP_DATA = 19"
definition NETMSG_PING :: int where "NETMSG_PING = 22"
definition NETMSG_PING_REPLY :: int where "NETMSG_PING_REPLY = 23"
definition NETMSG_RCON_CMD_ADD :: int where "NETMSG_RCON_CMD_ADD = 25"
definition NETMSG_RCON_CMD_REM :: int where "NETMSG_RCON_CMD_REM = 26"

text \<open>The ids of 0.7 that the server names.\<close>

definition NETMSG7_SERVERINFO :: int where "NETMSG7_SERVERINFO = 4"
definition NETMSG7_RCON_AUTH_ON :: int where "NETMSG7_RCON_AUTH_ON = 11"
definition NETMSG7_RCON_AUTH_OFF :: int where "NETMSG7_RCON_AUTH_OFF = 12"
definition NETMSG7_RCON_LINE :: int where "NETMSG7_RCON_LINE = 13"

text \<open>The messages that are identified by a UUID are numbered from \<open>OFFSET_UUID\<close>.\<close>

definition message_names :: "u8 list list" where
  "message_names = map bytes_of
     [''what-is@ddnet.tw'', ''it-is@ddnet.tw'', ''i-dont-know@ddnet.tw'', ''rcon-type@ddnet.tw'', ''map-details@ddnet.tw'',
      ''capabilities@ddnet.tw'', ''clientver@ddnet.tw'', ''i-am-fex@faffa81.github.io'', ''ping@ddnet.tw'', ''pong@ddnet.tw'',
      ''checksum-request@ddnet.tw'', ''checksum-response@ddnet.tw'', ''checksum-error@ddnet.tw'', ''redirect@ddnet.org'',
      ''rcon-cmd-group-start@ddnet.org'', ''rcon-cmd-group-end@ddnet.org'', ''map-reload@ddnet.org'', ''reconnect@ddnet.org'',
      ''sv-maplist-add@ddnet.org'', ''sv-maplist-start@ddnet.org'', ''sv-maplist-end@ddnet.org'', ''fex-info@faffa81.github.io'']"

definition NETMSG_WHATIS :: int where "NETMSG_WHATIS = OFFSET_UUID"
definition NETMSG_ITIS :: int where "NETMSG_ITIS = OFFSET_UUID + 1"
definition NETMSG_IDONTKNOW :: int where "NETMSG_IDONTKNOW = OFFSET_UUID + 2"
definition NETMSG_RCONTYPE :: int where "NETMSG_RCONTYPE = OFFSET_UUID + 3"
definition NETMSG_MAP_DETAILS :: int where "NETMSG_MAP_DETAILS = OFFSET_UUID + 4"
definition NETMSG_CAPABILITIES :: int where "NETMSG_CAPABILITIES = OFFSET_UUID + 5"
definition NETMSG_CLIENTVER :: int where "NETMSG_CLIENTVER = OFFSET_UUID + 6"
definition NETMSG_PINGEX :: int where "NETMSG_PINGEX = OFFSET_UUID + 8"
definition NETMSG_PONGEX :: int where "NETMSG_PONGEX = OFFSET_UUID + 9"
definition NETMSG_REDIRECT :: int where "NETMSG_REDIRECT = OFFSET_UUID + 13"
definition NETMSG_RCON_CMD_GROUP_START :: int where "NETMSG_RCON_CMD_GROUP_START = OFFSET_UUID + 14"
definition NETMSG_RCON_CMD_GROUP_END :: int where "NETMSG_RCON_CMD_GROUP_END = OFFSET_UUID + 15"
definition NETMSG_MAP_RELOAD :: int where "NETMSG_MAP_RELOAD = OFFSET_UUID + 16"
definition NETMSG_RECONNECT :: int where "NETMSG_RECONNECT = OFFSET_UUID + 17"

lemmas sys_ids = NETMSG_INFO_def NETMSG_MAP_CHANGE_def NETMSG_MAP_DATA_def NETMSG_CON_READY_def NETMSG_INPUTTIMING_def
  NETMSG_RCON_AUTH_STATUS_def NETMSG_RCON_LINE_def NETMSG_READY_def NETMSG_ENTERGAME_def NETMSG_INPUT_def NETMSG_RCON_CMD_def
  NETMSG_RCON_AUTH_def NETMSG_REQUEST_MAP_DATA_def NETMSG_PING_def NETMSG_PING_REPLY_def NETMSG_RCON_CMD_ADD_def
  NETMSG_RCON_CMD_REM_def

lemmas uuid_ids = NETMSG_WHATIS_def NETMSG_ITIS_def NETMSG_IDONTKNOW_def NETMSG_RCONTYPE_def NETMSG_MAP_DETAILS_def
  NETMSG_CAPABILITIES_def NETMSG_CLIENTVER_def NETMSG_PINGEX_def NETMSG_PONGEX_def NETMSG_REDIRECT_def
  NETMSG_RCON_CMD_GROUP_START_def NETMSG_RCON_CMD_GROUP_END_def NETMSG_MAP_RELOAD_def NETMSG_RECONNECT_def OFFSET_UUID_def

text \<open>The registration of these ids with the manager; \<open>None\<close> is its failed assertion.\<close>

fun register_names :: "(u8 list \<Rightarrow> u8 list) \<Rightarrow> int \<Rightarrow> u8 list list \<Rightarrow> CUuidManager \<Rightarrow> CUuidManager option" where
  "register_names md5 k [] m = Some m"
| "register_names md5 k (x # xs) m = Option.bind (RegisterName md5 m k x) (register_names md5 (k + 1) xs)"

definition RegisterUuids :: "(u8 list \<Rightarrow> u8 list) \<Rightarrow> CUuidManager \<Rightarrow> CUuidManager option" where
  "RegisterUuids md5 m = register_names md5 OFFSET_UUID message_names m"

section \<open>Messages to be sent\<close>

record CMsgPacker =
  mp_Packer :: packer
  mp_MsgId :: int
  mp_System :: bool
  mp_NoTranslate :: bool

definition new_packer :: packer where
  "new_packer = Packer_Reset \<lparr>m_Written = [], m_BufferSize = PACKER_BUFFER_SIZE, m_Error = False\<rparr>"

definition CMsgPacker_create :: "int \<Rightarrow> bool \<Rightarrow> bool \<Rightarrow> CMsgPacker" where
  "CMsgPacker_create Type System NoTranslate =
     \<lparr>mp_Packer = new_packer, mp_MsgId = Type, mp_System = System, mp_NoTranslate = NoTranslate\<rparr>"

abbreviation sys_packer :: "int \<Rightarrow> CMsgPacker" where
  "sys_packer Type \<equiv> CMsgPacker_create Type True False"

definition Msg_AddInt :: "int \<Rightarrow> CMsgPacker \<Rightarrow> CMsgPacker" where
  "Msg_AddInt i m = m\<lparr>mp_Packer := AddInt (mp_Packer m) (word_of_int i)\<rparr>"

definition Msg_AddString :: "u8 list \<Rightarrow> int \<Rightarrow> bool \<Rightarrow> CMsgPacker \<Rightarrow> CMsgPacker" where
  "Msg_AddString str Limit AllowTruncation m = m\<lparr>mp_Packer := AddString (mp_Packer m) str Limit AllowTruncation\<rparr>"

definition Msg_AddRaw :: "u8 list \<Rightarrow> CMsgPacker \<Rightarrow> CMsgPacker" where
  "Msg_AddRaw data m = m\<lparr>mp_Packer := AddRaw (mp_Packer m) data\<rparr>"

text \<open>
  The id in the version of the receiver, or \<open>None\<close> for a message the version does not have.
  \<open>Msg_SixToSeven\<close> is generated from the description of the protocol.
\<close>

definition msg_to_sixup :: "(int \<Rightarrow> int) \<Rightarrow> bool \<Rightarrow> int \<Rightarrow> int option" where
  "msg_to_sixup Msg_SixToSeven System MsgId =
     (if System
      then if MsgId \<ge> OFFSET_UUID then Some MsgId
           else if MsgId \<ge> NETMSG_MAP_CHANGE \<and> MsgId \<le> NETMSG_MAP_DATA then Some MsgId
           else if MsgId \<ge> NETMSG_CON_READY \<and> MsgId \<le> NETMSG_INPUTTIMING then Some (MsgId + 1)
           else if MsgId = NETMSG_RCON_LINE then Some NETMSG7_RCON_LINE
           else if MsgId \<ge> NETMSG_PING \<and> MsgId \<le> NETMSG_PING_REPLY then Some (MsgId + 4)
           else if MsgId \<ge> NETMSG_RCON_CMD_ADD \<and> MsgId \<le> NETMSG_RCON_CMD_REM then Some (MsgId - 11)
           else None
      else
        let MsgId = (if MsgId \<ge> 0 \<and> MsgId < OFFSET_UUID then Msg_SixToSeven MsgId else MsgId)
        in if MsgId < 0 then None else Some MsgId)"

definition put_msg_id :: "CUuidManager \<Rightarrow> int \<Rightarrow> bool \<Rightarrow> packer \<Rightarrow> packer" where
  "put_msg_id um MsgId System p =
     (if MsgId < OFFSET_UUID
      then AddInt p (word_of_int (push_bit 1 MsgId OR (if System then 1 else 0)))
      else PackUuid um MsgId (AddInt p (if System then 1 else 0)))"

definition RepackMsg :: "CUuidManager \<Rightarrow> (int \<Rightarrow> int) \<Rightarrow> CMsgPacker \<Rightarrow> bool \<Rightarrow> packer option" where
  "RepackMsg um Msg_SixToSeven m Sixup =
     (case (if Sixup \<and> \<not> mp_NoTranslate m then msg_to_sixup Msg_SixToSeven (mp_System m) (mp_MsgId m) else Some (mp_MsgId m)) of
        None \<Rightarrow> None
      | Some MsgId \<Rightarrow> Some (AddRaw (put_msg_id um MsgId (mp_System m) new_packer) (m_Written (mp_Packer m))))"

section \<open>Received messages\<close>

text \<open>The id in the version 0.6; negative ids are refused by the caller.\<close>

definition MsgFromSixup :: "int \<Rightarrow> bool \<Rightarrow> int" where
  "MsgFromSixup Msg System =
     (if System
      then if Msg = NETMSG_INFO then Msg
           else if Msg \<ge> 14 \<and> Msg \<le> 15 then Msg + 11
           else if Msg \<ge> 18 \<and> Msg \<le> 28 then NETMSG_READY + Msg - 18
           else if Msg < OFFSET_UUID then -1
           else Msg
      else Msg)"

datatype unpacked_id = Unpackmessage_error | Unpackmessage_ok int bool | Unpackmessage_answer int bool CMsgPacker

text \<open>
  The unpacker is left behind the id. The branches for debugging only read on, in messages that are
  not handled.
\<close>

definition UnpackMessageId :: "CUuidManager \<Rightarrow> unpacker \<Rightarrow> unpacked_id \<times> unpacker" where
  "UnpackMessageId um u =
     (let (MsgId, u) = GetInt u
      in if m_UError u then (Unpackmessage_error, u)
         else
           let pId = drop_bit 1 (sint MsgId);
               Sys = odd (sint MsgId)
           in if pId < 0 \<or> pId \<ge> OFFSET_UUID then (Unpackmessage_error, u)
              else if pId \<noteq> 0 then (Unpackmessage_ok pId Sys, u)
              else
                let (pId, _, u) = UnpackUuid um u
                in if pId = UUID_INVALID \<or> pId = UUID_UNKNOWN then (Unpackmessage_error, u)
                   else if Sys \<and> pId = NETMSG_WHATIS
                   then (case UnpackUuid um u of
                           (Id2, None, u) \<Rightarrow> (Unpackmessage_ok pId Sys, u)
                         | (Id2, Some Uuid2, u) \<Rightarrow>
                             (Unpackmessage_answer pId Sys
                               (if Id2 = UUID_UNKNOWN then Msg_AddRaw (m_aData Uuid2) (sys_packer NETMSG_IDONTKNOW)
                                else Msg_AddString (GetName um Id2) 0 True (Msg_AddRaw (m_aData Uuid2) (sys_packer NETMSG_ITIS))), u))
                   else (Unpackmessage_ok pId Sys, u))"

section \<open>The id of a message arrives\<close>

text \<open>A registry with the names of the messages first; the game registers more after them.\<close>

definition knows_messages :: "(u8 list \<Rightarrow> u8 list) \<Rightarrow> CUuidManager \<Rightarrow> bool" where
  "knows_messages md5 um \<longleftrightarrow>
     (\<exists>more um0. RegisterUuids md5 no_names = Some um0 \<and> register_names md5 (OFFSET_UUID + int (NumUuids um0)) more um0 = Some um)"

lemma register_names_ok:
  "registry_ok m \<Longrightarrow> register_names md5 k names m = Some m' \<Longrightarrow>
   registry_ok m' \<and> um_Names m' = um_Names m @ map (\<lambda>name. (CalculateUuid md5 name, name)) names"
proof (induction names arbitrary: m k)
  case (Cons name names)
  then obtain m1 where "RegisterName md5 m k name = Some m1" "register_names md5 (k + 1) names m1 = Some m'"
    by (auto split: bind_splits)
  with RegisterName_ok [OF Cons.prems(1), of md5 k name m1] Cons.IH [of m1 "k + 1"] show ?case by simp
qed simp

lemma knows_messages_names:
  assumes "knows_messages md5 um"
  shows "registry_ok um \<and> (\<exists>more. um_Names um = map (\<lambda>name. (CalculateUuid md5 name, name)) (message_names @ more))"
proof -
  obtain more um0 where r: "RegisterUuids md5 no_names = Some um0" "register_names md5 (OFFSET_UUID + int (NumUuids um0)) more um0 = Some um"
    using assms by (auto simp: knows_messages_def)
  have "registry_ok no_names" by (simp add: registry_ok_def no_names_def keys_sorted_def)
  from register_names_ok [OF this r(1) [unfolded RegisterUuids_def]]
  have "registry_ok um0" "um_Names um0 = map (\<lambda>name. (CalculateUuid md5 name, name)) message_names" by (simp_all add: no_names_def)
  with register_names_ok [OF this(1) r(2)] show ?thesis by auto
qed

text \<open>What stands for an id in front of a message.\<close>

definition msg_id_bytes :: "CUuidManager \<Rightarrow> int \<Rightarrow> bool \<Rightarrow> u8 list" where
  "msg_id_bytes um MsgId System =
     (if MsgId < OFFSET_UUID then packed (word_of_int (push_bit 1 MsgId OR (if System then 1 else 0)))
      else packed (if System then 1 else 0) @ m_aData (GetUuid um MsgId))"

lemma put_msg_id_bytes:
  assumes "MsgId < OFFSET_UUID \<or> length (m_aData (GetUuid um MsgId)) = 16"
  shows "put_msg_id um MsgId System new_packer = new_packer\<lparr>m_Written := msg_id_bytes um MsgId System\<rparr>"
    "length (msg_id_bytes um MsgId System) \<le> 21"
proof -
  let ?i = "word_of_int (push_bit 1 MsgId OR (if System then 1 else 0)) :: i32"
  have plain: "AddInt new_packer i = new_packer\<lparr>m_Written := packed i\<rparr>" for i
    using add_field_fits [of new_packer "FInt i"] packed_le [of i] by (simp add: new_packer_def Packer_Reset_def PACKER_BUFFER_SIZE_def)
  have raw: "PackUuid um MsgId (new_packer\<lparr>m_Written := packed i\<rparr>) = new_packer\<lparr>m_Written := packed i @ m_aData (GetUuid um MsgId)\<rparr>"
    if "length (m_aData (GetUuid um MsgId)) = 16" for i
    using that packed_le [of i] by (simp add: PackUuid_def AddRaw_def new_packer_def Packer_Reset_def PACKER_BUFFER_SIZE_def)
  show "put_msg_id um MsgId System new_packer = new_packer\<lparr>m_Written := msg_id_bytes um MsgId System\<rparr>"
    using assms raw by (auto simp: put_msg_id_def msg_id_bytes_def plain)
  show "length (msg_id_bytes um MsgId System) \<le> 21"
    using assms packed_le [of ?i] packed_le [of "if System then 1 else 0"] by (auto simp: msg_id_bytes_def)
qed

lemma GetInt_packed:
  assumes "m_Data u = pre @ packed i @ post" "m_Current u = length pre" "\<not> m_UError u"
  shows "GetInt u = (i, u\<lparr>m_Current := length (pre @ packed i)\<rparr>)"
  using get_field_clean [of "FInt i" u pre post] assms by (simp split: prod.splits)

lemma UnpackUuid_raw:
  assumes "m_Data u = pre @ d @ post" "m_Current u = length pre" "\<not> m_UError u" "length d = 16"
  shows "UnpackUuid um u = (LookupUuid um (CUuid d), Some (CUuid d), u\<lparr>m_Current := length (pre @ d)\<rparr>)"
  using get_field_clean [of "FRaw d" u pre post] assms by (auto simp: UnpackUuid_def split: prod.splits option.splits)

lemma plain_id:
  assumes "0 < k" "k < OFFSET_UUID"
  shows "drop_bit 1 (sint (word_of_int (push_bit 1 k OR (if Sys then 1 else 0)) :: i32)) = k"
    "odd (sint (word_of_int (push_bit 1 k OR (if Sys then 1 else 0)) :: i32)) = Sys"
proof -
  let ?j = "push_bit 1 k OR (if Sys then 1 else 0)"
  have j: "?j = 2 * k + (if Sys then 1 else 0)" by (cases Sys) (simp_all add: push_bit_eq_mult or_one_eq)
  have "sint (word_of_int ?j :: i32) = ?j"
    unfolding j using assms by (simp add: OFFSET_UUID_def signed_of_int signed_take_bit_int_eq_self del: of_int_add of_int_mult)
  then show "drop_bit 1 (sint (word_of_int ?j :: i32)) = k" "odd (sint (word_of_int ?j :: i32)) = Sys"
    by (simp_all only: j) (simp_all add: drop_bit_eq_div)
qed

lemma exchange_id:
  "drop_bit 1 (sint (if Sys then 1 else 0 :: i32)) = 0" "odd (sint (if Sys then 1 else 0 :: i32)) = Sys"
  by simp_all

text \<open>
  C33: A message the server packs for a client of its version arrives with its id, its system flag and its
  data: \<open>UnpackMessageId\<close> gives the id and leaves the unpacker at the data, for the numbered messages and
  for those that are identified by a UUID. (The question \<open>NETMSG_WHATIS\<close> is answered while it is unpacked.)
\<close>

theorem message_id_arrives:
  assumes "knows_messages md5 um" "\<And>d. length (md5 d) = 16"
    "0 < Msg" "Msg < OFFSET_UUID + int (NumUuids um)" "\<not> (System \<and> Msg = NETMSG_WHATIS)"
    "length (m_Written (mp_Packer m)) \<le> 2000" "mp_MsgId m = Msg" "mp_System m = System"
  shows "\<exists>p u. RepackMsg um tr m False = Some p \<and> \<not> m_Error p \<and>
    UnpackMessageId um (Unpacker_Reset (m_Written p)) = (Unpackmessage_ok Msg System, u) \<and> \<not> m_UError u \<and>
    Remaining u = m_Written (mp_Packer m)"
proof -
  let ?D = "m_Written (mp_Packer m)" and ?B = "msg_id_bytes um Msg System"
  obtain more where reg: "registry_ok um" "um_Names um = map (\<lambda>name. (CalculateUuid md5 name, name)) (message_names @ more)"
    using knows_messages_names [OF assms(1)] by blast
  define i where "i = nat (Msg - OFFSET_UUID)"
  have uuid: "length (m_aData (GetUuid um Msg)) = 16" "LookupUuid um (GetUuid um Msg) = Msg" if "\<not> Msg < OFFSET_UUID"
  proof -
    have i: "i < length (um_Names um)" "Msg = OFFSET_UUID + int i" using that assms(4) by (auto simp: i_def NumUuids_def)
    then have g: "GetUuid um Msg = fst (um_Names um ! i)" by (simp add: GetUuid_def GetIndex_def)
    show "LookupUuid um (GetUuid um Msg) = Msg" using lookup_registered [OF reg(1) i(1)] i(2) g by simp
    have "\<exists>name. um_Names um ! i = (CalculateUuid md5 name, name)" using i(1) unfolding reg(2) by (simp del: map_append)
    then show "length (m_aData (GetUuid um Msg)) = 16" using g assms(2) by (auto simp: CalculateUuid_def set_version_def Let_def)
  qed
  have put: "put_msg_id um Msg System new_packer = new_packer\<lparr>m_Written := ?B\<rparr>" "length ?B \<le> 21"
    using put_msg_id_bytes [of Msg um System] uuid(1) by blast+
  let ?p = "new_packer\<lparr>m_Written := ?B @ ?D\<rparr>"
  have "RepackMsg um tr m False = Some ?p"
    using assms(6-8) put by (simp add: RepackMsg_def AddRaw_def new_packer_def Packer_Reset_def PACKER_BUFFER_SIZE_def)
  moreover have "UnpackMessageId um (Unpacker_Reset (?B @ ?D)) =
    (Unpackmessage_ok Msg System, (Unpacker_Reset (?B @ ?D))\<lparr>m_Current := length ?B\<rparr>)"
  proof (cases "Msg < OFFSET_UUID")
    case True
    let ?i = "word_of_int (push_bit 1 Msg OR (if System then 1 else 0)) :: i32"
    have B: "?B = packed ?i" using True by (simp add: msg_id_bytes_def)
    have "GetInt (Unpacker_Reset (?B @ ?D)) = (?i, (Unpacker_Reset (?B @ ?D))\<lparr>m_Current := length ?B\<rparr>)"
      unfolding B using GetInt_packed [of "Unpacker_Reset (packed ?i @ ?D)" "[]" ?i ?D] by (simp add: Unpacker_Reset_def)
    then show ?thesis using plain_id [OF assms(3) True, of System] True assms(3) by (simp add: UnpackMessageId_def Unpacker_Reset_def)
  next
    case False
    let ?i = "if System then 1 else 0 :: i32" and ?d = "m_aData (GetUuid um Msg)"
    have B: "?B = packed ?i @ ?d" using False by (simp add: msg_id_bytes_def)
    let ?u = "Unpacker_Reset (?B @ ?D)"
    have get: "GetInt ?u = (?i, ?u\<lparr>m_Current := length (packed ?i)\<rparr>)"
      using GetInt_packed [of ?u "[]" ?i "?d @ ?D"] by (simp add: Unpacker_Reset_def B)
    have "UnpackUuid um (?u\<lparr>m_Current := length (packed ?i)\<rparr>) = (LookupUuid um (CUuid ?d), Some (CUuid ?d), ?u\<lparr>m_Current := length ?B\<rparr>)"
      using UnpackUuid_raw [of "?u\<lparr>m_Current := length (packed ?i)\<rparr>" "packed ?i" ?d ?D um] uuid(1) [OF False]
      by (simp add: Unpacker_Reset_def B)
    moreover have "LookupUuid um (CUuid ?d) = Msg" using uuid(2) [OF False] by simp
    moreover have "Msg \<noteq> UUID_INVALID" "Msg \<noteq> UUID_UNKNOWN" using False by (auto simp: UUID_INVALID_def UUID_UNKNOWN_def OFFSET_UUID_def)
    ultimately show ?thesis using get exchange_id [of System] assms(5)
      by (cases System) (simp_all add: UnpackMessageId_def Unpacker_Reset_def OFFSET_UUID_def)
  qed
  ultimately show ?thesis
    by (intro exI [of _ ?p] exI [of _ "(Unpacker_Reset (?B @ ?D))\<lparr>m_Current := length ?B\<rparr>"])
      (simp add: new_packer_def Packer_Reset_def Unpacker_Reset_def Remaining_def)
qed

text \<open>A digest that tells the names apart.\<close>

definition name_md5 :: "u8 list \<Rightarrow> u8 list" where
  "name_md5 d = take 16 (drop 16 d @ replicate 16 0)"

lemma register_names_succeeds:
  "registry_ok m \<Longrightarrow> distinct (map (CalculateUuid md5) names) \<Longrightarrow> CalculateUuid md5 ` set names \<inter> fst ` set (um_Names m) = {} \<Longrightarrow>
    \<exists>m'. register_names md5 (OFFSET_UUID + int (length (um_Names m))) names m = Some m'"
proof (induction names arbitrary: m)
  case (Cons name names)
  have "CalculateUuid md5 name \<notin> fst ` set (um_Names m)" using Cons.prems(3) by auto
  then have l: "LookupUuid m (CalculateUuid md5 name) = UUID_UNKNOWN" by (rule lookup_unknown [OF Cons.prems(1)])
  then obtain m1 where m1: "RegisterName md5 m (OFFSET_UUID + int (length (um_Names m))) name = Some m1"
    by (simp add: RegisterName_def GetIndex_def Let_def)
  have ok: "registry_ok m1" "um_Names m1 = um_Names m @ [(CalculateUuid md5 name, name)]"
    using RegisterName_ok [OF Cons.prems(1) m1] by blast+
  have "CalculateUuid md5 ` set names \<inter> fst ` set (um_Names m1) = {}" using Cons.prems(2,3) by (auto simp: ok(2))
  then show ?case using Cons.IH [OF ok(1)] Cons.prems(2) by (simp add: m1 ok(2) ac_simps)
qed simp

lemma name_md5_tells_apart: "distinct (map (CalculateUuid name_md5) message_names)"
  by code_simp

lemma names_known: "\<exists>um. knows_messages name_md5 um \<and> NumUuids um = 22"
proof -
  have "registry_ok no_names" by (simp add: registry_ok_def no_names_def keys_sorted_def)
  from register_names_succeeds [OF this name_md5_tells_apart]
  obtain um where um: "register_names name_md5 OFFSET_UUID message_names no_names = Some um" by (auto simp: no_names_def)
  then have "knows_messages name_md5 um" unfolding knows_messages_def RegisterUuids_def
    by (intro exI [of _ "[]"] exI [of _ um]) simp
  moreover have "NumUuids um = 22"
    using register_names_ok [OF \<open>registry_ok no_names\<close> um] by (simp add: NumUuids_def no_names_def message_names_def)
  ultimately show ?thesis by blast
qed

theorem message_id_arrives_witness:
  "\<exists>um p u. RepackMsg um (\<lambda>i. i) (sys_packer NETMSG_PINGEX) False = Some p \<and>
     UnpackMessageId um (Unpacker_Reset (m_Written p)) = (Unpackmessage_ok NETMSG_PINGEX True, u)"
proof -
  obtain um where um: "knows_messages name_md5 um" "NumUuids um = 22" using names_known by blast
  have "\<exists>p u. RepackMsg um (\<lambda>i. i) (sys_packer NETMSG_PINGEX) False = Some p \<and> \<not> m_Error p \<and>
    UnpackMessageId um (Unpacker_Reset (m_Written p)) = (Unpackmessage_ok NETMSG_PINGEX True, u) \<and> \<not> m_UError u \<and>
    Remaining u = m_Written (mp_Packer (sys_packer NETMSG_PINGEX))"
    by (rule message_id_arrives [OF um(1)])
      (simp_all add: um(2) name_md5_def uuid_ids CMsgPacker_create_def new_packer_def Packer_Reset_def)
  then show ?thesis by blast
qed

end
