(* ===== verification/AuthManager.thy ===== *)
theory AuthManager
  imports Utf8
begin

text \<open>
  The keys for the remote console of \<^verbatim>\<open>src/src/engine/server/authmanager.cpp\<close>. The digest \<open>md5\<close> is a
  library function, and the salts drawn by \<open>secure_random_fill\<close> are arguments. Strings are the bytes
  before their terminator.
\<close>

section \<open>State\<close>

definition AUTHED_NO :: int where "AUTHED_NO = 0"
definition AUTHED_HELPER :: int where "AUTHED_HELPER = 1"
definition AUTHED_MOD :: int where "AUTHED_MOD = 2"
definition AUTHED_ADMIN :: int where "AUTHED_ADMIN = 3"

lemmas authed_levels = AUTHED_NO_def AUTHED_HELPER_def AUTHED_MOD_def AUTHED_ADMIN_def

record CKey =
  key_Ident :: "u8 list"
  key_Pw :: "u8 list"
  key_Salt :: "u8 list"
  key_Level :: int

record CAuthManager =
  am_Keys :: "CKey list"
  am_Default :: "int list"
  am_Generated :: bool

definition IDENT_SIZE :: nat where "IDENT_SIZE = 64"

definition HashPassword :: "(u8 list \<Rightarrow> u8 list) \<Rightarrow> u8 list \<Rightarrow> u8 list \<Rightarrow> u8 list" where
  "HashPassword md5 pPassword aSalt = md5 (pPassword @ aSalt)"

definition AuthManager_create :: CAuthManager where
  "AuthManager_create = \<lparr>am_Keys = [], am_Default = [-1, -1, -1], am_Generated = False\<rparr>"

section \<open>Looking up keys\<close>

text \<open>A slot of the vector, and the position of the first key with an identifier.\<close>

definition is_slot :: "CAuthManager \<Rightarrow> int \<Rightarrow> bool" where
  "is_slot am Slot \<longleftrightarrow> \<not> (Slot < 0 \<or> Slot \<ge> int (length (am_Keys am)))"

definition FindKey :: "CAuthManager \<Rightarrow> u8 list \<Rightarrow> int" where
  "FindKey am pIdent =
     (case find (\<lambda>i. key_Ident (am_Keys am ! i) = pIdent) [0..<length (am_Keys am)] of Some i \<Rightarrow> int i | None \<Rightarrow> -1)"

definition CheckKey :: "(u8 list \<Rightarrow> u8 list) \<Rightarrow> CAuthManager \<Rightarrow> int \<Rightarrow> u8 list \<Rightarrow> bool" where
  "CheckKey md5 am Slot pPw =
     (if \<not> is_slot am Slot then False
      else let k = am_Keys am ! nat Slot in key_Pw k = HashPassword md5 pPw (key_Salt k))"

text \<open>\<open>None\<close> is an access behind the array of default keys.\<close>

definition DefaultKey :: "CAuthManager \<Rightarrow> int \<Rightarrow> int option" where
  "DefaultKey am AuthLevel =
     (if AuthLevel < 0 \<or> AuthLevel > AUTHED_ADMIN then Some 0
      else let i = nat (AUTHED_ADMIN - AuthLevel) in if i < length (am_Default am) then Some (am_Default am ! i) else None)"

definition KeyLevel :: "CAuthManager \<Rightarrow> int \<Rightarrow> int" where
  "KeyLevel am Slot = (if \<not> is_slot am Slot then 0 else key_Level (am_Keys am ! nat Slot))"

definition KeyIdent :: "CAuthManager \<Rightarrow> int \<Rightarrow> u8 list option" where
  "KeyIdent am Slot = (if \<not> is_slot am Slot then None else Some (key_Ident (am_Keys am ! nat Slot)))"

definition IsValidIdent :: "u8 list \<Rightarrow> bool" where
  "IsValidIdent pIdent \<longleftrightarrow> length pIdent < IDENT_SIZE"

definition NumNonDefaultKeys :: "CAuthManager \<Rightarrow> int" where
  "NumNonDefaultKeys am =
     (let DefaultCount = length (filter (\<lambda>d. d \<ge> 0) (am_Default am)) in int (length (am_Keys am)) - int DefaultCount)"

text \<open>The keys as they are listed.\<close>

definition ListKeys :: "CAuthManager \<Rightarrow> (u8 list \<times> int) list" where
  "ListKeys am = map (\<lambda>k. (key_Ident k, key_Level k)) (am_Keys am)"

section \<open>Changing keys\<close>

definition AddKeyHash :: "CAuthManager \<Rightarrow> u8 list \<Rightarrow> u8 list \<Rightarrow> u8 list \<Rightarrow> int \<Rightarrow> int \<times> CAuthManager" where
  "AddKeyHash am pIdent Hash pSalt AuthLevel =
     (if FindKey am pIdent \<ge> 0 then (-1, am)
      else
        let Key = \<lparr>key_Ident = str_copy pIdent IDENT_SIZE, key_Pw = Hash, key_Salt = pSalt, key_Level = AuthLevel\<rparr>;
            keys = am_Keys am @ [Key]
        in (int (length keys) - 1, am\<lparr>am_Keys := keys\<rparr>))"

definition AddKey :: "(u8 list \<Rightarrow> u8 list) \<Rightarrow> u8 list \<Rightarrow> CAuthManager \<Rightarrow> u8 list \<Rightarrow> u8 list \<Rightarrow> int \<Rightarrow> int \<times> CAuthManager" where
  "AddKey md5 aSalt am pIdent pPw AuthLevel = AddKeyHash am pIdent (HashPassword md5 pPw aSalt) aSalt AuthLevel"

text \<open>An index behind a removed slot moves down by one; the slot itself becomes \<open>-1\<close>.\<close>

definition slot_removed :: "int \<Rightarrow> int \<Rightarrow> int" where
  "slot_removed Slot d = (if d = Slot then -1 else if d > Slot then d - 1 else d)"

text \<open>\<open>None\<close> is an \<open>erase\<close> outside of the vector.\<close>

definition RemoveKey :: "int \<Rightarrow> CAuthManager \<Rightarrow> CAuthManager option" where
  "RemoveKey Slot am =
     (if \<not> is_slot am Slot then None
      else Some (am\<lparr>am_Keys := take (nat Slot) (am_Keys am) @ drop (Suc (nat Slot)) (am_Keys am),
                    am_Default := map (slot_removed Slot) (am_Default am)\<rparr>))"

definition UpdateKeyHash :: "int \<Rightarrow> u8 list \<Rightarrow> u8 list \<Rightarrow> int \<Rightarrow> CAuthManager \<Rightarrow> CAuthManager" where
  "UpdateKeyHash Slot Hash pSalt AuthLevel am =
     (if \<not> is_slot am Slot then am
      else am\<lparr>am_Keys := (am_Keys am)[nat Slot :=
                (am_Keys am ! nat Slot)\<lparr>key_Pw := Hash, key_Salt := pSalt, key_Level := AuthLevel\<rparr>]\<rparr>)"

definition UpdateKey :: "(u8 list \<Rightarrow> u8 list) \<Rightarrow> u8 list \<Rightarrow> int \<Rightarrow> u8 list \<Rightarrow> int \<Rightarrow> CAuthManager \<Rightarrow> CAuthManager" where
  "UpdateKey md5 aSalt Slot pPw AuthLevel am =
     (if \<not> is_slot am Slot then am else UpdateKeyHash Slot (HashPassword md5 pPw aSalt) aSalt AuthLevel am)"

definition default_idents :: "u8 list list" where
  "default_idents = [bytes_of ''default_admin'', bytes_of ''default_mod'', bytes_of ''default_helper'']"

definition AddDefaultKey :: "(u8 list \<Rightarrow> u8 list) \<Rightarrow> u8 list \<Rightarrow> int \<Rightarrow> u8 list \<Rightarrow> CAuthManager \<Rightarrow> CAuthManager" where
  "AddDefaultKey md5 aSalt Level pPw am =
     (if Level < AUTHED_HELPER \<or> Level > AUTHED_ADMIN then am
      else
        let Index = nat (AUTHED_ADMIN - Level)
        in if am_Default am ! Index \<ge> 0 then am
           else
             let (Slot, am) = AddKey md5 aSalt am (default_idents ! Index) pPw Level
             in am\<lparr>am_Default := (am_Default am)[Index := Slot]\<rparr>)"

text \<open>
  The configured passwords; the first is changed to a random one if there is none and no other key was
  added.
\<close>

definition AuthManager_Init :: "(u8 list \<Rightarrow> u8 list) \<Rightarrow> u8 list \<Rightarrow> u8 list \<Rightarrow> u8 list \<times> u8 list \<times> u8 list \<Rightarrow> CAuthManager \<Rightarrow>
    u8 list \<times> CAuthManager" where
  "AuthManager_Init md5 random aSalt passwords am =
     (let (RconPassword, ModPassword, HelperPassword) = passwords;
          NumDefaultKeys = length (filter (\<lambda>pw. pw \<noteq> []) [RconPassword, ModPassword, HelperPassword])
      in if length (am_Keys am) = NumDefaultKeys \<and> RconPassword = []
         then (random, (AddDefaultKey md5 aSalt AUTHED_ADMIN random am)\<lparr>am_Generated := True\<rparr>)
         else (RconPassword, am))"

section \<open>The keys are a map\<close>

definition key_map :: "CAuthManager \<Rightarrow> u8 list \<Rightarrow> (u8 list \<times> u8 list \<times> int) option" where
  "key_map am x = map_option (\<lambda>k. (key_Pw k, key_Salt k, key_Level k)) (find (\<lambda>k. key_Ident k = x) (am_Keys am))"

text \<open>No two keys have one identifier, and a default key has its own.\<close>

definition am_inv :: "CAuthManager \<Rightarrow> bool" where
  "am_inv am \<longleftrightarrow> distinct (map key_Ident (am_Keys am)) \<and> length (am_Default am) = 3 \<and>
     (\<forall>j < 3. am_Default am ! j = -1 \<or> KeyIdent am (am_Default am ! j) = Some (default_idents ! j))"

lemma KeyIdent_Some: "KeyIdent am d = Some x \<longleftrightarrow> 0 \<le> d \<and> d < int (length (am_Keys am)) \<and> key_Ident (am_Keys am ! nat d) = x"
  by (auto simp: KeyIdent_def is_slot_def)

lemma FindKey_cases:
  obtains (none) "FindKey am x = -1" "x \<notin> key_Ident ` set (am_Keys am)"
  | (slot) i where "i < length (am_Keys am)" "FindKey am x = int i" "key_Ident (am_Keys am ! i) = x"
      "\<forall>j < i. key_Ident (am_Keys am ! j) \<noteq> x"
proof (cases "find (\<lambda>i. key_Ident (am_Keys am ! i) = x) [0..<length (am_Keys am)]")
  case None
  then have "x \<notin> key_Ident ` set (am_Keys am)" by (auto simp: find_None_iff in_set_conv_nth)
  with None show ?thesis by (intro none) (simp_all add: FindKey_def)
next
  case (Some i)
  then have "FindKey am x = int i" by (simp add: FindKey_def)
  moreover have "i < length (am_Keys am)" "key_Ident (am_Keys am ! i) = x" "\<forall>j < i. key_Ident (am_Keys am ! j) \<noteq> x"
    using Some by (auto simp: find_Some_iff)
  ultimately show ?thesis using slot [of i] by blast
qed

lemma find_append: "find P (xs @ ys) = (case find P xs of Some x \<Rightarrow> Some x | None \<Rightarrow> find P ys)"
  by (induction xs) auto

lemma find_slot:
  "i < length ks \<Longrightarrow> key_Ident (ks ! i) = x \<Longrightarrow> \<forall>j < i. key_Ident (ks ! j) \<noteq> x \<Longrightarrow> find (\<lambda>k. key_Ident k = x) ks = Some (ks ! i)"
  by (auto simp: find_Some_iff)

lemma key_map_FindKey:
  "key_map am x = (if FindKey am x = -1 then None
     else let k = am_Keys am ! nat (FindKey am x) in Some (key_Pw k, key_Salt k, key_Level k))"
proof (cases rule: FindKey_cases [of am x])
  case none
  then have "find (\<lambda>k. key_Ident k = x) (am_Keys am) = None" by (auto simp: find_None_iff)
  with none show ?thesis by (simp add: key_map_def)
next
  case (slot i)
  then show ?thesis using find_slot [OF slot(1,3,4)] by (simp add: key_map_def Let_def)
qed

text \<open>The login with an identifier and a password.\<close>

lemma CheckKey_map:
  "CheckKey md5 am (FindKey am x) pw \<longleftrightarrow> (\<exists>h s l. key_map am x = Some (h, s, l) \<and> h = HashPassword md5 pw s)"
  "KeyLevel am (FindKey am x) = (case key_map am x of Some (h, s, l) \<Rightarrow> l | None \<Rightarrow> 0)"
  by (cases rule: FindKey_cases [of am x]; simp add: CheckKey_def KeyLevel_def is_slot_def key_map_FindKey Let_def)+

lemma create_inv: "am_inv AuthManager_create"
  by (simp add: am_inv_def AuthManager_create_def less_Suc_eq numeral_3_eq_3 disj_commute)

text \<open>Identifiers that a key stores unchanged.\<close>

definition clean_ident :: "u8 list \<Rightarrow> bool" where
  "clean_ident x \<longleftrightarrow> str_copy x IDENT_SIZE = x"

lemma clean_ident_valid:
  assumes "0 \<notin> set x" "str_utf8_check x" "IsValidIdent x"
  shows "clean_ident x"
proof -
  obtain cs where cs: "\<forall>c \<in> set cs. scalar c" "x = concat (map str_utf8_encode cs)" using check_decomp assms(1,2) by blast
  have "take (IDENT_SIZE - 1) x = x" using assms(3) by (simp add: IsValidIdent_def IDENT_SIZE_def)
  then show ?thesis using fix_truncation_whole [OF cs(1)] cs(2) by (simp add: clean_ident_def str_copy_def)
qed

lemma AddKeyHash_inv:
  assumes "am_inv am" "clean_ident x" "AddKeyHash am x h s l = (r, am')"
  shows "am_inv am'" "key_map am' = (if key_map am x = None then (key_map am)(x \<mapsto> (h, s, l)) else key_map am)"
    "r = (if key_map am x = None then int (length (am_Keys am)) else -1)" "r \<noteq> -1 \<Longrightarrow> KeyIdent am' r = Some x"
    "am_Default am' = am_Default am"
proof -
  have *: "am_inv am' \<and> key_map am' = (if key_map am x = None then (key_map am)(x \<mapsto> (h, s, l)) else key_map am) \<and>
    r = (if key_map am x = None then int (length (am_Keys am)) else -1) \<and> (r \<noteq> -1 \<longrightarrow> KeyIdent am' r = Some x) \<and> am_Default am' = am_Default am"
  proof (cases rule: FindKey_cases [of am x])
    case none
    let ?k = "\<lparr>key_Ident = x, key_Pw = h, key_Salt = s, key_Level = l\<rparr>"
    have am': "am' = am\<lparr>am_Keys := am_Keys am @ [?k]\<rparr>" "r = int (length (am_Keys am))"
      using assms(2,3) none(1) by (auto simp: AddKeyHash_def clean_ident_def Let_def)
    have "find (\<lambda>k. key_Ident k = y) (am_Keys am @ [?k]) = (if y = x then Some ?k else find (\<lambda>k. key_Ident k = y) (am_Keys am))" for y
    proof (cases "find (\<lambda>k. key_Ident k = y) (am_Keys am)")
      case None
      then show ?thesis by (auto simp: find_append)
    next
      case (Some k)
      then have "y \<noteq> x" using none(2) by (auto simp: find_Some_iff)
      then show ?thesis using Some by (simp add: find_append)
    qed
    then have "key_map am' = (key_map am)(x \<mapsto> (h, s, l))" by (auto simp: key_map_def am'(1))
    moreover have "am_inv am'" using assms(1) none(2) by (auto simp: am_inv_def am'(1) KeyIdent_Some nth_append)
    moreover have "key_map am x = None" using none(1) by (simp add: key_map_FindKey)
    ultimately show ?thesis by (simp add: am' KeyIdent_Some)
  next
    case (slot i)
    then have "key_map am x \<noteq> None" "r = -1" "am' = am" using assms(3) by (auto simp: AddKeyHash_def key_map_FindKey Let_def)
    then show ?thesis using assms(1) by auto
  qed
  then show "am_inv am'" "key_map am' = (if key_map am x = None then (key_map am)(x \<mapsto> (h, s, l)) else key_map am)"
    "r = (if key_map am x = None then int (length (am_Keys am)) else -1)" "r \<noteq> -1 \<Longrightarrow> KeyIdent am' r = Some x"
    "am_Default am' = am_Default am" by blast+
qed

lemma UpdateKeyHash_inv:
  assumes "am_inv am"
  shows "am_inv (UpdateKeyHash d h s l am)"
proof (cases "is_slot am d")
  case True
  have "map key_Ident ((am_Keys am)[nat d := (am_Keys am ! nat d)\<lparr>key_Pw := h, key_Salt := s, key_Level := l\<rparr>]) = map key_Ident (am_Keys am)"
    using True by (intro nth_equalityI) (auto simp: is_slot_def nth_list_update)
  then have "distinct (map key_Ident ((am_Keys am)[nat d := (am_Keys am ! nat d)\<lparr>key_Pw := h, key_Salt := s, key_Level := l\<rparr>]))"
    using assms by (simp add: am_inv_def)
  moreover have "KeyIdent (UpdateKeyHash d h s l am) e = KeyIdent am e" for e
    using True by (auto simp: UpdateKeyHash_def KeyIdent_def is_slot_def nth_list_update)
  ultimately show ?thesis using assms True by (simp add: am_inv_def UpdateKeyHash_def)
qed (use assms in \<open>simp add: UpdateKeyHash_def\<close>)

lemma UpdateKeyHash_map:
  assumes "am_inv am" "FindKey am x \<noteq> -1"
  shows "key_map (UpdateKeyHash (FindKey am x) h s l am) = (key_map am)(x \<mapsto> (h, s, l))"
proof -
  obtain i where i: "i < length (am_Keys am)" "FindKey am x = int i" "key_Ident (am_Keys am ! i) = x" "\<forall>j < i. key_Ident (am_Keys am ! j) \<noteq> x"
    using assms(2) by (cases rule: FindKey_cases [of am x]) auto
  let ?k = "(am_Keys am ! i)\<lparr>key_Pw := h, key_Salt := s, key_Level := l\<rparr>"
  have "find (\<lambda>k. key_Ident k = y) ((am_Keys am)[i := ?k]) = (if y = x then Some ?k else find (\<lambda>k. key_Ident k = y) (am_Keys am))" for y
  proof -
    have split: "am_Keys am = take i (am_Keys am) @ (am_Keys am ! i) # drop (Suc i) (am_Keys am)"
      using i(1) by (rule id_take_nth_drop)
    have "find (\<lambda>k. key_Ident k = x) (take i (am_Keys am)) = None"
      using i(4) by (auto simp: find_None_iff in_set_conv_nth)
    then show ?thesis
      using i(3) by (subst (1 2) split) (simp add: find_append upd_conv_take_nth_drop i(1) split: option.split)
  qed
  then show ?thesis using i by (auto simp: key_map_def UpdateKeyHash_def is_slot_def)
qed

lemma nth_without:
  "i < length xs \<Longrightarrow> j < length xs - 1 \<Longrightarrow> (take i xs @ drop (Suc i) xs) ! j = xs ! (if j < i then j else Suc j)"
  by (auto simp: nth_append min_def)

text \<open>Removing a slot keeps the keys of the others.\<close>

lemma RemoveKey_idents:
  assumes "is_slot am d" "RemoveKey d am = Some am'" "0 \<le> e" "e \<noteq> d"
  shows "KeyIdent am' (slot_removed d e) = KeyIdent am e" "is_slot am' (slot_removed d e) = is_slot am e"
    "is_slot am e \<Longrightarrow> am_Keys am' ! nat (slot_removed d e) = am_Keys am ! nat e"
proof -
  have am': "am_Keys am' = take (nat d) (am_Keys am) @ drop (Suc (nat d)) (am_Keys am)"
    using assms(1,2) by (auto simp: RemoveKey_def)
  have len: "nat d < length (am_Keys am)" "length (am_Keys am') = length (am_Keys am) - 1"
    using assms(1) by (auto simp: am' is_slot_def)
  have s: "is_slot am' (slot_removed d e) = is_slot am e"
    using assms(1,3,4) len(2) by (auto simp: is_slot_def slot_removed_def)
  have n: "am_Keys am' ! nat (slot_removed d e) = am_Keys am ! nat e" if "is_slot am e"
  proof (cases "e > d")
    case True
    then have "nat (e - 1) < length (am_Keys am) - 1" "\<not> nat (e - 1) < nat d" "Suc (nat (e - 1)) = nat e"
      using that assms(1,3) by (auto simp: is_slot_def)
    then show ?thesis using True nth_without [OF len(1), of "nat (e - 1)"] by (simp add: am' slot_removed_def)
  next
    case False
    then have "nat e < length (am_Keys am) - 1" "nat e < nat d"
      using that assms(1,3,4) by (auto simp: is_slot_def)
    then show ?thesis using False assms(4) nth_without [OF len(1), of "nat e"] by (simp add: am' slot_removed_def)
  qed
  show "KeyIdent am' (slot_removed d e) = KeyIdent am e" using s n by (simp add: KeyIdent_def)
  show "is_slot am' (slot_removed d e) = is_slot am e" by (rule s)
  show "is_slot am e \<Longrightarrow> am_Keys am' ! nat (slot_removed d e) = am_Keys am ! nat e" by (rule n)
qed

lemma RemoveKey_inv:
  assumes "am_inv am" "is_slot am d"
  shows "\<exists>am'. RemoveKey d am = Some am' \<and> am_inv am' \<and> key_map am' = (key_map am)(key_Ident (am_Keys am ! nat d) := None)"
proof -
  obtain am' where r: "RemoveKey d am = Some am'" using assms(2) by (simp add: RemoveKey_def)
  have am': "am_Keys am' = take (nat d) (am_Keys am) @ drop (Suc (nat d)) (am_Keys am)" "am_Default am' = map (slot_removed d) (am_Default am)"
    using assms(2) r by (auto simp: RemoveKey_def)
  have d: "nat d < length (am_Keys am)" using assms(2) by (auto simp: is_slot_def)
  have split: "am_Keys am = take (nat d) (am_Keys am) @ (am_Keys am ! nat d) # drop (Suc (nat d)) (am_Keys am)"
    using d by (rule id_take_nth_drop)
  have dist: "distinct (map key_Ident (take (nat d) (am_Keys am)) @ key_Ident (am_Keys am ! nat d) # map key_Ident (drop (Suc (nat d)) (am_Keys am)))"
    using assms(1) by (subst (asm) am_inv_def) (metis split map_append list.map(2))
  have "key_map am' = (key_map am)(key_Ident (am_Keys am ! nat d) := None)"
  proof
    fix y
    show "key_map am' y = ((key_map am)(key_Ident (am_Keys am ! nat d) := None)) y"
    proof (cases "y = key_Ident (am_Keys am ! nat d)")
      case True
      have "y \<notin> key_Ident ` set (am_Keys am')" using dist unfolding True am'(1) by (simp add: image_Un)
      then have "find (\<lambda>k. key_Ident k = y) (am_Keys am') = None" unfolding find_None_iff by blast
      with True show ?thesis by (simp add: key_map_def)
    next
      case False
      then have "find (\<lambda>k. key_Ident k = y) (am_Keys am') = find (\<lambda>k. key_Ident k = y) (am_Keys am)"
        by (subst split) (simp add: am'(1) find_append split: option.split)
      with False show ?thesis by (simp add: key_map_def)
    qed
  qed
  moreover have "am_inv am'"
  proof -
    have "distinct (map key_Ident (am_Keys am'))" using dist by (auto simp: am'(1))
    moreover have "am_Default am' ! j = -1 \<or> KeyIdent am' (am_Default am' ! j) = Some (default_idents ! j)" if "j < 3" for j
    proof -
      let ?e = "am_Default am ! j"
      have e: "?e = -1 \<or> KeyIdent am ?e = Some (default_idents ! j)" "length (am_Default am) = 3" using assms(1) that by (auto simp: am_inv_def)
      have "slot_removed d (-1) = -1" using assms(2) by (simp add: slot_removed_def is_slot_def)
      moreover have "slot_removed d ?e = -1" if "?e = d" using that by (simp add: slot_removed_def)
      moreover have "KeyIdent am' (slot_removed d ?e) = KeyIdent am ?e" if "?e \<noteq> d" "KeyIdent am ?e = Some (default_idents ! j)"
      proof -
        have "0 \<le> ?e" using that(2) by (simp add: KeyIdent_Some)
        from RemoveKey_idents(1) [OF assms(2) r this that(1)] show ?thesis .
      qed
      ultimately show ?thesis using e that by (auto simp: am'(2))
    qed
    ultimately show ?thesis using assms(1) by (simp add: am_inv_def am'(2))
  qed
  ultimately show ?thesis using r by blast
qed

text \<open>Operations on keys that are named by an identifier, as the commands do them.\<close>

datatype auth_op =
    Key_add "u8 list" "u8 list" "u8 list" int
  | Key_update "u8 list" "u8 list" "u8 list" int
  | Key_remove "u8 list"

fun auth_do :: "auth_op \<Rightarrow> CAuthManager \<Rightarrow> CAuthManager option" where
  "auth_do (Key_add x h s l) am = Some (snd (AddKeyHash am x h s l))"
| "auth_do (Key_update x h s l) am = Some (UpdateKeyHash (FindKey am x) h s l am)"
| "auth_do (Key_remove x) am = (if FindKey am x = -1 then Some am else RemoveKey (FindKey am x) am)"

type_synonym keys = "u8 list \<Rightarrow> (u8 list \<times> u8 list \<times> int) option"

fun keys_do :: "auth_op \<Rightarrow> keys \<Rightarrow> keys" where
  "keys_do (Key_add x h s l) m = (if m x = None then m(x \<mapsto> (h, s, l)) else m)"
| "keys_do (Key_update x h s l) m = (if m x = None then m else m(x \<mapsto> (h, s, l)))"
| "keys_do (Key_remove x) m = m(x := None)"

fun auth_op_clean :: "auth_op \<Rightarrow> bool" where
  "auth_op_clean (Key_add x _ _ _) \<longleftrightarrow> clean_ident x"
| "auth_op_clean _ \<longleftrightarrow> True"

fun auth_run :: "auth_op list \<Rightarrow> CAuthManager \<Rightarrow> CAuthManager option" where
  "auth_run [] am = Some am"
| "auth_run (op # ops) am = Option.bind (auth_do op am) (auth_run ops)"

lemma auth_do_map:
  assumes "am_inv am" "auth_op_clean op"
  shows "\<exists>am'. auth_do op am = Some am' \<and> am_inv am' \<and> key_map am' = keys_do op (key_map am)"
proof (cases op)
  case (Key_add x h s l)
  then show ?thesis using AddKeyHash_inv(1,2) [OF assms(1), of x h s l] assms(2) by (cases "AddKeyHash am x h s l") simp
next
  case (Key_update x h s l)
  show ?thesis
  proof (cases "FindKey am x = -1")
    case True
    then show ?thesis using assms(1) Key_update by (simp add: UpdateKeyHash_def is_slot_def key_map_FindKey)
  next
    case False
    then show ?thesis using UpdateKeyHash_inv [OF assms(1)] UpdateKeyHash_map [OF assms(1) False] Key_update
      by (simp add: key_map_FindKey Let_def)
  qed
next
  case (Key_remove x)
  show ?thesis
  proof (cases rule: FindKey_cases [of am x])
    case none
    then have "key_map am x = None" by (simp add: key_map_FindKey)
    then show ?thesis using assms(1) Key_remove none by (simp add: fun_upd_idem)
  next
    case (slot i)
    then show ?thesis using RemoveKey_inv [OF assms(1), of "int i"] Key_remove by (auto simp: is_slot_def)
  qed
qed

lemma auth_run_map:
  "am_inv am \<Longrightarrow> \<forall>op \<in> set ops. auth_op_clean op \<Longrightarrow>
    \<exists>am'. auth_run ops am = Some am' \<and> am_inv am' \<and> key_map am' = fold keys_do ops (key_map am)"
proof (induction ops arbitrary: am)
  case (Cons op ops)
  then obtain am1 where "auth_do op am = Some am1" "am_inv am1" "key_map am1 = keys_do op (key_map am)"
    using auth_do_map [of am op] by auto
  with Cons show ?case by (metis (no_types, lifting) Option.bind.bind_lunit auth_run.simps(2) fold_simps(2) list.set_intros(2))
qed simp

section \<open>Properties\<close>

text \<open>
  C32: After any additions, updates and removals of keys, whose identifiers are stored uncut, the vector of keys is
  a map from identifiers:
  no operation leaves the vector, and a login with an identifier and a password is granted exactly if
  the map has the hash of this password for the identifier, with the level of the map.
\<close>

theorem auth_keys_are_map:
  assumes "\<forall>op \<in> set ops. auth_op_clean op"
  shows "\<exists>am. auth_run ops AuthManager_create = Some am \<and>
    (\<forall>x pw. CheckKey md5 am (FindKey am x) pw \<longleftrightarrow> (\<exists>s l. fold keys_do ops Map.empty x = Some (HashPassword md5 pw s, s, l))) \<and>
    (\<forall>x h s l. fold keys_do ops Map.empty x = Some (h, s, l) \<longrightarrow> KeyLevel am (FindKey am x) = l)"
proof -
  obtain am where am: "auth_run ops AuthManager_create = Some am" "key_map am = fold keys_do ops (key_map AuthManager_create)"
    using auth_run_map [OF create_inv assms] by blast
  have "key_map AuthManager_create = Map.empty" by (auto simp: key_map_def AuthManager_create_def)
  with am CheckKey_map [where am = am] show ?thesis by auto
qed

theorem auth_keys_are_map_witness:
  "\<exists>am. auth_run [Key_add [97] [1] [2] 3, Key_add [98] [4] [5] 1, Key_remove [97]] AuthManager_create = Some am \<and>
     (CheckKey (\<lambda>x. [4]) am (FindKey am [98]) [7] \<and> \<not> CheckKey (\<lambda>x. [4]) am (FindKey am [97]) [7])"
proof -
  have "clean_ident [97]" "clean_ident [98]"
    by (intro clean_ident_valid; simp add: IsValidIdent_def IDENT_SIZE_def str_utf8_check.simps Let_def push_bit_eq_mult)+
  then have ok: "\<forall>op \<in> set [Key_add [97] [1] [2] 3, Key_add [98] [4] [5] 1, Key_remove [97]]. auth_op_clean op" by simp
  obtain am where am: "auth_run [Key_add [97] [1] [2] 3, Key_add [98] [4] [5] 1, Key_remove [97]] AuthManager_create = Some am"
    and granted: "\<forall>x pw. CheckKey (\<lambda>x. [4]) am (FindKey am x) pw \<longleftrightarrow>
      (\<exists>s l. fold keys_do [Key_add [97] [1] [2] 3, Key_add [98] [4] [5] 1, Key_remove [97]] Map.empty x = Some (HashPassword (\<lambda>x. [4]) pw s, s, l))"
    using auth_keys_are_map [OF ok, of "\<lambda>x. [4]"] by blast
  have "CheckKey (\<lambda>x. [4]) am (FindKey am [98]) [7]" "\<not> CheckKey (\<lambda>x. [4]) am (FindKey am [97]) [7]"
    unfolding granted [rule_format] by (simp_all add: HashPassword_def)
  with am show ?thesis by blast
qed

end
