(* ===== verification/Server.thy ===== *)
theory Server
  imports Messages AuthManager NetBanSafe SnapshotBuild
    "HOL-Library.Signed_Division"
begin

text \<open>
  The engine of the game server, \<^verbatim>\<open>src/src/engine/server/server.cpp\<close>: the clients with their state and
  rights, the messages to and from them, the download of the map, the remote console, kicks and bans, and
  the callbacks of the network server.

  An operation changes the server and returns it; \<open>None\<close> is a failed assertion or a loop of the network
  layer that does not end. Calls of the game are recorded as events, the texts that are only logged are
  left out, and the hooks of the anti-bot library are those of \<^verbatim>\<open>antibot_null.cpp\<close>, which do nothing.
\<close>

section \<open>State\<close>

datatype client_state =
    STATE_REDIRECTED | STATE_EMPTY | STATE_PREAUTH | STATE_AUTH | STATE_CONNECTING | STATE_READY | STATE_INGAME

fun state_num :: "client_state \<Rightarrow> int" where
  "state_num STATE_REDIRECTED = -1"
| "state_num STATE_EMPTY = 0"
| "state_num STATE_PREAUTH = 1"
| "state_num STATE_AUTH = 2"
| "state_num STATE_CONNECTING = 3"
| "state_num STATE_READY = 4"
| "state_num STATE_INGAME = 5"

text \<open>The states are compared as the numbers they are.\<close>

instantiation client_state :: linorder
begin

definition less_eq_client_state :: "client_state \<Rightarrow> client_state \<Rightarrow> bool" where
  "less_eq_client_state a b \<longleftrightarrow> state_num a \<le> state_num b"

definition less_client_state :: "client_state \<Rightarrow> client_state \<Rightarrow> bool" where
  "less_client_state a b \<longleftrightarrow> state_num a < state_num b"

instance
proof
  fix a b :: client_state
  show "a \<le> b \<Longrightarrow> b \<le> a \<Longrightarrow> a = b" by (cases a; cases b; simp add: less_eq_client_state_def)
qed (auto simp: less_eq_client_state_def less_client_state_def)

end

definition MAX_CLIENTS :: nat where "MAX_CLIENTS = 128"
definition MAX_INPUT_SIZE :: nat where "MAX_INPUT_SIZE = 128"
definition MIN_TICK :: int where "MIN_TICK = 0"
definition MAX_TICK :: int where "MAX_TICK = 0x6FFFFFFF"
definition VERSION_NONE :: int where "VERSION_NONE = -1"
definition VERSION_VANILLA :: int where "VERSION_VANILLA = 0"
definition VERSION_DDNET_OLD :: int where "VERSION_DDNET_OLD = 2"
definition VERSION_DDNET_REDIRECT :: int where "VERSION_DDNET_REDIRECT = 17020"
definition VERSION_DDNET_RECONNECT :: int where "VERSION_DDNET_RECONNECT = 18090"
definition RCON_CID_SERV :: int where "RCON_CID_SERV = -1"
definition RCON_CID_VOTE :: int where "RCON_CID_VOTE = -2"
definition MSGFLAG_VITAL :: int where "MSGFLAG_VITAL = 1"
definition MSGFLAG_FLUSH :: int where "MSGFLAG_FLUSH = 2"
definition SNAPRATE_INIT :: int where "SNAPRATE_INIT = 0"
definition SNAPRATE_FULL :: int where "SNAPRATE_FULL = 1"
definition MAPLIST_UNINITIALIZED :: int where "MAPLIST_UNINITIALIZED = -1"

record CInput =
  in_aData :: "i32 list"
  in_GameTick :: int

text \<open>The console command that is sent next is given by its place in the list of all commands.\<close>

record CClient =
  cc_State :: client_state
  cc_Latency :: int
  cc_SnapRate :: int
  cc_LastAckedSnapshot :: int
  cc_LastInputTick :: int
  cc_Snapshots :: "CHolder list"
  cc_LatestInput :: "i32 list"
  cc_aInputs :: "CInput list"
  cc_CurrentInput :: nat
  cc_Name :: "u8 list"
  cc_Clan :: "u8 list"
  cc_Country :: int
  cc_Score :: "int option"
  cc_Authed :: int
  cc_AuthKey :: int
  cc_AuthTries :: int
  cc_AuthHidden :: bool
  cc_NextMapChunk :: int
  cc_Flags :: int
  cc_ShowIps :: bool
  cc_RconCmdToSend :: "nat option"
  cc_MaplistEntryToSend :: int
  cc_HasPersistentData :: bool
  cc_GotDDNetVersionPacket :: bool
  cc_DDNetVersionSettled :: bool
  cc_DDNetVersion :: int
  cc_DDNetVersionStr :: "u8 list"
  cc_ConnectionId :: "u8 list"
  cc_RedirectDropTime :: int
  cc_Sixup :: bool

text \<open>What the game is told, and the logins that are logged as over.\<close>

datatype game_event =
    OnClientConnected nat bool
  | OnClientEnter nat
  | OnClientDrop nat reason
  | OnMessage int unpacker nat
  | OnClientDirectInput nat "i32 list"
  | OnSetAuthed nat int
  | OnClientPredictedEarlyInput nat "i32 list option"
  | OnClientPredictedInput nat "i32 list option"
  | OnTick
  | Game_OnShutdown
  | Game_OnInit
  | Logged_out nat "u8 list option"

record CServer =
  s_Clients :: "CClient list"
  s_Net :: CNetServer
  s_Ban :: CNetBan
  s_Auth :: CAuthManager
  s_RconClientId :: int
  s_RconAuthLevel :: int
  s_Tick :: int
  s_GameStartTime :: int
  s_Game :: "game_event list"
  s_World :: net

text \<open>A command of the console: its name, help and parameters, and the level it is open to.\<close>

record CCommandInfo =
  ci_Name :: "u8 list"
  ci_Help :: "u8 list"
  ci_Params :: "u8 list"
  ci_AccessLevel :: int

text \<open>
  The configuration, and what the engine asks others for: the digest, the UUIDs, the map in both versions,
  the game, the console. \<open>ev_Execute\<close> runs a line with an access level for a client. \<open>ev_Stressing\<close> is whether
  the average traffic of a client, a floating-point number, is above the configured limit. \<open>ev_Timestamp\<close>
  is the time in seconds.
\<close>

record srv_env =
  ev_Md5 :: "u8 list \<Rightarrow> u8 list"
  ev_Salt :: "u8 list"
  ev_Uuids :: CUuidManager
  ev_SixToSeven :: "int \<Rightarrow> int"
  ev_Password :: "u8 list"
  ev_SvReservedSlots :: int
  ev_SvReservedSlotsPass :: "u8 list"
  ev_SvReservedSlotsAuthLevel :: int
  ev_SvRconMaxTries :: int
  ev_SvRconBantime :: int
  ev_SvMapWindow :: nat
  ev_SvFastDownload :: bool
  ev_SvRegionName :: "u8 list"
  ev_Port :: int
  ev_Timestamp :: int
  ev_MapName :: "u8 list"
  ev_MapUrl :: "u8 list"
  ev_MapSha256 :: "bool \<Rightarrow> u8 list"
  ev_MapCrc :: "bool \<Rightarrow> i32"
  ev_MapData :: "bool \<Rightarrow> u8 list"
  ev_ServerInfo :: "u8 list list"
  ev_SixupServerInfo :: "u8 list"
  ev_NetVersion :: "u8 list"
  ev_IsClientReady :: "game_event list \<Rightarrow> nat \<Rightarrow> bool"
  ev_PlayerExists :: "game_event list \<Rightarrow> nat \<Rightarrow> bool"
  ev_OnClientDataPersist :: "game_event list \<Rightarrow> nat \<Rightarrow> bool"
  ev_PrepareInput :: "nat \<Rightarrow> i32 list \<Rightarrow> i32 list"
  ev_Commands :: "CCommandInfo list"
  ev_Execute :: "u8 list \<Rightarrow> int \<Rightarrow> nat \<Rightarrow> CServer \<Rightarrow> CServer option"
  ev_Stressing :: "nat \<Rightarrow> net \<Rightarrow> bool"

definition client :: "CServer \<Rightarrow> nat \<Rightarrow> CClient" where
  "client s i = s_Clients s ! i"

definition set_client :: "nat \<Rightarrow> (CClient \<Rightarrow> CClient) \<Rightarrow> CServer \<Rightarrow> CServer" where
  "set_client i f s = s\<lparr>s_Clients := (s_Clients s)[i := f (client s i)]\<rparr>"

definition tell_game :: "game_event \<Rightarrow> CServer \<Rightarrow> CServer" where
  "tell_game ev s = s\<lparr>s_Game := s_Game s @ [ev]\<rparr>"

definition server_time :: "CServer \<Rightarrow> int \<times> CServer" where
  "server_time s = (let (t, n) = time_get (s_World s) in (t, s\<lparr>s_World := n\<rparr>))"

definition occupied :: "CServer \<Rightarrow> nat \<Rightarrow> bool" where
  "occupied s i \<longleftrightarrow> cc_State (client s i) \<noteq> STATE_EMPTY"

definition is_client_id :: "int \<Rightarrow> bool" where
  "is_client_id ClientId \<longleftrightarrow> 0 \<le> ClientId \<and> ClientId < int MAX_CLIENTS"

text \<open>Clients in the game have a version, others none.\<close>

definition GetClientVersion :: "CServer \<Rightarrow> nat \<Rightarrow> int" where
  "GetClientVersion s i =
     (if cc_State (client s i) = STATE_INGAME
      then if cc_DDNetVersion (client s i) \<ge> 0 then cc_DDNetVersion (client s i) else VERSION_VANILLA
      else VERSION_NONE)"

definition IsSixup :: "CServer \<Rightarrow> nat \<Rightarrow> bool" where
  "IsSixup s i = cc_Sixup (client s i)"

text \<open>The address of a client; the code asserts that the slot is occupied.\<close>

definition client_addr :: "CServer \<Rightarrow> nat \<Rightarrow> NETADDR" where
  "client_addr s i = c_PeerAddr (slot (s_Net s) i)"

definition ClientAddr :: "CServer \<Rightarrow> nat \<Rightarrow> NETADDR option" where
  "ClientAddr s i = (if occupied s i then Some (client_addr s i) else None)"

definition ConsoleAccessLevel :: "CClient \<Rightarrow> int" where
  "ConsoleAccessLevel c = (if cc_Authed c = AUTHED_ADMIN then 0 else if cc_Authed c = AUTHED_MOD then 1 else 2)"

definition client_reset :: "CClient \<Rightarrow> CClient" where
  "client_reset c = c\<lparr>cc_aInputs := map (\<lambda>input. input\<lparr>in_GameTick := -1\<rparr>) (cc_aInputs c), cc_CurrentInput := 0,
     cc_LatestInput := replicate MAX_INPUT_SIZE 0, cc_Snapshots := PurgeAll (cc_Snapshots c), cc_LastAckedSnapshot := -1,
     cc_LastInputTick := -1, cc_SnapRate := SNAPRATE_INIT, cc_Score := Some (-1), cc_NextMapChunk := 0, cc_Flags := 0,
     cc_RedirectDropTime := 0\<rparr>"

section \<open>Sending\<close>

definition send_packet :: "int \<Rightarrow> u8 list \<Rightarrow> nat \<Rightarrow> CServer \<Rightarrow> CServer option" where
  "send_packet Flags Data i s =
     (let chunk = \<lparr>ch_ClientId = int i, ch_Address = zero_addr,
                   ch_Flags = (if Flags AND MSGFLAG_VITAL \<noteq> 0 then NETSENDFLAG_VITAL else 0) OR
                              (if Flags AND MSGFLAG_FLUSH \<noteq> 0 then NETSENDFLAG_FLUSH else 0),
                   ch_DataSize = length Data, ch_pData = 0, ch_aExtraData = []\<rparr>
      in map_option (\<lambda>(_, sv, n). s\<lparr>s_Net := sv, s_World := n\<rparr>) (Server_Send chunk Data (s_Net s) (s_World s)))"

text \<open>A message to one client, or with a negative id to all in the game.\<close>

fun send_ingame :: "(bool \<Rightarrow> u8 list) \<Rightarrow> int \<Rightarrow> nat list \<Rightarrow> CServer \<Rightarrow> CServer option" where
  "send_ingame Data Flags [] s = Some s"
| "send_ingame Data Flags (i # is) s =
     (if cc_State (client s i) = STATE_INGAME
      then Option.bind (send_packet Flags (Data (cc_Sixup (client s i))) i s) (send_ingame Data Flags is)
      else send_ingame Data Flags is s)"

definition SendMsg :: "srv_env \<Rightarrow> CMsgPacker \<Rightarrow> int \<Rightarrow> int \<Rightarrow> CServer \<Rightarrow> CServer option" where
  "SendMsg e pMsg Flags ClientId s =
     (let repack = RepackMsg (ev_Uuids e) (ev_SixToSeven e) pMsg
      in if ClientId < 0
         then (case (repack False, repack True) of
                 (Some Pack6, Some Pack7) \<Rightarrow>
                   send_ingame (\<lambda>Sixup. m_Written (if Sixup then Pack7 else Pack6)) Flags [0..<MAX_CLIENTS] s
               | _ \<Rightarrow> Some s)
         else (case repack (cc_Sixup (client s (nat ClientId))) of
                 Some Packer \<Rightarrow> send_packet Flags (m_Written Packer) (nat ClientId) s
               | None \<Rightarrow> Some s))"

text \<open>A system message made of the packed fields to one client.\<close>

definition send_sys :: "srv_env \<Rightarrow> CMsgPacker \<Rightarrow> int \<Rightarrow> nat \<Rightarrow> CServer \<Rightarrow> CServer option" where
  "send_sys e pMsg Flags i = SendMsg e pMsg Flags (int i)"

definition SendRconType :: "srv_env \<Rightarrow> bool \<Rightarrow> int \<Rightarrow> CServer \<Rightarrow> CServer option" where
  "SendRconType e UsernameReq ClientId =
     SendMsg e (Msg_AddInt (if UsernameReq then 1 else 0) (sys_packer NETMSG_RCONTYPE)) MSGFLAG_VITAL ClientId"

definition SendCapabilities :: "srv_env \<Rightarrow> nat \<Rightarrow> CServer \<Rightarrow> CServer option" where
  "SendCapabilities e i = send_sys e (Msg_AddInt 63 (Msg_AddInt 5 (sys_packer NETMSG_CAPABILITIES))) MSGFLAG_VITAL i"

definition MapDetails :: "srv_env \<Rightarrow> bool \<Rightarrow> CMsgPacker" where
  "MapDetails e Sixup =
     Msg_AddString (ev_MapUrl e) 0 True
       (Msg_AddInt (int (length (ev_MapData e Sixup)))
         (Msg_AddInt (sint (ev_MapCrc e Sixup))
           (Msg_AddRaw (ev_MapSha256 e Sixup) (Msg_AddString (ev_MapName e) 0 True (sys_packer NETMSG_MAP_DETAILS)))))"

definition MapChange :: "srv_env \<Rightarrow> bool \<Rightarrow> CMsgPacker" where
  "MapChange e Sixup =
     (let Msg = Msg_AddInt (int (length (ev_MapData e Sixup)))
                  (Msg_AddInt (sint (ev_MapCrc e Sixup)) (Msg_AddString (ev_MapName e) 0 True (sys_packer NETMSG_MAP_CHANGE)))
      in if Sixup then Msg_AddRaw (ev_MapSha256 e Sixup) (Msg_AddInt (1024 - 128) (Msg_AddInt (int (ev_SvMapWindow e)) Msg)) else Msg)"

definition SendMap :: "srv_env \<Rightarrow> nat \<Rightarrow> CServer \<Rightarrow> CServer option" where
  "SendMap e i s =
     do {
       s \<leftarrow> send_sys e (MapDetails e (IsSixup s i)) MSGFLAG_VITAL i s;
       s \<leftarrow> send_sys e (MapChange e (IsSixup s i)) (MSGFLAG_VITAL OR MSGFLAG_FLUSH) i s;
       Some (set_client i (\<lambda>c. c\<lparr>cc_NextMapChunk := 0\<rparr>) s)
     }"

text \<open>
  A piece of the map: whether it is the last one, and its bytes. The offset is computed with 32 bits;
  \<open>None\<close> drops a faulty request.
\<close>

definition map_chunk :: "u8 list \<Rightarrow> i32 \<Rightarrow> (bool \<times> u8 list) option" where
  "map_chunk Data Chunk =
     (let ChunkSize = 1024 - 128 :: i32;
          Offset = Chunk * ChunkSize;
          Size = of_nat (length Data) :: i32
      in if sint Chunk < 0 \<or> Offset > Size then None
         else if Offset + ChunkSize \<ge> Size then Some (True, take (unat (Size - Offset)) (drop (unat Offset) Data))
         else Some (False, take (unat ChunkSize) (drop (unat Offset) Data)))"

definition map_data_msg :: "srv_env \<Rightarrow> bool \<Rightarrow> i32 \<Rightarrow> bool \<times> u8 list \<Rightarrow> CMsgPacker" where
  "map_data_msg e Sixup Chunk piece =
     (let Msg = sys_packer NETMSG_MAP_DATA;
          Msg = (if \<not> Sixup
                 then Msg_AddInt (int (length (snd piece))) (Msg_AddInt (sint Chunk) (Msg_AddInt (sint (ev_MapCrc e Sixup))
                        (Msg_AddInt (if fst piece then 1 else 0) Msg)))
                 else Msg)
      in Msg_AddRaw (snd piece) Msg)"

definition SendMapData :: "srv_env \<Rightarrow> nat \<Rightarrow> i32 \<Rightarrow> CServer \<Rightarrow> CServer option" where
  "SendMapData e i Chunk s =
     (case map_chunk (ev_MapData e (IsSixup s i)) Chunk of
        None \<Rightarrow> Some s
      | Some piece \<Rightarrow> send_sys e (map_data_msg e (IsSixup s i) Chunk piece) (MSGFLAG_VITAL OR MSGFLAG_FLUSH) i s)"

definition SendMapReload :: "srv_env \<Rightarrow> nat \<Rightarrow> CServer \<Rightarrow> CServer option" where
  "SendMapReload e i = send_sys e (sys_packer NETMSG_MAP_RELOAD) (MSGFLAG_VITAL OR MSGFLAG_FLUSH) i"

definition SendConnectionReady :: "srv_env \<Rightarrow> nat \<Rightarrow> CServer \<Rightarrow> CServer option" where
  "SendConnectionReady e i = send_sys e (sys_packer NETMSG_CON_READY) (MSGFLAG_VITAL OR MSGFLAG_FLUSH) i"

definition SendRconLine :: "srv_env \<Rightarrow> u8 list \<Rightarrow> nat \<Rightarrow> CServer \<Rightarrow> CServer option" where
  "SendRconLine e pLine i = send_sys e (Msg_AddString pLine 512 True (sys_packer NETMSG_RCON_LINE)) MSGFLAG_VITAL i"

definition SendRconCmdAdd :: "srv_env \<Rightarrow> CCommandInfo \<Rightarrow> nat \<Rightarrow> CServer \<Rightarrow> CServer option" where
  "SendRconCmdAdd e cmd i =
     send_sys e (Msg_AddString (ci_Params cmd) 96 True (Msg_AddString (ci_Help cmd) 192 True
       (Msg_AddString (ci_Name cmd) 64 True (sys_packer NETMSG_RCON_CMD_ADD)))) MSGFLAG_VITAL i"

definition SendRconCmdRem :: "srv_env \<Rightarrow> CCommandInfo \<Rightarrow> nat \<Rightarrow> CServer \<Rightarrow> CServer option" where
  "SendRconCmdRem e cmd i = send_sys e (Msg_AddString (ci_Name cmd) 64 True (sys_packer NETMSG_RCON_CMD_REM)) MSGFLAG_VITAL i"

section \<open>The list of commands\<close>

text \<open>The commands for the server that are open to a level, by their places in the list.\<close>

definition NextCommandInfo :: "srv_env \<Rightarrow> int \<Rightarrow> nat \<Rightarrow> nat option" where
  "NextCommandInfo e AccessLevel k =
     find (\<lambda>j. ci_AccessLevel (ev_Commands e ! j) \<ge> AccessLevel) [Suc k..<length (ev_Commands e)]"

definition FirstCommandInfo :: "srv_env \<Rightarrow> int \<Rightarrow> nat option" where
  "FirstCommandInfo e AccessLevel =
     find (\<lambda>j. ci_AccessLevel (ev_Commands e ! j) \<ge> AccessLevel) [0..<length (ev_Commands e)]"

definition NumRconCommands :: "srv_env \<Rightarrow> CServer \<Rightarrow> nat \<Rightarrow> nat" where
  "NumRconCommands e s i = length (filter (\<lambda>cmd. ci_AccessLevel cmd \<ge> ConsoleAccessLevel (client s i)) (ev_Commands e))"

definition SendRconCmdGroupStart :: "srv_env \<Rightarrow> nat \<Rightarrow> CServer \<Rightarrow> CServer option" where
  "SendRconCmdGroupStart e i s =
     send_sys e (Msg_AddInt (int (NumRconCommands e s i)) (sys_packer NETMSG_RCON_CMD_GROUP_START)) MSGFLAG_VITAL i s"

definition SendRconCmdGroupEnd :: "srv_env \<Rightarrow> nat \<Rightarrow> CServer \<Rightarrow> CServer option" where
  "SendRconCmdGroupEnd e i = send_sys e (sys_packer NETMSG_RCON_CMD_GROUP_END) MSGFLAG_VITAL i"

fun send_rcon_cmds :: "srv_env \<Rightarrow> int \<Rightarrow> nat \<Rightarrow> nat \<Rightarrow> CServer \<Rightarrow> CServer option" where
  "send_rcon_cmds e AccessLevel 0 i s = Some s"
| "send_rcon_cmds e AccessLevel (Suc n) i s =
     (case cc_RconCmdToSend (client s i) of
        None \<Rightarrow> Some s
      | Some k \<Rightarrow>
          do {
            s \<leftarrow> SendRconCmdAdd e (ev_Commands e ! k) i s;
            let s = set_client i (\<lambda>c. c\<lparr>cc_RconCmdToSend := NextCommandInfo e AccessLevel k\<rparr>) s
            in do {
              s \<leftarrow> (if NextCommandInfo e AccessLevel k = None then SendRconCmdGroupEnd e i s else Some s);
              send_rcon_cmds e AccessLevel n i s
            }
          })"

definition UpdateClientRconCommands :: "srv_env \<Rightarrow> nat \<Rightarrow> CServer \<Rightarrow> CServer option" where
  "UpdateClientRconCommands e i s =
     (if cc_State (client s i) \<noteq> STATE_INGAME \<or> cc_Authed (client s i) = AUTHED_NO \<or> cc_RconCmdToSend (client s i) = None
      then Some s
      else send_rcon_cmds e (ConsoleAccessLevel (client s i)) 16 i s)"

end
