(* ===== verification/ServerAdmin.thy ===== *)
theory ServerAdmin
  imports Server
begin

text \<open>
  Clients that come and go, kicks, redirections and bans, and the logins for the remote console
  (\<^verbatim>\<open>src/src/engine/server/server.cpp\<close>).
\<close>

section \<open>The callbacks of the network\<close>

text \<open>What both callbacks for new clients set.\<close>

definition fresh_client :: "client_state \<Rightarrow> CClient \<Rightarrow> CClient" where
  "fresh_client State c = client_reset (c\<lparr>cc_State := State, cc_Name := [], cc_Clan := [], cc_Country := -1,
     cc_Authed := AUTHED_NO, cc_AuthKey := -1, cc_AuthTries := 0, cc_AuthHidden := False, cc_RconCmdToSend := None,
     cc_MaplistEntryToSend := MAPLIST_UNINITIALIZED, cc_ShowIps := False, cc_DDNetVersion := VERSION_NONE,
     cc_GotDDNetVersionPacket := False, cc_DDNetVersionSettled := False\<rparr>)"

definition NewClientCallback :: "nat \<Rightarrow> bool \<Rightarrow> CServer \<Rightarrow> CServer" where
  "NewClientCallback i Sixup = set_client i (\<lambda>c. (fresh_client STATE_PREAUTH c)\<lparr>cc_Sixup := Sixup\<rparr>)"

definition NewClientNoAuthCallback :: "srv_env \<Rightarrow> nat \<Rightarrow> CServer \<Rightarrow> CServer option" where
  "NewClientNoAuthCallback e i s =
     do {
       s \<leftarrow> SendCapabilities e i (set_client i (fresh_client STATE_CONNECTING) s);
       SendMap e i s
     }"

definition ClientRejoinCallback :: "srv_env \<Rightarrow> nat \<Rightarrow> CServer \<Rightarrow> CServer option" where
  "ClientRejoinCallback e i s =
     SendMap e i (set_client i (\<lambda>c. client_reset (c\<lparr>cc_Authed := AUTHED_NO, cc_AuthKey := -1, cc_RconCmdToSend := None,
       cc_MaplistEntryToSend := MAPLIST_UNINITIALIZED, cc_DDNetVersion := VERSION_NONE, cc_GotDDNetVersionPacket := False,
       cc_DDNetVersionSettled := False\<rparr>)) s)"

definition gone_client :: "CClient \<Rightarrow> CClient" where
  "gone_client c = c\<lparr>cc_State := STATE_EMPTY, cc_Name := [], cc_Clan := [], cc_Country := -1, cc_Authed := AUTHED_NO,
     cc_AuthKey := -1, cc_AuthTries := 0, cc_AuthHidden := False, cc_RconCmdToSend := None,
     cc_MaplistEntryToSend := MAPLIST_UNINITIALIZED, cc_ShowIps := False, cc_Snapshots := PurgeAll (cc_Snapshots c),
     cc_Sixup := False, cc_RedirectDropTime := 0, cc_HasPersistentData := False\<rparr>"

text \<open>\<open>None\<close> is the failed assertion that the slot is occupied, when the address is printed.\<close>

definition DelClientCallback :: "nat \<Rightarrow> reason \<Rightarrow> CServer \<Rightarrow> CServer option" where
  "DelClientCallback i pReason s =
     (if \<not> occupied s i then None
      else
        let s = (if cc_State (client s i) \<ge> STATE_READY then tell_game (OnClientDrop i pReason) s else s)
        in Some (set_client i gone_client s))"

text \<open>\<open>CNetServer::Drop\<close> calls the callback and then closes the connection.\<close>

definition server_drop :: "nat \<Rightarrow> reason \<Rightarrow> CServer \<Rightarrow> CServer option" where
  "server_drop i pReason s =
     do {
       s \<leftarrow> DelClientCallback i pReason s;
       let (sv, n) = Drop i pReason (s_Net s) (s_World s);
       Some (s\<lparr>s_Net := sv, s_World := n\<rparr>)
     }"

section \<open>Kicks and redirections\<close>

definition Kick :: "int \<Rightarrow> reason \<Rightarrow> CServer \<Rightarrow> CServer option" where
  "Kick ClientId pReason s =
     (if \<not> is_client_id ClientId \<or> \<not> occupied s (nat ClientId) then Some s
      else if s_RconClientId s = ClientId then Some s
      else if cc_Authed (client s (nat ClientId)) > s_RconAuthLevel s then Some s
      else server_drop (nat ClientId) pReason s)"

definition ConKick :: "int \<Rightarrow> u8 list option \<Rightarrow> CServer \<Rightarrow> CServer option" where
  "ConKick ClientId reason =
     Kick ClientId (Reason (case reason of
       Some r \<Rightarrow> str_copy (bytes_of ''Kicked ('' @ r @ bytes_of '')'') 128
     | None \<Rightarrow> bytes_of ''Kicked by console''))"

text \<open>The client is told where to go, and is dropped ten seconds later if it is still there.\<close>

definition sent_away :: "srv_env \<Rightarrow> CMsgPacker \<Rightarrow> u8 list \<Rightarrow> nat \<Rightarrow> CServer \<Rightarrow> CServer option" where
  "sent_away e Msg pReason i s =
     do {
       s \<leftarrow> send_sys e Msg (MSGFLAG_VITAL OR MSGFLAG_FLUSH) i s;
       let s = (if cc_State (client s i) \<ge> STATE_READY then tell_game (OnClientDrop i (Reason pReason)) s else s);
       let (t, s) = server_time s;
       Some (set_client i (\<lambda>c. c\<lparr>cc_RedirectDropTime := t + time_freq * 10, cc_State := STATE_REDIRECTED\<rparr>) s)
     }"

definition RedirectClient :: "srv_env \<Rightarrow> nat \<Rightarrow> int \<Rightarrow> CServer \<Rightarrow> CServer option" where
  "RedirectClient e i Port s =
     (if \<not> GetClientVersion s i \<ge> VERSION_DDNET_REDIRECT
      then Kick (int i) (Reason (if Port = ev_Port e then bytes_of ''Redirect unsupported: please reconnect''
                                 else bytes_of (''Redirect unsupported: please connect to port '' @ decimal Port))) s
      else sent_away e (Msg_AddInt Port (sys_packer NETMSG_REDIRECT)) (bytes_of ''redirect'') i s)"

definition ReconnectClient :: "srv_env \<Rightarrow> nat \<Rightarrow> CServer \<Rightarrow> CServer option" where
  "ReconnectClient e i s =
     (if GetClientVersion s i < VERSION_DDNET_RECONNECT then RedirectClient e i (ev_Port e) s
      else sent_away e (sys_packer NETMSG_RECONNECT) (bytes_of ''reconnect'') i s)"

fun drop_redirected :: "nat list \<Rightarrow> CServer \<Rightarrow> CServer option" where
  "drop_redirected [] s = Some s"
| "drop_redirected (i # is) s =
     (if cc_State (client s i) = STATE_REDIRECTED
      then
        let (t, s) = server_time s
        in if t > cc_RedirectDropTime (client s i)
           then Option.bind (server_drop i (Reason (bytes_of ''redirected'')) s) (drop_redirected is)
           else drop_redirected is s
      else drop_redirected is s)"

text \<open>All clients, when the server shuts down.\<close>

fun drop_all :: "reason \<Rightarrow> nat list \<Rightarrow> CServer \<Rightarrow> CServer option" where
  "drop_all pReason [] s = Some s"
| "drop_all pReason (i # is) s =
     (if occupied s i then Option.bind (server_drop i pReason s) (drop_all pReason is) else drop_all pReason is s)"

section \<open>Bans\<close>

text \<open>
  Whether a ban is refused: by clients, if it matches themselves or one with at least their level; by a vote,
  if it matches one that is logged in.
\<close>

definition ban_refused :: "(NETADDR \<Rightarrow> bool) \<Rightarrow> CServer \<Rightarrow> bool" where
  "ban_refused matches s =
     (if is_client_id (s_RconClientId s) \<and> occupied s (nat (s_RconClientId s))
      then matches (client_addr s (nat (s_RconClientId s))) \<or>
        list_ex (\<lambda>i. \<not> (int i = s_RconClientId s \<or> \<not> occupied s i) \<and>
          cc_Authed (client s i) \<ge> s_RconAuthLevel s \<and> matches (client_addr s i)) [0..<MAX_CLIENTS]
      else s_RconClientId s = RCON_CID_VOTE \<and>
        list_ex (\<lambda>i. occupied s i \<and> cc_Authed (client s i) \<noteq> AUTHED_NO \<and> matches (client_addr s i)) [0..<MAX_CLIENTS])"

text \<open>The message for a client that is dropped; \<open>None\<close> is a search that does not end.\<close>

definition drop_message :: "int \<Rightarrow> 'a ban_kind \<Rightarrow> 'a \<Rightarrow> 'a CBanPool \<Rightarrow> u8 list option" where
  "drop_message Now k pData P =
     do {
       h \<leftarrow> k_hash k pData;
       r \<leftarrow> Pool_Find (k_same k) pData h P;
       Some (case r of Some b \<Rightarrow> MakeBanInfo_player Now 256 (bn_Info (bp_Bans P b)) | None \<Rightarrow> [])
     }"

fun drop_banned :: "(NETADDR \<Rightarrow> bool) \<Rightarrow> (CServer \<Rightarrow> u8 list option) \<Rightarrow> nat list \<Rightarrow> CServer \<Rightarrow> CServer option" where
  "drop_banned matches info [] s = Some s"
| "drop_banned matches info (i # is) s =
     (if occupied s i \<and> matches (client_addr s i)
      then do {
        msg \<leftarrow> info s;
        s \<leftarrow> server_drop i (Reason msg) s;
        drop_banned matches info is s
      }
      else drop_banned matches info is s)"

definition BanExt :: "srv_env \<Rightarrow> 'a ban_kind \<Rightarrow> (CNetBan \<Rightarrow> 'a CBanPool) \<Rightarrow> ('a CBanPool \<Rightarrow> CNetBan \<Rightarrow> CNetBan) \<Rightarrow>
    'a \<Rightarrow> int \<Rightarrow> u8 list \<Rightarrow> bool \<Rightarrow> CServer \<Rightarrow> (int \<times> CServer) option" where
  "BanExt e k pool set_pool pData Seconds pReason VerbatimReason s =
     (if ban_refused (k_matches k pData) s then Some (-1, s)
      else
        do {
          (Result, P) \<leftarrow> Ban k (nb_LocalhostIpV4 (s_Ban s)) (nb_LocalhostIpV6 (s_Ban s)) (ev_Timestamp e) pData Seconds pReason
                          VerbatimReason (pool (s_Ban s));
          let s = s\<lparr>s_Ban := set_pool P (s_Ban s)\<rparr>;
          if Result \<noteq> 0 then Some (Result, s)
          else map_option (Pair Result)
            (drop_banned (k_matches k pData) (\<lambda>s. drop_message (ev_Timestamp e) k pData (pool (s_Ban s))) [0..<MAX_CLIENTS] s)
        })"

definition server_BanAddr :: "srv_env \<Rightarrow> NETADDR \<Rightarrow> int \<Rightarrow> u8 list \<Rightarrow> bool \<Rightarrow> CServer \<Rightarrow> (int \<times> CServer) option" where
  "server_BanAddr e = BanExt e addr_kind nb_AddrPool (\<lambda>P nb. nb\<lparr>nb_AddrPool := P\<rparr>)"

definition server_BanRange :: "srv_env \<Rightarrow> CNetRange \<Rightarrow> int \<Rightarrow> u8 list \<Rightarrow> CServer \<Rightarrow> (int \<times> CServer) option" where
  "server_BanRange e pRange Seconds pReason s =
     (if Range_IsValid pRange
      then BanExt e range_kind nb_RangePool (\<lambda>P nb. nb\<lparr>nb_RangePool := P\<rparr>) pRange Seconds pReason True s
      else Some (-1, s))"

definition server_Ban :: "srv_env \<Rightarrow> nat \<Rightarrow> int \<Rightarrow> u8 list \<Rightarrow> bool \<Rightarrow> CServer \<Rightarrow> CServer option" where
  "server_Ban e i Seconds pReason VerbatimReason s =
     do {
       addr \<leftarrow> ClientAddr s i;
       map_option snd (server_BanAddr e addr Seconds pReason VerbatimReason s)
     }"

text \<open>\<open>ClientId\<close> is the number if the first argument has digits only, \<open>addr\<close> the address if it is one.\<close>

definition ConBanExt :: "srv_env \<Rightarrow> int option \<Rightarrow> NETADDR option \<Rightarrow> int option \<Rightarrow> u8 list option \<Rightarrow> CServer \<Rightarrow> CServer option" where
  "ConBanExt e ClientId addr minutes reason s =
     (case ClientId of
        Some ClientId \<Rightarrow>
          let Minutes = (case minutes of Some m \<Rightarrow> min (max m 0) 525600 | None \<Rightarrow> 10);
              pReason = (case reason of Some r \<Rightarrow> r
                                      | None \<Rightarrow> bytes_of ''Follow the server rules. Type /rules into the chat.'')
          in if \<not> is_client_id ClientId \<or> \<not> occupied s (nat ClientId) then Some s
             else map_option snd (server_BanAddr e (client_addr s (nat ClientId)) (Minutes * 60) pReason False s)
      | None \<Rightarrow>
          let Minutes = (case minutes of Some m \<Rightarrow> min (max m 0) 525600 | None \<Rightarrow> 30);
              pReason = (case reason of Some r \<Rightarrow> r | None \<Rightarrow> bytes_of ''No reason given'')
          in case addr of
               Some Addr \<Rightarrow> map_option snd (server_BanAddr e Addr (Minutes * 60) pReason False s)
             | None \<Rightarrow> Some s)"

section \<open>Logins for the remote console\<close>

definition sevens_packer :: "int \<Rightarrow> CMsgPacker" where
  "sevens_packer Type = CMsgPacker_create Type True True"

definition LogoutClient :: "srv_env \<Rightarrow> nat \<Rightarrow> u8 list \<Rightarrow> CServer \<Rightarrow> CServer option" where
  "LogoutClient e i pReason s =
     do {
       s \<leftarrow> (if \<not> IsSixup s i
             then send_sys e (Msg_AddInt 0 (Msg_AddInt 0 (sys_packer NETMSG_RCON_AUTH_STATUS))) MSGFLAG_VITAL i s
             else send_sys e (sevens_packer NETMSG7_RCON_AUTH_OFF) MSGFLAG_VITAL i s);
       let s = set_client i (\<lambda>c. c\<lparr>cc_AuthTries := 0, cc_RconCmdToSend := None, cc_MaplistEntryToSend := MAPLIST_UNINITIALIZED\<rparr>) s;
       s \<leftarrow> SendRconLine e (if pReason \<noteq> [] then str_copy (bytes_of ''Logged out by '' @ pReason @ bytes_of ''.'') 64
                             else bytes_of ''Logout successful.'') i s;
       let s = tell_game (Logged_out i (KeyIdent (s_Auth s) (cc_AuthKey (client s i)))) s;
       let s = set_client i (\<lambda>c. c\<lparr>cc_Authed := AUTHED_NO, cc_AuthKey := -1\<rparr>) s;
       Some (tell_game (OnSetAuthed i AUTHED_NO) s)
     }"

fun logout_loop :: "srv_env \<Rightarrow> int \<Rightarrow> u8 list \<Rightarrow> nat list \<Rightarrow> CServer \<Rightarrow> CServer option" where
  "logout_loop e Key pReason [] s = Some s"
| "logout_loop e Key pReason (i # is) s =
     (if cc_AuthKey (client s i) = Key
      then Option.bind (LogoutClient e i pReason s) (logout_loop e Key pReason is)
      else logout_loop e Key pReason is s)"

definition LogoutKey :: "srv_env \<Rightarrow> int \<Rightarrow> u8 list \<Rightarrow> CServer \<Rightarrow> CServer option" where
  "LogoutKey e Key pReason = logout_loop e Key pReason [0..<MAX_CLIENTS]"

definition AuthRemoveKey :: "srv_env \<Rightarrow> int \<Rightarrow> CServer \<Rightarrow> CServer option" where
  "AuthRemoveKey e KeySlot s =
     do {
       am \<leftarrow> RemoveKey KeySlot (s_Auth s);
       s \<leftarrow> LogoutKey e KeySlot (bytes_of ''key removal'') (s\<lparr>s_Auth := am\<rparr>);
       Some (s\<lparr>s_Clients := map (\<lambda>c. c\<lparr>cc_AuthKey := slot_removed KeySlot (cc_AuthKey c)\<rparr>) (s_Clients s)\<rparr>)
     }"

definition ascii_lower :: "u8 \<Rightarrow> u8" where
  "ascii_lower b = (if 65 \<le> b \<and> b \<le> 90 then b + 32 else b)"

definition str_same_nocase :: "u8 list \<Rightarrow> u8 list \<Rightarrow> bool" where
  "str_same_nocase a b \<longleftrightarrow> map ascii_lower a = map ascii_lower b"

definition GetAuthLevel :: "u8 list \<Rightarrow> int" where
  "GetAuthLevel pLevel =
     (if str_same_nocase pLevel (bytes_of ''admin'') then AUTHED_ADMIN
      else if take 3 pLevel = bytes_of ''mod'' then AUTHED_MOD
      else if str_same_nocase pLevel (bytes_of ''helper'') then AUTHED_HELPER
      else -1)"

text \<open>A hash and a salt in hexadecimal digits.\<close>

definition parse_hashed :: "u8 list \<Rightarrow> u8 list \<Rightarrow> (u8 list \<times> u8 list) option" where
  "parse_hashed pPw pSalt =
     (case (str_hex_decode 16 pPw, str_hex_decode 8 pSalt) of
        (Inr Hash, Inr aSalt) \<Rightarrow> Some (Hash, aSalt)
      | _ \<Rightarrow> None)"

text \<open>A key is added; clients are asked for names from the first key on that is not a default one.\<close>

definition key_added :: "srv_env \<Rightarrow> bool \<Rightarrow> int \<times> CAuthManager \<Rightarrow> CServer \<Rightarrow> CServer option" where
  "key_added e NeedUpdate result s =
     (let s = s\<lparr>s_Auth := snd result\<rparr>
      in if fst result < 0 then Some s
         else if NeedUpdate then SendRconType e True (-1) s else Some s)"

definition ConAuthAdd :: "srv_env \<Rightarrow> u8 list \<Rightarrow> u8 list \<Rightarrow> u8 list \<Rightarrow> CServer \<Rightarrow> CServer option" where
  "ConAuthAdd e pIdent pLevel pPw s =
     (if \<not> IsValidIdent pIdent \<or> GetAuthLevel pLevel = -1 then Some s
      else key_added e (NumNonDefaultKeys (s_Auth s) = 0)
             (AddKey (ev_Md5 e) (ev_Salt e) (s_Auth s) pIdent pPw (GetAuthLevel pLevel)) s)"

definition ConAuthAddHashed :: "srv_env \<Rightarrow> u8 list \<Rightarrow> u8 list \<Rightarrow> u8 list \<Rightarrow> u8 list \<Rightarrow> CServer \<Rightarrow> CServer option" where
  "ConAuthAddHashed e pIdent pLevel pPw pSalt s =
     (if \<not> IsValidIdent pIdent \<or> GetAuthLevel pLevel = -1 then Some s
      else case parse_hashed pPw pSalt of
             None \<Rightarrow> Some s
           | Some (Hash, aSalt) \<Rightarrow> key_added e (NumNonDefaultKeys (s_Auth s) = 0)
               (AddKeyHash (s_Auth s) pIdent Hash aSalt (GetAuthLevel pLevel)) s)"

definition ConAuthUpdate :: "srv_env \<Rightarrow> u8 list \<Rightarrow> u8 list \<Rightarrow> u8 list \<Rightarrow> CServer \<Rightarrow> CServer option" where
  "ConAuthUpdate e pIdent pLevel pPw s =
     (let KeySlot = FindKey (s_Auth s) pIdent
      in if KeySlot = -1 \<or> GetAuthLevel pLevel = -1 then Some s
         else LogoutKey e KeySlot (bytes_of ''key update'')
                (s\<lparr>s_Auth := UpdateKey (ev_Md5 e) (ev_Salt e) KeySlot pPw (GetAuthLevel pLevel) (s_Auth s)\<rparr>))"

definition ConAuthUpdateHashed :: "srv_env \<Rightarrow> u8 list \<Rightarrow> u8 list \<Rightarrow> u8 list \<Rightarrow> u8 list \<Rightarrow> CServer \<Rightarrow> CServer option" where
  "ConAuthUpdateHashed e pIdent pLevel pPw pSalt s =
     (let KeySlot = FindKey (s_Auth s) pIdent
      in if KeySlot = -1 \<or> GetAuthLevel pLevel = -1 then Some s
         else case parse_hashed pPw pSalt of
                None \<Rightarrow> Some s
              | Some (Hash, aSalt) \<Rightarrow> LogoutKey e KeySlot (bytes_of ''key update'')
                  (s\<lparr>s_Auth := UpdateKeyHash KeySlot Hash aSalt (GetAuthLevel pLevel) (s_Auth s)\<rparr>))"

definition ConAuthRemove :: "srv_env \<Rightarrow> u8 list \<Rightarrow> CServer \<Rightarrow> CServer option" where
  "ConAuthRemove e pIdent s =
     (let KeySlot = FindKey (s_Auth s) pIdent
      in if KeySlot = -1 then Some s
         else do {
           s \<leftarrow> AuthRemoveKey e KeySlot s;
           if NumNonDefaultKeys (s_Auth s) = 0 then SendRconType e False (-1) s else Some s
         })"

text \<open>
  A change of one of the three passwords in the configuration; \<open>pCurrent\<close> is the old one. \<open>None\<close> also is
  an access behind the array of default keys.
\<close>

definition ConchainRconPasswordChangeGeneric :: "srv_env \<Rightarrow> int \<Rightarrow> u8 list \<Rightarrow> u8 list option \<Rightarrow> CServer \<Rightarrow> CServer option" where
  "ConchainRconPasswordChangeGeneric e Level pCurrent argument s =
     (case argument of
        None \<Rightarrow> Some s
      | Some pNew \<Rightarrow>
          do {
            KeySlot \<leftarrow> DefaultKey (s_Auth s) Level;
            if pCurrent = pNew then Some s
            else if KeySlot = -1 \<and> pNew \<noteq> []
            then Some (s\<lparr>s_Auth := AddDefaultKey (ev_Md5 e) (ev_Salt e) Level pNew (s_Auth s)\<rparr>)
            else if KeySlot \<ge> 0
            then if pNew = [] then AuthRemoveKey e KeySlot s
                 else LogoutKey e KeySlot (bytes_of ''key update'')
                        (s\<lparr>s_Auth := UpdateKey (ev_Md5 e) (ev_Salt e) KeySlot pNew Level (s_Auth s)\<rparr>)
            else Some s
          })"

definition ConLogout :: "srv_env \<Rightarrow> CServer \<Rightarrow> CServer option" where
  "ConLogout e s =
     (if is_client_id (s_RconClientId s) \<and> occupied s (nat (s_RconClientId s))
      then LogoutClient e (nat (s_RconClientId s)) [] s else Some s)"

section \<open>The connection of a client that timed out\<close>

definition SetTimedOut :: "srv_env \<Rightarrow> nat \<Rightarrow> nat \<Rightarrow> CServer \<Rightarrow> (bool \<times> CServer) option" where
  "SetTimedOut e i OrigId s =
     do {
       (ok, sv, n) \<leftarrow> Server_SetTimedOut i OrigId (s_Net s) (s_World s);
       let s = s\<lparr>s_Net := sv, s_World := n\<rparr>;
       if \<not> ok then Some (False, s)
       else do {
         let s = set_client i (\<lambda>c. c\<lparr>cc_Sixup := cc_Sixup (client s OrigId)\<rparr>) s;
         s \<leftarrow> (if cc_Authed (client s OrigId) \<noteq> AUTHED_NO then LogoutClient e i (bytes_of ''Timeout Protection'') s else Some s);
         s \<leftarrow> DelClientCallback OrigId (Reason (bytes_of ''Timeout Protection used'')) s;
         Some (True, set_client i (\<lambda>c. c\<lparr>cc_Authed := AUTHED_NO, cc_Flags := cc_Flags (client s OrigId),
           cc_DDNetVersion := cc_DDNetVersion (client s OrigId),
           cc_GotDDNetVersionPacket := cc_GotDDNetVersionPacket (client s OrigId),
           cc_DDNetVersionSettled := cc_DDNetVersionSettled (client s OrigId)\<rparr>) s)
       }
     }"

end
