(* ===== verification/NetConsole.thy ===== *)
theory NetConsole
  imports ServerAdmin
begin

text \<open>
  The external console of \<^verbatim>\<open>src/src/engine/shared/network_console_conn.cpp\<close> (a connection over TCP that
  is read line by line), \<^verbatim>\<open>network_console.cpp\<close> (its four slots) and \<^verbatim>\<open>econ.cpp\<close> (the password and
  the commands). The line ending before one is detected is that of all systems but Windows.
\<close>

section \<open>Sockets\<close>

text \<open>What each call of \<open>net_tcp_send\<close> returns, what was sent over each socket, and the sockets closed.\<close>

record tcp =
  t_Send :: "nat \<Rightarrow> int"
  t_Calls :: nat
  t_Sent :: "(nat \<times> u8 list) list"
  t_Closed :: "nat list"

definition tcp_send :: "nat \<Rightarrow> u8 list \<Rightarrow> tcp \<Rightarrow> int \<times> tcp" where
  "tcp_send sock Data w =
     (let n = t_Send w (t_Calls w)
      in (n, w\<lparr>t_Calls := Suc (t_Calls w), t_Sent := t_Sent w @ (if n < 0 then [] else [(sock, take (nat n) Data)])\<rparr>))"

definition tcp_close :: "nat \<Rightarrow> tcp \<Rightarrow> tcp" where
  "tcp_close sock w = w\<lparr>t_Closed := t_Closed w @ [sock]\<rparr>"

text \<open>All the data, in as many calls as it takes; whether none failed.\<close>

partial_function (option) tcp_send_all :: "nat \<Rightarrow> u8 list \<Rightarrow> tcp \<Rightarrow> (bool \<times> tcp) option" where
  "tcp_send_all sock Data w =
     (let (n, w) = tcp_send sock Data w
      in if n < 0 then Some (False, w)
         else if n \<ge> int (length Data) then Some (True, w)
         else tcp_send_all sock (drop (nat n) Data) w)"

text \<open>What \<open>net_tcp_recv\<close> gives: bytes, or why there are none.\<close>

datatype tcp_recv = Received "u8 list" | Would_block | Failed | Closed

section \<open>A connection\<close>

definition NET_MAX_CONSOLE_CLIENTS :: nat where "NET_MAX_CONSOLE_CLIENTS = 4"

record CConsoleNetConnection =
  cn_State :: conn_state
  cn_PeerAddr :: NETADDR
  cn_Socket :: nat
  cn_Buffer :: "u8 list"
  cn_ErrorString :: "u8 list"
  cn_LineEndingDetected :: bool
  cn_LineEnding :: "u8 list"

definition cn_Reset :: "CConsoleNetConnection \<Rightarrow> CConsoleNetConnection" where
  "cn_Reset c = c\<lparr>cn_State := OFFLINE, cn_PeerAddr := zero_addr, cn_Socket := 0, cn_Buffer := [], cn_ErrorString := [],
     cn_LineEndingDetected := False, cn_LineEnding := [10, 0, 0]\<rparr>"

definition cn_Init :: "nat \<Rightarrow> NETADDR \<Rightarrow> bool \<Rightarrow> CConsoleNetConnection \<Rightarrow> bool \<times> CConsoleNetConnection" where
  "cn_Init Socket pAddr NonBlocking c =
     (let c = cn_Reset c
      in if NonBlocking then (True, c\<lparr>cn_Socket := Socket, cn_PeerAddr := pAddr, cn_State := ONLINE\<rparr>) else (False, c))"

definition cn_Send :: "u8 list \<Rightarrow> CConsoleNetConnection \<Rightarrow> tcp \<Rightarrow> (int \<times> CConsoleNetConnection \<times> tcp) option" where
  "cn_Send pLine c w =
     (if cn_State c \<noteq> ONLINE then Some (-1, c, w)
      else do {
        (ok, w) \<leftarrow> tcp_send_all (cn_Socket c) (str_copy pLine 1022 @ cn_LineEnding c) w;
        Some (if ok then (0, c, w)
              else (-1, c\<lparr>cn_State := ERROR, cn_ErrorString := bytes_of ''failed to send packet''\<rparr>, w))
      })"

definition cn_Disconnect :: "u8 list \<Rightarrow> CConsoleNetConnection \<Rightarrow> tcp \<Rightarrow> (CConsoleNetConnection \<times> tcp) option" where
  "cn_Disconnect pReason c w =
     (if cn_State c = OFFLINE then Some (c, w)
      else do {
        (_, c, w) \<leftarrow> (if pReason \<noteq> [] then cn_Send pReason c w else Some (0, c, w));
        Some (cn_Reset c, tcp_close (cn_Socket c) w)
      })"

definition cn_Update :: "tcp_recv \<Rightarrow> CConsoleNetConnection \<Rightarrow> CConsoleNetConnection" where
  "cn_Update r c =
     (if cn_State c \<noteq> ONLINE then c
      else if NET_MAX_PACKETSIZE \<le> length (cn_Buffer c)
      then c\<lparr>cn_State := ERROR, cn_ErrorString := bytes_of ''too weak connection (out of buffer)''\<rparr>
      else case r of
             Received Data \<Rightarrow> c\<lparr>cn_Buffer := cn_Buffer c @ take (NET_MAX_PACKETSIZE - length (cn_Buffer c)) Data\<rparr>
           | Would_block \<Rightarrow> c
           | Failed \<Rightarrow> c\<lparr>cn_State := ERROR, cn_ErrorString := bytes_of ''connection failure''\<rparr>
           | Closed \<Rightarrow> c\<lparr>cn_State := ERROR, cn_ErrorString := bytes_of ''remote end closed the connection''\<rparr>)"

definition is_eol :: "u8 \<Rightarrow> bool" where
  "is_eol b \<longleftrightarrow> b = 13 \<or> b = 10"

text \<open>The line ending of the client is taken from the first one it sends.\<close>

definition detect_line_ending :: "u8 list \<Rightarrow> CConsoleNetConnection \<Rightarrow> CConsoleNetConnection" where
  "detect_line_ending b c =
     (if b \<noteq> [] \<and> is_eol (b ! 0) \<and> \<not> cn_LineEndingDetected c
      then let ending = (cn_LineEnding c)[0 := b ! 0];
               ending = (if 1 < length b \<and> is_eol (b ! 1) \<and> b ! 0 \<noteq> b ! 1 then ending[1 := b ! 1] else ending)
           in c\<lparr>cn_LineEnding := ending, cn_LineEndingDetected := True\<rparr>
      else c)"

text \<open>The next line as it came; \<open>None\<close> if there is none, or if it does not fit.\<close>

definition next_line :: "nat \<Rightarrow> CConsoleNetConnection \<Rightarrow> u8 list option \<times> CConsoleNetConnection" where
  "next_line MaxLength c =
     (if cn_State c \<noteq> ONLINE \<or> cn_Buffer c = [] then (None, c)
      else
        let c = detect_line_ending (cn_Buffer c) c;
            start = dropWhile is_eol (cn_Buffer c);
            line = takeWhile (\<lambda>b. \<not> is_eol b) start
        in if start = [] then (None, c\<lparr>cn_Buffer := []\<rparr>)
           else if length line = length start \<or> MaxLength - 1 < length line then (None, c\<lparr>cn_Buffer := start\<rparr>)
           else (Some line, c\<lparr>cn_Buffer := drop (length line) start\<rparr>))"

definition cn_Recv :: "nat \<Rightarrow> CConsoleNetConnection \<Rightarrow> u8 list option \<times> CConsoleNetConnection" where
  "cn_Recv MaxLength c =
     (case next_line MaxLength c of
        (None, c) \<Rightarrow> (None, c)
      | (Some raw, c) \<Rightarrow>
          let pLine = str_sanitize_cc (c_string raw) in (if str_utf8_check pLine then Some pLine else None, c))"

section \<open>The console\<close>

datatype econ_state = ECON_EMPTY | ECON_CONNECTED | ECON_AUTHED

record CEconClient =
  ec_State :: econ_state
  ec_TimeConnected :: int
  ec_AuthTries :: int

text \<open>The clients and their slots, and the server whose bans and clock the console uses.\<close>

record CEcon =
  ec_aClients :: "CEconClient list"
  ec_Slots :: "CConsoleNetConnection list"
  ec_Ready :: bool
  ec_UserClientId :: int
  ec_Tcp :: tcp
  ec_Server :: CServer

definition MAX_AUTH_TRIES :: int where "MAX_AUTH_TRIES = 3"

text \<open>What the console prints in the log.\<close>

datatype econ_event =
    Log_accepted nat NETADDR
  | Log_dropped nat NETADDR "u8 list"
  | Log_authed nat
  | Log_command nat "u8 list"

text \<open>
  The configuration; the line that the log makes of an event, if its level is not filtered out; and the
  command interpreter, which runs a line.
\<close>

record econ_env =
  ee_Srv :: srv_env
  ee_Password :: "u8 list"
  ee_Bantime :: int
  ee_AuthTimeout :: int
  ee_Log :: "econ_event \<Rightarrow> u8 list option"
  ee_Execute :: "u8 list \<Rightarrow> CEcon \<Rightarrow> CEcon option"

definition econ_slot :: "CEcon \<Rightarrow> nat \<Rightarrow> CConsoleNetConnection" where
  "econ_slot s i = ec_Slots s ! i"

definition econ_client :: "CEcon \<Rightarrow> nat \<Rightarrow> CEconClient" where
  "econ_client s i = ec_aClients s ! i"

definition set_econ_slot :: "nat \<Rightarrow> CConsoleNetConnection \<Rightarrow> CEcon \<Rightarrow> CEcon" where
  "set_econ_slot i c s = s\<lparr>ec_Slots := (ec_Slots s)[i := c]\<rparr>"

definition set_econ_client :: "nat \<Rightarrow> (CEconClient \<Rightarrow> CEconClient) \<Rightarrow> CEcon \<Rightarrow> CEcon" where
  "set_econ_client i f s = s\<lparr>ec_aClients := (ec_aClients s)[i := f (econ_client s i)]\<rparr>"

definition econ_time :: "CEcon \<Rightarrow> int \<times> CEcon" where
  "econ_time s = (let (t, srv) = server_time (ec_Server s) in (t, s\<lparr>ec_Server := srv\<rparr>))"

definition console_Send :: "nat \<Rightarrow> u8 list \<Rightarrow> CEcon \<Rightarrow> CEcon option" where
  "console_Send i pLine s =
     (if cn_State (econ_slot s i) = ONLINE
      then map_option (\<lambda>(_, c, w). (set_econ_slot i c s)\<lparr>ec_Tcp := w\<rparr>) (cn_Send pLine (econ_slot s i) (ec_Tcp s))
      else Some s)"

fun send_authed :: "u8 list \<Rightarrow> nat list \<Rightarrow> CEcon \<Rightarrow> CEcon option" where
  "send_authed pLine [] s = Some s"
| "send_authed pLine (i # is) s =
     (if ec_State (econ_client s i) = ECON_AUTHED then Option.bind (console_Send i pLine s) (send_authed pLine is)
      else send_authed pLine is s)"

definition Econ_Send :: "int \<Rightarrow> u8 list \<Rightarrow> CEcon \<Rightarrow> CEcon option" where
  "Econ_Send ClientId pLine s =
     (if \<not> ec_Ready s then Some s
      else if ClientId = -1 then send_authed pLine [0..<NET_MAX_CONSOLE_CLIENTS] s
      else if ClientId \<ge> 0 \<and> ClientId < int NET_MAX_CONSOLE_CLIENTS then send_authed pLine [nat ClientId] s
      else Some s)"

text \<open>A line of the log goes to the clients of the console.\<close>

definition econ_Print :: "econ_env \<Rightarrow> econ_event \<Rightarrow> CEcon \<Rightarrow> CEcon option" where
  "econ_Print e ev s = (case ee_Log e ev of Some pLine \<Rightarrow> Econ_Send (-1) pLine s | None \<Rightarrow> Some s)"

text \<open>The callbacks of \<open>CEcon\<close>.\<close>

definition econ_NewClient :: "econ_env \<Rightarrow> nat \<Rightarrow> CEcon \<Rightarrow> CEcon option" where
  "econ_NewClient e i s =
     do {
       s \<leftarrow> econ_Print e (Log_accepted i (cn_PeerAddr (econ_slot s i))) s;
       let (t, s) = econ_time s;
       console_Send i (bytes_of ''Enter password:'')
         (set_econ_client i (\<lambda>c. c\<lparr>ec_State := ECON_CONNECTED, ec_TimeConnected := t, ec_AuthTries := 0\<rparr>) s)
     }"

definition econ_DelClient :: "econ_env \<Rightarrow> nat \<Rightarrow> u8 list \<Rightarrow> CEcon \<Rightarrow> CEcon option" where
  "econ_DelClient e i pReason s =
     map_option (set_econ_client i (\<lambda>c. c\<lparr>ec_State := ECON_EMPTY\<rparr>))
       (econ_Print e (Log_dropped i (cn_PeerAddr (econ_slot s i)) pReason) s)"

definition console_Drop :: "econ_env \<Rightarrow> nat \<Rightarrow> u8 list \<Rightarrow> CEcon \<Rightarrow> CEcon option" where
  "console_Drop e i pReason s =
     do {
       s \<leftarrow> econ_DelClient e i pReason s;
       (c, w) \<leftarrow> cn_Disconnect pReason (econ_slot s i) (ec_Tcp s);
       Some ((set_econ_slot i c s)\<lparr>ec_Tcp := w\<rparr>)
     }"

text \<open>A new connection: its socket, its address, and whether it could be set to non-blocking.\<close>

record accepted =
  ac_Socket :: nat
  ac_Addr :: NETADDR
  ac_NonBlocking :: bool

definition refuse_console :: "nat \<Rightarrow> u8 list \<Rightarrow> CEcon \<Rightarrow> CEcon" where
  "refuse_console Socket pError s = s\<lparr>ec_Tcp := tcp_close Socket (snd (tcp_send Socket pError (ec_Tcp s)))\<rparr>"

definition AcceptClient :: "econ_env \<Rightarrow> accepted \<Rightarrow> CEcon \<Rightarrow> CEcon option" where
  "AcceptClient e a s =
     do {
       ban \<leftarrow> IsBanned (ev_Timestamp (ee_Srv e)) (ac_Addr a) 256 (s_Ban (ec_Server s));
       case ban of
         Some aBanMessage \<Rightarrow> Some (refuse_console (ac_Socket a) aBanMessage s)
       | None \<Rightarrow>
           if list_ex (\<lambda>c. cn_State c \<noteq> OFFLINE \<and> \<not> net_addr_comp_noport (ac_Addr a) (cn_PeerAddr c)) (ec_Slots s)
           then Some (refuse_console (ac_Socket a) (bytes_of ''only one client per IP allowed'') s)
           else case find (\<lambda>i. cn_State (econ_slot s i) = OFFLINE) [0..<NET_MAX_CONSOLE_CLIENTS] of
                  None \<Rightarrow> Some (refuse_console (ac_Socket a) (bytes_of ''no free slot available'') s)
                | Some i \<Rightarrow>
                    let (ok, c) = cn_Init (ac_Socket a) (ac_Addr a) (ac_NonBlocking a) (econ_slot s i);
                        s = set_econ_slot i c s
                    in if ok then econ_NewClient e i s
                       else Some (refuse_console (ac_Socket a) (bytes_of ''failed to initialize client connection'') s)
     }"

fun update_consoles :: "econ_env \<Rightarrow> (nat \<Rightarrow> tcp_recv) \<Rightarrow> nat list \<Rightarrow> CEcon \<Rightarrow> CEcon option" where
  "update_consoles e r [] s = Some s"
| "update_consoles e r (i # is) s =
     (let s = set_econ_slot i (cn_Update (r i) (econ_slot s i)) s
      in do {
        s \<leftarrow> (if cn_State (econ_slot s i) = ERROR then console_Drop e i (cn_ErrorString (econ_slot s i)) s else Some s);
        update_consoles e r is s
      })"

definition console_Update :: "econ_env \<Rightarrow> accepted option \<Rightarrow> (nat \<Rightarrow> tcp_recv) \<Rightarrow> CEcon \<Rightarrow> CEcon option" where
  "console_Update e a r s =
     do {
       s \<leftarrow> (case a of Some a \<Rightarrow> AcceptClient e a s | None \<Rightarrow> Some s);
       update_consoles e r [0..<NET_MAX_CONSOLE_CLIENTS] s
     }"

text \<open>The first line that a slot has.\<close>

fun recv_slots :: "nat \<Rightarrow> nat list \<Rightarrow> CEcon \<Rightarrow> (nat \<times> u8 list) option \<times> CEcon" where
  "recv_slots MaxLength [] s = (None, s)"
| "recv_slots MaxLength (i # is) s =
     (if cn_State (econ_slot s i) = ONLINE
      then case cn_Recv MaxLength (econ_slot s i) of
             (Some pLine, c) \<Rightarrow> (Some (i, pLine), set_econ_slot i c s)
           | (None, c) \<Rightarrow> recv_slots MaxLength is (set_econ_slot i c s)
      else recv_slots MaxLength is s)"

definition console_Recv :: "nat \<Rightarrow> CEcon \<Rightarrow> (nat \<times> u8 list) option \<times> CEcon" where
  "console_Recv MaxLength = recv_slots MaxLength [0..<NET_MAX_CONSOLE_CLIENTS]"

section \<open>The password and the commands\<close>

text \<open>A line before the password was right; the ban is one of the server.\<close>

definition econ_password :: "econ_env \<Rightarrow> nat \<Rightarrow> u8 list \<Rightarrow> CEcon \<Rightarrow> CEcon option" where
  "econ_password e i pLine s =
     (if pLine = ee_Password e
      then do {
        s \<leftarrow> console_Send i (bytes_of ''Authentication successful. External console access granted.'')
               (set_econ_client i (\<lambda>c. c\<lparr>ec_State := ECON_AUTHED\<rparr>) s);
        econ_Print e (Log_authed i) s
      }
      else do {
        let s = set_econ_client i (\<lambda>c. c\<lparr>ec_AuthTries := ec_AuthTries c + 1\<rparr>) s;
        let Tries = ec_AuthTries (econ_client s i);
        s \<leftarrow> console_Send i (bytes_of (''Wrong password '' @ decimal Tries @ ''/'' @ decimal MAX_AUTH_TRIES @ ''.'')) s;
        if Tries \<ge> MAX_AUTH_TRIES
        then if ee_Bantime e = 0 then console_Drop e i (bytes_of ''Too many authentication tries'') s
             else map_option (\<lambda>(_, srv). s\<lparr>ec_Server := srv\<rparr>)
                    (server_BanAddr (ee_Srv e) (cn_PeerAddr (econ_slot s i)) (ee_Bantime e * 60)
                      (bytes_of ''Too many authentication tries'') False (ec_Server s))
        else Some s
      })"

text \<open>\<open>None\<close> is the failed assertion that the line comes from a client.\<close>

definition econ_line :: "econ_env \<Rightarrow> nat \<Rightarrow> u8 list \<Rightarrow> CEcon \<Rightarrow> CEcon option" where
  "econ_line e i pLine s =
     (case ec_State (econ_client s i) of
        ECON_EMPTY \<Rightarrow> None
      | ECON_CONNECTED \<Rightarrow> econ_password e i pLine s
      | ECON_AUTHED \<Rightarrow>
          do {
            s \<leftarrow> econ_Print e (Log_command i pLine) s;
            s \<leftarrow> ee_Execute e pLine (s\<lparr>ec_UserClientId := int i\<rparr>);
            Some (s\<lparr>ec_UserClientId := -1\<rparr>)
          })"

partial_function (option) econ_lines :: "econ_env \<Rightarrow> CEcon \<Rightarrow> CEcon option" where
  "econ_lines e s =
     (case console_Recv (NET_MAX_PACKETSIZE - 1) s of
        (None, s) \<Rightarrow> Some s
      | (Some (i, pLine), s) \<Rightarrow> Option.bind (econ_line e i pLine s) (econ_lines e))"

fun econ_timeouts :: "econ_env \<Rightarrow> nat list \<Rightarrow> CEcon \<Rightarrow> CEcon option" where
  "econ_timeouts e [] s = Some s"
| "econ_timeouts e (i # is) s =
     (if ec_State (econ_client s i) = ECON_CONNECTED
      then
        let (t, s) = econ_time s
        in if t > ec_TimeConnected (econ_client s i) + ee_AuthTimeout e * time_freq
           then Option.bind (console_Drop e i (bytes_of ''authentication timeout'') s) (econ_timeouts e is)
           else econ_timeouts e is s
      else econ_timeouts e is s)"

definition Econ_Update :: "econ_env \<Rightarrow> accepted option \<Rightarrow> (nat \<Rightarrow> tcp_recv) \<Rightarrow> CEcon \<Rightarrow> CEcon option" where
  "Econ_Update e a r s =
     (if \<not> ec_Ready s then Some s
      else do {
        s \<leftarrow> console_Update e a r s;
        s \<leftarrow> econ_lines e s;
        econ_timeouts e [0..<NET_MAX_CONSOLE_CLIENTS] s
      })"

definition Econ_ConLogout :: "econ_env \<Rightarrow> CEcon \<Rightarrow> CEcon option" where
  "Econ_ConLogout e s =
     (if ec_UserClientId s \<ge> 0 \<and> ec_UserClientId s < int NET_MAX_CONSOLE_CLIENTS \<and>
        ec_State (econ_client s (nat (ec_UserClientId s))) \<noteq> ECON_EMPTY
      then console_Drop e (nat (ec_UserClientId s)) (bytes_of ''Logout'') s else Some s)"

text \<open>\<open>CNetConsole::Close\<close>: the clients are not told of, the socket that listens is not modelled.\<close>

fun close_slots :: "nat list \<Rightarrow> CEcon \<Rightarrow> CEcon option" where
  "close_slots [] s = Some s"
| "close_slots (i # is) s =
     do {
       (c, w) \<leftarrow> cn_Disconnect (bytes_of ''closing console'') (econ_slot s i) (ec_Tcp s);
       close_slots is ((set_econ_slot i c s)\<lparr>ec_Tcp := w\<rparr>)
     }"

definition Econ_Shutdown :: "CEcon \<Rightarrow> CEcon option" where
  "Econ_Shutdown s = (if \<not> ec_Ready s then Some s else close_slots [0..<NET_MAX_CONSOLE_CLIENTS] s)"

text \<open>
  Whether the console is used: with a port, a password, and an address that is found. The slots are new then,
  and it is ready if the socket could be opened.
\<close>

definition Econ_Init :: "int \<Rightarrow> u8 list \<Rightarrow> bool \<Rightarrow> bool \<Rightarrow> CEcon \<Rightarrow> CEcon" where
  "Econ_Init Port pPassword Resolved Opened s =
     (let s = s\<lparr>ec_aClients := map (\<lambda>c. c\<lparr>ec_State := ECON_EMPTY\<rparr>) (ec_aClients s), ec_Ready := False, ec_UserClientId := -1\<rparr>
      in if Port = 0 \<or> pPassword = [] \<or> \<not> Resolved then s
         else s\<lparr>ec_Slots := map cn_Reset (ec_Slots s), ec_Ready := Opened\<rparr>)"

section \<open>The lines of a stream\<close>

text \<open>A byte after the other: the lines that are complete, and the one that has begun.\<close>

fun feed_byte :: "u8 list list \<times> u8 list \<Rightarrow> u8 \<Rightarrow> u8 list list \<times> u8 list" where
  "feed_byte (ls, cur) b = (if \<not> is_eol b then (ls, cur @ [b]) else if cur = [] then (ls, []) else (ls @ [cur], []))"

definition lines_of :: "u8 list \<Rightarrow> u8 list list \<times> u8 list" where
  "lines_of bs = foldl feed_byte ([], []) bs"

lemma lines_of_append: "lines_of (a @ b) = foldl feed_byte (lines_of a) b"
  by (simp add: lines_of_def)

lemma feed_after: "foldl feed_byte (ls @ ls', cur) bs = (ls @ fst (foldl feed_byte (ls', cur) bs), snd (foldl feed_byte (ls', cur) bs))"
proof (induction bs arbitrary: ls' cur)
  case (Cons b bs)
  show ?case using Cons.IH [of ls' "cur @ [b]"] Cons.IH [of ls' "[]"] Cons.IH [of "ls' @ [cur]" "[]"] by simp
qed simp

lemma feed_line: "\<forall>b \<in> set l. \<not> is_eol b \<Longrightarrow> foldl feed_byte (ls, cur) l = (ls, cur @ l)"
  by (induction l arbitrary: cur) simp_all

lemma lines_of_eols: "\<forall>b \<in> set es. is_eol b \<Longrightarrow> lines_of (es @ r) = lines_of r"
  by (induction es) (simp_all add: lines_of_def)

lemma lines_of_line:
  assumes "\<forall>b \<in> set l. \<not> is_eol b" "l \<noteq> []" "is_eol b"
  shows "lines_of (l @ b # r) = (l # fst (lines_of (b # r)), snd (lines_of (b # r)))"
  using assms feed_line [OF assms(1), of "[]" "[]"] feed_after [of "[l]" "[]" "[]" r] by (simp add: lines_of_def)

lemma lines_of_skip: "lines_of (dropWhile is_eol bs) = lines_of bs"
proof -
  have "lines_of (takeWhile is_eol bs @ dropWhile is_eol bs) = lines_of (dropWhile is_eol bs)"
    by (rule lines_of_eols) (metis set_takeWhileD)
  then show ?thesis by simp
qed

lemma detect_same [simp]:
  "cn_Buffer (detect_line_ending b c) = cn_Buffer c" "cn_State (detect_line_ending b c) = cn_State c"
  "cn_PeerAddr (detect_line_ending b c) = cn_PeerAddr c" "cn_Socket (detect_line_ending b c) = cn_Socket c"
  by (simp_all add: detect_line_ending_def Let_def)

lemma first_line:
  defines "start b \<equiv> dropWhile is_eol b" and "line b \<equiv> takeWhile (\<lambda>b. \<not> is_eol b) (dropWhile is_eol b)"
  shows "start b \<noteq> [] \<Longrightarrow> line b \<noteq> []"
    "length (line b) = length (start b) \<Longrightarrow> fst (lines_of b) = []"
    "start b \<noteq> [] \<Longrightarrow> length (line b) \<noteq> length (start b) \<Longrightarrow>
      lines_of b = (line b # fst (lines_of (drop (length (line b)) (start b))), snd (lines_of (drop (length (line b)) (start b))))"
proof -
  let ?rest = "dropWhile (\<lambda>b. \<not> is_eol b) (start b)"
  have same: "lines_of (start b) = lines_of b" by (simp add: start_def lines_of_skip)
  have plain: "\<forall>b \<in> set (line b). \<not> is_eol b" by (metis line_def set_takeWhileD)
  have part: "start b = line b @ ?rest" by (simp add: line_def start_def)
  show ne: "line b \<noteq> []" if "start b \<noteq> []"
    using that hd_dropWhile [of is_eol b] by (cases "start b") (simp_all add: line_def start_def)
  show "fst (lines_of b) = []" if "length (line b) = length (start b)"
  proof -
    have "start b = line b" using that part by (metis append_eq_append_conv append_Nil2)
    then have "lines_of b = ([], line b)" using feed_line [OF plain, of "[]" "[]"] same by (simp add: lines_of_def)
    then show ?thesis by simp
  qed
  assume a: "start b \<noteq> []" "length (line b) \<noteq> length (start b)"
  then have "?rest \<noteq> []" using part by (metis append_Nil2)
  then obtain e r where er: "?rest = e # r" "is_eol e" using hd_dropWhile [of "\<lambda>b. \<not> is_eol b" "start b"] by (cases ?rest) auto
  have "drop (length (line b)) (start b) = e # r" using part er(1) by (metis append_eq_conv_conj)
  then show "lines_of b = (line b # fst (lines_of (drop (length (line b)) (start b))), snd (lines_of (drop (length (line b)) (start b))))"
    using lines_of_line [OF plain ne [OF a(1)] er(2), of r] part er(1) same by simp
qed

text \<open>The search for the ends of a line in the buffer takes the first complete line, if it fits.\<close>

lemma next_line_takes:
  assumes "next_line M c = (res, c')"
  shows "case res of
      None \<Rightarrow> lines_of (cn_Buffer c') = lines_of (cn_Buffer c) \<and> length (cn_Buffer c') \<le> length (cn_Buffer c) \<and>
        (cn_State c = ONLINE \<longrightarrow> fst (lines_of (cn_Buffer c)) \<noteq> [] \<longrightarrow> M - 1 < length (hd (fst (lines_of (cn_Buffer c)))))
    | Some l \<Rightarrow> cn_State c = ONLINE \<and> length (cn_Buffer c') < length (cn_Buffer c) \<and>
        lines_of (cn_Buffer c) = (l # fst (lines_of (cn_Buffer c')), snd (lines_of (cn_Buffer c')))"
    and "cn_State c' = cn_State c" "cn_PeerAddr c' = cn_PeerAddr c" "cn_Socket c' = cn_Socket c"
proof -
  let ?b = "cn_Buffer c"
  define start where "start = dropWhile is_eol ?b"
  define line where "line = takeWhile (\<lambda>b. \<not> is_eol b) start"
  note first = first_line [of ?b, folded start_def, folded line_def]
  have same: "lines_of start = lines_of ?b" by (simp add: start_def lines_of_skip)
  have le: "length start \<le> length ?b" by (simp add: start_def length_dropWhile_le)
  have eq: "next_line M c = (if cn_State c \<noteq> ONLINE \<or> ?b = [] then (None, c)
      else let c = detect_line_ending ?b c
        in if start = [] then (None, c\<lparr>cn_Buffer := []\<rparr>)
           else if length line = length start \<or> M - 1 < length line then (None, c\<lparr>cn_Buffer := start\<rparr>)
           else (Some line, c\<lparr>cn_Buffer := drop (length line) start\<rparr>))"
    by (simp add: next_line_def start_def line_def Let_def)
  have empty: "lines_of [] = ([], [])" by (simp add: lines_of_def)
  show "cn_State c' = cn_State c" "cn_PeerAddr c' = cn_PeerAddr c" "cn_Socket c' = cn_Socket c"
    using assms unfolding eq by (auto simp: Let_def split: if_splits)
  have shorter: "length (drop (length line) start) < length ?b" if "start \<noteq> []"
  proof -
    have "0 < length line" "0 < length start" using first(1) that by simp_all
    then have "length start - length line < length start" by (rule diff_less)
    then show ?thesis using le by (simp only: length_drop less_le_trans)
  qed
  have none: "lines_of ?b = ([], [])" if "start = []" using same that empty by simp
  have long: "M - 1 < length (hd (fst (lines_of ?b)))"
    if "start \<noteq> []" "length line = length start \<or> M - 1 < length line" "fst (lines_of ?b) \<noteq> []"
    using that first(2,3) by (cases "length line = length start") auto
  show "case res of
      None \<Rightarrow> lines_of (cn_Buffer c') = lines_of (cn_Buffer c) \<and> length (cn_Buffer c') \<le> length (cn_Buffer c) \<and>
        (cn_State c = ONLINE \<longrightarrow> fst (lines_of (cn_Buffer c)) \<noteq> [] \<longrightarrow> M - 1 < length (hd (fst (lines_of (cn_Buffer c)))))
    | Some l \<Rightarrow> cn_State c = ONLINE \<and> length (cn_Buffer c') < length (cn_Buffer c) \<and>
        lines_of (cn_Buffer c) = (l # fst (lines_of (cn_Buffer c')), snd (lines_of (cn_Buffer c')))"
    using assms same le none empty shorter long first(3) unfolding eq by (auto simp: Let_def split: if_splits)
qed

text \<open>What is read of the lines: control characters are blanked, and those that are not UTF-8 left out.\<close>

definition read_lines :: "u8 list list \<Rightarrow> u8 list list" where
  "read_lines ls = filter str_utf8_check (map (str_sanitize_cc \<circ> c_string) ls)"

lemma cn_Recv_takes:
  assumes "cn_Recv M c = (res, c')"
  shows "read_lines (fst (lines_of (cn_Buffer c @ bs))) =
      (case res of Some l \<Rightarrow> [l] | None \<Rightarrow> []) @ read_lines (fst (lines_of (cn_Buffer c' @ bs)))"
proof -
  obtain raw c1 where n: "next_line M c = (raw, c1)" by fastforce
  show ?thesis
  proof (cases raw)
    case None
    then show ?thesis using assms n next_line_takes(1) [OF n] by (auto simp: cn_Recv_def lines_of_append)
  next
    case (Some l)
    then have b: "lines_of (cn_Buffer c) = (l # fst (lines_of (cn_Buffer c1)), snd (lines_of (cn_Buffer c1)))"
      using next_line_takes(1) [OF n] by simp
    have "fst (lines_of (cn_Buffer c @ bs)) = l # fst (lines_of (cn_Buffer c1 @ bs))"
      using feed_after [of "[l]" "fst (lines_of (cn_Buffer c1))" "snd (lines_of (cn_Buffer c1))" bs] b
      by (simp add: lines_of_append)
    then show ?thesis using assms n Some by (auto simp: cn_Recv_def read_lines_def Let_def)
  qed
qed

text \<open>Pieces that arrive, and calls of \<open>Recv\<close>, in any order: the lines that were read and the bytes that came in.\<close>

datatype wire_op = Arrive tcp_recv | Take

definition came_in :: "tcp_recv \<Rightarrow> CConsoleNetConnection \<Rightarrow> u8 list" where
  "came_in r c = drop (length (cn_Buffer c)) (cn_Buffer (cn_Update r c))"

fun wire_run :: "nat \<Rightarrow> wire_op list \<Rightarrow> CConsoleNetConnection \<Rightarrow> u8 list list \<times> u8 list \<times> CConsoleNetConnection" where
  "wire_run M [] c = ([], [], c)"
| "wire_run M (Arrive r # ops) c = (let (ls, bs, c') = wire_run M ops (cn_Update r c) in (ls, came_in r c @ bs, c'))"
| "wire_run M (Take # ops) c =
     (let (res, c1) = cn_Recv M c; (ls, bs, c') = wire_run M ops c1 in ((case res of Some l \<Rightarrow> [l] | None \<Rightarrow> []) @ ls, bs, c'))"

lemma cn_Update_appends: "cn_Buffer (cn_Update r c) = cn_Buffer c @ came_in r c"
  by (auto simp: came_in_def cn_Update_def split: tcp_recv.split)

lemma wire_run_lines:
  "wire_run M ops c = (ls, bs, c') \<Longrightarrow>
    ls @ read_lines (fst (lines_of (cn_Buffer c'))) = read_lines (fst (lines_of (cn_Buffer c @ bs)))"
proof (induction ops arbitrary: c ls bs c')
  case (Cons op ops)
  show ?case
  proof (cases op)
    case (Arrive r)
    obtain ls1 bs1 c1 where w: "wire_run M ops (cn_Update r c) = (ls1, bs1, c1)" by (rule prod_cases3)
    then show ?thesis using Cons.IH [OF w] Cons.prems Arrive by (auto simp: cn_Update_appends)
  next
    case Take
    obtain res c1 where r: "cn_Recv M c = (res, c1)" by fastforce
    obtain ls1 bs1 c2 where w: "wire_run M ops c1 = (ls1, bs1, c2)" by (rule prod_cases3)
    show ?thesis using Cons.IH [OF w] cn_Recv_takes [OF r, of bs1] Cons.prems Take r w by auto
  qed
qed simp

text \<open>
  C24: However a stream is cut into pieces, and whenever lines are asked for, the lines that are read are
  those of the stream, in order, with what is still to be read of the buffer; once a call finds no line in
  a buffer whose lines fit, none is left.
\<close>

theorem console_reads_lines:
  assumes "cn_Buffer c = []" "wire_run M ops c = (ls, bs, c')"
  shows "ls @ read_lines (fst (lines_of (cn_Buffer c'))) = read_lines (fst (lines_of bs)) \<and>
    (cn_State c' = ONLINE \<and> (\<forall>l \<in> set (fst (lines_of (cn_Buffer c'))). length l < M) \<and> fst (next_line M c') = None
      \<longrightarrow> ls = read_lines (fst (lines_of bs)))"
proof (intro conjI impI)
  show *: "ls @ read_lines (fst (lines_of (cn_Buffer c'))) = read_lines (fst (lines_of bs))"
    using wire_run_lines [OF assms(2)] assms(1) by simp
  assume t: "cn_State c' = ONLINE \<and> (\<forall>l \<in> set (fst (lines_of (cn_Buffer c'))). length l < M) \<and> fst (next_line M c') = None"
  then obtain d where d: "next_line M c' = (None, d)" by (cases "next_line M c'") simp
  have "fst (lines_of (cn_Buffer c')) = []"
  proof (rule ccontr)
    assume ne: "fst (lines_of (cn_Buffer c')) \<noteq> []"
    then have "M - 1 < length (hd (fst (lines_of (cn_Buffer c'))))" using next_line_takes(1) [OF d] t by simp
    moreover have "length (hd (fst (lines_of (cn_Buffer c')))) < M" using ne t by simp
    ultimately show False by simp
  qed
  then show "ls = read_lines (fst (lines_of bs))" using * by (simp add: read_lines_def)
qed

definition sample_wire :: CConsoleNetConnection where
  "sample_wire = snd (cn_Init 3 zero_addr True
     \<lparr>cn_State = OFFLINE, cn_PeerAddr = zero_addr, cn_Socket = 0, cn_Buffer = [], cn_ErrorString = [], cn_LineEndingDetected = False,
       cn_LineEnding = [10, 0, 0]\<rparr>)"

definition sample_ops :: "wire_op list" where
  "sample_ops = [Arrive (Received [104, 105, 13]), Arrive (Received [10, 111]), Take, Take, Arrive Would_block, Arrive (Received [107, 10]), Take]"

lemma sample_lines: "str_utf8_check [104, 105]" "str_utf8_check [111, 107]"
  by (simp_all add: str_utf8_check.simps Let_def)

lemma sample_wire_run: "\<exists>c'. wire_run 1399 sample_ops sample_wire = ([[104, 105], [111, 107]], [104, 105, 13, 10, 111, 107, 10], c') \<and>
    cn_State c' = ONLINE \<and> cn_Buffer c' = [10]"
  by (simp add: sample_ops_def sample_wire_def cn_Init_def cn_Reset_def cn_Update_def came_in_def cn_Recv_def next_line_def is_eol_def
      detect_line_ending_def str_sanitize_cc_def c_string_def Let_def sample_lines)

theorem console_reads_lines_witness:
  "[[104, 105], [111, 107]] = read_lines (fst (lines_of [104, 105, 13, 10, 111, 107, 10]))"
proof -
  obtain c' where c: "wire_run 1399 sample_ops sample_wire = ([[104, 105], [111, 107]], [104, 105, 13, 10, 111, 107, 10], c')"
    "cn_State c' = ONLINE" "cn_Buffer c' = [10]" using sample_wire_run by blast
  have b: "fst (lines_of [10]) = []" "fst (next_line 1399 c') = None"
    using c(2,3) by (simp_all add: lines_of_def next_line_def is_eol_def Let_def)
  have "cn_Buffer sample_wire = []" by (simp add: sample_wire_def cn_Init_def cn_Reset_def)
  from console_reads_lines [OF this c(1)] show ?thesis using c(2,3) b by simp
qed

end
