(* ===== verification/ServerPackets.thy ===== *)
theory ServerPackets
  imports ServerAdmin
begin

text \<open>
  The messages of the clients (\<open>ProcessClientPacket\<close> in \<^verbatim>\<open>src/src/engine/server/server.cpp\<close>), one
  definition for each system message. A message that is refused leaves the server as it is, beside what is
  said.
\<close>

section \<open>Passwords\<close>

text \<open>The first part of a string before a colon and what follows it, for a buffer of \<open>buffer_size\<close> bytes.\<close>

definition str_token_get :: "u8 \<Rightarrow> u8 list \<Rightarrow> (u8 list \<times> nat) option" where
  "str_token_get delim str =
     (let len = length (takeWhile (\<lambda>b. b = delim) str);
          str = (if len > 1 then drop 1 str else drop len str)
      in if str = [] then None else Some (str, length (takeWhile (\<lambda>b. b \<noteq> delim) str)))"

definition str_next_token :: "u8 \<Rightarrow> nat \<Rightarrow> u8 list \<Rightarrow> (u8 list \<times> u8 list) option" where
  "str_next_token delim buffer_size str =
     (case str_token_get delim str of
        None \<Rightarrow> None
      | Some (tok, len) \<Rightarrow>
          let len = (if buffer_size > len then len else buffer_size - 1)
          in Some (take len tok, drop len tok))"

text \<open>
  The code skips a byte behind the name even if no colon follows, but the end of the string: it then reads
  the string that happens to follow in memory, \<open>Behind\<close>.
\<close>

definition inner_password :: "u8 list \<Rightarrow> u8 list \<Rightarrow> u8 list" where
  "inner_password rest Behind = (if rest = [] then Behind else drop 1 rest)"

definition CheckReservedSlotAuth :: "srv_env \<Rightarrow> u8 list \<Rightarrow> u8 list \<Rightarrow> CServer \<Rightarrow> bool" where
  "CheckReservedSlotAuth e pPassword Behind s =
     (if ev_SvReservedSlotsPass e \<noteq> [] \<and> ev_SvReservedSlotsPass e = pPassword then True
      else if ev_SvReservedSlotsAuthLevel e \<noteq> 4
      then (case str_next_token 58 256 pPassword of
              None \<Rightarrow> False
            | Some (aName, rest) \<Rightarrow>
                let Slot = FindKey (s_Auth s) aName
                in CheckKey (ev_Md5 e) (s_Auth s) Slot (inner_password rest Behind) \<and>
                   KeyLevel (s_Auth s) Slot \<ge> ev_SvReservedSlotsAuthLevel e)
      else False)"

section \<open>Connecting\<close>

definition on_clientver :: "bool \<Rightarrow> unpacker \<Rightarrow> nat \<Rightarrow> CServer \<Rightarrow> CServer" where
  "on_clientver Vital u i s =
     (if Vital \<and> cc_State (client s i) = STATE_PREAUTH
      then
        let (pConnectionId, u) = GetRaw u 16;
            (DDNetVersion, u) = GetInt u;
            (pDDNetVersionStr, u) = GetString u SANITIZE_CC
        in if m_UError u \<or> sint DDNetVersion < 0 then s
           else set_client i (\<lambda>c. c\<lparr>cc_ConnectionId := the pConnectionId, cc_DDNetVersion := sint DDNetVersion,
                  cc_DDNetVersionStr := str_copy pDDNetVersionStr 64, cc_DDNetVersionSettled := True,
                  cc_GotDDNetVersionPacket := True, cc_State := STATE_AUTH\<rparr>) s
      else s)"

definition wrong_version :: "srv_env \<Rightarrow> u8 list \<Rightarrow> u8 list" where
  "wrong_version e pVersion = str_copy (bytes_of (''Wrong version. Server is running '' @ [CHR 0x27]) @ ev_NetVersion e @
     bytes_of ([CHR 0x27] @ '' and client '' @ [CHR 0x27]) @ pVersion @ bytes_of [CHR 0x27]) 256"

definition SIXUP_NETVERSION :: "u8 list" where
  "SIXUP_NETVERSION = bytes_of ''0.7 802f1be60a05665f''"

definition on_info :: "srv_env \<Rightarrow> bool \<Rightarrow> u8 list \<Rightarrow> unpacker \<Rightarrow> nat \<Rightarrow> CServer \<Rightarrow> CServer option" where
  "on_info e Vital Stale u i s =
     (if \<not> (Vital \<and> (cc_State (client s i) = STATE_PREAUTH \<or> cc_State (client s i) = STATE_AUTH)) then Some s
      else
        let (pVersion, u) = GetString u SANITIZE_CC
        in if m_UError u then Some s
           else if pVersion \<noteq> ev_NetVersion e \<and> pVersion \<noteq> SIXUP_NETVERSION
           then server_drop i (Reason (wrong_version e pVersion)) s
           else
             let (pPassword, u) = GetString u SANITIZE_CC
             in if m_UError u then Some s
                else if ev_Password e \<noteq> [] \<and> ev_Password e \<noteq> pPassword
                then server_drop i (Reason (bytes_of ''Wrong password'')) s
                else if int i \<ge> int (sv_MaxClients (s_Net s)) - ev_SvReservedSlots e \<and>
                  \<not> CheckReservedSlotAuth e pPassword (takeWhile (\<lambda>b. b \<noteq> 0) (Remaining u @ Stale)) s
                then server_drop i (Reason (bytes_of ''This server is full'')) s
                else do {
                  let s = set_client i (\<lambda>c. c\<lparr>cc_State := STATE_CONNECTING\<rparr>) s;
                  s \<leftarrow> SendRconType e (NumNonDefaultKeys (s_Auth s) > 0) (int i) s;
                  s \<leftarrow> SendCapabilities e i s;
                  SendMap e i s
                })"

section \<open>The map, and entering the game\<close>

fun send_map_chunks :: "srv_env \<Rightarrow> nat \<Rightarrow> int list \<Rightarrow> CServer \<Rightarrow> CServer option" where
  "send_map_chunks e i [] s = Some s"
| "send_map_chunks e i (k # ks) s = Option.bind (SendMapData e i (word_of_int k) s) (send_map_chunks e i ks)"

definition next_map_chunk :: "int \<Rightarrow> CClient \<Rightarrow> CClient" where
  "next_map_chunk n c = c\<lparr>cc_NextMapChunk := cc_NextMapChunk c + n\<rparr>"

definition on_request_map_data :: "srv_env \<Rightarrow> bool \<Rightarrow> unpacker \<Rightarrow> nat \<Rightarrow> CServer \<Rightarrow> CServer option" where
  "on_request_map_data e Vital u i s =
     (let Next = cc_NextMapChunk (client s i); Window = int (ev_SvMapWindow e)
      in if \<not> Vital \<or> cc_State (client s i) < STATE_CONNECTING then Some s
         else if IsSixup s i
         then map_option (set_client i (next_map_chunk Window)) (send_map_chunks e i [Next..Next + Window - 1] s)
         else
           let (Chunk, u) = GetInt u
           in if m_UError u then Some s
              else if sint Chunk \<noteq> Next \<or> \<not> ev_SvFastDownload e then SendMapData e i Chunk s
              else do {
                s \<leftarrow> (if Chunk = 0 then send_map_chunks e i [0..Window - 1] s else Some s);
                s \<leftarrow> SendMapData e i (word_of_int (Window + Next)) s;
                Some (set_client i (next_map_chunk 1) s)
              })"

definition on_ready :: "srv_env \<Rightarrow> bool \<Rightarrow> nat \<Rightarrow> CServer \<Rightarrow> CServer option" where
  "on_ready e Vital i s =
     SendConnectionReady e i
       (if Vital \<and> cc_State (client s i) = STATE_CONNECTING
        then tell_game (OnClientConnected i (cc_HasPersistentData (client s i)))
               (set_client i (\<lambda>c. c\<lparr>cc_HasPersistentData := False, cc_State := STATE_READY\<rparr>) s)
        else s)"

definition SERVERBROWSE_INFO_EXTENDED :: "u8 list" where
  "SERVERBROWSE_INFO_EXTENDED = [255, 255, 255, 255] @ bytes_of ''iext''"

definition SERVERBROWSE_INFO_EXTENDED_MORE :: "u8 list" where
  "SERVERBROWSE_INFO_EXTENDED_MORE = [255, 255, 255, 255] @ bytes_of ''iex+''"

text \<open>The information on the server in its extended form, in one packet for each cached part.\<close>

fun send_info_parts :: "NETADDR \<Rightarrow> int \<Rightarrow> u8 list \<Rightarrow> u8 list list \<Rightarrow> CServer \<Rightarrow> CServer option" where
  "send_info_parts addr Token header [] s = Some s"
| "send_info_parts addr Token header (piece # pieces) s =
     (let p = AddRaw (AddString (AddRaw new_packer header) (bytes_of (decimal Token)) 0 True) piece;
          chunk = \<lparr>ch_ClientId = -1, ch_Address = addr, ch_Flags = NETSENDFLAG_CONNLESS,
                   ch_DataSize = length (m_Written p), ch_pData = 0, ch_aExtraData = []\<rparr>
      in do {
        (_, sv, n) \<leftarrow> Server_Send chunk (m_Written p) (s_Net s) (s_World s);
        send_info_parts addr Token SERVERBROWSE_INFO_EXTENDED_MORE pieces (s\<lparr>s_Net := sv, s_World := n\<rparr>)
      })"

definition on_entergame :: "srv_env \<Rightarrow> bool \<Rightarrow> nat \<Rightarrow> CServer \<Rightarrow> CServer option" where
  "on_entergame e Vital i s =
     (if Vital \<and> cc_State (client s i) = STATE_READY \<and> ev_IsClientReady e (s_Game s) i
      then do {
        let s = set_client i (\<lambda>c. c\<lparr>cc_State := STATE_INGAME\<rparr>) s;
        s \<leftarrow> (if \<not> IsSixup s i
              then send_info_parts (client_addr s i) (-1) SERVERBROWSE_INFO_EXTENDED (ev_ServerInfo e) s
              else send_sys e (Msg_AddRaw (ev_SixupServerInfo e) (sevens_packer NETMSG7_SERVERINFO)) (MSGFLAG_VITAL OR MSGFLAG_FLUSH) i s);
        Some (tell_game (OnClientEnter i) s)
      }
      else Some s)"

section \<open>Input\<close>

fun read_ints :: "nat \<Rightarrow> unpacker \<Rightarrow> i32 list \<times> unpacker" where
  "read_ints 0 u = ([], u)"
| "read_ints (Suc n) u = (let (x, u) = GetInt u; (xs, u) = read_ints n u in (x # xs, u))"

definition TickStartTime :: "CServer \<Rightarrow> int \<Rightarrow> int" where
  "TickStartTime s Tick = s_GameStartTime s + (time_freq * Tick) div 50"

text \<open>What an acknowledged snapshot tells about the latency.\<close>

definition set_latency :: "nat \<Rightarrow> CServer \<Rightarrow> CServer" where
  "set_latency i s =
     (case Storage_Get (cc_LastAckedSnapshot (client s i)) (cc_Snapshots (client s i)) of
        None \<Rightarrow> s
      | Some h \<Rightarrow>
          let (t, s) = server_time s
          in set_client i (\<lambda>c. c\<lparr>cc_Latency := sint (word_of_int (((t - ho_Tagtime h) * 1000) sdiv time_freq) :: i32)\<rparr>) s)"

definition report_timing :: "srv_env \<Rightarrow> int \<Rightarrow> nat \<Rightarrow> CServer \<Rightarrow> CServer option" where
  "report_timing e IntendedTick i s =
     (if IntendedTick > cc_LastInputTick (client s i)
      then
        let (t, s) = server_time s;
            TimeLeft = (TickStartTime s IntendedTick - t) sdiv (time_freq div 1000)
        in send_sys e (Msg_AddInt TimeLeft (Msg_AddInt IntendedTick (sys_packer NETMSG_INPUTTIMING))) 0 i s
      else Some s)"

definition set_input :: "nat \<Rightarrow> (CInput \<Rightarrow> CInput) \<Rightarrow> CClient \<Rightarrow> CClient" where
  "set_input k f c = c\<lparr>cc_aInputs := (cc_aInputs c)[k := f (cc_aInputs c ! k)]\<rparr>"

text \<open>The input is written in place; it only counts if all of it was there.\<close>

definition store_input :: "srv_env \<Rightarrow> int \<Rightarrow> int \<Rightarrow> unpacker \<Rightarrow> nat \<Rightarrow> CServer \<Rightarrow> CServer" where
  "store_input e IntendedTick Size u i s =
     (let k = cc_CurrentInput (client s i);
          tick = (if IntendedTick \<le> s_Tick s then s_Tick s + 1 else IntendedTick);
          (xs, u) = read_ints (nat (Size sdiv 4)) u;
          s = set_client i (set_input k (\<lambda>input. input\<lparr>in_GameTick := tick, in_aData := xs @ drop (length xs) (in_aData input)\<rparr>)) s
      in if m_UError u then s
         else
           let s = set_client i (set_input k (\<lambda>input. input\<lparr>in_aData := ev_PrepareInput e i (in_aData input)\<rparr>)) s;
               s = set_client i (\<lambda>c. c\<lparr>cc_LatestInput := in_aData (cc_aInputs c ! k), cc_CurrentInput := (k + 1) mod 200\<rparr>) s
           in if cc_State (client s i) = STATE_INGAME
              then tell_game (OnClientDirectInput i (cc_LatestInput (client s i))) s else s)"

definition on_input :: "srv_env \<Rightarrow> unpacker \<Rightarrow> nat \<Rightarrow> CServer \<Rightarrow> CServer option" where
  "on_input e u i s =
     (let (LastAckedSnapshot, u) = GetInt u;
          (IntendedTick, u) = GetInt u;
          (Size, u) = GetInt u
      in if m_UError u \<or> sint Size sdiv 4 > int MAX_INPUT_SIZE \<or> sint IntendedTick < MIN_TICK \<or> sint IntendedTick \<ge> MAX_TICK
         then Some s
         else do {
           let s = set_client i (\<lambda>c. c\<lparr>cc_LastAckedSnapshot := sint LastAckedSnapshot,
                     cc_SnapRate := (if sint LastAckedSnapshot > 0 then SNAPRATE_FULL else cc_SnapRate c)\<rparr>) s;
           s \<leftarrow> report_timing e (sint IntendedTick) i (set_latency i s);
           let s = set_client i (\<lambda>c. c\<lparr>cc_LastInputTick := sint IntendedTick\<rparr>) s;
           Some (store_input e (sint IntendedTick) (sint Size) u i s)
         })"

section \<open>The remote console\<close>

definition on_rcon_cmd :: "srv_env \<Rightarrow> bool \<Rightarrow> unpacker \<Rightarrow> nat \<Rightarrow> CServer \<Rightarrow> CServer option" where
  "on_rcon_cmd e Vital u i s =
     (let (pCmd, u) = GetString u SANITIZE
      in if m_UError u then Some s
         else if pCmd = bytes_of ''crashmeplx''
         then Some (if ev_PlayerExists e (s_Game s) i \<and> cc_DDNetVersion (client s i) < VERSION_DDNET_OLD
                    then set_client i (\<lambda>c. c\<lparr>cc_DDNetVersion := VERSION_DDNET_OLD\<rparr>) s else s)
         else if Vital \<and> cc_Authed (client s i) \<noteq> AUTHED_NO \<and> ev_PlayerExists e (s_Game s) i
         then map_option (\<lambda>s. s\<lparr>s_RconClientId := RCON_CID_SERV, s_RconAuthLevel := AUTHED_ADMIN\<rparr>)
                (ev_Execute e pCmd (ConsoleAccessLevel (client s i)) i
                  (s\<lparr>s_RconClientId := int i, s_RconAuthLevel := cc_Authed (client s i)\<rparr>))
         else Some s)"

text \<open>The key a login is for, and its level, \<open>-1\<close> if there is none.\<close>

definition login_key :: "srv_env \<Rightarrow> CAuthManager \<Rightarrow> u8 list \<Rightarrow> u8 list \<Rightarrow> (int \<times> int) option" where
  "login_key e am pName pPw =
     (if pName = []
      then do {
        Admin \<leftarrow> DefaultKey am AUTHED_ADMIN;
        Mod \<leftarrow> DefaultKey am AUTHED_MOD;
        Helper \<leftarrow> DefaultKey am AUTHED_HELPER;
        Some (if CheckKey (ev_Md5 e) am Admin pPw then (AUTHED_ADMIN, Admin)
              else if CheckKey (ev_Md5 e) am Mod pPw then (AUTHED_MOD, Mod)
              else if CheckKey (ev_Md5 e) am Helper pPw then (AUTHED_HELPER, Helper)
              else (-1, Helper))
      }
      else
        let KeySlot = FindKey am pName
        in Some (if CheckKey (ev_Md5 e) am KeySlot pPw then KeyLevel am KeySlot else -1, KeySlot))"

definition login_text :: "int \<Rightarrow> u8 list option" where
  "login_text AuthLevel =
     (if AuthLevel = AUTHED_ADMIN then Some (bytes_of ''Admin authentication successful. Full remote console access granted.'')
      else if AuthLevel = AUTHED_MOD then Some (bytes_of ''Moderator authentication successful. Limited remote console access granted.'')
      else if AuthLevel = AUTHED_HELPER then Some (bytes_of ''Helper authentication successful. Limited remote console access granted.'')
      else None)"

definition login_accepted :: "srv_env \<Rightarrow> int \<Rightarrow> int \<Rightarrow> unpacker \<Rightarrow> nat \<Rightarrow> CServer \<Rightarrow> CServer option" where
  "login_accepted e AuthLevel KeySlot u i s =
     do {
       s \<leftarrow> (if \<not> IsSixup s i
             then send_sys e (Msg_AddInt 1 (Msg_AddInt 1 (sys_packer NETMSG_RCON_AUTH_STATUS))) MSGFLAG_VITAL i s
             else send_sys e (sevens_packer NETMSG7_RCON_AUTH_ON) MSGFLAG_VITAL i s);
       let s = set_client i (\<lambda>c. c\<lparr>cc_Authed := AuthLevel, cc_AuthKey := KeySlot\<rparr>) s;
       let (SendRconCmds, u) = (if IsSixup s i then (1, u) else GetInt u);
       s \<leftarrow> (if \<not> m_UError u \<and> SendRconCmds \<noteq> 0
             then do {
               let s = set_client i (\<lambda>c. c\<lparr>cc_RconCmdToSend := FirstCommandInfo e (ConsoleAccessLevel c)\<rparr>) s;
               s \<leftarrow> SendRconCmdGroupStart e i s;
               if cc_RconCmdToSend (client s i) = None then SendRconCmdGroupEnd e i s else Some s
             }
             else Some s);
       s \<leftarrow> (case login_text AuthLevel of Some line \<Rightarrow> SendRconLine e line i s | None \<Rightarrow> Some s);
       Some (tell_game (OnSetAuthed i AuthLevel) s)
     }"

definition login_failed :: "srv_env \<Rightarrow> nat \<Rightarrow> CServer \<Rightarrow> CServer option" where
  "login_failed e i s =
     (if ev_SvRconMaxTries e \<noteq> 0
      then do {
        let s = set_client i (\<lambda>c. c\<lparr>cc_AuthTries := cc_AuthTries c + 1\<rparr>) s;
        let Tries = cc_AuthTries (client s i);
        s \<leftarrow> SendRconLine e (bytes_of (''Wrong password '' @ decimal Tries @ ''/'' @ decimal (ev_SvRconMaxTries e) @ ''.'')) i s;
        if Tries \<ge> ev_SvRconMaxTries e
        then if ev_SvRconBantime e = 0
             then server_drop i (Reason (bytes_of ''Too many remote console authentication tries'')) s
             else map_option snd (server_BanAddr e (client_addr s i) (ev_SvRconBantime e * 60)
                    (bytes_of ''Too many remote console authentication tries'') False s)
        else Some s
      }
      else SendRconLine e (bytes_of ''Wrong password.'') i s)"

definition on_rcon_auth :: "srv_env \<Rightarrow> bool \<Rightarrow> unpacker \<Rightarrow> nat \<Rightarrow> CServer \<Rightarrow> CServer option" where
  "on_rcon_auth e Vital u i s =
     (if \<not> Vital then Some s
      else
        let (pName, u) = (if \<not> IsSixup s i then GetString u SANITIZE_CC else ([], u));
            (pPw, u) = GetString u SANITIZE_CC
        in if m_UError u then Some s
           else do {
             (AuthLevel, KeySlot) \<leftarrow> login_key e (s_Auth s) pName pPw;
             if AuthLevel \<noteq> -1
             then if cc_Authed (client s i) \<noteq> AuthLevel then login_accepted e AuthLevel KeySlot u i s else Some s
             else login_failed e i s
           })"

section \<open>All messages\<close>

definition on_ping :: "srv_env \<Rightarrow> bool \<Rightarrow> CMsgPacker \<Rightarrow> nat \<Rightarrow> CServer \<Rightarrow> CServer option" where
  "on_ping e Vital Msg = send_sys e Msg (MSGFLAG_FLUSH OR (if Vital then MSGFLAG_VITAL else 0))"

definition on_pingex :: "srv_env \<Rightarrow> bool \<Rightarrow> unpacker \<Rightarrow> nat \<Rightarrow> CServer \<Rightarrow> CServer option" where
  "on_pingex e Vital u i s =
     (let (pId, u) = GetRaw u 16
      in if m_UError u then Some s else on_ping e Vital (Msg_AddRaw (the pId) (sys_packer NETMSG_PONGEX)) i s)"

definition system_message :: "srv_env \<Rightarrow> bool \<Rightarrow> u8 list \<Rightarrow> int \<Rightarrow> unpacker \<Rightarrow> nat \<Rightarrow> CServer \<Rightarrow> CServer option" where
  "system_message e Vital Stale Msg u i s =
     (if Msg = NETMSG_CLIENTVER then Some (on_clientver Vital u i s)
      else if Msg = NETMSG_INFO then on_info e Vital Stale u i s
      else if Msg = NETMSG_REQUEST_MAP_DATA then on_request_map_data e Vital u i s
      else if Msg = NETMSG_READY then on_ready e Vital i s
      else if Msg = NETMSG_ENTERGAME then on_entergame e Vital i s
      else if Msg = NETMSG_INPUT then on_input e u i s
      else if Msg = NETMSG_RCON_CMD then on_rcon_cmd e Vital u i s
      else if Msg = NETMSG_RCON_AUTH then on_rcon_auth e Vital u i s
      else if Msg = NETMSG_PING then on_ping e Vital (sys_packer NETMSG_PING_REPLY) i s
      else if Msg = NETMSG_PINGEX then on_pingex e Vital u i s
      else Some s)"

text \<open>A packet of the client \<open>i\<close>: its data, the bytes behind it in memory, and whether it came in a vital chunk.\<close>

definition process_message :: "srv_env \<Rightarrow> bool \<Rightarrow> u8 list \<Rightarrow> unpacked_id \<Rightarrow> int \<Rightarrow> bool \<Rightarrow> unpacker \<Rightarrow> nat \<Rightarrow> CServer \<Rightarrow> CServer option" where
  "process_message e Vital Stale Result Msg Sys u i s =
     do {
       s \<leftarrow> (case Result of Unpackmessage_answer _ _ Packer \<Rightarrow> send_sys e Packer MSGFLAG_VITAL i s | _ \<Rightarrow> Some s);
       if Sys then system_message e Vital Stale Msg u i s
       else if Vital \<and> cc_State (client s i) \<ge> STATE_READY then Some (tell_game (OnMessage Msg u i) s)
       else Some s
     }"

definition ProcessClientPacket :: "srv_env \<Rightarrow> bool \<Rightarrow> NETADDR \<Rightarrow> u8 list \<Rightarrow> u8 list \<Rightarrow> nat \<Rightarrow> CServer \<Rightarrow> CServer option" where
  "ProcessClientPacket e Vital Address Data Stale i s =
     (let (Result, u) = UnpackMessageId (ev_Uuids e) (Unpacker_Reset Data);
          go = (\<lambda>Msg Sys.
            let Msg = (if cc_Sixup (client s i) then MsgFromSixup Msg Sys else Msg)
            in if cc_Sixup (client s i) \<and> Msg < 0 then Some s
               else if Msg \<noteq> NETMSG_REQUEST_MAP_DATA \<and> ev_Stressing e i (s_World s)
               then map_option snd (server_BanAddr e Address 600 (bytes_of ''Stressing network'') False s)
               else process_message e Vital Stale Result Msg Sys u i s)
      in case Result of
           Unpackmessage_error \<Rightarrow> Some s
         | Unpackmessage_ok Msg Sys \<Rightarrow> go Msg Sys
         | Unpackmessage_answer Msg Sys _ \<Rightarrow> go Msg Sys)"

end
