(* ===== verification/ServerInv.thy ===== *)
theory ServerInv
  imports ServerPackets
begin

text \<open>
  The engine as a state machine: what a step may change of the rights, the states and what the game is
  told, the invariant, and that every operation returns and keeps it.
\<close>

section \<open>Results\<close>

text \<open>An operation returns, and its result satisfies \<open>P\<close>.\<close>

definition returns :: "('a \<Rightarrow> bool) \<Rightarrow> 'a option \<Rightarrow> bool" where
  "returns P m \<longleftrightarrow> (\<exists>x. m = Some x \<and> P x)"

lemma returns_bind: "returns P (Option.bind m f) = returns (\<lambda>x. returns P (f x)) m"
  by (cases m) (simp_all add: returns_def)

lemma returns_map: "returns P (map_option g m) = returns (\<lambda>x. P (g x)) m"
  by (cases m) (simp_all add: returns_def)

lemma returns_value: "returns P (Some x) = P x" "returns P None = False"
  "returns P (if b then m else m') = (if b then returns P m else returns P m')"
  by (simp_all add: returns_def)

lemmas returns_rules = returns_value returns_bind returns_map

lemma returns_mono: "returns Q m \<Longrightarrow> (\<And>x. Q x \<Longrightarrow> P x) \<Longrightarrow> returns P m"
  by (auto simp: returns_def)

lemma returns_Some: "returns P m \<Longrightarrow> m = Some x \<Longrightarrow> P x"
  by (simp add: returns_def)

section \<open>The invariant\<close>

text \<open>What the engine relies on in the network server and the bans.\<close>

definition net_ok :: "int \<Rightarrow> CServer \<Rightarrow> bool" where
  "net_ok L s \<longleftrightarrow> sv_inv L (s_Net s) \<and> length (s_Clients s) = MAX_CLIENTS \<and> (\<exists>bs. netban_shows (s_Ban s) bs) \<and>
     (\<forall>i < MAX_CLIENTS. occupied s i \<longrightarrow> i < sv_MaxClients (s_Net s) \<and> valid_addr (client_addr s i))"

text \<open>
  A client without a key has no rights, a key is one of the manager, and who is not there has none; a default
  key is a key of the manager as well.
\<close>

definition key_ok :: "CAuthManager \<Rightarrow> CClient \<Rightarrow> bool" where
  "key_ok am c \<longleftrightarrow> (cc_AuthKey c = -1 \<or> is_slot am (cc_AuthKey c)) \<and> (cc_AuthKey c = -1 \<longrightarrow> cc_Authed c = AUTHED_NO) \<and>
     (cc_State c = STATE_EMPTY \<longrightarrow> cc_AuthKey c = -1)"

definition defaults_ok :: "CAuthManager \<Rightarrow> bool" where
  "defaults_ok am \<longleftrightarrow> length (am_Default am) = 3 \<and> (\<forall>d \<in> set (am_Default am). d = -1 \<or> is_slot am d)"

definition auth_ok :: "CServer \<Rightarrow> bool" where
  "auth_ok s \<longleftrightarrow> defaults_ok (s_Auth s) \<and> (\<forall>i < MAX_CLIENTS. key_ok (s_Auth s) (client s i))"

definition srv_inv :: "int \<Rightarrow> CServer \<Rightarrow> bool" where
  "srv_inv L s \<longleftrightarrow> net_ok L s \<and> auth_ok s"

section \<open>What a step may change\<close>

text \<open>The rights of a client: the level, and the identifier of the key.\<close>

definition login :: "CServer \<Rightarrow> nat \<Rightarrow> (int \<times> u8 list option) option" where
  "login s i = (if cc_Authed (client s i) = AUTHED_NO then None
     else Some (cc_Authed (client s i), KeyIdent (s_Auth s) (cc_AuthKey (client s i))))"

definition no_gain :: "CServer \<Rightarrow> CServer \<Rightarrow> bool" where
  "no_gain s s' \<longleftrightarrow> (\<forall>i < MAX_CLIENTS. login s' i = None \<or> login s' i = login s i)"

text \<open>No client gets past the password.\<close>

definition no_entry :: "CServer \<Rightarrow> CServer \<Rightarrow> bool" where
  "no_entry s s' \<longleftrightarrow> (\<forall>i < MAX_CLIENTS. cc_State (client s' i) \<ge> STATE_CONNECTING \<longrightarrow> cc_State (client s i) \<ge> STATE_CONNECTING)"

text \<open>
  How far a client is for the game, and how what it is told changes that. At a map change the game is shut
  down and made anew, and all its clients are away.
\<close>

datatype phase = Away | Joined | Playing

fun state_phase :: "client_state \<Rightarrow> phase" where
  "state_phase STATE_READY = Joined"
| "state_phase STATE_INGAME = Playing"
| "state_phase _ = Away"

definition phases :: "CServer \<Rightarrow> nat \<Rightarrow> phase" where
  "phases s i = (if i < MAX_CLIENTS then state_phase (cc_State (client s i)) else Away)"

fun told :: "game_event \<Rightarrow> (nat \<Rightarrow> phase) \<Rightarrow> (nat \<Rightarrow> phase) option" where
  "told (OnClientConnected i _) p = (if p i = Away then Some (p(i := Joined)) else None)"
| "told (OnClientEnter i) p = (if p i = Joined then Some (p(i := Playing)) else None)"
| "told (OnClientDrop i _) p = (if p i \<noteq> Away then Some (p(i := Away)) else None)"
| "told (OnMessage _ _ i) p = (if p i \<noteq> Away then Some p else None)"
| "told (OnClientDirectInput i _) p = (if p i = Playing then Some p else None)"
| "told (OnClientPredictedEarlyInput i _) p = (if p i = Playing then Some p else None)"
| "told (OnClientPredictedInput i _) p = (if p i = Playing then Some p else None)"
| "told Game_OnShutdown p = Some (\<lambda>_. Away)"
| "told _ p = Some p"

fun told_all :: "game_event list \<Rightarrow> (nat \<Rightarrow> phase) \<Rightarrow> (nat \<Rightarrow> phase) option" where
  "told_all [] p = Some p"
| "told_all (ev # evs) p = Option.bind (told ev p) (told_all evs)"

lemma told_all_append: "told_all (as @ bs) p = Option.bind (told_all as p) (told_all bs)"
  by (induction as arbitrary: p) (auto simp: bind_eq_Some_conv split: bind_splits)

definition in_order :: "CServer \<Rightarrow> CServer \<Rightarrow> bool" where
  "in_order s s' \<longleftrightarrow> (\<exists>evs. s_Game s' = s_Game s @ evs \<and> told_all evs (phases s) = Some (phases s'))"

text \<open>A step in which no client gains anything.\<close>

definition evolves :: "CServer \<Rightarrow> CServer \<Rightarrow> bool" where
  "evolves s s' \<longleftrightarrow> no_gain s s' \<and> no_entry s s' \<and> in_order s s'"

lemma in_order_trans: "in_order s s1 \<Longrightarrow> in_order s1 s2 \<Longrightarrow> in_order s s2"
  by (auto simp: in_order_def told_all_append)

lemma in_order_refl: "in_order s s"
  by (simp add: in_order_def)

lemma evolves_refl [simp]: "evolves s s"
  by (simp add: evolves_def no_gain_def no_entry_def in_order_refl)

lemma no_gain_trans: "no_gain s s1 \<Longrightarrow> no_gain s1 s2 \<Longrightarrow> no_gain s s2"
  unfolding no_gain_def by metis

lemma evolves_trans: "evolves s s1 \<Longrightarrow> evolves s1 s2 \<Longrightarrow> evolves s s2"
  using no_gain_trans in_order_trans unfolding evolves_def no_entry_def by blast

text \<open>A step that keeps the invariant and gives nobody anything.\<close>

definition fine :: "int \<Rightarrow> CServer \<Rightarrow> CServer \<Rightarrow> bool" where
  "fine L s s' \<longleftrightarrow> srv_inv L s' \<and> evolves s s'"

lemma fine_trans: "fine L s s1 \<Longrightarrow> fine L s1 s2 \<Longrightarrow> fine L s s2"
  using evolves_trans unfolding fine_def by blast

lemma fine_refl: "srv_inv L s \<Longrightarrow> fine L s s"
  by (simp add: fine_def)

lemma fine_then:
  assumes "returns (fine L s) m" "\<And>x. fine L s x \<Longrightarrow> returns (fine L x) (f x)"
  shows "returns (fine L s) (Option.bind m f)"
  unfolding returns_rules
  by (rule returns_mono [OF assms(1)], rule returns_mono [OF assms(2)]) (auto intro: fine_trans)

section \<open>Small changes\<close>

lemma set_client_fields [simp]:
  "s_Net (set_client i f s) = s_Net s" "s_World (set_client i f s) = s_World s" "s_Auth (set_client i f s) = s_Auth s"
  "s_Ban (set_client i f s) = s_Ban s" "s_Game (set_client i f s) = s_Game s" "s_Tick (set_client i f s) = s_Tick s"
  "length (s_Clients (set_client i f s)) = length (s_Clients s)" "client_addr (set_client i f s) = client_addr s"
  "s_RconClientId (set_client i f s) = s_RconClientId s" "s_RconAuthLevel (set_client i f s) = s_RconAuthLevel s"
  by (simp_all add: set_client_def client_addr_def fun_eq_iff)

lemma client_set_client:
  "j < length (s_Clients s) \<Longrightarrow> client (set_client i f s) j = (if j = i then f (client s i) else client s j)"
  by (auto simp: set_client_def client_def)

lemma tell_game_fields [simp]:
  "s_Net (tell_game ev s) = s_Net s" "s_World (tell_game ev s) = s_World s" "s_Auth (tell_game ev s) = s_Auth s"
  "s_Ban (tell_game ev s) = s_Ban s" "s_Clients (tell_game ev s) = s_Clients s" "client (tell_game ev s) = client s"
  "occupied (tell_game ev s) = occupied s" "client_addr (tell_game ev s) = client_addr s" "s_Game (tell_game ev s) = s_Game s @ [ev]"
  "s_RconClientId (tell_game ev s) = s_RconClientId s" "s_RconAuthLevel (tell_game ev s) = s_RconAuthLevel s" "s_Tick (tell_game ev s) = s_Tick s"
  by (simp_all add: tell_game_def client_def client_addr_def occupied_def fun_eq_iff)

lemma srv_inv_length: "srv_inv L s \<Longrightarrow> length (s_Clients s) = MAX_CLIENTS"
  by (simp add: srv_inv_def net_ok_def)

text \<open>A change of the client that leaves alone its state and its rights.\<close>

lemma set_client_plain:
  assumes "srv_inv L s" "i < MAX_CLIENTS" "cc_State (f (client s i)) = cc_State (client s i)"
    "cc_Authed (f (client s i)) = cc_Authed (client s i)" "cc_AuthKey (f (client s i)) = cc_AuthKey (client s i)"
  shows "fine L s (set_client i f s)"
proof -
  note len = srv_inv_length [OF assms(1)]
  have c: "cc_State (client (set_client i f s) j) = cc_State (client s j)" "cc_Authed (client (set_client i f s) j) = cc_Authed (client s j)"
    "cc_AuthKey (client (set_client i f s) j) = cc_AuthKey (client s j)" if "j < MAX_CLIENTS" for j
    using assms(2-5) that by (simp_all add: client_set_client len)
  have "phases (set_client i f s) = phases s" using c(1) by (auto simp: phases_def)
  then have "in_order s (set_client i f s)" by (auto simp: in_order_def intro: exI [of _ "[]"])
  then show ?thesis using assms(1) c
    by (simp add: fine_def evolves_def no_gain_def no_entry_def login_def srv_inv_def net_ok_def auth_ok_def key_ok_def occupied_def)
qed

section \<open>Sending\<close>

lemma Server_Send_frame:
  assumes "sv_inv L sv" "ch_Flags chunk AND NETSENDFLAG_CONNLESS \<noteq> 0 \<or> 0 \<le> ch_ClientId chunk \<and> ch_ClientId chunk < int (sv_MaxClients sv)"
    "Server_Send chunk Data sv n = Some (r, sv', n')"
  shows "sv_inv L sv'" "sv_MaxClients sv' = sv_MaxClients sv"
    "j < NET_MAX_CLIENTS \<Longrightarrow> c_PeerAddr (slot sv' j) = c_PeerAddr (slot sv j)"
proof -
  show inv: "sv_inv L sv'" using Server_Send_inv [OF assms(1,2), of Data n] assms(3) by auto
  have "sv' = sv \<or> (\<exists>i c. i < NET_MAX_CLIENTS \<and> sv' = set_slot i c sv \<and> peer c = peer (slot sv i))"
  proof (cases "length Data \<ge> NET_MAX_PAYLOAD \<or> ch_Flags chunk AND NETSENDFLAG_CONNLESS \<noteq> 0")
    case True
    then show ?thesis using assms(3) by (auto simp: Server_Send_def split: if_splits)
  next
    case False
    let ?i = "nat (ch_ClientId chunk)"
    have i: "?i < NET_MAX_CLIENTS" using assms(1,2) False by (auto simp: sv_inv_def)
    obtain F k c1 n1 where q: "QueueChunk F Data (slot sv ?i) n = Some (k, c1, n1)"
      and sv': "\<exists>c2 n2. (if k = 0 \<and> ch_Flags chunk AND NETSENDFLAG_FLUSH \<noteq> 0 then snd (Flush c1 n1) else (c1, n1)) = (c2, n2) \<and> sv' = set_slot ?i c2 sv"
      using assms(3) False by (auto simp: Server_Send_def Let_def split: if_splits bind_splits prod.splits)
    then obtain c2 n2 where c2: "(if k = 0 \<and> ch_Flags chunk AND NETSENDFLAG_FLUSH \<noteq> 0 then snd (Flush c1 n1) else (c1, n1)) = (c2, n2)"
      "sv' = set_slot ?i c2 sv" by blast
    have "peer c1 = peer (slot sv ?i)" by (rule QueueChunk_frame [OF sv_inv_slot [OF assms(1) i] q])
    moreover have "peer c2 = peer c1"
      using c2(1) same_link_peer [OF Flush_same_link [of c1 n1 "fst (Flush c1 n1)" c2 n2]] by (auto simp: prod_eq_iff split: if_splits)
    ultimately show ?thesis using c2(2) i by metis
  qed
  moreover have "length (sv_Slots sv) = NET_MAX_CLIENTS" using assms(1) by (simp add: sv_inv_def)
  ultimately show "sv_MaxClients sv' = sv_MaxClients sv" "j < NET_MAX_CLIENTS \<Longrightarrow> c_PeerAddr (slot sv' j) = c_PeerAddr (slot sv j)"
    by (auto simp: slot_set_slot peer_def)
qed

text \<open>Only the network server has changed.\<close>

definition sent :: "int \<Rightarrow> CServer \<Rightarrow> CServer \<Rightarrow> bool" where
  "sent L s s' \<longleftrightarrow> (\<exists>sv n. s' = s\<lparr>s_Net := sv, s_World := n\<rparr> \<and> sv_MaxClients sv = sv_MaxClients (s_Net s)) \<and> net_ok L s'"

lemma sent_fields:
  assumes "sent L s s'"
  shows "s_Clients s' = s_Clients s" "s_Auth s' = s_Auth s" "s_Ban s' = s_Ban s" "s_Game s' = s_Game s" "client s' = client s"
    "occupied s' = occupied s" "s_RconClientId s' = s_RconClientId s" "s_RconAuthLevel s' = s_RconAuthLevel s" "IsSixup s' = IsSixup s"
    "sv_MaxClients (s_Net s') = sv_MaxClients (s_Net s)" "net_ok L s'" "s_Tick s' = s_Tick s"
  using assms by (auto simp: sent_def client_def occupied_def IsSixup_def fun_eq_iff)

lemma sent_refl: "net_ok L s \<Longrightarrow> sent L s s"
  unfolding sent_def by (intro conjI exI [of _ "s_Net s"] exI [of _ "s_World s"]) simp_all

lemma sentI:
  "net_ok L (s\<lparr>s_Net := sv, s_World := n\<rparr>) \<Longrightarrow> sv_MaxClients sv = sv_MaxClients (s_Net s) \<Longrightarrow> sent L s (s\<lparr>s_Net := sv, s_World := n\<rparr>)"
  unfolding sent_def by blast

lemma sentE:
  assumes "sent L s s'"
  obtains sv n where "s' = s\<lparr>s_Net := sv, s_World := n\<rparr>" "sv_MaxClients sv = sv_MaxClients (s_Net s)" "net_ok L s'"
  using assms unfolding sent_def by blast

lemma sent_trans: "sent L s s1 \<Longrightarrow> sent L s1 s2 \<Longrightarrow> sent L s s2"
  by (elim sentE) (simp, rule sentI, simp_all)

lemma sent_then:
  assumes "returns (sent L s) m" "\<And>x. sent L s x \<Longrightarrow> returns (sent L x) (f x)"
  shows "returns (sent L s) (Option.bind m f)"
  unfolding returns_rules
  by (rule returns_mono [OF assms(1)], rule returns_mono [OF assms(2)]) (auto intro: sent_trans)

lemma sent_fine: "srv_inv L s \<Longrightarrow> sent L s s' \<Longrightarrow> fine L s s'"
  using sent_fields [of L s s']
  by (simp add: fine_def evolves_def no_gain_def no_entry_def in_order_def login_def srv_inv_def auth_ok_def phases_def fun_eq_iff)

lemma net_step_ok:
  assumes "net_ok L s" "sv_inv L sv" "sv_MaxClients sv = sv_MaxClients (s_Net s)"
    "\<And>j. j < NET_MAX_CLIENTS \<Longrightarrow> c_PeerAddr (slot sv j) = c_PeerAddr (slot (s_Net s) j)"
  shows "sent L s (s\<lparr>s_Net := sv, s_World := n\<rparr>)"
proof -
  have "sv_MaxClients (s_Net s) \<le> NET_MAX_CLIENTS" using assms(1) by (simp add: net_ok_def sv_inv_def)
  then show ?thesis
    using assms by (intro sentI) (auto simp: net_ok_def occupied_def client_def client_addr_def)
qed

lemma server_time_sent: "net_ok L s \<Longrightarrow> server_time s = (t, s') \<Longrightarrow> sent L s s'"
  using net_step_ok [of L s "s_Net s" "s_World s'"] by (auto simp: server_time_def net_ok_def split: prod.splits)

lemma send_packet_returns:
  assumes "net_ok L s" "i < sv_MaxClients (s_Net s)"
  shows "returns (sent L s) (send_packet Flags Data i s)"
proof -
  define chunk where "chunk = \<lparr>ch_ClientId = int i, ch_Address = zero_addr,
      ch_Flags = (if Flags AND MSGFLAG_VITAL \<noteq> 0 then NETSENDFLAG_VITAL else 0) OR (if Flags AND MSGFLAG_FLUSH \<noteq> 0 then NETSENDFLAG_FLUSH else 0),
      ch_DataSize = length Data, ch_pData = 0, ch_aExtraData = []\<rparr>"
  have inv: "sv_inv L (s_Net s)" using assms(1) by (simp add: net_ok_def)
  have range: "ch_Flags chunk AND NETSENDFLAG_CONNLESS \<noteq> 0 \<or> 0 \<le> ch_ClientId chunk \<and> ch_ClientId chunk < int (sv_MaxClients (s_Net s))"
    using assms(2) by (simp add: chunk_def)
  obtain r sv n where send: "Server_Send chunk Data (s_Net s) (s_World s) = Some (r, sv, n)"
    using Server_Send_inv [OF inv range] by blast
  note f = Server_Send_frame [OF inv range send]
  have "send_packet Flags Data i s = Some (s\<lparr>s_Net := sv, s_World := n\<rparr>)"
    unfolding send_packet_def chunk_def [symmetric] Let_def by (simp add: send)
  then show ?thesis using net_step_ok [OF assms(1) f] by (simp add: returns_rules)
qed

lemma occupied_slot: "net_ok L s \<Longrightarrow> occupied s i \<Longrightarrow> i < MAX_CLIENTS \<Longrightarrow> i < sv_MaxClients (s_Net s)"
  by (simp add: net_ok_def)

lemma send_ingame_returns:
  "net_ok L s \<Longrightarrow> \<forall>i \<in> set is. i < MAX_CLIENTS \<Longrightarrow> returns (sent L s) (send_ingame Data Flags is s)"
proof (induction "is" arbitrary: s)
  case Nil
  then show ?case by (simp add: returns_rules sent_refl)
next
  case (Cons i "is")
  show ?case
  proof (cases "cc_State (client s i) = STATE_INGAME")
    case True
    then have "i < sv_MaxClients (s_Net s)" using Cons.prems by (intro occupied_slot) (simp_all add: occupied_def)
    from send_packet_returns [OF Cons.prems(1) this] show ?thesis
      using Cons True by (auto intro!: sent_then Cons.IH simp: sent_fields(11))
  next
    case False
    then show ?thesis using Cons by simp
  qed
qed

lemma SendMsg_returns:
  assumes "net_ok L s" "ClientId < 0 \<or> nat ClientId < sv_MaxClients (s_Net s)"
  shows "returns (sent L s) (SendMsg e pMsg Flags ClientId s)"
proof (cases "ClientId < 0")
  case True
  then show ?thesis
    using send_ingame_returns [OF assms(1), of "[0..<MAX_CLIENTS]"] sent_refl [OF assms(1)]
    by (auto simp: SendMsg_def Let_def returns_rules split: option.splits)
next
  case False
  then show ?thesis using send_packet_returns [OF assms(1)] sent_refl [OF assms(1)] assms(2)
    by (auto simp: SendMsg_def Let_def returns_rules split: option.splits)
qed

lemma send_sys_returns: "net_ok L s \<Longrightarrow> i < sv_MaxClients (s_Net s) \<Longrightarrow> returns (sent L s) (send_sys e pMsg Flags i s)"
  unfolding send_sys_def by (rule SendMsg_returns) simp_all

text \<open>All the messages to one client.\<close>

lemma sends_return:
  assumes "net_ok L s" "i < sv_MaxClients (s_Net s)"
  shows "returns (sent L s) (SendCapabilities e i s)" "returns (sent L s) (SendMapData e i Chunk s)"
    "returns (sent L s) (SendConnectionReady e i s)" "returns (sent L s) (SendRconLine e pLine i s)"
    "returns (sent L s) (SendRconCmdAdd e cmd i s)" "returns (sent L s) (SendRconCmdRem e cmd i s)"
    "returns (sent L s) (SendRconCmdGroupStart e i s)" "returns (sent L s) (SendRconCmdGroupEnd e i s)"
    "returns (sent L s) (SendMapReload e i s)" "returns (sent L s) (on_ping e Vital pMsg i s)"
  using send_sys_returns [OF assms] sent_refl [OF assms(1)]
  by (auto simp: SendCapabilities_def SendMapData_def SendConnectionReady_def SendRconLine_def SendRconCmdAdd_def SendRconCmdRem_def
      SendRconCmdGroupStart_def SendRconCmdGroupEnd_def SendMapReload_def on_ping_def returns_rules split: option.split)

lemma SendRconType_returns:
  "net_ok L s \<Longrightarrow> ClientId < 0 \<or> nat ClientId < sv_MaxClients (s_Net s) \<Longrightarrow> returns (sent L s) (SendRconType e b ClientId s)"
  unfolding SendRconType_def by (rule SendMsg_returns)

lemma SendMap_returns:
  assumes "srv_inv L s" "i < MAX_CLIENTS" "i < sv_MaxClients (s_Net s)"
  shows "returns (fine L s) (SendMap e i s)"
proof -
  have n: "net_ok L s" using assms(1) by (simp add: srv_inv_def)
  have "returns (sent L s) (Option.bind (send_sys e (MapDetails e (IsSixup s i)) MSGFLAG_VITAL i s)
      (\<lambda>s. send_sys e (MapChange e (IsSixup s i)) (MSGFLAG_VITAL OR MSGFLAG_FLUSH) i s))"
    by (rule sent_then [OF send_sys_returns [OF n assms(3)]]) (rule send_sys_returns, simp_all add: sent_fields(10,11) assms(3))
  then have "returns (fine L s) (Option.bind (send_sys e (MapDetails e (IsSixup s i)) MSGFLAG_VITAL i s)
      (\<lambda>s. send_sys e (MapChange e (IsSixup s i)) (MSGFLAG_VITAL OR MSGFLAG_FLUSH) i s))"
    by (rule returns_mono) (rule sent_fine [OF assms(1)])
  then have "returns (fine L s) (Option.bind (Option.bind (send_sys e (MapDetails e (IsSixup s i)) MSGFLAG_VITAL i s)
      (\<lambda>s. send_sys e (MapChange e (IsSixup s i)) (MSGFLAG_VITAL OR MSGFLAG_FLUSH) i s))
      (\<lambda>s. Some (set_client i (\<lambda>c. c\<lparr>cc_NextMapChunk := 0\<rparr>) s)))"
    by (rule fine_then) (simp add: returns_rules, rule set_client_plain, simp_all add: fine_def assms(2))
  then show ?thesis by (simp add: SendMap_def)
qed

section \<open>Clients that come and go\<close>

lemma phase_Away: "state_phase x \<noteq> Away \<longleftrightarrow> x \<ge> STATE_READY" "state_phase x = Away \<longleftrightarrow> \<not> x \<ge> STATE_READY"
  by (cases x; simp add: less_eq_client_state_def)+

lemma state_order [simp]:
  "(STATE_CONNECTING \<le> x) = (x \<in> {STATE_CONNECTING, STATE_READY, STATE_INGAME})"
  "(STATE_READY \<le> x) = (x \<in> {STATE_READY, STATE_INGAME})"
  "(x < STATE_CONNECTING) = (x \<notin> {STATE_CONNECTING, STATE_READY, STATE_INGAME})"
  by (cases x; simp add: less_eq_client_state_def less_client_state_def)+

text \<open>A change of one client, with what the game is told of it.\<close>

lemma in_order_told:
  "s_Game s' = s_Game s @ [ev] \<Longrightarrow> told ev (phases s) = Some (phases s') \<Longrightarrow> in_order s s'"
  unfolding in_order_def by (intro exI [of _ "[ev]"]) simp

lemma in_order_same: "s_Game s' = s_Game s \<Longrightarrow> phases s' = phases s \<Longrightarrow> in_order s s'"
  unfolding in_order_def by (intro exI [of _ "[]"]) simp

lemma client_upd:
  assumes "length (s_Clients s) = MAX_CLIENTS" "s_Clients s' = (s_Clients s)[i := c]" "j < MAX_CLIENTS"
  shows "client s' j = (if j = i then c else client s j)"
  using assms by (auto simp: client_def)

lemma phases_upd:
  assumes "length (s_Clients s) = MAX_CLIENTS" "i < MAX_CLIENTS" "s_Clients s' = (s_Clients s)[i := c]"
  shows "phases s' = (phases s)(i := state_phase (cc_State c))"
  using client_upd [OF assms(1,3)] assms(2) by (auto simp: phases_def fun_eq_iff)

lemma no_gain_upd:
  assumes "length (s_Clients s) = MAX_CLIENTS" "s_Clients s' = (s_Clients s)[i := c]" "s_Auth s' = s_Auth s"
    "cc_Authed c = AUTHED_NO \<or> cc_Authed c = cc_Authed (client s i) \<and> cc_AuthKey c = cc_AuthKey (client s i)"
  shows "no_gain s s'"
  using client_upd [OF assms(1,2)] assms(3,4) unfolding no_gain_def login_def by auto

lemma no_entry_upd:
  assumes "length (s_Clients s) = MAX_CLIENTS" "s_Clients s' = (s_Clients s)[i := c]"
    "cc_State c \<ge> STATE_CONNECTING \<Longrightarrow> cc_State (client s i) \<ge> STATE_CONNECTING"
  shows "no_entry s s'"
  using client_upd [OF assms(1,2)] assms(3) unfolding no_entry_def by (simp split: if_splits)

lemma auth_ok_upd:
  assumes "auth_ok s" "length (s_Clients s) = MAX_CLIENTS" "s_Clients s' = (s_Clients s)[i := c]" "s_Auth s' = s_Auth s" "key_ok (s_Auth s) c"
  shows "auth_ok s'"
  using client_upd [OF assms(2,3)] assms(1,4,5) by (simp add: auth_ok_def)

lemma net_ok_upd:
  assumes "net_ok L s" "s_Clients s' = (s_Clients s)[i := c]" "s_Net s' = s_Net s" "s_Ban s' = s_Ban s"
    "cc_State c \<noteq> STATE_EMPTY \<Longrightarrow> occupied s i"
  shows "net_ok L s'"
proof -
  have len: "length (s_Clients s) = MAX_CLIENTS" using assms(1) by (simp add: net_ok_def)
  show ?thesis using client_upd [OF len assms(2)] assms
    by (auto simp: net_ok_def occupied_def client_addr_def)
qed

lemma Drop_frame:
  assumes "sv_inv L sv" "i < NET_MAX_CLIENTS" "Drop i r sv n = (sv', n')"
  shows "sv_inv L sv'" "sv_MaxClients sv' = sv_MaxClients sv" "j \<noteq> i \<Longrightarrow> slot sv' j = slot sv j"
proof -
  show "sv_inv L sv'" using Drop_inv [OF assms(1), of i r n] assms(3) by simp
  show "sv_MaxClients sv' = sv_MaxClients sv" "j \<noteq> i \<Longrightarrow> slot sv' j = slot sv j"
    using assms(3) by (auto simp: Drop_def callback_def set_slot_def slot_def split: prod.splits)
qed

definition dropped :: "nat \<Rightarrow> CServer \<Rightarrow> CServer \<Rightarrow> bool" where
  "dropped i s s' \<longleftrightarrow> \<not> occupied s' i \<and> (\<forall>j. j \<noteq> i \<longrightarrow> client s' j = client s j \<and> client_addr s' j = client_addr s j) \<and>
     s_Ban s' = s_Ban s \<and> s_Auth s' = s_Auth s \<and> s_RconClientId s' = s_RconClientId s \<and> s_RconAuthLevel s' = s_RconAuthLevel s"

lemma DelClientCallback_returns:
  assumes "srv_inv L s" "i < MAX_CLIENTS" "occupied s i"
  shows "returns (\<lambda>s'. fine L s s' \<and> dropped i s s' \<and> s_Net s' = s_Net s \<and> s_World s' = s_World s) (DelClientCallback i pReason s)"
proof -
  note len = srv_inv_length [OF assms(1)]
  let ?s1 = "if cc_State (client s i) \<ge> STATE_READY then tell_game (OnClientDrop i pReason) s else s"
  let ?s = "set_client i gone_client ?s1"
  have cl: "s_Clients ?s = (s_Clients s)[i := gone_client (client s i)]"
    by (simp add: set_client_def tell_game_def client_def)
  have c: "client ?s j = (if j = i then gone_client (client s i) else client s j)" for j
    unfolding client_def [of ?s] cl using len assms(2) by (simp add: client_def)
  have ph: "phases ?s = (phases s)(i := Away)" using phases_upd [OF len assms(2) cl] by (simp add: gone_client_def)
  have p: "phases s i = state_phase (cc_State (client s i))" using assms(2) by (simp add: phases_def)
  have "in_order s ?s"
  proof (cases "cc_State (client s i) \<ge> STATE_READY")
    case True
    then show ?thesis using ph p by (intro in_order_told [of _ _ "OnClientDrop i pReason"]) (auto simp: phase_Away)
  next
    case False
    then have "phases s i = Away" using p phase_Away(2) [of "cc_State (client s i)"] by simp
    with False ph show ?thesis by (intro in_order_same) (auto simp: fun_eq_iff)
  qed
  moreover have "no_gain s ?s" by (rule no_gain_upd [OF len cl]) (simp_all add: gone_client_def)
  moreover have "no_entry s ?s" by (rule no_entry_upd [OF len cl]) (simp add: gone_client_def)
  moreover have "auth_ok ?s"
    using assms(1) by (intro auth_ok_upd [OF _ len cl]) (simp_all add: srv_inv_def key_ok_def gone_client_def)
  moreover have "net_ok L ?s"
    using assms(1) by (intro net_ok_upd [OF _ cl]) (simp_all add: srv_inv_def gone_client_def)
  ultimately have "fine L s ?s" by (simp add: fine_def evolves_def srv_inv_def)
  moreover have "dropped i s ?s" using c by (simp add: dropped_def occupied_def gone_client_def)
  ultimately show ?thesis using assms(3) by (simp add: DelClientCallback_def returns_rules Let_def)
qed

lemma server_drop_returns:
  assumes "srv_inv L s" "i < MAX_CLIENTS" "occupied s i"
  shows "returns (\<lambda>s'. fine L s s' \<and> dropped i s s') (server_drop i pReason s)"
proof -
  obtain s1 where s1: "DelClientCallback i pReason s = Some s1" "fine L s s1" "dropped i s s1" "s_Net s1 = s_Net s" "s_World s1 = s_World s"
    using DelClientCallback_returns [OF assms, of pReason] by (auto simp: returns_def)
  obtain sv n where d: "Drop i pReason (s_Net s1) (s_World s1) = (sv, n)" by fastforce
  have inv: "srv_inv L s1" using s1(2) by (simp add: fine_def)
  have n: "net_ok L s" using assms(1) by (simp add: srv_inv_def)
  then have i: "i < NET_MAX_CLIENTS" using occupied_slot [OF n assms(3,2)] by (simp add: net_ok_def sv_inv_def)
  have sv: "sv_inv L (s_Net s1)" using inv by (simp add: srv_inv_def net_ok_def)
  note f = Drop_frame [OF sv i d]
  let ?s = "s1\<lparr>s_Net := sv, s_World := n\<rparr>"
  have c: "client ?s = client s1" "occupied ?s = occupied s1" by (simp_all add: client_def occupied_def fun_eq_iff)
  have "net_ok L ?s"
    using inv f c s1(3) by (auto simp: srv_inv_def net_ok_def client_addr_def dropped_def) metis
  then have "srv_inv L ?s" using inv c by (simp add: srv_inv_def auth_ok_def)
  moreover have "evolves s1 ?s"
    using c by (simp add: evolves_def no_gain_def no_entry_def login_def in_order_same phases_def fun_eq_iff)
  ultimately have "fine L s ?s" using s1(2) fine_trans [of L s s1 ?s] by (simp add: fine_def)
  moreover have "dropped i s ?s" using s1(3) c f(3) s1(4) by (simp add: dropped_def client_addr_def)
  ultimately show ?thesis by (simp add: server_drop_def returns_rules s1(1) d)
qed

lemma server_drop_fine: "srv_inv L s \<Longrightarrow> i < MAX_CLIENTS \<Longrightarrow> occupied s i \<Longrightarrow> returns (fine L s) (server_drop i pReason s)"
  by (rule returns_mono [OF server_drop_returns]) auto

lemma Kick_returns: "srv_inv L s \<Longrightarrow> returns (fine L s) (Kick ClientId pReason s)"
  using server_drop_fine [of L s "nat ClientId" pReason]
  by (auto simp: Kick_def returns_rules fine_refl is_client_id_def)

lemma sent_away_returns:
  assumes "srv_inv L s" "i < MAX_CLIENTS" "occupied s i"
  shows "returns (fine L s) (sent_away e Msg pReason i s)"
proof -
  have n: "net_ok L s" using assms(1) by (simp add: srv_inv_def)
  have m: "returns (\<lambda>x. fine L s x \<and> occupied x i) (send_sys e Msg (MSGFLAG_VITAL OR MSGFLAG_FLUSH) i s)"
    using sent_fine [OF assms(1)] assms(3)
    by (intro returns_mono [OF send_sys_returns [OF n occupied_slot [OF n assms(3,2)]]]) (auto simp: sent_fields)
  have step: "returns (fine L x) (let s = (if cc_State (client x i) \<ge> STATE_READY then tell_game (OnClientDrop i (Reason pReason)) x else x);
       (t, s) = server_time s in Some (set_client i (\<lambda>c. c\<lparr>cc_RedirectDropTime := t + time_freq * 10, cc_State := STATE_REDIRECTED\<rparr>) s))"
    if "srv_inv L x" "occupied x i" for x
  proof -
    note len = srv_inv_length [OF that(1)]
    define s1 where "s1 = (if cc_State (client x i) \<ge> STATE_READY then tell_game (OnClientDrop i (Reason pReason)) x else x)"
    obtain t s2 where t: "server_time s1 = (t, s2)" by fastforce
    have s2: "s_Clients s2 = s_Clients x" "s_Auth s2 = s_Auth x" "s_Ban s2 = s_Ban x" "s_Game s2 = s_Game s1" "s_Net s2 = s_Net x"
      using t by (auto simp: server_time_def s1_def split: prod.splits)
    let ?c = "(client x i)\<lparr>cc_RedirectDropTime := t + time_freq * 10, cc_State := STATE_REDIRECTED\<rparr>"
    let ?s = "set_client i (\<lambda>c. c\<lparr>cc_RedirectDropTime := t + time_freq * 10, cc_State := STATE_REDIRECTED\<rparr>) s2"
    have cl: "s_Clients ?s = (s_Clients x)[i := ?c]" using s2(1) by (simp add: set_client_def client_def)
    have ph: "phases ?s = (phases x)(i := Away)" using phases_upd [OF len assms(2) cl] by simp
    have p: "phases x i = state_phase (cc_State (client x i))" using assms(2) by (simp add: phases_def)
    have "in_order x ?s"
    proof (cases "cc_State (client x i) \<ge> STATE_READY")
      case True
      then show ?thesis using ph p s2(4) by (intro in_order_told [of _ _ "OnClientDrop i (Reason pReason)"]) (auto simp: phase_Away s1_def)
    next
      case False
      then have "phases x i = Away" using p phase_Away(2) [of "cc_State (client x i)"] by simp
      with False ph s2(4) show ?thesis by (intro in_order_same) (auto simp: fun_eq_iff s1_def)
    qed
    moreover have "no_gain x ?s" by (rule no_gain_upd [OF len cl]) (simp_all add: s2)
    moreover have "no_entry x ?s" by (rule no_entry_upd [OF len cl]) simp
    moreover have "auth_ok ?s"
      using that assms(2) by (intro auth_ok_upd [OF _ len cl]) (auto simp: srv_inv_def auth_ok_def key_ok_def s2)
    moreover have "net_ok L ?s" using that by (intro net_ok_upd [OF _ cl]) (simp_all add: srv_inv_def s2)
    ultimately show ?thesis unfolding s1_def [symmetric] Let_def t by (simp add: returns_rules fine_def evolves_def srv_inv_def)
  qed
  show ?thesis
    unfolding sent_away_def returns_rules
    by (rule returns_mono [OF m], rule returns_mono [OF step]) (auto simp: fine_def intro: evolves_trans)
qed

lemma GetClientVersion_occupied: "GetClientVersion s i \<ge> VERSION_DDNET_REDIRECT \<Longrightarrow> occupied s i"
  by (auto simp: GetClientVersion_def occupied_def VERSION_NONE_def VERSION_DDNET_REDIRECT_def split: if_splits)

lemma RedirectClient_returns: "srv_inv L s \<Longrightarrow> i < MAX_CLIENTS \<Longrightarrow> returns (fine L s) (RedirectClient e i Port s)"
  using Kick_returns sent_away_returns GetClientVersion_occupied by (auto simp: RedirectClient_def)

lemma ReconnectClient_returns: "srv_inv L s \<Longrightarrow> i < MAX_CLIENTS \<Longrightarrow> returns (fine L s) (ReconnectClient e i s)"
  using RedirectClient_returns sent_away_returns GetClientVersion_occupied [of s i]
  by (auto simp: ReconnectClient_def VERSION_DDNET_RECONNECT_def VERSION_DDNET_REDIRECT_def)

lemma drop_all_returns: "srv_inv L s \<Longrightarrow> \<forall>i \<in> set is. i < MAX_CLIENTS \<Longrightarrow> returns (fine L s) (drop_all pReason is s)"
proof (induction "is" arbitrary: s)
  case (Cons i "is")
  show ?case
  proof (cases "occupied s i")
    case True
    have "returns (fine L s) (Option.bind (server_drop i pReason s) (drop_all pReason is))"
      using Cons.prems True by (intro fine_then [OF server_drop_fine] Cons.IH) (simp_all add: fine_def)
    with True show ?thesis by simp
  qed (use Cons in simp)
qed (simp add: returns_rules fine_refl)

lemma drop_redirected_returns: "srv_inv L s \<Longrightarrow> \<forall>i \<in> set is. i < MAX_CLIENTS \<Longrightarrow> returns (fine L s) (drop_redirected is s)"
proof (induction "is" arbitrary: s)
  case (Cons i "is")
  obtain t s1 where t: "server_time s = (t, s1)" by fastforce
  then have s1: "sent L s s1" using Cons.prems(1) by (intro server_time_sent) (simp_all add: srv_inv_def)
  have f: "fine L s s1" by (rule sent_fine [OF Cons.prems(1) s1])
  then have inv: "srv_inv L s1" by (simp add: fine_def)
  have rest: "returns (fine L s1) (drop_redirected is s1)" using Cons inv by simp
  have gone: "returns (fine L s1) (Option.bind (server_drop i (Reason (bytes_of ''redirected'')) s1) (drop_redirected is))"
    if "cc_State (client s i) = STATE_REDIRECTED"
    using that Cons inv sent_fields(6) [OF s1]
    by (intro fine_then [OF server_drop_fine] Cons.IH) (simp_all add: fine_def occupied_def fun_eq_iff)
  have via: "returns (fine L s) m" if "returns (fine L s1) m" for m
    by (rule returns_mono [OF that]) (rule fine_trans [OF f])
  show ?case using Cons t via [OF rest] via [OF gone] by simp
qed (simp add: returns_rules fine_refl)

section \<open>Bans\<close>

text \<open>
  The clients that a ban matches are gone, the others as they were.
\<close>

definition banned_gone :: "(NETADDR \<Rightarrow> bool) \<Rightarrow> nat set \<Rightarrow> CServer \<Rightarrow> CServer \<Rightarrow> bool" where
  "banned_gone matches I s s' \<longleftrightarrow>
     (\<forall>i \<in> I. occupied s' i \<longrightarrow> \<not> matches (client_addr s' i)) \<and>
     (\<forall>i. (client s' i = client s i \<and> client_addr s' i = client_addr s i) \<or> occupied s i \<and> matches (client_addr s i) \<and> \<not> occupied s' i) \<and>
     s_Auth s' = s_Auth s \<and> s_Ban s' = s_Ban s"

lemma drop_banned_returns:
  "srv_inv L s \<Longrightarrow> \<forall>i \<in> set is. i < MAX_CLIENTS \<Longrightarrow> (\<And>s'. s_Ban s' = s_Ban s \<Longrightarrow> \<exists>msg. info s' = Some msg) \<Longrightarrow>
   returns (\<lambda>s'. fine L s s' \<and> banned_gone matches (set is) s s') (drop_banned matches info is s)"
proof (induction "is" arbitrary: s)
  case Nil
  then show ?case by (simp add: returns_rules fine_refl banned_gone_def)
next
  case (Cons i "is")
  show ?case
  proof (cases "occupied s i \<and> matches (client_addr s i)")
    case True
    obtain msg where msg: "info s = Some msg" using Cons.prems(3) by blast
    have i: "i < MAX_CLIENTS" using Cons.prems by simp
    obtain s1 where s1: "server_drop i (Reason msg) s = Some s1" "fine L s s1" "dropped i s s1"
      using server_drop_returns [OF Cons.prems(1) i, of "Reason msg"] True by (auto simp: returns_def)
    obtain s2 where s2: "drop_banned matches info is s1 = Some s2" "fine L s1 s2" "banned_gone matches (set is) s1 s2"
      using Cons.IH [of s1] s1(2,3) Cons.prems by (auto simp: fine_def dropped_def returns_def)
    have "banned_gone matches (set (i # is)) s s2"
      using s1(3) s2(3) True unfolding banned_gone_def dropped_def occupied_def by (simp, metis)
    then show ?thesis using True msg s1(1) s2 fine_trans [OF s1(2) s2(2)] by (simp add: returns_rules)
  next
    case False
    then have "drop_banned matches info (i # is) s = drop_banned matches info is s"
      by (simp only: drop_banned.simps if_False)
    moreover have "returns (\<lambda>s'. fine L s s' \<and> banned_gone matches (set is) s s') (drop_banned matches info is s)"
      using Cons by simp
    moreover have "banned_gone matches (set (i # is)) s s'" if "banned_gone matches (set is) s s'" for s'
      using that False unfolding banned_gone_def occupied_def by (simp, metis)
    ultimately show ?thesis by (simp only:) (erule returns_mono, auto)
  qed
qed

text \<open>A change of the bans alone.\<close>

lemma bans_changed:
  assumes "srv_inv L s" "\<exists>bs. netban_shows nb bs"
  shows "fine L s (s\<lparr>s_Ban := nb\<rparr>)"
proof -
  have c: "client (s\<lparr>s_Ban := nb\<rparr>) = client s" "occupied (s\<lparr>s_Ban := nb\<rparr>) = occupied s" "client_addr (s\<lparr>s_Ban := nb\<rparr>) = client_addr s"
    "phases (s\<lparr>s_Ban := nb\<rparr>) = phases s"
    by (simp_all add: client_def occupied_def client_addr_def phases_def fun_eq_iff)
  then show ?thesis using assms
    by (simp add: fine_def evolves_def no_gain_def no_entry_def in_order_same login_def srv_inv_def net_ok_def auth_ok_def)
qed

text \<open>What is done for one kind of bans; the places of the two pools in the record are parameters.\<close>

context ban_data
begin

lemma drop_message_returns:
  assumes "pool_shows k valid P bs" "valid d"
  shows "\<exists>msg. drop_message Now k d P = Some msg"
proof -
  obtain us where us: "pool_ok P us" "keyed k valid P us" using assms(1) by (auto simp: pool_shows_def)
  obtain h where h: "k_hash k d = Some h" using hash_some [OF assms(2)] by blast
  from us assms(2) h show ?thesis by (cases rule: find_same) (simp_all add: drop_message_def h)
qed

lemma BanExt_returns:
  assumes "srv_inv L s" "valid d" "pool_shows k valid (pool (s_Ban s)) bs"
    and lens: "\<And>P nb. pool (set_pool P nb) = P" "\<And>P bs. pool_shows k valid P bs \<Longrightarrow> \<exists>bs'. netban_shows (set_pool P (s_Ban s)) bs'"
  shows "returns (\<lambda>(r, s'). fine L s s' \<and> (ban_refused (k_matches k d) s \<longrightarrow> r = -1 \<and> s' = s) \<and>
      (r = 0 \<longrightarrow> banned_gone (k_matches k d) {..<MAX_CLIENTS} (s\<lparr>s_Ban := s_Ban s'\<rparr>) s') \<and>
      (\<forall>P. Ban k (nb_LocalhostIpV4 (s_Ban s)) (nb_LocalhostIpV6 (s_Ban s)) (ev_Timestamp e) d Seconds pReason verb (pool (s_Ban s)) = Some (0, P) \<longrightarrow>
        \<not> ban_refused (k_matches k d) s \<longrightarrow> r = 0 \<and> s_Ban s' = set_pool P (s_Ban s)) \<and>
      (r \<noteq> 0 \<longrightarrow> s' = s\<lparr>s_Ban := s_Ban s'\<rparr>))
    (BanExt e k pool set_pool d Seconds pReason verb s)"
proof (cases "ban_refused (k_matches k d) s")
  case True
  then show ?thesis using assms(1) by (simp add: BanExt_def returns_rules fine_refl)
next
  case False
  let ?l4 = "nb_LocalhostIpV4 (s_Ban s)" and ?l6 = "nb_LocalhostIpV6 (s_Ban s)"
  have "\<exists>r P bs'. Ban k ?l4 ?l6 (ev_Timestamp e) d Seconds pReason verb (pool (s_Ban s)) = Some (r, P) \<and> pool_shows k valid P bs'"
  proof (cases "k_matches k d ?l4 \<or> k_matches k d ?l6")
    case True
    then show ?thesis using Ban_localhost [OF True] assms(3) by auto
  next
    case False
    from Ban_refines [OF assms(3,2) this refl] show ?thesis by blast
  qed
  then obtain r P bs' where P: "Ban k ?l4 ?l6 (ev_Timestamp e) d Seconds pReason verb (pool (s_Ban s)) = Some (r, P)" "pool_shows k valid P bs'"
    by blast
  let ?s = "s\<lparr>s_Ban := set_pool P (s_Ban s)\<rparr>"
  have f: "fine L s ?s" by (rule bans_changed [OF assms(1) lens(2) [OF P(2)]])
  then have inv: "srv_inv L ?s" by (simp add: fine_def)
  show ?thesis
  proof (cases "r = 0")
    case True
    let ?info = "\<lambda>s. drop_message (ev_Timestamp e) k d (pool (s_Ban s))"
    have "returns (\<lambda>s'. fine L ?s s' \<and> banned_gone (k_matches k d) (set [0..<MAX_CLIENTS]) ?s s')
        (drop_banned (k_matches k d) ?info [0..<MAX_CLIENTS] ?s)"
      by (rule drop_banned_returns [OF inv]) (simp_all add: lens(1) drop_message_returns [OF P(2) assms(2)])
    then obtain s2 where s2: "drop_banned (k_matches k d) ?info [0..<MAX_CLIENTS] ?s = Some s2" "fine L ?s s2"
      "banned_gone (k_matches k d) (set [0..<MAX_CLIENTS]) ?s s2"
      by (auto simp: returns_def)
    have "set [0..<MAX_CLIENTS] = {..<MAX_CLIENTS}" "s_Ban s2 = set_pool P (s_Ban s)" using s2(3) by (auto simp: banned_gone_def)
    then show ?thesis using False P True s2 fine_trans [OF f s2(2)] by (simp add: BanExt_def returns_rules)
  next
    case nz: False
    then show ?thesis using False P f by (simp add: BanExt_def returns_rules)
  qed
qed

end

lemma shown_pools:
  assumes "srv_inv L s"
  obtains A R where "netban_shows (s_Ban s) (A, R)" "pool_shows addr_kind valid_addr (nb_AddrPool (s_Ban s)) A"
    "pool_shows range_kind valid_range (nb_RangePool (s_Ban s)) R"
    "\<And>P bs. pool_shows addr_kind valid_addr P bs \<Longrightarrow> \<exists>bs'. netban_shows ((s_Ban s)\<lparr>nb_AddrPool := P\<rparr>) bs'"
    "\<And>P bs. pool_shows range_kind valid_range P bs \<Longrightarrow> \<exists>bs'. netban_shows ((s_Ban s)\<lparr>nb_RangePool := P\<rparr>) bs'"
proof -
  obtain A R where s: "netban_shows (s_Ban s) (A, R)" using assms by (auto simp: srv_inv_def net_ok_def)
  then show thesis by (intro that [of A R]) (auto simp: netban_shows_def)
qed

lemma server_BanAddr_returns:
  assumes "srv_inv L s" "valid_addr d"
  shows "returns (\<lambda>x. fine L s (snd x)) (server_BanAddr e d Seconds pReason verb s)"
proof (rule shown_pools [OF assms(1)])
  fix A assume p: "pool_shows addr_kind valid_addr (nb_AddrPool (s_Ban s)) A"
    "\<And>P bs. pool_shows addr_kind valid_addr P bs \<Longrightarrow> \<exists>bs'. netban_shows ((s_Ban s)\<lparr>nb_AddrPool := P\<rparr>) bs'"
  show ?thesis unfolding server_BanAddr_def
    by (rule returns_mono [OF addr_bans.BanExt_returns [OF assms(1,2), of nb_AddrPool A]]) (use p in auto)
qed

lemma server_BanRange_returns:
  assumes "srv_inv L s" "valid_addr (m_LB d)" "valid_addr (m_UB d)"
  shows "returns (\<lambda>x. fine L s (snd x)) (server_BanRange e d Seconds pReason s)"
proof (cases "Range_IsValid d")
  case True
  then have v: "valid_range d" using assms(2,3) by (simp add: valid_range_def)
  show ?thesis
  proof (rule shown_pools [OF assms(1)])
    fix R assume p: "pool_shows range_kind valid_range (nb_RangePool (s_Ban s)) R"
      "\<And>P bs. pool_shows range_kind valid_range P bs \<Longrightarrow> \<exists>bs'. netban_shows ((s_Ban s)\<lparr>nb_RangePool := P\<rparr>) bs'"
    have "returns (\<lambda>x. fine L s (snd x)) (BanExt e range_kind nb_RangePool (\<lambda>P nb. nb\<lparr>nb_RangePool := P\<rparr>) d Seconds pReason True s)"
      by (rule returns_mono [OF range_bans.BanExt_returns [OF assms(1) v, of nb_RangePool R]]) (use p in auto)
    with True show ?thesis by (simp add: server_BanRange_def)
  qed
qed (use assms(1) in \<open>simp add: server_BanRange_def returns_rules fine_refl\<close>)

lemma server_Ban_returns:
  assumes "srv_inv L s" "i < MAX_CLIENTS" "occupied s i"
  shows "returns (fine L s) (server_Ban e i Seconds pReason verb s)"
proof -
  have "valid_addr (client_addr s i)" using assms by (simp add: srv_inv_def net_ok_def)
  from server_BanAddr_returns [OF assms(1) this] show ?thesis
    using assms(3) by (auto simp: server_Ban_def ClientAddr_def returns_rules)
qed

lemma ConBanExt_returns:
  assumes "srv_inv L s" "case addr of Some a \<Rightarrow> valid_addr a | None \<Rightarrow> True"
  shows "returns (fine L s) (ConBanExt e ClientId addr minutes reason s)"
proof -
  have v: "valid_addr (client_addr s (nat c))" if "is_client_id c" "occupied s (nat c)" for c
    using that assms(1) by (auto simp: srv_inv_def net_ok_def is_client_id_def nat_less_iff)
  have b: "returns (fine L s) (map_option snd (server_BanAddr e d Seconds pReason verb s))" if "valid_addr d" for d Seconds pReason verb
    using server_BanAddr_returns [OF assms(1) that] by (simp add: returns_rules)
  show ?thesis
    using assms v b by (auto simp: ConBanExt_def Let_def returns_rules(1) fine_refl split: option.splits)
qed

section \<open>Logins\<close>

definition logged_out :: "CClient \<Rightarrow> CClient" where
  "logged_out c = c\<lparr>cc_AuthTries := 0, cc_RconCmdToSend := None, cc_MaplistEntryToSend := MAPLIST_UNINITIALIZED,
     cc_Authed := AUTHED_NO, cc_AuthKey := -1\<rparr>"

text \<open>What the game is told without a change of phase.\<close>

definition told_only :: "game_event list \<Rightarrow> bool" where
  "told_only evs \<longleftrightarrow> (\<forall>ev \<in> set evs. \<forall>p. told ev p = Some p)"

lemma told_only_all: "told_only evs \<Longrightarrow> told_all evs p = Some p"
  by (induction evs) (simp_all add: told_only_def)

text \<open>The clients of a set are logged out.\<close>

definition logout_of :: "int \<Rightarrow> (nat \<Rightarrow> bool) \<Rightarrow> CServer \<Rightarrow> CServer \<Rightarrow> bool" where
  "logout_of L Q s s' \<longleftrightarrow> net_ok L s' \<and> s_Auth s' = s_Auth s \<and> s_Ban s' = s_Ban s \<and> sv_MaxClients (s_Net s') = sv_MaxClients (s_Net s) \<and>
     (\<forall>i < MAX_CLIENTS. client s' i = (if Q i then logged_out (client s i) else client s i)) \<and>
     (\<forall>i < MAX_CLIENTS. Q i \<longrightarrow> Logged_out i (KeyIdent (s_Auth s) (cc_AuthKey (client s i))) \<in> set (s_Game s')) \<and>
     (\<exists>evs. s_Game s' = s_Game s @ evs \<and> told_only evs)"

lemma LogoutClient_returns:
  assumes "net_ok L s" "i < MAX_CLIENTS" "occupied s i"
  shows "returns (\<lambda>s'. logout_of L (\<lambda>j. j = i) s s' \<and>
    s_Game s' = s_Game s @ [Logged_out i (KeyIdent (s_Auth s) (cc_AuthKey (client s i))), OnSetAuthed i AUTHED_NO]) (LogoutClient e i pReason s)"
proof -
  have len: "length (s_Clients s) = MAX_CLIENTS" using assms(1) by (simp add: net_ok_def)
  have slot: "i < sv_MaxClients (s_Net s)" by (rule occupied_slot [OF assms(1,3,2)])
  let ?f = "\<lambda>c. c\<lparr>cc_AuthTries := 0, cc_RconCmdToSend := None, cc_MaplistEntryToSend := MAPLIST_UNINITIALIZED\<rparr>"
  obtain s1 where s1: "(if \<not> IsSixup s i
        then send_sys e (Msg_AddInt 0 (Msg_AddInt 0 (sys_packer NETMSG_RCON_AUTH_STATUS))) MSGFLAG_VITAL i s
        else send_sys e (sevens_packer NETMSG7_RCON_AUTH_OFF) MSGFLAG_VITAL i s) = Some s1" "sent L s s1"
    using send_sys_returns [OF assms(1) slot, unfolded returns_def]
    by (cases "IsSixup s i") (simp_all, blast+)
  note f1 = sent_fields [OF s1(2)]
  let ?s2 = "set_client i ?f s1"
  have cl2: "s_Clients ?s2 = (s_Clients s)[i := ?f (client s i)]" using f1 by (simp add: set_client_def client_def)
  have n2: "net_ok L ?s2" using assms f1 by (intro net_ok_upd [OF f1(11), of _ i "?f (client s i)"]) (simp_all add: cl2 occupied_def)
  obtain s3 where s3: "SendRconLine e (if pReason \<noteq> [] then str_copy (bytes_of ''Logged out by '' @ pReason @ bytes_of ''.'') 64
        else bytes_of ''Logout successful.'') i ?s2 = Some s3" "sent L ?s2 s3"
    using sends_return(4) [OF n2] slot f1(10) unfolding returns_def by (metis set_client_fields(1))
  note f3 = sent_fields [OF s3(2)]
  let ?s4 = "tell_game (Logged_out i (KeyIdent (s_Auth s3) (cc_AuthKey (client s3 i)))) s3"
  let ?s5 = "set_client i (\<lambda>c. c\<lparr>cc_Authed := AUTHED_NO, cc_AuthKey := -1\<rparr>) ?s4"
  let ?s6 = "tell_game (OnSetAuthed i AUTHED_NO) ?s5"
  have run: "LogoutClient e i pReason s = Some ?s6"
    using s1(1) s3(1) by (simp add: LogoutClient_def Let_def)
  have c3: "client s3 i = ?f (client s i)"
    using client_upd [OF len cl2 assms(2)] f3(5) by simp
  have cl6: "s_Clients ?s6 = (s_Clients s)[i := logged_out (client s i)]"
    using f3(1) c3 cl2 by (simp add: set_client_def tell_game_def client_def logged_out_def)
  have "net_ok L ?s6"
  proof (rule net_ok_upd [OF f3(11), of _ i "logged_out (client s i)"])
    show "s_Clients ?s6 = (s_Clients s3)[i := logged_out (client s i)]" using cl6 cl2 f3(1) by simp
    show "occupied s3 i" using c3 assms(3) by (simp add: occupied_def)
  qed simp_all
  moreover have "client ?s6 j = (if j = i then logged_out (client s i) else client s j)" if "j < MAX_CLIENTS" for j
    by (rule client_upd [OF len cl6 that])
  moreover have "s_Game ?s6 = s_Game s @ [Logged_out i (KeyIdent (s_Auth s) (cc_AuthKey (client s i))), OnSetAuthed i AUTHED_NO]"
    using f1 f3 c3 by simp
  moreover have "told_only [Logged_out i (KeyIdent (s_Auth s) (cc_AuthKey (client s i))), OnSetAuthed i AUTHED_NO]"
    by (simp add: told_only_def)
  ultimately have "logout_of L (\<lambda>j. j = i) s ?s6"
    using f1 f3 unfolding logout_of_def by (simp add: exI [of _ "[Logged_out i (KeyIdent (s_Auth s) (cc_AuthKey (client s i))), OnSetAuthed i AUTHED_NO]"])
  then show ?thesis using run f1 f3 c3 by (simp add: returns_rules)
qed

lemma rights_change_fine:
  assumes "net_ok L s'" "auth_ok s'" "\<And>i. i < MAX_CLIENTS \<Longrightarrow> cc_State (client s' i) = cc_State (client s i)"
    "\<And>i. i < MAX_CLIENTS \<Longrightarrow> login s' i = None \<or> login s' i = login s i"
    "s_Game s' = s_Game s @ evs" "told_only evs"
  shows "fine L s s'"
proof -
  have "phases s' = phases s" using assms(3) by (auto simp: phases_def)
  then have "in_order s s'" using assms(5) told_only_all [OF assms(6)] unfolding in_order_def by metis
  then show ?thesis using assms by (simp add: fine_def srv_inv_def evolves_def no_gain_def no_entry_def)
qed

lemma logout_loop_returns:
  "net_ok L s \<Longrightarrow> \<forall>i \<in> set is. i < MAX_CLIENTS \<and> (cc_AuthKey (client s i) = Key \<longrightarrow> occupied s i) \<Longrightarrow> Key \<noteq> -1 \<Longrightarrow>
    returns (logout_of L (\<lambda>i. i \<in> set is \<and> cc_AuthKey (client s i) = Key) s) (logout_loop e Key pReason is s)"
proof (induction "is" arbitrary: s)
  case Nil
  then show ?case by (simp add: returns_rules logout_of_def) (simp add: told_only_def)
next
  case (Cons i "is")
  show ?case
  proof (cases "cc_AuthKey (client s i) = Key")
    case True
    have i: "i < MAX_CLIENTS" "occupied s i" using Cons.prems(2) True by simp_all
    obtain s1 where s1: "LogoutClient e i pReason s = Some s1" "logout_of L (\<lambda>j. j = i) s s1"
      using LogoutClient_returns [OF Cons.prems(1) i, of e pReason] by (auto simp: returns_def)
    have c1: "client s1 j = (if j = i then logged_out (client s i) else client s j)" if "j < MAX_CLIENTS" for j
      using s1(2) that by (simp add: logout_of_def)
    have "returns (logout_of L (\<lambda>j. j \<in> set is \<and> cc_AuthKey (client s1 j) = Key) s1) (logout_loop e Key pReason is s1)"
      using s1(2) Cons.prems c1 by (intro Cons.IH) (auto simp: logout_of_def occupied_def logged_out_def)
    then obtain s2 where s2: "logout_loop e Key pReason is s1 = Some s2"
      "logout_of L (\<lambda>j. j \<in> set is \<and> cc_AuthKey (client s1 j) = Key) s1 s2" unfolding returns_def by blast
    obtain es1 es2 where g: "s_Game s1 = s_Game s @ es1" "told_only es1" "s_Game s2 = s_Game s1 @ es2" "told_only es2"
      using s1(2) s2(2) unfolding logout_of_def by blast
    then have "\<exists>evs. s_Game s2 = s_Game s @ evs \<and> told_only evs"
      by (intro exI [of _ "es1 @ es2"]) (auto simp: told_only_def)
    moreover have "client s2 j = (if j \<in> set (i # is) \<and> cc_AuthKey (client s j) = Key then logged_out (client s j) else client s j)"
      if j: "j < MAX_CLIENTS" for j
    proof -
      have c2: "client s2 j = (if j \<in> set is \<and> cc_AuthKey (client s1 j) = Key then logged_out (client s1 j) else client s1 j)"
        using s2(2) j by (simp add: logout_of_def)
      show ?thesis
      proof (cases "j = i")
        case True
        have "cc_AuthKey (client s1 j) \<noteq> Key" using c1 [OF j] True Cons.prems(3) by (simp add: logged_out_def)
        with True \<open>cc_AuthKey (client s i) = Key\<close> c1 [OF j] c2 show ?thesis by simp
      qed (use c1 [OF j] c2 in simp)
    qed
    moreover have "Logged_out j (KeyIdent (s_Auth s) (cc_AuthKey (client s j))) \<in> set (s_Game s2)"
      if j: "j < MAX_CLIENTS" "j \<in> set (i # is) \<and> cc_AuthKey (client s j) = Key" for j
    proof (cases "j = i")
      case True
      then show ?thesis using s1(2) i(1) g(3) by (simp add: logout_of_def)
    next
      case False
      then show ?thesis using s1(2) s2(2) j c1 [OF j(1)] by (simp add: logout_of_def)
    qed
    ultimately have "logout_of L (\<lambda>j. j \<in> set (i # is) \<and> cc_AuthKey (client s j) = Key) s s2"
      using s1(2) s2(2) by (simp add: logout_of_def)
    then show ?thesis using True s1(1) s2(1) by (simp add: returns_rules)
  next
    case False
    have "returns (logout_of L (\<lambda>j. j \<in> set is \<and> cc_AuthKey (client s j) = Key) s) (logout_loop e Key pReason is s)"
      using Cons by simp
    moreover have "(\<lambda>j. j \<in> set (i # is) \<and> cc_AuthKey (client s j) = Key) = (\<lambda>j. j \<in> set is \<and> cc_AuthKey (client s j) = Key)"
      using False by auto
    ultimately show ?thesis using False by simp
  qed
qed

lemma LogoutKey_returns:
  assumes "net_ok L s" "\<And>i. i < MAX_CLIENTS \<Longrightarrow> cc_AuthKey (client s i) = Key \<Longrightarrow> occupied s i" "Key \<noteq> -1"
  shows "returns (logout_of L (\<lambda>i. cc_AuthKey (client s i) = Key) s) (LogoutKey e Key pReason s)"
proof -
  have "returns (logout_of L (\<lambda>i. i \<in> set [0..<MAX_CLIENTS] \<and> cc_AuthKey (client s i) = Key) s) (LogoutKey e Key pReason s)"
    unfolding LogoutKey_def by (rule logout_loop_returns) (use assms in auto)
  then show ?thesis by (rule returns_mono) (auto simp: logout_of_def)
qed

lemma keys_occupied:
  assumes "srv_inv L s" "i < MAX_CLIENTS" "cc_AuthKey (client s i) \<noteq> -1"
  shows "occupied s i" "is_slot (s_Auth s) (cc_AuthKey (client s i))"
  using assms by (auto simp: srv_inv_def auth_ok_def key_ok_def occupied_def)

text \<open>Keys that are changed in place: who holds the key is logged out.\<close>

lemma update_logout_fine:
  assumes "srv_inv L s" "is_slot (s_Auth s) Key" "length (am_Keys am) = length (am_Keys (s_Auth s))" "am_Default am = am_Default (s_Auth s)"
    "\<And>d. KeyIdent am d = KeyIdent (s_Auth s) d"
  shows "returns (fine L s) (LogoutKey e Key pReason (s\<lparr>s_Auth := am\<rparr>))"
proof -
  let ?s = "s\<lparr>s_Auth := am\<rparr>"
  have c: "client ?s = client s" "occupied ?s = occupied s" "client_addr ?s = client_addr s"
    by (simp_all add: client_def occupied_def client_addr_def fun_eq_iff)
  have slot: "is_slot am d = is_slot (s_Auth s) d" for d by (simp add: is_slot_def assms(3))
  have n: "net_ok L ?s" using assms(1) c by (simp add: srv_inv_def net_ok_def)
  have key: "Key \<noteq> -1" using assms(2) by (auto simp: is_slot_def)
  have "occupied ?s i" if "i < MAX_CLIENTS" "cc_AuthKey (client ?s i) = Key" for i
    using keys_occupied(1) [OF assms(1) that(1)] that(2) key c by simp
  then have "returns (logout_of L (\<lambda>i. cc_AuthKey (client ?s i) = Key) ?s) (LogoutKey e Key pReason ?s)"
    by (rule LogoutKey_returns [OF n _ key])
  then show ?thesis
  proof (rule returns_mono)
    fix s' assume o: "logout_of L (\<lambda>i. cc_AuthKey (client ?s i) = Key) ?s s'"
    then obtain evs where g: "s_Game s' = s_Game s @ evs" "told_only evs" by (auto simp: logout_of_def)
    have cl: "client s' i = (if cc_AuthKey (client s i) = Key then logged_out (client s i) else client s i)" if "i < MAX_CLIENTS" for i
      using o that c by (simp add: logout_of_def)
    have am: "s_Auth s' = am" "net_ok L s'" using o by (simp_all add: logout_of_def)
    show "fine L s s'"
    proof (rule rights_change_fine [OF am(2) _ _ _ g])
      show "auth_ok s'" using assms(1,4) am(1) cl slot
        by (auto simp: srv_inv_def auth_ok_def defaults_ok_def key_ok_def logged_out_def)
      show "cc_State (client s' i) = cc_State (client s i)" if "i < MAX_CLIENTS" for i
        using cl [OF that] by (simp add: logged_out_def)
      show "login s' i = None \<or> login s' i = login s i" if "i < MAX_CLIENTS" for i
        using cl [OF that] am(1) assms(5) by (simp add: login_def logged_out_def)
    qed
  qed
qed

lemma AuthRemoveKey_returns:
  assumes "srv_inv L s" "is_slot (s_Auth s) Key"
  shows "returns (fine L s) (AuthRemoveKey e Key s)"
proof -
  obtain am where am: "RemoveKey Key (s_Auth s) = Some am" using assms(2) by (simp add: RemoveKey_def)
  let ?s = "s\<lparr>s_Auth := am\<rparr>"
  have c: "client ?s = client s" "occupied ?s = occupied s" "client_addr ?s = client_addr s"
    by (simp_all add: client_def occupied_def client_addr_def fun_eq_iff)
  have n: "net_ok L ?s" using assms(1) c by (simp add: srv_inv_def net_ok_def)
  have key: "Key \<noteq> -1" "0 \<le> Key" using assms(2) by (auto simp: is_slot_def)
  have "occupied ?s i" if "i < MAX_CLIENTS" "cc_AuthKey (client ?s i) = Key" for i
    using keys_occupied(1) [OF assms(1) that(1)] that(2) key c by simp
  from LogoutKey_returns [OF n this key(1)]
  obtain s1 where s1: "LogoutKey e Key (bytes_of ''key removal'') ?s = Some s1" "logout_of L (\<lambda>i. cc_AuthKey (client ?s i) = Key) ?s s1"
    unfolding returns_def by blast
  then obtain evs where g: "s_Game s1 = s_Game s @ evs" "told_only evs" by (auto simp: logout_of_def)
  let ?s2 = "s1\<lparr>s_Clients := map (\<lambda>c. c\<lparr>cc_AuthKey := slot_removed Key (cc_AuthKey c)\<rparr>) (s_Clients s1)\<rparr>"
  have len: "length (s_Clients s1) = MAX_CLIENTS" using s1(2) by (simp add: logout_of_def net_ok_def)
  have cl: "client ?s2 i = (if cc_AuthKey (client s i) = Key then logged_out (client s i)
      else (client s i)\<lparr>cc_AuthKey := slot_removed Key (cc_AuthKey (client s i))\<rparr>)" if "i < MAX_CLIENTS" for i
  proof -
    have "client ?s2 i = (client s1 i)\<lparr>cc_AuthKey := slot_removed Key (cc_AuthKey (client s1 i))\<rparr>"
      using that len by (simp add: client_def)
    moreover have "client s1 i = (if cc_AuthKey (client s i) = Key then logged_out (client s i) else client s i)"
      using s1(2) that c by (simp add: logout_of_def)
    moreover have "slot_removed Key (-1) = -1" using key by (simp add: slot_removed_def)
    ultimately show ?thesis by (simp add: logged_out_def)
  qed
  have am': "s_Auth ?s2 = am" using s1(2) by (simp add: logout_of_def)
  have keys: "KeyIdent am (slot_removed Key k) = KeyIdent (s_Auth s) k" "is_slot am (slot_removed Key k)"
    if "is_slot (s_Auth s) k" "k \<noteq> Key" for k
    using RemoveKey_idents [OF assms(2) am _ that(2)] that(1) by (auto simp: is_slot_def)
  have none: "slot_removed Key k = -1" if "k = -1" for k using that key by (simp add: slot_removed_def)
  have old: "cc_AuthKey (client s i) = -1 \<or> is_slot (s_Auth s) (cc_AuthKey (client s i))" if "i < MAX_CLIENTS" for i
    using keys_occupied(2) [OF assms(1) that] by blast
  have "fine L s ?s2"
  proof (rule rights_change_fine)
    have a: "client_addr ?s2 = client_addr s1" by (simp add: client_addr_def fun_eq_iff)
    have o: "occupied ?s2 i = occupied s1 i" if "i < MAX_CLIENTS" for i
      using that len by (simp add: occupied_def client_def)
    have "net_ok L s1" using s1(2) by (simp add: logout_of_def)
    then show "net_ok L ?s2" unfolding net_ok_def a by (simp add: o)
    have "am_Default am = map (slot_removed Key) (am_Default (s_Auth s))" using am assms(2) by (auto simp: RemoveKey_def)
    moreover have "slot_removed Key k = -1 \<or> is_slot am (slot_removed Key k)" if "k = -1 \<or> is_slot (s_Auth s) k" for k
    proof (cases "k = Key")
      case True
      then show ?thesis by (simp add: slot_removed_def)
    next
      case False
      with that keys(2) [of k] none show ?thesis by blast
    qed
    ultimately have d: "defaults_ok am" using assms(1) by (auto simp: srv_inv_def auth_ok_def defaults_ok_def)
    have ne: "d \<noteq> -1" if "is_slot am d" for d using that by (auto simp: is_slot_def)
    have "key_ok am (client ?s2 i)" if i: "i < MAX_CLIENTS" for i
      using old [OF i] keys none cl [OF i] assms(1) i ne
      by (auto simp: srv_inv_def auth_ok_def key_ok_def logged_out_def dest: spec [of _ i])
    then show "auth_ok ?s2" using am' d assms(1) by (simp add: auth_ok_def srv_inv_def)
    show "cc_State (client ?s2 i) = cc_State (client s i)" if "i < MAX_CLIENTS" for i
      unfolding cl [OF that] by (simp add: logged_out_def)
    show "login ?s2 i = None \<or> login ?s2 i = login s i" if i: "i < MAX_CLIENTS" for i
    proof (cases "cc_AuthKey (client s i) = Key \<or> cc_Authed (client s i) = AUTHED_NO")
      case True
      then show ?thesis unfolding login_def am' cl [OF i] by (auto simp: logged_out_def)
    next
      case False
      then have "cc_AuthKey (client s i) \<noteq> -1" using assms(1) i by (auto simp: srv_inv_def auth_ok_def key_ok_def)
      then have "is_slot (s_Auth s) (cc_AuthKey (client s i))" using old [OF i] by blast
      then show ?thesis using False keys(1) unfolding login_def am' cl [OF i] by auto
    qed
    show "s_Game ?s2 = s_Game s @ evs" using g(1) by simp
  qed (rule g(2))
  then show ?thesis using am s1(1) by (simp add: AuthRemoveKey_def returns_rules)
qed

lemma keys_extended_fine:
  assumes "srv_inv L s" "am_Keys am = am_Keys (s_Auth s) @ ks" "defaults_ok am"
  shows "fine L s (s\<lparr>s_Auth := am\<rparr>)"
proof -
  let ?s = "s\<lparr>s_Auth := am\<rparr>"
  have c: "client ?s = client s" "occupied ?s = occupied s" "client_addr ?s = client_addr s"
    by (simp_all add: client_def occupied_def client_addr_def fun_eq_iff)
  have slot: "is_slot am d" "KeyIdent am d = KeyIdent (s_Auth s) d" if "is_slot (s_Auth s) d" for d
    using that assms(2) by (auto simp: is_slot_def KeyIdent_def nth_append)
  show ?thesis
  proof (rule rights_change_fine [where evs = "[]"])
    show "net_ok L ?s" using assms(1) c by (simp add: srv_inv_def net_ok_def)
    show "auth_ok ?s" using assms(1,3) c slot(1) by (auto simp: srv_inv_def auth_ok_def key_ok_def)
    show "login ?s i = None \<or> login ?s i = login s i" if "i < MAX_CLIENTS" for i
    proof (cases "cc_Authed (client s i) = AUTHED_NO")
      case False
      then have "cc_AuthKey (client s i) \<noteq> -1" using assms(1) that by (auto simp: srv_inv_def auth_ok_def key_ok_def)
      from slot(2) [OF keys_occupied(2) [OF assms(1) that this]] show ?thesis by (simp add: login_def c)
    qed (simp add: login_def c)
  qed (simp_all add: c told_only_def)
qed

lemma AddKeyHash_extends:
  assumes "AddKeyHash am x h s l = (r, am')"
  shows "\<exists>ks. am_Keys am' = am_Keys am @ ks" "am_Default am' = am_Default am"
  using assms by (auto simp: AddKeyHash_def Let_def split: if_splits)

lemma key_added_returns:
  assumes "srv_inv L s" "AddKeyHash (s_Auth s) x h salt l = result"
  shows "returns (fine L s) (key_added e NeedUpdate result s)"
proof -
  obtain r am where res: "result = (r, am)" by fastforce
  obtain ks where ks: "am_Keys am = am_Keys (s_Auth s) @ ks" "am_Default am = am_Default (s_Auth s)"
    using AddKeyHash_extends [of "s_Auth s" x h salt l r am] assms(2) res by auto
  have f: "fine L s (s\<lparr>s_Auth := am\<rparr>)"
    using assms(1) ks by (intro keys_extended_fine [OF assms(1) ks(1)]) (auto simp: srv_inv_def auth_ok_def defaults_ok_def is_slot_def)
  then have inv: "srv_inv L (s\<lparr>s_Auth := am\<rparr>)" by (simp add: fine_def)
  then have "returns (fine L (s\<lparr>s_Auth := am\<rparr>)) (SendRconType e True (-1) (s\<lparr>s_Auth := am\<rparr>))"
    by (intro returns_mono [OF SendRconType_returns [of L]] sent_fine) (simp_all add: srv_inv_def)
  then have "returns (fine L s) (SendRconType e True (-1) (s\<lparr>s_Auth := am\<rparr>))"
    by (rule returns_mono) (rule fine_trans [OF f])
  with f show ?thesis by (simp add: key_added_def res returns_rules Let_def)
qed

lemma UpdateKeyHash_fields:
  "length (am_Keys (UpdateKeyHash d h s l am)) = length (am_Keys am)" "am_Default (UpdateKeyHash d h s l am) = am_Default am"
  "KeyIdent (UpdateKeyHash d h s l am) e = KeyIdent am e"
  by (auto simp: UpdateKeyHash_def KeyIdent_def is_slot_def nth_list_update)

lemma UpdateKeyHash_logout_fine:
  assumes "srv_inv L s" "is_slot (s_Auth s) Key"
  shows "returns (fine L s) (LogoutKey e Key pReason (s\<lparr>s_Auth := UpdateKeyHash Key h salt l (s_Auth s)\<rparr>))"
  by (rule update_logout_fine [OF assms]) (simp_all add: UpdateKeyHash_fields)

lemma UpdateKey_logout_fine:
  assumes "srv_inv L s" "is_slot (s_Auth s) Key"
  shows "returns (fine L s) (LogoutKey e Key pReason (s\<lparr>s_Auth := UpdateKey md5 salt Key pw l (s_Auth s)\<rparr>))"
  using UpdateKeyHash_logout_fine [OF assms] assms(2) by (simp add: UpdateKey_def)

lemma FindKey_slot: "FindKey am x \<noteq> -1 \<Longrightarrow> is_slot am (FindKey am x)"
  by (cases rule: FindKey_cases [of am x]) (simp_all add: is_slot_def)

lemma auth_commands_return:
  assumes "srv_inv L s"
  shows "returns (fine L s) (ConAuthAdd e pIdent pLevel pPw s)" "returns (fine L s) (ConAuthAddHashed e pIdent pLevel pPw pSalt s)"
    "returns (fine L s) (ConAuthUpdate e pIdent pLevel pPw s)" "returns (fine L s) (ConAuthUpdateHashed e pIdent pLevel pPw pSalt s)"
    "returns (fine L s) (ConAuthRemove e pIdent s)"
proof -
  show "returns (fine L s) (ConAuthAdd e pIdent pLevel pPw s)"
    using key_added_returns [OF assms AddKey_def [symmetric]] assms by (simp add: ConAuthAdd_def returns_rules fine_refl)
  show "returns (fine L s) (ConAuthAddHashed e pIdent pLevel pPw pSalt s)"
    using key_added_returns [OF assms refl] assms by (simp add: ConAuthAddHashed_def returns_rules fine_refl split: option.split prod.split)
  show "returns (fine L s) (ConAuthUpdate e pIdent pLevel pPw s)"
    using UpdateKey_logout_fine [OF assms FindKey_slot] assms by (simp add: ConAuthUpdate_def Let_def returns_rules fine_refl)
  show "returns (fine L s) (ConAuthUpdateHashed e pIdent pLevel pPw pSalt s)"
    using UpdateKeyHash_logout_fine [OF assms FindKey_slot] assms
    by (simp add: ConAuthUpdateHashed_def Let_def returns_rules fine_refl split: option.split prod.split)
  have "returns (fine L s) (Option.bind (AuthRemoveKey e (FindKey (s_Auth s) pIdent) s)
      (\<lambda>s. if NumNonDefaultKeys (s_Auth s) = 0 then SendRconType e False (-1) s else Some s))" if "FindKey (s_Auth s) pIdent \<noteq> -1"
  proof (rule fine_then [OF AuthRemoveKey_returns [OF assms FindKey_slot [OF that]]])
    fix x assume "fine L s x"
    then have inv: "srv_inv L x" by (simp add: fine_def)
    then have "returns (fine L x) (SendRconType e False (-1) x)"
      by (intro returns_mono [OF SendRconType_returns [of L]] sent_fine) (simp_all add: srv_inv_def)
    then show "returns (fine L x) (if NumNonDefaultKeys (s_Auth x) = 0 then SendRconType e False (-1) x else Some x)"
      by (simp add: returns_rules fine_refl inv)
  qed
  then show "returns (fine L s) (ConAuthRemove e pIdent s)"
    using assms by (simp add: ConAuthRemove_def Let_def returns_value fine_refl)
qed

lemma AddKeyHash_slot: "AddKeyHash am x h s l = (r, am') \<Longrightarrow> r = -1 \<or> is_slot am' r"
  by (auto simp: AddKeyHash_def Let_def is_slot_def split: if_splits)

lemma AddDefaultKey_extends:
  assumes "defaults_ok am"
  shows "\<exists>ks. am_Keys (AddDefaultKey md5 salt l pw am) = am_Keys am @ ks" "defaults_ok (AddDefaultKey md5 salt l pw am)"
proof -
  let ?k = "nat (AUTHED_ADMIN - l)"
  obtain r am' where add: "AddKey md5 salt am (default_idents ! ?k) pw l = (r, am')" by fastforce
  note hash = add [unfolded AddKey_def]
  have ext: "\<exists>ks. am_Keys am' = am_Keys am @ ks" "am_Default am' = am_Default am" "r = -1 \<or> is_slot am' r"
    using AddKeyHash_extends [OF hash] AddKeyHash_slot [OF hash] by blast+
  have "\<forall>d \<in> set ((am_Default am)[?k := r]). d = -1 \<or> is_slot am' d"
    using assms ext set_update_subset_insert [of "am_Default am" ?k r] by (fastforce simp: defaults_ok_def is_slot_def)
  then have "defaults_ok (am'\<lparr>am_Default := (am_Default am)[?k := r]\<rparr>)"
    using assms by (auto simp: defaults_ok_def is_slot_def)
  then show "\<exists>ks. am_Keys (AddDefaultKey md5 salt l pw am) = am_Keys am @ ks" "defaults_ok (AddDefaultKey md5 salt l pw am)"
    using assms ext by (auto simp: AddDefaultKey_def Let_def add)
qed

lemma password_change_returns:
  assumes "srv_inv L s" "Level \<in> {AUTHED_HELPER, AUTHED_MOD, AUTHED_ADMIN}"
  shows "returns (fine L s) (ConchainRconPasswordChangeGeneric e Level pCurrent argument s)"
proof -
  have ok: "defaults_ok (s_Auth s)" using assms(1) by (simp add: srv_inv_def auth_ok_def)
  obtain d where d: "DefaultKey (s_Auth s) Level = Some d" "d \<in> set (am_Default (s_Auth s))"
    using assms(2) ok by (auto simp: DefaultKey_def authed_levels Let_def defaults_ok_def)
  have slot: "is_slot (s_Auth s) d" if "d \<ge> 0" using ok d(2) that by (auto simp: defaults_ok_def)
  have add: "fine L s (s\<lparr>s_Auth := AddDefaultKey (ev_Md5 e) (ev_Salt e) Level pNew (s_Auth s)\<rparr>)" for pNew
    using AddDefaultKey_extends [OF ok] keys_extended_fine [OF assms(1)] by metis
  show ?thesis
    using AuthRemoveKey_returns [OF assms(1) slot] UpdateKey_logout_fine [OF assms(1) slot] add assms(1)
    by (simp add: ConchainRconPasswordChangeGeneric_def d(1) returns_rules fine_refl split: option.split)
qed

lemma logout_fine:
  assumes "srv_inv L s" "logout_of L Q s s'"
  shows "fine L s s'"
proof -
  obtain evs where g: "s_Game s' = s_Game s @ evs" "told_only evs" using assms(2) by (auto simp: logout_of_def)
  have cl: "client s' i = (if Q i then logged_out (client s i) else client s i)" if "i < MAX_CLIENTS" for i
    using assms(2) that by (simp add: logout_of_def)
  show ?thesis
  proof (rule rights_change_fine [OF _ _ _ _ g])
    show "net_ok L s'" using assms(2) by (simp add: logout_of_def)
    show "auth_ok s'" using assms cl by (auto simp: logout_of_def srv_inv_def auth_ok_def key_ok_def logged_out_def)
    show "login s' i = None \<or> login s' i = login s i" if "i < MAX_CLIENTS" for i
      using cl [OF that] assms(2) by (simp add: login_def logged_out_def logout_of_def)
  qed (simp add: cl logged_out_def)
qed

lemma LogoutClient_fine:
  assumes "srv_inv L s" "i < MAX_CLIENTS" "occupied s i"
  shows "returns (fine L s) (LogoutClient e i pReason s)"
  by (rule returns_mono [OF LogoutClient_returns [OF _ assms(2,3)]]) (use assms(1) logout_fine in \<open>auto simp: srv_inv_def\<close>)

lemma ConLogout_returns: "srv_inv L s \<Longrightarrow> returns (fine L s) (ConLogout e s)"
  using LogoutClient_fine [of L s "nat (s_RconClientId s)" e "[]"]
  by (auto simp: ConLogout_def returns_value fine_refl is_client_id_def nat_less_iff)

section \<open>A connection that is taken over\<close>

lemma Server_SetTimedOut_frame:
  assumes "sv_inv L sv" "i < NET_MAX_CLIENTS" "j < NET_MAX_CLIENTS" "i \<noteq> j" "Server_SetTimedOut i j sv n = Some (r, sv', n')"
  shows "sv_MaxClients sv' = sv_MaxClients sv"
    "k < NET_MAX_CLIENTS \<Longrightarrow> c_PeerAddr (slot sv' k) \<in> {c_PeerAddr (slot sv k), c_PeerAddr (slot sv j)}"
proof -
  have len: "length (sv_Slots sv) = NET_MAX_CLIENTS" using assms(1) by (simp add: sv_inv_def)
  have ok: "conn_ok (slot sv i)" "conn_ok (slot sv j)" using assms(1-3) by (simp_all add: sv_inv_def)
  have "sv' = sv \<or> (\<exists>c c'. c_PeerAddr c = c_PeerAddr (slot sv j) \<and> c_PeerAddr c' = c_PeerAddr (slot sv j) \<and> sv' = set_slot j c' (set_slot i c sv))"
  proof (cases "c_State (slot sv i) = ERROR")
    case True
    let ?orig = "slot sv j"
    obtain rb c n1 where s: "Conn_SetTimedOut (c_PeerAddr ?orig) (c_Sequence ?orig) (c_Ack ?orig) (c_SecurityToken ?orig) (c_Buffer ?orig)
        (c_Resends ?orig) (c_Sixup ?orig) (slot sv i) n = Some (rb, c, n1)" "c_PeerAddr c = c_PeerAddr ?orig"
      using Conn_SetTimedOut_returns [OF ok(2,1)] by blast
    have "slot (set_slot i c sv) j = slot sv j" using assms(3,4) len by (simp add: slot_set_slot)
    moreover have "sv' = set_slot j (Conn_Reset False ((slot (set_slot i c sv) j)\<lparr>c_Buffer := rb\<rparr>)) (set_slot i c sv)"
      using assms(5) True s(1) by (auto simp: Server_SetTimedOut_def Let_def)
    ultimately show ?thesis using s(2)
      by (intro disjI2 exI [of _ c] exI [of _ "Conn_Reset False ((slot sv j)\<lparr>c_Buffer := rb\<rparr>)"]) (simp add: Conn_Reset_def Let_def)
  next
    case False
    then show ?thesis using assms(5) by (simp add: Server_SetTimedOut_def)
  qed
  then show "sv_MaxClients sv' = sv_MaxClients sv"
    "k < NET_MAX_CLIENTS \<Longrightarrow> c_PeerAddr (slot sv' k) \<in> {c_PeerAddr (slot sv k), c_PeerAddr (slot sv j)}"
    using len by (auto simp: slot_set_slot)
qed

lemma SetTimedOut_returns:
  assumes "srv_inv L s" "i < MAX_CLIENTS" "j < MAX_CLIENTS" "occupied s i" "occupied s j" "i \<noteq> j"
    "c_State (slot (s_Net s) j) \<noteq> OFFLINE" "c_State (slot (s_Net s) j) \<noteq> ERROR"
  shows "returns (\<lambda>x. fine L s (snd x)) (SetTimedOut e i j s)"
proof -
  have n: "net_ok L s" "sv_inv L (s_Net s)" using assms(1) by (simp_all add: srv_inv_def net_ok_def)
  have slots: "i < sv_MaxClients (s_Net s)" "j < sv_MaxClients (s_Net s)" "sv_MaxClients (s_Net s) \<le> NET_MAX_CLIENTS"
    using occupied_slot [OF n(1)] assms(2-5) n(2) by (auto simp: sv_inv_def)
  obtain r sv w where t: "Server_SetTimedOut i j (s_Net s) (s_World s) = Some (r, sv, w)" "sv_inv L sv"
    using SetTimedOut_inv [OF n(2) slots(1,2) assms(6-8)] by blast
  have ij: "i < NET_MAX_CLIENTS" "j < NET_MAX_CLIENTS" using slots by simp_all
  note f = Server_SetTimedOut_frame [OF n(2) ij assms(6) t(1)]
  let ?s = "s\<lparr>s_Net := sv, s_World := w\<rparr>"
  have vj: "valid_addr (client_addr s j)" using n(1) assms(3,5) by (simp add: net_ok_def)
  have "valid_addr (client_addr ?s k)" if "k < MAX_CLIENTS" "occupied s k" for k
  proof -
    have "k < NET_MAX_CLIENTS" using occupied_slot [OF n(1) that(2,1)] slots(3) by simp
    from f(2) [OF this] vj n(1) that show ?thesis by (auto simp: net_ok_def client_addr_def)
  qed
  then have "net_ok L ?s" using n(1) t(2) f(1) by (auto simp: net_ok_def occupied_def client_def)
  then have "sent L s ?s" by (intro sentI f(1))
  then have f1: "fine L s ?s" by (rule sent_fine [OF assms(1)])
  show ?thesis
  proof (cases r)
    case False
    then show ?thesis using t(1) f1 by (simp add: SetTimedOut_def returns_rules)
  next
    case True
    have inv1: "srv_inv L ?s" using f1 by (simp add: fine_def)
    let ?s2 = "set_client i (\<lambda>c. c\<lparr>cc_Sixup := cc_Sixup (client ?s j)\<rparr>) ?s"
    have f2: "fine L ?s ?s2" by (rule set_client_plain [OF inv1 assms(2)]) simp_all
    then have inv2: "srv_inv L ?s2" by (simp add: fine_def)
    have c: "client ?s = client s" by (simp add: client_def fun_eq_iff)
    have o2: "occupied ?s2 k = occupied s k" if "k < MAX_CLIENTS" for k
      using that srv_inv_length [OF inv1] by (simp add: occupied_def client_set_client c)
    obtain s3 where s3: "(if cc_Authed (client ?s2 j) \<noteq> AUTHED_NO then LogoutClient e i (bytes_of ''Timeout Protection'') ?s2 else Some ?s2) = Some s3"
      "fine L ?s2 s3" "occupied s3 i" "occupied s3 j"
    proof (cases "cc_Authed (client ?s2 j) \<noteq> AUTHED_NO")
      case True
      have "net_ok L ?s2" "occupied ?s2 i" using inv2 o2 assms(2,4) by (simp_all add: srv_inv_def)
      from LogoutClient_returns [OF this(1) assms(2) this(2), of e "bytes_of ''Timeout Protection''"]
      obtain s3 where s3: "LogoutClient e i (bytes_of ''Timeout Protection'') ?s2 = Some s3" "logout_of L (\<lambda>j. j = i) ?s2 s3"
        by (auto simp: returns_def)
      have "occupied s3 k = occupied ?s2 k" if "k < MAX_CLIENTS" for k
        using s3(2) that by (auto simp: logout_of_def occupied_def logged_out_def)
      then show thesis using that [of s3] s3(1) True logout_fine [OF inv2 s3(2)] o2 assms(2-5) by simp
    next
      case False
      then show thesis using that [of ?s2] fine_refl [OF inv2] o2 assms(2-5) by simp
    qed
    have inv3: "srv_inv L s3" using s3(2) by (simp add: fine_def)
    obtain s4 where s4: "DelClientCallback j (Reason (bytes_of ''Timeout Protection used'')) s3 = Some s4" "fine L s3 s4"
      using DelClientCallback_returns [OF inv3 assms(3) s3(4)] by (auto simp: returns_def)
    have inv4: "srv_inv L s4" using s4(2) by (simp add: fine_def)
    note len4 = srv_inv_length [OF inv4]
    let ?c = "(client s4 i)\<lparr>cc_Authed := AUTHED_NO, cc_Flags := cc_Flags (client s4 j), cc_DDNetVersion := cc_DDNetVersion (client s4 j),
       cc_GotDDNetVersionPacket := cc_GotDDNetVersionPacket (client s4 j), cc_DDNetVersionSettled := cc_DDNetVersionSettled (client s4 j)\<rparr>"
    let ?s5 = "set_client i (\<lambda>c. c\<lparr>cc_Authed := AUTHED_NO, cc_Flags := cc_Flags (client s4 j),
       cc_DDNetVersion := cc_DDNetVersion (client s4 j), cc_GotDDNetVersionPacket := cc_GotDDNetVersionPacket (client s4 j),
       cc_DDNetVersionSettled := cc_DDNetVersionSettled (client s4 j)\<rparr>) s4"
    have cl: "s_Clients ?s5 = (s_Clients s4)[i := ?c]" by (simp add: set_client_def)
    have f5: "fine L s4 ?s5"
    proof (rule rights_change_fine [where evs = "[]"])
      show "net_ok L ?s5" using inv4 by (intro net_ok_upd [OF _ cl]) (simp_all add: srv_inv_def occupied_def)
      show "auth_ok ?s5" using inv4 assms(2) by (intro auth_ok_upd [OF _ len4 cl]) (simp_all add: srv_inv_def auth_ok_def key_ok_def)
      show "cc_State (client ?s5 k) = cc_State (client s4 k)" if "k < MAX_CLIENTS" for k
        using client_upd [OF len4 cl that] by simp
      show "login ?s5 k = None \<or> login ?s5 k = login s4 k" if "k < MAX_CLIENTS" for k
        using client_upd [OF len4 cl that] by (simp add: login_def)
    qed (simp_all add: told_only_def)
    have "fine L s ?s5" using f1 f2 s3(2) s4(2) f5 fine_trans by blast
    moreover have "SetTimedOut e i j s = Some (True, ?s5)"
      using True t(1) s3(1) s4(1) by (simp add: SetTimedOut_def Let_def)
    ultimately show ?thesis by (simp add: returns_rules)
  qed
qed

end
