(* ===== verification/ServerMessages.thy ===== *)
theory ServerMessages
  imports ServerInv
begin

text \<open>
  Every message of a client and every callback of the network returns and keeps the invariant: nobody gains
  anything, but a client that is let in with the right password, and one that logs in with that of a key.
\<close>

section \<open>Messages to and from a client\<close>

text \<open>A step that gives nobody anything and leaves the client where it is, with its rights.\<close>

definition still :: "int \<Rightarrow> nat \<Rightarrow> CServer \<Rightarrow> CServer \<Rightarrow> bool" where
  "still L i s s' \<longleftrightarrow> fine L s s' \<and> cc_State (client s' i) = cc_State (client s i) \<and> cc_Authed (client s' i) = cc_Authed (client s i) \<and>
     cc_AuthKey (client s' i) = cc_AuthKey (client s i) \<and> s_Auth s' = s_Auth s"

lemma still_fine: "still L i s s' \<Longrightarrow> fine L s s'"
  by (simp add: still_def)

lemma still_refl: "srv_inv L s \<Longrightarrow> still L i s s"
  by (simp add: still_def fine_refl)

lemma still_trans: "still L i s s1 \<Longrightarrow> still L i s1 s2 \<Longrightarrow> still L i s s2"
  using fine_trans [of L s s1 s2] by (simp add: still_def)

lemma still_then:
  assumes "returns (still L i s) m"
    "\<And>x. srv_inv L x \<Longrightarrow> cc_State (client x i) = cc_State (client s i) \<Longrightarrow> returns (still L i x) (f x)"
  shows "returns (still L i s) (Option.bind m f)"
  unfolding returns_rules
  by (rule returns_mono [OF assms(1)], rule returns_mono [OF assms(2)]) (auto simp: still_def fine_def intro: evolves_trans)

lemma returns_fine: "returns (still L i s) m \<Longrightarrow> returns (fine L s) m"
  by (erule returns_mono) (rule still_fine)

lemma sent_still: "srv_inv L s \<Longrightarrow> sent L s s' \<Longrightarrow> still L i s s'"
  by (simp add: still_def sent_fine sent_fields)

lemma sends_still:
  assumes "srv_inv L s" "i < MAX_CLIENTS" "occupied s i"
  shows "returns (still L i s) (send_sys e pMsg Flags i s)"
    "returns (still L i s) (SendCapabilities e i s)" "returns (still L i s) (SendMapData e i Chunk s)"
    "returns (still L i s) (SendConnectionReady e i s)" "returns (still L i s) (SendRconLine e pLine i s)"
    "returns (still L i s) (SendRconCmdAdd e cmd i s)" "returns (still L i s) (SendRconCmdRem e cmd i s)"
    "returns (still L i s) (SendRconCmdGroupStart e i s)" "returns (still L i s) (SendRconCmdGroupEnd e i s)"
    "returns (still L i s) (SendMapReload e i s)" "returns (still L i s) (on_ping e Vital pMsg i s)"
proof -
  have n: "net_ok L s" using assms(1) by (simp add: srv_inv_def)
  note slot = occupied_slot [OF n assms(3,2)]
  note m = returns_mono [OF _ sent_still [OF assms(1)]]
  note s = sends_return [OF n slot]
  show "returns (still L i s) (send_sys e pMsg Flags i s)" by (rule m [OF send_sys_returns [OF n slot]])
  show "returns (still L i s) (SendCapabilities e i s)" by (rule m [OF s(1)])
  show "returns (still L i s) (SendMapData e i Chunk s)" by (rule m [OF s(2)])
  show "returns (still L i s) (SendConnectionReady e i s)" by (rule m [OF s(3)])
  show "returns (still L i s) (SendRconLine e pLine i s)" by (rule m [OF s(4)])
  show "returns (still L i s) (SendRconCmdAdd e cmd i s)" by (rule m [OF s(5)])
  show "returns (still L i s) (SendRconCmdRem e cmd i s)" by (rule m [OF s(6)])
  show "returns (still L i s) (SendRconCmdGroupStart e i s)" by (rule m [OF s(7)])
  show "returns (still L i s) (SendRconCmdGroupEnd e i s)" by (rule m [OF s(8)])
  show "returns (still L i s) (SendMapReload e i s)" by (rule m [OF s(9)])
  show "returns (still L i s) (on_ping e Vital pMsg i s)" by (rule m [OF s(10)])
qed

lemma set_client_still:
  assumes "srv_inv L s" "i < MAX_CLIENTS" "cc_State (f (client s i)) = cc_State (client s i)"
    "cc_Authed (f (client s i)) = cc_Authed (client s i)" "cc_AuthKey (f (client s i)) = cc_AuthKey (client s i)"
  shows "still L i s (set_client i f s)"
  using set_client_plain [of L s i f, OF assms] assms(2-5) srv_inv_length [OF assms(1)] by (simp add: still_def client_set_client)

lemma server_time_still: "srv_inv L s \<Longrightarrow> server_time s = (t, s') \<Longrightarrow> still L i s s'"
  by (rule sent_still [OF _ server_time_sent]) (simp_all add: srv_inv_def)

lemma SendMap_still:
  assumes "srv_inv L s" "i < MAX_CLIENTS" "occupied s i"
  shows "returns (still L i s) (SendMap e i s)"
proof -
  have "returns (still L i s) (Option.bind (send_sys e (MapDetails e (IsSixup s i)) MSGFLAG_VITAL i s)
      (\<lambda>s. send_sys e (MapChange e (IsSixup s i)) (MSGFLAG_VITAL OR MSGFLAG_FLUSH) i s))"
    by (intro still_then sends_still) (use assms in \<open>auto simp: occupied_def\<close>)
  then have "returns (still L i s) (Option.bind (Option.bind (send_sys e (MapDetails e (IsSixup s i)) MSGFLAG_VITAL i s)
      (\<lambda>s. send_sys e (MapChange e (IsSixup s i)) (MSGFLAG_VITAL OR MSGFLAG_FLUSH) i s))
      (\<lambda>s. Some (set_client i (\<lambda>c. c\<lparr>cc_NextMapChunk := 0\<rparr>) s)))"
    by (rule still_then) (simp add: returns_rules, rule set_client_still, simp_all add: assms(2))
  then show ?thesis by (simp add: SendMap_def)
qed

lemma send_rcon_cmds_still:
  "srv_inv L s \<Longrightarrow> i < MAX_CLIENTS \<Longrightarrow> occupied s i \<Longrightarrow> returns (still L i s) (send_rcon_cmds e lvl n i s)"
proof (induction n arbitrary: s)
  case (Suc n)
  show ?case
  proof (cases "cc_RconCmdToSend (client s i)")
    case (Some k)
    let ?f = "\<lambda>c. c\<lparr>cc_RconCmdToSend := NextCommandInfo e lvl k\<rparr>"
    have "returns (still L i x) (let s = set_client i ?f x in Option.bind
        (if NextCommandInfo e lvl k = None then SendRconCmdGroupEnd e i s else Some s) (send_rcon_cmds e lvl n i))"
      if x: "srv_inv L x" "occupied x i" for x
    proof -
      have f: "still L i x (set_client i ?f x)" by (rule set_client_still [OF x(1) Suc.prems(2)]) simp_all
      then have inv: "srv_inv L (set_client i ?f x)" "occupied (set_client i ?f x) i"
        using x(2) by (simp_all add: still_def fine_def occupied_def)
      have "returns (still L i (set_client i ?f x)) (Option.bind
          (if NextCommandInfo e lvl k = None then SendRconCmdGroupEnd e i (set_client i ?f x) else Some (set_client i ?f x))
          (send_rcon_cmds e lvl n i))"
        using sends_still(9) [OF inv(1) Suc.prems(2) inv(2)] still_refl [OF inv(1)] inv
        by (intro still_then Suc.IH Suc.prems(2)) (auto simp: returns_value occupied_def)
      then show ?thesis unfolding Let_def by (rule returns_mono) (rule still_trans [OF f])
    qed
    then have "returns (still L i s) (Option.bind (SendRconCmdAdd e (ev_Commands e ! k) i s)
        (\<lambda>s. let s = set_client i ?f s in Option.bind
        (if NextCommandInfo e lvl k = None then SendRconCmdGroupEnd e i s else Some s) (send_rcon_cmds e lvl n i)))"
      using Suc.prems by (intro still_then sends_still) (auto simp: occupied_def)
    then show ?thesis by (simp add: Some)
  qed (use Suc.prems in \<open>simp add: returns_rules still_refl\<close>)
qed (simp add: returns_rules still_refl)

lemma UpdateClientRconCommands_returns: "srv_inv L s \<Longrightarrow> i < MAX_CLIENTS \<Longrightarrow> returns (fine L s) (UpdateClientRconCommands e i s)"
  by (auto simp: UpdateClientRconCommands_def returns_value fine_refl occupied_def intro!: returns_fine send_rcon_cmds_still)

lemma send_map_chunks_still:
  "srv_inv L s \<Longrightarrow> i < MAX_CLIENTS \<Longrightarrow> occupied s i \<Longrightarrow> returns (still L i s) (send_map_chunks e i ks s)"
proof (induction ks arbitrary: s)
  case (Cons k ks)
  then show ?case by (auto intro!: still_then sends_still Cons.IH simp: occupied_def)
qed (simp add: returns_rules still_refl)

lemma send_info_parts_returns:
  "net_ok L s \<Longrightarrow> returns (sent L s) (send_info_parts addr tok header pieces s)"
proof (induction pieces arbitrary: s header)
  case (Cons piece pieces)
  define p where "p = AddRaw (AddString (AddRaw new_packer header) (bytes_of (decimal tok)) 0 True) piece"
  define chunk where "chunk = \<lparr>ch_ClientId = -1, ch_Address = addr, ch_Flags = NETSENDFLAG_CONNLESS,
                   ch_DataSize = length (m_Written p), ch_pData = 0, ch_aExtraData = []\<rparr>"
  have n: "sv_inv L (s_Net s)" using Cons.prems by (simp add: net_ok_def)
  have range: "ch_Flags chunk AND NETSENDFLAG_CONNLESS \<noteq> 0 \<or> 0 \<le> ch_ClientId chunk \<and> ch_ClientId chunk < int (sv_MaxClients (s_Net s))"
    by (simp add: chunk_def NETSENDFLAG_CONNLESS_def)
  obtain r sv w where send: "Server_Send chunk (m_Written p) (s_Net s) (s_World s) = Some (r, sv, w)"
    using Server_Send_inv [OF n range] by blast
  note f = Server_Send_frame [OF n range send]
  have s: "sent L s (s\<lparr>s_Net := sv, s_World := w\<rparr>)" by (rule net_step_ok [OF Cons.prems f])
  then have "returns (sent L (s\<lparr>s_Net := sv, s_World := w\<rparr>)) (send_info_parts addr tok SERVERBROWSE_INFO_EXTENDED_MORE pieces (s\<lparr>s_Net := sv, s_World := w\<rparr>))"
    by (intro Cons.IH) (simp add: sent_fields)
  then show ?case
    by (auto simp: Let_def send [unfolded chunk_def p_def] intro: returns_mono sent_trans [OF s])
qed (simp add: returns_rules sent_refl)

section \<open>Connecting and entering\<close>

text \<open>A step in which only the client \<open>i\<close> may get past the password.\<close>

definition enters :: "int \<Rightarrow> nat \<Rightarrow> CServer \<Rightarrow> CServer \<Rightarrow> bool" where
  "enters L i s s' \<longleftrightarrow> srv_inv L s' \<and> no_gain s s' \<and> in_order s s' \<and>
     (\<forall>j < MAX_CLIENTS. j \<noteq> i \<longrightarrow> cc_State (client s' j) \<ge> STATE_CONNECTING \<longrightarrow> cc_State (client s j) \<ge> STATE_CONNECTING)"

lemma fine_enters: "fine L s s' \<Longrightarrow> enters L i s s'"
  by (simp add: fine_def evolves_def enters_def no_entry_def)

lemma enters_fine: "enters L i s s1 \<Longrightarrow> fine L s1 s2 \<Longrightarrow> enters L i s s2"
  unfolding enters_def fine_def evolves_def no_entry_def by (metis no_gain_trans in_order_trans)

lemma enters_no_entry:
  "enters L i s s' \<Longrightarrow> (cc_State (client s' i) \<ge> STATE_CONNECTING \<Longrightarrow> cc_State (client s i) \<ge> STATE_CONNECTING) \<Longrightarrow> fine L s s'"
  unfolding enters_def fine_def evolves_def no_entry_def by blast

text \<open>A client changes its state behind the back of the game.\<close>

lemma set_client_enters:
  assumes "srv_inv L s" "i < MAX_CLIENTS" "cc_State (f (client s i)) \<noteq> STATE_EMPTY" "occupied s i"
    "state_phase (cc_State (f (client s i))) = state_phase (cc_State (client s i))"
    "cc_Authed (f (client s i)) = cc_Authed (client s i) \<and> cc_AuthKey (f (client s i)) = cc_AuthKey (client s i) \<or>
     cc_Authed (f (client s i)) = AUTHED_NO \<and> cc_AuthKey (f (client s i)) = -1"
  shows "enters L i s (set_client i f s)"
proof -
  note len = srv_inv_length [OF assms(1)]
  let ?c = "f (client s i)"
  have cl: "s_Clients (set_client i f s) = (s_Clients s)[i := ?c]" by (simp add: set_client_def)
  have "net_ok L (set_client i f s)" using assms(1,4) by (intro net_ok_upd [OF _ cl]) (simp_all add: srv_inv_def)
  moreover have "auth_ok (set_client i f s)"
    using assms by (intro auth_ok_upd [OF _ len cl]) (auto simp: srv_inv_def auth_ok_def key_ok_def)
  moreover have "no_gain s (set_client i f s)" using assms(6) by (intro no_gain_upd [OF len cl]) auto
  moreover have "in_order s (set_client i f s)"
    using phases_upd [OF len assms(2) cl] assms(2,5) by (intro in_order_same) (auto simp: fun_eq_iff phases_def)
  moreover have "client (set_client i f s) j = client s j" if "j < MAX_CLIENTS" "j \<noteq> i" for j
    using client_upd [OF len cl that(1)] that(2) by simp
  ultimately show ?thesis by (simp add: enters_def srv_inv_def)
qed

lemma on_clientver_fine:
  assumes "srv_inv L s" "i < MAX_CLIENTS"
  shows "fine L s (on_clientver Vital u i s)"
proof -
  have "fine L s (set_client i f s)"
    if "cc_State (client s i) = STATE_PREAUTH" "cc_State (f (client s i)) = STATE_AUTH" "cc_Authed (f (client s i)) = cc_Authed (client s i)"
      "cc_AuthKey (f (client s i)) = cc_AuthKey (client s i)" for f
    using that assms srv_inv_length [OF assms(1)]
    by (intro enters_no_entry [OF set_client_enters [OF assms]]) (simp_all add: occupied_def client_set_client)
  then show ?thesis by (auto simp: on_clientver_def fine_refl assms Let_def split: prod.split)
qed

lemma on_ready_returns:
  assumes "srv_inv L s" "i < MAX_CLIENTS" "occupied s i"
  shows "returns (fine L s) (on_ready e Vital i s)"
proof (cases "Vital \<and> cc_State (client s i) = STATE_CONNECTING")
  case True
  note len = srv_inv_length [OF assms(1)]
  let ?f = "\<lambda>c. c\<lparr>cc_HasPersistentData := False, cc_State := STATE_READY\<rparr>"
  let ?ev = "OnClientConnected i (cc_HasPersistentData (client s i))"
  let ?s = "tell_game ?ev (set_client i ?f s)"
  have cl: "s_Clients ?s = (s_Clients s)[i := ?f (client s i)]" by (simp add: set_client_def)
  have "net_ok L ?s" using assms(1,3) by (intro net_ok_upd [OF _ cl]) (simp_all add: srv_inv_def)
  moreover have "auth_ok ?s" using assms by (intro auth_ok_upd [OF _ len cl]) (auto simp: srv_inv_def auth_ok_def key_ok_def)
  moreover have "no_gain s ?s" by (rule no_gain_upd [OF len cl]) simp_all
  moreover have "no_entry s ?s" using True by (intro no_entry_upd [OF len cl]) simp
  moreover have "in_order s ?s"
    using phases_upd [OF len assms(2) cl] True assms(2) by (intro in_order_told [of _ _ ?ev]) (simp_all add: phases_def)
  ultimately have f: "fine L s ?s" by (simp add: fine_def evolves_def srv_inv_def)
  have "occupied ?s i" using client_upd [OF len cl assms(2)] by (simp add: occupied_def)
  then have "returns (fine L ?s) (SendConnectionReady e i ?s)"
    using f by (intro returns_fine [OF sends_still(4) [OF _ assms(2)]]) (simp_all add: fine_def)
  then have "returns (fine L s) (SendConnectionReady e i ?s)" by (rule returns_mono) (rule fine_trans [OF f])
  then show ?thesis using True by (simp add: on_ready_def)
next
  case False
  have "returns (fine L s) (SendConnectionReady e i s)" by (rule returns_fine [OF sends_still(4) [OF assms]])
  then show ?thesis using False by (simp only: on_ready_def if_False)
qed

lemma on_entergame_returns:
  assumes "srv_inv L s" "i < MAX_CLIENTS"
  shows "returns (fine L s) (on_entergame e Vital i s)"
proof (cases "Vital \<and> cc_State (client s i) = STATE_READY \<and> ev_IsClientReady e (s_Game s) i")
  case True
  note len = srv_inv_length [OF assms(1)]
  let ?f = "\<lambda>c. c\<lparr>cc_State := STATE_INGAME\<rparr>"
  let ?s1 = "set_client i ?f s"
  have cl: "s_Clients ?s1 = (s_Clients s)[i := ?f (client s i)]" by (simp add: set_client_def)
  have occ: "occupied s i" using True by (simp add: occupied_def)
  have n: "net_ok L ?s1" using assms(1) occ by (intro net_ok_upd [OF _ cl]) (simp_all add: srv_inv_def)
  have "occupied ?s1 i" using client_upd [OF len cl assms(2)] by (simp add: occupied_def)
  note slot = occupied_slot [OF n this assms(2)]
  have "returns (sent L ?s1) (if \<not> IsSixup ?s1 i
        then send_info_parts (client_addr ?s1 i) (-1) SERVERBROWSE_INFO_EXTENDED (ev_ServerInfo e) ?s1
        else send_sys e (Msg_AddRaw (ev_SixupServerInfo e) (sevens_packer NETMSG7_SERVERINFO)) (MSGFLAG_VITAL OR MSGFLAG_FLUSH) i ?s1)"
    by (simp only: returns_value(3) send_info_parts_returns [OF n] send_sys_returns [OF n slot] if_cancel)
  then obtain s2 where s2: "(if \<not> IsSixup ?s1 i
        then send_info_parts (client_addr ?s1 i) (-1) SERVERBROWSE_INFO_EXTENDED (ev_ServerInfo e) ?s1
        else send_sys e (Msg_AddRaw (ev_SixupServerInfo e) (sevens_packer NETMSG7_SERVERINFO)) (MSGFLAG_VITAL OR MSGFLAG_FLUSH) i ?s1) = Some s2"
    "sent L ?s1 s2"
    unfolding returns_def by blast
  note f = sent_fields [OF s2(2)]
  let ?s3 = "tell_game (OnClientEnter i) s2"
  have cl3: "s_Clients ?s3 = (s_Clients s)[i := ?f (client s i)]" using f(1) cl by simp
  have "client ?s3 = client ?s1" "occupied ?s3 = occupied ?s1" using f by simp_all
  then have "net_ok L ?s3" using f(11) unfolding net_ok_def by (simp add: f)
  moreover have "auth_ok ?s3" using assms f by (intro auth_ok_upd [OF _ len cl3]) (auto simp: srv_inv_def auth_ok_def key_ok_def)
  moreover have "no_gain s ?s3" using f by (intro no_gain_upd [OF len cl3]) simp_all
  moreover have "no_entry s ?s3" using True by (intro no_entry_upd [OF len cl3]) simp
  moreover have "in_order s ?s3"
    using phases_upd [OF len assms(2) cl3] True assms(2) f by (intro in_order_told [of _ _ "OnClientEnter i"]) (simp_all add: phases_def)
  ultimately have "fine L s ?s3" by (simp add: fine_def evolves_def srv_inv_def)
  moreover have "on_entergame e Vital i s = Some ?s3" using True s2(1) by (simp add: on_entergame_def Let_def)
  ultimately show ?thesis by (simp add: returns_value)
next
  case False
  then show ?thesis by (simp only: on_entergame_def if_False returns_value fine_refl [OF assms(1)])
qed

lemma on_request_map_data_returns:
  assumes "srv_inv L s" "i < MAX_CLIENTS"
  shows "returns (fine L s) (on_request_map_data e Vital u i s)"
proof (cases "\<not> Vital \<or> cc_State (client s i) < STATE_CONNECTING")
  case True
  then show ?thesis by (simp only: on_request_map_data_def Let_def if_True returns_value fine_refl [OF assms(1)])
next
  case False
  then have occ: "occupied s i" by (auto simp: occupied_def)
  have set: "returns (still L i x) (Some (set_client i (next_map_chunk n) x))" if "srv_inv L x" for n x
    by (simp add: returns_value, rule set_client_still [OF that assms(2)]) (simp_all add: next_map_chunk_def)
  have one: "returns (still L i s) (map_option (set_client i (next_map_chunk n)) (send_map_chunks e i ks s))" for n ks
    using still_then [OF send_map_chunks_still [OF assms occ] set] by (simp add: returns_rules)
  have two: "returns (still L i s) (Option.bind (if b then send_map_chunks e i ks s else Some s)
      (\<lambda>s. Option.bind (SendMapData e i k s) (\<lambda>s. Some (set_client i (next_map_chunk 1) s))))" for b ks k
    using send_map_chunks_still [OF assms occ] still_refl [OF assms(1)] assms(2) occ
    by (intro still_then sends_still set) (auto simp: returns_value occupied_def)
  have three: "returns (still L i s) (SendMapData e i k s)" for k by (rule sends_still [OF assms occ])
  obtain Chunk u' where u': "GetInt u = (Chunk, u')" by fastforce
  show ?thesis
    unfolding on_request_map_data_def Let_def u'
    by (simp only: False if_False prod.case returns_value(1,3) returns_fine [OF one] returns_fine [OF two] returns_fine [OF three]
        fine_refl [OF assms(1)] if_cancel)
qed

section \<open>The password\<close>

text \<open>What lets a client in: the version and the password are right, and the slot is free for it.\<close>

definition admitted :: "srv_env \<Rightarrow> u8 list \<Rightarrow> unpacker \<Rightarrow> nat \<Rightarrow> CServer \<Rightarrow> bool" where
  "admitted e Stale u i s \<longleftrightarrow> (\<exists>pVersion u1 pPassword u2. GetString u SANITIZE_CC = (pVersion, u1) \<and>
     GetString u1 SANITIZE_CC = (pPassword, u2) \<and> \<not> m_UError u2 \<and> pVersion \<in> {ev_NetVersion e, SIXUP_NETVERSION} \<and>
     (ev_Password e = [] \<or> pPassword = ev_Password e) \<and>
     (int i < int (sv_MaxClients (s_Net s)) - ev_SvReservedSlots e \<or>
      CheckReservedSlotAuth e pPassword (takeWhile (\<lambda>b. b \<noteq> 0) (Remaining u2 @ Stale)) s))"

lemma returns_if: "(b \<Longrightarrow> returns P m) \<Longrightarrow> (\<not> b \<Longrightarrow> returns P m') \<Longrightarrow> returns P (if b then m else m')"
  by simp

lemma SendRconType_still:
  assumes "srv_inv L s" "i < MAX_CLIENTS" "occupied s i"
  shows "returns (still L i s) (SendRconType e b (int i) s)"
proof -
  have n: "net_ok L s" using assms(1) by (simp add: srv_inv_def)
  show ?thesis
    by (rule returns_mono [OF SendRconType_returns [OF n] sent_still [OF assms(1)]]) (simp add: occupied_slot [OF n assms(3,2)])
qed

lemma let_in_enters:
  assumes "srv_inv L s" "i < MAX_CLIENTS" "cc_State (client s i) = STATE_PREAUTH \<or> cc_State (client s i) = STATE_AUTH"
  shows "returns (\<lambda>s'. enters L i s s' \<and> cc_State (client s' i) = STATE_CONNECTING)
    (let s = set_client i (\<lambda>c. c\<lparr>cc_State := STATE_CONNECTING\<rparr>) s in
    Option.bind (SendRconType e (b s) (int i) s) (\<lambda>s. Option.bind (SendCapabilities e i s) (SendMap e i)))"
proof -
  let ?s = "set_client i (\<lambda>c. c\<lparr>cc_State := STATE_CONNECTING\<rparr>) s"
  have f: "enters L i s ?s" using assms(3) by (intro set_client_enters [OF assms(1,2)]) (auto simp: occupied_def)
  then have inv: "srv_inv L ?s" by (simp add: enters_def)
  have state: "cc_State (client ?s i) = STATE_CONNECTING" using assms(2) srv_inv_length [OF assms(1)] by (simp add: client_set_client)
  then have occ: "occupied ?s i" by (simp add: occupied_def)
  have "returns (still L i ?s) (Option.bind (SendRconType e (b ?s) (int i) ?s) (\<lambda>s. Option.bind (SendCapabilities e i s) (SendMap e i)))"
    by (intro still_then SendRconType_still sends_still SendMap_still inv assms(2) occ) (use occ in \<open>simp_all add: occupied_def\<close>)
  then show ?thesis
    unfolding Let_def by (rule returns_mono) (use state enters_fine [OF f] in \<open>auto simp: still_def\<close>)
qed

lemma on_info_returns:
  assumes "srv_inv L s" "i < MAX_CLIENTS" "occupied s i"
  shows "returns (\<lambda>s'. enters L i s s' \<and> (\<not> fine L s s' \<longrightarrow> Vital \<and> admitted e Stale u i s)) (on_info e Vital Stale u i s)"
    (is "returns ?P _")
proof (cases "Vital \<and> (cc_State (client s i) = STATE_PREAUTH \<or> cc_State (client s i) = STATE_AUTH)")
  case True
  obtain pVersion u1 where u1: "GetString u SANITIZE_CC = (pVersion, u1)" by fastforce
  obtain pPassword u2 where u2: "GetString u1 SANITIZE_CC = (pPassword, u2)" by fastforce
  have same: "?P s" using fine_enters [OF fine_refl [OF assms(1)]] fine_refl [OF assms(1)] by simp
  have drop: "returns ?P (server_drop i r s)" for r
    by (rule returns_mono [OF server_drop_fine [OF assms]]) (simp add: fine_enters)
  have enter: "returns ?P (let s = set_client i (\<lambda>c. c\<lparr>cc_State := STATE_CONNECTING\<rparr>) s in
    Option.bind (SendRconType e (NumNonDefaultKeys (s_Auth s) > 0) (int i) s) (\<lambda>s. Option.bind (SendCapabilities e i s) (SendMap e i)))"
    if "admitted e Stale u i s"
    using True that by (intro returns_mono [OF let_in_enters [OF assms(1,2)]]) auto
  have ok: "admitted e Stale u i s"
    if "\<not> m_UError u2" "pVersion = ev_NetVersion e \<or> pVersion = SIXUP_NETVERSION" "ev_Password e = [] \<or> ev_Password e = pPassword"
      "\<not> (int i \<ge> int (sv_MaxClients (s_Net s)) - ev_SvReservedSlots e \<and>
        \<not> CheckReservedSlotAuth e pPassword (takeWhile (\<lambda>b. b \<noteq> 0) (Remaining u2 @ Stale)) s)"
    unfolding admitted_def
    by (intro exI [of _ pVersion] exI [of _ u1] exI [of _ pPassword] exI [of _ u2]) (use that u1 u2 in auto)
  have "on_info e Vital Stale u i s = (if m_UError u1 then Some s
      else if pVersion \<noteq> ev_NetVersion e \<and> pVersion \<noteq> SIXUP_NETVERSION then server_drop i (Reason (wrong_version e pVersion)) s
      else if m_UError u2 then Some s
      else if ev_Password e \<noteq> [] \<and> ev_Password e \<noteq> pPassword then server_drop i (Reason (bytes_of ''Wrong password'')) s
      else if int i \<ge> int (sv_MaxClients (s_Net s)) - ev_SvReservedSlots e \<and>
        \<not> CheckReservedSlotAuth e pPassword (takeWhile (\<lambda>b. b \<noteq> 0) (Remaining u2 @ Stale)) s
      then server_drop i (Reason (bytes_of ''This server is full'')) s
      else let s = set_client i (\<lambda>c. c\<lparr>cc_State := STATE_CONNECTING\<rparr>) s in
        Option.bind (SendRconType e (NumNonDefaultKeys (s_Auth s) > 0) (int i) s) (\<lambda>s. Option.bind (SendCapabilities e i s) (SendMap e i)))"
    using True by (simp only: on_info_def u1 u2 Let_def prod.case simp_thms if_False)
  then show ?thesis
    by (simp only:) (intro returns_if drop enter ok; use same in \<open>simp only: returns_value; blast\<close>)
next
  case False
  have "on_info e Vital Stale u i s = Some s" by (simp only: on_info_def False if_True not_False_eq_True)
  then show ?thesis using fine_enters [OF fine_refl [OF assms(1)]] fine_refl [OF assms(1)] by (simp add: returns_value)
qed

lemma on_info_admits:
  assumes "srv_inv L s" "i < MAX_CLIENTS" "cc_State (client s i) = STATE_PREAUTH \<or> cc_State (client s i) = STATE_AUTH"
    "admitted e Stale u i s"
  shows "returns (\<lambda>s'. cc_State (client s' i) = STATE_CONNECTING) (on_info e True Stale u i s)"
proof -
  obtain pVersion u1 pPassword u2 where a: "GetString u SANITIZE_CC = (pVersion, u1)" "GetString u1 SANITIZE_CC = (pPassword, u2)"
    "\<not> m_UError u2" "pVersion \<in> {ev_NetVersion e, SIXUP_NETVERSION}" "ev_Password e = [] \<or> pPassword = ev_Password e"
    "int i < int (sv_MaxClients (s_Net s)) - ev_SvReservedSlots e \<or>
      CheckReservedSlotAuth e pPassword (takeWhile (\<lambda>b. b \<noteq> 0) (Remaining u2 @ Stale)) s"
    using assms(4) unfolding admitted_def by blast
  have "\<not> m_UError u1" using a(2,3) by (auto simp: GetString_def)
  then have "on_info e True Stale u i s = (let s = set_client i (\<lambda>c. c\<lparr>cc_State := STATE_CONNECTING\<rparr>) s in
      Option.bind (SendRconType e (NumNonDefaultKeys (s_Auth s) > 0) (int i) s) (\<lambda>s. Option.bind (SendCapabilities e i s) (SendMap e i)))"
    using a assms(3) unfolding on_info_def by (auto simp: Let_def)
  then show ?thesis
    by (simp only:) (rule returns_mono [OF let_in_enters [OF assms(1-3), of e "\<lambda>s. NumNonDefaultKeys (s_Auth s) > 0"]], simp)
qed

section \<open>Input\<close>

lemma set_latency_still: "srv_inv L s \<Longrightarrow> i < MAX_CLIENTS \<Longrightarrow> still L i s (set_latency i s)"
proof (cases "Storage_Get (cc_LastAckedSnapshot (client s i)) (cc_Snapshots (client s i))")
  case (Some h)
  assume a: "srv_inv L s" "i < MAX_CLIENTS"
  obtain t s1 where t: "server_time s = (t, s1)" by fastforce
  note f = server_time_still [OF a(1) t]
  have "still L i s1 (set_client i (\<lambda>c. c\<lparr>cc_Latency := x\<rparr>) s1)" for x
    by (rule set_client_still) (use f a(2) in \<open>simp_all add: still_def fine_def\<close>)
  then show ?thesis by (simp add: set_latency_def Some t still_trans [OF f])
qed (simp add: set_latency_def still_refl)

lemma report_timing_still:
  assumes "srv_inv L s" "i < MAX_CLIENTS" "occupied s i"
  shows "returns (still L i s) (report_timing e tick i s)"
proof -
  obtain t s1 where t: "server_time s = (t, s1)" by fastforce
  note f = server_time_still [OF assms(1) t, of i]
  have "returns (still L i s1) (send_sys e Msg Flags i s1)" for Msg Flags
    by (rule sends_still) (use f assms(2,3) in \<open>simp_all add: still_def fine_def occupied_def\<close>)
  then have "returns (still L i s) (send_sys e Msg Flags i s1)" for Msg Flags by (rule returns_mono) (rule still_trans [OF f])
  then show ?thesis using assms(1) by (simp add: report_timing_def t returns_value still_refl)
qed

lemma told_fine:
  assumes "srv_inv L s" "told ev (phases s) = Some (phases s)"
  shows "fine L s (tell_game ev s)"
proof -
  have "phases (tell_game ev s) = phases s" by (simp add: phases_def fun_eq_iff)
  then have "in_order s (tell_game ev s)" using assms(2) by (intro in_order_told [of _ _ ev]) simp_all
  then show ?thesis using assms(1)
    by (simp add: fine_def evolves_def no_gain_def no_entry_def login_def srv_inv_def net_ok_def auth_ok_def)
qed

lemma store_input_fine:
  assumes "srv_inv L s" "i < MAX_CLIENTS"
  shows "fine L s (store_input e tick Size u i s)"
proof -
  have set: "fine L x (set_client i f x)"
    if "srv_inv L x" "\<And>c. cc_State (f c) = cc_State c \<and> cc_Authed (f c) = cc_Authed c \<and> cc_AuthKey (f c) = cc_AuthKey c" for f x
    by (rule set_client_plain [OF that(1) assms(2)]) (simp_all add: that(2))
  have in1: "cc_State (set_input k g c) = cc_State c \<and> cc_Authed (set_input k g c) = cc_Authed c \<and> cc_AuthKey (set_input k g c) = cc_AuthKey c" for k g c
    by (simp add: set_input_def)
  obtain xs u' where r: "read_ints (nat (Size sdiv 4)) u = (xs, u')" by fastforce
  define k where "k = cc_CurrentInput (client s i)"
  define s1 where "s1 = set_client i (set_input k (\<lambda>input. input\<lparr>in_GameTick := (if tick \<le> s_Tick s then s_Tick s + 1 else tick),
      in_aData := xs @ drop (length xs) (in_aData input)\<rparr>)) s"
  define s2 where "s2 = set_client i (set_input k (\<lambda>input. input\<lparr>in_aData := ev_PrepareInput e i (in_aData input)\<rparr>)) s1"
  define s3 where "s3 = set_client i (\<lambda>c. c\<lparr>cc_LatestInput := in_aData (cc_aInputs c ! k), cc_CurrentInput := (k + 1) mod 200\<rparr>) s2"
  have 1: "fine L s s1" unfolding s1_def by (rule set [OF assms(1) in1])
  then have "fine L s1 s2" unfolding s2_def by (intro set [OF _ in1]) (simp add: fine_def)
  with 1 have 2: "fine L s s2" by (rule fine_trans)
  then have "fine L s2 s3" unfolding s3_def by (intro set) (simp_all add: fine_def)
  with 2 have 3: "fine L s s3" by (rule fine_trans)
  have "fine L s3 (tell_game (OnClientDirectInput i d) s3)" if "cc_State (client s3 i) = STATE_INGAME" for d
    by (rule told_fine) (use 3 that assms(2) in \<open>simp_all add: fine_def phases_def\<close>)
  with 3 have 4: "fine L s (tell_game (OnClientDirectInput i d) s3)" if "cc_State (client s3 i) = STATE_INGAME" for d
    using that fine_trans by blast
  have "store_input e tick Size u i s = (if m_UError u' then s1 else if cc_State (client s3 i) = STATE_INGAME
      then tell_game (OnClientDirectInput i (cc_LatestInput (client s3 i))) s3 else s3)"
    by (simp only: store_input_def Let_def r prod.case k_def [symmetric] s1_def [symmetric] s2_def [symmetric] s3_def [symmetric])
  then show ?thesis using 1 3 4 by simp
qed

lemma on_input_returns:
  assumes "srv_inv L s" "i < MAX_CLIENTS" "occupied s i"
  shows "returns (fine L s) (on_input e u i s)"
proof -
  let ?go = "\<lambda>Last tick Size u. let s = set_client i (\<lambda>c. c\<lparr>cc_LastAckedSnapshot := sint Last,
                     cc_SnapRate := (if sint Last > 0 then SNAPRATE_FULL else cc_SnapRate c)\<rparr>) s in
           Option.bind (report_timing e tick i (set_latency i s)) (\<lambda>s. let s = set_client i (\<lambda>c. c\<lparr>cc_LastInputTick := tick\<rparr>) s in
           Some (store_input e tick Size u i s))"
  have "returns (fine L s) (?go Last tick Size u)" for Last :: i32 and tick Size u
  proof -
    let ?s1 = "set_client i (\<lambda>c. c\<lparr>cc_LastAckedSnapshot := sint Last, cc_SnapRate := (if sint Last > 0 then SNAPRATE_FULL else cc_SnapRate c)\<rparr>) s"
    let ?s2 = "set_latency i ?s1"
    have 1: "still L i s ?s1" by (rule set_client_still [OF assms(1,2)]) simp_all
    then have "still L i ?s1 ?s2" by (intro set_latency_still assms(2)) (simp add: still_def fine_def)
    with 1 have 2: "still L i s ?s2" by (rule still_trans)
    then have inv: "srv_inv L ?s2" "occupied ?s2 i" using assms(3) by (simp_all add: still_def fine_def occupied_def)
    have "returns (fine L ?s2) (Option.bind (report_timing e tick i ?s2)
        (\<lambda>s. let s = set_client i (\<lambda>c. c\<lparr>cc_LastInputTick := tick\<rparr>) s in Some (store_input e tick Size u i s)))"
    proof (rule fine_then [OF returns_fine [OF report_timing_still [OF inv(1) assms(2) inv(2)]]])
      fix x assume "fine L ?s2 x"
      then have x: "srv_inv L x" by (simp add: fine_def)
      have 3: "fine L x (set_client i (\<lambda>c. c\<lparr>cc_LastInputTick := tick\<rparr>) x)" by (rule set_client_plain [OF x assms(2)]) simp_all
      then have "fine L (set_client i (\<lambda>c. c\<lparr>cc_LastInputTick := tick\<rparr>) x) (store_input e tick Size u i (set_client i (\<lambda>c. c\<lparr>cc_LastInputTick := tick\<rparr>) x))"
        by (intro store_input_fine assms(2)) (simp add: fine_def)
      then show "returns (fine L x) (let s = set_client i (\<lambda>c. c\<lparr>cc_LastInputTick := tick\<rparr>) x in Some (store_input e tick Size u i s))"
        using fine_trans [OF 3] by (simp add: returns_value Let_def)
    qed
    then show ?thesis unfolding Let_def by (rule returns_mono) (rule fine_trans [OF still_fine [OF 2]])
  qed
  then show ?thesis by (simp only: on_input_def returns_value fine_refl [OF assms(1)] if_cancel Let_def split: prod.split) simp
qed

section \<open>The remote console\<close>

text \<open>A step in which only the client \<open>i\<close> may get rights, and those of \<open>lk\<close>.\<close>

definition gains :: "int \<Rightarrow> nat \<Rightarrow> int \<times> u8 list option \<Rightarrow> CServer \<Rightarrow> CServer \<Rightarrow> bool" where
  "gains L i lk s s' \<longleftrightarrow> srv_inv L s' \<and> no_entry s s' \<and> in_order s s' \<and>
     (\<forall>j < MAX_CLIENTS. login s' j = None \<or> login s' j = login s j \<or> j = i \<and> login s' j = Some lk)"

lemma fine_gains: "fine L s s' \<Longrightarrow> gains L i lk s s'"
  unfolding fine_def evolves_def gains_def no_gain_def by blast

lemma gains_trans:
  assumes "gains L i lk s s1" "gains L i lk s1 s2"
  shows "gains L i lk s s2"
proof -
  have "in_order s s2" using assms in_order_trans [of s s1 s2] by (simp add: gains_def)
  moreover have "no_entry s s2" using assms unfolding gains_def no_entry_def by blast
  moreover have "login s2 j = None \<or> login s2 j = login s j \<or> j = i \<and> login s2 j = Some lk" if "j < MAX_CLIENTS" for j
  proof -
    have "login s1 j = None \<or> login s1 j = login s j \<or> j = i \<and> login s1 j = Some lk"
      "login s2 j = None \<or> login s2 j = login s1 j \<or> j = i \<and> login s2 j = Some lk"
      using assms that by (simp_all add: gains_def)
    then show ?thesis by (elim disjE) auto
  qed
  ultimately show ?thesis using assms(2) by (simp add: gains_def)
qed

lemmas gains_fine = gains_trans [OF _ fine_gains]
lemmas fine_then_gains = gains_trans [OF fine_gains]

text \<open>
  A login finds the key that the password is right for. With a name the level is that of the key. Without
  a name it is the highest level whose default slot holds such a key; that is the level the default key
  was made for, which \<open>auth_update\<close> does not change when it gives the key another one.
\<close>

definition right_key :: "srv_env \<Rightarrow> CAuthManager \<Rightarrow> u8 list \<Rightarrow> u8 list \<Rightarrow> int \<Rightarrow> int \<Rightarrow> bool" where
  "right_key e am pName pPw AuthLevel KeySlot \<longleftrightarrow> is_slot am KeySlot \<and> CheckKey (ev_Md5 e) am KeySlot pPw \<and>
     (if pName \<noteq> [] then KeyIdent am KeySlot = Some pName \<and> AuthLevel = KeyLevel am KeySlot
      else AuthLevel \<in> {AUTHED_ADMIN, AUTHED_MOD, AUTHED_HELPER} \<and> DefaultKey am AuthLevel = Some KeySlot \<and>
        (\<forall>l \<in> {AUTHED_ADMIN, AUTHED_MOD}. \<forall>k. AuthLevel < l \<and> DefaultKey am l = Some k \<longrightarrow> \<not> CheckKey (ev_Md5 e) am k pPw))"

lemma CheckKey_slot: "CheckKey md5 am k pPw \<Longrightarrow> is_slot am k"
  by (simp add: CheckKey_def split: if_splits)

lemma FindKey_ident: "is_slot am (FindKey am x) \<Longrightarrow> KeyIdent am (FindKey am x) = Some x"
  by (cases rule: FindKey_cases [of am x]) (simp_all add: is_slot_def KeyIdent_def)

lemma login_key_right:
  assumes "defaults_ok am"
  obtains AuthLevel KeySlot where "login_key e am pName pPw = Some (AuthLevel, KeySlot)"
    "AuthLevel \<noteq> -1 \<Longrightarrow> right_key e am pName pPw AuthLevel KeySlot"
proof (cases "pName = []")
  case True
  have len: "length (am_Default am) = 3" using assms by (simp add: defaults_ok_def)
  obtain a m h where d: "DefaultKey am AUTHED_ADMIN = Some a" "DefaultKey am AUTHED_MOD = Some m" "DefaultKey am AUTHED_HELPER = Some h"
  proof
    show "DefaultKey am AUTHED_ADMIN = Some (am_Default am ! 0)" "DefaultKey am AUTHED_MOD = Some (am_Default am ! 1)"
      "DefaultKey am AUTHED_HELPER = Some (am_Default am ! 2)"
      using len by (simp_all add: DefaultKey_def authed_levels flip: length_greater_0_conv)
  qed
  have right: "right_key e am pName pPw l k"
    if "CheckKey (ev_Md5 e) am k pPw" "l \<in> {AUTHED_ADMIN, AUTHED_MOD, AUTHED_HELPER}" "DefaultKey am l = Some k"
      "\<forall>l' \<in> {AUTHED_ADMIN, AUTHED_MOD}. \<forall>k. l < l' \<and> DefaultKey am l' = Some k \<longrightarrow> \<not> CheckKey (ev_Md5 e) am k pPw" for l k
    unfolding right_key_def using that CheckKey_slot [OF that(1)] True by simp
  define r where "r = (if CheckKey (ev_Md5 e) am a pPw then (AUTHED_ADMIN, a) else if CheckKey (ev_Md5 e) am m pPw then (AUTHED_MOD, m)
      else if CheckKey (ev_Md5 e) am h pPw then (AUTHED_HELPER, h) else (-1, h))"
  have "login_key e am pName pPw = Some (fst r, snd r)" using True d by (simp add: login_key_def r_def)
  moreover have "right_key e am pName pPw (fst r) (snd r)" if "fst r \<noteq> -1"
    using that d by (auto simp: r_def authed_levels intro!: right split: if_splits)
  ultimately show thesis by (rule that)
next
  case False
  let ?k = "FindKey am pName"
  have "login_key e am pName pPw = Some (if CheckKey (ev_Md5 e) am ?k pPw then KeyLevel am ?k else -1, ?k)"
    using False by (simp add: login_key_def Let_def)
  then show thesis
  proof (rule that)
    assume "(if CheckKey (ev_Md5 e) am ?k pPw then KeyLevel am ?k else -1) \<noteq> -1"
    then have c: "CheckKey (ev_Md5 e) am ?k pPw" by (simp split: if_splits)
    show "right_key e am pName pPw (if CheckKey (ev_Md5 e) am ?k pPw then KeyLevel am ?k else -1) ?k"
      unfolding right_key_def using c CheckKey_slot [OF c] FindKey_ident [OF CheckKey_slot [OF c]] False by simp
  qed
qed

lemma set_authed_gains:
  assumes "srv_inv L s" "i < MAX_CLIENTS" "occupied s i" "is_slot (s_Auth s) k"
  shows "gains L i (l, KeyIdent (s_Auth s) k) s (set_client i (\<lambda>c. c\<lparr>cc_Authed := l, cc_AuthKey := k\<rparr>) s)" (is "gains L i ?lk s ?s")
proof -
  note len = srv_inv_length [OF assms(1)]
  let ?c = "(client s i)\<lparr>cc_Authed := l, cc_AuthKey := k\<rparr>"
  have cl: "s_Clients ?s = (s_Clients s)[i := ?c]" by (simp add: set_client_def)
  have "net_ok L ?s" using assms(1,3) by (intro net_ok_upd [OF _ cl]) (simp_all add: srv_inv_def)
  moreover have "auth_ok ?s"
    using assms by (intro auth_ok_upd [OF _ len cl]) (auto simp: srv_inv_def auth_ok_def key_ok_def occupied_def is_slot_def)
  moreover have "no_entry s ?s" by (rule no_entry_upd [OF len cl]) simp
  moreover have "in_order s ?s"
    using phases_upd [OF len assms(2) cl] assms(2) by (intro in_order_same) (auto simp: fun_eq_iff phases_def)
  moreover have "login ?s j = None \<or> login ?s j = login s j \<or> j = i \<and> login ?s j = Some ?lk" if "j < MAX_CLIENTS" for j
    using client_upd [OF len cl that] by (auto simp: login_def)
  ultimately show ?thesis by (simp add: gains_def srv_inv_def)
qed

lemma tell_authed_fine: "srv_inv L s \<Longrightarrow> fine L s (tell_game (OnSetAuthed i l) s)"
  by (rule told_fine) simp_all

lemma login_accepted_returns:
  assumes "srv_inv L s" "i < MAX_CLIENTS" "occupied s i" "is_slot (s_Auth s) k"
  shows "returns (\<lambda>s'. gains L i (l, KeyIdent (s_Auth s) k) s s' \<and>
      cc_Authed (client s' i) = l \<and> cc_AuthKey (client s' i) = k \<and> s_Auth s' = s_Auth s) (login_accepted e l k u i s)"
proof -
  have n: "net_ok L s" using assms(1) by (simp add: srv_inv_def)
  note slot = occupied_slot [OF n assms(3,2)]
  have first: "returns (sent L s) (if \<not> IsSixup s i
      then send_sys e (Msg_AddInt 1 (Msg_AddInt 1 (sys_packer NETMSG_RCON_AUTH_STATUS))) MSGFLAG_VITAL i s
      else send_sys e (sevens_packer NETMSG7_RCON_AUTH_ON) MSGFLAG_VITAL i s)"
    by (simp only: returns_value(3) send_sys_returns [OF n slot] if_cancel)
  have rest: "returns (still L i x) (Option.bind (if c then
          Option.bind (SendRconCmdGroupStart e i (set_client i (\<lambda>c. c\<lparr>cc_RconCmdToSend := FirstCommandInfo e (ConsoleAccessLevel c)\<rparr>) x))
            (\<lambda>s. if cc_RconCmdToSend (client s i) = None then SendRconCmdGroupEnd e i s else Some s) else Some x)
        (\<lambda>s. Option.bind (case login_text l of Some line \<Rightarrow> SendRconLine e line i s | None \<Rightarrow> Some s)
          (\<lambda>s. Some (tell_game (OnSetAuthed i l) s))))" if x: "srv_inv L x" "occupied x i" for x c
  proof (rule still_then)
    let ?x = "set_client i (\<lambda>c. c\<lparr>cc_RconCmdToSend := FirstCommandInfo e (ConsoleAccessLevel c)\<rparr>) x"
    have f: "still L i x ?x" by (rule set_client_still [OF x(1) assms(2)]) simp_all
    then have inv: "srv_inv L ?x" "occupied ?x i" using x(2) by (simp_all add: still_def fine_def occupied_def)
    have "returns (still L i ?x) (Option.bind (SendRconCmdGroupStart e i ?x)
        (\<lambda>s. if cc_RconCmdToSend (client s i) = None then SendRconCmdGroupEnd e i s else Some s))"
      using inv by (intro still_then sends_still returns_if assms(2)) (simp_all add: returns_value still_refl occupied_def)
    then have "returns (still L i x) (Option.bind (SendRconCmdGroupStart e i ?x)
        (\<lambda>s. if cc_RconCmdToSend (client s i) = None then SendRconCmdGroupEnd e i s else Some s))"
      by (rule returns_mono) (rule still_trans [OF f])
    then show "returns (still L i x) (if c then Option.bind (SendRconCmdGroupStart e i ?x)
            (\<lambda>s. if cc_RconCmdToSend (client s i) = None then SendRconCmdGroupEnd e i s else Some s) else Some x)"
      using still_refl [OF x(1)] by (simp add: returns_value)
  next
    fix y assume y: "srv_inv L y" "cc_State (client y i) = cc_State (client x i)"
    have "returns (still L i y) (case login_text l of Some line \<Rightarrow> SendRconLine e line i y | None \<Rightarrow> Some y)"
      using y x(2) sends_still(5) [OF y(1) assms(2)] still_refl [OF y(1)] by (cases "login_text l") (simp_all add: returns_value occupied_def)
    then show "returns (still L i y) (Option.bind (case login_text l of Some line \<Rightarrow> SendRconLine e line i y | None \<Rightarrow> Some y)
        (\<lambda>s. Some (tell_game (OnSetAuthed i l) s)))"
      by (rule still_then) (simp add: returns_value still_def tell_authed_fine)
  qed
  show ?thesis
    unfolding login_accepted_def returns_bind
  proof (rule returns_mono [OF first])
    fix x assume x: "sent L s x"
    note f = sent_fields [OF x]
    have inv: "srv_inv L x" using sent_fine [OF assms(1) x] by (simp add: fine_def)
    let ?x = "set_client i (\<lambda>c. c\<lparr>cc_Authed := l, cc_AuthKey := k\<rparr>) x"
    have "gains L i (l, KeyIdent (s_Auth s) k) x ?x"
      using set_authed_gains [OF inv assms(2), of k l] assms(3,4) f by simp
    then have g: "gains L i (l, KeyIdent (s_Auth s) k) s ?x" by (rule fine_then_gains [OF sent_fine [OF assms(1) x]])
    have inv': "srv_inv L ?x" using g by (simp add: gains_def)
    have occ: "occupied ?x i"
      using assms(2,3) f srv_inv_length [OF inv] by (simp add: occupied_def client_set_client fun_eq_iff)
    obtain r u' where u': "(if IsSixup ?x i then (1, u) else GetInt u) = (r, u')" by fastforce
    have lg: "cc_Authed (client ?x i) = l" "cc_AuthKey (client ?x i) = k" "s_Auth ?x = s_Auth s"
      using assms(2) f srv_inv_length [OF inv] by (simp_all add: client_set_client)
    show "returns (\<lambda>s'. gains L i (l, KeyIdent (s_Auth s) k) s s' \<and>
        cc_Authed (client s' i) = l \<and> cc_AuthKey (client s' i) = k \<and> s_Auth s' = s_Auth s) (let s = ?x; (SendRconCmds, u) = if IsSixup s i then (1, u) else GetInt u
        in Option.bind (if \<not> m_UError u \<and> SendRconCmds \<noteq> 0 then let s = set_client i (\<lambda>c. c\<lparr>cc_RconCmdToSend := FirstCommandInfo e (ConsoleAccessLevel c)\<rparr>) s
            in Option.bind (SendRconCmdGroupStart e i s) (\<lambda>s. if cc_RconCmdToSend (client s i) = None then SendRconCmdGroupEnd e i s else Some s) else Some s)
          (\<lambda>s. Option.bind (case login_text l of None \<Rightarrow> Some s | Some line \<Rightarrow> SendRconLine e line i s) (\<lambda>s. Some (tell_game (OnSetAuthed i l) s))))"
      unfolding Let_def u' prod.case by (rule returns_mono [OF rest [OF inv' occ]]) (use lg in \<open>simp add: gains_fine [OF g] still_def\<close>)
  qed
qed

lemma login_failed_returns:
  assumes "srv_inv L s" "i < MAX_CLIENTS" "occupied s i"
  shows "returns (fine L s) (login_failed e i s)"
proof -
  let ?s = "set_client i (\<lambda>c. c\<lparr>cc_AuthTries := cc_AuthTries c + 1\<rparr>) s"
  have f: "still L i s ?s" by (rule set_client_still [OF assms(1,2)]) simp_all
  then have inv: "srv_inv L ?s" "occupied ?s i" using assms(3) by (simp_all add: still_def fine_def occupied_def)
  have rest: "returns (fine L x) (if b then if c then server_drop i r x else map_option snd (server_BanAddr e (client_addr x i) d pReason False x) else Some x)"
    if "srv_inv L x" "occupied x i" for x b c r d pReason
  proof (intro returns_if)
    have "valid_addr (client_addr x i)" using that assms(2) by (simp add: srv_inv_def net_ok_def)
    then show "returns (fine L x) (map_option snd (server_BanAddr e (client_addr x i) d pReason False x))"
      using server_BanAddr_returns [OF that(1)] by (simp add: returns_rules)
    show "returns (fine L x) (server_drop i r x)" by (rule server_drop_fine [OF that(1) assms(2) that(2)])
  qed (simp add: returns_value fine_refl that)
  have tries: "returns (fine L ?s) (Option.bind (SendRconLine e line i ?s) (\<lambda>s. if b then if c
      then server_drop i r s else map_option snd (server_BanAddr e (client_addr s i) d pReason False s) else Some s))" for line b c r d pReason
    unfolding returns_bind
  proof (rule returns_mono [OF sends_still(5) [OF inv(1) assms(2) inv(2)]])
    fix x assume x: "still L i ?s x"
    then have "srv_inv L x" "occupied x i" using inv(2) by (simp_all add: still_def fine_def occupied_def)
    from rest [OF this] show "returns (fine L ?s) (if b then if c
      then server_drop i r x else map_option snd (server_BanAddr e (client_addr x i) d pReason False x) else Some x)"
      by (rule returns_mono) (rule fine_trans [OF still_fine [OF x]])
  qed
  show ?thesis
    unfolding login_failed_def Let_def
    by (rule returns_if, rule returns_mono [OF tries], rule fine_trans [OF still_fine [OF f]], assumption)
      (rule returns_fine [OF sends_still(5) [OF assms]])
qed

text \<open>The name and the password of a login.\<close>

definition login_strings :: "bool \<Rightarrow> unpacker \<Rightarrow> (u8 list \<times> u8 list) option" where
  "login_strings Sixup u =
     (let (pName, u) = (if \<not> Sixup then GetString u SANITIZE_CC else ([], u));
          (pPw, u) = GetString u SANITIZE_CC
      in if m_UError u then None else Some (pName, pPw))"

text \<open>A login that is accepted: the rights are those of a key that the password is right for.\<close>

definition logs_in :: "int \<Rightarrow> srv_env \<Rightarrow> unpacker \<Rightarrow> nat \<Rightarrow> CServer \<Rightarrow> CServer \<Rightarrow> bool" where
  "logs_in L e u i s s' \<longleftrightarrow> (\<exists>pName pPw AuthLevel KeySlot. login_strings (IsSixup s i) u = Some (pName, pPw) \<and>
     right_key e (s_Auth s) pName pPw AuthLevel KeySlot \<and> gains L i (AuthLevel, KeyIdent (s_Auth s) KeySlot) s s')"

lemma on_rcon_auth_returns:
  assumes "srv_inv L s" "i < MAX_CLIENTS" "occupied s i"
  shows "returns (\<lambda>s'. fine L s s' \<or> Vital \<and> logs_in L e u i s s') (on_rcon_auth e Vital u i s)" (is "returns ?P _")
proof (cases Vital)
  case True
  obtain pName u1 where u1: "(if \<not> IsSixup s i then GetString u SANITIZE_CC else ([], u)) = (pName, u1)" by fastforce
  obtain pPw u2 where u2: "GetString u1 SANITIZE_CC = (pPw, u2)" by fastforce
  have "defaults_ok (s_Auth s)" using assms(1) by (simp add: srv_inv_def auth_ok_def)
  then obtain l k where l: "login_key e (s_Auth s) pName pPw = Some (l, k)" "l \<noteq> -1 \<Longrightarrow> right_key e (s_Auth s) pName pPw l k"
    by (rule login_key_right [where e = e and pName = pName and pPw = pPw]) blast
  have "returns ?P (if l \<noteq> -1 then if cc_Authed (client s i) \<noteq> l then login_accepted e l k u2 i s else Some s else login_failed e i s)"
    if "\<not> m_UError u2"
  proof (intro returns_if)
    assume "l \<noteq> -1"
    then have key: "right_key e (s_Auth s) pName pPw l k" by (rule l(2))
    have "login_strings (IsSixup s i) u = Some (pName, pPw)" using that u1 u2 by (simp add: login_strings_def)
    with key True have "?P x" if "gains L i (l, KeyIdent (s_Auth s) k) s x" for x using that unfolding logs_in_def by blast
    then show "returns ?P (login_accepted e l k u2 i s)"
      using key by (intro returns_mono [OF login_accepted_returns [OF assms]]) (auto simp: right_key_def)
  next
    show "returns ?P (login_failed e i s)" by (rule returns_mono [OF login_failed_returns [OF assms]]) simp
  qed (simp add: returns_value fine_refl assms(1))
  then show ?thesis
    unfolding on_rcon_auth_def Let_def u1 u2 prod.case
    by (cases "m_UError u2") (simp_all add: True l(1) returns_value fine_refl assms(1))
next
  case False
  then show ?thesis by (simp add: on_rcon_auth_def returns_value fine_refl assms(1))
qed

text \<open>Who is asked for a command does not matter for the clients.\<close>

lemma rcon_ids_fine: "srv_inv L s \<Longrightarrow> fine L s (s\<lparr>s_RconClientId := a, s_RconAuthLevel := b\<rparr>)"
proof -
  let ?s = "s\<lparr>s_RconClientId := a, s_RconAuthLevel := b\<rparr>"
  have "client ?s = client s" "occupied ?s = occupied s" "client_addr ?s = client_addr s" "phases ?s = phases s"
    by (simp_all add: client_def occupied_def client_addr_def phases_def fun_eq_iff)
  then show "fine L s ?s" if "srv_inv L s"
    using that by (simp add: fine_def evolves_def no_gain_def no_entry_def in_order_same login_def srv_inv_def net_ok_def auth_ok_def)
qed

lemma on_rcon_cmd_returns:
  assumes "srv_inv L s" "i < MAX_CLIENTS"
    and console: "\<And>line lvl s. srv_inv L s \<Longrightarrow> returns (fine L s) (ev_Execute e line lvl i s)"
  shows "returns (fine L s) (on_rcon_cmd e Vital u i s)"
proof -
  have old: "fine L s (set_client i (\<lambda>c. c\<lparr>cc_DDNetVersion := VERSION_DDNET_OLD\<rparr>) s)" by (rule set_client_plain [OF assms(1,2)]) simp_all
  have exec: "returns (fine L s) (map_option (\<lambda>s. s\<lparr>s_RconClientId := c, s_RconAuthLevel := d\<rparr>)
      (ev_Execute e line lvl i (s\<lparr>s_RconClientId := a, s_RconAuthLevel := b\<rparr>)))" for line lvl a b c d
  proof -
    note f = rcon_ids_fine [OF assms(1), where a = a and b = b]
    then have inv: "srv_inv L (s\<lparr>s_RconClientId := a, s_RconAuthLevel := b\<rparr>)" by (simp add: fine_def)
    have "fine L s (x\<lparr>s_RconClientId := c, s_RconAuthLevel := d\<rparr>)" if x: "fine L (s\<lparr>s_RconClientId := a, s_RconAuthLevel := b\<rparr>) x" for x
    proof -
      have "srv_inv L x" using x by (simp add: fine_def)
      from fine_trans [OF fine_trans [OF f x] rcon_ids_fine [OF this]] show ?thesis .
    qed
    then show ?thesis unfolding returns_map by (rule returns_mono [OF console [OF inv]])
  qed
  obtain pCmd u' where u': "GetString u SANITIZE = (pCmd, u')" by fastforce
  show ?thesis
    unfolding on_rcon_cmd_def Let_def u' prod.case
    by (intro returns_if exec) (simp_all add: returns_value fine_refl [OF assms(1)] old)
qed

lemma on_pingex_returns:
  assumes "srv_inv L s" "i < MAX_CLIENTS" "occupied s i"
  shows "returns (fine L s) (on_pingex e Vital u i s)"
  using returns_fine [OF sends_still(11) [OF assms]] assms(1) by (simp add: on_pingex_def returns_value fine_refl split: prod.split)

section \<open>Any packet\<close>

text \<open>The system message in a packet, and what follows its number.\<close>

definition system_msg :: "srv_env \<Rightarrow> bool \<Rightarrow> u8 list \<Rightarrow> (int \<times> unpacker) option" where
  "system_msg e Sixup Data =
     (let (Result, u) = UnpackMessageId (ev_Uuids e) (Unpacker_Reset Data);
          go = (\<lambda>Msg Sys. if Sys then Some (if Sixup then MsgFromSixup Msg Sys else Msg, u) else None)
      in case Result of
           Unpackmessage_error \<Rightarrow> None
         | Unpackmessage_ok Msg Sys \<Rightarrow> go Msg Sys
         | Unpackmessage_answer Msg Sys _ \<Rightarrow> go Msg Sys)"

text \<open>
  What a message may do: nobody gains anything, or it lets the client in with the right password, or it is
  a login with the password of a key.
\<close>

definition msg_step :: "int \<Rightarrow> srv_env \<Rightarrow> bool \<Rightarrow> u8 list \<Rightarrow> int \<Rightarrow> unpacker \<Rightarrow> nat \<Rightarrow> CServer \<Rightarrow> CServer \<Rightarrow> bool" where
  "msg_step L e Vital Stale Msg u i s s' \<longleftrightarrow> fine L s s' \<or>
     Vital \<and> Msg = NETMSG_INFO \<and> admitted e Stale u i s \<and> enters L i s s' \<or>
     Vital \<and> Msg = NETMSG_RCON_AUTH \<and> logs_in L e u i s s'"

lemma system_message_returns:
  assumes "srv_inv L s" "i < MAX_CLIENTS" "occupied s i"
    and console: "\<And>line lvl s. srv_inv L s \<Longrightarrow> returns (fine L s) (ev_Execute e line lvl i s)"
  shows "returns (msg_step L e Vital Stale Msg u i s) (system_message e Vital Stale Msg u i s)"
proof -
  have fine: "returns (msg_step L e Vital Stale M u i s) m" if "returns (fine L s) m" for m M
    using that by (rule returns_mono) (simp add: msg_step_def)
  note each = on_request_map_data_returns [OF assms(1,2)] on_ready_returns [OF assms(1-3)] on_entergame_returns [OF assms(1,2)]
    on_input_returns [OF assms(1-3)] on_rcon_cmd_returns [OF assms(1,2) console] returns_fine [OF sends_still(11) [OF assms(1-3)]]
    on_pingex_returns [OF assms(1-3)]
  have info: "returns (msg_step L e Vital Stale NETMSG_INFO u i s) (on_info e Vital Stale u i s)"
    by (rule returns_mono [OF on_info_returns [OF assms(1-3)]]) (auto simp: msg_step_def)
  have auth: "returns (msg_step L e Vital Stale NETMSG_RCON_AUTH u i s) (on_rcon_auth e Vital u i s)"
    by (rule returns_mono [OF on_rcon_auth_returns [OF assms(1-3)]]) (auto simp: msg_step_def)
  have "returns (fine L s) (Some (on_clientver Vital u i s))" "returns (fine L s) (Some s)"
    using on_clientver_fine [OF assms(1,2)] fine_refl [OF assms(1)] by (simp_all add: returns_value)
  then show ?thesis
    unfolding system_message_def
    by (intro returns_if fine [OF each(1)] fine [OF each(2)] fine [OF each(3)] fine [OF each(4)] fine [OF each(5)] fine [OF each(6)] fine [OF each(7)])
      (simp_all add: fine info auth)
qed

definition packet_step :: "int \<Rightarrow> srv_env \<Rightarrow> bool \<Rightarrow> u8 list \<Rightarrow> u8 list \<Rightarrow> nat \<Rightarrow> CServer \<Rightarrow> CServer \<Rightarrow> bool" where
  "packet_step L e Vital Data Stale i s s' \<longleftrightarrow> fine L s s' \<or>
     (\<exists>Msg u. system_msg e (IsSixup s i) Data = Some (Msg, u) \<and> msg_step L e Vital Stale Msg u i s s')"

lemma sent_msg_step:
  assumes "srv_inv L s" "sent L s x" "msg_step L e Vital Stale Msg u i x s'"
  shows "msg_step L e Vital Stale Msg u i s s'"
proof -
  note f = sent_fields [OF assms(2)]
  have fs: "fine L s x" by (rule sent_fine [OF assms(1,2)])
  have "admitted e Stale u i x = admitted e Stale u i s" unfolding admitted_def CheckReservedSlotAuth_def f by (rule refl)
  moreover have "enters L i s s'" if "enters L i x s'"
    using that fs unfolding enters_def fine_def evolves_def no_entry_def by (metis no_gain_trans in_order_trans)
  moreover have "logs_in L e u i s s'" if "logs_in L e u i x s'"
  proof -
    have "gains L i lk s s'" if "gains L i lk x s'" for lk by (rule fine_then_gains [OF fs that])
    with that show ?thesis unfolding logs_in_def f by blast
  qed
  moreover have "fine L s s'" if "fine L x s'" by (rule fine_trans [OF fs that])
  ultimately show ?thesis using assms(3) unfolding msg_step_def by metis
qed

lemma process_message_returns:
  assumes "srv_inv L s" "i < MAX_CLIENTS" "occupied s i"
    and console: "\<And>line lvl s. srv_inv L s \<Longrightarrow> returns (fine L s) (ev_Execute e line lvl i s)"
  shows "returns (\<lambda>s'. fine L s s' \<or> Sys \<and> msg_step L e Vital Stale Msg u i s s') (process_message e Vital Stale Result Msg Sys u i s)"
proof -
  have n: "net_ok L s" using assms(1) by (simp add: srv_inv_def)
  note slot = occupied_slot [OF n assms(3,2)]
  have "returns (sent L s) (case Result of Unpackmessage_answer _ _ Packer \<Rightarrow> send_sys e Packer MSGFLAG_VITAL i s | _ \<Rightarrow> Some s)"
    using send_sys_returns [OF n slot] sent_refl [OF n] by (cases Result) (simp_all add: returns_value)
  then show ?thesis
    unfolding process_message_def returns_bind
  proof (rule returns_mono)
    fix x assume x: "sent L s x"
    note f = sent_fields [OF x]
    have fs: "fine L s x" by (rule sent_fine [OF assms(1) x])
    then have inv: "srv_inv L x" by (simp add: fine_def)
    have occ: "occupied x i" using assms(3) f by simp
    show "returns (\<lambda>s'. fine L s s' \<or> Sys \<and> msg_step L e Vital Stale Msg u i s s')
      (if Sys then system_message e Vital Stale Msg u i x
       else if Vital \<and> cc_State (client x i) \<ge> STATE_READY then Some (tell_game (OnMessage Msg u i) x) else Some x)"
    proof (intro returns_if)
      assume Sys
      then show "returns (\<lambda>s'. fine L s s' \<or> Sys \<and> msg_step L e Vital Stale Msg u i s s') (system_message e Vital Stale Msg u i x)"
        by (intro returns_mono [OF system_message_returns [OF inv assms(2) occ console]]) (simp_all add: sent_msg_step [OF assms(1) x])
    next
      assume "Vital \<and> cc_State (client x i) \<ge> STATE_READY"
      then have "fine L x (tell_game (OnMessage Msg u i) x)"
        using assms(2) by (intro told_fine [OF inv]) (auto simp: phases_def)
      then show "returns (\<lambda>s'. fine L s s' \<or> Sys \<and> msg_step L e Vital Stale Msg u i s s') (Some (tell_game (OnMessage Msg u i) x))"
        using fine_trans [OF fs] by (simp add: returns_value)
    qed (simp add: returns_value fs)
  qed
qed

lemma ProcessClientPacket_returns:
  assumes "srv_inv L s" "i < MAX_CLIENTS" "occupied s i" "valid_addr Address"
    and console: "\<And>line lvl s. srv_inv L s \<Longrightarrow> returns (fine L s) (ev_Execute e line lvl i s)"
  shows "returns (packet_step L e Vital Data Stale i s) (ProcessClientPacket e Vital Address Data Stale i s)"
proof -
  obtain Result u where u: "UnpackMessageId (ev_Uuids e) (Unpacker_Reset Data) = (Result, u)" by fastforce
  let ?go = "\<lambda>Msg Sys.
            let Msg = (if cc_Sixup (client s i) then MsgFromSixup Msg Sys else Msg)
            in if cc_Sixup (client s i) \<and> Msg < 0 then Some s
               else if Msg \<noteq> NETMSG_REQUEST_MAP_DATA \<and> ev_Stressing e i (s_World s)
               then map_option snd (server_BanAddr e Address 600 (bytes_of ''Stressing network'') False s)
               else process_message e Vital Stale Result Msg Sys u i s"
  have fine: "returns (packet_step L e Vital Data Stale i s) m" if "returns (fine L s) m" for m
    using that by (rule returns_mono) (simp add: packet_step_def)
  have same: "returns (fine L s) (Some s)" by (simp add: returns_value fine_refl assms(1))
  have ban: "returns (fine L s) (map_option snd (server_BanAddr e Address d r False s))" for d r
    using server_BanAddr_returns [OF assms(1,4)] by (simp add: returns_rules)
  have go: "returns (packet_step L e Vital Data Stale i s) (?go Msg Sys)"
    if "Sys \<Longrightarrow> system_msg e (IsSixup s i) Data = Some (if cc_Sixup (client s i) then MsgFromSixup Msg Sys else Msg, u)" for Msg Sys
    unfolding Let_def
    by (intro returns_if fine [OF same] fine [OF ban] returns_mono [OF process_message_returns [OF assms(1-3) console]])
      (use that in \<open>auto simp: packet_step_def\<close>)
  have sys: "system_msg e (IsSixup s i) Data = Some (if cc_Sixup (client s i) then MsgFromSixup Msg Sys else Msg, u)"
    if "Sys" "Result = Unpackmessage_ok Msg Sys \<or> (\<exists>p. Result = Unpackmessage_answer Msg Sys p)" for Msg Sys
    using that by (auto simp: system_msg_def u IsSixup_def)
  show ?thesis
  proof (cases Result)
    case Unpackmessage_error
    then show ?thesis using fine [OF same] by (simp add: ProcessClientPacket_def u)
  next
    case (Unpackmessage_ok Msg Sys)
    then have "ProcessClientPacket e Vital Address Data Stale i s = ?go Msg Sys"
      by (simp only: ProcessClientPacket_def u Let_def prod.case unpacked_id.case)
    with go [of Sys Msg] sys [of Sys Msg] Unpackmessage_ok show ?thesis by simp
  next
    case (Unpackmessage_answer Msg Sys p)
    then have "ProcessClientPacket e Vital Address Data Stale i s = ?go Msg Sys"
      by (simp only: ProcessClientPacket_def u Let_def prod.case unpacked_id.case)
    with go [of Sys Msg] sys [of Sys Msg] Unpackmessage_answer show ?thesis by simp
  qed
qed

section \<open>Clients of the network\<close>

text \<open>A new client, for a slot that is free.\<close>

lemma new_client_enters:
  assumes "srv_inv L s" "i < sv_MaxClients (s_Net s)" "\<not> occupied s i" "valid_addr (client_addr s i)"
    "cc_State (f (client s i)) \<in> {STATE_PREAUTH, STATE_CONNECTING}" "cc_Authed (f (client s i)) = AUTHED_NO" "cc_AuthKey (f (client s i)) = -1"
  shows "enters L i s (set_client i f s)" "i < MAX_CLIENTS" "occupied (set_client i f s) i"
proof -
  note len = srv_inv_length [OF assms(1)]
  have n: "net_ok L s" using assms(1) by (simp add: srv_inv_def)
  have "sv_MaxClients (s_Net s) \<le> NET_MAX_CLIENTS" using n by (simp add: net_ok_def sv_inv_def)
  then show i: "i < MAX_CLIENTS" using assms(2) by (simp add: MAX_CLIENTS_def NET_MAX_CLIENTS_def)
  let ?c = "f (client s i)" and ?s = "set_client i f s"
  have cl: "s_Clients ?s = (s_Clients s)[i := ?c]" by (simp add: set_client_def)
  have c: "client ?s j = (if j = i then ?c else client s j)" if "j < MAX_CLIENTS" for j by (rule client_upd [OF len cl that])
  show "occupied ?s i" using assms(5) c [OF i] by (auto simp: occupied_def)
  have "net_ok L ?s" using n assms(2,4) c by (auto simp: net_ok_def occupied_def)
  moreover have "auth_ok ?s" using assms by (intro auth_ok_upd [OF _ len cl]) (auto simp: srv_inv_def key_ok_def)
  moreover have "no_gain s ?s" using assms(6) by (intro no_gain_upd [OF len cl]) simp_all
  moreover have "in_order s ?s"
    using phases_upd [OF len i cl] assms(3,5) i by (intro in_order_same) (auto simp: fun_eq_iff phases_def occupied_def)
  ultimately show "enters L i s ?s" using c by (simp add: enters_def srv_inv_def)
qed

lemma client_reset_keeps [simp]:
  "cc_State (client_reset c) = cc_State c" "cc_Authed (client_reset c) = cc_Authed c" "cc_AuthKey (client_reset c) = cc_AuthKey c"
  by (simp_all add: client_reset_def)

lemma NewClientCallback_fine:
  assumes "srv_inv L s" "i < sv_MaxClients (s_Net s)" "\<not> occupied s i" "valid_addr (client_addr s i)"
  shows "fine L s (NewClientCallback i Sixup s)"
proof -
  let ?f = "\<lambda>c. (fresh_client STATE_PREAUTH c)\<lparr>cc_Sixup := Sixup\<rparr>"
  have e: "enters L i s (set_client i ?f s)" "i < MAX_CLIENTS"
    using new_client_enters [of L s i ?f, OF assms] by (simp_all add: fresh_client_def)
  then have "fine L s (set_client i ?f s)"
    by (intro enters_no_entry [OF e(1)]) (simp add: client_set_client srv_inv_length [OF assms(1)] fresh_client_def)
  then show ?thesis by (simp add: NewClientCallback_def)
qed

lemma NewClientNoAuthCallback_returns:
  assumes "srv_inv L s" "i < sv_MaxClients (s_Net s)" "\<not> occupied s i" "valid_addr (client_addr s i)"
  shows "returns (enters L i s) (NewClientNoAuthCallback e i s)"
proof -
  let ?s = "set_client i (fresh_client STATE_CONNECTING) s"
  have e: "enters L i s ?s" "i < MAX_CLIENTS" "occupied ?s i"
    using new_client_enters [of L s i "fresh_client STATE_CONNECTING", OF assms] by (simp_all add: fresh_client_def)
  then have inv: "srv_inv L ?s" by (simp add: enters_def)
  have "returns (still L i ?s) (Option.bind (SendCapabilities e i ?s) (SendMap e i))"
    by (intro still_then sends_still SendMap_still inv e) (use e(3) in \<open>simp_all add: occupied_def\<close>)
  then show ?thesis unfolding NewClientNoAuthCallback_def by (rule returns_mono) (rule enters_fine [OF e(1) still_fine])
qed

lemma ClientRejoinCallback_returns:
  assumes "srv_inv L s" "i < MAX_CLIENTS" "occupied s i"
  shows "returns (fine L s) (ClientRejoinCallback e i s)"
proof -
  let ?f = "\<lambda>c. client_reset (c\<lparr>cc_Authed := AUTHED_NO, cc_AuthKey := -1, cc_RconCmdToSend := None,
       cc_MaplistEntryToSend := MAPLIST_UNINITIALIZED, cc_DDNetVersion := VERSION_NONE, cc_GotDDNetVersionPacket := False,
       cc_DDNetVersionSettled := False\<rparr>)"
  note len = srv_inv_length [OF assms(1)]
  have c: "cc_State (client (set_client i ?f s) i) = cc_State (client s i)" using len assms(2) by (simp add: client_set_client)
  have f: "fine L s (set_client i ?f s)"
    using assms(3) c by (intro enters_no_entry [OF set_client_enters [OF assms(1,2)]]) (simp_all add: occupied_def)
  then have inv: "srv_inv L (set_client i ?f s)" "occupied (set_client i ?f s) i"
    using assms(3) c by (simp_all add: fine_def occupied_def)
  show ?thesis
    unfolding ClientRejoinCallback_def
    by (rule returns_mono [OF returns_fine [OF SendMap_still [OF inv(1) assms(2) inv(2)]]]) (rule fine_trans [OF f])
qed

end
