(* ===== verification/ServerRun.thy ===== *)
theory ServerRun
  imports ServerMessages
begin

text \<open>
  The rest of what happens to the engine of \<^verbatim>\<open>src/src/engine/server/server.cpp\<close>: the commands of the
  console for the list of bans and for the one who types them, a change of a limit or of the access level of
  a command, what the game sets, the tick of the game, and the change of the map in \<open>Run\<close>.
\<close>

section \<open>Commands of the console\<close>

text \<open>The commands of \<open>CNetBan\<close> are also those of the server; they have their arguments parsed.\<close>

definition Server_ConUnban :: "int option \<Rightarrow> NETADDR option \<Rightarrow> CServer \<Rightarrow> CServer option" where
  "Server_ConUnban index addr s = map_option (\<lambda>nb. s\<lparr>s_Ban := nb\<rparr>) (ConUnban (\<lambda>_. addr) index [] (s_Ban s))"

definition Server_ConUnbanRange :: "CNetRange \<Rightarrow> CServer \<Rightarrow> CServer option" where
  "Server_ConUnbanRange r s = map_option (\<lambda>(_, nb). s\<lparr>s_Ban := nb\<rparr>) (UnbanByRange r (s_Ban s))"

definition Server_ConUnbanAll :: "CServer \<Rightarrow> CServer" where
  "Server_ConUnbanAll s = s\<lparr>s_Ban := ConUnbanAll (s_Ban s)\<rparr>"

text \<open>Bans that are over are removed with each look at the network.\<close>

definition ServerBan_Update :: "srv_env \<Rightarrow> CServer \<Rightarrow> CServer option" where
  "ServerBan_Update e s = map_option (\<lambda>nb. s\<lparr>s_Ban := nb\<rparr>) (NetBan_Update (ev_Timestamp e) (s_Ban s))"

definition ConBanRegion :: "srv_env \<Rightarrow> u8 list \<Rightarrow> int option \<Rightarrow> NETADDR option \<Rightarrow> int option \<Rightarrow> u8 list option \<Rightarrow> CServer \<Rightarrow> CServer option" where
  "ConBanRegion e pRegion ClientId addr minutes reason s =
     (if \<not> str_same_nocase pRegion (ev_SvRegionName e) then Some s else ConBanExt e ClientId addr minutes reason s)"

definition ConBanRegionRange :: "srv_env \<Rightarrow> u8 list \<Rightarrow> CNetRange \<Rightarrow> int \<Rightarrow> u8 list \<Rightarrow> CServer \<Rightarrow> CServer option" where
  "ConBanRegionRange e pRegion r Seconds pReason s =
     (if \<not> str_same_nocase pRegion (ev_SvRegionName e) then Some s else map_option snd (server_BanRange e r Seconds pReason s))"

text \<open>The client that has typed the command.\<close>

definition rcon_client :: "CServer \<Rightarrow> nat option" where
  "rcon_client s =
     (if is_client_id (s_RconClientId s) \<and> occupied s (nat (s_RconClientId s)) then Some (nat (s_RconClientId s)) else None)"

definition ConShowIps :: "int option \<Rightarrow> CServer \<Rightarrow> CServer" where
  "ConShowIps argument s =
     (case (rcon_client s, argument) of
        (Some i, Some v) \<Rightarrow> set_client i (\<lambda>c. c\<lparr>cc_ShowIps := (v \<noteq> 0)\<rparr>) s
      | _ \<Rightarrow> s)"

definition ConHideAuthStatus :: "int option \<Rightarrow> CServer \<Rightarrow> CServer" where
  "ConHideAuthStatus argument s =
     (case (rcon_client s, argument) of
        (Some i, Some v) \<Rightarrow> set_client i (\<lambda>c. c\<lparr>cc_AuthHidden := (v \<noteq> 0)\<rparr>) s
      | _ \<Rightarrow> s)"

definition ConchainMaxclientsperipUpdate :: "int option \<Rightarrow> CServer \<Rightarrow> CServer" where
  "ConchainMaxclientsperipUpdate argument s =
     (case argument of
        Some v \<Rightarrow> s\<lparr>s_Net := SetMaxClientsPerIp v (s_Net s)\<rparr>
      | None \<Rightarrow> s)"

text \<open>Two strings as \<open>strcmp\<close> orders them.\<close>

fun str_before :: "u8 list \<Rightarrow> u8 list \<Rightarrow> bool" where
  "str_before [] bs = (bs \<noteq> [])"
| "str_before (a # as) [] = False"
| "str_before (a # as) (b # bs) = (a < b \<or> a = b \<and> str_before as bs)"

text \<open>
  The access level of a command has changed: \<open>cmd\<close> has the new one. The clients are told of a command that
  they have got or lost, unless they have the part of the list still to come in which it is.
\<close>

fun access_updates :: "srv_env \<Rightarrow> CCommandInfo \<Rightarrow> int \<Rightarrow> u8 list \<Rightarrow> nat list \<Rightarrow> CServer \<Rightarrow> CServer option" where
  "access_updates e cmd OldAccessLevel pName [] s = Some s"
| "access_updates e cmd OldAccessLevel pName (i # is) s =
     (let ClientAccessLevel = ConsoleAccessLevel (client s i);
          later = (case cc_RconCmdToSend (client s i) of
                     Some k \<Rightarrow> \<not> str_before pName (ci_Name (ev_Commands e ! k))
                   | None \<Rightarrow> False)
      in if \<not> occupied s i \<or> ci_AccessLevel cmd > ClientAccessLevel \<and> ClientAccessLevel < OldAccessLevel \<or>
            ci_AccessLevel cmd < ClientAccessLevel \<and> ClientAccessLevel > OldAccessLevel \<or> later
         then access_updates e cmd OldAccessLevel pName is s
         else do {
           s \<leftarrow> (if OldAccessLevel < ci_AccessLevel cmd then SendRconCmdAdd e cmd i s else SendRconCmdRem e cmd i s);
           access_updates e cmd OldAccessLevel pName is s
         })"

definition ConchainCommandAccessUpdate :: "srv_env \<Rightarrow> (CCommandInfo \<times> int) option \<Rightarrow> u8 list \<Rightarrow> CServer \<Rightarrow> CServer option" where
  "ConchainCommandAccessUpdate e info pName s =
     (case info of
        Some (cmd, OldAccessLevel) \<Rightarrow>
          if OldAccessLevel \<noteq> ci_AccessLevel cmd
          then access_updates e cmd OldAccessLevel pName [0..<MAX_CLIENTS] s else Some s
      | None \<Rightarrow> Some s)"

text \<open>
  A line of the log goes to the administrators, or to one client. What is between \<open><{\<close> and \<open>}>\<close> in it is
  only shown to those who want it: the line as it is shown to them, and as it is shown to others. The two are
  made in arrays of 512 bytes, but the first two calls of \<open>str_append\<close> have the places of the brackets as size:
  \<open>None\<close>, if they write behind the array.
\<close>

fun str_find :: "u8 list \<Rightarrow> u8 list \<Rightarrow> nat option" where
  "str_find needle [] = None"
| "str_find needle (c # cs) =
     (if take (length needle) (c # cs) = needle then Some 0 else map_option Suc (str_find needle cs))"

definition log_texts :: "u8 list \<Rightarrow> (u8 list \<times> u8 list) option" where
  "log_texts pLine =
     (case str_find (bytes_of ''<{'') pLine of
        None \<Rightarrow> Some (pLine, pLine)
      | Some start \<Rightarrow>
          (case str_find (bytes_of ''}>'') (drop (start + 2) pLine) of
             None \<Rightarrow> Some (pLine, pLine)
           | Some len \<Rightarrow>
               if start + 1 > 512 \<or> start + 2 + len - 1 > 512 then None
               else let before = str_append [] pLine (start + 1);
                        rest = drop (start + 2 + len + 2) pLine
                    in Some (str_append (str_append before (drop (start + 2) pLine) (start + 2 + len - 1)) rest 512,
                             str_append (str_append before (bytes_of ''XXX'') 512) rest 512)))"

definition shown_line :: "u8 list \<times> u8 list \<Rightarrow> CClient \<Rightarrow> u8 list" where
  "shown_line texts c = (if cc_ShowIps c then fst texts else snd texts)"

fun send_admins :: "srv_env \<Rightarrow> u8 list \<times> u8 list \<Rightarrow> nat list \<Rightarrow> CServer \<Rightarrow> CServer option" where
  "send_admins e texts [] s = Some s"
| "send_admins e texts (i # is) s =
     Option.bind (if occupied s i \<and> cc_Authed (client s i) \<ge> AUTHED_ADMIN then SendRconLine e (shown_line texts (client s i)) i s else Some s)
       (send_admins e texts is)"

definition SendRconLogLine :: "srv_env \<Rightarrow> int \<Rightarrow> u8 list \<Rightarrow> CServer \<Rightarrow> CServer option" where
  "SendRconLogLine e ClientId pLine s =
     do {
       texts \<leftarrow> log_texts pLine;
       if ClientId = -1 then send_admins e texts [0..<MAX_CLIENTS] s
       else if \<not> is_client_id ClientId then None
       else if occupied s (nat ClientId) then SendRconLine e (shown_line texts (client s (nat ClientId))) (nat ClientId) s
       else Some s
     }"

text \<open>
  \<open>SendMsg\<close> as the game and its commands call it: to all, or to a client that is there. Nothing is sent to others,
  as the game has no players in other slots.
\<close>

definition game_message :: "srv_env \<Rightarrow> CMsgPacker \<Rightarrow> int \<Rightarrow> int \<Rightarrow> CServer \<Rightarrow> CServer option" where
  "game_message e pMsg Flags ClientId s =
     (if ClientId < 0 \<or> is_client_id ClientId \<and> occupied s (nat ClientId) then SendMsg e pMsg Flags ClientId s else Some s)"

section \<open>What the game sets\<close>

text \<open>Only clients that have been told to the game; a bad id is ignored, but for the version.\<close>

definition set_for_game :: "int \<Rightarrow> (CClient \<Rightarrow> CClient) \<Rightarrow> CServer \<Rightarrow> CServer" where
  "set_for_game ClientId f s =
     (if ClientId < 0 \<or> ClientId \<ge> int MAX_CLIENTS \<or> cc_State (client s (nat ClientId)) < STATE_READY then s
      else set_client (nat ClientId) f s)"

definition SetClientCountry :: "int \<Rightarrow> int \<Rightarrow> CServer \<Rightarrow> CServer" where
  "SetClientCountry ClientId Country = set_for_game ClientId (\<lambda>c. c\<lparr>cc_Country := Country\<rparr>)"

definition SetClientScore :: "int \<Rightarrow> int option \<Rightarrow> CServer \<Rightarrow> CServer" where
  "SetClientScore ClientId Score = set_for_game ClientId (\<lambda>c. c\<lparr>cc_Score := Score\<rparr>)"

definition SetClientFlags :: "int \<Rightarrow> int \<Rightarrow> CServer \<Rightarrow> CServer" where
  "SetClientFlags ClientId Flags = set_for_game ClientId (\<lambda>c. c\<lparr>cc_Flags := Flags\<rparr>)"

definition SetClientDDNetVersion :: "int \<Rightarrow> int \<Rightarrow> CServer \<Rightarrow> CServer option" where
  "SetClientDDNetVersion ClientId DDNetVersion s =
     (if \<not> is_client_id ClientId then None
      else Some (if cc_State (client s (nat ClientId)) = STATE_INGAME
        then set_client (nat ClientId) (\<lambda>c. c\<lparr>cc_DDNetVersion := DDNetVersion, cc_DDNetVersionSettled := True\<rparr>) s else s))"

definition SetRconCid :: "int \<Rightarrow> CServer \<Rightarrow> CServer" where
  "SetRconCid ClientId s = s\<lparr>s_RconClientId := ClientId\<rparr>"

section \<open>The tick of the game\<close>

text \<open>One round of the loop in \<open>Run\<close>, but for the recording of what happens.\<close>

definition inputs_at :: "CClient \<Rightarrow> int \<Rightarrow> i32 list list" where
  "inputs_at c Tick = map in_aData (filter (\<lambda>input. in_GameTick input = Tick) (cc_aInputs c))"

fun early_inputs :: "nat list \<Rightarrow> CServer \<Rightarrow> CServer" where
  "early_inputs [] s = s"
| "early_inputs (i # is) s =
     early_inputs is
       (if cc_State (client s i) \<noteq> STATE_INGAME then s
        else case inputs_at (client s i) (s_Tick s + 1) of
          [] \<Rightarrow> tell_game (OnClientPredictedEarlyInput i None) s
        | inputs \<Rightarrow> foldl (\<lambda>s aData. tell_game (OnClientPredictedEarlyInput i (Some aData)) s) s inputs)"

fun tick_inputs :: "nat list \<Rightarrow> CServer \<Rightarrow> CServer" where
  "tick_inputs [] s = s"
| "tick_inputs (i # is) s =
     tick_inputs is
       (if cc_State (client s i) \<noteq> STATE_INGAME then s
        else case inputs_at (client s i) (s_Tick s) of
          [] \<Rightarrow> tell_game (OnClientPredictedInput i None) s
        | aData # _ \<Rightarrow> tell_game (OnClientPredictedInput i (Some aData)) s)"

definition game_tick :: "CServer \<Rightarrow> CServer" where
  "game_tick s =
     (let s = early_inputs [0..<MAX_CLIENTS] s
      in tell_game OnTick (tick_inputs [0..<MAX_CLIENTS] (s\<lparr>s_Tick := s_Tick s + 1\<rparr>)))"

section \<open>The change of the map\<close>

fun persist_data :: "srv_env \<Rightarrow> nat list \<Rightarrow> CServer \<Rightarrow> CServer" where
  "persist_data e [] s = s"
| "persist_data e (i # is) s =
     persist_data e is
       (if cc_State (client s i) = STATE_INGAME
        then set_client i (\<lambda>c. c\<lparr>cc_HasPersistentData := ev_OnClientDataPersist e (s_Game s) i\<rparr>) s else s)"

definition sent_back :: "CClient \<Rightarrow> CClient" where
  "sent_back c = (client_reset c)\<lparr>cc_HasPersistentData := cc_HasPersistentData c, cc_State := STATE_CONNECTING\<rparr>"

fun send_back :: "srv_env \<Rightarrow> bool \<Rightarrow> nat list \<Rightarrow> CServer \<Rightarrow> CServer option" where
  "send_back e SameMapReload [] s = Some s"
| "send_back e SameMapReload (i # is) s =
     (if cc_State (client s i) \<le> STATE_AUTH then send_back e SameMapReload is s
      else do {
        s \<leftarrow> (if SameMapReload then SendMapReload e i s else Some s);
        s \<leftarrow> SendMap e i s;
        send_back e SameMapReload is (set_client i sent_back s)
      })"

text \<open>
  The new map is loaded; \<open>e\<close> has it. The recording and the server information, which are renewed as well, are not
  part of the model.
\<close>

definition change_map :: "srv_env \<Rightarrow> bool \<Rightarrow> CServer \<Rightarrow> CServer option" where
  "change_map e SameMapReload s =
     do {
       s \<leftarrow> send_back e SameMapReload [0..<MAX_CLIENTS] (tell_game Game_OnShutdown (persist_data e [0..<MAX_CLIENTS] s));
       let (t, s) = server_time s
       in Some (tell_game Game_OnInit (s\<lparr>s_GameStartTime := t, s_Tick := MIN_TICK\<rparr>))
     }"

section \<open>They return\<close>

lemma ban_change_fine:
  assumes "srv_inv L s" "op_valid op"
  shows "returns (fine L s) (map_option (\<lambda>(_, nb). s\<lparr>s_Ban := nb\<rparr>) (netban_do Now op (s_Ban s)))"
proof -
  obtain bs where "netban_shows (s_Ban s) bs" using assms(1) by (auto simp: srv_inv_def net_ok_def)
  from netban_do_refines [OF this assms(2), of Now]
  obtain r nb where "netban_do Now op (s_Ban s) = Some (r, nb)" "\<exists>bs. netban_shows nb bs" by blast
  then show ?thesis using bans_changed [OF assms(1)] by (simp add: returns_value)
qed

lemma unban_commands_return:
  assumes "srv_inv L s"
  shows "\<forall>a. addr = Some a \<longrightarrow> valid_addr a \<Longrightarrow> returns (fine L s) (Server_ConUnban index addr s)"
    "valid_addr (m_LB r) \<Longrightarrow> valid_addr (m_UB r) \<Longrightarrow> returns (fine L s) (Server_ConUnbanRange r s)"
    "fine L s (Server_ConUnbanAll s)" "returns (fine L s) (ServerBan_Update e s)"
proof -
  note f = ban_change_fine [OF assms]
  show "returns (fine L s) (Server_ConUnban index addr s)" if v: "\<forall>a. addr = Some a \<longrightarrow> valid_addr a"
  proof (cases index)
    case (Some k)
    then show ?thesis using f [of "Op_UnbanIndex k" 0]
      by (simp add: Server_ConUnban_def ConUnban_def returns_value split: prod.splits)
  next
    case None
    then show ?thesis using f [of "Op_UnbanAddr (the addr)" 0] v bans_changed [OF assms] assms
      by (cases addr) (auto simp: Server_ConUnban_def ConUnban_def returns_rules fine_refl case_prod_unfold option.map_comp comp_def)
  qed
  show "returns (fine L s) (Server_ConUnbanRange r s)" if "valid_addr (m_LB r)" "valid_addr (m_UB r)"
    using f [of "Op_UnbanRange r" 0] that by (simp add: Server_ConUnbanRange_def)
  show "fine L s (Server_ConUnbanAll s)" using f [of Op_UnbanAll 0] by (simp add: Server_ConUnbanAll_def ConUnbanAll_def returns_value)
  show "returns (fine L s) (ServerBan_Update e s)"
    using f [of Op_Update "ev_Timestamp e"] by (simp add: ServerBan_Update_def option.map_comp comp_def)
qed

lemma region_bans_return:
  assumes "srv_inv L s"
  shows "\<forall>a. addr = Some a \<longrightarrow> valid_addr a \<Longrightarrow> returns (fine L s) (ConBanRegion e pRegion ClientId addr minutes reason s)"
    "valid_addr (m_LB r) \<Longrightarrow> valid_addr (m_UB r) \<Longrightarrow> returns (fine L s) (ConBanRegionRange e pRegion r Seconds pReason s)"
  using assms ConBanExt_returns [OF assms] server_BanRange_returns [OF assms, of r]
  by (auto simp: ConBanRegion_def ConBanRegionRange_def returns_rules fine_refl split: option.split)

lemma client_flags_fine:
  assumes "srv_inv L s"
  shows "fine L s (ConShowIps argument s)" "fine L s (ConHideAuthStatus argument s)"
  using assms by (auto simp: ConShowIps_def ConHideAuthStatus_def rcon_client_def is_client_id_def fine_refl nat_less_iff
      intro!: set_client_plain split: option.split)

lemma ConchainMaxclientsperipUpdate_fine:
  assumes "srv_inv L s" "\<forall>v. argument = Some v \<longrightarrow> min (max v 1) 64 \<le> L"
  shows "fine L s (ConchainMaxclientsperipUpdate argument s)"
proof (cases argument)
  case (Some v)
  have n: "net_ok L s" using assms(1) by (simp add: srv_inv_def)
  then have "sent L s (s\<lparr>s_Net := SetMaxClientsPerIp v (s_Net s), s_World := s_World s\<rparr>)"
    using assms(2) Some
    by (intro net_step_ok [OF n] SetMaxClientsPerIp_inv) (simp_all add: net_ok_def SetMaxClientsPerIp_def slot_def)
  from sent_fine [OF assms(1) this] show ?thesis using Some by (simp add: ConchainMaxclientsperipUpdate_def)
qed (use assms in \<open>simp add: ConchainMaxclientsperipUpdate_def fine_refl\<close>)

lemma access_updates_returns:
  "net_ok L s \<Longrightarrow> \<forall>i \<in> set is. i < MAX_CLIENTS \<Longrightarrow> returns (sent L s) (access_updates e cmd OldAccessLevel pName is s)"
proof (induction "is" arbitrary: s)
  case (Cons i "is")
  have IH: "returns (sent L x) (access_updates e cmd OldAccessLevel pName is x)" if "net_ok L x" for x
    using Cons that by simp
  have send: "returns (sent L s) (if OldAccessLevel < ci_AccessLevel cmd then SendRconCmdAdd e cmd i s else SendRconCmdRem e cmd i s)"
    if "occupied s i"
    using sends_return [OF Cons.prems(1) occupied_slot [OF Cons.prems(1) that]] Cons.prems(2) by simp
  show ?case unfolding access_updates.simps Let_def
    by (rule returns_if, rule IH [OF Cons.prems(1)], rule sent_then, rule send, simp, rule IH, rule sent_fields(11))
qed (simp add: returns_value sent_refl)

text \<open>A line that fits into the arrays is never written behind them; a longer one may be.\<close>

lemma str_find_bound: "str_find needle xs = Some k \<Longrightarrow> k + length needle \<le> length xs"
proof (induction xs arbitrary: k)
  case (Cons c cs)
  show ?case
  proof (cases "take (length needle) (c # cs) = needle")
    case True
    have "length needle \<le> Suc (length cs)" by (subst True [symmetric]) simp
    then show ?thesis using Cons.prems True by simp
  next
    case False
    then show ?thesis using Cons by auto
  qed
qed simp

lemma short_line_fits: "length pLine < 512 \<Longrightarrow> log_texts pLine \<noteq> None"
  using str_find_bound [of "bytes_of ''<{''" pLine] str_find_bound [of "bytes_of ''}>''" "drop (k + 2) pLine" for k]
  by (fastforce simp: log_texts_def Let_def bytes_of_def split: option.split)

lemma long_line_overflows: "log_texts (replicate 512 97 @ bytes_of ''<{a}>'') = None"
proof -
  have f: "str_find [60, 123] (replicate n 97 @ (60 :: u8) # 123 # xs) = Some n" for n xs
    by (induction n) auto
  show ?thesis using f [of 512 "[97, 125, 62]"] by (simp add: log_texts_def bytes_of_def)
qed

lemma send_admins_returns: "net_ok L s \<Longrightarrow> \<forall>i \<in> set is. i < MAX_CLIENTS \<Longrightarrow> returns (sent L s) (send_admins e texts is s)"
proof (induction "is" arbitrary: s)
  case (Cons i "is")
  have IH: "returns (sent L x) (send_admins e texts is x)" if "net_ok L x" for x
    using Cons that by simp
  show ?case unfolding send_admins.simps
    by (rule sent_then) (use Cons.prems sends_return(4) [OF Cons.prems(1) occupied_slot [OF Cons.prems(1)]] IH in
      \<open>auto simp: returns_value sent_refl sent_fields(11)\<close>)
qed (simp add: returns_value sent_refl)

lemma messages_out_return:
  assumes "srv_inv L s"
  shows "returns (fine L s) (ConchainCommandAccessUpdate e info pName s)"
    "log_texts pLine \<noteq> None \<Longrightarrow> Client = -1 \<or> is_client_id Client \<Longrightarrow> returns (fine L s) (SendRconLogLine e Client pLine s)"
    "returns (fine L s) (game_message e pMsg Flags ClientId s)"
proof -
  have n: "net_ok L s" using assms by (simp add: srv_inv_def)
  note f = returns_mono [OF _ sent_fine [OF assms]]
  show "returns (fine L s) (ConchainCommandAccessUpdate e info pName s)"
    using assms f [OF access_updates_returns [OF n]] by (auto simp: ConchainCommandAccessUpdate_def returns_value fine_refl split: option.split)
  show "returns (fine L s) (SendRconLogLine e Client pLine s)" if v: "log_texts pLine \<noteq> None" "Client = -1 \<or> is_client_id Client"
  proof -
    obtain texts where t: "log_texts pLine = Some texts" using v(1) by blast
    have "nat Client < MAX_CLIENTS" if "is_client_id Client" using that by (auto simp: is_client_id_def nat_less_iff)
    then show ?thesis
      using assms v(2) f [OF sends_return(4) [OF n occupied_slot [OF n]]] f [OF send_admins_returns [OF n]] t
      by (auto simp: SendRconLogLine_def returns_value fine_refl)
  qed
  show "returns (fine L s) (game_message e pMsg Flags ClientId s)"
    using assms f [OF SendMsg_returns [OF n]] occupied_slot [OF n]
    by (auto simp: game_message_def returns_value fine_refl is_client_id_def nat_less_iff)
qed

lemma game_setters_fine:
  assumes "srv_inv L s"
  shows "fine L s (SetClientCountry ClientId Country s)" "fine L s (SetClientScore ClientId Score s)"
    "fine L s (SetClientFlags ClientId Flags s)" "fine L s (SetRconCid ClientId s)"
    "is_client_id ClientId \<Longrightarrow> returns (fine L s) (SetClientDDNetVersion ClientId DDNetVersion s)"
  using assms rcon_ids_fine [OF assms, of "s_RconAuthLevel s" ClientId]
  by (auto simp: SetClientCountry_def SetClientScore_def SetClientFlags_def set_for_game_def SetRconCid_def SetClientDDNetVersion_def
      is_client_id_def returns_value fine_refl nat_less_iff intro!: set_client_plain)

text \<open>Only the game is told, of clients that are playing.\<close>

lemma told_playing_fine:
  assumes "srv_inv L s" "ev = OnClientPredictedEarlyInput i d \<or> ev = OnClientPredictedInput i d" "i < MAX_CLIENTS" "cc_State (client s i) = STATE_INGAME"
  shows "fine L s (tell_game ev s)" "client (tell_game ev s) = client s"
  using assms told_fine [OF assms(1), of ev] by (auto simp: phases_def)

lemma early_told_fine:
  "srv_inv L s \<Longrightarrow> i < MAX_CLIENTS \<Longrightarrow> cc_State (client s i) = STATE_INGAME \<Longrightarrow>
   fine L s (foldl (\<lambda>s aData. tell_game (OnClientPredictedEarlyInput i (Some aData)) s) s inputs)"
proof (induction inputs arbitrary: s)
  case (Cons d inputs)
  let ?s = "tell_game (OnClientPredictedEarlyInput i (Some d)) s"
  have t: "fine L s ?s" "client ?s = client s" using told_playing_fine [OF Cons.prems(1) _ Cons.prems(2,3)] by blast+
  then have "fine L ?s (foldl (\<lambda>s aData. tell_game (OnClientPredictedEarlyInput i (Some aData)) s) ?s inputs)"
    using Cons by (simp add: fine_def)
  with t(1) show ?case by (auto intro: fine_trans)
qed (simp add: fine_refl)

lemma early_inputs_fine: "srv_inv L s \<Longrightarrow> \<forall>i \<in> set is. i < MAX_CLIENTS \<Longrightarrow> fine L s (early_inputs is s)"
proof (induction "is" arbitrary: s)
  case (Cons i "is")
  have IH: "fine L s (early_inputs is x)" if "fine L s x" for x
    using Cons that fine_trans unfolding fine_def by fastforce
  show ?case unfolding early_inputs.simps
    by (rule IH) (use Cons.prems in \<open>auto simp: fine_refl early_told_fine intro: told_playing_fine(1) split: list.split
      intro: early_told_fine [where inputs = "_ # _", simplified]\<close>)
qed (simp add: fine_refl)

lemma tick_inputs_fine: "srv_inv L s \<Longrightarrow> \<forall>i \<in> set is. i < MAX_CLIENTS \<Longrightarrow> fine L s (tick_inputs is s)"
proof (induction "is" arbitrary: s)
  case (Cons i "is")
  have IH: "fine L s (tick_inputs is x)" if "fine L s x" for x
    using Cons that fine_trans unfolding fine_def by fastforce
  show ?case unfolding tick_inputs.simps
    by (rule IH) (use Cons.prems in \<open>auto simp: fine_refl intro: told_playing_fine(1) split: list.split\<close>)
qed (simp add: fine_refl)

text \<open>The tick and the time are of no importance for the invariant.\<close>

lemma clock_fine:
  assumes "srv_inv L s"
  shows "fine L s (s\<lparr>s_Tick := k\<rparr>)" "fine L s (s\<lparr>s_GameStartTime := t, s_Tick := k\<rparr>)"
  using assms
  by (simp_all add: fine_def evolves_def no_gain_def no_entry_def in_order_same login_def srv_inv_def net_ok_def auth_ok_def
      client_def occupied_def client_addr_def phases_def fun_eq_iff)

lemma game_tick_fine:
  assumes "srv_inv L s"
  shows "fine L s (game_tick s)"
proof -
  let ?s1 = "early_inputs [0..<MAX_CLIENTS] s"
  let ?s2 = "?s1\<lparr>s_Tick := s_Tick ?s1 + 1\<rparr>"
  let ?s3 = "tick_inputs [0..<MAX_CLIENTS] ?s2"
  have 1: "fine L s ?s1" using early_inputs_fine [OF assms] by simp
  then have 2: "fine L ?s1 ?s2" by (intro clock_fine(1)) (simp add: fine_def)
  then have 3: "fine L ?s2 ?s3" by (intro tick_inputs_fine) (simp_all add: fine_def)
  then have "fine L ?s3 (tell_game OnTick ?s3)" by (intro told_fine) (simp_all add: fine_def)
  with 1 2 3 show ?thesis unfolding game_tick_def Let_def by (blast intro: fine_trans)
qed

section \<open>A change of the map sends all back\<close>

text \<open>The clients in \<open>A\<close> that had got past the password are connecting again; the others are where they were.\<close>

definition moved_back :: "int \<Rightarrow> nat set \<Rightarrow> CServer \<Rightarrow> CServer \<Rightarrow> bool" where
  "moved_back L A s s' \<longleftrightarrow> srv_inv L s' \<and> s_Game s' = s_Game s \<and> s_Auth s' = s_Auth s \<and>
     (\<forall>j < MAX_CLIENTS. cc_Authed (client s' j) = cc_Authed (client s j) \<and> cc_AuthKey (client s' j) = cc_AuthKey (client s j) \<and>
        cc_State (client s' j) = (if j \<in> A \<and> \<not> cc_State (client s j) \<le> STATE_AUTH then STATE_CONNECTING else cc_State (client s j)))"

lemma past_auth: "\<not> x \<le> STATE_AUTH \<longleftrightarrow> x \<ge> STATE_CONNECTING"
  by (cases x) (simp_all add: less_eq_client_state_def)

lemma moved_back_refl: "srv_inv L s \<Longrightarrow> moved_back L {} s s"
  by (simp add: moved_back_def)

lemma moved_back_trans: "moved_back L A s s1 \<Longrightarrow> moved_back L B s1 s2 \<Longrightarrow> moved_back L (A \<union> B) s s2"
  unfolding moved_back_def past_auth by auto

lemma moved_back_then:
  assumes "returns (moved_back L A s) m" "\<And>x. moved_back L A s x \<Longrightarrow> returns (moved_back L B x) (f x)"
  shows "returns (moved_back L (A \<union> B) s) (Option.bind m f)"
  unfolding returns_rules
  by (rule returns_mono [OF assms(1)], rule returns_mono [OF assms(2)]) (auto intro: moved_back_trans)

lemma sent_moved_back: "srv_inv L s \<Longrightarrow> sent L s s' \<Longrightarrow> moved_back L {} s s'"
  using sent_fine [of L s s'] sent_fields [of L s s'] by (simp add: moved_back_def fine_def)

lemma plain_moved_back:
  assumes "srv_inv L s" "i < MAX_CLIENTS" "cc_State (f (client s i)) = cc_State (client s i)"
    "cc_Authed (f (client s i)) = cc_Authed (client s i)" "cc_AuthKey (f (client s i)) = cc_AuthKey (client s i)"
  shows "moved_back L {} s (set_client i f s)"
  using set_client_plain [of L s i f, OF assms] assms(3-5) srv_inv_length [OF assms(1)]
  by (simp add: moved_back_def fine_def client_set_client)

lemma sent_back_moved_back:
  assumes "srv_inv L s" "i < MAX_CLIENTS" "occupied s i" "\<not> cc_State (client s i) \<le> STATE_AUTH"
  shows "moved_back L {i} s (set_client i sent_back s)"
proof -
  note len = srv_inv_length [OF assms(1)]
  have k: "key_ok (s_Auth s) (client s i)" "net_ok L s" "auth_ok s" using assms(1,2) by (simp_all add: srv_inv_def auth_ok_def)
  have cl: "s_Clients (set_client i sent_back s) = (s_Clients s)[i := sent_back (client s i)]" by (simp add: set_client_def)
  have "key_ok (s_Auth s) (sent_back (client s i))" using k(1) by (simp add: key_ok_def sent_back_def)
  then have "srv_inv L (set_client i sent_back s)"
    using net_ok_upd [OF k(2) cl] auth_ok_upd [OF k(3) len cl] assms(3) by (simp add: srv_inv_def)
  then show ?thesis using assms(4) len by (simp add: moved_back_def client_set_client sent_back_def)
qed

lemma SendMap_moved_back:
  assumes "srv_inv L s" "i < MAX_CLIENTS" "occupied s i"
  shows "returns (moved_back L {} s) (SendMap e i s)"
proof -
  have n: "net_ok L s" using assms(1) by (simp add: srv_inv_def)
  note slot = occupied_slot [OF n assms(3,2)]
  have "returns (sent L s) (Option.bind (send_sys e (MapDetails e (IsSixup s i)) MSGFLAG_VITAL i s)
      (\<lambda>s. send_sys e (MapChange e (IsSixup s i)) (MSGFLAG_VITAL OR MSGFLAG_FLUSH) i s))"
    by (rule sent_then [OF send_sys_returns [OF n slot]]) (rule send_sys_returns, simp_all add: sent_fields(10,11) slot)
  then have "returns (moved_back L {} s) (Option.bind (send_sys e (MapDetails e (IsSixup s i)) MSGFLAG_VITAL i s)
      (\<lambda>s. send_sys e (MapChange e (IsSixup s i)) (MSGFLAG_VITAL OR MSGFLAG_FLUSH) i s))"
    by (rule returns_mono) (rule sent_moved_back [OF assms(1)])
  then have "returns (moved_back L ({} \<union> {}) s) (Option.bind (Option.bind (send_sys e (MapDetails e (IsSixup s i)) MSGFLAG_VITAL i s)
      (\<lambda>s. send_sys e (MapChange e (IsSixup s i)) (MSGFLAG_VITAL OR MSGFLAG_FLUSH) i s))
      (\<lambda>s. Some (set_client i (\<lambda>c. c\<lparr>cc_NextMapChunk := 0\<rparr>) s)))"
    by (rule moved_back_then) (simp add: returns_rules, rule plain_moved_back, simp_all add: moved_back_def assms(2))
  then show ?thesis by (simp add: SendMap_def)
qed

lemma sent_home_returns:
  assumes "srv_inv L s" "i < MAX_CLIENTS" "\<not> cc_State (client s i) \<le> STATE_AUTH"
  shows "returns (moved_back L {i} s) (Option.bind (if SameMapReload then SendMapReload e i s else Some s)
     (\<lambda>s. map_option (set_client i sent_back) (SendMap e i s)))"
proof -
  have n: "net_ok L s" using assms(1) by (simp add: srv_inv_def)
  have occ: "occupied x i" if "\<not> cc_State (client x i) \<le> STATE_AUTH" for x
    using that by (auto simp: occupied_def less_eq_client_state_def)
  have "returns (moved_back L {} s) (if SameMapReload then SendMapReload e i s else Some s)"
    using sends_return(9) [OF n occupied_slot [OF n occ [OF assms(3)] assms(2)], of e] sent_moved_back [OF assms(1)] moved_back_refl [OF assms(1)]
    by (auto simp: returns_value intro: returns_mono)
  moreover have "returns (moved_back L {i} x) (map_option (set_client i sent_back) (SendMap e i x))" if m: "moved_back L {} s x" for x
  proof -
    have x: "srv_inv L x" "\<not> cc_State (client x i) \<le> STATE_AUTH" using m assms by (simp_all add: moved_back_def)
    have "moved_back L {i} x (set_client i sent_back y)" if "moved_back L {} x y" for y
    proof -
      have "srv_inv L y" "\<not> cc_State (client y i) \<le> STATE_AUTH" using that x assms(2) by (simp_all add: moved_back_def)
      from sent_back_moved_back [OF this(1) assms(2) occ [OF this(2)] this(2)] moved_back_trans [OF that] show ?thesis by fastforce
    qed
    then show ?thesis unfolding returns_map by (rule returns_mono [OF SendMap_moved_back [OF x(1) assms(2) occ [OF x(2)]]])
  qed
  ultimately have "returns (moved_back L ({} \<union> {i}) s) (Option.bind (if SameMapReload then SendMapReload e i s else Some s)
     (\<lambda>s. map_option (set_client i sent_back) (SendMap e i s)))" by (rule moved_back_then)
  then show ?thesis by simp
qed

lemma send_back_returns:
  "srv_inv L s \<Longrightarrow> \<forall>i \<in> set is. i < MAX_CLIENTS \<Longrightarrow> returns (moved_back L (set is) s) (send_back e SameMapReload is s)"
proof (induction "is" arbitrary: s)
  case (Cons i "is")
  have IH: "returns (moved_back L (set is) x) (send_back e SameMapReload is x)" if "srv_inv L x" for x
    using Cons that by simp
  show ?case
  proof (cases "cc_State (client s i) \<le> STATE_AUTH")
    case True
    then have "moved_back L (set (i # is)) s x" if "moved_back L (set is) s x" for x
      using that by (auto simp: moved_back_def)
    then show ?thesis using True IH [OF Cons.prems(1)] by (auto intro: returns_mono)
  next
    case False
    have "returns (moved_back L ({i} \<union> set is) s) (Option.bind (Option.bind (if SameMapReload then SendMapReload e i s else Some s)
       (\<lambda>s. map_option (set_client i sent_back) (SendMap e i s))) (send_back e SameMapReload is))"
      by (rule moved_back_then, rule sent_home_returns) (use Cons.prems False IH in \<open>simp_all add: moved_back_def\<close>)
    moreover have "send_back e SameMapReload (i # is) s = Option.bind (Option.bind (if SameMapReload then SendMapReload e i s else Some s)
       (\<lambda>s. map_option (set_client i sent_back) (SendMap e i s))) (send_back e SameMapReload is)"
      using False by (simp add: Option.bind_assoc Option.bind_map_option comp_def)
    ultimately show ?thesis by simp
  qed
qed (simp add: returns_value moved_back_refl)

lemma persist_data_fine: "srv_inv L s \<Longrightarrow> \<forall>i \<in> set is. i < MAX_CLIENTS \<Longrightarrow> fine L s (persist_data e is s)"
proof (induction "is" arbitrary: s)
  case (Cons i "is")
  have IH: "fine L s (persist_data e is x)" if "fine L s x" for x
    using Cons that fine_trans unfolding fine_def by fastforce
  show ?case unfolding persist_data.simps
    by (rule IH) (use Cons.prems in \<open>auto simp: fine_refl intro!: set_client_plain\<close>)
qed (simp add: fine_refl)

text \<open>The game is shut down, and all its clients are away.\<close>

lemma shut_down_fine:
  assumes "srv_inv L s" "moved_back L {..<MAX_CLIENTS} (tell_game Game_OnShutdown s) s'"
  shows "fine L s s'"
proof -
  have st: "cc_State (client s' j) = (if cc_State (client s j) \<ge> STATE_CONNECTING then STATE_CONNECTING else cc_State (client s j))"
    "login s' j = login s j" if "j < MAX_CLIENTS" for j
    using assms(2) that by (simp_all add: moved_back_def past_auth login_def)
  have away: "phases s' = (\<lambda>_. Away)"
  proof
    fix j
    show "phases s' j = Away" using st(1) [of j] by (cases "cc_State (client s j)") (simp_all add: phases_def less_eq_client_state_def)
  qed
  have "in_order s s'" by (rule in_order_told [where ev = Game_OnShutdown]) (use assms(2) away in \<open>simp_all add: moved_back_def\<close>)
  then show ?thesis using assms(2) st
    by (simp add: fine_def evolves_def no_gain_def no_entry_def moved_back_def past_auth)
qed

lemma change_map_returns:
  assumes "srv_inv L s"
  shows "returns (fine L s) (change_map e SameMapReload s)"
proof -
  let ?s1 = "persist_data e [0..<MAX_CLIENTS] s"
  let ?s2 = "tell_game Game_OnShutdown ?s1"
  have 1: "fine L s ?s1" using persist_data_fine [OF assms] by simp
  then have i: "srv_inv L ?s1" by (simp add: fine_def)
  moreover have "client ?s2 = client ?s1" "s_Auth ?s2 = s_Auth ?s1" by simp_all
  ultimately have "srv_inv L ?s2" by (simp add: srv_inv_def net_ok_def auth_ok_def)
  then have "returns (moved_back L {..<MAX_CLIENTS} ?s2) (send_back e SameMapReload [0..<MAX_CLIENTS] ?s2)"
    using send_back_returns [of L ?s2 "[0..<MAX_CLIENTS]"] by (simp add: atLeast0LessThan)
  then obtain s3 where s3: "send_back e SameMapReload [0..<MAX_CLIENTS] ?s2 = Some s3" "moved_back L {..<MAX_CLIENTS} ?s2 s3"
    by (auto simp: returns_def)
  have 3: "fine L ?s1 s3" by (rule shut_down_fine [OF i s3(2)])
  obtain t s4 where s4: "server_time s3 = (t, s4)" by fastforce
  have 4: "fine L s3 s4" by (rule sent_fine [OF _ server_time_sent [OF _ s4]]) (use 3 in \<open>simp_all add: fine_def srv_inv_def\<close>)
  let ?s5 = "s4\<lparr>s_GameStartTime := t, s_Tick := MIN_TICK\<rparr>"
  have 5: "fine L s4 ?s5" by (intro clock_fine(2)) (use 4 in \<open>simp add: fine_def\<close>)
  have "fine L ?s5 (tell_game Game_OnInit ?s5)" by (rule told_fine) (use 5 in \<open>simp_all add: fine_def\<close>)
  with 1 3 4 5 have "fine L s (tell_game Game_OnInit ?s5)" by (blast intro: fine_trans)
  then show ?thesis using s3(1) s4 by (simp add: change_map_def returns_value)
qed

end
