(* ===== verification/ServerSafe.thy ===== *)
theory ServerSafe
  imports ServerRun
begin

text \<open>
  The engine as a state machine over the packets of the clients, the callbacks of the network and the commands
  of the console, the states it gets into, and what holds in all of them. The operations are those of
  \<^verbatim>\<open>src/src/engine/server/server.cpp\<close>.
\<close>

section \<open>The console\<close>

text \<open>
  The commands that change clients, bans, keys or limits or send something, and what they do: those that the
  server and the bans register, those of the game that send clients away, what is sent when the access level
  of a command or a password is changed, and the lines that a command logs.
\<close>

datatype console_cmd =
    Cmd_kick int "u8 list option"
  | Cmd_ban "int option" "NETADDR option" "int option" "u8 list option"
  | Cmd_ban_range CNetRange int "u8 list"
  | Cmd_auth_add "u8 list" "u8 list" "u8 list"
  | Cmd_auth_add_p "u8 list" "u8 list" "u8 list" "u8 list"
  | Cmd_auth_change "u8 list" "u8 list" "u8 list"
  | Cmd_auth_change_p "u8 list" "u8 list" "u8 list" "u8 list"
  | Cmd_auth_remove "u8 list"
  | Cmd_password int "u8 list" "u8 list option"
  | Cmd_logout
  | Cmd_redirect nat int
  | Cmd_reconnect nat
  | Cmd_unban "int option" "NETADDR option"
  | Cmd_unban_range CNetRange
  | Cmd_unban_all
  | Cmd_ban_region "u8 list" "int option" "NETADDR option" "int option" "u8 list option"
  | Cmd_ban_region_range "u8 list" CNetRange int "u8 list"
  | Cmd_show_ips "int option"
  | Cmd_hide_auth_status "int option"
  | Cmd_max_clients_per_ip "int option"
  | Cmd_access_level "(CCommandInfo \<times> int) option" "u8 list"
  | Cmd_log_line int "u8 list"
  | Cmd_game_message CMsgPacker int int

fun console_do :: "srv_env \<Rightarrow> console_cmd \<Rightarrow> CServer \<Rightarrow> CServer option" where
  "console_do e (Cmd_kick ClientId reason) s = ConKick ClientId reason s"
| "console_do e (Cmd_ban ClientId addr minutes reason) s = ConBanExt e ClientId addr minutes reason s"
| "console_do e (Cmd_ban_range r Seconds pReason) s = map_option snd (server_BanRange e r Seconds pReason s)"
| "console_do e (Cmd_auth_add pIdent pLevel pPw) s = ConAuthAdd e pIdent pLevel pPw s"
| "console_do e (Cmd_auth_add_p pIdent pLevel pPw pSalt) s = ConAuthAddHashed e pIdent pLevel pPw pSalt s"
| "console_do e (Cmd_auth_change pIdent pLevel pPw) s = ConAuthUpdate e pIdent pLevel pPw s"
| "console_do e (Cmd_auth_change_p pIdent pLevel pPw pSalt) s = ConAuthUpdateHashed e pIdent pLevel pPw pSalt s"
| "console_do e (Cmd_auth_remove pIdent) s = ConAuthRemove e pIdent s"
| "console_do e (Cmd_password Level pCurrent argument) s = ConchainRconPasswordChangeGeneric e Level pCurrent argument s"
| "console_do e Cmd_logout s = ConLogout e s"
| "console_do e (Cmd_redirect i Port) s = RedirectClient e i Port s"
| "console_do e (Cmd_reconnect i) s = ReconnectClient e i s"
| "console_do e (Cmd_unban index addr) s = Server_ConUnban index addr s"
| "console_do e (Cmd_unban_range r) s = Server_ConUnbanRange r s"
| "console_do e Cmd_unban_all s = Some (Server_ConUnbanAll s)"
| "console_do e (Cmd_ban_region pRegion ClientId addr minutes reason) s = ConBanRegion e pRegion ClientId addr minutes reason s"
| "console_do e (Cmd_ban_region_range pRegion r Seconds pReason) s = ConBanRegionRange e pRegion r Seconds pReason s"
| "console_do e (Cmd_show_ips argument) s = Some (ConShowIps argument s)"
| "console_do e (Cmd_hide_auth_status argument) s = Some (ConHideAuthStatus argument s)"
| "console_do e (Cmd_max_clients_per_ip argument) s = Some (ConchainMaxclientsperipUpdate argument s)"
| "console_do e (Cmd_access_level info pName) s = ConchainCommandAccessUpdate e info pName s"
| "console_do e (Cmd_log_line ClientId pLine) s = SendRconLogLine e ClientId pLine s"
| "console_do e (Cmd_game_message pMsg Flags ClientId) s = game_message e pMsg Flags ClientId s"

fun run_cmds :: "srv_env \<Rightarrow> console_cmd list \<Rightarrow> CServer \<Rightarrow> CServer option" where
  "run_cmds e [] s = Some s"
| "run_cmds e (cmd # cmds) s = Option.bind (console_do e cmd s) (run_cmds e cmds)"

text \<open>
  Addresses that were parsed, one of the three levels, a client id in range, at most \<open>L\<close> clients with one
  address, where any number will do if \<open>L\<close> is 64 or more, and a line of the log that is not written behind its
  array, as all lines of less than 512 bytes are (\<open>short_line_fits\<close>).
\<close>

fun cmd_valid :: "int \<Rightarrow> console_cmd \<Rightarrow> bool" where
  "cmd_valid L (Cmd_ban _ addr _ _) = (case addr of Some a \<Rightarrow> valid_addr a | None \<Rightarrow> True)"
| "cmd_valid L (Cmd_ban_range r _ _) = (valid_addr (m_LB r) \<and> valid_addr (m_UB r))"
| "cmd_valid L (Cmd_password Level _ _) = (Level \<in> {AUTHED_HELPER, AUTHED_MOD, AUTHED_ADMIN})"
| "cmd_valid L (Cmd_redirect i _) = (i < MAX_CLIENTS)"
| "cmd_valid L (Cmd_reconnect i) = (i < MAX_CLIENTS)"
| "cmd_valid L (Cmd_unban _ addr) = (case addr of Some a \<Rightarrow> valid_addr a | None \<Rightarrow> True)"
| "cmd_valid L (Cmd_unban_range r) = (valid_addr (m_LB r) \<and> valid_addr (m_UB r))"
| "cmd_valid L (Cmd_ban_region _ _ addr _ _) = (case addr of Some a \<Rightarrow> valid_addr a | None \<Rightarrow> True)"
| "cmd_valid L (Cmd_ban_region_range _ r _ _) = (valid_addr (m_LB r) \<and> valid_addr (m_UB r))"
| "cmd_valid L (Cmd_max_clients_per_ip argument) = (case argument of Some v \<Rightarrow> min (max v 1) 64 \<le> L | None \<Rightarrow> True)"
| "cmd_valid L (Cmd_log_line ClientId pLine) = ((ClientId = -1 \<or> is_client_id ClientId) \<and> log_texts pLine \<noteq> None)"
| "cmd_valid L _ = True"

text \<open>
  What a line that is executed does to the engine is what some of these commands do one after the other,
  whatever the console makes of the line. All other commands only read, or change what is not in the model,
  such as settings, records, files and the state of the game, so that they are no command here but the lines
  they log.
\<close>

definition console_ok :: "int \<Rightarrow> srv_env \<Rightarrow> bool" where
  "console_ok L e \<longleftrightarrow> (\<forall>line lvl i s. \<exists>cmds. list_all (cmd_valid L) cmds \<and> ev_Execute e line lvl i s = run_cmds e cmds s)"

lemma console_do_returns: "srv_inv L s \<Longrightarrow> cmd_valid L cmd \<Longrightarrow> returns (fine L s) (console_do e cmd s)"
proof (cases cmd)
  case (Cmd_ban_range r Seconds pReason)
  assume "srv_inv L s" "cmd_valid L cmd"
  then show ?thesis using Cmd_ban_range server_BanRange_returns [of L s r] by (simp add: returns_map)
qed (auto simp: ConKick_def Kick_returns ConBanExt_returns auth_commands_return password_change_returns ConLogout_returns
    RedirectClient_returns ReconnectClient_returns unban_commands_return region_bans_return client_flags_fine
    ConchainMaxclientsperipUpdate_fine messages_out_return returns_value split: option.splits)

lemma run_cmds_returns: "srv_inv L s \<Longrightarrow> list_all (cmd_valid L) cmds \<Longrightarrow> returns (fine L s) (run_cmds e cmds s)"
proof (induction cmds arbitrary: s)
  case (Cons cmd cmds)
  have "returns (fine L s) (Option.bind (console_do e cmd s) (run_cmds e cmds))"
    by (rule fine_then [OF console_do_returns Cons.IH]) (use Cons.prems in \<open>simp_all add: fine_def\<close>)
  then show ?case by simp
qed (simp add: returns_value fine_refl)

lemma console_returns: "console_ok L e \<Longrightarrow> srv_inv L s \<Longrightarrow> returns (fine L s) (ev_Execute e line lvl i s)"
  unfolding console_ok_def using run_cmds_returns by metis

section \<open>The engine\<close>

text \<open>
  What happens to the engine: the network server works for itself, or calls back; a client sends a packet;
  the console runs a command; the game sets something of a client; what is done in each tick; the map is changed.
\<close>

datatype engine_op =
    Do_network CNetServer net
  | Do_new nat bool
  | Do_new_noauth nat
  | Do_rejoin nat
  | Do_del nat reason
  | Do_packet nat bool NETADDR "u8 list" "u8 list"
  | Do_console console_cmd
  | Do_rcon_commands nat
  | Do_redirected
  | Do_shutdown reason
  | Do_timed_out nat nat
  | Do_ban_update
  | Do_client_country int int
  | Do_client_score int "int option"
  | Do_client_flags int int
  | Do_client_version int int
  | Do_rcon_cid int
  | Do_tick
  | Do_change_map bool

fun engine_do :: "srv_env \<Rightarrow> engine_op \<Rightarrow> CServer \<Rightarrow> CServer option" where
  "engine_do e (Do_network sv n) s = Some (s\<lparr>s_Net := sv, s_World := n\<rparr>)"
| "engine_do e (Do_new i Sixup) s = Some (NewClientCallback i Sixup s)"
| "engine_do e (Do_new_noauth i) s = NewClientNoAuthCallback e i s"
| "engine_do e (Do_rejoin i) s = ClientRejoinCallback e i s"
| "engine_do e (Do_del i pReason) s = DelClientCallback i pReason s"
| "engine_do e (Do_packet i Vital Address Data Stale) s = ProcessClientPacket e Vital Address Data Stale i s"
| "engine_do e (Do_console cmd) s = console_do e cmd s"
| "engine_do e (Do_rcon_commands i) s = UpdateClientRconCommands e i s"
| "engine_do e Do_redirected s = drop_redirected [0..<MAX_CLIENTS] s"
| "engine_do e (Do_shutdown pReason) s = drop_all pReason [0..<MAX_CLIENTS] s"
| "engine_do e (Do_timed_out i OrigId) s = map_option snd (SetTimedOut e i OrigId s)"
| "engine_do e Do_ban_update s = ServerBan_Update e s"
| "engine_do e (Do_client_country ClientId Country) s = Some (SetClientCountry ClientId Country s)"
| "engine_do e (Do_client_score ClientId Score) s = Some (SetClientScore ClientId Score s)"
| "engine_do e (Do_client_flags ClientId Flags) s = Some (SetClientFlags ClientId Flags s)"
| "engine_do e (Do_client_version ClientId Version) s = SetClientDDNetVersion ClientId Version s"
| "engine_do e (Do_rcon_cid ClientId) s = Some (SetRconCid ClientId s)"
| "engine_do e Do_tick s = Some (game_tick s)"
| "engine_do e (Do_change_map SameMapReload) s = change_map e SameMapReload s"

text \<open>
  What the network server and the game keep to: a slot that is told of is free and connected, one that is
  dropped or has sent something is in use, and the addresses of clients in use do not change.
\<close>

fun op_allowed :: "int \<Rightarrow> CServer \<Rightarrow> engine_op \<Rightarrow> bool" where
  "op_allowed L s (Do_network sv n) \<longleftrightarrow> sv_inv L sv \<and> sv_MaxClients sv = sv_MaxClients (s_Net s) \<and>
     (\<forall>i < MAX_CLIENTS. occupied s i \<longrightarrow> c_PeerAddr (slot sv i) = client_addr s i)"
| "op_allowed L s (Do_new i _) \<longleftrightarrow> i < sv_MaxClients (s_Net s) \<and> \<not> occupied s i \<and> valid_addr (client_addr s i)"
| "op_allowed L s (Do_new_noauth i) \<longleftrightarrow> i < sv_MaxClients (s_Net s) \<and> \<not> occupied s i \<and> valid_addr (client_addr s i)"
| "op_allowed L s (Do_rejoin i) \<longleftrightarrow> i < MAX_CLIENTS \<and> occupied s i"
| "op_allowed L s (Do_del i _) \<longleftrightarrow> i < MAX_CLIENTS \<and> occupied s i"
| "op_allowed L s (Do_packet i _ Address _ _) \<longleftrightarrow> i < MAX_CLIENTS \<and> occupied s i \<and> valid_addr Address"
| "op_allowed L s (Do_console cmd) \<longleftrightarrow> cmd_valid L cmd"
| "op_allowed L s (Do_rcon_commands i) \<longleftrightarrow> i < MAX_CLIENTS"
| "op_allowed L s Do_redirected \<longleftrightarrow> True"
| "op_allowed L s (Do_shutdown _) \<longleftrightarrow> True"
| "op_allowed L s (Do_timed_out i j) \<longleftrightarrow> i < MAX_CLIENTS \<and> j < MAX_CLIENTS \<and> i \<noteq> j \<and> occupied s i \<and> occupied s j \<and>
     c_State (slot (s_Net s) j) \<notin> {OFFLINE, ERROR}"
| "op_allowed L s (Do_client_version ClientId _) \<longleftrightarrow> is_client_id ClientId"
| "op_allowed L s _ \<longleftrightarrow> True"

definition engine_start :: "int \<Rightarrow> CServer \<Rightarrow> bool" where
  "engine_start L s \<longleftrightarrow> sv_inv L (s_Net s) \<and> length (s_Clients s) = MAX_CLIENTS \<and>
     (\<forall>i < MAX_CLIENTS. \<not> occupied s i \<and> cc_Authed (client s i) = AUTHED_NO \<and> cc_AuthKey (client s i) = -1) \<and>
     netban_shows (s_Ban s) ([], []) \<and> am_Keys (s_Auth s) = [] \<and> am_Default (s_Auth s) = [-1, -1, -1] \<and> s_Game s = []"

text \<open>The configuration may change between the operations.\<close>

inductive engine_reaches :: "int \<Rightarrow> CServer \<Rightarrow> bool" for L where
  start: "engine_start L s \<Longrightarrow> engine_reaches L s"
| step: "engine_reaches L s \<Longrightarrow> console_ok L e \<Longrightarrow> op_allowed L s op \<Longrightarrow> engine_do e op s = Some s' \<Longrightarrow> engine_reaches L s'"

text \<open>What an operation may give: entry and rights are only got through messages, or without a handshake.\<close>

fun op_step :: "int \<Rightarrow> srv_env \<Rightarrow> engine_op \<Rightarrow> CServer \<Rightarrow> CServer \<Rightarrow> bool" where
  "op_step L e (Do_new_noauth i) s s' = enters L i s s'"
| "op_step L e (Do_packet i Vital Address Data Stale) s s' = packet_step L e Vital Data Stale i s s'"
| "op_step L e _ s s' = fine L s s'"

lemma network_fine:
  assumes "srv_inv L s" "op_allowed L s (Do_network sv n)"
  shows "fine L s (s\<lparr>s_Net := sv, s_World := n\<rparr>)"
proof -
  let ?s = "s\<lparr>s_Net := sv, s_World := n\<rparr>"
  have "client ?s = client s" "occupied ?s = occupied s" "phases ?s = phases s"
    by (simp_all add: client_def occupied_def phases_def fun_eq_iff)
  moreover have "client_addr ?s i = c_PeerAddr (slot sv i)" for i by (simp add: client_addr_def)
  ultimately show ?thesis using assms
    by (simp add: fine_def evolves_def no_gain_def no_entry_def in_order_same login_def srv_inv_def net_ok_def auth_ok_def)
qed

lemma op_step_fun:
  "op_step L e op s = (case op of Do_new_noauth i \<Rightarrow> enters L i s
     | Do_packet i Vital Address Data Stale \<Rightarrow> packet_step L e Vital Data Stale i s | _ \<Rightarrow> fine L s)"
  by (cases op) (simp_all add: fun_eq_iff)

lemma engine_do_returns:
  assumes "srv_inv L s" "console_ok L e" "op_allowed L s op"
  shows "returns (op_step L e op s) (engine_do e op s)"
proof (cases op)
  case (Do_network sv n)
  then show ?thesis using network_fine assms by (simp add: op_step_fun returns_value)
next
  case (Do_new i Sixup)
  then show ?thesis using NewClientCallback_fine assms by (simp add: op_step_fun returns_value)
next
  case (Do_new_noauth i)
  then show ?thesis using NewClientNoAuthCallback_returns assms by (simp add: op_step_fun)
next
  case (Do_del i pReason)
  then show ?thesis using assms by (auto simp: op_step_fun intro: returns_mono [OF DelClientCallback_returns])
next
  case (Do_packet i Vital Address Data Stale)
  then show ?thesis using assms console_returns [OF assms(2)] by (simp add: op_step_fun ProcessClientPacket_returns)
next
  case (Do_timed_out i j)
  then show ?thesis using SetTimedOut_returns [OF assms(1), of i j] assms(3) by (simp add: op_step_fun returns_map)
qed (use assms in \<open>simp_all add: op_step_fun ClientRejoinCallback_returns console_do_returns UpdateClientRconCommands_returns
    drop_redirected_returns drop_all_returns unban_commands_return game_setters_fine game_tick_fine change_map_returns returns_value\<close>)

lemma msg_step_inv: "msg_step L e Vital Stale Msg u i s s' \<Longrightarrow> srv_inv L s' \<and> in_order s s'"
  unfolding msg_step_def logs_in_def fine_def evolves_def enters_def gains_def by blast

lemma op_step_inv: "op_step L e op s s' \<Longrightarrow> srv_inv L s' \<and> in_order s s'"
  by (cases op) (auto simp: packet_step_def fine_def evolves_def enters_def dest: msg_step_inv)

lemma engine_start_inv: "engine_start L s \<Longrightarrow> srv_inv L s \<and> phases s = (\<lambda>_. Away)"
  by (auto simp: engine_start_def srv_inv_def net_ok_def auth_ok_def defaults_ok_def key_ok_def phases_def occupied_def fun_eq_iff)

lemma engine_reaches_inv: "engine_reaches L s \<Longrightarrow> srv_inv L s \<and> told_all (s_Game s) (\<lambda>_. Away) = Some (phases s)"
proof (induction rule: engine_reaches.induct)
  case (start s)
  then show ?case using engine_start_inv [OF start] by (simp add: engine_start_def)
next
  case (step s e op s')
  then have "op_step L e op s s'" using returns_Some [OF engine_do_returns] by blast
  then have i: "srv_inv L s'" "in_order s s'" by (simp_all add: op_step_inv)
  then obtain evs where "s_Game s' = s_Game s @ evs" "told_all evs (phases s) = Some (phases s')" by (auto simp: in_order_def)
  then show ?case using step.IH i(1) by (simp add: told_all_append)
qed

section \<open>A server to start with\<close>

definition empty_client :: CClient where
  "empty_client = \<lparr>cc_State = STATE_EMPTY, cc_Latency = 0, cc_SnapRate = 0, cc_LastAckedSnapshot = -1, cc_LastInputTick = -1,
     cc_Snapshots = [], cc_LatestInput = replicate 128 0, cc_aInputs = replicate 200 \<lparr>in_aData = replicate 128 0, in_GameTick = -1\<rparr>,
     cc_CurrentInput = 0, cc_Name = [], cc_Clan = [], cc_Country = -1, cc_Score = Some (-1), cc_Authed = AUTHED_NO, cc_AuthKey = -1,
     cc_AuthTries = 0, cc_AuthHidden = False, cc_NextMapChunk = 0, cc_Flags = 0, cc_ShowIps = False, cc_RconCmdToSend = None,
     cc_MaplistEntryToSend = MAPLIST_UNINITIALIZED, cc_HasPersistentData = False, cc_GotDDNetVersionPacket = False,
     cc_DDNetVersionSettled = False, cc_DDNetVersion = VERSION_NONE, cc_DDNetVersionStr = [], cc_ConnectionId = replicate 16 0,
     cc_RedirectDropTime = 0, cc_Sixup = False\<rparr>"

definition start_engine :: CServer where
  "start_engine = \<lparr>s_Clients = replicate 128 empty_client, s_Net = sample_server, s_Ban = no_bans,
     s_Auth = \<lparr>am_Keys = [], am_Default = [-1, -1, -1], am_Generated = False\<rparr>, s_RconClientId = RCON_CID_SERV,
     s_RconAuthLevel = AUTHED_ADMIN, s_Tick = 0, s_GameStartTime = 0, s_Game = [], s_World = quiet_net\<rparr>"

text \<open>A password, and a console that knows one command.\<close>

definition start_env :: srv_env where
  "start_env = \<lparr>ev_Md5 = name_md5, ev_Salt = [1, 2, 3, 4, 5, 6, 7, 8], ev_Uuids = \<lparr>um_Names = [], um_NamesSorted = []\<rparr>, ev_SixToSeven = id,
     ev_Password = [112, 119], ev_SvReservedSlots = 0, ev_SvReservedSlotsPass = [], ev_SvReservedSlotsAuthLevel = 1, ev_SvRconMaxTries = 3,
     ev_SvRconBantime = 5, ev_SvMapWindow = 15, ev_SvFastDownload = True, ev_SvRegionName = [], ev_Port = 8303, ev_Timestamp = 1000,
     ev_MapName = [109], ev_MapUrl = [], ev_MapSha256 = (\<lambda>_. replicate 32 0), ev_MapCrc = (\<lambda>_. 7), ev_MapData = (\<lambda>_. [1, 2, 3]),
     ev_ServerInfo = [], ev_SixupServerInfo = [], ev_NetVersion = [48, 46, 54], ev_IsClientReady = (\<lambda>_ _. True),
     ev_PlayerExists = (\<lambda>_ _. True), ev_OnClientDataPersist = (\<lambda>_ _. False), ev_PrepareInput = (\<lambda>_ x. x), ev_Commands = [],
     ev_Execute = (\<lambda>line _ i s. if line = bytes_of ''kick 1'' then ConKick 1 None s else Some s), ev_Stressing = (\<lambda>_ _. False)\<rparr>"

lemma start_env_console: "console_ok 2 start_env"
proof -
  have "list_all (cmd_valid 2) (if line = bytes_of ''kick 1'' then [Cmd_kick 1 None] else []) \<and>
      ev_Execute start_env line lvl i s = run_cmds start_env (if line = bytes_of ''kick 1'' then [Cmd_kick 1 None] else []) s" for line lvl i s
    by (cases "ConKick 1 None s") (simp_all add: start_env_def)
  then show ?thesis unfolding console_ok_def by blast
qed

lemma start_engine_reached: "engine_reaches 2 start_engine"
proof (rule engine_reaches.start)
  have "sv_inv 2 sample_server" using server_reaches_inv [OF sample_server_reached] by simp
  then show "engine_start 2 start_engine"
    by (simp add: engine_start_def start_engine_def occupied_def client_def empty_client_def MAX_CLIENTS_def no_bans_shows(1))
qed

text \<open>A new client, and an administrator: the states of the examples.\<close>

lemma new_client_reached:
  obtains s where "engine_do start_env (Do_new 0 False) start_engine = Some s" "engine_reaches 2 s"
    "cc_State (client s 0) = STATE_PREAUTH" "cc_Authed (client s 0) = AUTHED_NO" "\<not> IsSixup s 0" "s_Auth s = s_Auth start_engine"
    "sv_MaxClients (s_Net s) = 2"
proof
  let ?s = "NewClientCallback 0 False start_engine"
  have c: "client ?s 0 = (fresh_client STATE_PREAUTH empty_client)\<lparr>cc_Sixup := False\<rparr>"
  proof -
    have "length (s_Clients start_engine) = 128" "client start_engine 0 = empty_client" by (simp_all add: start_engine_def client_def)
    then show ?thesis by (simp add: NewClientCallback_def client_set_client)
  qed
  show do: "engine_do start_env (Do_new 0 False) start_engine = Some ?s" by simp
  have "op_allowed 2 start_engine (Do_new 0 False)"
    by (simp add: start_engine_def occupied_def client_def empty_client_def client_addr_def slot_def valid_addr_def idle_Init zero_addr_def)
  from engine_reaches.step [OF start_engine_reached start_env_console this do] show "engine_reaches 2 ?s" .
  show "cc_State (client ?s 0) = STATE_PREAUTH" "cc_Authed (client ?s 0) = AUTHED_NO" "\<not> IsSixup ?s 0"
    unfolding IsSixup_def c by (simp_all add: fresh_client_def)
  show "s_Auth ?s = s_Auth start_engine" "sv_MaxClients (s_Net ?s) = 2" by (simp_all add: NewClientCallback_def start_engine_def)
qed

section \<open>Properties\<close>

text \<open>
  C12: Every operation of the engine returns, in every state that its operations lead to: any packet of any
  client, the callbacks of the network, what the game sets of a client and sends, its tick, the end of bans, the
  redirections, the change of the map, the shutdown, and each command of \<open>console_cmd\<close>: kicks, bans and unbans,
  keys and passwords, the limit per address, access levels, redirections, logouts, the settings of the one who
  types, and lines of the log. A line that a client has executed is some of these commands (\<open>console_ok\<close>).
  No assertion fails, no slot out of range is used, and no loop runs forever.
\<close>

theorem engine_operations_return:
  assumes "engine_reaches L s" "console_ok L e" "op_allowed L s op"
  shows "\<exists>s'. engine_do e op s = Some s' \<and> engine_reaches L s'"
proof -
  have "srv_inv L s" using engine_reaches_inv [OF assms(1)] by simp
  from engine_do_returns [OF this assms(2,3)] obtain s' where s': "engine_do e op s = Some s'" by (auto simp: returns_def)
  with engine_reaches.step [OF assms s'] show ?thesis by blast
qed

theorem engine_operations_return_witness:
  "\<exists>s s'. occupied s 0 \<and> engine_do start_env (Do_packet 0 True zero_addr [37, 0, 120, 0, 1] []) s = Some s' \<and> engine_reaches 2 s'"
proof -
  obtain s where s: "engine_reaches 2 s" "cc_State (client s 0) = STATE_PREAUTH" by (rule new_client_reached)
  then have "op_allowed 2 s (Do_packet 0 True zero_addr [37, 0, 120, 0, 1] [])"
    by (simp add: MAX_CLIENTS_def occupied_def valid_addr_def zero_addr_def)
  from engine_operations_return [OF s(1) start_env_console this]
  obtain s' where "engine_do start_env (Do_packet 0 True zero_addr [37, 0, 120, 0, 1] []) s = Some s'" "engine_reaches 2 s'" by blast
  moreover have "occupied s 0" using s(2) by (simp add: occupied_def)
  ultimately show ?thesis by blast
qed

text \<open>
  C15: The game is told of every client in order: that it has connected, that it enters, and that it has
  left, in turns; it gets messages only from clients that have connected, and input, direct or predicted, only
  from those that play. At a change of the map it is shut down, and all clients are away. What it was told is
  where the clients are.
\<close>

theorem game_told_in_order:
  assumes "engine_reaches L s"
  shows "told_all (s_Game s) (\<lambda>_. Away) = Some (phases s)"
  using engine_reaches_inv [OF assms] by simp

theorem game_told_in_order_witness:
  "\<exists>s. engine_do start_env (Do_new 0 False) start_engine = Some s \<and> told_all (s_Game s) (\<lambda>_. Away) = Some (phases s)"
proof -
  obtain s where s: "engine_do start_env (Do_new 0 False) start_engine = Some s" "engine_reaches 2 s" by (rule new_client_reached)
  from s(1) game_told_in_order [OF s(2)] show ?thesis by blast
qed

text \<open>
  C13: Only a login gives rights for the remote console: if an operation leaves a client with rights that it
  did not have, then it is a vital message of this client with a name and a password, and the password is right
  for a key whose identifier goes with the rights. If there is a name, it is the key of that name, and the level
  is the level of the key. If the name is empty, it is the key in the default slot of the level, and no default
  key of a higher level has this password; here the level is that of the slot, whatever level the key itself
  may have been given since by \<open>auth_update\<close>.
\<close>

theorem rights_need_password:
  assumes "engine_reaches L s" "console_ok L e" "op_allowed L s op" "engine_do e op s = Some s'"
    "j < MAX_CLIENTS" "login s' j = Some rights" "login s j \<noteq> Some rights"
  shows "\<exists>Address Data Stale u pName pPw AuthLevel KeySlot. op = Do_packet j True Address Data Stale \<and>
    system_msg e (IsSixup s j) Data = Some (NETMSG_RCON_AUTH, u) \<and> login_strings (IsSixup s j) u = Some (pName, pPw) \<and>
    right_key e (s_Auth s) pName pPw AuthLevel KeySlot \<and> rights = (AuthLevel, KeyIdent (s_Auth s) KeySlot)"
proof -
  have "srv_inv L s" using engine_reaches_inv [OF assms(1)] by simp
  from returns_Some [OF engine_do_returns [OF this assms(2,3)] assms(4)] have step: "op_step L e op s s'" .
  have no: "\<not> no_gain s s'" using assms(5-7) unfolding no_gain_def by (metis option.distinct(1))
  then have nofine: "\<not> fine L s s'" "\<not> enters L i s s'" for i by (simp_all add: fine_def evolves_def enters_def)
  then obtain i Vital Address Data Stale where op: "op = Do_packet i Vital Address Data Stale" "packet_step L e Vital Data Stale i s s'"
    using step by (cases op) auto
  then obtain Msg u where m: "system_msg e (IsSixup s i) Data = Some (Msg, u)" "Vital" "Msg = NETMSG_RCON_AUTH" "logs_in L e u i s s'"
    using nofine unfolding packet_step_def msg_step_def by blast
  then obtain pName pPw AuthLevel KeySlot where k: "login_strings (IsSixup s i) u = Some (pName, pPw)"
    "right_key e (s_Auth s) pName pPw AuthLevel KeySlot" "gains L i (AuthLevel, KeyIdent (s_Auth s) KeySlot) s s'"
    unfolding logs_in_def by blast
  then have "j = i" "rights = (AuthLevel, KeyIdent (s_Auth s) KeySlot)" using assms(5-7) unfolding gains_def by auto
  with op(1) m k show ?thesis by blast
qed

text \<open>
  C14: A client gets past the handshake only with the password: if an operation leaves a client connecting or
  further that was not, then it is a vital message of this client with the right version, and the password of the
  server if there is one, for a slot that is not reserved or with what reserved slots ask for; or the network
  server has let the client in without a handshake.
\<close>

theorem entry_needs_password:
  assumes "engine_reaches L s" "console_ok L e" "op_allowed L s op" "engine_do e op s = Some s'"
    "j < MAX_CLIENTS" "cc_State (client s' j) \<ge> STATE_CONNECTING" "\<not> cc_State (client s j) \<ge> STATE_CONNECTING"
  shows "op = Do_new_noauth j \<or> (\<exists>Address Data Stale u. op = Do_packet j True Address Data Stale \<and>
    system_msg e (IsSixup s j) Data = Some (NETMSG_INFO, u) \<and> admitted e Stale u j s)"
proof -
  have "srv_inv L s" using engine_reaches_inv [OF assms(1)] by simp
  from returns_Some [OF engine_do_returns [OF this assms(2,3)] assms(4)] have step: "op_step L e op s s'" .
  have "\<not> no_entry s s'" using assms(5-7) unfolding no_entry_def by blast
  then have nofine: "\<not> fine L s s'" "\<not> gains L i lk s s'" for i lk by (simp_all add: fine_def evolves_def gains_def)
  have at: "i = j" if "enters L i s s'" for i using that assms(5-7) unfolding enters_def by blast
  show ?thesis
  proof (cases op)
    case (Do_new_noauth i)
    then show ?thesis using step at by simp
  next
    case (Do_packet i Vital Address Data Stale)
    then have "packet_step L e Vital Data Stale i s s'" using step by simp
    then obtain Msg u where m: "system_msg e (IsSixup s i) Data = Some (Msg, u)" "msg_step L e Vital Stale Msg u i s s'"
      using nofine unfolding packet_step_def by blast
    then have "Vital" "Msg = NETMSG_INFO" "admitted e Stale u i s" "i = j"
      using nofine at unfolding msg_step_def logs_in_def by blast+
    with Do_packet m(1) show ?thesis by blast
  qed (use step nofine in simp_all)
qed

text \<open>A key \<open>op\<close> with the password \<open>pw\<close>, and its login.\<close>

definition login_packet :: "u8 list" where
  "login_packet = [37, 111, 112, 0, 112, 119, 0, 1]"

definition op_key :: CKey where
  "op_key = \<lparr>key_Ident = [111, 112], key_Pw = HashPassword name_md5 [112, 119] (ev_Salt start_env), key_Salt = ev_Salt start_env, key_Level = AUTHED_ADMIN\<rparr>"

lemma login_packet_reads:
  "UnpackMessageId \<lparr>um_Names = [], um_NamesSorted = []\<rparr> (Unpacker_Reset login_packet) =
     (Unpackmessage_ok 18 True, \<lparr>m_Data = login_packet, m_Current = 1, m_UError = False\<rparr>)"
  "GetString \<lparr>m_Data = login_packet, m_Current = 1, m_UError = False\<rparr> SANITIZE_CC =
     ([111, 112], \<lparr>m_Data = login_packet, m_Current = 4, m_UError = False\<rparr>)"
  "GetString \<lparr>m_Data = login_packet, m_Current = 4, m_UError = False\<rparr> SANITIZE_CC =
     ([112, 119], \<lparr>m_Data = login_packet, m_Current = 7, m_UError = False\<rparr>)"
  by code_simp+

lemma op_added_reached:
  obtains s where "engine_reaches 2 s" "cc_State (client s 0) = STATE_PREAUTH" "cc_Authed (client s 0) = AUTHED_NO" "\<not> IsSixup s 0"
    "am_Keys (s_Auth s) = [op_key]"
proof (rule new_client_reached)
  fix s assume s: "engine_reaches 2 s" "cc_State (client s 0) = STATE_PREAUTH" "cc_Authed (client s 0) = AUTHED_NO" "\<not> IsSixup s 0"
    "s_Auth s = s_Auth start_engine"
  let ?am = "\<lparr>am_Keys = [op_key], am_Default = [-1, -1, -1], am_Generated = False\<rparr>"
  let ?cmd = "Cmd_auth_add [111, 112] [97, 100, 109, 105, 110] [112, 119]"
  have inv: "srv_inv 2 s" using engine_reaches_inv [OF s(1)] by simp
  have level: "GetAuthLevel [97, 100, 109, 105, 110] = AUTHED_ADMIN" "str_copy [111, 112] IDENT_SIZE = [111, 112]"
    by (simp add: GetAuthLevel_def str_same_nocase_def) code_simp
  have "FindKey \<lparr>am_Keys = [], am_Default = [-1, -1, -1], am_Generated = False\<rparr> [111, 112] = -1" by (simp add: FindKey_def)
  then have add: "AddKey name_md5 (ev_Salt start_env) (s_Auth s) [111, 112] [112, 119] AUTHED_ADMIN = (0, ?am)"
    by (simp add: s(5) start_engine_def AddKey_def AddKeyHash_def Let_def level op_key_def)
  have "returns (sent 2 (s\<lparr>s_Auth := ?am\<rparr>)) (SendRconType start_env True (-1) (s\<lparr>s_Auth := ?am\<rparr>))"
  proof (rule SendRconType_returns)
    show "net_ok 2 (s\<lparr>s_Auth := ?am\<rparr>)" using inv by (simp add: srv_inv_def net_ok_def occupied_def client_def client_addr_def)
  qed simp
  then obtain s' where s': "SendRconType start_env True (-1) (s\<lparr>s_Auth := ?am\<rparr>) = Some s'" "sent 2 (s\<lparr>s_Auth := ?am\<rparr>) s'"
    unfolding returns_def by blast
  note f = sent_fields [OF s'(2)]
  have "NumNonDefaultKeys (s_Auth s) = 0" "IsValidIdent [111, 112]" "ev_Md5 start_env = name_md5" "AUTHED_ADMIN \<noteq> -1"
    by (simp_all add: s(5) start_engine_def NumNonDefaultKeys_def IsValidIdent_def IDENT_SIZE_def start_env_def AUTHED_ADMIN_def)
  then have "engine_do start_env (Do_console ?cmd) s = Some s'"
    by (simp add: ConAuthAdd_def level(1) add key_added_def s'(1))
  from engine_reaches.step [OF s(1) start_env_console _ this] have "engine_reaches 2 s'" by simp
  moreover have "client s' 0 = client s 0" "s_Auth s' = ?am" using f by (simp_all add: client_def)
  ultimately show thesis using s by (intro that [of s']) (simp_all add: IsSixup_def)
qed

lemma op_logs_in:
  assumes "srv_inv 2 s" "cc_State (client s 0) = STATE_PREAUTH" "cc_Authed (client s 0) = AUTHED_NO" "\<not> IsSixup s 0" "am_Keys (s_Auth s) = [op_key]"
  obtains s' where "engine_do start_env (Do_packet 0 True zero_addr login_packet []) s = Some s'" "login s' 0 = Some (AUTHED_ADMIN, Some [111, 112])"
    "cc_AuthKey (client s' 0) = 0" "s_Auth s' = s_Auth s"
proof -
  let ?u = "\<lparr>m_Data = login_packet, m_Current = 7, m_UError = False\<rparr>"
  have am: "FindKey (s_Auth s) [111, 112] = 0" "is_slot (s_Auth s) 0" "KeyIdent (s_Auth s) 0 = Some [111, 112]" "KeyLevel (s_Auth s) 0 = AUTHED_ADMIN"
    "CheckKey name_md5 (s_Auth s) 0 [112, 119]"
    using assms(5) by (simp_all add: FindKey_def is_slot_def KeyIdent_def KeyLevel_def CheckKey_def op_key_def)
  have key: "login_key start_env (s_Auth s) [111, 112] [112, 119] = Some (AUTHED_ADMIN, 0)"
    using am by (simp add: login_key_def Let_def start_env_def)
  have "ProcessClientPacket start_env True zero_addr login_packet [] 0 s = on_rcon_auth start_env True \<lparr>m_Data = login_packet, m_Current = 1, m_UError = False\<rparr> 0 s"
    using assms(4) by (simp add: ProcessClientPacket_def login_packet_reads(1) IsSixup_def start_env_def process_message_def system_message_def
        NETMSG_INFO_def NETMSG_REQUEST_MAP_DATA_def NETMSG_CLIENTVER_def NETMSG_READY_def NETMSG_ENTERGAME_def NETMSG_INPUT_def
        NETMSG_RCON_CMD_def NETMSG_RCON_AUTH_def OFFSET_UUID_def)
  also have "\<dots> = login_accepted start_env AUTHED_ADMIN 0 ?u 0 s"
    using assms(3,4) key by (simp add: on_rcon_auth_def login_packet_reads(2,3) [unfolded One_nat_def] authed_levels)
  finally have run: "ProcessClientPacket start_env True zero_addr login_packet [] 0 s = login_accepted start_env AUTHED_ADMIN 0 ?u 0 s" .
  have "0 < MAX_CLIENTS" "occupied s 0" using assms(2) by (simp_all add: MAX_CLIENTS_def occupied_def)
  from login_accepted_returns [OF assms(1) this am(2), of AUTHED_ADMIN start_env ?u] obtain s' where
    "login_accepted start_env AUTHED_ADMIN 0 ?u 0 s = Some s'" "cc_Authed (client s' 0) = AUTHED_ADMIN"
    "cc_AuthKey (client s' 0) = 0" "s_Auth s' = s_Auth s"
    by (auto simp: returns_def)
  with run show thesis by (intro that [of s']) (simp_all add: login_def am authed_levels)
qed

theorem rights_need_password_witness:
  "\<exists>s s'. engine_reaches 2 s \<and> engine_do start_env (Do_packet 0 True zero_addr login_packet []) s = Some s' \<and>
     login s 0 = None \<and> login s' 0 = Some (AUTHED_ADMIN, Some [111, 112]) \<and>
     (\<exists>u pName pPw l k. login_strings False u = Some (pName, pPw) \<and> right_key start_env (s_Auth s) pName pPw l k)"
proof (rule op_added_reached)
  fix s assume s: "engine_reaches 2 s" "cc_State (client s 0) = STATE_PREAUTH" "cc_Authed (client s 0) = AUTHED_NO" "\<not> IsSixup s 0"
    "am_Keys (s_Auth s) = [op_key]"
  have "srv_inv 2 s" using engine_reaches_inv [OF s(1)] by simp
  from op_logs_in [OF this s(2-5)] obtain s' where s': "engine_do start_env (Do_packet 0 True zero_addr login_packet []) s = Some s'"
    "login s' 0 = Some (AUTHED_ADMIN, Some [111, 112])" by blast
  have old: "login s 0 = None" using s(3) by (simp add: login_def)
  have op: "op_allowed 2 s (Do_packet 0 True zero_addr login_packet [])" "0 < MAX_CLIENTS" "login s 0 \<noteq> Some (AUTHED_ADMIN, Some [111, 112])"
    using s(2) old by (simp_all add: MAX_CLIENTS_def occupied_def valid_addr_def zero_addr_def)
  have six: "IsSixup s 0 = False" using s(4) by simp
  from rights_need_password [OF s(1) start_env_console op(1) s'(1) op(2) s'(2) op(3)]
  obtain u pName pPw l k where "login_strings False u = Some (pName, pPw)" "right_key start_env (s_Auth s) pName pPw l k"
    unfolding six by blast
  with s(1) s' old show ?thesis by blast
qed

text \<open>The first message of a client with the version and the password.\<close>

definition info_packet :: "u8 list" where
  "info_packet = [3, 48, 46, 54, 0, 112, 119, 0]"

lemma info_packet_reads:
  "UnpackMessageId \<lparr>um_Names = [], um_NamesSorted = []\<rparr> (Unpacker_Reset info_packet) =
     (Unpackmessage_ok 1 True, \<lparr>m_Data = info_packet, m_Current = 1, m_UError = False\<rparr>)"
  "GetString \<lparr>m_Data = info_packet, m_Current = 1, m_UError = False\<rparr> SANITIZE_CC =
     ([48, 46, 54], \<lparr>m_Data = info_packet, m_Current = 5, m_UError = False\<rparr>)"
  "GetString \<lparr>m_Data = info_packet, m_Current = 5, m_UError = False\<rparr> SANITIZE_CC =
     ([112, 119], \<lparr>m_Data = info_packet, m_Current = 8, m_UError = False\<rparr>)"
  by code_simp+

theorem entry_needs_password_witness:
  "\<exists>s s'. engine_reaches 2 s \<and> engine_do start_env (Do_packet 0 True zero_addr info_packet []) s = Some s' \<and>
     cc_State (client s 0) = STATE_PREAUTH \<and> cc_State (client s' 0) = STATE_CONNECTING \<and> (\<exists>u. admitted start_env [] u 0 s)"
proof (rule new_client_reached)
  let ?u = "\<lparr>m_Data = info_packet, m_Current = 1, m_UError = False\<rparr>"
  fix s assume s: "engine_reaches 2 s" "cc_State (client s 0) = STATE_PREAUTH" "\<not> IsSixup s 0" "sv_MaxClients (s_Net s) = 2"
  have inv: "srv_inv 2 s" using engine_reaches_inv [OF s(1)] by simp
  have i: "0 < MAX_CLIENTS" by (simp add: MAX_CLIENTS_def)
  have adm: "admitted start_env [] ?u 0 s" 
    unfolding admitted_def by (intro exI conjI, rule info_packet_reads(2), rule info_packet_reads(3)) (simp_all add: start_env_def s(4))
  have "ProcessClientPacket start_env True zero_addr info_packet [] 0 s = on_info start_env True [] ?u 0 s"
    using s(3) by (simp add: ProcessClientPacket_def info_packet_reads(1) IsSixup_def start_env_def process_message_def system_message_def
        NETMSG_INFO_def NETMSG_REQUEST_MAP_DATA_def NETMSG_CLIENTVER_def OFFSET_UUID_def)
  moreover obtain s' where "on_info start_env True [] ?u 0 s = Some s'" "cc_State (client s' 0) = STATE_CONNECTING"
    using on_info_admits [OF inv i _ adm] s(2) by (auto simp: returns_def)
  ultimately have s': "engine_do start_env (Do_packet 0 True zero_addr info_packet []) s = Some s'" "cc_State (client s' 0) = STATE_CONNECTING"
    by simp_all
  have op: "op_allowed 2 s (Do_packet 0 True zero_addr info_packet [])" "cc_State (client s' 0) \<ge> STATE_CONNECTING"
    "\<not> cc_State (client s 0) \<ge> STATE_CONNECTING"
    using s(2) s'(2) by (simp_all add: MAX_CLIENTS_def occupied_def valid_addr_def zero_addr_def)
  from entry_needs_password [OF s(1) start_env_console op(1) s'(1) i op(2,3)] s(1,2) s' show ?thesis by blast
qed

text \<open>Somebody that a ban would hit, and that whoever asks for it may not ban.\<close>

definition untouchable :: "NETADDR \<Rightarrow> CServer \<Rightarrow> bool" where
  "untouchable d s \<longleftrightarrow> (\<exists>i < MAX_CLIENTS. occupied s i \<and> NetMatch d (client_addr s i) \<and>
     (if is_client_id (s_RconClientId s) \<and> occupied s (nat (s_RconClientId s))
      then int i = s_RconClientId s \<or> cc_Authed (client s i) \<ge> s_RconAuthLevel s
      else s_RconClientId s = RCON_CID_VOTE \<and> cc_Authed (client s i) \<noteq> AUTHED_NO))"

lemma ban_refused_untouchable: "ban_refused (NetMatch d) s = untouchable d s"
proof (cases "is_client_id (s_RconClientId s) \<and> occupied s (nat (s_RconClientId s))")
  case True
  let ?c = "nat (s_RconClientId s)"
  have c: "?c < MAX_CLIENTS" "int i = s_RconClientId s \<longleftrightarrow> i = ?c" for i using True by (auto simp: is_client_id_def)
  have "ban_refused (NetMatch d) s \<longleftrightarrow> NetMatch d (client_addr s ?c) \<or> (\<exists>i < MAX_CLIENTS. occupied s i \<and> int i \<noteq> s_RconClientId s \<and>
      cc_Authed (client s i) \<ge> s_RconAuthLevel s \<and> NetMatch d (client_addr s i))"
    using True by (auto simp: ban_refused_def list_ex_iff)
  also have "\<dots> \<longleftrightarrow> (\<exists>i < MAX_CLIENTS. occupied s i \<and> NetMatch d (client_addr s i) \<and> (i = ?c \<or> cc_Authed (client s i) \<ge> s_RconAuthLevel s))"
    unfolding c(2) using c(1) True by blast
  finally show ?thesis using True c by (simp add: untouchable_def)
next
  case False
  then have "ban_refused (NetMatch d) s \<longleftrightarrow> s_RconClientId s = RCON_CID_VOTE \<and>
      (\<exists>i < MAX_CLIENTS. occupied s i \<and> cc_Authed (client s i) \<noteq> AUTHED_NO \<and> NetMatch d (client_addr s i))"
    by (simp only: ban_refused_def if_False list_ex_iff) auto
  then show ?thesis using False unfolding untouchable_def by (simp only: if_False) blast
qed

text \<open>
  C23: A ban of an address by a client that is logged in is refused if it hits this client or another one
  with at least its level, and one by a vote, if it hits any client that is logged in; nothing changes then.
  Otherwise it is what the ban list makes of it, and if that has banned the address, all clients with this
  address are gone, and all others are as before.
\<close>

theorem server_ban_effect:
  assumes "engine_reaches L s" "valid_addr d"
  shows "\<exists>r s'. server_BanAddr e d Seconds pReason verb s = Some (r, s') \<and>
    (untouchable d s \<longrightarrow> r = -1 \<and> s' = s) \<and>
    (\<not> untouchable d s \<and> BanAddr (ev_Timestamp e) d Seconds pReason verb (s_Ban s) = Some (0, nb) \<longrightarrow> r = 0 \<and> s_Ban s' = nb) \<and>
    (r = 0 \<longrightarrow> (\<forall>i < MAX_CLIENTS. if occupied s i \<and> NetMatch d (client_addr s i) then \<not> occupied s' i else client s' i = client s i))"
proof -
  have inv: "srv_inv L s" using engine_reaches_inv [OF assms(1)] by simp
  obtain A where p: "pool_shows addr_kind valid_addr (nb_AddrPool (s_Ban s)) A"
    "\<And>P bs. pool_shows addr_kind valid_addr P bs \<Longrightarrow> \<exists>bs'. netban_shows ((s_Ban s)\<lparr>nb_AddrPool := P\<rparr>) bs'"
    by (rule shown_pools [OF inv]) blast
  have m: "k_matches addr_kind = NetMatch" by (simp add: addr_kind_def)
  obtain r s' where r: "server_BanAddr e d Seconds pReason verb s = Some (r, s')"
    "untouchable d s \<longrightarrow> r = -1 \<and> s' = s" "r = 0 \<longrightarrow> banned_gone (NetMatch d) {..<MAX_CLIENTS} (s\<lparr>s_Ban := s_Ban s'\<rparr>) s'"
    "\<forall>P. Ban addr_kind (nb_LocalhostIpV4 (s_Ban s)) (nb_LocalhostIpV6 (s_Ban s)) (ev_Timestamp e) d Seconds pReason verb (nb_AddrPool (s_Ban s)) = Some (0, P) \<longrightarrow>
        \<not> untouchable d s \<longrightarrow> r = 0 \<and> s_Ban s' = (s_Ban s)\<lparr>nb_AddrPool := P\<rparr>"
    using addr_bans.BanExt_returns [OF inv assms(2), of nb_AddrPool A "\<lambda>P nb. nb\<lparr>nb_AddrPool := P\<rparr>" e Seconds pReason verb] p
    unfolding server_BanAddr_def [symmetric] m ban_refused_untouchable returns_def by auto
  let ?s = "s\<lparr>s_Ban := s_Ban s'\<rparr>"
  have c: "client ?s = client s" "occupied ?s = occupied s" "client_addr ?s = client_addr s"
    by (simp_all add: client_def occupied_def client_addr_def fun_eq_iff)
  have gone: "if occupied s i \<and> NetMatch d (client_addr s i) then \<not> occupied s' i else client s' i = client s i"
    if "r = 0" "i < MAX_CLIENTS" for i
  proof -
    have g: "occupied s' i \<longrightarrow> \<not> NetMatch d (client_addr s' i)"
      "(client s' i = client s i \<and> client_addr s' i = client_addr s i) \<or> occupied s i \<and> NetMatch d (client_addr s i) \<and> \<not> occupied s' i"
      using r(3) that unfolding banned_gone_def c by blast+
    then show ?thesis by (auto simp: occupied_def)
  qed
  have "r = 0 \<and> s_Ban s' = nb" if "\<not> untouchable d s" "BanAddr (ev_Timestamp e) d Seconds pReason verb (s_Ban s) = Some (0, nb)"
    using r(4) that by (auto simp: BanAddr_def)
  with r(1,2) gone show ?thesis by blast
qed

text \<open>A ban by the server of the address of a client that is connected.\<close>

theorem server_ban_effect_witness:
  "\<exists>s s'. occupied s 0 \<and> \<not> occupied s' 0 \<and> server_BanAddr start_env zero_addr 60 [] False s = Some (0, s')"
proof (rule new_client_reached)
  fix s assume s: "engine_do start_env (Do_new 0 False) start_engine = Some s" "engine_reaches 2 s" "cc_State (client s 0) = STATE_PREAUTH"
  have same: "s_Ban s = no_bans" "s_RconClientId s = RCON_CID_SERV" "client_addr s 0 = zero_addr"
    using s(1) by (auto simp: NewClientCallback_def) (simp_all add: start_engine_def client_addr_def slot_def idle_Init)
  have free: "\<not> untouchable zero_addr s" by (simp add: untouchable_def same RCON_CID_SERV_def RCON_CID_VOTE_def is_client_id_def)
  have v: "valid_addr zero_addr" by (simp add: valid_addr_def zero_addr_def)
  have t: "\<not> covers_addr zero_addr localhost4" "\<not> covers_addr zero_addr localhost6"
    by (simp_all add: covers_addr_def localhost4_def localhost6_def zero_addr_def)
  have sp: "bans_do localhost4 localhost6 1000 (Op_BanAddr zero_addr 60 [] False) ([], []) = (0, ([(zero_addr, ban_info 1000 60 [] False)], []))"
    using t by (simp add: ban_spec_def insert_ban_def MAX_BANS_def)
  obtain nb where nb: "BanAddr 1000 zero_addr 60 [] False no_bans = Some (0, nb)"
    using BanAddr_refines [OF no_bans_shows(1) v, of 1000 60 "[]" False] unfolding no_bans_shows(2,3) sp by auto
  have now: "ev_Timestamp start_env = 1000" by (simp add: start_env_def)
  obtain r s' where r: "server_BanAddr start_env zero_addr 60 [] False s = Some (r, s')" "r = 0"
    "\<forall>i < MAX_CLIENTS. if occupied s i \<and> NetMatch zero_addr (client_addr s i) then \<not> occupied s' i else client s' i = client s i"
    using server_ban_effect [OF s(2) v, of start_env 60 "[]" False nb] nb free unfolding now same(1) by auto
  have "NetMatch zero_addr (client_addr s 0)" unfolding same(3) by (simp add: NetMatch_covers [OF v v] covers_addr_def)
  moreover have "occupied s 0" "0 < MAX_CLIENTS" using s(3) by (simp_all add: occupied_def MAX_CLIENTS_def)
  ultimately show ?thesis using r by auto
qed

section \<open>The download of the map\<close>

lemma map_chunk_piece:
  assumes "length Data + 896 < 2 ^ 31" "k * 896 \<le> length Data"
  shows "map_chunk Data (of_nat k) = Some (length Data \<le> k * 896 + 896, take 896 (drop (k * 896) Data))"
proof -
  let ?n = "length Data"
  have k: "k < 2 ^ 31" using assms by simp
  have off: "(of_nat k * (1024 - 128) :: i32) = of_nat (k * 896)" by simp
  have u: "unat (of_nat (k * 896) :: i32) = k * 896" "unat (of_nat ?n :: i32) = ?n" "unat (of_nat (k * 896 + 896) :: i32) = k * 896 + 896"
    using assms by (simp_all add: unat_of_nat del: of_nat_mult of_nat_add)
  have s: "\<not> sint (of_nat k :: i32) < 0" using k by (simp add: signed_of_nat signed_take_bit_int_eq_self)
  have le: "((of_nat (k * 896) :: i32) > of_nat ?n) = (k * 896 > ?n)" "((of_nat (k * 896 + 896) :: i32) \<ge> of_nat ?n) = (k * 896 + 896 \<ge> ?n)"
    using u by (simp_all only: word_less_nat_alt word_le_nat_alt)
  have sum: "(of_nat (k * 896) + (1024 - 128) :: i32) = of_nat (k * 896 + 896)" by simp
  have diff: "unat (of_nat ?n - of_nat (k * 896) :: i32) = ?n - k * 896"
    using u(1,2) assms(2) by (simp add: unat_sub word_le_nat_alt)
  have size: "unat (1024 - 128 :: i32) = 896" by simp
  show ?thesis
    unfolding map_chunk_def Let_def off sum le u(1) diff size using s assms(2) by auto
qed

lemma chunks_append: "concat (map (\<lambda>k. take c (drop (k * c) xs)) [0..<m]) = take (m * c) xs"
proof (induction m)
  case (Suc m)
  then show ?case by (simp add: take_add [symmetric] add.commute)
qed simp

text \<open>
  C29: A client that asks for the pieces of the map one after another, up to the one that is marked as the
  last, and puts them together, has the map: every piece is there, only the last one is marked.
\<close>

theorem map_download_complete:
  assumes "length Data + 896 < 2 ^ 31" "m = (length Data + 895) div 896"
  shows "(\<forall>k < m. \<exists>piece. map_chunk Data (of_nat k) = Some (Suc k = m, piece)) \<and>
    concat (map (\<lambda>k. snd (the (map_chunk Data (of_nat k)))) [0..<m]) = Data"
proof
  have le: "k * 896 \<le> length Data" if "k < m" for k using that assms(2) by simp
  have last: "(length Data \<le> k * 896 + 896) = (Suc k = m)" if "k < m" for k using that assms(2) by auto
  show "\<forall>k < m. \<exists>piece. map_chunk Data (of_nat k) = Some (Suc k = m, piece)"
    using map_chunk_piece [OF assms(1) le] last by simp
  have "map (\<lambda>k. snd (the (map_chunk Data (of_nat k)))) [0..<m] = map (\<lambda>k. take 896 (drop (k * 896) Data)) [0..<m]"
    using map_chunk_piece [OF assms(1) le] by simp
  then have "concat (map (\<lambda>k. snd (the (map_chunk Data (of_nat k)))) [0..<m]) = take (m * 896) Data" by (simp only: chunks_append)
  moreover have "length Data \<le> m * 896" using assms(2) by simp
  ultimately show "concat (map (\<lambda>k. snd (the (map_chunk Data (of_nat k)))) [0..<m]) = Data" by simp
qed

theorem map_download_complete_witness:
  "map_chunk (replicate 1000 7) 1 = Some (True, replicate 104 7) \<and>
   concat (map (\<lambda>k. snd (the (map_chunk (replicate 1000 (7 :: u8)) (of_nat k)))) [0..<2]) = replicate 1000 7"
proof
  show "concat (map (\<lambda>k. snd (the (map_chunk (replicate 1000 (7 :: u8)) (of_nat k)))) [0..<2]) = replicate 1000 7"
    by (rule map_download_complete [THEN conjunct2]) simp_all
  show "map_chunk (replicate 1000 7) 1 = Some (True, replicate 104 7)"
    using map_chunk_piece [of "replicate 1000 7" 1] by simp
qed

section \<open>A removed key\<close>

text \<open>
  Removing a key logs out all clients that use it. But the key is gone before they are logged out, so
  that the log names the key behind it, and none, which is a null pointer in the code, if it was the last one.
\<close>

theorem removed_key_misnamed:
  assumes "engine_reaches L s" "is_slot (s_Auth s) Key" "i < MAX_CLIENTS" "cc_AuthKey (client s i) = Key"
  shows "\<exists>s'. AuthRemoveKey e Key s = Some s' \<and> login s' i = None \<and> Logged_out i (KeyIdent (s_Auth s) (Key + 1)) \<in> set (s_Game s')"
proof -
  have inv: "srv_inv L s" using engine_reaches_inv [OF assms(1)] by simp
  have key: "Key \<noteq> -1" "0 \<le> Key" "nat Key < length (am_Keys (s_Auth s))" using assms(2) by (auto simp: is_slot_def)
  let ?am = "(s_Auth s)\<lparr>am_Keys := take (nat Key) (am_Keys (s_Auth s)) @ drop (Suc (nat Key)) (am_Keys (s_Auth s)),
      am_Default := map (slot_removed Key) (am_Default (s_Auth s))\<rparr>"
  have am: "RemoveKey Key (s_Auth s) = Some ?am" using assms(2) by (simp add: RemoveKey_def)
  have ident: "KeyIdent ?am Key = KeyIdent (s_Auth s) (Key + 1)"
    using key by (auto simp: KeyIdent_def is_slot_def nth_append nat_add_distrib)
  let ?s = "s\<lparr>s_Auth := ?am\<rparr>"
  have c: "client ?s = client s" "occupied ?s = occupied s" "client_addr ?s = client_addr s"
    by (simp_all add: client_def occupied_def client_addr_def fun_eq_iff)
  have n: "net_ok L ?s" using inv c by (simp add: srv_inv_def net_ok_def)
  have occ: "occupied ?s j" if "j < MAX_CLIENTS" "cc_AuthKey (client ?s j) = Key" for j
    using keys_occupied(1) [OF inv that(1)] that(2) key(1) by (simp add: c)
  obtain s1 where s1: "LogoutKey e Key (bytes_of ''key removal'') ?s = Some s1" "logout_of L (\<lambda>j. cc_AuthKey (client ?s j) = Key) ?s s1"
    using LogoutKey_returns [OF n occ key(1)] unfolding returns_def by blast
  have out: "Logged_out i (KeyIdent ?am Key) \<in> set (s_Game s1)" "client s1 i = logged_out (client s i)"
    using s1(2) assms(3,4) unfolding logout_of_def by (simp_all add: c)
  let ?s2 = "s1\<lparr>s_Clients := map (\<lambda>c. c\<lparr>cc_AuthKey := slot_removed Key (cc_AuthKey c)\<rparr>) (s_Clients s1)\<rparr>"
  have "length (s_Clients s1) = MAX_CLIENTS" using s1(2) by (simp add: logout_of_def net_ok_def)
  then have "cc_Authed (client ?s2 i) = AUTHED_NO" using out(2) assms(3) by (simp add: client_def logged_out_def)
  then have "login ?s2 i = None" by (simp add: login_def)
  moreover have "AuthRemoveKey e Key s = Some ?s2" using am s1(1) by (simp add: AuthRemoveKey_def)
  ultimately show ?thesis using out(1) by (simp add: ident)
qed

text \<open>The only key of the server: nothing is left to name.\<close>

theorem removed_key_misnamed_witness:
  "\<exists>s s'. login s 0 = Some (AUTHED_ADMIN, Some [111, 112]) \<and> AuthRemoveKey start_env 0 s = Some s' \<and>
     login s' 0 = None \<and> Logged_out 0 None \<in> set (s_Game s')"
proof (rule op_added_reached)
  fix s assume s: "engine_reaches 2 s" "cc_State (client s 0) = STATE_PREAUTH" "cc_Authed (client s 0) = AUTHED_NO" "\<not> IsSixup s 0"
    "am_Keys (s_Auth s) = [op_key]"
  have inv: "srv_inv 2 s" using engine_reaches_inv [OF s(1)] by simp
  from op_logs_in [OF inv s(2-5)] obtain s1 where s1: "engine_do start_env (Do_packet 0 True zero_addr login_packet []) s = Some s1"
    "login s1 0 = Some (AUTHED_ADMIN, Some [111, 112])" "cc_AuthKey (client s1 0) = 0" "s_Auth s1 = s_Auth s" by blast
  have "op_allowed 2 s (Do_packet 0 True zero_addr login_packet [])"
    using s(2) by (simp add: MAX_CLIENTS_def occupied_def valid_addr_def zero_addr_def)
  from engine_reaches.step [OF s(1) start_env_console this s1(1)] have reach: "engine_reaches 2 s1" .
  have "is_slot (s_Auth s1) 0" "0 < MAX_CLIENTS" "KeyIdent (s_Auth s1) (0 + 1) = None"
    using s1(4) s(5) by (simp_all add: is_slot_def MAX_CLIENTS_def KeyIdent_def)
  with removed_key_misnamed [OF reach this(1,2) s1(3), of start_env] s1(2) show ?thesis by auto
qed

end
