(* ===== verification/EconSafe.thy ===== *)
theory EconSafe
  imports NetConsole ServerSafe
begin

text \<open>
  The external console over the engine of the game server as a state machine: the invariant that ties its slots
  to its clients, the end of its loops, and who is let in. The operations are those of
  \<^verbatim>\<open>src/src/engine/shared/econ.cpp\<close> and \<^verbatim>\<open>network_console.cpp\<close>.
\<close>

section \<open>Sending\<close>

lemma NET_MAX_CONSOLE_CLIENTS_4 [simp]: "NET_MAX_CONSOLE_CLIENTS = 4"
  by (simp add: NET_MAX_CONSOLE_CLIENTS_def)

text \<open>A call that sends something makes progress, or fails; none sends nothing.\<close>

definition sends_progress :: "tcp \<Rightarrow> bool" where
  "sends_progress w \<longleftrightarrow> (\<forall>k. t_Send w k \<noteq> 0)"

lemma tcp_send_all_returns:
  "sends_progress w \<Longrightarrow> returns (\<lambda>(ok, w'). t_Send w' = t_Send w) (tcp_send_all sock Data w)"
proof (induction Data arbitrary: w rule: length_induct)
  case (1 Data)
  obtain n w1 where t: "tcp_send sock Data w = (n, w1)" by fastforce
  have w1: "t_Send w1 = t_Send w" "n \<noteq> 0" using t 1(2) by (auto simp: tcp_send_def sends_progress_def Let_def)
  show ?case
  proof (cases "n < 0 \<or> n \<ge> int (length Data)")
    case True
    then show ?thesis using t w1 by (subst tcp_send_all.simps) (auto simp: returns_def)
  next
    case False
    then have "length (drop (nat n) Data) < length Data" using w1(2) by (cases Data) auto
    moreover have "sends_progress w1" using 1(2) w1(1) by (simp add: sends_progress_def)
    ultimately have "returns (\<lambda>(ok, w'). t_Send w' = t_Send w1) (tcp_send_all sock (drop (nat n) Data) w1)" using 1(1) by blast
    then show ?thesis using t w1(1) False by (subst tcp_send_all.simps) (simp add: returns_def)
  qed
qed

text \<open>What sending may do to a connection: it may fail.\<close>

definition sent_slot :: "CConsoleNetConnection \<Rightarrow> CConsoleNetConnection \<Rightarrow> bool" where
  "sent_slot c c' \<longleftrightarrow> c' = c \<or> (cn_State c = ONLINE \<and> (\<exists>x. c' = c\<lparr>cn_State := ERROR, cn_ErrorString := x\<rparr>))"

lemma sent_slot_trans: "sent_slot c c' \<Longrightarrow> sent_slot c' c'' \<Longrightarrow> sent_slot c c''"
  by (auto simp: sent_slot_def)

lemma sent_slot_same:
  "sent_slot c c' \<Longrightarrow> cn_Buffer c' = cn_Buffer c \<and> cn_PeerAddr c' = cn_PeerAddr c \<and> (cn_State c' = OFFLINE) = (cn_State c = OFFLINE)"
  by (auto simp: sent_slot_def)

lemma cn_Send_returns:
  "sends_progress w \<Longrightarrow> returns (\<lambda>(_, c', w'). sent_slot c c' \<and> t_Send w' = t_Send w) (cn_Send pLine c w)"
  using tcp_send_all_returns [of w "cn_Socket c" "str_copy pLine 1022 @ cn_LineEnding c"]
  by (fastforce simp: cn_Send_def returns_def sent_slot_def)

definition only_sent :: "CEcon \<Rightarrow> CEcon \<Rightarrow> bool" where
  "only_sent s s' \<longleftrightarrow> (\<exists>Sl w. s' = s\<lparr>ec_Slots := Sl, ec_Tcp := w\<rparr> \<and> t_Send w = t_Send (ec_Tcp s) \<and>
     length Sl = length (ec_Slots s) \<and> (\<forall>j < length Sl. sent_slot (econ_slot s j) (Sl ! j)))"

lemma only_sent_refl: "only_sent s s"
  unfolding only_sent_def by (rule exI [of _ "ec_Slots s"], rule exI [of _ "ec_Tcp s"]) (simp add: sent_slot_def econ_slot_def)

lemma only_sent_fields:
  assumes "only_sent s s'"
  shows "ec_aClients s' = ec_aClients s" "ec_Server s' = ec_Server s" "t_Send (ec_Tcp s') = t_Send (ec_Tcp s)"
    "length (ec_Slots s') = length (ec_Slots s)" "ec_Ready s' = ec_Ready s" "ec_UserClientId s' = ec_UserClientId s"
    "j < length (ec_Slots s) \<Longrightarrow> sent_slot (econ_slot s j) (econ_slot s' j)" "econ_client s' j = econ_client s j"
  using assms by (auto simp: only_sent_def econ_slot_def econ_client_def)

lemma only_sent_trans: assumes "only_sent s s'" "only_sent s' s''" shows "only_sent s s''"
proof -
  obtain Sl w where s': "s' = s\<lparr>ec_Slots := Sl, ec_Tcp := w\<rparr>" using assms(1) by (auto simp: only_sent_def)
  obtain Sl' w' where s'': "s'' = s'\<lparr>ec_Slots := Sl', ec_Tcp := w'\<rparr>" using assms(2) by (auto simp: only_sent_def)
  have "s'' = s\<lparr>ec_Slots := Sl', ec_Tcp := w'\<rparr>" using s' s'' by simp
  moreover have "t_Send w' = t_Send (ec_Tcp s)" "length Sl' = length (ec_Slots s)"
    using only_sent_fields(3,4) [OF assms(1)] only_sent_fields(3,4) [OF assms(2)] s'' by simp_all
  moreover have "sent_slot (econ_slot s j) (Sl' ! j)" if "j < length Sl'" for j
    using sent_slot_trans [OF only_sent_fields(7) [OF assms(1), of j] only_sent_fields(7) [OF assms(2), of j]] that
      only_sent_fields(4) [OF assms(1)] only_sent_fields(4) [OF assms(2)] s'' by (simp add: econ_slot_def)
  ultimately show ?thesis unfolding only_sent_def by blast
qed

lemma only_sent_then:
  "returns (only_sent s) m \<Longrightarrow> (\<And>x. only_sent s x \<Longrightarrow> returns (only_sent x) (f x)) \<Longrightarrow> returns (only_sent s) (Option.bind m f)"
  by (auto simp: returns_def elim!: only_sent_trans) (meson only_sent_trans returns_def bind.simps)

lemma sends_progress_sent: "only_sent s s' \<Longrightarrow> sends_progress (ec_Tcp s) \<Longrightarrow> sends_progress (ec_Tcp s')"
  by (simp add: sends_progress_def only_sent_fields(3))

lemma console_Send_returns:
  assumes "sends_progress (ec_Tcp s)" "i < length (ec_Slots s)"
  shows "returns (only_sent s) (console_Send i pLine s)"
proof -
  have "only_sent s ((set_econ_slot i c s)\<lparr>ec_Tcp := w\<rparr>)" if "sent_slot (econ_slot s i) c" "t_Send w = t_Send (ec_Tcp s)" for c w
  proof -
    have "sent_slot (econ_slot s j) ((ec_Slots s)[i := c] ! j)" if "j < length (ec_Slots s)" for j
      using \<open>sent_slot (econ_slot s i) c\<close> that by (cases "j = i") (simp_all add: econ_slot_def sent_slot_def)
    then show ?thesis unfolding only_sent_def
      by (intro exI [of _ "(ec_Slots s)[i := c]"] exI [of _ w]) (use that in \<open>simp add: set_econ_slot_def\<close>)
  qed
  then show ?thesis
    using cn_Send_returns [OF assms(1), of "econ_slot s i" pLine] only_sent_refl [of s]
    by (auto simp: console_Send_def returns_def)
qed

lemma send_authed_returns:
  "sends_progress (ec_Tcp s) \<Longrightarrow> \<forall>i \<in> set is. i < length (ec_Slots s) \<Longrightarrow> returns (only_sent s) (send_authed pLine is s)"
proof (induction "is" arbitrary: s)
  case (Cons i "is")
  have "returns (only_sent s) (Option.bind (console_Send i pLine s) (send_authed pLine is))"
    by (rule only_sent_then [OF console_Send_returns Cons.IH])
      (use Cons.prems in \<open>simp_all add: sends_progress_sent only_sent_fields(4)\<close>)
  then show ?case using Cons by simp
qed (simp add: returns_value only_sent_refl)

lemma Econ_Send_returns:
  "sends_progress (ec_Tcp s) \<Longrightarrow> length (ec_Slots s) = 4 \<Longrightarrow> returns (only_sent s) (Econ_Send ClientId pLine s)"
  unfolding Econ_Send_def by (intro returns_if send_authed_returns) (auto simp: returns_value only_sent_refl)

lemma econ_Print_returns:
  "sends_progress (ec_Tcp s) \<Longrightarrow> length (ec_Slots s) = 4 \<Longrightarrow> returns (only_sent s) (econ_Print e ev s)"
  by (simp add: econ_Print_def Econ_Send_returns returns_value only_sent_refl split: option.split)

section \<open>The invariant of the console\<close>

text \<open>A slot is in use as long as there is a client in it.\<close>

definition slot_ok :: "CEconClient \<Rightarrow> CConsoleNetConnection \<Rightarrow> bool" where
  "slot_ok cl c \<longleftrightarrow> (cn_State c = OFFLINE) = (ec_State cl = ECON_EMPTY) \<and> (cn_State c \<noteq> OFFLINE \<longrightarrow> valid_addr (cn_PeerAddr c))"

definition econ_inv :: "int \<Rightarrow> CEcon \<Rightarrow> bool" where
  "econ_inv L s \<longleftrightarrow> length (ec_aClients s) = 4 \<and> length (ec_Slots s) = 4 \<and> (\<forall>i < 4. slot_ok (econ_client s i) (econ_slot s i)) \<and>
     sends_progress (ec_Tcp s) \<and> srv_inv L (ec_Server s)"

definition pending :: "CEcon \<Rightarrow> nat \<Rightarrow> u8 list set" where
  "pending s i = set (fst (lines_of (cn_Buffer (econ_slot s i))))"

definition authed :: "CEcon \<Rightarrow> nat \<Rightarrow> bool" where
  "authed s i \<longleftrightarrow> ec_State (econ_client s i) = ECON_AUTHED"

text \<open>What a step may do that takes lines and runs them, if the clients of \<open>A\<close> may log in.\<close>

definition settles :: "int \<Rightarrow> (nat \<Rightarrow> bool) \<Rightarrow> CEcon \<Rightarrow> CEcon \<Rightarrow> bool" where
  "settles L A s s' \<longleftrightarrow> econ_inv L s' \<and> (\<forall>j < 4. pending s' j \<subseteq> pending s j \<and>
     length (cn_Buffer (econ_slot s' j)) \<le> length (cn_Buffer (econ_slot s j)) \<and> (authed s' j \<longrightarrow> authed s j \<or> A j))"

lemma settles_refl: "econ_inv L s \<Longrightarrow> settles L A s s"
  by (simp add: settles_def)

lemma settles_trans: assumes "settles L A s s'" "settles L A s' s''" shows "settles L A s s''"
  using assms unfolding settles_def by (meson le_trans subset_trans)

lemma settles_inv: "settles L A s s' \<Longrightarrow> econ_inv L s'"
  by (simp add: settles_def)

lemma settles_first: "settles L A s x \<Longrightarrow> returns (settles L A x) m \<Longrightarrow> returns (settles L A s) m"
  unfolding returns_def by (blast intro: settles_trans)

lemma settles_then:
  assumes "returns (settles L A s) m" "\<And>x. settles L A s x \<Longrightarrow> returns (settles L A x) (f x)"
  shows "returns (settles L A s) (Option.bind m f)"
proof -
  obtain x where x: "m = Some x" "settles L A s x" using assms(1) by (auto simp: returns_def)
  then show ?thesis using assms(2) [OF x(2)] by (auto simp: returns_def intro: settles_trans)
qed

lemma only_sent_settles:
  assumes "econ_inv L s" "only_sent s s'"
  shows "settles L A s s'"
proof -
  note f = only_sent_fields [OF assms(2)]
  have 4: "length (ec_Slots s) = 4" using assms(1) by (simp add: econ_inv_def)
  have same: "cn_Buffer (econ_slot s' j) = cn_Buffer (econ_slot s j)" "slot_ok (econ_client s' j) (econ_slot s' j)" if "j < 4" for j
    using sent_slot_same [OF f(7)] that 4 f(8) assms(1) by (simp_all add: econ_inv_def slot_ok_def)
  then show ?thesis using assms f(1-4,8) by (simp add: settles_def econ_inv_def pending_def authed_def sends_progress_def)
qed

lemma settles_at:
  assumes "econ_inv L s" "i < 4" "ec_aClients s' = (ec_aClients s)[i := cl]" "ec_Slots s' = (ec_Slots s)[i := c]"
    and "t_Send (ec_Tcp s') = t_Send (ec_Tcp s)" "srv_inv L (ec_Server s')" "slot_ok cl c"
    and "set (fst (lines_of (cn_Buffer c))) \<subseteq> pending s i" "length (cn_Buffer c) \<le> length (cn_Buffer (econ_slot s i))"
    and "ec_State cl = ECON_AUTHED \<Longrightarrow> authed s i \<or> A i"
  shows "settles L A s s'"
proof -
  have "length (ec_aClients s) = 4" "length (ec_Slots s) = 4" using assms(1) by (simp_all add: econ_inv_def)
  then have at: "econ_client s' j = (if j = i then cl else econ_client s j)" "econ_slot s' j = (if j = i then c else econ_slot s j)"
    if "j < 4" for j using assms(2-4) that by (simp_all add: econ_client_def econ_slot_def)
  show ?thesis using assms at by (simp add: settles_def econ_inv_def pending_def authed_def sends_progress_def)
qed

lemma econ_time_fields:
  assumes "srv_inv L (ec_Server s)" "econ_time s = (t, s')"
  shows "ec_aClients s' = ec_aClients s" "ec_Slots s' = ec_Slots s" "ec_Tcp s' = ec_Tcp s" "srv_inv L (ec_Server s')"
proof -
  obtain srv where t: "server_time (ec_Server s) = (t, srv)" "s' = s\<lparr>ec_Server := srv\<rparr>"
    using assms(2) by (auto simp: econ_time_def split: prod.splits)
  show "ec_aClients s' = ec_aClients s" "ec_Slots s' = ec_Slots s" "ec_Tcp s' = ec_Tcp s" using t(2) by simp_all
  have "fine L (ec_Server s) srv" using sent_fine [OF assms(1) server_time_sent [OF _ t(1)]] assms(1) by (simp add: srv_inv_def)
  then show "srv_inv L (ec_Server s')" using t(2) by (simp add: fine_def)
qed

lemma econ_time_settles:
  assumes "econ_inv L s" "econ_time s = (t, s')"
  shows "settles L A s s'"
  using econ_time_fields [OF _ assms(2), of L] assms(1)
  by (simp add: settles_def econ_inv_def pending_def authed_def econ_slot_def econ_client_def)

lemma console_Drop_returns:
  assumes "econ_inv L s" "i < 4"
  shows "returns (settles L A s) (console_Drop e i pReason s)"
proof -
  have 4: "length (ec_Slots s) = 4" "sends_progress (ec_Tcp s)" using assms(1) by (simp_all add: econ_inv_def)
  obtain s1 where s1: "econ_Print e (Log_dropped i (cn_PeerAddr (econ_slot s i)) pReason) s = Some s1" "only_sent s s1"
    using econ_Print_returns [OF 4(2,1)] by (auto simp: returns_def)
  note set1 = only_sent_settles [OF assms(1) s1(2)]
  let ?cl = "(econ_client s1 i)\<lparr>ec_State := ECON_EMPTY\<rparr>"
  let ?s2 = "set_econ_client i (\<lambda>c. c\<lparr>ec_State := ECON_EMPTY\<rparr>) s1"
  have s2: "econ_slot ?s2 i = econ_slot s1 i" "ec_Tcp ?s2 = ec_Tcp s1" "ec_aClients ?s2 = (ec_aClients s1)[i := ?cl]"
    "ec_Slots ?s2 = ec_Slots s1" "ec_Server ?s2 = ec_Server s1"
    by (simp_all add: set_econ_client_def econ_slot_def)
  have at: "settles L A s1 ((set_econ_slot i c ?s2)\<lparr>ec_Tcp := w\<rparr>)"
    if "cn_State c = OFFLINE" "cn_Buffer c = [] \<or> c = econ_slot s1 i" "t_Send w = t_Send (ec_Tcp s1)" for c w
    by (rule settles_at [OF settles_inv [OF set1 [of A]] assms(2), of _ ?cl c])
      (use that settles_inv [OF set1 [of A]] s2 in \<open>auto simp: set_econ_slot_def slot_ok_def econ_inv_def pending_def lines_of_def\<close>)
  have w1: "sends_progress (ec_Tcp s1)" using sends_progress_sent [OF s1(2) 4(2)] .
  have "returns (\<lambda>(c, w). cn_State c = OFFLINE \<and> (cn_Buffer c = [] \<or> c = econ_slot s1 i) \<and> t_Send w = t_Send (ec_Tcp s1))
      (cn_Disconnect pReason (econ_slot s1 i) (ec_Tcp s1))"
    using cn_Send_returns [OF w1, of "econ_slot s1 i" pReason]
    by (auto simp: cn_Disconnect_def returns_def cn_Reset_def tcp_close_def)
  then obtain c w where c: "cn_Disconnect pReason (econ_slot s1 i) (ec_Tcp s1) = Some (c, w)" "cn_State c = OFFLINE"
    "cn_Buffer c = [] \<or> c = econ_slot s1 i" "t_Send w = t_Send (ec_Tcp s1)" by (auto simp: returns_def)
  show ?thesis using s1(1) c(1) s2(1,2) settles_trans [OF set1 at [OF c(2-4)]]
    by (simp add: console_Drop_def econ_DelClient_def returns_def)
qed

section \<open>Lines and commands\<close>

lemma cn_Recv_line:
  assumes "cn_Recv M c = (res, c')"
  shows "set (fst (lines_of (cn_Buffer c'))) \<subseteq> set (fst (lines_of (cn_Buffer c)))"
    "length (cn_Buffer c') \<le> length (cn_Buffer c)" "cn_State c' = cn_State c" "cn_PeerAddr c' = cn_PeerAddr c"
    "res = Some pLine \<Longrightarrow> length (cn_Buffer c') < length (cn_Buffer c)"
    "res = Some pLine \<Longrightarrow> \<exists>raw \<in> set (fst (lines_of (cn_Buffer c))). pLine = str_sanitize_cc (c_string raw)"
proof -
  obtain raw where n: "next_line M c = (raw, c')"
    "res = (case raw of None \<Rightarrow> None | Some l \<Rightarrow> if str_utf8_check (str_sanitize_cc (c_string l)) then Some (str_sanitize_cc (c_string l)) else None)"
    using assms by (auto simp: cn_Recv_def Let_def split: prod.splits option.splits)
  note t = next_line_takes [OF n(1)]
  show "set (fst (lines_of (cn_Buffer c'))) \<subseteq> set (fst (lines_of (cn_Buffer c)))"
    "length (cn_Buffer c') \<le> length (cn_Buffer c)" "cn_State c' = cn_State c" "cn_PeerAddr c' = cn_PeerAddr c"
    using t by (auto split: option.splits)
  show "length (cn_Buffer c') < length (cn_Buffer c)"
    "\<exists>raw \<in> set (fst (lines_of (cn_Buffer c))). pLine = str_sanitize_cc (c_string raw)" if "res = Some pLine"
    using t(1) n(2) that by (auto split: option.splits if_splits)
qed

lemma recv_settles:
  assumes "econ_inv L s" "i < 4" "cn_Recv M (econ_slot s i) = (res, c)"
  shows "settles L A s (set_econ_slot i c s)"
  by (rule settles_at [OF assms(1,2), of _ "econ_client s i" c])
    (use assms cn_Recv_line(1-4) [OF assms(3)] in
      \<open>auto simp: set_econ_slot_def econ_client_def econ_inv_def slot_ok_def pending_def authed_def\<close>)

lemma recv_slots_settles:
  "econ_inv L s \<Longrightarrow> \<forall>i \<in> set is. i < 4 \<Longrightarrow> recv_slots M is s = (res, s') \<Longrightarrow> settles L A s s' \<and>
    (\<forall>i pLine. res = Some (i, pLine) \<longrightarrow> i < 4 \<and> cn_State (econ_slot s' i) = ONLINE \<and>
      length (cn_Buffer (econ_slot s' i)) < length (cn_Buffer (econ_slot s i)) \<and>
      (\<exists>raw \<in> pending s i. pLine = str_sanitize_cc (c_string raw)))"
proof (induction "is" arbitrary: s)
  case (Cons j "is")
  show ?case
  proof (cases "cn_State (econ_slot s j) = ONLINE")
    case True
    obtain r c where r: "cn_Recv M (econ_slot s j) = (r, c)" by fastforce
    have j: "j < 4" "length (ec_Slots s) = 4" using Cons.prems by (simp_all add: econ_inv_def)
    note one = recv_settles [OF Cons.prems(1) j(1) r] and line = cn_Recv_line [OF r]
    have at: "econ_slot (set_econ_slot j c s) j = c" using j by (simp add: econ_slot_def set_econ_slot_def)
    show ?thesis
    proof (cases r)
      case None
      then have "recv_slots M is (set_econ_slot j c s) = (res, s')" using Cons.prems(3) True r by simp
      from Cons.IH [OF settles_inv [OF one [of A]] _ this] Cons.prems(2)
      have rest: "settles L A (set_econ_slot j c s) s'"
        "\<And>i pLine. res = Some (i, pLine) \<Longrightarrow> i < 4 \<and> cn_State (econ_slot s' i) = ONLINE \<and>
          length (cn_Buffer (econ_slot s' i)) < length (cn_Buffer (econ_slot (set_econ_slot j c s) i)) \<and>
          (\<exists>raw \<in> pending (set_econ_slot j c s) i. pLine = str_sanitize_cc (c_string raw))" by simp_all
      have le: "pending (set_econ_slot j c s) i \<subseteq> pending s i"
        "length (cn_Buffer (econ_slot (set_econ_slot j c s) i)) \<le> length (cn_Buffer (econ_slot s i))" if "i < 4" for i
        using one [of A] that by (simp_all add: settles_def)
      show ?thesis
      proof (intro conjI allI impI)
        show "settles L A s s'" using settles_trans [OF one rest(1)] .
        fix i pLine assume "res = Some (i, pLine)"
        note r = rest(2) [OF this]
        then show "i < 4" "cn_State (econ_slot s' i) = ONLINE" by blast+
        show "length (cn_Buffer (econ_slot s' i)) < length (cn_Buffer (econ_slot s i))"
          "\<exists>raw \<in> pending s i. pLine = str_sanitize_cc (c_string raw)"
          using r le [of i] by (auto intro: order_less_le_trans)
      qed
    next
      case (Some l)
      then have e: "res = Some (j, l)" "s' = set_econ_slot j c s" using Cons.prems(3) True r by simp_all
      then show ?thesis using one line(3,5,6) Some at j True by (auto simp: pending_def)
    qed
  next
    case False
    then show ?thesis using Cons by simp
  qed
qed (simp add: settles_refl)

lemma server_settles: "econ_inv L s \<Longrightarrow> srv_inv L srv \<Longrightarrow> settles L A s (s\<lparr>ec_Server := srv\<rparr>)"
  by (simp add: settles_def econ_inv_def pending_def authed_def econ_slot_def econ_client_def)

lemma user_settles: "econ_inv L s \<Longrightarrow> settles L A s (s\<lparr>ec_UserClientId := i\<rparr>)"
  by (simp add: settles_def econ_inv_def pending_def authed_def econ_slot_def econ_client_def)

lemma print_settles: "econ_inv L s \<Longrightarrow> returns (settles L A s) (econ_Print e ev s)"
  by (rule returns_mono [OF econ_Print_returns]) (simp_all add: econ_inv_def only_sent_settles)

lemma send_settles: "econ_inv L s \<Longrightarrow> i < 4 \<Longrightarrow> returns (settles L A s) (console_Send i pLine s)"
  by (rule returns_mono [OF console_Send_returns]) (simp_all add: econ_inv_def only_sent_settles)

lemma client_settles:
  assumes "econ_inv L s" "i < 4" "ec_State (f (econ_client s i)) \<noteq> ECON_EMPTY" "ec_State (econ_client s i) \<noteq> ECON_EMPTY"
    and "ec_State (f (econ_client s i)) = ECON_AUTHED \<Longrightarrow> authed s i \<or> A i"
  shows "settles L A s (set_econ_client i f s)"
  by (rule settles_at [OF assms(1,2), of _ "f (econ_client s i)" "econ_slot s i"])
    (use assms in \<open>auto simp: set_econ_client_def econ_slot_def econ_inv_def slot_ok_def pending_def authed_def\<close>)

text \<open>The password logs in; another line does not, and does not make the console fail.\<close>

lemma econ_password_settles:
  assumes "econ_inv L s" "i < 4" "ec_State (econ_client s i) = ECON_CONNECTED" "pLine = ee_Password e \<Longrightarrow> A i"
  shows "returns (settles L A s) (econ_password e i pLine s)"
proof (cases "pLine = ee_Password e")
  case True
  let ?s = "set_econ_client i (\<lambda>c. c\<lparr>ec_State := ECON_AUTHED\<rparr>) s"
  have one: "settles L A s ?s" using assms True by (intro client_settles) simp_all
  have "returns (settles L A ?s) (Option.bind (console_Send i (bytes_of ''Authentication successful. External console access granted.'') ?s)
      (econ_Print e (Log_authed i)))"
    by (intro settles_then send_settles print_settles settles_inv [OF one] assms(2)) (erule settles_inv)
  from returns_mono [OF this, of "settles L A s"] one True show ?thesis
    by (simp add: econ_password_def) (meson settles_trans)
next
  case False
  let ?s = "set_econ_client i (\<lambda>c. c\<lparr>ec_AuthTries := ec_AuthTries c + 1\<rparr>) s"
  have one: "settles L A s ?s" using assms by (intro client_settles) simp_all
  let ?rest = "\<lambda>s. if ec_AuthTries (econ_client ?s i) \<ge> MAX_AUTH_TRIES
        then if ee_Bantime e = 0 then console_Drop e i (bytes_of ''Too many authentication tries'') s
             else map_option (\<lambda>(_, srv). s\<lparr>ec_Server := srv\<rparr>)
                    (server_BanAddr (ee_Srv e) (cn_PeerAddr (econ_slot s i)) (ee_Bantime e * 60)
                      (bytes_of ''Too many authentication tries'') False (ec_Server s))
        else Some s"
  have 4: "sends_progress (ec_Tcp ?s)" "i < length (ec_Slots ?s)" using settles_inv [OF one] assms(2) by (simp_all add: econ_inv_def)
  have rest: "returns (settles L A x) (?rest x)" if "only_sent ?s x" for x
  proof (intro returns_if)
    have x: "econ_inv L x" using settles_inv [OF only_sent_settles [OF settles_inv [OF one] that]] .
    have "econ_client x i = econ_client ?s i" using only_sent_fields(8) [OF that] .
    then have "ec_State (econ_client x i) = ECON_CONNECTED"
      using assms(1-3) by (simp add: set_econ_client_def econ_client_def econ_inv_def)
    then have v: "valid_addr (cn_PeerAddr (econ_slot x i))" using x assms(2) by (simp add: econ_inv_def slot_ok_def)
    have inv: "srv_inv L (ec_Server x)" using x by (simp add: econ_inv_def)
    show "returns (settles L A x) (console_Drop e i (bytes_of ''Too many authentication tries'') x)"
      using console_Drop_returns [OF x assms(2)] .
    show "returns (settles L A x) (map_option (\<lambda>(_, srv). x\<lparr>ec_Server := srv\<rparr>)
        (server_BanAddr (ee_Srv e) (cn_PeerAddr (econ_slot x i)) (ee_Bantime e * 60)
          (bytes_of ''Too many authentication tries'') False (ec_Server x)))"
      unfolding returns_map
      by (rule returns_mono [OF server_BanAddr_returns [OF inv v]]) (auto simp: fine_def intro!: server_settles [OF x])
    show "returns (settles L A x) (Some x)" using x by (simp add: returns_value settles_refl)
  qed
  obtain x where x: "console_Send i (bytes_of (''Wrong password '' @ decimal (ec_AuthTries (econ_client ?s i)) @ ''/'' @
      decimal MAX_AUTH_TRIES @ ''.'')) ?s = Some x" "only_sent ?s x"
    using console_Send_returns [OF 4] by (auto simp: returns_def)
  have "settles L A s x" using settles_trans [OF one only_sent_settles [OF settles_inv [OF one] x(2)]] .
  then have "returns (settles L A s) (?rest x)" using returns_mono [OF rest [OF x(2)]] settles_trans by blast
  then show ?thesis using False x(1) by (simp add: econ_password_def Let_def)
qed

text \<open>The commands that a line of the console may run.\<close>

datatype econ_cmd = Cmd_econ_logout | Cmd_server console_cmd

fun econ_cmd_do :: "econ_env \<Rightarrow> econ_cmd \<Rightarrow> CEcon \<Rightarrow> CEcon option" where
  "econ_cmd_do e Cmd_econ_logout s = Econ_ConLogout e s"
| "econ_cmd_do e (Cmd_server cmd) s = map_option (\<lambda>srv. s\<lparr>ec_Server := srv\<rparr>) (console_do (ee_Srv e) cmd (ec_Server s))"

fun econ_cmds :: "econ_env \<Rightarrow> econ_cmd list \<Rightarrow> CEcon \<Rightarrow> CEcon option" where
  "econ_cmds e [] s = Some s"
| "econ_cmds e (cmd # cmds) s = Option.bind (econ_cmd_do e cmd s) (econ_cmds e cmds)"

fun econ_cmd_valid :: "int \<Rightarrow> econ_cmd \<Rightarrow> bool" where
  "econ_cmd_valid L Cmd_econ_logout = True"
| "econ_cmd_valid L (Cmd_server cmd) = cmd_valid L cmd"

definition econ_ok :: "int \<Rightarrow> econ_env \<Rightarrow> bool" where
  "econ_ok L e \<longleftrightarrow> (\<forall>line s. \<exists>cmds. list_all (econ_cmd_valid L) cmds \<and> ee_Execute e line s = econ_cmds e cmds s)"

lemma econ_cmd_settles: "econ_inv L s \<Longrightarrow> econ_cmd_valid L cmd \<Longrightarrow> returns (settles L A s) (econ_cmd_do e cmd s)"
proof (cases cmd)
  case Cmd_econ_logout
  assume "econ_inv L s"
  then show ?thesis using Cmd_econ_logout console_Drop_returns [of L s "nat (ec_UserClientId s)" A]
    by (auto simp: Econ_ConLogout_def returns_value settles_refl)
next
  case (Cmd_server c)
  assume a: "econ_inv L s" "econ_cmd_valid L cmd"
  then have "srv_inv L (ec_Server s)" "cmd_valid L c" using Cmd_server by (simp_all add: econ_inv_def)
  from returns_mono [OF console_do_returns [OF this], of "\<lambda>srv. settles L A s (s\<lparr>ec_Server := srv\<rparr>)" "ee_Srv e"] Cmd_server
  show ?thesis using server_settles [OF a(1)] by (simp add: returns_map fine_def)
qed

lemma econ_cmds_settle:
  "econ_inv L s \<Longrightarrow> list_all (econ_cmd_valid L) cmds \<Longrightarrow> returns (settles L A s) (econ_cmds e cmds s)"
proof (induction cmds arbitrary: s)
  case (Cons cmd cmds)
  have "returns (settles L A s) (Option.bind (econ_cmd_do e cmd s) (econ_cmds e cmds))"
    by (rule settles_then [OF econ_cmd_settles Cons.IH]) (use Cons.prems in \<open>auto dest: settles_inv\<close>)
  then show ?case by simp
qed (simp add: returns_value settles_refl)

lemma econ_line_settles:
  assumes "econ_ok L e" "econ_inv L s" "i < 4" "cn_State (econ_slot s i) = ONLINE" "pLine = ee_Password e \<Longrightarrow> A i"
  shows "returns (settles L A s) (econ_line e i pLine s)"
proof (cases "ec_State (econ_client s i)")
  case ECON_EMPTY
  moreover have "slot_ok (econ_client s i) (econ_slot s i)" using assms(2,3) by (simp add: econ_inv_def)
  ultimately show ?thesis using assms(4) by (simp add: slot_ok_def)
next
  case ECON_CONNECTED
  then show ?thesis using econ_password_settles assms by (simp add: econ_line_def)
next
  case ECON_AUTHED
  have run: "returns (settles L A x) (ee_Execute e pLine (x\<lparr>ec_UserClientId := int i\<rparr>))" if "settles L A s x" for x
  proof -
    obtain cmds where c: "list_all (econ_cmd_valid L) cmds"
      "ee_Execute e pLine (x\<lparr>ec_UserClientId := int i\<rparr>) = econ_cmds e cmds (x\<lparr>ec_UserClientId := int i\<rparr>)"
      using assms(1) unfolding econ_ok_def by blast
    have u: "settles L A x (x\<lparr>ec_UserClientId := int i\<rparr>)" using user_settles settles_inv [OF that] .
    show ?thesis unfolding c(2)
      by (rule returns_mono [OF econ_cmds_settle [OF settles_inv [OF u] c(1)]]) (rule settles_trans [OF u])
  qed
  have "returns (settles L A s) (do { s \<leftarrow> econ_Print e (Log_command i pLine) s;
      s \<leftarrow> ee_Execute e pLine (s\<lparr>ec_UserClientId := int i\<rparr>); Some (s\<lparr>ec_UserClientId := -1\<rparr>) })"
    by (intro settles_then print_settles [OF assms(2)] run)
      (auto simp: returns_value settles_refl intro: user_settles dest: settles_inv)
  then show ?thesis using ECON_AUTHED by (simp add: econ_line_def)
qed

section \<open>The loops of the console\<close>

text \<open>A line that is the password when it has been read.\<close>

definition passes :: "econ_env \<Rightarrow> u8 list \<Rightarrow> bool" where
  "passes e raw \<longleftrightarrow> str_sanitize_cc (c_string raw) = ee_Password e"

definition buffered :: "CEcon \<Rightarrow> nat" where
  "buffered s = (\<Sum>j < 4. length (cn_Buffer (econ_slot s j)))"

lemma settles_buffered:
  assumes "settles L A s s'" "i < 4" "length (cn_Buffer (econ_slot s' i)) < length (cn_Buffer (econ_slot s i))"
  shows "buffered s' < buffered s"
  unfolding buffered_def by (rule sum_strict_mono_ex1) (use assms in \<open>auto simp: settles_def\<close>)

text \<open>Each line that is taken makes what is buffered shorter.\<close>

lemma econ_lines_settle:
  assumes "econ_ok L e"
  shows "econ_inv L s \<Longrightarrow> \<forall>j < 4. \<forall>raw \<in> pending s j. passes e raw \<longrightarrow> A j \<Longrightarrow> returns (settles L A s) (econ_lines e s)"
proof (induction s rule: measure_induct_rule [of buffered])
  case (less s)
  obtain res s1 where r: "console_Recv (NET_MAX_PACKETSIZE - 1) s = (res, s1)" by fastforce
  have "\<forall>i \<in> set [0..<NET_MAX_CONSOLE_CLIENTS]. i < 4" by simp
  note taken = recv_slots_settles [OF less.prems(1) this r [unfolded console_Recv_def], of A]
  then have one: "settles L A s s1" by blast
  show ?case
  proof (cases res)
    case None
    then show ?thesis using one r by (subst econ_lines.simps) (simp add: returns_value)
  next
    case (Some x)
    obtain i pLine where x: "x = (i, pLine)" by fastforce
    from taken Some x have t: "i < 4" "cn_State (econ_slot s1 i) = ONLINE"
      "length (cn_Buffer (econ_slot s1 i)) < length (cn_Buffer (econ_slot s i))"
      and raw: "\<exists>raw \<in> pending s i. pLine = str_sanitize_cc (c_string raw)" by simp_all
    from raw obtain l where l: "l \<in> pending s i" "pLine = str_sanitize_cc (c_string l)" by (elim bexE)
    have "pLine = ee_Password e \<Longrightarrow> A i" using less.prems(2) [rule_format, OF t(1) l(1)] l(2) by (simp add: passes_def)
    then have line: "returns (settles L A s1) (econ_line e i pLine s1)"
      using econ_line_settles [OF assms settles_inv [OF one] t(1,2)] by simp
    have step: "returns (settles L A s1) (Option.bind (econ_line e i pLine s1) (econ_lines e))"
    proof (rule settles_then [OF line])
      fix y assume y: "settles L A s1 y"
      have sy: "settles L A s y" by (rule settles_trans [OF one y])
      have "length (cn_Buffer (econ_slot y i)) < length (cn_Buffer (econ_slot s i))"
        using y t(1,3) unfolding settles_def by (meson order_le_less_trans)
      then have "buffered y < buffered s" by (rule settles_buffered [OF sy t(1)])
      moreover have "\<forall>j < 4. \<forall>raw \<in> pending y j. passes e raw \<longrightarrow> A j"
        using sy less.prems(2) unfolding settles_def by blast
      ultimately show "returns (settles L A y) (econ_lines e y)" using less.IH settles_inv [OF y] by blast
    qed
    show ?thesis
      using settles_first [OF one step] econ_lines.simps [of e s] r Some x by (simp only: prod.case option.case)
  qed
qed

lemma econ_timeouts_settle:
  "econ_inv L s \<Longrightarrow> \<forall>i \<in> set is. i < 4 \<Longrightarrow> returns (settles L A s) (econ_timeouts e is s)"
proof (induction "is" arbitrary: s)
  case (Cons i "is")
  obtain t s1 where t: "econ_time s = (t, s1)" by fastforce
  have s1: "settles L A s s1" by (rule econ_time_settles [OF Cons.prems(1) t])
  have rest: "returns (settles L A x) (econ_timeouts e is x)" if "settles L A y x" for x y
    using Cons.IH settles_inv [OF that] Cons.prems(2) by simp
  have a: "returns (settles L A s1) (Option.bind (console_Drop e i (bytes_of ''authentication timeout'') s1) (econ_timeouts e is))"
    using Cons.prems(2) by (intro settles_then console_Drop_returns settles_inv [OF s1] rest) simp_all
  note settles_first [OF s1 a] settles_first [OF s1 rest [OF s1]]
  moreover have "returns (settles L A s) (econ_timeouts e is s)" by (rule rest [OF settles_refl [OF Cons.prems(1)]])
  ultimately show ?case using t by simp
qed (simp add: returns_value settles_refl)

text \<open>What may happen while data and connections arrive.\<close>

definition no_login :: "int \<Rightarrow> CEcon \<Rightarrow> CEcon \<Rightarrow> bool" where
  "no_login L s s' \<longleftrightarrow> econ_inv L s' \<and> (\<forall>j < 4. authed s' j \<longrightarrow> authed s j)"

lemma no_login_trans: "no_login L s s' \<Longrightarrow> no_login L s' s'' \<Longrightarrow> no_login L s s''"
  by (simp add: no_login_def)

lemma settles_no_login: "settles L (\<lambda>_. False) s s' \<Longrightarrow> no_login L s s'"
  by (simp add: settles_def no_login_def)

lemma no_login_first: "no_login L s x \<Longrightarrow> returns (no_login L x) m \<Longrightarrow> returns (no_login L s) m"
  unfolding returns_def by (blast intro: no_login_trans)

lemma no_login_then:
  assumes "returns (no_login L s) m" "\<And>x. no_login L s x \<Longrightarrow> returns (no_login L x) (f x)"
  shows "returns (no_login L s) (Option.bind m f)"
proof -
  obtain x where x: "m = Some x" "no_login L s x" using assms(1) by (auto simp: returns_def)
  then show ?thesis using no_login_first [OF x(2) assms(2) [OF x(2)]] by simp
qed

lemma Drop_no_login: "econ_inv L s \<Longrightarrow> i < 4 \<Longrightarrow> returns (no_login L s) (console_Drop e i pReason s)"
  by (rule returns_mono [OF console_Drop_returns [of L s i "\<lambda>_. False"]]) (simp_all add: settles_no_login)

lemma refuse_no_login: "econ_inv L s \<Longrightarrow> no_login L s (refuse_console Socket pError s)"
  by (simp add: no_login_def econ_inv_def authed_def econ_slot_def econ_client_def refuse_console_def tcp_close_def tcp_send_def
      sends_progress_def Let_def)

lemma no_login_at:
  assumes "econ_inv L s" "i < 4" "ec_aClients s' = (ec_aClients s)[i := cl]" "length (ec_Slots s') = 4"
    and "\<forall>j < 4. j \<noteq> i \<longrightarrow> sent_slot (econ_slot s j) (econ_slot s' j)" "slot_ok cl (econ_slot s' i)"
    and "t_Send (ec_Tcp s') = t_Send (ec_Tcp s)" "srv_inv L (ec_Server s')" "ec_State cl = ECON_AUTHED \<Longrightarrow> authed s i"
  shows "no_login L s s'"
proof -
  have at: "econ_client s' j = (if j = i then cl else econ_client s j)" if "j < 4" for j
    using assms(1,3) that by (simp add: econ_client_def econ_inv_def)
  have "slot_ok (econ_client s' j) (econ_slot s' j)" if "j < 4" for j
    using at [OF that] assms(1,5,6) that sent_slot_same [of "econ_slot s j" "econ_slot s' j"]
    by (cases "j = i") (simp_all add: econ_inv_def slot_ok_def)
  then show ?thesis using assms at by (simp add: no_login_def econ_inv_def authed_def sends_progress_def)
qed

lemma update_consoles_no_login:
  "econ_inv L s \<Longrightarrow> \<forall>i \<in> set is. i < 4 \<Longrightarrow> returns (no_login L s) (update_consoles e r is s)"
proof (induction "is" arbitrary: s)
  case (Cons i "is")
  let ?c = "cn_Update (r i) (econ_slot s i)"
  let ?s = "set_econ_slot i ?c s"
  have 4: "length (ec_aClients s) = 4" "length (ec_Slots s) = 4" "i < 4" "slot_ok (econ_client s i) (econ_slot s i)"
    using Cons.prems by (simp_all add: econ_inv_def)
  have c: "(cn_State ?c = OFFLINE) = (cn_State (econ_slot s i) = OFFLINE)" "cn_PeerAddr ?c = cn_PeerAddr (econ_slot s i)"
    by (simp_all add: cn_Update_def split: tcp_recv.split)
  have one: "no_login L s ?s"
    by (rule no_login_at [OF Cons.prems(1) 4(3), of _ "econ_client s i"])
      (use 4 c Cons.prems(1) in \<open>simp_all add: set_econ_slot_def econ_client_def econ_slot_def slot_ok_def sent_slot_def authed_def econ_inv_def\<close>)
  then have inv: "econ_inv L ?s" by (simp add: no_login_def)
  have "returns (no_login L ?s) (Option.bind
      (if cn_State (econ_slot ?s i) = ERROR then console_Drop e i (cn_ErrorString (econ_slot ?s i)) ?s else Some ?s) (update_consoles e r is))"
  proof (rule no_login_then)
    show "returns (no_login L ?s)
        (if cn_State (econ_slot ?s i) = ERROR then console_Drop e i (cn_ErrorString (econ_slot ?s i)) ?s else Some ?s)"
      using Drop_no_login [OF inv 4(3)] one by (simp add: returns_value no_login_def)
    fix x assume "no_login L ?s x"
    then have "econ_inv L x" by (simp add: no_login_def)
    then show "returns (no_login L x) (update_consoles e r is x)" using Cons.IH Cons.prems(2) by simp
  qed
  from no_login_first [OF one this] show ?case by (simp only: update_consoles.simps Let_def)
qed (simp add: returns_value no_login_def)

lemma NewClient_no_login:
  assumes "econ_inv L s" "i < 4" "cn_State c = ONLINE" "valid_addr (cn_PeerAddr c)"
  shows "returns (no_login L s) (econ_NewClient e i (set_econ_slot i c s))"
proof -
  let ?s = "set_econ_slot i c s"
  have 4: "sends_progress (ec_Tcp ?s)" "length (ec_Slots ?s) = 4" using assms(1) by (simp_all add: set_econ_slot_def econ_inv_def)
  obtain s1 where s1: "econ_Print e (Log_accepted i (cn_PeerAddr (econ_slot ?s i))) ?s = Some s1" "only_sent ?s s1"
    using econ_Print_returns [OF 4] by (auto simp: returns_def)
  note f = only_sent_fields [OF s1(2)]
  obtain t s2 where t: "econ_time s1 = (t, s2)" by fastforce
  have "srv_inv L (ec_Server s1)" using f(2) assms(1) by (simp add: set_econ_slot_def econ_inv_def)
  note s2 = econ_time_fields [OF this t]
  let ?f = "\<lambda>c. c\<lparr>ec_State := ECON_CONNECTED, ec_TimeConnected := t, ec_AuthTries := 0\<rparr>"
  let ?s3 = "set_econ_client i ?f s2"
  have slot: "sent_slot (econ_slot ?s j) (econ_slot ?s3 j)" if "j < 4" for j
    using f(7) [of j] that 4(2) s2(2) by (simp add: set_econ_client_def econ_slot_def)
  have "no_login L s ?s3"
  proof (rule no_login_at [OF assms(1,2), of _ "?f (econ_client s2 i)"])
    show "slot_ok (?f (econ_client s2 i)) (econ_slot ?s3 i)"
      using sent_slot_same [OF slot [OF assms(2)]] assms 4(2) by (simp add: slot_ok_def econ_slot_def set_econ_slot_def)
    show "\<forall>j < 4. j \<noteq> i \<longrightarrow> sent_slot (econ_slot s j) (econ_slot ?s3 j)"
      using slot by (metis econ_slot_def nth_list_update_neq set_econ_slot_def CEcon.select_convs(2) CEcon.update_convs(2) CEcon.surjective)
  qed (use f s2 4 in \<open>simp_all add: set_econ_client_def set_econ_slot_def\<close>)
  then have s3: "econ_inv L ?s3" "no_login L s ?s3" by (simp_all add: no_login_def)
  have "returns (no_login L ?s3) (console_Send i (bytes_of ''Enter password:'') ?s3)"
    by (rule returns_mono [OF send_settles [OF s3(1) assms(2)] settles_no_login])
  from no_login_first [OF s3(2) this] show ?thesis using s1(1) t by (simp only: econ_NewClient_def bind.simps Let_def prod.case)
qed

lemma AcceptClient_no_login:
  assumes "econ_inv L s" "valid_addr (ac_Addr a)"
  shows "returns (no_login L s) (AcceptClient e a s)"
proof -
  obtain A R where bans: "netban_shows (s_Ban (ec_Server s)) (A, R)" using assms(1) by (auto simp: econ_inv_def srv_inv_def net_ok_def)
  obtain ban where ban: "IsBanned (ev_Timestamp (ee_Srv e)) (ac_Addr a) 256 (s_Ban (ec_Server s)) = Some ban"
    using find_ban_correct [OF bans assms(2)] by (auto simp: IsBanned_def)
  have 4: "length (ec_Slots s) = 4" using assms(1) by (simp add: econ_inv_def)
  let ?free = "find (\<lambda>i. cn_State (econ_slot s i) = OFFLINE) [0..<NET_MAX_CONSOLE_CLIENTS]"
  have place: "returns (no_login L s) (case ?free of
        None \<Rightarrow> Some (refuse_console (ac_Socket a) (bytes_of ''no free slot available'') s)
      | Some i \<Rightarrow>
          let (ok, c) = cn_Init (ac_Socket a) (ac_Addr a) (ac_NonBlocking a) (econ_slot s i);
              s = set_econ_slot i c s
          in if ok then econ_NewClient e i s
             else Some (refuse_console (ac_Socket a) (bytes_of ''failed to initialize client connection'') s))"
  proof (cases ?free)
    case None
    then show ?thesis using refuse_no_login [OF assms(1)] by (simp add: returns_value)
  next
    case (Some i)
    then have i: "i < 4" "cn_State (econ_slot s i) = OFFLINE" by (auto simp: find_Some_iff)
    show ?thesis
    proof (cases "ac_NonBlocking a")
      case True
      then show ?thesis using Some NewClient_no_login [OF assms(1) i(1)] assms(2) by (simp add: cn_Init_def Let_def)
    next
      case False
      have "slot_ok (econ_client s i) (econ_slot s i)" using assms(1) i(1) by (simp add: econ_inv_def)
      then have "settles L (\<lambda>_. False) s (set_econ_slot i (cn_Reset (econ_slot s i)) s)"
        by (intro settles_at [OF assms(1) i(1), of _ "econ_client s i" "cn_Reset (econ_slot s i)"])
          (use assms(1) i in \<open>simp_all add: set_econ_slot_def econ_client_def cn_Reset_def slot_ok_def lines_of_def authed_def econ_inv_def\<close>)
      from settles_no_login [OF this] have "no_login L s (set_econ_slot i (cn_Reset (econ_slot s i)) s)" .
      then show ?thesis using Some False refuse_no_login no_login_trans
        by (auto simp: cn_Init_def Let_def returns_value no_login_def)
    qed
  qed
  show ?thesis
    using place refuse_no_login [OF assms(1)] ban by (auto simp: AcceptClient_def returns_value split: option.split)
qed

lemma console_Update_no_login:
  assumes "econ_inv L s" "\<forall>x. a = Some x \<longrightarrow> valid_addr (ac_Addr x)"
  shows "returns (no_login L s) (console_Update e a r s)"
  unfolding console_Update_def
proof (rule no_login_then)
  show "returns (no_login L s) (case a of Some a \<Rightarrow> AcceptClient e a s | None \<Rightarrow> Some s)"
    using assms AcceptClient_no_login by (simp add: returns_value no_login_def split: option.split)
  show "returns (no_login L x) (update_consoles e r [0..<NET_MAX_CONSOLE_CLIENTS] x)" if "no_login L s x" for x
    using update_consoles_no_login that by (simp add: no_login_def)
qed

text \<open>Who may log in while the console works: a client with the password among its lines.\<close>

lemma Econ_Update_returns:
  assumes "econ_ok L e" "econ_inv L s" "\<forall>x. a = Some x \<longrightarrow> valid_addr (ac_Addr x)"
  shows "returns (\<lambda>s'. econ_inv L s' \<and> (\<forall>j < 4. authed s' j \<longrightarrow> authed s j \<or>
    (\<exists>s1. console_Update e a r s = Some s1 \<and> (\<exists>raw \<in> pending s1 j. passes e raw)))) (Econ_Update e a r s)"
proof (cases "ec_Ready s")
  case True
  obtain s1 where s1: "console_Update e a r s = Some s1" "no_login L s s1"
    using console_Update_no_login [OF assms(2,3)] by (auto simp: returns_def)
  let ?A = "\<lambda>j. \<exists>raw \<in> pending s1 j. passes e raw"
  have inv: "econ_inv L s1" using s1(2) by (simp add: no_login_def)
  have "returns (settles L ?A s1) (Option.bind (econ_lines e s1) (econ_timeouts e [0..<NET_MAX_CONSOLE_CLIENTS]))"
    by (intro settles_then econ_lines_settle [OF assms(1) inv] econ_timeouts_settle) (auto dest: settles_inv)
  then show ?thesis using True s1 by (auto simp: Econ_Update_def returns_def settles_def no_login_def)
qed (use assms(2) in \<open>simp add: Econ_Update_def returns_value\<close>)

section \<open>The console as a state machine\<close>

text \<open>
  A tick with a connection that is accepted and what each socket gives; a line of the log; and what the engine
  of the game server does meanwhile.
\<close>

datatype econ_op =
    Econ_tick "accepted option" "nat \<Rightarrow> tcp_recv"
  | Econ_log int "u8 list"
  | Econ_engine engine_op

fun econ_do :: "econ_env \<Rightarrow> econ_op \<Rightarrow> CEcon \<Rightarrow> CEcon option" where
  "econ_do e (Econ_tick a r) s = Econ_Update e a r s"
| "econ_do e (Econ_log ClientId pLine) s = Econ_Send ClientId pLine s"
| "econ_do e (Econ_engine op) s = map_option (\<lambda>srv. s\<lparr>ec_Server := srv\<rparr>) (engine_do (ee_Srv e) op (ec_Server s))"

fun econ_allowed :: "int \<Rightarrow> CEcon \<Rightarrow> econ_op \<Rightarrow> bool" where
  "econ_allowed L s (Econ_tick a r) \<longleftrightarrow> (case a of Some x \<Rightarrow> valid_addr (ac_Addr x) | None \<Rightarrow> True)"
| "econ_allowed L s (Econ_log _ _) \<longleftrightarrow> True"
| "econ_allowed L s (Econ_engine op) \<longleftrightarrow> op_allowed L (ec_Server s) op"

definition econ_new :: "int \<Rightarrow> CEcon \<Rightarrow> bool" where
  "econ_new L s \<longleftrightarrow> length (ec_aClients s) = 4 \<and> length (ec_Slots s) = 4 \<and> (\<forall>i < 4. cn_State (econ_slot s i) = OFFLINE) \<and>
     sends_progress (ec_Tcp s) \<and> engine_start L (ec_Server s)"

text \<open>The commands of the two consoles are those of the model.\<close>

definition consoles_ok :: "int \<Rightarrow> econ_env \<Rightarrow> bool" where
  "consoles_ok L e \<longleftrightarrow> econ_ok L e \<and> console_ok L (ee_Srv e)"

inductive econ_reaches :: "int \<Rightarrow> CEcon \<Rightarrow> bool" for L where
  start: "econ_new L s \<Longrightarrow> econ_reaches L (Econ_Init Port pPassword Resolved Opened s)"
| step: "econ_reaches L s \<Longrightarrow> consoles_ok L e \<Longrightarrow> econ_allowed L s op \<Longrightarrow> econ_do e op s = Some s' \<Longrightarrow> econ_reaches L s'"

lemma econ_do_returns:
  assumes "econ_inv L s" "consoles_ok L e" "econ_allowed L s op"
  shows "returns (econ_inv L) (econ_do e op s)"
proof (cases op)
  case (Econ_tick a r)
  then have "\<forall>x. a = Some x \<longrightarrow> valid_addr (ac_Addr x)" using assms(3) by auto
  from Econ_Update_returns [OF _ assms(1) this, of e r] Econ_tick assms(2) show ?thesis by (auto simp: consoles_ok_def returns_def)
next
  case (Econ_log ClientId pLine)
  then show ?thesis
    using returns_mono [OF Econ_Send_returns [of s ClientId pLine], of "econ_inv L"] assms(1)
      settles_inv [OF only_sent_settles [OF assms(1), of _ "\<lambda>_. False"]] unfolding econ_inv_def by auto
next
  case (Econ_engine op')
  have "srv_inv L (ec_Server s)" using assms(1) by (simp add: econ_inv_def)
  from engine_do_returns [OF this, of "ee_Srv e" op'] obtain srv
    where "engine_do (ee_Srv e) op' (ec_Server s) = Some srv" "op_step L (ee_Srv e) op' (ec_Server s) srv"
    using assms(2,3) Econ_engine by (auto simp: returns_def consoles_ok_def)
  then show ?thesis using Econ_engine server_settles [OF assms(1), of srv] by (simp add: returns_def op_step_inv settles_def)
qed

lemma econ_reaches_inv: "econ_reaches L s \<Longrightarrow> econ_inv L s"
proof (induction rule: econ_reaches.induct)
  case (start s Port pPassword Resolved Opened)
  then have "srv_inv L (ec_Server s)" using engine_start_inv by (simp add: econ_new_def)
  with start show ?case
    by (simp add: econ_new_def econ_inv_def Econ_Init_def slot_ok_def econ_slot_def econ_client_def cn_Reset_def Let_def)
next
  case (step s e op s')
  then show ?case using returns_Some [OF econ_do_returns] by blast
qed

section \<open>A console to start with\<close>

definition offline_conn :: CConsoleNetConnection where
  "offline_conn = \<lparr>cn_State = OFFLINE, cn_PeerAddr = zero_addr, cn_Socket = 0, cn_Buffer = [], cn_ErrorString = [],
     cn_LineEndingDetected = False, cn_LineEnding = [10, 0, 0]\<rparr>"

definition new_econ :: CEcon where
  "new_econ = \<lparr>ec_aClients = replicate 4 \<lparr>ec_State = ECON_EMPTY, ec_TimeConnected = 0, ec_AuthTries = 0\<rparr>, ec_Slots = replicate 4 offline_conn,
     ec_Ready = False, ec_UserClientId = 0, ec_Tcp = \<lparr>t_Send = \<lambda>_. 2000, t_Calls = 0, t_Sent = [], t_Closed = []\<rparr>, ec_Server = start_engine\<rparr>"

definition start_econ :: CEcon where
  "start_econ = Econ_Init 8303 [112, 119] True True new_econ"

definition sample_econ_env :: econ_env where
  "sample_econ_env = \<lparr>ee_Srv = start_env, ee_Password = [112, 119], ee_Bantime = 5, ee_AuthTimeout = 30, ee_Log = \<lambda>_. None,
     ee_Execute = \<lambda>_ s. Some s\<rparr>"

definition sample_peer :: accepted where
  "sample_peer = \<lparr>ac_Socket = 3, ac_Addr = zero_addr, ac_NonBlocking = True\<rparr>"

lemma sample_econ_ok: "consoles_ok 2 sample_econ_env"
proof -
  have "list_all (econ_cmd_valid 2) [] \<and> ee_Execute sample_econ_env line s = econ_cmds sample_econ_env [] s" for line s
    by (simp add: sample_econ_env_def)
  moreover have "ee_Srv sample_econ_env = start_env" by (simp add: sample_econ_env_def)
  ultimately show ?thesis unfolding consoles_ok_def econ_ok_def using start_env_console by metis
qed

lemma start_econ_reached: "econ_reaches 2 start_econ"
proof -
  have "engine_start 2 start_engine"
    using server_reaches_inv [OF sample_server_reached]
    by (simp add: engine_start_def start_engine_def occupied_def client_def empty_client_def MAX_CLIENTS_def no_bans_shows(1))
  then have "econ_new 2 new_econ"
    by (simp add: econ_new_def new_econ_def econ_slot_def offline_conn_def sends_progress_def)
  then show ?thesis unfolding start_econ_def by (rule econ_reaches.start)
qed

lemma start_econ_value: "start_econ = new_econ\<lparr>ec_Ready := True, ec_UserClientId := -1\<rparr>"
  by (simp add: start_econ_def Econ_Init_def new_econ_def offline_conn_def cn_Reset_def numeral_nat)

lemma sample_not_banned: "IsBanned t zero_addr k no_bans = Some None"
proof -
  have "find_ban zero_addr no_bans = Some None"
    using find_ban_correct [OF no_bans_shows(1), of zero_addr] by (auto simp: valid_addr_def zero_addr_def split: option.splits)
  then show ?thesis by (simp add: IsBanned_def)
qed

lemma str_copy_fits: "length (str_copy src n) \<le> n - 1"
proof -
  have "length (str_utf8_fix_truncation p) \<le> length p" for p by (simp add: str_utf8_fix_truncation_def Let_def)
  from this [of "take (n - 1) src"] show ?thesis by (simp add: str_copy_def)
qed

text \<open>A socket that takes everything.\<close>

lemma console_Send_full:
  assumes "cn_State (econ_slot s i) = ONLINE" "length (cn_LineEnding (econ_slot s i)) = 3" "t_Send (ec_Tcp s) = (\<lambda>_. 2000)"
  shows "\<exists>w. console_Send i pLine s = Some (s\<lparr>ec_Tcp := w\<rparr>) \<and> t_Send w = (\<lambda>_. 2000)"
proof -
  have "length (str_copy pLine 1022 @ cn_LineEnding (econ_slot s i)) \<le> 2000" using str_copy_fits [of pLine 1022] assms(2) by simp
  then show ?thesis using assms
    by (simp add: console_Send_def cn_Send_def tcp_send_def set_econ_slot_def econ_slot_def Let_def tcp_send_all.simps)
      (rule exI, rule conjI, rule refl, simp)
qed

lemma quiet_slots:
  "\<forall>i \<in> set is. cn_Update (r i) (econ_slot s i) = econ_slot s i \<and> cn_State (econ_slot s i) \<noteq> ERROR \<Longrightarrow> update_consoles e r is s = Some s"
  by (induction "is") (simp_all add: set_econ_slot_def econ_slot_def Let_def)

lemma empty_slots: "\<forall>i \<in> set is. cn_Buffer (econ_slot s i) = [] \<Longrightarrow> recv_slots M is s = (None, s)"
  by (induction "is") (simp_all add: cn_Recv_def next_line_def set_econ_slot_def econ_slot_def)

text \<open>A client that has connected, with what it has sent since.\<close>

definition sample_slot :: "u8 list \<Rightarrow> CConsoleNetConnection" where
  "sample_slot Data = offline_conn\<lparr>cn_State := ONLINE, cn_Socket := 3, cn_Buffer := Data\<rparr>"

definition peer_econ :: "CEconClient \<Rightarrow> u8 list \<Rightarrow> tcp \<Rightarrow> CServer \<Rightarrow> CEcon" where
  "peer_econ cl Data w srv = start_econ\<lparr>ec_aClients := (ec_aClients start_econ)[0 := cl],
     ec_Slots := (ec_Slots start_econ)[0 := sample_slot Data], ec_Tcp := w, ec_Server := srv\<rparr>"

lemma peer_econ_fields:
  "econ_slot (peer_econ cl Data w srv) 0 = sample_slot Data" "econ_client (peer_econ cl Data w srv) 0 = cl"
  "0 < i \<Longrightarrow> i < 4 \<Longrightarrow> econ_slot (peer_econ cl Data w srv) i = offline_conn"
  "0 < i \<Longrightarrow> i < 4 \<Longrightarrow> ec_State (econ_client (peer_econ cl Data w srv) i) = ECON_EMPTY"
  "ec_Tcp (peer_econ cl Data w srv) = w" "ec_Server (peer_econ cl Data w srv) = srv" "ec_Ready (peer_econ cl Data w srv)"
  by (auto simp: peer_econ_def start_econ_value new_econ_def econ_slot_def econ_client_def nth_Cons' numeral_nat)

lemma peer_slots:
  "i \<in> set [0..<NET_MAX_CONSOLE_CLIENTS] \<Longrightarrow> econ_slot (peer_econ cl Data w srv) i = (if i = 0 then sample_slot Data else offline_conn)"
  by (simp add: peer_econ_fields)

lemma peer_econ_update:
  "set_econ_client 0 f (peer_econ cl Data w srv) = peer_econ (f cl) Data w srv"
  "set_econ_slot 0 (sample_slot Data') (peer_econ cl Data w srv) = peer_econ cl Data' w srv"
  "(peer_econ cl Data w srv)\<lparr>ec_Tcp := w'\<rparr> = peer_econ cl Data w' srv"
  "(peer_econ cl Data w srv)\<lparr>ec_Server := srv'\<rparr> = peer_econ cl Data w srv'"
  by (simp_all add: peer_econ_def set_econ_client_def set_econ_slot_def econ_client_def start_econ_value new_econ_def)

lemma peer_econ_send:
  assumes "t_Send w = (\<lambda>_. 2000)"
  shows "\<exists>w'. console_Send 0 pLine (peer_econ cl Data w srv) = Some (peer_econ cl Data w' srv) \<and> t_Send w' = (\<lambda>_. 2000)"
  using console_Send_full [of "peer_econ cl Data w srv" 0 pLine] assms
  by (auto simp: peer_econ_fields peer_econ_update sample_slot_def offline_conn_def)

lemma sample_accepted:
  "\<exists>w t n. AcceptClient sample_econ_env sample_peer start_econ =
     Some (peer_econ \<lparr>ec_State = ECON_CONNECTED, ec_TimeConnected = 0, ec_AuthTries = 0\<rparr> [] w (start_engine\<lparr>s_World := quiet_net\<lparr>n_Ticks := 1\<rparr>\<rparr>)) \<and>
     t_Send w = (\<lambda>_. 2000)"
proof -
  let ?s = "peer_econ \<lparr>ec_State = ECON_EMPTY, ec_TimeConnected = 0, ec_AuthTries = 0\<rparr> [] (ec_Tcp new_econ) start_engine"
  have s: "start_econ = start_econ\<lparr>ec_Server := start_engine\<rparr>" by (simp add: start_econ_value new_econ_def)
  have slots: "ec_Slots start_econ = replicate 4 offline_conn" by (simp add: start_econ_value new_econ_def)
  have free: "find (\<lambda>i. cn_State (econ_slot start_econ i) = OFFLINE) [0..<NET_MAX_CONSOLE_CLIENTS] = Some 0"
    by (simp add: econ_slot_def slots upt_rec offline_conn_def)
  have peer: "set_econ_slot 0 (sample_slot []) start_econ = ?s"
    by (simp add: set_econ_slot_def peer_econ_def start_econ_value new_econ_def numeral_nat)
  have init: "cn_Init (ac_Socket sample_peer) (ac_Addr sample_peer) (ac_NonBlocking sample_peer) (econ_slot start_econ 0) = (True, sample_slot [])"
    by (simp add: cn_Init_def cn_Reset_def sample_peer_def econ_slot_def slots sample_slot_def offline_conn_def)
  have t: "econ_time ?s = (0, peer_econ \<lparr>ec_State = ECON_EMPTY, ec_TimeConnected = 0, ec_AuthTries = 0\<rparr> [] (ec_Tcp new_econ)
      (start_engine\<lparr>s_World := quiet_net\<lparr>n_Ticks := 1\<rparr>\<rparr>))"
    by (simp add: econ_time_def server_time_def time_get_def peer_econ_fields peer_econ_update start_engine_def quiet_net_def)
  have new: "econ_NewClient sample_econ_env 0 ?s = console_Send 0 (bytes_of ''Enter password:'')
      (peer_econ \<lparr>ec_State = ECON_CONNECTED, ec_TimeConnected = 0, ec_AuthTries = 0\<rparr> [] (ec_Tcp new_econ) (start_engine\<lparr>s_World := quiet_net\<lparr>n_Ticks := 1\<rparr>\<rparr>))"
    using t by (simp add: econ_NewClient_def econ_Print_def sample_econ_env_def peer_econ_update)
  have none: "IsBanned (ev_Timestamp (ee_Srv sample_econ_env)) (ac_Addr sample_peer) 256 (s_Ban (ec_Server start_econ)) = Some None"
    by (simp add: sample_peer_def start_econ_value new_econ_def start_engine_def sample_not_banned)
  have alone: "list_ex (\<lambda>c. cn_State c \<noteq> OFFLINE \<and> \<not> net_addr_comp_noport (ac_Addr sample_peer) (cn_PeerAddr c)) (ec_Slots start_econ) = False"
    by (simp add: slots list_ex_iff offline_conn_def)
  have "AcceptClient sample_econ_env sample_peer start_econ = econ_NewClient sample_econ_env 0 ?s"
    by (simp only: AcceptClient_def none free init peer alone bind.simps option.case Let_def prod.case if_True if_False)
  then show ?thesis using peer_econ_send [of "ec_Tcp new_econ"] new by (simp add: new_econ_def)
qed

lemma sample_ticks:
  assumes "cl = \<lparr>ec_State = ECON_CONNECTED, ec_TimeConnected = 0, ec_AuthTries = 0\<rparr>"
  shows "\<exists>w n. Econ_Update sample_econ_env (Some sample_peer) (\<lambda>_. Would_block) start_econ =
     Some (peer_econ cl [] w (start_engine\<lparr>s_World := quiet_net\<lparr>n_Ticks := n\<rparr>\<rparr>)) \<and> t_Send w = (\<lambda>_. 2000)"
proof -
  let ?srv = "\<lambda>n. start_engine\<lparr>s_World := quiet_net\<lparr>n_Ticks := n\<rparr>\<rparr>"
  obtain w where w: "AcceptClient sample_econ_env sample_peer start_econ = Some (peer_econ cl [] w (?srv 1))" "t_Send w = (\<lambda>_. 2000)"
    using sample_accepted assms by auto
  let ?s = "peer_econ cl [] w (?srv 1)"
  have "\<forall>i \<in> set [0..<NET_MAX_CONSOLE_CLIENTS]. cn_Update Would_block (econ_slot ?s i) = econ_slot ?s i \<and> cn_State (econ_slot ?s i) \<noteq> ERROR"
    by (intro ballI) (simp only: peer_slots, simp add: cn_Update_def sample_slot_def offline_conn_def)
  then have u: "update_consoles sample_econ_env (\<lambda>_. Would_block) [0..<NET_MAX_CONSOLE_CLIENTS] ?s = Some ?s" by (rule quiet_slots)
  have "\<forall>i \<in> set [0..<NET_MAX_CONSOLE_CLIENTS]. cn_Buffer (econ_slot ?s i) = []"
    by (intro ballI) (simp only: peer_slots, simp add: sample_slot_def offline_conn_def)
  then have l: "econ_lines sample_econ_env ?s = Some ?s"
    by (subst econ_lines.simps) (simp only: console_Recv_def empty_slots prod.case option.case)
  have t: "econ_time ?s = (1, peer_econ cl [] w (?srv 2))"
    by (simp add: econ_time_def server_time_def time_get_def peer_econ_fields peer_econ_update quiet_net_def numeral_nat)
  have "[0..<NET_MAX_CONSOLE_CLIENTS] = [0, 1, 2, 3]" by (simp add: upt_rec)
  then have "econ_timeouts sample_econ_env [0..<NET_MAX_CONSOLE_CLIENTS] ?s = Some (peer_econ cl [] w (?srv 2))"
    using t assms peer_econ_fields(4) [of _ cl "[]" w "?srv 2"]
    by (simp add: peer_econ_fields(2) sample_econ_env_def time_freq_def)
  moreover have "ec_Ready start_econ" by (simp add: start_econ_value)
  ultimately have "Econ_Update sample_econ_env (Some sample_peer) (\<lambda>_. Would_block) start_econ = Some (peer_econ cl [] w (?srv 2))"
    using w(1) u l by (simp add: Econ_Update_def console_Update_def)
  then show ?thesis using w(2) by blast
qed

section \<open>Properties\<close>

text \<open>
  C18: The external console returns from each tick in every state it can get into, whatever the clients send
  and whichever sockets fail, if a call that sends makes progress or fails: no loop runs forever, and no line
  comes from a slot without a client. A slot is in use exactly as long as it has a client.
\<close>

theorem econ_operations_return:
  assumes "econ_reaches L s" "consoles_ok L e" "econ_allowed L s op"
  shows "\<exists>s'. econ_do e op s = Some s' \<and> econ_reaches L s' \<and>
    (\<forall>i < 4. (cn_State (econ_slot s' i) = OFFLINE) = (ec_State (econ_client s' i) = ECON_EMPTY))"
proof -
  obtain s' where s': "econ_do e op s = Some s'" "econ_inv L s'"
    using econ_do_returns [OF econ_reaches_inv [OF assms(1)] assms(2,3)] by (auto simp: returns_def)
  then show ?thesis using econ_reaches.step [OF assms s'(1)] by (auto simp: econ_inv_def slot_ok_def)
qed

theorem econ_operations_return_witness:
  "\<exists>s'. Econ_Update sample_econ_env (Some sample_peer) (\<lambda>_. Failed) start_econ = Some s' \<and> econ_reaches 2 s'"
proof -
  have "econ_allowed 2 start_econ (Econ_tick (Some sample_peer) (\<lambda>_. Failed))"
    by (simp add: sample_peer_def valid_addr_def zero_addr_def)
  from econ_operations_return [OF start_econ_reached sample_econ_ok this] show ?thesis by auto
qed

text \<open>
  C19: A client of the external console is let in by no tick unless a complete line of what it has sent, with
  control characters blanked, is the password.
\<close>

theorem econ_rights_need_password:
  assumes "econ_reaches L s" "consoles_ok L e" "econ_allowed L s (Econ_tick a r)" "Econ_Update e a r s = Some s'"
    and "j < 4" "\<not> authed s j" "authed s' j"
  shows "\<exists>s1. console_Update e a r s = Some s1 \<and> (\<exists>raw \<in> pending s1 j. passes e raw)"
proof -
  have "\<forall>x. a = Some x \<longrightarrow> valid_addr (ac_Addr x)" using assms(3) by auto
  from Econ_Update_returns [OF _ econ_reaches_inv [OF assms(1)] this, of e r] assms(2,4-7)
  show ?thesis by (auto simp: consoles_ok_def returns_def)
qed

lemma recv_slots_clients: "recv_slots M is s = (res, s') \<Longrightarrow> ec_aClients s' = ec_aClients s"
  by (induction "is" arbitrary: s) (auto simp: set_econ_slot_def split: if_splits prod.splits option.splits)

lemma no_timeouts: "\<forall>i \<in> set is. ec_State (econ_client s i) \<noteq> ECON_CONNECTED \<Longrightarrow> econ_timeouts e is s = Some s"
  by (induction "is") simp_all

definition sample_connected :: CEconClient where
  "sample_connected = \<lparr>ec_State = ECON_CONNECTED, ec_TimeConnected = 0, ec_AuthTries = 0\<rparr>"

lemma sample_connected_reached:
  obtains w srv where "econ_reaches 2 (peer_econ sample_connected [] w srv)" "t_Send w = (\<lambda>_. 2000)"
proof -
  obtain w n where u: "Econ_Update sample_econ_env (Some sample_peer) (\<lambda>_. Would_block) start_econ =
     Some (peer_econ sample_connected [] w (start_engine\<lparr>s_World := quiet_net\<lparr>n_Ticks := n\<rparr>\<rparr>))" "t_Send w = (\<lambda>_. 2000)"
    using sample_ticks [OF sample_connected_def] by auto
  have "econ_allowed 2 start_econ (Econ_tick (Some sample_peer) (\<lambda>_. Would_block))"
    by (simp add: sample_peer_def valid_addr_def zero_addr_def)
  from econ_reaches.step [OF start_econ_reached sample_econ_ok this] u that show ?thesis by simp
qed

lemma sample_login:
  assumes "t_Send w = (\<lambda>_. 2000)" "r = (\<lambda>i. if i = (0 :: nat) then Received [112, 119, 10] else Would_block)"
  shows "\<exists>s'. Econ_Update sample_econ_env None r (peer_econ sample_connected [] w srv) = Some s' \<and> authed s' 0"
proof -
  let ?s = "peer_econ sample_connected [] w srv" and ?s1 = "peer_econ sample_connected [112, 119, 10] w srv"
  let ?cl = "sample_connected\<lparr>ec_State := ECON_AUTHED\<rparr>"
  have four: "[0..<NET_MAX_CONSOLE_CLIENTS] = 0 # [1, 2, 3]" by (simp add: upt_rec)
  have came: "cn_Update (r 0) (sample_slot []) = sample_slot [112, 119, 10]"
    by (simp add: assms(2) cn_Update_def sample_slot_def offline_conn_def)
  have "update_consoles sample_econ_env r [1, 2, 3] ?s1 = Some ?s1"
    by (rule quiet_slots) (simp add: peer_econ_fields assms(2) cn_Update_def offline_conn_def)
  then have u: "console_Update sample_econ_env None r ?s = Some ?s1"
    unfolding console_Update_def four using came
    by (simp add: peer_econ_fields peer_econ_update Let_def) (simp add: sample_slot_def)
  have line: "cn_Recv (NET_MAX_PACKETSIZE - 1) (sample_slot [112, 119, 10]) = (Some [112, 119], sample_slot [10])"
    by (simp add: cn_Recv_def next_line_def sample_slot_def offline_conn_def is_eol_def detect_line_ending_def str_sanitize_cc_def c_string_def
        str_utf8_check.simps Let_def)
  have "console_Recv (NET_MAX_PACKETSIZE - 1) ?s1 = (Some (0, [112, 119]), peer_econ sample_connected [10] w srv)"
    unfolding console_Recv_def four using line
    by (simp add: peer_econ_fields peer_econ_update) (simp add: sample_slot_def)
  moreover obtain w' where w': "econ_line sample_econ_env 0 [112, 119] (peer_econ sample_connected [10] w srv) = Some (peer_econ ?cl [10] w' srv)"
  proof -
    obtain w' where "console_Send 0 (bytes_of ''Authentication successful. External console access granted.'') (peer_econ ?cl [10] w srv) =
        Some (peer_econ ?cl [10] w' srv)" using peer_econ_send [OF assms(1)] by blast
    moreover have "ec_State sample_connected = ECON_CONNECTED" "ee_Password sample_econ_env = [112, 119]" "ee_Log sample_econ_env = (\<lambda>_. None)"
      by (simp_all add: sample_connected_def sample_econ_env_def)
    ultimately show thesis using that by (simp add: econ_line_def econ_password_def econ_Print_def peer_econ_fields peer_econ_update)
  qed
  moreover obtain s2 where s2: "console_Recv (NET_MAX_PACKETSIZE - 1) (peer_econ ?cl [10] w' srv) = (None, s2)"
  proof -
    let ?p = "peer_econ ?cl [10] w' srv"
    obtain c where c: "cn_Recv (NET_MAX_PACKETSIZE - 1) (sample_slot [10]) = (None, c)"
      by (simp add: cn_Recv_def next_line_def sample_slot_def offline_conn_def is_eol_def Let_def)
    have "econ_slot (set_econ_slot 0 c ?p) i = offline_conn" if "i \<in> set [1, 2, 3]" for i
    proof -
      have "econ_slot (set_econ_slot 0 c ?p) i = econ_slot ?p i" using that by (auto simp: econ_slot_def set_econ_slot_def)
      then show ?thesis using peer_econ_fields(3) [of i] that by auto
    qed
    then have "recv_slots (NET_MAX_PACKETSIZE - 1) [1, 2, 3] (set_econ_slot 0 c ?p) = (None, set_econ_slot 0 c ?p)"
      by (intro empty_slots ballI) (simp add: offline_conn_def)
    moreover have "cn_State (sample_slot [10]) = ONLINE" by (simp add: sample_slot_def)
    ultimately show thesis using that c unfolding console_Recv_def four by (simp add: peer_econ_fields(1))
  qed
  ultimately have l: "econ_lines sample_econ_env ?s1 = Some s2"
    by (subst econ_lines.simps) (simp add: econ_lines.simps [of _ "peer_econ ?cl [10] w' srv"])
  have cl: "econ_client s2 i = econ_client (peer_econ ?cl [10] w' srv) i" for i
    using recv_slots_clients [OF s2 [unfolded console_Recv_def]] by (simp add: econ_client_def)
  have "econ_timeouts sample_econ_env [0..<NET_MAX_CONSOLE_CLIENTS] s2 = Some s2"
  proof (rule no_timeouts, rule ballI)
    fix i assume "i \<in> set [0..<NET_MAX_CONSOLE_CLIENTS]"
    then show "ec_State (econ_client s2 i) \<noteq> ECON_CONNECTED" by (cases "i = 0") (simp_all add: cl peer_econ_fields)
  qed
  then have "Econ_Update sample_econ_env None r ?s = Some s2" using u l by (simp add: Econ_Update_def peer_econ_fields)
  moreover have "authed s2 0" by (simp add: authed_def cl peer_econ_fields)
  ultimately show ?thesis by blast
qed

theorem econ_rights_need_password_witness:
  "\<exists>s r s' s1 raw. Econ_Update sample_econ_env None r s = Some s' \<and> \<not> authed s 0 \<and> authed s' 0 \<and>
     console_Update sample_econ_env None r s = Some s1 \<and> raw \<in> pending s1 0 \<and> passes sample_econ_env raw"
proof -
  obtain w srv where s: "econ_reaches 2 (peer_econ sample_connected [] w srv)" "t_Send w = (\<lambda>_. 2000)" by (rule sample_connected_reached)
  define r where "r = (\<lambda>i. if i = (0 :: nat) then Received [112, 119, 10] else Would_block)"
  obtain s' where s': "Econ_Update sample_econ_env None r (peer_econ sample_connected [] w srv) = Some s'" "authed s' 0"
    using sample_login [OF s(2) r_def] by blast
  have no: "\<not> authed (peer_econ sample_connected [] w srv) 0" by (simp add: authed_def peer_econ_fields sample_connected_def)
  have "econ_allowed 2 (peer_econ sample_connected [] w srv) (Econ_tick None r)" "(0 :: nat) < 4" by simp_all
  from econ_rights_need_password [OF s(1) sample_econ_ok this(1) s'(1) this(2) no s'(2)] s' no show ?thesis by blast
qed

text \<open>
  C34: With a ban time a client that has used up its tries is not dropped: its address is banned, which keeps
  new connections out, but the client stays, and the password still lets it in.
\<close>

theorem banned_guesser_stays:
  assumes "econ_inv L s" "i < 4" "ec_State (econ_client s i) = ECON_CONNECTED" "pLine \<noteq> ee_Password e" "ee_Bantime e \<noteq> 0"
  shows "\<exists>s1 s2. econ_line e i pLine s = Some s1 \<and>
    (ec_AuthTries (econ_client s i) + 1 \<ge> MAX_AUTH_TRIES \<longrightarrow>
      (\<exists>r. server_BanAddr (ee_Srv e) (cn_PeerAddr (econ_slot s i)) (ee_Bantime e * 60) (bytes_of ''Too many authentication tries'') False
        (ec_Server s) = Some (r, ec_Server s1))) \<and>
    ec_State (econ_client s1 i) = ECON_CONNECTED \<and> cn_State (econ_slot s1 i) \<noteq> OFFLINE \<and>
    econ_line e i (ee_Password e) s1 = Some s2 \<and> authed s2 i"
proof -
  let ?s = "set_econ_client i (\<lambda>c. c\<lparr>ec_AuthTries := ec_AuthTries c + 1\<rparr>) s"
  have len: "length (ec_aClients s) = 4" "length (ec_Slots s) = 4" "sends_progress (ec_Tcp s)" "srv_inv L (ec_Server s)"
    "slot_ok (econ_client s i) (econ_slot s i)" using assms(1,2) by (simp_all add: econ_inv_def)
  have one: "econ_client ?s i = (econ_client s i)\<lparr>ec_AuthTries := ec_AuthTries (econ_client s i) + 1\<rparr>" "econ_slot ?s i = econ_slot s i"
    "ec_Server ?s = ec_Server s" "ec_Tcp ?s = ec_Tcp s" "ec_Slots ?s = ec_Slots s"
    using len(1) assms(2) by (simp_all add: set_econ_client_def econ_client_def econ_slot_def)
  obtain x where x: "console_Send i (bytes_of (''Wrong password '' @ decimal (ec_AuthTries (econ_client ?s i)) @ ''/'' @
      decimal MAX_AUTH_TRIES @ ''.'')) ?s = Some x" "only_sent ?s x"
    using console_Send_returns [of ?s i] len assms(2) one(4,5) by (auto simp: returns_def)
  note f = only_sent_fields [OF x(2)]
  have slot: "cn_PeerAddr (econ_slot x i) = cn_PeerAddr (econ_slot s i)" "cn_State (econ_slot x i) \<noteq> OFFLINE"
    using sent_slot_same [OF f(7) [of i]] one(2,5) len(2,5) assms(2,3) by (simp_all add: slot_ok_def)
  have v: "valid_addr (cn_PeerAddr (econ_slot s i))" using len(5) assms(3) by (simp add: slot_ok_def)
  obtain r srv where b: "server_BanAddr (ee_Srv e) (cn_PeerAddr (econ_slot s i)) (ee_Bantime e * 60)
      (bytes_of ''Too many authentication tries'') False (ec_Server s) = Some (r, srv)" "srv_inv L srv"
    using server_BanAddr_returns [OF len(4) v, of "ee_Srv e" "ee_Bantime e * 60" "bytes_of ''Too many authentication tries''" False]
    unfolding returns_def fine_def by (metis surjective_pairing)
  define s1 where "s1 = (if ec_AuthTries (econ_client s i) + 1 \<ge> MAX_AUTH_TRIES then x\<lparr>ec_Server := srv\<rparr> else x)"
  have l: "econ_line e i pLine s = Some s1"
    using assms(3-5) x(1) one(1) slot(1) f(2) one(3) b(1) by (simp add: econ_line_def econ_password_def s1_def Let_def)
  have s1: "econ_client s1 i = econ_client ?s i" "cn_State (econ_slot s1 i) \<noteq> OFFLINE" "ec_aClients s1 = ec_aClients ?s"
    "sends_progress (ec_Tcp s1)" "length (ec_Slots s1) = 4"
    using f(1,4,8) slot(2) sends_progress_sent [OF x(2)] one(4,5) len(2,3) by (simp_all add: s1_def econ_client_def econ_slot_def)
  let ?s2 = "set_econ_client i (\<lambda>c. c\<lparr>ec_State := ECON_AUTHED\<rparr>) s1"
  have s2: "sends_progress (ec_Tcp ?s2)" "length (ec_Slots ?s2) = 4" "authed ?s2 i"
    using s1(3-5) len(1) assms(2) by (simp_all add: set_econ_client_def authed_def econ_client_def)
  have "returns (only_sent ?s2) (Option.bind (console_Send i (bytes_of ''Authentication successful. External console access granted.'') ?s2)
      (econ_Print e (Log_authed i)))"
    by (rule only_sent_then) (use s2 assms(2) in \<open>auto intro!: console_Send_returns econ_Print_returns
      dest: sends_progress_sent only_sent_fields(4)\<close>)
  then obtain y where y: "econ_line e i (ee_Password e) s1 = Some y" "only_sent ?s2 y"
    using s1(1) one(1) assms(3) by (auto simp: econ_line_def econ_password_def returns_def)
  have "authed y i" using only_sent_fields(8) [OF y(2)] s2(3) by (simp add: authed_def)
  then show ?thesis using l y(1) s1(1,2) one(1) assms(3) b(1) by (auto simp: s1_def)
qed

theorem banned_guesser_stays_witness:
  "\<exists>s s1 s2. econ_line sample_econ_env 0 [120] s = Some s1 \<and> ec_AuthTries (econ_client s 0) = 2 \<and>
     cn_State (econ_slot s1 0) \<noteq> OFFLINE \<and> econ_line sample_econ_env 0 [112, 119] s1 = Some s2 \<and> authed s2 0"
proof -
  obtain w srv where s: "econ_reaches 2 (peer_econ sample_connected [] w srv)" by (rule sample_connected_reached)
  let ?f = "\<lambda>c. c\<lparr>ec_AuthTries := 2 :: int\<rparr>"
  let ?s = "peer_econ (?f sample_connected) [] w srv"
  have "settles 2 (\<lambda>_. False) (peer_econ sample_connected [] w srv) (set_econ_client 0 ?f (peer_econ sample_connected [] w srv))"
    by (rule client_settles [OF econ_reaches_inv [OF s]]) (simp_all add: peer_econ_fields sample_connected_def)
  then have "econ_inv 2 ?s" by (simp add: peer_econ_update settles_def)
  from banned_guesser_stays [OF this, of 0 "[120]" sample_econ_env]
  obtain s1 s2 where "econ_line sample_econ_env 0 [120] ?s = Some s1" "cn_State (econ_slot s1 0) \<noteq> OFFLINE"
    "econ_line sample_econ_env 0 (ee_Password sample_econ_env) s1 = Some s2" "authed s2 0"
    by (auto simp: peer_econ_fields sample_connected_def sample_econ_env_def)
  then show ?thesis by (intro exI [of _ ?s] exI [of _ s1] exI [of _ s2]) (simp add: peer_econ_fields sample_econ_env_def)
qed

end
