(* ===== verification/Console.thy ===== *)
theory Console
  imports NetConn
begin

text \<open>
  The console of \<^verbatim>\<open>src/src/engine/shared/console.cpp\<close>: the list of commands, the parsing of a line into
  commands and their arguments, and the execution. What the commands do is a parameter, but for those of the
  console itself. Strings are the bytes before the terminating zero.
\<close>

section \<open>Strings\<close>

definition str_isspace :: "u8 \<Rightarrow> bool" where
  "str_isspace c \<longleftrightarrow> c = 32 \<or> c = 10 \<or> c = 13 \<or> c = 9"

definition str_isnum :: "u8 \<Rightarrow> bool" where
  "str_isnum c \<longleftrightarrow> 48 \<le> c \<and> c \<le> 57"

definition str_skip_whitespaces :: "u8 list \<Rightarrow> u8 list" where
  "str_skip_whitespaces = dropWhile str_isspace"

text \<open>\<open>strcasecmp\<close> without a locale.\<close>

definition to_lower :: "u8 \<Rightarrow> u8" where
  "to_lower c = (if 65 \<le> c \<and> c \<le> 90 then c + 32 else c)"

definition same_nocase :: "u8 list \<Rightarrow> u8 list \<Rightarrow> bool" where
  "same_nocase a b \<longleftrightarrow> map to_lower a = map to_lower b"

text \<open>\<open>strcmp\<close>: whether \<open>a\<close> is at most \<open>b\<close>.\<close>

fun str_le :: "u8 list \<Rightarrow> u8 list \<Rightarrow> bool" where
  "str_le [] b = True"
| "str_le (x # a) [] = False"
| "str_le (x # a) (y # b) = (x < y \<or> x = y \<and> str_le a b)"

text \<open>\<open>strtol\<close> with base 10: the number, limited to 64 bits, and what follows it.\<close>

definition digits_value :: "u8 list \<Rightarrow> int" where
  "digits_value = foldl (\<lambda>n d. n * 10 + (uint d - 48)) 0"

definition strtol :: "u8 list \<Rightarrow> int \<times> u8 list" where
  "strtol str =
     (let s = dropWhile (\<lambda>c. c = 32 \<or> 9 \<le> c \<and> c \<le> 13) str;
          neg = (s \<noteq> [] \<and> hd s = 45);
          s = (if s \<noteq> [] \<and> (hd s = 45 \<or> hd s = 43) then tl s else s);
          ds = takeWhile str_isnum s
      in if ds = [] then (0, str)
         else (max (- (2 ^ 63)) (min (2 ^ 63 - 1) (if neg then - digits_value ds else digits_value ds)), drop (length ds) s))"

definition str_toint :: "u8 list \<Rightarrow> int" where
  "str_toint str = sint (word_of_int (fst (strtol str)) :: i32)"

text \<open>With a check: \<open>None\<close> if something follows the number.\<close>

definition str_toint_checked :: "u8 list \<Rightarrow> int option" where
  "str_toint_checked str = (if snd (strtol str) = [] then Some (str_toint str) else None)"

text \<open>Escaping, with as many bytes of room as \<open>end - dst\<close>.\<close>

fun str_escape :: "nat \<Rightarrow> u8 list \<Rightarrow> u8 list" where
  "str_escape room [] = []"
| "str_escape room (c # src) =
     (if room \<le> 1 then []
      else if c = 34 \<or> c = 92
      then if 2 < room then 92 # c # str_escape (room - 2) src else []
      else c # str_escape (room - 1) src)"

section \<open>Commands\<close>

text \<open>
  A function with its user data, or one that is chained before another; a temporary command has none.
\<close>

datatype con_callback = No_callback | Callback nat | Con_Chain nat con_callback

record CCommand =
  cm_Id :: nat
  cm_Name :: "u8 list"
  cm_Help :: "u8 list"
  cm_Params :: "u8 list"
  cm_AccessLevel :: int
  cm_Flags :: i32
  cm_Temp :: bool
  cm_Callback :: con_callback

fun TraverseChain :: "con_callback \<Rightarrow> con_callback" where
  "TraverseChain (Con_Chain _ c) = TraverseChain c"
| "TraverseChain c = c"

definition ACCESS_LEVEL_ADMIN :: int where "ACCESS_LEVEL_ADMIN = 0"
definition ACCESS_LEVEL_HELPER :: int where "ACCESS_LEVEL_HELPER = 2"
definition ACCESS_LEVEL_USER :: int where "ACCESS_LEVEL_USER = 3"

definition CFGFLAG_CLIENT :: i32 where "CFGFLAG_CLIENT = 2"
definition CFGFLAG_SERVER :: i32 where "CFGFLAG_SERVER = 4"
definition CFGFLAG_STORE :: i32 where "CFGFLAG_STORE = 8"
definition CMDFLAG_TEST :: i32 where "CMDFLAG_TEST = 64"
definition CFGFLAG_CHAT :: i32 where "CFGFLAG_CHAT = 128"
definition CFGFLAG_GAME :: i32 where "CFGFLAG_GAME = 256"
definition CFGFLAG_NONTEEHISTORIC :: i32 where "CFGFLAG_NONTEEHISTORIC = 512"

definition has_flag :: "CCommand \<Rightarrow> i32 \<Rightarrow> bool" where
  "has_flag c FlagMask \<longleftrightarrow> cm_Flags c AND FlagMask \<noteq> 0"

definition clamp_level :: "int \<Rightarrow> int" where
  "clamp_level lvl = max ACCESS_LEVEL_ADMIN (min ACCESS_LEVEL_USER lvl)"

section \<open>The arguments of a command\<close>

definition VICTIM_NONE :: int where "VICTIM_NONE = -3"
definition VICTIM_ME :: int where "VICTIM_ME = -2"
definition VICTIM_ALL :: int where "VICTIM_ALL = -1"

record CResult =
  cr_ClientId :: int
  cr_Command :: "u8 list"
  cr_ArgsStart :: "u8 list"
  cr_Args :: "u8 list list"
  cr_Victim :: int

definition AddArgument :: "u8 list \<Rightarrow> CResult \<Rightarrow> CResult" where
  "AddArgument pArg r = r\<lparr>cr_Args := cr_Args r @ [pArg]\<rparr>"

text \<open>\<open>None\<close> is the failed assertion.\<close>

definition RemoveArgument :: "nat \<Rightarrow> CResult \<Rightarrow> CResult option" where
  "RemoveArgument Index r =
     (if Index < length (cr_Args r) then Some (r\<lparr>cr_Args := take Index (cr_Args r) @ drop (Suc Index) (cr_Args r)\<rparr>) else None)"

definition Result_GetString :: "nat \<Rightarrow> CResult \<Rightarrow> u8 list" where
  "Result_GetString Index r = (if Index \<ge> length (cr_Args r) then [] else cr_Args r ! Index)"

definition Result_GetInteger :: "nat \<Rightarrow> CResult \<Rightarrow> int" where
  "Result_GetInteger Index r = (if Index \<ge> length (cr_Args r) then 0 else str_toint (cr_Args r ! Index))"

definition SetVictim :: "int \<Rightarrow> CResult \<Rightarrow> CResult" where
  "SetVictim Victim r = r\<lparr>cr_Victim := max VICTIM_NONE (min 127 Victim)\<rparr>"

definition SetVictim_string :: "u8 list \<Rightarrow> CResult \<Rightarrow> CResult" where
  "SetVictim_string pVictim r = r\<lparr>cr_Victim :=
     (if pVictim = bytes_of ''me'' then VICTIM_ME
      else if pVictim = bytes_of ''all'' then VICTIM_ALL
      else max 0 (min 127 (str_toint pVictim)))\<rparr>"

definition CONSOLE_MAX_STR_LENGTH :: nat where "CONSOLE_MAX_STR_LENGTH = 8192"

text \<open>The command is the first word.\<close>

definition ParseStart :: "u8 list \<Rightarrow> nat \<Rightarrow> CResult \<Rightarrow> CResult" where
  "ParseStart pString Length r =
     (let s = str_skip_whitespaces (str_copy pString (min Length (CONSOLE_MAX_STR_LENGTH + 1)));
          cmd = takeWhile (\<lambda>c. \<not> str_isspace c) s
      in r\<lparr>cr_Command := cmd, cr_ArgsStart := drop (Suc (length cmd)) s\<rparr>)"

text \<open>The next letter of a format, and what follows it; descriptions in brackets are skipped.\<close>

definition NextParam :: "u8 list \<Rightarrow> u8 list" where
  "NextParam pFormat =
     (let f = tl pFormat
      in if f \<noteq> [] \<and> hd f = 91
         then let g = dropWhile (\<lambda>c. c \<noteq> 93) f
              in if g = [] then [] else if tl g \<noteq> [] \<and> hd (tl g) = 32 then tl (tl g) else tl g
         else f)"

lemma NextParam_shorter: "f \<noteq> [] \<Longrightarrow> length (NextParam f) < length f"
proof -
  assume "f \<noteq> []"
  moreover have "length (dropWhile (\<lambda>c. c \<noteq> 93) (tl f)) \<le> length (tl f)" by (rule length_dropWhile_le)
  ultimately show ?thesis by (cases f) (auto simp: NextParam_def Let_def)
qed

function has_victim_param :: "u8 list \<Rightarrow> bool" where
  "has_victim_param f = (if f = [] then False else if hd f = 118 then True else has_victim_param (NextParam f))"
  by pat_completeness auto
termination by (relation "measure length") (simp_all add: NextParam_shorter)

declare has_victim_param.simps [simp del]

text \<open>
  A token in quotation marks, behind the first one, with its escapes undone, and what follows it; \<open>None\<close> if it
  does not end.
\<close>

fun parse_quoted :: "u8 list \<Rightarrow> u8 list \<Rightarrow> (u8 list \<times> u8 list) option" where
  "parse_quoted dst [] = None"
| "parse_quoted dst (c # s) =
     (if c = 34 then Some (dst, s)
      else if c = 92 \<and> s \<noteq> [] \<and> (hd s = 92 \<or> hd s = 34) then parse_quoted (dst @ [hd s]) (tl s)
      else parse_quoted (dst @ [c]) s)"

datatype parse_error = PARSEARGS_OK | PARSEARGS_MISSING_VALUE | PARSEARGS_INVALID_INTEGER | PARSEARGS_INVALID_FLOAT

definition valid_integer :: "u8 list \<Rightarrow> bool" where
  "valid_integer a \<longleftrightarrow> (case str_toint_checked a of None \<Rightarrow> False | Some v \<Rightarrow> v \<noteq> 2 ^ 31 - 1 \<and> v \<noteq> - (2 ^ 31))"

text \<open>The console, the lines it has printed, and the rest of the program.\<close>

record 'w CConsole =
  con_FlagMask :: i32
  con_StoreCommands :: bool
  con_Commands :: "CCommand list"
  con_AccessLevel :: int
  con_Queue :: "(nat \<times> CResult) list"
  con_Cheated :: bool
  con_Recycle :: "CCommand list"
  con_Exec :: "u8 list list"
  con_Printed :: "u8 list list"
  con_World :: 'w

text \<open>
  What the functions need from outside: whether a string is a number that \<open>strtod\<close> reads to its end (with a
  value other than the limits of \<open>float\<close>), which callbacks are those of variables for colours, what a callback
  does, whether the callback for unknown commands has dealt with a line, the recorder of commands,
  \<open>sv_test_cmds\<close>, and the rest of the configuration that is printed. The value that \<open>m_Victim\<close> has in a copied
  result, which its constructor does not set, is unknown as well.
\<close>

record 'w cons_env =
  ce_Float :: "u8 list \<Rightarrow> bool"
  ce_Color :: "con_callback \<Rightarrow> bool"
  ce_Run :: "CCommand \<Rightarrow> CResult \<Rightarrow> 'w CConsole \<Rightarrow> 'w CConsole option"
  ce_Unknown :: "u8 list \<Rightarrow> 'w \<Rightarrow> bool \<times> 'w"
  ce_Record :: "int \<Rightarrow> i32 \<Rightarrow> u8 list \<Rightarrow> CResult \<Rightarrow> 'w \<Rightarrow> 'w"
  ce_TestCommands :: bool
  ce_Map :: "u8 list"
  ce_Unset :: int

text \<open>
  With \<open>PARSEARGS_MISSING_VALUE\<close> in a token that does not end the token is not among the arguments, which are
  not used then.
\<close>

function parse_args :: "'w cons_env \<Rightarrow> bool \<Rightarrow> u8 list \<Rightarrow> bool \<Rightarrow> u8 list \<Rightarrow> CResult \<Rightarrow> parse_error \<times> CResult" where
  "parse_args e IsColor f Optional pStr r =
     (if f = [] then (PARSEARGS_OK, r)
      else if hd f = 63 then parse_args e IsColor (NextParam f) True pStr r
      else let s = str_skip_whitespaces pStr
           in if s = []
              then if \<not> Optional then (PARSEARGS_MISSING_VALUE, r)
                   else (PARSEARGS_OK, if has_victim_param f then SetVictim VICTIM_ME r else r)
              else if hd s = 34
              then case parse_quoted [] (tl s) of
                     None \<Rightarrow> (PARSEARGS_MISSING_VALUE, r)
                   | Some (arg, rest) \<Rightarrow> parse_args e IsColor (NextParam f) Optional rest (AddArgument arg r)
              else if hd f = 114 then (PARSEARGS_OK, AddArgument s r)
              else let arg = (if hd f \<in> {118, 105, 102, 115} then takeWhile (\<lambda>c. \<not> str_isspace c) s else []);
                       r = AddArgument arg r
                   in if hd f = 105 \<and> \<not> IsColor \<and> \<not> valid_integer arg then (PARSEARGS_INVALID_INTEGER, r)
                      else if hd f = 102 \<and> \<not> ce_Float e arg then (PARSEARGS_INVALID_FLOAT, r)
                      else parse_args e IsColor (NextParam f) Optional (drop (Suc (length arg)) s)
                             (if hd f = 118 then SetVictim_string arg r else r))"
  by pat_completeness auto
termination
  by (relation "measure (\<lambda>(e, IsColor, f, Optional, pStr, r). length f)") (simp_all add: NextParam_shorter)

declare parse_args.simps [simp del]

definition ParseArgs :: "'w cons_env \<Rightarrow> bool \<Rightarrow> u8 list \<Rightarrow> CResult \<Rightarrow> parse_error \<times> CResult" where
  "ParseArgs e IsColor pFormat r = parse_args e IsColor pFormat False (cr_ArgsStart r) (r\<lparr>cr_Victim := VICTIM_NONE\<rparr>)"

section \<open>The list of commands\<close>

definition FindCommand :: "u8 list \<Rightarrow> i32 \<Rightarrow> CCommand list \<Rightarrow> CCommand option" where
  "FindCommand pName FlagMask cs = find (\<lambda>c. has_flag c FlagMask \<and> same_nocase (cm_Name c) pName) cs"

definition GetCommandInfo :: "u8 list \<Rightarrow> i32 \<Rightarrow> bool \<Rightarrow> CCommand list \<Rightarrow> CCommand option" where
  "GetCommandInfo pName FlagMask Temp cs =
     find (\<lambda>c. has_flag c FlagMask \<and> cm_Temp c = Temp \<and> same_nocase (cm_Name c) pName) cs"

definition con_FirstCommandInfo :: "int \<Rightarrow> i32 \<Rightarrow> CCommand list \<Rightarrow> CCommand option" where
  "con_FirstCommandInfo AccessLevel FlagMask cs = find (\<lambda>c. has_flag c FlagMask \<and> cm_AccessLevel c \<ge> AccessLevel) cs"

text \<open>The commands behind the given one.\<close>

definition con_NextCommandInfo :: "CCommand \<Rightarrow> int \<Rightarrow> i32 \<Rightarrow> CCommand list \<Rightarrow> CCommand option" where
  "con_NextCommandInfo cmd AccessLevel FlagMask cs =
     con_FirstCommandInfo AccessLevel FlagMask (tl (dropWhile (\<lambda>c. cm_Id c \<noteq> cm_Id cmd) cs))"

text \<open>In front of the first command whose name is not smaller, but behind the first of all.\<close>

fun insert_behind :: "CCommand \<Rightarrow> CCommand list \<Rightarrow> CCommand list" where
  "insert_behind c [] = [c]"
| "insert_behind c (d # cs) = (if str_le (cm_Name c) (cm_Name d) then c # d # cs else d # insert_behind c cs)"

definition AddCommandSorted :: "CCommand \<Rightarrow> CCommand list \<Rightarrow> CCommand list" where
  "AddCommandSorted c cs =
     (case cs of
        [] \<Rightarrow> [c]
      | d # ds \<Rightarrow> if str_le (cm_Name c) (cm_Name d) then (if ds \<noteq> [] then c # cs else [c]) else d # insert_behind c ds)"

definition update_command :: "nat \<Rightarrow> (CCommand \<Rightarrow> CCommand) \<Rightarrow> CCommand list \<Rightarrow> CCommand list" where
  "update_command i f = map (\<lambda>c. if cm_Id c = i then f c else c)"

text \<open>The name of a new object; the old object of a command is used again.\<close>

definition fresh_id :: "'w CConsole \<Rightarrow> nat" where
  "fresh_id con = Suc (Max (insert 0 (cm_Id ` (set (con_Commands con) \<union> set (con_Recycle con)) \<union> fst ` set (con_Queue con))))"

definition Register :: "u8 list \<Rightarrow> u8 list \<Rightarrow> i32 \<Rightarrow> con_callback \<Rightarrow> u8 list \<Rightarrow> 'w CConsole \<Rightarrow> 'w CConsole" where
  "Register pName pParams Flags pfnFunc pHelp con =
     (let set_fields = (\<lambda>c. c\<lparr>cm_Callback := pfnFunc, cm_Name := pName, cm_Help := pHelp, cm_Params := pParams, cm_Flags := Flags,
              cm_Temp := False, cm_AccessLevel := (if Flags AND CFGFLAG_CHAT \<noteq> 0 then ACCESS_LEVEL_USER else cm_AccessLevel c)\<rparr>)
      in con\<lparr>con_Commands :=
           (case FindCommand pName Flags (con_Commands con) of
              Some c \<Rightarrow> update_command (cm_Id c) set_fields (con_Commands con)
            | None \<Rightarrow> AddCommandSorted (set_fields
                 \<lparr>cm_Id = fresh_id con, cm_Name = [], cm_Help = [], cm_Params = [], cm_AccessLevel = ACCESS_LEVEL_ADMIN, cm_Flags = 0,
                  cm_Temp = False, cm_Callback = No_callback\<rparr>) (con_Commands con))\<rparr>)"

text \<open>A temporary command is completed only; its object comes from the recycled ones, with their access level, if there are any.\<close>

definition RegisterTemp :: "u8 list \<Rightarrow> u8 list \<Rightarrow> i32 \<Rightarrow> u8 list \<Rightarrow> 'w CConsole \<Rightarrow> 'w CConsole" where
  "RegisterTemp pName pParams Flags pHelp con =
     (let (c, recycle) =
            (case con_Recycle con of
               r # rs \<Rightarrow> (r, rs)
             | [] \<Rightarrow> (\<lparr>cm_Id = fresh_id con, cm_Name = [], cm_Help = [], cm_Params = [], cm_AccessLevel = ACCESS_LEVEL_ADMIN, cm_Flags = 0,
                        cm_Temp = True, cm_Callback = No_callback\<rparr>, []));
          c = c\<lparr>cm_Name := str_copy pName 64, cm_Help := str_copy pHelp 192, cm_Params := str_copy pParams 96,
                cm_Callback := No_callback, cm_Flags := Flags, cm_Temp := True\<rparr>
      in con\<lparr>con_Recycle := recycle, con_Commands := AddCommandSorted c (con_Commands con)\<rparr>)"

fun remove_temp :: "u8 list \<Rightarrow> CCommand list \<Rightarrow> CCommand option \<times> CCommand list" where
  "remove_temp pName [] = (None, [])"
| "remove_temp pName (c # cs) =
     (if cm_Temp c \<and> cm_Name c = pName then (Some c, cs)
      else let (r, cs) = remove_temp pName cs in (r, c # cs))"

definition DeregisterTemp :: "u8 list \<Rightarrow> 'w CConsole \<Rightarrow> 'w CConsole" where
  "DeregisterTemp pName con =
     (case remove_temp pName (con_Commands con) of
        (Some c, cs) \<Rightarrow> con\<lparr>con_Commands := cs, con_Recycle := c # con_Recycle con\<rparr>
      | (None, _) \<Rightarrow> con)"

text \<open>The first loop, then the one behind the first command that stays.\<close>

function drop_temps :: "CCommand list \<Rightarrow> CCommand list" where
  "drop_temps [] = []"
| "drop_temps (c # cs) = c # drop_temps (dropWhile cm_Temp cs)"
  by pat_completeness auto
termination by (relation "measure length") (simp_all add: le_imp_less_Suc length_dropWhile_le)

definition DeregisterTempAll :: "'w CConsole \<Rightarrow> 'w CConsole" where
  "DeregisterTempAll con = con\<lparr>con_Commands := drop_temps (dropWhile cm_Temp (con_Commands con)), con_Recycle := []\<rparr>"

definition con_Print :: "u8 list \<Rightarrow> 'w CConsole \<Rightarrow> 'w CConsole" where
  "con_Print pStr con = con\<lparr>con_Printed := con_Printed con @ [pStr]\<rparr>"

text \<open>A text with a string between apostrophes, made by \<open>str_format\<close> in a buffer of some size.\<close>

definition cites :: "nat \<Rightarrow> string \<Rightarrow> u8 list \<Rightarrow> string \<Rightarrow> u8 list" where
  "cites n before s behind = str_copy (bytes_of before @ [39] @ s @ [39] @ bytes_of behind) n"

definition Chain :: "u8 list \<Rightarrow> nat \<Rightarrow> 'w CConsole \<Rightarrow> 'w CConsole" where
  "Chain pName pfnChainFunc con =
     (case FindCommand pName (con_FlagMask con) (con_Commands con) of
        None \<Rightarrow> con_Print (cites 256 ''failed to chain '' pName []) con
      | Some c \<Rightarrow> con\<lparr>con_Commands :=
          update_command (cm_Id c) (\<lambda>c. c\<lparr>cm_Callback := Con_Chain pfnChainFunc (cm_Callback c)\<rparr>) (con_Commands con)\<rparr>)"

definition con_SetAccessLevel :: "int \<Rightarrow> 'w CConsole \<Rightarrow> 'w CConsole" where
  "con_SetAccessLevel AccessLevel con = con\<lparr>con_AccessLevel := clamp_level AccessLevel\<rparr>"

text \<open>\<open>access_level\<close>: the level of a command of the server, which is set or only printed.\<close>

definition ConCommandAccess :: "CResult \<Rightarrow> 'w CConsole \<Rightarrow> 'w CConsole" where
  "ConCommandAccess r con =
     (let name = Result_GetString 0 r in
      case FindCommand name CFGFLAG_SERVER (con_Commands con) of
        Some c \<Rightarrow>
          let setting = (length (cr_Args r) = 2);
              lvl = (if setting then clamp_level (Result_GetInteger 1 r) else cm_AccessLevel c);
              says = (\<lambda>who on. cites 576 (who @ '' access for '')  name
                       (if setting then if on then '' is now enabled'' else '' is now disabled'' else if on then '' is enabled'' else '' is disabled''))
          in con_Print (says ''user'' (lvl \<ge> ACCESS_LEVEL_USER))
               (con_Print (says ''helper'' (lvl \<ge> ACCESS_LEVEL_HELPER))
                 (con_Print (says ''moderator'' (lvl \<noteq> 0))
                   (con\<lparr>con_Commands := update_command (cm_Id c) (\<lambda>c. c\<lparr>cm_AccessLevel := lvl\<rparr>) (con_Commands con)\<rparr>)))
      | None \<Rightarrow> con_Print (cites 576 ''No such command: '' name ''.'') con)"

text \<open>\<open>access_status\<close> and \<open>cmdlist\<close>: the names of the commands of a level, in lines of at most 239 bytes.\<close>

fun status_lines :: "u8 list list \<Rightarrow> u8 list \<Rightarrow> nat \<Rightarrow> u8 list list" where
  "status_lines [] aBuf Used = (if Used > 0 then [aBuf] else [])"
| "status_lines (name # names) aBuf Used =
     (if Used + length name + 2 < 240
      then if Used > 0 then status_lines names (aBuf @ [44, 32] @ name) (Used + 2 + length name)
           else status_lines names (aBuf @ name) (length name)
      else aBuf # status_lines names (str_copy name 240) (length name))"

definition ConCommandStatus :: "CResult \<Rightarrow> 'w CConsole \<Rightarrow> 'w CConsole" where
  "ConCommandStatus r con =
     fold con_Print
       (status_lines (map cm_Name (filter (\<lambda>c. has_flag c (con_FlagMask con) \<and> cm_AccessLevel c \<ge> clamp_level (Result_GetInteger 0 r)) (con_Commands con))) [] 0)
       con"

definition ConUserCommandStatus :: "CResult \<Rightarrow> 'w CConsole \<Rightarrow> 'w CConsole" where
  "ConUserCommandStatus r con =
     ConCommandStatus \<lparr>cr_ClientId = cr_ClientId r, cr_Command = bytes_of ''access_status'', cr_ArgsStart = [], cr_Args = [[51]], cr_Victim = VICTIM_NONE\<rparr> con"

text \<open>The commands whose names contain a string, numbered.\<close>

definition contains_nocase :: "u8 list \<Rightarrow> u8 list \<Rightarrow> bool" where
  "contains_nocase haystack needle \<longleftrightarrow> list_ex (\<lambda>i. same_nocase (take (length needle) (drop i haystack)) needle) [0..<length haystack]"

definition PossibleCommands :: "u8 list \<Rightarrow> i32 \<Rightarrow> bool \<Rightarrow> 'w CConsole \<Rightarrow> (nat \<times> u8 list) list" where
  "PossibleCommands pStr FlagMask Temp con =
     List.enumerate 0 (map cm_Name (filter (\<lambda>c. has_flag c FlagMask \<and> cm_Temp c = Temp \<and> contains_nocase (cm_Name c) pStr) (con_Commands con)))"

section \<open>The execution of a line\<close>

text \<open>How long the command is that a line starts with, and what comes behind the semicolon.\<close>

fun command_end :: "bool \<Rightarrow> bool \<Rightarrow> u8 list \<Rightarrow> nat \<times> u8 list option" where
  "command_end Semicolons InString [] = (0, None)"
| "command_end Semicolons InString (c # s) =
     (if c = 34 then apfst Suc (command_end Semicolons (\<not> InString) s)
      else if c = 92
      then (case s of
              d # s' \<Rightarrow> if d = 34 then apfst (\<lambda>n. Suc (Suc n)) (command_end Semicolons InString s')
                       else apfst Suc (command_end Semicolons InString s)
            | [] \<Rightarrow> (1, None))
      else if \<not> InString \<and> Semicolons \<and> c = 59 then (0, Some s)
      else if \<not> InString \<and> Semicolons \<and> c = 35 then (0, None)
      else apfst Suc (command_end Semicolons InString s))"

lemma command_end_rest: "snd (command_end Semicolons InString s) = Some rest \<Longrightarrow> length rest < length s"
  by (induction Semicolons InString s rule: command_end.induct) (auto split: if_splits list.splits)

definition new_result :: "int \<Rightarrow> int \<Rightarrow> CResult" where
  "new_result Unset ClientId = \<lparr>cr_ClientId = ClientId, cr_Command = [], cr_ArgsStart = [], cr_Args = [], cr_Victim = Unset\<rparr>"

function LineIsValid :: "'w cons_env \<Rightarrow> 'w CConsole \<Rightarrow> u8 list \<Rightarrow> bool" where
  "LineIsValid e con pStr =
     (if pStr = [] then False
      else
        let r = ParseStart pStr (Suc (fst (command_end True False pStr))) (new_result (ce_Unset e) (-1))
        in case FindCommand (cr_Command r) (con_FlagMask con) (con_Commands con) of
             None \<Rightarrow> False
           | Some c \<Rightarrow>
               if fst (ParseArgs e False (cm_Params c) r) \<noteq> PARSEARGS_OK then False
               else case snd (command_end True False pStr) of
                      None \<Rightarrow> True
                    | Some s \<Rightarrow> if s = [] then True else LineIsValid e con s)"
  by pat_completeness auto
termination by (relation "measure (\<lambda>(e, con, pStr). length pStr)") (simp_all add: command_end_rest)

declare LineIsValid.simps [simp del]

fun run_victims :: "'w cons_env \<Rightarrow> CCommand \<Rightarrow> CResult \<Rightarrow> nat list \<Rightarrow> 'w CConsole \<Rightarrow> 'w CConsole option" where
  "run_victims e c r [] con = Some con"
| "run_victims e c r (i # is) con = Option.bind (ce_Run e c (SetVictim (int i) r) con) (run_victims e c r is)"

text \<open>
  What is done with a command whose arguments have been parsed; whether the line goes on. In front of the
  queue the result is copied, but not its victim.
\<close>

definition perform :: "'w cons_env \<Rightarrow> int \<Rightarrow> CCommand \<Rightarrow> CResult \<Rightarrow> 'w CConsole \<Rightarrow> (bool \<times> 'w CConsole) option" where
  "perform e ClientId c r con =
     (if con_StoreCommands con \<and> has_flag c CFGFLAG_STORE
      then Some (True, con\<lparr>con_Queue := con_Queue con @ [(cm_Id c, r\<lparr>cr_Victim := ce_Unset e\<rparr>)]\<rparr>)
      else if has_flag c CMDFLAG_TEST \<and> \<not> ce_TestCommands e
      then Some (False, con_Print (bytes_of ''Test commands aren'' @ [39] @ bytes_of ''t allowed, enable them with '' @ [39] @
             bytes_of ''sv_test_cmds 1'' @ [39] @ bytes_of '' in your initial config.'') con)
      else
        let con = (if has_flag c CFGFLAG_NONTEEHISTORIC then con
                   else con\<lparr>con_World := ce_Record e ClientId (con_FlagMask con) (cm_Name c) r (con_World con)\<rparr>);
            r = (if cr_Victim r = VICTIM_ME then SetVictim ClientId r else r)
        in map_option (\<lambda>con. (True, if has_flag c CMDFLAG_TEST then con\<lparr>con_Cheated := True\<rparr> else con))
             (if cr_Victim r = VICTIM_ALL then run_victims e c r [0..<128] con else ce_Run e c r con))"

definition parse_failure :: "parse_error \<Rightarrow> CCommand \<Rightarrow> CResult \<Rightarrow> u8 list" where
  "parse_failure error c r =
     (let a = Result_GetString (length (cr_Args r) - 1) r
      in str_copy
           (if error = PARSEARGS_INVALID_INTEGER then a @ bytes_of '' is not a valid integer.''
            else if error = PARSEARGS_INVALID_FLOAT then a @ bytes_of '' is not a valid decimal number.''
            else bytes_of ''Invalid arguments. Usage: '' @ cm_Name c @ [32] @ cm_Params c) 576)"

definition CLIENT_ID_GAME :: int where "CLIENT_ID_GAME = -2"
definition CLIENT_ID_NO_GAME :: int where "CLIENT_ID_NO_GAME = -3"

definition run_command :: "'w cons_env \<Rightarrow> bool \<Rightarrow> int \<Rightarrow> CCommand \<Rightarrow> CResult \<Rightarrow> 'w CConsole \<Rightarrow> (bool \<times> 'w CConsole) option" where
  "run_command e Stroke ClientId c r con =
     (let say = (\<lambda>s con. if Stroke then con_Print s con else con) in
      if ClientId = CLIENT_ID_GAME \<and> \<not> has_flag c CFGFLAG_GAME
      then Some (True, say (cites 576 ''Command '' (cr_Command r) '' cannot be executed from a map.'') con)
      else if ClientId = CLIENT_ID_NO_GAME \<and> has_flag c CFGFLAG_GAME
      then Some (True, say (str_copy (bytes_of ''Hint: Put the command in '' @ [39] @ ce_Map e @ bytes_of ''.cfg'' @ [39] @ bytes_of '' instead of '' @
                               [39] @ ce_Map e @ bytes_of ''.map.cfg'' @ [39, 32]) 576)
                         (say (cites 576 ''Command '' (cr_Command r) '' cannot be executed from a non-map config file.'') con))
      else if cm_AccessLevel c \<ge> con_AccessLevel con
      then
        let plus = (cr_Command r \<noteq> [] \<and> hd (cr_Command r) = 43);
            r = (if plus then AddArgument [if Stroke then 49 else 48] r else r)
        in if Stroke \<or> plus
           then
             let (error, r) = ParseArgs e (ce_Color e (TraverseChain (cm_Callback c))) (cm_Params c) r
             in if error \<noteq> PARSEARGS_OK then Some (True, con_Print (parse_failure error c r) con) else perform e ClientId c r con
           else Some (True, con)
      else Some (True, say (str_copy (bytes_of ''Access for command '' @ cr_Command r @ bytes_of '' denied.'') 544) con))"

definition unknown_command :: "'w cons_env \<Rightarrow> u8 list \<Rightarrow> u8 list \<Rightarrow> 'w CConsole \<Rightarrow> 'w CConsole" where
  "unknown_command e pStr cmd con =
     (let (handled, w) = ce_Unknown e pStr (con_World con); con = con\<lparr>con_World := w\<rparr>
      in if handled then con
         else con_Print (str_copy (bytes_of ''No such command: '' @ cmd @
                (if con_FlagMask con AND CFGFLAG_CHAT \<noteq> 0 then bytes_of ''. Use /cmdlist for a list of all commands.'' else bytes_of ''.'')) 544) con)"

function execute_parts :: "'w cons_env \<Rightarrow> bool \<Rightarrow> int \<Rightarrow> bool \<Rightarrow> u8 list \<Rightarrow> 'w CConsole \<Rightarrow> 'w CConsole option" where
  "execute_parts e Stroke ClientId Semicolons pStr con =
     (if pStr = [] then Some con
      else
        let r = ParseStart pStr (Suc (fst (command_end Semicolons False pStr))) (new_result (ce_Unset e) ClientId)
        in if cr_Command r = [] then Some con
           else
             let mask = (if ClientId = CLIENT_ID_GAME then con_FlagMask con OR CFGFLAG_GAME else con_FlagMask con)
             in case (case FindCommand (cr_Command r) mask (con_Commands con) of
                        Some c \<Rightarrow> run_command e Stroke ClientId c r con
                      | None \<Rightarrow> Some (True, if Stroke then unknown_command e pStr (cr_Command r) con else con)) of
                  None \<Rightarrow> None
                | Some (goes_on, con) \<Rightarrow>
                    case snd (command_end Semicolons False pStr) of
                      None \<Rightarrow> Some con
                    | Some s \<Rightarrow> if goes_on then execute_parts e Stroke ClientId Semicolons s con else Some con)"
  by pat_completeness auto
termination
  by (relation "measure (\<lambda>(e, Stroke, ClientId, Semicolons, pStr, con). length pStr)") (simp_all add: command_end_rest)

declare execute_parts.simps [simp del]

definition ExecuteLineStroked :: "'w cons_env \<Rightarrow> bool \<Rightarrow> u8 list \<Rightarrow> int \<Rightarrow> bool \<Rightarrow> 'w CConsole \<Rightarrow> 'w CConsole option" where
  "ExecuteLineStroked e Stroke pStr ClientId InterpretSemicolons con =
     (if take 3 pStr = bytes_of ''mc;'' then execute_parts e Stroke ClientId True (drop 3 pStr) con
      else execute_parts e Stroke ClientId InterpretSemicolons pStr con)"

definition ExecuteLine :: "'w cons_env \<Rightarrow> u8 list \<Rightarrow> int \<Rightarrow> bool \<Rightarrow> 'w CConsole \<Rightarrow> 'w CConsole option" where
  "ExecuteLine e pStr ClientId InterpretSemicolons con =
     Option.bind (ExecuteLineStroked e True pStr ClientId InterpretSemicolons con) (ExecuteLineStroked e False pStr ClientId InterpretSemicolons)"

definition ExecuteLineFlag :: "'w cons_env \<Rightarrow> u8 list \<Rightarrow> i32 \<Rightarrow> int \<Rightarrow> bool \<Rightarrow> 'w CConsole \<Rightarrow> 'w CConsole option" where
  "ExecuteLineFlag e pStr FlagMask ClientId InterpretSemicolons con =
     map_option (con_FlagMask_update (\<lambda>_. con_FlagMask con)) (ExecuteLine e pStr ClientId InterpretSemicolons (con\<lparr>con_FlagMask := FlagMask\<rparr>))"

text \<open>The lines of a file, if it can be read; it must not be one of those being executed, of which there are not too many.\<close>

fun execute_lines :: "'w cons_env \<Rightarrow> int \<Rightarrow> u8 list list \<Rightarrow> 'w CConsole \<Rightarrow> 'w CConsole option" where
  "execute_lines e ClientId [] con = Some con"
| "execute_lines e ClientId (l # ls) con = Option.bind (ExecuteLine e l ClientId True con) (execute_lines e ClientId ls)"

definition ExecuteFile :: "'w cons_env \<Rightarrow> (u8 list \<Rightarrow> u8 list list option) \<Rightarrow> u8 list \<Rightarrow> int \<Rightarrow> bool \<Rightarrow> 'w CConsole \<Rightarrow> (bool \<times> 'w CConsole) option" where
  "ExecuteFile e read_file pFilename ClientId LogFailure con =
     (if pFilename \<in> set (con_Exec con) \<or> 16 < length (con_Exec con) then Some (False, con)
      else
        let pPrev = con_Exec con; con = con\<lparr>con_Exec := pFilename # pPrev\<rparr>
        in case read_file pFilename of
             Some ls \<Rightarrow>
               map_option (\<lambda>con. (True, con\<lparr>con_Exec := pPrev\<rparr>))
                 (execute_lines e ClientId ls (con_Print (cites 544 ''executing '' pFilename []) con))
           | None \<Rightarrow>
               Some (False, (if LogFailure then con_Print (cites 544 ''failed to open '' pFilename []) con else con)\<lparr>con_Exec := pPrev\<rparr>))"

text \<open>The arguments of the program: files to execute, and lines.\<close>

fun ParseArguments :: "'w cons_env \<Rightarrow> (u8 list \<Rightarrow> u8 list list option) \<Rightarrow> u8 list list \<Rightarrow> 'w CConsole \<Rightarrow> 'w CConsole option" where
  "ParseArguments e read_file [] con = Some con"
| "ParseArguments e read_file (a # as) con =
     (if a = bytes_of ''-f''
      then case as of
             [] \<Rightarrow> Some con
           | f # as' \<Rightarrow> Option.bind (ExecuteFile e read_file f (-1) True con) (\<lambda>(_, con). ParseArguments e read_file as' con)
      else if a = bytes_of ''-s'' \<or> a = bytes_of ''--silent'' then ParseArguments e read_file as con
      else Option.bind (ExecuteLine e a (-1) True con) (ParseArguments e read_file as))"

text \<open>The stored commands, as they are registered now; \<open>None\<close> if there is none with that object any more.\<close>

fun run_queue :: "'w cons_env \<Rightarrow> (nat \<times> CResult) list \<Rightarrow> 'w CConsole \<Rightarrow> 'w CConsole option" where
  "run_queue e [] con = Some con"
| "run_queue e ((i, r) # q) con =
     (case find (\<lambda>c. cm_Id c = i) (con_Commands con) of
        None \<Rightarrow> None
      | Some c \<Rightarrow> Option.bind (ce_Run e c r con) (run_queue e q))"

definition StoreCommands :: "'w cons_env \<Rightarrow> bool \<Rightarrow> 'w CConsole \<Rightarrow> 'w CConsole option" where
  "StoreCommands e Store con =
     (if \<not> Store
      then map_option (\<lambda>con. con\<lparr>con_Queue := [], con_StoreCommands := False\<rparr>) (run_queue e (con_Queue con) con)
      else Some (con\<lparr>con_StoreCommands := True\<rparr>))"

end
