(* ===== verification/ConsoleSafe.thy ===== *)
theory ConsoleSafe
  imports Console
begin

text \<open>
  What the console of \<^verbatim>\<open>src/src/engine/shared/console.cpp\<close> keeps to: quoted arguments arrive as they are, only
  permitted commands run, and the list of commands is one.
\<close>

section \<open>Quoted arguments\<close>

text \<open>What is written around an argument so that it is one token.\<close>

definition quoted :: "u8 list \<Rightarrow> u8 list" where
  "quoted a = 34 # str_escape (2 * length a + 1) a @ [34]"

definition quote_args :: "u8 list list \<Rightarrow> u8 list" where
  "quote_args as = concat (map (\<lambda>a. 32 # quoted a) as)"

text \<open>The parameters of a format, without the mark of the optional ones.\<close>

function params :: "u8 list \<Rightarrow> u8 list" where
  "params f = (if f = [] then [] else if hd f = 63 then params (NextParam f) else hd f # params (NextParam f))"
  by pat_completeness auto
termination by (relation "measure length") (simp_all add: NextParam_shorter)

declare params.simps [simp del]

lemma escape_room: "2 * length a < room \<Longrightarrow> str_escape room a = concat (map (\<lambda>c. if c = 34 \<or> c = 92 then [92, c] else [c]) a)"
  by (induction room a rule: str_escape.induct) auto

lemma parse_escaped:
  "parse_quoted dst (concat (map (\<lambda>c. if c = 34 \<or> c = 92 then [92, c] else [c]) a) @ 34 # rest) = Some (dst @ a, rest)"
  by (induction a arbitrary: dst) (auto simp del: concat_map_singleton)

lemma parse_quoted_token: "parse_quoted [] (str_escape (2 * length a + 1) a @ 34 # rest) = Some (a, rest)"
  using parse_escaped [of "[]" a rest] escape_room [of a "2 * length a + 1"] by simp

lemma parse_args_params: "params f = [] \<Longrightarrow> parse_args e IsColor f Optional s r = (PARSEARGS_OK, r)"
proof (induction f arbitrary: Optional rule: params.induct)
  case (1 f)
  then show ?case by (subst parse_args.simps) (auto simp: params.simps [of f] split: if_splits)
qed

lemma parse_args_quoted:
  "length (params f) = length as \<Longrightarrow>
    parse_args e IsColor f Optional (quote_args as) r = (PARSEARGS_OK, r\<lparr>cr_Args := cr_Args r @ as\<rparr>)"
proof (induction f arbitrary: as r Optional rule: params.induct)
  case (1 f)
  show ?case
  proof (cases as)
    case Nil
    then show ?thesis using 1(3) parse_args_params [of f] by simp
  next
    case (Cons a as')
    have ne: "f \<noteq> []" using 1(3) Cons by (auto simp: params.simps [of f])
    show ?thesis
    proof (cases "hd f = 63")
      case True
      then have "length (params (NextParam f)) = length as" using 1(3) ne by (simp add: params.simps [of f])
      from 1(1) [OF ne True this] show ?thesis using ne True by (simp add: parse_args.simps [of _ _ f])
    next
      case False
      then have "length (params (NextParam f)) = length as'" using 1(3) ne Cons by (simp add: params.simps [of f])
      note rest = 1(2) [OF ne False this]
      have s: "str_skip_whitespaces (quote_args as) = 34 # (str_escape (2 * length a + 1) a @ 34 # quote_args as')"
        using Cons by (simp add: quote_args_def quoted_def str_skip_whitespaces_def str_isspace_def)
      show ?thesis
        by (subst parse_args.simps) (use ne False s parse_quoted_token [of a "quote_args as'"] rest Cons in \<open>simp add: AddArgument_def\<close>)
    qed
  qed
qed

text \<open>
  C25: Whatever the arguments are, escaped by \<open>str_escape\<close>, put in quotation marks and separated by spaces, they are
  what \<open>ParseArgs\<close> reads for any format with as many parameters.
\<close>

theorem quoted_args_roundtrip:
  assumes "length (params pFormat) = length as" "cr_ArgsStart r = quote_args as"
  shows "ParseArgs e IsColor pFormat r = (PARSEARGS_OK, r\<lparr>cr_Args := cr_Args r @ as, cr_Victim := VICTIM_NONE\<rparr>)"
  unfolding ParseArgs_def assms(2) using parse_args_quoted [OF assms(1), of e IsColor False "r\<lparr>cr_Victim := VICTIM_NONE\<rparr>"] by simp

text \<open>A console whose commands say who was called.\<close>

definition sample_cons_env :: "(nat \<times> CResult) list cons_env" where
  "sample_cons_env = \<lparr>ce_Float = \<lambda>_. False, ce_Color = \<lambda>_. False,
     ce_Run = \<lambda>c r con. Some (con\<lparr>con_World := con_World con @ [(cm_Id c, r)]\<rparr>),
     ce_Unknown = \<lambda>_ w. (False, w), ce_Record = \<lambda>_ _ _ _ w. w, ce_TestCommands = False, ce_Map = [109], ce_Unset = 0\<rparr>"

definition sample_result :: CResult where
  "sample_result = (new_result 0 (-1))\<lparr>cr_ArgsStart := [32, 34, 92, 34, 59, 34, 32, 34, 34]\<rparr>"

theorem quoted_args_roundtrip_witness:
  "ParseArgs sample_cons_env False (bytes_of ''s[name] ?r[reason]'') sample_result =
   (PARSEARGS_OK, sample_result\<lparr>cr_Args := [[34, 59], []], cr_Victim := VICTIM_NONE\<rparr>)"
proof -
  have "length (params (bytes_of ''s[name] ?r[reason]'')) = length [[34, 59], [] :: u8 list]"
    by (simp add: params.simps NextParam_def)
  moreover have "cr_ArgsStart sample_result = quote_args [[34, 59], []]"
    by (simp add: sample_result_def quote_args_def quoted_def)
  ultimately have "ParseArgs sample_cons_env False (bytes_of ''s[name] ?r[reason]'') sample_result =
      (PARSEARGS_OK, sample_result\<lparr>cr_Args := cr_Args sample_result @ [[34, 59], []], cr_Victim := VICTIM_NONE\<rparr>)"
    by (rule quoted_args_roundtrip)
  then show ?thesis by (simp add: sample_result_def new_result_def)
qed

text \<open>The end of a command: behind quoted arguments the next semicolon.\<close>

lemma command_end_plain: "34 \<notin> set s \<Longrightarrow> 92 \<notin> set s \<Longrightarrow> snd (command_end Semicolons True s) = None"
  by (induction s) auto

lemma command_end_escaped:
  "92 \<notin> set a \<Longrightarrow> command_end Semicolons True (concat (map (\<lambda>c. if c = 34 \<or> c = 92 then [92, c] else [c]) a) @ s) =
     apfst ((+) (length (concat (map (\<lambda>c. if c = 34 \<or> c = 92 then [92, c] else [c]) a)))) (command_end Semicolons True s)"
proof (induction a)
  case (Cons c a)
  then show ?case by (cases "command_end Semicolons True s") auto
qed (cases "command_end Semicolons True s", simp)

lemma quoted_escaped: "quoted a = 34 # concat (map (\<lambda>c. if c = 34 \<or> c = 92 then [92, c] else [c]) a) @ [34]"
  by (simp add: quoted_def escape_room)

lemma command_end_quoted:
  assumes "92 \<notin> set a"
  shows "command_end Semicolons False (quoted a @ s) = apfst ((+) (length (quoted a))) (command_end Semicolons False s)"
  using command_end_escaped [OF assms, of Semicolons "34 # s"]
  by (cases "command_end Semicolons False s") (simp add: quoted_escaped)

lemma command_end_args:
  "\<forall>a \<in> set as. 92 \<notin> set a \<Longrightarrow>
    command_end Semicolons False (quote_args as @ s) = apfst ((+) (length (quote_args as))) (command_end Semicolons False s)"
proof (induction as)
  case (Cons a as)
  then show ?case
    using command_end_quoted [of a Semicolons "quote_args as @ s"]
    by (cases "command_end Semicolons False s") (simp add: quote_args_def)
qed (cases "command_end Semicolons False s", simp add: quote_args_def)

text \<open>
  C35: Quoted arguments without backslashes keep their semicolons: the command ends at the first semicolon behind
  them. But an argument that ends with a backslash, which is escaped as two, takes the commands behind it along:
  the search for the end takes the second backslash and the quotation mark for an escaped quotation mark,
  although the parser ends the argument there.
\<close>

theorem backslash_joins_commands:
  assumes "92 \<notin> set a" "34 \<notin> set rest" "92 \<notin> set rest"
  shows "snd (command_end True False (quoted a @ 59 # rest)) = Some rest \<and>
    snd (command_end True False (quoted (a @ [92]) @ 59 # rest)) = None \<and>
    parse_quoted [] (tl (quoted (a @ [92]) @ 59 # rest)) = Some (a @ [92], 59 # rest)"
proof (intro conjI)
  show "snd (command_end True False (quoted a @ 59 # rest)) = Some rest"
    using command_end_quoted [OF assms(1), of True "59 # rest"] by simp
  have "quoted (a @ [92]) @ 59 # rest =
      34 # concat (map (\<lambda>c. if c = 34 \<or> c = 92 then [92, c] else [c]) a) @ 92 # 92 # 34 # 59 # rest"
    by (simp add: quoted_escaped)
  moreover have "snd (command_end True True (92 # 92 # 34 # 59 # rest)) = None"
    using command_end_plain [OF assms(2,3), of True] by simp
  ultimately show "snd (command_end True False (quoted (a @ [92]) @ 59 # rest)) = None"
    using command_end_escaped [OF assms(1), of True "92 # 92 # 34 # 59 # rest"] by simp
  show "parse_quoted [] (tl (quoted (a @ [92]) @ 59 # rest)) = Some (a @ [92], 59 # rest)"
    using parse_quoted_token [of "a @ [92]" "59 # rest"] by (simp add: quoted_def)
qed

theorem backslash_joins_commands_witness:
  "snd (command_end True False (quoted (bytes_of ''a'' @ [92]) @ 59 # bytes_of ''logout'')) = None"
  using backslash_joins_commands [of "bytes_of ''a''" "bytes_of ''logout''"] by simp

section \<open>Access\<close>

text \<open>The same environment, but for commands that are not permitted, which may not be run at all.\<close>

definition guarded :: "(CCommand \<Rightarrow> bool) \<Rightarrow> 'w cons_env \<Rightarrow> 'w cons_env" where
  "guarded ok e = e\<lparr>ce_Run := \<lambda>c r con. if ok c then ce_Run e c r con else None\<rparr>"

lemma guarded_fields:
  "ce_Float (guarded ok e) = ce_Float e" "ce_Color (guarded ok e) = ce_Color e" "ce_Unknown (guarded ok e) = ce_Unknown e"
  "ce_Record (guarded ok e) = ce_Record e" "ce_TestCommands (guarded ok e) = ce_TestCommands e" "ce_Map (guarded ok e) = ce_Map e"
  "ce_Unset (guarded ok e) = ce_Unset e" "ok c \<Longrightarrow> ce_Run (guarded ok e) c = ce_Run e c"
  by (simp_all add: guarded_def fun_eq_iff)

lemma parse_args_guarded: "parse_args (guarded ok e) IsColor f Optional s r = parse_args e IsColor f Optional s r"
proof (induction e IsColor f Optional s r rule: parse_args.induct)
  case (1 e IsColor f Optional pStr r)
  show ?case
    by (subst (1 2) parse_args.simps) (use 1 in \<open>auto simp: guarded_fields Let_def split: option.splits\<close>)
qed

lemma ParseArgs_guarded: "ParseArgs (guarded ok e) = ParseArgs e"
  by (simp add: ParseArgs_def parse_args_guarded fun_eq_iff)

text \<open>The commands that the access level, the flags and the kind of the caller permit.\<close>

definition permitted :: "'w cons_env \<Rightarrow> int \<Rightarrow> 'w CConsole \<Rightarrow> CCommand \<Rightarrow> bool" where
  "permitted e ClientId con c \<longleftrightarrow> cm_AccessLevel c \<ge> con_AccessLevel con \<and>
     (if ClientId = CLIENT_ID_GAME then has_flag c CFGFLAG_GAME else has_flag c (con_FlagMask con)) \<and>
     (ClientId = CLIENT_ID_NO_GAME \<longrightarrow> \<not> has_flag c CFGFLAG_GAME) \<and> (has_flag c CMDFLAG_TEST \<longrightarrow> ce_TestCommands e)"

definition keeps_access :: "'w cons_env \<Rightarrow> bool" where
  "keeps_access e \<longleftrightarrow> (\<forall>c r x y. ce_Run e c r x = Some y \<longrightarrow> con_AccessLevel y = con_AccessLevel x \<and> con_FlagMask y = con_FlagMask x)"

definition same_access :: "'w CConsole \<Rightarrow> 'w CConsole \<Rightarrow> bool" where
  "same_access x y \<longleftrightarrow> con_AccessLevel y = con_AccessLevel x \<and> con_FlagMask y = con_FlagMask x"

lemma run_victims_guarded: "ok c \<Longrightarrow> run_victims (guarded ok e) c r is con = run_victims e c r is con"
  by (induction "is" arbitrary: con) (simp_all add: guarded_fields cong: Option.bind_cong)

lemma run_victims_access: "keeps_access e \<Longrightarrow> run_victims e c r is x = Some y \<Longrightarrow> same_access x y"
proof (induction "is" arbitrary: x)
  case (Cons i "is")
  then obtain z where z: "ce_Run e c (SetVictim (int i) r) x = Some z" "run_victims e c r is z = Some y"
    by (auto simp: bind_eq_Some_conv)
  have "con_AccessLevel z = con_AccessLevel x" "con_FlagMask z = con_FlagMask x"
    using Cons.prems(1) z(1) unfolding keeps_access_def by blast+
  then show ?case using Cons.IH [OF Cons.prems(1) z(2)] by (simp add: same_access_def)
qed (simp add: same_access_def)

lemma con_Print_access [simp]: "con_AccessLevel (con_Print s con) = con_AccessLevel con" "con_FlagMask (con_Print s con) = con_FlagMask con"
  by (simp_all add: con_Print_def)

lemma perform_access:
  assumes "keeps_access e" "perform e ClientId c r x = Some (g, y)"
  shows "same_access x y"
proof -
  define x' where "x' = (if has_flag c CFGFLAG_NONTEEHISTORIC then x
      else x\<lparr>con_World := ce_Record e ClientId (con_FlagMask x) (cm_Name c) r (con_World x)\<rparr>)"
  have x': "same_access x x'" by (simp add: x'_def same_access_def)
  have "same_access x' z" if "ce_Run e c r' x' = Some z" for r' z
    using assms(1) that unfolding keeps_access_def same_access_def by blast
  moreover have "same_access x' z" if "run_victims e c r' is x' = Some z" for r' "is" z
    using run_victims_access [OF assms(1) that] .
  ultimately show ?thesis
    using assms(2) x' unfolding perform_def Let_def x'_def [symmetric] same_access_def
    by (auto split: if_splits)
qed

lemma run_command_guarded:
  assumes "has_flag c (if ClientId = CLIENT_ID_GAME then con_FlagMask con OR CFGFLAG_GAME else con_FlagMask con)"
  shows "run_command (guarded (permitted e ClientId con) e) Stroke ClientId c r con = run_command e Stroke ClientId c r con"
proof -
  have perf: "perform (guarded (permitted e ClientId con) e) ClientId c r' con = perform e ClientId c r' con"
    if "\<not> (ClientId = CLIENT_ID_GAME \<and> \<not> has_flag c CFGFLAG_GAME)" "\<not> (ClientId = CLIENT_ID_NO_GAME \<and> has_flag c CFGFLAG_GAME)"
      "cm_AccessLevel c \<ge> con_AccessLevel con" for r'
  proof (cases "has_flag c CMDFLAG_TEST \<and> \<not> ce_TestCommands e")
    case True
    then show ?thesis by (simp add: perform_def guarded_fields)
  next
    case False
    then have "permitted e ClientId con c" using that assms by (auto simp: permitted_def split: if_splits)
    then have "ce_Run (guarded (permitted e ClientId con) e) c = ce_Run e c"
      "run_victims (guarded (permitted e ClientId con) e) c = run_victims e c"
      by (simp_all add: guarded_fields run_victims_guarded fun_eq_iff)
    then show ?thesis by (simp only: perform_def guarded_fields(1-7))
  qed
  show ?thesis using perf by (simp add: run_command_def Let_def guarded_fields ParseArgs_guarded split: prod.splits)
qed

lemma run_command_access:
  assumes "keeps_access e" "run_command e Stroke ClientId c r x = Some (g, y)"
  shows "same_access x y"
  using assms perform_access [OF assms(1)]
  by (auto simp: run_command_def Let_def same_access_def split: if_splits prod.splits)

lemma unknown_access: "same_access x (unknown_command e pStr cmd x)"
  by (simp add: unknown_command_def Let_def same_access_def split: prod.split)

lemma permitted_same: "same_access x y \<Longrightarrow> permitted e ClientId y = permitted e ClientId x"
  by (simp add: permitted_def same_access_def fun_eq_iff)

text \<open>What is done with one command of a line.\<close>

definition one_command :: "'w cons_env \<Rightarrow> bool \<Rightarrow> int \<Rightarrow> CResult \<Rightarrow> u8 list \<Rightarrow> 'w CConsole \<Rightarrow> (bool \<times> 'w CConsole) option" where
  "one_command e Stroke ClientId r pStr con =
     (case FindCommand (cr_Command r) (if ClientId = CLIENT_ID_GAME then con_FlagMask con OR CFGFLAG_GAME else con_FlagMask con)
        (con_Commands con) of
        Some c \<Rightarrow> run_command e Stroke ClientId c r con
      | None \<Rightarrow> Some (True, if Stroke then unknown_command e pStr (cr_Command r) con else con))"

lemma one_command_guarded:
  "one_command (guarded (permitted e ClientId con) e) Stroke ClientId r pStr con = one_command e Stroke ClientId r pStr con"
proof (cases "FindCommand (cr_Command r) (if ClientId = CLIENT_ID_GAME then con_FlagMask con OR CFGFLAG_GAME else con_FlagMask con)
    (con_Commands con)")
  case None
  then show ?thesis by (simp only: one_command_def option.case unknown_command_def guarded_fields)
next
  case (Some c)
  then have "has_flag c (if ClientId = CLIENT_ID_GAME then con_FlagMask con OR CFGFLAG_GAME else con_FlagMask con)"
    by (auto simp only: FindCommand_def find_Some_iff)
  then show ?thesis using Some by (simp only: one_command_def option.case run_command_guarded)
qed

lemma one_command_access: "keeps_access e \<Longrightarrow> one_command e Stroke ClientId r pStr x = Some (g, y) \<Longrightarrow> same_access x y"
  using run_command_access unknown_access by (fastforce simp: one_command_def same_access_def split: option.splits if_splits)

lemma execute_parts_unfold:
  "execute_parts e Stroke ClientId Semicolons pStr con =
     (if pStr = [] then Some con
      else let r = ParseStart pStr (Suc (fst (command_end Semicolons False pStr))) (new_result (ce_Unset e) ClientId)
        in if cr_Command r = [] then Some con
           else case one_command e Stroke ClientId r pStr con of
                  None \<Rightarrow> None
                | Some (goes_on, con) \<Rightarrow>
                    case snd (command_end Semicolons False pStr) of
                      None \<Rightarrow> Some con
                    | Some s \<Rightarrow> if goes_on then execute_parts e Stroke ClientId Semicolons s con else Some con)"
  by (subst execute_parts.simps) (simp add: one_command_def Let_def)

lemma execute_parts_guarded:
  assumes "keeps_access e"
  shows "same_access con x \<Longrightarrow> execute_parts (guarded (permitted e ClientId con) e) Stroke ClientId Semicolons pStr x =
      execute_parts e Stroke ClientId Semicolons pStr x \<and>
    (\<forall>y. execute_parts e Stroke ClientId Semicolons pStr x = Some y \<longrightarrow> same_access con y)"
proof (induction pStr arbitrary: x rule: length_induct)
  case (1 pStr)
  let ?r = "ParseStart pStr (Suc (fst (command_end Semicolons False pStr))) (new_result (ce_Unset e) ClientId)"
  have one: "one_command (guarded (permitted e ClientId con) e) Stroke ClientId ?r pStr x = one_command e Stroke ClientId ?r pStr x"
    using one_command_guarded [of e ClientId x] permitted_same [OF 1(2)] by simp
  have acc: "same_access con y" if "one_command e Stroke ClientId ?r pStr x = Some (g, y)" for g y
    using one_command_access [OF assms that] 1(2) by (simp add: same_access_def)
  have rest: "execute_parts (guarded (permitted e ClientId con) e) Stroke ClientId Semicolons s y = execute_parts e Stroke ClientId Semicolons s y \<and>
      (\<forall>z. execute_parts e Stroke ClientId Semicolons s y = Some z \<longrightarrow> same_access con z)"
    if "snd (command_end Semicolons False pStr) = Some s" "same_access con y" for s y
    using 1(1) command_end_rest [OF that(1)] that(2) by blast
  have r: "ParseStart pStr n (new_result (ce_Unset (guarded (permitted e ClientId con) e)) ClientId) =
      ParseStart pStr n (new_result (ce_Unset e) ClientId)" for n by (simp only: guarded_fields)
  show ?case
  proof (cases "pStr = [] \<or> cr_Command ?r = []")
    case True
    then show ?thesis using 1(2) unfolding execute_parts_unfold [of _ _ _ _ pStr] r Let_def by auto
  next
    case False
    show ?thesis
    proof (cases "one_command e Stroke ClientId ?r pStr x")
      case None
      then show ?thesis using False one unfolding execute_parts_unfold [of _ _ _ _ pStr] r Let_def by simp
    next
      case (Some gy)
      obtain g y where gy: "gy = (g, y)" by fastforce
      show ?thesis
        using False one Some gy acc [of g y] rest [of _ y] unfolding execute_parts_unfold [of _ _ _ _ pStr] r Let_def
        by (simp split: option.split)
    qed
  qed
qed

text \<open>
  C20: A line runs nothing but commands that the access level, the flags of the console and the kind of the caller
  permit: if other commands could not be run at all, every line would do the same. (Commands that change the
  access level themselves are left aside.)
\<close>

theorem only_permitted_commands_run:
  assumes "keeps_access e"
  shows "ExecuteLine (guarded (permitted e ClientId con) e) pStr ClientId InterpretSemicolons con = ExecuteLine e pStr ClientId InterpretSemicolons con"
proof -
  have refl: "same_access con con" by (simp add: same_access_def)
  have one: "ExecuteLineStroked (guarded (permitted e ClientId con) e) Stroke pStr ClientId sc x = ExecuteLineStroked e Stroke pStr ClientId sc x \<and>
      (\<forall>y. ExecuteLineStroked e Stroke pStr ClientId sc x = Some y \<longrightarrow> same_access con y)" if "same_access con x" for Stroke sc x
    using execute_parts_guarded [OF assms that] by (simp add: ExecuteLineStroked_def)
  show ?thesis unfolding ExecuteLine_def
    using one [OF refl] one by (cases "ExecuteLineStroked e True pStr ClientId InterpretSemicolons con") auto
qed

definition sample_command :: "u8 list \<Rightarrow> int \<Rightarrow> i32 \<Rightarrow> nat \<Rightarrow> CCommand" where
  "sample_command pName AccessLevel Flags i = \<lparr>cm_Id = i, cm_Name = pName, cm_Help = [], cm_Params = [115], cm_AccessLevel = AccessLevel,
     cm_Flags = Flags, cm_Temp = False, cm_Callback = Callback i\<rparr>"

text \<open>A console for moderators, with one command for them and one for administrators.\<close>

definition sample_console :: "(nat \<times> CResult) list CConsole" where
  "sample_console = \<lparr>con_FlagMask = 4, con_StoreCommands = False,
     con_Commands = [sample_command (bytes_of ''kick'') 1 4 1, sample_command (bytes_of ''shutdown'') 0 4 2],
     con_AccessLevel = 1, con_Queue = [], con_Cheated = False, con_Recycle = [], con_Exec = [], con_Printed = [], con_World = []\<rparr>"

theorem only_permitted_commands_run_witness:
  "ExecuteLine (guarded (permitted sample_cons_env (-1) sample_console) sample_cons_env) (bytes_of ''shutdown 1;kick 2'') (-1) True sample_console =
     ExecuteLine sample_cons_env (bytes_of ''shutdown 1;kick 2'') (-1) True sample_console \<and>
   permitted sample_cons_env (-1) sample_console (sample_command (bytes_of ''kick'') 1 4 1) \<and>
   \<not> permitted sample_cons_env (-1) sample_console (sample_command (bytes_of ''shutdown'') 0 4 2)"
proof (intro conjI)
  have "keeps_access sample_cons_env" by (auto simp: keeps_access_def sample_cons_env_def)
  then show "ExecuteLine (guarded (permitted sample_cons_env (-1) sample_console) sample_cons_env) (bytes_of ''shutdown 1;kick 2'') (-1) True sample_console =
     ExecuteLine sample_cons_env (bytes_of ''shutdown 1;kick 2'') (-1) True sample_console" by (rule only_permitted_commands_run)
  show "permitted sample_cons_env (-1) sample_console (sample_command (bytes_of ''kick'') 1 4 1)"
    "\<not> permitted sample_cons_env (-1) sample_console (sample_command (bytes_of ''shutdown'') 0 4 2)"
    by (simp_all add: permitted_def sample_command_def sample_console_def has_flag_def CLIENT_ID_GAME_def CLIENT_ID_NO_GAME_def CMDFLAG_TEST_def)
qed

section \<open>The list of commands\<close>

lemma find_around: "find P (xs @ c # ys) = (if P c \<and> find P xs = None then Some c else if find P xs = None then find P ys else find P xs)"
  by (induction xs) auto

lemma find_behind: "find P (xs @ ys) = (if find P xs = None then find P ys else find P xs)"
  by (induction xs) auto

lemma insert_behind_splits: "\<exists>xs ys. cs = xs @ ys \<and> insert_behind c cs = xs @ c # ys"
proof (induction cs)
  case (Cons d cs)
  then obtain xs ys where xy: "cs = xs @ ys" "insert_behind c cs = xs @ c # ys" by blast
  show ?case
  proof (cases "str_le (cm_Name c) (cm_Name d)")
    case True
    then show ?thesis by (intro exI [of _ "[]"] exI [of _ "d # cs"]) simp
  next
    case False
    then show ?thesis using xy by (intro exI [of _ "d # xs"] exI [of _ ys]) simp
  qed
qed simp

lemma add_splits:
  assumes "length cs \<noteq> 1"
  shows "\<exists>xs ys. cs = xs @ ys \<and> AddCommandSorted c cs = xs @ c # ys"
proof (cases cs)
  case (Cons d ds)
  obtain xs ys where xy: "ds = xs @ ys" "insert_behind c ds = xs @ c # ys" using insert_behind_splits by blast
  have "ds \<noteq> []" using assms Cons by auto
  show ?thesis
  proof (cases "str_le (cm_Name c) (cm_Name d)")
    case True
    then show ?thesis using Cons \<open>ds \<noteq> []\<close> by (intro exI [of _ "[]"] exI [of _ cs]) (simp add: AddCommandSorted_def)
  next
    case False
    then show ?thesis using Cons xy by (intro exI [of _ "d # xs"] exI [of _ ys]) (simp add: AddCommandSorted_def)
  qed
qed (simp add: AddCommandSorted_def)

lemma find_update:
  assumes "distinct (map cm_Id cs)" "find P cs = Some c" "P (f c)"
  shows "find P (update_command (cm_Id c) f cs) = Some (f c)"
  using assms
proof (induction cs)
  case (Cons d cs)
  show ?case
  proof (cases "P d")
    case True
    then show ?thesis using Cons.prems by (simp add: update_command_def)
  next
    case False
    then have f: "find P cs = Some c" using Cons.prems(2) by simp
    then have "c \<in> set cs" by (auto simp: find_Some_iff)
    then have "cm_Id d \<noteq> cm_Id c" using Cons.prems(1) by auto
    then show ?thesis using Cons.IH [OF _ f] Cons.prems False by (simp add: update_command_def)
  qed
qed simp

lemma find_update_other:
  "\<forall>c \<in> set cs. cm_Id c = i \<longrightarrow> \<not> P c \<and> \<not> P (f c) \<Longrightarrow> find P (update_command i f cs) = find P cs"
  by (induction cs) (auto simp: update_command_def)

lemma find_in: "find P cs = Some c \<Longrightarrow> c \<in> set cs \<and> P c"
  by (auto simp: find_Some_iff)

text \<open>
  \<open>AddCommandSorted\<close> links the first command behind the new one only if it is not the last: the only
  command of the list is displaced by a new one that does not come behind it.
\<close>

definition displaces :: "u8 list \<Rightarrow> i32 \<Rightarrow> 'w CConsole \<Rightarrow> bool" where
  "displaces pName Flags con \<longleftrightarrow>
     (case con_Commands con of
        [d] \<Rightarrow> FindCommand pName Flags [d] = None \<and> str_le pName (cm_Name d)
      | _ \<Rightarrow> False)"

text \<open>
  C30: A command that has been registered is the one that is found, in the place of an older one of that name
  if there is one. Every other command is found as before, with one exception, in which it is not found any
  more: the list had exactly one command, it is not the one that is registered again, and the name of the new
  one is not behind its name in the order of the list.
\<close>

theorem registered_command_found:
  assumes "distinct (map cm_Id (con_Commands con))" "Flags \<noteq> 0"
  shows "(\<exists>c. FindCommand pName Flags (con_Commands (Register pName pParams Flags pfnFunc pHelp con)) = Some c \<and>
      cm_Callback c = pfnFunc \<and> cm_Params c = pParams \<and> cm_Flags c = Flags) \<and>
    (\<forall>n m. \<not> same_nocase n pName \<longrightarrow>
      FindCommand n m (con_Commands (Register pName pParams Flags pfnFunc pHelp con)) =
        (if displaces pName Flags con then None else FindCommand n m (con_Commands con)))"
proof -
  let ?cs = "con_Commands con"
  define f where "f = (\<lambda>c :: CCommand. c\<lparr>cm_Callback := pfnFunc, cm_Name := pName, cm_Help := pHelp, cm_Params := pParams, cm_Flags := Flags,
              cm_Temp := False, cm_AccessLevel := (if Flags AND CFGFLAG_CHAT \<noteq> 0 then ACCESS_LEVEL_USER else cm_AccessLevel c)\<rparr>)"
  have f: "cm_Name (f c) = pName" "cm_Callback (f c) = pfnFunc" "cm_Params (f c) = pParams" "cm_Flags (f c) = Flags" for c
    by (simp_all add: f_def)
  have hit: "has_flag (f c) Flags" for c using assms(2) f(4) by (simp add: has_flag_def)
  have miss: "\<not> same_nocase n pName \<Longrightarrow> same_nocase b pName \<Longrightarrow> \<not> same_nocase b n" for n b by (simp add: same_nocase_def)
  define new where "new = f \<lparr>cm_Id = fresh_id con, cm_Name = [], cm_Help = [], cm_Params = [], cm_AccessLevel = ACCESS_LEVEL_ADMIN, cm_Flags = 0,
      cm_Temp = False, cm_Callback = No_callback\<rparr>"
  have reg: "con_Commands (Register pName pParams Flags pfnFunc pHelp con) =
      (case FindCommand pName Flags ?cs of Some c \<Rightarrow> update_command (cm_Id c) f ?cs | None \<Rightarrow> AddCommandSorted new ?cs)"
    by (simp add: Register_def f_def new_def Let_def split: option.split)
  show ?thesis
  proof (cases "FindCommand pName Flags ?cs")
    case None
    have name: "has_flag new Flags" "cm_Name new = pName" using hit f(1) by (simp_all add: new_def)
    show ?thesis
    proof (cases "displaces pName Flags con")
      case True
      then have "AddCommandSorted new ?cs = [new]"
        by (auto simp: displaces_def AddCommandSorted_def name split: list.splits)
      with reg None have "con_Commands (Register pName pParams Flags pfnFunc pHelp con) = [new]" by simp
      then show ?thesis using True f name by (auto simp: FindCommand_def same_nocase_def new_def)
    next
      case stays: False
      have "\<exists>xs ys. ?cs = xs @ ys \<and> AddCommandSorted new ?cs = xs @ new # ys"
      proof (cases "length ?cs = 1")
        case True
        then obtain d where d: "?cs = [d]" by (auto simp: length_Suc_conv)
        then have "AddCommandSorted new ?cs = [d] @ new # []"
          using stays None by (simp add: displaces_def AddCommandSorted_def name)
        with d show ?thesis by (intro exI [of _ "[d]"] exI [of _ "[]"]) simp
      qed (use add_splits in blast)
      then obtain xs ys where xy: "?cs = xs @ ys" "AddCommandSorted new ?cs = xs @ new # ys" by blast
      have "find (\<lambda>c. has_flag c Flags \<and> same_nocase (cm_Name c) pName) xs = None"
        using None unfolding FindCommand_def xy(1) find_behind by (simp split: if_splits)
      with name have "FindCommand pName Flags (xs @ new # ys) = Some new"
        unfolding FindCommand_def find_around by (simp add: same_nocase_def)
      moreover have "FindCommand n m (xs @ new # ys) = FindCommand n m ?cs" if "\<not> same_nocase n pName" for n m
        using that f(1) unfolding FindCommand_def xy(1) find_around find_behind by (auto simp: new_def same_nocase_def)
      ultimately show ?thesis using reg None xy(2) f stays by (simp add: new_def)
    qed
  next
    case (Some c)
    have stays: "\<not> displaces pName Flags con" using Some by (auto simp: displaces_def split: list.splits)
    have c: "c \<in> set ?cs" "same_nocase (cm_Name c) pName" using find_in [OF Some [unfolded FindCommand_def]] by auto
    have "FindCommand pName Flags (update_command (cm_Id c) f ?cs) = Some (f c)"
      unfolding FindCommand_def by (rule find_update [OF assms(1) Some [unfolded FindCommand_def]]) (simp add: hit f(1) same_nocase_def)
    moreover have "FindCommand n m (update_command (cm_Id c) f ?cs) = FindCommand n m ?cs" if "\<not> same_nocase n pName" for n m
      unfolding FindCommand_def
    proof (rule find_update_other, intro ballI impI)
      fix d assume "d \<in> set ?cs" "cm_Id d = cm_Id c"
      then have "d = c" using assms(1) c(1) by (auto simp: distinct_map inj_on_def)
      then show "\<not> (has_flag d m \<and> same_nocase (cm_Name d) n) \<and> \<not> (has_flag (f d) m \<and> same_nocase (cm_Name (f d)) n)"
        using that c(2) f(1) by (simp add: same_nocase_def)
    qed
    ultimately show ?thesis using reg Some f stays by simp
  qed
qed

theorem registered_command_found_witness:
  "(\<exists>c. FindCommand (bytes_of ''ban'') 4 (con_Commands (Register (bytes_of ''ban'') [115] 4 (Callback 7) [] sample_console)) = Some c \<and>
     cm_Callback c = Callback 7) \<and>
   FindCommand (bytes_of ''Kick'') 4 (con_Commands (Register (bytes_of ''ban'') [115] 4 (Callback 7) [] sample_console)) =
     Some (sample_command (bytes_of ''kick'') 1 4 1)"
proof -
  have d: "distinct (map cm_Id (con_Commands sample_console))" "(4 :: i32) \<noteq> 0"
    by (simp_all add: sample_console_def sample_command_def)
  have k: "\<not> same_nocase (bytes_of ''Kick'') (bytes_of ''ban'')" by (simp add: same_nocase_def to_lower_def)
  have "FindCommand (bytes_of ''Kick'') 4 (con_Commands sample_console) = Some (sample_command (bytes_of ''kick'') 1 4 1)"
    by (simp add: FindCommand_def sample_console_def sample_command_def has_flag_def same_nocase_def to_lower_def)
  moreover have "\<not> displaces (bytes_of ''ban'') 4 sample_console" by (simp add: displaces_def sample_console_def)
  ultimately show ?thesis
    using registered_command_found [OF d, of "bytes_of ''ban''" "[115]" "Callback 7" "[]"] k by auto
qed

text \<open>
  But if there is exactly one command, another one whose name comes before it takes its place: the first
  command of the list is linked behind the new one only if it is not the last.
\<close>

theorem register_loses_command:
  assumes "con_Commands con = [d]" "str_le pName (cm_Name d)" "\<not> same_nocase (cm_Name d) pName"
  shows "FindCommand (cm_Name d) FlagMask (con_Commands (Register pName pParams Flags pfnFunc pHelp con)) = None"
proof -
  have "FindCommand pName Flags [d] = None" using assms(3) by (simp add: FindCommand_def)
  then show ?thesis using assms by (simp add: Register_def AddCommandSorted_def FindCommand_def same_nocase_def Let_def)
qed

theorem register_loses_command_witness:
  "FindCommand (bytes_of ''kick'') 4 (con_Commands (Register (bytes_of ''ban'') [115] 4 (Callback 7) []
     (sample_console\<lparr>con_Commands := [sample_command (bytes_of ''kick'') 1 4 1]\<rparr>))) = None"
  using register_loses_command [of "sample_console\<lparr>con_Commands := [sample_command (bytes_of ''kick'') 1 4 1]\<rparr>"
      "sample_command (bytes_of ''kick'') 1 4 1" "bytes_of ''ban''" 4 "[115]" 4 "Callback 7" "[]"]
  by (simp add: sample_command_def same_nocase_def to_lower_def)

text \<open>Without the temporary commands the others are left, in their order.\<close>

lemma drop_temps_filter: "drop_temps (dropWhile cm_Temp cs) = filter (\<lambda>c. \<not> cm_Temp c) cs"
proof (induction cs rule: length_induct)
  case (1 cs)
  show ?case
  proof (cases "dropWhile cm_Temp cs")
    case Nil
    then have "\<forall>c \<in> set cs. cm_Temp c" by simp
    then show ?thesis unfolding Nil by (simp add: filter_empty_conv)
  next
    case (Cons c rest)
    have "filter (\<lambda>c. \<not> cm_Temp c) cs = filter (\<lambda>c. \<not> cm_Temp c) (takeWhile cm_Temp cs @ dropWhile cm_Temp cs)" by simp
    also have "\<dots> = filter (\<lambda>c. \<not> cm_Temp c) (c # rest)"
      unfolding filter_append Cons by (simp add: filter_empty_conv) (metis set_takeWhileD)
    also have "\<not> cm_Temp c" using hd_dropWhile [of cm_Temp cs] Cons by auto
    moreover have "length rest < length cs" using Cons length_dropWhile_le [of cm_Temp cs] by simp
    ultimately show ?thesis using Cons 1 by simp
  qed
qed

lemma DeregisterTempAll_rest: "con_Commands (DeregisterTempAll con) = filter (\<lambda>c. \<not> cm_Temp c) (con_Commands con)"
  by (simp add: DeregisterTempAll_def drop_temps_filter)

end
