(* ===== verification/Spec2Isabelle.thy ===== *)
theory Spec2Isabelle
  imports Packer NetConn Uuid SnapshotBuild NetBanSafe NetClientSafe SnapIds EconSafe ConsoleSafe
begin

text \<open>
  A verification library for the FeX client, a client and server of the game DDNet (C++): the transport of the
  game, what is sent over it, and the engine of the server on top.

  HOW THE PROGRAM FITS TOGETHER.

  A message is packed out of integers and strings (\<open>CPacker\<close>), becomes a chunk with a header, waits in the ring
  buffer of a connection (\<open>CNetConnection\<close>) until it is acknowledged, and travels in a packet, which is compressed
  with a fixed Huffman code if that makes it smaller. The server (\<open>CNetServer\<close>) keeps one connection for each slot,
  lets clients in after a handshake with tokens, and asks the bans (\<open>CNetBan\<close>) first; the client
  (\<open>CNetClient\<close>) keeps one connection and the STUN state. The state of the game goes out as snapshots, as
  differences to one the client has acknowledged. The engine of the server (\<open>CServer\<close>) is called back by the
  network server, answers the messages of the clients, keeps their state and their rights, whose keys are in
  \<open>CAuthManager\<close>, and tells the game what happens. The external console (\<open>CEcon\<close>) runs commands that come
  over TCP, and asks the bans of the server. Lines of text are run by the console (\<open>CConsole\<close>).

  THEORIES, and the code they model (below \<^verbatim>\<open>src/src\<close>).

  \<^item> \<open>Prelude\<close>: machine types (\<open>u8\<close>, \<open>i32\<close>) and the lemmas on words, lists and options that the parts share.
    \<open>Codec\<close>: the contract of an encoder and its decoder as locales, interpreted on the integers, UTF-8 and the
    chunk headers.
  \<^item> \<open>VarInt\<close> (\<^verbatim>\<open>engine/shared/compression.cpp\<close>): the packed integers; what is packed is read back, and
    the compression of arrays with its errors.
  \<^item> \<open>Utf8\<close> (\<^verbatim>\<open>base/system.cpp\<close>): decoding, checking, sanitizing and bounded copies of strings; the decoder
    accepts exactly the shortest encodings.
  \<^item> \<open>Packer\<close> (\<^verbatim>\<open>engine/shared/packer.cpp\<close>): messages are read back, within the buffers.
  \<^item> \<open>Huffman\<close> (\<^verbatim>\<open>engine/shared/huffman.cpp\<close>): the construction of the tree from the frequencies, both
    directions with their tables; decompression gives back what was compressed, under the locale \<open>compressor\<close>
    that the packets use.
  \<^item> \<open>NetPacket\<close> (\<^verbatim>\<open>engine/shared/network.cpp\<close>): packets and chunk headers of the versions 0.6 and 0.7,
    the token cache, sequence numbers.
  \<^item> \<open>RingBuffer\<close> (\<^verbatim>\<open>engine/shared/ringbuffer.cpp\<close>): the memory with its block headers refines a queue
    (locale \<open>item_queue\<close>), and is never left by any sequence of operations.
  \<^item> \<open>NetConn\<close> (\<^verbatim>\<open>engine/shared/network_conn.cpp\<close> and the unpacker of chunks): every operation of a connection
    returns, its states follow the transitions, and of vital chunks with given numbers exactly those that are next
    in turn are delivered, once and in order.
  \<^item> \<open>Uuid\<close> (\<^verbatim>\<open>engine/shared/uuid_manager.cpp\<close>): text form and registry.
  \<^item> \<open>Snapshot\<close>, \<open>SnapshotDelta\<close>, \<open>SnapshotBuild\<close> (\<^verbatim>\<open>engine/shared/snapshot.cpp\<close>): snapshots in memory,
    deltas with the round trip, when \<open>UnpackDelta\<close> stays within its arrays and what it gives then, the builder and
    the storage.
  \<^item> \<open>SnapIds\<close> (\<^verbatim>\<open>engine/server/snap_id_pool.cpp\<close>): no id is given out twice.
  \<^item> \<open>NetServer\<close> (operations), \<open>NetServerInv\<close> (invariant, reachable states), \<open>NetServerSafe\<close> (properties), for
    \<^verbatim>\<open>engine/shared/network_server.cpp\<close>.
  \<^item> \<open>DList\<close> (doubly linked lists), \<open>NetBan\<close> (operations), \<open>NetBanPool\<close> (the linked pools, in the locale
    \<open>ban_data\<close>), \<open>NetBanLookup\<close> (its interpretations for addresses and ranges, the search), \<open>NetBanSafe\<close>
    (refinement of two lists, properties), for \<^verbatim>\<open>engine/shared/netban.cpp\<close>.
  \<^item> \<open>Stun\<close> (\<^verbatim>\<open>engine/shared/stun.cpp\<close>, \<^verbatim>\<open>network_stun.cpp\<close>), \<open>NetClient\<close> and \<open>NetClientSafe\<close>
    (\<^verbatim>\<open>network_client.cpp\<close>): the client, and its handshake together with the server of \<open>NetServer\<close>.
  \<^item> \<open>AuthManager\<close> (\<^verbatim>\<open>engine/server/authmanager.cpp\<close>): the keys of the remote console are a map.
  \<^item> \<open>Messages\<close> (\<^verbatim>\<open>engine/shared/protocol_ex.cpp\<close>, ids of \<^verbatim>\<open>protocol.h\<close> and \<^verbatim>\<open>protocol7.h\<close>): the ids
    of messages and their way to the other side.
  \<^item> \<open>Server\<close> (state, sending, the map, the list of commands), \<open>ServerAdmin\<close> (callbacks, kicks, bans, keys) and
    \<open>ServerPackets\<close> (the messages of clients), for \<^verbatim>\<open>engine/server/server.cpp\<close>; \<open>ServerInv\<close> and
    \<open>ServerMessages\<close>: each operation returns, keeps the invariant, and gives nobody rights or entry, but for the two
    messages that are there for it; \<open>ServerRun\<close>: the other commands of the console, what the game sets, its tick, and
    the change of the map; \<open>ServerSafe\<close>: the engine as a state machine, and its properties.
  \<^item> \<open>NetConsole\<close> (\<^verbatim>\<open>engine/shared/network_console_conn.cpp\<close>, \<^verbatim>\<open>network_console.cpp\<close>,
    \<^verbatim>\<open>econ.cpp\<close>): the external console, operations and the lines of a stream; \<open>EconSafe\<close>: the console over
    the engine as a state machine, the end of its loops, and who is let in.
  \<^item> \<open>Console\<close> (\<^verbatim>\<open>engine/shared/console.cpp\<close>): the command interpreter, with its list of commands, the
    parser of lines and arguments, and access levels; \<open>ConsoleSafe\<close>: arguments arrive as they are, only permitted
    commands run, and what is registered is found.
\<close>

text \<open>
  HOW THE CODE IS MODELLED.

  Structs are records, enums datatypes, \<open>int\<close> is a word of 32 bits where the code may wrap and \<open>int\<close> or \<open>nat\<close>
  where values are bounded by what is stored. Memory whose layout matters (packets behind their end, the ring
  buffer, snapshots) is a list of bytes or words; pointers into arrays are indices. An operation takes its object
  and returns it changed; \<open>None\<close> stands for a failed assertion, an access out of bounds or a loop that does not end,
  so that a theorem that an operation gives \<open>Some\<close> excludes these. Sent datagrams and the clock are in a record
  \<open>net\<close> that is passed on; the clock is any function of the number of the call. The digests, and in the engine
  the game and the console, are parameters. Callbacks are recorded as events.

  In the engine, \<open>srv_env\<close> is what the configuration, the map and the game are at the time of an operation; it may
  change between operations. \<open>ev_Execute\<close> is the console, of which the theorems assume \<open>console_ok\<close>: what a
  line does to the engine is what some of the modelled commands (\<open>console_cmd\<close>) do one after the other, whichever it
  makes of it; a command that only prints is the lines it logs, and one for what is not modelled is none. The lines
  that the operations themselves log are operations of their own (\<open>Cmd_log_line\<close>). \<open>s_Game\<close> lists what the game was told. The network
  server changes by itself between operations in \<open>Do_network\<close>, as far as \<open>NetServerInv\<close> shows of its operations:
  its invariant is kept, and the addresses of clients in use stay.

  REACHABLE STATES. Connections, the ring buffer, the network server, the client, the bans, the ids, the engine
  and the external console each have an operation type, a function that executes an operation, and states reached from a start by any
  sequence of operations (\<open>conn_run\<close>, \<open>ring_run\<close>, \<open>server_reaches\<close>, \<open>client_run\<close>, \<open>netban_run\<close>, \<open>ids_reach\<close>,
  \<open>engine_reaches\<close>, \<open>econ_reaches\<close>). An invariant is kept by each operation, and the properties hold in every such state.

  BOUNDS AND FUEL. The loops over the blocks of a ring buffer have the number of items that fit as fuel
  (\<open>max_items\<close>), which is more than there can be blocks. The list of bans in use and a hash list have at most
  \<open>MAX_BANS\<close> entries, the fuel of their loops; the removal of expired bans has one more. \<open>FetchChunk\<close> is defined
  with a measure, the bytes that are left; numbers are printed with a measure on their size, and STUN attributes are
  read with one on the remaining bytes. The loops over the free ids, which the invariant shows to end, are partial
  functions, as are the loops that send over TCP and that take lines: the first ends if a call that sends something
  makes progress or fails (\<open>sends_progress\<close>), the second because each line makes what is buffered shorter. The theorems that operations return need no assumption on fuel.
\<close>

text \<open>
  NOT MODELLED.

  \<^item> Of the engine of the server: names, clans and countries, the making of snapshots for each client
    (\<open>DoSnapshot\<close>, which calls the modelled builder, delta and storage), the list of maps, the
    cached server information, loading of maps, demos, the lookup in block lists, the loop in \<open>Run\<close> around the modelled
    steps, and the traffic of a client, a floating-point average. The engine takes the arguments
    of its commands as parsed.
  \<^item> The physics, characters and teams of the game work on floating-point numbers, for which the libraries used here
    have no faithful type; scores are queries of SQL databases.
  \<^item> The client beyond its end of the connection, the menus, the map editor, rendering, sound and video are calls of
    graphics and media libraries for the most part.
  \<^item> Of the external console: the socket that listens, and the lines of the log that others print.
  \<^item> Of the console: the variables of the configuration, colours, numbers with a decimal point (a parameter of the
    parser), and what the commands do that others register (\<open>ce_Run\<close>); the engine and the external console take a
    whole interpreter as a parameter in the same way.
  \<^item> Storage, HTTP, jobs, sockets and the console's input and output are calls of the operating system or of other
    libraries. The JSON parser and the libraries below \<^verbatim>\<open>engine/external\<close> are third-party code.
\<close>

end
